(* ===== verification/WsPrelude.thy ===== *)
theory WsPrelude
  imports Complex_Main "HOL-Library.Multiset"
    "HOL-Library.List_Lexorder" "HOL-Library.Char_ord"
begin

text \<open>
  Shared vocabulary of the development: how Python values are represented, the fact
  collections the component theories add to, and the generic lemmas on lists, dictionaries
  and options that several components use.

  Python's \<open>str\<close> is a \<open>string\<close> (one \<open>char\<close> per code point; identifiers, field names and
  paths of the modelled code are compared and concatenated only, never inspected beyond their
  characters).  A \<open>dict\<close> is an association list in insertion order, because Python iterates
  dictionaries in that order.  Durations and core counts, floats in the source, are exact
  rationals: the rounding of IEEE arithmetic is not modelled except where a definition says so.
\<close>

section \<open>Fact collections\<close>

named_theorems perm_simps \<open>unfolding rules for the permission decision\<close>
named_theorems store_simps \<open>laws of the row store and of the operations built on it\<close>
named_theorems quota_simps \<open>unfolding rules for limits and admission\<close>
named_theorems failover_simps \<open>unfolding rules for the failover sweeps\<close>
named_theorems workflow_simps \<open>unfolding rules for the step journal\<close>

section \<open>Values that may be absent\<close>

text \<open>
  \<open>getattr(obj, name, UNSET)\<close> distinguishes an attribute that is missing (or holds the
  \<open>UNSET\<close> sentinel) from one that holds a value, which may itself be \<open>None\<close>.
\<close>

datatype 'a attr = Unset | Val 'a

fun attr_default :: "'a \<Rightarrow> 'a attr \<Rightarrow> 'a" where
  "attr_default d Unset = d"
| "attr_default d (Val v) = v"

section \<open>Dictionaries in insertion order\<close>

type_synonym ('k, 'v) dict = "('k \<times> 'v) list"

definition dict_get :: "('k, 'v) dict \<Rightarrow> 'k \<Rightarrow> 'v option" where
  "dict_get d k = map_of d k"

fun dict_set :: "'k \<Rightarrow> 'v \<Rightarrow> ('k, 'v) dict \<Rightarrow> ('k, 'v) dict" where
  "dict_set k v [] = [(k, v)]"
| "dict_set k v ((k', v') # d) = (if k = k' then (k', v) # d else (k', v') # dict_set k v d)"

fun dict_pop :: "'k \<Rightarrow> ('k, 'v) dict \<Rightarrow> ('k, 'v) dict" where
  "dict_pop k [] = []"
| "dict_pop k ((k', v') # d) = (if k = k' then dict_pop k d else (k', v') # dict_pop k d)"

abbreviation dict_keys :: "('k, 'v) dict \<Rightarrow> 'k list" where
  "dict_keys d \<equiv> map fst d"

text \<open>What every Python dictionary satisfies: no key twice.\<close>

definition dict_ok :: "('k, 'v) dict \<Rightarrow> bool" where
  "dict_ok d \<longleftrightarrow> distinct (dict_keys d)"

lemma dict_get_Nil [simp]: "dict_get [] k = None"
  by (simp add: dict_get_def)

lemma dict_get_Cons [simp]:
  "dict_get ((k', v) # d) k = (if k = k' then Some v else dict_get d k)"
  by (simp add: dict_get_def)

lemma dict_get_set [simp]:
  "dict_get (dict_set k v d) k' = (if k' = k then Some v else dict_get d k')"
  by (induction k v d rule: dict_set.induct) auto

lemma dict_get_pop [simp]:
  "dict_get (dict_pop k d) k' = (if k' = k then None else dict_get d k')"
  by (induction k d rule: dict_pop.induct) auto

lemma set_keys_set [simp]: "set (dict_keys (dict_set k v d)) = insert k (set (dict_keys d))"
  by (induction k v d rule: dict_set.induct) auto

lemma set_keys_pop [simp]: "set (dict_keys (dict_pop k d)) = set (dict_keys d) - {k}"
  by (induction k d rule: dict_pop.induct) auto

lemma dict_ok_Nil [simp]: "dict_ok []"
  by (simp add: dict_ok_def)

lemma dict_ok_Cons [simp]:
  "dict_ok ((k, v) # d) \<longleftrightarrow> k \<notin> set (dict_keys d) \<and> dict_ok d"
  by (simp add: dict_ok_def)

lemma dict_ok_set [simp, intro]: "dict_ok d \<Longrightarrow> dict_ok (dict_set k v d)"
  by (induction k v d rule: dict_set.induct) (simp_all del: set_map)

lemma dict_ok_pop [simp, intro]: "dict_ok d \<Longrightarrow> dict_ok (dict_pop k d)"
  by (induction k d rule: dict_pop.induct) (simp_all del: set_map)

lemma dict_get_eq_None: "dict_get d k = None \<longleftrightarrow> k \<notin> set (dict_keys d)"
  by (simp add: dict_get_def map_of_eq_None_iff)

lemma dict_get_in: "dict_get d k = Some v \<Longrightarrow> (k, v) \<in> set d"
  by (simp add: dict_get_def map_of_SomeD)

lemma dict_ok_get: "dict_ok d \<Longrightarrow> (k, v) \<in> set d \<Longrightarrow> dict_get d k = Some v"
  by (simp add: dict_ok_def dict_get_def)

section \<open>Strings\<close>

definition starts_with :: "string \<Rightarrow> string \<Rightarrow> bool" where
  "starts_with p s \<longleftrightarrow> take (length p) s = p"

lemma starts_with_append [simp]: "starts_with p (p @ s)"
  by (simp add: starts_with_def)

text \<open>\<open>str.lower()\<close>, of the ASCII letters.\<close>

definition lower :: "string \<Rightarrow> string" where
  "lower s = map (\<lambda>c. if 65 \<le> (of_char c :: nat) \<and> (of_char c :: nat) \<le> 90
                      then char_of ((of_char c :: nat) + 32) else c) s"

text \<open>\<open>str(n)\<close> of an \<open>int\<close> that is not negative.\<close>

fun dec :: "nat \<Rightarrow> string" where
  "dec n = (if n < 10 then [char_of (48 + n)] else dec (n div 10) @ [char_of (48 + n mod 10)])"

declare dec.simps [simp del]

definition digit_char :: "char \<Rightarrow> bool" where
  "digit_char c \<longleftrightarrow> (48 :: nat) \<le> of_char c \<and> of_char c \<le> (57 :: nat)"

lemma of_char_digit: "n < 10 \<Longrightarrow> (of_char (char_of (48 + n) :: char) :: nat) = 48 + n"
  by (simp add: of_char_of)

lemma dec_digits: "dec n \<noteq> [] \<and> (\<forall>c \<in> set (dec n). digit_char c)"
  by (induction n rule: dec.induct) (subst (1 2) dec.simps, auto simp: digit_char_def of_char_digit)

definition digits_value :: "string \<Rightarrow> nat" where
  "digits_value s = foldl (\<lambda>a c. 10 * a + (of_char c - 48)) 0 s"

lemma digits_value_dec: "digits_value (dec n) = n"
  by (induction n rule: dec.induct) (subst dec.simps, auto simp: digits_value_def of_char_digit)

lemma dec_inj [simp]: "dec m = dec n \<longleftrightarrow> m = n"
  by (metis digits_value_dec)

lemma takeWhile_dec:
  "xs = [] \<or> \<not> digit_char (hd xs) \<Longrightarrow> takeWhile digit_char (dec n @ xs) = dec n"
  using dec_digits [of n] by (cases xs) auto

lemma dec_prefix_free:
  assumes "dec m @ xs = dec n @ ys" "xs = [] \<or> \<not> digit_char (hd xs)" "ys = [] \<or> \<not> digit_char (hd ys)"
  shows "m = n \<and> xs = ys"
  using assms takeWhile_dec [of xs m] takeWhile_dec [of ys n] by (metis dec_inj append_same_eq same_append_eq)

section \<open>Lists\<close>

lemma filter_eq_all: "(\<And>x. x \<in> set xs \<Longrightarrow> P x = Q x) \<Longrightarrow> filter P xs = filter Q xs"
  by (rule filter_cong) auto

lemma sum_list_nonneg_int: "(\<And>x. x \<in> set xs \<Longrightarrow> 0 \<le> f x) \<Longrightarrow> 0 \<le> (\<Sum>x\<leftarrow>xs. (f x :: int))"
  by (induction xs) auto

section \<open>Exceptions\<close>

text \<open>
  A fallible operation returns \<open>Inl\<close> of its error or \<open>Inr\<close> of its value; \<open>bindE\<close> is
  sequencing and \<open>mapE\<close> a comprehension whose element expression may raise.
\<close>

definition bindE :: "'e + 'a \<Rightarrow> ('a \<Rightarrow> 'e + 'b) \<Rightarrow> 'e + 'b" where
  "bindE m f = (case m of Inl e \<Rightarrow> Inl e | Inr x \<Rightarrow> f x)"

fun mapE :: "('a \<Rightarrow> 'e + 'b) \<Rightarrow> 'a list \<Rightarrow> 'e + 'b list" where
  "mapE f [] = Inr []"
| "mapE f (x # xs) = bindE (f x) (\<lambda>y. bindE (mapE f xs) (\<lambda>ys. Inr (y # ys)))"

lemma bindE_Inl [simp]: "bindE (Inl e) f = Inl e"
  by (simp add: bindE_def)

lemma bindE_Inr [simp]: "bindE (Inr x) f = f x"
  by (simp add: bindE_def)

lemma bindE_eq_Inr: "bindE m f = Inr y \<longleftrightarrow> (\<exists>x. m = Inr x \<and> f x = Inr y)"
  by (cases m) auto

lemma bindE_eq_Inl: "bindE m f = Inl e \<longleftrightarrow> m = Inl e \<or> (\<exists>x. m = Inr x \<and> f x = Inl e)"
  by (cases m) auto

lemma bindE_split: "P (bindE m f) \<longleftrightarrow> (\<forall>e. m = Inl e \<longrightarrow> P (Inl e)) \<and> (\<forall>x. m = Inr x \<longrightarrow> P (f x))"
  by (cases m) auto

lemma mapE_Inr: "mapE f xs = Inr ys \<longleftrightarrow> list_all2 (\<lambda>x y. f x = Inr y) xs ys"
  by (induction xs arbitrary: ys) (auto simp: bindE_eq_Inr list_all2_Cons1)

end
