(* ===== verification/PermModel.thy ===== *)
theory PermModel
  imports WsPrelude
begin

text \<open>
  The access-control core: \<open>perm/model.py\<close> (the \<open>Permission\<close> value and its verbs),
  \<open>perm/authorize.py\<close> (the single decision point) and \<open>perm/disclosure.py\<close> (the three
  disclosure tiers).  Logging is not modelled.  The lemmas describe the decision on every
  branch: what an AI may do compared with the person it serves, what the owner, the
  visibility label and the grant lists contribute, and monotonicity in the actor's groups.
\<close>

section \<open>Vocabulary (perm/model.py)\<close>

type_synonym subject = string

definition ALL_subject :: subject where
  "ALL_subject = ''all''"

definition user_subject :: "string \<Rightarrow> subject" where
  "user_subject uid = ''user:'' @ uid"

definition group_subject :: "string \<Rightarrow> subject" where
  "group_subject gid = ''group:'' @ gid"

datatype visibility = Public | Restricted | Private

datatype verb =
    ReadMeta | WriteMeta | ReadContent | AddContent | EditContent | ReadChat
  | Converse | Execute | UseTerminal | UseWui | ChangePermission

definition VERBS :: "verb list" where
  "VERBS = [ReadMeta, WriteMeta, ReadContent, AddContent, EditContent, ReadChat,
            Converse, Execute, UseTerminal, UseWui, ChangePermission]"

definition AI_FORBIDDEN :: "verb set" where
  "AI_FORBIDDEN = {ChangePermission, UseTerminal}"

record permission =
  visibility :: visibility
  read_meta :: "subject list"
  write_meta :: "subject list"
  read_content :: "subject list"
  add_content :: "subject list"
  edit_content :: "subject list"
  read_chat :: "subject list"
  converse :: "subject list"
  execute :: "subject list"
  use_terminal :: "subject list"
  use_wui :: "subject list"
  change_permission :: "subject list"

text \<open>\<open>Permission()\<close>: public, with every grant list empty.\<close>

definition default_permission :: permission where
  "default_permission = \<lparr>visibility = Public, read_meta = [], write_meta = [],
     read_content = [], add_content = [], edit_content = [], read_chat = [], converse = [],
     execute = [], use_terminal = [], use_wui = [], change_permission = []\<rparr>"

fun grants :: "permission \<Rightarrow> verb \<Rightarrow> subject list" where
  "grants p ReadMeta = read_meta p"
| "grants p WriteMeta = write_meta p"
| "grants p ReadContent = read_content p"
| "grants p AddContent = add_content p"
| "grants p EditContent = edit_content p"
| "grants p ReadChat = read_chat p"
| "grants p Converse = converse p"
| "grants p Execute = execute p"
| "grants p UseTerminal = use_terminal p"
| "grants p UseWui = use_wui p"
| "grants p ChangePermission = change_permission p"

lemma set_VERBS [simp]: "set VERBS = UNIV"
proof -
  have "v \<in> set VERBS" for v by (cases v) (simp_all add: VERBS_def)
  then show ?thesis by blast
qed

lemma user_subject_inject [simp]: "user_subject a = user_subject b \<longleftrightarrow> a = b"
  by (simp add: user_subject_def)

lemma group_subject_inject [simp]: "group_subject a = group_subject b \<longleftrightarrow> a = b"
  by (simp add: group_subject_def)

lemma subjects_disjoint [simp]:
  "user_subject a \<noteq> group_subject b" "group_subject b \<noteq> user_subject a"
  "user_subject a \<noteq> ALL_subject" "ALL_subject \<noteq> user_subject a"
  "group_subject b \<noteq> ALL_subject" "ALL_subject \<noteq> group_subject b"
  by (simp_all add: user_subject_def group_subject_def ALL_subject_def)

section \<open>The decision (perm/authorize.py)\<close>

record actor =
  user_id :: string
  is_ai :: bool
  ceiling :: "verb set option"
  groups :: "string set"

definition human :: "string \<Rightarrow> string set \<Rightarrow> actor" where
  "human user gs = \<lparr>user_id = user, is_ai = False, ceiling = None, groups = gs\<rparr>"

definition ai :: "string \<Rightarrow> verb set option \<Rightarrow> string set \<Rightarrow> actor" where
  "ai user c gs = \<lparr>user_id = user, is_ai = True, ceiling = c, groups = gs\<rparr>"

definition subjects :: "actor \<Rightarrow> subject set" where
  "subjects a = insert (user_subject (user_id a)) (group_subject ` groups a)"

definition effective_grants :: "permission \<Rightarrow> verb \<Rightarrow> subject set" where
  "effective_grants p v =
     set (grants p v)
     \<union> (if v = AddContent then set (grants p EditContent) else {})
     \<union> (if v = UseWui then set (grants p Converse) \<union> set (grants p Execute) else {})
     \<union> (if v = ReadContent then set (grants p UseWui) else {})"

definition granted :: "actor \<Rightarrow> permission \<Rightarrow> verb \<Rightarrow> bool" where
  "granted a p v \<longleftrightarrow>
     (let gs = effective_grants p v in ALL_subject \<in> gs \<or> subjects a \<inter> gs \<noteq> {})"

definition authorize ::
  "actor \<Rightarrow> verb \<Rightarrow> permission option \<Rightarrow> string \<Rightarrow> string set \<Rightarrow> bool \<Rightarrow> bool" where
  "authorize a v perm owner superusers discoverable_restricted =
     (if is_ai a \<and> v \<in> AI_FORBIDDEN then False
      else if \<not> is_ai a \<and> user_id a \<in> superusers then True
      else if is_ai a \<and> (case ceiling a of None \<Rightarrow> False | Some c \<Rightarrow> v \<notin> c) then False
      else if user_id a = owner then True
      else let p = (case perm of None \<Rightarrow> default_permission | Some p \<Rightarrow> p) in
        if v = ChangePermission then granted a p v
        else if visibility p = Public then True
        else if visibility p = Private then False
        else if discoverable_restricted \<and> v = ReadMeta then True
        else granted a p v)"

lemma human_simps [simp]:
  "user_id (human u gs) = u" "is_ai (human u gs) = False"
  "ceiling (human u gs) = None" "groups (human u gs) = gs"
  by (simp_all add: human_def)

lemma ai_simps [simp]:
  "user_id (ai u c gs) = u" "is_ai (ai u c gs) = True"
  "ceiling (ai u c gs) = c" "groups (ai u c gs) = gs"
  by (simp_all add: ai_def)

lemma subjects_human_ai [simp]: "subjects (ai u c gs) = subjects (human u gs)"
  by (simp add: subjects_def)

lemma granted_human_ai [simp]: "granted (ai u c gs) p v = granted (human u gs) p v"
  by (simp add: granted_def)

lemma subjects_mono: "gs \<subseteq> gs' \<Longrightarrow> subjects (human u gs) \<subseteq> subjects (human u gs')"
  by (auto simp: subjects_def)

lemma granted_mono_groups:
  "gs \<subseteq> gs' \<Longrightarrow> granted (human u gs) p v \<Longrightarrow> granted (human u gs') p v"
  unfolding granted_def Let_def using subjects_mono [of gs gs' u] by blast

text \<open>
  The decision for a person who is neither owner nor superuser depends on the resource
  only; the same function decides for the AI once its own bars are passed.
\<close>

definition resource_decision :: "actor \<Rightarrow> verb \<Rightarrow> permission option \<Rightarrow> bool \<Rightarrow> bool" where
  "resource_decision a v perm disc =
     (let p = (case perm of None \<Rightarrow> default_permission | Some p \<Rightarrow> p) in
        if v = ChangePermission then granted a p v
        else visibility p = Public
          \<or> visibility p = Restricted \<and> (disc \<and> v = ReadMeta \<or> granted a p v))"

lemma authorize_unfold:
  "authorize a v perm owner su disc =
     (if is_ai a \<and> v \<in> AI_FORBIDDEN then False
      else if \<not> is_ai a \<and> user_id a \<in> su then True
      else if is_ai a \<and> (case ceiling a of None \<Rightarrow> False | Some c \<Rightarrow> v \<notin> c) then False
      else user_id a = owner \<or> resource_decision a v perm disc)"
proof -
  define p where "p = (case perm of None \<Rightarrow> default_permission | Some p \<Rightarrow> p)"
  show ?thesis
    by (cases "visibility p")
       (auto simp: authorize_def resource_decision_def p_def [symmetric] Let_def)
qed

lemma authorize_human [perm_simps]:
  "authorize (human u gs) v perm owner su disc \<longleftrightarrow>
     u \<in> su \<or> u = owner \<or> resource_decision (human u gs) v perm disc"
  by (simp add: authorize_unfold)

lemma resource_decision_ai [simp]:
  "resource_decision (ai u c gs) v perm disc = resource_decision (human u gs) v perm disc"
  by (simp add: resource_decision_def)

lemma authorize_ai [perm_simps]:
  "authorize (ai u c gs) v perm owner su disc \<longleftrightarrow>
     v \<notin> AI_FORBIDDEN \<and> (case c of None \<Rightarrow> True | Some vs \<Rightarrow> v \<in> vs)
     \<and> (u = owner \<or> resource_decision (human u gs) v perm disc)"
  by (simp add: authorize_unfold split: option.splits)

lemma resource_decision_mono_groups:
  "gs \<subseteq> gs' \<Longrightarrow> resource_decision (human u gs) v perm disc \<Longrightarrow>
   resource_decision (human u gs') v perm disc"
  by (auto simp: resource_decision_def Let_def split: if_splits dest: granted_mono_groups)

lemma resource_decision_None [simp]:
  "resource_decision a v None disc \<longleftrightarrow> v \<noteq> ChangePermission"
  by (auto simp: resource_decision_def default_permission_def granted_def effective_grants_def)

lemma resource_decision_mono_disc:
  "resource_decision a v perm False \<Longrightarrow> resource_decision a v perm disc"
  by (auto simp: resource_decision_def Let_def split: if_splits)

section \<open>Disclosure tiers (perm/disclosure.py)\<close>

record disclosure_partition =
  readable :: "string list"
  discoverable :: "string list"
  hidden :: "string list"

fun partition_loop ::
  "actor \<Rightarrow> string set \<Rightarrow> bool \<Rightarrow> (string \<times> permission option \<times> string) list
   \<Rightarrow> disclosure_partition \<Rightarrow> disclosure_partition" where
  "partition_loop a su disc [] acc = acc"
| "partition_loop a su disc ((rid, perm, owner) # es) acc =
     partition_loop a su disc es
       (if authorize a ReadContent perm owner su False
        then acc\<lparr>readable := readable acc @ [rid]\<rparr>
        else if authorize a ReadMeta perm owner su disc
        then acc\<lparr>discoverable := discoverable acc @ [rid]\<rparr>
        else acc\<lparr>hidden := hidden acc @ [rid]\<rparr>)"

definition partition_by_disclosure ::
  "actor \<Rightarrow> (string \<times> permission option \<times> string) list \<Rightarrow> string set \<Rightarrow> bool
   \<Rightarrow> disclosure_partition" where
  "partition_by_disclosure a entries su disc =
     partition_loop a su disc entries \<lparr>readable = [], discoverable = [], hidden = []\<rparr>"

text \<open>The tier of one entry, and the loop as three order-preserving filters.\<close>

definition may_read :: "actor \<Rightarrow> string set \<Rightarrow> (string \<times> permission option \<times> string) \<Rightarrow> bool" where
  "may_read a su e = (case e of (rid, perm, owner) \<Rightarrow> authorize a ReadContent perm owner su False)"

definition may_discover ::
  "actor \<Rightarrow> string set \<Rightarrow> bool \<Rightarrow> (string \<times> permission option \<times> string) \<Rightarrow> bool" where
  "may_discover a su disc e = (case e of (rid, perm, owner) \<Rightarrow> authorize a ReadMeta perm owner su disc)"

lemma partition_loop_eq:
  "partition_loop a su disc es acc =
     \<lparr>readable = readable acc @ map fst (filter (may_read a su) es),
      discoverable = discoverable acc
        @ map fst (filter (\<lambda>e. \<not> may_read a su e \<and> may_discover a su disc e) es),
      hidden = hidden acc
        @ map fst (filter (\<lambda>e. \<not> may_read a su e \<and> \<not> may_discover a su disc e) es)\<rparr>"
  by (induction a su disc es acc rule: partition_loop.induct)
     (auto simp: may_read_def may_discover_def)

lemma partition_by_disclosure_eq:
  "partition_by_disclosure a es su disc =
     \<lparr>readable = map fst (filter (may_read a su) es),
      discoverable = map fst (filter (\<lambda>e. \<not> may_read a su e \<and> may_discover a su disc e) es),
      hidden = map fst (filter (\<lambda>e. \<not> may_read a su e \<and> \<not> may_discover a su disc e) es)\<rparr>"
  by (simp add: partition_by_disclosure_def partition_loop_eq)

section \<open>The order on visibility labels\<close>

fun visibility_rank :: "visibility \<Rightarrow> nat" where
  "visibility_rank Private = 0"
| "visibility_rank Restricted = 1"
| "visibility_rank Public = 2"

instantiation visibility :: linorder
begin

definition less_eq_visibility :: "visibility \<Rightarrow> visibility \<Rightarrow> bool" where
  "less_eq_visibility x y \<longleftrightarrow> visibility_rank x \<le> visibility_rank y"

definition less_visibility :: "visibility \<Rightarrow> visibility \<Rightarrow> bool" where
  "less_visibility x y \<longleftrightarrow> visibility_rank x < visibility_rank y"

instance
proof
  fix x y z :: visibility
  show "x < y \<longleftrightarrow> x \<le> y \<and> \<not> y \<le> x"
    by (auto simp: less_eq_visibility_def less_visibility_def)
  show "x \<le> x" by (simp add: less_eq_visibility_def)
  show "x \<le> y \<Longrightarrow> y \<le> z \<Longrightarrow> x \<le> z" by (simp add: less_eq_visibility_def)
  show "x \<le> y \<Longrightarrow> y \<le> x \<Longrightarrow> x = y"
    by (cases x; cases y) (simp_all add: less_eq_visibility_def)
  show "x \<le> y \<or> y \<le> x" by (auto simp: less_eq_visibility_def)
qed

end

lemma grants_visibility [simp]: "grants (p\<lparr>visibility := x\<rparr>) v = grants p v"
  by (cases v) simp_all

lemma granted_visibility [simp]: "granted a (p\<lparr>visibility := x\<rparr>) v = granted a p v"
  by (simp add: granted_def effective_grants_def)

lemma resource_decision_mono_visibility:
  assumes "x \<le> y" and "resource_decision a v (Some (p\<lparr>visibility := x\<rparr>)) disc"
  shows "resource_decision a v (Some (p\<lparr>visibility := y\<rparr>)) disc"
  using assms
  by (cases x; cases y)
     (auto simp: resource_decision_def Let_def less_eq_visibility_def split: if_splits)

section \<open>Properties\<close>

text \<open>
  C1: an AI turn may do exactly what is outside the forbidden verbs, inside its preset
  ceiling and open to the person it serves in their own right: being driven by a superuser
  adds nothing, and neither ownership nor a grant lifts the two hard bars.
\<close>

theorem ai_authority_exact:
  "authorize (ai u c gs) v perm owner su disc \<longleftrightarrow>
     v \<notin> AI_FORBIDDEN \<and> (case c of None \<Rightarrow> True | Some vs \<Rightarrow> v \<in> vs)
     \<and> authorize (human u gs) v perm owner {} disc"
  by (simp add: perm_simps)

text \<open>
  tightening the visibility label of a resource, leaving its grant lists as they are,
  never lets anybody do more: whatever an actor may do under the tighter of two labels they
  may do under the looser one.
\<close>

theorem tighter_label_grants_no_more:
  assumes "x \<le> y" and "authorize a v (Some (p\<lparr>visibility := x\<rparr>)) owner su disc"
  shows "authorize a v (Some (p\<lparr>visibility := y\<rparr>)) owner su disc"
  using assms resource_decision_mono_visibility [OF assms(1)]
  by (auto simp: authorize_unfold split: if_splits)

theorem tighter_label_grants_no_more_witness:
  "authorize (human ''bob'' {}) ReadMeta
     (Some (default_permission\<lparr>read_meta := [''user:bob''], visibility := Public\<rparr>)) ''alice'' {} False"
  by (rule tighter_label_grants_no_more [where x = Restricted])
     (simp_all add: less_eq_visibility_def perm_simps resource_decision_def granted_def
        subjects_def effective_grants_def user_subject_def)

text \<open>
  disclosure splits the candidates without losing or duplicating one, keeps the input
  order within each tier, and the tiers are exactly: may read the content; may not, but may
  know it exists; neither.
\<close>

theorem disclosure_partition_exact:
  "partition_by_disclosure a es su disc =
     \<lparr>readable = map fst (filter (\<lambda>(i, p, ow). authorize a ReadContent p ow su False) es),
      discoverable = map fst (filter (\<lambda>(i, p, ow). \<not> authorize a ReadContent p ow su False
                                        \<and> authorize a ReadMeta p ow su disc) es),
      hidden = map fst (filter (\<lambda>(i, p, ow). \<not> authorize a ReadContent p ow su False
                                  \<and> \<not> authorize a ReadMeta p ow su disc) es)\<rparr>
   \<and> mset (readable (partition_by_disclosure a es su disc)
           @ discoverable (partition_by_disclosure a es su disc)
           @ hidden (partition_by_disclosure a es su disc)) = mset (map fst es)"
proof
  have eqs: "may_read a su = (\<lambda>(i, p, ow). authorize a ReadContent p ow su False)"
    "may_discover a su disc = (\<lambda>(i, p, ow). authorize a ReadMeta p ow su disc)"
    by (auto simp: may_read_def may_discover_def)
  show "partition_by_disclosure a es su disc =
     \<lparr>readable = map fst (filter (\<lambda>(i, p, ow). authorize a ReadContent p ow su False) es),
      discoverable = map fst (filter (\<lambda>(i, p, ow). \<not> authorize a ReadContent p ow su False
                                        \<and> authorize a ReadMeta p ow su disc) es),
      hidden = map fst (filter (\<lambda>(i, p, ow). \<not> authorize a ReadContent p ow su False
                                  \<and> \<not> authorize a ReadMeta p ow su disc) es)\<rparr>"
    by (simp add: partition_by_disclosure_eq eqs case_prod_unfold)
  show "mset (readable (partition_by_disclosure a es su disc)
           @ discoverable (partition_by_disclosure a es su disc)
           @ hidden (partition_by_disclosure a es su disc)) = mset (map fst es)"
    unfolding partition_by_disclosure_eq by (induction es) auto
qed

end
