(* ===== verification/PermScope.thy ===== *)
theory PermScope
  imports PermModel
begin

text \<open>
  The storage-layer visibility predicates of \<open>perm/scope.py\<close>.  Each builder returns a
  function from the reading user to the predicate that specstar's \<open>access_scope\<close> ANDs into
  every read: the sentinel \<open>UNRESTRICTED\<close>, no predicate, or a query term.  The query terms
  are the ones the code builds with \<open>QB\<close>; how a storage backend answers them is specstar's,
  so it is the parameter of the locale \<open>query_engine\<close>, whose laws are the documented meaning
  of the operators used here.  The lemmas relate each predicate to the decision of
  \<open>authorize\<close> (theory PermModel).
\<close>

section \<open>Rows and query terms\<close>

text \<open>
  An indexed row: the cell of each indexed field may be absent (a row written before the
  field was indexed), a JSON null, a string or a list of strings; \<open>created_by\<close> is always
  present.
\<close>

datatype cell = Absent | JNull | JStr string | JList "string list"

record row =
  cells :: "string \<Rightarrow> cell"
  row_created_by :: string

datatype qterm =
    QIsna string
  | QEq string string
  | QCreatedBy string
  | QContainsAny string "string list"
  | QContains string string
  | QAnd qterm qterm
  | QOr qterm qterm

datatype predicate = Unrestricted | NoPredicate | Where qterm

type_synonym access_scope = "string \<Rightarrow> predicate"
type_synonym groups_provider = "(string \<Rightarrow> string list) option"

section \<open>The builders\<close>

definition subjects_of :: "string \<Rightarrow> string list \<Rightarrow> subject list" where
  "subjects_of user gs = user_subject user # map group_subject gs @ [ALL_subject]"

definition provided_groups :: "groups_provider \<Rightarrow> string \<Rightarrow> string list" where
  "provided_groups gp user = (case gp of None \<Rightarrow> [] | Some f \<Rightarrow> f user)"

definition visibility_scope ::
  "string \<Rightarrow> string \<Rightarrow> string option \<Rightarrow> string set \<Rightarrow> groups_provider \<Rightarrow> access_scope" where
  "visibility_scope visibility_field read_meta_field owner_field superusers gp user =
     (if user \<in> superusers then Unrestricted
      else
        let gs = provided_groups gp user;
            owner = (case owner_field of None \<Rightarrow> QCreatedBy user | Some f \<Rightarrow> QEq f user);
            granted = QContainsAny read_meta_field (subjects_of user gs)
        in Where (QOr (QOr (QOr (QIsna visibility_field) (QEq visibility_field ''public''))
                           owner)
                      (QAnd (QEq visibility_field ''restricted'') granted)))"

definition collection_access_scope :: "string set \<Rightarrow> groups_provider \<Rightarrow> access_scope" where
  "collection_access_scope superusers gp =
     visibility_scope ''permission.visibility'' ''permission.read_meta'' None superusers gp"

definition and_scopes :: "access_scope \<Rightarrow> access_scope \<Rightarrow> access_scope" where
  "and_scopes a b user =
     (case a user of
        Unrestricted \<Rightarrow> b user
      | NoPredicate \<Rightarrow> b user
      | Where qa \<Rightarrow>
          (case b user of
             Unrestricted \<Rightarrow> Where qa
           | NoPredicate \<Rightarrow> Where qa
           | Where qb \<Rightarrow> Where (QAnd qa qb)))"

definition source_doc_override_scope :: "string set \<Rightarrow> groups_provider \<Rightarrow> access_scope" where
  "source_doc_override_scope superusers gp =
     visibility_scope ''permission.visibility'' ''permission.read_meta''
       (Some ''collection_created_by'') superusers gp"

definition source_doc_access_scope :: "string set \<Rightarrow> groups_provider \<Rightarrow> access_scope" where
  "source_doc_access_scope superusers gp =
     (let collection = visibility_scope ''collection_visibility'' ''collection_read_meta''
            (Some ''collection_created_by'') superusers gp
      in and_scopes collection (source_doc_override_scope superusers gp))"

definition evidence_fields :: "(string \<times> string) list" where
  "evidence_fields =
     [(''collection_visibility'', ''collection_read_meta''),
      (''collection_visibility'', ''collection_read_content''),
      (''doc_visibility'', ''doc_read_meta''),
      (''doc_visibility'', ''doc_read_content'')]"

definition graph_evidence_access_scope :: "string set \<Rightarrow> groups_provider \<Rightarrow> access_scope" where
  "graph_evidence_access_scope superusers gp =
     (let halves = map (\<lambda>(visibility, grants).
            visibility_scope visibility grants (Some ''collection_created_by'') superusers gp)
            evidence_fields
      in foldl and_scopes (hd halves) (tl halves))"

text \<open>
  \<open>readable_collections\<close> answers a set; the code sorts it before putting it into the query,
  so the model takes the sorted list.
\<close>

definition graph_entity_access_scope ::
  "(string \<Rightarrow> string list) \<Rightarrow> string set \<Rightarrow> access_scope" where
  "graph_entity_access_scope readable_collections superusers user =
     (if user \<in> superusers then Unrestricted
      else let visible = readable_collections user in
        if visible = [] then Where (QContains ''collection_ids'' (CHR 0x00 # ''never''))
        else Where (QContainsAny ''collection_ids'' visible))"

definition kbchat_access_scope :: "string set \<Rightarrow> access_scope" where
  "kbchat_access_scope superusers user =
     (if user \<in> superusers then Unrestricted
      else
        let granted = QContainsAny ''permission.read_meta'' (subjects_of user [])
        in Where (QOr (QOr (QOr (QCreatedBy user)
                                (QEq ''permission.visibility'' ''public''))
                           (QAnd (QEq ''permission.visibility'' ''restricted'') granted))
                      (QAnd (QIsna ''permission.visibility'')
                            (QContains ''shared_with'' user))))"

definition conversation_access_scope :: "string set \<Rightarrow> groups_provider \<Rightarrow> access_scope" where
  "conversation_access_scope superusers gp =
     visibility_scope ''item_visibility'' ''item_read_chat'' (Some ''item_created_by'')
       superusers gp"

definition owner_only_access_scope :: "string set \<Rightarrow> access_scope" where
  "owner_only_access_scope superusers user =
     (if user \<in> superusers then Unrestricted else Where (QCreatedBy user))"

definition work_item_access_scope :: "string set \<Rightarrow> groups_provider \<Rightarrow> access_scope" where
  "work_item_access_scope superusers gp = collection_access_scope superusers gp"

section \<open>The backend's side\<close>

text \<open>
  What the scopes rely on of specstar's query evaluation: \<open>isna()\<close> holds of an absent cell
  and of a JSON null, equality with a string only of a cell holding that string, the
  containment operators only of list cells, and \<open>&\<close>, \<open>|\<close> are conjunction and disjunction.
\<close>

locale query_engine =
  fixes matches :: "row \<Rightarrow> qterm \<Rightarrow> bool"
  assumes isna: "matches r (QIsna f) \<longleftrightarrow> cells r f = Absent \<or> cells r f = JNull"
    and eq: "matches r (QEq f s) \<longleftrightarrow> cells r f = JStr s"
    and created: "matches r (QCreatedBy u) \<longleftrightarrow> row_created_by r = u"
    and contains_any:
      "matches r (QContainsAny f xs) \<longleftrightarrow> (\<exists>ys. cells r f = JList ys \<and> set xs \<inter> set ys \<noteq> {})"
    and contains: "matches r (QContains f x) \<longleftrightarrow> (\<exists>ys. cells r f = JList ys \<and> x \<in> set ys)"
    and conj: "matches r (QAnd p q) \<longleftrightarrow> matches r p \<and> matches r q"
    and disj: "matches r (QOr p q) \<longleftrightarrow> matches r p \<or> matches r q"
begin

lemmas matches_simps = isna eq created contains_any contains conj disj

end

fun admits :: "(row \<Rightarrow> qterm \<Rightarrow> bool) \<Rightarrow> row \<Rightarrow> predicate \<Rightarrow> bool" where
  "admits m r Unrestricted = True"
| "admits m r NoPredicate = True"
| "admits m r (Where q) = m r q"

text \<open>
  The visibility a row's own cells state, without reference to a query: public unless
  stated otherwise, the owner always, a restricted row to whoever its list names.
\<close>

definition cell_visible ::
  "cell \<Rightarrow> cell \<Rightarrow> string \<Rightarrow> string set \<Rightarrow> groups_provider \<Rightarrow> string \<Rightarrow> bool" where
  "cell_visible vis grants_cell owner superusers gp user \<longleftrightarrow>
     user \<in> superusers \<or> vis = Absent \<or> vis = JNull \<or> vis = JStr ''public'' \<or> user = owner
     \<or> vis = JStr ''restricted''
       \<and> (\<exists>ys. grants_cell = JList ys
            \<and> set (subjects_of user (provided_groups gp user)) \<inter> set ys \<noteq> {})"

context query_engine
begin

lemma and_scopes_admits:
  "admits matches r (and_scopes a b user)
   \<longleftrightarrow> admits matches r (a user) \<and> admits matches r (b user)"
  by (cases "a user"; cases "b user") (auto simp: and_scopes_def matches_simps)

lemma visibility_scope_created:
  "admits matches r (visibility_scope vf rf None su gp user)
   \<longleftrightarrow> cell_visible (cells r vf) (cells r rf) (row_created_by r) su gp user"
  by (auto simp: visibility_scope_def cell_visible_def Let_def matches_simps)

lemma visibility_scope_field:
  assumes "cells r f = JStr owner"
  shows "admits matches r (visibility_scope vf rf (Some f) su gp user)
     \<longleftrightarrow> cell_visible (cells r vf) (cells r rf) owner su gp user"
  using assms by (auto simp: visibility_scope_def cell_visible_def Let_def matches_simps)

lemma kbchat_admits:
  "admits matches r (kbchat_access_scope su user) \<longleftrightarrow>
     user \<in> su \<or> row_created_by r = user
     \<or> cells r ''permission.visibility'' = JStr ''public''
     \<or> cells r ''permission.visibility'' = JStr ''restricted''
       \<and> (\<exists>ys. cells r ''permission.read_meta'' = JList ys
             \<and> set (subjects_of user []) \<inter> set ys \<noteq> {})
     \<or> (cells r ''permission.visibility'' = Absent \<or> cells r ''permission.visibility'' = JNull)
       \<and> (\<exists>ys. cells r ''shared_with'' = JList ys \<and> user \<in> set ys)"
  by (auto simp: kbchat_access_scope_def Let_def matches_simps)

lemma owner_only_admits:
  "admits matches r (owner_only_access_scope su user) \<longleftrightarrow> user \<in> su \<or> row_created_by r = user"
  by (simp add: owner_only_access_scope_def matches_simps)

lemma graph_evidence_admits:
  assumes "cells r ''collection_created_by'' = JStr owner"
  shows "admits matches r (graph_evidence_access_scope su gp user) \<longleftrightarrow>
     (\<forall>(vf, gf) \<in> set evidence_fields.
        cell_visible (cells r vf) (cells r gf) owner su gp user)"
  by (simp add: graph_evidence_access_scope_def evidence_fields_def Let_def and_scopes_admits
      visibility_scope_field [OF assms] conj_assoc)

end

text \<open>A reference evaluator: the engine's laws read as a recursive function.\<close>

fun holds :: "row \<Rightarrow> qterm \<Rightarrow> bool" where
  "holds r (QIsna f) = (case cells r f of Absent \<Rightarrow> True | JNull \<Rightarrow> True | _ \<Rightarrow> False)"
| "holds r (QEq f s) = (case cells r f of JStr s' \<Rightarrow> s' = s | _ \<Rightarrow> False)"
| "holds r (QCreatedBy u) = (row_created_by r = u)"
| "holds r (QContainsAny f xs) =
     (case cells r f of JList ys \<Rightarrow> list_ex (\<lambda>x. List.member ys x) xs | _ \<Rightarrow> False)"
| "holds r (QContains f x) = (case cells r f of JList ys \<Rightarrow> List.member ys x | _ \<Rightarrow> False)"
| "holds r (QAnd p q) = (holds r p \<and> holds r q)"
| "holds r (QOr p q) = (holds r p \<or> holds r q)"

interpretation reference: query_engine holds
  by unfold_locales (auto simp: list_ex_iff split: cell.splits)

section \<open>Rows that carry a permission\<close>

fun visibility_name :: "visibility \<Rightarrow> string" where
  "visibility_name Public = ''public''"
| "visibility_name Restricted = ''restricted''"
| "visibility_name Private = ''private''"

text \<open>
  The cells an embedded (or denormalised) permission leaves: none of its fields when the
  permission is absent, otherwise its label and its grant list.
\<close>

definition carries ::
  "row \<Rightarrow> string \<Rightarrow> string \<Rightarrow> permission option \<Rightarrow> verb \<Rightarrow> bool" where
  "carries r vf gf perm v \<longleftrightarrow>
     (case perm of
        None \<Rightarrow> cells r vf = Absent \<or> cells r vf = JNull
      | Some p \<Rightarrow> cells r vf = JStr (visibility_name (visibility p))
                \<and> cells r gf = JList (grants p v))"

lemma subjects_of_set:
  "set (subjects_of user gs) = insert ALL_subject (subjects (human user (set gs)))"
  by (auto simp: subjects_of_def subjects_def)

lemma granted_subjects_of:
  "effective_grants p v = set (grants p v) \<Longrightarrow>
   granted (human user (set gs)) p v \<longleftrightarrow> set (subjects_of user gs) \<inter> set (grants p v) \<noteq> {}"
  by (auto simp: granted_def Let_def subjects_of_set)

lemma effective_read_meta [simp]: "effective_grants p ReadMeta = set (read_meta p)"
  by (simp add: effective_grants_def)

lemma effective_read_chat [simp]: "effective_grants p ReadChat = set (read_chat p)"
  by (simp add: effective_grants_def)

lemma cell_visible_authorize:
  assumes "carries r vf gf perm v"
    and "v \<noteq> ChangePermission"
    and "\<And>p. effective_grants p v = set (grants p v)"
  shows "cell_visible (cells r vf) (cells r gf) owner su gp user \<longleftrightarrow>
     authorize (human user (set (provided_groups gp user))) v perm owner su False"
proof (cases perm)
  case None
  with assms show ?thesis
    by (auto simp: carries_def cell_visible_def perm_simps)
next
  case (Some p)
  with assms show ?thesis
    by (cases "visibility p")
       (auto simp: carries_def cell_visible_def perm_simps resource_decision_def
          granted_subjects_of [OF assms(3)])
qed

lemma cell_visible_sound:
  assumes "carries r vf gf perm v" and "v \<noteq> ChangePermission"
    and "cell_visible (cells r vf) (cells r gf) owner su gp user"
  shows "authorize (human user (set (provided_groups gp user))) v perm owner su False"
proof (cases perm)
  case None
  with assms show ?thesis by (auto simp: perm_simps)
next
  case (Some p)
  have "set (grants p v) \<subseteq> effective_grants p v" by (auto simp: effective_grants_def)
  with assms Some show ?thesis
    by (cases "visibility p")
       (auto simp: carries_def cell_visible_def perm_simps resource_decision_def granted_def
          Let_def subjects_of_set)
qed

section \<open>Properties\<close>

lemma discoverable_adds_restricted:
  "authorize (human user gs) ReadMeta perm owner su True \<longleftrightarrow>
     authorize (human user gs) ReadMeta perm owner su False \<or> (\<exists>p. perm = Some p \<and> visibility p = Restricted)"
  by (cases perm; cases "visibility (the perm)") (auto simp: authorize_def Let_def default_permission_def)

text \<open>
  C5: the storage-layer predicate of collections and work items is the mirror of the strict route
  decision: a row that carries a resource's permission is in a user's view exactly when
  \<open>authorize\<close> lets that user, with their groups, know the resource exists without the tier semantic
  \<open>discoverable_restricted\<close>.  Under that semantic, which the collection routes declare, \<open>authorize\<close>
  lets them know of exactly the restricted rows besides.
\<close>

theorem collection_scope_mirrors_authorize:
  assumes "query_engine m"
    and "carries r ''permission.visibility'' ''permission.read_meta'' perm ReadMeta"
  shows "(admits m r (collection_access_scope su gp user) \<longleftrightarrow>
      authorize (human user (set (provided_groups gp user))) ReadMeta perm (row_created_by r) su False)
    \<and> (admits m r (work_item_access_scope su gp user) \<longleftrightarrow>
      authorize (human user (set (provided_groups gp user))) ReadMeta perm (row_created_by r) su False)
    \<and> (authorize (human user (set (provided_groups gp user))) ReadMeta perm (row_created_by r) su True \<longleftrightarrow>
      admits m r (collection_access_scope su gp user) \<or> (\<exists>p. perm = Some p \<and> visibility p = Restricted))"
proof -
  have strict: "admits m r (collection_access_scope su gp user) \<longleftrightarrow>
      authorize (human user (set (provided_groups gp user))) ReadMeta perm (row_created_by r) su False"
    using query_engine.visibility_scope_created [OF assms(1)] cell_visible_authorize [OF assms(2)]
    by (simp add: collection_access_scope_def)
  show ?thesis unfolding work_item_access_scope_def discoverable_adds_restricted strict by simp
qed

theorem collection_scope_mirrors_authorize_witness:
  "\<exists>r perm. admits holds r (collection_access_scope {} (Some (\<lambda>_. [''g1''])) ''bob'')
     \<and> \<not> admits holds r (collection_access_scope {} None ''eve'')
     \<and> authorize (human ''eve'' {}) ReadMeta perm (row_created_by r) {} True"
proof -
  let ?r = "\<lparr>cells = (\<lambda>_. Absent)(''permission.visibility'' := JStr ''restricted'',
      ''permission.read_meta'' := JList [''group:g1'']), row_created_by = ''alice''\<rparr>"
  let ?perm = "Some (default_permission\<lparr>visibility := Restricted, read_meta := [''group:g1'']\<rparr>)"
  have c: "carries ?r ''permission.visibility'' ''permission.read_meta'' ?perm ReadMeta"
    by (simp add: carries_def perm_simps)
  note t = collection_scope_mirrors_authorize [OF reference.query_engine_axioms c]
  have bob: "admits holds ?r (collection_access_scope {} (Some (\<lambda>_. [''g1''])) ''bob'')"
    using t [of "{}" "Some (\<lambda>_. [''g1''])" "''bob''"]
    by (simp add: perm_simps resource_decision_def granted_def subjects_def provided_groups_def group_subject_def)
  have eve: "\<not> admits holds ?r (collection_access_scope {} None ''eve'')" "authorize (human ''eve'' {}) ReadMeta ?perm (row_created_by ?r) {} True"
    using t [of "{}" None "''eve''"]
    by (simp_all add: perm_simps resource_decision_def granted_def subjects_def provided_groups_def group_subject_def user_subject_def ALL_subject_def)
  show ?thesis by (intro exI [of _ ?r] exI [of _ ?perm]) (use bob eve in simp)
qed

text \<open>
  a document is in a user's view exactly when its collection admits them and the
  document's own override does too, both judged against the collection's owner: an override
  can hide a document the collection shows, never show one it hides.
\<close>

theorem source_doc_override_only_tightens:
  assumes "query_engine m"
    and "carries r ''collection_visibility'' ''collection_read_meta'' coll ReadMeta"
    and "carries r ''permission.visibility'' ''permission.read_meta'' override ReadMeta"
    and "cells r ''collection_created_by'' = JStr owner"
  shows "admits m r (source_doc_access_scope su gp user) \<longleftrightarrow>
     authorize (human user (set (provided_groups gp user))) ReadMeta coll owner su False
     \<and> authorize (human user (set (provided_groups gp user))) ReadMeta override owner su False"
  using query_engine.visibility_scope_field [OF assms(1,4)]
    cell_visible_authorize [OF assms(2)] cell_visible_authorize [OF assms(3)]
  by (simp add: source_doc_access_scope_def source_doc_override_scope_def
      query_engine.and_scopes_admits [OF assms(1)])

theorem source_doc_override_only_tightens_witness:
  "\<not> admits holds
     \<lparr>cells = (\<lambda>_. Absent)(''collection_visibility'' := JStr ''public'',
        ''collection_read_meta'' := JList [],
        ''permission.visibility'' := JStr ''private'', ''permission.read_meta'' := JList [],
        ''collection_created_by'' := JStr ''alice''), row_created_by = ''bob''\<rparr>
     (source_doc_access_scope {} None ''bob'')"
  by (subst source_doc_override_only_tightens
        [OF reference.query_engine_axioms,
         where coll = "Some default_permission"
           and override = "Some (default_permission\<lparr>visibility := Private\<rparr>)"
           and owner = "''alice''"])
     (simp_all add: carries_def perm_simps resource_decision_def default_permission_def)

text \<open>
  a row of extracted evidence is shown only to somebody who may both know of and read
  the content of the collection and of the deck it was extracted from.
\<close>

theorem graph_evidence_never_leaks:
  assumes "query_engine m"
    and "carries r ''collection_visibility'' ''collection_read_meta'' coll ReadMeta"
    and "carries r ''collection_visibility'' ''collection_read_content'' coll ReadContent"
    and "carries r ''doc_visibility'' ''doc_read_meta'' deck ReadMeta"
    and "carries r ''doc_visibility'' ''doc_read_content'' deck ReadContent"
    and "cells r ''collection_created_by'' = JStr owner"
    and "admits m r (graph_evidence_access_scope su gp user)"
    and "v \<in> {ReadMeta, ReadContent}" and "perm \<in> {coll, deck}"
  shows "authorize (human user (set (provided_groups gp user))) v perm owner su False"
proof -
  have "\<forall>(vf, gf) \<in> set evidence_fields. cell_visible (cells r vf) (cells r gf) owner su gp user"
    using query_engine.graph_evidence_admits [OF assms(1,6)] assms(7) by blast
  then show ?thesis
    using cell_visible_sound [OF assms(2)] cell_visible_sound [OF assms(3)]
      cell_visible_sound [OF assms(4)] cell_visible_sound [OF assms(5)] assms(8,9)
    by (auto simp: evidence_fields_def)
qed

definition example_evidence_row :: row where
  "example_evidence_row =
     \<lparr>cells = (\<lambda>_. Absent)(''collection_visibility'' := JStr ''restricted'',
        ''collection_read_meta'' := JList [''user:bob''],
        ''collection_read_content'' := JList [''all''],
        ''collection_created_by'' := JStr ''alice''), row_created_by = ''worker''\<rparr>"

theorem graph_evidence_never_leaks_witness:
  "authorize (human ''bob'' {}) ReadContent
     (Some (default_permission\<lparr>visibility := Restricted, read_meta := [''user:bob''],
        read_content := [''all'']\<rparr>)) ''alice'' {} False"
  by (rule graph_evidence_never_leaks
        [where m = holds and r = example_evidence_row and gp = None and user = "''bob''"
           and deck = None and su = "{}" and v = ReadContent
           and coll = "Some (default_permission\<lparr>visibility := Restricted,
                read_meta := [''user:bob''], read_content := [''all'']\<rparr>)"
           and perm = "Some (default_permission\<lparr>visibility := Restricted,
                read_meta := [''user:bob''], read_content := [''all'']\<rparr>)",
         simplified provided_groups_def option.case set_simps])
     (simp_all add: reference.query_engine_axioms carries_def example_evidence_row_def
        graph_evidence_access_scope_def evidence_fields_def and_scopes_def visibility_scope_def
        provided_groups_def subjects_of_def user_subject_def ALL_subject_def)

end
