(* ===== verification/PermChecker.thy ===== *)
theory PermChecker
  imports PermScope
begin

text \<open>
  The write-side authorization of \<open>perm/checker.py\<close> and the chat permission bridge of
  \<open>kb/chat_permission.py\<close>.  A checker receives the context specstar builds for one write
  (the action, the acting user, the stored snapshot, the new body or the patch) and answers
  allow or deny; reading an attribute of a part that was not loaded is the outcome \<open>Crash\<close>.
  Logging and the wrapping into specstar's event handler are not modelled.
\<close>

section \<open>What specstar hands to a checker\<close>

datatype resource_action =
    ActCreate | ActUpdate | ActModify | ActPatch | ActDelete | ActPermanentlyDelete
  | ActSwitch | ActRestore | ActOther

datatype verdict = Allow | Deny | Crash

text \<open>
  A resource body, by the attributes the checkers read; \<open>Unset\<close> is an attribute the
  resource's model does not have (for the textual ones, also one that is not a string).
\<close>

record body =
  b_permission :: "permission option attr"
  sandbox_cpu_cores :: "rat option attr"
  sandbox_memory_bytes :: "rat option attr"
  shared_with :: "string list attr"
  collection_created_by :: "string attr"
  collection_visibility :: "string attr"
  collection_id :: "string attr"

record snapshot =
  snap_created_by :: "string option"  \<comment> \<open>None: the META part was not loaded\<close>
  snap_data :: body

text \<open>One RFC 6902 operation: a JSON object (its members, each value read as text) or not.\<close>

datatype json_op = Op "(string, string) dict" | NotAnObject

text \<open>
  A patch body: an RFC 7386 merge patch (its top-level keys), a list of RFC 6902 operations,
  an object whose attribute \<open>patch\<close> is such a list, or anything else.
\<close>

datatype patch = MergePatch "string list" | OpList "json_op list" | PatchObject "json_op list" | OtherPatch

record write_context =
  action :: resource_action
  acting_user :: "string attr"
  current_resource :: "snapshot option attr"
  new_data :: "body option attr"
  fallback_data :: "body option attr"  \<comment> \<open>the context's own \<open>new_data\<close> attribute\<close>
  patch_data :: patch

definition WRITE_META_ACTIONS :: "resource_action set" where
  "WRITE_META_ACTIONS = {ActUpdate, ActModify, ActPatch}"

definition OWNER_ACTIONS :: "resource_action set" where
  "OWNER_ACTIONS = {ActDelete, ActPermanentlyDelete, ActSwitch, ActRestore}"

definition current :: "write_context \<Rightarrow> snapshot option" where
  "current ctx = (case current_resource ctx of Unset \<Rightarrow> None | Val s \<Rightarrow> s)"

definition stored_permission :: "snapshot \<Rightarrow> permission option" where
  "stored_permission s = attr_default None (b_permission (snap_data s))"

definition context_user :: "write_context \<Rightarrow> string" where
  "context_user ctx = attr_default '''' (acting_user ctx)"

definition ESCALATED_FIELDS :: "string list" where
  "ESCALATED_FIELDS = [''permission'', ''sandbox_cpu_cores'', ''sandbox_memory_bytes'']"

definition stored_of :: "write_context \<Rightarrow> body option" where
  "stored_of ctx = map_option snap_data (current ctx)"

fun op_path :: "json_op \<Rightarrow> string option" where
  "op_path NotAnObject = None"
| "op_path (Op d) = Some (case dict_get d ''path'' of None \<Rightarrow> '''' | Some p \<Rightarrow> p)"

definition op_escalates :: "json_op \<Rightarrow> bool" where
  "op_escalates opn =
     (case op_path opn of
        None \<Rightarrow> False
      | Some p \<Rightarrow> list_ex (\<lambda>f. starts_with (''/'' @ f) p) ESCALATED_FIELDS)"

fun patch_touches_permission :: "patch \<Rightarrow> bool" where
  "patch_touches_permission (MergePatch ks) = list_ex (\<lambda>f. List.member ks f) ESCALATED_FIELDS"
| "patch_touches_permission (OpList ops) = list_ex op_escalates ops"
| "patch_touches_permission (PatchObject ops) = list_ex op_escalates ops"
| "patch_touches_permission OtherPatch = False"

section \<open>Collections, work items and chats (CollectionPermissionChecker)\<close>

record checker =
  superusers :: "string set"
  groups_provider :: groups_provider
  absent_permission :: "(body \<Rightarrow> permission) option"

definition checker_actor :: "checker \<Rightarrow> string \<Rightarrow> actor" where
  "checker_actor c user = human user (set (provided_groups (groups_provider c) user))"

definition effective :: "checker \<Rightarrow> snapshot \<Rightarrow> permission option" where
  "effective c s =
     (case stored_permission s of
        Some p \<Rightarrow> Some p
      | None \<Rightarrow> map_option (\<lambda>h. h (snap_data s)) (absent_permission c))"

text \<open>The numeric escalated fields of a body, by name.\<close>

definition escalated_value :: "body \<Rightarrow> string \<Rightarrow> rat option attr" where
  "escalated_value b f =
     (if f = ''sandbox_cpu_cores'' then sandbox_cpu_cores b
      else if f = ''sandbox_memory_bytes'' then sandbox_memory_bytes b
      else Unset)"

definition check_create :: "write_context \<Rightarrow> verdict" where
  "check_create ctx =
     (case new_data ctx of
        Unset \<Rightarrow> Allow
      | Val None \<Rightarrow> Allow
      | Val (Some new) \<Rightarrow>
          (if list_ex (\<lambda>f. f \<noteq> ''permission''
                          \<and> attr_default None (escalated_value new f) \<noteq> None) ESCALATED_FIELDS
           then Deny else Allow))"

definition rewrites_permission :: "write_context \<Rightarrow> permission option \<Rightarrow> bool" where
  "rewrites_permission ctx stored =
     (if action ctx = ActPatch then patch_touches_permission (patch_data ctx)
      else (case new_data ctx of
        Unset \<Rightarrow> False
      | Val None \<Rightarrow> False
      | Val (Some new) \<Rightarrow>
          (b_permission new \<noteq> Unset \<and> b_permission new \<noteq> Val stored)
          \<or> (let held = stored_of ctx in
             list_ex (\<lambda>f. f \<noteq> ''permission''
                  \<and> escalated_value new f \<noteq> Unset
                  \<and> escalated_value new f
                     \<noteq> (case held of None \<Rightarrow> Unset | Some b \<Rightarrow> escalated_value b f))
               ESCALATED_FIELDS)))"

definition check_write :: "checker \<Rightarrow> write_context \<Rightarrow> verdict" where
  "check_write c ctx =
     (case current ctx of
        None \<Rightarrow> Deny
      | Some s \<Rightarrow>
          (case snap_created_by s of
             None \<Rightarrow> Crash
           | Some owner \<Rightarrow>
               (let stored = effective c s; a = checker_actor c (context_user ctx) in
                if rewrites_permission ctx stored
                   \<and> \<not> authorize a ChangePermission stored owner (superusers c) False
                then Deny
                else if authorize a WriteMeta stored owner (superusers c) False then Allow
                else Deny)))"

definition check_owner :: "checker \<Rightarrow> write_context \<Rightarrow> verdict" where
  "check_owner c ctx =
     (case current ctx of
        None \<Rightarrow> Deny
      | Some s \<Rightarrow>
          (case snap_created_by s of
             None \<Rightarrow> Crash
           | Some owner \<Rightarrow>
               (if context_user ctx = owner \<or> context_user ctx \<in> superusers c then Allow
                else Deny)))"

definition check_permission :: "checker \<Rightarrow> write_context \<Rightarrow> verdict" where
  "check_permission c ctx =
     (if action ctx \<in> WRITE_META_ACTIONS then check_write c ctx
      else if action ctx \<in> OWNER_ACTIONS then check_owner c ctx
      else if action ctx = ActCreate then check_create ctx
      else Allow)"

datatype part = META | DATA

definition required_resource_parts :: "resource_action \<Rightarrow> part set" where
  "required_resource_parts act =
     (if act \<in> WRITE_META_ACTIONS then {META, DATA}
      else if act \<in> OWNER_ACTIONS then {META}
      else {})"

section \<open>Source documents (SourceDocPermissionChecker)\<close>

definition doc_rewrites_permission :: "write_context \<Rightarrow> permission option \<Rightarrow> bool" where
  "doc_rewrites_permission ctx stored =
     (if action ctx = ActPatch then patch_touches_permission (patch_data ctx)
      else (case new_data ctx of
        Unset \<Rightarrow> False
      | Val None \<Rightarrow> False
      | Val (Some new) \<Rightarrow> b_permission new \<noteq> Unset \<and> b_permission new \<noteq> Val stored))"

definition doc_check_permission :: "string set \<Rightarrow> write_context \<Rightarrow> verdict" where
  "doc_check_permission su ctx =
     (if action ctx \<notin> WRITE_META_ACTIONS then Allow
      else (case current ctx of
        None \<Rightarrow> Allow
      | Some s \<Rightarrow>
          (if \<not> doc_rewrites_permission ctx (stored_permission s) then Allow
           else let user = context_user ctx;
                    owner = attr_default '''' (collection_created_by (snap_data s))
             in if user = owner \<or> user \<in> su then Allow else Deny)))"

section \<open>Extracted graph rows (GraphMirrorChecker)\<close>

definition mirror_check_permission :: "(string \<Rightarrow> permission option) \<Rightarrow> write_context \<Rightarrow> verdict" where
  "mirror_check_permission resolve ctx =
     (let data = (case attr_default None (new_data ctx) of
                    Some b \<Rightarrow> Some b
                  | None \<Rightarrow> attr_default None (fallback_data ctx));
          claimed = (case data of None \<Rightarrow> Unset | Some b \<Rightarrow> collection_visibility b)
      in case claimed of
           Unset \<Rightarrow> Allow
         | Val cl \<Rightarrow>
             (if cl = '''' then Allow
              else
                let actual = (case data of
                        None \<Rightarrow> None
                      | Some b \<Rightarrow> (case collection_id b of
                            Unset \<Rightarrow> resolve ''''
                          | Val cid \<Rightarrow> resolve cid));
                    truth = (case actual of None \<Rightarrow> ''public''
                             | Some p \<Rightarrow> visibility_name (visibility p))
                in if cl = truth then Allow else Deny))"

section \<open>Rows private to their creator (OwnerOnlyChecker)\<close>

definition OWNER_ONLY_WRITE_ACTIONS :: "resource_action set" where
  "OWNER_ONLY_WRITE_ACTIONS = {ActUpdate, ActModify, ActPatch, ActDelete}"

definition owner_only_required_parts :: "resource_action \<Rightarrow> part set" where
  "owner_only_required_parts act = (if act \<in> OWNER_ONLY_WRITE_ACTIONS then {META} else {})"

definition owner_only_check_permission :: "string set \<Rightarrow> write_context \<Rightarrow> verdict" where
  "owner_only_check_permission su ctx =
     (if action ctx \<notin> OWNER_ONLY_WRITE_ACTIONS then Allow
      else if context_user ctx \<in> su then Allow
      else (case Option.bind (current ctx) snap_created_by of
        None \<Rightarrow> Deny
      | Some owner \<Rightarrow> (if owner = context_user ctx then Allow else Deny)))"

section \<open>Chats shared before permissions existed (kb/chat_permission.py)\<close>

definition permission_from_shared_with :: "string list \<Rightarrow> permission" where
  "permission_from_shared_with shared =
     (let subs = map user_subject shared in
      if subs \<noteq> []
      then default_permission\<lparr>visibility := Restricted, read_meta := subs, read_chat := subs\<rparr>
      else default_permission\<lparr>visibility := Private\<rparr>)"

definition effective_permission :: "permission option \<Rightarrow> string list \<Rightarrow> permission" where
  "effective_permission perm shared =
     (case perm of Some p \<Rightarrow> p | None \<Rightarrow> permission_from_shared_with shared)"

definition absent_kbchat_permission :: "body \<Rightarrow> permission" where
  "absent_kbchat_permission b = permission_from_shared_with (attr_default [] (shared_with b))"

definition kbchat_checker :: "string set \<Rightarrow> checker" where
  "kbchat_checker su =
     \<lparr>superusers = su, groups_provider = None, absent_permission = Some absent_kbchat_permission\<rparr>"

definition collection_checker :: "string set \<Rightarrow> groups_provider \<Rightarrow> checker" where
  "collection_checker su gp =
     \<lparr>superusers = su, groups_provider = gp, absent_permission = None\<rparr>"

section \<open>Lemmas\<close>

lemma kbchat_checker_simps [simp]:
  "superusers (kbchat_checker su) = su" "groups_provider (kbchat_checker su) = None"
  "absent_permission (kbchat_checker su) = Some absent_kbchat_permission"
  by (simp_all add: kbchat_checker_def)

lemma write_actions [simp]:
  "ActUpdate \<in> WRITE_META_ACTIONS" "ActModify \<in> WRITE_META_ACTIONS"
  "ActPatch \<in> WRITE_META_ACTIONS" "ActCreate \<notin> WRITE_META_ACTIONS"
  "ActDelete \<notin> WRITE_META_ACTIONS" "ActPermanentlyDelete \<notin> WRITE_META_ACTIONS"
  "ActSwitch \<notin> WRITE_META_ACTIONS" "ActRestore \<notin> WRITE_META_ACTIONS"
  "ActOther \<notin> WRITE_META_ACTIONS"
  by (simp_all add: WRITE_META_ACTIONS_def)

lemma owner_actions [simp]:
  "ActDelete \<in> OWNER_ACTIONS" "ActPermanentlyDelete \<in> OWNER_ACTIONS"
  "ActSwitch \<in> OWNER_ACTIONS" "ActRestore \<in> OWNER_ACTIONS" "ActCreate \<notin> OWNER_ACTIONS"
  "ActUpdate \<notin> OWNER_ACTIONS" "ActModify \<notin> OWNER_ACTIONS" "ActPatch \<notin> OWNER_ACTIONS"
  "ActOther \<notin> OWNER_ACTIONS"
  by (simp_all add: OWNER_ACTIONS_def)

lemma check_write_Allow:
  "check_write c ctx = Allow \<longleftrightarrow>
     (\<exists>s owner. current ctx = Some s \<and> snap_created_by s = Some owner
        \<and> authorize (checker_actor c (context_user ctx)) WriteMeta (effective c s) owner
            (superusers c) False
        \<and> (rewrites_permission ctx (effective c s) \<longrightarrow>
             authorize (checker_actor c (context_user ctx)) ChangePermission (effective c s) owner
               (superusers c) False))"
  by (auto simp: check_write_def Let_def split: option.splits if_splits)

lemma check_owner_Allow:
  "check_owner c ctx = Allow \<longleftrightarrow>
     (\<exists>s owner. current ctx = Some s \<and> snap_created_by s = Some owner
        \<and> (context_user ctx = owner \<or> context_user ctx \<in> superusers c))"
  by (auto simp: check_owner_def split: option.splits if_splits)

lemma rewrites_permission_body:
  assumes "\<not> rewrites_permission ctx stored" "action ctx \<noteq> ActPatch"
    and "new_data ctx = Val (Some new)" "current ctx = Some s"
  shows "b_permission new = Unset \<or> b_permission new = Val stored"
    and "f \<in> {''sandbox_cpu_cores'', ''sandbox_memory_bytes''} \<Longrightarrow>
      escalated_value new f = Unset \<or> escalated_value new f = escalated_value (snap_data s) f"
  using assms
  by (auto simp: rewrites_permission_def stored_of_def ESCALATED_FIELDS_def Let_def)

lemma list_ex_escalated:
  "op_escalates (Op d) \<longleftrightarrow>
     (\<exists>f \<in> set ESCALATED_FIELDS. starts_with (''/'' @ f)
        (case dict_get d ''path'' of None \<Rightarrow> '''' | Some p \<Rightarrow> p))"
  by (simp add: op_escalates_def list_ex_iff)

lemma authorize_shared_with:
  "authorize (human u gs) ReadMeta (Some (permission_from_shared_with sh)) owner su False
   \<longleftrightarrow> u \<in> su \<or> u = owner \<or> u \<in> set sh"
  by (auto simp: perm_simps resource_decision_def permission_from_shared_with_def Let_def
      granted_def subjects_def default_permission_def image_iff)

section \<open>Properties\<close>

text \<open>
  a whole-body write that the checker lets through for somebody who may not change
  permissions leaves the access-control object and the sandbox sizes as they are stored:
  the generic update route cannot be used to rewire access or to spend the owner's budget.
\<close>

theorem body_write_cannot_rewire:
  assumes "check_permission c ctx = Allow"
    and "action ctx \<in> {ActUpdate, ActModify}"
    and "new_data ctx = Val (Some new)" and "current ctx = Some s"
    and "snap_created_by s = Some owner"
    and "\<not> authorize (checker_actor c (context_user ctx)) ChangePermission (effective c s) owner
          (superusers c) False"
  shows "(b_permission new = Unset \<or> b_permission new = Val (effective c s))
     \<and> (sandbox_cpu_cores new = Unset
        \<or> sandbox_cpu_cores new = sandbox_cpu_cores (snap_data s))
     \<and> (sandbox_memory_bytes new = Unset
        \<or> sandbox_memory_bytes new = sandbox_memory_bytes (snap_data s))"
proof -
  have "check_write c ctx = Allow"
    using assms(1,2) by (auto simp: check_permission_def)
  then have "\<not> rewrites_permission ctx (effective c s)"
    using assms(4-6) by (auto simp: check_write_Allow)
  moreover have "action ctx \<noteq> ActPatch" using assms(2) by auto
  ultimately have "b_permission new = Unset \<or> b_permission new = Val (effective c s)"
    and kept: "f \<in> {''sandbox_cpu_cores'', ''sandbox_memory_bytes''} \<Longrightarrow>
      escalated_value new f = Unset \<or> escalated_value new f = escalated_value (snap_data s) f" for f
    using rewrites_permission_body [OF _ _ assms(3,4)] by blast+
  with kept [of "''sandbox_cpu_cores''"] kept [of "''sandbox_memory_bytes''"] show ?thesis
    by (simp add: escalated_value_def)
qed

definition plain_body :: body where
  "plain_body = \<lparr>b_permission = Val None, sandbox_cpu_cores = Val None,
     sandbox_memory_bytes = Val None, shared_with = Unset, collection_created_by = Unset,
     collection_visibility = Unset, collection_id = Unset\<rparr>"

definition plain_context :: "resource_action \<Rightarrow> string \<Rightarrow> patch \<Rightarrow> write_context" where
  "plain_context act user p = \<lparr>action = act, acting_user = Val user,
     current_resource = Val (Some \<lparr>snap_created_by = Some ''alice'', snap_data = plain_body\<rparr>),
     new_data = Val (Some plain_body), fallback_data = Unset, patch_data = p\<rparr>"

theorem body_write_cannot_rewire_witness:
  "check_permission (collection_checker {} None) (plain_context ActUpdate ''bob'' OtherPatch) = Allow
   \<and> sandbox_cpu_cores plain_body = sandbox_cpu_cores plain_body"
proof -
  let ?c = "collection_checker {} None" and ?x = "plain_context ActUpdate ''bob'' OtherPatch"
  have ok: "check_permission ?c ?x = Allow"
    by (simp add: check_permission_def check_write_def plain_context_def plain_body_def
        current_def effective_def stored_permission_def collection_checker_def
        checker_actor_def rewrites_permission_def stored_of_def ESCALATED_FIELDS_def
        escalated_value_def perm_simps)
  have "sandbox_cpu_cores plain_body = Unset
      \<or> sandbox_cpu_cores plain_body
        = sandbox_cpu_cores (snap_data \<lparr>snap_created_by = Some ''alice'', snap_data = plain_body\<rparr>)"
    by (rule body_write_cannot_rewire
          [where owner = "''alice''", OF ok, THEN conjunct2, THEN conjunct1])
       (simp_all add: plain_context_def plain_body_def current_def effective_def
          stored_permission_def collection_checker_def checker_actor_def context_user_def
          perm_simps)
  with ok show ?thesis by (simp add: plain_body_def)
qed

text \<open>
  destroying, switching or restoring a row is for its owner and the superusers alone,
  whatever its grant lists say, and with the parts loaded that the checker itself asks for
  no decision can end in an attribute error.
\<close>

theorem lifecycle_is_owner_only:
  "(action ctx \<in> OWNER_ACTIONS \<longrightarrow>
      (check_permission c ctx = Allow \<longleftrightarrow>
         (\<exists>s owner. current ctx = Some s \<and> snap_created_by s = Some owner
            \<and> (context_user ctx = owner \<or> context_user ctx \<in> superusers c))))
   \<and> ((META \<in> required_resource_parts (action ctx) \<longrightarrow>
         (\<forall>s. current ctx = Some s \<longrightarrow> snap_created_by s \<noteq> None))
      \<longrightarrow> check_permission c ctx \<noteq> Crash)"
proof (intro conjI impI)
  assume "action ctx \<in> OWNER_ACTIONS"
  then show "check_permission c ctx = Allow \<longleftrightarrow>
         (\<exists>s owner. current ctx = Some s \<and> snap_created_by s = Some owner
            \<and> (context_user ctx = owner \<or> context_user ctx \<in> superusers c))"
    by (auto simp: check_permission_def check_owner_Allow OWNER_ACTIONS_def)
next
  assume loaded: "META \<in> required_resource_parts (action ctx) \<longrightarrow>
         (\<forall>s. current ctx = Some s \<longrightarrow> snap_created_by s \<noteq> None)"
  then have "action ctx \<in> WRITE_META_ACTIONS \<or> action ctx \<in> OWNER_ACTIONS \<Longrightarrow>
      \<forall>s. current ctx = Some s \<longrightarrow> snap_created_by s \<noteq> None"
    by (auto simp: required_resource_parts_def split: if_splits)
  then show "check_permission c ctx \<noteq> Crash"
    by (auto simp: check_permission_def check_write_def check_owner_def check_create_def Let_def
        split: option.splits attr.splits)
qed

theorem lifecycle_is_owner_only_witness:
  "check_permission (collection_checker {} None)
     (plain_context ActPermanentlyDelete ''bob'' OtherPatch) \<noteq> Allow"
proof -
  have "ActPermanentlyDelete \<in> OWNER_ACTIONS" by simp
  then show ?thesis
    using lifecycle_is_owner_only [THEN conjunct1, rule_format,
        of "plain_context ActPermanentlyDelete ''bob'' OtherPatch" "collection_checker {} None"]
    by (simp add: plain_context_def current_def context_user_def collection_checker_def)
qed

text \<open>
  the escalation test reads the \<open>path\<close> member of a JSON-patch operation only.  A root
  replacement (path empty) and a \<open>move\<close> whose source lies inside the permission both pass as
  ordinary metadata writes, while the same replacement addressed to \<open>/permission\<close> is refused:
  on a public item anybody may perform the first two.
\<close>

theorem json_patch_root_and_move_not_escalated:
  "check_permission (collection_checker {} None)
     (plain_context ActPatch ''bob''
        (OpList [Op [(''op'', ''replace''), (''path'', ''''), (''value'', v)]])) = Allow
   \<and> check_permission (collection_checker {} None)
     (plain_context ActPatch ''bob''
        (OpList [Op [(''op'', ''move''), (''from'', ''/permission/read_meta/0''),
                     (''path'', ''/title'')]])) = Allow
   \<and> check_permission (collection_checker {} None)
     (plain_context ActPatch ''bob''
        (OpList [Op [(''op'', ''replace''), (''path'', ''/permission''), (''value'', v)]])) = Deny"
  by (simp add: check_permission_def check_write_def plain_context_def plain_body_def current_def
      effective_def stored_permission_def collection_checker_def checker_actor_def
      rewrites_permission_def op_escalates_def ESCALATED_FIELDS_def starts_with_def
      context_user_def perm_simps default_permission_def resource_decision_def granted_def
      effective_grants_def)

text \<open>
  a chat that has no stored permission is writable through the generic routes by its
  owner and the superusers alone, whoever it was shared with before permissions existed, and
  the read scope admits exactly the people the equivalent permission lets know it exists.
\<close>

theorem legacy_chat_private_to_owner:
  assumes "query_engine m"
    and "current ctx = Some s" and "snap_created_by s = Some owner"
    and "stored_permission s = None" and "action ctx \<in> WRITE_META_ACTIONS"
    and "cells r ''permission.visibility'' = Absent" and "row_created_by r = owner"
    and "cells r ''shared_with'' = JList (attr_default [] (shared_with (snap_data s)))"
  shows "(check_permission (kbchat_checker su) ctx = Allow \<longleftrightarrow>
            context_user ctx \<in> su \<or> context_user ctx = owner)
     \<and> (admits m r (kbchat_access_scope su user) \<longleftrightarrow>
          authorize (human user {}) ReadMeta
            (Some (effective_permission (stored_permission s)
                     (attr_default [] (shared_with (snap_data s))))) owner su False)"
proof
  have eff: "effective (kbchat_checker su) s
      = Some (permission_from_shared_with (attr_default [] (shared_with (snap_data s))))"
    using assms(4) by (simp add: effective_def absent_kbchat_permission_def)
  have no_write: "\<not> resource_decision (human u gs) v (Some (permission_from_shared_with sh)) False"
    if "v \<in> {WriteMeta, ChangePermission}" for u gs v sh
    using that by (auto simp: resource_decision_def permission_from_shared_with_def Let_def
        granted_def effective_grants_def default_permission_def)
  show "check_permission (kbchat_checker su) ctx = Allow \<longleftrightarrow>
            context_user ctx \<in> su \<or> context_user ctx = owner"
    using assms(2,3,5) no_write
    by (auto simp: check_permission_def check_write_Allow eff checker_actor_def perm_simps)
  show "admits m r (kbchat_access_scope su user) \<longleftrightarrow>
          authorize (human user {}) ReadMeta
            (Some (effective_permission (stored_permission s)
                     (attr_default [] (shared_with (snap_data s))))) owner su False"
    using query_engine.kbchat_admits [OF assms(1)] assms(4,6,7,8)
    by (auto simp: effective_permission_def authorize_shared_with)
qed

theorem legacy_chat_private_to_owner_witness:
  "check_permission (kbchat_checker {})
     ((plain_context ActUpdate ''bob'' OtherPatch)
        \<lparr>current_resource := Val (Some \<lparr>snap_created_by = Some ''alice'',
           snap_data = plain_body\<lparr>shared_with := Val [''bob'']\<rparr>\<rparr>)\<rparr>) \<noteq> Allow"
  using legacy_chat_private_to_owner
    [OF reference.query_engine_axioms,
     of "(plain_context ActUpdate ''bob'' OtherPatch)
          \<lparr>current_resource := Val (Some \<lparr>snap_created_by = Some ''alice'',
             snap_data = plain_body\<lparr>shared_with := Val [''bob'']\<rparr>\<rparr>)\<rparr>"
        "\<lparr>snap_created_by = Some ''alice'', snap_data = plain_body\<lparr>shared_with := Val [''bob'']\<rparr>\<rparr>"
        "''alice''" "\<lparr>cells = (\<lambda>_. Absent)(''shared_with'' := JList [''bob'']), row_created_by = ''alice''\<rparr>"
        "{}" "''bob''"]
  by (simp add: current_def plain_context_def stored_permission_def plain_body_def context_user_def)

text \<open>
  of the row that is private to its creator, update, modify, patch and delete are for
  the creator and the superusers; a permanent delete, a switch and a restore are let through
  for everybody by this checker (only the read scope stands in front of them).
\<close>

theorem owner_only_leaves_permanent_delete_open:
  "(action ctx \<in> OWNER_ONLY_WRITE_ACTIONS \<longrightarrow>
      (owner_only_check_permission su ctx = Allow \<longleftrightarrow>
         context_user ctx \<in> su
         \<or> Option.bind (current ctx) snap_created_by = Some (context_user ctx)))
   \<and> (action ctx \<in> {ActPermanentlyDelete, ActSwitch, ActRestore} \<longrightarrow>
        owner_only_check_permission su ctx = Allow)"
  by (auto simp: owner_only_check_permission_def OWNER_ONLY_WRITE_ACTIONS_def split: option.splits)

theorem owner_only_leaves_permanent_delete_open_witness:
  "owner_only_check_permission {} (plain_context ActPermanentlyDelete ''mallory'' OtherPatch) = Allow
   \<and> owner_only_check_permission {} (plain_context ActDelete ''mallory'' OtherPatch) \<noteq> Allow"
proof -
  have "action (plain_context ActPermanentlyDelete ''mallory'' OtherPatch)
      \<in> {ActPermanentlyDelete, ActSwitch, ActRestore}"
    and "action (plain_context ActDelete ''mallory'' OtherPatch) \<in> OWNER_ONLY_WRITE_ACTIONS"
    by (simp_all add: plain_context_def OWNER_ONLY_WRITE_ACTIONS_def)
  then show ?thesis
    using owner_only_leaves_permanent_delete_open
      [of "plain_context ActPermanentlyDelete ''mallory'' OtherPatch" "{}"]
      owner_only_leaves_permanent_delete_open
      [of "plain_context ActDelete ''mallory'' OtherPatch" "{}"]
    by (simp add: plain_context_def current_def context_user_def)
qed

end
