(* ===== verification/ItemAuthz.thy ===== *)
theory ItemAuthz
  imports PermChecker
begin

text \<open>
  The two gates in front of a work item: the HTTP gate of \<open>api/item_authz.py\<close> (404 before
  403 before 410) and the agent-tool funnel of \<open>agent/tool_authz.py\<close>.  The item store is a
  lookup function from an id to the item's facts, soft-deleted rows included.
\<close>

section \<open>The HTTP gate (api/item_authz.py)\<close>

record access_facts =
  fact_slug :: string
  fact_permission :: "permission option"
  fact_created_by :: string
  fact_is_deleted :: bool

datatype app_ref = AppSlug string | AnyApp

text \<open>The refusals: the status, and what the body says.\<close>

datatype detail =
    NotFoundInApp string app_ref   \<comment> \<open>item \<open>id\<close> not found in app \<open>slug\<close>\<close>
  | ItemNotFound                   \<comment> \<open>item not found\<close>
  | NeedsUseWui                    \<comment> \<open>the \<open>needs_use_wui\<close> code\<close>
  | NotAuthorizedTo verb
  | ItemGone string

datatype http_error = HttpError nat detail

definition load_access_facts ::
  "(string \<Rightarrow> access_facts option) \<Rightarrow> string \<Rightarrow> bool \<Rightarrow> access_facts option" where
  "load_access_facts find_work_item item_id include_deleted =
     (case find_work_item item_id of
        None \<Rightarrow> None
      | Some f \<Rightarrow> (if fact_is_deleted f \<and> \<not> include_deleted then None else Some f))"

definition refuse_if_gone :: "access_facts option \<Rightarrow> string \<Rightarrow> http_error + unit" where
  "refuse_if_gone facts item_id =
     (case facts of
        Some f \<Rightarrow> (if fact_is_deleted f then Inl (HttpError 410 (ItemGone item_id)) else Inr ())
      | None \<Rightarrow> Inr ())"

fun app_matches :: "string \<Rightarrow> app_ref \<Rightarrow> bool" where
  "app_matches actual AnyApp = True"
| "app_matches actual (AppSlug wanted) = (actual = wanted)"

text \<open>A tuple of verbs is any of them; the refusal names the last (the tuple is not empty).\<close>

definition check_access ::
  "access_facts option \<Rightarrow> app_ref \<Rightarrow> string \<Rightarrow> verb list \<Rightarrow> string \<Rightarrow> string set \<Rightarrow> string set
   \<Rightarrow> http_error + unit" where
  "check_access facts slug item_id verbs user gs su =
     (case facts of
        None \<Rightarrow> Inl (HttpError 404 (NotFoundInApp item_id slug))
      | Some f \<Rightarrow>
          (if \<not> app_matches (fact_slug f) slug
           then Inl (HttpError 404 (NotFoundInApp item_id slug))
           else
             let a = human user gs; perm = fact_permission f; owner = fact_created_by f in
             if \<not> authorize a ReadMeta perm owner su False
             then Inl (HttpError 404 ItemNotFound)
             else if \<not> list_ex (\<lambda>v. authorize a v perm owner su False) verbs
             then (if last verbs = UseWui then Inl (HttpError 403 NeedsUseWui)
                   else Inl (HttpError 403 (NotAuthorizedTo (last verbs))))
             else Inr ()))"

definition require_item_access ::
  "(string \<Rightarrow> access_facts option) \<Rightarrow> app_ref \<Rightarrow> string \<Rightarrow> verb \<Rightarrow> string \<Rightarrow> string set
   \<Rightarrow> (string \<Rightarrow> string set) \<Rightarrow> bool \<Rightarrow> http_error + (permission option \<times> string)" where
  "require_item_access find_work_item slug item_id v user su groups_of allow_deleted =
     (let facts = load_access_facts find_work_item item_id True in
      case check_access facts slug item_id [v] user (groups_of user) su of
        Inl e \<Rightarrow> Inl e
      | Inr _ \<Rightarrow>
          (case (if allow_deleted then Inr () else refuse_if_gone facts item_id) of
             Inl e \<Rightarrow> Inl e
           | Inr _ \<Rightarrow>
               (case facts of
                  Some f \<Rightarrow> Inr (fact_permission f, fact_created_by f)
                | None \<Rightarrow> Inl (HttpError 500 ItemNotFound))))"

definition user_may ::
  "(string \<Rightarrow> access_facts option) \<Rightarrow> string \<Rightarrow> string \<Rightarrow> verb \<Rightarrow> string set
   \<Rightarrow> (string \<Rightarrow> string set) \<Rightarrow> bool" where
  "user_may find_work_item item_id user v su groups_of =
     (case check_access (load_access_facts find_work_item item_id False) AnyApp item_id [v]
             user (groups_of user) su of
        Inl _ \<Rightarrow> False
      | Inr _ \<Rightarrow> True)"

lemma check_access_ok:
  "check_access facts slug item_id verbs user gs su = Inr () \<longleftrightarrow>
     (\<exists>f. facts = Some f \<and> app_matches (fact_slug f) slug
        \<and> authorize (human user gs) ReadMeta (fact_permission f) (fact_created_by f) su False
        \<and> (\<exists>v \<in> set verbs.
              authorize (human user gs) v (fact_permission f) (fact_created_by f) su False))"
  by (auto simp: check_access_def Let_def list_ex_iff split: option.splits if_splits)

lemma load_access_facts_all [simp]: "load_access_facts lookup i True = lookup i"
  by (simp add: load_access_facts_def split: option.split)

section \<open>The agent-tool funnel (agent/tool_authz.py)\<close>

definition TOOL_VERBS :: "(string, verb list) dict" where
  "TOOL_VERBS =
     [(''read_file'', [ReadContent]),
      (''read_image'', [ReadContent]),
      (''show_file'', [ReadContent]),
      (''list_files'', [ReadContent]),
      (''exists'', [ReadContent]),
      (''write_file'', [EditContent]),
      (''edit_file'', [ReadContent, EditContent]),
      (''delete_file'', [EditContent]),
      (''exec'', [Execute]),
      (''make_deck'', [ReadContent, EditContent, Execute]),
      (''save_subagent'', [EditContent]),
      (''infer_modules'', [ReadContent, EditContent]),
      (''query_entity'', [ReadContent]),
      (''create_entity'', [ReadContent, EditContent]),
      (''update_entity'', [ReadContent, EditContent]),
      (''link_entity'', [ReadContent, EditContent]),
      (''save_workflow'', [EditContent]),
      (''save_schedules'', [EditContent]),
      (''save_skill'', [EditContent]),
      (''publish_skill'', [EditContent]),
      (''install_skill'', [EditContent]),
      (''search_wiki'', [ReadContent])]"

definition LEGACY_TOOL_RENAMES :: "(string, string) dict" where
  "LEGACY_TOOL_RENAMES = [(''ls'', ''list_files'')]"

definition renamed :: "string \<Rightarrow> string" where
  "renamed n = (case dict_get LEGACY_TOOL_RENAMES n of None \<Rightarrow> n | Some m \<Rightarrow> m)"

definition tool_verbs :: "string \<Rightarrow> verb list" where
  "tool_verbs n = (case dict_get TOOL_VERBS n of None \<Rightarrow> [] | Some vs \<Rightarrow> vs)"

definition ceiling_from_tools :: "string list option \<Rightarrow> verb set" where
  "ceiling_from_tools allowed =
     (let names = (case allowed of None \<Rightarrow> dict_keys TOOL_VERBS | Some ns \<Rightarrow> map renamed ns)
      in set (concat (map tool_verbs names)))"

text \<open>
  The context of a turn, as far as the funnel reads it.  \<open>speaker_groups\<close> is the answer the
  group store would give if it were asked.
\<close>

record tool_context =
  has_spec :: bool
  investigation_id :: string
  app_slug :: string
  acting_speaker :: string
  allowed_tools :: "string list option option"  \<comment> \<open>None: no agent configuration\<close>
  speaker_groups :: "string set"

fun verb_name :: "verb \<Rightarrow> string" where
  "verb_name ReadMeta = ''read_meta''"
| "verb_name WriteMeta = ''write_meta''"
| "verb_name ReadContent = ''read_content''"
| "verb_name AddContent = ''add_content''"
| "verb_name EditContent = ''edit_content''"
| "verb_name ReadChat = ''read_chat''"
| "verb_name Converse = ''converse''"
| "verb_name Execute = ''execute''"
| "verb_name UseTerminal = ''use_terminal''"
| "verb_name UseWui = ''use_wui''"
| "verb_name ChangePermission = ''change_permission''"

definition refusal_text :: "verb \<Rightarrow> string" where
  "refusal_text v =
     ''error: you don'' @ [CHR 0x27] @ ''t have permission to ''
     @ map (\<lambda>c. if c = CHR ''_'' then CHR '' '' else c) (verb_name v) @ '' in this workspace.''"

text \<open>
  \<open>apps\<close> are the registered App slugs and \<open>find_item\<close> the App's own item store (live rows
  only), giving the permission and the creator.
\<close>

definition authorize_tool ::
  "(string \<Rightarrow> bool) \<Rightarrow> (string \<Rightarrow> string \<Rightarrow> (permission option \<times> string) option)
   \<Rightarrow> tool_context \<Rightarrow> verb \<Rightarrow> string option" where
  "authorize_tool apps find_item ctx v =
     (if \<not> has_spec ctx \<or> investigation_id ctx = '''' \<or> app_slug ctx = '''' then None
      else if \<not> apps (app_slug ctx) then None
      else (case find_item (app_slug ctx) (investigation_id ctx) of
        None \<Rightarrow> None
      | Some (perm, owner) \<Rightarrow>
          (let allowed = (case allowed_tools ctx of None \<Rightarrow> None | Some al \<Rightarrow> al);
               ceil = ceiling_from_tools allowed
           in if authorize (ai (acting_speaker ctx) (Some ceil) {}) v perm owner {} False then None
              else if v \<in> ceil
                   \<and> authorize (ai (acting_speaker ctx) (Some ceil) (speaker_groups ctx)) v perm
                       owner {} False
              then None
              else Some (refusal_text v))))"

definition turn_ceiling :: "tool_context \<Rightarrow> verb set" where
  "turn_ceiling ctx =
     ceiling_from_tools (case allowed_tools ctx of None \<Rightarrow> None | Some al \<Rightarrow> al)"

definition item_turn ::
  "(string \<Rightarrow> bool) \<Rightarrow> (string \<Rightarrow> string \<Rightarrow> (permission option \<times> string) option)
   \<Rightarrow> tool_context \<Rightarrow> permission option \<Rightarrow> string \<Rightarrow> bool" where
  "item_turn apps find_item ctx perm owner \<longleftrightarrow>
     has_spec ctx \<and> investigation_id ctx \<noteq> '''' \<and> app_slug ctx \<noteq> ''''
     \<and> apps (app_slug ctx)
     \<and> find_item (app_slug ctx) (investigation_id ctx) = Some (perm, owner)"

text \<open>Asking for the groups only after a refusal gives the answer of asking first.\<close>

lemma lazy_groups:
  "authorize (ai u (Some c) {}) v perm owner su disc
   \<or> v \<in> c \<and> authorize (ai u (Some c) gs) v perm owner su disc
   \<longleftrightarrow> authorize (ai u (Some c) gs) v perm owner su disc"
  using resource_decision_mono_groups [of "{}" gs u v perm disc] by (auto simp: perm_simps)

lemma authorize_tool_item:
  assumes "item_turn apps find_item ctx perm owner"
  shows "authorize_tool apps find_item ctx v = None \<longleftrightarrow>
     authorize (ai (acting_speaker ctx) (Some (turn_ceiling ctx)) (speaker_groups ctx)) v perm
       owner {} False"
  using assms lazy_groups
    [of "acting_speaker ctx" "turn_ceiling ctx" v perm owner "{}" False "speaker_groups ctx"]
  by (auto simp: authorize_tool_def item_turn_def turn_ceiling_def Let_def split: if_splits)

lemma tool_verbs_never_forbidden: "set (tool_verbs n) \<inter> AI_FORBIDDEN = {}"
proof (cases "dict_get TOOL_VERBS n")
  case (Some vs)
  have "list_all (\<lambda>(n, vs). set vs \<inter> AI_FORBIDDEN = {}) TOOL_VERBS"
    by (simp add: TOOL_VERBS_def AI_FORBIDDEN_def)
  with dict_get_in [OF Some] Some show ?thesis by (auto simp: list_all_iff tool_verbs_def)
qed (simp add: tool_verbs_def)

lemma ceiling_never_forbidden: "ceiling_from_tools allowed \<inter> AI_FORBIDDEN = {}"
  using tool_verbs_never_forbidden by (auto simp: ceiling_from_tools_def Let_def)

lemma ceiling_covers_granted_tool:
  "n \<in> set ns \<Longrightarrow> set (tool_verbs (renamed n)) \<subseteq> ceiling_from_tools (Some ns)"
  by (auto simp: ceiling_from_tools_def)

section \<open>Properties\<close>

text \<open>
  the item gate lets a request through exactly when the item exists under the addressed
  App, the person may know it exists and may do what the route asks, and it is not deleted
  (unless the route is a billing action); and it answers 410 only to somebody who would have
  been let through.
\<close>

theorem item_gate_exact:
  "((\<exists>res. require_item_access lookup slug item_id v user su groups_of allow_deleted = Inr res)
     \<longleftrightarrow> (\<exists>f. lookup item_id = Some f \<and> app_matches (fact_slug f) slug
          \<and> (\<not> fact_is_deleted f \<or> allow_deleted)
          \<and> authorize (human user (groups_of user)) ReadMeta (fact_permission f)
              (fact_created_by f) su False
          \<and> authorize (human user (groups_of user)) v (fact_permission f)
              (fact_created_by f) su False))
   \<and> (require_item_access lookup slug item_id v user su groups_of allow_deleted
         = Inl (HttpError 410 d) \<longrightarrow>
       (\<exists>f. lookup item_id = Some f \<and> fact_is_deleted f
          \<and> authorize (human user (groups_of user)) ReadMeta (fact_permission f)
              (fact_created_by f) su False
          \<and> authorize (human user (groups_of user)) v (fact_permission f)
              (fact_created_by f) su False))"
  by (auto simp: require_item_access_def check_access_def refuse_if_gone_def Let_def
      split: option.splits if_splits)

theorem item_gate_exact_witness:
  "\<exists>f. (\<lambda>i. Some \<lparr>fact_slug = ''rca'', fact_permission = None,
            fact_created_by = ''alice'', fact_is_deleted = True\<rparr>) ''i1'' = Some f
        \<and> fact_is_deleted f
        \<and> authorize (human ''bob'' {}) ReadMeta (fact_permission f) (fact_created_by f) {} False
        \<and> authorize (human ''bob'' {}) Execute (fact_permission f) (fact_created_by f) {} False"
  by (rule item_gate_exact [THEN conjunct2, rule_format, where groups_of = "\<lambda>_. {}"
        and slug = AnyApp and allow_deleted = False and d = "ItemGone ''i1''"])
     (simp add: require_item_access_def check_access_def refuse_if_gone_def perm_simps)

text \<open>
  somebody who may not know an item exists is answered 404, like somebody who asks for
  an item that does not exist, but the two bodies differ: the refusal tells a hidden item
  from a missing one.
\<close>

theorem hidden_item_told_from_missing:
  assumes "find_item item_id = Some f" and "app_matches (fact_slug f) slug"
    and "\<not> authorize (human user (groups_of user)) ReadMeta (fact_permission f)
            (fact_created_by f) su False"
    and "find_item missing = None"
  shows "require_item_access find_item slug item_id v user su groups_of ad
           = Inl (HttpError 404 ItemNotFound)
     \<and> require_item_access find_item slug missing v user su groups_of ad
           = Inl (HttpError 404 (NotFoundInApp missing slug))"
  using assms by (simp add: require_item_access_def check_access_def Let_def)

definition example_hidden_item :: access_facts where
  "example_hidden_item = \<lparr>fact_slug = ''rca'',
     fact_permission = Some (default_permission\<lparr>visibility := Private\<rparr>),
     fact_created_by = ''alice'', fact_is_deleted = False\<rparr>"

theorem hidden_item_told_from_missing_witness:
  "require_item_access ((\<lambda>_. None)(''i1'' := Some example_hidden_item))
     (AppSlug ''rca'') ''i1'' ReadContent ''bob'' {} (\<lambda>_. {}) False
   \<noteq> Inl (HttpError 404 (NotFoundInApp ''i1'' (AppSlug ''rca'')))"
  by (subst hidden_item_told_from_missing
        [where missing = "''i2''" and f = example_hidden_item, THEN conjunct1])
     (simp_all add: example_hidden_item_def perm_simps resource_decision_def)

text \<open>
  C2: the agent-tool funnel is exact: on an item turn a tool's verb is let through exactly
  when it is in the ceiling the preset's tools imply, is not one of the verbs an AI may never
  hold, and the speaker, with all their groups, may do it themselves; no superuser set ever
  widens it, and the ceiling never contains a forbidden verb.
\<close>

theorem tool_funnel_exact:
  assumes "item_turn apps find_item ctx perm owner"
  shows "(authorize_tool apps find_item ctx v = None \<longleftrightarrow>
           v \<in> turn_ceiling ctx \<and> v \<notin> AI_FORBIDDEN
           \<and> authorize (human (acting_speaker ctx) (speaker_groups ctx)) v perm owner {} False)
     \<and> turn_ceiling ctx \<inter> AI_FORBIDDEN = {}"
  using authorize_tool_item [OF assms] ceiling_never_forbidden
  by (auto simp: turn_ceiling_def perm_simps)

definition example_turn :: tool_context where
  "example_turn = \<lparr>has_spec = True, investigation_id = ''i1'', app_slug = ''rca'',
     acting_speaker = ''bob'', allowed_tools = Some (Some [''ls'', ''edit_file'']),
     speaker_groups = {''g1''}\<rparr>"

theorem tool_funnel_exact_witness:
  "authorize_tool (\<lambda>s. s = ''rca'')
     (\<lambda>_ _. Some (Some (default_permission\<lparr>visibility := Restricted,
                           read_content := [''group:g1'']\<rparr>), ''alice''))
     example_turn ReadContent = None"
proof -
  let ?p = "Some (default_permission\<lparr>visibility := Restricted, read_content := [''group:g1'']\<rparr>)"
  have "item_turn (\<lambda>s. s = ''rca'') (\<lambda>_ _. Some (?p, ''alice'')) example_turn ?p ''alice''"
    by (simp add: item_turn_def example_turn_def)
  moreover have "ReadContent \<in> turn_ceiling example_turn"
    unfolding turn_ceiling_def example_turn_def by code_simp
  ultimately show ?thesis
    using tool_funnel_exact [of "\<lambda>s. s = ''rca''" "\<lambda>_ _. Some (?p, ''alice'')" example_turn ?p
        "''alice''" ReadContent]
    by (simp add: AI_FORBIDDEN_def perm_simps resource_decision_def granted_def subjects_def
        effective_grants_def example_turn_def group_subject_def)
qed

end
