(* ===== verification/RowStore.thy ===== *)
theory RowStore
  imports WsPrelude
begin

text \<open>
  The row store the coordination components of the program share: a resource manager of the
  specstar library, one per model.  specstar is not part of the repository, so the manager is
  an argument of every definition that uses it (the record \<open>row_api\<close>), and what the code relies
  on is the locale \<open>row_store\<close>: \<open>get\<close>, \<open>modify\<close> (with its optional compare-and-swap on the
  etag), \<open>create\<close>, \<open>delete\<close> (soft), \<open>permanently_delete\<close>, \<open>restore\<close> and the full listing that
  \<open>list_resources\<close> filters by its query.  \<open>mem_store\<close> is a manager over an association list;
  it satisfies the contract.

  \<open>upsert\<close> and \<open>delete_quietly\<close> are the two call patterns the ledgers repeat.
\<close>

section \<open>The manager's interface\<close>

datatype rm_error = NotFound | IsDeleted | Duplicate | PreconditionFailed

text \<open>A stored row: its data, its etag (a revision number here) and its soft-delete mark.\<close>

type_synonym 'r row = "'r \<times> nat \<times> bool"

record ('s, 'r) row_api =
  rm_get :: "'s \<Rightarrow> bool \<Rightarrow> string \<Rightarrow> rm_error + 'r \<times> nat"
  rm_modify :: "'s \<Rightarrow> string \<Rightarrow> 'r \<Rightarrow> nat option \<Rightarrow> rm_error + 's \<times> nat"
  rm_create :: "'s \<Rightarrow> string \<Rightarrow> 'r \<Rightarrow> rm_error + 's"
  rm_delete :: "'s \<Rightarrow> string \<Rightarrow> rm_error + 's"
  rm_purge :: "'s \<Rightarrow> string \<Rightarrow> rm_error + 's"
  rm_restore :: "'s \<Rightarrow> string \<Rightarrow> rm_error + 's"
  rm_list :: "'s \<Rightarrow> (string \<times> 'r row) list"

section \<open>Call patterns\<close>

text \<open>Modify; create when absent; restore and modify when soft-deleted.\<close>

definition upsert :: "('s, 'r) row_api \<Rightarrow> 's \<Rightarrow> string \<Rightarrow> 'r \<Rightarrow> rm_error + 's" where
  "upsert api s i r =
     (case rm_modify api s i r None of
        Inr (s', _) \<Rightarrow> Inr s'
      | Inl NotFound \<Rightarrow>
          (case rm_create api s i r of
             Inr s' \<Rightarrow> Inr s'
           | Inl Duplicate \<Rightarrow> Inr s
           | Inl e \<Rightarrow> Inl e)
      | Inl IsDeleted \<Rightarrow>
          bindE (rm_restore api s i) (\<lambda>s1.
          bindE (rm_modify api s1 i r None) (\<lambda>(s2, _). Inr s2))
      | Inl e \<Rightarrow> Inl e)"

definition delete_quietly :: "('s, 'r) row_api \<Rightarrow> 's \<Rightarrow> string \<Rightarrow> rm_error + 's" where
  "delete_quietly api s i =
     (case rm_delete api s i of
        Inr s' \<Rightarrow> Inr s'
      | Inl NotFound \<Rightarrow> Inr s
      | Inl IsDeleted \<Rightarrow> Inr s
      | Inl e \<Rightarrow> Inl e)"

text \<open>\<open>list_resources (... & is_deleted == False)\<close>: the data of the live rows the query admits.\<close>

definition list_live :: "('s, 'r) row_api \<Rightarrow> 's \<Rightarrow> ('r \<Rightarrow> bool) \<Rightarrow> 'r list" where
  "list_live api s q =
     map (\<lambda>(i, r, e, d). r) (filter (\<lambda>(i, r, e, d). q r \<and> \<not> d) (rm_list api s))"

section \<open>A manager over an association list\<close>

type_synonym 'r mem = "(string, 'r row) dict"

definition mem_get :: "'r mem \<Rightarrow> bool \<Rightarrow> string \<Rightarrow> rm_error + 'r \<times> nat" where
  "mem_get m incl i =
     (case dict_get m i of
        None \<Rightarrow> Inl NotFound
      | Some (r, e, d) \<Rightarrow> (if d \<and> \<not> incl then Inl IsDeleted else Inr (r, e)))"

definition mem_modify :: "'r mem \<Rightarrow> string \<Rightarrow> 'r \<Rightarrow> nat option \<Rightarrow> rm_error + 'r mem \<times> nat" where
  "mem_modify m i r expected =
     (case dict_get m i of
        None \<Rightarrow> Inl NotFound
      | Some (r0, e, d) \<Rightarrow>
          (if d then Inl IsDeleted
           else if expected \<noteq> None \<and> expected \<noteq> Some e then Inl PreconditionFailed
           else Inr (dict_set i (r, Suc e, False) m, Suc e)))"

definition mem_create :: "'r mem \<Rightarrow> string \<Rightarrow> 'r \<Rightarrow> rm_error + 'r mem" where
  "mem_create m i r =
     (case dict_get m i of
        None \<Rightarrow> Inr (dict_set i (r, 0, False) m)
      | Some _ \<Rightarrow> Inl Duplicate)"

definition mem_delete :: "'r mem \<Rightarrow> string \<Rightarrow> rm_error + 'r mem" where
  "mem_delete m i =
     (case dict_get m i of
        None \<Rightarrow> Inl NotFound
      | Some (r, e, d) \<Rightarrow> (if d then Inl IsDeleted else Inr (dict_set i (r, Suc e, True) m)))"

definition mem_purge :: "'r mem \<Rightarrow> string \<Rightarrow> rm_error + 'r mem" where
  "mem_purge m i =
     (case dict_get m i of None \<Rightarrow> Inl NotFound | Some _ \<Rightarrow> Inr (dict_pop i m))"

definition mem_restore :: "'r mem \<Rightarrow> string \<Rightarrow> rm_error + 'r mem" where
  "mem_restore m i =
     (case dict_get m i of
        None \<Rightarrow> Inl NotFound
      | Some (r, e, d) \<Rightarrow> Inr (dict_set i (r, Suc e, False) m))"

definition mem_list :: "'r mem \<Rightarrow> (string \<times> 'r row) list" where
  "mem_list m = map (\<lambda>k. (k, the (dict_get m k))) (remdups (dict_keys m))"

definition mem_store :: "('r mem, 'r) row_api" where
  "mem_store = \<lparr>rm_get = mem_get, rm_modify = mem_modify, rm_create = mem_create,
     rm_delete = mem_delete, rm_purge = mem_purge, rm_restore = mem_restore,
     rm_list = mem_list\<rparr>"

lemmas mem_store_defs =
  mem_store_def mem_get_def mem_modify_def mem_create_def mem_delete_def mem_purge_def
  mem_restore_def mem_list_def

section \<open>The contract\<close>

locale row_store =
  fixes api :: "('s, 'r) row_api"
    and rows :: "'s \<Rightarrow> string \<Rightarrow> 'r row option"
  assumes get_law:
      "rm_get api s incl i =
         (case rows s i of
            None \<Rightarrow> Inl NotFound
          | Some (r, e, d) \<Rightarrow> if d \<and> \<not> incl then Inl IsDeleted else Inr (r, e))"
    and modify_absent: "rows s i = None \<Longrightarrow> rm_modify api s i r x = Inl NotFound"
    and modify_deleted: "rows s i = Some (r0, e, True) \<Longrightarrow> rm_modify api s i r x = Inl IsDeleted"
    and modify_stale:
      "rows s i = Some (r0, e, False) \<Longrightarrow> e' \<noteq> e \<Longrightarrow>
         rm_modify api s i r (Some e') = Inl PreconditionFailed"
    and modify_live:
      "rows s i = Some (r0, e, False) \<Longrightarrow> x = None \<or> x = Some e \<Longrightarrow>
         \<exists>s' e'. rm_modify api s i r x = Inr (s', e') \<and> e < e'
               \<and> rows s' = (rows s)(i \<mapsto> (r, e', False))"
    and create_present: "rows s i \<noteq> None \<Longrightarrow> rm_create api s i r = Inl Duplicate"
    and create_absent:
      "rows s i = None \<Longrightarrow>
         \<exists>s' e'. rm_create api s i r = Inr s' \<and> rows s' = (rows s)(i \<mapsto> (r, e', False))"
    and delete_absent: "rows s i = None \<Longrightarrow> rm_delete api s i = Inl NotFound"
    and delete_deleted: "rows s i = Some (r0, e, True) \<Longrightarrow> rm_delete api s i = Inl IsDeleted"
    and delete_live:
      "rows s i = Some (r0, e, False) \<Longrightarrow>
         \<exists>s' e'. rm_delete api s i = Inr s' \<and> e \<le> e' \<and> rows s' = (rows s)(i \<mapsto> (r0, e', True))"
    and purge_absent: "rows s i = None \<Longrightarrow> rm_purge api s i = Inl NotFound"
    and purge_present:
      "rows s i \<noteq> None \<Longrightarrow> \<exists>s'. rm_purge api s i = Inr s' \<and> rows s' = (rows s)(i := None)"
    and restore_absent: "rows s i = None \<Longrightarrow> rm_restore api s i = Inl NotFound"
    and restore_present:
      "rows s i = Some (r0, e, d) \<Longrightarrow>
         \<exists>s' e'. rm_restore api s i = Inr s' \<and> e \<le> e' \<and> rows s' = (rows s)(i \<mapsto> (r0, e', False))"
    and list_distinct: "distinct (map fst (rm_list api s))"
    and list_rows: "(i, row) \<in> set (rm_list api s) \<longleftrightarrow> rows s i = Some row"
begin

lemma modify_cases:
  obtains "rows s i = None" "rm_modify api s i r x = Inl NotFound"
  | r0 e where "rows s i = Some (r0, e, True)" "rm_modify api s i r x = Inl IsDeleted"
  | r0 e e' where "rows s i = Some (r0, e, False)" "x = Some e'" "e' \<noteq> e"
      "rm_modify api s i r x = Inl PreconditionFailed"
  | r0 e s' e' where "rows s i = Some (r0, e, False)" "x = None \<or> x = Some e" "e < e'"
      "rm_modify api s i r x = Inr (s', e')" "rows s' = (rows s)(i \<mapsto> (r, e', False))"
proof (cases "rows s i")
  case None
  then show ?thesis using that(1) modify_absent by blast
next
  case (Some row)
  obtain r0 e d where row: "rows s i = Some (r0, e, d)" using Some by (cases row) auto
  show ?thesis
  proof (cases d)
    case True
    with row have "rows s i = Some (r0, e, True)" by simp
    then show ?thesis using that(2) modify_deleted by blast
  next
    case False
    with row have live: "rows s i = Some (r0, e, False)" by simp
    show ?thesis
    proof (cases "x = None \<or> x = Some e")
      case True
      then show ?thesis using that(4) live modify_live [of s i r0 e x r] by blast
    next
      case False
      then obtain e' where "x = Some e'" "e' \<noteq> e" by (cases x) auto
      then show ?thesis using that(3) live modify_stale by blast
    qed
  qed
qed

lemma modify_Inr:
  assumes "rm_modify api s i r x = Inr (s', e')"
  shows "\<exists>r0 e. rows s i = Some (r0, e, False) \<and> (x = None \<or> x = Some e) \<and> e < e'"
    and "rows s' = (rows s)(i \<mapsto> (r, e', False))"
  using assms by (cases rule: modify_cases [of s i r x]; auto)+

lemma upsert_total:
  "\<exists>s' e'. upsert api s i r = Inr s' \<and> rows s' = (rows s)(i \<mapsto> (r, e', False))"
proof (cases rule: modify_cases [of s i r None])
  case 1
  then show ?thesis using create_absent [of s i r] by (auto simp: upsert_def)
next
  case (2 r0 e)
  then obtain s1 e1 where "rm_restore api s i = Inr s1" "rows s1 = (rows s)(i \<mapsto> (r0, e1, False))"
    using restore_present by blast
  moreover from this obtain s2 e2 where "rm_modify api s1 i r None = Inr (s2, e2)"
      "rows s2 = (rows s1)(i \<mapsto> (r, e2, False))"
    using modify_live [of s1 i r0 e1 None r] by auto
  ultimately show ?thesis using 2 by (auto simp: upsert_def)
next
  case 3
  then show ?thesis by simp
next
  case 4
  then show ?thesis by (auto simp: upsert_def)
qed

lemma upsert_rows:
  assumes "upsert api s i r = Inr s'"
  shows "\<exists>e'. rows s' = (rows s)(i \<mapsto> (r, e', False))"
  using assms upsert_total [of s i r] by auto

lemma delete_quietly_rows:
  assumes "delete_quietly api s i = Inr s'"
  shows "(\<forall>j. j \<noteq> i \<longrightarrow> rows s' j = rows s j)
     \<and> (rows s i = None \<longleftrightarrow> rows s' i = None)
     \<and> (\<forall>r e d. rows s i = Some (r, e, d) \<longrightarrow> (\<exists>e'. rows s' i = Some (r, e', True)))"
proof (cases "rows s i")
  case None
  then show ?thesis using assms delete_absent by (auto simp: delete_quietly_def)
next
  case (Some row)
  obtain r0 e d where row: "rows s i = Some (r0, e, d)" using Some by (cases row) auto
  show ?thesis
  proof (cases d)
    case True
    then show ?thesis using assms row delete_deleted by (auto simp: delete_quietly_def)
  next
    case False
    with row have "rows s i = Some (r0, e, False)" by simp
    then obtain s2 e' where "rm_delete api s i = Inr s2" "rows s2 = (rows s)(i \<mapsto> (r0, e', True))"
      using delete_live by blast
    then show ?thesis using assms row by (auto simp: delete_quietly_def)
  qed
qed

lemma delete_quietly_total: "\<exists>s'. delete_quietly api s i = Inr s'"
proof (cases "rows s i")
  case None
  then show ?thesis using delete_absent by (auto simp: delete_quietly_def)
next
  case (Some row)
  then show ?thesis
    using delete_deleted [of s i] delete_live [of s i]
    by (cases row; cases "snd (snd row)") (fastforce simp: delete_quietly_def)+
qed

lemma list_live_iff:
  "r \<in> set (list_live api s q) \<longleftrightarrow> q r \<and> (\<exists>i e. rows s i = Some (r, e, False))"
  by (auto simp: list_live_def list_rows image_iff) (auto simp: list_rows [symmetric])

lemma finite_rows: "finite {i. rows s i \<noteq> None}"
proof -
  have "{i. rows s i \<noteq> None} = fst ` set (rm_list api s)"
    by (force simp: list_rows [symmetric])
  then show ?thesis by simp
qed

lemma filter_list_live: "filter p (list_live api s q) = list_live api s (\<lambda>r. q r \<and> p r)"
proof -
  have "filter p (map (\<lambda>(i, r, e, d). r) (filter (\<lambda>(i, r, e, d). q r \<and> \<not> d) xs))
      = map (\<lambda>(i, r, e, d). r) (filter (\<lambda>(i, r, e, d). (q r \<and> p r) \<and> \<not> d) xs)"
    for xs :: "(string \<times> 'r row) list"
    by (induction xs) auto
  then show ?thesis by (simp add: list_live_def)
qed

text \<open>A table whose rows carry their own id (\<open>resource_id == item_id\<close>).\<close>

definition keyed :: "('r \<Rightarrow> string) \<Rightarrow> 's \<Rightarrow> bool" where
  "keyed f s \<longleftrightarrow> (\<forall>i r e d. rows s i = Some (r, e, d) \<longrightarrow> f r = i)"

lemma keyed_upsert: "upsert api s i r = Inr s' \<Longrightarrow> keyed f s \<Longrightarrow> f r = i \<Longrightarrow> keyed f s'"
  by (drule upsert_rows) (auto simp: keyed_def split: if_splits)

lemma keyed_delete_quietly:
  assumes "delete_quietly api s i = Inr s'" "keyed f s"
  shows "keyed f s'"
  unfolding keyed_def
proof (intro allI impI)
  fix j r e d assume "rows s' j = Some (r, e, d)"
  then show "f r = j"
    using delete_quietly_rows [OF assms(1)] assms(2) unfolding keyed_def
    by (cases "rows s i"; cases "j = i") fastforce+
qed

lemma list_live_keys:
  assumes "keyed f s"
  shows "map f (list_live api s q)
     = map fst (filter (\<lambda>(i, r, e, d). q r \<and> \<not> d) (rm_list api s))"
proof -
  have "\<forall>(i, r, e, d) \<in> set (rm_list api s). f r = i"
    using assms by (auto simp: keyed_def list_rows)
  then show ?thesis
    unfolding list_live_def by (induction "rm_list api s") (simp_all, auto)
qed

lemma list_live_distinct: "keyed f s \<Longrightarrow> distinct (map f (list_live api s q))"
  using list_distinct [of s] by (simp add: list_live_keys distinct_map_filter)

lemma list_live_key_iff:
  "keyed f s \<Longrightarrow>
     i \<in> f ` set (list_live api s q) \<longleftrightarrow> (\<exists>r e. rows s i = Some (r, e, False) \<and> q r)"
  by (force simp: list_live_iff keyed_def)

text \<open>A sum over the listing is a sum over the rows.\<close>

lemma sum_list_live:
  "(\<Sum>r\<leftarrow>list_live api s q. f r)
     = (\<Sum>i | rows s i \<noteq> None.
          case the (rows s i) of (r, e, d) \<Rightarrow> if q r \<and> \<not> d then f r else (0 :: 'b :: comm_monoid_add))"
proof -
  let ?g = "\<lambda>(i :: string, r, e :: nat, d). if q r \<and> \<not> d then f r else 0"
  have dist: "distinct (rm_list api s)"
    using list_distinct [of s] by (simp add: distinct_map)
  have "(\<Sum>r\<leftarrow>map (\<lambda>(i, r, e, d). r) (filter (\<lambda>(i, r, e, d). q r \<and> \<not> d) xs). f r)
      = (\<Sum>x\<leftarrow>xs. ?g x)" for xs
    by (induction xs) (simp_all add: case_prod_beta)
  then have "(\<Sum>r\<leftarrow>list_live api s q. f r) = (\<Sum>x\<leftarrow>rm_list api s. ?g x)"
    by (simp add: list_live_def)
  also have "\<dots> = sum ?g (set (rm_list api s))"
    using dist by (simp add: sum_list_distinct_conv_sum_set)
  also have "\<dots> = (\<Sum>i | rows s i \<noteq> None. ?g (i, the (rows s i)))"
  proof (rule sum.reindex_cong [of "\<lambda>i. (i, the (rows s i))"])
    show "set (rm_list api s) = (\<lambda>i. (i, the (rows s i))) ` {i. rows s i \<noteq> None}"
      by (auto simp: list_rows image_iff)
  qed (auto simp: inj_on_def)
  finally show ?thesis by (simp add: case_prod_beta)
qed

end

section \<open>The association list satisfies the contract\<close>

lemma mem_list_rows: "(i, row) \<in> set (mem_list m) \<longleftrightarrow> dict_get m i = Some row"
proof (cases "dict_get m i")
  case None
  then show ?thesis using dict_get_eq_None [of m i] by (auto simp: mem_list_def)
next
  case (Some v)
  then have "i \<in> set (dict_keys m)" using dict_get_eq_None [of m i] by auto
  then have "i \<in> set (remdups (dict_keys m))" by simp
  with Some show ?thesis by (auto simp del: set_remdups simp: mem_list_def)
qed

lemma mem_list_distinct: "distinct (map fst (mem_list m))"
  by (simp add: mem_list_def o_def)

interpretation mem: row_store mem_store dict_get
proof (unfold_locales, goal_cases)
  case (15 s)
  show ?case by (simp add: mem_store_def mem_list_distinct)
next
  case (16 i row s)
  show ?case by (simp add: mem_store_def mem_list_rows)
qed (auto simp: mem_store_def mem_get_def mem_modify_def mem_create_def mem_delete_def
    mem_purge_def mem_restore_def fun_eq_iff split: option.splits)

end
