(* ===== verification/QuotaLimits.thy ===== *)
theory QuotaLimits
  imports WsPrelude
begin

text \<open>
  \<open>quota/limits.py\<close>: reading a size as a person writes it, resolving one App's limits from
  its manifest and the deploy's configuration, the deploy's ceiling, and the boot-time report
  of limits that cannot bind.  The configuration records follow \<open>apps/manifest.py\<close> and
  \<open>config/schema.py\<close>.

  Configured texts are lists of Unicode code points here, because \<open>parse_size\<close> folds
  full-width digits and skips Unicode white space.  The one float computation, a fractional
  size, is modelled with IEEE double rounding (to nearest, ties to even, overflow to infinity).
  Message texts are kept as structured values.
\<close>

section \<open>Code points\<close>

type_synonym ptext = "int list"

definition cps :: "string \<Rightarrow> ptext" where
  "cps s = map of_char s"

definition is_space :: "int \<Rightarrow> bool" where
  "is_space c \<longleftrightarrow> (9 \<le> c \<and> c \<le> 13) \<or> (28 \<le> c \<and> c \<le> 32) \<or> c = 133 \<or> c = 160 \<or> c = 5760
     \<or> (8192 \<le> c \<and> c \<le> 8202) \<or> c = 8232 \<or> c = 8233 \<or> c = 8239 \<or> c = 8287 \<or> c = 12288"

definition strip :: "ptext \<Rightarrow> ptext" where
  "strip t = rev (dropWhile is_space (rev (dropWhile is_space t)))"

definition is_digit :: "int \<Rightarrow> bool" where
  "is_digit c \<longleftrightarrow> 48 \<le> c \<and> c \<le> 57"

text \<open>\<open>_FULL_WIDTH_DIGITS\<close>: U+FF10 to U+FF19 become ASCII digits.\<close>

definition fold_full_width :: "int \<Rightarrow> int" where
  "fold_full_width c = (if 65296 \<le> c \<and> c \<le> 65305 then c - 65248 else c)"

fun decimal :: "int \<Rightarrow> ptext \<Rightarrow> int" where
  "decimal acc [] = acc"
| "decimal acc (c # cs) = decimal (10 * acc + (c - 48)) cs"

text \<open>\<open>_SIZE_UNITS\<close> by (case-folded) letter.\<close>

definition SIZE_UNITS :: "int \<Rightarrow> int option" where
  "SIZE_UNITS c =
     (if c = 75 \<or> c = 107 then Some 1024
      else if c = 77 \<or> c = 109 then Some (1024 ^ 2)
      else if c = 71 \<or> c = 103 then Some (1024 ^ 3)
      else if c = 84 \<or> c = 116 then Some (1024 ^ 4)
      else None)"

text \<open>
  The regular expression \<open>_SIZE\<close>, full match: digits, an optional fraction, white space, an
  optional unit letter with an optional B.  The result is the digits before and after the
  point and the unit.
\<close>

definition match_unit :: "ptext \<Rightarrow> int option option" where
  "match_unit t =
     (case t of
        [] \<Rightarrow> Some None
      | [u] \<Rightarrow> map_option Some (SIZE_UNITS u)
      | [u, b] \<Rightarrow> (if b = 66 \<or> b = 98 then map_option Some (SIZE_UNITS u) else None)
      | _ \<Rightarrow> None)"

definition match_size :: "ptext \<Rightarrow> (ptext \<times> ptext option \<times> int option) option" where
  "match_size t =
     (let ds = takeWhile is_digit t; r = dropWhile is_digit t in
      if ds = [] then None
      else
        (case r of
           c # r' \<Rightarrow>
             (if c = 46 then
                (let fs = takeWhile is_digit r' in
                 if fs = [] then None
                 else map_option (\<lambda>u. (ds, Some fs, u))
                        (match_unit (dropWhile is_space (dropWhile is_digit r'))))
              else map_option (\<lambda>u. (ds, None, u)) (match_unit (dropWhile is_space r)))
         | [] \<Rightarrow> Some (ds, None, None)))"

section \<open>Doubles\<close>

fun bit_length :: "int \<Rightarrow> int" where
  "bit_length n = (if n \<le> 0 then 0 else 1 + bit_length (n div 2))"

declare bit_length.simps [simp del]

definition pow2 :: "int \<Rightarrow> rat" where
  "pow2 e = (if 0 \<le> e then 2 ^ nat e else 1 / 2 ^ nat (- e))"

definition half_even :: "rat \<Rightarrow> int" where
  "half_even x =
     (let f = \<lfloor>x\<rfloor>; d = x - of_int f in
      if d < 1 / 2 then f else if d > 1 / 2 then f + 1 else if even f then f else f + 1)"

text \<open>
  The double nearest to \<open>n / d\<close> (\<open>d\<close> positive), None for infinity: the exponent is the one
  that puts the significand into \<open>[2^52, 2^53)\<close>, but at least that of the subnormals.
\<close>

definition double_of :: "int \<Rightarrow> int \<Rightarrow> rat option" where
  "double_of n d =
     (if n = 0 then Some 0
      else
        let x = of_int n / of_int d;
            k = bit_length n - bit_length d;
            e = max (if x < pow2 k then k - 53 else k - 52) (- 1074);
            r = of_int (half_even (x / pow2 e)) * pow2 e
        in if pow2 1024 \<le> r then None else Some r)"

definition double_of_rat :: "rat \<Rightarrow> rat option" where
  "double_of_rat q = (case quotient_of q of (a, b) \<Rightarrow> double_of a b)"

section \<open>parse_size\<close>

datatype size_error =
    UnreadableSize ptext      \<comment> \<open>not of the form a size has\<close>
  | SizeTooLarge ptext        \<comment> \<open>a fraction whose value is not finite\<close>
  | LessThanAByte ptext
  | TooManyDigits            \<comment> \<open>Python's \<open>int()\<close> refuses more than 4300 digits\<close>

definition NO_LIMIT :: int where
  "NO_LIMIT = 0"

definition parse_size :: "ptext \<Rightarrow> size_error + int" where
  "parse_size raw =
     (let t = strip raw in
      if t \<in> {[], cps ''0'', cps ''max''} then Inr NO_LIMIT
      else
        (case match_size (map fold_full_width t) of
           None \<Rightarrow> Inl (UnreadableSize t)
         | Some (ds, fs, u) \<Rightarrow>
             (if u = None \<and> fs \<noteq> None then Inl (UnreadableSize t)
              else
                let scale = (case u of None \<Rightarrow> 1 | Some k \<Rightarrow> k) in
                (case fs of
                   None \<Rightarrow> (if length ds > 4300 then Inl TooManyDigits
                            else Inr (decimal 0 ds * scale))
                 | Some fd \<Rightarrow>
                     (case Option.bind (double_of (decimal 0 (ds @ fd)) (10 ^ length fd))
                             (\<lambda>x. double_of_rat (x * of_int scale)) of
                        None \<Rightarrow> Inl (SizeTooLarge t)
                      | Some scaled \<Rightarrow>
                          (case double_of_rat (scaled + 1 / 2) of
                             None \<Rightarrow> Inl (SizeTooLarge t)
                           | Some y \<Rightarrow>
                               (let size = \<lfloor>y\<rfloor> in
                                if size \<le> 0 then Inl (LessThanAByte t)
                                else Inr size)))))))"

section \<open>The layers (config/schema.py, apps/manifest.py)\<close>

record amounts =
  am_cpu :: rat
  am_memory :: ptext
  am_disk :: ptext

record per_user =
  pu_count :: int
  pu_cpu :: rat
  pu_memory :: ptext
  pu_disk :: ptext

record manifest =
  m_slug :: string
  m_resources :: "amounts option"

record settings =
  per_app_default :: amounts
  per_app_max :: amounts
  workspace_quota :: int

record resource_limits =
  cpu_cores :: "rat option"
  memory_bytes :: "int option"
  disk_bytes :: int
  cpu_max :: rat
  memory_max :: int

datatype limit_error =
    BadSize size_error
  | AboveCeiling string string rat rat  \<comment> \<open>App, dimension, resolved value, deploy maximum\<close>

definition size_of :: "ptext \<Rightarrow> limit_error + int" where
  "size_of t = (case parse_size t of Inl e \<Rightarrow> Inl (BadSize e) | Inr n \<Rightarrow> Inr n)"

definition item_cpu_ceiling :: "resource_limits \<Rightarrow> rat option" where
  "item_cpu_ceiling l = (if cpu_max l \<noteq> 0 then Some (cpu_max l) else cpu_cores l)"

definition item_memory_ceiling :: "resource_limits \<Rightarrow> int option" where
  "item_memory_ceiling l =
     (if memory_max l \<noteq> 0 then Some (memory_max l)
      else (case memory_bytes l of
              Some b \<Rightarrow> (if b \<noteq> 0 then Some b else None)
            | None \<Rightarrow> None))"

section \<open>Resolution\<close>

definition pick_cpu :: "amounts option \<Rightarrow> amounts \<Rightarrow> rat option" where
  "pick_cpu m cfg =
     (case m of
        Some a \<Rightarrow> (if am_cpu a \<noteq> 0 then Some (am_cpu a)
                   else if am_cpu cfg \<noteq> 0 then Some (am_cpu cfg) else None)
      | None \<Rightarrow> (if am_cpu cfg \<noteq> 0 then Some (am_cpu cfg) else None))"

definition pick_size :: "ptext \<Rightarrow> ptext \<Rightarrow> int option \<Rightarrow> limit_error + int option" where
  "pick_size declared cfg fallback =
     (if declared \<noteq> [] then bindE (size_of declared) (\<lambda>n. Inr (Some n))
      else if cfg \<noteq> [] then bindE (size_of cfg) (\<lambda>n. Inr (Some n))
      else Inr fallback)"

text \<open>\<open>_pick_disk\<close>: the fallback is a number, so the assertion after the chain never fails.\<close>

definition pick_disk :: "ptext \<Rightarrow> ptext \<Rightarrow> int \<Rightarrow> limit_error + int" where
  "pick_disk declared cfg fallback =
     bindE (pick_size declared cfg (Some fallback))
       (\<lambda>got. case got of Some n \<Rightarrow> Inr n | None \<Rightarrow> Inr 0)"

fun ceiling_checks :: "string \<Rightarrow> (string \<times> rat option \<times> rat) list \<Rightarrow> limit_error + unit" where
  "ceiling_checks slug [] = Inr ()"
| "ceiling_checks slug ((name, got, cap) # cs) =
     (case got of
        Some g \<Rightarrow> (if cap \<noteq> 0 \<and> g > cap then Inl (AboveCeiling slug name g cap)
                   else ceiling_checks slug cs)
      | None \<Rightarrow> ceiling_checks slug cs)"

definition enforce_ceiling :: "string \<Rightarrow> resource_limits \<Rightarrow> amounts \<Rightarrow> limit_error + unit" where
  "enforce_ceiling slug l mx =
     bindE (size_of (am_memory mx)) (\<lambda>mem_cap.
     bindE (size_of (am_disk mx)) (\<lambda>disk_cap.
       ceiling_checks slug
         [(''cpu'', cpu_cores l, am_cpu mx),
          (''memory'', map_option of_int (memory_bytes l), of_int mem_cap),
          (''disk'', Some (of_int (disk_bytes l)), of_int disk_cap)]))"

definition resolve_app_limits :: "manifest \<Rightarrow> settings \<Rightarrow> limit_error + resource_limits" where
  "resolve_app_limits mf st =
     (let declared = m_resources mf; dflt = per_app_default st; mx = per_app_max st in
      bindE (pick_size (case declared of Some a \<Rightarrow> am_memory a | None \<Rightarrow> [])
               (am_memory dflt) None) (\<lambda>mem.
      bindE (pick_disk (case declared of Some a \<Rightarrow> am_disk a | None \<Rightarrow> [])
               (am_disk dflt) (workspace_quota st)) (\<lambda>disk.
      bindE (size_of (am_memory mx)) (\<lambda>mmax.
        let l = \<lparr>cpu_cores = pick_cpu declared dflt, memory_bytes = mem, disk_bytes = disk,
                 cpu_max = am_cpu mx, memory_max = mmax\<rparr>
        in bindE (enforce_ceiling (m_slug mf) l mx) (\<lambda>_. Inr l)))))"

definition resolve_discovered_apps ::
  "manifest list \<Rightarrow> settings \<Rightarrow> limit_error + (string, resource_limits) dict" where
  "resolve_discovered_apps manifests st =
     bindE (mapE (\<lambda>m. bindE (resolve_app_limits m st) (\<lambda>l. Inr (m_slug m, l))) manifests)
       (\<lambda>kvs. Inr (fold (\<lambda>(k, v) d. dict_set k v d) kvs []))"

section \<open>Limits that cannot bind\<close>

datatype dimension = Cpu | Memory

record enforced_limits =
  enf_cpu :: "rat option"
  enf_memory :: "int option"

fun configured :: "dimension \<Rightarrow> per_user \<Rightarrow> limit_error + rat" where
  "configured Cpu u = Inr (pu_cpu u)"
| "configured Memory u = bindE (size_of (pu_memory u)) (\<lambda>n. Inr (of_int n))"

fun stated :: "dimension \<Rightarrow> resource_limits \<Rightarrow> rat option" where
  "stated Cpu l = cpu_cores l"
| "stated Memory l = map_option of_int (memory_bytes l)"

fun backend :: "dimension \<Rightarrow> enforced_limits \<Rightarrow> rat option" where
  "backend Cpu e = enf_cpu e"
| "backend Memory e = map_option of_int (enf_memory e)"

definition SUMMED_DIMENSIONS :: "dimension list" where
  "SUMMED_DIMENSIONS = [Cpu, Memory]"

datatype warning =
    NothingStates dimension                        \<comment> \<open>the limit does not fire\<close>
  | SomeSilent dimension "string list"             \<comment> \<open>it binds against a partial sum\<close>
  | SmallerThanOne dimension rat "string list"     \<comment> \<open>not even one sandbox fits\<close>

definition warn_dimension ::
  "per_user \<Rightarrow> (string, resource_limits) dict \<Rightarrow> enforced_limits \<Rightarrow> dimension
   \<Rightarrow> limit_error + warning list" where
  "warn_dimension u limits enf dn =
     bindE (configured dn u) (\<lambda>cap.
       if cap = 0 then Inr []
       else if backend dn enf \<noteq> None then Inr []
       else
         let silent = sort (map fst (filter (\<lambda>(slug, l). stated dn l = None) limits)) in
         if silent = [] then Inr []
         else if length silent = length limits then Inr [NothingStates dn]
         else Inr [SomeSilent dn silent])"

definition impossible_dimension ::
  "per_user \<Rightarrow> (string, resource_limits) dict \<Rightarrow> enforced_limits \<Rightarrow> dimension
   \<Rightarrow> limit_error + warning list" where
  "impossible_dimension u limits enf dn =
     bindE (configured dn u) (\<lambda>cap.
       if cap = 0 then Inr []
       else
         let cost = (\<lambda>l. case stated dn l of Some c \<Rightarrow> Some c | None \<Rightarrow> backend dn enf);
             over = sort (map fst (filter (\<lambda>(slug, l). case cost l of
                        Some c \<Rightarrow> c \<noteq> 0 \<and> c > cap | None \<Rightarrow> False) limits))
         in if over \<noteq> [] then Inr [SmallerThanOne dn cap over] else Inr [])"

definition warn_unenforceable_dimensions ::
  "per_user \<Rightarrow> (string, resource_limits) dict \<Rightarrow> enforced_limits \<Rightarrow> limit_error + warning list" where
  "warn_unenforceable_dimensions u limits enf =
     bindE (mapE (warn_dimension u limits enf) SUMMED_DIMENSIONS) (\<lambda>ws.
     bindE (mapE (impossible_dimension u limits enf) SUMMED_DIMENSIONS) (\<lambda>ims.
       Inr (concat ws @ concat ims)))"

section \<open>Lemmas: reading a size\<close>

lemma fold_space [simp]: "is_space c \<Longrightarrow> fold_full_width c = c"
  by (auto simp: is_space_def fold_full_width_def)

lemma digit_not_space: "is_digit c \<Longrightarrow> \<not> is_space c"
  by (auto simp: is_space_def is_digit_def)

lemma space_not_digit: "is_space c \<Longrightarrow> \<not> is_digit c"
  by (auto simp: is_space_def is_digit_def)

lemma folded_digit_not_space: "is_digit (fold_full_width c) \<Longrightarrow> \<not> is_space c"
  by (auto simp: is_space_def is_digit_def fold_full_width_def split: if_splits)

lemma unit_letter:
  assumes "SIZE_UNITS u = Some k"
  shows "\<not> is_space u" "\<not> is_digit u" "u \<noteq> 46" "fold_full_width u = u"
  using assms
  by (auto simp: SIZE_UNITS_def is_space_def is_digit_def fold_full_width_def split: if_splits)

lemma dropWhile_all: "list_all P xs \<Longrightarrow> dropWhile P (xs @ ys) = dropWhile P ys"
  by (induction xs) auto

lemma takeWhile_all: "list_all P xs \<Longrightarrow> takeWhile P (xs @ ys) = xs @ takeWhile P ys"
  by (induction xs) auto

lemma strip_core:
  assumes "list_all is_space pre" "list_all is_space post"
    and "m \<noteq> []" "\<not> is_space (hd m)" "\<not> is_space (last m)"
  shows "strip (pre @ m @ post) = m"
proof -
  obtain c cs where m: "m = c # cs" using assms(3) by (cases m) auto
  have "dropWhile is_space (pre @ m @ post) = m @ post"
    using assms(1,4) m by (simp add: dropWhile_all)
  moreover have "dropWhile is_space (rev post @ rev m) = rev m"
  proof -
    have "dropWhile is_space (rev post @ rev m) = dropWhile is_space (rev m)"
      using assms(2) by (simp add: dropWhile_all)
    also have "\<dots> = rev m"
      using assms(3,5) by (metis dropWhile_eq_self_iff hd_rev)
    finally show ?thesis .
  qed
  ultimately show ?thesis by (simp add: strip_def)
qed

text \<open>A unit suffix and the number of bytes it stands for.\<close>

definition size_suffix :: "ptext \<Rightarrow> int \<Rightarrow> bool" where
  "size_suffix sfx k \<longleftrightarrow>
     sfx = [] \<and> k = 1
     \<or> (\<exists>u. SIZE_UNITS u = Some k \<and> (sfx = [u] \<or> sfx = [u, 66] \<or> sfx = [u, 98]))"

lemma size_suffix_fold: "size_suffix sfx k \<Longrightarrow> map fold_full_width sfx = sfx"
  by (auto simp: size_suffix_def unit_letter(4)) (simp_all add: fold_full_width_def)

lemma size_suffix_last: "size_suffix sfx k \<Longrightarrow> sfx \<noteq> [] \<Longrightarrow> \<not> is_space (last sfx)"
  by (auto simp: size_suffix_def unit_letter(1)) (simp_all add: is_space_def)

lemma match_unit_suffix:
  "size_suffix sfx k \<Longrightarrow> match_unit sfx = Some (if sfx = [] then None else Some k)"
  by (auto simp: size_suffix_def match_unit_def)

lemma match_size_integer:
  assumes ds: "ds \<noteq> []" "list_all is_digit ds"
    and sp: "list_all is_space sp" and sfx: "size_suffix sfx k"
  shows "match_size (ds @ sp @ sfx) = Some (ds, None, if sfx = [] then None else Some k)"
proof -
  have head: "\<not> is_digit c \<and> c \<noteq> 46" if "sp @ sfx = c # r" for c r
  proof (cases sp)
    case Nil
    with that sfx show ?thesis
      by (auto simp: size_suffix_def unit_letter) (simp_all add: SIZE_UNITS_def)
  next
    case (Cons b bs)
    with that sp show ?thesis by (auto simp: space_not_digit is_space_def)
  qed
  then have tw: "takeWhile is_digit (sp @ sfx) = []" "dropWhile is_digit (sp @ sfx) = sp @ sfx"
    by (cases "sp @ sfx"; simp)+
  have "dropWhile is_space sfx = sfx"
    using sfx by (auto simp: size_suffix_def unit_letter)
  then have rest: "dropWhile is_space (sp @ sfx) = sfx"
    using sp by (simp add: dropWhile_all)
  show ?thesis
  proof (cases "sp @ sfx")
    case Nil
    moreover have "takeWhile is_digit ds = ds" "dropWhile is_digit ds = []"
      using ds(2) by (simp_all add: list_all_iff dropWhile_eq_Nil_conv takeWhile_eq_all_conv)
    ultimately show ?thesis
      using ds(1) by (simp add: match_size_def del: takeWhile_eq_all_conv dropWhile_eq_Nil_conv)
  next
    case (Cons c r)
    with head have "c \<noteq> 46" by blast
    with Cons ds tw rest match_unit_suffix [OF sfx] show ?thesis
      by (simp add: match_size_def takeWhile_all dropWhile_all)
  qed
qed

lemma match_size_digits:
  assumes "match_size t = Some (ds, fs, u)"
  shows "list_all is_digit ds"
  using assms
  by (auto simp: match_size_def Let_def list_all_iff dest: set_takeWhileD
      split: if_splits list.splits)

lemma decimal_nonneg: "list_all is_digit ds \<Longrightarrow> 0 \<le> acc \<Longrightarrow> 0 \<le> decimal acc ds"
  by (induction acc ds rule: decimal.induct) (auto simp: is_digit_def)

lemma match_unit_pos: "match_unit t = Some (Some k) \<Longrightarrow> 0 < k"
  by (auto simp: match_unit_def SIZE_UNITS_def split: list.splits if_splits)

lemma match_size_unit_pos: "match_size t = Some (ds, fs, Some k) \<Longrightarrow> 0 < k"
  by (auto simp: match_size_def Let_def dest: match_unit_pos split: if_splits list.splits)

section \<open>Lemmas: resolution\<close>

lemma ceiling_checks_ok [quota_simps]:
  "ceiling_checks slug cs = Inr () \<longleftrightarrow>
     (\<forall>(name, got, cap) \<in> set cs. \<forall>g. got = Some g \<longrightarrow> cap = 0 \<or> g \<le> cap)"
  by (induction slug cs rule: ceiling_checks.induct) (auto split: option.splits)

lemma enforce_ceiling_ok [quota_simps]:
  "enforce_ceiling slug l mx = Inr () \<longleftrightarrow>
     (\<exists>mc dc. size_of (am_memory mx) = Inr mc \<and> size_of (am_disk mx) = Inr dc
        \<and> (\<forall>g. cpu_cores l = Some g \<longrightarrow> am_cpu mx = 0 \<or> g \<le> am_cpu mx)
        \<and> (\<forall>g. memory_bytes l = Some g \<longrightarrow> mc = 0 \<or> g \<le> mc)
        \<and> (dc = 0 \<or> disk_bytes l \<le> dc))"
  by (auto simp del: ceiling_checks.simps simp: enforce_ceiling_def bindE_eq_Inr ceiling_checks_ok)

lemma pick_size_None:
  "pick_size declared cfg None = Inr None \<longleftrightarrow> declared = [] \<and> cfg = []"
  by (auto simp: pick_size_def bindE_eq_Inr)

lemma resolve_app_limits_Inr:
  assumes "resolve_app_limits mf st = Inr l"
  shows "enforce_ceiling (m_slug mf) l (per_app_max st) = Inr ()"
    and "cpu_max l = am_cpu (per_app_max st)"
    and "size_of (am_memory (per_app_max st)) = Inr (memory_max l)"
    and "cpu_cores l = pick_cpu (m_resources mf) (per_app_default st)"
    and "pick_size (case m_resources mf of Some a \<Rightarrow> am_memory a | None \<Rightarrow> [])
           (am_memory (per_app_default st)) None = Inr (memory_bytes l)"
    and "pick_disk (case m_resources mf of Some a \<Rightarrow> am_disk a | None \<Rightarrow> [])
           (am_disk (per_app_default st)) (workspace_quota st) = Inr (disk_bytes l)"
  using assms by (auto simp: resolve_app_limits_def Let_def bindE_eq_Inr)

section \<open>Lemmas: the boot report\<close>

definition cost :: "dimension \<Rightarrow> enforced_limits \<Rightarrow> resource_limits \<Rightarrow> rat option" where
  "cost dn enf l = (case stated dn l of Some c \<Rightarrow> Some c | None \<Rightarrow> backend dn enf)"

lemma warn_dimension_quiet:
  assumes "configured dn u = Inr cap" "cap \<noteq> 0"
  shows "warn_dimension u limits enf dn = Inr []
     \<longleftrightarrow> (\<forall>(slug, l) \<in> set limits. cost dn enf l \<noteq> None)"
proof -
  have sorted_empty: "sort xs = [] \<longleftrightarrow> xs = []" for xs :: "string list"
    by (metis set_empty set_sort)
  have silent: "filter (\<lambda>(slug, l). stated dn l = None) limits = []
      \<longleftrightarrow> (\<forall>(slug, l) \<in> set limits. stated dn l \<noteq> None)"
    by (force simp: filter_empty_conv)
  show ?thesis
    using assms
    by (cases "backend dn enf")
       (simp_all add: warn_dimension_def cost_def Let_def sorted_empty silent case_prod_beta
          split: option.splits)
qed

lemma warn_dimension_kind:
  "warn_dimension u limits enf dn = Inr ws \<Longrightarrow> w \<in> set ws \<Longrightarrow>
     w = NothingStates dn \<or> (\<exists>s. w = SomeSilent dn s)"
  by (auto simp: warn_dimension_def bindE_eq_Inr Let_def split: if_splits)

lemma impossible_dimension_kind:
  "impossible_dimension u limits enf dn = Inr ws \<Longrightarrow> w \<in> set ws \<Longrightarrow>
     \<exists>cap over. w = SmallerThanOne dn cap over \<and> configured dn u = Inr cap \<and> cap \<noteq> 0
       \<and> set over = {slug. \<exists>l. (slug, l) \<in> set limits
                          \<and> (\<exists>c. cost dn enf l = Some c \<and> c \<noteq> 0 \<and> cap < c)}"
  by (auto simp: impossible_dimension_def bindE_eq_Inr Let_def cost_def image_iff
      split: if_splits option.splits) force+

lemma warnings_split:
  assumes "warn_unenforceable_dimensions u limits enf = Inr ws"
  obtains wc wm ic im where
    "warn_dimension u limits enf Cpu = Inr wc" "warn_dimension u limits enf Memory = Inr wm"
    "impossible_dimension u limits enf Cpu = Inr ic"
    "impossible_dimension u limits enf Memory = Inr im"
    "ws = wc @ wm @ ic @ im"
  using assms
  by (auto simp: warn_unenforceable_dimensions_def SUMMED_DIMENSIONS_def bindE_eq_Inr)

section \<open>Properties\<close>

text \<open>
  every way a person writes a whole size reads as the number it says: surrounding and
  inner white space, full-width digits, the unit letter in either case and an optional B make
  no difference.
\<close>

theorem parse_size_reads_whole_sizes:
  assumes "list_all is_space pre" "list_all is_space post" "list_all is_space sp"
    and "ds \<noteq> []" "list_all (\<lambda>c. is_digit (fold_full_width c)) ds" "length ds \<le> 4300"
    and "size_suffix sfx k"
  shows "parse_size (pre @ ds @ sp @ sfx @ post)
           = Inr (decimal 0 (map fold_full_width ds) * k)"
proof -
  let ?ds = "map fold_full_width ds"
  obtain sp' where sp': "strip (pre @ ds @ sp @ sfx @ post) = ds @ sp' @ sfx"
    and "list_all is_space sp'"
  proof (cases "sfx = []")
    case True
    have "strip (pre @ ds @ (sp @ post)) = ds"
      by (rule strip_core) (use assms in \<open>auto simp: list_all_iff folded_digit_not_space\<close>)
    with True that [of "[]"] show ?thesis by simp
  next
    case False
    have "strip (pre @ (ds @ sp @ sfx) @ post) = ds @ sp @ sfx"
      by (rule strip_core)
         (use assms False size_suffix_last [OF assms(7) False] in
           \<open>auto simp: list_all_iff folded_digit_not_space hd_append\<close>)
    with assms(3) that [of sp] show ?thesis by simp
  qed
  have folded: "map fold_full_width (ds @ sp' @ sfx) = ?ds @ sp' @ sfx"
    using \<open>list_all is_space sp'\<close> size_suffix_fold [OF assms(7)]
    by (auto simp: list_all_iff intro: map_idI)
  have m: "match_size (?ds @ sp' @ sfx) = Some (?ds, None, if sfx = [] then None else Some k)"
    by (rule match_size_integer) (use assms \<open>list_all is_space sp'\<close> in \<open>auto simp: list_all_iff\<close>)
  have k: "sfx = [] \<Longrightarrow> k = 1" using assms(7) by (auto simp: size_suffix_def)
  show ?thesis
  proof (cases "ds @ sp' @ sfx \<in> {[], cps ''0'', cps ''max''}")
    case True
    have "is_digit (fold_full_width (hd (ds @ sp' @ sfx)))"
      using assms(4,5) by (cases ds) auto
    moreover have "hd (ds @ sp' @ sfx) = 109" if "ds @ sp' @ sfx = cps ''max''"
      by (simp only: that) (simp add: cps_def)
    ultimately have "ds @ sp' @ sfx \<noteq> cps ''max''"
      by (force simp: is_digit_def fold_full_width_def)
    with True assms(4) have "ds @ sp' @ sfx = [48]" by (simp add: cps_def)
    with assms(4) have ds: "ds = [48]" "sfx = []" by (auto simp: append_eq_Cons_conv)
    have "parse_size (pre @ ds @ sp @ sfx @ post) = Inr 0"
      unfolding parse_size_def Let_def sp' using True by (simp only: if_True NO_LIMIT_def)
    with ds show ?thesis by (simp add: fold_full_width_def)
  next
    case False
    then show ?thesis
      using assms(6) k unfolding parse_size_def Let_def sp' folded m by (simp add: NO_LIMIT_def)
  qed
qed

theorem parse_size_reads_whole_sizes_witness:
  "parse_size [32, 65301, 49, 50, 32, 109, 66] = Inr (512 * 1024 ^ 2)"
proof -
  have "parse_size ([32] @ [65301, 49, 50] @ [32] @ [109, 66] @ [])
      = Inr (decimal 0 (map fold_full_width [65301, 49, 50]) * 1024 ^ 2)"
    by (rule parse_size_reads_whole_sizes)
       (auto simp: is_space_def is_digit_def fold_full_width_def size_suffix_def SIZE_UNITS_def)
  then show ?thesis by (simp add: fold_full_width_def)
qed

text \<open>
  a size that is read is never negative, and it reads as "no limit" only if it is one of
  the three spellings of it or a whole zero: a fraction that rounds to nothing is refused
  rather than taken for "unlimited".
\<close>

theorem parse_size_never_unlimited_by_accident:
  assumes "parse_size t = Inr n"
  shows "0 \<le> n \<and> (n = 0 \<longrightarrow> strip t \<in> {[], cps ''0'', cps ''max''}
     \<or> (\<exists>ds u. match_size (map fold_full_width (strip t)) = Some (ds, None, u) \<and> decimal 0 ds = 0))"
proof (cases "strip t \<in> {[], cps ''0'', cps ''max''}")
  case True
  with assms show ?thesis by (auto simp: parse_size_def NO_LIMIT_def)
next
  case False
  then obtain ds fs u
    where m: "match_size (map fold_full_width (strip t)) = Some (ds, fs, u)"
    using assms
    by (cases "match_size (map fold_full_width (strip t))") (auto simp: parse_size_def Let_def)
  show ?thesis
  proof (cases fs)
    case None
    have "0 \<le> decimal 0 ds" using match_size_digits [OF m] by (rule decimal_nonneg) simp
    moreover have "0 < (case u of None \<Rightarrow> 1 | Some k \<Rightarrow> k)"
      using match_size_unit_pos m by (cases u) auto
    ultimately show ?thesis
      using assms False None m by (auto simp: parse_size_def Let_def split: if_splits)
  next
    case (Some fd)
    with assms False m show ?thesis
      by (auto simp: parse_size_def Let_def not_le split: if_splits option.splits)
        (simp_all add: floor_eq_iff)
  qed
qed

theorem parse_size_never_unlimited_by_accident_witness:
  "parse_size (cps '' max '') = Inr 0 \<and> (0::int) \<le> 0"
proof -
  have "parse_size (cps '' max '') = Inr 0"
    by (simp add: parse_size_def strip_def cps_def is_space_def NO_LIMIT_def)
  with parse_size_never_unlimited_by_accident [OF this] show ?thesis by simp
qed

text \<open>
  an App whose limits resolve asks for no more than the deploy's maximum in any dimension
  the deploy set, nothing is invented for a dimension another party enforces (memory stays
  unstated exactly when neither the App nor the deploy states it), and the App's own size fits
  under the ceiling one of its items may be given.
\<close>

theorem resolved_limits_within_deploy:
  assumes "resolve_app_limits mf st = Inr l"
  shows "(\<forall>c. cpu_cores l = Some c \<longrightarrow> am_cpu (per_app_max st) = 0 \<or> c \<le> am_cpu (per_app_max st))
     \<and> (\<forall>b. memory_bytes l = Some b \<longrightarrow> memory_max l = 0 \<or> b \<le> memory_max l)
     \<and> (\<exists>dc. size_of (am_disk (per_app_max st)) = Inr dc \<and> (dc = 0 \<or> disk_bytes l \<le> dc))
     \<and> (memory_bytes l = None \<longleftrightarrow>
          (case m_resources mf of Some a \<Rightarrow> am_memory a | None \<Rightarrow> []) = []
          \<and> am_memory (per_app_default st) = [])
     \<and> (\<forall>c. cpu_cores l = Some c \<longrightarrow> (\<exists>top. item_cpu_ceiling l = Some top \<and> c \<le> top))
     \<and> (\<forall>b. memory_bytes l = Some b \<longrightarrow> b \<noteq> 0 \<longrightarrow>
          (\<exists>top. item_memory_ceiling l = Some top \<and> b \<le> top))"
proof -
  note r = resolve_app_limits_Inr [OF assms]
  have "memory_bytes l = None \<longleftrightarrow>
          (case m_resources mf of Some a \<Rightarrow> am_memory a | None \<Rightarrow> []) = []
          \<and> am_memory (per_app_default st) = []"
    using r(5) pick_size_None by (metis sum.inject(2))
  with r(1-3) show ?thesis
    by (auto simp: enforce_ceiling_ok item_cpu_ceiling_def item_memory_ceiling_def)
qed

definition example_settings :: settings where
  "example_settings = \<lparr>per_app_default = \<lparr>am_cpu = 1, am_memory = [], am_disk = []\<rparr>,
     per_app_max = \<lparr>am_cpu = 4, am_memory = [], am_disk = []\<rparr>, workspace_quota = 0\<rparr>"

theorem resolved_limits_within_deploy_witness:
  "\<exists>l. resolve_app_limits \<lparr>m_slug = ''rca'', m_resources = None\<rparr> example_settings = Inr l
       \<and> memory_bytes l = None \<and> (\<forall>c. cpu_cores l = Some c \<longrightarrow> 4 = (0::rat) \<or> c \<le> 4)"
proof -
  let ?l = "\<lparr>cpu_cores = Some 1, memory_bytes = None, disk_bytes = 0, cpu_max = 4, memory_max = 0\<rparr>"
  have ok: "resolve_app_limits \<lparr>m_slug = ''rca'', m_resources = None\<rparr> example_settings = Inr ?l"
    by (simp add: resolve_app_limits_def example_settings_def pick_size_def pick_disk_def
        pick_cpu_def size_of_def parse_size_def strip_def NO_LIMIT_def enforce_ceiling_def)
  from resolved_limits_within_deploy [OF this] have "\<forall>c. cpu_cores ?l = Some c \<longrightarrow> 4 = (0::rat) \<or> c \<le> 4"
    by (simp add: example_settings_def)
  with ok show ?thesis by auto
qed

text \<open>
  the boot report is exact: a configured dimension goes unmentioned as "does not bind"
  exactly when every App's sandboxes have a known cost in it (stated by the App or enforced by
  the backend), and an App is named as "not even one fits" exactly when one of its sandboxes
  costs more than the cap.
\<close>

theorem boot_report_exact:
  assumes "warn_unenforceable_dimensions u limits enf = Inr ws"
    and "configured dn u = Inr cap" "cap \<noteq> 0"
  shows "((\<forall>w \<in> set ws. w \<noteq> NothingStates dn \<and> (\<forall>s. w \<noteq> SomeSilent dn s))
            \<longleftrightarrow> (\<forall>(slug, l) \<in> set limits. cost dn enf l \<noteq> None))
     \<and> (\<forall>cap' over. SmallerThanOne dn cap' over \<in> set ws \<longrightarrow> cap' = cap
          \<and> set over = {slug. \<exists>l. (slug, l) \<in> set limits
                            \<and> (\<exists>c. cost dn enf l = Some c \<and> c \<noteq> 0 \<and> cap < c)})"
proof -
  obtain wc wm ic im where parts:
    "warn_dimension u limits enf Cpu = Inr wc" "warn_dimension u limits enf Memory = Inr wm"
    "impossible_dimension u limits enf Cpu = Inr ic"
    "impossible_dimension u limits enf Memory = Inr im" "ws = wc @ wm @ ic @ im"
    using warnings_split [OF assms(1)] .
  define wd where "wd = (case dn of Cpu \<Rightarrow> wc | Memory \<Rightarrow> wm)"
  have wd: "warn_dimension u limits enf dn = Inr wd"
    using parts(1,2) by (cases dn) (simp_all add: wd_def)
  have in_ws: "w \<in> set ws \<and> (w = NothingStates dn \<or> (\<exists>s. w = SomeSilent dn s)) \<longleftrightarrow> w \<in> set wd" for w
    using warn_dimension_kind [OF parts(1)] warn_dimension_kind [OF parts(2)]
      impossible_dimension_kind [OF parts(3)] impossible_dimension_kind [OF parts(4)] parts(5)
    by (cases dn) (fastforce simp: wd_def)+
  have "(\<forall>w \<in> set ws. w \<noteq> NothingStates dn \<and> (\<forall>s. w \<noteq> SomeSilent dn s)) \<longleftrightarrow> wd = []"
    using in_ws by (metis empty_iff last_in_set list.set(1))
  also have "\<dots> \<longleftrightarrow> (\<forall>(slug, l) \<in> set limits. cost dn enf l \<noteq> None)"
    using warn_dimension_quiet [OF assms(2,3), of limits enf] wd by simp
  finally have quiet: "(\<forall>w \<in> set ws. w \<noteq> NothingStates dn \<and> (\<forall>s. w \<noteq> SomeSilent dn s))
      \<longleftrightarrow> (\<forall>(slug, l) \<in> set limits. cost dn enf l \<noteq> None)" .
  have "cap' = cap \<and> set over = {slug. \<exists>l. (slug, l) \<in> set limits
                            \<and> (\<exists>c. cost dn enf l = Some c \<and> c \<noteq> 0 \<and> cap < c)}"
    if "SmallerThanOne dn cap' over \<in> set ws" for cap' over
    using that parts(5) assms(2)
      warn_dimension_kind [OF parts(1)] warn_dimension_kind [OF parts(2)]
      impossible_dimension_kind [OF parts(3)] impossible_dimension_kind [OF parts(4)]
    by (cases dn) (auto, blast+)
  with quiet show ?thesis by blast
qed

definition two_apps :: "(string, resource_limits) dict" where
  "two_apps =
     [(''rca'', \<lparr>cpu_cores = Some 2, memory_bytes = None, disk_bytes = 0, cpu_max = 0,
                memory_max = 0\<rparr>),
      (''pm'', \<lparr>cpu_cores = None, memory_bytes = None, disk_bytes = 0, cpu_max = 0,
                memory_max = 0\<rparr>)]"

theorem boot_report_exact_witness:
  "\<not> (\<forall>w \<in> set [SomeSilent Cpu [''pm''], SmallerThanOne Cpu 1 [''rca'']].
        w \<noteq> NothingStates Cpu \<and> (\<forall>s. w \<noteq> SomeSilent Cpu s))"
proof -
  let ?u = "\<lparr>pu_count = 0, pu_cpu = 1, pu_memory = [], pu_disk = []\<rparr>"
  let ?e = "\<lparr>enf_cpu = None, enf_memory = None\<rparr>"
  have w: "warn_unenforceable_dimensions ?u two_apps ?e
      = Inr [SomeSilent Cpu [''pm''], SmallerThanOne Cpu 1 [''rca'']]"
    by (simp add: warn_unenforceable_dimensions_def SUMMED_DIMENSIONS_def warn_dimension_def
        impossible_dimension_def two_apps_def size_of_def parse_size_def strip_def NO_LIMIT_def)
  have c: "configured Cpu ?u = Inr 1" by simp
  show ?thesis
    using boot_report_exact [OF w c, THEN conjunct1]
    by (simp only: two_apps_def) (simp add: cost_def)
qed

end
