(* ===== verification/QuotaLedgers.thy ===== *)
theory QuotaLedgers
  imports RowStore QuotaLimits
begin

text \<open>
  The three tables the per-person limits are read from, each over the row store.

  \<open>api/sandbox_activity.py\<close>: the heartbeat of a live sandbox and whom it is charged to.
  \<open>quota/disk_ledger.py\<close>: the last measured size of each workspace.
  \<open>quota/user_limits.py\<close>: a person's limits, the deploy's default overridden per dimension,
  memoised per pod for a fixed time.

  Every operation takes the resource manager and the store it works on; the clock is an
  argument (epoch milliseconds, or monotonic seconds for the memo).
\<close>

section \<open>Sandbox activity\<close>

record sandbox_activity =
  sa_item_id :: string
  sa_last_active_ms :: int
  sa_owner :: string
  sa_cpu_milli :: int
  sa_memory_bytes :: int

record live_sandbox =
  ls_item_id :: string
  ls_cpu_milli :: int
  ls_memory_bytes :: int

definition owner_of_item ::
  "('s, sandbox_activity) row_api \<Rightarrow> 's \<Rightarrow> string \<Rightarrow> rm_error + string option" where
  "owner_of_item api s i =
     (case rm_get api s True i of
        Inl NotFound \<Rightarrow> Inr None
      | Inl e \<Rightarrow> Inl e
      | Inr (r, _) \<Rightarrow> Inr (if sa_owner r = [] then None else Some (sa_owner r)))"

definition bump ::
  "('s, sandbox_activity) row_api \<Rightarrow> int \<Rightarrow> 's \<Rightarrow> string \<Rightarrow> string \<Rightarrow> int \<Rightarrow> int \<Rightarrow> rm_error + 's" where
  "bump api now s i owner cpu mem =
     bindE (if owner = []
            then bindE (owner_of_item api s i) (\<lambda>got. Inr (case got of None \<Rightarrow> [] | Some x \<Rightarrow> x))
            else Inr owner)
       (\<lambda>who. upsert api s i
          \<lparr>sa_item_id = i, sa_last_active_ms = now, sa_owner = who, sa_cpu_milli = cpu,
           sa_memory_bytes = mem\<rparr>)"

definition last_active_ms ::
  "('s, sandbox_activity) row_api \<Rightarrow> 's \<Rightarrow> string \<Rightarrow> rm_error + int option" where
  "last_active_ms api s i =
     (case rm_get api s False i of
        Inl NotFound \<Rightarrow> Inr None
      | Inl IsDeleted \<Rightarrow> Inr None
      | Inl e \<Rightarrow> Inl e
      | Inr (r, _) \<Rightarrow> Inr (Some (sa_last_active_ms r)))"

definition forget :: "('s, sandbox_activity) row_api \<Rightarrow> 's \<Rightarrow> string \<Rightarrow> rm_error + 's" where
  "forget api s i = delete_quietly api s i"

definition is_live ::
  "('s, sandbox_activity) row_api \<Rightarrow> 's \<Rightarrow> string \<Rightarrow> int \<Rightarrow> rm_error + bool" where
  "is_live api s i since =
     (case rm_get api s False i of
        Inl NotFound \<Rightarrow> Inr False
      | Inl IsDeleted \<Rightarrow> Inr False
      | Inl e \<Rightarrow> Inl e
      | Inr (r, _) \<Rightarrow> Inr (since \<le> sa_last_active_ms r))"

definition as_live :: "sandbox_activity \<Rightarrow> live_sandbox" where
  "as_live r = \<lparr>ls_item_id = sa_item_id r, ls_cpu_milli = sa_cpu_milli r,
                ls_memory_bytes = sa_memory_bytes r\<rparr>"

definition live_for ::
  "('s, sandbox_activity) row_api \<Rightarrow> 's \<Rightarrow> string \<Rightarrow> int \<Rightarrow> live_sandbox list" where
  "live_for api s owner since =
     map as_live (filter (\<lambda>r. since \<le> sa_last_active_ms r)
       (list_live api s (\<lambda>r. sa_owner r = owner)))"

text \<open>What pods do to the table, in the order it happens.\<close>

datatype activity_op =
    Bump int string string int int
  | Forget string

fun activity_step ::
  "('s, sandbox_activity) row_api \<Rightarrow> activity_op \<Rightarrow> 's \<Rightarrow> rm_error + 's" where
  "activity_step api (Bump now i owner cpu mem) s = bump api now s i owner cpu mem"
| "activity_step api (Forget i) s = forget api s i"

fun activity_run ::
  "('s, sandbox_activity) row_api \<Rightarrow> activity_op list \<Rightarrow> 's \<Rightarrow> rm_error + 's" where
  "activity_run api [] s = Inr s"
| "activity_run api (a # as) s = bindE (activity_step api a s) (activity_run api as)"

section \<open>The disk ledger\<close>

record workspace_disk =
  wd_item_id :: string
  wd_owner :: string
  wd_bytes_used :: int
  wd_measured_at_ms :: int

definition record_disk ::
  "('s, workspace_disk) row_api \<Rightarrow> int \<Rightarrow> 's \<Rightarrow> string \<Rightarrow> string \<Rightarrow> int \<Rightarrow> rm_error + 's" where
  "record_disk api now s i owner n =
     upsert api s i \<lparr>wd_item_id = i, wd_owner = owner, wd_bytes_used = n, wd_measured_at_ms = now\<rparr>"

definition forget_disk :: "('s, workspace_disk) row_api \<Rightarrow> 's \<Rightarrow> string \<Rightarrow> rm_error + 's" where
  "forget_disk api s i = delete_quietly api s i"

definition total_for :: "('s, workspace_disk) row_api \<Rightarrow> 's \<Rightarrow> string \<Rightarrow> string \<Rightarrow> int" where
  "total_for api s owner exclude =
     (\<Sum>r\<leftarrow>list_live api s (\<lambda>r. wd_owner r = owner).
        if wd_item_id r \<noteq> exclude then wd_bytes_used r else 0)"

definition per_item_for ::
  "('s, workspace_disk) row_api \<Rightarrow> 's \<Rightarrow> string \<Rightarrow> (string \<times> int) list" where
  "per_item_for api s owner =
     map (\<lambda>r. (wd_item_id r, wd_bytes_used r)) (list_live api s (\<lambda>r. wd_owner r = owner))"

definition disk_rows ::
  "('s, workspace_disk) row_api \<Rightarrow> 's \<Rightarrow> (string, workspace_disk) dict" where
  "disk_rows api s = fold (\<lambda>r d. dict_set (wd_item_id r) r d) (list_live api s (\<lambda>_. True)) []"

section \<open>Per-person limits\<close>

record user_quota =
  uq_user_id :: string
  uq_count :: int
  uq_cpu :: rat
  uq_memory :: ptext
  uq_disk :: ptext

type_synonym limits_cache = "(string, rat \<times> per_user) dict"

definition TTL_S :: rat where
  "TTL_S = 5"

definition CACHE_MAX :: nat where
  "CACHE_MAX = 4096"

definition read_override ::
  "('s, user_quota) row_api \<Rightarrow> 's \<Rightarrow> string \<Rightarrow> rm_error + user_quota option" where
  "read_override api s u =
     (case rm_get api s False u of
        Inl NotFound \<Rightarrow> Inr None
      | Inl IsDeleted \<Rightarrow> Inr None
      | Inl e \<Rightarrow> Inl e
      | Inr (r, _) \<Rightarrow> Inr (Some r))"

definition overlay :: "per_user \<Rightarrow> user_quota option \<Rightarrow> per_user" where
  "overlay d q =
     (case q of
        None \<Rightarrow> d
      | Some x \<Rightarrow>
          \<lparr>pu_count = if uq_count x \<noteq> 0 then uq_count x else pu_count d,
           pu_cpu = if uq_cpu x \<noteq> 0 then uq_cpu x else pu_cpu d,
           pu_memory = if uq_memory x \<noteq> [] then uq_memory x else pu_memory d,
           pu_disk = if uq_disk x \<noteq> [] then uq_disk x else pu_disk d\<rparr>)"

definition resolve_user ::
  "('s, user_quota) row_api \<Rightarrow> per_user \<Rightarrow> 's \<Rightarrow> string \<Rightarrow> rm_error + per_user" where
  "resolve_user api d s u = bindE (read_override api s u) (\<lambda>q. Inr (overlay d q))"

text \<open>\<open>for_user\<close>: the resolved limits and the memo afterwards.\<close>

definition for_user ::
  "('s, user_quota) row_api \<Rightarrow> per_user \<Rightarrow> rat \<Rightarrow> rat \<Rightarrow> 's \<Rightarrow> limits_cache \<Rightarrow> string
     \<Rightarrow> rm_error + per_user \<times> limits_cache" where
  "for_user api d ttl now s c u =
     (let miss = bindE (resolve_user api d s u) (\<lambda>l.
        let c' = (if length c > CACHE_MAX then [] else c)
        in Inr (l, dict_set u (now, l) c'))
      in case dict_get c u of
           Some (t, l) \<Rightarrow> (if now - t < ttl then Inr (l, c) else miss)
         | None \<Rightarrow> miss)"

definition set_for ::
  "('s, user_quota) row_api \<Rightarrow> 's \<Rightarrow> limits_cache \<Rightarrow> string \<Rightarrow> per_user
     \<Rightarrow> rm_error + 's \<times> limits_cache" where
  "set_for api s c u l =
     bindE (upsert api s u \<lparr>uq_user_id = u, uq_count = pu_count l, uq_cpu = pu_cpu l,
                            uq_memory = pu_memory l, uq_disk = pu_disk l\<rparr>)
       (\<lambda>s'. Inr (s', dict_pop u c))"

definition clear_for ::
  "('s, user_quota) row_api \<Rightarrow> 's \<Rightarrow> limits_cache \<Rightarrow> string \<Rightarrow> rm_error + 's \<times> limits_cache" where
  "clear_for api s c u = bindE (delete_quietly api s u) (\<lambda>s'. Inr (s', dict_pop u c))"

definition list_overrides ::
  "('s, user_quota) row_api \<Rightarrow> 's \<Rightarrow> (string \<times> per_user) list" where
  "list_overrides api s =
     sort_key fst
       (map (\<lambda>x. (uq_user_id x, \<lparr>pu_count = uq_count x, pu_cpu = uq_cpu x,
                                pu_memory = uq_memory x, pu_disk = uq_disk x\<rparr>))
          (list_live api s (\<lambda>_. True)))"

text \<open>
  Several replicas over one table: the shared store, each pod's memo, the time, and the store
  as it was at each moment so far.  A pod writes or reads; time passes.
\<close>

record 's replicas =
  re_store :: 's
  re_cache :: "nat \<Rightarrow> limits_cache"
  re_now :: rat
  re_past :: "(rat \<times> 's) list"

definition at_start :: "'s \<Rightarrow> rat \<Rightarrow> 's replicas" where
  "at_start s now = \<lparr>re_store = s, re_cache = (\<lambda>_. []), re_now = now, re_past = [(now, s)]\<rparr>"

inductive replica_step ::
  "('s, user_quota) row_api \<Rightarrow> per_user \<Rightarrow> rat \<Rightarrow> 's replicas \<Rightarrow> 's replicas \<Rightarrow> bool"
  for api d ttl where
  tick: "0 \<le> dt \<Longrightarrow>
     replica_step api d ttl w (w\<lparr>re_now := re_now w + dt,
                                re_past := (re_now w + dt, re_store w) # re_past w\<rparr>)"
| read: "for_user api d ttl (re_now w) (re_store w) (re_cache w p) u = Inr (l, c) \<Longrightarrow>
     replica_step api d ttl w (w\<lparr>re_cache := (re_cache w)(p := c)\<rparr>)"
| store: "set_for api (re_store w) (re_cache w p) u l = Inr (s', c) \<Longrightarrow>
     replica_step api d ttl w (w\<lparr>re_store := s', re_cache := (re_cache w)(p := c),
                                re_past := (re_now w, s') # re_past w\<rparr>)"
| clear: "clear_for api (re_store w) (re_cache w p) u = Inr (s', c) \<Longrightarrow>
     replica_step api d ttl w (w\<lparr>re_store := s', re_cache := (re_cache w)(p := c),
                                re_past := (re_now w, s') # re_past w\<rparr>)"

inductive replicas_reach ::
  "('s, user_quota) row_api \<Rightarrow> per_user \<Rightarrow> rat \<Rightarrow> 's replicas \<Rightarrow> bool"
  for api d ttl where
  start: "replicas_reach api d ttl (at_start s now)"
| step: "replicas_reach api d ttl w \<Longrightarrow> replica_step api d ttl w w' \<Longrightarrow> replicas_reach api d ttl w'"

section \<open>Laws of the activity table\<close>

definition named_debtors :: "string \<Rightarrow> activity_op list \<Rightarrow> string list" where
  "named_debtors i ops =
     concat (map (\<lambda>a. case a of Bump now j owner cpu mem \<Rightarrow> if j = i \<and> owner \<noteq> [] then [owner] else []
                             | Forget j \<Rightarrow> []) ops)"

definition debtor_row :: "sandbox_activity row option \<Rightarrow> string option" where
  "debtor_row row =
     (case row of
        None \<Rightarrow> None
      | Some (r, e, d) \<Rightarrow> (if sa_owner r = [] then None else Some (sa_owner r)))"

locale activity_table = row_store api rows
  for api :: "('s, sandbox_activity) row_api" and rows
begin

lemma owner_of_item_eq: "owner_of_item api s i = Inr (debtor_row (rows s i))"
  by (auto simp: owner_of_item_def get_law debtor_row_def split: option.splits)

lemma is_live_eq:
  "is_live api s i since
     = Inr (\<exists>r e. rows s i = Some (r, e, False) \<and> since \<le> sa_last_active_ms r)"
  by (auto simp: is_live_def get_law split: option.splits)

lemma bump_rows:
  "\<exists>s' e'. bump api now s i owner cpu mem = Inr s'
     \<and> rows s' = (rows s)(i \<mapsto> (\<lparr>sa_item_id = i, sa_last_active_ms = now,
          sa_owner = if owner = [] then (case debtor_row (rows s i) of None \<Rightarrow> [] | Some x \<Rightarrow> x)
                     else owner,
          sa_cpu_milli = cpu, sa_memory_bytes = mem\<rparr>, e', False))"
  using upsert_total [of s i] by (simp add: bump_def owner_of_item_eq)

lemma bump_debtor:
  assumes "bump api now s i owner cpu mem = Inr s'"
  shows "debtor_row (rows s' j)
     = (if j = i \<and> owner \<noteq> [] then Some owner else debtor_row (rows s j))"
  using assms bump_rows [of now s i owner cpu mem]
  by (auto simp: debtor_row_def split: option.splits)

lemma forget_debtor:
  assumes "forget api s i = Inr s'"
  shows "debtor_row (rows s' j) = debtor_row (rows s j)"
  using delete_quietly_rows [of s i s'] assms
  by (cases "j = i"; cases "rows s i") (auto simp: forget_def debtor_row_def)

lemma step_total: "\<exists>s'. activity_step api a s = Inr s'"
  using bump_rows delete_quietly_total by (cases a) (auto simp: forget_def, blast)

lemma step_debtor:
  assumes "activity_step api a s = Inr s'"
  shows "debtor_row (rows s' i)
     = (if named_debtors i [a] = [] then debtor_row (rows s i) else Some (last (named_debtors i [a])))"
  using assms
  by (cases a) (auto simp: bump_debtor forget_debtor named_debtors_def)

lemma run_debtor:
  "\<exists>s'. activity_run api ops s = Inr s'
     \<and> debtor_row (rows s' i)
         = (if named_debtors i ops = [] then debtor_row (rows s i)
            else Some (last (named_debtors i ops)))"
proof (induction ops arbitrary: s)
  case Nil
  then show ?case by (simp add: named_debtors_def)
next
  case (Cons a as)
  obtain s1 where s1: "activity_step api a s = Inr s1" using step_total by blast
  have "named_debtors i (a # as) = named_debtors i [a] @ named_debtors i as"
    by (simp add: named_debtors_def)
  with s1 Cons [of s1] step_debtor [OF s1] show ?case by auto
qed

lemma step_keyed:
  "activity_step api a s = Inr s' \<Longrightarrow> keyed sa_item_id s \<Longrightarrow> keyed sa_item_id s'"
  by (cases a) (auto simp: bump_def owner_of_item_eq forget_def bindE_eq_Inr
      intro: keyed_upsert keyed_delete_quietly)

lemma run_keyed:
  "activity_run api ops s = Inr s' \<Longrightarrow> keyed sa_item_id s \<Longrightarrow> keyed sa_item_id s'"
  by (induction ops arbitrary: s) (auto simp: bindE_eq_Inr intro: step_keyed)

lemma live_for_list:
  "live_for api s owner since
     = map as_live (list_live api s (\<lambda>r. sa_owner r = owner \<and> since \<le> sa_last_active_ms r))"
  by (simp add: live_for_def filter_list_live)

lemma live_for_distinct:
  "keyed sa_item_id s \<Longrightarrow> distinct (map ls_item_id (live_for api s owner since))"
  using list_live_distinct [of sa_item_id s] by (simp add: live_for_list o_def as_live_def)

lemma tally_matches_liveness:
  assumes "keyed sa_item_id s" "owner \<noteq> []"
  shows "i \<in> ls_item_id ` set (live_for api s owner since) \<longleftrightarrow>
           is_live api s i since = Inr True \<and> owner_of_item api s i = Inr (Some owner)"
proof -
  have "ls_item_id ` set (live_for api s owner since) = sa_item_id `
      set (list_live api s (\<lambda>r. sa_owner r = owner \<and> since \<le> sa_last_active_ms r))"
    by (simp add: live_for_list as_live_def image_image)
  with assms list_live_key_iff [OF assms(1)] show ?thesis
    by (auto simp: is_live_eq owner_of_item_eq debtor_row_def split: if_splits)
qed

end

interpretation mem_activity: activity_table mem_store dict_get
  by unfold_locales

section \<open>Laws of the disk ledger\<close>

definition owed :: "string \<Rightarrow> string \<Rightarrow> string \<Rightarrow> workspace_disk row option \<Rightarrow> int" where
  "owed o' x i row =
     (case row of
        Some (r, e, d) \<Rightarrow> (if wd_owner r = o' \<and> \<not> d \<and> i \<noteq> x then wd_bytes_used r else 0)
      | None \<Rightarrow> 0)"

locale disk_table = row_store api rows
  for api :: "('s, workspace_disk) row_api" and rows
begin

lemma total_for_sum:
  assumes "keyed wd_item_id s" "finite A" "{i. rows s i \<noteq> None} \<subseteq> A"
  shows "total_for api s o' x = (\<Sum>i\<in>A. owed o' x i (rows s i))"
proof -
  have "total_for api s o' x = (\<Sum>i | rows s i \<noteq> None. owed o' x i (rows s i))"
    unfolding total_for_def sum_list_live
    using assms(1) by (intro sum.cong) (auto simp: owed_def keyed_def split: option.splits)
  also have "\<dots> = (\<Sum>i\<in>A. owed o' x i (rows s i))"
    using assms(2,3) by (intro sum.mono_neutral_left) (auto simp: owed_def split: option.splits)
  finally show ?thesis .
qed

lemma record_total:
  assumes "keyed wd_item_id s" "record_disk api now s i owner n = Inr s'"
  shows "keyed wd_item_id s'"
    and "total_for api s' o' x = total_for api s o' x - owed o' x i (rows s i)
           + (if o' = owner \<and> i \<noteq> x then n else 0)"
proof -
  let ?r = "\<lparr>wd_item_id = i, wd_owner = owner, wd_bytes_used = n, wd_measured_at_ms = now\<rparr>"
  have up: "upsert api s i ?r = Inr s'" using assms(2) by (simp add: record_disk_def)
  then show k: "keyed wd_item_id s'" using assms(1) by (rule keyed_upsert) simp
  obtain e' where rows': "rows s' = (rows s)(i \<mapsto> (?r, e', False))"
    using upsert_rows [OF up] by blast
  let ?A = "insert i {j. rows s j \<noteq> None}"
  have fin: "finite ?A" using finite_rows by simp
  have "total_for api s' o' x = (\<Sum>j\<in>?A. owed o' x j (rows s' j))"
    using k fin by (rule total_for_sum) (auto simp: rows')
  also have "\<dots> = owed o' x i (rows s' i) + (\<Sum>j\<in>?A - {i}. owed o' x j (rows s j))"
    using fin by (subst sum.remove [of _ i]) (auto simp: rows' intro!: sum.cong)
  also have "(\<Sum>j\<in>?A - {i}. owed o' x j (rows s j))
      = (\<Sum>j\<in>?A. owed o' x j (rows s j)) - owed o' x i (rows s i)"
    using fin by (subst sum.remove [of _ i]) auto
  also have "(\<Sum>j\<in>?A. owed o' x j (rows s j)) = total_for api s o' x"
    using assms(1) fin by (rule total_for_sum [symmetric]) auto
  finally show "total_for api s' o' x = total_for api s o' x - owed o' x i (rows s i)
           + (if o' = owner \<and> i \<noteq> x then n else 0)"
    by (simp add: rows' owed_def)
qed

lemma forget_total:
  assumes "keyed wd_item_id s" "forget_disk api s i = Inr s'"
  shows "total_for api s' o' x = total_for api s o' x - owed o' x i (rows s i)"
proof -
  have dq: "delete_quietly api s i = Inr s'" using assms(2) by (simp add: forget_disk_def)
  note r = delete_quietly_rows [OF dq]
  have k: "keyed wd_item_id s'" using dq assms(1) by (rule keyed_delete_quietly)
  let ?A = "insert i {j. rows s j \<noteq> None}"
  have fin: "finite ?A" using finite_rows by simp
  have gone: "owed o' x i (rows s' i) = 0"
    using r by (cases "rows s i") (auto simp: owed_def)
  have "total_for api s' o' x = (\<Sum>j\<in>?A. owed o' x j (rows s' j))"
    using k fin by (rule total_for_sum) (use r in force)
  also have "\<dots> = (\<Sum>j\<in>?A - {i}. owed o' x j (rows s j))"
    using fin gone r by (subst sum.remove [of _ i]) (auto intro!: sum.cong)
  also have "\<dots> = (\<Sum>j\<in>?A. owed o' x j (rows s j)) - owed o' x i (rows s i)"
    using fin by (subst sum.remove [of _ i]) auto
  also have "(\<Sum>j\<in>?A. owed o' x j (rows s j)) = total_for api s o' x"
    using assms(1) fin by (rule total_for_sum [symmetric]) auto
  finally show ?thesis .
qed

end

interpretation mem_disk: disk_table mem_store dict_get
  by unfold_locales

section \<open>Laws of the limits table\<close>

definition live_row :: "'r row option \<Rightarrow> 'r option" where
  "live_row row = (case row of Some (r, e, d) \<Rightarrow> (if d then None else Some r) | None \<Rightarrow> None)"

locale limits_table = row_store api rows
  for api :: "('s, user_quota) row_api" and rows
begin

lemma read_override_eq: "read_override api s u = Inr (live_row (rows s u))"
  by (auto simp: read_override_def get_law live_row_def split: option.splits)

lemma resolve_user_eq: "resolve_user api d s u = Inr (overlay d (live_row (rows s u)))"
  by (simp add: resolve_user_def read_override_eq)

lemma set_for_rows:
  assumes "set_for api s c u l = Inr (s', c')"
  shows "\<exists>e. rows s' = (rows s)(u \<mapsto> (\<lparr>uq_user_id = u, uq_count = pu_count l, uq_cpu = pu_cpu l,
                            uq_memory = pu_memory l, uq_disk = pu_disk l\<rparr>, e, False))"
    and "c' = dict_pop u c"
  using assms upsert_rows by (auto simp: set_for_def bindE_eq_Inr)

lemma clear_for_rows:
  assumes "clear_for api s c u = Inr (s', c')"
  shows "live_row (rows s' u) = None" and "c' = dict_pop u c"
    and "v \<noteq> u \<Longrightarrow> rows s' v = rows s v"
proof -
  have dq: "delete_quietly api s u = Inr s'" using assms by (auto simp: clear_for_def bindE_eq_Inr)
  note r = delete_quietly_rows [OF dq]
  show "live_row (rows s' u) = None"
    using r by (cases "rows s u") (auto simp: live_row_def)
  show "v \<noteq> u \<Longrightarrow> rows s' v = rows s v" using r by blast
  show "c' = dict_pop u c" using assms by (auto simp: clear_for_def bindE_eq_Inr)
qed

lemma for_user_miss:
  "dict_get c u = None \<Longrightarrow>
     \<exists>c'. for_user api d ttl now s c u = Inr (overlay d (live_row (rows s u)), c')"
  by (auto simp: for_user_def resolve_user_eq)

text \<open>Every memo entry was right at the moment it was made.\<close>

definition memo_ok where
  "memo_ok d w \<longleftrightarrow>
     (re_now w, re_store w) \<in> set (re_past w)
     \<and> (\<forall>p u t l. dict_get (re_cache w p) u = Some (t, l) \<longrightarrow>
          (\<exists>s. (t, s) \<in> set (re_past w) \<and> resolve_user api d s u = Inr l))"

lemma for_user_sound:
  assumes "memo_ok d w" "for_user api d ttl (re_now w) (re_store w) (re_cache w p) u = Inr (l, c)"
  shows "\<exists>t s. (t, s) \<in> set (re_past w) \<and> (t = re_now w \<or> re_now w - t < ttl)
           \<and> resolve_user api d s u = Inr l"
    and "memo_ok d (w\<lparr>re_cache := (re_cache w)(p := c)\<rparr>)"
proof -
  have "(\<exists>t s. (t, s) \<in> set (re_past w) \<and> (t = re_now w \<or> re_now w - t < ttl)
           \<and> resolve_user api d s u = Inr l)
      \<and> (\<forall>v t l. dict_get c v = Some (t, l) \<longrightarrow>
          (\<exists>s. (t, s) \<in> set (re_past w) \<and> resolve_user api d s v = Inr l))"
    using assms
    by (auto simp: for_user_def Let_def memo_ok_def resolve_user_eq split: option.splits if_splits)
      blast+
  then show "\<exists>t s. (t, s) \<in> set (re_past w) \<and> (t = re_now w \<or> re_now w - t < ttl)
           \<and> resolve_user api d s u = Inr l"
    and "memo_ok d (w\<lparr>re_cache := (re_cache w)(p := c)\<rparr>)"
    using assms(1) by (auto simp: memo_ok_def)
qed

lemma memo_ok_pop:
  "memo_ok d w \<Longrightarrow> memo_ok d (w\<lparr>re_store := s', re_cache := (re_cache w)(p := dict_pop u (re_cache w p)),
      re_past := (re_now w, s') # re_past w\<rparr>)"
  by (auto simp: memo_ok_def split: if_splits) blast+

lemma reach_memo_ok: "replicas_reach api d ttl w \<Longrightarrow> memo_ok d w"
proof (induction rule: replicas_reach.induct)
  case (start s now)
  then show ?case by (simp add: memo_ok_def at_start_def)
next
  case (step w w')
  from step(2) show ?case
  proof (cases rule: replica_step.cases)
    case (tick dt)
    with step show ?thesis by (auto simp: memo_ok_def) blast+
  next
    case (read p u l c)
    with step for_user_sound(2) show ?thesis by blast
  next
    case (store p u l s' c)
    with step show ?thesis using memo_ok_pop set_for_rows(2) by metis
  next
    case (clear p u s' c)
    with step show ?thesis using memo_ok_pop clear_for_rows(2) by metis
  qed
qed

end

interpretation mem_limits: limits_table mem_store dict_get
  by unfold_locales

section \<open>Properties\<close>

text \<open>
  the debtor of an item, once a heartbeat named one, is never erased: after any sequence
  of heartbeats and forgettings, of any items, it is the last non-empty name a heartbeat of
  this item gave, or what it was before; heartbeats with a blank owner and soft deletion change
  nothing.  No such sequence fails.
\<close>

theorem debtor_never_erased:
  fixes api :: "('s, sandbox_activity) row_api"
  assumes "row_store api rows"
  shows "\<exists>s'. activity_run api ops s = Inr s'
     \<and> owner_of_item api s' i
         = (if named_debtors i ops = [] then owner_of_item api s i
            else Inr (Some (last (named_debtors i ops))))"
proof -
  note t = activity_table.intro [OF assms]
  show ?thesis
    using activity_table.run_debtor [OF t, of ops s i]
    by (auto simp: activity_table.owner_of_item_eq [OF t])
qed

theorem debtor_never_erased_witness:
  "\<exists>s'. activity_run mem_store
          [Bump 1 ''i'' ''bob'' 500 0, Forget ''i'', Bump 2 ''i'' [] 500 0] [] = Inr s'
     \<and> owner_of_item mem_store s' ''i'' = Inr (Some ''bob'')"
  using debtor_never_erased [OF mem.row_store_axioms,
      of "[Bump 1 ''i'' ''bob'' 500 0, Forget ''i'', Bump 2 ''i'' [] 500 0]" "[]" "''i''"]
  by (simp add: named_debtors_def)

text \<open>
  whatever pods did to an initially empty table, the tally of a person and the liveness of
  an item are the same fact: an item is in the tally exactly when it is live in the same
  window and charged to that person, and no item is counted twice.
\<close>

theorem tally_is_liveness:
  fixes api :: "('s, sandbox_activity) row_api"
  assumes "row_store api rows" "\<forall>i. rows s0 i = None"
    and "activity_run api ops s0 = Inr s" "owner \<noteq> []"
  shows "distinct (map ls_item_id (live_for api s owner since))
     \<and> (i \<in> ls_item_id ` set (live_for api s owner since) \<longleftrightarrow>
          is_live api s i since = Inr True \<and> owner_of_item api s i = Inr (Some owner))"
proof -
  note t = activity_table.intro [OF assms(1)]
  have "row_store.keyed rows sa_item_id s0"
    using assms(2) by (simp add: row_store.keyed_def [OF assms(1)])
  then have "row_store.keyed rows sa_item_id s"
    by (rule activity_table.run_keyed [OF t assms(3)])
  then show ?thesis
    using activity_table.live_for_distinct [OF t] activity_table.tally_matches_liveness [OF t]
      assms(4) by blast
qed

theorem tally_is_liveness_witness:
  "\<exists>s. activity_run mem_store [Bump 10 ''a'' ''bob'' 500 0, Bump 2 ''b'' ''bob'' 500 0] [] = Inr s
     \<and> ''a'' \<in> ls_item_id ` set (live_for mem_store s ''bob'' 5)
     \<and> ''b'' \<notin> ls_item_id ` set (live_for mem_store s ''bob'' 5)"
proof -
  let ?ops = "[Bump 10 ''a'' ''bob'' 500 0, Bump 2 ''b'' ''bob'' 500 0]"
  obtain s where s: "activity_run mem_store ?ops [] = Inr s"
    using mem_activity.run_debtor by blast
  have "is_live mem_store s ''a'' 5 = Inr True" "is_live mem_store s ''b'' 5 = Inr False"
    "owner_of_item mem_store s ''a'' = Inr (Some ''bob'')"
    using s by (auto simp: bump_def upsert_def mem_store_defs is_live_def owner_of_item_def)
  with s tally_is_liveness [OF mem.row_store_axioms _ s, of "''bob''" 5]
  show ?thesis by auto
qed

text \<open>
  the disk total of a person is kept by every measurement: recording item i at n bytes for
  an owner takes away what the row of i counted for each person and adds n for the new owner
  (nothing where i is the excluded item), forgetting only takes away; so a re-measured, moved
  or deleted item is never counted twice.
\<close>

theorem disk_total_tracks_measurements:
  fixes api :: "('s, workspace_disk) row_api"
  assumes "row_store api rows" "row_store.keyed rows wd_item_id s"
  shows "(\<exists>s'. record_disk api now s i owner n = Inr s' \<and> row_store.keyed rows wd_item_id s'
            \<and> (\<forall>who x. total_for api s' who x = total_for api s who x - owed who x i (rows s i)
                 + (if who = owner \<and> i \<noteq> x then n else 0)))
     \<and> (\<exists>s'. forget_disk api s i = Inr s' \<and> row_store.keyed rows wd_item_id s'
            \<and> (\<forall>who x. total_for api s' who x = total_for api s who x - owed who x i (rows s i)))"
proof -
  note t = disk_table.intro [OF assms(1)]
  obtain s1 where s1: "record_disk api now s i owner n = Inr s1"
    using row_store.upsert_total [OF assms(1)] by (metis record_disk_def)
  obtain s2 where s2: "forget_disk api s i = Inr s2"
    using row_store.delete_quietly_total [OF assms(1)] by (metis forget_disk_def)
  show ?thesis
    using s1 s2 disk_table.record_total [OF t assms(2) s1] disk_table.forget_total [OF t assms(2) s2]
      row_store.keyed_delete_quietly [OF assms(1) _ assms(2)]
    by (metis forget_disk_def)
qed

theorem disk_total_tracks_measurements_witness:
  "\<exists>s'. record_disk mem_store 9 [(''w'', \<lparr>wd_item_id = ''w'', wd_owner = ''ann'', wd_bytes_used = 70,
            wd_measured_at_ms = 1\<rparr>, 0, False)] ''w'' ''bob'' 30 = Inr s'
     \<and> total_for mem_store s' ''bob'' [] = 30 \<and> total_for mem_store s' ''ann'' [] = 0"
proof -
  let ?s = "[(''w'', \<lparr>wd_item_id = ''w'', wd_owner = ''ann'', wd_bytes_used = 70,
            wd_measured_at_ms = 1\<rparr>, 0 :: nat, False)]"
  have k: "mem.keyed wd_item_id ?s" by (simp add: mem.keyed_def)
  have "total_for mem_store ?s ''bob'' [] = 0" "total_for mem_store ?s ''ann'' [] = 70"
    by (simp_all add: total_for_def list_live_def mem_store_defs)
  with disk_total_tracks_measurements [OF mem.row_store_axioms k, of 9 "''w''" "''bob''" 30]
  show ?thesis by (auto simp: owed_def)
qed

text \<open>
  over any number of replicas, each with its own memo, a read of somebody's limits is
  never staler than the memo's lifetime: what it returns is what the table said at this moment
  or at a moment less than the lifetime ago, whatever was written meanwhile and on which pod.
\<close>

theorem limits_staleness_bounded:
  fixes api :: "('s, user_quota) row_api"
  assumes "row_store api rows" "replicas_reach api d ttl w"
    and "for_user api d ttl (re_now w) (re_store w) (re_cache w p) u = Inr (l, c)"
  shows "\<exists>t s. (t, s) \<in> set (re_past w) \<and> (t = re_now w \<or> re_now w - t < ttl)
           \<and> resolve_user api d s u = Inr l"
proof -
  note t = limits_table.intro [OF assms(1)]
  show ?thesis
    by (rule limits_table.for_user_sound(1) [OF t limits_table.reach_memo_ok [OF t assms(2)] assms(3)])
qed

theorem limits_staleness_bounded_witness:
  "\<exists>t s. (t, s) \<in> set [(0 :: rat, [] :: user_quota mem)] \<and> (t = 0 \<or> 0 - t < TTL_S)
     \<and> resolve_user mem_store \<lparr>pu_count = 2, pu_cpu = 0, pu_memory = [], pu_disk = []\<rparr> s ''ann''
         = Inr \<lparr>pu_count = 2, pu_cpu = 0, pu_memory = [], pu_disk = []\<rparr>"
proof -
  let ?d = "\<lparr>pu_count = 2, pu_cpu = 0, pu_memory = [], pu_disk = []\<rparr>"
  let ?w = "at_start ([] :: user_quota mem) 0"
  have r: "for_user mem_store ?d TTL_S (re_now ?w) (re_store ?w) (re_cache ?w 0) ''ann''
      = Inr (?d, [(''ann'', 0, ?d)])"
    by (simp add: at_start_def for_user_def resolve_user_def read_override_def mem_store_defs
        overlay_def CACHE_MAX_def)
  from limits_staleness_bounded [OF mem.row_store_axioms replicas_reach.start r]
  show ?thesis by (simp add: at_start_def)
qed

text \<open>
  on the pod that makes it, a change of somebody's limits shows in the very next read: an
  override gives each dimension it states and leaves the others at the deploy's default, and
  clearing it gives the default.
\<close>

theorem override_immediate_on_its_pod:
  fixes api :: "('s, user_quota) row_api"
  assumes "row_store api rows"
  shows "(\<forall>s' c'. set_for api s c u l = Inr (s', c') \<longrightarrow>
            (\<exists>c''. for_user api d ttl now s' c' u
               = Inr (\<lparr>pu_count = if pu_count l \<noteq> 0 then pu_count l else pu_count d,
                       pu_cpu = if pu_cpu l \<noteq> 0 then pu_cpu l else pu_cpu d,
                       pu_memory = if pu_memory l \<noteq> [] then pu_memory l else pu_memory d,
                       pu_disk = if pu_disk l \<noteq> [] then pu_disk l else pu_disk d\<rparr>, c'')))
     \<and> (\<forall>s' c'. clear_for api s c u = Inr (s', c') \<longrightarrow>
            (\<exists>c''. for_user api d ttl now s' c' u = Inr (d, c'')))"
proof -
  note t = limits_table.intro [OF assms]
  have "dict_get (dict_pop u c) u = None" by simp
  note miss = limits_table.for_user_miss [OF t this]
  show ?thesis
  proof (intro conjI allI impI)
    fix s' c' assume *: "set_for api s c u l = Inr (s', c')"
    show "\<exists>c''. for_user api d ttl now s' c' u
               = Inr (\<lparr>pu_count = if pu_count l \<noteq> 0 then pu_count l else pu_count d,
                       pu_cpu = if pu_cpu l \<noteq> 0 then pu_cpu l else pu_cpu d,
                       pu_memory = if pu_memory l \<noteq> [] then pu_memory l else pu_memory d,
                       pu_disk = if pu_disk l \<noteq> [] then pu_disk l else pu_disk d\<rparr>, c'')"
      using limits_table.set_for_rows [OF t *] miss [of d ttl now s']
      by (auto simp: overlay_def live_row_def)
  next
    fix s' c' assume *: "clear_for api s c u = Inr (s', c')"
    show "\<exists>c''. for_user api d ttl now s' c' u = Inr (d, c'')"
      using limits_table.clear_for_rows [OF t *] miss [of d ttl now s'] by (auto simp: overlay_def)
  qed
qed

theorem override_immediate_on_its_pod_witness:
  "\<exists>s' c' c''. set_for mem_store [] [(''ann'', 3, \<lparr>pu_count = 2, pu_cpu = 0, pu_memory = [], pu_disk = []\<rparr>)]
        ''ann'' \<lparr>pu_count = 7, pu_cpu = 0, pu_memory = [], pu_disk = []\<rparr> = Inr (s', c')
     \<and> for_user mem_store \<lparr>pu_count = 2, pu_cpu = 4, pu_memory = [], pu_disk = []\<rparr> TTL_S 4 s' c' ''ann''
         = Inr (\<lparr>pu_count = 7, pu_cpu = 4, pu_memory = [], pu_disk = []\<rparr>, c'')"
proof -
  let ?d = "\<lparr>pu_count = 2, pu_cpu = 4, pu_memory = [], pu_disk = []\<rparr>"
  let ?l = "\<lparr>pu_count = 7, pu_cpu = 0, pu_memory = [], pu_disk = []\<rparr>"
  let ?c = "[(''ann'', 3, \<lparr>pu_count = 2, pu_cpu = 0, pu_memory = [], pu_disk = []\<rparr>)]"
  obtain s' c' where s: "set_for mem_store [] ?c ''ann'' ?l = Inr (s', c')"
    by (simp add: set_for_def upsert_def mem_store_defs)
  with override_immediate_on_its_pod [OF mem.row_store_axioms, of "[]" ?c "''ann''" ?l ?d TTL_S 4]
  show ?thesis by auto
qed

text \<open>
  the list of exceptions is exact: sorted by person, each person once, and exactly those
  who hold an override now, with the override as it was stored rather than as it resolves.
\<close>

theorem override_list_exact:
  fixes api :: "('s, user_quota) row_api"
  assumes "row_store api rows" "row_store.keyed rows uq_user_id s"
  shows "sorted (map fst (list_overrides api s)) \<and> distinct (map fst (list_overrides api s))
     \<and> ((u, l) \<in> set (list_overrides api s) \<longleftrightarrow>
          (\<exists>q. read_override api s u = Inr (Some q)
             \<and> l = \<lparr>pu_count = uq_count q, pu_cpu = uq_cpu q, pu_memory = uq_memory q,
                    pu_disk = uq_disk q\<rparr>))"
proof -
  note t = limits_table.intro [OF assms(1)]
  let ?raw = "\<lambda>q. \<lparr>pu_count = uq_count q, pu_cpu = uq_cpu q, pu_memory = uq_memory q,
                    pu_disk = uq_disk q\<rparr>"
  let ?rows = "list_live api s (\<lambda>_. True)"
  have "mset (map fst (list_overrides api s)) = mset (map uq_user_id ?rows)"
    by (simp add: list_overrides_def image_mset.compositionality o_def)
  then have "distinct (map fst (list_overrides api s)) \<longleftrightarrow> distinct (map uq_user_id ?rows)"
    by (rule mset_eq_imp_distinct_iff)
  with row_store.list_live_distinct [OF assms] have "distinct (map fst (list_overrides api s))"
    by simp
  moreover have "(u, l) \<in> set (list_overrides api s) \<longleftrightarrow>
      (\<exists>q. read_override api s u = Inr (Some q) \<and> l = ?raw q)"
  proof -
    have live: "live_row row = Some q \<longleftrightarrow> (\<exists>e. row = Some (q, e, False))"
      for row :: "user_quota row option" and q
      by (auto simp: live_row_def split: option.splits if_splits)
    have "(u, l) \<in> set (list_overrides api s) \<longleftrightarrow> (\<exists>q \<in> set ?rows. u = uq_user_id q \<and> l = ?raw q)"
      by (auto simp: list_overrides_def)
    also have "\<dots> \<longleftrightarrow> (\<exists>q e. rows s u = Some (q, e, False) \<and> l = ?raw q)"
      using assms(2) unfolding Bex_def row_store.list_live_iff [OF assms(1)] row_store.keyed_def [OF assms(1)]
      by blast
    finally show ?thesis
      by (simp add: limits_table.read_override_eq [OF t] live)
  qed
  ultimately show ?thesis by (simp add: list_overrides_def)
qed

theorem override_list_exact_witness:
  "\<exists>l. (''ann'', l) \<in> set (list_overrides mem_store
          [(''ann'', \<lparr>uq_user_id = ''ann'', uq_count = 3, uq_cpu = 0, uq_memory = [], uq_disk = []\<rparr>,
            0, False)]) \<and> pu_count l = 3"
proof -
  let ?q = "\<lparr>uq_user_id = ''ann'', uq_count = 3, uq_cpu = 0, uq_memory = [], uq_disk = []\<rparr>"
  let ?s = "[(''ann'', ?q, 0 :: nat, False)]"
  have k: "mem.keyed uq_user_id ?s" by (simp add: mem.keyed_def)
  have "read_override mem_store ?s ''ann'' = Inr (Some ?q)"
    by (simp add: read_override_def mem_store_defs)
  with override_list_exact [OF mem.row_store_axioms k] show ?thesis by fastforce
qed

end
