(* ===== verification/QuotaAdmission.thy ===== *)
theory QuotaAdmission
  imports QuotaLedgers
begin

text \<open>
  \<open>quota/admission.py\<close>: may one more live sandbox be opened for an item?

  The gate's collaborators are arguments, as they are constructor arguments in the source: the
  activity store (absent in a single process), the limits of a person, the debtor of an item,
  the cost of a new sandbox, the window and the clock.  The activity store is the interface
  \<open>activity_ledger\<close>; the table of \<open>QuotaLedgers\<close> implements it.

  The three comparisons are done in floats by the source, so they are in doubles here:
  \<open>to_double\<close> rounds to the nearest double, None standing for a magnitude beyond them.
\<close>

section \<open>Float arithmetic\<close>

definition to_double :: "rat \<Rightarrow> rat option" where
  "to_double q = (if q < 0 then map_option uminus (double_of_rat (- q)) else double_of_rat q)"

section \<open>The gate\<close>

record activity_store =
  as_is_live :: "string \<Rightarrow> int \<Rightarrow> bool"
  as_live_for :: "string \<Rightarrow> int \<Rightarrow> live_sandbox list"

record admission_gate =
  ag_activity :: "activity_store option"
  ag_limits_for :: "string \<Rightarrow> per_user"
  ag_owner_of :: "string \<Rightarrow> string option"
  ag_cost_of :: "(string \<Rightarrow> resource_limits) option"
  ag_window_ms :: int
  ag_now_ms :: int

text \<open>
  \<open>SandboxQuotaExceeded\<close> with its owner, dimension, the amount it would reach (None beyond the
  doubles), the limit and what is held; or an exception of another kind.
\<close>

datatype admission_error =
    SandboxQuotaExceeded string string "rat option" rat "live_sandbox list"
  | BadMemoryLimit size_error
  | FloatOverflow

definition memory_limit :: "per_user \<Rightarrow> admission_error + int" where
  "memory_limit l =
     (case parse_size (pu_memory l) of Inl e \<Rightarrow> Inl (BadMemoryLimit e) | Inr n \<Rightarrow> Inr n)"

definition as_float :: "rat \<Rightarrow> admission_error + rat" where
  "as_float q = (case to_double q of None \<Rightarrow> Inl FloatOverflow | Some x \<Rightarrow> Inr x)"

definition configured_any :: "per_user \<Rightarrow> admission_error + bool" where
  "configured_any l =
     (if pu_count l \<noteq> 0 \<or> pu_cpu l \<noteq> 0 then Inr True
      else bindE (memory_limit l) (\<lambda>n. Inr (n \<noteq> 0)))"

definition exceeds :: "rat option \<Rightarrow> rat \<Rightarrow> bool" where
  "exceeds w limit = (case w of None \<Rightarrow> True | Some x \<Rightarrow> limit < x)"

fun enforce_checks ::
  "string \<Rightarrow> live_sandbox list \<Rightarrow> (string \<times> rat option \<times> rat) list \<Rightarrow> admission_error + unit" where
  "enforce_checks owner live [] = Inr ()"
| "enforce_checks owner live ((name, would_be, limit) # cs) =
     (if limit \<noteq> 0 \<and> exceeds would_be limit
      then Inl (SandboxQuotaExceeded owner name would_be limit live)
      else enforce_checks owner live cs)"

definition enforce ::
  "string \<Rightarrow> live_sandbox list \<Rightarrow> resource_limits option \<Rightarrow> per_user \<Rightarrow> admission_error + unit" where
  "enforce owner live incoming lims =
     (let add_cpu = (case Option.bind incoming cpu_cores of None \<Rightarrow> 0 | Some c \<Rightarrow> c);
          add_mem = (case Option.bind incoming memory_bytes of None \<Rightarrow> 0 | Some b \<Rightarrow> b)
      in
      bindE (as_float (of_int (pu_count lims))) (\<lambda>count.
      bindE (as_float (of_int (\<Sum>x\<leftarrow>live. ls_cpu_milli x) / 1000)) (\<lambda>cpu.
      bindE (as_float (of_int ((\<Sum>x\<leftarrow>live. ls_memory_bytes x) + add_mem))) (\<lambda>mem.
      bindE (memory_limit lims) (\<lambda>m.
      bindE (as_float (of_int m)) (\<lambda>mem_limit.
        enforce_checks owner live
          [(''sandboxes'', Some (of_nat (length live + 1)), count),
           (''cpu'', to_double (cpu + add_cpu), pu_cpu lims),
           (''memory'', Some mem, mem_limit)]))))))"

definition check :: "admission_gate \<Rightarrow> string \<Rightarrow> resource_limits option \<Rightarrow> admission_error + unit" where
  "check g item incoming =
     (case ag_activity g of
        None \<Rightarrow> Inr ()
      | Some act \<Rightarrow>
          (case ag_owner_of g item of
             None \<Rightarrow> Inr ()
           | Some owner \<Rightarrow>
               if owner = [] then Inr ()
               else
                 let lims = ag_limits_for g owner in
                 bindE (configured_any lims) (\<lambda>conf.
                   if \<not> conf then Inr ()
                   else
                     let since = ag_now_ms g - ag_window_ms g in
                     if as_is_live act item since then Inr ()
                     else
                       let inc = (case incoming of
                                    Some l \<Rightarrow> Some l
                                  | None \<Rightarrow> map_option (\<lambda>f. f item) (ag_cost_of g))
                       in enforce owner (as_live_for act owner since) inc lims)))"

section \<open>Exact doubles\<close>

lemma bit_length_bounds: "0 < n \<Longrightarrow> 0 < bit_length n \<and> 2 ^ nat (bit_length n - 1) \<le> n \<and> n < 2 ^ nat (bit_length n)"
proof (induction n rule: bit_length.induct)
  case (1 n)
  have unfold: "bit_length n = 1 + bit_length (n div 2)"
    using 1(2) by (subst bit_length.simps) simp
  show ?case
  proof (cases "n div 2 = 0")
    case True
    with 1(2) have "n = 1" by simp
    moreover have "bit_length 0 = 0" by (subst bit_length.simps) simp
    ultimately show ?thesis using unfold by simp
  next
    case False
    with 1(2) have pos: "0 < n div 2" by simp
    let ?b = "bit_length (n div 2)"
    have ih: "0 < ?b" "2 ^ nat (?b - 1) \<le> n div 2" "n div 2 < 2 ^ nat ?b"
      using 1(1) [OF _ pos] 1(2) by auto
    have e1: "(2::int) ^ nat ?b = 2 * 2 ^ nat (?b - 1)"
    proof -
      have "nat ?b = Suc (nat (?b - 1))" using ih(1) by simp
      then show ?thesis by simp
    qed
    have e2: "(2::int) ^ nat (1 + ?b) = 2 * 2 ^ nat ?b"
    proof -
      have "nat (1 + ?b) = Suc (nat ?b)" using ih(1) by simp
      then show ?thesis by simp
    qed
    define P :: int where "P = 2 ^ nat (?b - 1)"
    have "P \<le> n div 2" "n div 2 < 2 * P" using ih e1 by (simp_all add: P_def)
    then have "2 * P \<le> n" "n < 4 * P" by linarith+
    then show ?thesis using ih(1) e1 e2 unfold by (simp add: P_def)
  qed
qed

lemma half_even_int [simp]: "half_even (of_int n) = n"
  by (simp add: half_even_def)

text \<open>Integers below 2^53 are doubles.\<close>

lemma double_of_int:
  assumes "0 \<le> n" "n < 2 ^ 53"
  shows "double_of n 1 = Some (of_int n)"
proof (cases "n = 0")
  case True
  then show ?thesis by (simp add: double_of_def)
next
  case False
  with assms have pos: "0 < n" by simp
  note b = bit_length_bounds [OF pos]
  have one: "bit_length 1 = 1" by (subst bit_length.simps) (simp add: bit_length.simps)
  have len: "bit_length n \<le> 53"
  proof (rule ccontr)
    assume "\<not> bit_length n \<le> 53"
    then have "(2::int) ^ 53 \<le> 2 ^ nat (bit_length n - 1)" by (intro power_increasing) auto
    with b assms(2) show False by linarith
  qed
  let ?k = "bit_length n - 1"
  have ge: "\<not> (of_int n / of_int 1 :: rat) < pow2 ?k"
  proof -
    have "(of_int (2 ^ nat ?k) :: rat) \<le> of_int n" using b by (simp only: of_int_le_iff)
    with b show ?thesis by (simp add: pow2_def)
  qed
  let ?m = "nat (53 - bit_length n)"
  have scale: "pow2 (?k - 52) = 1 / 2 ^ ?m"
  proof (cases "bit_length n = 53")
    case True
    then show ?thesis by (simp add: pow2_def)
  next
    case False
    with len have "\<not> 0 \<le> ?k - 52" by simp
    then show ?thesis using len by (simp add: pow2_def algebra_simps)
  qed
  have sig: "(of_int n / of_int 1) / pow2 (?k - 52) = (of_int (n * 2 ^ ?m) :: rat)"
    unfolding scale by simp
  have undo: "(of_int (n * 2 ^ ?m) :: rat) * pow2 (?k - 52) = of_int n"
    unfolding scale by simp
  have small: "\<not> pow2 1024 \<le> (of_int n :: rat)"
  proof -
    have "(of_int n :: rat) < of_int (2 ^ 53)" using assms(2) by (simp only: of_int_less_iff)
    also have "\<dots> \<le> 2 ^ 1024" by simp
    finally show ?thesis by (simp add: pow2_def)
  qed
  have e: "max (?k - 52) (- 1074) = ?k - 52" using b by simp
  show ?thesis
    unfolding double_of_def one Let_def
    by (simp only: False ge e sig undo small half_even_int if_False)
qed

lemma to_double_int:
  assumes "0 \<le> n" "n < 2 ^ 53"
  shows "to_double (of_int n) = Some (of_int n)"
  using assms double_of_int [OF assms] by (simp add: to_double_def double_of_rat_def)

lemma as_float_int: "0 \<le> n \<Longrightarrow> n < 2 ^ 53 \<Longrightarrow> as_float (of_int n) = Inr (of_int n)"
  by (simp only: as_float_def to_double_int) simp

text \<open>Evaluating a double: the lengths of numerator and denominator give the exponent.\<close>

lemma bit_length_unique:
  assumes "2 ^ L \<le> n" "n < 2 ^ Suc L"
  shows "bit_length n = int (Suc L)"
proof -
  have pos: "0 < n" using assms(1) by (smt (verit) zero_less_power)
  note b = bit_length_bounds [OF pos]
  have "nat (bit_length n - 1) < Suc L"
  proof (rule ccontr)
    assume "\<not> nat (bit_length n - 1) < Suc L"
    then have "(2::int) ^ Suc L \<le> 2 ^ nat (bit_length n - 1)" by (intro power_increasing) auto
    with b assms(2) show False by linarith
  qed
  moreover have "L < nat (bit_length n)"
  proof (rule ccontr)
    assume "\<not> L < nat (bit_length n)"
    then have "(2::int) ^ nat (bit_length n) \<le> 2 ^ L" by (intro power_increasing) auto
    with b assms(1) show False by linarith
  qed
  ultimately show ?thesis using b by linarith
qed

lemma half_even_cases:
  "of_int f \<le> x \<Longrightarrow> x < of_int f + 1 / 2 \<Longrightarrow> half_even x = f"
  "of_int f + 1 / 2 < x \<Longrightarrow> x < of_int f + 1 \<Longrightarrow> half_even x = f + 1"
  "x = of_int f + 1 / 2 \<Longrightarrow> half_even x = (if even f then f else f + 1)"
proof -
  show "half_even x = f" if "of_int f \<le> x" "x < of_int f + 1 / 2"
  proof -
    have "\<lfloor>x\<rfloor> = f" using that by (simp add: floor_eq_iff)
    with that show ?thesis by (simp add: half_even_def)
  qed
  show "half_even x = f + 1" if "of_int f + 1 / 2 < x" "x < of_int f + 1"
  proof -
    have "\<lfloor>x\<rfloor> = f" using that by (simp add: floor_eq_iff)
    with that show ?thesis by (simp add: half_even_def)
  qed
  show "half_even x = (if even f then f else f + 1)" if "x = of_int f + 1 / 2"
  proof -
    have "\<lfloor>x\<rfloor> = f" using that by (simp add: floor_eq_iff)
    with that show ?thesis by (simp add: half_even_def)
  qed
qed

lemma double_of_rat_eval:
  assumes "q = of_int n / of_int d" "0 < d" "coprime n d" "n \<noteq> 0"
    and "bit_length n = a" "bit_length d = b"
    and "(if q < pow2 (a - b) then a - b - 53 else a - b - 52) = e" "- 1074 \<le> e"
    and "half_even (q / pow2 e) = f" "of_int f * pow2 e = r" "r < pow2 1024"
  shows "double_of_rat q = Some r"
proof -
  have "quotient_of q = (n, d)"
    unfolding assms(1) using assms(2,3)
    by (simp add: Fract_of_int_quotient [symmetric] quotient_of_Fract normalize_stable)
  moreover have "max (if q < pow2 (a - b) then a - b - 53 else a - b - 52) (- 1074) = e"
    using assms(7,8) by simp
  moreover have "\<not> pow2 1024 \<le> r" using assms(11) by simp
  ultimately show ?thesis
    unfolding double_of_rat_def double_of_def Let_def prod.case
    by (simp only: prod.case assms(1) [symmetric] assms(4-6) if_False assms(9,10))
qed

section \<open>The gate's decision\<close>

text \<open>What the code relies on from the activity store, per item and per person.\<close>

locale activity_ledger =
  fixes live :: "string \<Rightarrow> int \<Rightarrow> bool"
    and tally :: "string \<Rightarrow> int \<Rightarrow> live_sandbox list"
    and debtor :: "string \<Rightarrow> string option"
  assumes tally_distinct: "distinct (map ls_item_id (tally owner since))"
    and tally_live:
      "owner \<noteq> [] \<Longrightarrow>
         i \<in> ls_item_id ` set (tally owner since) \<longleftrightarrow> live i since \<and> debtor i = Some owner"
begin

text \<open>An item that is not live is in nobody's tally, so the gate counts the others only.\<close>

lemma not_in_own_tally:
  "\<not> live i since \<Longrightarrow> owner \<noteq> [] \<Longrightarrow> i \<notin> ls_item_id ` set (tally owner since)"
  using tally_live by blast

lemma tally_count:
  "owner \<noteq> [] \<Longrightarrow>
     length (tally owner since) = card {i. live i since \<and> debtor i = Some owner}"
proof -
  assume "owner \<noteq> []"
  then have "{i. live i since \<and> debtor i = Some owner} = set (map ls_item_id (tally owner since))"
    using tally_live by auto
  then show ?thesis using distinct_card [OF tally_distinct] by simp
qed

end

lemma exceeds_simps [quota_simps]: "exceeds (Some x) l \<longleftrightarrow> l < x" "exceeds None l"
  by (simp_all add: exceeds_def)

definition sane :: "per_user \<Rightarrow> bool" where
  "sane l \<longleftrightarrow> 0 \<le> pu_count l \<and> pu_count l < 2 ^ 53
     \<and> (case parse_size (pu_memory l) of Inr n \<Rightarrow> n < 2 ^ 53 | Inl _ \<Rightarrow> False)"

lemma enforce_sane:
  assumes "sane lims" "parse_size (pu_memory lims) = Inr m" "0 \<le> m"
    and "0 \<le> (\<Sum>x\<leftarrow>live. ls_memory_bytes x) + add_mem"
    and "(\<Sum>x\<leftarrow>live. ls_memory_bytes x) + add_mem < 2 ^ 53"
    and "add_mem = (case Option.bind incoming memory_bytes of None \<Rightarrow> 0 | Some b \<Rightarrow> b)"
    and "add_cpu = (case Option.bind incoming cpu_cores of None \<Rightarrow> 0 | Some c \<Rightarrow> c)"
    and "to_double (of_int (\<Sum>x\<leftarrow>live. ls_cpu_milli x) / 1000) = Some cpu"
  shows "enforce owner live incoming lims =
     (if pu_count lims \<noteq> 0 \<and> pu_count lims < int (length live) + 1
      then Inl (SandboxQuotaExceeded owner ''sandboxes'' (Some (of_nat (length live + 1)))
                  (of_int (pu_count lims)) live)
      else if pu_cpu lims \<noteq> 0 \<and> exceeds (to_double (cpu + add_cpu)) (pu_cpu lims)
      then Inl (SandboxQuotaExceeded owner ''cpu'' (to_double (cpu + add_cpu)) (pu_cpu lims) live)
      else if m \<noteq> 0 \<and> m < (\<Sum>x\<leftarrow>live. ls_memory_bytes x) + add_mem
      then Inl (SandboxQuotaExceeded owner ''memory''
                  (Some (of_int ((\<Sum>x\<leftarrow>live. ls_memory_bytes x) + add_mem))) (of_int m) live)
      else Inr ())"
proof -
  have c: "as_float (of_int (pu_count lims)) = Inr (of_int (pu_count lims))"
    using assms(1) by (intro as_float_int) (auto simp: sane_def)
  have m: "as_float (of_int m) = Inr (of_int m)"
    using assms(1-3) by (intro as_float_int) (auto simp: sane_def)
  have mem: "as_float (of_int ((\<Sum>x\<leftarrow>live. ls_memory_bytes x) + add_mem))
      = Inr (of_int ((\<Sum>x\<leftarrow>live. ls_memory_bytes x) + add_mem))"
    using assms(4,5) by (rule as_float_int)
  have cpu: "as_float (of_int (\<Sum>x\<leftarrow>live. ls_cpu_milli x) / 1000) = Inr cpu"
    using assms(8) by (simp add: as_float_def)
  have count: "(of_int (pu_count lims) < (of_nat (length live + 1) :: rat))
      \<longleftrightarrow> pu_count lims < int (length live) + 1"
    by (metis of_int_less_iff of_int_of_nat_eq of_nat_1 of_nat_add)
  have ml: "memory_limit lims = Inr m" using assms(2) by (simp add: memory_limit_def)
  show ?thesis
    unfolding enforce_def Let_def assms(6) [symmetric] assms(7) [symmetric] c cpu mem ml m bindE_Inr
      enforce_checks.simps exceeds_simps count
    by (simp only: of_int_eq_0_iff of_int_less_iff)
qed

section \<open>The table as the gate's activity store\<close>

definition table_activity :: "('s, sandbox_activity) row_api \<Rightarrow> 's \<Rightarrow> activity_store" where
  "table_activity api s =
     \<lparr>as_is_live = (\<lambda>i since. is_live api s i since = Inr True), as_live_for = live_for api s\<rparr>"

locale keyed_activity = activity_table api rows
  for api :: "('s, sandbox_activity) row_api" and rows +
  fixes s :: 's
  assumes keyed_s: "keyed sa_item_id s"

sublocale keyed_activity \<subseteq> activity_ledger
    "as_is_live (table_activity api s)" "as_live_for (table_activity api s)"
    "\<lambda>i. debtor_row (rows s i)"
  by unfold_locales
    (auto simp: table_activity_def live_for_distinct [OF keyed_s]
      tally_matches_liveness [OF keyed_s] owner_of_item_eq)

interpretation started: keyed_activity mem_store dict_get
    "[(''i'', \<lparr>sa_item_id = ''i'', sa_last_active_ms = 5, sa_owner = ''ann'', sa_cpu_milli = 500,
        sa_memory_bytes = 0\<rparr>, 0, False)]"
  by unfold_locales (simp add: mem.keyed_def)

text \<open>
  Admissions one after the other, over one table: the gate asks the table as it is now and names the
  owner the item has now, and an admitted item's sandbox starts and beats.  A sandbox also beats when
  nobody asked the gate: on every use, when it is rebuilt under a file operation, when the backend says
  that it runs (\<open>SessionRegistry._bump\<close>), for whatever owner the item has then.  A sandbox is closed;
  time passes.  \<open>qw_ungated\<close> holds the sandboxes that came onto a person's tally through a beat of the
  second kind.
\<close>

definition gate_at ::
  "('s, sandbox_activity) row_api \<Rightarrow> admission_gate \<Rightarrow> (string \<Rightarrow> string option) \<Rightarrow> 's \<Rightarrow> int \<Rightarrow> admission_gate" where
  "gate_at api g owner_of s now = g\<lparr>ag_activity := Some (table_activity api s), ag_owner_of := owner_of, ag_now_ms := now\<rparr>"

record 's quota_world =
  qw_table :: 's
  qw_now :: int
  qw_ungated :: "(string \<times> string) set"

definition tallied :: "('s, sandbox_activity) row_api \<Rightarrow> 's \<Rightarrow> int \<Rightarrow> string \<Rightarrow> string set" where
  "tallied api s since p = ls_item_id ` set (live_for api s p since)"

inductive sandbox_step ::
  "('s, sandbox_activity) row_api \<Rightarrow> admission_gate \<Rightarrow> 's quota_world \<Rightarrow> 's quota_world \<Rightarrow> bool"
  for api g where
  admits: "check (gate_at api g owner_of (qw_table w) (qw_now w)) i None = Inr () \<Longrightarrow> owner_of i = Some owner \<Longrightarrow>
     owner \<noteq> [] \<Longrightarrow> is_live api (qw_table w) i (qw_now w - ag_window_ms g) = Inr False \<Longrightarrow>
     bump api (qw_now w) (qw_table w) i owner cpu mem = Inr s' \<Longrightarrow>
     sandbox_step api g w (w\<lparr>qw_table := s', qw_ungated := qw_ungated w - {(i, owner)}\<rparr>)"
| beats: "bump api (qw_now w) (qw_table w) i owner cpu mem = Inr s' \<Longrightarrow>
     sandbox_step api g w (w\<lparr>qw_table := s', qw_ungated := qw_ungated w \<union>
       {(k, p). k \<in> tallied api s' (qw_now w - ag_window_ms g) p - tallied api (qw_table w) (qw_now w - ag_window_ms g) p}\<rparr>)"
| closes: "forget api (qw_table w) i = Inr s' \<Longrightarrow> sandbox_step api g w (w\<lparr>qw_table := s'\<rparr>)"
| passes: "0 \<le> dt \<Longrightarrow> sandbox_step api g w (w\<lparr>qw_now := qw_now w + dt\<rparr>)"

inductive sandboxes_reach ::
  "('s, sandbox_activity) row_api \<Rightarrow> admission_gate \<Rightarrow> 's \<Rightarrow> 's quota_world \<Rightarrow> bool"
  for api g s0 where
  start: "sandboxes_reach api g s0 \<lparr>qw_table = s0, qw_now = now, qw_ungated = {}\<rparr>"
| step: "sandboxes_reach api g s0 w \<Longrightarrow> sandbox_step api g w w' \<Longrightarrow> sandboxes_reach api g s0 w'"

context activity_table
begin

definition held :: "string \<Rightarrow> 's \<Rightarrow> int \<Rightarrow> string set" where
  "held p s since =
     {i. \<exists>r e. rows s i = Some (r, e, False) \<and> sa_owner r = p \<and> since \<le> sa_last_active_ms r}"

lemma held_finite: "finite (held p s since)"
  by (rule finite_subset [OF _ finite_rows [of s]]) (auto simp: held_def)

lemma live_for_count:
  assumes "keyed sa_item_id s"
  shows "length (live_for api s p since) = card (held p s since)"
proof -
  have "ls_item_id ` set (live_for api s p since) = sa_item_id `
      set (list_live api s (\<lambda>r. sa_owner r = p \<and> since \<le> sa_last_active_ms r))"
    by (simp add: live_for_list as_live_def image_image)
  also have "\<dots> = held p s since"
    unfolding set_eq_iff list_live_key_iff [OF assms] held_def by simp
  finally show ?thesis
    using distinct_card [OF live_for_distinct [OF assms], of p since] by simp
qed

lemma held_bump:
  assumes "bump api now s i owner cpu mem = Inr s'" "owner \<noteq> []"
  shows "held p s' since \<subseteq> (if owner = p then insert i (held p s since) else held p s since)"
  using assms bump_rows [of now s i owner cpu mem] by (auto simp: held_def split: if_splits)

lemma held_forget:
  assumes "forget api s i = Inr s'"
  shows "held p s' since \<subseteq> held p s since"
proof
  fix j assume "j \<in> held p s' since"
  then obtain r e where j: "rows s' j = Some (r, e, False)" "sa_owner r = p"
      "since \<le> sa_last_active_ms r"
    by (auto simp: held_def)
  have "delete_quietly api s i = Inr s'" using assms by (simp add: forget_def)
  note r = delete_quietly_rows [OF this]
  have "j \<noteq> i"
    using j r by (cases "rows s i") auto
  with r j show "j \<in> held p s since" by (auto simp: held_def)
qed

lemma held_later: "since \<le> since' \<Longrightarrow> held p s since' \<subseteq> held p s since"
  by (auto simp: held_def)

lemma admitted_has_room:
  assumes "check (gate_at api g owner_of s now) i None = Inr ()" "owner_of i = Some p" "p \<noteq> []"
    and "sane (ag_limits_for g p)" "pu_count (ag_limits_for g p) \<noteq> 0"
    and "is_live api s i (now - ag_window_ms g) \<noteq> Inr True"
  shows "int (length (live_for api s p (now - ag_window_ms g))) + 1 \<le> pu_count (ag_limits_for g p)"
proof -
  let ?l = "ag_limits_for g p"
  have c: "as_float (of_int (pu_count ?l)) = Inr (of_int (pu_count ?l))"
    using assms(4) by (intro as_float_int) (auto simp: sane_def)
  have "\<exists>inc. enforce p (live_for api s p (now - ag_window_ms g)) inc ?l = Inr ()"
    using assms by (auto simp: check_def gate_at_def table_activity_def configured_any_def Let_def)
  then have "\<not> (of_int (pu_count ?l) :: rat)
      < of_nat (length (live_for api s p (now - ag_window_ms g)) + 1)"
    using assms(5) c
    by (auto simp: enforce_def bindE_eq_Inr exceeds_simps Let_def split: if_splits)
  then have "(of_int (int (length (live_for api s p (now - ag_window_ms g))) + 1) :: rat)
      \<le> of_int (pu_count ?l)" by simp
  then show ?thesis by (simp only: of_int_le_iff)
qed

lemma held_bump_any:
  assumes "bump api now s i owner cpu mem = Inr s'" "owner \<noteq> []" "owner \<noteq> p"
  shows "held p s' since \<subseteq> held p s since"
  using held_bump [OF assms(1,2), of p since] assms(3) by simp

lemma tallied_held:
  assumes "keyed sa_item_id s"
  shows "tallied api s since p = held p s since"
proof -
  have "tallied api s since p = sa_item_id ` set (list_live api s (\<lambda>r. sa_owner r = p \<and> since \<le> sa_last_active_ms r))"
    by (simp add: tallied_def live_for_list as_live_def image_image)
  then show ?thesis unfolding set_eq_iff list_live_key_iff [OF assms] held_def by simp
qed

text \<open>The sandboxes on a person's tally that the gate let in.\<close>

definition gated :: "admission_gate \<Rightarrow> string \<Rightarrow> 's quota_world \<Rightarrow> string set" where
  "gated g p w = {i \<in> held p (qw_table w) (qw_now w - ag_window_ms g). (i, p) \<notin> qw_ungated w}"

lemma gated_bound_step:
  assumes "sandbox_step api g w w'" "keyed sa_item_id (qw_table w)"
    and "sane (ag_limits_for g p)" "pu_count (ag_limits_for g p) \<noteq> 0" "p \<noteq> []"
    and "int (card (gated g p w)) \<le> pu_count (ag_limits_for g p)"
  shows "keyed sa_item_id (qw_table w') \<and> int (card (gated g p w')) \<le> pu_count (ag_limits_for g p)"
proof -
  have fin: "finite (gated g p w)" for w :: "'s quota_world" using held_finite by (simp add: gated_def)
  have fewer: "int (card (gated g p w')) \<le> pu_count (ag_limits_for g p)" if "gated g p w' \<subseteq> gated g p w"
    using card_mono [OF fin that] assms(6) by simp
  show ?thesis
    using assms(1)
  proof (cases rule: sandbox_step.cases)
    case (admits owner_of i owner cpu mem s')
    let ?since = "qw_now w - ag_window_ms g"
    have ks: "keyed sa_item_id s'" using step_keyed [of "Bump (qw_now w) i owner cpu mem"] admits(6) assms(2) by simp
    have "int (card (gated g p w')) \<le> pu_count (ag_limits_for g p)"
    proof (cases "owner = p")
      case True
      have "int (length (live_for api (qw_table w) p ?since)) + 1 \<le> pu_count (ag_limits_for g p)"
        by (rule admitted_has_room [OF admits(2) _ assms(5,3,4)]) (use admits(3,5) True in auto)
      moreover have "gated g p w' \<subseteq> insert i (held p (qw_table w) ?since)"
        using held_bump [OF admits(6,4), of p ?since] True admits(1) by (auto simp: gated_def)
      then have "card (gated g p w') \<le> card (insert i (held p (qw_table w) ?since))"
        using held_finite by (intro card_mono) auto
      moreover have "card (insert i (held p (qw_table w) ?since)) \<le> Suc (card (held p (qw_table w) ?since))"
        by (rule card_insert_le_m1 [of "Suc (card (held p (qw_table w) ?since))", simplified]) simp
      ultimately show ?thesis using live_for_count [OF assms(2), of p ?since] by simp
    next
      case False
      have "gated g p w' \<subseteq> gated g p w"
        using held_bump_any [OF admits(6,4) False, of ?since] False admits(1) by (auto simp: gated_def)
      then show ?thesis by (rule fewer)
    qed
    with ks admits(1) show ?thesis by simp
  next
    case (beats i owner cpu mem s')
    have ks: "keyed sa_item_id s'" using step_keyed [of "Bump (qw_now w) i owner cpu mem"] beats(2) assms(2) by simp
    have "gated g p w' \<subseteq> gated g p w"
      using beats(1) tallied_held [OF ks] tallied_held [OF assms(2)] by (auto simp: gated_def)
    with ks beats(1) show ?thesis using fewer by simp
  next
    case (closes i s')
    have ks: "keyed sa_item_id s'" using step_keyed [of "Forget i"] closes(2) assms(2) by simp
    have "gated g p w' \<subseteq> gated g p w"
      using held_forget [OF closes(2)] closes(1) by (auto simp: gated_def)
    with ks closes(1) show ?thesis using fewer by simp
  next
    case (passes dt)
    have "held p (qw_table w) (qw_now w + dt - ag_window_ms g) \<subseteq> held p (qw_table w) (qw_now w - ag_window_ms g)"
      using passes(2) by (intro held_later) simp
    then have "gated g p w' \<subseteq> gated g p w" using passes(1) by (auto simp: gated_def)
    with passes(1) assms(2) show ?thesis using fewer by simp
  qed
qed

lemma gated_bound:
  assumes "\<forall>i. rows s0 i = None" "sandboxes_reach api g s0 w"
    and "sane (ag_limits_for g p)" "pu_count (ag_limits_for g p) \<noteq> 0" "p \<noteq> []"
  shows "keyed sa_item_id (qw_table w) \<and> int (card (gated g p w)) \<le> pu_count (ag_limits_for g p)"
  using assms(2)
proof induction
  case (start now)
  have "held p s0 (now - ag_window_ms g) = {}" using assms(1) by (simp add: held_def)
  then show ?case using assms(1,3) by (simp add: gated_def keyed_def sane_def)
next
  case (step w w')
  then show ?case using gated_bound_step [OF step(2)] assms(3-5) by blast
qed

lemma gated_list:
  assumes "keyed sa_item_id (qw_table w)"
  shows "length (filter (\<lambda>x. (ls_item_id x, p) \<notin> qw_ungated w) (live_for api (qw_table w) p (qw_now w - ag_window_ms g)))
     = card (gated g p w)"
proof -
  let ?xs = "filter (\<lambda>x. (ls_item_id x, p) \<notin> qw_ungated w) (live_for api (qw_table w) p (qw_now w - ag_window_ms g))"
  have "distinct (map ls_item_id ?xs)"
    using live_for_distinct [OF assms] by (rule distinct_map_filter)
  then have "length ?xs = card (ls_item_id ` set ?xs)" using distinct_card [of "map ls_item_id ?xs"] by simp
  also have "ls_item_id ` set ?xs = gated g p w"
    using tallied_held [OF assms, of "qw_now w - ag_window_ms g" p] by (auto simp: gated_def tallied_def)
  finally show ?thesis .
qed

end

section \<open>Properties\<close>

text \<open>
  the gate's answer, whole: a turn is let through when nothing is gated (no shared store,
  no debtor, no limit) or the item already holds its slot; otherwise it is refused for the
  first of count, cpu and memory that one more sandbox of this size would exceed, naming the
  amount reached, the limit and exactly the sandboxes the person holds, and let through when
  every dimension fits.  Exactly reaching a limit is allowed.
\<close>

theorem admission_exact:
  assumes "ag_activity g = Some act" "ag_owner_of g item = Some owner" "owner \<noteq> []"
    and "lims = ag_limits_for g owner" "sane lims" "parse_size (pu_memory lims) = Inr m" "0 \<le> m"
    and "since = ag_now_ms g - ag_window_ms g" "live = as_live_for act owner since"
    and "incoming = (case inc of Some l \<Rightarrow> Some l | None \<Rightarrow> map_option (\<lambda>f. f item) (ag_cost_of g))"
    and "add_mem = (case Option.bind incoming memory_bytes of None \<Rightarrow> 0 | Some b \<Rightarrow> b)"
    and "add_cpu = (case Option.bind incoming cpu_cores of None \<Rightarrow> 0 | Some c \<Rightarrow> c)"
    and "mem = (\<Sum>x\<leftarrow>live. ls_memory_bytes x) + add_mem" "0 \<le> mem" "mem < 2 ^ 53"
    and "to_double (of_int (\<Sum>x\<leftarrow>live. ls_cpu_milli x) / 1000) = Some cpu"
  shows "check g item inc =
     (if as_is_live act item since \<or> (pu_count lims = 0 \<and> pu_cpu lims = 0 \<and> m = 0) then Inr ()
      else if pu_count lims \<noteq> 0 \<and> pu_count lims < int (length live) + 1
      then Inl (SandboxQuotaExceeded owner ''sandboxes'' (Some (of_nat (length live + 1)))
                  (of_int (pu_count lims)) live)
      else if pu_cpu lims \<noteq> 0 \<and> exceeds (to_double (cpu + add_cpu)) (pu_cpu lims)
      then Inl (SandboxQuotaExceeded owner ''cpu'' (to_double (cpu + add_cpu)) (pu_cpu lims) live)
      else if m \<noteq> 0 \<and> m < mem
      then Inl (SandboxQuotaExceeded owner ''memory'' (Some (of_int mem)) (of_int m) live)
      else Inr ())"
proof -
  have conf: "configured_any lims = Inr (pu_count lims \<noteq> 0 \<or> pu_cpu lims \<noteq> 0 \<or> m \<noteq> 0)"
    using assms(6)
    by (cases "pu_count lims = 0"; cases "pu_cpu lims = 0")
       (simp_all add: configured_any_def memory_limit_def)
  have enf: "enforce owner live incoming lims =
     (if pu_count lims \<noteq> 0 \<and> pu_count lims < int (length live) + 1
      then Inl (SandboxQuotaExceeded owner ''sandboxes'' (Some (of_nat (length live + 1)))
                  (of_int (pu_count lims)) live)
      else if pu_cpu lims \<noteq> 0 \<and> exceeds (to_double (cpu + add_cpu)) (pu_cpu lims)
      then Inl (SandboxQuotaExceeded owner ''cpu'' (to_double (cpu + add_cpu)) (pu_cpu lims) live)
      else if m \<noteq> 0 \<and> m < mem
      then Inl (SandboxQuotaExceeded owner ''memory'' (Some (of_int mem)) (of_int m) live)
      else Inr ())"
    unfolding assms(13)
    by (rule enforce_sane) (use assms in simp_all)
  have "check g item inc =
     (if \<not> (pu_count lims \<noteq> 0 \<or> pu_cpu lims \<noteq> 0 \<or> m \<noteq> 0) then Inr ()
      else if as_is_live act item since then Inr ()
      else enforce owner live incoming lims)"
    using assms(1-3)
    by (simp add: check_def Let_def conf assms(4) [symmetric] assms(8) [symmetric]
        assms(9) [symmetric] assms(10) [symmetric])
  then show ?thesis unfolding enf by simp
qed

definition one_live :: activity_store where
  "one_live = \<lparr>as_is_live = (\<lambda>i since. i = ''old''),
     as_live_for = (\<lambda>o' since. [\<lparr>ls_item_id = ''old'', ls_cpu_milli = 0, ls_memory_bytes = 100\<rparr>])\<rparr>"

definition small_gate :: admission_gate where
  "small_gate = \<lparr>ag_activity = Some one_live,
     ag_limits_for = (\<lambda>u. \<lparr>pu_count = 1, pu_cpu = 0, pu_memory = [], pu_disk = []\<rparr>),
     ag_owner_of = (\<lambda>i. Some ''ann''), ag_cost_of = None, ag_window_ms = 10, ag_now_ms = 100\<rparr>"

lemma no_memory_limit: "parse_size [] = Inr 0"
  by (simp add: parse_size_def strip_def NO_LIMIT_def)

theorem admission_exact_witness:
  "check small_gate ''new'' None
     = Inl (SandboxQuotaExceeded ''ann'' ''sandboxes'' (Some 2) 1
              [\<lparr>ls_item_id = ''old'', ls_cpu_milli = 0, ls_memory_bytes = 100\<rparr>])
   \<and> check small_gate ''old'' None = Inr ()"
proof -
  let ?l = "\<lparr>pu_count = 1, pu_cpu = 0, pu_memory = [], pu_disk = []\<rparr>"
  have z: "to_double 0 = Some 0" using to_double_int [of 0] by simp
  have s: "sane ?l" by (simp add: sane_def no_memory_limit)
  have g: "ag_activity small_gate = Some one_live" "ag_limits_for small_gate ''ann'' = ?l"
    "ag_owner_of small_gate i = Some ''ann''" "ag_cost_of small_gate = None"
    "ag_now_ms small_gate - ag_window_ms small_gate = 90"
    "as_live_for one_live ''ann'' 90 = [\<lparr>ls_item_id = ''old'', ls_cpu_milli = 0, ls_memory_bytes = 100\<rparr>]"
    "as_is_live one_live i 90 = (i = ''old'')" for i
    by (simp_all add: small_gate_def one_live_def)
  have "check small_gate i None =
     (if as_is_live one_live i 90 \<or> (pu_count ?l = 0 \<and> pu_cpu ?l = 0 \<and> (0::int) = 0) then Inr ()
      else if pu_count ?l \<noteq> 0 \<and> pu_count ?l
                < int (length [\<lparr>ls_item_id = ''old'', ls_cpu_milli = 0, ls_memory_bytes = 100\<rparr>]) + 1
      then Inl (SandboxQuotaExceeded ''ann'' ''sandboxes''
              (Some (of_nat (length [\<lparr>ls_item_id = ''old'', ls_cpu_milli = 0, ls_memory_bytes = 100\<rparr>] + 1)))
              (of_int (pu_count ?l))
              [\<lparr>ls_item_id = ''old'', ls_cpu_milli = 0, ls_memory_bytes = 100\<rparr>])
      else if pu_cpu ?l \<noteq> 0 \<and> exceeds (to_double (0 + 0)) (pu_cpu ?l)
      then Inl (SandboxQuotaExceeded ''ann'' ''cpu'' (to_double (0 + 0)) (pu_cpu ?l)
              [\<lparr>ls_item_id = ''old'', ls_cpu_milli = 0, ls_memory_bytes = 100\<rparr>])
      else if (0::int) \<noteq> 0 \<and> 0 < (100::int)
      then Inl (SandboxQuotaExceeded ''ann'' ''memory'' (Some (of_int 100)) (of_int 0)
              [\<lparr>ls_item_id = ''old'', ls_cpu_milli = 0, ls_memory_bytes = 100\<rparr>])
      else Inr ())" for i
    by (rule admission_exact [OF g(1) g(3) _ g(2) [symmetric] s _ _ g(5) [symmetric] g(6) [symmetric],
          where incoming = None and add_mem = 0])
       (simp_all add: no_memory_limit g z)
  then show ?thesis by (simp add: g)
qed




text \<open>
  the boundary "exactly reaching the limit is allowed" does not survive float addition for
  cpu: with 0.1 core held (100 milli-cores) and a limit of 0.3, a new sandbox of 0.2 cores is
  refused, because 0.1 + 0.2 is the next double above 0.3.
\<close>

theorem exact_cpu_fit_refused:
  "enforce ''ann'' [\<lparr>ls_item_id = ''a'', ls_cpu_milli = 100, ls_memory_bytes = 0\<rparr>]
      (Some \<lparr>cpu_cores = Some (3602879701896397 / 2 ^ 54), memory_bytes = None, disk_bytes = 0,
             cpu_max = 0, memory_max = 0\<rparr>)
      \<lparr>pu_count = 0, pu_cpu = 5404319552844595 / 2 ^ 54, pu_memory = [], pu_disk = []\<rparr>
    = Inl (SandboxQuotaExceeded ''ann'' ''cpu'' (Some (5404319552844596 / 2 ^ 54))
             (5404319552844595 / 2 ^ 54)
             [\<lparr>ls_item_id = ''a'', ls_cpu_milli = 100, ls_memory_bytes = 0\<rparr>])
   \<and> to_double (1 / 10) = Some (3602879701896397 / 2 ^ 55)
   \<and> to_double (2 / 10) = Some (3602879701896397 / 2 ^ 54)
   \<and> to_double (3 / 10) = Some (5404319552844595 / 2 ^ 54)"
proof -
  have tenth: "to_double (1 / 10) = Some (3602879701896397 / 2 ^ 55)"
    unfolding to_double_def
    by (subst if_not_P, simp, rule double_of_rat_eval [where n = 1 and d = 10 and a = 1 and b = 4
          and e = "- 56" and f = 7205759403792794])
       (auto simp: bit_length_unique [of 0 1, simplified] bit_length_unique [of 3 10, simplified] pow2_def
         intro!: half_even_cases(2) [of 7205759403792793, simplified])
  have fifth: "to_double (2 / 10) = Some (3602879701896397 / 2 ^ 54)"
    unfolding to_double_def
    by (subst if_not_P, simp, rule double_of_rat_eval [where n = 1 and d = 5 and a = 1 and b = 3
          and e = "- 55" and f = 7205759403792794])
       (auto simp: bit_length_unique [of 0 1, simplified] bit_length_unique [of 2 5, simplified] pow2_def
         intro!: half_even_cases(2) [of 7205759403792793, simplified])
  have co: "coprime (3 :: int) 10"
    by (simp add: coprime_iff_gcd_eq_1 gcd_non_0_int)
  have three: "to_double (3 / 10) = Some (5404319552844595 / 2 ^ 54)"
    unfolding to_double_def
    by (subst if_not_P, simp, rule double_of_rat_eval [where n = 3 and d = 10 and a = 2 and b = 4
          and e = "- 54" and f = 5404319552844595])
       (auto simp: co bit_length_unique [of 1 3, simplified] bit_length_unique [of 3 10, simplified] pow2_def
         intro!: half_even_cases(1) [of 5404319552844595, simplified])
  have total: "to_double (3602879701896397 / 2 ^ 55 + 3602879701896397 / 2 ^ 54)
      = Some (5404319552844596 / 2 ^ 54)"
  proof -
    have "coprime (10808639105689191::int) (2 ^ 55)"
      by (simp only: coprime_power_right_iff coprime_right_2_iff_odd) simp
    then show ?thesis
      unfolding to_double_def
      by (subst if_not_P, simp, intro double_of_rat_eval [where n = 10808639105689191 and d = "2 ^ 55"
            and a = 54 and b = 56 and e = "- 54" and f = 5404319552844596])
         (auto simp: bit_length_unique [of 53 10808639105689191, simplified]
           bit_length_unique [of 55 "2 ^ 55", simplified] pow2_def
           half_even_cases(3) [of _ 5404319552844595, simplified])
  qed
  have z: "as_float 0 = Inr 0" using as_float_int [of 0] by simp
  have t: "as_float (1 / 10) = Inr (3602879701896397 / 2 ^ 55)" by (simp only: as_float_def tenth option.case)
  have "(of_int (\<Sum>x\<leftarrow>[\<lparr>ls_item_id = ''a'', ls_cpu_milli = 100, ls_memory_bytes = 0\<rparr>]. ls_cpu_milli x) / 1000 :: rat)
      = 1 / 10" by simp
  note held = this
  show ?thesis
    unfolding enforce_def Let_def held t tenth fifth three
    by (simp add: z memory_limit_def no_memory_limit exceeds_simps
        total [simplified])
qed

end
