(* ===== verification/DiskGate.thy ===== *)
theory DiskGate
  imports QuotaLedgers
begin

text \<open>
  The two disk rules of a write: the workspace's own quota (\<open>files/facade.py\<close>) and its owner's
  total over all their workspaces (\<open>_person_disk_gate\<close> in \<open>api/app.py\<close>, \<open>ensure_room\<close> in
  \<open>api/publish_copy.py\<close>).  Measured sizes are arguments: how a workspace is measured (the live
  sandbox or the durable store) is not modelled.  A gate returns the ledger after it and its
  exception, if any, because it writes the ledger on one of its branches.
\<close>

section \<open>The refusals\<close>

datatype disk_error =
    WorkspaceFull int int int                \<comment> \<open>used, quota, attempted\<close>
  | UserDiskFull string int int int         \<comment> \<open>owner, used, quota, attempted\<close>
  | BadDiskLimit size_error
  | LedgerError rm_error

definition is_user_disk_full :: "disk_error \<Rightarrow> bool" where
  "is_user_disk_full e = (case e of UserDiskFull o' u q a \<Rightarrow> True | _ \<Rightarrow> False)"

section \<open>The person's total\<close>

definition record_or_fail ::
  "('s, workspace_disk) row_api \<Rightarrow> int \<Rightarrow> 's \<Rightarrow> string \<Rightarrow> string \<Rightarrow> int \<Rightarrow> 's \<times> disk_error option" where
  "record_or_fail api now s item owner n =
     (case record_disk api now s item owner n of
        Inl e \<Rightarrow> (s, Some (LedgerError e))
      | Inr s' \<Rightarrow> (s', None))"

definition person_disk_gate ::
  "('s, workspace_disk) row_api \<Rightarrow> int \<Rightarrow> (string \<Rightarrow> string) \<Rightarrow> (string \<Rightarrow> per_user)
     \<Rightarrow> string \<Rightarrow> int \<Rightarrow> int \<Rightarrow> bool \<Rightarrow> 's \<Rightarrow> 's \<times> disk_error option" where
  "person_disk_gate api now owner_of limits_for item new_size growth record s =
     (let owner = owner_of item in
      if owner = [] then (s, None)
      else
        (case parse_size (pu_disk (limits_for owner)) of
           Inl e \<Rightarrow> (s, Some (BadDiskLimit e))
         | Inr limit \<Rightarrow>
             if limit = 0 then
               (if record then record_or_fail api now s item owner new_size else (s, None))
             else
               let others = total_for api s owner item in
               if others + new_size > limit
               then (s, Some (UserDiskFull owner (others + new_size - growth) limit new_size))
               else if record then record_or_fail api now s item owner new_size
               else (s, None)))"

text \<open>\<open>ensure_room\<close>: the same rule for a copy that has no item yet.\<close>

definition ensure_room ::
  "('s, workspace_disk) row_api \<Rightarrow> 's \<Rightarrow> (string \<Rightarrow> int) option \<Rightarrow> string \<Rightarrow> int \<Rightarrow> string
     \<Rightarrow> disk_error option" where
  "ensure_room api s limit_of owner n_bytes exclude =
     (case limit_of of
        None \<Rightarrow> None
      | Some f \<Rightarrow>
          let limit = f owner in
          if limit = 0 then None
          else
            let used = total_for api s owner exclude in
            if used + n_bytes > limit then Some (UserDiskFull owner used limit n_bytes) else None)"

section \<open>The workspace facade\<close>

type_synonym 's person_gate = "string \<Rightarrow> int \<Rightarrow> int \<Rightarrow> bool \<Rightarrow> 's \<Rightarrow> 's \<times> disk_error option"

text \<open>
  \<open>_ensure_headroom\<close> on measured \<open>used\<close> and \<open>old\<close>: the ledger, and either the refusal or the
  size the path had (None when there is no rule to apply).
\<close>

definition ensure_headroom ::
  "int \<Rightarrow> 's person_gate option \<Rightarrow> string \<Rightarrow> int \<Rightarrow> int \<Rightarrow> int \<Rightarrow> 's
     \<Rightarrow> 's \<times> (disk_error + int option)" where
  "ensure_headroom quota gate item used old new_size s =
     (if quota = 0 \<and> Option.is_none gate then (s, Inr None)
      else
        let growth = new_size - old in
        if growth > 0 then
          (if quota \<noteq> 0 \<and> used + growth > quota
           then (s, Inl (WorkspaceFull used quota new_size))
           else
             (case gate of
                None \<Rightarrow> (s, Inr (Some old))
              | Some g \<Rightarrow>
                  (case g item (used + growth) growth True s of
                     (s', None) \<Rightarrow> (s', Inr (Some old))
                   | (s', Some e) \<Rightarrow> (s', Inl e))))
        else (s, Inr (Some old)))"

definition remaining_quota :: "int \<Rightarrow> int \<Rightarrow> int \<Rightarrow> int option" where
  "remaining_quota quota used old = (if quota = 0 then None else Some (max (quota - (used - old)) old))"

text \<open>
  \<open>room_refusals\<close>: every disk rule that more bytes would break, in order, or an exception the
  method does not catch.
\<close>

definition room_refusals ::
  "int \<Rightarrow> 's person_gate option \<Rightarrow> string \<Rightarrow> int \<Rightarrow> int \<Rightarrow> bool \<Rightarrow> 's
     \<Rightarrow> 's \<times> (disk_error + disk_error list)" where
  "room_refusals quota gate item used extra record s =
     (if extra \<le> 0 \<or> (quota = 0 \<and> Option.is_none gate) then (s, Inr [])
      else
        let refusals = (if quota \<noteq> 0 \<and> used + extra > quota
                        then [WorkspaceFull used quota extra] else [])
        in
        (case gate of
           None \<Rightarrow> (s, Inr refusals)
         | Some g \<Rightarrow>
             (case g item (used + extra) extra (record \<and> refusals = []) s of
                (s', None) \<Rightarrow> (s', Inr refusals)
              | (s', Some e) \<Rightarrow>
                  (s', if is_user_disk_full e then Inr (refusals @ [e]) else Inl e))))"

definition ensure_room_for ::
  "int \<Rightarrow> 's person_gate option \<Rightarrow> string \<Rightarrow> int \<Rightarrow> int \<Rightarrow> 's \<Rightarrow> 's \<times> disk_error option" where
  "ensure_room_for quota gate item used extra s =
     (case room_refusals quota gate item used extra True s of
        (s', Inl e) \<Rightarrow> (s', Some e)
      | (s', Inr []) \<Rightarrow> (s', None)
      | (s', Inr (e # es)) \<Rightarrow> (s', Some e))"

section \<open>Lemmas\<close>

text \<open>What a caller of a person gate relies on: asking changes nothing, and neither does a refusal.\<close>

locale quiet_gate =
  fixes gate :: "'s person_gate"
  assumes refusal_quiet: "gate item n d record s = (s', Some e) \<Longrightarrow> s' = s"
    and asking_quiet: "fst (gate item n d False s) = s"
    and asking_same: "snd (gate item n d False s) = None \<or> snd (gate item n d False s) = snd (gate item n d True s)"
begin

lemma room_refusals_quiet:
  assumes "room_refusals quota (Some gate) item used extra record s = (s', out)"
    and "out \<noteq> Inr []"
  shows "s' = s"
proof (cases "extra \<le> 0")
  case True
  with assms show ?thesis by (simp add: room_refusals_def)
next
  case False
  define rs where "rs = (if quota \<noteq> 0 \<and> used + extra > quota then [WorkspaceFull used quota extra] else [])"
  obtain s1 e1 where g: "gate item (used + extra) extra (record \<and> rs = []) s = (s1, e1)" by fastforce
  show ?thesis
  proof (cases e1)
    case None
    with g assms False have *: "s' = s1" "out = Inr rs"
      by (auto simp: room_refusals_def rs_def [symmetric])
    with assms(2) have "rs \<noteq> []" by auto
    with g asking_quiet [of item "used + extra" extra s] * show ?thesis by simp
  next
    case (Some e)
    with g refusal_quiet have "s1 = s" by blast
    with g Some assms False show ?thesis by (auto simp: room_refusals_def rs_def [symmetric])
  qed
qed

lemma room_refusals_asking:
  "fst (room_refusals quota (Some gate) item used extra False s) = s"
  using asking_quiet [of item "used + extra" extra s]
  by (auto simp: room_refusals_def Let_def split: prod.splits option.splits)

lemma ensure_room_for_quiet:
  assumes "ensure_room_for quota (Some gate) item used extra s = (s', Some e)"
  shows "s' = s"
  using assms room_refusals_quiet [of quota item used extra True s]
  by (auto simp: ensure_room_for_def split: prod.splits sum.splits list.splits)

lemma headroom_quiet:
  assumes "ensure_headroom quota (Some gate) item used old n s = (s', Inl e)"
  shows "s' = s"
  using assms refusal_quiet
  by (auto simp: ensure_headroom_def Let_def split: if_splits prod.splits option.splits)

end

lemma record_or_fail_quiet: "record_or_fail api now s item owner n = (s', Some e) \<Longrightarrow> s' = s"
  by (auto simp: record_or_fail_def split: sum.splits)

interpretation person: quiet_gate "person_disk_gate api now owner_of limits_for"
  for api :: "('s, workspace_disk) row_api" and now owner_of limits_for
proof (unfold_locales, goal_cases)
  case (1 item n d rc s s' e)
  then show ?case
    by (auto simp: person_disk_gate_def Let_def dest: record_or_fail_quiet split: if_splits sum.splits)
next
  case (2 item n d s)
  show ?case by (simp add: person_disk_gate_def Let_def split: sum.split)
next
  case (3 item n d s)
  show ?case by (simp add: person_disk_gate_def Let_def split: sum.split)
qed

context disk_table
begin

text \<open>Leaving one item out of the total takes away what its row counts for.\<close>

lemma total_excluding:
  assumes "keyed wd_item_id s" "rows s [] = None"
  shows "total_for api s who [] = total_for api s who x + owed who [] x (rows s x)"
proof -
  let ?A = "insert x {j. rows s j \<noteq> None}"
  have fin: "finite ?A" using finite_rows by simp
  have t: "total_for api s who y = (\<Sum>j\<in>?A. owed who y j (rows s j))" for y
    using assms(1) fin by (rule total_for_sum) auto
  have "(\<Sum>j\<in>?A. owed who x j (rows s j)) = (\<Sum>j\<in>?A - {x}. owed who x j (rows s j))"
    using fin by (subst sum.remove [of _ x]) (auto simp: owed_def split: option.splits)
  also have "\<dots> = (\<Sum>j\<in>?A - {x}. owed who [] j (rows s j))"
    using assms(2) by (intro sum.cong) (auto simp: owed_def split: option.splits)
  also have "\<dots> = (\<Sum>j\<in>?A. owed who [] j (rows s j)) - owed who [] x (rows s x)"
    using fin by (subst sum.remove [of _ x]) auto
  finally show ?thesis by (simp add: t)
qed

lemma person_gate_allows:
  assumes "keyed wd_item_id s" "rows s [] = None" "item \<noteq> []"
    and "person_disk_gate api now owner_of limits_for item n growth True s = (s', None)"
    and "owner_of item = owner" "owner \<noteq> []"
    and "parse_size (pu_disk (limits_for owner)) = Inr limit"
  shows "total_for api s' owner [] = total_for api s owner item + n"
    and "limit \<noteq> 0 \<Longrightarrow> total_for api s' owner [] \<le> limit"
proof -
  have rec: "record_disk api now s item owner n = Inr s'"
    and fits: "limit \<noteq> 0 \<Longrightarrow> total_for api s owner item + n \<le> limit"
    using assms(4-7)
    by (auto simp: person_disk_gate_def Let_def record_or_fail_def split: if_splits sum.splits)
  show total: "total_for api s' owner [] = total_for api s owner item + n"
    using record_total(2) [OF assms(1) rec, of owner "[]"] total_excluding [OF assms(1,2), of owner item]
      assms(3) by simp
  show "limit \<noteq> 0 \<Longrightarrow> total_for api s' owner [] \<le> limit" using fits total by simp
qed

end

section \<open>Properties\<close>

text \<open>
  the workspace rule is about growth and agrees with the number shown: without a personal
  rule, a write is accepted exactly when the new size is within the remaining quota of its
  path, and a write that does not grow the file is accepted whatever the rules and the state.
\<close>

theorem headroom_agrees_with_remaining:
  "((\<exists>r. snd (ensure_headroom quota None item used old n s) = Inr r)
      \<longleftrightarrow> (case remaining_quota quota used old of None \<Rightarrow> True | Some r \<Rightarrow> n \<le> r))
   \<and> (n \<le> old \<longrightarrow> (\<exists>r. ensure_headroom quota gate item used old n s = (s, Inr r)))"
  by (auto simp: ensure_headroom_def remaining_quota_def Let_def split: option.splits)

theorem headroom_agrees_with_remaining_witness:
  "\<exists>r. ensure_headroom 100 None ''i'' 140 60 50 s = (s, Inr r)"
  using headroom_agrees_with_remaining [of 100 "''i''" 140 60 50 s None] by simp

text \<open>
  nobody is charged for a write that is not happening: when either disk rule refuses a
  write, a copy or a turn, and whenever the rules are only asked, the ledger is as before.
\<close>

theorem refused_write_not_charged:
  assumes "gate = person_disk_gate api now owner_of limits_for"
  shows "(\<forall>s' e. ensure_headroom quota (Some gate) item used old n s = (s', Inl e) \<longrightarrow> s' = s)
     \<and> (\<forall>s' e. ensure_room_for quota (Some gate) item used extra s = (s', Some e) \<longrightarrow> s' = s)
     \<and> (\<forall>s' out. room_refusals quota (Some gate) item used extra record s = (s', out)
            \<longrightarrow> out \<noteq> Inr [] \<longrightarrow> s' = s)
     \<and> fst (room_refusals quota (Some gate) item used extra False s) = s"
  unfolding assms
  by (intro conjI allI impI)
     (erule person.headroom_quiet person.ensure_room_for_quiet, erule person.ensure_room_for_quiet,
      erule (1) person.room_refusals_quiet, rule person.room_refusals_asking)

theorem refused_write_not_charged_witness:
  "\<exists>e. ensure_room_for 10 (Some (person_disk_gate mem_store 0 (\<lambda>i. ''ann'')
      (\<lambda>u. \<lparr>pu_count = 0, pu_cpu = 0, pu_memory = [], pu_disk = []\<rparr>))) ''i'' 9 5 [] = ([], Some e)"
proof -
  let ?g = "person_disk_gate mem_store 0 (\<lambda>i. ''ann'')
      (\<lambda>u. \<lparr>pu_count = 0, pu_cpu = 0, pu_memory = [], pu_disk = []\<rparr>)"
  obtain s' e where "ensure_room_for 10 (Some ?g) ''i'' 9 5 [] = (s', Some e)"
    by (cases "?g ''i'' 14 5 False []"; cases "snd (?g ''i'' 14 5 False [])";
        cases "is_user_disk_full (the (snd (?g ''i'' 14 5 False [])))")
       (auto simp: ensure_room_for_def room_refusals_def Let_def)
  moreover from this have "s' = []"
    by (rule refused_write_not_charged [OF refl, THEN conjunct2, THEN conjunct1, rule_format])
  ultimately show ?thesis by simp
qed

text \<open>
  an allowed write leaves the person's total at what their other workspaces were last
  measured at plus the new size of this one, and within their limit if they have one; the gate
  refuses exactly the writes that would leave it above.
\<close>

theorem person_total_within_limit:
  fixes api :: "('s, workspace_disk) row_api"
  assumes "row_store api rows" "row_store.keyed rows wd_item_id s" "rows s [] = None" "item \<noteq> []"
    and "owner_of item = owner" "owner \<noteq> []"
    and "parse_size (pu_disk (limits_for owner)) = Inr limit"
  shows "(\<forall>s'. person_disk_gate api now owner_of limits_for item n growth True s = (s', None) \<longrightarrow>
            total_for api s' owner [] = total_for api s owner item + n
            \<and> (limit \<noteq> 0 \<longrightarrow> total_for api s' owner [] \<le> limit))
     \<and> (snd (person_disk_gate api now owner_of limits_for item n growth True s) = None
          \<longleftrightarrow> limit = 0 \<or> total_for api s owner item + n \<le> limit)"
proof -
  note t = disk_table.intro [OF assms(1)]
  obtain s1 where rec: "record_disk api now s item owner n = Inr s1"
    using row_store.upsert_total [OF assms(1)] by (metis record_disk_def)
  have "snd (person_disk_gate api now owner_of limits_for item n growth True s) = None
          \<longleftrightarrow> limit = 0 \<or> total_for api s owner item + n \<le> limit"
    using assms(5-7) rec by (auto simp: person_disk_gate_def Let_def record_or_fail_def)
  moreover have "total_for api s' owner [] = total_for api s owner item + n
            \<and> (limit \<noteq> 0 \<longrightarrow> total_for api s' owner [] \<le> limit)"
    if "person_disk_gate api now owner_of limits_for item n growth True s = (s', None)" for s'
    using disk_table.person_gate_allows [OF t assms(2-4) that assms(5-7)] by simp
  ultimately show ?thesis by blast
qed

lemma fifty_bytes: "parse_size (cps ''50'') = Inr 50"
  by (simp add: parse_size_def strip_def cps_def is_space_def NO_LIMIT_def match_size_def
      fold_full_width_def is_digit_def)

theorem person_total_within_limit_witness:
  "snd (person_disk_gate mem_store 0 (\<lambda>i. ''ann'')
      (\<lambda>u. \<lparr>pu_count = 0, pu_cpu = 0, pu_memory = [], pu_disk = cps ''50''\<rparr>) ''new'' 21 21 True
      [(''w'', \<lparr>wd_item_id = ''w'', wd_owner = ''ann'', wd_bytes_used = 30, wd_measured_at_ms = 1\<rparr>,
        0, False)]) \<noteq> None"
proof -
  let ?s = "[(''w'', \<lparr>wd_item_id = ''w'', wd_owner = ''ann'', wd_bytes_used = 30,
      wd_measured_at_ms = 1\<rparr>, 0 :: nat, False)]"
  let ?l = "\<lambda>u :: string. \<lparr>pu_count = 0, pu_cpu = 0, pu_memory = [], pu_disk = cps ''50''\<rparr>"
  have k: "mem.keyed wd_item_id ?s" by (simp add: mem.keyed_def)
  have t: "total_for mem_store ?s ''ann'' ''new'' = 30"
    by (simp add: total_for_def list_live_def mem_store_defs)
  have "snd (person_disk_gate mem_store 0 (\<lambda>i. ''ann'') ?l ''new'' 21 21 True ?s) = None
      \<longleftrightarrow> (50 :: int) = 0 \<or> total_for mem_store ?s ''ann'' ''new'' + 21 \<le> 50"
    by (rule conjunct2 [OF person_total_within_limit [OF mem.row_store_axioms k]])
       (simp_all add: fifty_bytes)
  with t show ?thesis by simp
qed

end
