(* ===== verification/TurnGate.thy ===== *)
theory TurnGate
  imports QuotaAdmission DiskGate
begin

text \<open>
  \<open>api/turn_gate.py\<close>: the one place that decides whether a turn may start and says why.  Every
  rule is asked even once one has refused, the environment leads, and the sandboxes a person
  holds are named to that person only.
\<close>

section \<open>Refusals and their bodies\<close>

datatype refusal =
    SandboxRefusal admission_error
  | DiskRefusal disk_error

text \<open>\<open>_CODES\<close>; None is the KeyError of an exception that is no refusal.\<close>

definition quota_code :: "refusal \<Rightarrow> string option" where
  "quota_code x =
     (case x of
        SandboxRefusal (SandboxQuotaExceeded o' d u l h) \<Rightarrow> Some ''sandbox_quota_exceeded''
      | DiskRefusal (WorkspaceFull u q a) \<Rightarrow> Some ''workspace_quota_exceeded''
      | DiskRefusal (UserDiskFull o' u q a) \<Rightarrow> Some ''user_quota_exceeded''
      | _ \<Rightarrow> None)"

record held_row =
  hr_item_id :: string
  hr_title :: string
  hr_cpu_cores :: "rat option"
  hr_memory_bytes :: int

datatype body =
    SandboxBody string string "rat option" rat "held_row list"  \<comment> \<open>error, dimension, used, limit, holding\<close>
  | DiskBody string int int                                     \<comment> \<open>error, used, quota\<close>

definition quota_body ::
  "refusal \<Rightarrow> string option \<Rightarrow> (string list \<Rightarrow> (string, string) dict) option \<Rightarrow> body option" where
  "quota_body x viewer titles_of =
     (case x of
        SandboxRefusal (SandboxQuotaExceeded owner dimension used limit holding) \<Rightarrow>
          (let held = (if viewer = Some owner then holding else []);
               titles = (case titles_of of
                           None \<Rightarrow> []
                         | Some f \<Rightarrow> if held = [] then [] else f (map ls_item_id held))
           in Some (SandboxBody ''sandbox_quota_exceeded'' dimension used limit
                (map (\<lambda>h. \<lparr>hr_item_id = ls_item_id h,
                           hr_title = (case dict_get titles (ls_item_id h) of
                                         None \<Rightarrow> [] | Some t \<Rightarrow> t),
                           hr_cpu_cores = to_double (of_int (ls_cpu_milli h) / 1000),
                           hr_memory_bytes = ls_memory_bytes h\<rparr>) held)))
      | DiskRefusal (WorkspaceFull used quota attempted) \<Rightarrow>
          Some (DiskBody ''workspace_quota_exceeded'' used quota)
      | DiskRefusal (UserDiskFull owner used quota attempted) \<Rightarrow>
          Some (DiskBody ''user_quota_exceeded'' used quota)
      | _ \<Rightarrow> None)"

text \<open>\<open>TurnRefused.body\<close>: the first refusal's body and the codes of the others.\<close>

definition refused_body ::
  "refusal \<Rightarrow> refusal list \<Rightarrow> string option \<Rightarrow> (string list \<Rightarrow> (string, string) dict) option
     \<Rightarrow> (body \<times> string list) option" where
  "refused_body primary others viewer titles_of =
     (case quota_body primary viewer titles_of of
        None \<Rightarrow> None
      | Some b \<Rightarrow>
          if list_all (\<lambda>e. quota_code e \<noteq> None) others
          then Some (b, map (\<lambda>e. the (quota_code e)) others) else None)"

section \<open>admit_turn\<close>

datatype turn_outcome =
    Admitted
  | RefusedBy refusal
  | TurnRefused refusal "refusal list"
  | Crashed refusal                      \<comment> \<open>an exception that is no refusal\<close>

fun raise_all :: "refusal list \<Rightarrow> turn_outcome" where
  "raise_all [] = Admitted"
| "raise_all [x] = RefusedBy x"
| "raise_all (x # y # ys) = TurnRefused x (y # ys)"

definition is_sandbox_refusal :: "admission_error \<Rightarrow> bool" where
  "is_sandbox_refusal e = (case e of SandboxQuotaExceeded o' d u l h \<Rightarrow> True | _ \<Rightarrow> False)"

definition admit_turn ::
  "admission_gate option \<Rightarrow> int \<Rightarrow> 's person_gate option \<Rightarrow> string \<Rightarrow> int \<Rightarrow> 's \<Rightarrow> 's \<times> turn_outcome"
where
  "admit_turn admission quota gate item used s =
     (let env = (case admission of None \<Rightarrow> Inr () | Some g \<Rightarrow> check g item None);
          disks = (\<lambda>refusals.
            (case room_refusals quota gate item used 1 False s of
               (s', Inl e) \<Rightarrow> (s', Crashed (DiskRefusal e))
             | (s', Inr ds) \<Rightarrow> (s', raise_all (refusals @ map DiskRefusal ds))))
      in
      (case env of
         Inr _ \<Rightarrow> disks []
       | Inl e \<Rightarrow>
           if is_sandbox_refusal e then disks [SandboxRefusal e]
           else (s, Crashed (SandboxRefusal e))))"

section \<open>Properties\<close>

text \<open>
  a turn is refused with every rule that binds, in the order environment, workspace,
  person, and admitted exactly when none does; asking charges nobody, whatever the outcome.
\<close>

theorem turn_refused_by_every_rule:
  assumes "env = check g item None" "gate = person_disk_gate api now owner_of limits_for"
    and "\<forall>e. env = Inl e \<longrightarrow> is_sandbox_refusal e"
    and "person = snd (gate item (used + 1) 1 False s)"
    and "\<forall>e. person = Some e \<longrightarrow> is_user_disk_full e"
  shows "admit_turn (Some g) quota (Some gate) item used s
     = (s, raise_all ((case env of Inl e \<Rightarrow> [SandboxRefusal e] | Inr _ \<Rightarrow> [])
            @ (if quota \<noteq> 0 \<and> used + 1 > quota then [DiskRefusal (WorkspaceFull used quota 1)] else [])
            @ (case person of Some e \<Rightarrow> [DiskRefusal e] | None \<Rightarrow> [])))"
proof -
  have quiet: "fst (gate item (used + 1) 1 False s) = s"
    unfolding assms(2) by (rule person.asking_quiet)
  then have g: "gate item (used + 1) 1 False s = (s, person)"
    using assms(4) by (metis prod.collapse)
  have room: "room_refusals quota (Some gate) item used 1 False s
      = (s, Inr ((if quota \<noteq> 0 \<and> used + 1 > quota then [WorkspaceFull used quota 1] else [])
            @ (case person of Some e \<Rightarrow> [e] | None \<Rightarrow> [])))"
    using g assms(5) by (simp add: room_refusals_def split: option.split)
  show ?thesis
    using assms(3)
    unfolding admit_turn_def Let_def room option.case assms(1) [symmetric]
    by (simp split: sum.splits option.splits)
qed

theorem turn_refused_by_every_rule_witness:
  "admit_turn (Some small_gate) 100 (Some (person_disk_gate mem_store 0 (\<lambda>i. ''ann'')
       (\<lambda>u. \<lparr>pu_count = 0, pu_cpu = 0, pu_memory = [], pu_disk = []\<rparr>))) ''old'' 100 []
     = ([], RefusedBy (DiskRefusal (WorkspaceFull 100 100 1)))"
proof -
  let ?l = "\<lambda>u :: string. \<lparr>pu_count = 0, pu_cpu = 0, pu_memory = [], pu_disk = []\<rparr>"
  have env: "check small_gate ''old'' None = Inr ()"
    by (simp add: check_def small_gate_def one_live_def configured_any_def)
  have p: "person_disk_gate mem_store 0 (\<lambda>i. ''ann'') ?l ''old'' (100 + 1) 1 False [] = ([], None)"
    by (simp add: person_disk_gate_def no_memory_limit)
  show ?thesis
    by (subst turn_refused_by_every_rule [OF env [symmetric] refl _ refl]) (simp_all add: p [simplified])
qed

text \<open>
  what somebody holds is told to that person alone: the body of a sandbox refusal lists,
  for its owner, every held sandbox in order, named only where the title lookup names it, and
  for any other reader (or an unknown one) nothing at all; no title lookup is made for them.
\<close>

theorem held_sandboxes_private:
  "(\<exists>rows. quota_body (SandboxRefusal (SandboxQuotaExceeded owner d u l holding)) viewer titles_of
        = Some (SandboxBody ''sandbox_quota_exceeded'' d u l rows)
      \<and> map hr_item_id rows = (if viewer = Some owner then map ls_item_id holding else [])
      \<and> (titles_of = None \<longrightarrow> list_all (\<lambda>r. hr_title r = []) rows))
   \<and> (viewer \<noteq> Some owner \<longrightarrow>
        quota_body (SandboxRefusal (SandboxQuotaExceeded owner d u l holding)) viewer titles_of
        = quota_body (SandboxRefusal (SandboxQuotaExceeded owner d u l [])) None None)"
  by (auto simp: quota_body_def Let_def o_def list_all_iff)

theorem held_sandboxes_private_witness:
  "quota_body (SandboxRefusal (SandboxQuotaExceeded ''ann'' ''cpu'' None 1
        [\<lparr>ls_item_id = ''i'', ls_cpu_milli = 0, ls_memory_bytes = 0\<rparr>])) (Some ''bob'') None
    = quota_body (SandboxRefusal (SandboxQuotaExceeded ''ann'' ''cpu'' None 1 [])) None None"
  by (rule held_sandboxes_private [THEN conjunct2, rule_format]) simp

text \<open>
  every refusal a turn can end with has a body and a code, so the answer to the person is
  always produced: the body of the first refusal and the codes of all the others in order.
\<close>

theorem every_refusal_has_a_body:
  assumes "admit_turn (Some g) quota (Some gate) item used s = (s', TurnRefused x xs)"
  shows "\<exists>b. refused_body x xs viewer titles_of = Some (b, map (\<lambda>e. the (quota_code e)) xs)
     \<and> list_all (\<lambda>e. quota_code e \<noteq> None) (x # xs)"
proof -
  have room: "list_all (\<lambda>e. quota_code (DiskRefusal e) \<noteq> None) ds"
    if "room_refusals quota (Some gate) item used 1 False s = (s', Inr ds)" for s' ds
    using that
    by (auto simp: room_refusals_def quota_code_def is_user_disk_full_def Let_def
        split: if_splits prod.splits option.splits disk_error.splits)
  have body: "quota_code y \<noteq> None \<Longrightarrow> quota_body y viewer titles_of \<noteq> None" for y
    by (auto simp: quota_code_def quota_body_def Let_def
        split: refusal.splits admission_error.splits disk_error.splits)
  have all: "list_all (\<lambda>e. quota_code e \<noteq> None) rs"
    if "raise_all rs = TurnRefused x xs" "list_all (\<lambda>e. quota_code e \<noteq> None) rs" for rs
    using that by simp
  have shape: "rs = x # xs" if "raise_all rs = TurnRefused x xs" for rs
    using that by (cases rs rule: raise_all.cases) auto
  obtain rs where "raise_all rs = TurnRefused x xs" "list_all (\<lambda>e. quota_code e \<noteq> None) rs"
  proof (cases "check g item None")
    case (Inr u)
    with assms obtain ds where "room_refusals quota (Some gate) item used 1 False s = (s', Inr ds)"
        "raise_all (map DiskRefusal ds) = TurnRefused x xs"
      by (auto simp: admit_turn_def Let_def split: prod.splits sum.splits)
    with room that [of "map DiskRefusal ds"] show ?thesis by (simp add: list_all_iff)
  next
    case (Inl e)
    with assms obtain ds where "room_refusals quota (Some gate) item used 1 False s = (s', Inr ds)"
        "raise_all (SandboxRefusal e # map DiskRefusal ds) = TurnRefused x xs" "is_sandbox_refusal e"
      by (auto simp: admit_turn_def Let_def split: prod.splits sum.splits if_splits)
    moreover from this(3) have "quota_code (SandboxRefusal e) \<noteq> None"
      by (simp add: is_sandbox_refusal_def quota_code_def split: admission_error.splits)
    ultimately show ?thesis
      using room that [of "SandboxRefusal e # map DiskRefusal ds"] by (simp add: list_all_iff)
  qed
  with shape have codes: "list_all (\<lambda>e. quota_code e \<noteq> None) (x # xs)" by metis
  with body [of x] show ?thesis by (auto simp: refused_body_def)
qed

theorem every_refusal_has_a_body_witness:
  "\<exists>b. refused_body (DiskRefusal (WorkspaceFull 60 60 1)) [DiskRefusal (UserDiskFull ''ann'' 60 50 61)]
        None None = Some (b, [''user_quota_exceeded''])"
proof -
  let ?g = "small_gate\<lparr>ag_activity := None\<rparr>"
  let ?gate = "person_disk_gate mem_store 0 (\<lambda>i. ''ann'')
       (\<lambda>u. \<lparr>pu_count = 0, pu_cpu = 0, pu_memory = [], pu_disk = cps ''50''\<rparr>)"
  have "admit_turn (Some ?g) 60 (Some ?gate) ''w'' 60 []
      = ([], TurnRefused (DiskRefusal (WorkspaceFull 60 60 1)) [DiskRefusal (UserDiskFull ''ann'' 60 50 61)])"
    by (simp add: admit_turn_def check_def room_refusals_def person_disk_gate_def fifty_bytes
        total_for_def list_live_def mem_store_defs is_user_disk_full_def)
  from every_refusal_has_a_body [OF this, of None None] show ?thesis
    by (auto simp: quota_code_def)
qed

end
