(* ===== verification/FailoverErrors.thy ===== *)
theory FailoverErrors
  imports WsPrelude
begin

text \<open>
  What a failed model call says: \<open>failover/rate_limit.py\<close>, \<open>failover/classify.py\<close>, the
  transience test of \<open>failover/retry.py\<close> and \<open>is_context_overflow\<close> of \<open>context_budget.py\<close>.

  An exception is an object of a heap (a list, addressed by index), because \<open>__cause__\<close> and
  \<open>__context__\<close> are pointers that may form a cycle, which the chain walk must survive.  Of each
  object the model keeps what the code inspects: its class name, the library classes it is an
  instance of, its status code, its text, and its Retry-After header as Python's \<open>float\<close> and
  \<open>parsedate_to_datetime\<close> read it.
\<close>

section \<open>Exceptions\<close>

datatype base_class =
    TimeoutErrorC | ConnectionErrorC | AllProvidersFailedC | ModelCallFailedC
  | HttpxTransport | HttpxTimeout | HttpxUnsupportedProtocol | HttpxLocalProtocol

text \<open>A header value: a finite number of seconds, an absolute date (epoch seconds), or neither.\<close>

datatype retry_header = DelaySeconds rat | HttpDate rat | UnreadableHeader

record exn =
  ex_name :: string
  ex_bases :: "base_class set"
  ex_status :: "int option"
  ex_text :: string
  ex_retry_after :: "retry_header option"
  ex_cause :: "nat option"
  ex_context :: "nat option"
  ex_suppress_context :: bool
  ex_attempts :: int     \<comment> \<open>the numbers of a \<open>ModelCallFailed\<close>\<close>
  ex_waited :: rat

type_synonym heap = "exn list"
type_synonym error = "heap \<times> nat"

lemma seen_shrinks:
  assumes "i \<notin> set seen" "i < length (h :: heap)"
  shows "card ({..<length h} - set (i # seen)) < card ({..<length h} - set seen)"
proof (rule psubset_card_mono)
  show "{..<length h} - set (i # seen) \<subset> {..<length h} - set seen" using assms by auto
qed simp

text \<open>
  \<open>_chain\<close>: the object and everything under it, each object once.  A pointer outside the heap
  does not occur in Python; the walk ends there.
\<close>

function chain_from :: "heap \<Rightarrow> nat option \<Rightarrow> nat list \<Rightarrow> exn list" where
  "chain_from h cur seen =
     (case cur of
        None \<Rightarrow> []
      | Some i \<Rightarrow>
          if i \<in> set seen \<or> length h \<le> i then []
          else (h ! i) # chain_from h
                 (case ex_cause (h ! i) of Some c \<Rightarrow> Some c | None \<Rightarrow> ex_context (h ! i)) (i # seen))"
  by pat_completeness auto
termination
proof (relation "measure (\<lambda>(h, cur, seen). card ({..<length h} - set seen))", goal_cases)
  case (2 h cur seen i)
  then show ?case using seen_shrinks [of i seen h] by simp
qed simp

declare chain_from.simps [simp del]

definition chain :: "error \<Rightarrow> exn list" where
  "chain e = chain_from (fst e) (Some (snd e)) []"

text \<open>\<open>_shown_chain\<close>: the links a reader may see; it stops at \<open>raise ... from None\<close>.\<close>

function shown_from :: "heap \<Rightarrow> nat option \<Rightarrow> nat list \<Rightarrow> exn list" where
  "shown_from h cur seen =
     (case cur of
        None \<Rightarrow> []
      | Some i \<Rightarrow>
          if i \<in> set seen \<or> length h \<le> i then []
          else (h ! i) # shown_from h
                 (case ex_cause (h ! i) of
                    Some c \<Rightarrow> Some c
                  | None \<Rightarrow> if ex_suppress_context (h ! i) then None else ex_context (h ! i)) (i # seen))"
  by pat_completeness auto
termination
proof (relation "measure (\<lambda>(h, cur, seen). card ({..<length h} - set seen))", goal_cases)
  case (2 h cur seen i)
  then show ?case using seen_shrinks [of i seen h] by simp
qed simp

declare shown_from.simps [simp del]

definition shown_chain :: "error \<Rightarrow> exn list" where
  "shown_chain e = shown_from (fst e) (Some (snd e)) []"

definition raw_error_text :: "error \<Rightarrow> (string \<times> string) list" where
  "raw_error_text e = map (\<lambda>l. (ex_name l, ex_text l)) (shown_chain e)"

section \<open>Rate limits\<close>

definition backoff_s :: "nat \<Rightarrow> rat" where
  "backoff_s attempt = min (2 ^ (attempt - 1)) 16"

definition is_rate_limited :: "error \<Rightarrow> bool" where
  "is_rate_limited e = list_ex (\<lambda>l. ex_status l = Some 429) (chain e)"

definition parse_retry_after :: "retry_header \<Rightarrow> rat \<Rightarrow> rat option" where
  "parse_retry_after raw now =
     (case raw of
        DelaySeconds x \<Rightarrow> Some (max 0 x)
      | HttpDate t \<Rightarrow> Some (max 0 (t - now))
      | UnreadableHeader \<Rightarrow> None)"

fun first_retry_after :: "rat \<Rightarrow> exn list \<Rightarrow> rat option" where
  "first_retry_after now [] = None"
| "first_retry_after now (l # ls) =
     (case ex_retry_after l of
        Some raw \<Rightarrow> parse_retry_after raw now
      | None \<Rightarrow> first_retry_after now ls)"

definition retry_after_s :: "rat \<Rightarrow> error \<Rightarrow> rat option" where
  "retry_after_s now e = first_retry_after now (chain e)"

definition rate_limit_wait_s :: "rat \<Rightarrow> error \<Rightarrow> nat \<Rightarrow> rat" where
  "rate_limit_wait_s now e attempt =
     (let floor = backoff_s attempt in
      case retry_after_s now e of Some stated \<Rightarrow> max stated floor | None \<Rightarrow> floor)"

definition park_for :: "rat \<Rightarrow> rat \<Rightarrow> error \<Rightarrow> rat" where
  "park_for now cooldown e =
     (if is_rate_limited e
      then (case retry_after_s now e of Some stated \<Rightarrow> stated | None \<Rightarrow> cooldown)
      else cooldown)"

definition retry_pause :: "rat \<Rightarrow> error \<Rightarrow> rat" where
  "retry_pause now e =
     (if is_rate_limited e
      then (case retry_after_s now e of Some stated \<Rightarrow> stated | None \<Rightarrow> 0)
      else 0)"

section \<open>Transience\<close>

definition TRANSIENT_STATUS :: "int list" where
  "TRANSIENT_STATUS = [408, 409, 429, 500, 502, 503, 504]"

definition TRANSIENT_NAMES :: "string list" where
  "TRANSIENT_NAMES = [''APIConnectionError'', ''APITimeoutError'', ''Timeout'',
     ''ServiceUnavailableError'']"

definition is_transient :: "exn \<Rightarrow> bool" where
  "is_transient l \<longleftrightarrow>
     (case ex_status l of Some c \<Rightarrow> c \<in> set TRANSIENT_STATUS | None \<Rightarrow> False)
     \<or> TimeoutErrorC \<in> ex_bases l \<or> ConnectionErrorC \<in> ex_bases l
     \<or> ex_name l \<in> set TRANSIENT_NAMES"

section \<open>The kind of a failure\<close>

datatype error_kind =
    RateLimited | AllBusy | Auth | TimedOut | Connection | ProviderError | ContextOverflow
  | BadRequest | Unknown

fun has_infix :: "string \<Rightarrow> string \<Rightarrow> bool" where
  "has_infix p [] = (p = [])"
| "has_infix p (c # s) = (starts_with p (c # s) \<or> has_infix p s)"

definition OVERFLOW_MARKERS :: "string list" where
  "OVERFLOW_MARKERS = [''maximum context length'', ''context_length_exceeded'',
     ''prompt is too long'', ''too many tokens'', ''reduce the length'', ''max_model_len'']"

definition is_context_overflow :: "string \<Rightarrow> bool" where
  "is_context_overflow message = list_ex (\<lambda>m. has_infix m (lower message)) OVERFLOW_MARKERS"

definition TIMEOUT_NAMES :: "string list" where
  "TIMEOUT_NAMES = [''Timeout'', ''APITimeoutError'', ''ReadTimeout'', ''ConnectTimeout'']"

definition CONNECTION_NAMES :: "string list" where
  "CONNECTION_NAMES = [''APIConnectionError'', ''ConnectError'', ''RemoteProtocolError'']"

definition link_kind :: "exn \<Rightarrow> error_kind" where
  "link_kind l =
     (if ex_name l = ''ContextWindowExceededError'' \<or> is_context_overflow (ex_text l)
      then ContextOverflow
      else if TimeoutErrorC \<in> ex_bases l \<or> ex_name l \<in> set TIMEOUT_NAMES then TimedOut
      else if ConnectionErrorC \<in> ex_bases l \<or> ex_name l \<in> set CONNECTION_NAMES then Connection
      else
        (case ex_status l of
           None \<Rightarrow> Unknown
         | Some code \<Rightarrow>
             if code = 401 \<or> code = 403 then Auth
             else if code = 408 then TimedOut
             else if 500 \<le> code then ProviderError
             else if 400 \<le> code \<and> code < 500 then BadRequest
             else Unknown))"

fun first_telling :: "error_kind list \<Rightarrow> error_kind option" where
  "first_telling [] = None"
| "first_telling (k # ks) = (if k \<noteq> Connection \<and> k \<noteq> Unknown then Some k else first_telling ks)"

definition classify_error :: "error \<Rightarrow> error_kind" where
  "classify_error e =
     (let links = chain e; transport = filter (\<lambda>l. HttpxTransport \<in> ex_bases l) links;
          kinds = map link_kind links
      in
      if is_rate_limited e then RateLimited
      else if list_ex (\<lambda>l. AllProvidersFailedC \<in> ex_bases l) links then AllBusy
      else if list_ex (\<lambda>l. HttpxUnsupportedProtocol \<in> ex_bases l \<or> HttpxLocalProtocol \<in> ex_bases l) links
      then BadRequest
      else if transport \<noteq> []
      then (if list_ex (\<lambda>l. HttpxTimeout \<in> ex_bases l) transport then TimedOut else Connection)
      else (case first_telling kinds of
              Some k \<Rightarrow> k
            | None \<Rightarrow> if Connection \<in> set kinds then Connection else Unknown))"

text \<open>\<open>error_params\<close>: the seconds waited out (Python's \<open>round\<close>, half to even) or the attempts.\<close>

datatype error_number = WaitedS int | Attempts int

definition py_round :: "rat \<Rightarrow> int" where
  "py_round x =
     (let f = \<lfloor>x\<rfloor>; d = x - of_int f in
      if d < 1 / 2 then f else if 1 / 2 < d then f + 1 else if even f then f else f + 1)"

fun first_give_up :: "bool \<Rightarrow> exn list \<Rightarrow> error_number option" where
  "first_give_up limited [] = None"
| "first_give_up limited (l # ls) =
     (if ModelCallFailedC \<in> ex_bases l
      then Some (if limited then WaitedS (py_round (ex_waited l)) else Attempts (ex_attempts l))
      else first_give_up limited ls)"

definition error_params :: "error \<Rightarrow> error_number option" where
  "error_params e = first_give_up (is_rate_limited e) (chain e)"

section \<open>The walk misses nothing\<close>

definition next_link :: "heap \<Rightarrow> nat \<Rightarrow> nat option" where
  "next_link h i = (case ex_cause (h ! i) of Some c \<Rightarrow> Some c | None \<Rightarrow> ex_context (h ! i))"

text \<open>The objects under \<open>i\<close>: \<open>i\<close> itself and whatever its cause (or else its context) leads to.\<close>

inductive under :: "heap \<Rightarrow> nat \<Rightarrow> nat \<Rightarrow> bool" for h where
  self: "under h i i"
| down: "next_link h i = Some j \<Longrightarrow> under h j k \<Longrightarrow> under h i k"

definition heap_ok :: "heap \<Rightarrow> bool" where
  "heap_ok h \<longleftrightarrow> (\<forall>i < length h. \<forall>j. next_link h i = Some j \<longrightarrow> j < length h)"

fun ids_from :: "nat \<Rightarrow> heap \<Rightarrow> nat option \<Rightarrow> nat list \<Rightarrow> nat list" where
  "ids_from 0 h cur seen = []"
| "ids_from (Suc n) h cur seen =
     (case cur of
        None \<Rightarrow> []
      | Some i \<Rightarrow> if i \<in> set seen \<or> length h \<le> i then []
                 else i # ids_from n h (next_link h i) (i # seen))"

lemma chain_from_ids:
  "card ({..<length h} - set seen) < n \<Longrightarrow>
     chain_from h cur seen = map (\<lambda>i. h ! i) (ids_from n h cur seen)"
proof (induction h cur seen arbitrary: n rule: chain_from.induct)
  case (1 h cur seen)
  then obtain m where n: "n = Suc m" by (cases n) auto
  show ?case
  proof (cases "\<exists>i. cur = Some i \<and> i \<notin> set seen \<and> i < length h")
    case False
    then show ?thesis
      by (subst chain_from.simps) (auto simp: n split: option.splits)
  next
    case True
    then obtain i where i: "cur = Some i" "i \<notin> set seen" "i < length h" by blast
    have "card ({..<length h} - set (i # seen)) < m"
      using 1(2) n seen_shrinks [OF i(2,3)] by simp
    with 1(1) [of i m] i show ?thesis
      by (subst chain_from.simps) (simp add: n next_link_def)
  qed
qed

lemma ids_from_distinct:
  "distinct (ids_from n h cur seen) \<and> set (ids_from n h cur seen) \<inter> set seen = {}"
  by (induction n h cur seen rule: ids_from.induct) (auto split: option.splits)

lemma ids_from_under: "j \<in> set (ids_from n h (Some i) seen) \<Longrightarrow> under h i j"
proof (induction n arbitrary: i seen)
  case (Suc n)
  show ?case
  proof (cases "j = i")
    case False
    with Suc(2) obtain k where "next_link h i = Some k" "j \<in> set (ids_from n h (Some k) (i # seen))"
      by (cases "next_link h i"; cases n) (auto split: if_splits)
    with Suc(1) show ?thesis by (blast intro: under.down)
  qed (simp add: under.self)
qed simp

text \<open>The objects already seen lead nowhere else than to the current one.\<close>

lemma ids_from_complete:
  assumes "heap_ok h" "under h i j" "i < length h"
    and "\<forall>k \<in> set seen. \<forall>l. next_link h k = Some l \<longrightarrow> l \<in> insert i (set seen)"
    and "card ({..<length h} - set seen) < n"
  shows "j \<in> set (ids_from n h (Some i) seen) \<union> set seen"
  using assms
proof (induction n arbitrary: i seen)
  case 0
  then show ?case by simp
next
  case (Suc n)
  show ?case
  proof (cases "i \<in> set seen")
    case True
    have "k \<in> set seen \<longrightarrow> j \<in> set seen" if "under h k j" for k
      using that by (induction rule: under.induct) (use Suc(5) True in auto)
    with True Suc(3) show ?thesis by blast
  next
    case False
    have smaller: "card ({..<length h} - set (i # seen)) < n"
      using Suc(6) seen_shrinks [OF False Suc(4)] by simp
    from Suc(3) show ?thesis
    proof (cases rule: under.cases)
      case self
      then show ?thesis using False Suc(4) by simp
    next
      case (down k)
      have "k < length h" using Suc(2,4) down(1) by (auto simp: heap_ok_def)
      moreover have "\<forall>m \<in> set (i # seen). \<forall>l. next_link h m = Some l \<longrightarrow> l \<in> insert k (set (i # seen))"
        using Suc(5) down(1) by auto
      ultimately have "j \<in> set (ids_from n h (Some k) (i # seen)) \<union> set (i # seen)"
        using Suc(1) [OF Suc(2) down(2)] smaller by blast
      with down(1) False Suc(4) show ?thesis by auto
    qed
  qed
qed

lemma chain_ids:
  "length h < n \<Longrightarrow> chain (h, i) = map (\<lambda>j. h ! j) (ids_from n h (Some i) [])"
  unfolding chain_def by (simp only: fst_conv snd_conv) (rule chain_from_ids, simp)

lemma set_chain:
  assumes "heap_ok h" "i < length h"
  shows "set (chain (h, i)) = {h ! j | j. under h i j}"
proof -
  obtain n where n: "length h < n" by blast
  have "j \<in> set (ids_from n h (Some i) []) \<longleftrightarrow> under h i j" for j
    using ids_from_complete [OF assms(1) _ assms(2), of j "[]" n] n
      ids_from_under [of j n h i "[]"] by auto
  then show ?thesis unfolding chain_ids [OF n] by auto
qed

lemma shown_prefix: "\<exists>rest. chain_from h cur seen = shown_from h cur seen @ rest"
proof (induction h cur seen rule: shown_from.induct)
  case (1 h cur seen)
  show ?case
  proof (cases "\<exists>i. cur = Some i \<and> i \<notin> set seen \<and> i < length h")
    case False
    then show ?thesis
      by (subst chain_from.simps, subst shown_from.simps) (auto split: option.splits)
  next
    case True
    then obtain i where i: "cur = Some i" "i \<notin> set seen" "i < length h" by blast
    show ?thesis
    proof (cases "ex_cause (h ! i) = None \<and> ex_suppress_context (h ! i)")
      case True
      then show ?thesis
        using i by (subst chain_from.simps, subst shown_from.simps) (simp add: shown_from.simps [of h None])
    next
      case False
      then have "(case ex_cause (h ! i) of Some c \<Rightarrow> Some c
            | None \<Rightarrow> if ex_suppress_context (h ! i) then None else ex_context (h ! i))
          = (case ex_cause (h ! i) of Some c \<Rightarrow> Some c | None \<Rightarrow> ex_context (h ! i))"
        by (auto split: option.splits)
      with 1 i show ?thesis
        by (subst chain_from.simps, subst shown_from.simps) auto
    qed
  qed
qed

section \<open>Properties\<close>

text \<open>
  the walk under an exception ends on every heap, cyclic ones included, visits each object
  once, and reaches exactly the objects under it; so a 429 anywhere under a wrapper makes the
  failure a rate limit, and nothing else does.
\<close>

theorem chain_walk_exact:
  assumes "heap_ok h" "i < length h"
  shows "set (chain (h, i)) = {h ! j | j. under h i j}
     \<and> length (chain (h, i)) \<le> length h
     \<and> (classify_error (h, i) = RateLimited \<longleftrightarrow> (\<exists>j. under h i j \<and> ex_status (h ! j) = Some 429))"
proof -
  obtain n where n: "length h < n" by blast
  let ?ids = "ids_from n h (Some i) []"
  have bound: "j \<in> set (ids_from n h cur seen) \<Longrightarrow> j < length h" for j n cur seen
    by (induction n h cur seen rule: ids_from.induct) (auto split: option.splits if_splits)
  have "length ?ids = card (set ?ids)"
    using ids_from_distinct by (metis distinct_card)
  also have "\<dots> \<le> card {..<length h}" by (intro card_mono) (auto dest: bound)
  finally have len: "length (chain (h, i)) \<le> length h" by (simp add: chain_ids [OF n])
  have limited: "is_rate_limited (h, i) \<longleftrightarrow> (\<exists>j. under h i j \<and> ex_status (h ! j) = Some 429)"
    by (auto simp: is_rate_limited_def list_ex_iff set_chain [OF assms])
  have tell: "first_telling (map link_kind ls) \<noteq> Some RateLimited" for ls
    by (induction ls) (auto simp: link_kind_def split: option.splits if_splits)
  have "classify_error (h, i) = RateLimited \<longleftrightarrow> is_rate_limited (h, i)"
    using tell [of "chain (h, i)"]
    by (auto simp: classify_error_def Let_def split: option.splits if_splits)
  with limited len set_chain [OF assms] show ?thesis by simp
qed

definition plain_exn :: "string \<Rightarrow> int option \<Rightarrow> nat option \<Rightarrow> exn" where
  "plain_exn name code cause = \<lparr>ex_name = name, ex_bases = {}, ex_status = code, ex_text = [],
     ex_retry_after = None, ex_cause = cause, ex_context = None, ex_suppress_context = False,
     ex_attempts = 0, ex_waited = 0\<rparr>"

theorem chain_walk_exact_witness:
  "classify_error ([plain_exn ''APIConnectionError'' (Some 500) (Some 1),
                    plain_exn ''RateLimitError'' (Some 429) (Some 0)], 0) = RateLimited"
proof -
  let ?h = "[plain_exn ''APIConnectionError'' (Some 500) (Some 1),
             plain_exn ''RateLimitError'' (Some 429) (Some 0)]"
  have ok: "heap_ok ?h"
    by (auto simp: heap_ok_def next_link_def plain_exn_def less_Suc_eq)
  have u: "under ?h 0 1"
    by (rule under.down [of _ _ 1]) (simp_all add: next_link_def plain_exn_def under.self)
  have "ex_status (?h ! 1) = Some 429" by (simp add: plain_exn_def)
  with u chain_walk_exact [OF ok, of 0] show ?thesis by auto
qed

text \<open>
  the wait before re-sending to a rate-limited endpoint is never shorter than what the
  provider stated nor than the doubling backoff, hence at least a second, and at most sixteen
  seconds where nothing was stated; a provider is benched for its stated window exactly when
  it rate-limited the call and said so.
\<close>

theorem rate_limit_wait_bounds:
  "1 \<le> rate_limit_wait_s now e n
   \<and> (case retry_after_s now e of
        None \<Rightarrow> rate_limit_wait_s now e n \<le> 16
      | Some x \<Rightarrow> x \<le> rate_limit_wait_s now e n \<and> 0 \<le> x)
   \<and> rate_limit_wait_s now e n \<le> rate_limit_wait_s now e (Suc n)
   \<and> park_for now c e = (if is_rate_limited e \<and> retry_after_s now e \<noteq> None
                          then retry_pause now e else c)"
proof -
  have p: "(1 :: rat) \<le> 2 ^ k" for k by (rule one_le_power) simp
  have b1: "1 \<le> backoff_s n" using p by (simp add: backoff_s_def)
  have b2: "backoff_s n \<le> 16" by (simp add: backoff_s_def)
  have "(2 :: rat) ^ (n - 1) \<le> 2 ^ (Suc n - 1)" by (rule power_increasing) auto
  then have b3: "backoff_s n \<le> backoff_s (Suc n)"
    unfolding backoff_s_def by (rule min.mono) simp
  have nonneg: "first_retry_after now ls = Some x \<Longrightarrow> 0 \<le> x" for ls x
    by (induction ls) (auto simp: parse_retry_after_def split: option.splits retry_header.splits)
  show ?thesis
    using b1 b2 b3 nonneg [of "chain e"]
    by (auto simp: rate_limit_wait_s_def retry_after_s_def park_for_def retry_pause_def max_def Let_def
        split: option.splits)
qed

text \<open>
  what a reader is shown is a beginning of the chain: no exception behind a
  \<open>raise ... from None\<close> is ever shown, and nothing outside the chain is.
\<close>

theorem shown_is_prefix_of_chain:
  "(\<exists>rest. chain e = shown_chain e @ rest)
   \<and> (snd e < length (fst e) \<and> ex_cause (fst e ! snd e) = None \<and> ex_suppress_context (fst e ! snd e)
        \<longrightarrow> raw_error_text e = [(ex_name (fst e ! snd e), ex_text (fst e ! snd e))])"
proof -
  have "raw_error_text e = [(ex_name (fst e ! snd e), ex_text (fst e ! snd e))]"
    if "snd e < length (fst e)" "ex_cause (fst e ! snd e) = None" "ex_suppress_context (fst e ! snd e)"
    using that unfolding raw_error_text_def shown_chain_def
    by (subst shown_from.simps) (simp add: shown_from.simps [of _ None])
  with shown_prefix show ?thesis unfolding chain_def shown_chain_def by blast
qed

theorem shown_is_prefix_of_chain_witness:
  "raw_error_text ([(plain_exn ''EnvSourceError'' None None)\<lparr>ex_context := Some 1, ex_suppress_context := True\<rparr>,
                    plain_exn ''TokenInMessage'' None None], 0) = [(''EnvSourceError'', [])]"
  using shown_is_prefix_of_chain [of "([(plain_exn ''EnvSourceError'' None None)
      \<lparr>ex_context := Some 1, ex_suppress_context := True\<rparr>, plain_exn ''TokenInMessage'' None None], 0)"]
  by (simp add: plain_exn_def)

end
