(* ===== verification/Failover.thy ===== *)
theory Failover
  imports FailoverErrors
begin

text \<open>
  \<open>failover/cooldown.py\<close> and \<open>failover/core.py\<close>: which providers are parked, and the sweep
  that tries them in strict priority order, retries each a few times, parks the ones that fail
  and re-sweeps after a pause that knows the cooldowns.

  The outside (the endpoints, the clocks, sleeping) is a state \<open>'w\<close> threaded through: the
  record \<open>runtime\<close> reads its clocks and lets time pass, a provider's call takes it to the state
  after the call and a failure or a result.  \<open>failover_call\<close> and \<open>failover_stream\<close> are the same
  loop in the source; it is written once here, over what one attempt does.
\<close>

section \<open>Cooldown\<close>

type_synonym cooldown = "(string, rat) dict"

definition is_cooling :: "rat \<Rightarrow> cooldown \<Rightarrow> string \<Rightarrow> bool" where
  "is_cooling now cd k = (case dict_get cd k of None \<Rightarrow> False | Some until \<Rightarrow> now < until)"

fun remaining_loop :: "rat \<Rightarrow> cooldown \<Rightarrow> string list \<Rightarrow> rat option \<Rightarrow> rat" where
  "remaining_loop now cd [] soonest = (case soonest of None \<Rightarrow> 0 | Some r \<Rightarrow> r)"
| "remaining_loop now cd (k # ks) soonest =
     (case dict_get cd k of
        None \<Rightarrow> 0
      | Some until \<Rightarrow>
          if until \<le> now then 0
          else
            let r = until - now in
            remaining_loop now cd ks
              (case soonest of None \<Rightarrow> Some r | Some s \<Rightarrow> if r < s then Some r else Some s))"

definition remaining :: "rat \<Rightarrow> cooldown \<Rightarrow> string list \<Rightarrow> rat" where
  "remaining now cd ks = remaining_loop now cd ks None"

definition mark :: "rat \<Rightarrow> cooldown \<Rightarrow> string \<Rightarrow> rat \<Rightarrow> cooldown" where
  "mark now cd k seconds = dict_set k (now + seconds) cd"

section \<open>The outside\<close>

record 'w runtime =
  rt_clock :: "'w \<Rightarrow> rat"            \<comment> \<open>the registry's clock\<close>
  rt_wall :: "'w \<Rightarrow> rat"             \<comment> \<open>epoch seconds, for a Retry-After date\<close>
  rt_sleep :: "rat \<Rightarrow> 'w \<Rightarrow> 'w"

record ('w, 'r) call_provider =
  cp_key :: string
  cp_call :: "'w \<Rightarrow> 'w \<times> (error + 'r)"
  cp_cooldown_s :: rat
  cp_num_retries :: nat

text \<open>What the sweep carries: the outside, the registry, the \<open>on_switch\<close> notices, the last error.\<close>

record 'w sweep =
  sw_world :: 'w
  sw_cool :: cooldown
  sw_switches :: "(string \<times> error) list"
  sw_last :: "error option"

section \<open>The loop\<close>

fun attempts :: "'w runtime \<Rightarrow> ('w, 'r) call_provider \<Rightarrow> nat \<Rightarrow> 'w sweep \<Rightarrow> 'w sweep \<times> 'r option" where
  "attempts rt p 0 st =
     (case cp_call p (sw_world st) of
        (w, Inr r) \<Rightarrow> (st\<lparr>sw_world := w\<rparr>, Some r)
      | (w, Inl e) \<Rightarrow>
          (st\<lparr>sw_world := w, sw_last := Some e,
              sw_cool := mark (rt_clock rt w) (sw_cool st) (cp_key p)
                           (park_for (rt_wall rt w) (cp_cooldown_s p) e),
              sw_switches := sw_switches st @ [(cp_key p, e)]\<rparr>, None))"
| "attempts rt p (Suc k) st =
     (case cp_call p (sw_world st) of
        (w, Inr r) \<Rightarrow> (st\<lparr>sw_world := w\<rparr>, Some r)
      | (w, Inl e) \<Rightarrow>
          let pause = retry_pause (rt_wall rt w) e;
              w' = (if 0 < pause then rt_sleep rt pause w else w)
          in attempts rt p k (st\<lparr>sw_world := w', sw_last := Some e\<rparr>))"

fun one_sweep ::
  "'w runtime \<Rightarrow> ('w, 'r) call_provider list \<Rightarrow> 'w sweep \<Rightarrow> 'w sweep \<times> 'r option" where
  "one_sweep rt [] st = (st, None)"
| "one_sweep rt (p # ps) st =
     (if is_cooling (rt_clock rt (sw_world st)) (sw_cool st) (cp_key p) then one_sweep rt ps st
      else
        (case attempts rt p (cp_num_retries p) st of
           (st', Some r) \<Rightarrow> (st', Some r)
         | (st', None) \<Rightarrow> one_sweep rt ps st'))"

text \<open>\<open>_wait_before_round\<close>: None when the deadline (None is infinity) is spent.\<close>

definition wait_before_round ::
  "'w runtime \<Rightarrow> rat \<Rightarrow> cooldown \<Rightarrow> string list \<Rightarrow> rat option \<Rightarrow> 'w \<Rightarrow> 'w option" where
  "wait_before_round rt backoff cd keys deadline w =
     (let now = rt_clock rt w in
      if (case deadline of None \<Rightarrow> False | Some d \<Rightarrow> d \<le> now) then None
      else
        let want = max backoff (remaining now cd keys);
            wait = (case deadline of None \<Rightarrow> want | Some d \<Rightarrow> min want (d - now))
        in Some (if 0 < wait then rt_sleep rt wait w else w))"

fun rounds ::
  "'w runtime \<Rightarrow> ('w, 'r) call_provider list \<Rightarrow> rat option \<Rightarrow> rat list \<Rightarrow> 'w sweep
     \<Rightarrow> 'w sweep \<times> 'r option" where
  "rounds rt ps deadline [] st = (st, None)"
| "rounds rt ps deadline (b # bs) st =
     (case wait_before_round rt b (sw_cool st) (map cp_key ps) deadline (sw_world st) of
        None \<Rightarrow> (st, None)
      | Some w \<Rightarrow>
          (case one_sweep rt ps (st\<lparr>sw_world := w\<rparr>) of
             (st', Some r) \<Rightarrow> (st', Some r)
           | (st', None) \<Rightarrow> rounds rt ps deadline bs st'))"

datatype failover_error = AllProvidersFailed "error option"

definition failover_call ::
  "'w runtime \<Rightarrow> ('w, 'r) call_provider list \<Rightarrow> rat list \<Rightarrow> rat option \<Rightarrow> 'w \<Rightarrow> cooldown
     \<Rightarrow> 'w sweep \<times> (failover_error + 'r)" where
  "failover_call rt ps backoffs budget w cd =
     (let deadline = map_option (\<lambda>t. rt_clock rt w + t) budget;
          st = \<lparr>sw_world = w, sw_cool = cd, sw_switches = [], sw_last = None\<rparr>;
          (st', got) = (case one_sweep rt ps st of
                          (s, Some r) \<Rightarrow> (s, Some r)
                        | (s, None) \<Rightarrow> rounds rt ps deadline backoffs s)
      in (st', case got of Some r \<Rightarrow> Inr r | None \<Rightarrow> Inl (AllProvidersFailed (sw_last st'))))"

section \<open>Streams\<close>

text \<open>
  What a provider's producer puts on the queue, each with the time it takes to arrive after
  the consumer asks for it; a script that ends stays silent.
\<close>

datatype 'a event = Item 'a | Done | Failed error

record ('w, 'a) provider =
  pr_key :: string
  pr_label :: string
  pr_start :: "'w \<Rightarrow> 'w \<times> (rat \<times> 'a event) list"
  pr_ttft_s :: rat
  pr_idle_s :: rat
  pr_cooldown_s :: rat
  pr_num_retries :: nat

definition ttft_timeout :: "string \<Rightarrow> error" where
  "ttft_timeout label =
     ([\<lparr>ex_name = ''TtftTimeout'', ex_bases = {TimeoutErrorC}, ex_status = None, ex_text = label,
        ex_retry_after = None, ex_cause = None, ex_context = None, ex_suppress_context = True,
        ex_attempts = 0, ex_waited = 0\<rparr>], 0)"

text \<open>
  \<open>_drive\<close> up to its first item, which decides whether the loop may switch: a failure (also no
  item in time), an empty completion, or the first item with what is still to come.
\<close>

definition first_item ::
  "'w runtime \<Rightarrow> ('w, 'a) provider \<Rightarrow> 'w
     \<Rightarrow> 'w \<times> (error + (('w, 'a) provider \<times> 'a \<times> (rat \<times> 'a event) list) option)" where
  "first_item rt p w =
     (case pr_start p w of
        (w1, []) \<Rightarrow> (rt_sleep rt (pr_ttft_s p) w1, Inl (ttft_timeout (pr_label p)))
      | (w1, (d, ev) # evs) \<Rightarrow>
          if pr_ttft_s p < d
          then (rt_sleep rt (pr_ttft_s p) w1, Inl (ttft_timeout (pr_label p)))
          else
            (rt_sleep rt d w1,
             case ev of
               Failed e \<Rightarrow> Inl e
             | Done \<Rightarrow> Inr None
             | Item x \<Rightarrow> Inr (Some (p, x, evs))))"

definition as_call ::
  "'w runtime \<Rightarrow> ('w, 'a) provider
     \<Rightarrow> ('w, (('w, 'a) provider \<times> 'a \<times> (rat \<times> 'a event) list) option) call_provider" where
  "as_call rt p = \<lparr>cp_key = pr_key p, cp_call = first_item rt p, cp_cooldown_s = pr_cooldown_s p,
                   cp_num_retries = pr_num_retries p\<rparr>"

text \<open>
  \<open>failover_stream\<close> is a generator: the caller asks for one item at a time, and what one \<open>next\<close>
  answers is all the caller sees of it.  It has not begun, or it reads on in a provider's stream, or
  it has ended.
\<close>

datatype stream_error = AllFailed "error option" | Raised error | Stalled string

datatype 'a reply = Yield 'a | Stop | Throw stream_error

datatype ('w, 'a) stage = Fresh | Reading "('w, 'a) provider" "(rat \<times> 'a event) list" | Ended

record ('w, 'a) stream =
  sm_stage :: "('w, 'a) stage"
  sm_world :: 'w
  sm_cool :: cooldown
  sm_switches :: "(string \<times> error) list"

text \<open>\<open>_drive\<close> after its first item.\<close>

fun drive_on ::
  "'w runtime \<Rightarrow> ('w, 'a) provider \<Rightarrow> (rat \<times> 'a event) list \<Rightarrow> 'w \<Rightarrow> 'w \<times> ('w, 'a) stage \<times> 'a reply" where
  "drive_on rt p [] w = (rt_sleep rt (pr_idle_s p) w, Ended, Throw (Stalled (pr_label p)))"
| "drive_on rt p ((d, ev) # evs) w =
     (if pr_idle_s p < d then (rt_sleep rt (pr_idle_s p) w, Ended, Throw (Stalled (pr_label p)))
      else
        (rt_sleep rt d w,
         case ev of
           Failed e \<Rightarrow> (Ended, Throw (Raised e))
         | Done \<Rightarrow> (Ended, Stop)
         | Item x \<Rightarrow> (Reading p evs, Yield x)))"

definition stream_next ::
  "'w runtime \<Rightarrow> ('w, 'a) provider list \<Rightarrow> rat list \<Rightarrow> rat option \<Rightarrow> ('w, 'a) stream
     \<Rightarrow> ('w, 'a) stream \<times> 'a reply" where
  "stream_next rt ps backoffs budget s =
     (case sm_stage s of
        Fresh \<Rightarrow>
          let (st, out) = failover_call rt (map (as_call rt) ps) backoffs budget (sm_world s) (sm_cool s);
              (g, reply) = (case out of
                 Inl (AllProvidersFailed e) \<Rightarrow> (Ended, Throw (AllFailed e))
               | Inr None \<Rightarrow> (Ended, Stop)
               | Inr (Some (p, x, evs)) \<Rightarrow> (Reading p evs, Yield x))
          in (s\<lparr>sm_stage := g, sm_world := sw_world st, sm_cool := sw_cool st,
                sm_switches := sm_switches s @ sw_switches st\<rparr>, reply)
      | Reading p evs \<Rightarrow>
          let (w, g, reply) = drive_on rt p evs (sm_world s) in (s\<lparr>sm_stage := g, sm_world := w\<rparr>, reply)
      | Ended \<Rightarrow> (s, Stop))"

text \<open>
  A caller that asks again and again; before each \<open>next\<close> anything happens elsewhere: time passes,
  other calls mark the registry they share.
\<close>

fun reads ::
  "'w runtime \<Rightarrow> ('w, 'a) provider list \<Rightarrow> rat list \<Rightarrow> rat option
     \<Rightarrow> ('w \<times> cooldown \<Rightarrow> 'w \<times> cooldown) list \<Rightarrow> ('w, 'a) stream \<Rightarrow> ('w, 'a) stream \<times> 'a reply list" where
  "reads rt ps backoffs budget [] s = (s, [])"
| "reads rt ps backoffs budget (h # hs) s =
     (let (w, cd) = h (sm_world s, sm_cool s);
          (s1, reply) = stream_next rt ps backoffs budget (s\<lparr>sm_world := w, sm_cool := cd\<rparr>);
          (s2, replies) = reads rt ps backoffs budget hs s1
      in (s2, reply # replies))"

section \<open>Lemmas on cooldown\<close>

lemma remaining_loop_zero_or_soonest:
  assumes "case soonest of None \<Rightarrow> True | Some s \<Rightarrow> 0 < s"
  shows "if \<exists>k \<in> set ks. \<not> is_cooling now cd k then remaining_loop now cd ks soonest = 0
     else (case soonest of
             None \<Rightarrow> ks = [] \<and> remaining_loop now cd ks soonest = 0
               \<or> (\<exists>k \<in> set ks. dict_get cd k = Some (now + remaining_loop now cd ks soonest))
           | Some s \<Rightarrow> remaining_loop now cd ks soonest = s
               \<or> (\<exists>k \<in> set ks. dict_get cd k = Some (now + remaining_loop now cd ks soonest)))"
  using assms
proof (induction ks arbitrary: soonest)
  case Nil
  then show ?case by (auto split: option.splits)
next
  case (Cons k ks)
  show ?case
  proof (cases "is_cooling now cd k")
    case False
    then show ?thesis by (auto simp: is_cooling_def split: option.splits)
  next
    case True
    then obtain u where u: "dict_get cd k = Some u" "now < u"
      by (auto simp: is_cooling_def split: option.splits)
    let ?s = "case soonest of None \<Rightarrow> Some (u - now) | Some s \<Rightarrow> if u - now < s then Some (u - now) else Some s"
    have "remaining_loop now cd (k # ks) soonest = remaining_loop now cd ks ?s"
      using u by (simp add: Let_def)
    moreover have "case ?s of None \<Rightarrow> True | Some s \<Rightarrow> 0 < s"
      using u Cons.prems by (auto split: option.splits)
    note Cons.IH [OF this]
    ultimately show ?thesis
      using True u by (cases soonest) (auto split: if_splits)
  qed
qed

lemma remaining_wakes:
  assumes "ks \<noteq> []"
  shows "\<exists>k \<in> set ks. \<not> is_cooling (now + remaining now cd ks) cd k"
proof (cases "\<exists>k \<in> set ks. \<not> is_cooling now cd k")
  case True
  then have "remaining now cd ks = 0"
    using remaining_loop_zero_or_soonest [of None ks now cd] by (simp add: remaining_def)
  with True show ?thesis by simp
next
  case False
  then obtain k where "k \<in> set ks" "dict_get cd k = Some (now + remaining now cd ks)"
    using remaining_loop_zero_or_soonest [of None ks now cd] assms by (auto simp: remaining_def)
  then show ?thesis by (intro bexI [of _ k]) (simp_all add: is_cooling_def)
qed

lemma not_cooling_later: "\<not> is_cooling t cd k \<Longrightarrow> t \<le> t' \<Longrightarrow> \<not> is_cooling t' cd k"
  by (auto simp: is_cooling_def split: option.splits)

lemma cooling_mark: "is_cooling t (mark now cd k s) j \<longleftrightarrow> (if j = k then t < now + s else is_cooling t cd j)"
  by (auto simp: is_cooling_def mark_def)

section \<open>Time goes forward\<close>

text \<open>
  What the loop relies on from the outside: sleeping lasts at least as long as asked, and no
  provider turns the clock back.
\<close>

locale forward_time =
  fixes rt :: "'w runtime" and ps :: "('w, 'r) call_provider list"
  assumes sleep_law: "0 \<le> d \<Longrightarrow> rt_clock rt w + d \<le> rt_clock rt (rt_sleep rt d w)"
    and call_law: "p \<in> set ps \<Longrightarrow> rt_clock rt w \<le> rt_clock rt (fst (cp_call p w))"
begin

lemma attempts_clock:
  "p \<in> set ps \<Longrightarrow> rt_clock rt (sw_world st) \<le> rt_clock rt (sw_world (fst (attempts rt p k st)))"
proof (induction k arbitrary: st)
  case 0
  then show ?case
    using call_law [of p "sw_world st"] by (auto split: prod.splits sum.splits)
next
  case (Suc k)
  obtain w out where c: "cp_call p (sw_world st) = (w, out)" by fastforce
  have le: "rt_clock rt (sw_world st) \<le> rt_clock rt w"
    using call_law [OF Suc.prems, of "sw_world st"] c by simp
  show ?case
  proof (cases out)
    case (Inr r)
    with c le show ?thesis by simp
  next
    case (Inl e)
    let ?pause = "retry_pause (rt_wall rt w) e"
    let ?w = "if 0 < ?pause then rt_sleep rt ?pause w else w"
    have "rt_clock rt w \<le> rt_clock rt ?w" using sleep_law [of ?pause w] by auto
    with le Suc.IH [OF Suc.prems, of "st\<lparr>sw_world := ?w, sw_last := Some e\<rparr>"] c Inl show ?thesis
      by (simp add: Let_def)
  qed
qed

text \<open>A provider that fails all its attempts is parked, noticed, and nothing else changes.\<close>

lemma attempts_parks:
  assumes "attempts rt p k st = (st', None)"
  shows "\<exists>e. sw_last st' = Some e \<and> sw_switches st' = sw_switches st @ [(cp_key p, e)]
     \<and> sw_cool st' = mark (rt_clock rt (sw_world st')) (sw_cool st) (cp_key p)
                        (park_for (rt_wall rt (sw_world st')) (cp_cooldown_s p) e)"
  using assms
proof (induction k arbitrary: st)
  case 0
  then show ?case by (auto split: prod.splits sum.splits)
next
  case (Suc k)
  obtain w out where c: "cp_call p (sw_world st) = (w, out)" by fastforce
  with Suc.prems obtain e where e: "out = Inl e" by (cases out) auto
  let ?pause = "retry_pause (rt_wall rt w) e"
  let ?st = "st\<lparr>sw_world := if 0 < ?pause then rt_sleep rt ?pause w else w, sw_last := Some e\<rparr>"
  have "attempts rt p k ?st = (st', None)" using Suc.prems c e by (simp add: Let_def)
  from Suc.IH [OF this] show ?case by simp
qed

lemma attempts_success:
  assumes "attempts rt p k st = (st', Some r)"
  shows "sw_cool st' = sw_cool st \<and> sw_switches st' = sw_switches st
     \<and> (\<exists>w. cp_call p w = (sw_world st', Inr r))"
  using assms by (induction k arbitrary: st) (auto simp: Let_def split: prod.splits sum.splits)

text \<open>What a whole sweep that found nobody did, when nobody was parked before it.\<close>

lemma one_sweep_exhausted:
  assumes "one_sweep rt qs st = (st', None)" "set qs \<subseteq> set ps" "distinct (map cp_key qs)"
    and "\<forall>q \<in> set qs. \<not> is_cooling (rt_clock rt (sw_world st)) (sw_cool st) (cp_key q)"
  shows "map fst (sw_switches st') = map fst (sw_switches st) @ map cp_key qs
     \<and> (\<forall>q \<in> set qs. \<exists>e t wall. (cp_key q, e) \<in> set (sw_switches st')
          \<and> rt_clock rt (sw_world st) \<le> t \<and> t \<le> rt_clock rt (sw_world st')
          \<and> dict_get (sw_cool st') (cp_key q) = Some (t + park_for wall (cp_cooldown_s q) e))
     \<and> (\<forall>k. k \<notin> cp_key ` set qs \<longrightarrow> dict_get (sw_cool st') k = dict_get (sw_cool st) k)
     \<and> rt_clock rt (sw_world st) \<le> rt_clock rt (sw_world st')
     \<and> set (sw_switches st) \<subseteq> set (sw_switches st')"
  using assms
proof (induction qs arbitrary: st)
  case Nil
  then show ?case by simp
next
  case (Cons q qs)
  have "\<not> is_cooling (rt_clock rt (sw_world st)) (sw_cool st) (cp_key q)" using Cons.prems(4) by simp
  with Cons.prems(1) obtain s1 where a: "attempts rt q (cp_num_retries q) st = (s1, None)"
    and rest: "one_sweep rt qs s1 = (st', None)"
    by (auto split: prod.splits option.splits)
  obtain e where p: "sw_switches s1 = sw_switches st @ [(cp_key q, e)]"
      "sw_cool s1 = mark (rt_clock rt (sw_world s1)) (sw_cool st) (cp_key q)
                        (park_for (rt_wall rt (sw_world s1)) (cp_cooldown_s q) e)"
    using attempts_parks [OF a] by blast
  have t1: "rt_clock rt (sw_world st) \<le> rt_clock rt (sw_world s1)"
    using attempts_clock [of q st "cp_num_retries q"] Cons.prems(2) a by simp
  have free: "\<forall>x \<in> set qs. \<not> is_cooling (rt_clock rt (sw_world s1)) (sw_cool s1) (cp_key x)"
  proof
    fix x assume x: "x \<in> set qs"
    then have "cp_key x \<in> cp_key ` set qs" by simp
    with Cons.prems(3) have "cp_key x \<noteq> cp_key q" by (metis distinct.simps(2) list.simps(9) set_map)
    moreover have "\<not> is_cooling (rt_clock rt (sw_world st)) (sw_cool st) (cp_key x)"
      using x Cons.prems(4) by simp
    note not_cooling_later [OF this t1]
    ultimately show "\<not> is_cooling (rt_clock rt (sw_world s1)) (sw_cool s1) (cp_key x)"
      by (simp add: p(2) cooling_mark)
  qed
  note ih = Cons.IH [OF rest _ _ free]
  have ih': "map fst (sw_switches st') = map fst (sw_switches s1) @ map cp_key qs"
      "\<forall>x \<in> set qs. \<exists>e t wall. (cp_key x, e) \<in> set (sw_switches st')
          \<and> rt_clock rt (sw_world s1) \<le> t \<and> t \<le> rt_clock rt (sw_world st')
          \<and> dict_get (sw_cool st') (cp_key x) = Some (t + park_for wall (cp_cooldown_s x) e)"
      "\<forall>k. k \<notin> cp_key ` set qs \<longrightarrow> dict_get (sw_cool st') k = dict_get (sw_cool s1) k"
      "rt_clock rt (sw_world s1) \<le> rt_clock rt (sw_world st')"
      "set (sw_switches s1) \<subseteq> set (sw_switches st')"
    using ih Cons.prems(2,3) by auto
  have own: "dict_get (sw_cool st') (cp_key q) = Some (rt_clock rt (sw_world s1)
      + park_for (rt_wall rt (sw_world s1)) (cp_cooldown_s q) e)"
    using ih'(3) Cons.prems(3) p(2) by (auto simp: mark_def image_iff)
  have "\<exists>e t wall. (cp_key x, e) \<in> set (sw_switches st')
          \<and> rt_clock rt (sw_world st) \<le> t \<and> t \<le> rt_clock rt (sw_world st')
          \<and> dict_get (sw_cool st') (cp_key x) = Some (t + park_for wall (cp_cooldown_s x) e)"
    if "x \<in> set (q # qs)" for x
  proof (cases "x = q")
    case True
    with own t1 ih'(4,5) p(1) show ?thesis
      by (intro exI [of _ e] exI [of _ "rt_clock rt (sw_world s1)"] exI [of _ "rt_wall rt (sw_world s1)"])
         auto
  next
    case False
    with that ih'(2) t1 show ?thesis by (meson order_trans set_ConsD)
  qed
  moreover have "\<forall>k. k \<notin> cp_key ` set (q # qs) \<longrightarrow> dict_get (sw_cool st') k = dict_get (sw_cool st) k"
    using ih'(3) p(2) by (auto simp: mark_def)
  ultimately show ?case using ih'(1,4,5) p(1) t1 by auto
qed

lemma wait_wakes:
  assumes "wait_before_round rt b cd keys deadline w = Some w'" "keys \<noteq> []"
  shows "(\<exists>k \<in> set keys. \<not> is_cooling (rt_clock rt w') cd k)
     \<or> (\<exists>d. deadline = Some d \<and> d \<le> rt_clock rt w')"
proof -
  let ?now = "rt_clock rt w"
  let ?want = "max b (remaining ?now cd keys)"
  obtain k where k: "k \<in> set keys" "\<not> is_cooling (?now + remaining ?now cd keys) cd k"
    using remaining_wakes [OF assms(2)] by blast
  have full: "\<exists>k \<in> set keys. \<not> is_cooling t cd k" if "?now + ?want \<le> t" for t
    using k not_cooling_later [OF k(2), of t] that by (meson add_left_mono max.cobounded2 order_trans)
  define wait where "wait = (case deadline of None \<Rightarrow> ?want | Some d \<Rightarrow> min ?want (d - ?now))"
  have w': "w' = (if 0 < wait then rt_sleep rt wait w else w)"
    using assms(1) by (auto simp: wait_before_round_def Let_def wait_def split: if_splits option.splits)
  have t: "?now + wait \<le> rt_clock rt w'"
    using sleep_law [of wait w] w' by auto
  show ?thesis
  proof (cases deadline)
    case None
    then have "wait = ?want" by (simp add: wait_def)
    with full [of "rt_clock rt w'"] t show ?thesis by simp
  next
    case (Some d)
    show ?thesis
    proof (cases "?want \<le> d - ?now")
      case True
      then have "min ?want (d - ?now) = ?want" by (rule min.absorb1)
      then have "wait = ?want" using Some by (simp add: wait_def)
      with full [of "rt_clock rt w'"] t show ?thesis by simp
    next
      case False
      then have "min ?want (d - ?now) = d - ?now" by (meson linear min.absorb2)
      then have "wait = d - ?now" using Some by (simp add: wait_def)
      with t Some show ?thesis by simp
    qed
  qed
qed

end

text \<open>A world that is only a clock, with endpoints that answer by the time: a concrete outside.\<close>

definition clock_only :: "rat runtime" where
  "clock_only = \<lparr>rt_clock = (\<lambda>w. w), rt_wall = (\<lambda>w. w), rt_sleep = (\<lambda>d w. w + d)\<rparr>"

definition answering :: "string \<Rightarrow> rat \<Rightarrow> (rat \<Rightarrow> error + nat) \<Rightarrow> (rat, nat) call_provider" where
  "answering k took f = \<lparr>cp_key = k, cp_call = (\<lambda>w. (w + took, f w)), cp_cooldown_s = 30,
                        cp_num_retries = 1\<rparr>"

definition refused :: error where
  "refused = ([plain_exn ''APIConnectionError'' (Some 500) None], 0)"

interpretation two_endpoints: forward_time clock_only
    "[answering ''a'' 1 (\<lambda>t. Inl refused), answering ''b'' 2 (\<lambda>t. Inl refused)]"
  by unfold_locales (auto simp: clock_only_def answering_def)

section \<open>How many calls\<close>

lemma attempts_calls:
  assumes "\<And>w. (n :: 'w \<Rightarrow> nat) (fst (cp_call p w)) \<le> Suc (n w)" "\<And>d w. n (rt_sleep rt d w) = n w"
  shows "n (sw_world (fst (attempts rt p k st))) \<le> n (sw_world st) + Suc k"
proof (induction k arbitrary: st)
  case 0
  then show ?case using assms(1) [of "sw_world st"] by (auto split: prod.splits sum.splits)
next
  case (Suc k)
  obtain w out where c: "cp_call p (sw_world st) = (w, out)" by fastforce
  have le: "n w \<le> Suc (n (sw_world st))" using assms(1) [of "sw_world st"] c by simp
  show ?case
  proof (cases out)
    case (Inr r)
    with c le show ?thesis by simp
  next
    case (Inl e)
    let ?pause = "retry_pause (rt_wall rt w) e"
    let ?w = "if 0 < ?pause then rt_sleep rt ?pause w else w"
    have "n ?w = n w" using assms(2) by simp
    with le Suc.IH [of "st\<lparr>sw_world := ?w, sw_last := Some e\<rparr>"] c Inl show ?thesis
      by (simp add: Let_def)
  qed
qed

definition sweep_cost :: "('w, 'r) call_provider list \<Rightarrow> nat" where
  "sweep_cost ps = (\<Sum>p\<leftarrow>ps. Suc (cp_num_retries p))"

lemma one_sweep_calls:
  assumes "\<And>p w. p \<in> set ps \<Longrightarrow> (n :: 'w \<Rightarrow> nat) (fst (cp_call p w)) \<le> Suc (n w)"
    and "\<And>d w. n (rt_sleep rt d w) = n w"
  shows "n (sw_world (fst (one_sweep rt ps st))) \<le> n (sw_world st) + sweep_cost ps"
  using assms(1)
proof (induction ps arbitrary: st)
  case Nil
  then show ?case by (simp add: sweep_cost_def)
next
  case (Cons p ps)
  have a: "n (sw_world (fst (attempts rt p (cp_num_retries p) st))) \<le> n (sw_world st) + Suc (cp_num_retries p)"
    by (rule attempts_calls) (use Cons.prems assms(2) in auto)
  have ih: "n (sw_world (fst (one_sweep rt ps s))) \<le> n (sw_world s) + sweep_cost ps" for s
    using Cons by simp
  show ?case
  proof (cases "is_cooling (rt_clock rt (sw_world st)) (sw_cool st) (cp_key p)")
    case True
    with ih [of st] show ?thesis by (simp add: sweep_cost_def)
  next
    case False
    obtain s1 out where at: "attempts rt p (cp_num_retries p) st = (s1, out)" by fastforce
    with False a ih [of s1] show ?thesis by (cases out) (auto simp: sweep_cost_def)
  qed
qed

lemma rounds_calls:
  assumes "\<And>p w. p \<in> set ps \<Longrightarrow> (n :: 'w \<Rightarrow> nat) (fst (cp_call p w)) \<le> Suc (n w)"
    and "\<And>d w. n (rt_sleep rt d w) = n w"
  shows "n (sw_world (fst (rounds rt ps deadline bs st))) \<le> n (sw_world st) + length bs * sweep_cost ps"
proof (induction bs arbitrary: st)
  case Nil
  then show ?case by simp
next
  case (Cons b bs)
  show ?case
  proof (cases "wait_before_round rt b (sw_cool st) (map cp_key ps) deadline (sw_world st)")
    case None
    then show ?thesis by simp
  next
    case (Some w)
    have w: "n w = n (sw_world st)"
      using Some assms(2) by (auto simp: wait_before_round_def Let_def split: if_splits option.splits)
    obtain s1 out where sw: "one_sweep rt ps (st\<lparr>sw_world := w\<rparr>) = (s1, out)" by fastforce
    have "n (sw_world s1) \<le> n w + sweep_cost ps"
      using one_sweep_calls [of ps n rt "st\<lparr>sw_world := w\<rparr>"] assms sw by simp
    with Cons [of s1] w Some sw show ?thesis by (cases out) auto
  qed
qed

section \<open>One source\<close>

lemma attempts_from_provider:
  "attempts rt p k st = (st', Some r) \<Longrightarrow> \<exists>w w'. cp_call p w = (w', Inr r)"
  by (induction k arbitrary: st) (auto simp: Let_def split: prod.splits sum.splits)

lemma one_sweep_from_provider:
  "one_sweep rt ps st = (st', Some r) \<Longrightarrow> \<exists>p \<in> set ps. \<exists>w w'. cp_call p w = (w', Inr r)"
  by (induction ps arbitrary: st)
     (auto split: if_splits prod.splits option.splits dest: attempts_from_provider)

lemma rounds_from_provider:
  "rounds rt ps deadline bs st = (st', Some r) \<Longrightarrow> \<exists>p \<in> set ps. \<exists>w w'. cp_call p w = (w', Inr r)"
  by (induction bs arbitrary: st)
     (auto split: prod.splits option.splits dest: one_sweep_from_provider)

lemma failover_call_from_provider:
  assumes "failover_call rt ps bs budget w cd = (st, Inr r)"
  shows "\<exists>p \<in> set ps. \<exists>w w'. cp_call p w = (w', Inr r)"
  using assms
  by (auto simp: failover_call_def Let_def split: prod.splits option.splits
      dest: one_sweep_from_provider rounds_from_provider)

text \<open>
  What a caller is to be told of a stream it has begun to read: the items that come in time, then
  how the stream ends.
\<close>

fun is_item :: "'a event \<Rightarrow> bool" where
  "is_item (Item x) = True"
| "is_item Done = False"
| "is_item (Failed e) = False"

fun the_item :: "rat \<times> 'a event \<Rightarrow> 'a" where
  "the_item (d, Item x) = x"

definition in_time :: "('w, 'a) provider \<Rightarrow> rat \<times> 'a event \<Rightarrow> bool" where
  "in_time p = (\<lambda>(d, ev). d \<le> pr_idle_s p \<and> is_item ev)"

fun ending :: "('w, 'a) provider \<Rightarrow> (rat \<times> 'a event) list \<Rightarrow> 'a reply" where
  "ending p ((d, Done) # evs) = (if d \<le> pr_idle_s p then Stop else Throw (Stalled (pr_label p)))"
| "ending p ((d, Failed e) # evs) = (if d \<le> pr_idle_s p then Throw (Raised e) else Throw (Stalled (pr_label p)))"
| "ending p evs = Throw (Stalled (pr_label p))"

definition told :: "('w, 'a) provider \<Rightarrow> (rat \<times> 'a event) list \<Rightarrow> 'a reply list" where
  "told p evs = map (Yield \<circ> the_item) (takeWhile (in_time p) evs) @ [ending p (dropWhile (in_time p) evs)]"

text \<open>The outside when nothing is done to it but to wait, beside what happens elsewhere.\<close>

fun only_waits ::
  "'w runtime \<Rightarrow> (('w \<times> cooldown \<Rightarrow> 'w \<times> cooldown) \<times> rat option) list \<Rightarrow> 'w \<times> cooldown \<Rightarrow> 'w \<times> cooldown" where
  "only_waits rt [] st = st"
| "only_waits rt ((h, wait) # hs) st =
     (let (w, cd) = h st
      in only_waits rt hs (case wait of None \<Rightarrow> w | Some d \<Rightarrow> rt_sleep rt d w, cd))"

lemma ended_reads:
  assumes "sm_stage s = Ended"
  shows "snd (reads rt ps bs budget hs s) = replicate (length hs) Stop
     \<and> sm_switches (fst (reads rt ps bs budget hs s)) = sm_switches s
     \<and> (\<exists>ds. length ds = length hs
          \<and> (sm_world (fst (reads rt ps bs budget hs s)), sm_cool (fst (reads rt ps bs budget hs s)))
              = only_waits rt (zip hs ds) (sm_world s, sm_cool s))"
  using assms
proof (induction hs arbitrary: s)
  case Nil
  then show ?case by simp
next
  case (Cons h hs)
  obtain w cd where h: "h (sm_world s, sm_cool s) = (w, cd)" by fastforce
  let ?s = "s\<lparr>sm_world := w, sm_cool := cd\<rparr>"
  have n: "stream_next rt ps bs budget ?s = (?s, Stop)" using Cons.prems by (simp add: stream_next_def)
  obtain s2 replies where r: "reads rt ps bs budget hs ?s = (s2, replies)" by fastforce
  from Cons.IH [of ?s] Cons.prems r obtain ds where
    "replies = replicate (length hs) Stop" "sm_switches s2 = sm_switches s" "length ds = length hs"
    "(sm_world s2, sm_cool s2) = only_waits rt (zip hs ds) (w, cd)" by auto
  with h n r show ?case by (auto intro!: exI [of _ "None # ds"])
qed

lemma drive_on_told:
  assumes "drive_on rt p evs w = (w', g, reply)"
  shows "((\<exists>evs'. g = Reading p evs' \<and> told p evs = reply # told p evs') \<or> (g = Ended \<and> told p evs = [reply]))
     \<and> (\<exists>d. w' = rt_sleep rt d w)"
proof (cases evs)
  case Nil
  with assms show ?thesis by (auto simp: told_def)
next
  case (Cons e evs')
  obtain d ev where e: "e = (d, ev)" by (cases e)
  with assms Cons show ?thesis
    by (cases "pr_idle_s p < d"; cases ev) (auto simp: told_def in_time_def)
qed

lemma reading_reads:
  assumes "sm_stage s = Reading p evs"
  shows "snd (reads rt ps bs budget hs s) = take (length hs) (told p evs @ replicate (length hs) Stop)
     \<and> sm_switches (fst (reads rt ps bs budget hs s)) = sm_switches s
     \<and> (\<exists>ds. length ds = length hs
          \<and> (sm_world (fst (reads rt ps bs budget hs s)), sm_cool (fst (reads rt ps bs budget hs s)))
              = only_waits rt (zip hs ds) (sm_world s, sm_cool s))"
  using assms
proof (induction hs arbitrary: s evs)
  case Nil
  then show ?case by simp
next
  case (Cons h hs)
  obtain w cd where h: "h (sm_world s, sm_cool s) = (w, cd)" by fastforce
  obtain w' g reply where d: "drive_on rt p evs w = (w', g, reply)" by (metis prod_cases3)
  let ?s = "s\<lparr>sm_stage := g, sm_world := w', sm_cool := cd\<rparr>"
  have n: "stream_next rt ps bs budget (s\<lparr>sm_world := w, sm_cool := cd\<rparr>) = (?s, reply)"
    using Cons.prems d by (simp add: stream_next_def)
  obtain s2 replies where r: "reads rt ps bs budget hs ?s = (s2, replies)" by fastforce
  obtain d' where w': "w' = rt_sleep rt d' w" using drive_on_told [OF d] by blast
  have wait: "length ds = length hs \<Longrightarrow> (sm_world s2, sm_cool s2) = only_waits rt (zip hs ds) (w', cd) \<Longrightarrow>
      \<exists>ds. length ds = length (h # hs) \<and> (sm_world s2, sm_cool s2)
        = only_waits rt (zip (h # hs) ds) (sm_world s, sm_cool s)" for ds
    using h w' by (intro exI [of _ "Some d' # ds"]) simp
  have whole: "reads rt ps bs budget (h # hs) s = (s2, reply # replies)" using h n r by simp
  from drive_on_told [OF d, THEN conjunct1] show ?case
  proof (elim disjE exE conjE)
    fix evs' assume g: "g = Reading p evs'" "told p evs = reply # told p evs'"
    have "sm_stage ?s = Reading p evs'" using g by simp
    from Cons.IH [OF this] r wait obtain
      "replies = take (length hs) (told p evs' @ replicate (length hs) Stop)" "sm_switches s2 = sm_switches s"
      "\<exists>ds. length ds = length (h # hs) \<and> (sm_world s2, sm_cool s2)
        = only_waits rt (zip (h # hs) ds) (sm_world s, sm_cool s)" by fastforce
    with whole g show ?thesis by (simp add: replicate_Suc [symmetric] min_def del: replicate_Suc reads.simps)
  next
    assume g: "g = Ended" "told p evs = [reply]"
    have "sm_stage ?s = Ended" using g by simp
    from ended_reads [OF this, of rt ps bs budget hs] r wait obtain
      "replies = replicate (length hs) Stop" "sm_switches s2 = sm_switches s"
      "\<exists>ds. length ds = length (h # hs) \<and> (sm_world s2, sm_cool s2)
        = only_waits rt (zip (h # hs) ds) (sm_world s, sm_cool s)" by fastforce
    with whole g show ?thesis by (simp add: replicate_Suc [symmetric] min_def del: replicate_Suc reads.simps)
  qed
qed

section \<open>Properties\<close>

text \<open>
  strict priority: if every provider before one is parked, that one is not, and its first
  call answers, then this answer is the result, nobody else is called (the outside is exactly
  as that call left it), and nobody is parked or reported.
\<close>

theorem first_available_wins:
  assumes "\<forall>q \<in> set before. is_cooling (rt_clock rt w) cd (cp_key q)"
    and "\<not> is_cooling (rt_clock rt w) cd (cp_key p)" "cp_call p w = (w', Inr r)"
  shows "failover_call rt (before @ p # after) bs budget w cd
     = (\<lparr>sw_world = w', sw_cool = cd, sw_switches = [], sw_last = None\<rparr>, Inr r)"
proof -
  let ?st = "\<lparr>sw_world = w, sw_cool = cd, sw_switches = [], sw_last = None\<rparr>"
  have "attempts rt p (cp_num_retries p) ?st = (?st\<lparr>sw_world := w'\<rparr>, Some r)"
    using assms(3) by (cases "cp_num_retries p") simp_all
  then have "one_sweep rt (before @ p # after) ?st = (?st\<lparr>sw_world := w'\<rparr>, Some r)"
    using assms(1,2) by (induction before) auto
  then show ?thesis by (simp add: failover_call_def)
qed

theorem first_available_wins_witness:
  "snd (failover_call clock_only [answering ''a'' 1 (\<lambda>t. Inr 1), answering ''b'' 2 (\<lambda>t. Inr 2)]
          [] None 5 [(''a'', 9)]) = Inr 2"
  using first_available_wins [of "[answering ''a'' 1 (\<lambda>t. Inr 1)]" clock_only 5 "[(''a'', 9)]"
      "answering ''b'' 2 (\<lambda>t. Inr 2)" 7 2 "[]" "[]" None]
  by (simp add: clock_only_def answering_def is_cooling_def)

text \<open>
  when nobody was parked and a single sweep ends in \<open>AllProvidersFailed\<close>, every provider was
  tried, reported once each in priority order, and parked from a moment within the call: for
  the window its own rate limit stated, or for its configured cooldown.  No other key is
  touched.
\<close>

theorem exhausted_chain_parks_everyone:
  assumes "forward_time rt ps" "distinct (map cp_key ps)"
    and "\<forall>q \<in> set ps. \<not> is_cooling (rt_clock rt w) cd (cp_key q)"
    and "failover_call rt ps [] budget w cd = (st, Inl err)"
  shows "map fst (sw_switches st) = map cp_key ps
     \<and> (\<forall>q \<in> set ps. \<exists>e t wall. (cp_key q, e) \<in> set (sw_switches st)
          \<and> rt_clock rt w \<le> t \<and> t \<le> rt_clock rt (sw_world st)
          \<and> dict_get (sw_cool st) (cp_key q) = Some (t + park_for wall (cp_cooldown_s q) e))
     \<and> (\<forall>k. k \<notin> cp_key ` set ps \<longrightarrow> dict_get (sw_cool st) k = dict_get cd k)"
proof -
  let ?st = "\<lparr>sw_world = w, sw_cool = cd, sw_switches = [], sw_last = None\<rparr>"
  have "one_sweep rt ps ?st = (st, None)"
    using assms(4) by (auto simp: failover_call_def split: prod.splits option.splits)
  from forward_time.one_sweep_exhausted [OF assms(1) this _ assms(2)] assms(3)
  show ?thesis by simp
qed

theorem exhausted_chain_parks_everyone_witness:
  "map fst (sw_switches (fst (failover_call clock_only
      [answering ''a'' 1 (\<lambda>t. Inl refused), answering ''b'' 2 (\<lambda>t. Inl refused)] [] None 0 [])))
    = [''a'', ''b'']"
proof -
  let ?ps = "[answering ''a'' 1 (\<lambda>t. Inl refused), answering ''b'' 2 (\<lambda>t. Inl refused)]"
  obtain st r where c: "failover_call clock_only ?ps [] None 0 [] = (st, r)" by fastforce
  have "\<exists>err. r = Inl err"
  proof (cases r)
    case (Inr x)
    with failover_call_from_provider [of clock_only ?ps "[]" None 0 "[]" st x] c
    show ?thesis by (auto simp: answering_def)
  qed simp
  then obtain err where "r = Inl err" by blast
  with c exhausted_chain_parks_everyone [OF two_endpoints.forward_time_axioms, of 0 "[]" None st err]
  show ?thesis by (simp add: answering_def is_cooling_def)
qed

text \<open>
  the work of one call is bounded: with n re-sweeps allowed, the endpoints are called at
  most (n + 1) times the sum of their attempts, however they fail and however long it waits.
\<close>

theorem calls_bounded:
  assumes "\<And>p w. p \<in> set ps \<Longrightarrow> (n :: 'w \<Rightarrow> nat) (fst (cp_call p w)) \<le> Suc (n w)"
    and "\<And>d w. n (rt_sleep rt d w) = n w"
  shows "n (sw_world (fst (failover_call rt ps bs budget w cd)))
           \<le> n w + (length bs + 1) * (\<Sum>p\<leftarrow>ps. cp_num_retries p + 1)"
proof -
  let ?st = "\<lparr>sw_world = w, sw_cool = cd, sw_switches = [], sw_last = None\<rparr>"
  obtain s1 out where sw: "one_sweep rt ps ?st = (s1, out)" by fastforce
  have first: "n (sw_world s1) \<le> n w + sweep_cost ps"
    using one_sweep_calls [of ps n rt ?st] assms sw by simp
  have cost: "sweep_cost ps = (\<Sum>p\<leftarrow>ps. cp_num_retries p + 1)" by (simp add: sweep_cost_def)
  show ?thesis
  proof (cases out)
    case (Some r)
    with sw first cost show ?thesis by (simp add: failover_call_def)
  next
    case None
    have "n (sw_world (fst (rounds rt ps (map_option (\<lambda>t. rt_clock rt w + t) budget) bs s1)))
        \<le> n (sw_world s1) + length bs * sweep_cost ps"
      by (rule rounds_calls) (use assms in auto)
    with None sw first cost show ?thesis
      by (simp add: failover_call_def Let_def case_prod_beta)
  qed
qed

theorem calls_bounded_witness:
  "snd (sw_world (fst (failover_call
      \<lparr>rt_clock = (\<lambda>w :: rat \<times> nat. fst w), rt_wall = fst, rt_sleep = (\<lambda>d (t, k). (t + d, k))\<rparr>
      [\<lparr>cp_key = ''a'', cp_call = (\<lambda>(t :: rat, k). ((t + 1, Suc k), (Inl refused :: error + nat))),
        cp_cooldown_s = 30, cp_num_retries = 2\<rparr>] [1, 2] None (0, 0) []))) \<le> 9"
proof -
  let ?rt = "\<lparr>rt_clock = (\<lambda>w :: rat \<times> nat. fst w), rt_wall = fst, rt_sleep = (\<lambda>d (t, k). (t + d, k))\<rparr>"
  let ?p = "\<lparr>cp_key = ''a'', cp_call = (\<lambda>(t :: rat, k). ((t + 1, Suc k), (Inl refused :: error + nat))),
        cp_cooldown_s = 30, cp_num_retries = 2\<rparr>"
  have "snd (sw_world (fst (failover_call ?rt [?p] [1, 2] None (0, 0) [])))
      \<le> snd ((0 :: rat, 0 :: nat)) + (length [1 :: rat, 2] + 1) * (\<Sum>p\<leftarrow>[?p]. cp_num_retries p + 1)"
    by (rule calls_bounded [where n = snd]) (auto split: prod.splits)
  then show ?thesis by simp
qed

text \<open>
  C9: a re-sweep is never wasted: after the pause before it, some endpoint of the chain is no
  longer parked, or the total deadline is reached.
\<close>

theorem resweep_finds_an_endpoint:
  assumes "forward_time rt ps" "ps \<noteq> []"
    and "wait_before_round rt b cd (map cp_key ps) deadline w = Some w'"
  shows "(\<exists>p \<in> set ps. \<not> is_cooling (rt_clock rt w') cd (cp_key p))
     \<or> (\<exists>d. deadline = Some d \<and> d \<le> rt_clock rt w')"
  using forward_time.wait_wakes [OF assms(1) assms(3)] assms(2) by auto

theorem resweep_finds_an_endpoint_witness:
  "\<exists>p \<in> set [answering ''a'' 1 (\<lambda>t. Inl refused), answering ''b'' 2 (\<lambda>t. Inl refused)].
     \<not> is_cooling (rt_clock clock_only 7) [(''a'', 7), (''b'', 9)] (cp_key p)"
proof -
  have "wait_before_round clock_only 1 [(''a'', 7), (''b'', 9)]
      (map cp_key [answering ''a'' 1 (\<lambda>t. Inl refused), answering ''b'' 2 (\<lambda>t. Inl refused)]) None 4 = Some 7"
    by (simp add: wait_before_round_def clock_only_def answering_def remaining_def)
  from resweep_finds_an_endpoint [OF two_endpoints.forward_time_axioms _ this] show ?thesis by simp
qed

text \<open>
  C7: a stream the caller has begun to read is never switched.  When the first \<open>next\<close> yields an item,
  this is the first item, in time, of one provider's one stream; and however often the caller asks on,
  whatever happens elsewhere in between, it is told exactly the rest of that stream: the items that come
  within the idle time, in order, then its end, its error, or \<open>StreamStalled\<close> at the first silence, then
  nothing more.  Nobody is reported, nobody is parked, and the outside is only waited for: no provider
  is started again.
\<close>

theorem stream_has_one_source:
  assumes "sm_stage s = Fresh" "stream_next rt ps bs budget s = (s1, Yield x)"
  shows "\<exists>p \<in> set ps. \<exists>w0 w1 d evs. pr_start p w0 = (w1, (d, Item x) # evs) \<and> d \<le> pr_ttft_s p
     \<and> (\<forall>hs. snd (reads rt ps bs budget hs s1) = take (length hs) (told p evs @ replicate (length hs) Stop)
          \<and> sm_switches (fst (reads rt ps bs budget hs s1)) = sm_switches s1
          \<and> (\<exists>ds. length ds = length hs
               \<and> (sm_world (fst (reads rt ps bs budget hs s1)), sm_cool (fst (reads rt ps bs budget hs s1)))
                   = only_waits rt (zip hs ds) (sm_world s1, sm_cool s1)))"
proof -
  obtain st q evs where call: "failover_call rt (map (as_call rt) ps) bs budget (sm_world s) (sm_cool s)
      = (st, Inr (Some (q, x, evs)))" and stage: "sm_stage s1 = Reading q evs"
    using assms by (auto simp: stream_next_def Let_def split: prod.splits sum.splits option.splits failover_error.splits)
  obtain p w0 w2 where p: "p \<in> set ps" "first_item rt p w0 = (w2, Inr (Some (q, x, evs)))"
    using failover_call_from_provider [OF call] by (auto simp: as_call_def)
  then obtain w1 d where "pr_start p w0 = (w1, (d, Item x) # evs)" "d \<le> pr_ttft_s p" "q = p"
    by (auto simp: first_item_def split: prod.splits list.splits if_splits event.splits)
  with p(1) reading_reads [OF stage] show ?thesis by blast
qed

definition two_words :: "(rat, nat) provider" where
  "two_words = \<lparr>pr_key = ''a'', pr_label = ''a'', pr_start = (\<lambda>w. (w, [(1, Item 10), (2, Item 20), (9, Done)])),
     pr_ttft_s = 5, pr_idle_s = 5, pr_cooldown_s = 30, pr_num_retries = 0\<rparr>"

definition begun :: "(rat, nat) stream" where
  "begun = \<lparr>sm_stage = Reading two_words [(2, Item 20), (9, Done)], sm_world = 1, sm_cool = [], sm_switches = []\<rparr>"

theorem stream_has_one_source_witness:
  "stream_next clock_only [two_words] [] None \<lparr>sm_stage = Fresh, sm_world = 0, sm_cool = [], sm_switches = []\<rparr>
      = (begun, Yield 10)
   \<and> snd (reads clock_only [two_words] [] None [id, id, id] begun) = [Yield 20, Throw (Stalled ''a''), Stop]"
proof -
  have n: "stream_next clock_only [two_words] [] None \<lparr>sm_stage = Fresh, sm_world = 0, sm_cool = [], sm_switches = []\<rparr>
      = (begun, Yield 10)"
    by (simp add: stream_next_def begun_def failover_call_def as_call_def two_words_def first_item_def
        clock_only_def is_cooling_def)
  from stream_has_one_source [OF _ n] obtain evs and w0 w1 d :: rat where "pr_start two_words w0 = (w1, (d, Item 10) # evs)"
    and all: "\<forall>hs. snd (reads clock_only [two_words] [] None hs begun) = take (length hs) (told two_words evs @ replicate (length hs) Stop)"
    by auto
  then have evs: "evs = [(2, Item 20), (9, Done)]" by (simp add: two_words_def)
  note told = spec [OF all, of "[id, id, id]"]
  have "told two_words evs = [Yield 20, Throw (Stalled ''a'')]"
    unfolding evs by (simp add: told_def in_time_def two_words_def)
  with n told show ?thesis by (simp del: reads.simps)
qed

end
