(* ===== verification/TurnControl.thy ===== *)
theory TurnControl
  imports RowStore
begin

text \<open>
  \<open>turn_control\<close>: the per-key epoch by which a turn learns that it was superseded, as an
  interface (\<open>ITurnControl\<close>, the locale \<open>turn_control\<close>) and its two backends, a dictionary in
  memory and one row per key in the shared store.  The shared backend advances by a read and a
  compare-and-swap; both halves are definitions of their own, so that the sequential
  \<open>advance_sync\<close> and the interleaving of many pods are built from the same code.
\<close>

section \<open>In memory\<close>

type_synonym epochs = "(string, int) dict"

definition memory_current :: "epochs \<Rightarrow> string \<Rightarrow> int" where
  "memory_current d k = (case dict_get d k of None \<Rightarrow> 0 | Some e \<Rightarrow> e)"

definition memory_advance :: "epochs \<Rightarrow> string \<Rightarrow> epochs \<times> int" where
  "memory_advance d k = (let nxt = memory_current d k + 1 in (dict_set k nxt d, nxt))"

section \<open>In the shared store\<close>

record turn_epoch =
  te_epoch :: int

definition MAX_CAS_RETRIES :: nat where
  "MAX_CAS_RETRIES = 100"

definition current_sync :: "('s, turn_epoch) row_api \<Rightarrow> 's \<Rightarrow> string \<Rightarrow> rm_error + int" where
  "current_sync api s k =
     (case rm_get api s False k of
        Inl NotFound \<Rightarrow> Inr 0
      | Inl e \<Rightarrow> Inl e
      | Inr (r, _) \<Rightarrow> Inr (te_epoch r))"

text \<open>The read of one attempt: the row's epoch and etag, None when there is no row.\<close>

definition epoch_read ::
  "('s, turn_epoch) row_api \<Rightarrow> 's \<Rightarrow> string \<Rightarrow> rm_error + (int \<times> nat) option" where
  "epoch_read api s k =
     (case rm_get api s False k of
        Inl NotFound \<Rightarrow> Inr None
      | Inl e \<Rightarrow> Inl e
      | Inr (r, etag) \<Rightarrow> Inr (Some (te_epoch r, etag)))"

text \<open>The write of one attempt: the new epoch, or None when a peer was first.\<close>

definition epoch_write ::
  "('s, turn_epoch) row_api \<Rightarrow> 's \<Rightarrow> string \<Rightarrow> (int \<times> nat) option \<Rightarrow> rm_error + ('s \<times> int) option" where
  "epoch_write api s k seen =
     (case seen of
        None \<Rightarrow>
          (case rm_create api s k \<lparr>te_epoch = 1\<rparr> of
             Inr s' \<Rightarrow> Inr (Some (s', 1))
           | Inl Duplicate \<Rightarrow> Inr None
           | Inl e \<Rightarrow> Inl e)
      | Some (epoch, etag) \<Rightarrow>
          (let nxt = epoch + 1 in
           case rm_modify api s k \<lparr>te_epoch = nxt\<rparr> (Some etag) of
             Inr (s', _) \<Rightarrow> Inr (Some (s', nxt))
           | Inl PreconditionFailed \<Rightarrow> Inr None
           | Inl e \<Rightarrow> Inl e))"

datatype advance_error = StoreFailed rm_error | RetriesExhausted string

fun advance_loop ::
  "('s, turn_epoch) row_api \<Rightarrow> nat \<Rightarrow> 's \<Rightarrow> string \<Rightarrow> advance_error + 's \<times> int" where
  "advance_loop api 0 s k = Inl (RetriesExhausted k)"
| "advance_loop api (Suc n) s k =
     (case epoch_read api s k of
        Inl e \<Rightarrow> Inl (StoreFailed e)
      | Inr seen \<Rightarrow>
          (case epoch_write api s k seen of
             Inl e \<Rightarrow> Inl (StoreFailed e)
           | Inr (Some (s', nxt)) \<Rightarrow> Inr (s', nxt)
           | Inr None \<Rightarrow> advance_loop api n s k))"

definition advance_sync ::
  "('s, turn_epoch) row_api \<Rightarrow> 's \<Rightarrow> string \<Rightarrow> advance_error + 's \<times> int" where
  "advance_sync api s k = advance_loop api MAX_CAS_RETRIES s k"

text \<open>
  Many pods over one store: each holds the read of the attempt it is in, if any; the answers
  given so far are logged, latest first.
\<close>

record 's epoch_world =
  ew_store :: 's
  ew_pending :: "nat \<Rightarrow> (string \<times> (int \<times> nat) option) option"
  ew_answers :: "(string \<times> int) list"

inductive epoch_step :: "('s, turn_epoch) row_api \<Rightarrow> 's epoch_world \<Rightarrow> 's epoch_world \<Rightarrow> bool"
  for api where
  read: "epoch_read api (ew_store w) k = Inr seen \<Longrightarrow>
     epoch_step api w (w\<lparr>ew_pending := (ew_pending w)(p \<mapsto> (k, seen))\<rparr>)"
| won: "ew_pending w p = Some (k, seen) \<Longrightarrow>
     epoch_write api (ew_store w) k seen = Inr (Some (s', n)) \<Longrightarrow>
     epoch_step api w (w\<lparr>ew_store := s', ew_pending := (ew_pending w)(p := None),
                        ew_answers := (k, n) # ew_answers w\<rparr>)"
| lost: "ew_pending w p = Some (k, seen) \<Longrightarrow>
     epoch_write api (ew_store w) k seen = Inr None \<Longrightarrow>
     epoch_step api w (w\<lparr>ew_pending := (ew_pending w)(p := None)\<rparr>)"

inductive epochs_reach :: "('s, turn_epoch) row_api \<Rightarrow> 's \<Rightarrow> 's epoch_world \<Rightarrow> bool"
  for api s0 where
  start: "epochs_reach api s0 \<lparr>ew_store = s0, ew_pending = (\<lambda>_. None), ew_answers = []\<rparr>"
| step: "epochs_reach api s0 w \<Longrightarrow> epoch_step api w w' \<Longrightarrow> epochs_reach api s0 w'"

section \<open>The interface\<close>

locale turn_control =
  fixes ok :: "'s \<Rightarrow> bool"
    and current :: "'s \<Rightarrow> string \<Rightarrow> int"
    and advance :: "'s \<Rightarrow> string \<Rightarrow> 's \<times> int"
  assumes advance_ok: "ok s \<Longrightarrow> ok (fst (advance s k))"
    and advance_value: "ok s \<Longrightarrow> snd (advance s k) = current s k + 1"
    and advance_current:
      "ok s \<Longrightarrow> current (fst (advance s k)) j = (if j = k then current s k + 1 else current s j)"
begin

definition advances :: "string list \<Rightarrow> 's \<Rightarrow> 's" where
  "advances ks s = fold (\<lambda>k s. fst (advance s k)) ks s"

lemma advances_ok: "ok s \<Longrightarrow> ok (advances ks s)"
  unfolding advances_def by (induction ks arbitrary: s) (auto intro: advance_ok)

lemma advances_current:
  "ok s \<Longrightarrow> current (advances ks s) k = current s k + int (count_list ks k)"
  unfolding advances_def
  by (induction ks arbitrary: s) (auto simp: advance_ok advance_current)

text \<open>
  A turn that stamped the epoch at its start sees the epoch advanced past its stamp exactly
  when somebody advanced this very key since.
\<close>

lemma superseded_iff:
  "ok s \<Longrightarrow> current s k < current (advances ks s) k \<longleftrightarrow> k \<in> set ks"
  by (simp add: advances_current) (metis count_list_0_iff not_gr_zero)

text \<open>An explicit stop stamps the running turn out and leaves the turn it makes way for alive.\<close>

lemma advance_supersedes:
  assumes "ok s" "advance s k = (s', n)"
  shows "current s k < n" "current s' k = n"
  using advance_value [OF assms(1), of k] advance_current [OF assms(1), of k k] assms(2) by auto

end

interpretation memory: turn_control "\<lambda>_. True" memory_current memory_advance
  by unfold_locales (auto simp: memory_advance_def memory_current_def Let_def)

section \<open>The shared backend\<close>

locale epoch_table = row_store api rows
  for api :: "('s, turn_epoch) row_api" and rows
begin

definition none_deleted :: "'s \<Rightarrow> bool" where
  "none_deleted s \<longleftrightarrow> (\<forall>k r e. rows s k \<noteq> Some (r, e, True))"

definition epoch_of :: "'s \<Rightarrow> string \<Rightarrow> int" where
  "epoch_of s k = (case rows s k of None \<Rightarrow> 0 | Some (r, e, d) \<Rightarrow> te_epoch r)"

lemma none_deletedD: "none_deleted s \<Longrightarrow> rows s k = Some (r, e, d) \<Longrightarrow> \<not> d"
  by (cases d) (auto simp: none_deleted_def)

lemma current_sync_eq: "none_deleted s \<Longrightarrow> current_sync api s k = Inr (epoch_of s k)"
  by (auto simp: current_sync_def get_law epoch_of_def none_deleted_def split: option.splits)

lemma epoch_read_eq:
  "none_deleted s \<Longrightarrow>
     epoch_read api s k = Inr (map_option (\<lambda>(r, e, d). (te_epoch r, e)) (rows s k))"
  by (auto simp: epoch_read_def get_law none_deleted_def split: option.splits)

text \<open>A write succeeds exactly when the row is still as it was read.\<close>

lemma epoch_write_cases:
  assumes "none_deleted s"
  shows "(\<exists>s' e'. epoch_write api s k seen
            = Inr (Some (s', (case seen of None \<Rightarrow> 1 | Some (n, _) \<Rightarrow> n + 1)))
          \<and> rows s' = (rows s)(k \<mapsto> (\<lparr>te_epoch = (case seen of None \<Rightarrow> 1 | Some (n, _) \<Rightarrow> n + 1)\<rparr>, e', False))
          \<and> (\<forall>r e d. rows s k = Some (r, e, d) \<longrightarrow> e < e')
          \<and> (seen = None \<longleftrightarrow> rows s k = None)
          \<and> (\<forall>n etag. seen = Some (n, etag) \<longrightarrow> (\<exists>r. rows s k = Some (r, etag, False))))
     \<or> (epoch_write api s k seen = Inr None)
     \<or> (epoch_write api s k seen = Inl NotFound \<and> seen \<noteq> None \<and> rows s k = None)"
proof (cases seen)
  case None
  show ?thesis
  proof (cases "rows s k")
    case None
    from create_absent [OF this, of "\<lparr>te_epoch = 1\<rparr>"] None \<open>seen = None\<close>
    show ?thesis by (auto simp: epoch_write_def)
  next
    case (Some row)
    with create_present [of s k] None show ?thesis by (simp add: epoch_write_def)
  qed
next
  case (Some x)
  obtain n etag where x: "seen = Some (n, etag)" using Some by (cases x) auto
  show ?thesis
  proof (cases rule: modify_cases [of s k "\<lparr>te_epoch = n + 1\<rparr>" "Some etag"])
    case 1
    with x show ?thesis by (simp add: epoch_write_def)
  next
    case (2 r0 e)
    with assms show ?thesis by (simp add: none_deleted_def)
  next
    case (3 r0 e e')
    with x show ?thesis by (simp add: epoch_write_def)
  next
    case (4 r0 e s' e')
    with x show ?thesis by (auto simp: epoch_write_def)
  qed
qed

lemma advance_alone:
  assumes "none_deleted s"
  shows "\<exists>s' e'. advance_sync api s k = Inr (s', epoch_of s k + 1)
     \<and> rows s' = (rows s)(k \<mapsto> (\<lparr>te_epoch = epoch_of s k + 1\<rparr>, e', False))"
proof -
  let ?seen = "map_option (\<lambda>(r, e, d). (te_epoch r, e)) (rows s k)"
  have "\<exists>s' e'. epoch_write api s k ?seen = Inr (Some (s', epoch_of s k + 1))
     \<and> rows s' = (rows s)(k \<mapsto> (\<lparr>te_epoch = epoch_of s k + 1\<rparr>, e', False))"
  proof (cases "rows s k")
    case None
    from create_absent [OF this, of "\<lparr>te_epoch = 1\<rparr>"] None show ?thesis
      by (auto simp: epoch_write_def epoch_of_def)
  next
    case (Some row)
    then obtain r e where r: "rows s k = Some (r, e, False)"
      using none_deletedD [OF assms] by (cases row) auto
    from modify_live [OF r, of "Some e" "\<lparr>te_epoch = te_epoch r + 1\<rparr>"] r show ?thesis
      by (auto simp: epoch_write_def epoch_of_def)
  qed
  moreover obtain n where "MAX_CAS_RETRIES = Suc n"
    by (metis MAX_CAS_RETRIES_def old.nat.exhaust zero_neq_numeral)
  then have "advance_sync api s k = advance_loop api (Suc n) s k" by (simp add: advance_sync_def)
  ultimately show ?thesis
    using epoch_read_eq [OF assms, of k] by auto
qed

text \<open>What holds in every interleaving.\<close>

definition answers_of :: "'s epoch_world \<Rightarrow> string \<Rightarrow> int list" where
  "answers_of w k = map snd (filter (\<lambda>a. fst a = k) (rev (ew_answers w)))"

definition epochs_ok :: "'s epoch_world \<Rightarrow> bool" where
  "epochs_ok w \<longleftrightarrow>
     none_deleted (ew_store w)
     \<and> (\<forall>k. answers_of w k = map int [1..<Suc (nat (epoch_of (ew_store w) k))]
           \<and> 0 \<le> epoch_of (ew_store w) k)
     \<and> (\<forall>p k n etag. ew_pending w p = Some (k, Some (n, etag)) \<longrightarrow>
          (\<exists>r e. rows (ew_store w) k = Some (r, e, False) \<and> etag \<le> e \<and> (etag = e \<longrightarrow> te_epoch r = n)))"

lemma epochs_ok_pending:
  "epochs_ok w \<Longrightarrow> ew_pending w p = Some (k, Some (n, etag)) \<Longrightarrow>
     \<exists>r e. rows (ew_store w) k = Some (r, e, False) \<and> etag \<le> e \<and> (etag = e \<longrightarrow> te_epoch r = n)"
  unfolding epochs_ok_def by blast

lemma epochs_ok_write:
  assumes ok: "epochs_ok w" and pend: "ew_pending w p = Some (k, seen)"
    and wr: "epoch_write api (ew_store w) k seen = Inr (Some (s', n))"
  shows "epochs_ok (w\<lparr>ew_store := s', ew_pending := (ew_pending w)(p := None),
                     ew_answers := (k, n) # ew_answers w\<rparr>)"
proof -
  let ?s = "ew_store w"
  have nd: "none_deleted ?s" using ok by (simp add: epochs_ok_def)
  from epoch_write_cases [OF nd, of k seen] wr obtain e' where
    n: "n = (case seen of None \<Rightarrow> 1 | Some (m, _) \<Rightarrow> m + 1)"
    and rows': "rows s' = (rows ?s)(k \<mapsto> (\<lparr>te_epoch = n\<rparr>, e', False))"
    and later: "\<forall>r e d. rows ?s k = Some (r, e, d) \<longrightarrow> e < e'"
    and none: "seen = None \<longleftrightarrow> rows ?s k = None"
    and same: "\<forall>m etag. seen = Some (m, etag) \<longrightarrow> (\<exists>r. rows ?s k = Some (r, etag, False))"
    by auto
  have val: "n = epoch_of ?s k + 1"
  proof (cases seen)
    case None
    with n none show ?thesis by (simp add: epoch_of_def)
  next
    case (Some x)
    obtain m etag where x: "seen = Some (m, etag)" using Some by (cases x) auto
    with same obtain r where r: "rows ?s k = Some (r, etag, False)" by blast
    with epochs_ok_pending [OF ok pend [unfolded x]] have "te_epoch r = m" by auto
    with n x r show ?thesis by (simp add: epoch_of_def)
  qed
  have ep: "epoch_of s' j = (if j = k then n else epoch_of ?s j)" for j
    by (simp add: epoch_of_def rows')
  have ans: "answers_of (w\<lparr>ew_store := s', ew_pending := (ew_pending w)(p := None),
        ew_answers := (k, n) # ew_answers w\<rparr>) j = answers_of w j @ (if j = k then [n] else [])" for j
    by (simp add: answers_of_def)
  have old: "answers_of w j = map int [1..<Suc (nat (epoch_of ?s j))]" "0 \<le> epoch_of ?s j" for j
    using ok by (auto simp: epochs_ok_def)
  have new: "map int [1..<Suc (nat (epoch_of ?s k))] @ [n] = map int [1..<Suc (nat n)]"
  proof -
    have "nat n = Suc (nat (epoch_of ?s k))" using val old(2) [of k] by simp
    then show ?thesis using val old(2) [of k] by simp
  qed
  have "none_deleted s'" using nd rows' by (auto simp: none_deleted_def)
  moreover have "\<exists>r e. rows s' j = Some (r, e, False) \<and> etag \<le> e \<and> (etag = e \<longrightarrow> te_epoch r = m)"
    if held: "ew_pending w q = Some (j, Some (m, etag))" for q j m etag
  proof -
    obtain r e where r: "rows ?s j = Some (r, e, False)" "etag \<le> e" "etag = e \<longrightarrow> te_epoch r = m"
      using epochs_ok_pending [OF ok held] by blast
    show ?thesis
    proof (cases "j = k")
      case True
      with r later rows' show ?thesis by fastforce
    next
      case False
      with r rows' show ?thesis by auto
    qed
  qed
  moreover have "answers_of (w\<lparr>ew_store := s', ew_pending := (ew_pending w)(p := None),
        ew_answers := (k, n) # ew_answers w\<rparr>) j = map int [1..<Suc (nat (epoch_of s' j))]
      \<and> 0 \<le> epoch_of s' j" for j
  proof (cases "j = k")
    case True
    have "0 \<le> n" using val old(2) [of k] by simp
    then show ?thesis unfolding ans ep True old(1) by (simp only: if_True new simp_thms)
  next
    case False
    then show ?thesis unfolding ans ep by (simp only: if_False append_Nil2 old simp_thms)
  qed
  ultimately show ?thesis
    unfolding epochs_ok_def by (simp del: upt_Suc fun_upd_apply) (simp add: fun_upd_apply)
qed

lemma epochs_ok_read:
  assumes ok: "epochs_ok w" and rd: "epoch_read api (ew_store w) k = Inr seen"
  shows "epochs_ok (w\<lparr>ew_pending := (ew_pending w)(p \<mapsto> (k, seen))\<rparr>)"
proof -
  have nd: "none_deleted (ew_store w)" using ok by (simp add: epochs_ok_def)
  have seen: "seen = map_option (\<lambda>(r, e, d). (te_epoch r, e)) (rows (ew_store w) k)"
    using rd epoch_read_eq [OF nd, of k] by simp
  have "\<exists>r e. rows (ew_store w) j = Some (r, e, False) \<and> etag \<le> e \<and> (etag = e \<longrightarrow> te_epoch r = m)"
    if "((ew_pending w)(p \<mapsto> (k, seen))) q = Some (j, Some (m, etag))" for q j m etag
  proof (cases "q = p")
    case True
    with that seen none_deletedD [OF nd, of j] show ?thesis
      by (cases "rows (ew_store w) j") fastforce+
  next
    case False
    with that epochs_ok_pending [OF ok] show ?thesis by simp
  qed
  with ok show ?thesis unfolding epochs_ok_def answers_of_def by simp
qed

lemma epochs_ok_step:
  assumes "epoch_step api w w'" "epochs_ok w"
  shows "epochs_ok w'"
  using assms(1)
proof (cases rule: epoch_step.cases)
  case read
  with epochs_ok_read [OF assms(2)] show ?thesis by simp
next
  case won
  with epochs_ok_write [OF assms(2)] show ?thesis by simp
next
  case (lost p)
  with assms(2) show ?thesis unfolding epochs_ok_def answers_of_def by simp
qed

lemma reach_epochs_ok:
  assumes "epochs_reach api s0 w" "\<forall>k. rows s0 k = None"
  shows "epochs_ok w"
  using assms(1)
proof induction
  case start
  show ?case
    using assms(2) by (simp add: epochs_ok_def none_deleted_def answers_of_def epoch_of_def)
next
  case (step w w')
  then show ?case using epochs_ok_step by blast
qed

end

sublocale epoch_table \<subseteq> shared: turn_control none_deleted epoch_of
    "\<lambda>s k. case advance_sync api s k of Inr x \<Rightarrow> x | Inl e \<Rightarrow> (s, 0)"
proof (unfold_locales, goal_cases)
  case (1 s k)
  with advance_alone [OF 1, of k] show ?case by (auto simp: none_deleted_def split: if_splits)
next
  case (2 s k)
  with advance_alone [OF 2, of k] show ?case by auto
next
  case (3 s k j)
  with advance_alone [OF 3, of k] show ?case by (auto simp: epoch_of_def)
qed

context epoch_table
begin

lemma shared_runs:
  assumes "none_deleted s"
  shows "none_deleted (fold (\<lambda>k s. fst (case advance_sync api s k of Inr x \<Rightarrow> x | Inl e \<Rightarrow> (s, 0))) ks s)"
    and "epoch_of s k
           < epoch_of (fold (\<lambda>k s. fst (case advance_sync api s k of Inr x \<Rightarrow> x | Inl e \<Rightarrow> (s, 0))) ks s) k
         \<longleftrightarrow> k \<in> set ks"
  using shared.advances_ok [OF assms, of ks] shared.superseded_iff [OF assms, of k ks]
  by (simp_all add: shared.advances_def)

end

interpretation mem_epochs: epoch_table mem_store dict_get
  by unfold_locales

section \<open>Properties\<close>

text \<open>
  C4: over any interleaving of any number of pods, each advancing by its read and its
  compare-and-swap, the answers given for a key are 1, 2, 3 and so on in the order they were
  given, and the row holds the last of them: no two turns ever get the same epoch, none is
  skipped, and the epoch never goes back.
\<close>

theorem epochs_are_linear:
  fixes api :: "('s, turn_epoch) row_api"
  assumes "row_store api rows" "\<forall>k. rows s0 k = None" "epochs_reach api s0 w"
  shows "current_sync api (ew_store w) k = Inr (int (length (filter (\<lambda>a. fst a = k) (ew_answers w))))
     \<and> map snd (filter (\<lambda>a. fst a = k) (rev (ew_answers w)))
         = map int [1..<Suc (length (filter (\<lambda>a. fst a = k) (ew_answers w)))]"
proof -
  note t = epoch_table.intro [OF assms(1)]
  have ok: "epoch_table.epochs_ok rows w"
    by (rule epoch_table.reach_epochs_ok [OF t assms(3,2)])
  let ?e = "epoch_table.epoch_of rows (ew_store w) k"
  have a: "map snd (filter (\<lambda>a. fst a = k) (rev (ew_answers w))) = map int [1..<Suc (nat ?e)]"
    and pos: "0 \<le> ?e" and nd: "epoch_table.none_deleted rows (ew_store w)"
    using ok by (auto simp: epoch_table.epochs_ok_def [OF t] epoch_table.answers_of_def [OF t])
  have "length (filter (\<lambda>a. fst a = k) (ew_answers w)) = nat ?e"
    using arg_cong [OF a, of length] by (simp flip: rev_filter)
  with a pos epoch_table.current_sync_eq [OF t nd, of k] show ?thesis by simp
qed

theorem epochs_are_linear_witness:
  "\<exists>w :: turn_epoch mem epoch_world. ew_answers w = [(''c'', 2), (''c'', 1)]
     \<and> current_sync mem_store (ew_store w) ''c'' = Inr 2"
proof -
  let ?w0 = "\<lparr>ew_store = ([] :: turn_epoch mem), ew_pending = (\<lambda>_. None), ew_answers = []\<rparr>"
  let ?w1 = "?w0\<lparr>ew_pending := (ew_pending ?w0)(0 \<mapsto> (''c'', None))\<rparr>"
  let ?s1 = "[(''c'', \<lparr>te_epoch = 1\<rparr>, 0, False)]"
  let ?w2 = "?w1\<lparr>ew_store := ?s1, ew_pending := (ew_pending ?w1)(0 := None), ew_answers := [(''c'', 1)]\<rparr>"
  let ?w3 = "?w2\<lparr>ew_pending := (ew_pending ?w2)(1 \<mapsto> (''c'', Some (1, 0)))\<rparr>"
  let ?w4 = "?w3\<lparr>ew_store := [(''c'', \<lparr>te_epoch = 2\<rparr>, 1, False)],
                 ew_pending := (ew_pending ?w3)(1 := None), ew_answers := [(''c'', 2), (''c'', 1)]\<rparr>"
  have r1: "epochs_reach mem_store [] ?w1"
    by (rule epochs_reach.step [OF epochs_reach.start epoch_step.read])
       (simp add: epoch_read_def mem_store_defs)
  have r2: "epochs_reach mem_store [] ?w2"
    by (rule epochs_reach.step [OF r1])
       (use epoch_step.won [of ?w1 0 "''c''" None mem_store ?s1 1] in
         \<open>simp add: epoch_write_def mem_store_defs\<close>)
  have r3: "epochs_reach mem_store [] ?w3"
    by (rule epochs_reach.step [OF r2 epoch_step.read]) (simp add: epoch_read_def mem_store_defs)
  have r: "epochs_reach mem_store [] ?w4"
    by (rule epochs_reach.step [OF r3])
       (use epoch_step.won [of ?w3 1 "''c''" "Some (1, 0)" mem_store
            "[(''c'', \<lparr>te_epoch = 2\<rparr>, 1, False)]" 2] in
         \<open>simp add: epoch_write_def mem_store_defs\<close>)
  have "current_sync mem_store (ew_store ?w4) ''c'' = Inr 2"
    using epochs_are_linear [OF mem.row_store_axioms _ r, of "''c''"] by simp
  then show ?thesis by (intro exI [of _ ?w4]) simp
qed

text \<open>
  on either backend, a turn that stamped the epoch when it started finds itself superseded
  exactly when this very key was advanced since: a stop or a newer message of another
  conversation never cancels it, and one of its own never goes unnoticed.
\<close>

theorem superseded_exactly_by_own_key:
  fixes api :: "('s, turn_epoch) row_api"
  assumes "row_store api rows" "\<forall>k. rows s0 k = None"
  defines "bump \<equiv> \<lambda>k s. case advance_sync api s k of Inr (s', n) \<Rightarrow> s' | Inl e \<Rightarrow> s"
  shows "(\<exists>a b. current_sync api (fold bump ks0 s0) k = Inr a
            \<and> current_sync api (fold bump ks (fold bump ks0 s0)) k = Inr b \<and> (a < b \<longleftrightarrow> k \<in> set ks))
     \<and> (memory_current d k < memory_current (fold (\<lambda>k d. fst (memory_advance d k)) ks d) k \<longleftrightarrow> k \<in> set ks)"
proof -
  note t = epoch_table.intro [OF assms(1)]
  let ?adv = "\<lambda>s k. case advance_sync api s k of Inr x \<Rightarrow> x | Inl e \<Rightarrow> (s, 0)"
  have bump: "bump = (\<lambda>k s. fst (?adv s k))"
    unfolding bump_def by (intro ext) (simp split: sum.split prod.split)
  have nd0: "epoch_table.none_deleted rows s0"
    using assms(2) by (simp add: epoch_table.none_deleted_def [OF t])
  let ?s1 = "fold bump ks0 s0"
  have nd1: "epoch_table.none_deleted rows ?s1"
    unfolding bump by (rule epoch_table.shared_runs(1) [OF t nd0])
  have nd2: "epoch_table.none_deleted rows (fold bump ks ?s1)"
    and "epoch_table.epoch_of rows ?s1 k < epoch_table.epoch_of rows (fold bump ks ?s1) k \<longleftrightarrow> k \<in> set ks"
    unfolding bump using epoch_table.shared_runs [OF t nd1 [unfolded bump]] by blast+
  moreover have "memory_current d k < memory_current (fold (\<lambda>k d. fst (memory_advance d k)) ks d) k
      \<longleftrightarrow> k \<in> set ks"
    using memory.superseded_iff [of d k ks] by (simp add: memory.advances_def)
  ultimately show ?thesis
    using epoch_table.current_sync_eq [OF t nd1, of k] epoch_table.current_sync_eq [OF t nd2, of k] by simp
qed

theorem superseded_exactly_by_own_key_witness:
  "\<exists>a b. current_sync mem_store [] ''chat'' = Inr a
      \<and> current_sync mem_store (case advance_sync mem_store ([] :: turn_epoch mem) ''other'' of
            Inr (s', n) \<Rightarrow> s' | Inl e \<Rightarrow> []) ''chat'' = Inr b \<and> \<not> a < b"
  using superseded_exactly_by_own_key [OF mem.row_store_axioms, of "[]" "[]" "''chat''" "[''other'']" "[]"]
  by simp

end
