(* ===== verification/Claims.thy ===== *)
theory Claims
  imports RowStore
begin

text \<open>
  Two kinds of claims shared by many pods over one store, both decided by a compare-and-swap
  on the row's etag.  \<open>api/turn_claims.py\<close>: who runs (or re-runs) a turn.
  \<open>api/refresh_claims.py\<close>: who may spend a refresh token now.

  uuid suffixes and holders are arguments of the operations that draw them.  A key is the byte
  string of its UTF-8 encoding.
\<close>

section \<open>Turn claims\<close>

record 'b turn_claim =
  tc_key :: string
  tc_created_at :: nat
  tc_investigation_id :: string
  tc_rid :: string
  tc_author :: string
  tc_lane :: string
  tc_body :: 'b
  tc_driven_by :: "string option"
  tc_owner :: string
  tc_released :: bool
  tc_reruns :: int
  tc_taken_at_ms :: int

definition claim_id :: "string \<Rightarrow> nat \<Rightarrow> string \<Rightarrow> string" where
  "claim_id key created_at suffix = key @ '':'' @ dec created_at @ '':'' @ suffix"

record 'b claim_row =
  cr_id :: string
  cr_claim :: "'b turn_claim"
  cr_etag :: nat

definition open_claim ::
  "('s, 'b turn_claim) row_api \<Rightarrow> string \<Rightarrow> string \<Rightarrow> 's \<Rightarrow> 'b turn_claim \<Rightarrow> rm_error + 's \<times> string" where
  "open_claim api pod suffix s claim =
     (let cid = claim_id (tc_key claim) (tc_created_at claim) suffix
      in bindE (rm_create api s cid (claim\<lparr>tc_owner := pod, tc_released := False\<rparr>))
           (\<lambda>s'. Inr (s', cid)))"

definition finish :: "('s, 'b turn_claim) row_api \<Rightarrow> 's \<Rightarrow> string \<Rightarrow> rm_error + 's" where
  "finish api s cid =
     (case rm_purge api s cid of
        Inl NotFound \<Rightarrow> Inr s | Inl IsDeleted \<Rightarrow> Inr s | Inl e \<Rightarrow> Inl e | Inr s' \<Rightarrow> Inr s')"

definition list_open :: "('s, 'b turn_claim) row_api \<Rightarrow> 's \<Rightarrow> 'b claim_row list" where
  "list_open api s = map (\<lambda>(i, c, e, d). \<lparr>cr_id = i, cr_claim = c, cr_etag = e\<rparr>) (rm_list api s)"

text \<open>One row of \<open>release\<close>: whatever the write raises, the loop goes on.\<close>

definition release_row ::
  "('s, 'b turn_claim) row_api \<Rightarrow> string \<Rightarrow> string list \<Rightarrow> 'b claim_row \<Rightarrow> 's \<Rightarrow> 's" where
  "release_row api pod keys row s =
     (let claim = cr_claim row in
      if tc_key claim \<notin> set keys \<or> tc_released claim \<or> tc_owner claim \<noteq> pod then s
      else
        (case rm_modify api s (cr_id row) (claim\<lparr>tc_released := True\<rparr>) (Some (cr_etag row)) of
           Inr (s', _) \<Rightarrow> s'
         | Inl e \<Rightarrow> s))"

definition release :: "('s, 'b turn_claim) row_api \<Rightarrow> string \<Rightarrow> 's \<Rightarrow> string list \<Rightarrow> 's" where
  "release api pod s keys = fold (release_row api pod keys) (list_open api s) s"

definition take_claim ::
  "('s, 'b turn_claim) row_api \<Rightarrow> string \<Rightarrow> int \<Rightarrow> 's \<Rightarrow> 'b claim_row \<Rightarrow> rm_error + 's \<times> 'b claim_row" where
  "take_claim api pod now s row =
     (let taken = (cr_claim row)\<lparr>tc_owner := pod, tc_released := False,
                    tc_reruns := tc_reruns (cr_claim row) + 1, tc_taken_at_ms := now\<rparr>
      in bindE (rm_modify api s (cr_id row) taken (Some (cr_etag row)))
           (\<lambda>(s', etag). Inr (s', \<lparr>cr_id = cr_id row, cr_claim = taken, cr_etag = etag\<rparr>)))"

definition is_mine :: "('s, 'b turn_claim) row_api \<Rightarrow> string \<Rightarrow> 's \<Rightarrow> string \<Rightarrow> rm_error + bool" where
  "is_mine api pod s cid =
     (case rm_get api s False cid of
        Inl NotFound \<Rightarrow> Inr False
      | Inl IsDeleted \<Rightarrow> Inr False
      | Inl e \<Rightarrow> Inl e
      | Inr (c, _) \<Rightarrow> Inr (tc_owner c = pod \<and> \<not> tc_released c))"

text \<open>
  Many pods: any pod may act on any row anybody listed before, however stale.  The log holds
  the takes that succeeded: the row, the etag it was taken at, and by whom.  Ids of opened
  claims are not reused (the suffix is a uuid).
\<close>

record ('s, 'b) claims_world =
  cw_store :: 's
  cw_seen :: "'b claim_row set"
  cw_used :: "string set"
  cw_taken :: "((string \<times> nat) \<times> string) list"

inductive claims_step ::
  "('s, 'b turn_claim) row_api \<Rightarrow> ('s, 'b) claims_world \<Rightarrow> ('s, 'b) claims_world \<Rightarrow> bool" for api where
  lists: "claims_step api w (w\<lparr>cw_seen := cw_seen w \<union> set (list_open api (cw_store w))\<rparr>)"
| opens: "open_claim api pod suffix (cw_store w) claim = Inr (s', cid) \<Longrightarrow> cid \<notin> cw_used w \<Longrightarrow>
     claims_step api w (w\<lparr>cw_store := s', cw_used := insert cid (cw_used w)\<rparr>)"
| finishes: "finish api (cw_store w) cid = Inr s' \<Longrightarrow> claims_step api w (w\<lparr>cw_store := s'\<rparr>)"
| releases: "row \<in> cw_seen w \<Longrightarrow>
     claims_step api w (w\<lparr>cw_store := release_row api pod keys row (cw_store w)\<rparr>)"
| takes: "row \<in> cw_seen w \<Longrightarrow> take_claim api pod now (cw_store w) row = Inr (s', row') \<Longrightarrow>
     claims_step api w (w\<lparr>cw_store := s', cw_seen := insert row' (cw_seen w),
                         cw_taken := ((cr_id row, cr_etag row), pod) # cw_taken w\<rparr>)"

inductive claims_reach ::
  "('s, 'b turn_claim) row_api \<Rightarrow> 's \<Rightarrow> ('s, 'b) claims_world \<Rightarrow> bool" for api s0 where
  start: "claims_reach api s0 \<lparr>cw_store = s0, cw_seen = {}, cw_used = {}, cw_taken = []\<rparr>"
| step: "claims_reach api s0 w \<Longrightarrow> claims_step api w w' \<Longrightarrow> claims_reach api s0 w'"

section \<open>Refresh claims\<close>

record refresh_claim =
  rc_key :: string
  rc_holder :: string
  rc_expires_ms :: int

text \<open>\<open>quote(key, safe="")\<close>: unreserved bytes stand for themselves, others as \<open>%XX\<close>.\<close>

definition unreserved :: "char \<Rightarrow> bool" where
  "unreserved c \<longleftrightarrow>
     (let n = (of_char c :: nat) in
      (48 \<le> n \<and> n \<le> 57) \<or> (65 \<le> n \<and> n \<le> 90) \<or> (97 \<le> n \<and> n \<le> 122) \<or> n \<in> {45, 46, 95, 126})"

definition hex :: "nat \<Rightarrow> char" where
  "hex n = (if n < 10 then char_of (48 + n) else char_of (55 + n))"

definition quote_byte :: "char \<Rightarrow> string" where
  "quote_byte c =
     (if unreserved c then [c]
      else [CHR ''%'', hex ((of_char c :: nat) div 16), hex ((of_char c :: nat) mod 16)])"

definition quote :: "string \<Rightarrow> string" where
  "quote s = concat (map quote_byte s)"

text \<open>
  \<open>try_take\<close> in its two calls to the store: create when absent; else read, and compare-and-swap
  if the holder's time is up.  \<open>now\<close> is the clock at the start, \<open>now'\<close> at the check.
\<close>

definition try_create ::
  "('s, refresh_claim) row_api \<Rightarrow> int \<Rightarrow> int \<Rightarrow> string \<Rightarrow> 's \<Rightarrow> string \<Rightarrow> rm_error + 's" where
  "try_create api now ttl holder s key =
     rm_create api s (quote key) \<lparr>rc_key = key, rc_holder = holder, rc_expires_ms = now + ttl\<rparr>"

definition read_expired ::
  "('s, refresh_claim) row_api \<Rightarrow> int \<Rightarrow> 's \<Rightarrow> string \<Rightarrow> rm_error + nat option" where
  "read_expired api now' s key =
     (case rm_get api s False (quote key) of
        Inl NotFound \<Rightarrow> Inr None
      | Inl IsDeleted \<Rightarrow> Inr None
      | Inl e \<Rightarrow> Inl e
      | Inr (r, etag) \<Rightarrow> Inr (if rc_expires_ms r > now' then None else Some etag))"

definition swap_claim ::
  "('s, refresh_claim) row_api \<Rightarrow> int \<Rightarrow> int \<Rightarrow> string \<Rightarrow> 's \<Rightarrow> string \<Rightarrow> nat \<Rightarrow> rm_error + 's option" where
  "swap_claim api now ttl holder s key etag =
     (case rm_modify api s (quote key)
             \<lparr>rc_key = key, rc_holder = holder, rc_expires_ms = now + ttl\<rparr> (Some etag) of
        Inr (s', _) \<Rightarrow> Inr (Some s')
      | Inl PreconditionFailed \<Rightarrow> Inr None
      | Inl e \<Rightarrow> Inl e)"

definition try_take ::
  "('s, refresh_claim) row_api \<Rightarrow> int \<Rightarrow> int \<Rightarrow> int \<Rightarrow> string \<Rightarrow> 's \<Rightarrow> string \<Rightarrow> rm_error + 's \<times> string option"
where
  "try_take api now now' ttl holder s key =
     (case try_create api now ttl holder s key of
        Inr s' \<Rightarrow> Inr (s', Some holder)
      | Inl Duplicate \<Rightarrow>
          bindE (read_expired api now' s key) (\<lambda>seen.
            case seen of
              None \<Rightarrow> Inr (s, None)
            | Some etag \<Rightarrow>
                bindE (swap_claim api now ttl holder s key etag) (\<lambda>got.
                  case got of None \<Rightarrow> Inr (s, None) | Some s' \<Rightarrow> Inr (s', Some holder)))
      | Inl e \<Rightarrow> Inl e)"

definition held :: "('s, refresh_claim) row_api \<Rightarrow> int \<Rightarrow> 's \<Rightarrow> string \<Rightarrow> rm_error + bool" where
  "held api now s key =
     (case rm_get api s False (quote key) of
        Inl NotFound \<Rightarrow> Inr False
      | Inl IsDeleted \<Rightarrow> Inr False
      | Inl e \<Rightarrow> Inl e
      | Inr (r, _) \<Rightarrow> Inr (rc_expires_ms r > now))"

text \<open>Who holds a key at a time, and until when.\<close>

definition holder_at ::
  "('s, refresh_claim) row_api \<Rightarrow> int \<Rightarrow> 's \<Rightarrow> string \<Rightarrow> (string \<times> int) option" where
  "holder_at api t s key =
     (case rm_get api s False (quote key) of
        Inl e \<Rightarrow> None
      | Inr (r, etag) \<Rightarrow> if t < rc_expires_ms r then Some (rc_holder r, rc_expires_ms r) else None)"

text \<open>\<open>release\<close> in its two calls: the holder's read, and the compare-and-swap.\<close>

definition read_own ::
  "('s, refresh_claim) row_api \<Rightarrow> 's \<Rightarrow> string \<Rightarrow> string \<Rightarrow> rm_error + (refresh_claim \<times> nat) option" where
  "read_own api s key holder =
     (case rm_get api s False (quote key) of
        Inl NotFound \<Rightarrow> Inr None
      | Inl IsDeleted \<Rightarrow> Inr None
      | Inl e \<Rightarrow> Inl e
      | Inr (r, etag) \<Rightarrow> Inr (if rc_holder r \<noteq> holder then None else Some (r, etag)))"

definition free_claim ::
  "('s, refresh_claim) row_api \<Rightarrow> 's \<Rightarrow> string \<Rightarrow> refresh_claim \<Rightarrow> nat \<Rightarrow> rm_error + 's" where
  "free_claim api s key r etag =
     (case rm_modify api s (quote key) (r\<lparr>rc_expires_ms := 0\<rparr>) (Some etag) of
        Inr (s', _) \<Rightarrow> Inr s'
      | Inl PreconditionFailed \<Rightarrow> Inr s
      | Inl e \<Rightarrow> Inl e)"

definition release_claim ::
  "('s, refresh_claim) row_api \<Rightarrow> 's \<Rightarrow> string \<Rightarrow> string \<Rightarrow> rm_error + 's" where
  "release_claim api s key holder =
     bindE (read_own api s key holder) (\<lambda>own.
       case own of None \<Rightarrow> Inr s | Some (r, etag) \<Rightarrow> free_claim api s key r etag)"

text \<open>
  Many takers, each between its calls: \<open>rw_takers\<close> holds the read of a taker (key, its clock at
  the start, the etag of the expired row it saw), \<open>rw_freers\<close> that of a releaser (key, the token it
  releases with, the row it read and its etag).
\<close>

record 's refresh_world =
  rw_store :: 's
  rw_now :: int
  rw_takers :: "nat \<Rightarrow> (string \<times> int \<times> nat) option"
  rw_freers :: "nat \<Rightarrow> (string \<times> string \<times> refresh_claim \<times> nat) option"

datatype refresh_event = Granted string string int | Freed nat | Quiet

inductive refresh_step ::
  "('s, refresh_claim) row_api \<Rightarrow> 's refresh_world \<Rightarrow> refresh_event \<Rightarrow> 's refresh_world \<Rightarrow> bool"
  for api where
  create: "try_create api (rw_now w) ttl holder (rw_store w) key = Inr s' \<Longrightarrow>
     refresh_step api w (Granted key holder (rw_now w + ttl)) (w\<lparr>rw_store := s'\<rparr>)"
| look: "read_expired api (rw_now w) (rw_store w) key = Inr (Some etag) \<Longrightarrow> began \<le> rw_now w \<Longrightarrow>
     refresh_step api w Quiet (w\<lparr>rw_takers := (rw_takers w)(p \<mapsto> (key, began, etag))\<rparr>)"
| swap: "rw_takers w p = Some (key, began, etag) \<Longrightarrow>
     swap_claim api began ttl holder (rw_store w) key etag = Inr (Some s') \<Longrightarrow>
     refresh_step api w (Granted key holder (began + ttl))
       (w\<lparr>rw_store := s', rw_takers := (rw_takers w)(p := None)\<rparr>)"
| own: "read_own api (rw_store w) key holder = Inr (Some (r, etag)) \<Longrightarrow>
     refresh_step api w Quiet (w\<lparr>rw_freers := (rw_freers w)(p \<mapsto> (key, holder, r, etag))\<rparr>)"
| free: "rw_freers w p = Some (key, holder, r, etag) \<Longrightarrow>
     free_claim api (rw_store w) key r etag = Inr s' \<Longrightarrow>
     refresh_step api w (Freed p) (w\<lparr>rw_store := s', rw_freers := (rw_freers w)(p := None)\<rparr>)"
| tick: "0 \<le> d \<Longrightarrow> refresh_step api w Quiet (w\<lparr>rw_now := rw_now w + d\<rparr>)"

inductive refresh_reach ::
  "('s, refresh_claim) row_api \<Rightarrow> 's \<Rightarrow> 's refresh_world \<Rightarrow> bool" for api s0 where
  start: "0 \<le> t \<Longrightarrow> refresh_reach api s0
     \<lparr>rw_store = s0, rw_now = t, rw_takers = (\<lambda>_. None), rw_freers = (\<lambda>_. None)\<rparr>"
| step: "refresh_reach api s0 w \<Longrightarrow> refresh_step api w ev w' \<Longrightarrow> refresh_reach api s0 w'"

section \<open>Quoting is injective\<close>

lemma hex_inj: "m < 16 \<Longrightarrow> n < 16 \<Longrightarrow> hex m = hex n \<longleftrightarrow> m = n"
  by (auto simp: hex_def char_of_eq_iff take_bit_eq_mod dest: arg_cong [where f = "of_char :: char \<Rightarrow> nat"]
      split: if_splits)

lemma percent_reserved: "\<not> unreserved (CHR ''%'')"
  by (simp add: unreserved_def)

lemma quote_byte_prefix_free:
  "quote_byte a @ xs = quote_byte b @ ys \<Longrightarrow> a = b \<and> xs = ys"
proof -
  assume eq: "quote_byte a @ xs = quote_byte b @ ys"
  have bound: "(of_char c :: nat) div 16 < 16" "(of_char c :: nat) mod 16 < 16" for c :: char
    using nat_of_char_less_256 [of c] by linarith+
  have joined: "a = b" if "(of_char a :: nat) div 16 = of_char b div 16"
      "(of_char a :: nat) mod 16 = of_char b mod 16"
    using that by (metis div_mult_mod_eq of_char_eq_iff)
  show ?thesis
    using eq percent_reserved bound joined by (auto simp: quote_byte_def hex_inj split: if_splits)
qed

lemma quote_inj: "quote a = quote b \<Longrightarrow> a = b"
proof (induction a arbitrary: b)
  case Nil
  then show ?case by (cases b) (auto simp: quote_def quote_byte_def split: if_splits)
next
  case (Cons c cs)
  then obtain d ds where b: "b = d # ds" by (cases b) (auto simp: quote_def quote_byte_def split: if_splits)
  with Cons.prems quote_byte_prefix_free [of c "quote cs" d "quote ds"] have "c = d" "quote cs = quote ds"
    by (auto simp: quote_def)
  with Cons.IH b show ?case by simp
qed

section \<open>Turn claims in every interleaving\<close>

locale claims_table = row_store api rows
  for api :: "('s, 'b turn_claim) row_api" and rows
begin

definition claims_ok :: "('s, 'b) claims_world \<Rightarrow> bool" where
  "claims_ok w \<longleftrightarrow>
     (\<forall>i c e d. rows (cw_store w) i = Some (c, e, d) \<longrightarrow> i \<in> cw_used w)
     \<and> (\<forall>i c e. rows (cw_store w) i \<noteq> Some (c, e, True))
     \<and> (\<forall>row \<in> cw_seen w. cr_id row \<in> cw_used w
          \<and> (\<forall>c e d. rows (cw_store w) (cr_id row) = Some (c, e, d) \<longrightarrow>
               cr_etag row \<le> e \<and> (cr_etag row = e \<longrightarrow> c = cr_claim row)))
     \<and> (\<forall>i t p. ((i, t), p) \<in> set (cw_taken w) \<longrightarrow> i \<in> cw_used w
          \<and> (\<forall>c e d. rows (cw_store w) i = Some (c, e, d) \<longrightarrow> t < e))
     \<and> distinct (map fst (cw_taken w))"

lemma claims_okD:
  assumes "claims_ok w"
  shows "rows (cw_store w) i = Some (c, e, d) \<Longrightarrow> i \<in> cw_used w"
    and "rows (cw_store w) i \<noteq> Some (c, e, True)"
    and "row \<in> cw_seen w \<Longrightarrow> cr_id row \<in> cw_used w"
    and "row \<in> cw_seen w \<Longrightarrow> rows (cw_store w) (cr_id row) = Some (c, e, d) \<Longrightarrow> cr_etag row \<le> e"
    and "row \<in> cw_seen w \<Longrightarrow> rows (cw_store w) (cr_id row) = Some (c, e, d) \<Longrightarrow> cr_etag row = e
           \<Longrightarrow> c = cr_claim row"
    and "((i, t), p) \<in> set (cw_taken w) \<Longrightarrow> i \<in> cw_used w"
    and "((i, t), p) \<in> set (cw_taken w) \<Longrightarrow> rows (cw_store w) i = Some (c, e, d) \<Longrightarrow> t < e"
    and "distinct (map fst (cw_taken w))"
  using assms unfolding claims_ok_def by blast+

lemma claims_okI:
  assumes "\<And>i c e d. rows (cw_store w) i = Some (c, e, d) \<Longrightarrow> i \<in> cw_used w"
    and "\<And>i c e. rows (cw_store w) i \<noteq> Some (c, e, True)"
    and "\<And>row. row \<in> cw_seen w \<Longrightarrow> cr_id row \<in> cw_used w"
    and "\<And>row c e d. row \<in> cw_seen w \<Longrightarrow> rows (cw_store w) (cr_id row) = Some (c, e, d) \<Longrightarrow> cr_etag row \<le> e"
    and "\<And>row c e d. row \<in> cw_seen w \<Longrightarrow> rows (cw_store w) (cr_id row) = Some (c, e, d) \<Longrightarrow>
           cr_etag row = e \<Longrightarrow> c = cr_claim row"
    and "\<And>i t p. ((i, t), p) \<in> set (cw_taken w) \<Longrightarrow> i \<in> cw_used w"
    and "\<And>i t p c e d. ((i, t), p) \<in> set (cw_taken w) \<Longrightarrow> rows (cw_store w) i = Some (c, e, d) \<Longrightarrow> t < e"
    and "distinct (map fst (cw_taken w))"
  shows "claims_ok w"
  unfolding claims_ok_def by (intro conjI allI ballI impI) (rule assms; assumption)+

text \<open>A later version of a row keeps the invariant.\<close>

lemma claims_ok_newer:
  assumes ok: "claims_ok w" and row: "rows (cw_store w) i = Some (c0, e0, False)"
    and s': "rows s' = (rows (cw_store w))(i \<mapsto> (c', e', False))" "e0 < e'"
  shows "claims_ok (w\<lparr>cw_store := s'\<rparr>)"
proof (rule claims_okI, goal_cases)
  case (1 j c e d)
  then show ?case using claims_okD(1) [OF ok] row s'(1) by (auto split: if_splits)
next
  case (2 j c e)
  then show ?case using claims_okD(2) [OF ok] s'(1) by (auto split: if_splits)
next
  case (3 x)
  then show ?case using claims_okD(3) [OF ok] by simp
next
  case (4 x c e d)
  then have x: "x \<in> cw_seen w" by simp
  have "cr_id x = i \<Longrightarrow> cr_etag x \<le> e0" using claims_okD(4) [OF ok x] row by blast
  with 4 s' show ?case using claims_okD(4) [OF ok x] by (auto split: if_splits)
next
  case (5 x c e d)
  then have x: "x \<in> cw_seen w" by simp
  have "cr_id x = i \<Longrightarrow> cr_etag x \<le> e0" using claims_okD(4) [OF ok x] row by blast
  with 5 s' show ?case using claims_okD(5) [OF ok x] by (auto split: if_splits)
next
  case (6 j t p)
  then show ?case using claims_okD(6) [OF ok] by simp
next
  case (7 j t p c e d)
  then have l: "((j, t), p) \<in> set (cw_taken w)" by simp
  have "j = i \<Longrightarrow> t < e0" using claims_okD(7) [OF ok l] row by blast
  with 7 s' show ?case using claims_okD(7) [OF ok l] by (auto split: if_splits)
next
  case 8
  then show ?case using claims_okD(8) [OF ok] by simp
qed

lemma release_row_cases:
  assumes "claims_ok w" "row \<in> cw_seen w"
  shows "release_row api pod keys row (cw_store w) = cw_store w
     \<or> (\<exists>e'. tc_owner (cr_claim row) = pod
          \<and> rows (cw_store w) (cr_id row) = Some (cr_claim row, cr_etag row, False) \<and> cr_etag row < e'
          \<and> rows (release_row api pod keys row (cw_store w))
              = (rows (cw_store w))(cr_id row \<mapsto> ((cr_claim row)\<lparr>tc_released := True\<rparr>, e', False)))"
proof (cases rule: modify_cases [of "cw_store w" "cr_id row" "(cr_claim row)\<lparr>tc_released := True\<rparr>"
      "Some (cr_etag row)"])
  case (4 r0 e s' e')
  have "r0 = cr_claim row" using claims_okD(5) [OF assms 4(1)] 4(2) by simp
  with 4 show ?thesis by (auto simp: release_row_def Let_def)
qed (auto simp: release_row_def Let_def)

lemma take_claim_rows:
  assumes "claims_ok w" "row \<in> cw_seen w" "take_claim api pod now (cw_store w) row = Inr (s', row')"
  shows "rows (cw_store w) (cr_id row) = Some (cr_claim row, cr_etag row, False)"
    and "cr_id row' = cr_id row" "cr_etag row < cr_etag row'"
    and "tc_owner (cr_claim row') = pod" "\<not> tc_released (cr_claim row')"
    and "rows s' = (rows (cw_store w))(cr_id row \<mapsto> (cr_claim row', cr_etag row', False))"
proof -
  obtain e' where m: "rm_modify api (cw_store w) (cr_id row) (cr_claim row') (Some (cr_etag row)) = Inr (s', e')"
    and row': "cr_id row' = cr_id row" "cr_etag row' = e'" "tc_owner (cr_claim row') = pod"
      "\<not> tc_released (cr_claim row')"
    using assms(3) by (auto simp: take_claim_def Let_def bindE_eq_Inr)
  obtain r0 where r0: "rows (cw_store w) (cr_id row) = Some (r0, cr_etag row, False)" "cr_etag row < e'"
    using modify_Inr(1) [OF m] by auto
  then have "r0 = cr_claim row" using claims_okD(5) [OF assms(1,2)] by blast
  with r0 show "rows (cw_store w) (cr_id row) = Some (cr_claim row, cr_etag row, False)" by simp
  show "rows s' = (rows (cw_store w))(cr_id row \<mapsto> (cr_claim row', cr_etag row', False))"
    using modify_Inr(2) [OF m] row' by simp
  show "cr_id row' = cr_id row" "cr_etag row < cr_etag row'" "tc_owner (cr_claim row') = pod"
      "\<not> tc_released (cr_claim row')"
    using row' r0 by simp_all
qed

lemma claims_ok_step:
  assumes "claims_step api w w'" and ok: "claims_ok w"
  shows "claims_ok w'"
  using assms(1)
proof (cases rule: claims_step.cases)
  case lists
  have "\<exists>d. rows (cw_store w) (cr_id x) = Some (cr_claim x, cr_etag x, d)"
    if "x \<in> set (list_open api (cw_store w))" for x
    using that by (auto simp: list_open_def list_rows)
  then have here: "\<exists>d. rows (cw_store w) (cr_id x) = Some (cr_claim x, cr_etag x, d)"
    if "x \<in> set (list_open api (cw_store w))" for x
    using that by blast
  show ?thesis
    unfolding lists
  proof (rule claims_okI, goal_cases)
    case (3 x)
    then show ?case using claims_okD(1,3) [OF ok] here [of x] by auto
  next
    case (4 x c e d)
    then show ?case using claims_okD(4) [OF ok] here [of x] by auto
  next
    case (5 x c e d)
    then show ?case using claims_okD(5) [OF ok] here [of x] by auto
  qed (use claims_okD [OF ok] in auto)
next
  case (opens pod suffix claim s' cid)
  let ?c = "claim\<lparr>tc_owner := pod, tc_released := False\<rparr>"
  have cr: "rm_create api (cw_store w) cid ?c = Inr s'"
    using opens(2) by (auto simp: open_claim_def Let_def bindE_eq_Inr)
  have "rows (cw_store w) cid = None"
    using create_present [of "cw_store w" cid ?c] cr by (cases "rows (cw_store w) cid") auto
  with create_absent [of "cw_store w" cid ?c] cr obtain e' where
    s': "rows s' = (rows (cw_store w))(cid \<mapsto> (?c, e', False))" by auto
  have seen: "cr_id x \<noteq> cid" if "x \<in> cw_seen w" for x
    using claims_okD(3) [OF assms(2) that] opens(3) by blast
  have log: "i \<noteq> cid" if "((i, t), p) \<in> set (cw_taken w)" for i t p
    using claims_okD(6) [OF assms(2) that] opens(3) by blast
  show ?thesis
    unfolding opens(1)
  proof (rule claims_okI, goal_cases)
    case (1 i c e d)
    then show ?case using claims_okD(1) [OF ok] s' by (auto split: if_splits)
  next
    case (2 i c e)
    then show ?case using claims_okD(2) [OF ok] s' by (auto split: if_splits)
  next
    case (4 x c e d)
    then show ?case using claims_okD(4) [OF ok] s' seen [of x] by auto
  next
    case (5 x c e d)
    then show ?case using claims_okD(5) [OF ok] s' seen [of x] by auto
  next
    case (7 i t p c e d)
    then show ?case using claims_okD(7) [OF ok] s' log [of i t p] by auto
  qed (use claims_okD [OF ok] in auto)
next
  case (finishes cid s')
  have "rows s' = rows (cw_store w) \<or> rows s' = (rows (cw_store w))(cid := None)"
    using finishes(2) purge_absent [of "cw_store w" cid] purge_present [of "cw_store w" cid]
    by (cases "rows (cw_store w) cid") (auto simp: finish_def)
  then have gone: "rows s' i = Some x \<Longrightarrow> rows (cw_store w) i = Some x" for i x
    by (auto split: if_splits)
  show ?thesis
    unfolding finishes(1)
    by (rule claims_okI) (use claims_okD [OF ok] in \<open>auto dest!: gone\<close>)
next
  case (releases row pod keys)
  from release_row_cases [OF ok releases(2), of pod keys] show ?thesis
  proof (elim disjE exE conjE)
    assume "release_row api pod keys row (cw_store w) = cw_store w"
    with ok releases(1) show ?thesis by simp
  next
    fix e' assume "rows (cw_store w) (cr_id row) = Some (cr_claim row, cr_etag row, False)"
      "cr_etag row < e'" "rows (release_row api pod keys row (cw_store w))
        = (rows (cw_store w))(cr_id row \<mapsto> ((cr_claim row)\<lparr>tc_released := True\<rparr>, e', False))"
    from claims_ok_newer [OF ok this(1) this(3) this(2)] releases(1) show ?thesis by simp
  qed
next
  case (takes row pod now s' row')
  note t = take_claim_rows [OF assms(2) takes(2,3)]
  have newer: "claims_ok (w\<lparr>cw_store := s'\<rparr>)"
    by (rule claims_ok_newer [OF assms(2) t(1) t(6) t(3)])
  have used: "cr_id row \<in> cw_used w" by (rule claims_okD(3) [OF assms(2) takes(2)])
  have fresh: "((cr_id row, cr_etag row), p) \<notin> set (cw_taken w)" for p
    using claims_okD(7) [OF assms(2) _ t(1)] by blast
  then have unlogged: "(cr_id row, cr_etag row) \<notin> fst ` set (cw_taken w)" by force
  note new = claims_okD [OF newer, simplified]
  have cur: "rows s' (cr_id row) = Some (cr_claim row', cr_etag row', False)" using t(6) by simp
  show ?thesis
    unfolding takes(1)
  proof (rule claims_okI, goal_cases)
    case (3 x)
    then show ?case using new(3) used t(2) by auto
  next
    case (4 x c e d)
    then show ?case using new(4) [of x c e d] cur t(2) by auto
  next
    case (5 x c e d)
    then show ?case using new(5) [of x c e d] cur t(2) by auto
  next
    case (6 i u p)
    then show ?case using new(6) [of i u p] used by auto
  next
    case (7 i u p c e d)
    then show ?case using new(7) [of i u p c e d] cur t(3) by auto
  next
    case 8
    then show ?case using new(8) unlogged by simp
  qed (use new(1,2) in auto)
qed

lemma reach_claims_ok:
  assumes "claims_reach api s0 w" "\<forall>i. rows s0 i = None"
  shows "claims_ok w"
  using assms(1)
proof induction
  case start
  show ?case using assms(2) by (simp add: claims_ok_def)
next
  case (step w w')
  then show ?case using claims_ok_step by blast
qed

lemma is_mine_eq:
  "is_mine api p s cid = Inr (case rows s cid of
       None \<Rightarrow> False | Some (c, e, d) \<Rightarrow> \<not> d \<and> tc_owner c = p \<and> \<not> tc_released c)"
  by (auto simp: is_mine_def get_law split: option.splits)

end

interpretation mem_claims: claims_table mem_store dict_get
  by unfold_locales

section \<open>Refresh claims in every interleaving\<close>

locale refresh_table = row_store api rows
  for api :: "('s, refresh_claim) row_api" and rows
begin

definition refresh_ok :: "'s refresh_world \<Rightarrow> bool" where
  "refresh_ok w \<longleftrightarrow>
     (\<forall>p k began etag. rw_takers w p = Some (k, began, etag) \<longrightarrow>
        (\<forall>r e d. rows (rw_store w) (quote k) = Some (r, e, d) \<longrightarrow>
           etag \<le> e \<and> (etag = e \<longrightarrow> rc_expires_ms r \<le> rw_now w)))
     \<and> (\<forall>p k h r0 etag. rw_freers w p = Some (k, h, r0, etag) \<longrightarrow>
        (\<forall>r e d. rows (rw_store w) (quote k) = Some (r, e, d) \<longrightarrow>
           etag \<le> e \<and> (etag = e \<longrightarrow> r = r0 \<and> rc_holder r = h)))
     \<and> (\<forall>p k began etag. rw_takers w p = Some (k, began, etag) \<longrightarrow> rows (rw_store w) (quote k) \<noteq> None)
     \<and> (\<forall>p k h r0 etag. rw_freers w p = Some (k, h, r0, etag) \<longrightarrow> rows (rw_store w) (quote k) \<noteq> None)"

lemma refresh_okD:
  assumes "refresh_ok w"
  shows "rw_takers w p = Some (k, began, etag) \<Longrightarrow> rows (rw_store w) (quote k) = Some (r, e, d) \<Longrightarrow> etag \<le> e"
    and "rw_takers w p = Some (k, began, etag) \<Longrightarrow> rows (rw_store w) (quote k) = Some (r, e, d) \<Longrightarrow>
           etag = e \<Longrightarrow> rc_expires_ms r \<le> rw_now w"
    and "rw_freers w p = Some (k, h, r0, etag) \<Longrightarrow> rows (rw_store w) (quote k) = Some (r, e, d) \<Longrightarrow> etag \<le> e"
    and "rw_freers w p = Some (k, h, r0, etag) \<Longrightarrow> rows (rw_store w) (quote k) = Some (r, e, d) \<Longrightarrow>
           etag = e \<Longrightarrow> r = r0 \<and> rc_holder r = h"
    and "rw_takers w p = Some (k, began, etag) \<Longrightarrow> rows (rw_store w) (quote k) \<noteq> None"
    and "rw_freers w p = Some (k, h, r0, etag) \<Longrightarrow> rows (rw_store w) (quote k) \<noteq> None"
proof -
  note ok = assms [unfolded refresh_ok_def]
  note A = ok [THEN conjunct1] and B = ok [THEN conjunct2, THEN conjunct1]
  note C = ok [THEN conjunct2, THEN conjunct2, THEN conjunct1]
    and D = ok [THEN conjunct2, THEN conjunct2, THEN conjunct2]
  show "rw_takers w p = Some (k, began, etag) \<Longrightarrow> rows (rw_store w) (quote k) = Some (r, e, d) \<Longrightarrow> etag \<le> e"
    using A by blast
  show "rw_takers w p = Some (k, began, etag) \<Longrightarrow> rows (rw_store w) (quote k) = Some (r, e, d) \<Longrightarrow>
           etag = e \<Longrightarrow> rc_expires_ms r \<le> rw_now w"
    using A by blast
  show "rw_freers w p = Some (k, h, r0, etag) \<Longrightarrow> rows (rw_store w) (quote k) = Some (r, e, d) \<Longrightarrow> etag \<le> e"
    using B by blast
  show "rw_freers w p = Some (k, h, r0, etag) \<Longrightarrow> rows (rw_store w) (quote k) = Some (r, e, d) \<Longrightarrow>
           etag = e \<Longrightarrow> r = r0 \<and> rc_holder r = h"
    using B by blast
  show "rw_takers w p = Some (k, began, etag) \<Longrightarrow> rows (rw_store w) (quote k) \<noteq> None"
    using C by blast
  show "rw_freers w p = Some (k, h, r0, etag) \<Longrightarrow> rows (rw_store w) (quote k) \<noteq> None"
    using D by blast
qed

lemma refresh_okI:
  assumes "\<And>p k began etag r e d. rw_takers w p = Some (k, began, etag) \<Longrightarrow>
      rows (rw_store w) (quote k) = Some (r, e, d) \<Longrightarrow> etag \<le> e"
    and "\<And>p k began etag r e d. rw_takers w p = Some (k, began, etag) \<Longrightarrow>
      rows (rw_store w) (quote k) = Some (r, e, d) \<Longrightarrow> etag = e \<Longrightarrow> rc_expires_ms r \<le> rw_now w"
    and "\<And>p k h r0 etag r e d. rw_freers w p = Some (k, h, r0, etag) \<Longrightarrow>
      rows (rw_store w) (quote k) = Some (r, e, d) \<Longrightarrow> etag \<le> e"
    and "\<And>p k h r0 etag r e d. rw_freers w p = Some (k, h, r0, etag) \<Longrightarrow>
      rows (rw_store w) (quote k) = Some (r, e, d) \<Longrightarrow> etag = e \<Longrightarrow> r = r0 \<and> rc_holder r = h"
    and "\<And>p k began etag. rw_takers w p = Some (k, began, etag) \<Longrightarrow> rows (rw_store w) (quote k) \<noteq> None"
    and "\<And>p k h r0 etag. rw_freers w p = Some (k, h, r0, etag) \<Longrightarrow> rows (rw_store w) (quote k) \<noteq> None"
  shows "refresh_ok w"
  unfolding refresh_ok_def
  by (intro conjI allI impI)
     (rule assms(1-3,5,6) assms(4) [THEN conjunct1] assms(4) [THEN conjunct2]; assumption)+

lemma read_expired_some:
  "read_expired api now s key = Inr (Some etag) \<Longrightarrow>
     \<exists>r. rows s (quote key) = Some (r, etag, False) \<and> rc_expires_ms r \<le> now"
  by (auto simp: read_expired_def get_law split: option.splits if_splits prod.splits)

lemma read_own_some:
  "read_own api s key holder = Inr (Some (r, etag)) \<Longrightarrow>
     rows s (quote key) = Some (r, etag, False) \<and> rc_holder r = holder"
  by (auto simp: read_own_def get_law split: option.splits if_splits prod.splits)

lemma swap_claim_some:
  assumes "swap_claim api began ttl holder s key etag = Inr (Some s')"
  shows "\<exists>r e'. rows s (quote key) = Some (r, etag, False) \<and> etag < e'
     \<and> rows s' = (rows s)(quote key \<mapsto>
          (\<lparr>rc_key = key, rc_holder = holder, rc_expires_ms = began + ttl\<rparr>, e', False))"
proof -
  obtain e' where m: "rm_modify api s (quote key)
      \<lparr>rc_key = key, rc_holder = holder, rc_expires_ms = began + ttl\<rparr> (Some etag) = Inr (s', e')"
    using assms by (auto simp: swap_claim_def split: sum.splits rm_error.splits)
  from modify_Inr [OF m] show ?thesis by auto
qed

lemma free_claim_cases:
  assumes "free_claim api s key r etag = Inr s'"
  shows "s' = s \<or> (\<exists>r0 e'. rows s (quote key) = Some (r0, etag, False) \<and> etag < e'
     \<and> rows s' = (rows s)(quote key \<mapsto> (r\<lparr>rc_expires_ms := 0\<rparr>, e', False)))"
proof (cases rule: modify_cases [of s "quote key" "r\<lparr>rc_expires_ms := 0\<rparr>" "Some etag"])
  case (4 r0 e s1 e1)
  with assms show ?thesis by (auto simp: free_claim_def)
qed (use assms in \<open>auto simp: free_claim_def\<close>)

lemma try_create_some:
  assumes "try_create api now ttl holder s key = Inr s'"
  shows "rows s (quote key) = None \<and> (\<exists>e'. rows s' = (rows s)(quote key \<mapsto>
          (\<lparr>rc_key = key, rc_holder = holder, rc_expires_ms = now + ttl\<rparr>, e', False)))"
proof -
  let ?r = "\<lparr>rc_key = key, rc_holder = holder, rc_expires_ms = now + ttl\<rparr>"
  have cr: "rm_create api s (quote key) ?r = Inr s'" using assms by (simp add: try_create_def)
  then have "rows s (quote key) = None"
    using create_present [of s "quote key" ?r] by (cases "rows s (quote key)") auto
  with create_absent [of s "quote key" ?r] cr show ?thesis by auto
qed

text \<open>A newer version of one row keeps the invariant, with pending reads only removed.\<close>

lemma refresh_ok_newer:
  assumes ok: "refresh_ok w" and row: "rows (rw_store w) i = Some (r0, e0, d0)"
    and s': "rows s' = (rows (rw_store w))(i \<mapsto> (r', e', False))" "e0 < e'"
    and sub: "\<And>p. ts p = rw_takers w p \<or> ts p = None" "\<And>p. fs p = rw_freers w p \<or> fs p = None"
  shows "refresh_ok (w\<lparr>rw_store := s', rw_takers := ts, rw_freers := fs\<rparr>)"
proof -
  have ts: "ts p = Some x \<Longrightarrow> rw_takers w p = Some x" for p x using sub(1) [of p] by auto
  have fs: "fs p = Some x \<Longrightarrow> rw_freers w p = Some x" for p x using sub(2) [of p] by auto
  show ?thesis
  proof (rule refresh_okI, goal_cases)
    case (1 p k began etag r e d)
    then have t: "rw_takers w p = Some (k, began, etag)" using ts by simp
    have "quote k = i \<Longrightarrow> etag \<le> e0" using refresh_okD(1) [OF ok t] row by blast
    with 1 s' show ?case using refresh_okD(1) [OF ok t] by (auto split: if_splits)
  next
    case (2 p k began etag r e d)
    then have t: "rw_takers w p = Some (k, began, etag)" using ts by simp
    have "quote k = i \<Longrightarrow> etag \<le> e0" using refresh_okD(1) [OF ok t] row by blast
    with 2 s' show ?case using refresh_okD(2) [OF ok t] by (auto split: if_splits)
  next
    case (3 p k h r1 etag r e d)
    then have t: "rw_freers w p = Some (k, h, r1, etag)" using fs by simp
    have "quote k = i \<Longrightarrow> etag \<le> e0" using refresh_okD(3) [OF ok t] row by blast
    with 3 s' show ?case using refresh_okD(3) [OF ok t] by (auto split: if_splits)
  next
    case (4 p k h r1 etag r e d)
    then have t: "rw_freers w p = Some (k, h, r1, etag)" using fs by simp
    have "quote k = i \<Longrightarrow> etag \<le> e0" using refresh_okD(3) [OF ok t] row by blast
    with 4 s' show ?case using refresh_okD(4) [OF ok t] by (auto split: if_splits)
  next
    case (5 p k began etag)
    then have "rw_takers w p = Some (k, began, etag)" using ts by simp
    then show ?case using refresh_okD(5) [OF ok] s' by auto
  next
    case (6 p k h r1 etag)
    then have "rw_freers w p = Some (k, h, r1, etag)" using fs by simp
    then show ?case using refresh_okD(6) [OF ok] s' by auto
  qed
qed

lemma refresh_ok_step:
  assumes "refresh_step api w ev w'" and ok: "refresh_ok w"
  shows "refresh_ok w'"
  using assms(1)
proof (cases rule: refresh_step.cases)
  case (create ttl holder key s')
  from try_create_some [OF create(3)] obtain e' where new: "rows (rw_store w) (quote key) = None"
    "rows s' = (rows (rw_store w))(quote key \<mapsto>
        (\<lparr>rc_key = key, rc_holder = holder, rc_expires_ms = rw_now w + ttl\<rparr>, e', False))" by blast
  have other: "quote k \<noteq> quote key" if "rw_takers w p = Some (k, b, t)" for p k b t
    using refresh_okD(5) [OF ok that] new(1) by metis
  have other': "quote k \<noteq> quote key" if "rw_freers w p = Some (k, h, b, t)" for p k h b t
    using refresh_okD(6) [OF ok that] new(1) by metis
  have same: "rw_takers w p = Some (k, b, t) \<Longrightarrow> rows s' (quote k) = rows (rw_store w) (quote k)"
    and same': "rw_freers w p = Some (k, h, r, t) \<Longrightarrow> rows s' (quote k) = rows (rw_store w) (quote k)" for p k b t h r
    using other other' new(2) by auto
  show ?thesis
    unfolding create(2)
  proof (rule refresh_okI, goal_cases)
    case (1 p k b t r e d)
    then show ?case using refresh_okD(1) [OF ok, of p k b t r e d] same [of p k b t] by simp
  next
    case (2 p k b t r e d)
    then show ?case using refresh_okD(2) [OF ok, of p k b t r e d] same [of p k b t] by simp
  next
    case (3 p k h q t r e d)
    then show ?case using refresh_okD(3) [OF ok, of p k h q t r e d] same' [of p k h q t] by simp
  next
    case (4 p k h q t r e d)
    then show ?case using refresh_okD(4) [OF ok, of p k h q t r e d] same' [of p k h q t] by auto
  next
    case (5 p k b t)
    then show ?case using refresh_okD(5) [OF ok, of p k b t] same [of p k b t] by simp
  next
    case (6 p k h q t)
    then show ?case using refresh_okD(6) [OF ok, of p k h q t] same' [of p k h q t] by simp
  qed
next
  case (look key etag began p)
  from read_expired_some [OF look(3)] obtain r where r:
    "rows (rw_store w) (quote key) = Some (r, etag, False)" "rc_expires_ms r \<le> rw_now w" by blast
  show ?thesis
    unfolding look(2)
    by (rule refresh_okI) (use r refresh_okD [OF ok] in \<open>auto split: if_splits\<close>)
next
  case (swap p key began etag ttl holder s')
  from swap_claim_some [OF swap(4)] obtain r e' where
    "rows (rw_store w) (quote key) = Some (r, etag, False)" "etag < e'"
    "rows s' = (rows (rw_store w))(quote key \<mapsto>
        (\<lparr>rc_key = key, rc_holder = holder, rc_expires_ms = began + ttl\<rparr>, e', False))" by blast
  from refresh_ok_newer [OF ok this(1) this(3) this(2), of "(rw_takers w)(p := None)" "rw_freers w"]
  show ?thesis unfolding swap(2) by simp
next
  case (own key holder r etag p)
  from read_own_some [OF own(3)]
  have r: "rows (rw_store w) (quote key) = Some (r, etag, False)" "rc_holder r = holder" by simp_all
  show ?thesis
    unfolding own(2)
    by (rule refresh_okI) (use r refresh_okD [OF ok] in \<open>auto split: if_splits\<close>)
next
  case (free p key holder r etag s')
  from free_claim_cases [OF free(4)] show ?thesis
  proof (elim disjE exE conjE)
    assume "s' = rw_store w"
    then show ?thesis
      unfolding free(2)
      by (intro refresh_okI) (use refresh_okD [OF ok] in \<open>auto split: if_splits\<close>)
  next
    fix r0 e' assume "rows (rw_store w) (quote key) = Some (r0, etag, False)" "etag < e'"
      "rows s' = (rows (rw_store w))(quote key \<mapsto> (r\<lparr>rc_expires_ms := 0\<rparr>, e', False))"
    from refresh_ok_newer [OF ok this(1) this(3) this(2), of "rw_takers w" "(rw_freers w)(p := None)"]
    show ?thesis unfolding free(2) by simp
  qed
next
  case (tick d)
  show ?thesis
    unfolding tick(2)
  proof (rule refresh_okI, goal_cases)
    case (2 p k b t r e da)
    then have "rc_expires_ms r \<le> rw_now w" using refresh_okD(2) [OF ok, of p k b t r e da] by simp
    with tick(3) show ?case by simp
  qed (use refresh_okD(1,3-6) [OF ok] in auto)
qed

lemma reach_refresh_ok: "refresh_reach api s0 w \<Longrightarrow> refresh_ok w"
proof (induction rule: refresh_reach.induct)
  case (start t)
  show ?case by (simp add: refresh_ok_def)
next
  case (step w ev w')
  then show ?case using refresh_ok_step by blast
qed

lemma holder_at_eq:
  "holder_at api t s key = (case rows s (quote key) of
       None \<Rightarrow> None
     | Some (r, e, d) \<Rightarrow> if \<not> d \<and> t < rc_expires_ms r then Some (rc_holder r, rc_expires_ms r) else None)"
  by (auto simp: holder_at_def get_law split: option.splits)

lemma held_holder: "held api t s key = Inr (holder_at api t s key \<noteq> None)"
  by (auto simp: held_def holder_at_def get_law split: option.splits)

lemma held_eq:
  "held api now s key = Inr (\<exists>r e. rows s (quote key) = Some (r, e, False) \<and> now < rc_expires_ms r)"
  by (auto simp: held_def get_law split: option.splits)

end

interpretation mem_refresh: refresh_table mem_store dict_get
  by unfold_locales

section \<open>Properties\<close>

text \<open>
  C3: over any interleaving of openings, listings, takes, releases and finishes by any number
  of pods, acting on rows however stale, a claim as listed (its row at one etag) is taken at
  most once: whoever tries it afterwards is told so by the store and changes nothing.
\<close>

theorem one_taker_per_claim:
  fixes api :: "('s, 'b turn_claim) row_api"
  assumes "row_store api rows" "\<forall>i. rows s0 i = None" "claims_reach api s0 w"
  shows "distinct (map fst (cw_taken w))
     \<and> (\<forall>row \<in> cw_seen w. (cr_id row, cr_etag row) \<in> fst ` set (cw_taken w) \<longrightarrow>
          take_claim api pod now (cw_store w) row = Inl PreconditionFailed
          \<or> take_claim api pod now (cw_store w) row = Inl NotFound)"
proof -
  note t = claims_table.intro [OF assms(1)]
  have ok: "claims_table.claims_ok rows w" by (rule claims_table.reach_claims_ok [OF t assms(3,2)])
  have "take_claim api pod now (cw_store w) row = Inl PreconditionFailed
      \<or> take_claim api pod now (cw_store w) row = Inl NotFound"
    if seen: "row \<in> cw_seen w" and logged: "(cr_id row, cr_etag row) \<in> fst ` set (cw_taken w)" for row
  proof -
    obtain p where p: "((cr_id row, cr_etag row), p) \<in> set (cw_taken w)" using logged by force
    let ?c = "(cr_claim row)\<lparr>tc_owner := pod, tc_released := False,
                    tc_reruns := tc_reruns (cr_claim row) + 1, tc_taken_at_ms := now\<rparr>"
    show ?thesis
    proof (cases "rows (cw_store w) (cr_id row)")
      case None
      then show ?thesis
        using row_store.modify_absent [OF assms(1) None] by (simp add: take_claim_def)
    next
      case (Some x)
      obtain c e d where x: "rows (cw_store w) (cr_id row) = Some (c, e, d)" using Some by (cases x) auto
      have "\<not> d" using claims_table.claims_okD(2) [OF t ok] x by (cases d) auto
      moreover have "cr_etag row \<noteq> e" using claims_table.claims_okD(7) [OF t ok p x] by simp
      ultimately show ?thesis
        using row_store.modify_stale [OF assms(1), of "cw_store w" "cr_id row" c e "cr_etag row" ?c] x
        by (simp add: take_claim_def)
    qed
  qed
  with claims_table.claims_okD(8) [OF t ok] show ?thesis by blast
qed

definition example_claim :: "unit turn_claim" where
  "example_claim = \<lparr>tc_key = ''c'', tc_created_at = 1, tc_investigation_id = [], tc_rid = ''c'',
     tc_author = ''ann'', tc_lane = ''background'', tc_body = (), tc_driven_by = None, tc_owner = ''dead'',
     tc_released = False, tc_reruns = 0, tc_taken_at_ms = 0\<rparr>"

definition listed_world :: "(unit turn_claim mem, unit) claims_world" where
  "listed_world = \<lparr>cw_store = [(claim_id ''c'' 1 ''u'', example_claim, 0, False)],
     cw_seen = {\<lparr>cr_id = claim_id ''c'' 1 ''u'', cr_claim = example_claim, cr_etag = 0\<rparr>},
     cw_used = {claim_id ''c'' 1 ''u''}, cw_taken = []\<rparr>"

lemma listed_world_reached: "claims_reach mem_store [] listed_world"
proof -
  let ?id = "claim_id ''c'' 1 ''u''"
  let ?w0 = "\<lparr>cw_store = [], cw_seen = {}, cw_used = {}, cw_taken = []\<rparr> :: (unit turn_claim mem, unit) claims_world"
  let ?w1 = "?w0\<lparr>cw_store := [(?id, example_claim, 0 :: nat, False)], cw_used := {?id}\<rparr>"
  have r1: "claims_reach mem_store [] ?w1"
    by (rule claims_reach.step [OF claims_reach.start])
       (use claims_step.opens [of mem_store "''dead''" "''u''" ?w0 example_claim
          "[(?id, example_claim, 0 :: nat, False)]" ?id] in
         \<open>simp add: open_claim_def Let_def mem_store_defs example_claim_def\<close>)
  have "claims_step mem_store ?w1 listed_world"
    using claims_step.lists [of mem_store ?w1]
    by (simp add: list_open_def mem_store_defs listed_world_def)
  with r1 show ?thesis by (rule claims_reach.step)
qed

lemma listed_world_take:
  "take_claim mem_store ''pod1'' 5 (cw_store listed_world)
      \<lparr>cr_id = claim_id ''c'' 1 ''u'', cr_claim = example_claim, cr_etag = 0\<rparr>
   = Inr ([(claim_id ''c'' 1 ''u'',
            example_claim\<lparr>tc_owner := ''pod1'', tc_reruns := 1, tc_taken_at_ms := 5\<rparr>, 1, False)],
          \<lparr>cr_id = claim_id ''c'' 1 ''u'',
           cr_claim = example_claim\<lparr>tc_owner := ''pod1'', tc_reruns := 1, tc_taken_at_ms := 5\<rparr>,
           cr_etag = 1\<rparr>)"
  by (simp add: take_claim_def Let_def mem_store_defs example_claim_def listed_world_def)

theorem one_taker_per_claim_witness:
  "\<exists>w :: (unit turn_claim mem, unit) claims_world.
     map snd (cw_taken w) = [''pod1'']
     \<and> (\<exists>row \<in> cw_seen w. take_claim mem_store ''pod2'' 9 (cw_store w) row \<in> {Inl PreconditionFailed, Inl NotFound})"
proof -
  let ?r = "\<lparr>cr_id = claim_id ''c'' 1 ''u'', cr_claim = example_claim, cr_etag = 0\<rparr>"
  have "?r \<in> cw_seen listed_world" by (simp add: listed_world_def)
  from claims_step.takes [OF this listed_world_take]
  obtain w where st: "claims_step mem_store listed_world w" and w: "?r \<in> cw_seen w"
      "cw_taken w = [((cr_id ?r, cr_etag ?r), ''pod1'')]"
    by (auto simp: listed_world_def)
  have r: "claims_reach mem_store [] w" by (rule claims_reach.step [OF listed_world_reached st])
  have "take_claim mem_store ''pod2'' 9 (cw_store w) ?r \<in> {Inl PreconditionFailed, Inl NotFound}"
    using one_taker_per_claim [OF mem.row_store_axioms _ r, of "''pod2''" 9] w by auto
  with w show ?thesis by (intro exI [of _ w]) auto
qed

text \<open>
  ownership moves only by a take: after one, the turn is the taker's and nobody else's;
  a release, however late, takes nothing away from any other pod (it may only let go of what
  its own pod still owned as listed).
\<close>

theorem release_never_steals:
  fixes api :: "('s, 'b turn_claim) row_api"
  assumes "row_store api rows" "\<forall>i. rows s0 i = None" "claims_reach api s0 w" "row \<in> cw_seen w"
  shows "(\<forall>q cid. q \<noteq> pod \<longrightarrow>
            is_mine api q (release_row api pod keys row (cw_store w)) cid = is_mine api q (cw_store w) cid)
     \<and> (\<forall>s' row' now. take_claim api pod now (cw_store w) row = Inr (s', row') \<longrightarrow>
            (\<forall>q. is_mine api q s' (cr_id row) = Inr (q = pod)))"
proof -
  note t = claims_table.intro [OF assms(1)]
  have ok: "claims_table.claims_ok rows w" by (rule claims_table.reach_claims_ok [OF t assms(3,2)])
  have "is_mine api q (release_row api pod keys row (cw_store w)) cid = is_mine api q (cw_store w) cid"
    if "q \<noteq> pod" for q cid
    using claims_table.release_row_cases [OF t ok assms(4), of pod keys] that
    by (elim disjE exE conjE) (simp_all add: claims_table.is_mine_eq [OF t])
  moreover have "is_mine api q s' (cr_id row) = Inr (q = pod)"
    if "take_claim api pod now (cw_store w) row = Inr (s', row')" for q s' row' now
    using claims_table.take_claim_rows [OF t ok assms(4) that]
    by (auto simp: claims_table.is_mine_eq [OF t])
  ultimately show ?thesis by blast
qed

theorem release_never_steals_witness:
  "\<exists>s' row'. take_claim mem_store ''pod1'' 5 (cw_store listed_world)
        \<lparr>cr_id = claim_id ''c'' 1 ''u'', cr_claim = example_claim, cr_etag = 0\<rparr> = Inr (s', row')
     \<and> is_mine mem_store ''dead'' s' (claim_id ''c'' 1 ''u'') = Inr False"
proof -
  let ?r = "\<lparr>cr_id = claim_id ''c'' 1 ''u'', cr_claim = example_claim, cr_etag = 0\<rparr>"
  have "?r \<in> cw_seen listed_world" by (simp add: listed_world_def)
  from release_never_steals [OF mem.row_store_axioms _ listed_world_reached this, THEN conjunct2]
    listed_world_take
  show ?thesis by fastforce
qed

lemma granted_row:
  fixes api :: "('s, refresh_claim) row_api"
  assumes "row_store api rows" "refresh_reach api s0 w"
    and "refresh_step api w (Granted key holder until) w'"
  shows "(\<not> (\<exists>r e. rows (rw_store w) (quote key) = Some (r, e, False) \<and> rw_now w < rc_expires_ms r))
    \<and> (\<exists>e'. rows (rw_store w') = (rows (rw_store w))(quote key \<mapsto>
        (\<lparr>rc_key = key, rc_holder = holder, rc_expires_ms = until\<rparr>, e', False)))"
proof -
  note tb = refresh_table.intro [OF assms(1)]
  have ok: "refresh_table.refresh_ok rows w" by (rule refresh_table.reach_refresh_ok [OF tb assms(2)])
  show ?thesis
    using assms(3)
  proof (cases rule: refresh_step.cases)
    case (create ttl s')
    with refresh_table.try_create_some [OF tb create(3)] show ?thesis by auto
  next
    case (swap p began etag ttl s')
    obtain r e' where r: "rows (rw_store w) (quote key) = Some (r, etag, False)"
      "rows s' = (rows (rw_store w))(quote key \<mapsto>
        (\<lparr>rc_key = key, rc_holder = holder, rc_expires_ms = began + ttl\<rparr>, e', False))"
      using refresh_table.swap_claim_some [OF tb swap(4)] by blast
    have "rc_expires_ms r \<le> rw_now w"
      by (rule refresh_table.refresh_okD(2) [OF tb ok swap(3) r(1) refl])
    with r swap(1,2) show ?thesis by auto
  qed
qed

lemma freed_row:
  fixes api :: "('s, refresh_claim) row_api"
  assumes "row_store api rows" "refresh_reach api s0 w" "refresh_step api w (Freed p) w'"
  shows "\<exists>key token r etag. rw_freers w p = Some (key, token, r, etag)
     \<and> (if rm_get api (rw_store w) False (quote key) = Inr (r, etag)
        then rc_holder r = token
          \<and> (\<exists>e'. rows (rw_store w') = (rows (rw_store w))(quote key \<mapsto> (r\<lparr>rc_expires_ms := 0\<rparr>, e', False)))
        else rw_store w' = rw_store w)"
  using assms(3)
proof (cases rule: refresh_step.cases)
  case (free key token r etag s')
  note tb = refresh_table.intro [OF assms(1)]
  have ok: "refresh_table.refresh_ok rows w" by (rule refresh_table.reach_refresh_ok [OF tb assms(2)])
  note gets = row_store.get_law [OF assms(1)]
  have "if rm_get api (rw_store w) False (quote key) = Inr (r, etag)
        then rc_holder r = token \<and> (\<exists>e'. rows s' = (rows (rw_store w))(quote key \<mapsto> (r\<lparr>rc_expires_ms := 0\<rparr>, e', False)))
        else s' = rw_store w"
  proof (cases "\<exists>r1. rows (rw_store w) (quote key) = Some (r1, etag, False)")
    case True
    then obtain r1 where r1: "rows (rw_store w) (quote key) = Some (r1, etag, False)" by blast
    have same: "r1 = r \<and> rc_holder r1 = token" by (rule refresh_table.refresh_okD(4) [OF tb ok free(2) r1 refl])
    obtain e1 where "rows s' = (rows (rw_store w))(quote key \<mapsto> (r\<lparr>rc_expires_ms := 0\<rparr>, e1, False))"
    proof (cases rule: row_store.modify_cases [OF assms(1), of "rw_store w" "quote key" "r\<lparr>rc_expires_ms := 0\<rparr>" "Some etag"])
      case (4 r0 e s1 e1)
      with free(3) that show ?thesis by (simp add: free_claim_def)
    qed (use r1 in auto)
    with r1 same show ?thesis by (auto simp: gets)
  next
    case False
    then have "rm_get api (rw_store w) False (quote key) \<noteq> Inr (r, etag)" by (auto simp: gets split: option.splits)
    moreover have "s' = rw_store w" using refresh_table.free_claim_cases [OF tb free(3)] False by auto
    ultimately show ?thesis by simp
  qed
  with free(1,2) show ?thesis by simp
qed

text \<open>
  C8: who holds a refresh key, in any interleaving of takers and releasers between their calls.  A key
  is granted only while nobody's time on it is running, and then it is the taker's, until the time it
  asked for.  A release frees the key exactly when the row is still the one it read, and this row is
  held under the token it releases with: one that comes late frees nothing of a later holder's.  No
  other step, and no step on another key, changes who holds it, and \<open>held\<close> says of every key whether
  somebody does.
\<close>

theorem refresh_grant_excludes_others:
  fixes api :: "('s, refresh_claim) row_api"
  assumes "row_store api rows" "refresh_reach api s0 w" "refresh_step api w ev w'"
  shows "(\<forall>t k. held api t (rw_store w) k = Inr (holder_at api t (rw_store w) k \<noteq> None))
     \<and> (case ev of
          Granted key holder until \<Rightarrow>
            holder_at api (rw_now w) (rw_store w) key = None
            \<and> (\<forall>t k. holder_at api t (rw_store w') k =
                 (if k = key then if t < until then Some (holder, until) else None
                  else holder_at api t (rw_store w) k))
        | Freed p \<Rightarrow> \<exists>key token r etag. rw_freers w p = Some (key, token, r, etag)
            \<and> (rm_get api (rw_store w) False (quote key) = Inr (r, etag) \<longrightarrow> rc_holder r = token)
            \<and> (\<forall>t \<ge> 0. \<forall>k. holder_at api t (rw_store w') k =
                 (if k = key \<and> rm_get api (rw_store w) False (quote key) = Inr (r, etag) then None
                  else holder_at api t (rw_store w) k))
        | Quiet \<Rightarrow> \<forall>t k. holder_at api t (rw_store w') k = holder_at api t (rw_store w) k)"
proof -
  note tb = refresh_table.intro [OF assms(1)]
  note at = refresh_table.holder_at_eq [OF tb]
  have quote_iff: "quote k = quote key \<longleftrightarrow> k = key" for k key using quote_inj by blast
  show ?thesis
  proof (cases ev)
    case (Granted key holder until)
    from granted_row [OF assms(1,2) assms(3) [unfolded Granted]] obtain e' where
      "\<not> (\<exists>r e. rows (rw_store w) (quote key) = Some (r, e, False) \<and> rw_now w < rc_expires_ms r)"
      "rows (rw_store w') = (rows (rw_store w))(quote key \<mapsto>
        (\<lparr>rc_key = key, rc_holder = holder, rc_expires_ms = until\<rparr>, e', False))" by blast
    with Granted show ?thesis
      by (auto simp: refresh_table.held_holder [OF tb] at quote_iff split: option.splits prod.splits)
  next
    case (Freed p)
    from freed_row [OF assms(1,2) assms(3) [unfolded Freed]] obtain key token r etag where
      f: "rw_freers w p = Some (key, token, r, etag)" and
      st: "if rm_get api (rw_store w) False (quote key) = Inr (r, etag)
        then rc_holder r = token
          \<and> (\<exists>e'. rows (rw_store w') = (rows (rw_store w))(quote key \<mapsto> (r\<lparr>rc_expires_ms := 0\<rparr>, e', False)))
        else rw_store w' = rw_store w" by blast
    have "\<forall>t \<ge> 0. \<forall>k. holder_at api t (rw_store w') k =
        (if k = key \<and> rm_get api (rw_store w) False (quote key) = Inr (r, etag) then None
         else holder_at api t (rw_store w) k)"
      using st by (auto simp: at quote_iff split: if_splits)
    with f st Freed show ?thesis by (auto simp: refresh_table.held_holder [OF tb] split: if_splits)
  next
    case Quiet
    with assms(3) have "rw_store w' = rw_store w" by (cases rule: refresh_step.cases) auto
    with Quiet show ?thesis by (simp add: refresh_table.held_holder [OF tb])
  qed
qed

theorem refresh_grant_excludes_others_witness:
  "\<exists>w w'. refresh_reach mem_store [] w \<and> refresh_step mem_store w (Freed 3) w'
     \<and> holder_at mem_store 8 (rw_store w) ''k'' = Some (''h'', 17) \<and> holder_at mem_store 8 (rw_store w') ''k'' = None"
proof -
  let ?r = "\<lparr>rc_key = ''k'', rc_holder = ''h'', rc_expires_ms = 17\<rparr>"
  let ?w0 = "\<lparr>rw_store = ([] :: refresh_claim mem), rw_now = 7, rw_takers = (\<lambda>_. None), rw_freers = (\<lambda>_. None)\<rparr>"
  let ?s1 = "[(quote ''k'', ?r, 0 :: nat, False)]"
  let ?w1 = "?w0\<lparr>rw_store := ?s1\<rparr>"
  let ?w2 = "?w1\<lparr>rw_freers := (rw_freers ?w1)(3 \<mapsto> (''k'', ''h'', ?r, 0))\<rparr>"
  let ?s3 = "[(quote ''k'', ?r\<lparr>rc_expires_ms := 0\<rparr>, 1 :: nat, False)]"
  let ?w3 = "?w2\<lparr>rw_store := ?s3, rw_freers := (rw_freers ?w2)(3 := None)\<rparr>"
  have r0: "refresh_reach mem_store [] ?w0" by (rule refresh_reach.start) simp
  have st1: "refresh_step mem_store ?w0 (Granted ''k'' ''h'' 17) ?w1"
    using refresh_step.create [of mem_store ?w0 10 "''h''" "''k''" ?s1]
    by (simp add: try_create_def mem_store_defs)
  have st2: "refresh_step mem_store ?w1 Quiet ?w2"
    by (rule refresh_step.own) (simp add: read_own_def mem_store_defs)
  have st3: "refresh_step mem_store ?w2 (Freed 3) ?w3"
    using refresh_step.free [of ?w2 3 "''k''" "''h''" ?r 0 mem_store ?s3]
    by (simp add: free_claim_def mem_store_defs)
  have r2: "refresh_reach mem_store [] ?w2" by (rule refresh_reach.step [OF refresh_reach.step [OF r0 st1] st2])
  note f = refresh_grant_excludes_others [OF mem.row_store_axioms r2 st3, THEN conjunct2]
  have "holder_at mem_store 8 (rw_store ?w3) ''k'' = None" using f by (auto simp: mem_store_defs)
  moreover have "holder_at mem_store 8 (rw_store ?w2) ''k'' = Some (''h'', 17)"
    by (simp add: holder_at_def mem_store_defs)
  ultimately show ?thesis using r2 st3 by blast
qed

end
