(* ===== verification/Json.thy ===== *)
theory Json
  imports WsPrelude
begin

text \<open>
  JSON values as the workflow engine hashes and journals them: \<open>json.dumps(value,
  sort_keys=True, ensure_ascii=False)\<close> and the value that reading such a text back gives.
  Floats are left out: integers, strings, lists and objects are what step arguments hold.
  An object is a dictionary in insertion order.
\<close>

section \<open>Values\<close>

datatype json =
  JNull | JBool bool | JInt int | JStr string
| JArr "json list" | JObj "(string \<times> json) list"

text \<open>\<open>isinstance(v, dict)\<close> and \<open>v.get(key)\<close>.\<close>

fun jget :: "json \<Rightarrow> string \<Rightarrow> json option" where
  "jget (JObj kvs) k = dict_get kvs k"
| "jget v k = None"

section \<open>The text\<close>

definition JSON_ESCAPES :: "(char \<times> char) list" where
  "JSON_ESCAPES = [(CHR 0x22, CHR 0x22), (CHR 0x5C, CHR 0x5C), (CHR 0x0A, CHR ''n''),
     (CHR 0x0D, CHR ''r''), (CHR 0x0C, CHR ''f''), (CHR 0x08, CHR ''b''), (CHR 0x09, CHR ''t'')]"

definition hex_digit :: "nat \<Rightarrow> char" where
  "hex_digit n = (if n < 10 then char_of (48 + n) else char_of (87 + n))"

definition json_escape :: "char \<Rightarrow> string" where
  "json_escape c =
     (case map_of JSON_ESCAPES c of
        Some l \<Rightarrow> [CHR 0x5C, l]
      | None \<Rightarrow>
          if of_char c < (32 :: nat)
          then [CHR 0x5C, CHR ''u'', CHR ''0'', CHR ''0'',
                hex_digit (of_char c div 16), hex_digit (of_char c mod 16)]
          else [c])"

definition json_string :: "string \<Rightarrow> string" where
  "json_string s = CHR 0x22 # concat (map json_escape s) @ [CHR 0x22]"

definition json_int :: "int \<Rightarrow> string" where
  "json_int i = (if i < 0 then CHR ''-'' # dec (nat (- i)) else dec (nat i))"

text \<open>The text of a value whose objects are in the order written.\<close>

fun json_text :: "json \<Rightarrow> string" and json_items :: "json list \<Rightarrow> string"
  and json_fields :: "(string \<times> json) list \<Rightarrow> string" where
  "json_text JNull = ''null''"
| "json_text (JBool b) = (if b then ''true'' else ''false'')"
| "json_text (JInt i) = json_int i"
| "json_text (JStr s) = json_string s"
| "json_text (JArr vs) = ''['' @ json_items vs @ '']''"
| "json_text (JObj kvs) = ''{'' @ json_fields kvs @ ''}''"
| "json_items [] = ''''"
| "json_items (v # vs) = json_text v @ (if vs = [] then '''' else '', '' @ json_items vs)"
| "json_fields [] = ''''"
| "json_fields ((k, v) # kvs) =
     json_string k @ '': '' @ json_text v @ (if kvs = [] then '''' else '', '' @ json_fields kvs)"

text \<open>\<open>sort_keys=True\<close>, at every depth.\<close>

fun sorted_keys :: "json \<Rightarrow> json" and sorted_items :: "json list \<Rightarrow> json list"
  and sorted_fields :: "(string \<times> json) list \<Rightarrow> (string \<times> json) list" where
  "sorted_keys (JArr vs) = JArr (sorted_items vs)"
| "sorted_keys (JObj kvs) = JObj (sort_key fst (sorted_fields kvs))"
| "sorted_keys v = v"
| "sorted_items [] = []"
| "sorted_items (v # vs) = sorted_keys v # sorted_items vs"
| "sorted_fields [] = []"
| "sorted_fields ((k, v) # kvs) = (k, sorted_keys v) # sorted_fields kvs"

definition dumps :: "json \<Rightarrow> string" where
  "dumps v = json_text (sorted_keys v)"

section \<open>Equal texts are equal values\<close>

lemma escapes_map_of:
  "map_of JSON_ESCAPES c = Some l \<Longrightarrow> l \<noteq> CHR ''u'' \<and> (map_of JSON_ESCAPES d = Some l \<longrightarrow> c = d)"
  by (auto simp: JSON_ESCAPES_def split: if_splits)

lemma escapes_None: "map_of JSON_ESCAPES c = None \<Longrightarrow> c \<noteq> CHR 0x22 \<and> c \<noteq> CHR 0x5C"
  by (auto simp: JSON_ESCAPES_def split: if_splits)

lemma hex_digit_inj: "m < 16 \<Longrightarrow> n < 16 \<Longrightarrow> hex_digit m = hex_digit n \<longleftrightarrow> m = n"
  by (auto simp: hex_digit_def char_of_eq_iff take_bit_eq_mod
      dest: arg_cong [where f = "of_char :: char \<Rightarrow> nat"] split: if_splits)

lemma json_escape_prefix_free:
  assumes eq: "json_escape a @ xs = json_escape b @ ys"
  shows "a = b \<and> xs = ys"
proof -
  have bound: "(of_char c :: nat) div 16 < 16" "(of_char c :: nat) mod 16 < 16" for c :: char
    using nat_of_char_less_256 [of c] by linarith+
  have joined: "a = b" if "(of_char a :: nat) div 16 = of_char b div 16"
      "(of_char a :: nat) mod 16 = of_char b mod 16"
    using that by (metis div_mult_mod_eq of_char_eq_iff)
  define control where "control c = [CHR 0x5C, CHR ''u'', CHR ''0'', CHR ''0'',
      hex_digit (of_char c div 16), hex_digit (of_char c mod 16)]" for c :: char
  have unmapped: "json_escape c = [c] \<and> c \<noteq> CHR 0x5C \<or> json_escape c = control c"
    if "map_of JSON_ESCAPES c = None" for c
    using that escapes_None [OF that] by (simp add: json_escape_def control_def)
  show ?thesis
  proof (cases "map_of JSON_ESCAPES a"; cases "map_of JSON_ESCAPES b")
    assume "map_of JSON_ESCAPES a = None" "map_of JSON_ESCAPES b = None"
    from unmapped [OF this(1)] unmapped [OF this(2)] eq show ?thesis
    proof (elim disjE conjE)
      assume "json_escape a = control a" "json_escape b = control b"
      with eq have "hex_digit (of_char a div 16) = hex_digit (of_char b div 16)"
        "hex_digit (of_char a mod 16) = hex_digit (of_char b mod 16)" "xs = ys"
        by (simp_all add: control_def)
      with joined show ?thesis by (simp add: hex_digit_inj [OF bound(1) bound(1)]
            hex_digit_inj [OF bound(2) bound(2)])
    qed (auto simp: control_def)
  next
    fix l assume "map_of JSON_ESCAPES a = None" "map_of JSON_ESCAPES b = Some l"
    with eq unmapped [of a] escapes_map_of [of b l b] show ?thesis
      by (auto simp: json_escape_def [of b] control_def)
  next
    fix l assume "map_of JSON_ESCAPES a = Some l" "map_of JSON_ESCAPES b = None"
    with eq unmapped [of b] escapes_map_of [of a l a] show ?thesis
      by (auto simp: json_escape_def [of a] control_def)
  next
    fix l l' assume "map_of JSON_ESCAPES a = Some l" "map_of JSON_ESCAPES b = Some l'"
    with eq escapes_map_of [of a l b] show ?thesis by (simp add: json_escape_def)
  qed
qed

lemma json_escape_hd: "json_escape c \<noteq> [] \<and> hd (json_escape c) \<noteq> CHR 0x22"
  using escapes_None [of c] by (auto simp: json_escape_def split: option.splits)

lemma json_chars_prefix_free:
  "concat (map json_escape s) @ CHR 0x22 # xs = concat (map json_escape t) @ CHR 0x22 # ys
     \<Longrightarrow> s = t \<and> xs = ys"
proof (induction s arbitrary: t)
  case Nil
  then show ?case using json_escape_hd [of "hd t"] by (cases t; cases "json_escape (hd t)") auto
next
  case (Cons c s)
  show ?case
  proof (cases t)
    case Nil
    with Cons.prems json_escape_hd [of c] show ?thesis by (cases "json_escape c") auto
  next
    case (Cons d t')
    have "json_escape c @ concat (map json_escape s) @ CHR 0x22 # xs
        = json_escape d @ concat (map json_escape t') @ CHR 0x22 # ys"
      using Cons.prems Cons by simp
    from json_escape_prefix_free [OF this] Cons.IH [of t'] Cons show ?thesis by simp
  qed
qed

lemma json_string_prefix_free: "json_string s @ xs = json_string t @ ys \<Longrightarrow> s = t \<and> xs = ys"
  using json_chars_prefix_free [of s xs t ys] by (simp add: json_string_def)

text \<open>What may follow a value in a text.\<close>

definition ends_value :: "string \<Rightarrow> bool" where
  "ends_value xs \<longleftrightarrow> xs = [] \<or> hd xs = CHR '','' \<or> hd xs = CHR '']'' \<or> hd xs = CHR ''}''"

lemma ends_value_simps [simp]:
  "ends_value []" "ends_value (CHR '','' # xs)" "ends_value (CHR '']'' # xs)" "ends_value (CHR ''}'' # xs)"
  by (simp_all add: ends_value_def)

text \<open>The first character of a text tells which kind of value it is.\<close>

definition kind_char :: "char \<Rightarrow> nat" where
  "kind_char c = (if c = CHR ''n'' then 0 else if c = CHR ''t'' \<or> c = CHR ''f'' then 1
     else if c = CHR 0x22 then 3 else if c = CHR ''['' then 4 else if c = CHR ''{'' then 5
     else if digit_char c \<or> c = CHR ''-'' then 2 else 6)"

fun json_kind :: "json \<Rightarrow> nat" where
  "json_kind JNull = 0"
| "json_kind (JBool b) = 1"
| "json_kind (JInt i) = 2"
| "json_kind (JStr s) = 3"
| "json_kind (JArr vs) = 4"
| "json_kind (JObj kvs) = 5"

lemma dec_hd: "digit_char (hd (dec n))"
  using dec_digits [of n] by (cases "dec n") auto

lemma json_int_hd: "json_int i \<noteq> [] \<and> (digit_char (hd (json_int i)) \<or> hd (json_int i) = CHR ''-'')"
  using dec_digits dec_hd by (auto simp: json_int_def)

lemma digit_kind: "digit_char c \<or> c = CHR ''-'' \<Longrightarrow> kind_char c = 2"
  by (auto simp: kind_char_def digit_char_def)

lemma json_text_hd: "json_text v \<noteq> [] \<and> kind_char (hd (json_text v)) = json_kind v"
  using json_int_hd digit_kind by (cases v) (auto simp: json_string_def kind_char_def)

lemma json_kind_bound: "json_kind v < 6"
  by (cases v) auto

lemma kind_char_ends: "kind_char (CHR '','') = 6" "kind_char (CHR '']'') = 6" "kind_char (CHR ''}'') = 6"
  by (simp_all add: kind_char_def digit_char_def)

lemma text_hd_not_end: "\<not> ends_value (json_text v @ xs)"
proof -
  have "kind_char (hd (json_text v)) \<noteq> 6" using json_text_hd [of v] json_kind_bound [of v] by simp
  then show ?thesis using json_text_hd [of v] kind_char_ends by (auto simp: ends_value_def)
qed

lemma json_int_prefix_free:
  assumes "json_int i @ xs = json_int j @ ys" "ends_value xs" "ends_value ys"
  shows "i = j \<and> xs = ys"
proof -
  have stop: "zs = [] \<or> \<not> digit_char (hd zs)" if "ends_value zs" for zs
    using that by (auto simp: ends_value_def digit_char_def)
  have minus: "dec n @ us \<noteq> CHR ''-'' # vs" for n us vs
    using dec_digits [of n] by (cases "dec n") (auto simp: digit_char_def)
  have "nat (- i) = nat (- j) \<and> xs = ys" if "i < 0" "j < 0"
    by (rule dec_prefix_free [OF _ stop [OF assms(2)] stop [OF assms(3)]])
       (use assms(1) that in \<open>simp add: json_int_def\<close>)
  moreover have "nat i = nat j \<and> xs = ys" if "\<not> i < 0" "\<not> j < 0"
    by (rule dec_prefix_free [OF _ stop [OF assms(2)] stop [OF assms(3)]])
       (use assms(1) that in \<open>simp add: json_int_def\<close>)
  moreover have "i < 0 \<longleftrightarrow> j < 0"
    using assms(1) minus by (auto simp: json_int_def split: if_splits dest: sym)
  ultimately show ?thesis by linarith
qed

lemma same_kind: "json_text a @ xs = json_text b @ ys \<Longrightarrow> json_kind a = json_kind b"
  using json_text_hd [of a] json_text_hd [of b] by (metis hd_append)

lemma json_prefix_free:
  "json_text a @ xs = json_text b @ ys \<Longrightarrow> ends_value xs \<Longrightarrow> ends_value ys \<Longrightarrow> a = b \<and> xs = ys"
  "json_items vs @ CHR '']'' # xs = json_items ws @ CHR '']'' # ys \<Longrightarrow> vs = ws \<and> xs = ys"
  "json_fields fs @ CHR ''}'' # xs = json_fields gs @ CHR ''}'' # ys \<Longrightarrow> fs = gs \<and> xs = ys"
proof (induction a and vs and fs arbitrary: b xs ys and ws xs ys and gs xs ys
    rule: json_text_json_items_json_fields.induct)
  case 1
  with same_kind [OF 1(1)] show ?case by (cases b) auto
next
  case (2 p)
  with same_kind [OF 2(1)] show ?case by (cases b) (auto split: if_splits)
next
  case (3 i)
  with same_kind [OF 3(1)] json_int_prefix_free [of i xs _ ys] show ?case by (cases b) auto
next
  case (4 s)
  with same_kind [OF 4(1)] json_string_prefix_free [of s xs _ ys] show ?case by (cases b) auto
next
  case (5 us)
  obtain ws where b: "b = JArr ws" using same_kind [OF 5(2)] by (cases b) auto
  with 5(2) have "json_items us @ CHR '']'' # xs = json_items ws @ CHR '']'' # ys" by simp
  from 5(1) [OF this] b show ?case by simp
next
  case (6 kvs)
  obtain gs where b: "b = JObj gs" using same_kind [OF 6(2)] by (cases b) auto
  with 6(2) have "json_fields kvs @ CHR ''}'' # xs = json_fields gs @ CHR ''}'' # ys" by simp
  from 6(1) [OF this] b show ?case by simp
next
  case 7
  show ?case
  proof (cases ws)
    case (Cons w ws')
    with 7 have "CHR '']'' # xs = json_text w @ (if ws' = [] then '''' else '', '' @ json_items ws') @ CHR '']'' # ys"
      by simp
    then have "ends_value (json_text w @ (if ws' = [] then '''' else '', '' @ json_items ws') @ CHR '']'' # ys)"
      by (metis ends_value_simps(3))
    with text_hd_not_end show ?thesis by blast
  qed (use 7 in simp)
next
  case (8 v vs)
  show ?case
  proof (cases ws)
    case Nil
    with 8(3) have "json_text v @ (if vs = [] then '''' else '', '' @ json_items vs) @ CHR '']'' # xs = CHR '']'' # ys"
      by simp
    then have "ends_value (json_text v @ (if vs = [] then '''' else '', '' @ json_items vs) @ CHR '']'' # xs)"
      by (metis ends_value_simps(3))
    with text_hd_not_end show ?thesis by blast
  next
    case (Cons w ws')
    define rest where "rest us zs = (if us = [] then CHR '']'' # zs else '', '' @ json_items us @ CHR '']'' # zs)"
      for us zs
    have ends: "ends_value (rest us zs)" for us zs by (simp add: rest_def)
    have "json_text v @ rest vs xs = json_text w @ rest ws' ys"
      using 8(3) Cons by (simp add: rest_def split: if_splits)
    from 8(1) [OF this ends ends] have "v = w" "rest vs xs = rest ws' ys" by simp_all
    with 8(2) [of xs ws' ys] Cons show ?thesis by (auto simp: rest_def split: if_splits)
  qed
next
  case 9
  then show ?case by (cases gs) (auto simp: json_string_def)
next
  case (10 k v fs)
  show ?case
  proof (cases gs)
    case Nil
    with 10(3) show ?thesis by (auto simp: json_string_def)
  next
    case (Cons g gs')
    obtain l w where g: "g = (l, w)" by fastforce
    define rest where "rest us zs = (if us = [] then CHR ''}'' # zs else '', '' @ json_fields us @ CHR ''}'' # zs)"
      for us zs
    have ends: "ends_value (rest us zs)" for us zs by (simp add: rest_def)
    have "json_string k @ '': '' @ json_text v @ rest fs xs = json_string l @ '': '' @ json_text w @ rest gs' ys"
      using 10(3) Cons g by (simp add: rest_def split: if_splits)
    from json_string_prefix_free [OF this] have "k = l" "json_text v @ rest fs xs = json_text w @ rest gs' ys"
      by simp_all
    with 10(1) [OF _ ends ends] have "k = l" "v = w" "rest fs xs = rest gs' ys" by blast+
    with 10(2) [of xs gs' ys] Cons g show ?thesis by (auto simp: rest_def split: if_splits)
  qed
qed

lemma json_text_inj: "json_text a = json_text b \<longleftrightarrow> a = b"
  using json_prefix_free(1) [of a "[]" b "[]"] by auto

lemma dumps_eq: "dumps a = dumps b \<longleftrightarrow> sorted_keys a = sorted_keys b"
  by (simp add: dumps_def json_text_inj)

section \<open>Sorting is idempotent\<close>

lemma sorted_items_map: "sorted_items vs = map sorted_keys vs"
  by (induction vs) auto

lemma sorted_fields_map: "sorted_fields kvs = map (\<lambda>(k, v). (k, sorted_keys v)) kvs"
  by (induction kvs) auto

lemma insort_key_map:
  "insort_key fst (k, f v) (map (\<lambda>(k, v). (k, f v)) kvs) = map (\<lambda>(k, v). (k, f v)) (insort_key fst (k, v) kvs)"
  by (induction kvs) auto

lemma sort_key_map:
  "sort_key fst (map (\<lambda>(k, v). (k, f v)) kvs) = map (\<lambda>(k, v). (k, f v)) (sort_key fst kvs)"
  by (induction kvs) (auto simp: insort_key_map)

lemma sort_key_twice: "sort_key f (sort_key f xs) = sort_key f xs"
  by (rule sort_key_id_if_sorted) (rule sorted_sort_key)

lemma sorted_keys_twice [simp]:
  "sorted_keys (sorted_keys v) = sorted_keys v"
  "sorted_items (sorted_items vs) = sorted_items vs"
  "sorted_fields (sorted_fields kvs) = sorted_fields kvs"
proof (induction v and vs and kvs rule: sorted_keys_sorted_items_sorted_fields.induct)
  case (2 kvs)
  have "sort_key fst (sorted_fields (sort_key fst (sorted_fields kvs)))
      = sort_key fst (sort_key fst (sorted_fields (sorted_fields kvs)))"
    by (simp only: sorted_fields_map sort_key_map)
  with 2 show ?case by (simp add: sort_key_twice)
qed simp_all

lemma dict_get_filter:
  "dict_get kvs k = (case filter (\<lambda>p. fst p = k) kvs of [] \<Rightarrow> None | p # ps \<Rightarrow> Some (snd p))"
  by (induction kvs) (auto simp: dict_get_def)

lemma dict_get_sort [simp]: "dict_get (sort_key fst kvs) k = dict_get kvs k"
  by (simp add: dict_get_filter sort_key_stable)

lemma keys_sorted_fields [simp]: "map fst (sorted_fields kvs) = map fst kvs"
  by (induction kvs) auto

lemma dict_get_sorted_fields: "dict_get (sorted_fields kvs) k = map_option sorted_keys (dict_get kvs k)"
  by (induction kvs) auto

lemma jget_sorted: "jget (sorted_keys (JObj kvs)) k = map_option sorted_keys (dict_get kvs k)"
  by (simp add: dict_get_sorted_fields)

end
