(* ===== verification/StepJournal.thy ===== *)
theory StepJournal
  imports Json
begin

text \<open>
  The step engine of the workflows, \<open>workflow/engine.py\<close>: the one place that decides whether
  a step runs or is skipped because the journal already holds its result.

  The world \<open>'w\<close> is everything a step's body may read or change, the workspace included; the
  handle gives the engine's own file operations on it.  Bodies, checks and repairs are
  functions of the world.  The events the engine emits are logged in the state; a hook that
  raises is not modelled.  SHA-256 is the argument \<open>digest\<close>.
\<close>

section \<open>Steps\<close>

text \<open>Why a step failed: the reason given, or the engine's own text naming the step.\<close>

datatype failure = Reason string | GateNeverPassed string

datatype step_exn = StepFailed failure | Raised string

record check_result =
  ck_ok :: bool
  ck_reason :: string
  ck_format :: bool

text \<open>Where an event happened: phase, name and key.\<close>

type_synonym step_at = "string \<times> string \<times> string"

datatype step_event =
  StepSkipped step_at | StepStarted step_at | StepRetrying step_at string
| StepRepairing step_at string nat | StepPassed step_at | StepFailedEv step_at failure

record 'w step_state =
  st_world :: 'w
  st_events :: "step_event list"

text \<open>What the engine uses of the handle.\<close>

record 'w handle =
  wf_journal_dir :: string
  wf_exists :: "'w \<Rightarrow> string \<Rightarrow> bool"
  wf_read_json :: "'w \<Rightarrow> string \<Rightarrow> step_exn + json"
  wf_write_record :: "'w \<Rightarrow> string \<Rightarrow> json \<Rightarrow> step_exn + 'w"

record 'w step =
  sp_name :: string
  sp_key :: string
  sp_phase :: string
  sp_args :: json
  sp_execute :: "string option \<Rightarrow> 'w \<Rightarrow> 'w \<times> (step_exn + json)"
  sp_check :: "('w \<Rightarrow> json \<Rightarrow> 'w \<times> (step_exn + check_result)) option"
  sp_retries :: int
  sp_cache :: bool
  sp_repair :: "(check_result \<Rightarrow> 'w \<Rightarrow> 'w \<times> (step_exn + json)) option"

definition input_hash :: "(string \<Rightarrow> string) \<Rightarrow> json \<Rightarrow> string" where
  "input_hash digest args = digest (dumps args)"

definition journal_dir_of :: "string \<Rightarrow> string" where
  "journal_dir_of workflow_id = ''/.workflow/'' @ (if workflow_id = [] then ''_default'' else workflow_id)"

definition journal_stem :: "string \<Rightarrow> string \<Rightarrow> string \<Rightarrow> string" where
  "journal_stem dir name key = dir @ ''/step_'' @ name @ ''/'' @ (if key = [] then ''main'' else key)"

definition artifact_path :: "'w handle \<Rightarrow> string \<Rightarrow> string \<Rightarrow> string" where
  "artifact_path wh name key = journal_stem (wf_journal_dir wh) name key @ ''.json''"

definition step_path :: "'w handle \<Rightarrow> 'w step \<Rightarrow> string" where
  "step_path wh sp = artifact_path wh (sp_name sp) (sp_key sp)"

definition step_at :: "'w step \<Rightarrow> step_at" where
  "step_at sp = (sp_phase sp, sp_name sp, sp_key sp)"

definition emit :: "step_event \<Rightarrow> 'w step_state \<Rightarrow> 'w step_state" where
  "emit ev st = st\<lparr>st_events := st_events st @ [ev]\<rparr>"

definition at_world :: "'w step_state \<Rightarrow> 'w \<Rightarrow> 'w step_state" where
  "at_world st w = st\<lparr>st_world := w\<rparr>"

section \<open>Run or skip\<close>

text \<open>The journaled result to return instead of running, if there is one.\<close>

definition cached_result :: "(string \<Rightarrow> string) \<Rightarrow> 'w handle \<Rightarrow> 'w step \<Rightarrow> 'w \<Rightarrow> step_exn + json option" where
  "cached_result digest wh sp w =
     (if sp_cache sp \<and> wf_exists wh w (step_path wh sp)
      then bindE (wf_read_json wh w (step_path wh sp)) (\<lambda>rec.
             Inr (if jget rec ''hash'' = Some (JStr (input_hash digest (sp_args sp)))
                  then Some (case jget rec ''result'' of None \<Rightarrow> JNull | Some r \<Rightarrow> r)
                  else None))
      else Inr None)"

definition attempt_body ::
  "'w step \<Rightarrow> string option \<Rightarrow> check_result option \<Rightarrow> 'w \<Rightarrow> 'w \<times> (step_exn + json)" where
  "attempt_body sp feedback to_repair w =
     (case (sp_repair sp, to_repair) of
        (Some repair, Some verdict) \<Rightarrow> repair verdict w
      | _ \<Rightarrow> sp_execute sp feedback w)"

definition verdict_on :: "'w step \<Rightarrow> json \<Rightarrow> 'w \<Rightarrow> 'w \<times> (step_exn + check_result)" where
  "verdict_on sp r w =
     (case sp_check sp of
        None \<Rightarrow> (w, Inr \<lparr>ck_ok = True, ck_reason = [], ck_format = False\<rparr>)
      | Some check \<Rightarrow> check w r)"

definition step_record :: "string \<Rightarrow> json \<Rightarrow> json" where
  "step_record h r = JObj [(''hash'', JStr h), (''result'', r)]"

text \<open>The attempts that are left; \<open>feedback\<close> is the last reason, absent at first.\<close>

fun step_loop ::
  "'w handle \<Rightarrow> 'w step \<Rightarrow> string \<Rightarrow> nat \<Rightarrow> string option \<Rightarrow> check_result option \<Rightarrow> nat
   \<Rightarrow> 'w step_state \<Rightarrow> 'w step_state \<times> (step_exn + json)" where
  "step_loop wh sp h 0 feedback to_repair repairs st =
     (let reason = (case feedback of None \<Rightarrow> [] | Some r \<Rightarrow> r) in
      (emit (StepFailedEv (step_at sp) (Reason reason)) st,
       Inl (StepFailed (if reason = [] then GateNeverPassed (sp_name sp) else Reason reason))))"
| "step_loop wh sp h (Suc k) feedback to_repair repairs st =
     (case attempt_body sp feedback to_repair (st_world st) of
        (w, Inl (StepFailed f)) \<Rightarrow>
          (emit (StepFailedEv (step_at sp) f) (at_world st w), Inl (StepFailed f))
      | (w, Inl (Raised e)) \<Rightarrow> (at_world st w, Inl (Raised e))
      | (w, Inr r) \<Rightarrow>
          (case verdict_on sp r w of
             (w', Inl e) \<Rightarrow> (at_world st w', Inl e)
           | (w', Inr v) \<Rightarrow>
               if ck_ok v
               then (case wf_write_record wh w' (step_path wh sp) (step_record h r) of
                       Inl e \<Rightarrow> (at_world st w', Inl e)
                     | Inr w'' \<Rightarrow> (emit (StepPassed (step_at sp)) (at_world st w''), Inr r))
               else
                 let fixable = (if ck_format v then Some v else None) in
                 if k = 0
                 then step_loop wh sp h k (Some (ck_reason v)) fixable repairs (at_world st w')
                 else if sp_repair sp \<noteq> None \<and> fixable \<noteq> None
                 then step_loop wh sp h k (Some (ck_reason v)) fixable (Suc repairs)
                        (emit (StepRepairing (step_at sp) (ck_reason v) (Suc repairs)) (at_world st w'))
                 else step_loop wh sp h k (Some (ck_reason v)) fixable repairs
                        (emit (StepRetrying (step_at sp) (ck_reason v)) (at_world st w'))))"

definition run_step ::
  "(string \<Rightarrow> string) \<Rightarrow> 'w handle \<Rightarrow> 'w step \<Rightarrow> 'w step_state \<Rightarrow> 'w step_state \<times> (step_exn + json)" where
  "run_step digest wh sp st =
     (case cached_result digest wh sp (st_world st) of
        Inl e \<Rightarrow> (st, Inl e)
      | Inr (Some r) \<Rightarrow> (emit (StepSkipped (step_at sp)) st, Inr r)
      | Inr None \<Rightarrow>
          step_loop wh sp (input_hash digest (sp_args sp)) (nat (sp_retries sp + 1)) None None 0
            (emit (StepStarted (step_at sp)) st))"

declare step_loop.simps [simp del]
lemmas step_loop_simps [workflow_simps] = step_loop.simps

lemma state_simps [simp]:
  "st_world (emit ev st) = st_world st" "st_events (emit ev st) = st_events st @ [ev]"
  "st_world (at_world st w) = w" "st_events (at_world st w) = st_events st"
  by (simp_all add: emit_def at_world_def)

section \<open>The journal as a contract\<close>

text \<open>A journal file: the value its JSON text denotes, or a text that is not JSON.\<close>

datatype journal_file = Parsed json | Garbled

text \<open>The step's own bodies and check do not touch the file \<open>p\<close>.\<close>

definition leaves :: "('w \<Rightarrow> string \<Rightarrow> journal_file option) \<Rightarrow> 'w step \<Rightarrow> string \<Rightarrow> bool" where
  "leaves files sp p \<longleftrightarrow>
     (\<forall>fb w. files (fst (sp_execute sp fb w)) p = files w p)
     \<and> (\<forall>c w r. sp_check sp = Some c \<longrightarrow> files (fst (c w r)) p = files w p)
     \<and> (\<forall>c v w. sp_repair sp = Some c \<longrightarrow> files (fst (c v w)) p = files w p)"

lemma leaves_body: "leaves files sp p \<Longrightarrow> files (fst (attempt_body sp fb fixable w)) p = files w p"
  by (auto simp: leaves_def attempt_body_def split: option.splits)

lemma leaves_check: "leaves files sp p \<Longrightarrow> files (fst (verdict_on sp r w)) p = files w p"
  by (auto simp: leaves_def verdict_on_def split: option.splits)

text \<open>
  What the engine relies on: writing a record and reading it back gives the value with its
  keys sorted, and touches no other file.
\<close>

locale step_journal =
  fixes wh :: "'w handle" and files :: "'w \<Rightarrow> string \<Rightarrow> journal_file option"
  assumes exists_law: "wf_exists wh w p \<longleftrightarrow> files w p \<noteq> None"
    and read_law: "files w p = Some (Parsed j) \<Longrightarrow> wf_read_json wh w p = Inr j"
    and garbled_law: "files w p = Some Garbled \<Longrightarrow> \<exists>e. wf_read_json wh w p = Inl e"
    and write_law: "wf_write_record wh w p j = Inr w' \<Longrightarrow>
          files w' = (files w)(p \<mapsto> Parsed (sorted_keys j))"
begin

lemma record_get:
  "jget (sorted_keys (step_record h r)) ''hash'' = Some (JStr h)"
  "jget (sorted_keys (step_record h r)) ''result'' = Some (sorted_keys r)"
  unfolding step_record_def jget_sorted by simp_all

lemma recorded_cached:
  assumes "files w (step_path wh sp) = Some (Parsed (sorted_keys (step_record h r)))"
  shows "cached_result digest wh sp w =
     Inr (if sp_cache sp \<and> h = input_hash digest (sp_args sp) then Some (sorted_keys r) else None)"
  using read_law [OF assms] assms by (auto simp: cached_result_def exists_law record_get)

lemma loop_returns:
  "step_loop wh sp h k fb fixable n st = (st', Inr r) \<Longrightarrow>
     files (st_world st') (step_path wh sp) = Some (Parsed (sorted_keys (step_record h r)))
     \<and> (\<exists>w w' v. verdict_on sp r w = (w', Inr v) \<and> ck_ok v)"
proof (induction k arbitrary: fb fixable n st)
  case (Suc k)
  then show ?case
    by (auto simp: workflow_simps Let_def write_law split: prod.splits sum.splits step_exn.splits if_splits)
       (fastforce+)?
qed (simp add: workflow_simps Let_def)

lemma loop_fails:
  assumes "leaves files sp p"
  shows "step_loop wh sp h k fb fixable n st = (st', Inl e) \<Longrightarrow> files (st_world st') p = files (st_world st) p"
proof (induction k arbitrary: fb fixable n st)
  case (Suc k)
  obtain w out where body: "attempt_body sp fb fixable (st_world st) = (w, out)" by fastforce
  have w: "files w p = files (st_world st) p" using leaves_body [OF assms, of fb fixable "st_world st"] body by simp
  show ?case
  proof (cases out)
    case (Inl e')
    with Suc.prems body w show ?thesis by (cases e') (auto simp: workflow_simps)
  next
    case (Inr r)
    obtain w' verdict where check: "verdict_on sp r w = (w', verdict)" by fastforce
    have w': "files w' p = files w p" using leaves_check [OF assms, of r w] check by simp
    show ?thesis
    proof (cases verdict)
      case (Inl e')
      with Suc.prems body check w w' \<open>out = Inr r\<close> show ?thesis by (auto simp: workflow_simps)
    next
      case (Inr v)
      with Suc.prems body check w w' \<open>out = Inr r\<close> Suc.IH show ?thesis
        by (auto simp: step_loop.simps(2) Let_def split: if_splits sum.splits)
    qed
  qed
qed (auto simp: workflow_simps Let_def)

text \<open>After a run that returned, the journal answers any run of the same step.\<close>

lemma returned_is_recorded:
  assumes "run_step digest wh sp st = (st', Inr r)"
  shows "\<exists>j. files (st_world st') (step_path wh sp) = Some (Parsed j)
     \<and> jget j ''hash'' = Some (JStr (input_hash digest (sp_args sp)))
     \<and> sorted_keys (case jget j ''result'' of None \<Rightarrow> JNull | Some r' \<Rightarrow> r') = sorted_keys r"
proof (cases "cached_result digest wh sp (st_world st)")
  case (Inr cached)
  show ?thesis
  proof (cases cached)
    case None
    with assms Inr have "step_loop wh sp (input_hash digest (sp_args sp)) (nat (sp_retries sp + 1)) None None 0
        (emit (StepStarted (step_at sp)) st) = (st', Inr r)" by (simp add: run_step_def)
    from loop_returns [OF this] show ?thesis by (auto simp: record_get)
  next
    case (Some r')
    with assms Inr have run: "st' = emit (StepSkipped (step_at sp)) st" "r = r'" by (simp_all add: run_step_def)
    from Inr Some obtain j where j: "wf_read_json wh (st_world st) (step_path wh sp) = Inr j"
      "jget j ''hash'' = Some (JStr (input_hash digest (sp_args sp)))"
      "r' = (case jget j ''result'' of None \<Rightarrow> JNull | Some r \<Rightarrow> r)"
      and here: "files (st_world st) (step_path wh sp) \<noteq> None"
      by (auto simp: cached_result_def exists_law bindE_eq_Inr split: if_splits)
    then obtain j' where "files (st_world st) (step_path wh sp) = Some (Parsed j')"
      using garbled_law [of "st_world st" "step_path wh sp"]
      by (cases "the (files (st_world st) (step_path wh sp))") auto
    with read_law j(1) have "files (st_world st) (step_path wh sp) = Some (Parsed j)" by fastforce
    with j run show ?thesis by simp
  qed
qed (use assms in \<open>simp add: run_step_def\<close>)

lemma cached_from_file:
  assumes "files w (step_path wh sp) = Some (Parsed j)" "jget j ''hash'' = Some (JStr h)"
  shows "cached_result digest wh sp w =
     Inr (if sp_cache sp \<and> h = input_hash digest (sp_args sp)
          then Some (case jget j ''result'' of None \<Rightarrow> JNull | Some r \<Rightarrow> r) else None)"
  using read_law [OF assms(1)] assms by (auto simp: cached_result_def exists_law)

lemma runs_again:
  assumes "run_step digest wh sp0 st0 = (st1, Inr r0)" "step_path wh sp = step_path wh sp0"
    and "files (st_world st) (step_path wh sp) = files (st_world st1) (step_path wh sp)"
    and "sp_cache sp" "sorted_keys (sp_args sp) = sorted_keys (sp_args sp0)"
  shows "\<exists>r. run_step digest wh sp st = (emit (StepSkipped (step_at sp)) st, Inr r) \<and> sorted_keys r = sorted_keys r0"
proof -
  obtain j where j: "files (st_world st) (step_path wh sp) = Some (Parsed j)"
      "jget j ''hash'' = Some (JStr (input_hash digest (sp_args sp0)))"
      "sorted_keys (case jget j ''result'' of None \<Rightarrow> JNull | Some r' \<Rightarrow> r') = sorted_keys r0"
    using returned_is_recorded [OF assms(1)] assms(2,3) by auto
  have "input_hash digest (sp_args sp0) = input_hash digest (sp_args sp)"
    using assms(5) by (simp add: input_hash_def dumps_def)
  with cached_from_file [OF j(1,2), of digest] j(3) assms(4) show ?thesis
    by (simp add: run_step_def)
qed

lemma loop_leaves:
  assumes "leaves files sp p" "p \<noteq> step_path wh sp"
  shows "files (st_world (fst (step_loop wh sp h k fb fixable n st))) p = files (st_world st) p"
proof (induction k arbitrary: fb fixable n st)
  case (Suc k)
  obtain w out where body: "attempt_body sp fb fixable (st_world st) = (w, out)" by fastforce
  have w: "files w p = files (st_world st) p" using leaves_body [OF assms(1), of fb fixable "st_world st"] body by simp
  show ?case
  proof (cases out)
    case (Inl e)
    with body w show ?thesis by (cases e) (auto simp: step_loop.simps(2))
  next
    case (Inr r)
    obtain w' verdict where check: "verdict_on sp r w = (w', verdict)" by fastforce
    have w': "files w' p = files w p" using leaves_check [OF assms(1), of r w] check by simp
    show ?thesis
    proof (cases verdict)
      case (Inl e)
      with body check w w' \<open>out = Inr r\<close> show ?thesis by (simp add: step_loop.simps(2))
    next
      case (Inr v)
      have wr: "files w'' p = files w' p"
        if "wf_write_record wh w' (step_path wh sp) (step_record h r) = Inr w''" for w''
        using write_law [OF that] assms(2) by simp
      with body check w w' \<open>out = Inr r\<close> Inr Suc.IH show ?thesis
        by (auto simp: step_loop.simps(2) Let_def split: sum.splits)
    qed
  qed
qed (simp add: step_loop.simps(1) Let_def)

lemma run_leaves:
  assumes "leaves files sp p" "p \<noteq> step_path wh sp"
  shows "files (st_world (fst (run_step digest wh sp st))) p = files (st_world st) p"
  using loop_leaves [OF assms] by (auto simp: run_step_def split: sum.split option.split)

end

section \<open>A journal on a dictionary of files\<close>

type_synonym disk = "string \<Rightarrow> journal_file option"

definition disk_handle :: "string \<Rightarrow> disk handle" where
  "disk_handle dir = \<lparr>wf_journal_dir = dir,
     wf_exists = (\<lambda>w p. w p \<noteq> None),
     wf_read_json = (\<lambda>w p. case w p of Some (Parsed j) \<Rightarrow> Inr j | _ \<Rightarrow> Inl (Raised ''JSONDecodeError'')),
     wf_write_record = (\<lambda>w p j. Inr (w(p \<mapsto> Parsed (sorted_keys j))))\<rparr>"

interpretation disk: step_journal "disk_handle dir" "\<lambda>w. w"
  by unfold_locales (auto simp: disk_handle_def)

section \<open>Properties\<close>

text \<open>
  C10: a step that returned once is skipped exactly when its arguments are the same: whatever
  happened in between, as long as its journal file is as it left it, running it again returns
  the same result with nothing executed and the world untouched if it asks for the cache and
  its arguments are equal (as Python values, key order aside), and executes otherwise.  (The
  digest is only assumed not to collide on the two argument texts.)
\<close>

theorem step_skipped_exactly_when_unchanged:
  assumes "step_journal wh files" "run_step digest wh sp0 st0 = (st1, Inr r0)"
    and "step_path wh sp = step_path wh sp0"
    and "files (st_world st) (step_path wh sp) = files (st_world st1) (step_path wh sp)"
    and "digest (dumps (sp_args sp)) = digest (dumps (sp_args sp0)) \<longrightarrow> dumps (sp_args sp) = dumps (sp_args sp0)"
  shows "if sp_cache sp \<and> sorted_keys (sp_args sp) = sorted_keys (sp_args sp0)
     then \<exists>r. run_step digest wh sp st = (emit (StepSkipped (step_at sp)) st, Inr r) \<and> sorted_keys r = sorted_keys r0
     else run_step digest wh sp st
        = step_loop wh sp (input_hash digest (sp_args sp)) (nat (sp_retries sp + 1)) None None 0
            (emit (StepStarted (step_at sp)) st)"
proof -
  obtain j where j: "files (st_world st) (step_path wh sp) = Some (Parsed j)"
      "jget j ''hash'' = Some (JStr (input_hash digest (sp_args sp0)))"
      "sorted_keys (case jget j ''result'' of None \<Rightarrow> JNull | Some r' \<Rightarrow> r') = sorted_keys r0"
    using step_journal.returned_is_recorded [OF assms(1,2)] assms(3,4) by auto
  have "input_hash digest (sp_args sp0) = input_hash digest (sp_args sp)
      \<longleftrightarrow> sorted_keys (sp_args sp) = sorted_keys (sp_args sp0)"
    using assms(5) unfolding input_hash_def dumps_eq [symmetric] by metis
  with step_journal.cached_from_file [OF assms(1) j(1,2), of digest] j(3) show ?thesis
    by (simp add: run_step_def)
qed

definition write_report :: "json \<Rightarrow> disk step" where
  "write_report args = \<lparr>sp_name = ''report'', sp_key = [], sp_phase = ''draft'', sp_args = args,
     sp_execute = (\<lambda>fb w. (w(''/report.md'' := Some Garbled), Inr (JStr ''report.md''))),
     sp_check = None, sp_retries = 0, sp_cache = True, sp_repair = None\<rparr>"

definition report_run :: "disk step_state" where
  "report_run = fst (run_step (\<lambda>t. t) (disk_handle ''/.workflow/w'') (write_report (JObj [(''a'', JInt 1), (''b'', JInt 2)]))
     \<lparr>st_world = (\<lambda>_. None), st_events = []\<rparr>)"

lemma report_run_returns:
  "run_step (\<lambda>t. t) (disk_handle ''/.workflow/w'') (write_report (JObj [(''a'', JInt 1), (''b'', JInt 2)]))
     \<lparr>st_world = (\<lambda>_. None), st_events = []\<rparr> = (report_run, Inr (JStr ''report.md''))"
  by (simp add: report_run_def run_step_def cached_result_def disk_handle_def write_report_def workflow_simps
      attempt_body_def verdict_on_def step_path_def)

theorem step_skipped_exactly_when_unchanged_witness:
  "\<exists>r. run_step (\<lambda>t. t) (disk_handle ''/.workflow/w'') (write_report (JObj [(''b'', JInt 2), (''a'', JInt 1)])) report_run
      = (emit (StepSkipped (''draft'', ''report'', [])) report_run, Inr r)"
proof -
  let ?sp = "write_report (JObj [(''b'', JInt 2), (''a'', JInt 1)])"
  have "if sp_cache ?sp \<and> sorted_keys (sp_args ?sp) = sorted_keys (JObj [(''a'', JInt 1), (''b'', JInt 2)])
     then \<exists>r. run_step (\<lambda>t. t) (disk_handle ''/.workflow/w'') ?sp report_run
        = (emit (StepSkipped (step_at ?sp)) report_run, Inr r) \<and> sorted_keys r = sorted_keys (JStr ''report.md'')
     else True"
    using step_skipped_exactly_when_unchanged [OF disk.step_journal_axioms report_run_returns, of ?sp report_run]
    by (simp add: step_path_def write_report_def dumps_eq)
  then show ?thesis by (auto simp: write_report_def step_at_def)
qed

text \<open>
  C11: a result is journaled only once its gate has passed, and a failed step leaves no record:
  if a run that executes returns, some verdict on that very result was good and the journal
  holds it under the hash of the arguments; if it raises, and the step's own bodies do not
  write the file, the file is as before.
\<close>

theorem recorded_exactly_when_passed:
  assumes "step_journal wh files" "cached_result digest wh sp (st_world st) = Inr None"
    and "leaves files sp (step_path wh sp)"
  shows "case run_step digest wh sp st of
       (st', Inr r) \<Rightarrow> (\<exists>w w' v. verdict_on sp r w = (w', Inr v) \<and> ck_ok v)
          \<and> files (st_world st') (step_path wh sp)
             = Some (Parsed (sorted_keys (step_record (input_hash digest (sp_args sp)) r)))
     | (st', Inl e) \<Rightarrow> files (st_world st') (step_path wh sp) = files (st_world st) (step_path wh sp)"
proof -
  let ?st = "emit (StepStarted (step_at sp)) st"
  obtain st' out where run: "run_step digest wh sp st = (st', out)" by fastforce
  then have loop: "step_loop wh sp (input_hash digest (sp_args sp)) (nat (sp_retries sp + 1)) None None 0 ?st
      = (st', out)"
    using assms(2) by (simp add: run_step_def)
  show ?thesis
  proof (cases out)
    case (Inl e)
    with step_journal.loop_fails [OF assms(1,3)] loop run show ?thesis by fastforce
  next
    case (Inr r)
    with step_journal.loop_returns [OF assms(1)] loop run show ?thesis by fastforce
  qed
qed

theorem recorded_exactly_when_passed_witness:
  "st_world report_run ''/.workflow/w/step_report/main.json''
     = Some (Parsed (sorted_keys (step_record (dumps (JObj [(''a'', JInt 1), (''b'', JInt 2)])) (JStr ''report.md''))))"
proof -
  let ?sp = "write_report (JObj [(''a'', JInt 1), (''b'', JInt 2)])"
  have l: "leaves (\<lambda>w. w) ?sp (step_path (disk_handle ''/.workflow/w'') ?sp)"
    by (simp add: leaves_def write_report_def step_path_def artifact_path_def journal_stem_def disk_handle_def)
  have "cached_result (\<lambda>t. t) (disk_handle ''/.workflow/w'') ?sp (\<lambda>_. None) = Inr None"
    by (simp add: cached_result_def disk_handle_def)
  with recorded_exactly_when_passed [OF disk.step_journal_axioms _ l,
      of "\<lambda>t. t" "\<lparr>st_world = (\<lambda>_. None), st_events = []\<rparr>"] report_run_returns
  show ?thesis
    by (simp add: input_hash_def step_path_def artifact_path_def journal_stem_def disk_handle_def write_report_def)
qed

section \<open>What a run costs and shows\<close>

lemma loop_calls:
  fixes n :: "'w \<Rightarrow> nat"
  assumes body: "\<And>fb fixable w. n (fst (attempt_body sp fb fixable w)) \<le> Suc (n w)"
    and check: "\<And>r w. n (fst (verdict_on sp r w)) = n w"
    and wr: "\<And>w p j w'. wf_write_record wh w p j = Inr w' \<Longrightarrow> n w' = n w"
  shows "n (st_world (fst (step_loop wh sp h k fb fixable m st))) \<le> n (st_world st) + k"
proof (induction k arbitrary: fb fixable m st)
  case (Suc k)
  obtain w out where b: "attempt_body sp fb fixable (st_world st) = (w, out)" by fastforce
  have w: "n w \<le> Suc (n (st_world st))" using body [of fb fixable "st_world st"] b by simp
  show ?case
  proof (cases out)
    case (Inl e)
    with b w show ?thesis by (cases e) (auto simp: step_loop.simps(2))
  next
    case (Inr r)
    obtain w' verdict where c: "verdict_on sp r w = (w', verdict)" by fastforce
    have w': "n w' = n w" using check [of r w] c by simp
    have later: "n (st_world (fst (step_loop wh sp h k fb' fixable' m' st'))) \<le> Suc (n (st_world st) + k)"
      if "st_world st' = w'" for fb' fixable' m' st'
      using Suc.IH [of fb' fixable' m' st'] that w w' by simp
    show ?thesis
    proof (cases verdict)
      case (Inl e)
      with b c w w' \<open>out = Inr r\<close> show ?thesis by (simp add: step_loop.simps(2))
    next
      case (Inr v)
      with b c w w' \<open>out = Inr r\<close> later show ?thesis
        by (auto simp: step_loop.simps(2) Let_def dest: wr split: sum.splits)
    qed
  qed
qed (simp add: step_loop.simps(1) Let_def)

text \<open>The events of the failed attempts before the last: retries, and repairs counted from \<open>m\<close>.\<close>

fun between :: "step_at \<Rightarrow> nat \<Rightarrow> step_event list \<Rightarrow> bool" where
  "between a m [] = True"
| "between a m (StepRetrying b reason # evs) = (b = a \<and> between a m evs)"
| "between a m (StepRepairing b reason i # evs) = (b = a \<and> i = Suc m \<and> between a (Suc m) evs)"
| "between a m (ev # evs) = False"

definition closes :: "step_at \<Rightarrow> step_exn + json \<Rightarrow> step_event list \<Rightarrow> bool" where
  "closes a out evs =
     (case out of
        Inr r \<Rightarrow> evs = [StepPassed a]
      | Inl e \<Rightarrow> evs = [] \<or> (\<exists>f. evs = [StepFailedEv a f]))"

lemma loop_events:
  "step_loop wh sp h k fb fixable m st = (st', out) \<Longrightarrow>
     \<exists>mids fin. st_events st' = st_events st @ mids @ fin \<and> length mids \<le> k - 1
       \<and> between (step_at sp) m mids \<and> closes (step_at sp) out fin"
proof (induction k arbitrary: fb fixable m st)
  case 0
  then show ?case
    by (intro exI [of _ "[]"] exI [of _ "[StepFailedEv (step_at sp) (Reason (case fb of None \<Rightarrow> [] | Some r \<Rightarrow> r))]"])
       (auto simp: step_loop.simps(1) Let_def closes_def)
next
  case (Suc k)
  obtain w body where b: "attempt_body sp fb fixable (st_world st) = (w, body)" by fastforce
  have over: ?case if "\<exists>fin. st_events st' = st_events st @ fin \<and> closes (step_at sp) out fin"
    by (rule exI [of _ "[]"]) (use that in simp)
  show ?case
  proof (cases body)
    case (Inl e)
    with Suc.prems b have "\<exists>fin. st_events st' = st_events st @ fin \<and> closes (step_at sp) out fin"
      by (cases e) (auto simp: step_loop.simps(2) closes_def)
    then show ?thesis by (rule over)
  next
    case (Inr r)
    obtain w' verdict where c: "verdict_on sp r w = (w', verdict)" by fastforce
    show ?thesis
    proof (cases verdict)
      case (Inl e)
      with Suc.prems b c \<open>body = Inr r\<close> have "\<exists>fin. st_events st' = st_events st @ fin \<and> closes (step_at sp) out fin"
        by (auto simp: step_loop.simps(2) closes_def)
      then show ?thesis by (rule over)
    next
      case (Inr v)
      let ?fix = "if ck_format v then Some v else None"
      let ?next = "step_loop wh sp h k (Some (ck_reason v)) ?fix"
      consider (passed) "ck_ok v" | (last) "\<not> ck_ok v" "k = 0"
        | (more) "\<not> ck_ok v" "k \<noteq> 0" by blast
      then show ?thesis
      proof cases
        case passed
        with Suc.prems b c Inr \<open>body = Inr r\<close>
        have "\<exists>fin. st_events st' = st_events st @ fin \<and> closes (step_at sp) out fin"
          by (auto simp: step_loop.simps(2) closes_def split: sum.splits)
        then show ?thesis by (rule over)
      next
        case last
        with Suc.prems b c Inr \<open>body = Inr r\<close> have "?next m (at_world st w') = (st', out)"
          by (simp add: step_loop.simps(2) Let_def)
        from Suc.IH [OF this] obtain mids fin where
          "st_events st' = st_events st @ mids @ fin" "length mids \<le> k - 1"
          "between (step_at sp) m mids" "closes (step_at sp) out fin" by auto
        then show ?thesis by (intro exI [of _ mids] exI [of _ fin]) auto
      next
        case more
        show ?thesis
        proof (cases "sp_repair sp \<noteq> None \<and> ?fix \<noteq> None")
          case True
          let ?ev = "StepRepairing (step_at sp) (ck_reason v) (Suc m)"
          from True more Suc.prems b c Inr \<open>body = Inr r\<close>
          have "?next (Suc m) (emit ?ev (at_world st w')) = (st', out)"
            by (simp add: step_loop.simps(2) Let_def split: if_splits)
          from Suc.IH [OF this] obtain mids fin where
            "st_events st' = st_events st @ (?ev # mids) @ fin" "length mids \<le> k - 1"
            "between (step_at sp) (Suc m) mids" "closes (step_at sp) out fin" by auto
          with more(2) show ?thesis
            by (intro exI [of _ "?ev # mids"] exI [of _ fin]) auto
        next
          case False
          let ?ev = "StepRetrying (step_at sp) (ck_reason v)"
          from False more Suc.prems b c Inr \<open>body = Inr r\<close>
          have "?next m (emit ?ev (at_world st w')) = (st', out)"
            by (simp add: step_loop.simps(2) Let_def split: if_splits)
          from Suc.IH [OF this] obtain mids fin where
            "st_events st' = st_events st @ (?ev # mids) @ fin" "length mids \<le> k - 1"
            "between (step_at sp) m mids" "closes (step_at sp) out fin" by auto
          with more(2) show ?thesis
            by (intro exI [of _ "?ev # mids"] exI [of _ fin]) auto
        qed
      qed
    qed
  qed
qed

text \<open>
  what a board that follows the events sees of a step: it is skipped, or started, then at
  most \<open>retries\<close> notices of another attempt with the repairs counted one by one, then passed
  exactly when the step returned; it is never reported both passed and failed.
\<close>

theorem step_event_protocol:
  "case run_step digest wh sp st of (st', out) \<Rightarrow>
     (\<exists>evs. st_events st' = st_events st @ evs
        \<and> (evs = [] \<and> (\<exists>e. out = Inl e)
           \<or> evs = [StepSkipped (step_at sp)] \<and> (\<exists>r. out = Inr r)
           \<or> (\<exists>mids fin. evs = StepStarted (step_at sp) # mids @ fin \<and> length mids \<le> nat (sp_retries sp)
                \<and> between (step_at sp) 0 mids \<and> closes (step_at sp) out fin)))"
proof (cases "cached_result digest wh sp (st_world st)")
  case (Inr cached)
  show ?thesis
  proof (cases cached)
    case None
    obtain st' out where loop: "step_loop wh sp (input_hash digest (sp_args sp)) (nat (sp_retries sp + 1)) None None 0
        (emit (StepStarted (step_at sp)) st) = (st', out)" by fastforce
    from loop_events [OF loop] obtain mids fin where
      "st_events st' = st_events st @ StepStarted (step_at sp) # mids @ fin"
      "length mids \<le> nat (sp_retries sp + 1) - 1" "between (step_at sp) 0 mids" "closes (step_at sp) out fin" by auto
    moreover from this(2) have "length mids \<le> nat (sp_retries sp)" by linarith
    ultimately have "\<exists>mids fin. StepStarted (step_at sp) # mids @ fin = StepStarted (step_at sp) # mids @ fin
        \<and> st_events st' = st_events st @ StepStarted (step_at sp) # mids @ fin
        \<and> length mids \<le> nat (sp_retries sp) \<and> between (step_at sp) 0 mids \<and> closes (step_at sp) out fin" by blast
    then show ?thesis using loop Inr None by (simp add: run_step_def) blast
  qed (use Inr in \<open>simp add: run_step_def\<close>)
qed (simp add: run_step_def)

text \<open>
  a step costs at most one call of its body or repair per attempt, \<open>retries + 1\<close> in all, and
  none when it is skipped, whatever its gate answers.
\<close>

theorem step_calls_bounded:
  fixes n :: "'w \<Rightarrow> nat"
  assumes "\<And>fb fixable w. n (fst (attempt_body sp fb fixable w)) \<le> Suc (n w)"
    and "\<And>r w. n (fst (verdict_on sp r w)) = n w"
    and "\<And>w p j w'. wf_write_record wh w p j = Inr w' \<Longrightarrow> n w' = n w"
  shows "n (st_world (fst (run_step digest wh sp st)))
     \<le> n (st_world st) + (if cached_result digest wh sp (st_world st) = Inr None then nat (sp_retries sp + 1) else 0)"
  using loop_calls [of n sp wh "input_hash digest (sp_args sp)" "nat (sp_retries sp + 1)" None None 0
      "emit (StepStarted (step_at sp)) st"] assms
  by (auto simp: run_step_def split: sum.split option.split)

definition flaky :: "int \<Rightarrow> (nat \<times> disk) step" where
  "flaky retries = \<lparr>sp_name = ''ask'', sp_key = [], sp_phase = ''draft'', sp_args = JNull,
     sp_execute = (\<lambda>fb (k, d). ((Suc k, d), Inr JNull)),
     sp_check = Some (\<lambda>w r. (w, Inr \<lparr>ck_ok = False, ck_reason = ''no'', ck_format = False\<rparr>)),
     sp_retries = retries, sp_cache = True, sp_repair = None\<rparr>"

definition counted_handle :: "(nat \<times> disk) handle" where
  "counted_handle = \<lparr>wf_journal_dir = [],
     wf_exists = (\<lambda>(k, w) p. w p \<noteq> None),
     wf_read_json = (\<lambda>(k, w) p. case w p of Some (Parsed j) \<Rightarrow> Inr j | _ \<Rightarrow> Inl (Raised ''JSONDecodeError'')),
     wf_write_record = (\<lambda>(k, w) p j. Inr (k, w(p \<mapsto> Parsed (sorted_keys j))))\<rparr>"

theorem step_calls_bounded_witness:
  "fst (st_world (fst (run_step (\<lambda>t. t) counted_handle (flaky 2) \<lparr>st_world = (0, \<lambda>_. None), st_events = []\<rparr>))) \<le> 3"
proof -
  let ?st = "\<lparr>st_world = (0 :: nat, (\<lambda>_. None) :: disk), st_events = []\<rparr>"
  have body: "fst (fst (attempt_body (flaky 2) fb fixable w)) \<le> Suc (fst w)" for fb fixable w
    by (cases w) (simp add: attempt_body_def flaky_def)
  have verdict: "fst (fst (verdict_on (flaky 2) r w)) = fst w" for r w
    by (simp add: verdict_on_def flaky_def)
  have wr: "wf_write_record counted_handle w p j = Inr w' \<Longrightarrow> fst w' = fst w" for w p j w'
    by (cases w) (auto simp: counted_handle_def)
  have "fst (st_world (fst (run_step (\<lambda>t. t) counted_handle (flaky 2) ?st)))
      \<le> fst (st_world ?st) + (if cached_result (\<lambda>t. t) counted_handle (flaky 2) (st_world ?st) = Inr None
          then nat (sp_retries (flaky 2) + 1) else 0)"
    by (rule step_calls_bounded [OF body verdict wr])
  then show ?thesis by (simp add: flaky_def split: if_splits)
qed

end
