(* ===== verification/DslTemplate.thy ===== *)
theory DslTemplate
  imports StepJournal
begin

text \<open>
  References in a workflow definition, \<open>workflow/dsl.py\<close>: the scanner of \<open>{...}\<close> references and
  doubled braces, their look-up in the run's names and in the journal, and the static check of
  the same references when a definition is saved.  Look-ups only read the world.
\<close>

section \<open>Scanning a template\<close>

definition py_space :: "char \<Rightarrow> bool" where
  "py_space c \<longleftrightarrow> (let n = (of_char c :: nat) in
     (9 \<le> n \<and> n \<le> 13) \<or> (28 \<le> n \<and> n \<le> 32) \<or> n = 133 \<or> n = 160)"

definition strip :: "string \<Rightarrow> string" where
  "strip s = rev (dropWhile py_space (rev (dropWhile py_space s)))"

definition plain :: "char \<Rightarrow> bool" where
  "plain c \<longleftrightarrow> c \<noteq> CHR ''{'' \<and> c \<noteq> CHR ''}''"

text \<open>One match of \<open>_SCAN\<close>, or the text between two.\<close>

datatype piece = PText string | PRef string

function scan :: "string \<Rightarrow> piece list" where
  "scan [] = []"
| "scan (c # cs) =
     (if c = CHR ''{'' \<and> cs \<noteq> [] \<and> hd cs = CHR ''{'' then PText [c] # scan (tl cs)
      else if c = CHR ''}'' \<and> cs \<noteq> [] \<and> hd cs = CHR ''}'' then PText [c] # scan (tl cs)
      else if c = CHR ''{'' \<and> takeWhile plain cs \<noteq> [] \<and> dropWhile plain cs \<noteq> []
              \<and> hd (dropWhile plain cs) = CHR ''}''
      then PRef (takeWhile plain cs) # scan (tl (dropWhile plain cs))
      else PText [c] # scan cs)"
  by pat_completeness auto
termination
  by (relation "measure length") (auto simp: le_imp_less_Suc length_dropWhile_le less_Suc_eq_le diff_le_self
        intro: le_trans [OF diff_le_self length_dropWhile_le])

declare scan.simps(2) [simp del]

text \<open>\<open>_TOKEN.fullmatch\<close>: the whole template is one reference.\<close>

definition whole_ref :: "string \<Rightarrow> string option" where
  "whole_ref t =
     (if length t > 2 \<and> hd t = CHR ''{'' \<and> last t = CHR ''}'' \<and> list_all plain (butlast (tl t))
      then Some (butlast (tl t)) else None)"

fun split_on :: "char \<Rightarrow> string \<Rightarrow> string list" where
  "split_on d [] = [[]]"
| "split_on d (c # cs) =
     (if c = d then [] # split_on d cs
      else (case split_on d cs of [] \<Rightarrow> [[c]] | w # ws \<Rightarrow> (c # w) # ws))"

section \<open>Look-up\<close>

datatype dsl_error =
  UnknownVariable string | NoStepName | NotProduced string | NoFields string
| FieldNotFound string | CannotRead string | NotInteger

datatype dsl_exn =
  DslError dsl_error | StepExn step_exn | Stop json | Revise
| AwaitingHuman string json string "string list"

type_synonym names = "(string, json) dict"

definition stringify :: "json \<Rightarrow> string" where
  "stringify v = (case v of JStr s \<Rightarrow> s | _ \<Rightarrow> dumps v)"

definition is_json_path :: "string \<Rightarrow> bool" where
  "is_json_path s \<longleftrightarrow> 5 \<le> length s \<and> lower (drop (length s - 5) s) = ''.json''"

definition raised :: "step_exn + 'a \<Rightarrow> dsl_exn + 'a" where
  "raised r = (case r of Inl e \<Rightarrow> Inl (StepExn e) | Inr x \<Rightarrow> Inr x)"

definition index :: "'w handle \<Rightarrow> 'w \<Rightarrow> json \<Rightarrow> string \<Rightarrow> dsl_exn + json" where
  "index wh w val seg =
     bindE (case val of
              JStr s \<Rightarrow> (if is_json_path s then raised (wf_read_json wh w s) else Inr val)
            | _ \<Rightarrow> Inr val)
       (\<lambda>v. case v of
              JObj kvs \<Rightarrow>
                (case dict_get kvs seg of
                   None \<Rightarrow> Inl (DslError (FieldNotFound seg))
                 | Some x \<Rightarrow> Inr x)
            | _ \<Rightarrow> Inl (DslError (CannotRead seg)))"

fun indexes :: "'w handle \<Rightarrow> 'w \<Rightarrow> json \<Rightarrow> string list \<Rightarrow> dsl_exn + json" where
  "indexes wh w val [] = Inr val"
| "indexes wh w val (seg # segs) = bindE (index wh w val seg) (\<lambda>v. indexes wh w v segs)"

definition scope_key :: "names \<Rightarrow> string" where
  "scope_key ns = (case dict_get ns ''__key__'' of Some (JStr k) \<Rightarrow> k | _ \<Rightarrow> [])"

text \<open>\<open>result.fields\<close> of a journal record, when it has them.\<close>

definition record_fields :: "json \<Rightarrow> json option" where
  "record_fields rec =
     (case jget rec ''result'' of
        Some result \<Rightarrow> (case jget result ''fields'' of Some (JObj kvs) \<Rightarrow> Some (JObj kvs) | _ \<Rightarrow> None)
      | None \<Rightarrow> None)"

definition lookup_step :: "'w handle \<Rightarrow> names \<Rightarrow> 'w \<Rightarrow> string list \<Rightarrow> dsl_exn + json" where
  "lookup_step wh ns w parts =
     (case parts of
        base # name # segs \<Rightarrow>
          (let path = artifact_path wh name (scope_key ns) in
           if \<not> wf_exists wh w path
           then (if segs = [''feedback''] then Inr (JStr []) else Inl (DslError (NotProduced name)))
           else bindE (raised (wf_read_json wh w path)) (\<lambda>rec.
             case record_fields rec of
               None \<Rightarrow> Inl (DslError (NoFields name))
             | Some flds \<Rightarrow> indexes wh w flds segs))
      | _ \<Rightarrow> Inl (DslError NoStepName))"

definition lookup :: "'w handle \<Rightarrow> names \<Rightarrow> 'w \<Rightarrow> string \<Rightarrow> dsl_exn + json" where
  "lookup wh ns w expr =
     (let parts = split_on (CHR ''.'') expr in
      if hd parts = ''steps'' then lookup_step wh ns w parts
      else (case dict_get ns (hd parts) of
              None \<Rightarrow> Inl (DslError (UnknownVariable expr))
            | Some v \<Rightarrow> indexes wh w v (tl parts)))"

fun fill :: "'w handle \<Rightarrow> names \<Rightarrow> 'w \<Rightarrow> piece list \<Rightarrow> dsl_exn + string" where
  "fill wh ns w [] = Inr []"
| "fill wh ns w (PText s # ps) = bindE (fill wh ns w ps) (\<lambda>r. Inr (s @ r))"
| "fill wh ns w (PRef e # ps) =
     bindE (lookup wh ns w (strip e)) (\<lambda>v. bindE (fill wh ns w ps) (\<lambda>r. Inr (stringify v @ r)))"

definition resolve_text :: "'w handle \<Rightarrow> names \<Rightarrow> 'w \<Rightarrow> string \<Rightarrow> dsl_exn + json" where
  "resolve_text wh ns w t =
     (case whole_ref t of
        Some e \<Rightarrow> lookup wh ns w (strip e)
      | None \<Rightarrow> bindE (fill wh ns w (scan t)) (\<lambda>s. Inr (JStr s)))"

text \<open>A template that is not a string is its own value.\<close>

definition resolve :: "'w handle \<Rightarrow> names \<Rightarrow> 'w \<Rightarrow> json \<Rightarrow> dsl_exn + json" where
  "resolve wh ns w v = (case v of JStr t \<Rightarrow> resolve_text wh ns w t | _ \<Rightarrow> Inr v)"

section \<open>The static check of references\<close>

type_synonym steps_seen = "(string, (string, json) dict) dict"

datatype ref_problem =
  UnknownRoot string string | NeedsStepName string | UnknownStep string string | NoOutputField string string string

definition check_step_ref :: "string \<Rightarrow> steps_seen \<Rightarrow> ref_problem list" where
  "check_step_ref expr seen =
     (case split_on (CHR ''.'') expr of
        base # name # segs \<Rightarrow>
          (case dict_get seen name of
             None \<Rightarrow> [UnknownStep expr name]
           | Some flds \<Rightarrow>
               (case segs of
                  [] \<Rightarrow> []
                | f # fs \<Rightarrow> if dict_get flds f = None then [NoOutputField expr name f] else []))
      | _ \<Rightarrow> [NeedsStepName expr])"

fun check_pieces :: "string list \<Rightarrow> steps_seen option \<Rightarrow> piece list \<Rightarrow> ref_problem list" where
  "check_pieces scope seen [] = []"
| "check_pieces scope seen (PText s # ps) = check_pieces scope seen ps"
| "check_pieces scope seen (PRef e # ps) =
     (let expr = strip e; base = hd (split_on (CHR ''.'') expr) in
      (if base \<notin> set scope then [UnknownRoot expr base]
       else if base = ''steps'' then (case seen of None \<Rightarrow> [] | Some s \<Rightarrow> check_step_ref expr s)
       else []) @ check_pieces scope seen ps)"

fun check_interp :: "string list \<Rightarrow> steps_seen option \<Rightarrow> json \<Rightarrow> ref_problem list"
  and check_interps :: "string list \<Rightarrow> steps_seen option \<Rightarrow> json list \<Rightarrow> ref_problem list"
  and check_fields :: "string list \<Rightarrow> steps_seen option \<Rightarrow> (string \<times> json) list \<Rightarrow> ref_problem list" where
  "check_interp scope seen (JStr t) = check_pieces scope seen (scan t)"
| "check_interp scope seen (JArr vs) = check_interps scope seen vs"
| "check_interp scope seen (JObj kvs) = check_fields scope seen kvs"
| "check_interp scope seen v = []"
| "check_interps scope seen [] = []"
| "check_interps scope seen (v # vs) = check_interp scope seen v @ check_interps scope seen vs"
| "check_fields scope seen [] = []"
| "check_fields scope seen ((k, v) # kvs) = check_interp scope seen v @ check_fields scope seen kvs"

section \<open>Lemmas\<close>

lemma whole_ref_cases:
  "whole_ref t = Some e \<Longrightarrow> t = CHR ''{'' # e @ [CHR ''}''] \<and> e \<noteq> [] \<and> list_all plain e"
  by (cases t; cases "tl t" rule: rev_cases) (auto simp: whole_ref_def split: if_splits)

lemma scan_whole:
  assumes "whole_ref t = Some e"
  shows "scan t = [PRef e]"
proof -
  have "takeWhile plain (e @ [CHR ''}'']) = e" "dropWhile plain (e @ [CHR ''}'']) = [CHR ''}'']"
    using whole_ref_cases [OF assms] by (auto simp: list_all_iff plain_def takeWhile_append dropWhile_append)
  with whole_ref_cases [OF assms] show ?thesis
    by (cases e) (auto simp: scan.simps(2) plain_def)
qed

text \<open>Text with its braces doubled is text.\<close>

definition escape :: "string \<Rightarrow> string" where
  "escape s = concat (map (\<lambda>c. if plain c then [c] else [c, c]) s)"

lemma scan_escape: "scan (escape s) = map (\<lambda>c. PText [c]) s"
  by (induction s) (auto simp: escape_def scan.simps(2) plain_def)

lemma whole_ref_escape: "whole_ref (escape s) = None"
proof (cases "whole_ref (escape s)")
  case (Some e)
  from scan_whole [OF this] scan_escape [of s] show ?thesis by auto
qed

lemma fill_texts: "fill wh ns w (map (\<lambda>c. PText [c]) s) = Inr s"
  by (induction s) auto

text \<open>Which errors a look-up can raise.\<close>

lemma index_no_unknown [simp]: "index wh w v seg \<noteq> Inl (DslError (UnknownVariable x))"
  by (auto simp: index_def bindE_eq_Inl raised_def split: json.splits option.splits sum.splits)

lemma indexes_no_unknown [simp]: "indexes wh w v segs \<noteq> Inl (DslError (UnknownVariable x))"
  by (induction segs arbitrary: v) (auto simp: bindE_eq_Inl)

lemma lookup_step_no_unknown [simp]: "lookup_step wh ns w parts \<noteq> Inl (DslError (UnknownVariable x))"
  by (auto simp: lookup_step_def Let_def raised_def bindE_eq_Inl split: list.splits option.splits sum.splits)

lemma lookup_no_unknown:
  assumes "hd (split_on (CHR ''.'') expr) \<in> set (dict_keys ns) \<union> {''steps''}"
  shows "lookup wh ns w expr \<noteq> Inl (DslError (UnknownVariable x))"
proof (cases "hd (split_on (CHR ''.'') expr) = ''steps''")
  case False
  with assms obtain v where "dict_get ns (hd (split_on (CHR ''.'') expr)) = Some v"
    using dict_get_eq_None [of ns "hd (split_on (CHR ''.'') expr)"] by auto
  with False show ?thesis by (simp add: lookup_def Let_def)
qed (simp add: lookup_def Let_def)

lemma fill_no_unknown:
  "check_pieces scope seen ps = [] \<Longrightarrow> set scope \<subseteq> set (dict_keys ns) \<union> {''steps''} \<Longrightarrow>
     fill wh ns w ps \<noteq> Inl (DslError (UnknownVariable x))"
proof (induction ps)
  case (Cons p ps)
  then show ?case
    using lookup_no_unknown [of _ ns wh w x]
    by (cases p) (auto simp: Let_def bindE_eq_Inl subset_iff split: if_splits)
qed simp

lemma resolve_text_no_unknown:
  assumes "check_pieces scope seen (scan t) = []" "set scope \<subseteq> set (dict_keys ns) \<union> {''steps''}"
  shows "resolve_text wh ns w t \<noteq> Inl (DslError (UnknownVariable x))"
proof (cases "whole_ref t")
  case None
  with fill_no_unknown [OF assms, of wh w x] show ?thesis by (auto simp: resolve_text_def bindE_eq_Inl)
next
  case (Some e)
  with assms scan_whole [OF Some] lookup_no_unknown [of "strip e" ns wh w x] show ?thesis
    by (auto simp: resolve_text_def Let_def subset_iff split: if_splits)
qed

lemma resolve_no_unknown:
  assumes "check_interp scope seen v = []" "set scope \<subseteq> set (dict_keys ns) \<union> {''steps''}"
  shows "resolve wh ns w v \<noteq> Inl (DslError (UnknownVariable x))"
  using assms resolve_text_no_unknown [of scope seen _ ns wh w x] by (cases v) (auto simp: resolve_def)

lemma check_interps_all: "check_interps scope seen vs = [] \<longleftrightarrow> (\<forall>v \<in> set vs. check_interp scope seen v = [])"
  by (induction vs) auto

lemma check_fields_all: "check_fields scope seen kvs = [] \<longleftrightarrow> (\<forall>(k, v) \<in> set kvs. check_interp scope seen v = [])"
  by (induction kvs) auto

section \<open>Properties\<close>

text \<open>
  a text whose braces are doubled comes out as it was written, whatever names and files
  there are: a prompt may hold any text, braces included, and nothing in it is read as a
  reference.
\<close>

theorem escaped_text_is_literal:
  "resolve wh ns w (JStr (escape s)) = Inr (JStr s)"
  by (simp add: resolve_def resolve_text_def whole_ref_escape scan_escape fill_texts)

text \<open>
  a template the static check accepts never fails on an unknown name when it runs: if the
  check in a scope finds nothing and every name of the scope is defined, resolving it ends in
  a value or in another error, never in the unknown variable the check is there to catch.
\<close>

theorem checked_template_knows_its_names:
  assumes "check_interp scope seen v = []" "set scope \<subseteq> set (dict_keys ns) \<union> {''steps''}"
  shows "resolve wh ns w v \<noteq> Inl (DslError (UnknownVariable x))"
  using assms by (rule resolve_no_unknown)

end
