(* ===== verification/DslChecks.thy ===== *)
theory DslChecks
  imports DslTemplate
begin

text \<open>
  What the steps of a definition verify and read: the workspace globs of \<open>workflow/handle.py\<close>,
  the fingerprint of declared reads (\<open>workflow/steps.py\<close>), the gates of \<open>workflow/checks.py\<close>
  and the implicit gates of \<open>workflow/dsl.py\<close>.

  Parsing of foreign formats is an argument: \<open>loads\<close> is \<open>json.loads\<close> (\<open>None\<close>: it raises) and
  \<open>problem kind\<close> says what is wrong with a text of a structured kind (YAML and CSV parsers).
\<close>

section \<open>Globs\<close>

datatype glob_item = GChar char | GAny | GStar | GSet bool "(char \<times> char) list"

fun glob_ranges :: "string \<Rightarrow> (char \<times> char) list" where
  "glob_ranges (a # b # c # cs) =
     (if b = CHR ''-'' then (a, c) # glob_ranges cs else (a, a) # glob_ranges (b # c # cs))"
| "glob_ranges (a # cs) = (a, a) # glob_ranges cs"
| "glob_ranges [] = []"

text \<open>The text of a set \<open>[...]\<close> and what follows it; a first \<open>]\<close> (after \<open>!\<close>) is an ordinary character.\<close>

definition set_lead :: "string \<Rightarrow> string" where
  "set_lead cs =
     (let neg = (if cs \<noteq> [] \<and> hd cs = CHR ''!'' then [CHR ''!''] else []);
          r = drop (length neg) cs
      in neg @ (if r \<noteq> [] \<and> hd r = CHR '']'' then [CHR '']''] else []))"

definition set_text :: "string \<Rightarrow> (string \<times> string) option" where
  "set_text cs =
     (let tail = drop (length (set_lead cs)) cs;
          close = dropWhile (\<lambda>c. c \<noteq> CHR '']'') tail
      in if close = [] then None
         else Some (set_lead cs @ takeWhile (\<lambda>c. c \<noteq> CHR '']'') tail, tl close))"

definition glob_set :: "string \<Rightarrow> glob_item" where
  "glob_set s =
     (if s \<noteq> [] \<and> hd s = CHR ''!'' then GSet True (glob_ranges (tl s)) else GSet False (glob_ranges s))"

lemma tl_dropWhile_shorter: "dropWhile P (drop n xs) \<noteq> [] \<Longrightarrow> length (tl (dropWhile P (drop n xs))) < length xs"
  using length_dropWhile_le [of P "drop n xs"] by (cases "dropWhile P (drop n xs)") auto

lemma set_text_shorter: "set_text cs = Some (s, rest) \<Longrightarrow> length rest < length cs"
  by (auto simp: set_text_def Let_def simp del: dropWhile_eq_Nil_conv length_tl intro: tl_dropWhile_shorter split: if_splits)

function glob_items :: "string \<Rightarrow> glob_item list" where
  "glob_items [] = []"
| "glob_items (c # cs) =
     (if c = CHR ''*'' then GStar # glob_items cs
      else if c = CHR ''?'' then GAny # glob_items cs
      else if c = CHR ''['' then
        (case set_text cs of
           None \<Rightarrow> GChar c # glob_items cs
         | Some (s, rest) \<Rightarrow> glob_set s # glob_items rest)
      else GChar c # glob_items cs)"
  by pat_completeness auto
termination
  by (relation "measure length") (auto dest: set_text_shorter)

definition in_ranges :: "(char \<times> char) list \<Rightarrow> char \<Rightarrow> bool" where
  "in_ranges rs c = list_ex (\<lambda>(a, b). (of_char a :: nat) \<le> of_char c \<and> of_char c \<le> (of_char b :: nat)) rs"

fun glob_match :: "glob_item list \<Rightarrow> string \<Rightarrow> bool" where
  "glob_match [] s = (s = [])"
| "glob_match (GStar # is) [] = glob_match is []"
| "glob_match (GStar # is) (c # s) = (glob_match is (c # s) \<or> glob_match (GStar # is) s)"
| "glob_match (i # is) [] = False"
| "glob_match (GAny # is) (c # s) = glob_match is s"
| "glob_match (GChar d # is) (c # s) = (c = d \<and> glob_match is s)"
| "glob_match (GSet neg rs # is) (c # s) = (in_ranges rs c \<noteq> neg \<and> glob_match is s)"

definition fnmatch :: "string \<Rightarrow> string \<Rightarrow> bool" where
  "fnmatch name pat = glob_match (glob_items pat) name"

definition lstrip_slash :: "string \<Rightarrow> string" where
  "lstrip_slash p = dropWhile (\<lambda>c. c = CHR ''/'') p"

text \<open>What the interpreter uses of its surroundings; files are named by absolute paths.\<close>

record 'w engine =
  en_wh :: "'w handle"
  en_digest :: "string \<Rightarrow> string"
  en_ls :: "'w \<Rightarrow> string list"
  en_read :: "'w \<Rightarrow> string \<Rightarrow> string option"
  en_write :: "'w \<Rightarrow> string \<Rightarrow> string \<Rightarrow> step_exn + 'w"
  en_write_json :: "'w \<Rightarrow> string \<Rightarrow> json \<Rightarrow> step_exn + 'w"
  en_delete :: "'w \<Rightarrow> string \<Rightarrow> step_exn + 'w"
  en_loads :: "string \<Rightarrow> json option"
  en_problem :: "string \<Rightarrow> string \<Rightarrow> string option"
  en_collection_has :: "'w \<Rightarrow> json \<Rightarrow> json \<Rightarrow> bool"

definition absolute :: "string \<Rightarrow> string" where
  "absolute p = (if p \<noteq> [] \<and> hd p = CHR ''/'' then p else CHR ''/'' # p)"

definition globs :: "'w engine \<Rightarrow> 'w \<Rightarrow> string list \<Rightarrow> string list" where
  "globs en w pats =
     sort (filter (\<lambda>rel. list_ex (\<lambda>pat. fnmatch rel (lstrip_slash pat)) pats) (map lstrip_slash (en_ls en w)))"

definition glob :: "'w engine \<Rightarrow> 'w \<Rightarrow> string \<Rightarrow> string list" where
  "glob en w pat = globs en w [pat]"

text \<open>\<open>reads_fingerprint\<close>: the digests of the files the declared patterns match.\<close>

definition read_file :: "'w engine \<Rightarrow> 'w \<Rightarrow> string \<Rightarrow> step_exn + string" where
  "read_file en w p = (case en_read en w (absolute p) of None \<Rightarrow> Inl (Raised ''FileNotFound'') | Some d \<Rightarrow> Inr d)"

fun fingerprint_files :: "'w engine \<Rightarrow> 'w \<Rightarrow> string list \<Rightarrow> (string, json) dict \<Rightarrow> step_exn + (string, json) dict" where
  "fingerprint_files en w [] fp = Inr fp"
| "fingerprint_files en w (p # ps) fp =
     bindE (read_file en w p) (\<lambda>d.
       fingerprint_files en w ps (dict_set (lstrip_slash p) (JStr (en_digest en d)) fp))"

fun fingerprint :: "'w engine \<Rightarrow> 'w \<Rightarrow> string list \<Rightarrow> (string, json) dict \<Rightarrow> step_exn + (string, json) dict" where
  "fingerprint en w [] fp = Inr fp"
| "fingerprint en w (pat # pats) fp =
     (case glob en w pat of
        [] \<Rightarrow> fingerprint en w pats (dict_set (lstrip_slash pat) (JStr (CHR 0x00 # ''absent'')) fp)
      | p # ps \<Rightarrow> bindE (fingerprint_files en w (p # ps) fp) (fingerprint en w pats))"

definition reads_fingerprint :: "'w engine \<Rightarrow> 'w \<Rightarrow> string list option \<Rightarrow> step_exn + json option" where
  "reads_fingerprint en w reads =
     (case reads of
        None \<Rightarrow> Inr None
      | Some [] \<Rightarrow> Inr None
      | Some pats \<Rightarrow> bindE (fingerprint en w pats []) (\<lambda>fp. Inr (Some (JObj fp))))"

section \<open>Texts of Python values\<close>

text \<open>\<open>repr\<close> of a value; characters above ASCII are written as they are.\<close>

definition repr_char :: "char \<Rightarrow> char \<Rightarrow> string" where
  "repr_char q c =
     (let n = (of_char c :: nat) in
      if c = q \<or> n = 92 then [CHR 0x5C, c]
      else if n = 10 then [CHR 0x5C, CHR ''n''] else if n = 13 then [CHR 0x5C, CHR ''r'']
      else if n = 9 then [CHR 0x5C, CHR ''t'']
      else if n < 32 \<or> n = 127 then [CHR 0x5C, CHR ''x'', hex_digit (n div 16), hex_digit (n mod 16)]
      else [c])"

definition py_repr_str :: "string \<Rightarrow> string" where
  "py_repr_str s =
     (let q = (if CHR 0x27 \<in> set s \<and> CHR 0x22 \<notin> set s then CHR 0x22 else CHR 0x27)
      in q # concat (map (repr_char q) s) @ [q])"

fun py_repr :: "json \<Rightarrow> string" and py_reprs :: "json list \<Rightarrow> string"
  and py_repr_fields :: "(string \<times> json) list \<Rightarrow> string" where
  "py_repr JNull = ''None''"
| "py_repr (JBool b) = (if b then ''True'' else ''False'')"
| "py_repr (JInt i) = json_int i"
| "py_repr (JStr s) = py_repr_str s"
| "py_repr (JArr vs) = ''['' @ py_reprs vs @ '']''"
| "py_repr (JObj kvs) = ''{'' @ py_repr_fields kvs @ ''}''"
| "py_reprs [] = ''''"
| "py_reprs (v # vs) = py_repr v @ (if vs = [] then '''' else '', '' @ py_reprs vs)"
| "py_repr_fields [] = ''''"
| "py_repr_fields ((k, v) # kvs) =
     py_repr_str k @ '': '' @ py_repr v @ (if kvs = [] then '''' else '', '' @ py_repr_fields kvs)"

definition repr_list :: "string list \<Rightarrow> string" where
  "repr_list xs = py_repr (JArr (map JStr xs))"

fun type_name :: "json \<Rightarrow> string" where
  "type_name JNull = ''NoneType''"
| "type_name (JBool b) = ''bool''"
| "type_name (JInt i) = ''int''"
| "type_name (JStr s) = ''str''"
| "type_name (JArr vs) = ''list''"
| "type_name (JObj kvs) = ''dict''"

definition truthy :: "json \<Rightarrow> bool" where
  "truthy v \<longleftrightarrow> v \<notin> {JNull, JBool False, JInt 0, JStr [], JArr [], JObj []}"

fun join :: "string \<Rightarrow> string list \<Rightarrow> string" where
  "join sep [] = []"
| "join sep [s] = s"
| "join sep (s # t # ss) = s @ sep @ join sep (t # ss)"

text \<open>Python's \<open>==\<close> (a bool equals its number, a dict's order does not count) and \<open>in\<close>.\<close>

fun as_number :: "json \<Rightarrow> json" and as_numbers :: "json list \<Rightarrow> json list"
  and as_number_fields :: "(string \<times> json) list \<Rightarrow> (string \<times> json) list" where
  "as_number (JBool b) = JInt (if b then 1 else 0)"
| "as_number (JArr vs) = JArr (as_numbers vs)"
| "as_number (JObj kvs) = JObj (as_number_fields kvs)"
| "as_number v = v"
| "as_numbers [] = []"
| "as_numbers (v # vs) = as_number v # as_numbers vs"
| "as_number_fields [] = []"
| "as_number_fields ((k, v) # kvs) = (k, as_number v) # as_number_fields kvs"

definition py_eq :: "json \<Rightarrow> json \<Rightarrow> bool" where
  "py_eq a b \<longleftrightarrow> sorted_keys (as_number a) = sorted_keys (as_number b)"

fun infix_of :: "string \<Rightarrow> string \<Rightarrow> bool" where
  "infix_of p [] = (p = [])"
| "infix_of p (c # s) = (take (length p) (c # s) = p \<or> infix_of p s)"

definition py_in :: "json \<Rightarrow> json \<Rightarrow> step_exn + bool" where
  "py_in v c =
     (case c of
        JArr xs \<Rightarrow> Inr (list_ex (py_eq v) xs)
      | JStr s \<Rightarrow> (case v of JStr p \<Rightarrow> Inr (infix_of p s) | _ \<Rightarrow> Inl (Raised ''TypeError''))
      | JObj kvs \<Rightarrow>
          (case v of
             JStr k \<Rightarrow> Inr (dict_get kvs k \<noteq> None)
           | JArr _ \<Rightarrow> Inl (Raised ''TypeError'')
           | JObj _ \<Rightarrow> Inl (Raised ''TypeError'')
           | _ \<Rightarrow> Inr False)
      | _ \<Rightarrow> Inl (Raised ''TypeError''))"

definition py_str :: "json \<Rightarrow> string" where
  "py_str v = (case v of JStr s \<Rightarrow> s | _ \<Rightarrow> py_repr v)"

section \<open>Gates\<close>

abbreviation passed :: check_result where
  "passed \<equiv> \<lparr>ck_ok = True, ck_reason = [], ck_format = False\<rparr>"

abbreviation refused :: "string \<Rightarrow> bool \<Rightarrow> check_result" where
  "refused reason format \<equiv> \<lparr>ck_ok = False, ck_reason = reason, ck_format = format\<rparr>"

text \<open>A gate only reads the world: the value of a check on a world and a result.\<close>

type_synonym 'w gate = "'w \<Rightarrow> json \<Rightarrow> step_exn + check_result"

text \<open>A path that is not a text has no \<open>startswith\<close>.\<close>

definition on_text :: "json \<Rightarrow> (string \<Rightarrow> 'w gate) \<Rightarrow> 'w gate" where
  "on_text v g = (case v of JStr s \<Rightarrow> g s | _ \<Rightarrow> (\<lambda>w r. Inl (Raised ''AttributeError'')))"

definition as_check :: "'w gate \<Rightarrow> 'w \<Rightarrow> json \<Rightarrow> 'w \<times> (step_exn + check_result)" where
  "as_check g w r = (w, g w r)"

definition exit_zero :: "'w gate" where
  "exit_zero w r =
     (let code = (case jget r ''exit_code'' of None \<Rightarrow> JNull | Some c \<Rightarrow> c) in
      Inr (if py_eq code (JInt 0) then passed
           else refused (''command exited with code '' @ py_str code) False))"

definition bytes_space :: "char \<Rightarrow> bool" where
  "bytes_space c \<longleftrightarrow> (let n = (of_char c :: nat) in (9 \<le> n \<and> n \<le> 13) \<or> n = 32)"

definition file_nonempty :: "'w engine \<Rightarrow> string \<Rightarrow> 'w gate" where
  "file_nonempty en path w r =
     Inr (case en_read en w (absolute path) of
            None \<Rightarrow> refused (''expected file '' @ path @ '' was not written'') False
          | Some d \<Rightarrow> if list_all bytes_space d then refused (''file '' @ path @ '' is empty'') False
                      else passed)"

text \<open>\<open>_requires_problem\<close>: the declared contract of a prose artifact.\<close>

fun missing_section :: "string \<Rightarrow> json list \<Rightarrow> step_exn + string option" where
  "missing_section text [] = Inr None"
| "missing_section text (JStr n # ns) =
     (if infix_of n text then missing_section text ns
      else Inr (Some (''is missing the required section/text '' @ py_repr_str n)))"
| "missing_section text (v # ns) = Inl (Raised ''TypeError'')"

definition requires_problem :: "string \<Rightarrow> (string, json) dict \<Rightarrow> step_exn + string option" where
  "requires_problem text requires =
     bindE (case dict_get requires ''contains'' of
              None \<Rightarrow> Inr None
            | Some (JArr ns) \<Rightarrow> missing_section text ns
            | Some (JStr s) \<Rightarrow> missing_section text (map (\<lambda>c. JStr [c]) s)
            | Some (JObj kvs) \<Rightarrow> missing_section text (map (\<lambda>p. JStr (fst p)) kvs)
            | Some _ \<Rightarrow> Inl (Raised ''TypeError''))
       (\<lambda>problem. case problem of
          Some p \<Rightarrow> Inr (Some p)
        | None \<Rightarrow>
            (case dict_get requires ''min_length'' of
               None \<Rightarrow> Inr None
             | Some JNull \<Rightarrow> Inr None
             | Some (JInt n) \<Rightarrow>
                 Inr (if int (length (strip text)) < n
                      then Some (''is shorter than the required '' @ json_int n @ '' characters'') else None)
             | Some (JBool b) \<Rightarrow>
                 Inr (if length (strip text) < (if b then 1 else 0)
                      then Some (''is shorter than the required '' @ py_repr (JBool b) @ '' characters'') else None)
             | Some _ \<Rightarrow> Inl (Raised ''TypeError'')))"

definition artifact_valid ::
  "'w engine \<Rightarrow> string \<Rightarrow> string \<Rightarrow> (string, json) dict \<Rightarrow> bool \<Rightarrow> 'w gate" where
  "artifact_valid en path kind requires of_reply w r =
     (case en_read en w (absolute path) of
        None \<Rightarrow> Inr (refused (''expected file '' @ path @ '' was not written'') False)
      | Some d \<Rightarrow>
          if list_all bytes_space d then Inr (refused (''file '' @ path @ '' is empty'') False)
          else
            (case (if kind \<in> {''json'', ''yaml'', ''csv''} then en_problem en kind d else None) of
               Some p \<Rightarrow> Inr (refused (''file '' @ path @ '' '' @ p) of_reply)
             | None \<Rightarrow>
                 if requires = [] then Inr passed
                 else bindE (requires_problem d requires) (\<lambda>problem.
                   Inr (case problem of
                          None \<Rightarrow> passed
                        | Some p \<Rightarrow> refused (''file '' @ path @ '' '' @ p) False))))"

definition unhashable :: "json \<Rightarrow> bool" where
  "unhashable v \<longleftrightarrow> type_name v \<in> {''list'', ''dict''}"

definition choice_in :: "'w engine \<Rightarrow> string \<Rightarrow> json \<Rightarrow> json \<Rightarrow> 'w gate" where
  "choice_in en path key allowed w r =
     (case en_read en w (absolute path) of
        None \<Rightarrow> Inr (refused (''expected file '' @ path @ '' was not written'') False)
      | Some d \<Rightarrow>
          (case en_loads en d of
             None \<Rightarrow> Inl (Raised ''JSONDecodeError'')
           | Some v \<Rightarrow>
               if type_name v = ''dict'' \<and> unhashable key then Inl (Raised ''TypeError'')
               else let value = (case key of JStr k \<Rightarrow> (case jget v k of None \<Rightarrow> JNull | Some x \<Rightarrow> x) | _ \<Rightarrow> JNull) in
               bindE (py_in value allowed) (\<lambda>ok.
                 Inr (if ok then passed
                      else refused (py_str key @ ''='' @ py_repr value
                                     @ '' is not one of '' @ py_str allowed) False))))"

definition collection_has :: "'w engine \<Rightarrow> json \<Rightarrow> json \<Rightarrow> 'w gate" where
  "collection_has en collection path w r =
     Inr (if en_collection_has en w collection path then passed
          else refused (py_repr path @ '' did not land in collection '' @ py_repr collection @ '' as ready'') False)"

text \<open>The implicit gate of a \<open>produces\<close> step.\<close>

definition produces_check :: "string \<Rightarrow> 'w gate" where
  "produces_check pat w r =
     (let paths = (case jget r ''fields'' of
                     Some fs \<Rightarrow> (case jget fs ''produces'' of None \<Rightarrow> JNull | Some p \<Rightarrow> p)
                   | None \<Rightarrow> JNull) in
      Inr (if truthy paths then passed
           else refused (''the step declared it produces '' @ py_repr_str pat @ '', but no file matched'') False))"

text \<open>The implicit gate of a step that declares \<open>outputs\<close>.\<close>

definition spec_type_enum :: "json \<Rightarrow> json \<times> json option" where
  "spec_type_enum spec =
     (case spec of
        JObj kvs \<Rightarrow>
          ((case dict_get kvs ''type'' of None \<Rightarrow> JNull | Some t \<Rightarrow> t),
           (case dict_get kvs ''enum'' of Some JNull \<Rightarrow> None | e \<Rightarrow> e))
      | _ \<Rightarrow> (spec, None))"

definition field_type_ok :: "json \<Rightarrow> json \<Rightarrow> bool" where
  "field_type_ok v tname =
     (if tname = JStr ''str'' then type_name v = ''str''
      else if tname = JStr ''int'' \<or> tname = JStr ''float'' then type_name v = ''int''
      else if tname = JStr ''bool'' then type_name v = ''bool''
      else if tname = JStr ''list'' then type_name v = ''list''
      else type_name v = ''dict'')"

definition FIELDS_SHOWN :: nat where
  "FIELDS_SHOWN = 20"

definition shown_names :: "(string, json) dict \<Rightarrow> string" where
  "shown_names flds =
     (let names = sort (dict_keys flds); had = join '', '' (take FIELDS_SHOWN names) in
      (if had = [] then ''none'' else had)
      @ (if FIELDS_SHOWN < length names then '', and '' @ dec (length names - FIELDS_SHOWN) @ '' more'' else []))"

fun outputs_problem :: "(string, json) dict \<Rightarrow> (string, json) dict \<Rightarrow> step_exn + string option" where
  "outputs_problem flds [] = Inr None"
| "outputs_problem flds ((name, spec) # specs) =
     (case dict_get flds name of
        None \<Rightarrow>
          Inr (Some (''reply is missing field '' @ py_repr_str name @ '' (its fields: '' @ shown_names flds @ '')''))
      | Some v \<Rightarrow>
          (let (tname, enum) = spec_type_enum spec in
           if \<not> field_type_ok v tname
           then Inr (Some (''field '' @ py_repr_str name @ '' must be ''
                  @ py_str tname
                  @ '', got '' @ type_name v @ '' '' @ take 80 (json_text v)))
           else (case enum of
                   None \<Rightarrow> outputs_problem flds specs
                 | Some e \<Rightarrow>
                     bindE (py_in v e) (\<lambda>ok.
                       if ok then outputs_problem flds specs
                       else Inr (Some (''field '' @ py_repr_str name @ '' must be one of ''
                              @ py_str e @ '', got '' @ py_repr v))))))"

definition outputs_check :: "(string, json) dict \<Rightarrow> 'w gate" where
  "outputs_check outputs w r =
     (case jget r ''fields'' of
        Some (JObj flds) \<Rightarrow>
          bindE (outputs_problem flds outputs) (\<lambda>problem.
            Inr (case problem of None \<Rightarrow> passed | Some p \<Rightarrow> refused p True))
      | _ \<Rightarrow> Inr (refused (''reply must be a JSON object with keys '' @ repr_list (sort (dict_keys outputs))) True))"

end
