(* ===== verification/DslNodes.thy ===== *)
theory DslNodes
  imports DslChecks
begin

text \<open>
  The nodes of a definition and what runs them: the step types of \<open>workflow/dsl.py\<close>, the
  adapters \<open>sandbox_node\<close> and \<open>agent_write_step\<close> of \<open>workflow/steps.py\<close> over the step engine,
  and the human gate of \<open>workflow/gate.py\<close>.  The wording of the prompts an agent is sent on a
  retry or a repair, the sandbox, the turn driver and the platform's capabilities are fields of
  \<open>runners\<close>.
\<close>

section \<open>Step types\<close>

record agent_node =
  ag_prompt :: string
  ag_phase :: string
  ag_cache :: bool
  ag_out :: string
  ag_kind :: string
  ag_requires :: "(string, json) dict"
  ag_tools :: "string list"
  ag_check :: "(string, json) dict option"
  ag_retries :: int
  ag_name :: string
  ag_outputs :: "(string, json) dict"
  ag_reads :: "string list"
  ag_produces :: string

record sandbox_node =
  sb_run :: string
  sb_phase :: string
  sb_cache :: bool
  sb_check :: "(string, json) dict option"
  sb_name :: string
  sb_outputs :: "(string, json) dict"
  sb_reads :: "string list"
  sb_produces :: string

record gate_node =
  gt_phase :: string
  gt_title :: string
  gt_summary_from :: string
  gt_allow :: "string list"
  gt_name :: string
  gt_revise_to :: string

record capability_node =
  ca_call :: string
  ca_phase :: string
  ca_collection :: string
  ca_path :: string
  ca_keys :: "string list"
  ca_title :: string
  ca_body :: string
  ca_reference_doc_ids :: "string list"
  ca_type_name :: string
  ca_args :: "(string, json) dict"
  ca_number :: json
  ca_name :: string
  ca_on_duplicate :: string
  ca_window :: string

record map_node =
  mp_over :: json
  mp_phase :: string
  mp_as :: string
  mp_key_by :: string
  mp_name :: string
  mp_collect :: string
  mp_concurrency :: int

record switch_node =
  sw_on :: string
  sw_phase :: string

datatype node =
  Agent agent_node | Sandbox sandbox_node | Gate gate_node | Capability capability_node
| MapOver map_node "node list"
| Switch switch_node "(string \<times> node list) list" "node list option"

section \<open>Running a command\<close>

datatype turn = Reply string | TimedOut | TurnRaised string

record 'w runners =
  ru_sandbox :: "json \<Rightarrow> 'w \<Rightarrow> 'w \<times> (step_exn + int \<times> string)"
  ru_turn :: "json \<Rightarrow> string list option \<Rightarrow> 'w \<Rightarrow> 'w \<times> turn"
  ru_sub_turn :: "(string \<Rightarrow> json \<Rightarrow> string list option \<Rightarrow> 'w \<Rightarrow> 'w \<times> turn) option"
  ru_concurrency :: "int option"
  ru_reconcile :: "'w \<Rightarrow> 'w \<times> (step_exn + unit)"
  ru_shape :: "(string, json) dict option \<Rightarrow> string \<Rightarrow> string"
  ru_retry_text :: "string \<Rightarrow> string \<Rightarrow> string \<Rightarrow> string"
  ru_repair_text :: "string \<Rightarrow> check_result \<Rightarrow> (string, json) dict option \<Rightarrow> string \<Rightarrow> string"
  ru_call :: "string \<Rightarrow> (string, json) dict \<Rightarrow> string \<Rightarrow> 'w step_state \<Rightarrow> 'w step_state \<times> (step_exn + json)"

definition truthy_dict :: "(string, json) dict \<Rightarrow> (string, json) dict option" where
  "truthy_dict d = (if d = [] then None else Some d)"

definition dict_json :: "(string, json) dict option \<Rightarrow> json" where
  "dict_json d = (case d of None \<Rightarrow> JNull | Some kvs \<Rightarrow> JObj kvs)"

text \<open>The result of a finished node: its own entries, then the parsed reply and the files it wrote.\<close>

definition parsed_reply :: "'w engine \<Rightarrow> string \<Rightarrow> json" where
  "parsed_reply en text = (case en_loads en text of None \<Rightarrow> JNull | Some v \<Rightarrow> v)"

definition node_result ::
  "'w engine \<Rightarrow> 'w \<Rightarrow> (string, json) dict \<Rightarrow> (string, json) dict option \<Rightarrow> string \<Rightarrow> string \<Rightarrow> json" where
  "node_result en w own outputs text produces =
     (let r1 = (if outputs = None then own else dict_set ''fields'' (parsed_reply en text) own)
      in JObj (if produces = [] then r1
               else dict_set ''fields'' (JObj [(''produces'', JArr (map JStr (glob en w produces)))]) r1))"

definition with_reads :: "(string, json) dict \<Rightarrow> json option \<Rightarrow> json" where
  "with_reads args fp = JObj (case fp of None \<Rightarrow> args | Some v \<Rightarrow> args @ [(''reads'', v)])"

definition step_of ::
  "string \<Rightarrow> string \<Rightarrow> string \<Rightarrow> json \<Rightarrow> (string option \<Rightarrow> 'w \<Rightarrow> 'w \<times> (step_exn + json)) \<Rightarrow> 'w gate
   \<Rightarrow> int \<Rightarrow> bool \<Rightarrow> (check_result \<Rightarrow> 'w \<Rightarrow> 'w \<times> (step_exn + json)) option \<Rightarrow> 'w step" where
  "step_of name key phase args body g retries cache repair =
     \<lparr>sp_name = name, sp_key = key, sp_phase = phase, sp_args = args, sp_execute = body,
      sp_check = Some (as_check g), sp_retries = retries, sp_cache = cache, sp_repair = repair\<rparr>"

definition run_sandbox_node ::
  "'w engine \<Rightarrow> 'w runners \<Rightarrow> json \<Rightarrow> string \<Rightarrow> 'w gate option \<Rightarrow> string option \<Rightarrow> string
   \<Rightarrow> (string, json) dict option \<Rightarrow> string \<Rightarrow> string list option \<Rightarrow> bool \<Rightarrow> 'w step_state
   \<Rightarrow> 'w step_state \<times> (step_exn + json)" where
  "run_sandbox_node en ru run phase check name key outputs produces reads cache st =
     (let step_name = (case name of None \<Rightarrow> phase | Some n \<Rightarrow> n);
          body = (\<lambda>fb w. case ru_sandbox ru run w of
                    (w', Inl e) \<Rightarrow> (w', Inl e)
                  | (w', Inr (code, out)) \<Rightarrow>
                      (w', Inr (node_result en w' [(''exit_code'', JInt code), (''stdout'', JStr out)]
                                  outputs out produces)));
          args = [(''run'', run), (''phase'', JStr phase), (''outputs'', dict_json outputs),
                  (''produces'', JStr produces)]
      in case reads_fingerprint en (st_world st) reads of
           Inl e \<Rightarrow> (st, Inl e)
         | Inr fp \<Rightarrow>
             run_step (en_digest en) (en_wh en)
               (step_of step_name key phase (with_reads args fp) body
                  (case check of None \<Rightarrow> exit_zero | Some g \<Rightarrow> g) 0 cache None) st)"

section \<open>Running an agent\<close>

text \<open>
  The last reply of an agent node outlives its attempts: the step engine runs on the world
  paired with it.
\<close>

type_synonym 'w talk = "'w \<times> string option"

definition talk_handle :: "'w handle \<Rightarrow> 'w talk handle" where
  "talk_handle wh =
     \<lparr>wf_journal_dir = wf_journal_dir wh,
      wf_exists = (\<lambda>(w, prev). wf_exists wh w),
      wf_read_json = (\<lambda>(w, prev). wf_read_json wh w),
      wf_write_record = (\<lambda>(w, prev) p j.
        case wf_write_record wh w p j of Inl e \<Rightarrow> Inl e | Inr w' \<Rightarrow> Inr (w', prev))\<rparr>"

definition agent_turn ::
  "'w runners \<Rightarrow> string \<Rightarrow> json \<Rightarrow> string list option \<Rightarrow> 'w \<Rightarrow> 'w \<times> (step_exn + string)" where
  "agent_turn ru step_name text held w =
     (case ru_turn ru text held w of
        (w', Reply t) \<Rightarrow> (w', Inr t)
      | (w', TimedOut) \<Rightarrow> (w', Inl (StepFailed (Reason (''agent step '' @ py_repr_str step_name @ '' timed out''))))
      | (w', TurnRaised e) \<Rightarrow> (w', Inl (Raised e)))"

definition retry_prompt :: "'w runners \<Rightarrow> json \<Rightarrow> string option \<Rightarrow> string option \<Rightarrow> json" where
  "retry_prompt ru prompt feedback previous =
     (case feedback of
        None \<Rightarrow> prompt
      | Some f \<Rightarrow> if f = [] then prompt
                  else JStr (ru_retry_text ru (py_str prompt) f (case previous of None \<Rightarrow> [] | Some p \<Rightarrow> p)))"

definition STRUCTURED_KINDS :: "string list" where
  "STRUCTURED_KINDS = [''json'', ''yaml'', ''csv'']"

definition write_out :: "'w engine \<Rightarrow> json \<Rightarrow> string \<Rightarrow> 'w \<Rightarrow> step_exn + 'w" where
  "write_out en out text w =
     (if truthy out
      then (case out of JStr p \<Rightarrow> en_write en w (absolute p) text | _ \<Rightarrow> Inl (Raised ''AttributeError''))
      else Inr w)"

definition finish_reply ::
  "'w engine \<Rightarrow> 'w runners \<Rightarrow> json \<Rightarrow> (string, json) dict option \<Rightarrow> string \<Rightarrow> string \<Rightarrow> 'w
   \<Rightarrow> 'w talk \<times> (step_exn + json)" where
  "finish_reply en ru out outputs produces text w =
     (let own = [(''out'', out), (''bytes'', JInt (int (length text)))] in
      case write_out en out text w of
        Inl e \<Rightarrow> ((w, Some text), Inl e)
      | Inr w1 \<Rightarrow>
          if produces = [] then ((w1, Some text), Inr (node_result en w1 own outputs text produces))
          else (case ru_reconcile ru w1 of
                  (w2, Inl e) \<Rightarrow> ((w2, Some text), Inl e)
                | (w2, Inr _) \<Rightarrow> ((w2, Some text), Inr (node_result en w2 own outputs text produces))))"

definition agent_body ::
  "'w engine \<Rightarrow> 'w runners \<Rightarrow> string \<Rightarrow> json \<Rightarrow> string list option \<Rightarrow> json
   \<Rightarrow> (string, json) dict option \<Rightarrow> string \<Rightarrow> string option \<Rightarrow> 'w talk \<Rightarrow> 'w talk \<times> (step_exn + json)" where
  "agent_body en ru step_name asked tools out outputs produces feedback s =
     (case s of (w, prev) \<Rightarrow>
       (case agent_turn ru step_name (retry_prompt ru asked feedback prev) tools w of
          (w', Inl e) \<Rightarrow> ((w', prev), Inl e)
        | (w', Inr text) \<Rightarrow> finish_reply en ru out outputs produces text w'))"

definition agent_repair ::
  "'w engine \<Rightarrow> 'w runners \<Rightarrow> string \<Rightarrow> json \<Rightarrow> string \<Rightarrow> (string, json) dict option \<Rightarrow> string
   \<Rightarrow> check_result \<Rightarrow> 'w talk \<Rightarrow> 'w talk \<times> (step_exn + json)" where
  "agent_repair en ru step_name out kind outputs produces verdict s =
     (case s of (w, prev) \<Rightarrow>
       (let asked = ru_repair_text ru (case prev of None \<Rightarrow> [] | Some p \<Rightarrow> p) verdict outputs
                      (if truthy out then kind else []) in
        case agent_turn ru step_name (JStr asked) (Some []) w of
          (w', Inl e) \<Rightarrow> ((w', prev), Inl e)
        | (w', Inr text) \<Rightarrow> finish_reply en ru out outputs produces text w'))"

definition agent_write_step ::
  "'w engine \<Rightarrow> 'w runners \<Rightarrow> json \<Rightarrow> string \<Rightarrow> json \<Rightarrow> string \<Rightarrow> (string, json) dict option
   \<Rightarrow> string option \<Rightarrow> string \<Rightarrow> string list option \<Rightarrow> int \<Rightarrow> bool \<Rightarrow> 'w gate option
   \<Rightarrow> (string, json) dict option \<Rightarrow> string \<Rightarrow> string list option \<Rightarrow> 'w step_state
   \<Rightarrow> 'w step_state \<times> (step_exn + json)" where
  "agent_write_step en ru prompt phase out kind requires name key tools retries cache check outputs produces reads st =
     (let step_name = (case name of None \<Rightarrow> phase | Some n \<Rightarrow> n);
          shape = ru_shape ru outputs (if truthy out then kind else []);
          asked = (if shape = [] then prompt else JStr (py_str prompt @ [CHR 0x0A, CHR 0x0A] @ shape));
          g = (case check of
                 None \<Rightarrow> on_text out (\<lambda>p. artifact_valid en p kind (case requires of None \<Rightarrow> [] | Some r \<Rightarrow> r) True)
               | Some g \<Rightarrow> g);
          args = [(''prompt'', prompt),
                  (''tools'', case tools of None \<Rightarrow> JNull | Some ts \<Rightarrow> JArr (map JStr ts)),
                  (''out'', out), (''kind'', JStr kind), (''requires'', dict_json requires),
                  (''outputs'', dict_json outputs), (''produces'', JStr produces), (''phase'', JStr phase)];
          repair = (if (outputs \<noteq> None \<and> outputs \<noteq> Some []) \<or> (truthy out \<and> kind \<in> set STRUCTURED_KINDS)
                    then Some (agent_repair en ru step_name out kind outputs produces) else None)
      in case reads_fingerprint en (st_world st) reads of
           Inl e \<Rightarrow> (st, Inl e)
         | Inr fp \<Rightarrow>
             (case run_step (en_digest en) (talk_handle (en_wh en))
                     (step_of step_name key phase (with_reads args fp)
                        (agent_body en ru step_name asked tools out outputs produces)
                        (\<lambda>(w, prev). g w) retries cache repair)
                     \<lparr>st_world = (st_world st, None), st_events = st_events st\<rparr> of
                (st', r) \<Rightarrow> (\<lparr>st_world = fst (st_world st'), st_events = st_events st'\<rparr>, r)))"

lemma talk_handle_journal:
  assumes "step_journal wh files"
  shows "step_journal (talk_handle wh) (\<lambda>(w, prev). files w)"
  using step_journal.exists_law [OF assms] step_journal.read_law [OF assms]
    step_journal.garbled_law [OF assms] step_journal.write_law [OF assms]
  by unfold_locales (auto simp: talk_handle_def split: sum.splits)

section \<open>The human gate\<close>

definition decision_path :: "'w handle \<Rightarrow> string \<Rightarrow> string" where
  "decision_path wh phase = wf_journal_dir wh @ ''/step_'' @ phase @ ''/decision.json''"

record decision =
  dn_choice :: json
  dn_input :: json

text \<open>\<open>rec["choice"]\<close>, and \<open>rec.get("input", "")\<close>.\<close>

definition decision_of :: "json \<Rightarrow> dsl_exn + decision" where
  "decision_of rec =
     (case rec of
        JObj kvs \<Rightarrow>
          (case dict_get kvs ''choice'' of
             None \<Rightarrow> Inl (StepExn (Raised ''KeyError''))
           | Some c \<Rightarrow> Inr \<lparr>dn_choice = c, dn_input = (case dict_get kvs ''input'' of None \<Rightarrow> JStr [] | Some i \<Rightarrow> i)\<rparr>)
      | _ \<Rightarrow> Inl (StepExn (Raised ''TypeError'')))"

definition as_text :: "json \<Rightarrow> string" where
  "as_text v = (case v of JStr s \<Rightarrow> s | _ \<Rightarrow> json_text v)"

definition human_gate ::
  "'w engine \<Rightarrow> string \<Rightarrow> json \<Rightarrow> json \<Rightarrow> string list \<Rightarrow> 'w step_state \<Rightarrow> 'w step_state \<times> (dsl_exn + decision)" where
  "human_gate en phase title summary allow st =
     (let path = decision_path (en_wh en) phase in
      if wf_exists (en_wh en) (st_world st) path
      then (case wf_read_json (en_wh en) (st_world st) path of
              Inl e \<Rightarrow> (st, Inl (StepExn e))
            | Inr rec \<Rightarrow>
                (case decision_of rec of
                   Inl e \<Rightarrow> (emit (StepPassed (phase, phase, [])) st, Inl e)
                 | Inr d \<Rightarrow> (emit (StepPassed (phase, phase, [])) st, Inr d)))
      else (emit (StepStarted (phase, phase, [])) st,
            Inl (AwaitingHuman phase title (as_text summary) allow)))"

text \<open>\<open>record_decision\<close>: what the decisions endpoint writes.\<close>

definition record_decision ::
  "'w engine \<Rightarrow> string \<Rightarrow> string \<Rightarrow> string \<Rightarrow> string \<Rightarrow> 'w \<Rightarrow> step_exn + 'w" where
  "record_decision en phase choice input decided_by w =
     en_write_json en w (decision_path (en_wh en) phase)
       (JObj [(''choice'', JStr choice), (''input'', JStr input), (''decided_by'', JStr decided_by)])"

end
