(* ===== verification/DslRun.thy ===== *)
theory DslRun
  imports DslNodes
begin

text \<open>
  The interpreter of \<open>workflow/dsl.py\<close>: maps, switches, gates, capabilities and the drive of a
  whole definition, which a gate may send back to the top.  The elements of a map run here one
  after the other in their order; the code runs up to \<open>map_concurrency\<close> of them at a time.
\<close>

section \<open>Actions\<close>

text \<open>The interpreter's state: the run's state and the failures collected so far.\<close>

type_synonym failed_element = "(json \<times> string) \<times> failure"

record 'w run_state =
  rs_step :: "'w step_state"
  rs_failures :: "failed_element list"

type_synonym ('w, 'a) action = "'w run_state \<Rightarrow> 'w run_state \<times> (dsl_exn + 'a)"

abbreviation world :: "'w run_state \<Rightarrow> 'w" where
  "world st \<equiv> st_world (rs_step st)"

definition ret :: "'a \<Rightarrow> ('w, 'a) action" where
  "ret x st = (st, Inr x)"

definition throw :: "dsl_exn \<Rightarrow> ('w, 'a) action" where
  "throw e st = (st, Inl e)"

definition seq :: "('w, 'a) action \<Rightarrow> ('a \<Rightarrow> ('w, 'b) action) \<Rightarrow> ('w, 'b) action" where
  "seq m f st = (case m st of (st', Inl e) \<Rightarrow> (st', Inl e) | (st', Inr x) \<Rightarrow> f x st')"

text \<open>A question to the world, a change of it, and a run of the engine.\<close>

definition ask :: "('w \<Rightarrow> dsl_exn + 'a) \<Rightarrow> ('w, 'a) action" where
  "ask f st = (st, f (world st))"

definition change :: "('w \<Rightarrow> step_exn + 'w) \<Rightarrow> ('w, unit) action" where
  "change f st =
     (case f (world st) of
        Inl e \<Rightarrow> (st, Inl (StepExn e))
      | Inr w \<Rightarrow> (st\<lparr>rs_step := at_world (rs_step st) w\<rparr>, Inr ()))"

definition engine_run :: "('w step_state \<Rightarrow> 'w step_state \<times> (dsl_exn + 'a)) \<Rightarrow> ('w, 'a) action" where
  "engine_run m st = (case m (rs_step st) of (s, r) \<Rightarrow> (st\<lparr>rs_step := s\<rparr>, r))"

definition step_run :: "('w step_state \<Rightarrow> 'w step_state \<times> (step_exn + 'a)) \<Rightarrow> ('w, 'a) action" where
  "step_run m = engine_run (\<lambda>s. case m s of (s', r) \<Rightarrow> (s', raised r))"

fun each :: "('x \<Rightarrow> ('w, 'y) action) \<Rightarrow> 'x list \<Rightarrow> ('w, 'y list) action" where
  "each f [] = ret []"
| "each f (x # xs) = seq (f x) (\<lambda>y. seq (each f xs) (\<lambda>ys. ret (y # ys)))"

section \<open>Values\<close>

text \<open>\<open>int(text)\<close>: a sign and decimal digits, single underscores between them.\<close>

fun int_digits :: "bool \<Rightarrow> nat \<Rightarrow> string \<Rightarrow> nat option" where
  "int_digits after_digit n [] = (if after_digit then Some n else None)"
| "int_digits after_digit n (c # cs) =
     (if digit_char c then int_digits True (10 * n + (of_char c - 48)) cs
      else if c = CHR ''_'' \<and> after_digit then int_digits False n cs else None)"

definition int_text :: "string \<Rightarrow> int option" where
  "int_text t =
     (let s = strip t in
      if s \<noteq> [] \<and> hd s = CHR ''-'' then map_option (\<lambda>n. - int n) (int_digits False 0 (tl s))
      else if s \<noteq> [] \<and> hd s = CHR ''+'' then map_option int (int_digits False 0 (tl s))
      else map_option int (int_digits False 0 s))"

definition py_int :: "json \<Rightarrow> int option" where
  "py_int v =
     (case v of
        JInt i \<Rightarrow> Some i
      | JBool b \<Rightarrow> Some (if b then 1 else 0)
      | JStr t \<Rightarrow> int_text t
      | _ \<Rightarrow> None)"

section \<open>Map elements\<close>

definition safe_key :: "string \<Rightarrow> string" where
  "safe_key path = map (\<lambda>c. if c = CHR ''/'' then CHR ''_'' else c) (lstrip_slash path)"

definition step_failed :: "string \<Rightarrow> dsl_exn" where
  "step_failed reason = StepExn (StepFailed (Reason reason))"

fun key_elements :: "string \<Rightarrow> nat \<Rightarrow> json list \<Rightarrow> dsl_exn + (json \<times> string) list" where
  "key_elements key_by i [] = Inr []"
| "key_elements key_by i (item # items) =
     bindE (if key_by = [] then Inr (dec i)
            else (case jget item key_by of
                    None \<Rightarrow> Inl (step_failed (''map key_by '' @ py_repr_str key_by
                                   @ '' needs object elements carrying that field''))
                  | Some v \<Rightarrow> Inr (safe_key (py_str v))))
       (\<lambda>key. bindE (key_elements key_by (Suc i) items) (\<lambda>es. Inr ((item, key) # es)))"

definition keyed_list :: "string \<Rightarrow> json list \<Rightarrow> dsl_exn + (json \<times> string) list" where
  "keyed_list key_by items =
     bindE (key_elements key_by 0 items) (\<lambda>es.
       if distinct (map snd es) then Inr es
       else Inl (step_failed (''map key_by '' @ py_repr_str key_by @ '' is not unique across elements'')))"

definition DEFAULT_MAP_CONCURRENCY :: int where
  "DEFAULT_MAP_CONCURRENCY = 8"

definition map_concurrency :: "map_node \<Rightarrow> int option \<Rightarrow> int" where
  "map_concurrency h backend =
     (let request = (if mp_concurrency h \<noteq> 0 then mp_concurrency h
                     else case backend of
                       None \<Rightarrow> DEFAULT_MAP_CONCURRENCY
                     | Some b \<Rightarrow> if b \<noteq> 0 then b else DEFAULT_MAP_CONCURRENCY)
      in case backend of None \<Rightarrow> request | Some b \<Rightarrow> min request b)"

text \<open>\<open>[patterns] if isinstance(patterns, str) else list(patterns)\<close>\<close>

definition over_patterns :: "json \<Rightarrow> dsl_exn + string list" where
  "over_patterns v =
     (case v of
        JStr s \<Rightarrow> Inr [s]
      | JObj kvs \<Rightarrow> Inr (dict_keys kvs)
      | _ \<Rightarrow> Inl (StepExn (Raised ''TypeError'')))"

definition map_elements :: "'w engine \<Rightarrow> names \<Rightarrow> map_node \<Rightarrow> 'w \<Rightarrow> dsl_exn + (json \<times> string) list" where
  "map_elements en ns h w =
     (case mp_over h of
        JObj kvs \<Rightarrow>
          bindE (resolve (en_wh en) ns w (case dict_get kvs ''range'' of None \<Rightarrow> JStr [] | Some r \<Rightarrow> r)) (\<lambda>raw.
            case py_int raw of
              None \<Rightarrow> Inl (step_failed (''map 'over' range must be an integer, got '' @ py_repr raw))
            | Some n \<Rightarrow> Inr (map (\<lambda>i. (JInt (int i), dec i)) [0..<nat n]))
      | over \<Rightarrow>
          bindE (resolve (en_wh en) ns w over) (\<lambda>v.
            case v of
              JArr items \<Rightarrow> keyed_list (mp_key_by h) items
            | _ \<Rightarrow> bindE (over_patterns v) (\<lambda>pats.
                     Inr (map (\<lambda>p. (JStr p, safe_key p)) (globs en w pats)))))"

section \<open>Names inside a map\<close>

definition set_all :: "('k \<times> 'v) list \<Rightarrow> ('k, 'v) dict \<Rightarrow> ('k, 'v) dict" where
  "set_all kvs d = fold (\<lambda>(k, v). dict_set k v) kvs d"

fun named_steps :: "node list \<Rightarrow> (string, node) dict" and named_cases :: "(string \<times> node list) list \<Rightarrow> (string, node) dict"
where
  "named_steps [] = []"
| "named_steps (Agent a # ns) =
     set_all (named_steps ns) (if ag_name a = [] then [] else [(ag_name a, Agent a)])"
| "named_steps (Sandbox s # ns) =
     set_all (named_steps ns) (if sb_name s = [] then [] else [(sb_name s, Sandbox s)])"
| "named_steps (Switch h cases None # ns) = set_all (named_steps ns) (named_cases cases)"
| "named_steps (Switch h cases (Some body) # ns) =
     set_all (named_steps ns) (set_all (named_steps body) (named_cases cases))"
| "named_steps (n # ns) = named_steps ns"
| "named_cases [] = []"
| "named_cases ((c, body) # cases) = set_all (named_cases cases) (named_steps body)"

fun declares_outputs :: "node \<Rightarrow> bool" where
  "declares_outputs (Agent a) = (ag_outputs a \<noteq> [])"
| "declares_outputs (Sandbox s) = (sb_outputs s \<noteq> [])"
| "declares_outputs n = False"

definition collect_name :: "map_node \<Rightarrow> node list \<Rightarrow> string" where
  "collect_name h do_steps =
     (if mp_collect h \<noteq> [] then mp_collect h
      else
        let named = named_steps do_steps;
            with_outputs = map fst (filter (\<lambda>(n, s). declares_outputs s) named) in
        (case with_outputs of
           [n] \<Rightarrow> n
         | [] \<Rightarrow> (case named of [(n, s)] \<Rightarrow> n | _ \<Rightarrow> [])
         | _ \<Rightarrow> []))"

fun inner_journal_names :: "node list \<Rightarrow> string list" and case_journal_names :: "(string \<times> node list) list \<Rightarrow> string list"
where
  "inner_journal_names [] = []"
| "inner_journal_names (Agent a # ns) =
     List.insert (if ag_name a = [] then ag_phase a else ag_name a) (inner_journal_names ns)"
| "inner_journal_names (Sandbox s # ns) =
     List.insert (if sb_name s = [] then sb_phase s else sb_name s) (inner_journal_names ns)"
| "inner_journal_names (Switch h cases None # ns) =
     List.union (case_journal_names cases) (inner_journal_names ns)"
| "inner_journal_names (Switch h cases (Some body) # ns) =
     List.union (List.union (case_journal_names cases) (inner_journal_names body)) (inner_journal_names ns)"
| "inner_journal_names (n # ns) = inner_journal_names ns"
| "case_journal_names [] = []"
| "case_journal_names ((c, body) # cases) = List.union (inner_journal_names body) (case_journal_names cases)"

text \<open>\<open>_gc_map_orphans\<close>: the files of inner steps for keys that left the set go.\<close>

definition file_key :: "string \<Rightarrow> string" where
  "file_key path =
     (let name = last (split_on (CHR ''/'') path) in
      if drop (length name - 5) name = ''.json'' then take (length name - 5) name else name)"

definition transcript_path :: "string \<Rightarrow> string \<Rightarrow> string \<Rightarrow> string" where
  "transcript_path dir name key = journal_stem dir name key @ ''.transcript.md''"

definition delete_file :: "'w engine \<Rightarrow> string \<Rightarrow> ('w, unit) action" where
  "delete_file en path = change (\<lambda>w. en_delete en w (absolute path))"

definition drop_orphan :: "'w engine \<Rightarrow> string list \<Rightarrow> string \<Rightarrow> string \<Rightarrow> ('w, unit) action" where
  "drop_orphan en keys jname path =
     (let key = file_key path;
          transcript = transcript_path (wf_journal_dir (en_wh en)) jname key in
      if key \<in> set keys then ret ()
      else seq (delete_file en path) (\<lambda>_.
           seq (ask (\<lambda>w. Inr (wf_exists (en_wh en) w transcript))) (\<lambda>there.
             if there then delete_file en transcript else ret ())))"

definition orphan_pattern :: "'w engine \<Rightarrow> string \<Rightarrow> string" where
  "orphan_pattern en jname = lstrip_slash (wf_journal_dir (en_wh en)) @ ''/step_'' @ jname @ ''/*.json''"

definition gc_map_orphans :: "'w engine \<Rightarrow> node list \<Rightarrow> string list \<Rightarrow> ('w, unit) action" where
  "gc_map_orphans en do_steps keys =
     seq (each (\<lambda>jname.
            seq (ask (\<lambda>w. Inr (glob en w (orphan_pattern en jname))))
              (each (drop_orphan en keys jname)))
          (inner_journal_names do_steps)) (\<lambda>_. ret ())"

text \<open>What a named map publishes: one entry per element, \<open>None\<close> where the step left no record.\<close>

definition collected_value :: "json option \<Rightarrow> json" where
  "collected_value result =
     (case result of
        Some (JObj kvs) \<Rightarrow>
          (case dict_get kvs ''fields'' of
             Some f \<Rightarrow> f
           | None \<Rightarrow> (case dict_get kvs ''out'' of None \<Rightarrow> JNull | Some p \<Rightarrow> p))
      | _ \<Rightarrow> JNull)"

definition collect_one :: "'w engine \<Rightarrow> string \<Rightarrow> 'w \<Rightarrow> string \<Rightarrow> dsl_exn + json" where
  "collect_one en cname w ekey =
     (let path = artifact_path (en_wh en) cname ekey in
      if cname \<noteq> [] \<and> wf_exists (en_wh en) w path
      then bindE (raised (wf_read_json (en_wh en) w path)) (\<lambda>rec. Inr (collected_value (jget rec ''result'')))
      else Inr JNull)"

fun collect_map_outputs :: "'w engine \<Rightarrow> string \<Rightarrow> 'w \<Rightarrow> string list \<Rightarrow> dsl_exn + json list" where
  "collect_map_outputs en cname w [] = Inr []"
| "collect_map_outputs en cname w (k # ks) =
     bindE (collect_one en cname w k) (\<lambda>v. bindE (collect_map_outputs en cname w ks) (\<lambda>vs. Inr (v # vs)))"

section \<open>Steps without inner steps\<close>

definition fields_record :: "(string, json) dict \<Rightarrow> json" where
  "fields_record flds = JObj [(''hash'', JStr []), (''result'', JObj [(''fields'', JObj flds)])]"

definition publish :: "'w engine \<Rightarrow> string \<Rightarrow> string \<Rightarrow> (string, json) dict \<Rightarrow> ('w, unit) action" where
  "publish en name key flds =
     change (\<lambda>w. en_write_json en w (artifact_path (en_wh en) name key) (fields_record flds))"

abbreviation resolved :: "'w engine \<Rightarrow> names \<Rightarrow> json \<Rightarrow> ('w, json) action" where
  "resolved en ns v \<equiv> ask (\<lambda>w. resolve (en_wh en) ns w v)"

definition resolved_all :: "'w engine \<Rightarrow> names \<Rightarrow> string list \<Rightarrow> ('w, json list) action" where
  "resolved_all en ns ts = each (\<lambda>t. resolved en ns (JStr t)) ts"

definition resolved_dict :: "'w engine \<Rightarrow> names \<Rightarrow> (string, json) dict \<Rightarrow> ('w, (string, json) dict) action" where
  "resolved_dict en ns kvs = each (\<lambda>(k, v). seq (resolved en ns v) (\<lambda>x. ret (k, x))) kvs"

definition resolve_reads :: "'w engine \<Rightarrow> names \<Rightarrow> string list \<Rightarrow> ('w, string list option) action" where
  "resolve_reads en ns reads =
     (if reads = [] then ret None
      else seq (resolved_all en ns reads) (\<lambda>vs. ret (Some (map stringify vs))))"

definition resolve_produces :: "'w engine \<Rightarrow> names \<Rightarrow> string \<Rightarrow> ('w, string) action" where
  "resolve_produces en ns produces =
     (if produces = [] then ret [] else seq (resolved en ns (JStr produces)) (\<lambda>v. ret (stringify v)))"

definition required :: "(string, json) dict \<Rightarrow> string \<Rightarrow> ('w, json) action" where
  "required args k = (case dict_get args k of None \<Rightarrow> throw (StepExn (Raised ''KeyError'')) | Some v \<Rightarrow> ret v)"

definition required_in :: "'w engine \<Rightarrow> names \<Rightarrow> (string, json) dict \<Rightarrow> string \<Rightarrow> ('w, json) action" where
  "required_in en ns args k = seq (required args k) (resolved en ns)"

definition build_check :: "'w engine \<Rightarrow> names \<Rightarrow> (string, json) dict \<Rightarrow> ('w, 'w gate) action" where
  "build_check en ns spec =
     (case spec of
        [(name, JObj args)] \<Rightarrow>
          if name = ''file_nonempty''
          then seq (required_in en ns args ''path'') (\<lambda>p. ret (on_text p (file_nonempty en)))
          else if name = ''choice_in''
          then seq (required_in en ns args ''path'') (\<lambda>p.
               seq (required args ''key'') (\<lambda>k.
               seq (required_in en ns args ''allowed'') (\<lambda>a.
                 ret (on_text p (\<lambda>t. choice_in en t k a)))))
          else seq (required_in en ns args ''collection'') (\<lambda>c.
               seq (required_in en ns args ''path'') (\<lambda>p. ret (collection_has en c p)))
      | [(name, _)] \<Rightarrow> throw (StepExn (Raised ''TypeError''))
      | _ \<Rightarrow> throw (StepExn (Raised ''ValueError'')))"

definition read_summary :: "'w engine \<Rightarrow> string \<Rightarrow> 'w \<Rightarrow> dsl_exn + json" where
  "read_summary en p w =
     raised (if is_json_path p then wf_read_json (en_wh en) w p
             else bindE (read_file en w p) (\<lambda>t. Inr (JStr t)))"

definition gate_summary :: "'w engine \<Rightarrow> gate_node \<Rightarrow> names \<Rightarrow> ('w, json) action" where
  "gate_summary en g ns =
     (if gt_summary_from g = [] then ret (JStr [])
      else if whole_ref (strip (gt_summary_from g)) \<noteq> None then resolved en ns (JStr (gt_summary_from g))
      else seq (resolved en ns (JStr (gt_summary_from g))) (\<lambda>v.
           seq (ask (\<lambda>w. bindE (over_patterns v) (\<lambda>pats. Inr (globs en w pats)))) (\<lambda>ps.
           seq (each (\<lambda>p. seq (ask (read_summary en p)) (\<lambda>x. ret (p, x))) ps) (\<lambda>kvs.
             ret (JObj kvs)))))"


definition resolve_number :: "'w engine \<Rightarrow> names \<Rightarrow> json \<Rightarrow> ('w, int) action" where
  "resolve_number en ns number =
     seq (resolved en ns number) (\<lambda>v.
       case py_int v of None \<Rightarrow> throw (DslError NotInteger) | Some i \<Rightarrow> ret i)"

definition call_capability ::
  "'w runners \<Rightarrow> string \<Rightarrow> string \<Rightarrow> (string, json) dict \<Rightarrow> ('w, unit) action" where
  "call_capability ru call key args = seq (step_run (ru_call ru call args key)) (\<lambda>_. ret ())"

definition text_list :: "string list \<Rightarrow> json" where
  "text_list ts = JArr (map JStr ts)"

definition or_empty :: "(string, json) dict \<Rightarrow> string \<Rightarrow> json" where
  "or_empty d k = (case dict_get d k of None \<Rightarrow> JStr [] | Some v \<Rightarrow> v)"

definition exec_capability ::
  "'w engine \<Rightarrow> 'w runners \<Rightarrow> capability_node \<Rightarrow> names \<Rightarrow> string \<Rightarrow> ('w, unit) action" where
  "exec_capability en ru c ns key =
     (let call = call_capability ru (ca_call c) key; phase = (''phase'', JStr (ca_phase c)); name = (''name'', JStr (ca_name c)) in
      if ca_call c = ''ingest_to_collection'' then
        seq (resolved en ns (JStr (ca_collection c))) (\<lambda>collection.
        seq (resolved en ns (JStr (ca_path c))) (\<lambda>path.
          call [(''collection'', collection), (''path'', path), phase, name]))
      else if ca_call c = ''create_entity'' then
        seq (resolved_dict en ns (ca_args c)) (\<lambda>args.
        seq (resolved en ns (JStr (ca_type_name c))) (\<lambda>ty.
          call [(''type_name'', ty), (''args'', JObj args), name,
                (''on_duplicate'', JStr (if ca_on_duplicate c = [] then ''update'' else ca_on_duplicate c)), phase]))
      else if ca_call c = ''update_entity'' then
        seq (resolved_dict en ns (ca_args c)) (\<lambda>patch.
        seq (resolved en ns (JStr (ca_type_name c))) (\<lambda>ty.
        seq (resolve_number en ns (ca_number c)) (\<lambda>n.
          call_capability ru (ca_call c) [] [(''type_name'', ty), (''number'', JInt n), (''patch'', JObj patch), phase])))
      else if ca_call c = ''send_notification'' then
        seq (resolved_dict en ns (ca_args c)) (\<lambda>a.
        seq (required a ''recipient'') (\<lambda>recipient.
        seq (required a ''topic'') (\<lambda>topic.
          call [(''recipient'', recipient), (''topic'', topic), name, (''title'', or_empty a ''title''),
                (''body'', or_empty a ''body''), (''window'', JStr (ca_window c)), phase])))
      else
        seq (resolved_all en ns (ca_reference_doc_ids c)) (\<lambda>refs.
        seq (resolved en ns (JStr (ca_collection c))) (\<lambda>collection.
        seq (resolved_all en ns (ca_keys c)) (\<lambda>keys.
        seq (resolved en ns (JStr (ca_title c))) (\<lambda>title.
        seq (resolved en ns (JStr (ca_body c))) (\<lambda>body.
          call [(''collection'', collection), (''keys'', JArr keys), (''title'', title), (''body'', body), phase,
                (''reference_doc_ids'', if ca_reference_doc_ids c = [] then JNull else text_list (map py_str refs)),
                name]))))))"

definition optional_name :: "string \<Rightarrow> string option" where
  "optional_name n = (if n = [] then None else Some n)"

definition node_check ::
  "'w engine \<Rightarrow> names \<Rightarrow> (string, json) dict \<Rightarrow> string \<Rightarrow> (string, json) dict option \<Rightarrow> ('w, 'w gate option) action" where
  "node_check en ns outputs produces check =
     (if outputs \<noteq> [] then ret (Some (outputs_check outputs))
      else if produces \<noteq> [] then ret (Some (produces_check produces))
      else (case check of
              None \<Rightarrow> ret None
            | Some [] \<Rightarrow> ret None
            | Some spec \<Rightarrow> seq (build_check en ns spec) (\<lambda>g. ret (Some g))))"

definition exec_sandbox ::
  "'w engine \<Rightarrow> 'w runners \<Rightarrow> sandbox_node \<Rightarrow> names \<Rightarrow> string \<Rightarrow> ('w, unit) action" where
  "exec_sandbox en ru s ns key =
     seq (resolve_produces en ns (sb_produces s)) (\<lambda>produces.
     seq (node_check en ns (sb_outputs s) produces (sb_check s)) (\<lambda>check.
     seq (resolved en ns (JStr (sb_run s))) (\<lambda>run.
     seq (resolve_reads en ns (sb_reads s)) (\<lambda>reads.
     seq (step_run (run_sandbox_node en ru run (sb_phase s) check (optional_name (sb_name s)) key
                      (truthy_dict (sb_outputs s)) produces reads (sb_cache s))) (\<lambda>_. ret ())))))"

definition exec_agent ::
  "'w engine \<Rightarrow> 'w runners \<Rightarrow> agent_node \<Rightarrow> names \<Rightarrow> string \<Rightarrow> ('w, unit) action" where
  "exec_agent en ru a ns key =
     seq (resolved en ns (JStr (ag_prompt a))) (\<lambda>prompt.
     seq (resolve_produces en ns (ag_produces a)) (\<lambda>produces.
     seq (node_check en ns (ag_outputs a) produces (ag_check a)) (\<lambda>check.
     seq (if ag_out a = [] then ret (JStr []) else resolved en ns (JStr (ag_out a))) (\<lambda>out.
     seq (resolve_reads en ns (ag_reads a)) (\<lambda>reads.
     seq (step_run (agent_write_step en ru prompt (ag_phase a) out (if ag_kind a = [] then ''text'' else ag_kind a)
                      (truthy_dict (ag_requires a)) (optional_name (ag_name a)) key
                      (if ag_tools a = [] then None else Some (ag_tools a)) (ag_retries a) (ag_cache a) check
                      (truthy_dict (ag_outputs a)) produces reads)) (\<lambda>_. ret ()))))))"


definition after_decision :: "'w engine \<Rightarrow> gate_node \<Rightarrow> string \<Rightarrow> decision \<Rightarrow> ('w, unit) action" where
  "after_decision en g key d =
     seq (if gt_name g = [] then ret ()
          else publish en (gt_name g) key [(''feedback'', dn_input d), (''choice'', dn_choice d)]) (\<lambda>_.
       if dn_choice d = JStr ''approve'' then ret ()
       else if dn_choice d = JStr ''revise'' \<and> gt_revise_to g \<noteq> []
       then seq (delete_file en (decision_path (en_wh en) (gt_phase g))) (\<lambda>_. throw Revise)
       else throw (Stop (dn_choice d)))"

definition exec_gate :: "'w engine \<Rightarrow> gate_node \<Rightarrow> names \<Rightarrow> string \<Rightarrow> ('w, unit) action" where
  "exec_gate en g ns key =
     seq (resolved en ns (JStr (gt_title g))) (\<lambda>title.
     seq (gate_summary en g ns) (\<lambda>summary.
     seq (engine_run (human_gate en (gt_phase g) title summary (gt_allow g)))
       (after_decision en g key)))"

section \<open>Running steps\<close>

text \<open>The handle of a map element: its own lane for agent turns, where the driver has them.\<close>

definition sub_handle :: "'w runners \<Rightarrow> string \<Rightarrow> 'w runners" where
  "sub_handle ru k = (case ru_sub_turn ru of None \<Rightarrow> ru | Some f \<Rightarrow> ru\<lparr>ru_turn := f k\<rparr>)"

text \<open>A failed step ends its element, not the map.\<close>

definition collecting :: "json \<times> string \<Rightarrow> ('w, unit) action \<Rightarrow> ('w, failed_element list) action" where
  "collecting el m st =
     (case m st of
        (st', Inl (StepExn (StepFailed f))) \<Rightarrow> (st', Inr [(el, f)])
      | (st', Inl e) \<Rightarrow> (st', Inl e)
      | (st', Inr _) \<Rightarrow> (st', Inr []))"

definition add_failures :: "failed_element list \<Rightarrow> ('w, unit) action" where
  "add_failures fs st = (st\<lparr>rs_failures := rs_failures st @ fs\<rparr>, Inr ())"

definition map_over ::
  "map_node \<Rightarrow> int option \<Rightarrow> (json \<times> string \<Rightarrow> ('w, unit) action) \<Rightarrow> (json \<times> string) list \<Rightarrow> ('w, unit) action" where
  "map_over h backend run_one els =
     (if map_concurrency h backend < 0 then throw (StepExn (Raised ''ValueError''))
      else seq (each (\<lambda>el. collecting el (run_one el)) els) (\<lambda>fs. add_failures (concat fs)))"

definition element_names :: "map_node \<Rightarrow> names \<Rightarrow> json \<times> string \<Rightarrow> names" where
  "element_names h ns el = dict_set ''__key__'' (JStr (snd el)) (dict_set (mp_as h) (fst el) ns)"

definition publish_map ::
  "'w engine \<Rightarrow> map_node \<Rightarrow> node list \<Rightarrow> string \<Rightarrow> (json \<times> string) list \<Rightarrow> ('w, unit) action" where
  "publish_map en h do_steps key els =
     (if mp_name h = [] then ret ()
      else seq (ask (\<lambda>w. collect_map_outputs en (collect_name h do_steps) w (map snd els))) (\<lambda>vs.
             publish en (mp_name h) key [(''outputs'', JArr vs)]))"

function exec_node :: "'w engine \<Rightarrow> 'w runners \<Rightarrow> names \<Rightarrow> string \<Rightarrow> node \<Rightarrow> ('w, unit) action"
  and exec_nodes :: "'w engine \<Rightarrow> 'w runners \<Rightarrow> names \<Rightarrow> string \<Rightarrow> node list \<Rightarrow> ('w, unit) action"
  and exec_case :: "'w engine \<Rightarrow> 'w runners \<Rightarrow> names \<Rightarrow> string \<Rightarrow> string \<Rightarrow> string \<Rightarrow> (string \<times> node list) list
     \<Rightarrow> node list option \<Rightarrow> ('w, unit) action" where
  "exec_node en ru ns key (Agent a) = exec_agent en ru a ns key"
| "exec_node en ru ns key (Sandbox s) = exec_sandbox en ru s ns key"
| "exec_node en ru ns key (Gate g) = exec_gate en g ns key"
| "exec_node en ru ns key (Capability c) = exec_capability en ru c ns key"
| "exec_node en ru ns key (MapOver h do_steps) =
     seq (ask (map_elements en ns h)) (\<lambda>els.
     seq (gc_map_orphans en do_steps (map snd els)) (\<lambda>_.
     seq (map_over h (ru_concurrency ru)
            (\<lambda>el. exec_nodes en (sub_handle ru (snd el)) (element_names h ns el) (snd el) do_steps) els) (\<lambda>_.
       publish_map en h do_steps key els)))"
| "exec_node en ru ns key (Switch h cases dflt) =
     seq (resolved en ns (JStr (sw_on h))) (\<lambda>v. exec_case en ru ns key (sw_on h) (stringify v) cases dflt)"
| "exec_nodes en ru ns key [] = ret ()"
| "exec_nodes en ru ns key (n # rest) = seq (exec_node en ru ns key n) (\<lambda>_. exec_nodes en ru ns key rest)"
| "exec_case en ru ns key on c ((c', body) # cases) dflt =
     (if c = c' then exec_nodes en ru ns key body else exec_case en ru ns key on c cases dflt)"
| "exec_case en ru ns key on c [] (Some body) = exec_nodes en ru ns key body"
| "exec_case en ru ns key on c [] None =
     throw (step_failed (''switch on '' @ on @ '' got '' @ py_repr_str c @ '': no matching case and no default''))"
  by pat_completeness auto
termination
  by (relation "measure (\<lambda>x. case x of
        Inl (_, _, _, _, n) \<Rightarrow> size n
      | Inr (Inl (_, _, _, _, ns)) \<Rightarrow> size_list size ns
      | Inr (Inr (_, _, _, _, _, _, cases, dflt)) \<Rightarrow>
          size_list (size_prod (\<lambda>_. 0) (size_list size)) cases + size_option (size_list size) dflt)")
     simp_all

section \<open>Running a definition\<close>

record workflow_def =
  wd_id :: string
  wd_title :: string
  wd_phases :: "string list"
  wd_config :: "(string, json) dict"
  wd_steps :: "node list"
  wd_schema :: int

record run_result =
  rr_status :: json
  rr_failures :: "failed_element list"

definition top_names :: "workflow_def \<Rightarrow> json \<Rightarrow> names" where
  "top_names d inputs =
     [(''config'', JObj (wd_config d)), (''inputs'', if inputs = JNull then JObj [] else inputs), (''__key__'', JStr [])]"

text \<open>One drive from the top.\<close>

definition drive_once ::
  "'w engine \<Rightarrow> 'w runners \<Rightarrow> workflow_def \<Rightarrow> json \<Rightarrow> 'w step_state \<Rightarrow> 'w run_state \<times> (dsl_exn + unit)" where
  "drive_once en ru d inputs s =
     exec_nodes en ru (top_names d inputs) [] (wd_steps d) \<lparr>rs_step = s, rs_failures = []\<rparr>"

partial_function (option) build_run ::
  "'w engine \<Rightarrow> 'w runners \<Rightarrow> workflow_def \<Rightarrow> json \<Rightarrow> 'w step_state
   \<Rightarrow> ('w step_state \<times> (dsl_exn + run_result)) option" where
  "build_run en ru d inputs s =
     (case drive_once en ru d inputs s of
        (st, Inl Revise) \<Rightarrow> build_run en ru d inputs (rs_step st)
      | (st, Inl (Stop c)) \<Rightarrow> Some (rs_step st, Inr \<lparr>rr_status = c, rr_failures = []\<rparr>)
      | (st, Inl e) \<Rightarrow> Some (rs_step st, Inl e)
      | (st, Inr _) \<Rightarrow> Some (rs_step st, Inr \<lparr>rr_status = JStr ''done'', rr_failures = rs_failures st\<rparr>))"

end
