(* ===== verification/DslCheck.thy ===== *)
theory DslCheck
  imports DslRun
begin

text \<open>
  The static check of a workflow definition (\<open>validate_def\<close> of \<open>workflow/dsl.py\<close>) and the rule
  that bounds an agent step's tools (\<open>narrow_entries\<close> of \<open>tooling/catalog.py\<close>).  A problem is
  the place and what is wrong there; the wording of the messages is left out.
\<close>

section \<open>Problems\<close>

datatype issue =
  BadRef ref_problem
| OutputNotAType string | UnknownOutputType string json | EnumOnNonScalar string
| UnknownRequires string | ContainsNotTexts | MinLengthNotCount
| CheckNotOne | UnknownCheck string | CheckNotObject string | CheckMissing string string
| EmptyRead | ReadTraversal
| NestedInMap | UndeclaredPhase string | BadRange | OverEmpty | AsEmpty | DoEmpty
| NoCollect string | UnknownCollect string
| NoTitle | NoAllow | ReviseInCase
| UnknownCapability string | CapabilityNeeds string | CapabilityNeedsArg string | CapabilityNeedsName
| BadOnDuplicate string | BadWindow string
| NoRun | ManyKinds | NoKind | NoPrompt | RequiresWithoutOut | RequiresAndCheck | NegativeRetries
| ToolOutside string
| SwitchTooDeep | NoSwitchOn | SwitchOnNotRef | NoCases | CaseOutsideEnum string | EnumNotCovered "string list"
| ReviseUnpaired | ReviseUnnamed | ReviseTarget string | GateBetween | FeedbackUnused string
| DuplicateName string
| BadSchema int | NoId | PhaseWithoutId | NoSteps | DuplicateGate string
| EnumRaises

type_synonym problem = "string \<times> issue"

definition at_place :: "string \<Rightarrow> ref_problem list \<Rightarrow> problem list" where
  "at_place loc rs = map (\<lambda>r. (loc, BadRef r)) rs"

abbreviation unless :: "bool \<Rightarrow> string \<Rightarrow> issue \<Rightarrow> problem list" where
  "unless ok loc i \<equiv> (if ok then [] else [(loc, i)])"

section \<open>Parts of a step\<close>

definition OUTPUT_TYPES :: "json list" where
  "OUTPUT_TYPES = map JStr [''str'', ''int'', ''float'', ''bool'', ''list'', ''obj'']"

definition validate_output :: "string \<Rightarrow> string \<times> json \<Rightarrow> problem list" where
  "validate_output loc field =
     (let name = fst field; spec = snd field in
      if type_name spec \<noteq> ''str'' \<and> jget spec ''type'' = None then [(loc, OutputNotAType name)]
      else let (tname, enum) = spec_type_enum spec in
        unless (tname \<in> set OUTPUT_TYPES) loc (UnknownOutputType name tname)
        @ unless (enum = None \<or> tname \<notin> {JStr ''list'', JStr ''obj''}) loc (EnumOnNonScalar name))"

definition validate_outputs :: "string \<Rightarrow> (string, json) dict \<Rightarrow> problem list" where
  "validate_outputs loc outputs = concat (map (validate_output loc) outputs)"

definition present :: "json option \<Rightarrow> bool" where
  "present v \<longleftrightarrow> v \<noteq> None \<and> v \<noteq> Some JNull"

definition validate_requires :: "string \<Rightarrow> (string, json) dict \<Rightarrow> problem list" where
  "validate_requires loc requires =
     concat (map (\<lambda>k. unless (k \<in> {''contains'', ''min_length''}) loc (UnknownRequires k)) (dict_keys requires))
     @ unless (present (dict_get requires ''contains'') \<longrightarrow>
         (case dict_get requires ''contains'' of
            Some (JArr vs) \<Rightarrow> list_all (\<lambda>v. type_name v = ''str'') vs | _ \<Rightarrow> False)) loc ContainsNotTexts
     @ unless (present (dict_get requires ''min_length'') \<longrightarrow>
         (case dict_get requires ''min_length'' of Some (JInt n) \<Rightarrow> 0 \<le> n | _ \<Rightarrow> False)) loc MinLengthNotCount"

definition CHECK_REQUIRED :: "(string \<times> string list) list" where
  "CHECK_REQUIRED =
     [(''file_nonempty'', [''path'']), (''choice_in'', [''path'', ''key'', ''allowed'']),
      (''collection_has'', [''collection'', ''path''])]"

definition validate_check ::
  "string list \<Rightarrow> steps_seen \<Rightarrow> string \<Rightarrow> (string, json) dict \<Rightarrow> problem list" where
  "validate_check scope seen loc spec =
     (case spec of
        [(name, args)] \<Rightarrow>
          (case map_of CHECK_REQUIRED name of
             None \<Rightarrow> [(loc, UnknownCheck name)]
           | Some needed \<Rightarrow>
               (case args of
                  JObj kvs \<Rightarrow>
                    concat (map (\<lambda>k. unless (dict_get kvs k \<noteq> None) loc (CheckMissing name k)) needed)
                    @ at_place loc (check_interp scope (Some seen) args)
                | _ \<Rightarrow> [(loc, CheckNotObject name)]))
      | _ \<Rightarrow> [(loc, CheckNotOne)])"

definition validate_check_option ::
  "string list \<Rightarrow> steps_seen \<Rightarrow> string \<Rightarrow> (string, json) dict option \<Rightarrow> problem list" where
  "validate_check_option scope seen loc check =
     (case check of None \<Rightarrow> [] | Some spec \<Rightarrow> validate_check scope seen loc spec)"

text \<open>\<open>_TOKEN.search\<close>: some reference stands in the text.\<close>

fun has_token :: "string \<Rightarrow> bool" where
  "has_token [] = False"
| "has_token (c # cs) =
     (c = CHR ''{'' \<and> takeWhile plain cs \<noteq> [] \<and> dropWhile plain cs \<noteq> [] \<and> hd (dropWhile plain cs) = CHR ''}''
      \<or> has_token cs)"

definition validate_read :: "string \<Rightarrow> string \<Rightarrow> problem list" where
  "validate_read loc entry =
     (if strip entry = [] \<and> \<not> has_token entry then [(loc, EmptyRead)]
      else if ''..'' \<in> set (split_on (CHR ''/'') entry) then [(loc, ReadTraversal)]
      else [])"

definition check_texts :: "string list \<Rightarrow> steps_seen \<Rightarrow> string \<Rightarrow> string list \<Rightarrow> problem list" where
  "check_texts scope seen loc ts = at_place loc (check_interp scope (Some seen) (text_list ts))"

definition validate_reads :: "string list \<Rightarrow> steps_seen \<Rightarrow> string \<Rightarrow> string list \<Rightarrow> problem list" where
  "validate_reads scope seen loc reads =
     concat (map (validate_read loc) reads) @ check_texts scope seen loc reads"

text \<open>The tools a list of entries keeps of those held, whole packages and single commands alike.\<close>

definition entry_package :: "string \<Rightarrow> string" where
  "entry_package e = takeWhile (\<lambda>c. c \<noteq> CHR '':'') e"

definition entry_units :: "string set \<Rightarrow> string list \<Rightarrow> string \<Rightarrow> string list" where
  "entry_units builtins held e =
     (if e \<in> set held then [e]
      else if CHR '':'' \<notin> set e
      then sort (remdups (filter (\<lambda>h. CHR '':'' \<in> set h \<and> entry_package h = e) held))
      else if entry_package e \<in> set held \<and> entry_package e \<notin> builtins then [e]
      else [])"

definition narrow_entries :: "string set \<Rightarrow> string list \<Rightarrow> string list \<Rightarrow> string list" where
  "narrow_entries builtins entries held =
     fold (\<lambda>u out. if u \<in> set out then out else out @ [u]) (concat (map (entry_units builtins held) entries)) []"

section \<open>Steps\<close>

text \<open>What a check of a whole definition is given: declared phases, tool ceiling, capabilities.\<close>

record check_env =
  ce_declared :: "string list"
  ce_ceiling :: "string list option"
  ce_builtins :: "string set"
  ce_capabilities :: "string list"

definition CAP_REQUIRED :: "string \<Rightarrow> string list" where
  "CAP_REQUIRED call =
     (if call = ''ingest_to_collection'' then [''collection'', ''path'']
      else if call = ''upsert_context_card'' then [''collection'', ''keys'']
      else if call = ''create_entity'' then [''type_name'']
      else if call = ''update_entity'' then [''type_name'', ''number'']
      else [])"

definition CAP_REQUIRED_ARGS :: "string \<Rightarrow> string list" where
  "CAP_REQUIRED_ARGS call = (if call = ''send_notification'' then [''recipient'', ''topic''] else [])"

definition CAP_ON_DUPLICATE :: "string \<Rightarrow> string list" where
  "CAP_ON_DUPLICATE call = (if call = ''create_entity'' then [''update'', ''skip'', ''create_new''] else [])"

definition CAP_WINDOW :: "string \<Rightarrow> string list" where
  "CAP_WINDOW call = (if call = ''send_notification'' then [''daily'', ''weekly'', ''monthly''] else [])"

definition CAP_OUTPUTS :: "string \<Rightarrow> (string, json) dict" where
  "CAP_OUTPUTS call =
     (if call = ''create_entity'' then [(''number'', JStr ''int''), (''created'', JStr ''bool''), (''action'', JStr ''str'')]
      else if call = ''send_notification''
      then [(''sent'', JStr ''bool''), (''action'', JStr ''str''), (''notification_id'', JStr ''str'')]
      else if call = ''ingest_to_collection'' then [(''doc_id'', JStr ''str'')]
      else if call = ''upsert_context_card'' then [(''card_id'', JStr ''str'')]
      else [])"

definition CAP_NEEDS_NAME :: "string list" where
  "CAP_NEEDS_NAME = [''create_entity'', ''send_notification'']"

definition capability_has :: "capability_node \<Rightarrow> string \<Rightarrow> bool" where
  "capability_has c field =
     (if field = ''collection'' then ca_collection c \<noteq> []
      else if field = ''path'' then ca_path c \<noteq> []
      else if field = ''keys'' then ca_keys c \<noteq> []
      else if field = ''type_name'' then ca_type_name c \<noteq> []
      else truthy (ca_number c))"

definition validate_capability :: "check_env \<Rightarrow> string list \<Rightarrow> steps_seen \<Rightarrow> string \<Rightarrow> capability_node \<Rightarrow> problem list" where
  "validate_capability env scope seen loc c =
     (if ca_call c \<notin> set (ce_capabilities env) then [(loc, UnknownCapability (ca_call c))]
      else concat (map (\<lambda>f. unless (capability_has c f) loc (CapabilityNeeds f)) (CAP_REQUIRED (ca_call c)))
        @ concat (map (\<lambda>k. unless (case dict_get (ca_args c) k of None \<Rightarrow> False | Some v \<Rightarrow> truthy v) loc
                             (CapabilityNeedsArg k)) (CAP_REQUIRED_ARGS (ca_call c)))
        @ (if ca_call c \<in> set CAP_NEEDS_NAME \<and> ca_name c = [] then [(loc, CapabilityNeedsName)]
           else unless (ca_on_duplicate c = [] \<or> ca_on_duplicate c \<in> set (CAP_ON_DUPLICATE (ca_call c))) loc
                  (BadOnDuplicate (ca_on_duplicate c)))
        @ unless (ca_window c = [] \<or> ca_window c \<in> set (CAP_WINDOW (ca_call c))) loc (BadWindow (ca_window c)))
     @ at_place loc (check_interp scope (Some seen)
         (JArr [JStr (ca_collection c), JStr (ca_path c), JStr (ca_title c), JStr (ca_body c),
                text_list (ca_keys c), JObj (ca_args c), ca_number c]))"

definition validate_sandbox :: "string list \<Rightarrow> steps_seen \<Rightarrow> string \<Rightarrow> sandbox_node \<Rightarrow> problem list" where
  "validate_sandbox scope seen loc s =
     unless (sb_run s \<noteq> []) loc NoRun
     @ at_place loc (check_interp scope (Some seen) (JStr (sb_run s)))
     @ validate_check_option scope seen loc (sb_check s)
     @ validate_outputs loc (sb_outputs s)
     @ unless (sb_outputs s = [] \<or> sb_produces s = []) loc ManyKinds
     @ at_place loc (check_interp scope (Some seen) (JStr (sb_produces s)))
     @ validate_reads scope seen loc (sb_reads s)"

text \<open>How many of the three output kinds an agent step declares.\<close>

definition output_kinds :: "agent_node \<Rightarrow> nat" where
  "output_kinds a =
     (if ag_outputs a \<noteq> [] then 1 else 0) + (if ag_out a \<noteq> [] then 1 else 0) + (if ag_produces a \<noteq> [] then 1 else 0)"

definition validate_agent :: "check_env \<Rightarrow> string list \<Rightarrow> steps_seen \<Rightarrow> string \<Rightarrow> agent_node \<Rightarrow> problem list" where
  "validate_agent env scope seen loc a =
     unless (ag_prompt a \<noteq> []) loc NoPrompt
     @ (if 1 < output_kinds a then [(loc, ManyKinds)] else if output_kinds a = 0 then [(loc, NoKind)] else [])
     @ (if ag_requires a = [] then []
        else unless (ag_out a \<noteq> []) loc RequiresWithoutOut
          @ unless (ag_check a = None) loc RequiresAndCheck
          @ validate_requires loc (ag_requires a))
     @ unless (0 \<le> ag_retries a) loc NegativeRetries
     @ (case ce_ceiling env of
          None \<Rightarrow> []
        | Some ceil \<Rightarrow>
            concat (map (\<lambda>t. unless (narrow_entries (ce_builtins env) [t] ceil \<noteq> []) loc (ToolOutside t)) (ag_tools a)))
     @ at_place loc (check_interp scope (Some seen)
         (JArr [JStr (ag_prompt a), JStr (ag_out a), text_list (ag_tools a)]))
     @ validate_check_option scope seen loc (ag_check a)
     @ validate_outputs loc (ag_outputs a)
     @ validate_reads scope seen loc (ag_reads a)"

definition validate_gate :: "string list \<Rightarrow> steps_seen \<Rightarrow> nat \<Rightarrow> string \<Rightarrow> gate_node \<Rightarrow> problem list" where
  "validate_gate scope seen depth loc g =
     unless (gt_title g \<noteq> []) loc NoTitle
     @ unless (gt_allow g \<noteq> []) loc NoAllow
     @ unless (gt_revise_to g = [] \<or> depth = 0) loc ReviseInCase
     @ at_place loc (check_interp scope (Some seen) (JStr (gt_title g)))"

definition validate_over :: "string list \<Rightarrow> steps_seen \<Rightarrow> string \<Rightarrow> json \<Rightarrow> problem list" where
  "validate_over scope seen loc over =
     (case over of
        JObj kvs \<Rightarrow>
          (case kvs of
             [(k, JStr r)] \<Rightarrow>
               if k = ''range'' then at_place loc (check_interp scope (Some seen) (JStr r)) else [(loc, BadRange)]
           | _ \<Rightarrow> [(loc, BadRange)])
      | _ \<Rightarrow> if truthy over then at_place loc (check_interp scope (Some seen) over) else [(loc, OverEmpty)])"

definition validate_collect :: "string \<Rightarrow> map_node \<Rightarrow> node list \<Rightarrow> problem list" where
  "validate_collect loc h do_steps =
     (if mp_name h = [] then []
      else let cname = collect_name h do_steps in
        if cname = [] then [(loc, NoCollect (mp_name h))]
        else unless (dict_get (named_steps do_steps) cname \<noteq> None) loc (UnknownCollect cname))"

text \<open>The values of an enum as the cases of a switch name them; a bare number has none to iterate.\<close>

definition enum_values :: "json \<Rightarrow> string list option" where
  "enum_values e =
     (case e of
        JArr vs \<Rightarrow> Some (map stringify vs)
      | JStr s \<Rightarrow> Some (map (\<lambda>c. [c]) s)
      | JObj kvs \<Rightarrow> Some (dict_keys kvs)
      | _ \<Rightarrow> None)"

definition switch_field :: "switch_node \<Rightarrow> steps_seen \<Rightarrow> json option" where
  "switch_field h seen =
     (case whole_ref (strip (sw_on h)) of
        None \<Rightarrow> None
      | Some e \<Rightarrow>
          (case split_on (CHR ''.'') (strip e) of
             base # name # f # _ \<Rightarrow>
               if base = ''steps''
               then (case dict_get seen name of None \<Rightarrow> None | Some flds \<Rightarrow> dict_get flds f)
               else None
           | _ \<Rightarrow> None))"

definition validate_switch_enum ::
  "switch_node \<Rightarrow> string list \<Rightarrow> bool \<Rightarrow> steps_seen \<Rightarrow> string \<Rightarrow> problem list" where
  "validate_switch_enum h cases has_default seen loc =
     (case switch_field h seen of
        None \<Rightarrow> []
      | Some spec \<Rightarrow>
          (case snd (spec_type_enum spec) of
             None \<Rightarrow> []
           | Some e \<Rightarrow>
               (case enum_values e of
                  None \<Rightarrow> [(loc, EnumRaises)]
                | Some allowed \<Rightarrow>
                    concat (map (\<lambda>c. unless (c \<in> set allowed) loc (CaseOutsideEnum c)) cases)
                    @ (let missing = filter (\<lambda>v. v \<notin> set cases) (remdups allowed) in
                       unless (has_default \<or> missing = []) loc (EnumNotCovered (sort missing))))))"

definition validate_on ::
  "string list \<Rightarrow> steps_seen \<Rightarrow> string \<Rightarrow> switch_node \<Rightarrow> string list \<Rightarrow> bool \<Rightarrow> problem list" where
  "validate_on scope seen loc h cases has_default =
     (if sw_on h = [] then [(loc, NoSwitchOn)]
      else if whole_ref (strip (sw_on h)) = None then [(loc, SwitchOnNotRef)]
      else at_place loc (check_interp scope (Some seen) (JStr (sw_on h)))
        @ validate_switch_enum h cases has_default seen loc)"

text \<open>What a later step may refer to once this one is declared.\<close>

definition seen_fields :: "node \<Rightarrow> (string, json) dict" where
  "seen_fields n =
     (case n of
        MapOver h ns \<Rightarrow> [(''outputs'', JStr ''list'')]
      | Capability c \<Rightarrow> CAP_OUTPUTS (ca_call c)
      | Agent a \<Rightarrow> (if ag_produces a \<noteq> [] then [(''produces'', JStr ''list'')] else ag_outputs a)
      | Sandbox s \<Rightarrow> (if sb_produces s \<noteq> [] then [(''produces'', JStr ''list'')] else sb_outputs s)
      | _ \<Rightarrow> [])"

fun node_name :: "node \<Rightarrow> string" where
  "node_name (Agent a) = ag_name a"
| "node_name (Sandbox s) = sb_name s"
| "node_name (Gate g) = gt_name g"
| "node_name (Capability c) = ca_name c"
| "node_name (MapOver h ns) = mp_name h"
| "node_name (Switch h cs d) = []"

fun is_gate :: "node \<Rightarrow> bool" where
  "is_gate (Gate g) = True"
| "is_gate n = False"

definition register_step :: "node \<Rightarrow> steps_seen \<Rightarrow> string \<Rightarrow> steps_seen \<times> problem list" where
  "register_step n seen loc =
     (if is_gate n \<or> node_name n = [] then (seen, [])
      else if dict_get seen (node_name n) \<noteq> None then (seen, [(loc, DuplicateName (node_name n))])
      else (dict_set (node_name n) (seen_fields n) seen, []))"

fun node_phase :: "node \<Rightarrow> string" where
  "node_phase (Agent a) = ag_phase a"
| "node_phase (Sandbox s) = sb_phase s"
| "node_phase (Gate g) = gt_phase g"
| "node_phase (Capability c) = ca_phase c"
| "node_phase (MapOver h ns) = mp_phase h"
| "node_phase (Switch h cs d) = sw_phase h"

definition SWITCH_MAX_DEPTH :: nat where
  "SWITCH_MAX_DEPTH = 32"

definition phase_problem :: "check_env \<Rightarrow> string \<Rightarrow> node \<Rightarrow> problem list" where
  "phase_problem env loc n = unless (node_phase n \<in> set (ce_declared env)) loc (UndeclaredPhase (node_phase n))"

definition indexed :: "string \<Rightarrow> nat \<Rightarrow> string" where
  "indexed prefix i = prefix @ ''['' @ dec i @ '']''"

function validate_node ::
    "check_env \<Rightarrow> bool \<Rightarrow> nat \<Rightarrow> string list \<Rightarrow> steps_seen \<Rightarrow> string \<Rightarrow> node \<Rightarrow> problem list"
  and validate_nodes ::
    "check_env \<Rightarrow> bool \<Rightarrow> nat \<Rightarrow> string list \<Rightarrow> steps_seen \<Rightarrow> string \<Rightarrow> nat \<Rightarrow> node list \<Rightarrow> problem list"
  and validate_cases ::
    "check_env \<Rightarrow> bool \<Rightarrow> nat \<Rightarrow> string list \<Rightarrow> string \<Rightarrow> (string \<times> node list) list \<Rightarrow> node list option
     \<Rightarrow> problem list" where
  "validate_node env outer depth scope seen loc (Agent a) =
     phase_problem env loc (Agent a) @ validate_agent env scope seen loc a"
| "validate_node env outer depth scope seen loc (Sandbox s) =
     phase_problem env loc (Sandbox s) @ validate_sandbox scope seen loc s"
| "validate_node env outer depth scope seen loc (Capability c) =
     phase_problem env loc (Capability c) @ validate_capability env scope seen loc c"
| "validate_node env outer depth scope seen loc (Gate g) =
     (if \<not> outer then [(loc, NestedInMap)]
      else phase_problem env loc (Gate g) @ validate_gate scope seen depth loc g)"
| "validate_node env outer depth scope seen loc (MapOver h do_steps) =
     (if \<not> outer then [(loc, NestedInMap)]
      else phase_problem env loc (MapOver h do_steps)
        @ validate_over scope seen loc (mp_over h)
        @ unless (mp_as h \<noteq> []) loc AsEmpty
        @ unless (do_steps \<noteq> []) loc DoEmpty
        @ validate_nodes env False depth (List.insert (mp_as h) scope) [] (loc @ ''.do'') 0 do_steps
        @ validate_collect loc h do_steps)"
| "validate_node env outer depth scope seen loc (Switch h cases dflt) =
     phase_problem env loc (Switch h cases dflt)
     @ (if SWITCH_MAX_DEPTH \<le> depth then [(loc, SwitchTooDeep)]
        else validate_on scope seen loc h (map fst cases) (dflt \<noteq> None)
          @ unless (cases \<noteq> []) loc NoCases
          @ validate_cases env outer (Suc depth) scope loc cases dflt)"
| "validate_nodes env outer depth scope seen prefix i [] = []"
| "validate_nodes env outer depth scope seen prefix i (n # ns) =
     (let loc = indexed prefix i; (seen', dups) = register_step n seen loc in
      validate_node env outer depth scope seen loc n @ dups
      @ validate_nodes env outer depth scope seen' prefix (Suc i) ns)"
| "validate_cases env outer depth scope loc ((c, body) # cases) dflt =
     validate_nodes env outer depth scope [] (loc @ ''.cases['' @ c @ '']'') 0 body
     @ validate_cases env outer depth scope loc cases dflt"
| "validate_cases env outer depth scope loc [] (Some body) =
     validate_nodes env outer depth scope [] (loc @ ''.default'') 0 body"
| "validate_cases env outer depth scope loc [] None = []"
  by pat_completeness auto
termination
  by (relation "measure (\<lambda>x. case x of
        Inl (_, _, _, _, _, _, n) \<Rightarrow> size n
      | Inr (Inl (_, _, _, _, _, _, _, ns)) \<Rightarrow> size_list size ns
      | Inr (Inr (_, _, _, _, _, cases, dflt)) \<Rightarrow>
          size_list (size_prod (\<lambda>_. 0) (size_list size)) cases + size_option (size_list size) dflt)")
     simp_all

section \<open>The revise edges\<close>

fun first_named :: "string \<Rightarrow> nat \<Rightarrow> node list \<Rightarrow> nat option" where
  "first_named name i [] = None"
| "first_named name i (n # ns) = (if node_name n = name \<and> name \<noteq> [] then Some i else first_named name (Suc i) ns)"

fun node_text :: "node \<Rightarrow> string" where
  "node_text (Agent a) = ag_prompt a"
| "node_text (Sandbox s) = sb_run s"
| "node_text n = []"

definition references_feedback :: "node \<Rightarrow> string \<Rightarrow> bool" where
  "references_feedback n gate =
     list_ex (\<lambda>p. case p of PText s \<Rightarrow> False
                 | PRef e \<Rightarrow> split_on (CHR ''.'') (strip e) = [''steps'', gate, ''feedback'']) (scan (node_text n))"

definition validate_revise_gate :: "node list \<Rightarrow> nat \<Rightarrow> gate_node \<Rightarrow> problem list" where
  "validate_revise_gate steps j g =
     (let loc = indexed ''steps'' j in
      unless ((''revise'' \<in> set (gt_allow g)) = (gt_revise_to g \<noteq> [])) loc ReviseUnpaired
      @ (if gt_revise_to g = [] then []
         else unless (gt_name g \<noteq> []) loc ReviseUnnamed
           @ (case first_named (gt_revise_to g) 0 steps of
                None \<Rightarrow> [(loc, ReviseTarget (gt_revise_to g))]
              | Some i \<Rightarrow>
                  if j \<le> i then [(loc, ReviseTarget (gt_revise_to g))]
                  else unless (\<not> list_ex is_gate (drop (Suc i) (take j steps))) loc GateBetween
                    @ unless (gt_name g = [] \<or> references_feedback (steps ! i) (gt_name g)) loc
                        (FeedbackUnused (gt_revise_to g)))))"

definition validate_revise :: "node list \<Rightarrow> problem list" where
  "validate_revise steps =
     concat (map (\<lambda>(j, n). case n of Gate g \<Rightarrow> validate_revise_gate steps j g | _ \<Rightarrow> []) (enumerate 0 steps))"

section \<open>A definition\<close>

fun gate_seed :: "node list \<Rightarrow> steps_seen \<Rightarrow> steps_seen \<times> problem list" where
  "gate_seed [] seed = (seed, [])"
| "gate_seed (Gate g # ns) seed =
     (if gt_name g = [] then gate_seed ns seed
      else let dup = unless (dict_get seed (gt_name g) = None) ''steps'' (DuplicateGate (gt_name g));
               (seed', more) = gate_seed ns
                 (dict_set (gt_name g) [(''feedback'', JStr ''str''), (''choice'', JStr ''str'')] seed)
           in (seed', dup @ more))"
| "gate_seed (n # ns) seed = gate_seed ns seed"

definition TOP_SCOPE :: "string list" where
  "TOP_SCOPE = [''config'', ''inputs'', ''steps'']"

definition definition_problems :: "check_env \<Rightarrow> workflow_def \<Rightarrow> problem list" where
  "definition_problems env d =
     (let env' = env\<lparr>ce_declared := wd_phases d\<rparr>; (seed, dups) = gate_seed (wd_steps d) [] in
      unless (wd_schema d = 1) [] (BadSchema (wd_schema d))
      @ unless (wd_id d \<noteq> []) [] NoId
      @ unless ([] \<notin> set (wd_phases d)) [] PhaseWithoutId
      @ unless (wd_steps d \<noteq> []) [] NoSteps
      @ dups
      @ validate_nodes env' True 0 TOP_SCOPE seed ''steps'' 0 (wd_steps d)
      @ validate_revise (wd_steps d))"

text \<open>An enum that cannot be iterated raises, whatever else is wrong.\<close>

definition validate_def :: "check_env \<Rightarrow> workflow_def \<Rightarrow> step_exn + problem list" where
  "validate_def env d =
     (let ps = definition_problems env d in
      if list_ex (\<lambda>p. snd p = EnumRaises) ps then Inl (Raised ''TypeError'') else Inr ps)"

end
