(* ===== verification/DslDisk.thy ===== *)
theory DslDisk
  imports DslRun
begin

text \<open>
  The interpreter's surroundings on a plain store of files: the model the contracts on the
  engine are interpreted on, and the examples run on.
\<close>

section \<open>Files and runners\<close>

text \<open>
  The engine on the files of \<open>StepJournal\<close>: \<open>paths\<close> are the files a listing finds; runners whose
  commands and turns answer as given and touch no file.
\<close>

definition disk_engine :: "(string \<Rightarrow> json option) \<Rightarrow> string list \<Rightarrow> string \<Rightarrow> disk engine" where
  "disk_engine loads paths dir =
     \<lparr>en_wh = disk_handle dir, en_digest = (\<lambda>t. t),
      en_ls = (\<lambda>w. filter (\<lambda>p. w p \<noteq> None) paths),
      en_read = (\<lambda>w p. case w p of Some (Parsed j) \<Rightarrow> Some (dumps j) | Some Garbled \<Rightarrow> Some ''?'' | None \<Rightarrow> None),
      en_write = (\<lambda>w p t. Inr (w(p \<mapsto> (case loads t of Some j \<Rightarrow> Parsed j | None \<Rightarrow> Garbled)))),
      en_write_json = (\<lambda>w p j. Inr (w(p \<mapsto> Parsed (sorted_keys j)))),
      en_delete = (\<lambda>w p. if w p = None then Inl (Raised ''FileNotFound'') else Inr (w(p := None))),
      en_loads = loads, en_problem = (\<lambda>kind t. None), en_collection_has = (\<lambda>w c p. False)\<rparr>"

definition quiet_runners :: "(json \<Rightarrow> int \<times> string) \<Rightarrow> (json \<Rightarrow> turn) \<Rightarrow> (string \<Rightarrow> json) \<Rightarrow> 'w runners" where
  "quiet_runners command reply call =
     \<lparr>ru_sandbox = (\<lambda>run w. (w, Inr (command run))), ru_turn = (\<lambda>prompt held w. (w, reply prompt)),
      ru_sub_turn = None, ru_concurrency = None, ru_reconcile = (\<lambda>w. (w, Inr ())),
      ru_shape = (\<lambda>outputs kind. []), ru_retry_text = (\<lambda>prompt feedback previous. prompt),
      ru_repair_text = (\<lambda>previous v outputs kind. previous),
      ru_call = (\<lambda>name args key s. (s, Inr (call name)))\<rparr>"

lemma disk_fields [simp]:
  "en_wh (disk_engine loads paths dir) = disk_handle dir"
  "en_write (disk_engine loads paths dir) w p t = Inr (w(p \<mapsto> (case loads t of Some j \<Rightarrow> Parsed j | None \<Rightarrow> Garbled)))"
  "en_write_json (disk_engine loads paths dir) w p j = Inr (w(p \<mapsto> Parsed (sorted_keys j)))"
  "en_delete (disk_engine loads paths dir) w p = (if w p = None then Inl (Raised ''FileNotFound'') else Inr (w(p := None)))"
  by (simp_all add: disk_engine_def)

end
