(* ===== verification/DslOutputs.thy ===== *)
theory DslOutputs
  imports DslDisk
begin

text \<open>
  What the steps of a definition hand on to later ones: declared output fields, which resolve
  with their declared type once the step's gate has passed, and the keys under which the
  elements of a map are journaled.
\<close>

section \<open>Declared fields\<close>

lemma type_name_sorted [simp]: "type_name (sorted_keys v) = type_name v"
  by (cases v) simp_all

lemma field_type_sorted [simp]: "field_type_ok (sorted_keys v) t = field_type_ok v t"
  by (simp add: field_type_ok_def)

lemma outputs_problem_none:
  "outputs_problem flds specs = Inr None \<Longrightarrow> (f, spec) \<in> set specs \<Longrightarrow>
     \<exists>v. dict_get flds f = Some v \<and> field_type_ok v (fst (spec_type_enum spec))"
proof (induction specs)
  case (Cons s specs)
  obtain g sp where s: "s = (g, sp)" by fastforce
  from Cons.prems(1) s obtain v where v: "dict_get flds g = Some v" "field_type_ok v (fst (spec_type_enum sp))"
      "outputs_problem flds specs = Inr None"
    by (auto simp: bindE_eq_Inr split: option.splits prod.splits if_splits)
  show ?case
  proof (cases "(f, spec) = s")
    case True
    with s v show ?thesis by simp
  next
    case False
    with Cons.prems(2) Cons.IH [OF v(3)] show ?thesis by simp
  qed
qed simp

lemma outputs_check_ok:
  assumes "outputs_check outputs w r = Inr v" "ck_ok v" "(f, spec) \<in> set outputs"
  shows "\<exists>flds x. jget r ''fields'' = Some (JObj flds) \<and> dict_get flds f = Some x
     \<and> field_type_ok x (fst (spec_type_enum spec))"
  using assms
  by (auto simp: outputs_check_def bindE_eq_Inr split: option.splits json.splits dest!: outputs_problem_none)

lemma jget_obj: "jget r k = Some v \<Longrightarrow> \<exists>kvs. r = JObj kvs \<and> dict_get kvs k = Some v"
  by (cases r) simp_all

lemma jget_sorted_some: "jget r k = Some v \<Longrightarrow> jget (sorted_keys r) k = Some (sorted_keys v)"
  by (auto dest!: jget_obj simp: jget_sorted simp del: sorted_keys.simps)

lemma sorted_obj: "sorted_keys (JObj kvs) = JObj (sort_key fst (sorted_fields kvs))"
  by simp

text \<open>
  once a step that declares output fields has run and returned, every later reference to
  one of them resolves, and to a value of the declared type: the gate on the reply, the
  journal and the look-up of \<open>{steps.name.field}\<close> agree.
\<close>

theorem declared_outputs_resolve:
  assumes "step_journal wh files" "sp_check sp = Some (as_check (outputs_check outputs))"
    and "cached_result digest wh sp (st_world st) = Inr None"
    and "run_step digest wh sp st = (st', Inr r)"
    and "(f, spec) \<in> set outputs" "scope_key ns = sp_key sp"
  shows "\<exists>v. lookup_step wh ns (st_world st') [''steps'', sp_name sp, f] = Inr v
     \<and> field_type_ok v (fst (spec_type_enum spec))"
proof -
  let ?p = "step_path wh sp"
  from assms(3,4) have "step_loop wh sp (input_hash digest (sp_args sp)) (nat (sp_retries sp + 1)) None None 0
      (emit (StepStarted (step_at sp)) st) = (st', Inr r)" by (simp add: run_step_def)
  from step_journal.loop_returns [OF assms(1) this] obtain w w' verdict where
    stored: "files (st_world st') ?p = Some (Parsed (sorted_keys (step_record (input_hash digest (sp_args sp)) r)))"
    and verdict: "verdict_on sp r w = (w', Inr verdict)" "ck_ok verdict" by auto
  from verdict assms(2) have "outputs_check outputs w r = Inr verdict" by (auto simp: verdict_on_def as_check_def)
  from outputs_check_ok [OF this verdict(2) assms(5)] obtain flds x where
    x: "jget r ''fields'' = Some (JObj flds)" "dict_get flds f = Some x" "field_type_ok x (fst (spec_type_enum spec))"
    by blast
  let ?rec = "sorted_keys (step_record (input_hash digest (sp_args sp)) r)"
  have result: "jget ?rec ''result'' = Some (sorted_keys r)" by (rule step_journal.record_get(2) [OF assms(1)])
  have "jget (sorted_keys r) ''fields'' = Some (sorted_keys (JObj flds))" by (rule jget_sorted_some [OF x(1)])
  with result have flds: "record_fields ?rec = Some (sorted_keys (JObj flds))"
    by (simp add: record_fields_def del: sorted_keys.simps) (simp add: sorted_obj)
  have field: "index wh (st_world st') (sorted_keys (JObj flds)) f = Inr (sorted_keys x)"
    using x(2) by (simp add: index_def dict_get_sorted_fields)
  have path: "artifact_path wh (sp_name sp) (scope_key ns) = ?p" by (simp add: step_path_def assms(6))
  have "lookup_step wh ns (st_world st') [''steps'', sp_name sp, f] = Inr (sorted_keys x)"
    using stored flds field step_journal.exists_law [OF assms(1), of "st_world st'" ?p]
      step_journal.read_law [OF assms(1) stored]
    by (simp add: lookup_step_def path raised_def del: sorted_keys.simps)
  with x(3) show ?thesis by simp
qed

definition count_step :: "disk step" where
  "count_step = \<lparr>sp_name = ''count'', sp_key = [], sp_phase = ''draft'', sp_args = JNull,
     sp_execute = (\<lambda>fb w. (w, Inr (JObj [(''fields'', JObj [(''n'', JInt 3)])]))),
     sp_check = Some (as_check (outputs_check [(''n'', JStr ''int'')])),
     sp_retries = 0, sp_cache = True, sp_repair = None\<rparr>"

definition count_run :: "disk step_state \<times> (step_exn + json)" where
  "count_run = run_step (\<lambda>t. t) (disk_handle ''/.workflow/w'') count_step \<lparr>st_world = (\<lambda>_. None), st_events = []\<rparr>"

lemma count_run_returns: "snd count_run = Inr (JObj [(''fields'', JObj [(''n'', JInt 3)])])"
  by code_simp

theorem declared_outputs_resolve_witness:
  "\<exists>v. lookup_step (disk_handle ''/.workflow/w'') [(''__key__'', JStr [])] (st_world (fst count_run)) [''steps'', ''count'', ''n'']
       = Inr v \<and> field_type_ok v (JStr ''int'')"
proof -
  have "run_step (\<lambda>t. t) (disk_handle ''/.workflow/w'') count_step \<lparr>st_world = (\<lambda>_. None), st_events = []\<rparr>
      = (fst count_run, Inr (JObj [(''fields'', JObj [(''n'', JInt 3)])]))"
    using count_run_returns by (metis count_run_def prod.collapse)
  from declared_outputs_resolve [OF disk.step_journal_axioms _ _ this, of "[(''n'', JStr ''int'')]" "''n''" "JStr ''int''"
      "[(''__key__'', JStr [])]"]
  show ?thesis
    by (simp add: count_step_def cached_result_def disk_handle_def scope_key_def dict_get_def spec_type_enum_def)
qed

section \<open>The elements of a map\<close>

lemma keyed_list_distinct: "keyed_list key_by items = Inr els \<Longrightarrow> distinct (map snd els)"
  by (auto simp: keyed_list_def bindE_eq_Inr split: if_splits)

text \<open>
  the elements of a map over a list or over a range are journaled under keys of their own:
  no two elements share one, so no element is skipped for another's record.
\<close>

theorem element_keys_unique:
  assumes "map_elements en ns h w = Inr els"
    and "type_name (mp_over h) = ''dict'' \<or> (\<exists>items. resolve (en_wh en) ns w (mp_over h) = Inr (JArr items))"
  shows "distinct (map snd els)"
proof (cases "type_name (mp_over h) = ''dict''")
  case True
  then obtain kvs where "mp_over h = JObj kvs" by (cases "mp_over h") simp_all
  with assms(1) obtain n :: int where "els = map (\<lambda>i. (JInt (int i), dec i)) [0..<nat n]"
    by (auto simp: map_elements_def bindE_eq_Inr split: option.splits)
  then show ?thesis by (auto simp: distinct_map inj_on_def o_def)
next
  case False
  with assms(2) obtain items where "resolve (en_wh en) ns w (mp_over h) = Inr (JArr items)" by blast
  with False assms(1) have "keyed_list (mp_key_by h) items = Inr els"
    by (cases "mp_over h") (auto simp: map_elements_def)
  then show ?thesis by (rule keyed_list_distinct)
qed


definition two_files :: "disk" where
  "two_files = (\<lambda>_. None)(''/a/b.md'' \<mapsto> Parsed JNull, ''/a_b.md'' \<mapsto> Parsed JNull)"

definition over_node :: "json \<Rightarrow> map_node" where
  "over_node over =
     \<lparr>mp_over = over, mp_phase = ''each'', mp_as = ''item'', mp_key_by = [], mp_name = [], mp_collect = [],
      mp_concurrency = 0\<rparr>"

theorem element_keys_unique_witness:
  "\<exists>els. map_elements (disk_engine (\<lambda>t. None) [] ''/.workflow/w'') [(''n'', JInt 2)]
       (over_node (JObj [(''range'', JStr ''{n}'')])) (\<lambda>_. None) = Inr els
     \<and> map snd els = [''0'', ''1''] \<and> distinct (map snd els)"
proof -
  have els: "map_elements (disk_engine (\<lambda>t. None) [] ''/.workflow/w'') [(''n'', JInt 2)]
       (over_node (JObj [(''range'', JStr ''{n}'')])) (\<lambda>_. None) = Inr [(JInt 0, ''0''), (JInt 1, ''1'')]"
    by code_simp
  have "distinct (map snd [(JInt 0, ''0''), (JInt 1, ''1'')])"
    by (rule element_keys_unique [OF els]) (simp add: over_node_def)
  with els show ?thesis by simp
qed

text \<open>
  over a glob the keys are not unique: the files \<open>a/b.md\<close> and \<open>a_b.md\<close> are two elements with
  one key, so they share every journal record of the map, each taking or overwriting the
  other's.
\<close>

theorem glob_keys_collide:
  "map_elements (disk_engine (\<lambda>t. None) [''/a/b.md'', ''/a_b.md''] ''/.workflow/w'') [] (over_node (JStr ''*.md'')) two_files
     = Inr [(JStr ''a/b.md'', ''a_b.md''), (JStr ''a_b.md'', ''a_b.md'')]"
  by code_simp

end
