(* ===== verification/DslSafety.thy ===== *)
theory DslSafety
  imports DslCheck DslOutputs
begin

text \<open>
  What a drive of a definition guarantees: a contract between the state before, the state after
  and how an action ended, kept by every way the interpreter puts actions together.  Its
  instances: no unknown name where the static check found none, no gate inside a map, and
  revisions that use up the decisions asking for them.
\<close>

section \<open>Contracts of actions\<close>

definition ending :: "'e + 'a \<Rightarrow> 'e option" where
  "ending out = (case out of Inl e \<Rightarrow> Some e | Inr x \<Rightarrow> None)"

lemma ending_simps [simp]: "ending (Inl e) = Some e" "ending (Inr x) = None"
  by (simp_all add: ending_def)

lemma ending_bindE:
  "ending (bindE r f) = (case r of Inl e \<Rightarrow> Some e | Inr x \<Rightarrow> ending (f x))"
  by (cases r) simp_all

type_synonym 'w contract = "'w run_state \<Rightarrow> 'w run_state \<Rightarrow> dsl_exn option \<Rightarrow> bool"

definition meets :: "'w contract \<Rightarrow> ('w, 'a) action \<Rightarrow> bool" where
  "meets Q m \<longleftrightarrow> (\<forall>st. Q st (fst (m st)) (ending (snd (m st))))"

lemma meetsI: "(\<And>st st' out. m st = (st', out) \<Longrightarrow> Q st st' (ending out)) \<Longrightarrow> meets Q m"
  unfolding meets_def by (metis prod.collapse)

lemma meetsD: "meets Q m \<Longrightarrow> m st = (st', out) \<Longrightarrow> Q st st' (ending out)"
  unfolding meets_def by (metis fst_conv snd_conv)

named_theorems meets_intros \<open>a contract kept by a combination of actions\<close>

locale drive_contract =
  fixes Q :: "'w contract"
  assumes idle: "Q st st None"
    and chain: "Q st st' None \<Longrightarrow> Q st' st'' e \<Longrightarrow> Q st st'' e"
    and caught: "Q st st' (Some (StepExn (StepFailed f))) \<Longrightarrow> Q st st' None"
    and noted: "Q st (st\<lparr>rs_failures := fs\<rparr>) None"
begin

lemma meets_ret [meets_intros]: "meets Q (ret x)"
  by (simp add: meets_def ret_def idle)

lemma meets_seq_values:
  assumes "meets Q m" "\<And>st st' x. m st = (st', Inr x) \<Longrightarrow> meets Q (f x)"
  shows "meets Q (seq m f)"
proof (rule meetsI)
  fix st st' out
  assume run: "seq m f st = (st', out)"
  obtain st1 o1 where m: "m st = (st1, o1)" by fastforce
  note here = meetsD [OF assms(1) m]
  show "Q st st' (ending out)"
  proof (cases o1)
    case (Inr x)
    with run m have "f x st1 = (st', out)" by (simp add: seq_def)
    from meetsD [OF assms(2) [OF m [unfolded Inr]] this] here Inr chain show ?thesis by simp
  next
    case (Inl e)
    with run m here show ?thesis by (auto simp: seq_def)
  qed
qed

lemma meets_seq [meets_intros]: "meets Q m \<Longrightarrow> (\<And>x. meets Q (f x)) \<Longrightarrow> meets Q (seq m f)"
  by (rule meets_seq_values)

lemma meets_each [meets_intros]: "(\<And>x. x \<in> set xs \<Longrightarrow> meets Q (f x)) \<Longrightarrow> meets Q (each f xs)"
  by (induction xs) (auto intro!: meets_intros)

lemma meets_collecting:
  assumes "meets Q m"
  shows "meets Q (collecting el m)"
proof (rule meetsI)
  fix st st' out
  assume run: "collecting el m st = (st', out)"
  obtain st1 o1 where m: "m st = (st1, o1)" by fastforce
  from run m meetsD [OF assms m] show "Q st st' (ending out)"
    by (auto simp: collecting_def split: sum.splits dsl_exn.splits step_exn.splits intro: caught)
qed

lemma meets_add_failures: "meets Q (add_failures fs)"
  by (simp add: meets_def add_failures_def noted)

lemma meets_map_over:
  assumes "\<And>el. el \<in> set els \<Longrightarrow> meets Q (run_one el)"
    and "meets Q (throw (StepExn (Raised ''ValueError'')) :: ('w, unit) action)"
  shows "meets Q (map_over h backend run_one els)"
  using assms unfolding map_over_def
  by (auto intro!: meets_seq meets_each meets_collecting meets_add_failures)

end

section \<open>Which templates a step resolves\<close>

text \<open>
  \<open>F scope v\<close>: the template \<open>v\<close> is fit for names \<open>scope\<close>.  The flag says whether gates may stand
  here.
\<close>

type_synonym fitness = "string list \<Rightarrow> json \<Rightarrow> bool"

definition check_fits :: "fitness \<Rightarrow> string list \<Rightarrow> (string, json) dict option \<Rightarrow> bool" where
  "check_fits F sc check =
     (case check of
        Some [(name, JObj kvs)] \<Rightarrow> list_all (\<lambda>p. F sc (snd p)) kvs
      | _ \<Rightarrow> True)"

definition texts_fit :: "fitness \<Rightarrow> string list \<Rightarrow> string list \<Rightarrow> bool" where
  "texts_fit F sc ts = list_all (\<lambda>t. F sc (JStr t)) ts"

definition agent_fits :: "fitness \<Rightarrow> string list \<Rightarrow> agent_node \<Rightarrow> bool" where
  "agent_fits F sc a \<longleftrightarrow>
     texts_fit F sc ([ag_prompt a, ag_produces a, ag_out a] @ ag_reads a) \<and> check_fits F sc (ag_check a)"

definition sandbox_fits :: "fitness \<Rightarrow> string list \<Rightarrow> sandbox_node \<Rightarrow> bool" where
  "sandbox_fits F sc s \<longleftrightarrow>
     texts_fit F sc ([sb_run s, sb_produces s] @ sb_reads s) \<and> check_fits F sc (sb_check s)"

definition capability_fits :: "fitness \<Rightarrow> string list \<Rightarrow> capability_node \<Rightarrow> bool" where
  "capability_fits F sc c \<longleftrightarrow>
     texts_fit F sc ([ca_collection c, ca_path c, ca_type_name c, ca_title c, ca_body c]
       @ ca_keys c @ ca_reference_doc_ids c)
     \<and> list_all (\<lambda>p. F sc (snd p)) (ca_args c) \<and> F sc (ca_number c)"

definition gate_fits :: "fitness \<Rightarrow> string list \<Rightarrow> gate_node \<Rightarrow> bool" where
  "gate_fits F sc g \<longleftrightarrow> texts_fit F sc [gt_title g, gt_summary_from g]"

definition over_fits :: "fitness \<Rightarrow> string list \<Rightarrow> json \<Rightarrow> bool" where
  "over_fits F sc over =
     (case over of
        JObj kvs \<Rightarrow> (case dict_get kvs ''range'' of None \<Rightarrow> True | Some r \<Rightarrow> F sc r)
      | _ \<Rightarrow> F sc over)"

function node_fits :: "fitness \<Rightarrow> bool \<Rightarrow> string list \<Rightarrow> node \<Rightarrow> bool"
  and nodes_fit :: "fitness \<Rightarrow> bool \<Rightarrow> string list \<Rightarrow> node list \<Rightarrow> bool"
  and cases_fit :: "fitness \<Rightarrow> bool \<Rightarrow> string list \<Rightarrow> (string \<times> node list) list \<Rightarrow> node list option \<Rightarrow> bool" where
  "node_fits F gates sc (Agent a) = agent_fits F sc a"
| "node_fits F gates sc (Sandbox s) = sandbox_fits F sc s"
| "node_fits F gates sc (Capability c) = capability_fits F sc c"
| "node_fits F gates sc (Gate g) = (gates \<and> gate_fits F sc g)"
| "node_fits F gates sc (MapOver h ns) =
     (over_fits F sc (mp_over h) \<and> nodes_fit F False (List.insert (mp_as h) sc) ns)"
| "node_fits F gates sc (Switch h cases dflt) = (F sc (JStr (sw_on h)) \<and> cases_fit F gates sc cases dflt)"
| "nodes_fit F gates sc [] = True"
| "nodes_fit F gates sc (n # ns) = (node_fits F gates sc n \<and> nodes_fit F gates sc ns)"
| "cases_fit F gates sc ((c, body) # cases) dflt = (nodes_fit F gates sc body \<and> cases_fit F gates sc cases dflt)"
| "cases_fit F gates sc [] (Some body) = nodes_fit F gates sc body"
| "cases_fit F gates sc [] None = True"
  by pat_completeness auto
termination
  by (relation "measure (\<lambda>x. case x of
        Inl (_, _, _, n) \<Rightarrow> size n
      | Inr (Inl (_, _, _, ns)) \<Rightarrow> size_list size ns
      | Inr (Inr (_, _, _, cases, dflt)) \<Rightarrow>
          size_list (size_prod (\<lambda>_. 0) (size_list size)) cases + size_option (size_list size) dflt)")
     simp_all

section \<open>Contracts on the errors of a drive\<close>

fun gate_exn :: "dsl_exn \<Rightarrow> bool" where
  "gate_exn (Stop c) = True"
| "gate_exn Revise = True"
| "gate_exn (AwaitingHuman p t s a) = True"
| "gate_exn e = False"

definition only_errors :: "(dsl_exn \<Rightarrow> bool) \<Rightarrow> 'w contract" where
  "only_errors E st st' e \<longleftrightarrow> (\<forall>x. e = Some x \<longrightarrow> E x)"

definition names_cover :: "names \<Rightarrow> string list \<Rightarrow> bool" where
  "names_cover ns sc \<longleftrightarrow> set sc \<subseteq> set (dict_keys ns) \<union> {''steps''}"

locale error_contract =
  fixes E :: "dsl_exn \<Rightarrow> bool" and F :: fitness and en :: "'w engine" and gates :: bool
  assumes step_errors: "E (StepExn x)"
    and integers: "E (DslError NotInteger)"
    and gate_errors: "gates \<Longrightarrow> gate_exn e \<Longrightarrow> E e"
    and resolves: "F sc v \<Longrightarrow> names_cover ns sc \<Longrightarrow> resolve (en_wh en) ns w v = Inl e \<Longrightarrow> E e"

sublocale error_contract \<subseteq> drive_contract "only_errors E :: 'w contract"
  by unfold_locales (simp_all add: only_errors_def)

context error_contract
begin

abbreviation kept :: "('w, 'a) action \<Rightarrow> bool" where
  "kept m \<equiv> meets (only_errors E) m"

lemma kept_iff: "kept m \<longleftrightarrow> (\<forall>st e. snd (m st) = Inl e \<longrightarrow> E e)"
  by (auto simp: meets_def only_errors_def ending_def split: sum.splits)

lemma kept_throw [meets_intros]: "E e \<Longrightarrow> kept (throw e)"
  by (simp add: kept_iff throw_def)

lemma kept_ask: "(\<And>w e. f w = Inl e \<Longrightarrow> E e) \<Longrightarrow> kept (ask f)"
  by (auto simp: kept_iff ask_def)

lemma kept_change [meets_intros]: "kept (change f)"
  by (auto simp: kept_iff change_def step_errors split: sum.splits)

lemma kept_step_run [meets_intros]: "kept (step_run m)"
  by (auto simp: kept_iff step_run_def engine_run_def raised_def step_errors split: prod.splits sum.splits)

lemma kept_resolved [meets_intros]: "F sc v \<Longrightarrow> names_cover ns sc \<Longrightarrow> kept (resolved en ns v)"
  by (rule kept_ask) (rule resolves)

lemma kept_texts [meets_intros]: "texts_fit F sc ts \<Longrightarrow> names_cover ns sc \<Longrightarrow> kept (resolved_all en ns ts)"
  unfolding resolved_all_def texts_fit_def list_all_iff by (intro meets_each) (auto intro: meets_intros)

lemma kept_dict [meets_intros]:
  "list_all (\<lambda>p. F sc (snd p)) kvs \<Longrightarrow> names_cover ns sc \<Longrightarrow> kept (resolved_dict en ns kvs)"
  unfolding resolved_dict_def list_all_iff by (intro meets_each) (auto intro!: meets_seq meets_ret kept_resolved)

lemma kept_delete [meets_intros]: "kept (delete_file en p)" by (simp add: delete_file_def kept_change)

lemma kept_publish [meets_intros]: "kept (publish en name key flds)" by (simp add: publish_def kept_change)

lemma kept_reads [meets_intros]: "texts_fit F sc ts \<Longrightarrow> names_cover ns sc \<Longrightarrow> kept (resolve_reads en ns ts)"
  by (auto simp: resolve_reads_def intro!: meets_intros)

lemma kept_produces [meets_intros]: "F sc (JStr t) \<Longrightarrow> names_cover ns sc \<Longrightarrow> kept (resolve_produces en ns t)"
  by (auto simp: resolve_produces_def intro!: meets_seq meets_ret kept_resolved)

lemma kept_required: "kept (required args k)"
  by (auto simp: required_def step_errors intro!: meets_ret kept_throw split: option.split)

lemma kept_required_in:
  assumes "list_all (\<lambda>p. F sc (snd p)) args" "names_cover ns sc"
  shows "kept (required_in en ns args k)"
proof (cases "dict_get args k")
  case None
  then show ?thesis by (simp add: required_in_def required_def kept_iff seq_def throw_def step_errors)
next
  case (Some v)
  then have "F sc v" using assms(1) dict_get_in [OF Some] by (auto simp: list_all_iff)
  with Some assms(2) show ?thesis
    by (auto simp: required_in_def required_def kept_iff seq_def ret_def ask_def dest: resolves)
qed

lemma kept_build_check:
  assumes "check_fits F sc (Some spec)" "names_cover ns sc"
  shows "kept (build_check en ns spec)"
  using assms unfolding build_check_def check_fits_def
  by (auto simp: step_errors intro!: meets_seq meets_ret kept_required kept_required_in kept_throw
      split: list.splits json.splits prod.splits)

lemma kept_node_check:
  "check_fits F sc check \<Longrightarrow> names_cover ns sc \<Longrightarrow> kept (node_check en ns outputs produces check)"
  unfolding node_check_def by (auto intro!: meets_seq meets_ret kept_build_check split: option.split list.split)

lemma kept_agent:
  assumes "agent_fits F sc a" "names_cover ns sc"
  shows "kept (exec_agent en ru a ns key)"
  using assms unfolding exec_agent_def agent_fits_def texts_fit_def
  by (auto simp: texts_fit_def intro!: meets_seq meets_ret kept_resolved kept_produces kept_node_check kept_reads kept_step_run)

lemma kept_sandbox:
  assumes "sandbox_fits F sc s" "names_cover ns sc"
  shows "kept (exec_sandbox en ru s ns key)"
  using assms unfolding exec_sandbox_def sandbox_fits_def texts_fit_def
  by (auto simp: texts_fit_def intro!: meets_seq meets_ret kept_resolved kept_produces kept_node_check kept_reads kept_step_run)

lemma kept_call [meets_intros]: "kept (call_capability ru call key args)"
  unfolding call_capability_def by (intro meets_seq meets_ret kept_step_run)

lemma kept_number: "F sc v \<Longrightarrow> names_cover ns sc \<Longrightarrow> kept (resolve_number en ns v)"
  unfolding resolve_number_def
  by (intro meets_seq kept_resolved) (auto split: option.split intro: meets_ret kept_throw integers)

lemma kept_capability:
  assumes "capability_fits F sc c" "names_cover ns sc"
  shows "kept (exec_capability en ru c ns key)"
proof -
  have t: "F sc (JStr (ca_collection c))" "F sc (JStr (ca_path c))" "F sc (JStr (ca_type_name c))"
      "F sc (JStr (ca_title c))" "F sc (JStr (ca_body c))" "texts_fit F sc (ca_keys c)"
      "texts_fit F sc (ca_reference_doc_ids c)" "list_all (\<lambda>p. F sc (snd p)) (ca_args c)" "F sc (ca_number c)"
    using assms(1) by (auto simp: capability_fits_def texts_fit_def)
  note r = meets_seq kept_resolved [OF _ assms(2)] kept_texts [OF _ assms(2)] kept_dict [OF _ assms(2)]
    kept_number [OF _ assms(2)] kept_call kept_required
  show ?thesis unfolding exec_capability_def Let_def by (auto intro!: r t)
qed

lemma over_patterns_errors: "over_patterns v = Inl e \<Longrightarrow> E e"
  by (auto simp: over_patterns_def step_errors split: json.splits)

lemma read_summary_errors: "read_summary en p w = Inl e \<Longrightarrow> E e"
  by (auto simp: read_summary_def raised_def step_errors split: sum.splits if_splits)

lemma kept_summary:
  assumes "F sc (JStr (gt_summary_from g))" "names_cover ns sc"
  shows "kept (gate_summary en g ns)"
  unfolding gate_summary_def
  by (auto simp: bindE_eq_Inl intro!: meets_ret meets_seq meets_each kept_resolved [OF assms] kept_ask
      dest: over_patterns_errors read_summary_errors)

lemma human_gate_errors:
  "human_gate en phase title summary allow s = (s', Inl e) \<Longrightarrow> gate_exn e \<or> (\<exists>x. e = StepExn x)"
  by (auto simp: human_gate_def Let_def decision_of_def split: if_splits sum.splits json.splits option.splits)

lemma kept_gate:
  assumes "gates" "gate_fits F sc g" "names_cover ns sc"
  shows "kept (exec_gate en g ns key)"
proof -
  have t: "F sc (JStr (gt_title g))" "F sc (JStr (gt_summary_from g))"
    using assms(2) by (auto simp: gate_fits_def texts_fit_def)
  have "kept (engine_run (human_gate en (gt_phase g) title summary (gt_allow g)))" for title summary
    using gate_errors [OF assms(1)] step_errors
    by (fastforce simp: kept_iff engine_run_def split: prod.splits dest: human_gate_errors)
  then show ?thesis
    unfolding exec_gate_def after_decision_def
    using kept_resolved [OF t(1) assms(3)] kept_summary [OF t(2) assms(3)] gate_errors [OF assms(1)]
    by (auto intro!: meets_seq meets_ret kept_publish kept_delete kept_throw)
qed

lemma key_elements_errors: "key_elements key_by i items = Inl e \<Longrightarrow> E e"
  by (induction items arbitrary: i)
     (auto simp: bindE_eq_Inl step_failed_def step_errors split: if_splits option.splits)

lemma keyed_list_errors: "keyed_list key_by items = Inl e \<Longrightarrow> E e"
  by (auto simp: keyed_list_def bindE_eq_Inl step_failed_def step_errors dest: key_elements_errors split: if_splits)

lemma resolve_empty: "resolve wh ns w (JStr []) = Inr (JStr [])"
  by (simp add: resolve_def resolve_text_def whole_ref_def)

lemma map_elements_values:
  assumes "type_name (mp_over h) \<noteq> ''dict''"
  shows "map_elements en ns h w =
     bindE (resolve (en_wh en) ns w (mp_over h)) (\<lambda>v.
       case v of
         JArr items \<Rightarrow> keyed_list (mp_key_by h) items
       | _ \<Rightarrow> bindE (over_patterns v) (\<lambda>pats. Inr (map (\<lambda>p. (JStr p, safe_key p)) (globs en w pats))))"
  using assms by (cases "mp_over h") (simp_all add: map_elements_def)

lemma listed_errors:
  "(case v of
      JArr items \<Rightarrow> keyed_list key_by items
    | _ \<Rightarrow> bindE (over_patterns v) (\<lambda>pats. Inr (f pats))) = Inl e \<Longrightarrow> E e"
  by (cases v) (simp_all add: bindE_eq_Inl over_patterns_errors keyed_list_errors)

lemma map_elements_errors:
  assumes "over_fits F sc (mp_over h)" "names_cover ns sc" "map_elements en ns h w = Inl e"
  shows "E e"
proof (cases "type_name (mp_over h) = ''dict''")
  case True
  then obtain kvs where "mp_over h = JObj kvs" by (cases "mp_over h") simp_all
  with assms show ?thesis
    by (auto simp: map_elements_def over_fits_def bindE_eq_Inl resolve_empty step_failed_def step_errors
        split: option.splits dest: resolves)
next
  case False
  then have fit: "F sc (mp_over h)" using assms(1) by (cases "mp_over h") (simp_all add: over_fits_def)
  from assms(3) consider "resolve (en_wh en) ns w (mp_over h) = Inl e"
    | v where "(case v of JArr items \<Rightarrow> keyed_list (mp_key_by h) items
          | _ \<Rightarrow> bindE (over_patterns v) (\<lambda>pats. Inr (map (\<lambda>p. (JStr p, safe_key p)) (globs en w pats)))) = Inl e"
    unfolding map_elements_values [OF False] bindE_eq_Inl by blast
  then show ?thesis using resolves [OF fit assms(2)] by cases (blast, rule listed_errors)
qed

lemma kept_gc: "kept (gc_map_orphans en ns keys)"
  unfolding gc_map_orphans_def drop_orphan_def
  by (auto simp: Let_def intro!: meets_seq meets_ret meets_each kept_ask kept_delete)

lemma collect_errors: "collect_map_outputs en cname w ks = Inl e \<Longrightarrow> E e"
  by (induction ks) (auto simp: bindE_eq_Inl collect_one_def Let_def raised_def step_errors split: if_splits sum.splits)

lemma kept_publish_map: "kept (publish_map en h ns key els)"
  unfolding publish_map_def by (auto intro!: meets_seq meets_ret kept_ask kept_publish dest: collect_errors)

lemma cover_element:
  assumes "names_cover ns sc"
  shows "names_cover (element_names h ns el) (List.insert (mp_as h) sc)"
  using assms by (auto simp: names_cover_def element_names_def set_keys_set [unfolded set_map])

text \<open>Every error of a drive over fitting steps is one the contract allows.\<close>

lemma kept_exec:
  "node_fits F' g sc n \<Longrightarrow> F' = F \<Longrightarrow> names_cover ns sc \<Longrightarrow> (g \<longrightarrow> gates) \<Longrightarrow> kept (exec_node en ru ns key n)"
  "nodes_fit F' g sc nodes \<Longrightarrow> F' = F \<Longrightarrow> names_cover ns sc \<Longrightarrow> (g \<longrightarrow> gates) \<Longrightarrow>
     kept (exec_nodes en ru ns key nodes)"
  "cases_fit F' g sc cases dflt \<Longrightarrow> F' = F \<Longrightarrow> names_cover ns sc \<Longrightarrow> (g \<longrightarrow> gates) \<Longrightarrow>
     kept (exec_case en ru ns key on c cases dflt)"
proof (induction F' g sc n and F' g sc nodes and F' g sc cases dflt
    arbitrary: ns ru key and ns ru key and ns ru key on c
    rule: node_fits_nodes_fit_cases_fit.induct)
  case (5 F' g sc h nodes)
  have els: "kept (ask (map_elements en ns h))"
    using 5 map_elements_errors [of sc h ns] by (intro kept_ask) (auto simp del: names_cover_def)
  have "kept (map_over h (ru_concurrency ru)
       (\<lambda>el. exec_nodes en (sub_handle ru (snd el)) (element_names h ns el) (snd el) nodes) els)" for els
    using 5 by (intro meets_map_over kept_throw step_errors) (auto intro: cover_element)
  with els show ?case
    by (auto intro!: meets_seq kept_gc kept_publish_map)
qed (auto intro: kept_agent kept_sandbox kept_capability kept_gate intro!: meets_ret meets_seq kept_resolved kept_throw
      simp: step_failed_def step_errors)

end

section \<open>What the static check leaves unread\<close>

text \<open>Templates a drive resolves and the check of a definition does not look at.\<close>

function unchecked_node :: "node \<Rightarrow> string list" and unchecked_nodes :: "node list \<Rightarrow> string list"
  and unchecked_cases :: "(string \<times> node list) list \<Rightarrow> node list option \<Rightarrow> string list" where
  "unchecked_node (Agent a) = [ag_produces a]"
| "unchecked_node (Sandbox s) = []"
| "unchecked_node (Capability c) = ca_type_name c # ca_reference_doc_ids c"
| "unchecked_node (Gate g) = [gt_summary_from g]"
| "unchecked_node (MapOver h ns) = unchecked_nodes ns"
| "unchecked_node (Switch h cases dflt) = unchecked_cases cases dflt"
| "unchecked_nodes [] = []"
| "unchecked_nodes (n # ns) = unchecked_node n @ unchecked_nodes ns"
| "unchecked_cases ((c, body) # cases) dflt = unchecked_nodes body @ unchecked_cases cases dflt"
| "unchecked_cases [] (Some body) = unchecked_nodes body"
| "unchecked_cases [] None = []"
  by pat_completeness auto
termination
  by (relation "measure (\<lambda>x. case x of
        Inl n \<Rightarrow> size n
      | Inr (Inl ns) \<Rightarrow> size_list size ns
      | Inr (Inr (cases, dflt)) \<Rightarrow>
          size_list (size_prod (\<lambda>_. 0) (size_list size)) cases + size_option (size_list size) dflt)")
     simp_all

lemma at_place_Nil [simp]: "at_place loc rs = [] \<longleftrightarrow> rs = []"
  by (simp add: at_place_def)

lemma unless_Nil [simp]: "unless ok loc i = [] \<longleftrightarrow> ok"
  by simp

text \<open>A definition without problems fits any notion of fitness the check of templates implies.\<close>

definition checked :: "fitness \<Rightarrow> bool" where
  "checked F \<longleftrightarrow> (\<forall>sc seen v. check_interp sc (Some seen) v = [] \<longrightarrow> F sc v)"

lemma checkedD: "checked F \<Longrightarrow> check_interp sc (Some seen) v = [] \<Longrightarrow> F sc v"
  by (auto simp: checked_def)

lemma checked_texts:
  "checked F \<Longrightarrow> check_interp sc (Some seen) (text_list ts) = [] \<Longrightarrow> texts_fit F sc ts"
  by (auto simp: text_list_def texts_fit_def list_all_iff check_interps_all dest!: checkedD)

lemma checked_check:
  assumes "checked F" "validate_check_option sc seen loc check = []"
  shows "check_fits F sc check"
  using assms
  by (auto simp: validate_check_option_def validate_check_def check_fits_def check_fields_all list_all_iff
      split: option.splits list.splits prod.splits json.splits dest!: checkedD)

lemma checked_reads: "checked F \<Longrightarrow> validate_reads sc seen loc ts = [] \<Longrightarrow> texts_fit F sc ts"
  by (auto simp: validate_reads_def check_texts_def intro: checked_texts)

lemma checked_agent:
  assumes "checked F" "validate_agent env sc seen loc a = []" "F sc (JStr (ag_produces a))"
  shows "agent_fits F sc a"
  using assms checked_reads [OF assms(1), of sc seen loc "ag_reads a"] checked_check [OF assms(1), of sc seen loc "ag_check a"]
    checkedD [OF assms(1), of sc seen]
  by (auto simp: validate_agent_def agent_fits_def texts_fit_def)

lemma checked_sandbox:
  assumes "checked F" "validate_sandbox sc seen loc s = []"
  shows "sandbox_fits F sc s"
  using assms checked_reads [OF assms(1), of sc seen loc "sb_reads s"] checked_check [OF assms(1), of sc seen loc "sb_check s"]
    checkedD [OF assms(1), of sc seen "JStr (sb_run s)"] checkedD [OF assms(1), of sc seen "JStr (sb_produces s)"]
  by (auto simp: validate_sandbox_def sandbox_fits_def texts_fit_def)

lemma checked_capability:
  assumes "checked F" "validate_capability env sc seen loc c = []"
    and "\<forall>t \<in> set (unchecked_node (Capability c)). F sc (JStr t)"
  shows "capability_fits F sc c"
proof -
  have "check_interp sc (Some seen) v = []"
    if "v \<in> {JStr (ca_collection c), JStr (ca_path c), JStr (ca_title c), JStr (ca_body c),
        text_list (ca_keys c), JObj (ca_args c), ca_number c}" for v
    using assms(2) that by (auto simp: validate_capability_def)
  note here = this
  have "F sc v" if "v \<in> {JStr (ca_collection c), JStr (ca_path c), JStr (ca_title c), JStr (ca_body c), ca_number c}" for v
    by (rule checkedD [OF assms(1)], rule here) (use that in auto)
  moreover have "texts_fit F sc (ca_keys c)" by (rule checked_texts [OF assms(1)], rule here) simp
  moreover have "list_all (\<lambda>p. F sc (snd p)) (ca_args c)"
    using here [of "JObj (ca_args c)"] checkedD [OF assms(1)]
    by (auto simp: check_fields_all list_all_iff)
  ultimately show ?thesis using assms(3) by (auto simp: capability_fits_def texts_fit_def list_all_iff)
qed

lemma checked_over:
  assumes "checked F" "validate_over sc seen loc over = []"
  shows "over_fits F sc over"
  using assms checkedD [OF assms(1)]
  by (auto simp: validate_over_def over_fits_def dict_get_def split: json.splits list.splits prod.splits if_splits)

lemma validated_fits:
  assumes "checked F"
  shows "validate_node env outer depth sc seen loc n = [] \<Longrightarrow>
      (\<forall>t \<in> set (unchecked_node n). \<forall>sc. F sc (JStr t)) \<Longrightarrow> node_fits F outer sc n"
    and "validate_nodes env outer depth sc seen prefix i ns = [] \<Longrightarrow>
      (\<forall>t \<in> set (unchecked_nodes ns). \<forall>sc. F sc (JStr t)) \<Longrightarrow> nodes_fit F outer sc ns"
    and "validate_cases env outer depth sc loc cases dflt = [] \<Longrightarrow>
      (\<forall>t \<in> set (unchecked_cases cases dflt). \<forall>sc. F sc (JStr t)) \<Longrightarrow> cases_fit F outer sc cases dflt"
proof (induction env outer depth sc seen loc n and env outer depth sc seen prefix i ns and env outer depth sc loc cases dflt
    rule: validate_node_validate_nodes_validate_cases.induct)
  case (4 env outer depth sc seen loc g)
  then show ?case using checkedD [OF assms, of sc seen "JStr (gt_title g)"]
    by (auto simp: gate_fits_def texts_fit_def validate_gate_def split: if_splits)
next
  case (3 env outer depth sc seen loc c)
  then show ?case using checked_capability [OF assms, of env sc seen loc c] by simp
next
  case (6 env outer depth sc seen loc h cases dflt)
  then show ?case using checkedD [OF assms, of sc seen "JStr (sw_on h)"]
    by (auto simp: validate_on_def split: if_splits)
qed (auto simp: Let_def split: prod.splits if_splits
      intro: checked_agent [OF assms] checked_sandbox [OF assms] checked_capability [OF assms] checked_over [OF assms])

lemma validated_definition:
  assumes "validate_def env d = Inr []"
  obtains seed env' where "validate_nodes env' True 0 TOP_SCOPE seed ''steps'' 0 (wd_steps d) = []"
  using assms by (auto simp: validate_def_def definition_problems_def Let_def split: prod.splits if_splits)

section \<open>The two contracts\<close>

lemma plain_errors:
  "index wh w v seg = Inl e \<Longrightarrow> \<not> gate_exn e"
  "indexes wh w v segs = Inl e \<Longrightarrow> \<not> gate_exn e"
  "lookup_step wh ns w parts = Inl e \<Longrightarrow> \<not> gate_exn e"
  "lookup wh ns w expr = Inl e \<Longrightarrow> \<not> gate_exn e"
  "fill wh ns w ps = Inl e \<Longrightarrow> \<not> gate_exn e"
  "resolve wh ns w t = Inl e \<Longrightarrow> \<not> gate_exn e"
proof -
  have read: "(case v of JStr s \<Rightarrow> if is_json_path s then raised (wf_read_json wh w s) else Inr v | _ \<Rightarrow> Inr v) = Inl e
      \<Longrightarrow> \<not> gate_exn e" for v
    by (cases v) (auto simp: raised_def split: sum.splits if_splits)
  have field: "(case v of JObj kvs \<Rightarrow> (case dict_get kvs seg of None \<Rightarrow> Inl (DslError (FieldNotFound seg)) | Some x \<Rightarrow> Inr x)
      | _ \<Rightarrow> Inl (DslError (CannotRead seg))) = Inl e \<Longrightarrow> \<not> gate_exn e" for v seg
    by (cases v) (auto split: option.splits)
  have 1: "index wh w v seg = Inl e \<Longrightarrow> \<not> gate_exn e" for v seg
    unfolding index_def bindE_eq_Inl using read field by blast
  then show "index wh w v seg = Inl e \<Longrightarrow> \<not> gate_exn e" .
  have 2: "indexes wh w v segs = Inl e \<Longrightarrow> \<not> gate_exn e" for v segs
    by (induction segs arbitrary: v) (auto simp: bindE_eq_Inl dest: 1)
  then show "indexes wh w v segs = Inl e \<Longrightarrow> \<not> gate_exn e" .
  have 3: "lookup_step wh ns w parts = Inl e \<Longrightarrow> \<not> gate_exn e" for parts
    by (auto simp: lookup_step_def Let_def raised_def bindE_eq_Inl dest: 2
        split: list.splits option.splits sum.splits if_splits)
  then show "lookup_step wh ns w parts = Inl e \<Longrightarrow> \<not> gate_exn e" .
  have 4: "lookup wh ns w expr = Inl e \<Longrightarrow> \<not> gate_exn e" for expr
    by (auto simp: lookup_def Let_def dest: 2 3 split: option.splits if_splits)
  then show "lookup wh ns w expr = Inl e \<Longrightarrow> \<not> gate_exn e" .
  have 5: "fill wh ns w ps = Inl e \<Longrightarrow> \<not> gate_exn e" for ps
  proof (induction ps)
    case (Cons p ps)
    then show ?case by (cases p) (auto simp: bindE_eq_Inl dest: 4)
  qed simp
  then show "fill wh ns w ps = Inl e \<Longrightarrow> \<not> gate_exn e" .
  show "resolve wh ns w t = Inl e \<Longrightarrow> \<not> gate_exn e"
    by (auto simp: resolve_def resolve_text_def bindE_eq_Inl dest: 4 5 split: json.splits option.splits)
qed

interpretation plain: error_contract "\<lambda>e. \<not> gate_exn e" "\<lambda>sc v. True" en False for en :: "'w engine"
  by unfold_locales (auto dest: plain_errors)

lemma check_pieces_scope:
  "check_pieces sc seen ps = [] \<Longrightarrow> set sc \<subseteq> set sc' \<Longrightarrow> check_pieces sc' None ps = []"
  by (induction sc seen ps rule: check_pieces.induct) (auto simp: Let_def split: if_splits)

definition refs_in :: fitness where
  "refs_in sc v \<longleftrightarrow> check_interp sc None v = []"

interpretation known: error_contract "\<lambda>e. e \<noteq> DslError (UnknownVariable x)" refs_in en True
  for x :: string and en :: "'w engine"
  by unfold_locales (auto simp: refs_in_def names_cover_def resolve_no_unknown)

lemma check_interp_scope:
  "check_interp sc seen v = [] \<Longrightarrow> set sc \<subseteq> set sc' \<Longrightarrow> check_interp sc' None v = []"
  "check_interps sc seen vs = [] \<Longrightarrow> set sc \<subseteq> set sc' \<Longrightarrow> check_interps sc' None vs = []"
  "check_fields sc seen kvs = [] \<Longrightarrow> set sc \<subseteq> set sc' \<Longrightarrow> check_fields sc' None kvs = []"
  by (induction sc seen v and sc seen vs and sc seen kvs rule: check_interp_check_interps_check_fields.induct)
     (auto intro: check_pieces_scope)

lemma checked_refs: "checked refs_in"
  by (auto simp: checked_def refs_in_def intro: check_interp_scope)

lemma checked_any: "checked (\<lambda>sc v. True)"
  by (simp add: checked_def)

lemma fits_anywhere:
  "node_fits (\<lambda>sc v. True) g sc n \<Longrightarrow> node_fits (\<lambda>sc v. True) g sc' n"
  "nodes_fit (\<lambda>sc v. True) g sc ns \<Longrightarrow> nodes_fit (\<lambda>sc v. True) g sc' ns"
  "cases_fit (\<lambda>sc v. True) g sc cs d \<Longrightarrow> cases_fit (\<lambda>sc v. True) g sc' cs d"
proof -
  have t: "texts_fit (\<lambda>sc v. True) sc ts" "check_fits (\<lambda>sc v. True) sc check" "over_fits (\<lambda>sc v. True) sc over" for sc ts check over
    by (simp_all add: texts_fit_def check_fits_def over_fits_def list_all_iff split: option.split list.split json.split)
  have "F = (\<lambda>sc v. True) \<Longrightarrow> node_fits F g sc n \<Longrightarrow> (\<forall>sc'. node_fits F g sc' n)"
    "F = (\<lambda>sc v. True) \<Longrightarrow> nodes_fit F g sc ns \<Longrightarrow> (\<forall>sc'. nodes_fit F g sc' ns)"
    "F = (\<lambda>sc v. True) \<Longrightarrow> cases_fit F g sc cs d \<Longrightarrow> (\<forall>sc'. cases_fit F g sc' cs d)" for F
    by (induction F g sc n and F g sc ns and F g sc cs d rule: node_fits_nodes_fit_cases_fit.induct)
       (auto simp: agent_fits_def sandbox_fits_def capability_fits_def gate_fits_def t list_all_iff)
  then show "node_fits (\<lambda>sc v. True) g sc n \<Longrightarrow> node_fits (\<lambda>sc v. True) g sc' n"
    "nodes_fit (\<lambda>sc v. True) g sc ns \<Longrightarrow> nodes_fit (\<lambda>sc v. True) g sc' ns"
    "cases_fit (\<lambda>sc v. True) g sc cs d \<Longrightarrow> cases_fit (\<lambda>sc v. True) g sc' cs d" by blast+
qed

lemma top_names_cover: "names_cover (top_names d inputs) TOP_SCOPE"
  by (simp add: names_cover_def top_names_def TOP_SCOPE_def)

lemma drive_once_known:
  assumes "validate_def env d = Inr []"
    and "\<And>t. t \<in> set (unchecked_nodes (wd_steps d)) \<Longrightarrow> check_interp [] None (JStr t) = []"
  shows "snd (drive_once en ru d inputs s) \<noteq> Inl (DslError (UnknownVariable x))"
proof -
  obtain seed env' where "validate_nodes env' True 0 TOP_SCOPE seed ''steps'' 0 (wd_steps d) = []"
    by (rule validated_definition [OF assms(1)])
  moreover have "refs_in sc (JStr t)" if "t \<in> set (unchecked_nodes (wd_steps d))" for t sc
    using check_interp_scope(1) [OF assms(2) [OF that]] by (simp add: refs_in_def)
  ultimately have "nodes_fit refs_in True TOP_SCOPE (wd_steps d)"
    using validated_fits(2) [OF checked_refs] by blast
  from known.kept_exec(2) [OF this refl top_names_cover] show ?thesis
    unfolding drive_once_def known.kept_iff by blast
qed

lemma build_run_error:
  assumes "build_run en ru d inputs s = Some (s', Inl e)"
  shows "\<exists>s0. snd (drive_once en ru d inputs s0) = Inl e"
proof -
  have "build_run en ru d inputs s = Some y \<Longrightarrow> (\<forall>e. snd y = Inl e \<longrightarrow> (\<exists>s0. snd (drive_once en ru d inputs s0) = Inl e))"
    for y
  proof (induction rule: build_run.raw_induct [rotated, consumes 1])
    case (1 build_run en ru d inputs s y)
    obtain st out where drive: "drive_once en ru d inputs s = (st, out)" by fastforce
    show ?case
    proof (cases out)
      case (Inl e)
      from drive Inl have here: "\<exists>s0. snd (drive_once en ru d inputs s0) = Inl e" by (auto intro: exI [of _ s])
      show ?thesis
        using here 1(2) 1(1) [of en ru d inputs "rs_step st" y] drive Inl by (cases e) auto
    next
      case (Inr u)
      with 1(2) drive show ?thesis by auto
    qed
  qed
  with assms show ?thesis by fastforce
qed

section \<open>An example\<close>

text \<open>A flow with each kind of reference: a draft sent back by its reviewer, then one command per title.\<close>

definition draft_step :: agent_node where
  "draft_step =
     \<lparr>ag_prompt = ''Titles on {config.topic}. {steps.review.feedback}'', ag_phase = ''draft'', ag_cache = True,
      ag_out = [], ag_kind = [], ag_requires = [], ag_tools = [], ag_check = None, ag_retries = 2, ag_name = ''draft'',
      ag_outputs = [(''titles'', JStr ''list'')], ag_reads = [], ag_produces = []\<rparr>"

definition review_gate :: gate_node where
  "review_gate =
     \<lparr>gt_phase = ''review'', gt_title = ''Review'', gt_summary_from = [],
      gt_allow = [''approve'', ''reject'', ''revise''], gt_name = ''review'', gt_revise_to = ''draft''\<rparr>"

definition print_step :: sandbox_node where
  "print_step =
     \<lparr>sb_run = ''echo {title}'', sb_phase = ''print'', sb_cache = True, sb_check = None, sb_name = ''print'',
      sb_outputs = [], sb_reads = [], sb_produces = []\<rparr>"

definition titles_map :: map_node where
  "titles_map =
     \<lparr>mp_over = JStr ''{steps.draft.titles}'', mp_phase = ''print'', mp_as = ''title'', mp_key_by = [],
      mp_name = [], mp_collect = [], mp_concurrency = 0\<rparr>"

definition review_flow :: workflow_def where
  "review_flow =
     \<lparr>wd_id = ''review'', wd_title = [], wd_phases = [''draft'', ''review'', ''print''],
      wd_config = [(''topic'', JStr ''rain'')],
      wd_steps = [Agent draft_step, Gate review_gate, MapOver titles_map [Sandbox print_step]], wd_schema = 1\<rparr>"

definition open_env :: check_env where
  "open_env = \<lparr>ce_declared = [], ce_ceiling = None, ce_builtins = {}, ce_capabilities = []\<rparr>"

lemma review_flow_valid: "validate_def open_env review_flow = Inr []"
  by code_simp


section \<open>Properties\<close>

text \<open>
  C13: a definition the static check passes never fails on an unknown name, whatever the inputs,
  the files and the answers of the models: if no reference stands in the few templates the
  check does not read (a gate's summary, an entity type, a card's documents, an agent's
  produces glob), no run of it ends in the unknown variable error.
\<close>

theorem valid_definition_knows_its_names:
  assumes "validate_def env d = Inr []"
    and "list_all (\<lambda>t. check_interp [] None (JStr t) = []) (unchecked_nodes (wd_steps d))"
    and "build_run en ru d inputs s = Some (s', out)"
  shows "out \<noteq> Inl (DslError (UnknownVariable x))"
proof
  assume "out = Inl (DslError (UnknownVariable x))"
  with assms(3) obtain s0 where "snd (drive_once en ru d inputs s0) = Inl (DslError (UnknownVariable x))"
    using build_run_error by blast
  moreover have "snd (drive_once en ru d inputs s0) \<noteq> Inl (DslError (UnknownVariable x))"
    by (rule drive_once_known [OF assms(1)]) (use assms(2) in \<open>simp add: list_all_iff\<close>)
  ultimately show False by simp
qed

abbreviation example_engine :: "disk engine" where
  "example_engine \<equiv> disk_engine (\<lambda>t. Some (JObj [(''titles'', JArr [JStr ''sun''])])) [] ''/.workflow/review''"

abbreviation example_runners :: "disk runners" where
  "example_runners \<equiv> quiet_runners (\<lambda>run. (0, [])) (\<lambda>prompt. Reply ''{}'') (\<lambda>name. JNull)"

abbreviation empty_disk :: "disk step_state" where
  "empty_disk \<equiv> \<lparr>st_world = (\<lambda>_. None), st_events = []\<rparr>"

definition first_pause :: "dsl_exn + unit" where
  "first_pause = snd (drive_once example_engine example_runners review_flow JNull empty_disk)"

lemma first_pause_waits:
  "first_pause = Inl (AwaitingHuman ''review'' (JStr ''Review'') [] [''approve'', ''reject'', ''revise''])"
  by code_simp

lemma first_run_pauses:
  "\<exists>s'. build_run example_engine example_runners review_flow JNull empty_disk
     = Some (s', Inl (AwaitingHuman ''review'' (JStr ''Review'') [] [''approve'', ''reject'', ''revise'']))"
  using first_pause_waits
  by (subst build_run.simps)
     (cases "drive_once example_engine example_runners review_flow JNull empty_disk", simp add: first_pause_def)

theorem valid_definition_knows_its_names_witness:
  "\<exists>s' out. build_run example_engine example_runners review_flow JNull empty_disk = Some (s', out)
     \<and> out \<noteq> Inl (DslError (UnknownVariable ''topic''))"
proof -
  obtain s' out where run: "build_run example_engine example_runners review_flow JNull empty_disk = Some (s', out)"
    using first_run_pauses by blast
  moreover have "list_all (\<lambda>t. check_interp [] None (JStr t) = []) (unchecked_nodes (wd_steps review_flow))"
    by code_simp
  ultimately show ?thesis using valid_definition_knows_its_names [OF review_flow_valid _ run] by blast
qed

text \<open>
  no gate stands inside a map of a valid definition: running any of its maps, under any
  names and in any state, never stops the run, never sends it back and never waits for a
  person.
\<close>

theorem valid_map_meets_no_gate:
  assumes "validate_def env d = Inr []" "MapOver h nodes \<in> set (wd_steps d)"
  shows "case snd (exec_node en ru ns key (MapOver h nodes) st) of
       Inl (Stop c) \<Rightarrow> False
     | Inl Revise \<Rightarrow> False
     | Inl (AwaitingHuman phase title summary allow) \<Rightarrow> False
     | _ \<Rightarrow> True"
proof -
  obtain seed env' where "validate_nodes env' True 0 TOP_SCOPE seed ''steps'' 0 (wd_steps d) = []"
    by (rule validated_definition [OF assms(1)])
  from validated_fits(2) [OF checked_any this] have fits: "nodes_fit (\<lambda>sc v. True) True TOP_SCOPE (wd_steps d)" by simp
  have "nodes_fit F g sc ms \<Longrightarrow> m \<in> set ms \<Longrightarrow> node_fits F g sc m" for F g sc ms m
    by (induction ms) auto
  from this [OF fits assms(2)] have "node_fits (\<lambda>sc v. True) False TOP_SCOPE (MapOver h nodes)" by simp
  then have "node_fits (\<lambda>sc v. True) False [] (MapOver h nodes)" by (rule fits_anywhere)
  from plain.kept_exec(1) [OF this refl] have "plain.kept (exec_node en ru ns key (MapOver h nodes))"
    by (simp add: names_cover_def)
  then show ?thesis
    unfolding plain.kept_iff by (force split: sum.split dsl_exn.split)
qed

theorem valid_map_meets_no_gate_witness:
  "case snd (exec_node example_engine example_runners (top_names review_flow JNull) [] (MapOver titles_map [Sandbox print_step])
        \<lparr>rs_step = empty_disk, rs_failures = []\<rparr>) of
       Inl (Stop c) \<Rightarrow> False
     | Inl Revise \<Rightarrow> False
     | Inl (AwaitingHuman phase title summary allow) \<Rightarrow> False
     | _ \<Rightarrow> True"
  by (rule valid_map_meets_no_gate [OF review_flow_valid]) (simp add: review_flow_def)


end
