(* ===== verification/DslRevise.thy ===== *)
theory DslRevise
  imports DslSafety
begin

text \<open>
  The human gate in a drive: what may run after it, and why sending a run back to an earlier
  step comes to an end.  A revision uses up the decision that asked for it, so a run is driven
  again at most once for every recorded decision.
\<close>

section \<open>Decisions\<close>

definition chosen :: "'w engine \<Rightarrow> 'w \<Rightarrow> string \<Rightarrow> json \<Rightarrow> bool" where
  "chosen en w phase c \<longleftrightarrow>
     wf_exists (en_wh en) w (decision_path (en_wh en) phase)
     \<and> (case wf_read_json (en_wh en) w (decision_path (en_wh en) phase) of
          Inr rec \<Rightarrow> jget rec ''choice'' = Some c
        | Inl e \<Rightarrow> False)"

definition asks_revise :: "'w engine \<Rightarrow> 'w \<Rightarrow> string \<Rightarrow> bool" where
  "asks_revise en w phase = chosen en w phase (JStr ''revise'')"

definition fewer :: "'w engine \<Rightarrow> string list \<Rightarrow> 'w \<Rightarrow> 'w \<Rightarrow> bool" where
  "fewer en phases w w' \<longleftrightarrow> (\<forall>p \<in> set phases. asks_revise en w' p \<longrightarrow> asks_revise en w p)"

lemma fewer_refl [simp, intro]: "fewer en phases w w"
  by (simp add: fewer_def)

lemma fewer_trans: "fewer en phases w w' \<Longrightarrow> fewer en phases w' w'' \<Longrightarrow> fewer en phases w w''"
  by (simp add: fewer_def)

text \<open>No decision appears; a revision leaves one less.\<close>

definition revise_costs :: "'w engine \<Rightarrow> string list \<Rightarrow> 'w contract" where
  "revise_costs en phases st st' e \<longleftrightarrow>
     fewer en phases (world st) (world st')
     \<and> (e = Some Revise \<longrightarrow> (\<exists>p \<in> set phases. asks_revise en (world st) p \<and> \<not> asks_revise en (world st') p))"

interpretation costs: drive_contract "revise_costs en phases" for en :: "'w engine" and phases :: "string list"
  by unfold_locales (auto simp: revise_costs_def fewer_def)

definition decisions :: "'w engine \<Rightarrow> string list \<Rightarrow> string list" where
  "decisions en phases = map (decision_path (en_wh en)) phases"

text \<open>Runners that record no decisions of their own.\<close>

definition runners_quiet :: "'w engine \<Rightarrow> string list \<Rightarrow> 'w runners \<Rightarrow> bool" where
  "runners_quiet en phases ru \<longleftrightarrow>
     (\<forall>c w. fewer en phases w (fst (ru_sandbox ru c w)))
     \<and> (\<forall>p h w. fewer en phases w (fst (ru_turn ru p h w)))
     \<and> (\<forall>f. ru_sub_turn ru = Some f \<longrightarrow> (\<forall>k p h w. fewer en phases w (fst (f k p h w))))
     \<and> (\<forall>w. fewer en phases w (fst (ru_reconcile ru w)))
     \<and> (\<forall>name args key s. fewer en phases (st_world s) (st_world (fst (ru_call ru name args key s))))"

lemma quiet_sub: "runners_quiet en phases ru \<Longrightarrow> runners_quiet en phases (sub_handle ru k)"
  by (auto simp: runners_quiet_def sub_handle_def split: option.splits)

text \<open>What the drive relies on: its own records hold no decision, and a deleted decision is gone.\<close>

locale revise_store =
  fixes en :: "'w engine" and phases :: "string list"
  assumes write_law: "en_write en w path t = Inr w' \<Longrightarrow> path \<notin> set (decisions en phases) \<Longrightarrow> fewer en phases w w'"
    and record_law: "wf_write_record (en_wh en) w path (step_record h r) = Inr w' \<Longrightarrow> fewer en phases w w'"
    and publish_law: "en_write_json en w path (fields_record flds) = Inr w' \<Longrightarrow> fewer en phases w w'"
    and delete_law: "en_delete en w path = Inr w' \<Longrightarrow> fewer en phases w w'"
    and gone_law: "en_delete en w (absolute (decision_path (en_wh en) p)) = Inr w' \<Longrightarrow> p \<in> set phases \<Longrightarrow> \<not> asks_revise en w' p"

locale revise_world = revise_store +
  fixes ru :: "'w runners"
  assumes quiet: "runners_quiet en phases ru"

text \<open>An agent's reply is not written over a decision.\<close>

definition safe_out :: "'w engine \<Rightarrow> string list \<Rightarrow> json \<Rightarrow> bool" where
  "safe_out en phases out \<longleftrightarrow> (\<forall>p. out = JStr p \<longrightarrow> p \<noteq> [] \<longrightarrow> absolute p \<notin> set (decisions en phases))"

section \<open>Steps keep decisions away\<close>

lemma loop_keeps:
  assumes R: "\<And>w. R w w" "\<And>w w' w''. R w w' \<Longrightarrow> R w' w'' \<Longrightarrow> R w w''"
    and body: "\<And>fb v w. R w (fst (attempt_body sp fb v w))"
    and check: "\<And>r w. R w (fst (verdict_on sp r w))"
    and wr: "\<And>w p h r w'. wf_write_record wh w p (step_record h r) = Inr w' \<Longrightarrow> R w w'"
  shows "R (st_world st) (st_world (fst (step_loop wh sp h k fb fixable n st)))"
proof (induction k arbitrary: fb fixable n st)
  case (Suc k)
  obtain w out where b: "attempt_body sp fb fixable (st_world st) = (w, out)" by fastforce
  have w: "R (st_world st) w" using body [of "st_world st" fb fixable] b by simp
  show ?case
  proof (cases out)
    case (Inl e)
    with b w show ?thesis by (cases e) (auto simp: step_loop.simps(2))
  next
    case (Inr r)
    obtain w' verdict where c: "verdict_on sp r w = (w', verdict)" by fastforce
    have w': "R (st_world st) w'" using R(2) [OF w] check [of w r] c by simp
    have later: "R (st_world st) (st_world (fst (step_loop wh sp h k fb' fixable' n' st')))"
      if "st_world st' = w'" for fb' fixable' n' st'
      using R(2) [OF w'] Suc.IH [of st' fb' fixable' n'] that by simp
    have wrote: "R (st_world st) w''" if "wf_write_record wh w' p (step_record h r) = Inr w''" for p w''
      using R(2) [OF w' wr [OF that]] .
    show ?thesis
      using b c w' \<open>out = Inr r\<close> later wrote
      by (cases verdict) (auto simp: step_loop.simps(2) Let_def split: sum.splits)
  qed
qed (simp add: step_loop.simps(1) Let_def R)

lemma run_step_keeps:
  assumes R: "\<And>w. R w w" "\<And>w w' w''. R w w' \<Longrightarrow> R w' w'' \<Longrightarrow> R w w''"
    and body: "\<And>fb v w. R w (fst (attempt_body sp fb v w))"
    and check: "\<And>r w. R w (fst (verdict_on sp r w))"
    and wr: "\<And>w p h r w'. wf_write_record wh w p (step_record h r) = Inr w' \<Longrightarrow> R w w'"
  shows "R (st_world st) (st_world (fst (run_step digest wh sp st)))"
proof -
  have "R (st_world st) (st_world (fst (step_loop wh sp h k None None 0 (emit (StepStarted (step_at sp)) st))))" for h k
    using loop_keeps [where R = R, OF R body check wr, where st = "emit (StepStarted (step_at sp)) st"] by simp
  then show ?thesis using R(1) by (auto simp: run_step_def split: sum.split option.split)
qed

context revise_store
begin

abbreviation keeps :: "('w, 'a) action \<Rightarrow> bool" where
  "keeps m \<equiv> meets (revise_costs en phases) m"

lemma keeps_ask: "(\<And>w. f w \<noteq> Inl Revise) \<Longrightarrow> keeps (ask f)"
  by (auto simp: meets_def revise_costs_def ask_def ending_def split: sum.splits)

lemma keeps_throw: "e \<noteq> Revise \<Longrightarrow> keeps (throw e)"
  by (simp add: meets_def revise_costs_def throw_def)

lemma keeps_change:
  assumes "\<And>w w'. f w = Inr w' \<Longrightarrow> fewer en phases w w'"
  shows "keeps (change f)"
  using assms by (auto simp: meets_def revise_costs_def change_def at_world_def split: sum.split)

lemma keeps_step_run:
  assumes "\<And>s. fewer en phases (st_world s) (st_world (fst (m s)))"
  shows "keeps (step_run m)"
proof (rule meetsI)
  fix st st' :: "'w run_state" and out
  assume run: "step_run m st = (st', out)"
  obtain s r where m: "m (rs_step st) = (s, r)" by fastforce
  with run assms [of "rs_step st"] show "revise_costs en phases st st' (ending out)"
    by (auto simp: revise_costs_def step_run_def engine_run_def raised_def split: sum.splits)
qed

lemma keeps_plain:
  assumes "\<And>st. world (fst (m st)) = world st" "\<And>st. snd (m st) \<noteq> Inl Revise"
  shows "keeps m"
  using assms by (auto simp: meets_def revise_costs_def ending_def split: sum.splits)

lemma turn_keeps: "runners_quiet en phases ru \<Longrightarrow> fewer en phases w (fst (agent_turn ru n t h w))"
proof -
  assume "runners_quiet en phases ru"
  then have "fewer en phases w (fst (ru_turn ru t h w))" by (simp add: runners_quiet_def)
  then show ?thesis by (cases "ru_turn ru t h w"; cases "snd (ru_turn ru t h w)") (simp_all add: agent_turn_def)
qed

lemma out_keeps: "safe_out en phases out \<Longrightarrow> write_out en out text w = Inr w' \<Longrightarrow> fewer en phases w w'"
  by (cases out) (auto simp: write_out_def safe_out_def truthy_def dest: write_law split: if_splits)

lemma finish_keeps:
  assumes "runners_quiet en phases ru" "safe_out en phases out"
  shows "fewer en phases w (fst (fst (finish_reply en ru out outputs produces text w)))"
proof (cases "write_out en out text w")
  case (Inr w1)
  have w1: "fewer en phases w w1" by (rule out_keeps [OF assms(2) Inr])
  obtain w2 o2 where rc: "ru_reconcile ru w1 = (w2, o2)" by fastforce
  have "fewer en phases w1 w2" using assms(1) rc by (metis fst_conv runners_quiet_def)
  with w1 have "fewer en phases w w2" by (rule fewer_trans)
  with Inr w1 rc show ?thesis by (auto simp: finish_reply_def Let_def split: sum.split)
qed (simp add: finish_reply_def)

lemma body_keeps:
  assumes "runners_quiet en phases ru" "safe_out en phases out"
  shows "fewer en phases (fst s) (fst (fst (agent_body en ru n asked tools out outputs produces fb s)))"
    and "fewer en phases (fst s) (fst (fst (agent_repair en ru n out kind outputs produces v s)))"
proof -
  obtain w prev where s: "s = (w, prev)" by fastforce
  have "fewer en phases w (fst (fst (case agent_turn ru n t h w of
        (w', Inl e) \<Rightarrow> ((w', prev), Inl e)
      | (w', Inr text) \<Rightarrow> finish_reply en ru out outputs produces text w')))" for t h
  proof -
    obtain w' o' where t: "agent_turn ru n t h w = (w', o')" by fastforce
    have w': "fewer en phases w w'" using turn_keeps [OF assms(1), of w n t h] t by simp
    show ?thesis
      using t w' fewer_trans [OF w' finish_keeps [OF assms]] by (cases o') auto
  qed
  then show "fewer en phases (fst s) (fst (fst (agent_body en ru n asked tools out outputs produces fb s)))"
    "fewer en phases (fst s) (fst (fst (agent_repair en ru n out kind outputs produces v s)))"
    by (simp_all add: s agent_body_def agent_repair_def Let_def)
qed

lemma agent_step_keeps:
  assumes "runners_quiet en phases ru" "safe_out en phases out"
  shows "fewer en phases (st_world s) (st_world (fst (agent_write_step en ru prompt phase out kind requires name key
           tools retries cache check outputs produces reads s)))"
proof (cases "reads_fingerprint en (st_world s) reads")
  case (Inr fp)
  have talk: "fewer en phases (fst (st_world t)) (fst (st_world (fst (run_step digest (talk_handle (en_wh en))
        (step_of n key phase args (agent_body en ru n' asked tools out outputs produces) g retries cache
          (if b then Some (agent_repair en ru n' out kind outputs produces) else None)) t))))"
    for t n args n' asked g b digest
  proof (rule run_step_keeps [where R = "\<lambda>s s'. fewer en phases (fst s) (fst s')"])
    fix w p h r w'
    assume "wf_write_record (talk_handle (en_wh en)) w p (step_record h r) = Inr w'"
    then show "fewer en phases (fst w) (fst w')"
      by (auto simp: talk_handle_def split: prod.splits sum.splits intro: record_law)
  next
    fix fb v w
    show "fewer en phases (fst w) (fst (fst (attempt_body (step_of n key phase args
        (agent_body en ru n' asked tools out outputs produces) g retries cache
        (if b then Some (agent_repair en ru n' out kind outputs produces) else None)) fb v w)))"
      using body_keeps [OF assms] by (auto simp: attempt_body_def step_of_def split: option.split)
  qed (auto simp: verdict_on_def step_of_def as_check_def intro: fewer_trans)
  show ?thesis
    using talk [of "\<lparr>st_world = (st_world s, None), st_events = st_events s\<rparr>"]
    by (simp add: agent_write_step_def Let_def Inr case_prod_unfold)
qed (simp add: agent_write_step_def Let_def)

lemma sandbox_step_keeps:
  assumes "runners_quiet en phases ru"
  shows "fewer en phases (st_world s) (st_world (fst (run_sandbox_node en ru run phase check name key outputs produces
           reads cache s)))"
proof (cases "reads_fingerprint en (st_world s) reads")
  case (Inr fp)
  have "fewer en phases w (fst (ru_sandbox ru run w))" for w using assms by (simp add: runners_quiet_def)
  then have body: "fewer en phases w (fst (case ru_sandbox ru run w of (w', Inl e) \<Rightarrow> (w', Inl e)
      | (w', Inr (code, out)) \<Rightarrow> (w', Inr (f w' code out))))" for w f
  proof -
    obtain w' r where c: "ru_sandbox ru run w = (w', r)" by fastforce
    with \<open>\<And>w. fewer en phases w (fst (ru_sandbox ru run w))\<close> [of w] show ?thesis
      by (cases r) (auto split: prod.splits)
  qed
  show ?thesis
    unfolding run_sandbox_node_def Let_def Inr sum.case
  proof (rule run_step_keeps [where R = "fewer en phases"])
    show "fewer en phases w (fst (attempt_body (step_of n key phase args (\<lambda>fb w. case ru_sandbox ru run w of
        (w', Inl e) \<Rightarrow> (w', Inl e) | (w', Inr (code, out)) \<Rightarrow> (w', Inr (f w' code out))) g 0 cache None) fb v w))"
      for n args f g fb v w
      using body by (simp add: attempt_body_def step_of_def)
  qed (auto simp: step_of_def verdict_on_def as_check_def intro: fewer_trans record_law)
qed (simp add: run_sandbox_node_def Let_def)

end

section \<open>The gate\<close>

lemma seq_cases:
  "seq m f st = (st', out) \<Longrightarrow>
     (\<exists>e. m st = (st', Inl e) \<and> out = Inl e) \<or> (\<exists>st1 x. m st = (st1, Inr x) \<and> f x st1 = (st', out))"
  by (auto simp: seq_def split: prod.splits sum.splits)

lemma human_gate_decides:
  assumes "human_gate en phase title summary allow s = (s', Inr d)"
  shows "st_world s' = st_world s \<and> chosen en (st_world s) phase (dn_choice d)"
  using assms
  by (auto simp: human_gate_def Let_def decision_of_def chosen_def split: if_splits sum.splits json.splits option.splits)

lemma human_gate_waits:
  assumes "human_gate en phase title summary allow s = (s', Inl e)"
  shows "st_world s' = st_world s \<and> e \<noteq> Revise"
  using assms
  by (auto simp: human_gate_def Let_def decision_of_def split: if_splits sum.splits json.splits option.splits)

section \<open>The interpreter keeps decisions away\<close>

function every_leaf :: "(node \<Rightarrow> bool) \<Rightarrow> node \<Rightarrow> bool" and every_leaves :: "(node \<Rightarrow> bool) \<Rightarrow> node list \<Rightarrow> bool"
  and every_case :: "(node \<Rightarrow> bool) \<Rightarrow> (string \<times> node list) list \<Rightarrow> node list option \<Rightarrow> bool" where
  "every_leaf P (Agent a) = P (Agent a)"
| "every_leaf P (Sandbox s) = P (Sandbox s)"
| "every_leaf P (Capability c) = P (Capability c)"
| "every_leaf P (Gate g) = P (Gate g)"
| "every_leaf P (MapOver h ns) = every_leaves P ns"
| "every_leaf P (Switch h cases dflt) = every_case P cases dflt"
| "every_leaves P [] = True"
| "every_leaves P (n # ns) = (every_leaf P n \<and> every_leaves P ns)"
| "every_case P ((c, body) # cases) dflt = (every_leaves P body \<and> every_case P cases dflt)"
| "every_case P [] (Some body) = every_leaves P body"
| "every_case P [] None = True"
  by pat_completeness auto
termination
  by (relation "measure (\<lambda>x. case x of
        Inl (_, n) \<Rightarrow> size n
      | Inr (Inl (_, ns)) \<Rightarrow> size_list size ns
      | Inr (Inr (_, cases, dflt)) \<Rightarrow>
          size_list (size_prod (\<lambda>_. 0) (size_list size)) cases + size_option (size_list size) dflt)")
     simp_all

text \<open>A gate's phase is among \<open>phases\<close>; an agent's reply never lands on a decision.\<close>

definition keeps_decisions :: "'w engine \<Rightarrow> string list \<Rightarrow> node \<Rightarrow> bool" where
  "keeps_decisions en phases n =
     (case n of
        Gate g \<Rightarrow> gt_phase g \<in> set phases
      | Agent a \<Rightarrow> ag_out a = [] \<or>
          (\<forall>ns w p. resolve (en_wh en) ns w (JStr (ag_out a)) = Inr (JStr p) \<longrightarrow> p \<noteq> [] \<longrightarrow>
             absolute p \<notin> set (decisions en phases))
      | _ \<Rightarrow> True)"

lemma resolve_no_revise [simp]: "resolve wh ns w v \<noteq> Inl Revise"
  using plain_errors(6) [of wh ns w v Revise] by auto

context revise_store
begin

lemma keeps_resolved [intro]: "keeps (resolved en ns v)" by (rule keeps_ask) simp

lemma keeps_texts [intro]: "keeps (resolved_all en ns ts)"
  unfolding resolved_all_def by (rule costs.meets_each) auto

lemma keeps_dict [intro]: "keeps (resolved_dict en ns kvs)"
  unfolding resolved_dict_def by (rule costs.meets_each) (auto intro!: costs.meets_seq costs.meets_ret)

lemma keeps_reads [intro]: "keeps (resolve_reads en ns ts)"
  by (auto simp: resolve_reads_def intro!: costs.meets_seq costs.meets_ret)

lemma keeps_produces [intro]: "keeps (resolve_produces en ns t)"
  by (auto simp: resolve_produces_def intro!: costs.meets_seq costs.meets_ret)

lemma keeps_required [intro]: "keeps (required args k)"
  by (auto simp: required_def intro!: costs.meets_ret keeps_throw split: option.split)

lemma keeps_required_in [intro]: "keeps (required_in en ns args k)"
  by (auto simp: required_in_def intro!: costs.meets_seq)

lemma keeps_build_check [intro]: "keeps (build_check en ns spec)"
  unfolding build_check_def
  by (auto intro!: costs.meets_seq costs.meets_ret keeps_throw split: list.splits json.splits prod.splits)

lemma keeps_node_check [intro]: "keeps (node_check en ns outputs produces check)"
  unfolding node_check_def by (auto intro!: costs.meets_seq costs.meets_ret split: option.split list.split)

lemma keeps_publish [intro]: "keeps (publish en name key flds)"
  unfolding publish_def by (rule keeps_change) (rule publish_law)

lemma keeps_delete [intro]: "keeps (delete_file en p)"
  unfolding delete_file_def by (rule keeps_change) (rule delete_law)

lemma keeps_agent:
  assumes "runners_quiet en phases ru" "keeps_decisions en phases (Agent a)"
  shows "keeps (exec_agent en ru a ns key)"
proof -
  let ?out = "if ag_out a = [] then ret (JStr []) else resolved en ns (JStr (ag_out a))"
  have out: "keeps ?out" by (auto intro: costs.meets_ret)
  have safe: "safe_out en phases v" if "?out st = (st', Inr v)" for st st' v
    using that assms(2)
    by (auto simp: safe_out_def keeps_decisions_def ret_def ask_def split: if_splits)
  have step: "keeps (step_run (agent_write_step en ru prompt phase v kind requires name key tools retries cache
      check outputs produces reads))" if "safe_out en phases v"
    for prompt phase v kind requires name tools retries cache check outputs produces reads
    by (rule keeps_step_run) (rule agent_step_keeps [OF assms(1) that])
  show ?thesis
    unfolding exec_agent_def
    by (intro costs.meets_seq keeps_resolved keeps_produces keeps_node_check
        costs.meets_seq_values [OF out] keeps_reads costs.meets_ret step) (rule safe)
qed

lemma keeps_sandbox:
  assumes "runners_quiet en phases ru"
  shows "keeps (exec_sandbox en ru s ns key)"
  unfolding exec_sandbox_def
  by (intro costs.meets_seq keeps_resolved keeps_produces keeps_node_check keeps_reads costs.meets_ret keeps_step_run)
     (rule sandbox_step_keeps [OF assms])

lemma keeps_capability:
  assumes "runners_quiet en phases ru"
  shows "keeps (exec_capability en ru c ns key)"
proof -
  have call: "keeps (call_capability ru name k args)" for name k args
    unfolding call_capability_def
    by (intro costs.meets_seq costs.meets_ret keeps_step_run) (use assms in \<open>simp add: runners_quiet_def\<close>)
  have number: "keeps (resolve_number en ns v)" for v
    unfolding resolve_number_def
    by (intro costs.meets_seq keeps_resolved) (auto intro: costs.meets_ret keeps_throw split: option.split)
  show ?thesis
    unfolding exec_capability_def Let_def
    by (auto intro!: costs.meets_seq call number)
qed

text \<open>A gate that sends the run back has used up its decision.\<close>

lemma decided_costs:
  assumes "gt_phase g \<in> set phases" "after_decision en g key d st = (st', out)"
    and "dn_choice d = JStr ''revise'' \<Longrightarrow> asks_revise en (world st) (gt_phase g)"
  shows "revise_costs en phases st st' (ending out)"
proof -
  let ?pub = "if gt_name g = [] then ret () :: ('w, unit) action
     else publish en (gt_name g) key [(''feedback'', dn_input d), (''choice'', dn_choice d)]"
  have pub: "keeps ?pub" by (auto intro: costs.meets_ret)
  from seq_cases [OF assms(2) [unfolded after_decision_def]] show ?thesis
  proof (elim disjE exE conjE)
    fix e
    assume "?pub st = (st', Inl e)" "out = Inl e"
    then show ?thesis using meetsD [OF pub] by blast
  next
    fix st1 x
    assume p: "?pub st = (st1, Inr x)"
      and rest: "(if dn_choice d = JStr ''approve'' then ret ()
        else if dn_choice d = JStr ''revise'' \<and> gt_revise_to g \<noteq> []
        then seq (delete_file en (decision_path (en_wh en) (gt_phase g))) (\<lambda>_. throw Revise)
        else throw (Stop (dn_choice d))) st1 = (st', out)"
    have one: "revise_costs en phases st st1 None" using meetsD [OF pub p] by simp
    show ?thesis
    proof (cases "dn_choice d = JStr ''revise'' \<and> gt_revise_to g \<noteq> []")
      case False
      with rest have "keeps (if dn_choice d = JStr ''approve'' then ret () else throw (Stop (dn_choice d)))"
        "(if dn_choice d = JStr ''approve'' then ret () else throw (Stop (dn_choice d))) st1 = (st', out)"
        by (auto intro: costs.meets_ret keeps_throw)
      from meetsD [OF this] costs.chain [OF one] show ?thesis by blast
    next
      case True
      let ?path = "absolute (decision_path (en_wh en) (gt_phase g))"
      from True rest have run: "seq (delete_file en (decision_path (en_wh en) (gt_phase g))) (\<lambda>_. throw Revise) st1 = (st', out)"
        by auto
      show ?thesis
      proof (cases "en_delete en (world st1) ?path")
        case (Inl e)
        with run one show ?thesis
          by (auto simp: seq_def delete_file_def change_def revise_costs_def)
      next
        case (Inr w)
        with run have st': "world st' = w" "out = Inl Revise"
          by (auto simp: seq_def delete_file_def change_def throw_def)
        have "fewer en phases (world st) w"
          using one delete_law [OF Inr] by (auto simp: revise_costs_def intro: fewer_trans)
        moreover have "asks_revise en (world st) (gt_phase g)" using assms(3) True by blast
        moreover have "\<not> asks_revise en w (gt_phase g)" by (rule gone_law [OF Inr assms(1)])
        ultimately show ?thesis using st' assms(1) by (auto simp: revise_costs_def)
      qed
    qed
  qed
qed

lemma keeps_summary: "keeps (gate_summary en g ns)"
  unfolding gate_summary_def
  by (auto intro!: costs.meets_ret costs.meets_seq costs.meets_each keeps_ask
      simp: bindE_eq_Inl over_patterns_def read_summary_def raised_def split: json.splits sum.splits if_splits)

lemma keeps_gate:
  assumes "gt_phase g \<in> set phases"
  shows "keeps (exec_gate en g ns key)"
proof -
  have "keeps (seq (engine_run (human_gate en (gt_phase g) title summary (gt_allow g))) (after_decision en g key))" for title summary
  proof (rule meetsI)
    fix st st' :: "'w run_state" and out
    assume run: "seq (engine_run (human_gate en (gt_phase g) title summary (gt_allow g))) (after_decision en g key) st = (st', out)"
    obtain s r where h: "human_gate en (gt_phase g) title summary (gt_allow g) (rs_step st) = (s, r)" by fastforce
    show "revise_costs en phases st st' (ending out)"
    proof (cases r)
      case (Inl e)
      with run h human_gate_waits [OF h [unfolded Inl]] show ?thesis
        by (auto simp: seq_def engine_run_def revise_costs_def)
    next
      case (Inr d)
      let ?st = "st\<lparr>rs_step := s\<rparr>"
      from run h Inr have "after_decision en g key d ?st = (st', out)" by (simp add: seq_def engine_run_def)
      moreover have "world ?st = world st" "dn_choice d = JStr ''revise'' \<Longrightarrow> asks_revise en (world ?st) (gt_phase g)"
        using human_gate_decides [OF h [unfolded Inr]] by (auto simp: asks_revise_def)
      ultimately have "revise_costs en phases ?st st' (ending out)" using decided_costs [OF assms] by blast
      with \<open>world ?st = world st\<close> show ?thesis by (simp add: revise_costs_def)
    qed
  qed
  then show ?thesis
    unfolding exec_gate_def by (rule costs.meets_seq [OF keeps_resolved costs.meets_seq [OF keeps_summary]])
qed

end

context revise_store
begin

lemma keeps_gc: "keeps (gc_map_orphans en ns keys)"
  unfolding gc_map_orphans_def drop_orphan_def
  by (auto simp: Let_def intro!: costs.meets_seq costs.meets_ret costs.meets_each keeps_ask keeps_delete)

lemma no_revise_elements: "map_elements en ns h w \<noteq> Inl Revise"
proof -
  have "over_fits (\<lambda>sc v. True) [] (mp_over h)" by (simp add: over_fits_def split: json.split option.split)
  from plain.map_elements_errors [OF this, of ns en w Revise] show ?thesis by (auto simp: names_cover_def)
qed

lemma keeps_publish_map: "keeps (publish_map en h ns key els)"
  unfolding publish_map_def
  using plain.collect_errors [of en _ _ _ Revise]
  by (auto intro!: costs.meets_seq costs.meets_ret keeps_ask)

lemma keeps_exec:
  "every_leaf (keeps_decisions en phases) n \<Longrightarrow> runners_quiet en phases ru \<Longrightarrow> keeps (exec_node en ru ns key n)"
  "every_leaves (keeps_decisions en phases) nodes \<Longrightarrow> runners_quiet en phases ru \<Longrightarrow> keeps (exec_nodes en ru ns key nodes)"
  "every_case (keeps_decisions en phases) cases dflt \<Longrightarrow> runners_quiet en phases ru \<Longrightarrow>
     keeps (exec_case en ru ns key on c cases dflt)"
proof -
  have "P = keeps_decisions en phases \<Longrightarrow> every_leaf P n \<Longrightarrow> runners_quiet en phases ru \<Longrightarrow> keeps (exec_node en ru ns key n)"
    "P = keeps_decisions en phases \<Longrightarrow> every_leaves P nodes \<Longrightarrow> runners_quiet en phases ru \<Longrightarrow>
       keeps (exec_nodes en ru ns key nodes)"
    "P = keeps_decisions en phases \<Longrightarrow> every_case P cases dflt \<Longrightarrow> runners_quiet en phases ru \<Longrightarrow>
       keeps (exec_case en ru ns key on c cases dflt)" for P
  proof (induction P n and P nodes and P cases dflt
      arbitrary: ns ru key and ns ru key and ns ru key on c
      rule: every_leaf_every_leaves_every_case.induct)
    case (1 P a)
    then show ?case by (auto intro: keeps_agent)
  next
    case (4 P g)
    then show ?case by (auto simp: keeps_decisions_def intro: keeps_gate)
  next
    case (5 P h nodes)
    have "keeps (map_over h (ru_concurrency ru)
         (\<lambda>el. exec_nodes en (sub_handle ru (snd el)) (element_names h ns el) (snd el) nodes) els)" for els
      using 5 by (intro costs.meets_map_over keeps_throw) (auto intro: quiet_sub)
    then show ?case
      using no_revise_elements by (auto intro!: costs.meets_seq keeps_ask keeps_gc keeps_publish_map)
  qed (auto intro: keeps_sandbox keeps_capability intro!: costs.meets_ret costs.meets_seq keeps_throw
        simp: step_failed_def)
  then show "every_leaf (keeps_decisions en phases) n \<Longrightarrow> runners_quiet en phases ru \<Longrightarrow> keeps (exec_node en ru ns key n)"
    "every_leaves (keeps_decisions en phases) nodes \<Longrightarrow> runners_quiet en phases ru \<Longrightarrow>
       keeps (exec_nodes en ru ns key nodes)"
    "every_case (keeps_decisions en phases) cases dflt \<Longrightarrow> runners_quiet en phases ru \<Longrightarrow>
       keeps (exec_case en ru ns key on c cases dflt)" by blast+
qed

end

text \<open>The decisions that ask for a revision, a measure of the drives left.\<close>

definition revisions :: "'w engine \<Rightarrow> string list \<Rightarrow> 'w \<Rightarrow> nat" where
  "revisions en phases w = card {p \<in> set phases. asks_revise en w p}"

lemma revision_used:
  assumes "revise_costs en phases st st' (Some Revise)"
  shows "revisions en phases (world st') < revisions en phases (world st)"
proof -
  have "{p \<in> set phases. asks_revise en (world st') p} \<subset> {p \<in> set phases. asks_revise en (world st) p}"
    using assms by (auto simp: revise_costs_def fewer_def)
  then show ?thesis unfolding revisions_def by (intro psubset_card_mono) simp_all
qed

context revise_world
begin

lemma runs_end:
  assumes "every_leaves (keeps_decisions en phases) (wd_steps d)"
  shows "build_run en ru d inputs s \<noteq> None"
proof (induction "revisions en phases (st_world s)" arbitrary: s rule: less_induct)
  case less
  obtain st out where drive: "drive_once en ru d inputs s = (st, out)" by fastforce
  have "revise_costs en phases \<lparr>rs_step = s, rs_failures = []\<rparr> st (ending out)"
    using meetsD [OF keeps_exec(2) [OF assms quiet]] drive by (simp add: drive_once_def)
  then have again: "out = Inl Revise \<Longrightarrow> build_run en ru d inputs (rs_step st) \<noteq> None"
    using less [of "rs_step st"] revision_used by fastforce
  show ?case
    using drive again by (subst build_run.simps) (auto split: sum.split dsl_exn.split)
qed

end

section \<open>The files\<close>

lemma own_records_choose_nothing:
  "jget (sorted_keys (step_record h r)) ''choice'' = None" "jget (sorted_keys (fields_record flds)) ''choice'' = None"
  by (simp_all add: step_record_def fields_record_def jget_sorted del: sorted_keys.simps)

lemma journal_path_absolute: "absolute (decision_path (disk_handle (journal_dir_of wid)) p) = decision_path (disk_handle (journal_dir_of wid)) p"
  by (simp add: absolute_def decision_path_def disk_handle_def journal_dir_of_def)

lemma disk_chosen:
  "chosen (disk_engine loads paths dir) w p c \<longleftrightarrow>
     (\<exists>rec. w (decision_path (disk_handle dir) p) = Some (Parsed rec) \<and> jget rec ''choice'' = Some c)"
  by (auto simp: chosen_def disk_engine_def disk_handle_def split: option.splits journal_file.splits)

interpretation disk_decisions: revise_store "disk_engine loads paths (journal_dir_of wid)" phases
  for loads paths wid phases
proof
  let ?en = "disk_engine loads paths (journal_dir_of wid)"
  show "en_write ?en w path t = Inr w' \<Longrightarrow> path \<notin> set (decisions ?en phases) \<Longrightarrow> fewer ?en phases w w'" for w path t w'
    by (auto simp: fewer_def asks_revise_def disk_chosen decisions_def split: if_splits)
  show "wf_write_record (en_wh ?en) w path (step_record h r) = Inr w' \<Longrightarrow> fewer ?en phases w w'" for w path h r w'
    using own_records_choose_nothing(1) [of h r]
    by (auto simp: fewer_def asks_revise_def disk_chosen disk_fields disk_handle_def split: if_splits)
  show "en_write_json ?en w path (fields_record flds) = Inr w' \<Longrightarrow> fewer ?en phases w w'" for w path flds w'
    using own_records_choose_nothing(2) [of flds]
    by (auto simp: fewer_def asks_revise_def disk_chosen disk_fields split: if_splits)
  show "en_delete ?en w path = Inr w' \<Longrightarrow> fewer ?en phases w w'" for w path w'
    by (auto simp: fewer_def asks_revise_def disk_chosen disk_fields split: if_splits)
  show "en_delete ?en w (absolute (decision_path (en_wh ?en) p)) = Inr w' \<Longrightarrow> p \<in> set phases \<Longrightarrow> \<not> asks_revise ?en w' p"
    for w p w'
    using journal_path_absolute [of wid p] by (auto simp: asks_revise_def disk_chosen disk_fields split: if_splits)
qed

interpretation quiet_disk: revise_world "disk_engine loads paths (journal_dir_of wid)" phases "quiet_runners command reply call"
  for loads paths wid phases command reply call
  by unfold_locales (simp add: runners_quiet_def quiet_runners_def)

section \<open>Properties\<close>

text \<open>Reading the world keeps it.\<close>

definition same_world :: "'w contract" where
  "same_world st st' e \<longleftrightarrow> world st' = world st"

interpretation reading: drive_contract "same_world :: 'w contract"
  by unfold_locales (simp_all add: same_world_def)

lemma summary_reads: "gate_summary en g ns st = (st', out) \<Longrightarrow> world st' = world st"
proof -
  have ask: "meets same_world (ask f)" for f :: "'w \<Rightarrow> dsl_exn + 'b"
    by (simp add: meets_def same_world_def ask_def)
  have "meets same_world (gate_summary en g ns)"
    unfolding gate_summary_def by (auto intro!: reading.meets_ret reading.meets_seq reading.meets_each ask)
  then show "gate_summary en g ns st = (st', out) \<Longrightarrow> world st' = world st"
    by (auto dest!: meetsD simp: same_world_def)
qed

lemma gate_passes_approved:
  assumes "exec_gate en g ns key st = (st', Inr u)"
  shows "chosen en (world st) (gt_phase g) (JStr ''approve'')"
proof -
  from seq_cases [OF assms [unfolded exec_gate_def]] obtain st1 title where
    1: "resolved en ns (JStr (gt_title g)) st = (st1, Inr title)"
    and r1: "seq (gate_summary en g ns) (\<lambda>summary.
       seq (engine_run (human_gate en (gt_phase g) title summary (gt_allow g))) (after_decision en g key)) st1 = (st', Inr u)"
    by auto
  from seq_cases [OF r1] obtain st2 summary where
    2: "gate_summary en g ns st1 = (st2, Inr summary)"
    and r2: "seq (engine_run (human_gate en (gt_phase g) title summary (gt_allow g))) (after_decision en g key) st2 = (st', Inr u)"
    by auto
  from seq_cases [OF r2] obtain st3 d where
    3: "engine_run (human_gate en (gt_phase g) title summary (gt_allow g)) st2 = (st3, Inr d)"
    and r3: "after_decision en g key d st3 = (st', Inr u)" by auto
  have "dn_choice d = JStr ''approve''"
    using r3 by (auto simp: after_decision_def seq_def throw_def split: prod.splits sum.splits if_splits)
  moreover obtain s where "human_gate en (gt_phase g) title summary (gt_allow g) (rs_step st2) = (s, Inr d)"
    using 3 by (auto simp: engine_run_def split: prod.splits)
  ultimately have "chosen en (world st2) (gt_phase g) (JStr ''approve'')"
    using human_gate_decides by fastforce
  moreover have "world st2 = world st1" using summary_reads [OF 2] .
  moreover have "world st1 = world st" using 1 by (auto simp: ask_def)
  ultimately show ?thesis by simp
qed

text \<open>
  C14: nothing behind a human gate runs without an approval: unless the gate's decision on
  record is to approve, the drive ends at the gate, and what follows it has started no step,
  driven no agent, called no capability and changed no file.
\<close>

theorem unapproved_gate_stops:
  assumes "\<not> chosen en (world st) (gt_phase g) (JStr ''approve'')"
  shows "\<exists>st' e. exec_node en ru ns key (Gate g) st = (st', Inl e)
     \<and> exec_nodes en ru ns key (Gate g # rest) st = (st', Inl e)"
proof -
  obtain st' out where gate: "exec_gate en g ns key st = (st', out)" by fastforce
  with assms gate_passes_approved obtain e where "out = Inl e" by (cases out) blast+
  with gate show ?thesis by (simp add: seq_def)
qed

theorem unapproved_gate_stops_witness:
  "\<exists>st' e. exec_node example_engine example_runners (top_names review_flow JNull) [] (Gate review_gate)
        \<lparr>rs_step = empty_disk, rs_failures = []\<rparr> = (st', Inl e)
     \<and> exec_nodes example_engine example_runners (top_names review_flow JNull) []
         [Gate review_gate, MapOver titles_map [Sandbox print_step]] \<lparr>rs_step = empty_disk, rs_failures = []\<rparr> = (st', Inl e)"
  by (rule unapproved_gate_stops) (simp add: disk_chosen)

text \<open>
  C15: a run that its reviewers keep sending back still ends: where agents, commands and
  capabilities record no decisions themselves and no reply is written over one, every run of a
  definition returns, whatever the models answer, because each drive from the top has used up
  a recorded decision.
\<close>

theorem revised_runs_end:
  assumes "revise_world en phases ru" "every_leaves (keeps_decisions en phases) (wd_steps d)"
  shows "\<exists>r. build_run en ru d inputs s = Some r"
  using revise_world.runs_end [OF assms] by auto

definition sent_back :: "disk step_state" where
  "sent_back = \<lparr>st_world = (\<lambda>_. None)(''/.workflow/review/step_review/decision.json'' \<mapsto>
       Parsed (JObj [(''choice'', JStr ''revise''), (''input'', JStr ''shorter'')])), st_events = []\<rparr>"

theorem revised_runs_end_witness:
  "\<exists>r. build_run (disk_engine (\<lambda>t. Some (JObj [(''titles'', JArr [JStr ''sun''])])) [] (journal_dir_of ''review''))
       example_runners review_flow JNull sent_back = Some r"
  by (rule revised_runs_end [OF quiet_disk.revise_world_axioms, where phases = "[''review'']"])
     (simp add: review_flow_def draft_step_def review_gate_def print_step_def keeps_decisions_def)

text \<open>
  the answer a person gives is the answer the gate acts on: after the decisions endpoint has
  recorded a choice with its feedback, the gate returns exactly them, and runs on without
  waiting again.
\<close>

theorem recorded_decision_reaches_the_gate:
  assumes "\<And>w p j w'. en_write_json en w p j = Inr w' \<Longrightarrow>
      wf_exists (en_wh en) w' p \<and> wf_read_json (en_wh en) w' p = Inr (sorted_keys j)"
    and "record_decision en phase choice input decided_by w = Inr w'"
  shows "human_gate en phase title summary allow \<lparr>st_world = w', st_events = evs\<rparr>
     = (\<lparr>st_world = w', st_events = evs @ [StepPassed (phase, phase, [])]\<rparr>,
        Inr \<lparr>dn_choice = JStr choice, dn_input = JStr input\<rparr>)"
  using assms(1) [OF assms(2) [unfolded record_decision_def]]
  by (simp add: human_gate_def Let_def decision_of_def emit_def dict_get_def)

theorem recorded_decision_reaches_the_gate_witness:
  "\<exists>w. human_gate example_engine ''review'' (JStr ''Review'') (JStr []) [''approve''] \<lparr>st_world = w, st_events = []\<rparr>
     = (\<lparr>st_world = w, st_events = [StepPassed (''review'', ''review'', [])]\<rparr>,
        Inr \<lparr>dn_choice = JStr ''approve'', dn_input = JStr ''ok''\<rparr>)"
proof -
  have law: "wf_exists (en_wh example_engine) w' p \<and> wf_read_json (en_wh example_engine) w' p = Inr (sorted_keys j)"
    if "en_write_json example_engine w p j = Inr w'" for w p j w'
    using that by (auto simp: disk_handle_def)
  obtain w where "record_decision example_engine ''review'' ''approve'' ''ok'' ''ann'' (\<lambda>_. None) = Inr w"
    by (simp add: record_decision_def)
  then have "human_gate example_engine ''review'' (JStr ''Review'') (JStr []) [''approve''] \<lparr>st_world = w, st_events = []\<rparr>
     = (\<lparr>st_world = w, st_events = [] @ [StepPassed (''review'', ''review'', [])]\<rparr>,
        Inr \<lparr>dn_choice = JStr ''approve'', dn_input = JStr ''ok''\<rparr>)"
    by (intro recorded_decision_reaches_the_gate [where en = example_engine]) (rule law)
  then show ?thesis by auto
qed

end
