(* ===== verification/Nonidempotent.thy ===== *)
theory Nonidempotent
  imports StepJournal
begin

text \<open>
  The shell for capabilities that must not fire twice, \<open>workflow/nonidempotent.py\<close>: a ruling
  (\<open>decide\<close>) and an action (\<open>act\<close>) as two journaled steps, the second keyed by the first's
  ruling.  \<open>msgspec.convert\<close> reads a structure from the journaled JSON and raises when a field
  is missing or has another type.
\<close>

section \<open>Rulings and results\<close>

record verdict =
  vd_kind :: string
  vd_payload :: json

record ni_result =
  nr_fields :: json
  nr_artifact :: "string option"

definition verdict_builtins :: "verdict \<Rightarrow> json" where
  "verdict_builtins v = JObj [(''kind'', JStr (vd_kind v)), (''payload'', vd_payload v)]"

definition result_builtins :: "ni_result \<Rightarrow> json" where
  "result_builtins r = JObj [(''fields'', nr_fields r),
     (''artifact'', (case nr_artifact r of None \<Rightarrow> JNull | Some a \<Rightarrow> JStr a))]"

fun dict_field :: "json option \<Rightarrow> step_exn + json" where
  "dict_field None = Inr (JObj [])"
| "dict_field (Some (JObj kvs)) = Inr (JObj kvs)"
| "dict_field (Some v) = Inl (Raised ''ValidationError'')"

fun to_verdict :: "json \<Rightarrow> step_exn + verdict" where
  "to_verdict (JObj kvs) =
     (case dict_get kvs ''kind'' of
        Some (JStr kind) \<Rightarrow>
          bindE (dict_field (dict_get kvs ''payload'')) (\<lambda>p. Inr \<lparr>vd_kind = kind, vd_payload = p\<rparr>)
      | _ \<Rightarrow> Inl (Raised ''ValidationError''))"
| "to_verdict v = Inl (Raised ''ValidationError'')"

fun to_result :: "json \<Rightarrow> step_exn + ni_result" where
  "to_result (JObj kvs) =
     bindE (dict_field (dict_get kvs ''fields'')) (\<lambda>f.
       case dict_get kvs ''artifact'' of
         None \<Rightarrow> Inr \<lparr>nr_fields = f, nr_artifact = None\<rparr>
       | Some JNull \<Rightarrow> Inr \<lparr>nr_fields = f, nr_artifact = None\<rparr>
       | Some (JStr a) \<Rightarrow> Inr \<lparr>nr_fields = f, nr_artifact = Some a\<rparr>
       | Some v \<Rightarrow> Inl (Raised ''ValidationError''))"
| "to_result v = Inl (Raised ''ValidationError'')"

section \<open>The two steps\<close>

definition decide_key :: "string \<Rightarrow> string" where
  "decide_key key = (if key = [] then ''main'' else key) @ ''.decide''"

definition decide_step ::
  "string \<Rightarrow> string \<Rightarrow> string \<Rightarrow> json \<Rightarrow> (string option \<Rightarrow> 'w \<Rightarrow> 'w \<times> (step_exn + verdict)) \<Rightarrow> bool \<Rightarrow> 'w step" where
  "decide_step name key phase inputs decide cache =
     \<lparr>sp_name = name, sp_key = decide_key key, sp_phase = phase, sp_args = inputs,
      sp_execute = (\<lambda>fb w. case decide fb w of (w', out) \<Rightarrow> (w', bindE out (\<lambda>v. Inr (verdict_builtins v)))),
      sp_check = None, sp_retries = 0, sp_cache = cache, sp_repair = None\<rparr>"

definition act_step ::
  "string \<Rightarrow> string \<Rightarrow> string \<Rightarrow> json \<Rightarrow> json \<Rightarrow> ('w \<Rightarrow> 'w \<times> (step_exn + ni_result)) \<Rightarrow> bool \<Rightarrow> 'w step" where
  "act_step name key phase inputs raw act cache =
     \<lparr>sp_name = name, sp_key = key, sp_phase = phase,
      sp_args = JObj [(''inputs'', inputs), (''verdict'', raw)],
      sp_execute = (\<lambda>fb w. case act w of (w', out) \<Rightarrow> (w', bindE out (\<lambda>r. Inr (result_builtins r)))),
      sp_check = None, sp_retries = 0, sp_cache = cache, sp_repair = None\<rparr>"

text \<open>What follows the ruling \<open>raw\<close>.\<close>

definition act_on ::
  "(string \<Rightarrow> string) \<Rightarrow> 'w handle \<Rightarrow> string \<Rightarrow> string \<Rightarrow> string \<Rightarrow> json
   \<Rightarrow> (verdict \<Rightarrow> 'w \<Rightarrow> 'w \<times> (step_exn + ni_result)) \<Rightarrow> bool \<Rightarrow> json \<Rightarrow> 'w step_state
   \<Rightarrow> 'w step_state \<times> (step_exn + ni_result)" where
  "act_on digest wh name key phase inputs act cache raw st =
     (case to_verdict raw of
        Inl e \<Rightarrow> (st, Inl e)
      | Inr v \<Rightarrow>
          (case run_step digest wh (act_step name key phase inputs raw (act v) cache) st of
             (st', out) \<Rightarrow> (st', bindE out to_result)))"

definition run_nonidempotent ::
  "(string \<Rightarrow> string) \<Rightarrow> 'w handle \<Rightarrow> string \<Rightarrow> string \<Rightarrow> string \<Rightarrow> json
   \<Rightarrow> (string option \<Rightarrow> 'w \<Rightarrow> 'w \<times> (step_exn + verdict))
   \<Rightarrow> (verdict \<Rightarrow> 'w \<Rightarrow> 'w \<times> (step_exn + ni_result)) \<Rightarrow> bool \<Rightarrow> 'w step_state
   \<Rightarrow> 'w step_state \<times> (step_exn + ni_result)" where
  "run_nonidempotent digest wh name key phase inputs decide act cache st =
     (case run_step digest wh (decide_step name key phase inputs decide cache) st of
        (st', Inl e) \<Rightarrow> (st', Inl e)
      | (st', Inr raw) \<Rightarrow> act_on digest wh name key phase inputs act cache raw st')"

section \<open>Lemmas\<close>

lemma step_paths:
  "step_path wh (decide_step name key phase inputs decide cache) = artifact_path wh name (decide_key key)"
  "step_path wh (act_step name key phase inputs raw act cache) = artifact_path wh name key"
  by (simp_all add: step_path_def decide_step_def act_step_def)

text \<open>The ruling and the action of one key never share a file.\<close>

lemma decide_beside_act: "artifact_path wh name (decide_key key) \<noteq> artifact_path wh name key"
  by (auto simp: artifact_path_def journal_stem_def decide_key_def)

definition sort_verdict :: "verdict \<Rightarrow> verdict" where
  "sort_verdict v = v\<lparr>vd_payload := sorted_keys (vd_payload v)\<rparr>"

definition sort_result :: "ni_result \<Rightarrow> ni_result" where
  "sort_result r = r\<lparr>nr_fields := sorted_keys (nr_fields r)\<rparr>"

lemma sorted_key_cases [simp]:
  "sorted_keys j = JNull \<longleftrightarrow> j = JNull" "sorted_keys j = JStr s \<longleftrightarrow> j = JStr s"
  by (cases j; simp)+

lemma dict_field_sorted: "dict_field (map_option sorted_keys x) = map_sum id sorted_keys (dict_field x)"
  by (cases x rule: dict_field.cases) auto

lemma to_verdict_sorted: "to_verdict (sorted_keys j) = map_sum id sort_verdict (to_verdict j)"
proof (cases j)
  case (JObj kvs)
  then show ?thesis
    by (cases "dict_get kvs ''kind''"; cases "the (dict_get kvs ''kind'')"; cases "dict_field (dict_get kvs ''payload'')")
       (simp_all add: dict_get_sorted_fields dict_field_sorted sort_verdict_def)
qed simp_all

lemma to_result_sorted: "to_result (sorted_keys j) = map_sum id sort_result (to_result j)"
proof (cases j)
  case (JObj kvs)
  then show ?thesis
    by (cases "dict_get kvs ''artifact''"; cases "the (dict_get kvs ''artifact'')"; cases "dict_field (dict_get kvs ''fields'')")
       (simp_all add: dict_get_sorted_fields dict_field_sorted sort_result_def)
qed simp_all

section \<open>Replays\<close>

text \<open>An action that leaves the ruling's file to the shell.\<close>

definition act_leaves ::
  "('w \<Rightarrow> string \<Rightarrow> journal_file option) \<Rightarrow> (verdict \<Rightarrow> 'w \<Rightarrow> 'w \<times> 'x) \<Rightarrow> string \<Rightarrow> bool" where
  "act_leaves files act p \<longleftrightarrow> (\<forall>v w. files (fst (act v w)) p = files w p)"

context step_journal
begin

lemma act_keeps_ruling:
  assumes "act_leaves files act (artifact_path wh name (decide_key key))"
    "act_on digest wh name key phase inputs act cache raw st = (st', out)"
  shows "files (st_world st') (artifact_path wh name (decide_key key))
     = files (st_world st) (artifact_path wh name (decide_key key))"
proof (cases "to_verdict raw")
  case (Inr v)
  let ?sp = "act_step name key phase inputs raw (act v) cache"
  have "leaves files ?sp (artifact_path wh name (decide_key key))"
    using assms(1) by (simp add: leaves_def act_step_def act_leaves_def split_beta)
  from run_leaves [OF this, of digest st] decide_beside_act [of wh name key] assms(2) Inr show ?thesis
    by (auto simp: act_on_def step_paths split: prod.splits)
qed (use assms in \<open>simp add: act_on_def\<close>)

text \<open>A ruling once made is not made again.\<close>

lemma ruling_kept:
  assumes "run_step digest wh (decide_step name key phase inputs decide cache) st0 = (st1, Inr raw)"
    "files (st_world st) (artifact_path wh name (decide_key key))
       = files (st_world st1) (artifact_path wh name (decide_key key))"
    "sorted_keys inputs' = sorted_keys inputs"
  shows "\<exists>raw'. sorted_keys raw' = sorted_keys raw
     \<and> run_nonidempotent digest wh name key phase inputs' decide' act' True st
       = act_on digest wh name key phase inputs' act' True raw'
           (emit (StepSkipped (phase, name, decide_key key)) st)"
proof -
  let ?sp = "decide_step name key phase inputs' decide' True"
  have "\<exists>r. run_step digest wh ?sp st = (emit (StepSkipped (step_at ?sp)) st, Inr r) \<and> sorted_keys r = sorted_keys raw"
    by (rule runs_again [OF assms(1)])
       (use assms(2,3) in \<open>simp_all add: step_paths\<close>, simp_all add: decide_step_def)
  then show ?thesis
    by (auto simp: run_nonidempotent_def step_at_def decide_step_def)
qed

end

text \<open>
  C12: a capability that completed does not fire again: replaying it with equal inputs, as long
  as its two journal files are as it left them, makes neither the ruling nor the action again,
  changes nothing, and returns the same result.
\<close>

theorem replay_fires_nothing:
  assumes "step_journal wh files"
    and "run_nonidempotent digest wh name key phase inputs decide act cache st0 = (st1, Inr res)"
    and "act_leaves files act (artifact_path wh name (decide_key key))"
    and "\<forall>p \<in> {artifact_path wh name key, artifact_path wh name (decide_key key)}.
           files (st_world st) p = files (st_world st1) p"
    and "sorted_keys inputs' = sorted_keys inputs"
  shows "\<exists>res'. run_nonidempotent digest wh name key phase inputs' decide' act' True st
       = (emit (StepSkipped (phase, name, key)) (emit (StepSkipped (phase, name, decide_key key)) st), Inr res')
     \<and> sort_result res' = sort_result res"
proof -
  obtain sta raw where d: "run_step digest wh (decide_step name key phase inputs decide cache) st0 = (sta, Inr raw)"
      and a: "act_on digest wh name key phase inputs act cache raw sta = (st1, Inr res)"
    using assms(2) by (auto simp: run_nonidempotent_def split: prod.splits sum.splits)
  obtain v raw2 where v: "to_verdict raw = Inr v" and r: "to_result raw2 = Inr res"
      and run: "run_step digest wh (act_step name key phase inputs raw (act v) cache) sta = (st1, Inr raw2)"
    using a by (auto simp: act_on_def bindE_eq_Inr split: sum.splits prod.splits)
  let ?st = "emit (StepSkipped (phase, name, decide_key key)) st"
  obtain raw' where raw': "sorted_keys raw' = sorted_keys raw"
      and again: "run_nonidempotent digest wh name key phase inputs' decide' act' True st
        = act_on digest wh name key phase inputs' act' True raw' ?st"
    using step_journal.ruling_kept [OF assms(1) d _ assms(5), of st decide' act']
      step_journal.act_keeps_ruling [OF assms(1,3) a] assms(4) by auto
  have "map_sum id sort_verdict (to_verdict raw') = map_sum id sort_verdict (to_verdict raw)"
    using raw' by (metis to_verdict_sorted)
  with v obtain v' where v': "to_verdict raw' = Inr v'" by (cases "to_verdict raw'") auto
  let ?sp = "act_step name key phase inputs' raw' (act' v') True"
  have "\<exists>r. run_step digest wh ?sp ?st = (emit (StepSkipped (step_at ?sp)) ?st, Inr r)
      \<and> sorted_keys r = sorted_keys raw2"
    by (rule step_journal.runs_again [OF assms(1) run])
       (use assms(4,5) raw' in \<open>simp_all add: step_paths\<close>, simp_all add: act_step_def)
  then obtain r' where r': "run_step digest wh ?sp ?st = (emit (StepSkipped (phase, name, key)) ?st, Inr r')"
      "sorted_keys r' = sorted_keys raw2" by (auto simp: step_at_def act_step_def)
  have "map_sum id sort_result (to_result r') = map_sum id sort_result (to_result raw2)"
    using r'(2) by (metis to_result_sorted)
  with r obtain res' where "to_result r' = Inr res'" "sort_result res' = sort_result res"
    by (cases "to_result r'") auto
  with again v' r'(1) show ?thesis by (simp add: act_on_def)
qed

text \<open>
  when the action failed after the ruling was made, a new run never makes the ruling again:
  whatever \<open>decide\<close> would say now, the action runs on the ruling already journaled.
\<close>

theorem failed_action_reuses_ruling:
  assumes "step_journal wh files"
    and "run_step digest wh (decide_step name key phase inputs decide cache) st0 = (sta, Inr raw)"
    and "run_nonidempotent digest wh name key phase inputs decide act cache st0 = (st1, Inl e)"
    and "act_leaves files act (artifact_path wh name (decide_key key))"
    and "files (st_world st) (artifact_path wh name (decide_key key))
           = files (st_world st1) (artifact_path wh name (decide_key key))"
  shows "\<exists>raw'. sorted_keys raw' = sorted_keys raw
     \<and> map_sum id sort_verdict (to_verdict raw') = map_sum id sort_verdict (to_verdict raw)
     \<and> run_nonidempotent digest wh name key phase inputs decide' act' True st
       = act_on digest wh name key phase inputs act' True raw'
           (emit (StepSkipped (phase, name, decide_key key)) st)"
proof -
  have "act_on digest wh name key phase inputs act cache raw sta = (st1, Inl e)"
    using assms(2,3) by (simp add: run_nonidempotent_def)
  from step_journal.act_keeps_ruling [OF assms(1,4) this] assms(5)
    step_journal.ruling_kept [OF assms(1,2), of st inputs decide' act']
  show ?thesis by (metis to_verdict_sorted)
qed

definition rule_new :: "string option \<Rightarrow> disk \<Rightarrow> disk \<times> (step_exn + verdict)" where
  "rule_new fb w = (w, Inr \<lparr>vd_kind = ''new'', vd_payload = JObj []\<rparr>)"

definition send_mail :: "verdict \<Rightarrow> disk \<Rightarrow> disk \<times> (step_exn + ni_result)" where
  "send_mail v w = (w(''/sent'' := Some Garbled),
     Inr \<lparr>nr_fields = JObj [(''sent'', JBool (vd_kind v = ''new''))], nr_artifact = None\<rparr>)"

definition mail_down :: "verdict \<Rightarrow> disk \<Rightarrow> disk \<times> (step_exn + ni_result)" where
  "mail_down v w = (w, Inl (Raised ''ConnectionError''))"

abbreviation notify ::
  "(string option \<Rightarrow> disk \<Rightarrow> disk \<times> (step_exn + verdict)) \<Rightarrow> (verdict \<Rightarrow> disk \<Rightarrow> disk \<times> (step_exn + ni_result))
   \<Rightarrow> disk step_state \<Rightarrow> disk step_state \<times> (step_exn + ni_result)" where
  "notify decide act \<equiv> run_nonidempotent (\<lambda>t. t) (disk_handle '''') ''notify'' '''' ''commit'' JNull decide act True"

abbreviation blank :: "disk step_state" where
  "blank \<equiv> \<lparr>st_world = (\<lambda>_. None), st_events = []\<rparr>"

lemma disk_simps:
  "wf_exists (disk_handle d) w p = (w p \<noteq> None)"
  "wf_write_record (disk_handle d) w p j = Inr (w(p \<mapsto> Parsed (sorted_keys j)))"
  "wf_journal_dir (disk_handle d) = d"
  by (simp_all add: disk_handle_def)

lemma first_ruling:
  "\<exists>st raw. run_step (\<lambda>t. t) (disk_handle '''') (decide_step ''notify'' '''' ''commit'' JNull rule_new True) blank
     = (st, Inr raw) \<and> to_verdict raw = Inr \<lparr>vd_kind = ''new'', vd_payload = JObj []\<rparr>
     \<and> st_world st (artifact_path (disk_handle '''') ''notify'' '''') = None"
  by (simp add: run_step_def cached_result_def disk_simps step_loop.simps attempt_body_def verdict_on_def
      decide_step_def rule_new_def verdict_builtins_def step_path_def artifact_path_def journal_stem_def
      decide_key_def)

lemma fresh_act:
  assumes "st_world st (artifact_path (disk_handle d) name key) = None"
  shows "snd (run_step digest (disk_handle d) (act_step name key phase inputs raw act cache) st)
     = bindE (snd (act (st_world st))) (\<lambda>r. Inr (result_builtins r))"
  using assms
  by (cases "act (st_world st)"; cases "snd (act (st_world st))"; cases "projl (snd (act (st_world st)))")
     (simp_all add: run_step_def cached_result_def disk_simps step_paths,
      simp_all add: act_step_def disk_simps step_loop.simps attempt_body_def verdict_on_def)

lemma notified:
  "snd (notify rule_new act blank)
     = bindE (snd (act \<lparr>vd_kind = ''new'', vd_payload = JObj []\<rparr> (st_world (fst (run_step (\<lambda>t. t) (disk_handle '''')
         (decide_step ''notify'' '''' ''commit'' JNull rule_new True) blank))))) (\<lambda>r. to_result (result_builtins r))"
proof -
  obtain st raw where r: "run_step (\<lambda>t. t) (disk_handle '''') (decide_step ''notify'' '''' ''commit'' JNull rule_new True) blank
      = (st, Inr raw)" "to_verdict raw = Inr \<lparr>vd_kind = ''new'', vd_payload = JObj []\<rparr>"
      "st_world st (artifact_path (disk_handle '''') ''notify'' '''') = None"
    using first_ruling by blast
  let ?out = "snd (act \<lparr>vd_kind = ''new'', vd_payload = JObj []\<rparr> (st_world st))"
  from fresh_act [OF r(3), of "\<lambda>t. t" "''commit''" JNull raw "act \<lparr>vd_kind = ''new'', vd_payload = JObj []\<rparr>" True] r
  show ?thesis
    by (cases ?out) (auto simp: run_nonidempotent_def act_on_def split: prod.splits)
qed

lemma first_notice: "\<exists>st res. notify rule_new send_mail blank = (st, Inr res)"
  using notified [of send_mail] by (cases "notify rule_new send_mail blank") (simp add: send_mail_def result_builtins_def)

lemma failed_notice: "\<exists>st. notify rule_new mail_down blank = (st, Inl (Raised ''ConnectionError''))"
  using notified [of mail_down] by (cases "notify rule_new mail_down blank") (simp add: mail_down_def)

theorem replay_fires_nothing_witness:
  "\<exists>st' r. notify (\<lambda>fb w. (w, Inl (Raised ''again''))) mail_down (fst (notify rule_new send_mail blank)) = (st', Inr r)"
proof -
  have l: "act_leaves (\<lambda>w. w) send_mail (artifact_path (disk_handle '''') ''notify'' (decide_key ''''))"
    by (simp add: act_leaves_def send_mail_def artifact_path_def journal_stem_def disk_handle_def)
  obtain st1 res where run: "notify rule_new send_mail blank = (st1, Inr res)"
    using first_notice by blast
  from replay_fires_nothing [OF disk.step_journal_axioms run l, of st1 JNull] run show ?thesis by fastforce
qed

theorem failed_action_reuses_ruling_witness:
  "\<exists>raw st. sorted_keys raw = sorted_keys (verdict_builtins \<lparr>vd_kind = ''new'', vd_payload = JObj []\<rparr>)
     \<and> notify (\<lambda>fb w. (w, Inl (Raised ''again''))) send_mail (fst (notify rule_new mail_down blank))
       = act_on (\<lambda>t. t) (disk_handle '''') ''notify'' '''' ''commit'' JNull send_mail True raw st"
proof -
  have l: "act_leaves (\<lambda>w. w) mail_down (artifact_path (disk_handle '''') ''notify'' (decide_key ''''))"
    by (simp add: act_leaves_def mail_down_def)
  obtain st1 where run: "notify rule_new mail_down blank = (st1, Inl (Raised ''ConnectionError''))"
    using failed_notice by blast
  have "\<exists>st. run_step (\<lambda>t. t) (disk_handle '''') (decide_step ''notify'' '''' ''commit'' JNull rule_new True) blank
      = (st, Inr (verdict_builtins \<lparr>vd_kind = ''new'', vd_payload = JObj []\<rparr>))"
    by (simp add: run_step_def cached_result_def disk_simps step_loop.simps attempt_body_def verdict_on_def
        decide_step_def rule_new_def)
  then obtain st where d: "run_step (\<lambda>t. t) (disk_handle '''') (decide_step ''notify'' '''' ''commit'' JNull rule_new True) blank
      = (st, Inr (verdict_builtins \<lparr>vd_kind = ''new'', vd_payload = JObj []\<rparr>))" by blast
  from failed_action_reuses_ruling [OF disk.step_journal_axioms d run l refl,
      of "\<lambda>fb w. (w, Inl (Raised ''again''))" send_mail] run
  show ?thesis by fastforce
qed

end
