(* ===== verification/Calendar.thy ===== *)
theory Calendar
  imports WsPrelude
begin

text \<open>
  The dates and wall clocks the schedules use of Python's \<open>datetime\<close>: proleptic Gregorian dates,
  their ordinals, adding days and times, weekdays and ISO weeks.  A moment is naive, as in the
  code; its time of day is in microseconds.

  The lemmas show that ordinals count days and tell dates apart, so that adding time to a moment
  adds it to its distance from the epoch.
\<close>

section \<open>Dates\<close>

type_synonym date = "int \<times> int \<times> int"

definition is_leap :: "int \<Rightarrow> bool" where
  "is_leap y \<longleftrightarrow> y mod 4 = 0 \<and> (y mod 100 \<noteq> 0 \<or> y mod 400 = 0)"

definition days_in_month :: "int \<Rightarrow> int \<Rightarrow> int" where
  "days_in_month y m = (if m = 2 then if is_leap y then 29 else 28 else if m \<in> {4, 6, 9, 11} then 30 else 31)"

fun valid_date :: "date \<Rightarrow> bool" where
  "valid_date (y, m, d) \<longleftrightarrow> 1 \<le> m \<and> m \<le> 12 \<and> 1 \<le> d \<and> d \<le> days_in_month y m"

definition days_before_year :: "int \<Rightarrow> int" where
  "days_before_year y = (y - 1) * 365 + (y - 1) div 4 - (y - 1) div 100 + (y - 1) div 400"

definition DAYS_BEFORE_MONTH :: "int list" where
  "DAYS_BEFORE_MONTH = [0, 31, 59, 90, 120, 151, 181, 212, 243, 273, 304, 334]"

definition days_before_month :: "int \<Rightarrow> int \<Rightarrow> int" where
  "days_before_month y m = DAYS_BEFORE_MONTH ! nat (m - 1) + (if 2 < m \<and> is_leap y then 1 else 0)"

fun ordinal :: "date \<Rightarrow> int" where
  "ordinal (y, m, d) = days_before_year y + days_before_month y m + d"

fun next_day :: "date \<Rightarrow> date" where
  "next_day (y, m, d) =
     (if d < days_in_month y m then (y, m, d + 1) else if m < 12 then (y, m + 1, 1) else (y + 1, 1, 1))"

fun prev_day :: "date \<Rightarrow> date" where
  "prev_day (y, m, d) =
     (if 1 < d then (y, m, d - 1) else if 1 < m then (y, m - 1, days_in_month y (m - 1)) else (y - 1, 12, 31))"

definition add_days :: "int \<Rightarrow> date \<Rightarrow> date" where
  "add_days k t = (if 0 \<le> k then (next_day ^^ nat k) t else (prev_day ^^ nat (- k)) t)"

text \<open>\<open>isoweekday()\<close>, 1 for Monday; the year and week \<open>isocalendar()\<close> gives, those of the Thursday.\<close>

definition iso_weekday :: "date \<Rightarrow> int" where
  "iso_weekday t = (ordinal t - 1) mod 7 + 1"

definition iso_week :: "date \<Rightarrow> int \<times> int" where
  "iso_week t =
     (let thursday = add_days (4 - iso_weekday t) t; y = fst thursday
      in (y, (ordinal thursday - ordinal (y, 1, 1)) div 7 + 1))"

section \<open>Moments\<close>

record moment =
  mo_date :: date
  mo_us :: int

definition DAY_US :: int where
  "DAY_US = 86400000000"

definition HOUR_US :: int where
  "HOUR_US = 3600000000"

definition MINUTE_US :: int where
  "MINUTE_US = 60000000"

definition valid_moment :: "moment \<Rightarrow> bool" where
  "valid_moment t \<longleftrightarrow> valid_date (mo_date t) \<and> 0 \<le> mo_us t \<and> mo_us t < DAY_US"

text \<open>The microseconds since the epoch; the order of valid moments.\<close>

definition stamp :: "moment \<Rightarrow> int" where
  "stamp t = ordinal (mo_date t) * DAY_US + mo_us t"

text \<open>\<open>t + timedelta(microseconds=k)\<close>.\<close>

definition shift :: "int \<Rightarrow> moment \<Rightarrow> moment" where
  "shift k t = \<lparr>mo_date = add_days ((mo_us t + k) div DAY_US) (mo_date t), mo_us = (mo_us t + k) mod DAY_US\<rparr>"

definition mo_hour :: "moment \<Rightarrow> int" where
  "mo_hour t = mo_us t div HOUR_US"

definition mo_minute :: "moment \<Rightarrow> int" where
  "mo_minute t = mo_us t mod HOUR_US div MINUTE_US"

section \<open>Ordinals count days\<close>

lemma month_cases: "1 \<le> m \<Longrightarrow> m \<le> 12 \<Longrightarrow> m \<in> {1, 2, 3, 4, 5, 6, 7, 8, 9, 10, 11, 12 :: int}"
  unfolding insert_iff empty_iff by presburger

lemma days_in_month_bounds: "28 \<le> days_in_month y m \<and> days_in_month y m \<le> 31"
  by (simp add: days_in_month_def)

lemma next_month: "1 \<le> m \<Longrightarrow> m < 12 \<Longrightarrow> days_before_month y (m + 1) = days_before_month y m + days_in_month y m"
  using month_cases [of m] by (auto simp: days_before_month_def DAYS_BEFORE_MONTH_def days_in_month_def)

lemma last_month: "days_before_month y 12 + 31 = (if is_leap y then 366 else 365)" "days_before_month y 1 = 0"
  by (simp_all add: days_before_month_def DAYS_BEFORE_MONTH_def)

lemma div_step: "0 < k \<Longrightarrow> (y :: int) div k = (y - 1) div k + (if y mod k = 0 then 1 else 0)"
proof -
  assume k: "0 < k"
  have y: "y = k * (y div k) + y mod k" by simp
  show ?thesis
  proof (cases "y mod k = 0")
    case True
    then have "y - 1 = k * (y div k - 1) + (k - 1)" using y by (simp add: algebra_simps)
    then have "(y - 1) div k = y div k - 1" using k by (intro int_div_pos_eq [where r = "k - 1"]) auto
    then show ?thesis using True by simp
  next
    case False
    then have "0 < y mod k" "y mod k < k" using k pos_mod_sign [of k y] pos_mod_bound [of k y] by linarith+
    then have "(y - 1) div k = y div k" using y by (intro int_div_pos_eq [where r = "y mod k - 1"]) auto
    then show ?thesis using False by simp
  qed
qed

lemma one_year_more:
  "(a :: int) = a' + i \<Longrightarrow> b = b' + j \<Longrightarrow> c = c' + k \<Longrightarrow> y * 365 + a - b + c = (y - 1) * 365 + a' - b' + c' + 365 + i - j + k"
  by simp

lemma next_year: "days_before_year (y + 1) = days_before_year y + (if is_leap y then 366 else 365)"
proof -
  let ?l = "\<lambda>k. if y mod k = 0 then 1 else 0 :: int"
  have n: "y mod 400 = 0 \<Longrightarrow> y mod 100 = 0" "y mod 100 = 0 \<Longrightarrow> y mod 4 = 0"
    using dvd_trans [of 100 400 y] dvd_trans [of 4 100 y] by (simp_all add: mod_eq_0_iff_dvd)
  have "days_before_year (y + 1) = days_before_year y + 365 + ?l 4 - ?l 100 + ?l 400"
    unfolding days_before_year_def add_diff_cancel_right' by (rule one_year_more) (rule div_step; simp)+
  moreover have "?l 4 - ?l 100 + ?l 400 = (if is_leap y then 1 else 0)"
    using n by (cases "y mod 400 = 0"; cases "y mod 100 = 0"; cases "y mod 4 = 0") (simp_all add: is_leap_def)
  ultimately show ?thesis by (simp split: if_splits)
qed

lemma next_day_valid: "valid_date t \<Longrightarrow> valid_date (next_day t) \<and> ordinal (next_day t) = ordinal t + 1"
proof (cases t)
  case (fields y m d)
  assume v: "valid_date t"
  have b: "28 \<le> days_in_month y' m'" for y' m' using days_in_month_bounds by blast
  consider "d < days_in_month y m" | "d = days_in_month y m" "m < 12" | "d = days_in_month y m" "m = 12"
    using v fields by fastforce
  then show ?thesis
  proof cases
    case 2
    then show ?thesis using v fields b [of y "m + 1"] next_month [of m y] by simp
  next
    case 3
    then show ?thesis using v fields b [of "y + 1" 1] next_year [of y] last_month [of y] last_month(2) [of "y + 1"]
      by (simp add: days_in_month_def)
  qed (use v fields in simp)
qed

lemma prev_next_day: "valid_date t \<Longrightarrow> prev_day (next_day t) = t"
  by (cases t) (auto simp: days_in_month_def)

lemma prev_day_valid: "valid_date t \<Longrightarrow> valid_date (prev_day t) \<and> ordinal (prev_day t) = ordinal t - 1"
proof (cases t)
  case (fields y m d)
  assume v: "valid_date t"
  have b: "28 \<le> days_in_month y' m'" for y' m' using days_in_month_bounds by blast
  consider "1 < d" | "d = 1" "1 < m" | "d = 1" "m = 1" using v fields by fastforce
  then show ?thesis
  proof cases
    case 1
    then show ?thesis using v fields by simp
  next
    case 2
    then show ?thesis using v fields b [of y "m - 1"] next_month [of "m - 1" y] by simp
  next
    case 3
    then show ?thesis using v fields next_year [of "y - 1"] last_month [of "y - 1"] last_month(2) [of y]
      by (simp add: days_in_month_def)
  qed
qed

lemma add_days_valid: "valid_date t \<Longrightarrow> valid_date (add_days k t) \<and> ordinal (add_days k t) = ordinal t + k"
proof -
  assume v: "valid_date t"
  have "valid_date ((next_day ^^ n) t) \<and> ordinal ((next_day ^^ n) t) = ordinal t + int n" for n
    by (induction n) (auto simp: v next_day_valid)
  moreover have "valid_date ((prev_day ^^ n) t) \<and> ordinal ((prev_day ^^ n) t) = ordinal t - int n" for n
    by (induction n) (auto simp: v prev_day_valid)
  ultimately show ?thesis by (simp add: add_days_def)
qed

section \<open>Ordinals tell dates apart\<close>

lemma years_apart: "y < y' \<Longrightarrow> days_before_year (y + 1) \<le> days_before_year y'"
proof (induction "nat (y' - y)" arbitrary: y')
  case (Suc n)
  show ?case
  proof (cases "y' = y + 1")
    case False
    then have "days_before_year (y + 1) \<le> days_before_year (y' - 1)" using Suc by (intro Suc.hyps(1)) auto
    also have "\<dots> \<le> days_before_year y'" using next_year [of "y' - 1"] by (simp split: if_splits)
    finally show ?thesis .
  qed simp
qed simp

lemma months_apart: "1 \<le> m \<Longrightarrow> m < m' \<Longrightarrow> m' \<le> 12 \<Longrightarrow> days_before_month y m + days_in_month y m \<le> days_before_month y m'"
proof (induction "nat (m' - m)" arbitrary: m')
  case (Suc n)
  show ?case
  proof (cases "m' = m + 1")
    case True
    then show ?thesis using next_month [of m y] Suc.prems by simp
  next
    case False
    then have "days_before_month y m + days_in_month y m \<le> days_before_month y (m' - 1)" using Suc by (intro Suc.hyps(1)) auto
    also have "\<dots> \<le> days_before_month y m'"
      using next_month [of "m' - 1" y] days_in_month_bounds [of y "m' - 1"] Suc.prems False by simp
    finally show ?thesis .
  qed
qed simp

lemma day_of_year:
  assumes "valid_date (y, m, d)"
  shows "0 < days_before_month y m + d \<and> days_before_year y + days_before_month y m + d \<le> days_before_year (y + 1)"
proof -
  have m: "1 \<le> m" "m \<le> 12" "1 \<le> d" "d \<le> days_in_month y m" using assms by simp_all
  have "0 \<le> days_before_month y m"
    using months_apart [of 1 m y] last_month(2) [of y] days_in_month_bounds [of y 1] m by (cases "m = 1") auto
  moreover have "days_before_month y m + days_in_month y m \<le> days_before_month y 12 + 31"
    using months_apart [of m 12 y] m by (cases "m = 12") (auto simp: days_in_month_def)
  ultimately show ?thesis using m next_year [of y] last_month(1) [of y] by (simp split: if_splits)
qed

lemma ordinal_inj:
  assumes "valid_date s" "valid_date t" "ordinal s = ordinal t"
  shows "s = t"
proof -
  obtain y m d where s: "s = (y, m, d)" by (cases s)
  obtain y' m' d' where t: "t = (y', m', d')" by (cases t)
  have y: "y = y'"
    using day_of_year [of y m d] day_of_year [of y' m' d'] years_apart [of y y'] years_apart [of y' y] assms
    unfolding s t ordinal.simps by linarith
  have "m = m'"
    using months_apart [of m m' y] months_apart [of m' m y] assms unfolding s t ordinal.simps valid_date.simps y by linarith
  then show ?thesis using assms(3) by (simp add: s t y)
qed

lemma add_days_unique: "valid_date s \<Longrightarrow> valid_date t \<Longrightarrow> ordinal t = ordinal s + k \<Longrightarrow> add_days k s = t"
  using add_days_valid [of s k] by (intro ordinal_inj) auto

lemma shift_stamp:
  assumes "valid_moment t"
  shows "valid_moment (shift k t) \<and> stamp (shift k t) = stamp t + k"
proof -
  have "(mo_us t + k) div DAY_US * DAY_US + (mo_us t + k) mod DAY_US = mo_us t + k" by simp
  moreover have "0 < DAY_US" by (simp add: DAY_US_def)
  ultimately show ?thesis
    using assms add_days_valid [of "mo_date t" "(mo_us t + k) div DAY_US"]
    by (simp add: valid_moment_def stamp_def shift_def distrib_right)
qed

lemma stamp_date: "valid_moment t \<Longrightarrow> stamp t div DAY_US = ordinal (mo_date t) \<and> stamp t mod DAY_US = mo_us t"
  by (simp add: stamp_def valid_moment_def)

lemma stamp_inj: "valid_moment s \<Longrightarrow> valid_moment t \<Longrightarrow> stamp s = stamp t \<Longrightarrow> s = t"
  using stamp_date [of s] stamp_date [of t] ordinal_inj [of "mo_date s" "mo_date t"]
  by (cases s; cases t) (auto simp: valid_moment_def)

end
