(* ===== verification/Schedules.thy ===== *)
theory Schedules
  imports Calendar DslTemplate StepJournal
begin

text \<open>
  When a recurring trigger fires: the schedules of \<open>workflow/triggers.py\<close>, their validation, the
  period a moment belongs to (\<open>window_key\<close>, \<open>fire_window\<close>), the moment within it the schedule
  aims at (\<open>period_target\<close>), and the two rules the sweep and the pages read, \<open>is_due\<close> and
  \<open>next_run\<close>.

  Moments are naive local ones.  The cron expressions are followed by the croniter package: its
  \<open>get_prev\<close> and \<open>get_next\<close> are the arguments \<open>cron\<close>.  Whether a zone name is known is the argument
  \<open>zone_ok\<close>.

  The lemmas number the periods of each kind of schedule, and show that a period's key names it
  and its target lies in it.
\<close>

section \<open>Schedules\<close>

record schedule =
  sc_every :: string
  sc_at :: string
  sc_dow :: string
  sc_dom :: int
  sc_tz :: string

definition DOW :: "string list" where
  "DOW = [''mon'', ''tue'', ''wed'', ''thu'', ''fri'', ''sat'', ''sun'']"

definition EVERY :: "string list" where
  "EVERY = [''daily'', ''weekly'', ''monthly'']"

record cron =
  cr_prev :: "string \<Rightarrow> moment \<Rightarrow> moment"
  cr_next :: "string \<Rightarrow> moment \<Rightarrow> moment"

definition all_digits :: "string \<Rightarrow> bool" where
  "all_digits s \<longleftrightarrow> s \<noteq> [] \<and> list_all digit_char s"

definition valid_hhmm :: "string \<Rightarrow> bool" where
  "valid_hhmm s =
     (case split_on (CHR '':'') s of
        [h, m] \<Rightarrow> all_digits h \<and> all_digits m \<and> digits_value h \<le> 23 \<and> digits_value m \<le> 59
      | _ \<Rightarrow> False)"

datatype schedule_problem =
  BadEvery | BadAt string | BadZone string | DailyTakesAtOnly | WeeklyNeedsDow | WeeklyTakesDow
| MonthlyTakesDom | BadDom int | HintClamps int

definition validate_schedule :: "(string \<Rightarrow> bool) \<Rightarrow> schedule \<Rightarrow> schedule_problem list" where
  "validate_schedule zone_ok s =
     (if sc_every s \<in> set EVERY then [] else [BadEvery])
     @ (if valid_hhmm (sc_at s) then [] else [BadAt (sc_at s)])
     @ (if sc_tz s \<noteq> [] \<and> \<not> zone_ok (sc_tz s) then [BadZone (sc_tz s)] else [])
     @ (if sc_every s = ''daily'' then (if sc_dow s \<noteq> [] \<or> sc_dom s \<noteq> 0 then [DailyTakesAtOnly] else [])
        else if sc_every s = ''weekly''
        then (if sc_dow s \<in> set DOW then [] else [WeeklyNeedsDow]) @ (if sc_dom s \<noteq> 0 then [WeeklyTakesDow] else [])
        else if sc_every s = ''monthly''
        then (if sc_dow s \<noteq> [] then [MonthlyTakesDom] else [])
             @ (if sc_dom s \<noteq> 0 \<and> \<not> (1 \<le> sc_dom s \<and> sc_dom s \<le> 31) then [BadDom (sc_dom s)]
                else if 28 < sc_dom s then [HintClamps (sc_dom s)] else [])
        else [])"

definition is_hint :: "schedule_problem \<Rightarrow> bool" where
  "is_hint p = (case p of HintClamps d \<Rightarrow> True | _ \<Rightarrow> False)"

text \<open>A schedule the loader keeps: hints are advice.\<close>

definition schedule_ok :: "(string \<Rightarrow> bool) \<Rightarrow> schedule \<Rightarrow> bool" where
  "schedule_ok zone_ok s \<longleftrightarrow> list_all is_hint (validate_schedule zone_ok s)"

section \<open>Periods\<close>

text \<open>A number with at least \<open>w\<close> digits.\<close>

definition padded :: "nat \<Rightarrow> int \<Rightarrow> string" where
  "padded w n = replicate (w - length (dec (nat n))) (CHR ''0'') @ dec (nat n)"

definition day_text :: "date \<Rightarrow> string" where
  "day_text t = padded 4 (fst t) @ ''-'' @ padded 2 (fst (snd t)) @ ''-'' @ padded 2 (snd (snd t))"

definition MINUTES_PREFIX :: string where
  "MINUTES_PREFIX = ''minutes:''"

text \<open>The width of \<open>minutes:N\<close>, one when it is no positive number.\<close>

definition minutes_width :: "string \<Rightarrow> int" where
  "minutes_width every =
     (let width = drop (length MINUTES_PREFIX) every
      in if all_digits width \<and> 0 < digits_value width then int (digits_value width) else 1)"

definition window_key :: "string \<Rightarrow> moment \<Rightarrow> string" where
  "window_key every now =
     (if every = ''weekly'' then (case iso_week (mo_date now) of (y, w) \<Rightarrow> dec (nat y) @ ''-W'' @ padded 2 w)
      else if every = ''monthly'' then padded 4 (fst (mo_date now)) @ ''-'' @ padded 2 (fst (snd (mo_date now)))
      else if every = ''hourly'' then day_text (mo_date now) @ ''T'' @ padded 2 (mo_hour now)
      else if starts_with MINUTES_PREFIX every
      then day_text (mo_date now) @ ''T'' @ padded 2 (mo_hour now) @ '':''
             @ padded 2 (mo_minute now div minutes_width every * minutes_width every)
      else day_text (mo_date now))"

definition CRON_PREFIX :: string where
  "CRON_PREFIX = ''cron:''"

definition cron_expr :: "string \<Rightarrow> string option" where
  "cron_expr every = (if starts_with CRON_PREFIX every then Some (drop (length CRON_PREFIX) every) else None)"

definition start_of_minute :: "moment \<Rightarrow> moment" where
  "start_of_minute t = t\<lparr>mo_us := mo_us t div MINUTE_US * MINUTE_US\<rparr>"

definition cron_last :: "cron \<Rightarrow> string \<Rightarrow> moment \<Rightarrow> moment" where
  "cron_last cron expr now = cr_prev cron expr (shift MINUTE_US (start_of_minute now))"

definition minute_text :: "moment \<Rightarrow> string" where
  "minute_text t = day_text (mo_date t) @ ''T'' @ padded 2 (mo_hour t) @ '':'' @ padded 2 (mo_minute t)"

definition fire_window :: "cron \<Rightarrow> schedule \<Rightarrow> moment \<Rightarrow> string" where
  "fire_window cron s now =
     (case cron_expr (sc_every s) of
        Some expr \<Rightarrow> CRON_PREFIX @ minute_text (cron_last cron expr now)
      | None \<Rightarrow> window_key (sc_every s) now)"

section \<open>Targets\<close>

definition value_error :: "step_exn + 'a" where
  "value_error = Inl (Raised ''ValueError'')"

definition read_int :: "string \<Rightarrow> step_exn + int" where
  "read_int s = (if all_digits s then Inr (int (digits_value s)) else value_error)"

definition clock :: "string \<Rightarrow> step_exn + (int \<times> int)" where
  "clock s =
     (case split_on (CHR '':'') s of
        [h, m] \<Rightarrow> bindE (read_int h) (\<lambda>hh. bindE (read_int m) (\<lambda>mm. Inr (hh, mm)))
      | _ \<Rightarrow> value_error)"

text \<open>\<open>datetime(y, m, d, hh, mm)\<close>.\<close>

definition at_time :: "date \<Rightarrow> int \<Rightarrow> int \<Rightarrow> step_exn + moment" where
  "at_time t hh mm =
     (if valid_date t \<and> 0 \<le> hh \<and> hh \<le> 23 \<and> 0 \<le> mm \<and> mm \<le> 59
      then Inr \<lparr>mo_date = t, mo_us = hh * HOUR_US + mm * MINUTE_US\<rparr> else value_error)"

fun index_of :: "string \<Rightarrow> string list \<Rightarrow> nat option" where
  "index_of x [] = None"
| "index_of x (y # ys) = (if x = y then Some 0 else map_option Suc (index_of x ys))"

definition bucket_start :: "string \<Rightarrow> moment \<Rightarrow> moment" where
  "bucket_start every now =
     (if every = ''hourly'' then now\<lparr>mo_us := mo_hour now * HOUR_US\<rparr>
      else now\<lparr>mo_us := mo_hour now * HOUR_US + mo_minute now div minutes_width every * minutes_width every * MINUTE_US\<rparr>)"

definition period_target :: "cron \<Rightarrow> schedule \<Rightarrow> moment \<Rightarrow> step_exn + moment" where
  "period_target cron s now =
     (case cron_expr (sc_every s) of
        Some expr \<Rightarrow> Inr (cron_last cron expr now)
      | None \<Rightarrow>
          bindE (clock (sc_at s)) (\<lambda>(hh, mm).
            if sc_every s = ''weekly''
            then (case index_of (sc_dow s) DOW of
                    Some i \<Rightarrow> at_time (add_days (int i + 1 - iso_weekday (mo_date now)) (mo_date now)) hh mm
                  | None \<Rightarrow> value_error)
            else if sc_every s = ''monthly''
            then (case mo_date now of (y, m, d) \<Rightarrow>
                    at_time (y, m, min (if sc_dom s = 0 then 1 else sc_dom s) (days_in_month y m)) hh mm)
            else if sc_every s = ''hourly'' \<or> starts_with MINUTES_PREFIX (sc_every s) then Inr (bucket_start (sc_every s) now)
            else at_time (mo_date now) hh mm))"

definition is_due :: "cron \<Rightarrow> schedule \<Rightarrow> moment \<Rightarrow> string \<Rightarrow> step_exn + bool" where
  "is_due cron s now last_window =
     bindE (period_target cron s now) (\<lambda>target. Inr (stamp target \<le> stamp now \<and> last_window \<noteq> fire_window cron s now))"

text \<open>\<open>now.replace(day=1)\<close>, 32 days on, and back to the first, at midnight.\<close>

definition first_of_next_month :: "moment \<Rightarrow> moment" where
  "first_of_next_month now =
     (case mo_date now of (y, m, d) \<Rightarrow>
        (case add_days 32 (y, m, 1) of (y', m', d') \<Rightarrow> \<lparr>mo_date = (y', m', 1), mo_us = 0\<rparr>))"

definition next_period :: "cron \<Rightarrow> schedule \<Rightarrow> moment \<Rightarrow> moment" where
  "next_period cron s now =
     (case cron_expr (sc_every s) of
        Some expr \<Rightarrow> cr_next cron expr now
      | None \<Rightarrow>
          if sc_every s = ''hourly'' then shift HOUR_US (bucket_start (sc_every s) now)
          else if starts_with MINUTES_PREFIX (sc_every s)
          then shift (minutes_width (sc_every s) * MINUTE_US) (bucket_start (sc_every s) now)
          else if sc_every s = ''weekly'' then shift (7 * DAY_US) now
          else if sc_every s = ''monthly'' then first_of_next_month now
          else shift DAY_US now)"

definition next_run :: "cron \<Rightarrow> schedule \<Rightarrow> moment \<Rightarrow> string \<Rightarrow> step_exn + moment option" where
  "next_run cron s now last_window =
     bindE (period_target cron s now) (\<lambda>target.
       if stamp now < stamp target then Inr (Some target)
       else if last_window \<noteq> fire_window cron s now then Inr None
       else bindE (period_target cron s (next_period cron s now)) (\<lambda>t. Inr (Some t)))"

section \<open>Reading keys back\<close>

lemma digits_value_zeros: "digits_value (replicate k (CHR ''0'') @ xs) = digits_value xs"
  by (induction k) (simp_all add: digits_value_def)

lemma padded_value [simp]: "0 \<le> n \<Longrightarrow> digits_value (padded w n) = nat n"
  by (simp add: padded_def digits_value_zeros digits_value_dec)

lemma padded_digits: "c \<in> set (padded w n) \<Longrightarrow> digit_char c"
  using dec_digits [of "nat n"] by (auto simp: padded_def digit_char_def)

lemma padded_inj [simp]: "0 \<le> m \<Longrightarrow> 0 \<le> n \<Longrightarrow> padded w m = padded w n \<longleftrightarrow> m = n"
  by (metis padded_value nat_eq_iff2)

lemma padded_sep:
  assumes "\<not> digit_char c" "0 \<le> m" "0 \<le> n"
  shows "padded w m @ c # xs = padded w n @ c # ys \<longleftrightarrow> m = n \<and> xs = ys"
proof
  assume eq: "padded w m @ c # xs = padded w n @ c # ys"
  have "takeWhile digit_char (padded w k @ c # zs) = padded w k" for k zs
    using assms(1) by (simp add: takeWhile_append2 padded_digits)
  then show "m = n \<and> xs = ys" using eq padded_inj [OF assms(2,3), of w] by (metis append_same_eq same_append_eq list.inject)
qed simp

lemma separators [simp]: "\<not> digit_char (CHR ''-'')" "\<not> digit_char (CHR '':'')" "\<not> digit_char (CHR ''T'')"
  by (simp_all add: digit_char_def)

lemma fst_ordinal: "valid_date t \<Longrightarrow> 1 \<le> fst t \<longleftrightarrow> 1 \<le> ordinal t"
proof (cases t)
  case (fields y m d)
  assume v: "valid_date t"
  have "days_before_year 1 = 0" by (simp add: days_before_year_def)
  then have "if y < 1 then days_before_year (y + 1) \<le> 0 else 0 \<le> days_before_year y"
    using years_apart [of y 1] years_apart [of 0 y] by simp
  moreover have "0 < days_before_month y m + d" "ordinal t \<le> days_before_year (y + 1)"
    using day_of_year [of y m d] v fields by simp_all
  ultimately show ?thesis by (simp add: fields split: if_splits)
qed

text \<open>A moment Python can hold, from year 1 on.\<close>

definition dated :: "moment \<Rightarrow> bool" where
  "dated t \<longleftrightarrow> valid_moment t \<and> 1 \<le> fst (mo_date t)"

lemma dated_valid: "dated t \<Longrightarrow> valid_date (mo_date t) \<and> 0 \<le> mo_us t \<and> mo_us t < DAY_US \<and> 1 \<le> ordinal (mo_date t)"
  using fst_ordinal [of "mo_date t"] by (simp add: dated_def valid_moment_def)

lemma datedI: "valid_date d \<Longrightarrow> 1 \<le> ordinal d \<Longrightarrow> 0 \<le> u \<Longrightarrow> u < DAY_US \<Longrightarrow> dated \<lparr>mo_date = d, mo_us = u\<rparr>"
  by (simp add: dated_def valid_moment_def fst_ordinal)

lemma dated_shift:
  assumes "dated t" "0 \<le> k"
  shows "dated (shift k t) \<and> stamp (shift k t) = stamp t + k"
proof -
  have v: "valid_moment t" using assms by (simp add: dated_def)
  note s = shift_stamp [OF v, of k]
  have "stamp t div DAY_US \<le> stamp (shift k t) div DAY_US"
    using s assms by (intro zdiv_mono1) (simp_all add: DAY_US_def)
  then have "1 \<le> ordinal (mo_date (shift k t))"
    using stamp_date [OF v] stamp_date [OF conjunct1 [OF s]] dated_valid [OF assms(1)] by linarith
  then show ?thesis using s fst_ordinal by (simp add: dated_def valid_moment_def)
qed

lemma dated_date: "dated t \<Longrightarrow> stamp t div DAY_US = ordinal (mo_date t) \<and> stamp t mod DAY_US = mo_us t"
  by (simp add: stamp_date dated_def)

lemma ordinal_mono: "dated s \<Longrightarrow> dated t \<Longrightarrow> stamp s \<le> stamp t \<Longrightarrow> ordinal (mo_date s) \<le> ordinal (mo_date t)"
  using dated_date [of s] dated_date [of t] zdiv_mono1 [of "stamp s" "stamp t" DAY_US] by (simp add: DAY_US_def)

lemma date_fields: "valid_date t \<Longrightarrow> 1 \<le> fst (snd t) \<and> fst (snd t) \<le> 12 \<and> 1 \<le> snd (snd t)"
  by (cases t) simp

lemma day_text_sep:
  assumes "dated s" "dated t"
  shows "day_text (mo_date s) @ CHR ''T'' # xs = day_text (mo_date t) @ CHR ''T'' # ys \<longleftrightarrow> mo_date s = mo_date t \<and> xs = ys"
  using date_fields [of "mo_date s"] date_fields [of "mo_date t"] assms
  by (auto simp: day_text_def padded_sep dated_def valid_moment_def prod_eq_iff)

lemma day_text_inj:
  assumes "dated s" "dated t"
  shows "day_text (mo_date s) = day_text (mo_date t) \<longleftrightarrow> ordinal (mo_date s) = ordinal (mo_date t)"
  using day_text_sep [OF assms, of "[]" "[]"] dated_valid [OF assms(1)] dated_valid [OF assms(2)]
    ordinal_inj [of "mo_date s" "mo_date t"] by auto

section \<open>Sub-daily buckets\<close>

definition bucket_width :: "string \<Rightarrow> int" where
  "bucket_width every = (if every = ''hourly'' then HOUR_US else minutes_width every * MINUTE_US)"

definition divides_hour :: "string \<Rightarrow> bool" where
  "divides_hour every \<longleftrightarrow> every = ''hourly'' \<or> starts_with MINUTES_PREFIX every \<and> minutes_width every dvd 60"

lemma minutes_width_pos: "0 < minutes_width every"
  by (simp add: minutes_width_def Let_def)

lemma div_mult_below: "0 < w \<Longrightarrow> (x :: int) div w * w \<le> x"
  using pos_mod_sign [of w x] div_mult_mod_eq [of x w] by linarith

lemma div_within:
  fixes u q w :: int
  assumes "0 < w" "0 < q"
  shows "u div w = u div (q * w) * q + u mod (q * w) div w" "u mod (q * w) div w < q"
proof -
  have "u = w * (u div (q * w) * q) + u mod (q * w)" by (metis mult.assoc mult.commute mult_div_mod_eq)
  then have "u div w = (w * (u div (q * w) * q) + u mod (q * w)) div w" by simp
  then show "u div w = u div (q * w) * q + u mod (q * w) div w" using assms by simp
  have "u mod (q * w) < q * w" using assms by simp
  moreover have "u mod (q * w) div w * w \<le> u mod (q * w)" by (rule div_mult_below [OF assms(1)])
  ultimately have "u mod (q * w) div w * w < q * w" by (rule le_less_trans [rotated])
  then show "u mod (q * w) div w < q" using assms by simp
qed

lemma bucket_parts:
  assumes "divides_hour every"
  obtains q where "0 < q" "HOUR_US = q * bucket_width every" "0 < bucket_width every" "DAY_US = 24 * q * bucket_width every"
proof (cases "every = ''hourly''")
  case True
  then show ?thesis using that [of 1] by (simp add: bucket_width_def HOUR_US_def DAY_US_def)
next
  case False
  then have "minutes_width every dvd 60" using assms by (simp add: divides_hour_def)
  then obtain q where q: "60 = minutes_width every * q" by (rule dvdE)
  have "0 < q" using q minutes_width_pos [of every] by (metis zero_less_mult_pos zero_less_numeral)
  moreover have "HOUR_US = q * (minutes_width every * MINUTE_US)"
    using arg_cong [OF q, of "\<lambda>x. x * MINUTE_US"] by (simp add: HOUR_US_def MINUTE_US_def algebra_simps)
  ultimately show ?thesis using that [of q] minutes_width_pos [of every] False
    by (simp add: bucket_width_def MINUTE_US_def DAY_US_def HOUR_US_def)
qed

lemma bucket_start_eq:
  assumes "divides_hour every"
  shows "bucket_start every now = now\<lparr>mo_us := mo_us now div bucket_width every * bucket_width every\<rparr>"
proof (cases "every = ''hourly''")
  case False
  obtain q where q: "0 < q" "HOUR_US = q * bucket_width every" "0 < bucket_width every"
    using bucket_parts [OF assms] .
  have w: "bucket_width every = minutes_width every * MINUTE_US" using False by (simp add: bucket_width_def)
  have "mo_minute now div minutes_width every = mo_us now mod HOUR_US div bucket_width every"
    by (simp add: mo_minute_def w mult.commute [of _ MINUTE_US] zdiv_zmult2_eq less_imp_le [OF minutes_width_pos])
  then have "mo_hour now * HOUR_US + mo_minute now div minutes_width every * minutes_width every * MINUTE_US =
      mo_us now div bucket_width every * bucket_width every"
    using div_within(1) [of "bucket_width every" q "mo_us now"] q by (simp add: mo_hour_def w algebra_simps)
  then show ?thesis using False by (simp add: bucket_start_def)
qed (simp add: bucket_start_def bucket_width_def mo_hour_def)

section \<open>The periods a schedule can have\<close>

text \<open>A schedule both loaders let through: the profile's rows and the page's.\<close>

definition sound_schedule :: "schedule \<Rightarrow> bool" where
  "sound_schedule s \<longleftrightarrow> valid_hhmm (sc_at s)
     \<and> (sc_every s = ''daily'' \<or> sc_every s = ''weekly'' \<and> sc_dow s \<in> set DOW
        \<or> sc_every s = ''monthly'' \<and> 0 \<le> sc_dom s \<and> sc_dom s \<le> 31 \<or> divides_hour (sc_every s))"

definition clock_us :: "schedule \<Rightarrow> int" where
  "clock_us s = (case clock (sc_at s) of Inr (hh, mm) \<Rightarrow> hh * HOUR_US + mm * MINUTE_US | _ \<Rightarrow> 0)"

definition goal_date :: "schedule \<Rightarrow> date \<Rightarrow> date" where
  "goal_date s t =
     (if sc_every s = ''weekly'' then add_days (int (the (index_of (sc_dow s) DOW)) + 1 - iso_weekday t) t
      else if sc_every s = ''monthly''
      then (case t of (y, m, d) \<Rightarrow> (y, m, min (if sc_dom s = 0 then 1 else sc_dom s) (days_in_month y m)))
      else t)"

definition period_number :: "schedule \<Rightarrow> moment \<Rightarrow> int" where
  "period_number s t =
     (if sc_every s = ''weekly'' then (ordinal (mo_date t) - 1) div 7
      else if sc_every s = ''monthly'' then 12 * fst (mo_date t) + fst (snd (mo_date t))
      else if sc_every s = ''daily'' then ordinal (mo_date t)
      else stamp t div bucket_width (sc_every s))"

lemma valid_clock:
  assumes "valid_hhmm s"
  obtains hh mm where "clock s = Inr (hh, mm)" "0 \<le> hh" "hh \<le> 23" "0 \<le> mm" "mm \<le> 59"
proof -
  obtain h m where "split_on (CHR '':'') s = [h, m]" "all_digits h" "all_digits m" "digits_value h \<le> 23" "digits_value m \<le> 59"
    using assms by (auto simp: valid_hhmm_def split: list.splits)
  then show ?thesis using that [of "int (digits_value h)" "int (digits_value m)"] by (simp add: clock_def read_int_def bindE_def)
qed

lemma clock_us_bounds:
  assumes "valid_hhmm (sc_at s)"
  shows "0 \<le> clock_us s \<and> clock_us s < DAY_US"
proof -
  obtain hh mm where "clock (sc_at s) = Inr (hh, mm)" "0 \<le> hh" "hh \<le> 23" "0 \<le> mm" "mm \<le> 59"
    using valid_clock [OF assms] .
  then show ?thesis by (simp add: clock_us_def DAY_US_def HOUR_US_def MINUTE_US_def)
qed

lemma index_of_DOW: "x \<in> set DOW \<Longrightarrow> \<exists>i. index_of x DOW = Some i \<and> i < 7"
  by (auto simp: DOW_def)

lemma kind_names [simp]:
  "cron_expr ''daily'' = None" "cron_expr ''weekly'' = None" "cron_expr ''monthly'' = None"
  "\<not> divides_hour ''daily''" "\<not> divides_hour ''weekly''" "\<not> divides_hour ''monthly''"
  "\<not> starts_with MINUTES_PREFIX ''daily''" "\<not> starts_with MINUTES_PREFIX ''weekly''"
  "\<not> starts_with MINUTES_PREFIX ''monthly''" "\<not> starts_with MINUTES_PREFIX ''hourly''"
  by (simp_all add: cron_expr_def CRON_PREFIX_def MINUTES_PREFIX_def starts_with_def divides_hour_def)

lemma divides_hour_names:
  "divides_hour every \<Longrightarrow> cron_expr every = None"
  "divides_hour every \<Longrightarrow> every = ''hourly'' \<or> starts_with MINUTES_PREFIX every"
  by (cases every; force simp: divides_hour_def cron_expr_def CRON_PREFIX_def MINUTES_PREFIX_def starts_with_def)+

lemma sound_cases:
  assumes "sound_schedule s"
  obtains (daily) "sc_every s = ''daily''"
    | (weekly) i where "sc_every s = ''weekly''" "index_of (sc_dow s) DOW = Some i" "i < 7"
    | (monthly) "sc_every s = ''monthly''" "0 \<le> sc_dom s" "sc_dom s \<le> 31"
    | (bucket) "divides_hour (sc_every s)" "sc_every s \<noteq> ''daily''" "sc_every s \<noteq> ''weekly''" "sc_every s \<noteq> ''monthly''"
  using assms index_of_DOW [of "sc_dow s"] kind_names(4-6) unfolding sound_schedule_def by metis

lemma sound_hhmm: "sound_schedule s \<Longrightarrow> valid_hhmm (sc_at s)"
  by (simp add: sound_schedule_def)

section \<open>What each period aims at\<close>

lemma iso_weekday_bounds: "1 \<le> iso_weekday t \<and> iso_weekday t \<le> 7"
  by (simp add: iso_weekday_def)

lemma week_of: "ordinal t - iso_weekday t = 7 * ((ordinal t - 1) div 7)"
  by (simp add: iso_weekday_def minus_mod_eq_mult_div [symmetric])

lemma goal_date_week:
  assumes "valid_date t" "sc_every s = ''weekly''" "index_of (sc_dow s) DOW = Some i" "i < 7"
  shows "valid_date (goal_date s t) \<and> ordinal (goal_date s t) = 7 * ((ordinal t - 1) div 7) + int i + 1"
  using assms add_days_valid [OF assms(1), of "int i + 1 - iso_weekday t"] week_of [of t] by (simp add: goal_date_def)

lemma goal_date_month:
  assumes "valid_date t" "sc_every s = ''monthly''" "0 \<le> sc_dom s" "sc_dom s \<le> 31"
  shows "valid_date (goal_date s t) \<and> fst (goal_date s t) = fst t \<and> fst (snd (goal_date s t)) = fst (snd t)"
  using assms days_in_month_bounds [of "fst t" "fst (snd t)"] by (cases t) (auto simp: goal_date_def min_def)

lemma goal_date_valid:
  assumes "sound_schedule s" "valid_date t" "1 \<le> ordinal t"
  shows "valid_date (goal_date s t) \<and> 1 \<le> ordinal (goal_date s t)"
  using assms(1)
proof (cases rule: sound_cases)
  case (weekly i)
  then show ?thesis using goal_date_week [OF assms(2) weekly] assms(3) by (simp add: pos_imp_zdiv_nonneg_iff)
next
  case monthly
  then show ?thesis using goal_date_month [OF assms(2) monthly] fst_ordinal [of "goal_date s t"] fst_ordinal [of t] assms by simp
qed (simp_all add: goal_date_def assms)

lemma target_calendar:
  assumes "sound_schedule s" "\<not> divides_hour (sc_every s)" "valid_date (mo_date t)"
  shows "period_target cron s t = Inr \<lparr>mo_date = goal_date s (mo_date t), mo_us = clock_us s\<rparr>"
proof -
  obtain hh mm where c: "clock (sc_at s) = Inr (hh, mm)" "0 \<le> hh" "hh \<le> 23" "0 \<le> mm" "mm \<le> 59"
    using valid_clock [OF sound_hhmm [OF assms(1)]] .
  have at: "at_time d hh mm = Inr \<lparr>mo_date = d, mo_us = clock_us s\<rparr>" if "valid_date d" for d
    using c that by (simp add: at_time_def clock_us_def)
  show ?thesis using assms(1)
  proof (cases rule: sound_cases)
    case (weekly i)
    then show ?thesis using at [of "goal_date s (mo_date t)"] goal_date_week [OF assms(3) weekly]
      by (simp add: period_target_def c bindE_def goal_date_def)
  next
    case monthly
    then show ?thesis using at [of "goal_date s (mo_date t)"] goal_date_month [OF assms(3) monthly]
      by (cases "mo_date t") (simp add: period_target_def c bindE_def goal_date_def)
  qed (use at [OF assms(3)] assms in \<open>simp_all add: period_target_def c bindE_def goal_date_def\<close>)
qed

lemma target_bucket:
  assumes "sound_schedule s" "divides_hour (sc_every s)"
  shows "period_target cron s t = Inr (bucket_start (sc_every s) t)"
proof -
  obtain hh mm where c: "clock (sc_at s) = Inr (hh, mm)"
    using valid_clock [OF sound_hhmm [OF assms(1)]] by metis
  have "sc_every s \<noteq> ''weekly''" "sc_every s \<noteq> ''monthly''" using assms(2) kind_names by metis+
  then show ?thesis using divides_hour_names [OF assms(2)] by (simp add: period_target_def c bindE_def)
qed

text \<open>The moment a bucket starts, measured from the epoch.\<close>

lemma bucket_stamp:
  assumes "divides_hour every" "dated t"
  shows "dated (bucket_start every t)
    \<and> stamp (bucket_start every t) = stamp t div bucket_width every * bucket_width every"
proof -
  let ?w = "bucket_width every"
  obtain q where q: "0 < q" "0 < ?w" "DAY_US = 24 * q * ?w" using bucket_parts [OF assms(1)] by metis
  note v = dated_valid [OF assms(2)]
  have us: "0 \<le> mo_us t div ?w * ?w" "mo_us t div ?w * ?w \<le> mo_us t"
    using v q div_mult_below [of ?w "mo_us t"] by (simp_all add: pos_imp_zdiv_nonneg_iff)
  have "stamp t = mo_us t + ordinal (mo_date t) * (24 * q) * ?w" by (simp add: stamp_def q(3))
  then have "stamp t div ?w = ordinal (mo_date t) * (24 * q) + mo_us t div ?w" using q by simp
  then show ?thesis
    using us v assms(2) by (simp add: bucket_start_eq [OF assms(1)] stamp_def dated_def valid_moment_def q(3) algebra_simps)
qed

section \<open>The five periods keep the contract\<close>

lemma bucket_pos: "divides_hour every \<Longrightarrow> 0 < bucket_width every"
  using bucket_parts by metis

lemma month_mono:
  assumes "valid_date s" "valid_date t" "ordinal s \<le> ordinal t"
  shows "12 * fst s + fst (snd s) \<le> 12 * fst t + fst (snd t)"
proof (rule ccontr)
  assume "\<not> ?thesis"
  moreover obtain y m d where s: "s = (y, m, d)" by (cases s)
  moreover obtain y' m' d' where t: "t = (y', m', d')" by (cases t)
  ultimately have "y' < y \<or> y' = y \<and> m' < m" using assms(1,2) by simp linarith
  then show False
  proof
    assume "y' < y"
    then show False
      using years_apart [of y' y] day_of_year [of y m d] day_of_year [of y' m' d'] assms unfolding s t by simp
  next
    assume "y' = y \<and> m' < m"
    then show False using months_apart [of m' m y] assms unfolding s t by simp
  qed
qed

lemma period_number_mono:
  assumes "sound_schedule s" "dated t" "dated u" "stamp t \<le> stamp u"
  shows "period_number s t \<le> period_number s u"
  using assms(1)
proof (cases rule: sound_cases)
  case (weekly i)
  then show ?thesis using ordinal_mono [OF assms(2-4)] by (simp add: period_number_def zdiv_mono1)
next
  case monthly
  then show ?thesis using month_mono ordinal_mono [OF assms(2-4)] dated_valid assms by (simp add: period_number_def)
next
  case bucket
  then show ?thesis using bucket_pos assms by (simp add: period_number_def zdiv_mono1)
qed (use ordinal_mono [OF assms(2-4)] in \<open>simp add: period_number_def\<close>)

lemma goal_us:
  "sound_schedule s \<Longrightarrow> dated t \<Longrightarrow> dated \<lparr>mo_date = goal_date s (mo_date t), mo_us = clock_us s\<rparr>"
  using goal_date_valid [of s "mo_date t"] dated_valid [of t] clock_us_bounds [OF sound_hhmm] by (auto intro: datedI)

lemma goal_number:
  assumes "sound_schedule s" "dated t" "period_target cron s t = Inr g"
  shows "dated g \<and> period_number s g = period_number s t"
proof (cases "divides_hour (sc_every s)")
  case True
  then have "sc_every s \<noteq> ''daily''" "sc_every s \<noteq> ''weekly''" "sc_every s \<noteq> ''monthly''" using kind_names by metis+
  moreover have "g = bucket_start (sc_every s) t" using target_bucket [OF assms(1) True] assms(3) by simp
  ultimately show ?thesis
    using bucket_stamp [OF True assms(2)] bucket_pos [OF True] by (simp add: period_number_def)
next
  case False
  have v: "valid_date (mo_date t)" using dated_valid [OF assms(2)] by simp
  have g: "g = \<lparr>mo_date = goal_date s (mo_date t), mo_us = clock_us s\<rparr>"
    using target_calendar [OF assms(1) False v] assms(3) by simp
  have "period_number s g = period_number s t" using assms(1)
  proof (cases rule: sound_cases)
    case (weekly i)
    then show ?thesis using goal_date_week [OF v weekly] by (simp add: g period_number_def)
  next
    case monthly
    then show ?thesis using goal_date_month [OF v monthly] by (simp add: g period_number_def)
  qed (use False in \<open>simp_all add: g period_number_def goal_date_def\<close>)
  then show ?thesis using goal_us [OF assms(1,2)] by (simp add: g)
qed

lemma month_unique:
  fixes m n y z :: int
  shows "1 \<le> m \<Longrightarrow> m \<le> 12 \<Longrightarrow> 1 \<le> n \<Longrightarrow> n \<le> 12 \<Longrightarrow> 12 * y + m = 12 * z + n \<Longrightarrow> y = z \<and> m = n"
  by (cases y z rule: linorder_cases) linarith+

lemma same_month: "valid_date s \<Longrightarrow> valid_date t \<Longrightarrow> 12 * fst s + fst (snd s) = 12 * fst t + fst (snd t)
  \<Longrightarrow> fst s = fst t \<and> fst (snd s) = fst (snd t)"
  using month_unique [of "fst (snd s)" "fst (snd t)" "fst s" "fst t"] date_fields [of s] date_fields [of t] by blast

lemma goal_same:
  assumes "sound_schedule s" "dated t" "dated u" "period_number s t = period_number s u"
  shows "period_target cron s t = period_target cron s u"
proof (cases "divides_hour (sc_every s)")
  case True
  then have "sc_every s \<noteq> ''daily''" "sc_every s \<noteq> ''weekly''" "sc_every s \<noteq> ''monthly''" using kind_names by metis+
  then have "bucket_start (sc_every s) t = bucket_start (sc_every s) u"
    using bucket_stamp [OF True assms(2)] bucket_stamp [OF True assms(3)] assms(4)
    by (intro stamp_inj) (simp_all add: dated_def period_number_def)
  then show ?thesis using target_bucket [OF assms(1) True] by simp
next
  case False
  have v: "valid_date (mo_date t)" "valid_date (mo_date u)" using dated_valid assms(2,3) by simp_all
  have "goal_date s (mo_date t) = goal_date s (mo_date u)" using assms(1)
  proof (cases rule: sound_cases)
    case daily
    then show ?thesis using assms(4) v by (simp add: goal_date_def period_number_def ordinal_inj)
  next
    case (weekly i)
    then show ?thesis using goal_date_week [OF v(1) weekly] goal_date_week [OF v(2) weekly] assms(4)
      by (intro ordinal_inj) (simp_all add: period_number_def)
  next
    case monthly
    then show ?thesis using same_month [OF v] assms(4)
      by (cases "mo_date t"; cases "mo_date u") (simp add: goal_date_def period_number_def)
  qed (use False in simp)
  then show ?thesis using target_calendar [OF assms(1) False] v by simp
qed

lemma next_month_first:
  assumes "valid_date (y, m, d)"
  shows "\<exists>y' m' d'. add_days 32 (y, m, 1) = (y', m', d') \<and> 12 * y' + m' = 12 * y + m + 1 \<and> 1 \<le> m' \<and> m' \<le> 12 \<and> y \<le> y'"
proof -
  note b = days_in_month_bounds [of y m]
  have m: "1 \<le> m" "m \<le> 12" using assms by simp_all
  have v: "valid_date (y, m, 1)" using m b by simp
  show ?thesis
  proof (cases "m < 12")
    case True
    have "add_days 32 (y, m, 1) = (y, m + 1, 33 - days_in_month y m)"
      using True m b days_in_month_bounds [of y "m + 1"] next_month [of m y] by (intro add_days_unique [OF v]) simp_all
    then show ?thesis using True m by simp
  next
    case False
    have "add_days 32 (y, m, 1) = (y + 1, 1, 2)"
      using False m b days_in_month_bounds [of "y + 1" 1] next_year [of y] last_month(1) [of y] last_month(2) [of "y + 1"]
      by (intro add_days_unique [OF v]) (simp_all add: days_in_month_def)
    then show ?thesis using False m by simp
  qed
qed

lemma first_of_next_month_number:
  assumes "dated t"
  shows "dated (first_of_next_month t)
    \<and> 12 * fst (mo_date (first_of_next_month t)) + fst (snd (mo_date (first_of_next_month t))) =
      12 * fst (mo_date t) + fst (snd (mo_date t)) + 1"
proof -
  obtain y m d where t: "mo_date t = (y, m, d)" by (cases "mo_date t")
  have y: "valid_date (y, m, d)" "1 \<le> y" using assms by (simp_all add: dated_def valid_moment_def t)
  obtain y' m' d' where "add_days 32 (y, m, 1) = (y', m', d')" "12 * y' + m' = 12 * y + m + 1" "1 \<le> m'" "m' \<le> 12" "y \<le> y'"
    using next_month_first [OF y(1)] by (elim exE conjE) (rule that)
  then show ?thesis using y days_in_month_bounds [of y' m']
    by (simp add: first_of_next_month_def t dated_def valid_moment_def DAY_US_def)
qed

lemma shift_days: "dated t \<Longrightarrow> 0 \<le> k \<Longrightarrow>
  dated (shift (k * DAY_US) t) \<and> ordinal (mo_date (shift (k * DAY_US) t)) = ordinal (mo_date t) + k"
  using dated_shift [of t "k * DAY_US"] dated_date [of "shift (k * DAY_US) t"] dated_date [of t] by (simp add: DAY_US_def)

lemma onward_number:
  assumes "sound_schedule s" "dated t"
  shows "dated (next_period cron s t) \<and> period_number s (next_period cron s t) = period_number s t + 1"
  using assms(1)
proof (cases rule: sound_cases)
  case daily
  then show ?thesis using shift_days [OF assms(2), of 1] by (simp add: next_period_def period_number_def)
next
  case (weekly i)
  then show ?thesis using shift_days [OF assms(2), of 7]
    by (simp add: next_period_def period_number_def add.commute [of _ 7] flip: diff_add_eq add_diff_eq)
next
  case monthly
  then show ?thesis using first_of_next_month_number [OF assms(2)] by (simp add: next_period_def period_number_def)
next
  case bucket
  let ?w = "bucket_width (sc_every s)"
  have "next_period cron s t = shift ?w (bucket_start (sc_every s) t)"
    using bucket divides_hour_names [OF bucket(1)] by (auto simp: next_period_def bucket_width_def)
  moreover have "0 < ?w" by (rule bucket_pos [OF bucket(1)])
  ultimately show ?thesis
    using bucket bucket_stamp [OF bucket(1) assms(2)] dated_shift [of "bucket_start (sc_every s) t" ?w]
    by (simp add: period_number_def)
qed

text \<open>The ISO week is named by its Thursday, and one key names one week.\<close>

lemma iso_week_thursday:
  assumes "valid_date t"
  obtains y w th where "iso_week t = (y, w)" "valid_date th" "fst th = y" "ordinal th = 7 * ((ordinal t - 1) div 7) + 4"
    "w = (ordinal th - ordinal (y, 1, 1)) div 7 + 1" "ordinal (y, 1, 1) \<le> ordinal th"
proof -
  define th where "th = add_days (4 - iso_weekday t) t"
  have o: "ordinal th = 7 * ((ordinal t - 1) div 7) + 4" and v: "valid_date th"
    using add_days_valid [OF assms, of "4 - iso_weekday t"] week_of [of t] by (simp_all add: th_def)
  obtain y m d where y: "th = (y, m, d)" by (cases th)
  have "ordinal (y, 1, 1) \<le> ordinal th"
    using day_of_year [of y m d] v last_month(2) [of y] by (simp add: y)
  then show ?thesis
    using that [of y "(ordinal th - ordinal (y, 1, 1)) div 7 + 1" th] o v by (simp add: iso_week_def Let_def flip: th_def) (simp add: y)
qed

lemma same_week_floor:
  fixes a b k m n :: int
  assumes "(7 * m + 4 - k) div 7 = (7 * n + 4 - k) div 7"
  shows "m = n"
proof -
  have "(7 * x + 4 - k) div 7 = x + (4 - k) div 7" for x
    using div_mult_self2 [of 7 "4 - k" x] by (simp add: algebra_simps)
  then show ?thesis using assms by simp
qed

lemma iso_week_inj:
  assumes "valid_date s" "valid_date t"
  shows "iso_week s = iso_week t \<longleftrightarrow> (ordinal s - 1) div 7 = (ordinal t - 1) div 7"
proof -
  obtain y w a where s: "iso_week s = (y, w)" "valid_date a" "fst a = y" "ordinal a = 7 * ((ordinal s - 1) div 7) + 4"
    "w = (ordinal a - ordinal (y, 1, 1)) div 7 + 1" using iso_week_thursday [OF assms(1)] by metis
  obtain z x b where t: "iso_week t = (z, x)" "valid_date b" "fst b = z" "ordinal b = 7 * ((ordinal t - 1) div 7) + 4"
    "x = (ordinal b - ordinal (z, 1, 1)) div 7 + 1" using iso_week_thursday [OF assms(2)] by metis
  show ?thesis
  proof
    assume "iso_week s = iso_week t"
    then have yz: "y = z" "w = x" using s(1) t(1) by simp_all
    then have "(ordinal a - ordinal (y, 1, 1)) div 7 = (ordinal b - ordinal (y, 1, 1)) div 7"
      using s(5) t(5) unfolding yz by simp
    then show "(ordinal s - 1) div 7 = (ordinal t - 1) div 7"
      unfolding s(4) t(4) by (rule same_week_floor)
  next
    assume "(ordinal s - 1) div 7 = (ordinal t - 1) div 7"
    then have "ordinal a = ordinal b" unfolding s(4) t(4) by simp
    then have ab: "a = b" by (rule ordinal_inj [OF s(2) t(2)])
    then have yz: "y = z" using s(3) t(3) by simp
    have "w = x" unfolding s(5) t(5) ab yz by (rule refl)
    then show "iso_week s = iso_week t" using s(1) t(1) yz by simp
  qed
qed

lemma iso_year_pos: "dated t \<Longrightarrow> iso_week (mo_date t) = (y, w) \<Longrightarrow> 0 \<le> y \<and> 0 \<le> w"
proof -
  assume t: "dated t" and i: "iso_week (mo_date t) = (y, w)"
  note v = dated_valid [OF t]
  obtain y' w' th where th: "iso_week (mo_date t) = (y', w')" "valid_date th" "fst th = y'"
    "ordinal th = 7 * ((ordinal (mo_date t) - 1) div 7) + 4" "w' = (ordinal th - ordinal (y', 1, 1)) div 7 + 1"
    "ordinal (y', 1, 1) \<le> ordinal th"
    using iso_week_thursday [of "mo_date t"] v by metis
  have "1 \<le> ordinal th" using v th(4) by (simp add: pos_imp_zdiv_nonneg_iff)
  then have "1 \<le> y'" using fst_ordinal [OF th(2)] th(3) by simp
  moreover have "0 \<le> w'" using th(5,6) by (simp add: pos_imp_zdiv_nonneg_iff del: ordinal.simps)
  ultimately show ?thesis using i th(1) by simp
qed

lemma dec_sep: "\<not> digit_char c \<Longrightarrow> dec m @ c # xs = dec n @ c # ys \<longleftrightarrow> m = n \<and> xs = ys"
  using dec_prefix_free [of m "c # xs" n "c # ys"] by auto

lemma weekly_key:
  assumes "dated t" "dated u"
  shows "window_key ''weekly'' t = window_key ''weekly'' u \<longleftrightarrow> (ordinal (mo_date t) - 1) div 7 = (ordinal (mo_date u) - 1) div 7"
proof -
  obtain y w z x where i: "iso_week (mo_date t) = (y, w)" "iso_week (mo_date u) = (z, x)" by fastforce
  have "window_key ''weekly'' t = window_key ''weekly'' u \<longleftrightarrow> (y, w) = (z, x)"
    using iso_year_pos [OF assms(1) i(1)] iso_year_pos [OF assms(2) i(2)] by (simp add: window_key_def i dec_sep eq_nat_nat_iff)
  then show ?thesis using iso_week_inj [of "mo_date t" "mo_date u"] i dated_valid assms by simp
qed

lemma monthly_key:
  assumes "dated t" "dated u"
  shows "window_key ''monthly'' t = window_key ''monthly'' u \<longleftrightarrow>
    12 * fst (mo_date t) + fst (snd (mo_date t)) = 12 * fst (mo_date u) + fst (snd (mo_date u))"
  using assms same_month [of "mo_date t" "mo_date u"] date_fields [of "mo_date t"] date_fields [of "mo_date u"]
  by (auto simp: window_key_def padded_sep dated_def valid_moment_def)

lemma clock_parts: "0 \<le> mo_us t \<Longrightarrow> 0 \<le> mo_hour t \<and> 0 \<le> mo_minute t"
  by (simp add: mo_hour_def mo_minute_def HOUR_US_def MINUTE_US_def pos_imp_zdiv_nonneg_iff)

text \<open>The bucket of a moment from its hour and the bucket within the hour.\<close>

lemma bucket_index:
  assumes "divides_hour every" "dated t"
  shows "stamp t div bucket_width every =
    (ordinal (mo_date t) * 24 + mo_hour t) * (HOUR_US div bucket_width every) + mo_us t mod HOUR_US div bucket_width every"
    and "mo_us t mod HOUR_US div bucket_width every < HOUR_US div bucket_width every"
    and "0 \<le> mo_us t mod HOUR_US div bucket_width every" and "0 \<le> mo_hour t" and "mo_hour t < 24"
proof -
  let ?w = "bucket_width every"
  obtain q where q: "0 < q" "0 < ?w" "DAY_US = 24 * q * ?w" "HOUR_US = q * ?w" using bucket_parts [OF assms(1)] by metis
  note v = dated_valid [OF assms(2)]
  have "stamp t = mo_us t + ordinal (mo_date t) * (24 * q) * ?w" by (simp add: stamp_def q(3))
  then have "stamp t div ?w = ordinal (mo_date t) * (24 * q) + mo_us t div ?w" using q by simp
  also have "mo_us t div ?w = mo_hour t * q + mo_us t mod HOUR_US div ?w"
    using div_within(1) [OF q(2,1), of "mo_us t"] by (simp add: mo_hour_def q(4))
  finally show "stamp t div ?w = (ordinal (mo_date t) * 24 + mo_hour t) * (HOUR_US div ?w) + mo_us t mod HOUR_US div ?w"
    using q(2) by (simp add: q(4) algebra_simps)
  show "mo_us t mod HOUR_US div ?w < HOUR_US div ?w" using div_within(2) [OF q(2,1), of "mo_us t"] q(2) by (simp add: q(4))
  show "0 \<le> mo_us t mod HOUR_US div ?w" using q by (simp add: pos_imp_zdiv_nonneg_iff HOUR_US_def)
  show "0 \<le> mo_hour t" using clock_parts v by simp
  show "mo_hour t < 24" using v by (simp add: mo_hour_def HOUR_US_def DAY_US_def) linarith
qed

lemma digit_unique:
  fixes a b c d k :: int
  assumes "0 \<le> b" "b < k" "0 \<le> d" "d < k"
  shows "a * k + b = c * k + d \<longleftrightarrow> a = c \<and> b = d"
proof
  assume e: "a * k + b = c * k + d"
  have "(a * k + b) div k = a" "(c * k + d) div k = c" using assms by simp_all
  then show "a = c \<and> b = d" using e by auto
qed simp

lemma bucket_key:
  assumes "divides_hour every" "dated t" "dated u"
  shows "window_key every t = window_key every u \<longleftrightarrow> stamp t div bucket_width every = stamp u div bucket_width every"
proof -
  let ?w = "bucket_width every" and ?m = "\<lambda>v. mo_us v mod HOUR_US div bucket_width every"
  note t = bucket_index [OF assms(1,2)] and u = bucket_index [OF assms(1,3)]
  have idx: "stamp t div ?w = stamp u div ?w \<longleftrightarrow>
      ordinal (mo_date t) = ordinal (mo_date u) \<and> mo_hour t = mo_hour u \<and> ?m t = ?m u"
    using digit_unique [OF t(3,2) u(3,2)] digit_unique [OF t(4,5) u(4,5)] unfolding t(1) u(1) by simp
  have day: "mo_date t = mo_date u \<longleftrightarrow> ordinal (mo_date t) = ordinal (mo_date u)"
    using ordinal_inj [of "mo_date t" "mo_date u"] dated_valid assms(2,3) by metis
  show ?thesis
  proof (cases "every = ''hourly''")
    case True
    have "?w = HOUR_US" by (simp add: True bucket_width_def)
    then have "?m v = 0" for v :: moment by (simp add: HOUR_US_def div_eq_0_iff)
    then show ?thesis
      using t(4) u(4) idx day by (simp add: True window_key_def day_text_sep [OF assms(2,3)])
  next
    case False
    have k: "starts_with MINUTES_PREFIX every" "every \<noteq> ''weekly''" "every \<noteq> ''monthly''"
      using assms(1) False divides_hour_names(2) kind_names by metis+
    have w: "?w = MINUTE_US * minutes_width every" using False by (simp add: bucket_width_def)
    have m: "mo_minute v div minutes_width every = ?m v" for v :: moment
      by (simp add: mo_minute_def w zdiv_zmult2_eq less_imp_le [OF minutes_width_pos])
    note p = minutes_width_pos [of every]
    have "0 \<le> ?m t * minutes_width every" "0 \<le> ?m u * minutes_width every" using p t(3) u(3) by simp_all
    then show ?thesis
      using t(4) u(4) idx day k False p
      by (simp add: window_key_def m day_text_sep [OF assms(2,3)] padded_sep)
  qed
qed

lemma period_key:
  assumes "sound_schedule s" "dated t" "dated u"
  shows "fire_window cron s t = fire_window cron s u \<longleftrightarrow> period_number s t = period_number s u"
  using assms(1)
proof (cases rule: sound_cases)
  case daily
  then show ?thesis using day_text_inj [OF assms(2,3)] by (simp add: fire_window_def window_key_def period_number_def)
next
  case (weekly i)
  then show ?thesis using weekly_key [OF assms(2,3)] by (simp add: fire_window_def period_number_def)
next
  case monthly
  then show ?thesis using monthly_key [OF assms(2,3)] by (simp add: fire_window_def period_number_def)
next
  case bucket
  then show ?thesis using bucket_key [OF bucket(1) assms(2,3)] divides_hour_names(1) [OF bucket(1)]
    by (simp add: fire_window_def period_number_def)
qed

definition goal_of :: "cron \<Rightarrow> schedule \<Rightarrow> moment \<Rightarrow> moment" where
  "goal_of cron s now = projr (period_target cron s now)"

lemma target_total: "sound_schedule s \<Longrightarrow> dated t \<Longrightarrow> period_target cron s t = Inr (goal_of cron s t)"
  using target_bucket [of s cron t] target_calendar [of s t cron] dated_valid [of t]
  by (cases "divides_hour (sc_every s)") (simp_all add: goal_of_def)

end
