(* ===== verification/Capabilities.thy ===== *)
theory Capabilities
  imports Nonidempotent DslDisk Schedules
begin

text \<open>
  The capabilities a workflow runs under its user's authority, the methods of
  \<open>workflow/handle.py\<close>: filing a document, a glossary card, a conversion, creating and updating an
  entity, sending a notification.  Each is a journaled step or a pair of them over the engine of
  \<open>StepJournal\<close> and the shell of \<open>Nonidempotent\<close>.

  What they act on is wired by the driver and is an argument: the knowledge collections, the
  notification store, the entity store, the classification model.
\<close>

section \<open>Results\<close>

text \<open>\<open>r[k]\<close>\<close>

definition item_of :: "json \<Rightarrow> string \<Rightarrow> step_exn + json" where
  "item_of r k =
     (case r of
        JObj kvs \<Rightarrow> (case dict_get kvs k of None \<Rightarrow> Inl (Raised ''KeyError'') | Some v \<Rightarrow> Inr v)
      | _ \<Rightarrow> Inl (Raised ''TypeError''))"

text \<open>A named step publishes its result among its fields.\<close>

definition publish_result :: "string \<Rightarrow> string \<Rightarrow> string \<Rightarrow> json" where
  "publish_result name field v =
     (if name = [] then JObj [(field, JStr v)] else JObj [(''fields'', JObj [(field, JStr v)])])"

definition published_result :: "string \<Rightarrow> string \<Rightarrow> json \<Rightarrow> step_exn + json" where
  "published_result name field r =
     (if name = [] then item_of r field else bindE (item_of r ''fields'') (\<lambda>fs. item_of fs field))"

definition plain_step ::
  "string \<Rightarrow> string \<Rightarrow> string \<Rightarrow> json \<Rightarrow> ('w \<Rightarrow> 'w \<times> (step_exn + json)) \<Rightarrow> bool \<Rightarrow> 'w step" where
  "plain_step name key phase args body cache =
     \<lparr>sp_name = name, sp_key = key, sp_phase = phase, sp_args = args, sp_execute = (\<lambda>fb. body),
      sp_check = None, sp_retries = 0, sp_cache = cache, sp_repair = None\<rparr>"

section \<open>Documents and cards\<close>

definition ingest_to_collection ::
  "(string \<Rightarrow> string) \<Rightarrow> 'w handle \<Rightarrow> (string \<Rightarrow> string \<Rightarrow> 'w \<Rightarrow> 'w \<times> (step_exn + string)) \<Rightarrow> string \<Rightarrow> string
   \<Rightarrow> string \<Rightarrow> bool \<Rightarrow> string \<Rightarrow> string \<Rightarrow> 'w step_state \<Rightarrow> 'w step_state \<times> (step_exn + json)" where
  "ingest_to_collection digest wh ingest collection path phase cache name key st =
     (let sp = plain_step (if name = [] then ''ingest'' else name) (if name = [] then safe_key path else key) phase
                 (JObj [(''collection'', JStr collection), (''path'', JStr path)])
                 (\<lambda>w. case ingest collection path w of
                        (w', out) \<Rightarrow> (w', bindE out (\<lambda>i. Inr (publish_result name ''doc_id'' i)))) cache
      in case run_step digest wh sp st of (st', out) \<Rightarrow> (st', bindE out (published_result name ''doc_id'')))"

text \<open>
  The receipt key of an unnamed card: a readable part of the keys or the title, and a digest
  that takes in the body.  \<open>casefold\<close> is \<open>str.casefold\<close>, \<open>sha1\<close> the hexadecimal digest.
\<close>

definition word_char :: "char \<Rightarrow> bool" where
  "word_char c \<longleftrightarrow> (let n = (of_char c :: nat) in (48 \<le> n \<and> n \<le> 57) \<or> (97 \<le> n \<and> n \<le> 122))"

fun squeeze :: "string \<Rightarrow> string" where
  "squeeze [] = []"
| "squeeze (c # cs) =
     (if word_char c then c # squeeze cs
      else (case squeeze cs of
              [] \<Rightarrow> ''_''
            | d # ds \<Rightarrow> if cs \<noteq> [] \<and> \<not> word_char (hd cs) then d # ds else CHR ''_'' # d # ds))"

definition strip_underscores :: "string \<Rightarrow> string" where
  "strip_underscores s =
     rev (dropWhile (\<lambda>c. c = CHR ''_'') (rev (dropWhile (\<lambda>c. c = CHR ''_'') s)))"

definition card_step_key :: "(string \<Rightarrow> string) \<Rightarrow> (string \<Rightarrow> string) \<Rightarrow> string list \<Rightarrow> string \<Rightarrow> string \<Rightarrow> string" where
  "card_step_key casefold sha1 keys title body =
     (let joined = join '' '' (sort keys); basis = (if joined = [] then title else joined);
          safe = take 48 (strip_underscores (squeeze (casefold basis)));
          digest = take 8 (sha1 (basis @ CHR 0x00 # body))
      in if safe = [] then digest else safe @ CHR ''_'' # digest)"

definition card_args :: "string \<Rightarrow> string list \<Rightarrow> string \<Rightarrow> string list option \<Rightarrow> json" where
  "card_args collection keys title refs =
     JObj [(''collection'', JStr collection), (''keys'', text_list keys), (''title'', JStr title),
           (''reference_doc_ids'', (case refs of None \<Rightarrow> JNull | Some rs \<Rightarrow> text_list rs))]"

definition upsert_card_step ::
  "(string \<Rightarrow> string) \<Rightarrow> (string \<Rightarrow> string)
   \<Rightarrow> (string \<Rightarrow> string list \<Rightarrow> string \<Rightarrow> string \<Rightarrow> string list option \<Rightarrow> 'w \<Rightarrow> 'w \<times> (step_exn + string))
   \<Rightarrow> string \<Rightarrow> string list \<Rightarrow> string \<Rightarrow> string \<Rightarrow> string \<Rightarrow> bool \<Rightarrow> string list option \<Rightarrow> string \<Rightarrow> string \<Rightarrow> 'w step" where
  "upsert_card_step casefold sha1 upsert collection keys title body phase cache refs name key =
     plain_step (if name = [] then ''card'' else name)
       (if name = [] then card_step_key casefold sha1 keys title body else key) phase
       (card_args collection keys title refs)
       (\<lambda>w. case upsert collection keys title body refs w of
              (w', out) \<Rightarrow> (w', bindE out (\<lambda>i. Inr (publish_result name ''card_id'' i)))) cache"

definition upsert_context_card ::
  "(string \<Rightarrow> string) \<Rightarrow> 'w handle \<Rightarrow> (string \<Rightarrow> string) \<Rightarrow> (string \<Rightarrow> string)
   \<Rightarrow> (string \<Rightarrow> string list \<Rightarrow> string \<Rightarrow> string \<Rightarrow> string list option \<Rightarrow> 'w \<Rightarrow> 'w \<times> (step_exn + string))
   \<Rightarrow> string \<Rightarrow> string list \<Rightarrow> string \<Rightarrow> string \<Rightarrow> string \<Rightarrow> bool \<Rightarrow> string list option \<Rightarrow> string \<Rightarrow> string
   \<Rightarrow> 'w step_state \<Rightarrow> 'w step_state \<times> (step_exn + json)" where
  "upsert_context_card digest wh casefold sha1 upsert collection keys title body phase cache refs name key st =
     (case run_step digest wh (upsert_card_step casefold sha1 upsert collection keys title body phase cache refs name key) st of
        (st', out) \<Rightarrow> (st', bindE out (published_result name ''card_id'')))"

definition find_overwrite_card ::
  "('w \<Rightarrow> string \<Rightarrow> string list \<Rightarrow> string \<Rightarrow> json option) option \<Rightarrow> 'w \<Rightarrow> string \<Rightarrow> string list \<Rightarrow> string \<Rightarrow> json option" where
  "find_overwrite_card find_card w collection keys title =
     (case find_card of None \<Rightarrow> None | Some f \<Rightarrow> f w collection keys title)"

text \<open>A conversion gives the path of the converted text, none when no parser read the upload, and its kind.\<close>

definition convert ::
  "(string \<Rightarrow> string) \<Rightarrow> 'w handle \<Rightarrow> (string \<Rightarrow> string \<Rightarrow> 'w \<Rightarrow> 'w \<times> (step_exn + string option \<times> string))
   \<Rightarrow> string \<Rightarrow> string \<Rightarrow> string \<Rightarrow> bool \<Rightarrow> 'w step_state \<Rightarrow> 'w step_state \<times> (step_exn + json \<times> json)" where
  "convert digest wh conv src dest phase cache st =
     (let sp = plain_step ''convert'' (safe_key src) phase (JObj [(''src'', JStr src), (''dest'', JStr dest)])
                 (\<lambda>w. case conv src dest w of
                        (w', out) \<Rightarrow> (w', bindE out (\<lambda>(p, kind).
                           Inr (JObj [(''out_path'', (case p of None \<Rightarrow> JNull | Some s \<Rightarrow> JStr s)), (''kind'', JStr kind)])))) cache
      in case run_step digest wh sp st of
           (st', out) \<Rightarrow> (st', bindE out (\<lambda>r. bindE (item_of r ''out_path'') (\<lambda>p. bindE (item_of r ''kind'') (\<lambda>k. Inr (p, k))))))"

section \<open>Notifications\<close>

definition fingerprint_of :: "string \<Rightarrow> string \<Rightarrow> string \<Rightarrow> moment option \<Rightarrow> string" where
  "fingerprint_of recipient topic window started =
     recipient @ '':'' @ topic
     @ (case started of
          Some m \<Rightarrow> if window = [] then [] else '':'' @ window_key window m
        | None \<Rightarrow> [])"

text \<open>The notification store: has this fingerprint been sent, and the sending itself.\<close>

record 'w notifier =
  no_sent :: "('w \<Rightarrow> string \<Rightarrow> bool) option"
  no_notify :: "string \<Rightarrow> string \<Rightarrow> string \<Rightarrow> string \<Rightarrow> 'w \<Rightarrow> 'w \<times> (step_exn + string)"

definition already_sent :: "'w notifier \<Rightarrow> 'w \<Rightarrow> string \<Rightarrow> bool" where
  "already_sent no w fp = (case no_sent no of None \<Rightarrow> False | Some f \<Rightarrow> f w fp)"

definition notify_decide :: "'w notifier \<Rightarrow> string \<Rightarrow> string option \<Rightarrow> 'w \<Rightarrow> 'w \<times> (step_exn + verdict)" where
  "notify_decide no fp fb w =
     (w, Inr \<lparr>vd_kind = (if already_sent no w fp then ''duplicate'' else ''new''),
              vd_payload = JObj [(''key'', JStr fp)]\<rparr>)"

definition sent_fields :: "bool \<Rightarrow> string \<Rightarrow> string \<Rightarrow> ni_result" where
  "sent_fields sent action nid =
     \<lparr>nr_fields = JObj [(''sent'', JBool sent), (''action'', JStr action), (''notification_id'', JStr nid)],
      nr_artifact = None\<rparr>"

definition notify_act ::
  "'w notifier \<Rightarrow> string \<Rightarrow> string \<Rightarrow> string \<Rightarrow> string \<Rightarrow> string \<Rightarrow> verdict \<Rightarrow> 'w \<Rightarrow> 'w \<times> (step_exn + ni_result)" where
  "notify_act no recipient topic title body fp v w =
     (if vd_kind v = ''duplicate'' then (w, Inr (sent_fields False ''skip'' []))
      else (case no_notify no recipient (if title = [] then topic else title) body fp w of
              (w', out) \<Rightarrow> (w', bindE out (\<lambda>nid. Inr (sent_fields True ''send'' nid)))))"

definition notify_inputs :: "string \<Rightarrow> string \<Rightarrow> string \<Rightarrow> string \<Rightarrow> string \<Rightarrow> json" where
  "notify_inputs recipient topic title body run_id =
     JObj ([(''recipient'', JStr recipient), (''topic'', JStr topic), (''title'', JStr title), (''body'', JStr body)]
           @ (if run_id = [] then [] else [(''run_id'', JStr run_id)]))"

definition send_notification ::
  "(string \<Rightarrow> string) \<Rightarrow> 'w handle \<Rightarrow> 'w notifier \<Rightarrow> string \<Rightarrow> moment option \<Rightarrow> string \<Rightarrow> string \<Rightarrow> string \<Rightarrow> string
   \<Rightarrow> string \<Rightarrow> string \<Rightarrow> string \<Rightarrow> string \<Rightarrow> bool \<Rightarrow> 'w step_state \<Rightarrow> 'w step_state \<times> (step_exn + json)" where
  "send_notification digest wh no run_id started recipient topic name title body window phase key cache st =
     (let fp = fingerprint_of recipient topic window started in
      case run_nonidempotent digest wh name key phase (notify_inputs recipient topic title body run_id)
             (notify_decide no fp) (notify_act no recipient topic title body fp) cache st of
        (st', out) \<Rightarrow> (st', bindE out (\<lambda>r. Inr (nr_fields r))))"

section \<open>The notification store\<close>

text \<open>\<open>api/notifications.py\<close>: the rows are the send ledger; \<open>mint\<close> is the store's next id.\<close>

record notice =
  nt_recipient :: string
  nt_kind :: string
  nt_title :: string
  nt_body :: string
  nt_link :: string
  nt_actor :: "string option"
  nt_created :: int
  nt_dedup :: string
  nt_read :: bool

type_synonym notices = "(string \<times> notice) list"

definition notify_row ::
  "(notices \<Rightarrow> string) \<Rightarrow> int \<Rightarrow> string \<Rightarrow> string \<Rightarrow> string \<Rightarrow> string \<Rightarrow> string \<Rightarrow> string option \<Rightarrow> string
   \<Rightarrow> notices \<Rightarrow> notices \<times> string" where
  "notify_row mint now recipient kind title body link actor dedup rows =
     (rows @ [(mint rows,
        \<lparr>nt_recipient = recipient, nt_kind = kind, nt_title = title, nt_body = body, nt_link = link,
         nt_actor = actor, nt_created = now, nt_dedup = dedup, nt_read = False\<rparr>)], mint rows)"

definition notification_sent :: "notices \<Rightarrow> string \<Rightarrow> bool" where
  "notification_sent rows dedup \<longleftrightarrow> list_ex (\<lambda>(i, n). nt_dedup n = dedup) rows"

text \<open>The workspace beside the store, and the notifier the driver wires (\<open>api/workflow_exec.py\<close>).\<close>

record office =
  of_disk :: disk
  of_rows :: notices

definition office_handle :: "string \<Rightarrow> office handle" where
  "office_handle dir = \<lparr>wf_journal_dir = dir,
     wf_exists = (\<lambda>w p. of_disk w p \<noteq> None),
     wf_read_json = (\<lambda>w p. case of_disk w p of Some (Parsed j) \<Rightarrow> Inr j | _ \<Rightarrow> Inl (Raised ''JSONDecodeError'')),
     wf_write_record = (\<lambda>w p j. Inr (w\<lparr>of_disk := (of_disk w)(p \<mapsto> Parsed (sorted_keys j))\<rparr>))\<rparr>"

definition wired_notifier :: "(notices \<Rightarrow> string) \<Rightarrow> int \<Rightarrow> string \<Rightarrow> office notifier" where
  "wired_notifier mint now captured =
     \<lparr>no_sent = Some (\<lambda>w fp. notification_sent (of_rows w) fp),
      no_notify = (\<lambda>recipient title body fp w.
         case notify_row mint now recipient ''workflow'' title body [] (Some captured) fp (of_rows w) of
           (rows, i) \<Rightarrow> (w\<lparr>of_rows := rows\<rparr>, Inr i))\<rparr>"

abbreviation sent_once ::
  "(notices \<Rightarrow> string) \<Rightarrow> int \<Rightarrow> string \<Rightarrow> string \<Rightarrow> string \<Rightarrow> string \<Rightarrow> string \<Rightarrow> notices \<Rightarrow> notices" where
  "sent_once mint now captured recipient title body fp rows \<equiv>
     fst (notify_row mint now recipient ''workflow'' title body [] (Some captured) fp rows)"

text \<open>The current user's notifications, and marking them read.\<close>

definition mine :: "string \<Rightarrow> notices \<Rightarrow> notices" where
  "mine me rows = filter (\<lambda>(i, n). nt_recipient n = me) rows"

definition list_notifications :: "string \<Rightarrow> notices \<Rightarrow> notices" where
  "list_notifications me rows = sort_key (\<lambda>(i, n). - nt_created n) (mine me rows)"

definition mark_all_read :: "string \<Rightarrow> notices \<Rightarrow> notices" where
  "mark_all_read me rows = map (\<lambda>(i, n). (i, if nt_recipient n = me then n\<lparr>nt_read := True\<rparr> else n)) rows"

text \<open>The status a refusal answers with, or the rows after it.\<close>

definition mark_read :: "string \<Rightarrow> string \<Rightarrow> notices \<Rightarrow> nat + notices" where
  "mark_read me nid rows =
     (case map_of rows nid of
        None \<Rightarrow> Inl 404
      | Some n \<Rightarrow>
          if nt_recipient n \<noteq> me then Inl 403
          else Inr (map (\<lambda>(i, m). (i, if i = nid then m\<lparr>nt_read := True\<rparr> else m)) rows))"

interpretation office: step_journal "office_handle dir" of_disk
  by unfold_locales (auto simp: office_handle_def)

section \<open>Lemmas\<close>

text \<open>A step with one attempt and no check, on the office.\<close>

lemma office_step:
  assumes "sp_check sp = None" "sp_retries sp = 0" "cached_result digest (office_handle dir) sp (st_world st) = Inr None"
    and "sp_execute sp None (st_world st) = (w, Inr r)"
  shows "run_step digest (office_handle dir) sp st
     = (emit (StepPassed (step_at sp)) (at_world (emit (StepStarted (step_at sp)) st)
          (w\<lparr>of_disk := (of_disk w)(step_path (office_handle dir) sp
              \<mapsto> Parsed (sorted_keys (step_record (input_hash digest (sp_args sp)) r)))\<rparr>)), Inr r)"
  using assms
  by (simp add: run_step_def workflow_simps attempt_body_def verdict_on_def office_handle_def split: option.split)

lemma office_rows:
  assumes "sp_check sp = None" "sp_retries sp = 0"
  shows "of_rows (st_world (fst (run_step digest (office_handle dir) sp st)))
     \<in> {of_rows (st_world st), of_rows (fst (sp_execute sp None (st_world st)))}"
  using assms
  by (auto simp: run_step_def workflow_simps attempt_body_def verdict_on_def office_handle_def
      split: option.splits sum.splits prod.splits step_exn.splits)

lemma ruled_fresh:
  assumes "cached_result digest (office_handle dir) (decide_step name key phase inputs decide cache) (st_world st) = Inr None"
    and "decide None (st_world st) = (st_world st, Inr v)"
  shows "run_step digest (office_handle dir) (decide_step name key phase inputs decide cache) st
    = (emit (StepPassed (phase, name, decide_key key)) (at_world (emit (StepStarted (phase, name, decide_key key)) st)
        ((st_world st)\<lparr>of_disk := (of_disk (st_world st))(artifact_path (office_handle dir) name (decide_key key)
           \<mapsto> Parsed (sorted_keys (step_record (input_hash digest inputs) (verdict_builtins v))))\<rparr>)), Inr (verdict_builtins v))"
  by (subst office_step [OF _ _ assms(1), where w = "st_world st" and r = "verdict_builtins v"])
     (simp_all add: step_paths step_at_def, simp_all add: decide_step_def assms(2))


lemma to_verdict_builtins: "to_verdict (verdict_builtins \<lparr>vd_kind = k, vd_payload = JObj kvs\<rparr>) = Inr \<lparr>vd_kind = k, vd_payload = JObj kvs\<rparr>"
  by (simp add: verdict_builtins_def)

lemma notify_act_rows:
  "of_rows (fst (notify_act (wired_notifier mint now captured) recipient topic title body fp v w))
     = (if vd_kind v = ''duplicate'' then of_rows w
        else sent_once mint now captured recipient (if title = [] then topic else title) body fp (of_rows w))"
  by (simp add: notify_act_def wired_notifier_def notify_row_def)

lemma decide_rows:
  "of_rows (st_world (fst (run_step digest (office_handle dir)
      (decide_step name key phase inputs (notify_decide no fp) cache) st))) = of_rows (st_world st)"
  using office_rows [of "decide_step name key phase inputs (notify_decide no fp) cache" digest dir st]
  by (simp add: decide_step_def notify_decide_def)

lemma act_rows:
  "of_rows (st_world (fst (act_on digest (office_handle dir) name key phase inputs act cache raw st)))
     \<in> {of_rows (st_world st)} \<union> {of_rows (fst (act v (st_world st))) | v. to_verdict raw = Inr v}"
proof (cases "to_verdict raw")
  case (Inr v)
  then show ?thesis
    using office_rows [of "act_step name key phase inputs raw (act v) cache" digest dir st]
    by (auto simp: act_on_def act_step_def split: prod.splits)
qed (simp add: act_on_def)

lemma item_sorted: "item_of (sorted_keys r) k = map_sum id sorted_keys (item_of r k)"
  by (cases r) (simp_all add: item_of_def dict_get_sorted_fields split: option.split)

lemma published_sorted:
  assumes "sorted_keys r' = sorted_keys r" "published_result name field r = Inr v"
  shows "\<exists>v'. published_result name field r' = Inr v' \<and> sorted_keys v' = sorted_keys v"
proof -
  have "map_sum id sorted_keys (published_result name field q) = published_result name field (sorted_keys q)" for q
    by (cases "item_of q ''fields''") (simp_all add: published_result_def item_sorted)
  then have "map_sum id sorted_keys (published_result name field r') = map_sum id sorted_keys (published_result name field r)"
    using assms(1) by metis
  with assms(2) show ?thesis by (cases "published_result name field r'") auto
qed

section \<open>Properties\<close>

text \<open>
  C18: a notification is sent at most once per call, carrying the call's fingerprint, and a
  fingerprint already in the store is sent again only on the word of an earlier ruling in the
  journal: a call that rules afresh finds it and sends nothing.
\<close>

theorem ledger_sends_once:
  "of_rows (st_world (fst (send_notification digest (office_handle dir) (wired_notifier mint now captured)
        run_id started recipient topic name title body window phase key cache st)))
     \<in> {of_rows (st_world st)}
       \<union> (if notification_sent (of_rows (st_world st)) (fingerprint_of recipient topic window started)
            \<and> cached_result digest (office_handle dir) (decide_step name key phase
                 (notify_inputs recipient topic title body run_id)
                 (notify_decide (wired_notifier mint now captured) (fingerprint_of recipient topic window started))
                 cache) (st_world st) = Inr None
          then {} else {sent_once mint now captured recipient (if title = [] then topic else title) body
                          (fingerprint_of recipient topic window started) (of_rows (st_world st))})"
proof -
  let ?fp = "fingerprint_of recipient topic window started"
  let ?no = "wired_notifier mint now captured"
  let ?in = "notify_inputs recipient topic title body run_id"
  let ?act = "notify_act ?no recipient topic title body ?fp"
  let ?sp = "decide_step name key phase ?in (notify_decide ?no ?fp) cache"
  obtain st1 out where d: "run_step digest (office_handle dir) ?sp st = (st1, out)" by fastforce
  have rows: "of_rows (st_world st1) = of_rows (st_world st)"
    using decide_rows [of digest dir name key phase ?in ?no ?fp cache st] d by simp
  have send: "of_rows (fst (?act v (st_world st1)))
      \<in> {of_rows (st_world st)}
        \<union> (if vd_kind v = ''duplicate'' then {}
            else {sent_once mint now captured recipient (if title = [] then topic else title) body ?fp (of_rows (st_world st))})" for v
    by (simp add: notify_act_rows rows)
  show ?thesis
  proof (cases out)
    case (Inl e)
    with d rows show ?thesis
      by (simp add: send_notification_def Let_def run_nonidempotent_def)
  next
    case (Inr raw)
    have "of_rows (st_world (fst (send_notification digest (office_handle dir) ?no run_id started recipient topic name
          title body window phase key cache st)))
        = of_rows (st_world (fst (act_on digest (office_handle dir) name key phase ?in ?act cache raw st1)))"
      using d Inr by (simp add: send_notification_def Let_def run_nonidempotent_def split: prod.split)
    moreover have "vd_kind v = ''duplicate''"
      if "notification_sent (of_rows (st_world st)) ?fp"
        "cached_result digest (office_handle dir) ?sp (st_world st) = Inr None" "to_verdict raw = Inr v" for v
    proof -
      have "notify_decide ?no ?fp None (st_world st)
          = (st_world st, Inr \<lparr>vd_kind = ''duplicate'', vd_payload = JObj [(''key'', JStr ?fp)]\<rparr>)"
        using that(1) by (simp add: notify_decide_def already_sent_def wired_notifier_def)
      from ruled_fresh [OF that(2) this] d Inr that(3) show ?thesis
        by (auto simp: to_verdict_builtins)
    qed
    ultimately show ?thesis
      using act_rows [of digest dir name key phase ?in ?act cache raw st1] rows send by (fastforce split: if_splits)
  qed
qed

text \<open>
  a crash after the row was created and before the action was journaled sends a second
  copy: a replay of the same run takes the ruling ''new'' from the journal, does not look in the
  ledger, and creates another row with the same fingerprint.
\<close>

theorem crashed_send_repeats:
  assumes "cached_result digest (office_handle dir) (decide_step name key phase
       (notify_inputs recipient topic title body run_id)
       (notify_decide (wired_notifier mint now captured) (fingerprint_of recipient topic window started)) True)
       (st_world st) = Inr None"
    and "\<not> notification_sent (of_rows (st_world st)) (fingerprint_of recipient topic window started)"
    and "of_disk (st_world st) (artifact_path (office_handle dir) name key) = None"
    and ruled: "run_step digest (office_handle dir) (decide_step name key phase
       (notify_inputs recipient topic title body run_id)
       (notify_decide (wired_notifier mint now captured) (fingerprint_of recipient topic window started)) True)
       st = (ruled, Inr raw)"
    and crashed: "crashed = at_world ruled (fst (notify_act (wired_notifier mint now captured) recipient topic title body
       (fingerprint_of recipient topic window started) \<lparr>vd_kind = ''new'', vd_payload = JObj []\<rparr> (st_world ruled)))"
  shows "of_rows (st_world (fst (send_notification digest (office_handle dir) (wired_notifier mint now captured)
       run_id started recipient topic name title body window phase key True crashed)))
     = sent_once mint now captured recipient (if title = [] then topic else title) body
         (fingerprint_of recipient topic window started)
         (sent_once mint now captured recipient (if title = [] then topic else title) body
           (fingerprint_of recipient topic window started) (of_rows (st_world st)))"
proof -
  let ?fp = "fingerprint_of recipient topic window started"
  let ?no = "wired_notifier mint now captured"
  let ?in = "notify_inputs recipient topic title body run_id"
  let ?act = "notify_act ?no recipient topic title body ?fp"
  let ?sp = "decide_step name key phase ?in (notify_decide ?no ?fp) True"
  let ?wh = "office_handle dir"
  let ?v = "\<lparr>vd_kind = ''new'', vd_payload = JObj [(''key'', JStr ?fp)]\<rparr>"
  have "notify_decide ?no ?fp None (st_world st) = (st_world st, Inr ?v)"
    using assms(2) by (simp add: notify_decide_def already_sent_def wired_notifier_def)
  from ruled_fresh [OF assms(1) this] ruled
  have w: "st_world ruled = (st_world st)\<lparr>of_disk := (of_disk (st_world st))(artifact_path ?wh name (decide_key key)
      \<mapsto> Parsed (sorted_keys (step_record (input_hash digest ?in) (verdict_builtins ?v))))\<rparr>" by auto
  have world: "st_world crashed = (st_world ruled)\<lparr>of_rows :=
      sent_once mint now captured recipient (if title = [] then topic else title) body ?fp (of_rows (st_world st))\<rparr>"
    by (simp add: crashed notify_act_def wired_notifier_def notify_row_def w)
  have "cached_result digest ?wh ?sp (st_world crashed) = Inr (Some (sorted_keys (verdict_builtins ?v)))"
    by (subst office.recorded_cached) (simp_all add: world w step_paths, simp_all add: decide_step_def)
  then have again: "run_step digest ?wh ?sp crashed
      = (emit (StepSkipped (step_at ?sp)) crashed, Inr (sorted_keys (verdict_builtins ?v)))"
    by (simp add: run_step_def)
  have v: "to_verdict (sorted_keys (verdict_builtins ?v)) = Inr (sort_verdict ?v)"
    by (simp add: to_verdict_sorted to_verdict_builtins)
  let ?sa = "act_step name key phase ?in (sorted_keys (verdict_builtins ?v)) (?act (sort_verdict ?v)) True"
  let ?st = "emit (StepSkipped (step_at ?sp)) crashed"
  have none: "cached_result digest ?wh ?sa (st_world ?st) = Inr None"
    using assms(3) decide_beside_act [of ?wh name key]
    by (simp add: cached_result_def step_paths office.exists_law world w)
  obtain w' r where exec: "sp_execute ?sa None (st_world ?st) = (w', Inr r)"
      and rows: "of_rows w' = sent_once mint now captured recipient (if title = [] then topic else title) body ?fp
        (of_rows (st_world crashed))"
    by (simp add: act_step_def notify_act_def sort_verdict_def wired_notifier_def notify_row_def)
  from office_step [OF _ _ none exec] again v
  show ?thesis
    by (simp add: send_notification_def Let_def run_nonidempotent_def act_on_def rows world act_step_def
        split: prod.split)
qed

lemma dec_zero: "dec 0 = ''0''"
  by code_simp

definition page_bob :: "office step_state \<Rightarrow> office step_state \<times> (step_exn + json)" where
  "page_bob = send_notification (\<lambda>t. t) (office_handle '''') (wired_notifier (\<lambda>rows. dec (length rows)) 0 ''ann'') ''r1''
     None ''bob'' ''late'' ''page'' '''' '''' '''' ''notify'' '''' True"

definition quiet_office :: "office step_state" where
  "quiet_office = \<lparr>st_world = \<lparr>of_disk = (\<lambda>_. None), of_rows = []\<rparr>, st_events = []\<rparr>"

theorem crashed_send_repeats_witness:
  "\<exists>crashed. map fst (of_rows (st_world crashed)) = [''0'']
     \<and> map (nt_dedup \<circ> snd) (of_rows (st_world (fst (page_bob crashed)))) = [''bob:late'', ''bob:late'']"
proof -
  let ?no = "wired_notifier (\<lambda>rows. dec (length rows)) 0 ''ann'' :: office notifier"
  let ?sp = "decide_step ''page'' '''' ''notify'' (notify_inputs ''bob'' ''late'' '''' '''' ''r1'')
    (notify_decide ?no (fingerprint_of ''bob'' ''late'' '''' None)) True"
  have c: "cached_result (\<lambda>t. t) (office_handle '''') ?sp (st_world quiet_office) = Inr None"
    by (simp add: cached_result_def office.exists_law quiet_office_def)
  have n: "\<not> notification_sent (of_rows (st_world quiet_office)) (fingerprint_of ''bob'' ''late'' '''' None)"
    by (simp add: quiet_office_def notification_sent_def)
  have "notify_decide ?no (fingerprint_of ''bob'' ''late'' '''' None) None (st_world quiet_office)
      = (st_world quiet_office, Inr \<lparr>vd_kind = ''new'', vd_payload = JObj [(''key'', JStr ''bob:late'')]\<rparr>)"
    using n by (simp add: notify_decide_def already_sent_def wired_notifier_def fingerprint_of_def)
  from ruled_fresh [OF c this] obtain ruled raw where r:
    "run_step (\<lambda>t. t) (office_handle '''') ?sp quiet_office = (ruled, Inr raw)"
    "of_rows (st_world ruled) = []" by (simp add: quiet_office_def)
  let ?crashed = "at_world ruled (fst (notify_act ?no ''bob'' ''late'' '''' ''''
      (fingerprint_of ''bob'' ''late'' '''' None) \<lparr>vd_kind = ''new'', vd_payload = JObj []\<rparr> (st_world ruled)))"
  have "of_rows (st_world (fst (page_bob ?crashed)))
      = sent_once (\<lambda>rows. dec (length rows)) 0 ''ann'' ''bob'' ''late'' '''' ''bob:late''
          (sent_once (\<lambda>rows. dec (length rows)) 0 ''ann'' ''bob'' ''late'' '''' ''bob:late'' [])"
    using crashed_send_repeats [OF c n _ r(1) refl] by (simp add: page_bob_def quiet_office_def fingerprint_of_def)
  moreover have "map fst (of_rows (st_world ?crashed)) = [''0'']"
    using dec_zero by (simp add: notify_act_rows notify_row_def r(2))
  ultimately show ?thesis by (intro exI [of _ ?crashed]) (simp add: notify_row_def)
qed

text \<open>
  the journal of a named card does not see the card's text: once such a card was filed,
  filing it again under the same name with any other body is skipped, the store is not asked,
  and the old card's id is returned.
\<close>

theorem named_card_edit_masked:
  assumes "step_journal wh files" "name \<noteq> []"
    and "upsert_context_card digest wh casefold sha1 upsert collection keys title body phase cache refs name key st0
           = (st1, Inr cid)"
    and "files (st_world st) (artifact_path wh name key) = files (st_world st1) (artifact_path wh name key)"
  shows "\<exists>cid'. upsert_context_card digest wh casefold sha1 upsert' collection keys title body' phase True refs name key st
      = (emit (StepSkipped (phase, name, key)) st, Inr cid') \<and> sorted_keys cid' = sorted_keys cid"
proof -
  let ?sp = "\<lambda>u b c. upsert_card_step casefold sha1 u collection keys title b phase c refs name key"
  obtain r where r: "run_step digest wh (?sp upsert body cache) st0 = (st1, Inr r)"
      "published_result name ''card_id'' r = Inr cid"
    using assms(3) by (auto simp: upsert_context_card_def bindE_eq_Inr split: prod.splits)
  have "\<exists>r'. run_step digest wh (?sp upsert' body' True) st
        = (emit (StepSkipped (step_at (?sp upsert' body' True))) st, Inr r') \<and> sorted_keys r' = sorted_keys r"
    by (rule step_journal.runs_again [OF assms(1) r(1)])
       (use assms(2,4) in \<open>simp_all add: upsert_card_step_def plain_step_def step_path_def\<close>)
  then obtain r' where r': "run_step digest wh (?sp upsert' body' True) st
      = (emit (StepSkipped (phase, name, key)) st, Inr r')" "sorted_keys r' = sorted_keys r"
    using assms(2) by (auto simp: upsert_card_step_def plain_step_def step_at_def)
  obtain cid' where "published_result name ''card_id'' r' = Inr cid'" "sorted_keys cid' = sorted_keys cid"
    using published_sorted [OF r'(2) r(2)] by blast
  with r'(1) show ?thesis by (auto simp: upsert_context_card_def)
qed

definition file_term :: "string \<Rightarrow> bool \<Rightarrow> disk step_state \<Rightarrow> disk step_state \<times> (step_exn + json)" where
  "file_term body cache = upsert_context_card (\<lambda>t. t) (disk_handle '''') (\<lambda>s. s) (\<lambda>s. s)
     (\<lambda>c ks ti b refs w. (w(''/cards'' \<mapsto> Parsed (JStr b)), Inr ''card-1''))
     ''terms'' [''etch''] ''Etch'' body ''commit'' cache None ''term'' ''''"

theorem named_card_edit_masked_witness:
  "\<exists>cid. file_term ''new text'' True (fst (file_term ''old text'' True blank))
     = (emit (StepSkipped (''commit'', ''term'', '''')) (fst (file_term ''old text'' True blank)), Inr cid)"
proof -
  let ?up = "\<lambda>c ks ti b refs (w :: disk). (w(''/cards'' \<mapsto> Parsed (JStr b)), Inr ''card-1'')"
  obtain st1 where run: "file_term ''old text'' True blank = (st1, Inr (JStr ''card-1''))"
    by (simp add: file_term_def upsert_context_card_def upsert_card_step_def plain_step_def run_step_def
        cached_result_def disk_handle_def workflow_simps attempt_body_def verdict_on_def publish_result_def
        published_result_def item_of_def)
  have "\<exists>cid. file_term ''new text'' True st1 = (emit (StepSkipped (''commit'', ''term'', '''')) st1, Inr cid)
      \<and> sorted_keys cid = sorted_keys (JStr ''card-1'')"
    unfolding file_term_def
    by (rule named_card_edit_masked [OF disk.step_journal_axioms _ run [unfolded file_term_def]]) simp_all
  with run show ?thesis by auto
qed

end
