(* ===== verification/FileStores.thy ===== *)
theory FileStores
  imports WsPrelude DslTemplate
begin

text \<open>
  The files of a workspace: the store the code keeps them in (\<open>filestore/protocol.py\<close>), the
  store held in memory (\<open>filestore/memory.py\<close>), the wrapper that moves a workspace from one
  store to another while both serve (\<open>filestore/migrating.py\<close>), and the helpers of
  \<open>filestore/batch.py\<close>.

  An operation takes the store's state and gives the state after it with its result or the
  exception it raised.  Contents are byte strings.  Each operation of the memory store runs
  under its lock, so it is one step.
\<close>

section \<open>Paths\<close>

definition strip_slashes :: "string \<Rightarrow> string" where
  "strip_slashes s = rev (dropWhile (\<lambda>c. c = CHR ''/'') (rev (dropWhile (\<lambda>c. c = CHR ''/'') s)))"

definition slash_join :: "string list \<Rightarrow> string" where
  "slash_join ps = concat (map (\<lambda>p. CHR ''/'' # p) ps)"

text \<open>The directories above a path, outermost first.\<close>

definition dir_ancestors :: "string \<Rightarrow> string list" where
  "dir_ancestors path =
     (let parts = split_on (CHR ''/'') (strip_slashes path)
      in map (\<lambda>i. slash_join (take (i + 1) parts)) [0 ..< length parts - 1])"

definition abs_path :: "string \<Rightarrow> string" where
  "abs_path path =
     (let p = (if starts_with ''./'' path then drop 2 path else path)
      in if starts_with ''/'' p then p else CHR ''/'' # p)"

definition rel_path :: "string \<Rightarrow> string" where
  "rel_path path = dropWhile (\<lambda>c. c = CHR ''/'') path"

section \<open>The store's interface\<close>

datatype fs_exn = FileNotFound string | FileExists string

type_synonym ('s, 'r) fs_op = "'s \<Rightarrow> 's \<times> (fs_exn + 'r)"

record 's fstore =
  fr_write :: "string \<Rightarrow> string \<Rightarrow> string \<Rightarrow> ('s, unit) fs_op"
  fr_create :: "string \<Rightarrow> string \<Rightarrow> string \<Rightarrow> ('s, unit) fs_op"
  fr_read :: "string \<Rightarrow> string \<Rightarrow> ('s, string) fs_op"
  fr_delete :: "string \<Rightarrow> string \<Rightarrow> ('s, unit) fs_op"
  fr_purge :: "string \<Rightarrow> ('s, unit) fs_op"
  fr_mkdir :: "string \<Rightarrow> string \<Rightarrow> ('s, unit) fs_op"
  fr_rmdir :: "string \<Rightarrow> string \<Rightarrow> ('s, unit) fs_op"
  fr_ls :: "string \<Rightarrow> string \<Rightarrow> 's \<Rightarrow> string list"
  fr_listdir :: "string \<Rightarrow> string \<Rightarrow> 's \<Rightarrow> string list"
  fr_exists :: "string \<Rightarrow> string \<Rightarrow> 's \<Rightarrow> bool"
  fr_is_dir :: "string \<Rightarrow> string \<Rightarrow> 's \<Rightarrow> bool"
  fr_stat_all :: "string \<Rightarrow> string \<Rightarrow> 's \<Rightarrow> (string \<times> nat) list"
  fr_usage :: "string \<Rightarrow> 's \<Rightarrow> nat"
  fr_file_size :: "string \<Rightarrow> string \<Rightarrow> 's \<Rightarrow> nat option"

section \<open>The store in memory\<close>

text \<open>Python keeps the directories as a set; \<open>listdir\<close> gives them here in the order they were added.\<close>

record mem_store =
  mm_files :: "(string, (string, string) dict) dict"
  mm_dirs :: "(string, string list) dict"

definition files_of :: "mem_store \<Rightarrow> string \<Rightarrow> (string, string) dict" where
  "files_of m ws = (case dict_get (mm_files m) ws of None \<Rightarrow> [] | Some fs \<Rightarrow> fs)"

definition dirs_of :: "mem_store \<Rightarrow> string \<Rightarrow> string list" where
  "dirs_of m ws = (case dict_get (mm_dirs m) ws of None \<Rightarrow> [] | Some ds \<Rightarrow> ds)"

definition set_files :: "string \<Rightarrow> (string, string) dict \<Rightarrow> mem_store \<Rightarrow> mem_store" where
  "set_files ws fs m = m\<lparr>mm_files := dict_set ws fs (mm_files m)\<rparr>"

definition set_dirs :: "string \<Rightarrow> string list \<Rightarrow> mem_store \<Rightarrow> mem_store" where
  "set_dirs ws ds m = m\<lparr>mm_dirs := dict_set ws ds (mm_dirs m)\<rparr>"

definition add_dirs :: "string list \<Rightarrow> string list \<Rightarrow> string list" where
  "add_dirs ds new = foldl (\<lambda>acc d. if d \<in> set acc then acc else acc @ [d]) ds new"

definition mem_write :: "string \<Rightarrow> string \<Rightarrow> string \<Rightarrow> (mem_store, unit) fs_op" where
  "mem_write ws path data m =
     (set_dirs ws (add_dirs (dirs_of m ws) (dir_ancestors path))
        (set_files ws (dict_set path data (files_of m ws)) m), Inr ())"

definition mem_create_exclusive :: "string \<Rightarrow> string \<Rightarrow> string \<Rightarrow> (mem_store, unit) fs_op" where
  "mem_create_exclusive ws path data m =
     (if path \<in> set (dict_keys (files_of m ws)) then (m, Inl (FileExists path))
      else mem_write ws path data m)"

definition mem_read :: "string \<Rightarrow> string \<Rightarrow> (mem_store, string) fs_op" where
  "mem_read ws path m =
     (m, case dict_get (files_of m ws) path of
           None \<Rightarrow> Inl (FileNotFound (ws @ '':'' @ path)) | Some b \<Rightarrow> Inr b)"

definition mem_ls :: "string \<Rightarrow> string \<Rightarrow> mem_store \<Rightarrow> string list" where
  "mem_ls ws prefix m = filter (starts_with prefix) (dict_keys (files_of m ws))"

definition mem_stat_all :: "string \<Rightarrow> string \<Rightarrow> mem_store \<Rightarrow> (string \<times> nat) list" where
  "mem_stat_all ws prefix m =
     map (\<lambda>(p, b). (p, length b)) (filter (\<lambda>(p, b). starts_with prefix p) (files_of m ws))"

definition mem_exists :: "string \<Rightarrow> string \<Rightarrow> mem_store \<Rightarrow> bool" where
  "mem_exists ws path m \<longleftrightarrow> path \<in> set (dict_keys (files_of m ws))"

definition mem_usage :: "string \<Rightarrow> mem_store \<Rightarrow> nat" where
  "mem_usage ws m = sum_list (map (\<lambda>(p, b). length b) (files_of m ws))"

definition mem_file_size :: "string \<Rightarrow> string \<Rightarrow> mem_store \<Rightarrow> nat option" where
  "mem_file_size ws path m = map_option length (dict_get (files_of m ws) path)"

definition mem_census :: "mem_store \<Rightarrow> nat \<times> nat \<times> nat" where
  "mem_census m =
     (let counts = map (\<lambda>(ws, fs). length fs) (filter (\<lambda>(ws, fs). fs \<noteq> []) (mm_files m))
      in (sum_list counts, length counts, foldr max counts 0))"

definition mem_purge :: "string \<Rightarrow> (mem_store, unit) fs_op" where
  "mem_purge ws m = (m\<lparr>mm_files := dict_pop ws (mm_files m), mm_dirs := dict_pop ws (mm_dirs m)\<rparr>, Inr ())"

definition mem_delete :: "string \<Rightarrow> string \<Rightarrow> (mem_store, unit) fs_op" where
  "mem_delete ws path m =
     (if path \<in> set (dict_keys (files_of m ws))
      then (set_files ws (dict_pop path (files_of m ws)) m, Inr ())
      else (m, Inl (FileNotFound (ws @ '':'' @ path))))"

definition mem_mkdir :: "string \<Rightarrow> string \<Rightarrow> (mem_store, unit) fs_op" where
  "mem_mkdir ws path m =
     (if path \<in> set (dict_keys (files_of m ws)) then (m, Inl (FileExists (ws @ '':'' @ path)))
      else (set_dirs ws (add_dirs (dirs_of m ws) (path # dir_ancestors path)) m, Inr ()))"

definition mem_rmdir :: "string \<Rightarrow> string \<Rightarrow> (mem_store, unit) fs_op" where
  "mem_rmdir ws path m =
     (if path \<notin> set (dirs_of m ws) then (m, Inl (FileNotFound (ws @ '':'' @ path)))
      else let under = path @ ''/'';
               m1 = set_dirs ws (filter (\<lambda>d. \<not> (d = path \<or> starts_with under d)) (dirs_of m ws)) m
           in (if dict_get (mm_files m) ws = None then m1
               else set_files ws (filter (\<lambda>(p, b). \<not> starts_with under p) (files_of m ws)) m1, Inr ()))"

definition mem_is_dir :: "string \<Rightarrow> string \<Rightarrow> mem_store \<Rightarrow> bool" where
  "mem_is_dir ws path m \<longleftrightarrow> path \<in> set (dirs_of m ws)"

definition mem_listdir :: "string \<Rightarrow> string \<Rightarrow> mem_store \<Rightarrow> string list" where
  "mem_listdir ws prefix m = filter (starts_with prefix) (dirs_of m ws)"

definition memory :: "mem_store fstore" where
  "memory = \<lparr>fr_write = mem_write, fr_create = mem_create_exclusive, fr_read = mem_read,
     fr_delete = mem_delete, fr_purge = mem_purge, fr_mkdir = mem_mkdir, fr_rmdir = mem_rmdir,
     fr_ls = mem_ls, fr_listdir = mem_listdir, fr_exists = mem_exists, fr_is_dir = mem_is_dir,
     fr_stat_all = mem_stat_all, fr_usage = mem_usage, fr_file_size = mem_file_size\<rparr>"

section \<open>Two stores while a workspace moves\<close>

text \<open>\<open>list(dict.fromkeys(xs))\<close>\<close>

fun uniq :: "'a list \<Rightarrow> 'a list" where
  "uniq [] = []"
| "uniq (x # xs) = x # filter (\<lambda>y. y \<noteq> x) (uniq xs)"

definition on_fst :: "('p, 'r) fs_op \<Rightarrow> ('p \<times> 'l, 'r) fs_op" where
  "on_fst f s = (case f (fst s) of (p, out) \<Rightarrow> ((p, snd s), out))"

definition on_snd :: "('l, 'r) fs_op \<Rightarrow> ('p \<times> 'l, 'r) fs_op" where
  "on_snd f s = (case f (snd s) of (l, out) \<Rightarrow> ((fst s, l), out))"

definition mig_create_exclusive ::
  "'p fstore \<Rightarrow> 'l fstore \<Rightarrow> string \<Rightarrow> string \<Rightarrow> string \<Rightarrow> ('p \<times> 'l, unit) fs_op" where
  "mig_create_exclusive P L ws path data s =
     (if fr_exists L ws path (snd s) then (s, Inl (FileExists path))
      else on_fst (fr_create P ws path data) s)"

text \<open>
  A read: the bytes with the store they came from, and the copy into the first store that
  follows a read the second one served.  Other operations may run between the two.
\<close>

definition mig_fetch :: "'p fstore \<Rightarrow> 'l fstore \<Rightarrow> string \<Rightarrow> string \<Rightarrow> ('p \<times> 'l, string \<times> bool) fs_op" where
  "mig_fetch P L ws path s =
     (case on_fst (fr_read P ws path) s of
        (s1, Inr data) \<Rightarrow> (s1, Inr (data, False))
      | (s1, Inl (FileExists e)) \<Rightarrow> (s1, Inl (FileExists e))
      | (s1, Inl (FileNotFound e)) \<Rightarrow>
          (case on_snd (fr_read L ws path) s1 of
             (s2, Inl e) \<Rightarrow> (s2, Inl e)
           | (s2, Inr data) \<Rightarrow> (s2, Inr (data, True))))"

definition mig_keep :: "'p fstore \<Rightarrow> string \<Rightarrow> string \<Rightarrow> string \<times> bool \<Rightarrow> ('p \<times> 'l, string) fs_op" where
  "mig_keep P ws path got s =
     (if snd got
      then (case on_fst (fr_write P ws path (fst got)) s of
              (s', Inl e) \<Rightarrow> (s', Inl e) | (s', Inr u) \<Rightarrow> (s', Inr (fst got)))
      else (s, Inr (fst got)))"

definition mig_read :: "'p fstore \<Rightarrow> 'l fstore \<Rightarrow> string \<Rightarrow> string \<Rightarrow> ('p \<times> 'l, string) fs_op" where
  "mig_read P L ws path s =
     (case mig_fetch P L ws path s of
        (s1, Inl e) \<Rightarrow> (s1, Inl e)
      | (s1, Inr got) \<Rightarrow> mig_keep P ws path got s1)"

definition mig_ls :: "'p fstore \<Rightarrow> 'l fstore \<Rightarrow> string \<Rightarrow> string \<Rightarrow> 'p \<times> 'l \<Rightarrow> string list" where
  "mig_ls P L ws prefix s = uniq (fr_ls P ws prefix (fst s) @ fr_ls L ws prefix (snd s))"

definition mig_listdir :: "'p fstore \<Rightarrow> 'l fstore \<Rightarrow> string \<Rightarrow> string \<Rightarrow> 'p \<times> 'l \<Rightarrow> string list" where
  "mig_listdir P L ws prefix s = uniq (fr_listdir P ws prefix (fst s) @ fr_listdir L ws prefix (snd s))"

definition mig_exists :: "'p fstore \<Rightarrow> 'l fstore \<Rightarrow> string \<Rightarrow> string \<Rightarrow> 'p \<times> 'l \<Rightarrow> bool" where
  "mig_exists P L ws path s \<longleftrightarrow> fr_exists P ws path (fst s) \<or> fr_exists L ws path (snd s)"

definition mig_is_dir :: "'p fstore \<Rightarrow> 'l fstore \<Rightarrow> string \<Rightarrow> string \<Rightarrow> 'p \<times> 'l \<Rightarrow> bool" where
  "mig_is_dir P L ws path s \<longleftrightarrow> fr_is_dir P ws path (fst s) \<or> fr_is_dir L ws path (snd s)"

definition merge_sizes :: "(string \<times> nat) list \<Rightarrow> (string, nat) dict \<Rightarrow> (string, nat) dict" where
  "merge_sizes rows acc = foldl (\<lambda>d (path, size). dict_set path size d) acc rows"

definition mig_stat_all :: "'p fstore \<Rightarrow> 'l fstore \<Rightarrow> string \<Rightarrow> string \<Rightarrow> 'p \<times> 'l \<Rightarrow> (string \<times> nat) list" where
  "mig_stat_all P L ws prefix s =
     merge_sizes (fr_stat_all P ws prefix (fst s)) (merge_sizes (fr_stat_all L ws prefix (snd s)) [])"

definition mig_usage :: "'p fstore \<Rightarrow> 'l fstore \<Rightarrow> string \<Rightarrow> 'p \<times> 'l \<Rightarrow> nat" where
  "mig_usage P L ws s =
     sum_list (map snd (merge_sizes (fr_stat_all P ws [] (fst s)) (merge_sizes (fr_stat_all L ws [] (snd s)) [])))"

definition mig_file_size :: "'p fstore \<Rightarrow> 'l fstore \<Rightarrow> string \<Rightarrow> string \<Rightarrow> 'p \<times> 'l \<Rightarrow> nat option" where
  "mig_file_size P L ws path s =
     (case fr_file_size P ws path (fst s) of Some n \<Rightarrow> Some n | None \<Rightarrow> fr_file_size L ws path (snd s))"

definition delete_from_both ::
  "('p, unit) fs_op \<Rightarrow> ('l, unit) fs_op \<Rightarrow> string \<Rightarrow> ('p \<times> 'l, unit) fs_op" where
  "delete_from_both f g path s =
     (case on_fst f s of
        (s1, Inl (FileExists e)) \<Rightarrow> (s1, Inl (FileExists e))
      | (s1, out1) \<Rightarrow>
          (case on_snd g s1 of
             (s2, Inl (FileExists e)) \<Rightarrow> (s2, Inl (FileExists e))
           | (s2, out2) \<Rightarrow>
               (s2, if out1 = Inr () \<or> out2 = Inr () then Inr () else Inl (FileNotFound path))))"

definition mig_purge :: "'p fstore \<Rightarrow> 'l fstore \<Rightarrow> string \<Rightarrow> ('p \<times> 'l, unit) fs_op" where
  "mig_purge P L ws s =
     (case on_fst (fr_purge P ws) s of
        (s1, Inl e) \<Rightarrow> (s1, Inl e)
      | (s1, Inr u) \<Rightarrow> on_snd (fr_purge L ws) s1)"

definition mig_mkdir :: "'p fstore \<Rightarrow> 'l fstore \<Rightarrow> string \<Rightarrow> string \<Rightarrow> ('p \<times> 'l, unit) fs_op" where
  "mig_mkdir P L ws path s =
     (if fr_exists L ws path (snd s) then (s, Inl (FileExists path)) else on_fst (fr_mkdir P ws path) s)"

definition migrating :: "'p fstore \<Rightarrow> 'l fstore \<Rightarrow> ('p \<times> 'l) fstore" where
  "migrating P L = \<lparr>fr_write = (\<lambda>ws path data. on_fst (fr_write P ws path data)),
     fr_create = mig_create_exclusive P L, fr_read = mig_read P L,
     fr_delete = (\<lambda>ws path. delete_from_both (fr_delete P ws path) (fr_delete L ws path) path),
     fr_purge = mig_purge P L, fr_mkdir = mig_mkdir P L,
     fr_rmdir = (\<lambda>ws path. delete_from_both (fr_rmdir P ws path) (fr_rmdir L ws path) path),
     fr_ls = mig_ls P L, fr_listdir = mig_listdir P L, fr_exists = mig_exists P L,
     fr_is_dir = mig_is_dir P L, fr_stat_all = mig_stat_all P L, fr_usage = mig_usage P L,
     fr_file_size = mig_file_size P L\<rparr>"

text \<open>The sweep that copies what only the old store holds: files, then the empty directories.\<close>

fun backfill_files ::
  "'p fstore \<Rightarrow> 'l fstore \<Rightarrow> string \<Rightarrow> string list \<Rightarrow> nat \<Rightarrow> ('p \<times> 'l, nat) fs_op" where
  "backfill_files P L ws [] n s = (s, Inr n)"
| "backfill_files P L ws (path # ps) n s =
     (if fr_exists P ws path (fst s) then backfill_files P L ws ps n s
      else case on_snd (fr_read L ws path) s of
             (s1, Inl e) \<Rightarrow> (s1, Inl e)
           | (s1, Inr data) \<Rightarrow>
               (case on_fst (fr_write P ws path data) s1 of
                  (s2, Inl e) \<Rightarrow> (s2, Inl e)
                | (s2, Inr u) \<Rightarrow> backfill_files P L ws ps (n + 1) s2))"

fun backfill_dirs :: "'p fstore \<Rightarrow> string \<Rightarrow> string list \<Rightarrow> nat \<Rightarrow> ('p \<times> 'l, nat) fs_op" where
  "backfill_dirs P ws [] n s = (s, Inr n)"
| "backfill_dirs P ws (d # ds) n s =
     (if fr_is_dir P ws d (fst s) then backfill_dirs P ws ds n s
      else case on_fst (fr_mkdir P ws d) s of
             (s1, Inl e) \<Rightarrow> (s1, Inl e)
           | (s1, Inr u) \<Rightarrow> backfill_dirs P ws ds n s1)"

definition backfill_workspace :: "'p fstore \<Rightarrow> 'l fstore \<Rightarrow> string \<Rightarrow> ('p \<times> 'l, nat) fs_op" where
  "backfill_workspace P L ws s =
     (case backfill_files P L ws (fr_ls L ws [] (snd s)) 0 s of
        (s1, Inl e) \<Rightarrow> (s1, Inl e)
      | (s1, Inr n) \<Rightarrow> backfill_dirs P ws (fr_listdir L ws [] (snd s1)) n s1)"

section \<open>Reading a batch\<close>

text \<open>On a store without \<open>read_many_existing\<close>.\<close>

fun read_all :: "'s fstore \<Rightarrow> string \<Rightarrow> string list \<Rightarrow> ('s, string list) fs_op" where
  "read_all R ws [] s = (s, Inr [])"
| "read_all R ws (p # ps) s =
     (case fr_read R ws p s of
        (s1, Inl e) \<Rightarrow> (s1, Inl e)
      | (s1, Inr b) \<Rightarrow>
          (case read_all R ws ps s1 of (s2, Inl e) \<Rightarrow> (s2, Inl e) | (s2, Inr bs) \<Rightarrow> (s2, Inr (b # bs))))"

fun read_all_existing ::
  "'s fstore \<Rightarrow> string \<Rightarrow> string list \<Rightarrow> (string, string) dict \<Rightarrow> ('s, (string, string) dict) fs_op" where
  "read_all_existing R ws [] got s = (s, Inr got)"
| "read_all_existing R ws (p # ps) got s =
     (case fr_read R ws p s of
        (s1, Inr b) \<Rightarrow> read_all_existing R ws ps (dict_set p b got) s1
      | (s1, Inl (FileNotFound e)) \<Rightarrow> read_all_existing R ws ps got s1
      | (s1, Inl (FileExists e)) \<Rightarrow> (s1, Inl (FileExists e)))"

section \<open>What a store promises\<close>

text \<open>
  The files a client sees, \<open>view\<close>, of a store with room whose state is well formed; \<open>sized\<close> is
  what a listing with sizes gives.
\<close>

definition sized :: "(string \<Rightarrow> string option) \<Rightarrow> string \<Rightarrow> (string \<times> nat) list \<Rightarrow> bool" where
  "sized v prefix rows \<longleftrightarrow> dict_ok rows
     \<and> (\<forall>p. dict_get rows p = (if starts_with prefix p then map_option length (v p) else None))"

definition total_size :: "(string \<Rightarrow> string option) \<Rightarrow> nat" where
  "total_size v = (\<Sum>p \<in> dom v. length (the (v p)))"

locale file_store =
  fixes R :: "'s fstore" and view :: "'s \<Rightarrow> string \<Rightarrow> string \<Rightarrow> string option" and ok :: "'s \<Rightarrow> bool"
  assumes write_law: "ok s \<Longrightarrow> \<exists>s'. fr_write R ws p b s = (s', Inr ()) \<and> ok s'
          \<and> view s' = (view s)(ws := (view s ws)(p \<mapsto> b))"
    and create_law: "ok s \<Longrightarrow> view s ws p = None \<Longrightarrow> \<exists>s'. fr_create R ws p b s = (s', Inr ()) \<and> ok s'
          \<and> view s' = (view s)(ws := (view s ws)(p \<mapsto> b))"
    and taken_law: "ok s \<Longrightarrow> view s ws p \<noteq> None \<Longrightarrow> fr_create R ws p b s = (s, Inl (FileExists p))"
    and read_law: "ok s \<Longrightarrow> \<exists>s'. fr_read R ws p s = (s', case view s ws p of
            None \<Rightarrow> Inl (FileNotFound (ws @ '':'' @ p)) | Some b \<Rightarrow> Inr b) \<and> ok s' \<and> view s' = view s"
    and delete_law: "ok s \<Longrightarrow> view s ws p \<noteq> None \<Longrightarrow> \<exists>s'. fr_delete R ws p s = (s', Inr ()) \<and> ok s'
          \<and> view s' = (view s)(ws := (view s ws)(p := None))"
    and absent_law: "ok s \<Longrightarrow> view s ws p = None \<Longrightarrow> \<exists>s' e. fr_delete R ws p s = (s', Inl (FileNotFound e)) \<and> ok s'
          \<and> view s' = view s"
    and purge_law: "ok s \<Longrightarrow> \<exists>s'. fr_purge R ws s = (s', Inr ()) \<and> ok s' \<and> view s' = (view s)(ws := Map.empty)"
    and mkdir_law: "ok s \<Longrightarrow> ok (fst (fr_mkdir R ws d s)) \<and> view (fst (fr_mkdir R ws d s)) = view s"
    and exists_law: "ok s \<Longrightarrow> fr_exists R ws p s \<longleftrightarrow> view s ws p \<noteq> None"
    and ls_law: "ok s \<Longrightarrow> distinct (fr_ls R ws prefix s)
          \<and> set (fr_ls R ws prefix s) = {p. view s ws p \<noteq> None \<and> starts_with prefix p}"
    and stat_law: "ok s \<Longrightarrow> sized (view s ws) prefix (fr_stat_all R ws prefix s)"
    and usage_law: "ok s \<Longrightarrow> fr_usage R ws s = total_size (view s ws)"
    and size_law: "ok s \<Longrightarrow> fr_file_size R ws p s = map_option length (view s ws p)"
begin

lemma ls_all: "ok s \<Longrightarrow> set (fr_ls R ws [] s) = dom (view s ws)"
  using ls_law [of s ws "[]"] by (auto simp: starts_with_def)

lemma finite_view: "ok s \<Longrightarrow> finite (dom (view s ws))"
  using ls_all [of s ws] by (metis List.finite_set)

lemma reads:
  assumes "ok s" "fr_read R ws p s = (s', out)"
  shows "ok s'" "view s' = view s"
    "out = (case view s ws p of None \<Rightarrow> Inl (FileNotFound (ws @ '':'' @ p)) | Some b \<Rightarrow> Inr b)"
  using read_law [OF assms(1), of ws p] assms(2) by auto

lemma writes:
  assumes "ok s" "fr_write R ws p b s = (s', out)"
  shows "ok s'" "view s' = (view s)(ws := (view s ws)(p \<mapsto> b))" "out = Inr ()"
  using write_law [OF assms(1), of ws p b] assms(2) by auto

text \<open>A batch that is tolerant of absent files gives exactly those that are there.\<close>

lemma existing_reads:
  "ok s \<Longrightarrow> \<exists>s'. read_all_existing R ws ps got s = (s', Inr (foldl (\<lambda>d p. case view s ws p of None \<Rightarrow> d | Some b \<Rightarrow> dict_set p b d) got ps))
      \<and> ok s' \<and> view s' = view s"
proof (induction ps arbitrary: s got)
  case (Cons p ps)
  obtain s1 out where r: "fr_read R ws p s = (s1, out)" by fastforce
  note s1 = reads [OF Cons.prems r]
  from Cons.IH [OF s1(1)] s1(2,3) r show ?case by (cases "view s ws p") fastforce+
qed simp

lemma all_reads:
  "ok s \<Longrightarrow> \<forall>p \<in> set ps. view s ws p \<noteq> None \<Longrightarrow>
     \<exists>s'. read_all R ws ps s = (s', Inr (map (\<lambda>p. the (view s ws p)) ps)) \<and> ok s' \<and> view s' = view s"
proof (induction ps arbitrary: s)
  case (Cons p ps)
  obtain s1 out where r: "fr_read R ws p s = (s1, out)" by fastforce
  note s1 = reads [OF Cons.prems(1) r]
  from Cons.prems(2) s1(2) have "\<forall>p \<in> set ps. view s1 ws p \<noteq> None" by simp
  from Cons.IH [OF s1(1) this] s1(2,3) r Cons.prems(2) show ?case by fastforce
qed simp

end

section \<open>The memory store keeps the promise\<close>

definition mem_view :: "mem_store \<Rightarrow> string \<Rightarrow> string \<Rightarrow> string option" where
  "mem_view m ws p = dict_get (files_of m ws) p"

definition mem_ok :: "mem_store \<Rightarrow> bool" where
  "mem_ok m \<longleftrightarrow> (\<forall>ws. dict_ok (files_of m ws))"

lemma files_of_simps [simp]:
  "files_of (set_files ws fs m) ws' = (if ws' = ws then fs else files_of m ws')"
  "files_of (set_dirs ws ds m) ws' = files_of m ws'"
  "dirs_of (set_dirs ws ds m) ws' = (if ws' = ws then ds else dirs_of m ws')"
  "dirs_of (set_files ws fs m) ws' = dirs_of m ws'"
  by (simp_all add: files_of_def set_files_def set_dirs_def dirs_of_def)

lemma dict_ok_filter [simp]: "dict_ok d \<Longrightarrow> dict_ok (filter P d)"
  by (induction d) (auto simp: dict_ok_def)

lemma dict_get_filter_key: "dict_get (filter (\<lambda>(p, b). P p) d) k = (if P k then dict_get d k else None)"
  by (induction d) auto

lemma keys_dom: "k \<in> fst ` set d \<longleftrightarrow> dict_get d k \<noteq> None"
  using dict_get_eq_None [of d k] by simp

lemma dict_get_lengths: "dict_get (map (\<lambda>(p, b). (p, length b)) d) k = map_option length (dict_get d k)"
  by (induction d) auto

lemma dict_ok_lengths: "dict_ok (map (\<lambda>(p, b). (p, length b)) d) \<longleftrightarrow> dict_ok d"
  by (simp add: dict_ok_def comp_def split_def)

lemma sum_dict:
  "dict_ok d \<Longrightarrow> sum_list (map (\<lambda>(p, b). f b) d) = (\<Sum>p \<in> dom (dict_get d). f (the (dict_get d p)))"
proof (induction d)
  case (Cons kv d)
  obtain k v where kv: "kv = (k, v)" by fastforce
  have fin: "finite (dom (dict_get d))" by (simp add: dict_get_def [abs_def] finite_dom_map_of)
  have notin: "dict_get d k = None" using Cons.prems kv by (simp add: dict_get_eq_None)
  have d: "dom (dict_get (kv # d)) = insert k (dom (dict_get d))" using kv by (auto split: if_splits)
  have "(\<Sum>p \<in> dom (dict_get d). f (the (dict_get (kv # d) p))) = (\<Sum>p \<in> dom (dict_get d). f (the (dict_get d p)))"
    by (rule sum.cong) (use kv notin in auto)
  moreover have "k \<notin> dom (dict_get d)" using notin by auto
  ultimately have "(\<Sum>p \<in> dom (dict_get (kv # d)). f (the (dict_get (kv # d) p)))
      = f v + (\<Sum>p \<in> dom (dict_get d). f (the (dict_get d p)))"
    unfolding d using kv fin by simp
  moreover have "sum_list (map (\<lambda>(p, b). f b) (kv # d)) = f v + (\<Sum>p \<in> dom (dict_get d). f (the (dict_get d p)))"
    using Cons kv by simp
  ultimately show ?case by metis
qed (simp add: dom_def)

interpretation mem: file_store memory mem_view mem_ok
proof
  fix s :: mem_store and ws p b prefix d
  assume ok: "mem_ok s"
  show "\<exists>s'. fr_write memory ws p b s = (s', Inr ()) \<and> mem_ok s'
      \<and> mem_view s' = (mem_view s)(ws := (mem_view s ws)(p \<mapsto> b))"
    using ok by (auto simp: memory_def mem_write_def mem_ok_def mem_view_def fun_eq_iff)
  show "\<exists>s'. fr_create memory ws p b s = (s', Inr ()) \<and> mem_ok s'
      \<and> mem_view s' = (mem_view s)(ws := (mem_view s ws)(p \<mapsto> b))" if "mem_view s ws p = None"
    using ok that by (auto simp: memory_def mem_create_exclusive_def mem_write_def mem_ok_def mem_view_def
        fun_eq_iff dict_get_eq_None)
  show "fr_create memory ws p b s = (s, Inl (FileExists p))" if "mem_view s ws p \<noteq> None"
    using that by (auto simp: memory_def mem_create_exclusive_def mem_view_def dict_get_eq_None)
  show "\<exists>s'. fr_read memory ws p s = (s', case mem_view s ws p of
      None \<Rightarrow> Inl (FileNotFound (ws @ '':'' @ p)) | Some b \<Rightarrow> Inr b) \<and> mem_ok s' \<and> mem_view s' = mem_view s"
    using ok by (simp add: memory_def mem_read_def mem_view_def)
  show "\<exists>s'. fr_delete memory ws p s = (s', Inr ()) \<and> mem_ok s'
      \<and> mem_view s' = (mem_view s)(ws := (mem_view s ws)(p := None))" if "mem_view s ws p \<noteq> None"
    using ok that by (auto simp: memory_def mem_delete_def mem_ok_def mem_view_def fun_eq_iff keys_dom simp del: not_None_eq)
  show "\<exists>s' e. fr_delete memory ws p s = (s', Inl (FileNotFound e)) \<and> mem_ok s' \<and> mem_view s' = mem_view s"
    if "mem_view s ws p = None"
    using ok that by (auto simp: memory_def mem_delete_def mem_view_def dict_get_eq_None)
  show "\<exists>s'. fr_purge memory ws s = (s', Inr ()) \<and> mem_ok s' \<and> mem_view s' = (mem_view s)(ws := Map.empty)"
    using ok by (auto simp: memory_def mem_purge_def mem_ok_def mem_view_def files_of_def fun_eq_iff split: if_splits)
  show "mem_ok (fst (fr_mkdir memory ws d s)) \<and> mem_view (fst (fr_mkdir memory ws d s)) = mem_view s"
    using ok by (simp add: memory_def mem_mkdir_def mem_ok_def mem_view_def fun_eq_iff)
  show "fr_exists memory ws p s \<longleftrightarrow> mem_view s ws p \<noteq> None"
    by (simp add: memory_def mem_exists_def mem_view_def keys_dom del: not_None_eq)
  show "distinct (fr_ls memory ws prefix s)
      \<and> set (fr_ls memory ws prefix s) = {p. mem_view s ws p \<noteq> None \<and> starts_with prefix p}"
    using ok by (auto simp: memory_def mem_ls_def mem_view_def mem_ok_def dict_ok_def keys_dom simp del: not_None_eq)
  show "sized (mem_view s ws) prefix (fr_stat_all memory ws prefix s)"
    using ok by (simp add: memory_def mem_stat_all_def sized_def mem_view_def mem_ok_def dict_get_lengths
        dict_get_filter_key dict_ok_lengths)
  show "fr_usage memory ws s = total_size (mem_view s ws)"
    using ok sum_dict [of "files_of s ws" length]
    by (simp add: memory_def mem_usage_def total_size_def mem_view_def [abs_def] mem_ok_def)
  show "fr_file_size memory ws p s = map_option length (mem_view s ws p)"
    by (simp add: memory_def mem_file_size_def mem_view_def)
qed

section \<open>Two stores are one\<close>

definition union_view ::
  "('p \<Rightarrow> string \<Rightarrow> string \<Rightarrow> string option) \<Rightarrow> ('l \<Rightarrow> string \<Rightarrow> string \<Rightarrow> string option)
   \<Rightarrow> 'p \<times> 'l \<Rightarrow> string \<Rightarrow> string \<Rightarrow> string option" where
  "union_view vp vl s ws = vl (snd s) ws ++ vp (fst s) ws"

lemma set_uniq [simp]: "set (uniq xs) = set xs"
  by (induction xs) auto

lemma distinct_uniq [simp]: "distinct (uniq xs)"
  by (induction xs) auto

lemma merged_sizes:
  "dict_ok acc \<Longrightarrow> dict_ok rows \<Longrightarrow> dict_ok (merge_sizes rows acc)
     \<and> dict_get (merge_sizes rows acc) p = (case dict_get rows p of Some n \<Rightarrow> Some n | None \<Rightarrow> dict_get acc p)"
proof (induction rows arbitrary: acc)
  case (Cons kv rows)
  obtain k n where "kv = (k, n)" by fastforce
  with Cons.IH [of "dict_set k n acc"] Cons.prems show ?case
    by (auto simp: merge_sizes_def keys_dom split: option.splits)
qed (simp add: merge_sizes_def)

lemma sized_total: "sized v [] rows \<Longrightarrow> sum_list (map snd rows) = total_size v"
proof -
  assume s: "sized v [] rows"
  then have g: "dict_get rows p = map_option length (v p)" for p by (simp add: sized_def starts_with_def)
  have "sum_list (map snd rows) = (\<Sum>p \<in> dom (dict_get rows). the (dict_get rows p))"
    using sum_dict [of rows "\<lambda>n. n"] s by (simp add: sized_def split_def)
  also have "\<dots> = total_size v"
    unfolding total_size_def by (rule sum.cong) (auto simp: g)
  finally show ?thesis .
qed

locale two_stores =
  P: file_store P vp okp + L: file_store L vl okl
  for P :: "'p fstore" and vp okp and L :: "'l fstore" and vl okl
begin

abbreviation seen where "seen \<equiv> union_view vp vl"

abbreviation both_ok where "both_ok s \<equiv> okp (fst s) \<and> okl (snd s)"

lemma merged_stat:
  assumes "both_ok s"
  shows "sized (seen s ws) prefix (merge_sizes (fr_stat_all P ws prefix (fst s))
     (merge_sizes (fr_stat_all L ws prefix (snd s)) []))"
proof -
  have p: "sized (vp (fst s) ws) prefix (fr_stat_all P ws prefix (fst s))"
    and l: "sized (vl (snd s) ws) prefix (fr_stat_all L ws prefix (snd s))"
    using P.stat_law L.stat_law assms by simp_all
  let ?l = "merge_sizes (fr_stat_all L ws prefix (snd s)) []"
  have l': "dict_ok ?l \<and> dict_get ?l q = dict_get (fr_stat_all L ws prefix (snd s)) q" for q
    using merged_sizes [of "[]" "fr_stat_all L ws prefix (snd s)" q] l
    by (auto simp: sized_def split: option.split)
  show ?thesis
    using merged_sizes [of ?l "fr_stat_all P ws prefix (fst s)"] l' p l
    by (auto simp: sized_def union_view_def map_add_def split: option.splits)
qed

lemma kept_by_fst:
  "okp p' \<Longrightarrow> vp p' = (vp (fst s))(ws := (vp (fst s) ws)(q \<mapsto> b)) \<Longrightarrow>
     seen (p', snd s) = (seen s)(ws := (seen s ws)(q \<mapsto> b))"
  by (auto simp: union_view_def fun_eq_iff map_add_def)

lemma mig_writes:
  assumes "both_ok s"
  shows "\<exists>s'. on_fst (fr_write P ws q b) s = (s', Inr ()) \<and> both_ok s' \<and> snd s' = snd s
     \<and> vp (fst s') = (vp (fst s))(ws := (vp (fst s) ws)(q \<mapsto> b))
     \<and> seen s' = (seen s)(ws := (seen s ws)(q \<mapsto> b))"
  using P.write_law [of "fst s" ws q b] assms kept_by_fst by (auto simp: on_fst_def)

lemma fetches:
  assumes "both_ok s"
  shows "\<exists>s'. mig_fetch P L ws q s = (s', case seen s ws q of
       None \<Rightarrow> Inl (FileNotFound (ws @ '':'' @ q)) | Some b \<Rightarrow> Inr (b, vp (fst s) ws q = None))
     \<and> both_ok s' \<and> vp (fst s') = vp (fst s) \<and> vl (snd s') = vl (snd s)"
proof -
  obtain p1 out1 where p1: "fr_read P ws q (fst s) = (p1, out1)" by fastforce
  obtain l2 out2 where l2: "fr_read L ws q (snd s) = (l2, out2)" by fastforce
  note rp = P.reads [OF _ p1] and rl = L.reads [OF _ l2]
  show ?thesis
    using rp rl assms p1 l2
    by (cases "vp (fst s) ws q"; cases "vl (snd s) ws q")
       (auto simp: mig_fetch_def on_fst_def on_snd_def union_view_def map_add_def)
qed

lemma mig_reads:
  assumes "both_ok s"
  shows "\<exists>s'. mig_read P L ws q s = (s', case seen s ws q of
       None \<Rightarrow> Inl (FileNotFound (ws @ '':'' @ q)) | Some b \<Rightarrow> Inr b) \<and> both_ok s' \<and> seen s' = seen s"
proof -
  obtain s1 where s1: "mig_fetch P L ws q s = (s1, case seen s ws q of
       None \<Rightarrow> Inl (FileNotFound (ws @ '':'' @ q)) | Some b \<Rightarrow> Inr (b, vp (fst s) ws q = None))"
      "both_ok s1" "vp (fst s1) = vp (fst s)" "vl (snd s1) = vl (snd s)"
    using fetches [OF assms, of ws q] by blast
  have same: "seen s1 = seen s" by (rule ext) (simp add: union_view_def s1)
  show ?thesis
  proof (cases "seen s ws q")
    case (Some b)
    obtain s2 where s2: "on_fst (fr_write P ws q b) s1 = (s2, Inr ())" "both_ok s2"
        "seen s2 = (seen s1)(ws := (seen s1 ws)(q \<mapsto> b))"
      using mig_writes [OF s1(2), of ws q b] by blast
    have "(seen s)(ws := (seen s ws)(q \<mapsto> b)) = seen s" using Some by (auto simp: fun_eq_iff)
    with Some s1 s2 same show ?thesis
      by (cases s1; cases s2; cases "vp (fst s) ws q") (auto simp: mig_read_def mig_keep_def)
  qed (use s1 same in \<open>simp add: mig_read_def\<close>)
qed

lemma mig_deletes:
  assumes "both_ok s"
  shows "\<exists>s'. delete_from_both (fr_delete P ws q) (fr_delete L ws q) q s
      = (s', if seen s ws q = None then Inl (FileNotFound q) else Inr ())
     \<and> both_ok s' \<and> seen s' = (seen s)(ws := (seen s ws)(q := None))"
proof -
  have p: "\<exists>p' out. fr_delete P ws q (fst s) = (p', out) \<and> okp p'
      \<and> vp p' = (vp (fst s))(ws := (vp (fst s) ws)(q := None))
      \<and> (if vp (fst s) ws q = None then \<exists>e. out = Inl (FileNotFound e) else out = Inr ())"
    using P.delete_law [of "fst s" ws q] P.absent_law [of "fst s" ws q] assms
    by (cases "vp (fst s) ws q") (auto simp: fun_upd_idem)
  have l: "\<exists>l' out. fr_delete L ws q (snd s) = (l', out) \<and> okl l'
      \<and> vl l' = (vl (snd s))(ws := (vl (snd s) ws)(q := None))
      \<and> (if vl (snd s) ws q = None then \<exists>e. out = Inl (FileNotFound e) else out = Inr ())"
    using L.delete_law [of "snd s" ws q] L.absent_law [of "snd s" ws q] assms
    by (cases "vl (snd s) ws q") (auto simp: fun_upd_idem)
  obtain p' o1 where p': "fr_delete P ws q (fst s) = (p', o1)" "okp p'"
      "vp p' = (vp (fst s))(ws := (vp (fst s) ws)(q := None))"
      "if vp (fst s) ws q = None then \<exists>e. o1 = Inl (FileNotFound e) else o1 = Inr ()" using p by blast
  obtain l' o2 where l': "fr_delete L ws q (snd s) = (l', o2)" "okl l'"
      "vl l' = (vl (snd s))(ws := (vl (snd s) ws)(q := None))"
      "if vl (snd s) ws q = None then \<exists>e. o2 = Inl (FileNotFound e) else o2 = Inr ()" using l by blast
  have gone: "seen (p', l') = (seen s)(ws := (seen s ws)(q := None))"
    by (rule ext) (auto simp: union_view_def p' l' map_add_def split: option.split)
  have "delete_from_both (fr_delete P ws q) (fr_delete L ws q) q s
      = ((p', l'), if seen s ws q = None then Inl (FileNotFound q) else Inr ())"
    using p'(1,4) l'(1,4)
    by (auto simp: delete_from_both_def on_fst_def on_snd_def union_view_def split: if_splits)
  with gone p'(2) l'(2) show ?thesis by auto
qed

text \<open>The pair behaves as one store whose files are those of either, the first one's where both have one.\<close>

lemma one_store: "file_store (migrating P L) seen both_ok"
proof
  fix s :: "'p \<times> 'l" and ws p b prefix d
  assume ok: "both_ok s"
  show "\<exists>s'. fr_write (migrating P L) ws p b s = (s', Inr ()) \<and> both_ok s'
      \<and> seen s' = (seen s)(ws := (seen s ws)(p \<mapsto> b))"
    using mig_writes [OF ok, of ws p b] by (auto simp: migrating_def)
  show "\<exists>s'. fr_create (migrating P L) ws p b s = (s', Inr ()) \<and> both_ok s'
      \<and> seen s' = (seen s)(ws := (seen s ws)(p \<mapsto> b))" if "seen s ws p = None"
  proof -
    have none: "vp (fst s) ws p = None" "vl (snd s) ws p = None" using that by (auto simp: union_view_def)
    obtain p' where p': "fr_create P ws p b (fst s) = (p', Inr ())" "okp p'"
        "vp p' = (vp (fst s))(ws := (vp (fst s) ws)(p \<mapsto> b))"
      using P.create_law [OF _ none(1), of b] ok by blast
    show ?thesis
      using p' kept_by_fst [OF p'(2,3)] L.exists_law [of "snd s" ws p] none ok
      by (simp add: migrating_def mig_create_exclusive_def on_fst_def)
  qed
  show "fr_create (migrating P L) ws p b s = (s, Inl (FileExists p))" if "seen s ws p \<noteq> None"
    using P.taken_law [of "fst s" ws p b] L.exists_law [of "snd s" ws p] ok that
    by (cases s) (auto simp: migrating_def mig_create_exclusive_def on_fst_def union_view_def map_add_def split: option.splits)
  show "\<exists>s'. fr_read (migrating P L) ws p s = (s', case seen s ws p of
      None \<Rightarrow> Inl (FileNotFound (ws @ '':'' @ p)) | Some b \<Rightarrow> Inr b) \<and> both_ok s' \<and> seen s' = seen s"
    using mig_reads [OF ok, of ws p] by (simp add: migrating_def)
  show "\<exists>s'. fr_delete (migrating P L) ws p s = (s', Inr ()) \<and> both_ok s'
      \<and> seen s' = (seen s)(ws := (seen s ws)(p := None))" if "seen s ws p \<noteq> None"
    using mig_deletes [OF ok, of ws p] that by (auto simp: migrating_def)
  show "\<exists>s' e. fr_delete (migrating P L) ws p s = (s', Inl (FileNotFound e)) \<and> both_ok s' \<and> seen s' = seen s"
    if "seen s ws p = None"
    using mig_deletes [OF ok, of ws p] that by (auto simp: migrating_def fun_upd_idem)
  show "\<exists>s'. fr_purge (migrating P L) ws s = (s', Inr ()) \<and> both_ok s' \<and> seen s' = (seen s)(ws := Map.empty)"
  proof -
    obtain p' l' where p': "fr_purge P ws (fst s) = (p', Inr ())" "okp p'" "vp p' = (vp (fst s))(ws := Map.empty)"
      and l': "fr_purge L ws (snd s) = (l', Inr ())" "okl l'" "vl l' = (vl (snd s))(ws := Map.empty)"
      using P.purge_law L.purge_law ok by metis
    have "seen (p', l') = (seen s)(ws := Map.empty)" by (rule ext) (simp add: union_view_def p' l')
    with p' l' show ?thesis by (simp add: migrating_def mig_purge_def on_fst_def on_snd_def)
  qed
  show "both_ok (fst (fr_mkdir (migrating P L) ws d s)) \<and> seen (fst (fr_mkdir (migrating P L) ws d s)) = seen s"
    using P.mkdir_law [of "fst s" ws d] ok
    by (auto simp: migrating_def mig_mkdir_def on_fst_def union_view_def [abs_def] split: prod.split)
  show "fr_exists (migrating P L) ws p s \<longleftrightarrow> seen s ws p \<noteq> None"
    using P.exists_law L.exists_law ok by (auto simp: migrating_def mig_exists_def union_view_def map_add_def split: option.split)
  show "distinct (fr_ls (migrating P L) ws prefix s)
      \<and> set (fr_ls (migrating P L) ws prefix s) = {p. seen s ws p \<noteq> None \<and> starts_with prefix p}"
    using P.ls_law [of "fst s" ws prefix] L.ls_law [of "snd s" ws prefix] ok
    by (auto simp: migrating_def mig_ls_def union_view_def map_add_def split: option.splits)
  show "sized (seen s ws) prefix (fr_stat_all (migrating P L) ws prefix s)"
    using merged_stat [OF ok] by (simp add: migrating_def mig_stat_all_def)
  show "fr_usage (migrating P L) ws s = total_size (seen s ws)"
    using sized_total [OF merged_stat [OF ok]] by (simp add: migrating_def mig_usage_def)
  show "fr_file_size (migrating P L) ws p s = map_option length (seen s ws p)"
    using P.size_law L.size_law ok
    by (auto simp: migrating_def mig_file_size_def union_view_def map_add_def split: option.split)
qed

end

section \<open>The sweep\<close>

context two_stores
begin

lemma copied:
  "both_ok s \<Longrightarrow> set ps \<subseteq> dom (vl (snd s) ws) \<Longrightarrow> distinct ps \<Longrightarrow>
     \<exists>s'. backfill_files P L ws ps n s = (s', Inr (n + length (filter (\<lambda>q. vp (fst s) ws q = None) ps)))
       \<and> both_ok s' \<and> vl (snd s') = vl (snd s)
       \<and> vp (fst s') = (vp (fst s))(ws := (\<lambda>q. if q \<in> set ps then seen s ws q else vp (fst s) ws q))"
proof (induction ps arbitrary: n s)
  case (Cons q ps)
  show ?case
  proof (cases "vp (fst s) ws q")
    case (Some b)
    then have "(\<lambda>r. if r = q \<or> r \<in> set ps then seen s ws r else vp (fst s) ws r)
        = (\<lambda>r. if r \<in> set ps then seen s ws r else vp (fst s) ws r)"
      by (auto simp: union_view_def)
    with Cons.IH [of s n] Cons.prems Some P.exists_law [of "fst s" ws q] show ?thesis by (simp add: dom_def)
  next
    case None
    obtain b where b: "vl (snd s) ws q = Some b" using Cons.prems(2) by auto
    obtain l' where l': "fr_read L ws q (snd s) = (l', Inr b)" "okl l'" "vl l' = vl (snd s)"
      using L.read_law [of "snd s" ws q] Cons.prems(1) b by auto
    let ?s1 = "(fst s, l')"
    obtain p' where p': "fr_write P ws q b (fst s) = (p', Inr ())" "okp p'"
        "vp p' = (vp (fst s))(ws := (vp (fst s) ws)(q \<mapsto> b))"
      using P.write_law [of "fst s" ws q b] Cons.prems(1) by blast
    have see: "seen (p', l') ws r = seen s ws r" for r
      using p'(3) l'(3) b None by (auto simp: union_view_def map_add_def)
    have missing: "filter (\<lambda>r. vp p' ws r = None) ps = filter (\<lambda>r. vp (fst s) ws r = None) ps"
      using Cons.prems(3) p'(3) by (auto intro!: filter_cong)
    have eq: "(vp p')(ws := (\<lambda>r. if r \<in> set ps then seen (p', l') ws r else vp p' ws r))
        = (vp (fst s))(ws := (\<lambda>r. if r = q \<or> r \<in> set ps then seen s ws r else vp (fst s) ws r))"
      using see p'(3) b None by (auto simp: union_view_def map_add_def fun_eq_iff)
    have rest: "okp p' \<and> okl l'" "set ps \<subseteq> dom (vl l' ws)" "distinct ps"
      using Cons.prems p'(2) l'(2,3) by simp_all
    obtain s' where s': "backfill_files P L ws ps (n + 1) (p', l')
          = (s', Inr (n + 1 + length (filter (\<lambda>q. vp p' ws q = None) ps)))"
        "both_ok s'" "vl (snd s') = vl l'"
        "vp (fst s') = (vp p')(ws := (\<lambda>r. if r \<in> set ps then seen (p', l') ws r else vp p' ws r))"
      using Cons.IH [of "(p', l')" "n + 1", unfolded fst_conv snd_conv, OF rest] by blast
    have "backfill_files P L ws (q # ps) n s = backfill_files P L ws ps (n + 1) (p', l')"
      using p'(1) l'(1) None P.exists_law [of "fst s" ws q] Cons.prems(1) by (simp add: on_snd_def on_fst_def)
    with s' eq missing None l'(3) show ?thesis by (simp add: fun_upd_def)
  qed
qed auto

lemma dirs_backfilled:
  "both_ok s \<Longrightarrow> backfill_dirs P ws ds n s = (s', out) \<Longrightarrow>
     both_ok s' \<and> vp (fst s') = vp (fst s) \<and> snd s' = snd s \<and> (\<forall>m. out = Inr m \<longrightarrow> m = n)"
proof (induction ds arbitrary: s)
  case (Cons d ds)
  obtain p1 out1 where m: "fr_mkdir P ws d (fst s) = (p1, out1)" by fastforce
  have p1: "okp p1" "vp p1 = vp (fst s)" using P.mkdir_law [of "fst s" ws d] Cons.prems(1) m by simp_all
  from Cons.IH [of s] Cons.IH [of "(p1, snd s)"] Cons.prems m p1 show ?case
    by (auto simp: on_fst_def split: if_splits sum.splits)
qed auto

lemma swept:
  assumes "both_ok s" "backfill_workspace P L ws s = (s', out)"
  shows "both_ok s'" "seen s' = seen s" "vp (fst s') ws = seen s ws"
    "out = Inr n \<Longrightarrow> n = card {q. vl (snd s) ws q \<noteq> None \<and> vp (fst s) ws q = None}"
proof -
  let ?ps = "fr_ls L ws [] (snd s)"
  have ps: "set ?ps = dom (vl (snd s) ws)" "distinct ?ps"
    using L.ls_all [of "snd s" ws] L.ls_law [of "snd s" ws "[]"] assms(1) by simp_all
  obtain s1 where s1: "backfill_files P L ws ?ps 0 s = (s1, Inr (length (filter (\<lambda>q. vp (fst s) ws q = None) ?ps)))"
      "both_ok s1" "vl (snd s1) = vl (snd s)"
      "vp (fst s1) = (vp (fst s))(ws := (\<lambda>q. if q \<in> set ?ps then seen s ws q else vp (fst s) ws q))"
    using copied [of s ?ps ws 0] assms(1) ps by auto
  have view: "vp (fst s1) ws = seen s ws"
    using ps by (auto simp: s1 union_view_def map_add_def fun_eq_iff domIff split: option.split)
  have see: "seen s1 = seen s"
    by (rule ext)+ (auto simp: union_view_def s1 ps map_add_def split: option.split)
  have "length (filter (\<lambda>q. vp (fst s) ws q = None) ?ps) = card {q \<in> set ?ps. vp (fst s) ws q = None}"
    using ps(2) by (metis distinct_card distinct_filter set_filter)
  moreover have "{q \<in> set ?ps. vp (fst s) ws q = None} = {q. vl (snd s) ws q \<noteq> None \<and> vp (fst s) ws q = None}"
    using ps(1) by auto
  moreover have d: "backfill_dirs P ws (fr_listdir L ws [] (snd s1)) (length (filter (\<lambda>q. vp (fst s) ws q = None) ?ps)) s1
      = (s', out)" using assms(2) s1(1) by (simp add: backfill_workspace_def)
  note e = dirs_backfilled [OF s1(2) d]
  ultimately show "both_ok s'" "vp (fst s') ws = seen s ws"
    "out = Inr n \<Longrightarrow> n = card {q. vl (snd s) ws q \<noteq> None \<and> vp (fst s) ws q = None}"
    using e view by auto
  show "seen s' = seen s" using e see by (auto simp: union_view_def [abs_def])
qed

end

interpretation pair: two_stores memory mem_view mem_ok memory mem_view mem_ok ..

section \<open>Directories in memory\<close>

text \<open>A path spelled in one way: each part after one slash, none empty.\<close>

definition good_parts :: "string list \<Rightarrow> bool" where
  "good_parts ps \<longleftrightarrow> ps \<noteq> [] \<and> (\<forall>x \<in> set ps. x \<noteq> [] \<and> CHR ''/'' \<notin> set x)"

definition normal_path :: "string \<Rightarrow> bool" where
  "normal_path p \<longleftrightarrow> (\<exists>ps. good_parts ps \<and> p = slash_join ps)"

text \<open>Every directory above a file or a directory is there.\<close>

definition dirs_closed :: "mem_store \<Rightarrow> bool" where
  "dirs_closed m \<longleftrightarrow> (\<forall>ws. \<forall>p \<in> set (dict_keys (files_of m ws)) \<union> set (dirs_of m ws).
     normal_path p \<and> set (dir_ancestors p) \<subseteq> set (dirs_of m ws))"

lemma split_on_some [simp]: "split_on d s \<noteq> []"
  by (induction s) (auto split: list.split)

lemma split_on_append: "CHR ''/'' \<notin> set x \<Longrightarrow>
    split_on (CHR ''/'') (x @ s) = (case split_on (CHR ''/'') s of [] \<Rightarrow> [x] | w # ws \<Rightarrow> (x @ w) # ws)"
  by (induction x) (auto split: list.split)

lemma split_on_join: "\<forall>x \<in> set ps. CHR ''/'' \<notin> set x \<Longrightarrow> CHR ''/'' \<notin> set x \<Longrightarrow>
    split_on (CHR ''/'') (x @ slash_join ps) = x # ps"
  by (induction ps arbitrary: x) (simp_all add: slash_join_def split_on_append split_on_append [of _ "[]", simplified])

lemma last_join: "good_parts ps \<Longrightarrow> last (slash_join ps) \<noteq> CHR ''/''"
  unfolding good_parts_def slash_join_def
  by (cases ps rule: rev_cases) (auto simp: last_append dest: last_in_set)

lemma strip_join: "good_parts ps \<Longrightarrow> strip_slashes (slash_join ps) = tl (slash_join ps)"
proof -
  assume g: "good_parts ps"
  then obtain c x qs where ps: "ps = (c # x) # qs" "c \<noteq> CHR ''/''"
    by (cases ps; cases "hd ps") (auto simp: good_parts_def)
  let ?t = "(c # x) @ slash_join qs"
  have t: "slash_join ps = CHR ''/'' # ?t" by (simp add: ps slash_join_def)
  then have "last ?t \<noteq> CHR ''/''" using last_join [OF g] by simp
  then have "dropWhile (\<lambda>c. c = CHR ''/'') (rev ?t) = rev ?t"
    by (cases "rev ?t") (auto simp: hd_rev [symmetric])
  moreover have "dropWhile (\<lambda>c. c = CHR ''/'') (slash_join ps) = ?t" using ps(2) t by simp
  ultimately show ?thesis unfolding strip_slashes_def t by (metis list.sel(3) rev_rev_ident)
qed

lemma ancestors_join:
  assumes "good_parts ps"
  shows "set (dir_ancestors (slash_join ps)) = {slash_join (take k ps) | k. 0 < k \<and> k < length ps}"
proof -
  obtain x qs where ps: "ps = x # qs" using assms by (cases ps) (auto simp: good_parts_def)
  have "split_on (CHR ''/'') (strip_slashes (slash_join ps)) = ps"
    using split_on_join [of qs x] assms unfolding strip_join [OF assms] by (simp add: ps slash_join_def good_parts_def)
  then have "set (dir_ancestors (slash_join ps)) = (\<lambda>i. slash_join (take (i + 1) ps)) ` {0 ..< length ps - 1}"
    by (simp add: dir_ancestors_def Let_def)
  moreover have "slash_join (take k ps) \<in> (\<lambda>i. slash_join (take (i + 1) ps)) ` {0 ..< length ps - 1}"
    if "0 < k" "k < length ps" for k
    by (rule image_eqI [of _ _ "k - 1"]) (use that in auto)
  ultimately show ?thesis by fastforce
qed

text \<open>A directory above a normal path is normal, its own are among those of the path, and it is a proper prefix.\<close>

lemma above:
  assumes "normal_path p" "a \<in> set (dir_ancestors p)"
  shows "normal_path a" "set (dir_ancestors a) \<subseteq> set (dir_ancestors p)" "starts_with (a @ ''/'') p"
proof -
  obtain ps where ps: "good_parts ps" "p = slash_join ps" using assms(1) by (auto simp: normal_path_def)
  obtain k where k: "0 < k" "k < length ps" "a = slash_join (take k ps)"
    using assms(2) ancestors_join [OF ps(1)] by (auto simp: ps(2))
  have g: "good_parts (take k ps)" using ps(1) k by (auto simp: good_parts_def dest: in_set_takeD)
  then show "normal_path a" using k by (auto simp: normal_path_def)
  show "set (dir_ancestors a) \<subseteq> set (dir_ancestors p)"
    using ancestors_join [OF g] ancestors_join [OF ps(1)] k by (auto simp: ps(2) min_def)
  have "slash_join ps = slash_join (take k ps) @ slash_join (drop k ps)"
    by (metis append_take_drop_id concat_append map_append slash_join_def)
  moreover have "slash_join (drop k ps) = CHR ''/'' # tl (slash_join (drop k ps))"
    using k by (cases "drop k ps") (auto simp: slash_join_def)
  ultimately show "starts_with (a @ ''/'') p" by (metis append.assoc append_Cons append_Nil k(3) ps(2) starts_with_append)
qed

lemma set_add_dirs [simp]: "set (add_dirs ds new) = set ds \<union> set new"
  by (induction new arbitrary: ds) (auto simp: add_dirs_def)

definition entries :: "mem_store \<Rightarrow> string \<Rightarrow> string set" where
  "entries m ws = set (dict_keys (files_of m ws)) \<union> set (dirs_of m ws)"

lemma closed_grows:
  assumes "dirs_closed m" "normal_path p"
    and "\<And>w. entries m' w \<subseteq> entries m w \<union> (if w = ws then insert p (set (dir_ancestors p)) else {})"
    and "\<And>w. set (dirs_of m w) \<union> (if w = ws then set (dir_ancestors p) else {}) \<subseteq> set (dirs_of m' w)"
  shows "dirs_closed m'"
  unfolding dirs_closed_def
proof (intro allI ballI)
  fix w q assume "q \<in> set (dict_keys (files_of m' w)) \<union> set (dirs_of m' w)"
  then consider "q \<in> entries m w" | "w = ws" "q = p \<or> q \<in> set (dir_ancestors p)"
    using assms(3) [of w] by (auto simp: entries_def split: if_splits)
  then show "normal_path q \<and> set (dir_ancestors q) \<subseteq> set (dirs_of m' w)"
  proof cases
    case 1
    then show ?thesis using assms(1,4) unfolding dirs_closed_def entries_def by blast
  next
    case 2
    then show ?thesis using above [OF assms(2), of q] assms(2,4) by fastforce
  qed
qed

lemma closed_write: "dirs_closed m \<Longrightarrow> normal_path p \<Longrightarrow> dirs_closed (fst (mem_write ws p b m))"
  by (rule closed_grows [of m p _ ws])
     (auto simp: entries_def mem_write_def set_keys_set [unfolded set_map] simp del: set_map)

lemma closed_mkdir: "dirs_closed m \<Longrightarrow> normal_path p \<Longrightarrow> dirs_closed (fst (mem_mkdir ws p m))"
proof (cases "p \<in> set (dict_keys (files_of m ws))")
  case False
  then have m': "fst (mem_mkdir ws p m) = set_dirs ws (add_dirs (dirs_of m ws) (p # dir_ancestors p)) m"
    by (simp add: mem_mkdir_def)
  show "dirs_closed m \<Longrightarrow> normal_path p \<Longrightarrow> dirs_closed (fst (mem_mkdir ws p m))"
    unfolding m' by (rule closed_grows [of m p _ ws]) (auto simp: entries_def)
qed (simp add: mem_mkdir_def)

lemma starts_trans: "starts_with p q \<Longrightarrow> starts_with q r \<Longrightarrow> starts_with p r"
  unfolding starts_with_def by (metis append.assoc append_take_drop_id append_eq_conv_conj)

lemma closed_rmdir:
  assumes "dirs_closed m" shows "dirs_closed (fst (mem_rmdir ws d m))"
proof -
  have stays: "a \<noteq> d \<and> \<not> starts_with (d @ ''/'') a"
    if "normal_path p" "a \<in> set (dir_ancestors p)" "\<not> starts_with (d @ ''/'') p" for p a
    using above(3) [OF that(1,2)] that(3) starts_trans [of "d @ ''/''" a p] starts_trans [of a "a @ ''/''" p]
    by auto
  have anc: "set (dir_ancestors p) \<subseteq> set (dirs_of m w)" "normal_path p"
    if "p \<in> fst ` set (files_of m w) \<union> set (dirs_of m w)" for p w
    using assms that by (auto simp: dirs_closed_def)
  let ?m = "fst (mem_rmdir ws d m)"
  show ?thesis
  proof (cases "d \<in> set (dirs_of m ws)")
    case True
    have files: "p \<in> fst ` set (files_of ?m w) \<longleftrightarrow>
        p \<in> fst ` set (files_of m w) \<and> (w = ws \<longrightarrow> \<not> starts_with (d @ ''/'') p)" for p w
      using True by (cases "dict_get (mm_files m) ws") (force simp: mem_rmdir_def Let_def files_of_def [of m])+
    have dirs: "p \<in> set (dirs_of ?m w) \<longleftrightarrow>
        p \<in> set (dirs_of m w) \<and> (w = ws \<longrightarrow> p \<noteq> d \<and> \<not> starts_with (d @ ''/'') p)" for p w
      using True by (auto simp: mem_rmdir_def Let_def)
    show ?thesis
      unfolding dirs_closed_def
    proof (intro allI ballI conjI subsetI)
      fix w p assume "p \<in> set (dict_keys (files_of ?m w)) \<union> set (dirs_of ?m w)"
      then have p: "p \<in> fst ` set (files_of m w) \<union> set (dirs_of m w)" "w = ws \<longrightarrow> \<not> starts_with (d @ ''/'') p"
        using files dirs by auto
      show "normal_path p" by (rule anc(2) [OF p(1)])
      show "a \<in> set (dirs_of ?m w)" if "a \<in> set (dir_ancestors p)" for a
        using stays [OF anc(2) [OF p(1)] that] anc(1) [OF p(1)] that p(2) by (auto simp: dirs)
    qed
  qed (use assms in \<open>simp add: mem_rmdir_def\<close>)
qed

context two_stores
begin

lemma returns:
  assumes "both_ok s" "vp (fst s) ws q = None" "vl (snd s) ws q = Some b"
    and "mig_fetch P L ws q s = (s1, Inr got)"
    and "fr_delete (migrating P L) ws q s1 = (s2, out)"
    and "mig_keep P ws q got s2 = (s3, r)"
  shows "out = Inr () \<and> seen s2 ws q = None \<and> seen s3 ws q = Some b \<and> r = Inr b"
proof -
  have see: "seen s ws q = Some b" using assms(2,3) by (simp add: union_view_def map_add_def)
  have s1: "both_ok s1" "got = (b, True)" "seen s1 ws q = Some b"
    using fetches [OF assms(1), of ws q] assms(2-4) see by (auto simp: union_view_def map_add_def)
  have s2: "out = Inr ()" "both_ok s2" "seen s2 ws q = None"
    using mig_deletes [OF s1(1), of ws q] assms(5) s1(3) by (auto simp: migrating_def)
  obtain s3' where "on_fst (fr_write P ws q b) s2 = (s3', Inr ())" "seen s3' = (seen s2)(ws := (seen s2 ws)(q \<mapsto> b))"
    using mig_writes [OF s2(2), of ws q b] by blast
  with assms(6) s1(2) have "s3 = s3'" "r = Inr b" by (simp_all add: mig_keep_def)
  with s2 \<open>seen s3' = _\<close> show ?thesis by simp
qed

end

section \<open>Properties\<close>

text \<open>
  C16: while a workspace moves, the two stores together keep the whole contract of one store:
  reads, listings, sizes, the quota basis, exclusive creation and deletion answer for the union
  of their files, in which the new store's copy hides the old one's, and a read, though it
  copies, changes nothing that can be seen.
\<close>

theorem migrating_is_one_store:
  assumes "file_store P vp okp" "file_store L vl okl"
  shows "file_store (migrating P L) (union_view vp vl) (\<lambda>s. okp (fst s) \<and> okl (snd s))"
  using assms by (intro two_stores.one_store two_stores.intro)

theorem migrating_is_one_store_witness:
  "file_store (migrating memory memory) (union_view mem_view mem_view) (\<lambda>s. mem_ok (fst s) \<and> mem_ok (snd s))"
  using migrating_is_one_store [OF mem.file_store_axioms mem.file_store_axioms] .

text \<open>
  the sweep changes nothing a client sees, and after it, even when it stopped at a
  directory, the new store alone holds every file of the workspace as the union showed it; when
  it reports a number, that is the number of files only the old store had.
\<close>

theorem sweep_completes:
  assumes "file_store P vp okp" "file_store L vl okl" "okp (fst s)" "okl (snd s)"
    and "backfill_workspace P L ws s = (s', out)"
  shows "union_view vp vl s' = union_view vp vl s \<and> vp (fst s') ws = union_view vp vl s ws
     \<and> (\<forall>n. out = Inr n \<longrightarrow> n = card {q. vl (snd s) ws q \<noteq> None \<and> vp (fst s) ws q = None})"
  using two_stores.swept [OF two_stores.intro [OF assms(1,2)] _ assms(5)] assms(3,4) by blast

definition half_moved :: "mem_store \<times> mem_store" where
  "half_moved = (\<lparr>mm_files = [(''ws'', [(''/a'', ''new'')])], mm_dirs = []\<rparr>,
                 \<lparr>mm_files = [(''ws'', [(''/a'', ''old''), (''/b'', ''only old'')])], mm_dirs = []\<rparr>)"

lemma half_moved_ok: "mem_ok (fst half_moved)" "mem_ok (snd half_moved)"
  by (auto simp: half_moved_def mem_ok_def files_of_def)

theorem sweep_completes_witness:
  "mem_view (fst (fst (backfill_workspace memory memory ''ws'' half_moved))) ''ws'' = [''/a'' \<mapsto> ''new'', ''/b'' \<mapsto> ''only old'']"
proof -
  obtain s' out where "backfill_workspace memory memory ''ws'' half_moved = (s', out)" by fastforce
  from sweep_completes [OF mem.file_store_axioms mem.file_store_axioms half_moved_ok this] this show ?thesis
    by (auto simp: half_moved_def mem_view_def [abs_def] files_of_def fun_eq_iff union_view_def map_add_def)
qed

text \<open>
  a read that missed the new store copies what it fetched even when the file was deleted
  meanwhile: the deletion reported success on both stores, and afterwards the file is back.
\<close>

theorem deleted_file_returns:
  assumes "file_store P vp okp" "file_store L vl okl" "okp (fst s)" "okl (snd s)"
    and "vp (fst s) ws path = None" "vl (snd s) ws path = Some b"
    and "mig_fetch P L ws path s = (s1, Inr got)"
    and "fr_delete (migrating P L) ws path s1 = (s2, out)"
    and "mig_keep P ws path got s2 = (s3, r)"
  shows "out = Inr () \<and> union_view vp vl s2 ws path = None \<and> union_view vp vl s3 ws path = Some b \<and> r = Inr b"
  using two_stores.returns [OF two_stores.intro [OF assms(1,2)] _ assms(5-9)] assms(3,4) by blast

definition read_back :: "mem_store \<times> mem_store \<Rightarrow> (mem_store \<times> mem_store) \<times> (fs_exn + string)" where
  "read_back s =
     (case mig_fetch memory memory ''ws'' ''/b'' s of
        (s1, Inl e) \<Rightarrow> (s1, Inl e)
      | (s1, Inr got) \<Rightarrow> mig_keep memory ''ws'' ''/b'' got (fst (fr_delete (migrating memory memory) ''ws'' ''/b'' s1)))"

theorem deleted_file_returns_witness:
  "union_view mem_view mem_view (fst (read_back half_moved)) ''ws'' ''/b'' = Some ''only old''"
proof -
  have v: "mem_view (fst half_moved) ''ws'' ''/b'' = None" "mem_view (snd half_moved) ''ws'' ''/b'' = Some ''only old''"
    by (simp_all add: half_moved_def mem_view_def files_of_def)
  obtain s1 got where s1: "mig_fetch memory memory ''ws'' ''/b'' half_moved = (s1, Inr got)"
    by (simp add: mig_fetch_def on_fst_def on_snd_def memory_def mem_read_def half_moved_def files_of_def)
  obtain s2 out where s2: "fr_delete (migrating memory memory) ''ws'' ''/b'' s1 = (s2, out)" by fastforce
  obtain s3 r where s3: "mig_keep memory ''ws'' ''/b'' got s2 = (s3, r)" by fastforce
  from deleted_file_returns [OF mem.file_store_axioms mem.file_store_axioms half_moved_ok v s1 s2 s3] s1 s2 s3
  show ?thesis by (simp add: read_back_def)
qed

text \<open>A call on the memory store, and the calls whose new paths are spelled in one way.\<close>

datatype mem_call =
  CWrite string string string | CCreate string string string | CRead string string
| CDelete string string | CPurge string | CMkdir string string | CRmdir string string

fun mem_run :: "mem_call \<Rightarrow> mem_store \<Rightarrow> mem_store" where
  "mem_run (CWrite ws p b) m = fst (mem_write ws p b m)"
| "mem_run (CCreate ws p b) m = fst (mem_create_exclusive ws p b m)"
| "mem_run (CRead ws p) m = fst (mem_read ws p m)"
| "mem_run (CDelete ws p) m = fst (mem_delete ws p m)"
| "mem_run (CPurge ws) m = fst (mem_purge ws m)"
| "mem_run (CMkdir ws p) m = fst (mem_mkdir ws p m)"
| "mem_run (CRmdir ws p) m = fst (mem_rmdir ws p m)"

fun tidy :: "mem_call \<Rightarrow> bool" where
  "tidy (CWrite ws p b) = normal_path p"
| "tidy (CCreate ws p b) = normal_path p"
| "tidy (CMkdir ws p) = normal_path p"
| "tidy c = True"

definition empty_store :: mem_store where
  "empty_store = \<lparr>mm_files = [], mm_dirs = []\<rparr>"

lemma run_closed: "dirs_closed m \<Longrightarrow> tidy c \<Longrightarrow> dirs_closed (mem_run c m)"
proof (cases c)
  case (CCreate ws p b)
  moreover assume "dirs_closed m" "tidy c"
  ultimately show ?thesis using closed_write [of m p ws b] by (simp add: mem_create_exclusive_def)
next
  case (CDelete ws p)
  moreover assume "dirs_closed m"
  ultimately show ?thesis
    by (auto simp: mem_delete_def dirs_closed_def set_keys_pop [unfolded set_map] simp del: set_map)
next
  case (CPurge ws)
  moreover assume "dirs_closed m"
  ultimately show ?thesis by (simp add: mem_purge_def dirs_closed_def files_of_def dirs_of_def)
qed (simp_all add: closed_write closed_mkdir closed_rmdir mem_read_def)

lemma run_ok: "mem_ok m \<Longrightarrow> mem_ok (mem_run c m)"
proof (cases c)
  case (CPurge ws)
  moreover assume "mem_ok m"
  ultimately show ?thesis by (simp add: mem_purge_def mem_ok_def files_of_def)
qed (auto simp: mem_write_def mem_create_exclusive_def mem_read_def mem_delete_def mem_mkdir_def mem_rmdir_def
    mem_ok_def Let_def)

text \<open>
  whatever sequence of calls with well-spelled paths an empty memory store went through,
  every directory above a file or directory it holds is a directory, so removing a directory
  never leaves a file under it without its parents; and no path is stored twice.
\<close>

theorem memory_tree_closed:
  assumes "list_all tidy cs"
  shows "mem_ok (fold mem_run cs empty_store)
     \<and> (\<forall>ws p a. (mem_exists ws p (fold mem_run cs empty_store) \<or> mem_is_dir ws p (fold mem_run cs empty_store))
          \<and> a \<in> set (dir_ancestors p) \<longrightarrow> mem_is_dir ws a (fold mem_run cs empty_store))"
proof -
  have "dirs_closed (fold mem_run cs m) \<and> mem_ok (fold mem_run cs m)" if "dirs_closed m" "mem_ok m" for m
    using that assms by (induction cs arbitrary: m) (auto intro: run_closed run_ok)
  moreover have "dirs_closed empty_store" "mem_ok empty_store"
    by (simp_all add: empty_store_def dirs_closed_def mem_ok_def files_of_def dirs_of_def)
  ultimately have "dirs_closed (fold mem_run cs empty_store)" "mem_ok (fold mem_run cs empty_store)" by auto
  then show ?thesis unfolding dirs_closed_def mem_exists_def mem_is_dir_def by blast
qed

theorem memory_tree_closed_witness:
  "mem_is_dir ''ws'' ''/a'' (fold mem_run
     [CWrite ''ws'' ''/a/b/c'' ''x'', CWrite ''ws'' ''/a/d'' ''y'', CRmdir ''ws'' ''/a/b''] empty_store)"
proof -
  let ?cs = "[CWrite ''ws'' ''/a/b/c'' ''x'', CWrite ''ws'' ''/a/d'' ''y'', CRmdir ''ws'' ''/a/b'']"
  have "''/a/b/c'' = slash_join [''a'', ''b'', ''c'']" "''/a/d'' = slash_join [''a'', ''d'']"
    by (simp_all add: slash_join_def)
  moreover have "good_parts [''a'', ''b'', ''c'']" "good_parts [''a'', ''d'']" by (simp_all add: good_parts_def)
  ultimately have t: "list_all tidy ?cs"
    unfolding list.pred_inject tidy.simps normal_path_def by (metis list.pred_inject(1))
  have "mem_exists ''ws'' ''/a/d'' (fold mem_run ?cs empty_store)" "''/a'' \<in> set (dir_ancestors ''/a/d'')"
    by code_simp+
  with memory_tree_closed [OF t] show ?thesis by blast
qed

end
