(* ===== verification/EntityText.thy ===== *)
theory EntityText
  imports FileStores DslChecks
begin

text \<open>
  Entities as text: the schema of a type and its loading (\<open>entity/schema.py\<close>,
  \<open>entity/catalog.py\<close>), a record's file and its parsing (\<open>entity/parser.py\<close>), the skeleton a
  record starts from and the form derived from it (\<open>entity/skeleton.py\<close>, \<open>entity/forms.py\<close>),
  and the block a workflow owns in another origin's record (\<open>workflow/entity_dedup.py\<close>).

  PyYAML is the pair of arguments \<open>load\<close> and \<open>dump\<close>: the value a text denotes or the error's
  message, and the text of a mapping.  Its values are those JSON has; dates and floats are not
  modelled.  SHA-256 is \<open>digest\<close>, in hexadecimal.  Texts are byte strings, and a digit is an
  ASCII digit; the dash in a message is written as a hyphen.
\<close>

section \<open>Schemas\<close>

datatype role =
  TEXT | STATUS | ACTOR | DATE | DATETIMERANGE | NUMBER | PROGRESS | RANK | REF | BACKREF | ROLLUP

definition ROLES :: "(string \<times> role) list" where
  "ROLES = [(''text'', TEXT), (''status'', STATUS), (''actor'', ACTOR), (''date'', DATE),
     (''datetimerange'', DATETIMERANGE), (''number'', NUMBER), (''progress'', PROGRESS), (''rank'', RANK),
     (''ref'', REF), (''backref'', BACKREF), (''rollup'', ROLLUP)]"

text \<open>\<open>Role(value)\<close>, with the old spelling of a range; none when it raises.\<close>

definition role_of :: "string \<Rightarrow> role option" where
  "role_of s =
     (case map_of ROLES s of
        Some r \<Rightarrow> Some r
      | None \<Rightarrow> if s = ''daterange'' then Some DATETIMERANGE else None)"

record field_spec =
  fs_name :: string
  fs_role :: role
  fs_required :: bool
  fs_values :: json
  fs_colors :: "(string, string) dict option"
  fs_to :: json
  fs_from :: json
  fs_over :: json
  fs_agg :: json
  fs_field :: json
  fs_where :: "(string, string) dict option"

record entity_type =
  et_name :: string
  et_schema :: "field_spec list"
  et_skeleton :: string
  et_records_path :: string

text \<open>\<open>EntitySchema.field\<close>\<close>

definition schema_field :: "field_spec list \<Rightarrow> json \<Rightarrow> field_spec option" where
  "schema_field schema name = find (\<lambda>f. JStr (fs_name f) = name) schema"

record diagnostic =
  dg_level :: string
  dg_message :: string
  dg_field :: "string option"

abbreviation diag :: "string \<Rightarrow> string \<Rightarrow> string option \<Rightarrow> diagnostic" where
  "diag level msg fld \<equiv> \<lparr>dg_level = level, dg_message = msg, dg_field = fld\<rparr>"

text \<open>\<open>d.get(k)\<close>, of what may not be a dictionary.\<close>

definition py_get :: "json \<Rightarrow> string \<Rightarrow> json \<Rightarrow> step_exn + json" where
  "py_get v k missing =
     (case v of
        JObj kvs \<Rightarrow> Inr (case dict_get kvs k of None \<Rightarrow> missing | Some x \<Rightarrow> x)
      | _ \<Rightarrow> Inl (Raised ''AttributeError''))"

definition str_dict :: "json \<Rightarrow> (string, string) dict option" where
  "str_dict v = (case v of JObj kvs \<Rightarrow> Some (map (\<lambda>(k, x). (k, py_str x)) kvs) | _ \<Rightarrow> None)"

definition load_field :: "string \<Rightarrow> string \<Rightarrow> json \<Rightarrow> step_exn + diagnostic list \<times> field_spec" where
  "load_field name fname raw =
     (let spec = (if truthy raw then raw else JObj []) in
      bindE (py_get spec ''role'' (JStr ''text'')) (\<lambda>r.
        let get = (\<lambda>k. case py_get spec k JNull of Inr v \<Rightarrow> v | Inl e \<Rightarrow> JNull);
            role = role_of (py_str r)
        in Inr (case role of
                  None \<Rightarrow> [diag ''warning'' (name @ ''.'' @ fname @ '': unknown role, treated as text'') (Some fname)]
                | Some x \<Rightarrow> [],
                \<lparr>fs_name = fname, fs_role = (case role of None \<Rightarrow> TEXT | Some x \<Rightarrow> x),
                 fs_required = truthy (get ''required''), fs_values = get ''values'',
                 fs_colors = str_dict (get ''colors''), fs_to = get ''to'', fs_from = get ''from'',
                 fs_over = get ''over'', fs_agg = get ''agg'', fs_field = get ''field'',
                 fs_where = str_dict (get ''where'')\<rparr>)))"

definition load_type ::
  "(string \<Rightarrow> string + json) \<Rightarrow> string \<Rightarrow> string \<Rightarrow> string \<Rightarrow> step_exn + entity_type option \<times> diagnostic list" where
  "load_type load name schema skeleton =
     (let label = ''entity type '' @ py_repr_str name in
      case load schema of
        Inl e \<Rightarrow> Inr (None, [diag ''error'' (label @ '': bad schema.yaml: '' @ e) (Some name)])
      | Inr (JObj doc) \<Rightarrow>
          (let raw = (case dict_get doc ''fields'' of None \<Rightarrow> JNull | Some v \<Rightarrow> v) in
           bindE (if truthy raw then (case raw of JObj kvs \<Rightarrow> Inr kvs | _ \<Rightarrow> Inl (Raised ''AttributeError'')) else Inr [])
             (\<lambda>kvs. bindE (mapE (\<lambda>(fname, r). load_field name fname r) kvs) (\<lambda>parts.
                Inr (Some \<lparr>et_name = name, et_schema = map snd parts, et_skeleton = skeleton,
                           et_records_path = (case dict_get doc ''path'' of None \<Rightarrow> name | Some p \<Rightarrow> py_str p)\<rparr>,
                     concat (map fst parts)))))
      | Inr v \<Rightarrow> Inr (None, [diag ''error'' (label @ '': schema.yaml is not a mapping'') (Some name)]))"

section \<open>The item's catalog\<close>

type_synonym catalog = "(string, entity_type) dict"

definition ENTITY_ROOT :: string where
  "ENTITY_ROOT = ''/.entity/''"

definition schema_path :: "string \<Rightarrow> string" where
  "schema_path name = ENTITY_ROOT @ name @ ''/schema.yaml''"

definition skeleton_path :: "string \<Rightarrow> string" where
  "skeleton_path name = ENTITY_ROOT @ name @ ''/skeleton.md''"

definition load_entity_type ::
  "(string \<Rightarrow> string + json) \<Rightarrow> 's fstore \<Rightarrow> string \<Rightarrow> string \<Rightarrow> 's
   \<Rightarrow> 's \<times> (step_exn + catalog \<times> diagnostic list)" where
  "load_entity_type load R ws name s =
     (case fr_read R ws (schema_path name) s of
        (s1, Inl e) \<Rightarrow> (s1, Inr ([], []))
      | (s1, Inr raw) \<Rightarrow>
          (case fr_read R ws (skeleton_path name) s1 of
             (s2, sk) \<Rightarrow>
               (s2, bindE (load_type load name raw (case sk of Inl e \<Rightarrow> [] | Inr b \<Rightarrow> b)) (\<lambda>(et, ds).
                      Inr (case et of None \<Rightarrow> [] | Some t \<Rightarrow> [(name, t)], ds)))))"

text \<open>The names under the root that have a folder, in order.\<close>

definition type_names :: "string list \<Rightarrow> string list" where
  "type_names paths =
     sort (remdups (map (takeWhile (\<lambda>c. c \<noteq> CHR ''/''))
       (filter (\<lambda>r. CHR ''/'' \<in> set r) (map (drop (length ENTITY_ROOT)) paths))))"

fun load_types ::
  "(string \<Rightarrow> string + json) \<Rightarrow> (string, string) dict \<Rightarrow> string list \<Rightarrow> string list
   \<Rightarrow> catalog \<times> diagnostic list \<Rightarrow> step_exn + catalog \<times> diagnostic list" where
  "load_types load blob present [] acc = Inr acc"
| "load_types load blob present (name # names) acc =
     (case dict_get blob (schema_path name) of
        None \<Rightarrow> load_types load blob present names acc
      | Some raw \<Rightarrow>
          (let skeleton = (if skeleton_path name \<in> set present
                           then (case dict_get blob (skeleton_path name) of None \<Rightarrow> [] | Some b \<Rightarrow> b) else [])
           in bindE (load_type load name raw skeleton) (\<lambda>(et, ds).
                load_types load blob present names
                  (case et of None \<Rightarrow> fst acc | Some t \<Rightarrow> dict_set name t (fst acc), snd acc @ ds))))"

definition discover_catalog ::
  "(string \<Rightarrow> string + json) \<Rightarrow> 's fstore \<Rightarrow> string \<Rightarrow> 's
   \<Rightarrow> 's \<times> (step_exn + catalog \<times> diagnostic list)" where
  "discover_catalog load R ws s =
     (let paths = fr_ls R ws ENTITY_ROOT s;
          names = filter (\<lambda>n. schema_path n \<in> set paths) (type_names paths);
          to_read = concat (map (\<lambda>n. if skeleton_path n \<in> set paths then [schema_path n, skeleton_path n]
                                     else [schema_path n]) names)
      in case read_all_existing R ws to_read [] s of
           (s1, Inl e) \<Rightarrow> (s1, Inl (Raised ''FileExists''))
         | (s1, Inr blob) \<Rightarrow> (s1, load_types load blob paths names ([], [])))"

section \<open>Records as files\<close>

text \<open>\<open>s.find(p)\<close>: where \<open>p\<close> first occurs in \<open>s\<close>.\<close>

fun find_in :: "string \<Rightarrow> string \<Rightarrow> nat option" where
  "find_in p [] = (if p = [] then Some 0 else None)"
| "find_in p (c # s) = (if starts_with p (c # s) then Some 0 else map_option Suc (find_in p s))"

abbreviation newline :: char where
  "newline \<equiv> CHR 0x0A"

definition lstrip_lines :: "string \<Rightarrow> string" where
  "lstrip_lines s = dropWhile (\<lambda>c. c = newline) s"

definition split_frontmatter :: "string \<Rightarrow> string option \<times> string" where
  "split_frontmatter t =
     (if \<not> starts_with ''---'' t then (None, t)
      else let rest = drop 3 t;
               rest' = (if starts_with [newline] rest then drop 1 rest else rest)
           in (case find_in (newline # ''---'') rest' of
                 None \<Rightarrow> (None, t)
               | Some i \<Rightarrow> (Some (take i rest'), lstrip_lines (drop (i + 4) rest'))))"

definition content_version :: "(string \<Rightarrow> string) \<Rightarrow> string \<Rightarrow> string" where
  "content_version digest raw = take 16 (digest raw)"

record entity =
  en_number :: nat
  en_type :: string
  en_fields :: "(string, json) dict"
  en_body :: string
  en_diagnostics :: "diagnostic list"
  en_version :: string

definition entity_ok :: "entity \<Rightarrow> bool" where
  "entity_ok e \<longleftrightarrow> \<not> list_ex (\<lambda>d. dg_level d = ''error'') (en_diagnostics e)"

text \<open>A status outside its closed vocabulary is a warning.\<close>

fun lint :: "(string, json) dict \<Rightarrow> field_spec list \<Rightarrow> step_exn + diagnostic list" where
  "lint flds [] = Inr []"
| "lint flds (f # fs) =
     (let value = (case dict_get flds (fs_name f) of None \<Rightarrow> JNull | Some v \<Rightarrow> v) in
      bindE (if fs_role f = STATUS \<and> fs_values f \<noteq> JNull \<and> value \<noteq> JNull
             then bindE (py_in value (fs_values f)) (\<lambda>known.
                    Inr (if known then []
                         else [diag ''warning'' (fs_name f @ ''='' @ py_repr value @ '' not in '' @ py_repr (fs_values f))
                                 (Some (fs_name f))]))
             else Inr [])
        (\<lambda>ds. bindE (lint flds fs) (\<lambda>rest. Inr (ds @ rest))))"

definition body_only :: "(string \<Rightarrow> string) \<Rightarrow> string \<Rightarrow> nat \<Rightarrow> string \<Rightarrow> string \<Rightarrow> entity" where
  "body_only digest raw number type msg =
     \<lparr>en_number = number, en_type = type, en_fields = [], en_body = raw,
      en_diagnostics = [diag ''error'' msg None], en_version = content_version digest raw\<rparr>"

definition parse_entity ::
  "(string \<Rightarrow> string + json) \<Rightarrow> (string \<Rightarrow> string) \<Rightarrow> string \<Rightarrow> nat \<Rightarrow> string \<Rightarrow> field_spec list \<Rightarrow> step_exn + entity" where
  "parse_entity load digest raw number type schema =
     (case split_frontmatter raw of
        (None, body) \<Rightarrow> Inr (body_only digest raw number type ''no frontmatter - shown as body only'')
      | (Some front, body) \<Rightarrow>
          (case load front of
             Inl e \<Rightarrow> Inr (body_only digest raw number type (''malformed frontmatter YAML: '' @ e))
           | Inr v \<Rightarrow>
               (case (if v = JNull then JObj [] else v) of
                  JObj flds \<Rightarrow>
                    bindE (lint flds schema) (\<lambda>ds.
                      Inr \<lparr>en_number = number, en_type = type, en_fields = flds, en_body = body,
                           en_diagnostics = ds, en_version = content_version digest raw\<rparr>)
                | _ \<Rightarrow> Inr (body_only digest raw number type ''frontmatter is not a mapping''))))"

text \<open>
  \<open>str.strip()\<close> on a text in UTF-8: the ASCII white space, and U+0085, U+00A0, U+1680, U+2000 to
  U+200A, U+2028, U+2029, U+202F, U+205F and U+3000 in their bytes.
\<close>

definition TEXT_SPACES :: "string list" where
  "TEXT_SPACES =
    [[CHR 0x09], [CHR 0x0A], [CHR 0x0B], [CHR 0x0C], [CHR 0x0D], [CHR 0x1C], [CHR 0x1D], [CHR 0x1E], [CHR 0x1F],
     [CHR 0x20], [CHR 0xC2, CHR 0x85], [CHR 0xC2, CHR 0xA0], [CHR 0xE1, CHR 0x9A, CHR 0x80],
     [CHR 0xE2, CHR 0x80, CHR 0x80], [CHR 0xE2, CHR 0x80, CHR 0x81], [CHR 0xE2, CHR 0x80, CHR 0x82],
     [CHR 0xE2, CHR 0x80, CHR 0x83], [CHR 0xE2, CHR 0x80, CHR 0x84], [CHR 0xE2, CHR 0x80, CHR 0x85],
     [CHR 0xE2, CHR 0x80, CHR 0x86], [CHR 0xE2, CHR 0x80, CHR 0x87], [CHR 0xE2, CHR 0x80, CHR 0x88],
     [CHR 0xE2, CHR 0x80, CHR 0x89], [CHR 0xE2, CHR 0x80, CHR 0x8A], [CHR 0xE2, CHR 0x80, CHR 0xA8],
     [CHR 0xE2, CHR 0x80, CHR 0xA9], [CHR 0xE2, CHR 0x80, CHR 0xAF], [CHR 0xE2, CHR 0x81, CHR 0x9F],
     [CHR 0xE3, CHR 0x80, CHR 0x80]]"

lemma find_space:
  "find (\<lambda>p. p \<noteq> [] \<and> starts_with p s) spaces = Some p \<Longrightarrow> p \<in> set spaces \<and> p \<noteq> [] \<and> s \<noteq> [] \<and> starts_with p s"
  by (auto simp: find_Some_iff starts_with_def)

function strip_front :: "string list \<Rightarrow> string \<Rightarrow> string" where
  "strip_front spaces s =
     (case find (\<lambda>p. p \<noteq> [] \<and> starts_with p s) spaces of
        None \<Rightarrow> s
      | Some p \<Rightarrow> strip_front spaces (drop (length p) s))"
  by pat_completeness auto
termination
  by (relation "measure (length \<circ> snd)") (auto dest: find_space)

declare strip_front.simps [simp del]

definition strip_text :: "string \<Rightarrow> string" where
  "strip_text s = rev (strip_front (map rev TEXT_SPACES) (rev (strip_front TEXT_SPACES s)))"

definition serialize_entity :: "(json \<Rightarrow> string) \<Rightarrow> (string, json) dict \<Rightarrow> string \<Rightarrow> string" where
  "serialize_entity dump flds body =
     ''---'' @ [newline] @ strip_text (dump (JObj flds)) @ [newline] @ ''---'' @ [newline, newline] @ body"

section \<open>Skeletons\<close>

text \<open>What a placeholder stands for; none when it is left as written.\<close>

definition placeholder :: "(string, json) dict \<Rightarrow> nat \<Rightarrow> string \<Rightarrow> string \<Rightarrow> string \<Rightarrow> string option" where
  "placeholder args number now actor token =
     (if token = ''number'' then Some (dec number)
      else if token = ''now'' then Some now
      else if token = ''actor'' then Some actor
      else if starts_with ''arg.'' token
      then let rest = drop 4 token;
               key = (if rest \<noteq> [] \<and> last rest = CHR ''?'' then butlast rest else rest)
           in Some (case dict_get args key of None \<Rightarrow> [] | Some v \<Rightarrow> py_str v)
      else None)"

definition inner :: "string \<Rightarrow> string" where
  "inner s = takeWhile (\<lambda>c. c \<noteq> CHR ''}'') s"

definition after_inner :: "string \<Rightarrow> string" where
  "after_inner s = dropWhile (\<lambda>c. c \<noteq> CHR ''}'') s"

lemma after_inner_length: "length (after_inner (drop (Suc 0) s)) - 2 \<le> length s"
  using length_dropWhile_le [of "\<lambda>c. c \<noteq> CHR ''}''" "drop (Suc 0) s"] by (simp add: after_inner_def)

lemma starts_length: "starts_with p s \<Longrightarrow> length p \<le> length s"
  unfolding starts_with_def by (metis length_take min.cobounded1)

text \<open>One scan from the left; what was put in is not scanned again.\<close>

function render_skeleton :: "(string, json) dict \<Rightarrow> nat \<Rightarrow> string \<Rightarrow> string \<Rightarrow> string \<Rightarrow> string" where
  "render_skeleton args number now actor [] = []"
| "render_skeleton args number now actor (c # s) =
     (let t = drop 1 s in
      if c = CHR ''{'' \<and> starts_with ''{'' s \<and> inner t \<noteq> [] \<and> starts_with ''}}'' (after_inner t)
      then (case placeholder args number now actor (strip (inner t)) of
              Some v \<Rightarrow> v | None \<Rightarrow> ''{{'' @ inner t @ ''}}'')
           @ render_skeleton args number now actor (drop 2 (after_inner t))
      else c # render_skeleton args number now actor s)"
  by pat_completeness auto
termination
  by (relation "measure (\<lambda>(args, number, now, actor, s). length s)")
     (auto intro: le_imp_less_Suc after_inner_length)

declare render_skeleton.simps(2) [simp del]

section \<open>Quick-create forms\<close>

record form_field =
  ff_name :: string
  ff_widget :: string
  ff_required :: bool
  ff_values :: json

definition WIDGET :: "(role \<times> string) list" where
  "WIDGET = [(TEXT, ''text''), (STATUS, ''select''), (ACTOR, ''actor''), (DATE, ''date''),
     (DATETIMERANGE, ''datetimerange''), (NUMBER, ''number''), (PROGRESS, ''progress''), (REF, ''ref'')]"

definition name_char :: "char \<Rightarrow> bool" where
  "name_char c \<longleftrightarrow> (let n = (of_char c :: nat) in
     (48 \<le> n \<and> n \<le> 57) \<or> (65 \<le> n \<and> n \<le> 90) \<or> (97 \<le> n \<and> n \<le> 122) \<or> n = 95)"

text \<open>The match of \<open>_ARG\<close> at the start of a text: the name, whether it is optional, and the rest.\<close>

definition arg_match :: "string \<Rightarrow> (string \<times> bool \<times> string) option" where
  "arg_match s =
     (if \<not> starts_with ''{{'' s then None
      else let a = dropWhile py_space (drop 2 s) in
           if \<not> starts_with ''arg.'' a then None
           else let name = takeWhile name_char (drop 4 a); b = dropWhile name_char (drop 4 a);
                    optional = starts_with ''?'' b; d = dropWhile py_space (if optional then drop 1 b else b)
                in if name \<noteq> [] \<and> starts_with ''}}'' d then Some (name, optional, drop 2 d) else None)"

lemma arg_match_shorter: "arg_match s = Some (name, optional, rest) \<Longrightarrow> length rest < length s"
proof -
  assume m: "arg_match s = Some (name, optional, rest)"
  have d: "length (dropWhile P (xs :: string)) \<le> length xs" for P xs by (rule length_dropWhile_le)
  let ?a = "dropWhile py_space (drop 2 s)"
  have s: "2 \<le> length s" using m starts_length [of "''{{''" s] by (auto simp: arg_match_def split: if_splits)
  have "length rest \<le> length ?a"
    using m d [of py_space "drop 1 (dropWhile name_char (drop 4 ?a))"] d [of py_space "dropWhile name_char (drop 4 ?a)"]
      d [of name_char "drop 4 ?a"]
    by (auto simp: arg_match_def Let_def split: if_splits)
  moreover have "length ?a \<le> length s - 2" using d [of py_space "drop 2 s"] by simp
  ultimately show ?thesis using s by linarith
qed

function find_args :: "string \<Rightarrow> (string \<times> bool) list" where
  "find_args [] = []"
| "find_args (c # s) =
     (case arg_match (c # s) of
        Some (name, optional, rest) \<Rightarrow> (name, optional) # find_args rest
      | None \<Rightarrow> find_args s)"
  by pat_completeness auto
termination
  by (relation "measure length") (auto dest: arg_match_shorter)

definition form_field_of :: "entity_type \<Rightarrow> string \<times> bool \<Rightarrow> form_field" where
  "form_field_of et a =
     (let spec = schema_field (et_schema et) (JStr (fst a)) in
      \<lparr>ff_name = fst a,
       ff_widget = (case spec of None \<Rightarrow> ''text''
                    | Some f \<Rightarrow> (case map_of WIDGET (fs_role f) of None \<Rightarrow> ''text'' | Some w \<Rightarrow> w)),
       ff_required = (\<not> snd a),
       ff_values = (case spec of None \<Rightarrow> JNull | Some f \<Rightarrow> if fs_role f = STATUS then fs_values f else JNull)\<rparr>)"

text \<open>The first mention of a name decides.\<close>

fun first_mentions :: "string list \<Rightarrow> (string \<times> bool) list \<Rightarrow> (string \<times> bool) list" where
  "first_mentions seen [] = []"
| "first_mentions seen (a # as) =
     (if fst a \<in> set seen then first_mentions seen as else a # first_mentions (fst a # seen) as)"

definition form_spec :: "entity_type \<Rightarrow> form_field list" where
  "form_spec et = map (form_field_of et) (first_mentions [] (find_args (et_skeleton et)))"

section \<open>A workflow's block in a record\<close>

definition fence_begin :: "string \<Rightarrow> string" where
  "fence_begin name = ''<!-- wf:'' @ name @ '' begin -->''"

definition fence_end :: "string \<Rightarrow> string" where
  "fence_end name = ''<!-- wf:'' @ name @ '' end -->''"

text \<open>The robot sign that opens a contribution is the argument \<open>mark\<close>.\<close>

definition render_contribution :: "string \<Rightarrow> string \<Rightarrow> (string, json) dict \<Rightarrow> string" where
  "render_contribution mark name args =
     mark @ '' '' @ name @ '':'' @ [newline]
     @ join [newline] (map (\<lambda>(k, v). ''- '' @ k @ '': '' @ py_str v) (sort_key fst args))"

definition replace_fenced_block :: "string \<Rightarrow> string \<Rightarrow> string \<Rightarrow> string" where
  "replace_fenced_block body name content =
     (let block = fence_begin name @ [newline] @ content @ [newline] @ fence_end name in
      case (find_in (fence_begin name) body, find_in (fence_end name) body) of
        (Some b, Some e) \<Rightarrow> take b body @ block @ drop (e + length (fence_end name)) body
      | _ \<Rightarrow> body @ (if body = [] \<or> last body = newline then [] else [newline]) @ block @ [newline])"

definition match_prompt :: "(string, json) dict \<Rightarrow> (nat \<times> json) list \<Rightarrow> string" where
  "match_prompt args candidates =
     ''You are deduplicating records. Does the NEW item describe the SAME real thing as ''
     @ ''one of the EXISTING items?'' @ [newline, newline]
     @ ''NEW: '' @ join '', '' (map (\<lambda>(k, v). k @ '': '' @ py_str v) (sort_key fst args)) @ [newline, newline]
     @ ''EXISTING:'' @ [newline]
     @ join [newline] (map (\<lambda>(n, title). ''#'' @ dec n @ '': '' @ py_str title) candidates) @ [newline, newline]
     @ ''Answer with ONLY the matching item's number (e.g. 7), or NEW if none match.''"

definition parse_match :: "string \<Rightarrow> nat list \<Rightarrow> nat option" where
  "parse_match answer candidates =
     (let first = takeWhile (\<lambda>c. \<not> py_space c) (strip answer);
          hashless = dropWhile (\<lambda>c. c = CHR ''#'') first;
          token = rev (dropWhile (\<lambda>c. c = CHR ''.'' \<or> c = CHR '','') (rev hashless))
      in if token \<noteq> [] \<and> list_all digit_char token \<and> digits_value token \<in> set candidates
         then Some (digits_value token) else None)"

section \<open>Lemmas\<close>

lemma starts_iff: "starts_with p s \<longleftrightarrow> (\<exists>t. s = p @ t)"
  unfolding starts_with_def by (metis append_eq_conv_conj append_take_drop_id)

lemma starts_more: "starts_with p s \<Longrightarrow> starts_with p (s @ t)"
  by (metis append.assoc starts_iff)

lemma starts_less: "starts_with p (s @ t) \<Longrightarrow> length p \<le> length s \<Longrightarrow> starts_with p s"
  by (simp add: starts_with_def)

lemma find_Some:
  "find_in p s = Some i \<longleftrightarrow> i \<le> length s \<and> starts_with p (drop i s) \<and> (\<forall>j < i. \<not> starts_with p (drop j s))"
proof (induction s arbitrary: i)
  case Nil
  then show ?case by (auto simp: starts_with_def)
next
  case (Cons c s)
  show ?case
  proof (cases "starts_with p (c # s)")
    case True
    then show ?thesis by (cases i) auto
  next
    case False
    then show ?thesis using Cons.IH by (cases i) (auto simp: less_Suc_eq_0_disj)
  qed
qed

lemma all_le_Suc: "(\<forall>j \<le> Suc n. P j) \<longleftrightarrow> P 0 \<and> (\<forall>j \<le> n. P (Suc j))"
  by (metis Suc_le_mono le0 not0_implies_Suc)

lemma find_None: "find_in p s = None \<longleftrightarrow> (\<forall>j \<le> length s. \<not> starts_with p (drop j s))"
proof (induction s)
  case (Cons c s)
  have "(\<forall>j \<le> length (c # s). \<not> starts_with p (drop j (c # s)))
      \<longleftrightarrow> \<not> starts_with p (c # s) \<and> (\<forall>j \<le> length s. \<not> starts_with p (drop j s))"
    by (simp add: all_le_Suc)
  with Cons show ?case by simp
qed (auto simp: starts_with_def)

text \<open>The first occurrence is not moved by what follows it.\<close>

lemma find_append:
  assumes "find_in p (s @ p) = Some (length s)"
  shows "find_in p (s @ p @ t) = Some (length s)"
proof -
  have "\<not> starts_with p (drop j (s @ p @ t))" if "j < length s" for j
  proof
    assume "starts_with p (drop j (s @ p @ t))"
    moreover have "drop j (s @ p @ t) = drop j (s @ p) @ t" "length p \<le> length (drop j (s @ p))" using that by simp_all
    ultimately have "starts_with p (drop j (s @ p))" by (simp add: starts_with_def)
    with assms that show False by (simp add: find_Some)
  qed
  then show ?thesis by (simp add: find_Some)
qed

lemma no_straddle:
  assumes "find_in (d # q) s = None" "d \<notin> set q" "j < length s"
  shows "\<not> starts_with (d # q) (drop j (s @ d # r))"
proof
  let ?p = "d # q"
  assume "starts_with ?p (drop j (s @ d # r))"
  then obtain u where u: "drop j s @ d # r = ?p @ u" using assms(3) by (auto simp: starts_iff)
  show False
  proof (cases "length ?p \<le> length (drop j s)")
    case True
    with u have "starts_with ?p (drop j s)" by (metis append_eq_append_conv_if starts_with_def)
    with assms(1,3) show False by (auto simp: find_None)
  next
    case False
    let ?k = "length (drop j s)"
    have "0 < ?k" using assms(3) by simp
    have "(drop j s @ d # r) ! ?k = d" by (metis nth_append_length)
    moreover have "(?p @ u) ! ?k = q ! (?k - 1)" "?k - 1 < length q"
      using False \<open>0 < ?k\<close> by (auto simp: nth_append nth_Cons')
    ultimately show False using u assms(2) by (metis nth_mem)
  qed
qed

lemma find_before:
  assumes "find_in (d # q) s = None" "d \<notin> set q"
  shows "find_in (d # q) (s @ (d # q) @ t) = Some (length s)"
  using no_straddle [OF assms, of _ "q @ t"] starts_with_append [of "d # q" t] by (simp add: find_Some)

text \<open>A vocabulary \<open>lint\<close> can look a value up in.\<close>

definition listed :: "field_spec list \<Rightarrow> bool" where
  "listed schema \<longleftrightarrow> (\<forall>f \<in> set schema. fs_role f = STATUS \<longrightarrow> fs_values f = JNull \<or> (\<exists>vs. fs_values f = JArr vs))"

lemma lint_returns: "listed schema \<Longrightarrow> \<exists>ds. lint flds schema = Inr ds \<and> (\<forall>d \<in> set ds. dg_level d = ''warning'')"
proof (induction schema)
  case (Cons f fs)
  then obtain ds where ds: "lint flds fs = Inr ds" "\<forall>d \<in> set ds. dg_level d = ''warning''" by (auto simp: listed_def)
  have "fs_role f = STATUS \<Longrightarrow> fs_values f = JNull \<or> (\<exists>vs. fs_values f = JArr vs)"
    using Cons.prems by (simp add: listed_def)
  with ds show ?case by (auto simp: Let_def py_in_def)
qed simp

lemma split_fenced:
  assumes "find_in (newline # ''---'') f = None"
  shows "split_frontmatter (''---'' @ [newline] @ (f @ (newline # ''---'') @ rest)) = (Some f, lstrip_lines rest)"
proof -
  have "find_in (newline # ''---'') (f @ (newline # ''---'') @ rest) = Some (length f)"
    by (rule find_before [OF assms]) simp
  then show ?thesis unfolding split_frontmatter_def Let_def by (simp add: starts_with_def)
qed

lemma split_serialized:
  assumes "find_in (newline # ''---'') (strip_text (dump (JObj flds))) = None"
  shows "split_frontmatter (serialize_entity dump flds body) = (Some (strip_text (dump (JObj flds))), lstrip_lines body)"
  using split_fenced [OF assms, of "[newline, newline] @ body"] by (simp add: serialize_entity_def lstrip_lines_def)

lemma lstrip_idle: "lstrip_lines (lstrip_lines b) = lstrip_lines b"
  by (simp add: lstrip_lines_def)

lemma strip_front_suffix: "\<exists>pre. s = pre @ strip_front spaces s"
proof (induction spaces s rule: strip_front.induct)
  case (1 spaces s)
  show ?case
  proof (cases "find (\<lambda>p. p \<noteq> [] \<and> starts_with p s) spaces")
    case None
    then show ?thesis by (simp add: strip_front.simps [of spaces s])
  next
    case (Some p)
    from 1 [OF Some] obtain pre where "drop (length p) s = pre @ strip_front spaces (drop (length p) s)" by blast
    then have "s = (take (length p) s @ pre) @ strip_front spaces (drop (length p) s)"
      by (metis append.assoc append_take_drop_id)
    moreover have "strip_front spaces s = strip_front spaces (drop (length p) s)"
      using Some by (simp add: strip_front.simps [of spaces s])
    ultimately show ?thesis by (intro exI [of _ "take (length p) s @ pre"]) (simp only:)
  qed
qed

lemma strip_front_shorter: "length (strip_front spaces s) \<le> length s"
  using strip_front_suffix [of s spaces] by (metis length_append le_add2)

lemma strip_front_idle:
  "strip_front spaces s = s \<longleftrightarrow> find (\<lambda>p. p \<noteq> [] \<and> starts_with p s) spaces = None"
proof (cases "find (\<lambda>p. p \<noteq> [] \<and> starts_with p s) spaces")
  case None
  then show ?thesis by (simp add: strip_front.simps [of spaces s])
next
  case (Some p)
  then have "p \<noteq> []" "length p \<le> length s" by (auto simp: find_Some_iff dest: starts_length)
  then have "length (strip_front spaces (drop (length p) s)) < length s"
    using strip_front_shorter [of spaces "drop (length p) s"] by (cases p; simp)
  moreover have "strip_front spaces s = strip_front spaces (drop (length p) s)"
    using Some by (simp add: strip_front.simps [of spaces s])
  ultimately show ?thesis using Some by auto
qed

lemma space_with_newline: "p \<in> set TEXT_SPACES \<Longrightarrow> newline \<in> set p \<Longrightarrow> p = [newline]"
proof -
  have "list_all (\<lambda>p. newline \<in> set p \<longrightarrow> p = [newline]) TEXT_SPACES" by (simp add: TEXT_SPACES_def)
  then show "p \<in> set TEXT_SPACES \<Longrightarrow> newline \<in> set p \<Longrightarrow> p = [newline]" by (auto simp: list_all_iff)
qed

lemma starts_snoc:
  assumes "starts_with p (t @ [c])"
  shows "starts_with p t \<or> p = t @ [c]"
proof -
  from assms obtain u where "t @ [c] = p @ u" by (auto simp: starts_iff)
  then show ?thesis by (cases u rule: rev_cases) (auto simp: starts_iff)
qed

text \<open>A text that neither begins nor ends in white space is what its stripping leaves of it and a line break.\<close>

lemma strip_line:
  assumes "strip_text t = t"
  shows "strip_text (t @ [newline]) = t"
proof (cases "t = []")
  case True
  show ?thesis unfolding True by code_simp
next
  case False
  let ?rear = "strip_front (map rev TEXT_SPACES)"
  have "length t \<le> length (strip_front TEXT_SPACES t)"
    using assms strip_front_shorter [of "map rev TEXT_SPACES" "rev (strip_front TEXT_SPACES t)"]
    unfolding strip_text_def by (metis length_rev)
  then have front: "strip_front TEXT_SPACES t = t"
    using strip_front_suffix [of t TEXT_SPACES] by (metis add_le_same_cancel2 append_self_conv2 le_zero_eq length_0_conv length_append)
  have rear: "?rear (rev t) = rev t" using assms front by (simp add: strip_text_def) (metis rev_rev_ident)
  have "strip_front TEXT_SPACES (t @ [newline]) = t @ [newline]"
    unfolding strip_front_idle find_None_iff
  proof (intro notI, elim exE conjE)
    fix p assume p: "p \<in> set TEXT_SPACES" "p \<noteq> []" "starts_with p (t @ [newline])"
    have "\<not> starts_with p t" using front p(1,2) by (auto simp: strip_front_idle find_None_iff)
    then have "p = t @ [newline]" using starts_snoc [OF p(3)] by simp
    with space_with_newline [OF p(1)] False show False by auto
  qed
  moreover have "?rear (newline # rev t) = ?rear (rev t)"
  proof -
    have "find (\<lambda>p. p \<noteq> [] \<and> starts_with p (newline # rev t)) (map rev TEXT_SPACES) = Some [newline]"
      by (simp add: TEXT_SPACES_def starts_with_def)
    then show ?thesis by (simp add: strip_front.simps [of _ "newline # rev t"])
  qed
  ultimately show ?thesis using rear by (simp add: strip_text_def)
qed

section \<open>Properties\<close>

text \<open>
  C17: a record written from its fields and body is read back with the same fields, in order, and
  the same body less its leading blank lines, and is never dropped from the projection; so what
  a read gave survives any number of rewrites.  This rests on the YAML library reading back the
  mapping it wrote, as a text that ends in a line break, with no line that begins with three dashes, and
  reads the same without that line break; on vocabularies that are lists; and on the text neither
  beginning nor ending in white space: a last value that ends in one is lost by the code's own
  \<open>strip\<close> (\<open>trailing_space_lost\<close>).
\<close>

theorem entity_roundtrip:
  assumes "load (dump (JObj flds)) = Inr (JObj flds)"
    and "dump (JObj flds) = front @ [newline]" "load front = load (front @ [newline])"
    and "find_in (newline # ''---'') front = None"
    and "strip_text front = front" "listed schema"
  shows "\<exists>e. parse_entity load digest (serialize_entity dump flds body) number type schema = Inr e
     \<and> en_fields e = flds \<and> en_body e = lstrip_lines body \<and> entity_ok e
     \<and> en_number e = number \<and> en_version e = content_version digest (serialize_entity dump flds body)"
proof -
  have s: "strip_text (dump (JObj flds)) = front" unfolding assms(2) by (rule strip_line [OF assms(5)])
  have l: "load front = Inr (JObj flds)" using assms(1-3) by simp
  obtain ds where "lint flds schema = Inr ds" "\<forall>d \<in> set ds. dg_level d = ''warning''"
    using lint_returns [OF assms(6)] by blast
  then show ?thesis
    using split_serialized [of dump flds body] assms(4)
    by (auto simp: parse_entity_def s l entity_ok_def list_ex_iff)
qed

text \<open>One pair of a plain key and a plain value, as YAML writes and reads it.\<close>

definition put_pair :: "json \<Rightarrow> string" where
  "put_pair v = (case v of JObj [(k, JStr x)] \<Rightarrow> k @ '': '' @ x @ [newline] | _ \<Rightarrow> ''{}'' @ [newline])"

definition get_pair :: "string \<Rightarrow> string + json" where
  "get_pair t = (case find_in '': '' t of
       None \<Rightarrow> Inl ''unreadable''
     | Some i \<Rightarrow> Inr (JObj [(take i t, JStr (takeWhile (\<lambda>c. c \<noteq> newline) (drop (i + 2) t)))]))"

theorem entity_roundtrip_witness:
  "\<exists>e. parse_entity get_pair (\<lambda>t. t) (serialize_entity put_pair [(''title'', JStr ''pump'')] ''It leaks.'') 1 ''issue'' [] = Inr e
     \<and> en_fields e = [(''title'', JStr ''pump'')] \<and> en_body e = ''It leaks.''"
proof -
  have l: "get_pair (put_pair (JObj [(''title'', JStr ''pump'')])) = Inr (JObj [(''title'', JStr ''pump'')])"
    "get_pair ''title: pump'' = get_pair (''title: pump'' @ [newline])" by code_simp+
  have d: "put_pair (JObj [(''title'', JStr ''pump'')]) = ''title: pump'' @ [newline]"
    "find_in (newline # ''---'') ''title: pump'' = None" "strip_text ''title: pump'' = ''title: pump''" by code_simp+
  have b: "lstrip_lines ''It leaks.'' = ''It leaks.''" by (simp add: lstrip_lines_def)
  from entity_roundtrip [of get_pair put_pair, OF l(1) d(1) l(2) d(2,3), of "[]" "\<lambda>t. t" "''It leaks.''" 1 "''issue''"] b
  show ?thesis by (auto simp: listed_def)
qed

text \<open>
  a last value that ends in an ideographic space (U+3000) is read back without it: the stripping of the
  written text takes it for the text's own white space.
\<close>

theorem trailing_space_lost:
  "get_pair (put_pair (JObj [(''title'', JStr [CHR ''x'', CHR 0xE3, CHR 0x80, CHR 0x80])]))
      = Inr (JObj [(''title'', JStr [CHR ''x'', CHR 0xE3, CHR 0x80, CHR 0x80])])
   \<and> map_sum id en_fields (parse_entity get_pair (\<lambda>t. t)
        (serialize_entity put_pair [(''title'', JStr [CHR ''x'', CHR 0xE3, CHR 0x80, CHR 0x80])] []) 1 ''issue'' [])
      = Inr [(''title'', JStr ''x'')]"
  by code_simp

definition title_dump :: "json \<Rightarrow> string" where
  "title_dump v = ''title: pump'' @ [newline]"

definition title_load :: "string \<Rightarrow> string + json" where
  "title_load t = (if t = ''title: pump'' then Inr (JObj [(''title'', JStr ''pump'')]) else Inl ''unreadable'')"

text \<open>
  a schema that is readable YAML but lists its fields, or gives one a value that is not a
  mapping, is not degraded to a dropped type: loading it raises, and with it the discovery of
  every type of the item.
\<close>

theorem listed_fields_break_discovery:
  assumes "load raw = Inr (JObj doc)" "dict_get doc ''fields'' = Some (JArr (v # vs))"
    and "dict_get blob (schema_path name) = Some raw"
  shows "load_types load blob present (name # names) acc = Inl (Raised ''AttributeError'')"
  using assms by (simp add: load_type_def Let_def truthy_def)

theorem listed_fields_break_discovery_witness:
  "\<exists>raw. load_types (\<lambda>t. Inr (JObj [(''fields'', JArr [JStr ''title''])])) [(schema_path ''issue'', raw), (schema_path ''note'', raw)]
       [] [''issue'', ''note''] ([], []) = Inl (Raised ''AttributeError'')"
proof -
  show ?thesis
    by (rule exI [of _ "[]"], rule listed_fields_break_discovery [of _ "[]" "[(''fields'', JArr [JStr ''title''])]" "JStr ''title''" "[]"])
       simp_all
qed

lemma block_found:
  assumes "find_in m body = Some b"
  shows "find_in m (take b body @ m @ t) = Some b"
proof -
  from assms have "b \<le> length body" "starts_with m (drop b body)" by (auto simp: find_Some)
  then obtain pre u where body: "body = pre @ m @ u" and pre: "length pre = b" "take b body = pre"
    by (metis append_take_drop_id length_take min.absorb2 starts_iff)
  have "\<not> starts_with m (drop j (pre @ m))" if "j < length pre" for j
  proof
    assume "starts_with m (drop j (pre @ m))"
    then have "starts_with m (drop j (pre @ m) @ u)" by (rule starts_more)
    moreover have "drop j (pre @ m) @ u = drop j body" using that by (simp add: body)
    ultimately show False using assms that pre(1) by (auto simp: find_Some)
  qed
  then have "find_in m (pre @ m) = Some (length pre)" by (simp add: find_Some starts_with_def [of m m])
  from find_append [OF this] pre show ?thesis by simp
qed

definition fenced :: "string \<Rightarrow> string \<Rightarrow> string" where
  "fenced name content = fence_begin name @ [newline] @ content @ [newline] @ fence_end name"

text \<open>The contribution does not close its own fence early.\<close>

definition closes_once :: "string \<Rightarrow> string \<Rightarrow> bool" where
  "closes_once name content \<longleftrightarrow>
     find_in (fence_end name) (fenced name content) = Some (length (fence_begin name) + length content + 2)"

lemma fence_lengths: "length (fence_begin name) = length (fence_end name) + 2"
  by (simp add: fence_begin_def fence_end_def)

lemma replaced_in_place:
  assumes "find_in (fence_begin name) body = Some b" "find_in (fence_end name) body = Some e"
  shows "replace_fenced_block body name c = take b body @ fenced name c @ drop (e + length (fence_end name)) body"
  using assms by (simp add: replace_fenced_block_def fenced_def Let_def)

lemma refound:
  assumes b: "find_in (fence_begin name) body = Some b" and e: "find_in (fence_end name) body = Some e"
    and "b + length (fence_begin name) \<le> e" and "closes_once name c"
  shows "find_in (fence_begin name) (take b body @ fenced name c @ t) = Some b"
    "find_in (fence_end name) (take b body @ fenced name c @ t) = Some (b + length (fence_begin name) + length c + 2)"
proof -
  let ?B = "fence_begin name" and ?E = "fence_end name"
  show "find_in ?B (take b body @ fenced name c @ t) = Some b"
    using block_found [OF b, of "newline # c @ [newline] @ ?E @ t"] by (simp add: fenced_def)
  from b have "b \<le> length body" "starts_with ?B (drop b body)" by (auto simp: find_Some)
  then obtain pre u where body: "body = pre @ ?B @ u" and pre: "length pre = b" "take b body = pre"
    by (metis append_take_drop_id length_take min.absorb2 starts_iff)
  let ?i = "length ?B + length c + 2"
  have own: "starts_with ?E (drop ?i (fenced name c))" "\<And>j. j < ?i \<Longrightarrow> \<not> starts_with ?E (drop j (fenced name c))"
    using assms(4) by (auto simp: closes_once_def find_Some)
  have len: "length (fenced name c) = ?i + length ?E" by (simp add: fenced_def)
  have "\<not> starts_with ?E (drop j (pre @ fenced name c @ t))" if j: "j < b + ?i" for j
  proof
    assume s: "starts_with ?E (drop j (pre @ fenced name c @ t))"
    show False
    proof (cases "j < b")
      case True
      then have "drop j (pre @ fenced name c @ t) = drop j (pre @ ?B) @ newline # c @ [newline] @ ?E @ t"
        by (simp add: pre fenced_def)
      with s have "starts_with ?E (drop j (pre @ ?B))"
        using starts_less [of ?E "drop j (pre @ ?B)"] True pre(1) fence_lengths [of name] by simp
      then have "starts_with ?E (drop j (pre @ ?B) @ u)" by (rule starts_more)
      moreover have "drop j (pre @ ?B) @ u = drop j body" using True pre(1) by (simp add: body)
      ultimately show False using e True assms(3) by (auto simp: find_Some)
    next
      case False
      then have "drop j (pre @ fenced name c @ t) = drop (j - b) (fenced name c) @ t" using pre(1) j len by simp
      with s have "starts_with ?E (drop (j - b) (fenced name c))"
        using starts_less [of ?E "drop (j - b) (fenced name c)"] False j len by simp
      moreover have "j - b < ?i" using j False by linarith
      ultimately show False using own(2) by blast
    qed
  qed
  moreover have "starts_with ?E (drop (b + ?i) (pre @ fenced name c @ t))"
    using starts_more [OF own(1), of t] pre(1) len by simp
  ultimately show "find_in ?E (take b body @ fenced name c @ t) = Some (b + length ?B + length c + 2)"
    using pre len by (simp add: find_Some)
qed

lemma twice_in_place:
  assumes "find_in (fence_begin name) body = Some b" "find_in (fence_end name) body = Some e"
    and "b + length (fence_begin name) \<le> e" and "closes_once name c"
  shows "replace_fenced_block (replace_fenced_block body name c) name d = replace_fenced_block body name d"
proof -
  have "b \<le> length body" using assms(1) by (simp add: find_Some)
  with refound [OF assms, of "drop (e + length (fence_end name)) body"] show ?thesis
    by (simp add: replaced_in_place [OF assms(1,2)] replaced_in_place) (simp add: fenced_def)
qed

lemma appended_fence:
  assumes "find_in (fence_begin name) body = None \<or> find_in (fence_end name) body = None"
  shows "replace_fenced_block body name c
     = (body @ (if body = [] \<or> last body = newline then [] else [newline])) @ fenced name c @ [newline]"
  using assms by (auto simp: replace_fenced_block_def fenced_def Let_def split: option.split)

lemma absent_in:
  "find_in p s = None \<Longrightarrow> d \<notin> set p \<Longrightarrow> p \<noteq> [] \<Longrightarrow> find_in p (s @ [d]) = None"
proof -
  assume a: "find_in p s = None" "d \<notin> set p" "p \<noteq> []"
  have "\<not> starts_with p (drop j (s @ [d]))" if "j \<le> length (s @ [d])" for j
  proof
    assume "starts_with p (drop j (s @ [d]))"
    then obtain t where t: "drop j (s @ [d]) = p @ t" by (auto simp: starts_iff)
    then have "j \<le> length s" using a(3) that by (cases "j = length (s @ [d])") auto
    then have "drop j s @ [d] = p @ t" using t by simp
    then show False
    proof (cases t rule: rev_cases)
      case Nil
      with \<open>drop j s @ [d] = p @ t\<close> a(2) show False by (metis append_Nil2 in_set_conv_decomp)
    next
      case (snoc t' x)
      with \<open>drop j s @ [d] = p @ t\<close> have "drop j s = p @ t'" by simp
      with a(1) \<open>j \<le> length s\<close> show False by (auto simp: find_None starts_iff)
    qed
  qed
  then show ?thesis by (simp add: find_None)
qed

definition plain_name :: "string \<Rightarrow> bool" where
  "plain_name name \<longleftrightarrow> newline \<notin> set name \<and> CHR ''<'' \<notin> set name"

lemma markers:
  "plain_name name \<Longrightarrow> \<exists>q. fence_begin name = CHR ''<'' # q \<and> CHR ''<'' \<notin> set q \<and> newline \<notin> set (fence_begin name)"
  "plain_name name \<Longrightarrow> \<exists>q. fence_end name = CHR ''<'' # q \<and> CHR ''<'' \<notin> set q \<and> newline \<notin> set (fence_end name)"
  by (auto simp: plain_name_def fence_begin_def fence_end_def)

text \<open>The end of a fence appended to a text without one.\<close>

lemma appended_end:
  assumes "plain_name name" "closes_once name c" "find_in (fence_end name) s = None"
  shows "find_in (fence_end name) (s @ fenced name c @ t)
     = Some (length s + (length (fence_begin name) + length c + 2))"
proof -
  let ?E = "fence_end name" and ?i = "length (fence_begin name) + length c + 2"
  obtain q where q: "?E = CHR ''<'' # q" "CHR ''<'' \<notin> set q" using markers(2) [OF assms(1)] by blast
  obtain r where r: "fenced name c @ t = CHR ''<'' # r" by (simp add: fenced_def fence_begin_def)
  have own: "starts_with ?E (drop ?i (fenced name c))" "\<And>j. j < ?i \<Longrightarrow> \<not> starts_with ?E (drop j (fenced name c))"
    using assms(2) by (auto simp: closes_once_def find_Some)
  have len: "length (fenced name c) = ?i + length ?E" by (simp add: fenced_def)
  have "\<not> starts_with ?E (drop j (s @ fenced name c @ t))" if j: "j < length s + ?i" for j
  proof (cases "j < length s")
    case True
    then show ?thesis using no_straddle [of "CHR ''<''" q s j r] assms(3) q r by simp
  next
    case False
    then have d: "drop j (s @ fenced name c @ t) = drop (j - length s) (fenced name c) @ t"
      and i: "j - length s < ?i" using j len by simp_all
    have "length ?E \<le> length (drop (j - length s) (fenced name c))" using i len by simp
    with starts_less [of ?E "drop (j - length s) (fenced name c)" t] own(2) [OF i] d show ?thesis by metis
  qed
  moreover have "starts_with ?E (drop (length s + ?i) (s @ fenced name c @ t))"
    using starts_more [OF own(1), of t] len by simp
  ultimately show ?thesis using len by (simp add: find_Some)
qed

lemma absent_sep:
  assumes "plain_name name" "find_in m body = None" "m \<in> {fence_begin name, fence_end name}"
  shows "find_in m (body @ (if body = [] \<or> last body = newline then [] else [newline])) = None"
proof -
  have "m \<noteq> []" "newline \<notin> set m" using markers [OF assms(1)] assms(3) by auto
  with absent_in [OF assms(2)] assms(2) show ?thesis by simp
qed

text \<open>
  a workflow's block in a record is overwritten, never stacked: writing it twice leaves what
  the second writing alone would have left, whether the record had the block already or not.
  (The contribution does not contain the closing marker, and the name has no \<open>\<open><\<close>\<close> and no line
  break.)
\<close>

theorem fenced_block_overwrites:
  assumes "plain_name name" "closes_once name c"
    and "(\<exists>b e. find_in (fence_begin name) body = Some b \<and> find_in (fence_end name) body = Some e
            \<and> b + length (fence_begin name) \<le> e)
        \<or> find_in (fence_begin name) body = None \<and> find_in (fence_end name) body = None"
  shows "replace_fenced_block (replace_fenced_block body name c) name d = replace_fenced_block body name d"
  using assms(3)
proof (elim disjE exE conjE)
  fix b e
  assume "find_in (fence_begin name) body = Some b" "find_in (fence_end name) body = Some e"
    "b + length (fence_begin name) \<le> e"
  from twice_in_place [OF this assms(2)] show ?thesis .
next
  assume none: "find_in (fence_begin name) body = None" "find_in (fence_end name) body = None"
  define s where "s = body @ (if body = [] \<or> last body = newline then [] else [newline])"
  have s: "find_in (fence_begin name) s = None" "find_in (fence_end name) s = None"
    using absent_sep [OF assms(1) none(1)] absent_sep [OF assms(1) none(2)] by (simp_all add: s_def)
  have once: "replace_fenced_block body name x = s @ fenced name x @ [newline]" for x
    using appended_fence [of name body x] none by (simp add: s_def)
  obtain q where "fence_begin name = CHR ''<'' # q" "CHR ''<'' \<notin> set q" using markers(1) [OF assms(1)] by blast
  then have "find_in (fence_begin name) (s @ fenced name c @ [newline]) = Some (length s)"
    using find_before [of "CHR ''<''" q s "newline # c @ [newline] @ fence_end name @ [newline]"] s(1)
    by (simp add: fenced_def)
  with appended_end [OF assms(1,2) s(2), of "[newline]"] show ?thesis
    by (simp add: once replaced_in_place) (simp add: fenced_def)
qed

theorem fenced_block_overwrites_witness:
  "replace_fenced_block (replace_fenced_block ''by hand'' ''triage'' ''- a: 1'') ''triage'' ''- a: 2''
     = replace_fenced_block ''by hand'' ''triage'' ''- a: 2''"
proof -
  have "plain_name ''triage''" "closes_once ''triage'' ''- a: 1''"
    "find_in (fence_begin ''triage'') ''by hand'' = None" "find_in (fence_end ''triage'') ''by hand'' = None"
    by code_simp+
  with fenced_block_overwrites show ?thesis by blast
qed

text \<open>
  a record that still has the opening marker but lost the closing one loses text: the next
  writing appends a block, and the one after that replaces everything from the stray marker on,
  the people's text between them included.
\<close>

theorem stray_marker_swallows:
  assumes "plain_name name" "closes_once name c"
    and "find_in (fence_begin name) body = Some b" "find_in (fence_end name) body = None"
  shows "replace_fenced_block (replace_fenced_block body name c) name d = take b body @ fenced name d @ [newline]"
proof -
  define s where "s = body @ (if body = [] \<or> last body = newline then [] else [newline])"
  have once: "replace_fenced_block body name c = s @ fenced name c @ [newline]"
    using appended_fence [of name body c] assms(4) by (simp add: s_def)
  have "find_in (fence_end name) s = None"
    using absent_sep [OF assms(1,4)] by (simp add: s_def)
  note e = appended_end [OF assms(1,2) this, of "[newline]"]
  from assms(3) have "b \<le> length body" "starts_with (fence_begin name) (drop b body)" by (auto simp: find_Some)
  then obtain pre u where body: "body = pre @ fence_begin name @ u" and pre: "length pre = b" "take b body = pre"
    by (metis append_take_drop_id length_take min.absorb2 starts_iff)
  obtain v where v: "s @ fenced name c @ [newline] = pre @ fence_begin name @ v" by (simp add: s_def body)
  have "find_in (fence_begin name) (s @ fenced name c @ [newline]) = Some b"
    using block_found [OF assms(3), of v] pre v by simp
  then have "replace_fenced_block (replace_fenced_block body name c) name d
      = take b (s @ fenced name c @ [newline]) @ fenced name d @ [newline]"
    using replaced_in_place [OF _ e, of b d] by (simp add: once) (simp add: fenced_def)
  then show ?thesis using v pre by simp
qed

theorem stray_marker_swallows_witness:
  "replace_fenced_block (replace_fenced_block (fence_begin ''w'' @ ''a note typed by hand'') ''w'' ''- a: 1'') ''w'' ''- a: 1''
     = fenced ''w'' ''- a: 1'' @ [newline]"
proof -
  have "plain_name ''w''" "closes_once ''w'' ''- a: 1''"
    "find_in (fence_begin ''w'') (fence_begin ''w'' @ ''a note typed by hand'') = Some 0"
    "find_in (fence_end ''w'') (fence_begin ''w'' @ ''a note typed by hand'') = None"
    by code_simp+
  from stray_marker_swallows [OF this, of "''- a: 1''"] show ?thesis by simp
qed

lemma render_plain:
  "CHR ''{'' \<notin> set s \<Longrightarrow> render_skeleton args n now actor (s @ t) = s @ render_skeleton args n now actor t"
  by (induction s) (auto simp: render_skeleton.simps(2))

lemma render_arg:
  assumes "CHR ''}'' \<notin> set key" "strip (''arg.'' @ key) = ''arg.'' @ key" "key \<noteq> []" "last key \<noteq> CHR ''?''"
    and "dict_get args key = Some v"
  shows "render_skeleton args n now actor (''{{arg.'' @ key @ ''}}'' @ t) = py_str v @ render_skeleton args n now actor t"
proof -
  have i: "inner (''arg.'' @ key @ ''}}'' @ t) = ''arg.'' @ key" "after_inner (''arg.'' @ key @ ''}}'' @ t) = ''}}'' @ t"
    using assms(1) by (simp_all add: inner_def after_inner_def takeWhile_append dropWhile_append)
  have p: "placeholder args n now actor (''arg.'' @ key) = Some (py_str v)"
    using assms(3-5) by (simp add: placeholder_def starts_with_def)
  have "render_skeleton args n now actor (CHR ''{'' # CHR ''{'' # (''arg.'' @ key @ ''}}'' @ t))
      = py_str v @ render_skeleton args n now actor t"
    using i p assms(2) by (subst render_skeleton.simps(2)) (simp add: starts_with_def)
  then show ?thesis by simp
qed

definition simple_skeleton :: string where
  "simple_skeleton = ''---'' @ [newline] @ ''title: '' @ ''{{arg.'' @ ''title'' @ ''}}'' @ [newline] @ ''status: open''
     @ [newline] @ ''---'' @ [newline]"

text \<open>
  an argument is put into the front matter as it is: a title that continues with a line of
  three dashes ends the front matter there, and the fields the skeleton gives after the title
  (here the status) are part of the body.
\<close>

theorem argument_ends_frontmatter:
  assumes "find_in (newline # ''---'') (''title: '' @ t) = None"
  shows "split_frontmatter (render_skeleton [(''title'', JStr (t @ [newline] @ ''---'' @ [newline] @ u))] n now actor simple_skeleton)
     = (Some (''title: '' @ t), lstrip_lines (u @ [newline] @ ''status: open'' @ [newline] @ ''---'' @ [newline]))"
proof -
  let ?v = "t @ [newline] @ ''---'' @ [newline] @ u"
  let ?rest = "[newline] @ ''status: open'' @ [newline] @ ''---'' @ [newline]"
  have s: "simple_skeleton = (''---'' @ [newline] @ ''title: '') @ (''{{arg.'' @ ''title'' @ ''}}'' @ ?rest)"
    by (simp add: simple_skeleton_def)
  have skel: "render_skeleton [(''title'', JStr ?v)] n now actor simple_skeleton = (''---'' @ [newline] @ ''title: '')
      @ render_skeleton [(''title'', JStr ?v)] n now actor (''{{arg.'' @ ''title'' @ ''}}'' @ ?rest)"
    unfolding s by (rule render_plain) simp
  have arg: "render_skeleton [(''title'', JStr ?v)] n now actor (''{{arg.'' @ ''title'' @ ''}}'' @ ?rest)
      = py_str (JStr ?v) @ render_skeleton [(''title'', JStr ?v)] n now actor ?rest"
    by (rule render_arg) (code_simp | simp)+
  have tail: "render_skeleton [(''title'', JStr ?v)] n now actor ?rest = ?rest"
    using render_plain [of ?rest "[(''title'', JStr ?v)]" n now actor "[]"] by simp
  have r: "render_skeleton [(''title'', JStr ?v)] n now actor simple_skeleton
      = ''---'' @ [newline] @ ((''title: '' @ t) @ (newline # ''---'') @ [newline] @ u @ ?rest)"
    unfolding skel arg tail by (simp add: py_str_def)
  show ?thesis unfolding r split_fenced [OF assms] by (simp add: lstrip_lines_def)
qed

theorem argument_ends_frontmatter_witness:
  "split_frontmatter (render_skeleton [(''title'', JStr (''Pump'' @ [newline] @ ''---'' @ [newline] @ ''leaks''))] 1 ''2026-01-01'' ''ann'' simple_skeleton)
     = (Some ''title: Pump'', ''leaks'' @ [newline] @ ''status: open'' @ [newline] @ ''---'' @ [newline])"
proof -
  have "find_in (newline # ''---'') (''title: '' @ ''Pump'') = None" by code_simp
  from argument_ends_frontmatter [OF this, of "''leaks''" 1 "''2026-01-01''" "''ann''"] show ?thesis
    by (simp add: lstrip_lines_def)
qed

end
