(* ===== verification/EntityStore.thy ===== *)
theory EntityStore
  imports EntityText DslRun
begin

text \<open>
  The one read and write path of a workspace's entities, \<open>entity/store.py\<close>, with the numbering
  of \<open>entity/numbering.py\<close> and the events it emits (\<open>entity/events.py\<close>): creating, reading and
  updating one record.  Listing and querying are in \<open>EntityQuery\<close>.

  A store is put on top of any file store.  The operations of this theory run without another
  writer in between, which the store's lock provides to those who share it; several writers
  without a common lock are the subject of \<open>EntityRaces\<close>.
\<close>

section \<open>Numbering\<close>

definition counter_path :: "string \<Rightarrow> string" where
  "counter_path records = ''/.readonly/entity/'' @ records @ ''.seq''"

definition record_path :: "string \<Rightarrow> nat \<Rightarrow> string" where
  "record_path records number = ''/'' @ records @ ''/'' @ dec number @ ''.md''"

definition last_part :: "string \<Rightarrow> string" where
  "last_part p = rev (takeWhile (\<lambda>c. c \<noteq> CHR ''/'') (rev p))"

definition ends_md :: "string \<Rightarrow> bool" where
  "ends_md s \<longleftrightarrow> 3 \<le> length s \<and> drop (length s - 3) s = ''.md''"

definition stem :: "string \<Rightarrow> string" where
  "stem path = (let l = last_part path in if ends_md l then take (length l - 3) l else l)"

definition is_digits :: "string \<Rightarrow> bool" where
  "is_digits s \<longleftrightarrow> s \<noteq> [] \<and> list_all digit_char s"

definition max_existing :: "'s fstore \<Rightarrow> string \<Rightarrow> string \<Rightarrow> 's \<Rightarrow> nat" where
  "max_existing R ws records s =
     foldl (\<lambda>highest p. if is_digits (stem p) then max highest (digits_value (stem p)) else highest) 0
       (fr_ls R ws (''/'' @ records @ ''/'') s)"

definition read_high_water :: "'s fstore \<Rightarrow> string \<Rightarrow> string \<Rightarrow> ('s, nat) fs_op" where
  "read_high_water R ws records s =
     (case fr_read R ws (counter_path records) s of
        (s1, Inl (FileNotFound e)) \<Rightarrow> (s1, Inr 0)
      | (s1, Inl e) \<Rightarrow> (s1, Inl e)
      | (s1, Inr raw) \<Rightarrow> (s1, Inr (if is_digits (strip raw) then digits_value (strip raw) else 0)))"

definition next_number :: "'s fstore \<Rightarrow> string \<Rightarrow> string \<Rightarrow> ('s, nat) fs_op" where
  "next_number R ws records s =
     (case read_high_water R ws records s of
        (s1, Inl e) \<Rightarrow> (s1, Inl e)
      | (s1, Inr high) \<Rightarrow> (s1, Inr (max high (max_existing R ws records s1) + 1)))"

definition record_high_water :: "'s fstore \<Rightarrow> string \<Rightarrow> string \<Rightarrow> nat \<Rightarrow> ('s, unit) fs_op" where
  "record_high_water R ws records number = fr_write R ws (counter_path records) (dec number)"

section \<open>The store\<close>

datatype ent_exn = Fs fs_exn | Py step_exn | Conflict string | UnknownType string | Endless

record write_origin =
  wo_trigger :: string
  wo_depth :: int

record write_event =
  we_item :: string
  we_type :: string
  we_number :: nat
  we_action :: string
  we_actor :: string
  we_version :: string
  we_fields :: "(string, json) dict"
  we_origin :: "write_origin option"
  we_path :: string

text \<open>\<open>sink\<close> is where a committed write is reported, absent where nobody listens.\<close>

record 's entities =
  es_files :: "'s fstore"
  es_ws :: string
  es_catalog :: catalog
  es_load :: "string \<Rightarrow> string + json"
  es_dump :: "json \<Rightarrow> string"
  es_digest :: "string \<Rightarrow> string"
  es_sink :: "(write_event \<Rightarrow> 's \<Rightarrow> 's) option"

type_synonym ('s, 'r) es_op = "'s \<Rightarrow> 's \<times> (ent_exn + 'r)"

definition on_files :: "('s, 'r) fs_op \<Rightarrow> ('s, 'r) es_op" where
  "on_files f s = (case f s of (s', Inl e) \<Rightarrow> (s', Inl (Fs e)) | (s', Inr r) \<Rightarrow> (s', Inr r))"

definition bindS :: "('s \<Rightarrow> 's \<times> ('e + 'a)) \<Rightarrow> ('a \<Rightarrow> 's \<Rightarrow> 's \<times> ('e + 'b)) \<Rightarrow> 's \<Rightarrow> 's \<times> ('e + 'b)" where
  "bindS m f s = (case m s of (s', Inl e) \<Rightarrow> (s', Inl e) | (s', Inr a) \<Rightarrow> f a s')"

definition retS :: "'a \<Rightarrow> 's \<Rightarrow> 's \<times> ('e + 'a)" where
  "retS a s = (s, Inr a)"

definition liftS :: "step_exn + 'a \<Rightarrow> ('s, 'a) es_op" where
  "liftS r s = (s, case r of Inl e \<Rightarrow> Inl (Py e) | Inr a \<Rightarrow> Inr a)"

definition type_of :: "'s entities \<Rightarrow> string \<Rightarrow> ('s, entity_type) es_op" where
  "type_of E name s = (s, case dict_get (es_catalog E) name of None \<Rightarrow> Inl (UnknownType name) | Some t \<Rightarrow> Inr t)"

definition parse_with :: "'s entities \<Rightarrow> string \<Rightarrow> entity_type \<Rightarrow> nat \<Rightarrow> string \<Rightarrow> step_exn + entity" where
  "parse_with E name t number raw = parse_entity (es_load E) (es_digest E) raw number name (et_schema t)"

definition emit_event ::
  "'s entities \<Rightarrow> entity_type \<Rightarrow> entity \<Rightarrow> string \<Rightarrow> string \<Rightarrow> write_origin option \<Rightarrow> 's \<Rightarrow> 's" where
  "emit_event E t e action actor origin s =
     (case es_sink E of
        None \<Rightarrow> s
      | Some sink \<Rightarrow> sink \<lparr>we_item = es_ws E, we_type = en_type e, we_number = en_number e, we_action = action,
          we_actor = actor, we_version = en_version e, we_fields = en_fields e, we_origin = origin,
          we_path = record_path (et_records_path t) (en_number e)\<rparr> s)"

text \<open>
  The walk to the first free number: \<open>fuel\<close> is the number of tries, \<open>None\<close> when it ran out, which
  \<open>claim_ends\<close> rules out for the fuel that \<open>create\<close> gives it.
\<close>

fun claim ::
  "'s fstore \<Rightarrow> string \<Rightarrow> string \<Rightarrow> (nat \<Rightarrow> string) \<Rightarrow> nat \<Rightarrow> nat \<Rightarrow> 's \<Rightarrow> ('s \<times> (fs_exn + nat)) option" where
  "claim R ws records text 0 number s = None"
| "claim R ws records text (Suc fuel) number s =
     (case fr_create R ws (record_path records number) (text number) s of
        (s1, Inr u) \<Rightarrow> Some (s1, Inr number)
      | (s1, Inl (FileExists e)) \<Rightarrow> claim R ws records text fuel (number + 1) s1
      | (s1, Inl e) \<Rightarrow> Some (s1, Inl e))"

definition claim_number ::
  "'s fstore \<Rightarrow> string \<Rightarrow> string \<Rightarrow> (nat \<Rightarrow> string) \<Rightarrow> nat \<Rightarrow> ('s, nat) es_op" where
  "claim_number R ws records text number s =
     (case claim R ws records text (Suc (length (fr_ls R ws [] s))) number s of
        None \<Rightarrow> (s, Inl Endless)
      | Some (s1, Inl e) \<Rightarrow> (s1, Inl (Fs e))
      | Some (s1, Inr n) \<Rightarrow> (s1, Inr n))"

definition create ::
  "'s entities \<Rightarrow> string \<Rightarrow> (string, json) dict \<Rightarrow> string \<Rightarrow> string \<Rightarrow> write_origin option \<Rightarrow> ('s, entity) es_op" where
  "create E name args actor now origin =
     bindS (type_of E name) (\<lambda>t.
       let R = es_files E; ws = es_ws E; records = et_records_path t;
           text = (\<lambda>number. render_skeleton args number now actor (et_skeleton t))
       in bindS (on_files (next_number R ws records)) (\<lambda>first.
          bindS (claim_number R ws records text first) (\<lambda>number.
          bindS (on_files (record_high_water R ws records number)) (\<lambda>u.
          bindS (liftS (parse_with E name t number (text number))) (\<lambda>created s.
            (emit_event E t created ''created'' actor origin s, Inr created))))))"

definition get_entity :: "'s entities \<Rightarrow> string \<Rightarrow> nat \<Rightarrow> ('s, entity) es_op" where
  "get_entity E name number =
     bindS (type_of E name) (\<lambda>t.
     bindS (on_files (fr_read (es_files E) (es_ws E) (record_path (et_records_path t) number))) (\<lambda>raw.
       liftS (parse_with E name t number raw)))"

definition merged :: "(string, json) dict \<Rightarrow> (string, json) dict \<Rightarrow> (string, json) dict" where
  "merged flds patch = foldl (\<lambda>d (k, v). dict_set k v d) flds patch"

definition update ::
  "'s entities \<Rightarrow> string \<Rightarrow> nat \<Rightarrow> (string, json) dict \<Rightarrow> string option \<Rightarrow> string option \<Rightarrow> string
   \<Rightarrow> write_origin option \<Rightarrow> ('s, entity) es_op" where
  "update E name number patch expected body actor origin =
     bindS (type_of E name) (\<lambda>t.
       let path = record_path (et_records_path t) number in
       bindS (on_files (fr_read (es_files E) (es_ws E) path)) (\<lambda>raw.
       bindS (liftS (parse_with E name t number raw)) (\<lambda>current.
         if expected \<noteq> None \<and> expected \<noteq> Some (en_version current)
         then (\<lambda>s. (s, Inl (Conflict (name @ '' #'' @ dec number @ '' changed since you read it (expected ''
                 @ the expected @ '', now '' @ en_version current @ '')''))))
         else
           let text = serialize_entity (es_dump E) (merged (en_fields current) patch)
                        (case body of None \<Rightarrow> en_body current | Some b \<Rightarrow> b) in
           bindS (on_files (fr_write (es_files E) (es_ws E) path text)) (\<lambda>u.
           bindS (liftS (parse_with E name t number text)) (\<lambda>updated s.
             (emit_event E t updated ''updated'' actor origin s, Inr updated))))))"

section \<open>What the store relies on\<close>

text \<open>A sink that leaves the files alone.\<close>

definition quiet_sink :: "'s entities \<Rightarrow> ('s \<Rightarrow> string \<Rightarrow> string \<Rightarrow> string option) \<Rightarrow> ('s \<Rightarrow> bool) \<Rightarrow> bool" where
  "quiet_sink E view ok \<longleftrightarrow>
     (\<forall>k ev s. es_sink E = Some k \<longrightarrow> ok s \<longrightarrow> ok (k ev s) \<and> view (k ev s) = view s)"

definition all_listed :: "'s entities \<Rightarrow> bool" where
  "all_listed E \<longleftrightarrow> (\<forall>name t. dict_get (es_catalog E) name = Some t \<longrightarrow> listed (et_schema t))"

text \<open>The high-water mark a view of the files shows.\<close>

definition mark_in :: "(string \<Rightarrow> string option) \<Rightarrow> string \<Rightarrow> nat" where
  "mark_in v records =
     (case v (counter_path records) of
        None \<Rightarrow> 0 | Some raw \<Rightarrow> if is_digits (strip raw) then digits_value (strip raw) else 0)"

lemma dec_is_digits [simp]: "is_digits (dec n)"
  using dec_digits [of n] by (simp add: is_digits_def list_all_iff)

lemma digit_visible: "digit_char c \<Longrightarrow> \<not> py_space c"
  by (auto simp: digit_char_def py_space_def Let_def)

lemma strip_dec [simp]: "strip (dec n) = dec n"
proof -
  have no: "\<forall>c \<in> set (dec n). \<not> py_space c" "dec n \<noteq> []" using dec_digits [of n] digit_visible by blast+
  then have "dropWhile py_space (dec n) = dec n" by (cases "dec n") auto
  moreover have "dropWhile py_space (rev (dec n)) = rev (dec n)"
    using no by (simp add: dropWhile_eq_self_iff hd_rev)
  ultimately show ?thesis by (simp add: strip_def)
qed

lemma digit_not_slash: "digit_char c \<Longrightarrow> c \<noteq> CHR ''/''"
  by (auto simp: digit_char_def)

lemma stem_record [simp]: "stem (record_path records n) = dec n"
proof -
  have "\<forall>c \<in> set (rev (dec n)). c \<noteq> CHR ''/''" using dec_digits [of n] digit_not_slash by auto
  then have "takeWhile (\<lambda>c. c \<noteq> CHR ''/'') (rev (dec n) @ CHR ''/'' # t) = rev (dec n)" for t
    by (subst takeWhile_append2) auto
  then have "last_part (record_path records n) = dec n @ ''.md''"
    by (simp add: last_part_def record_path_def)
  then show ?thesis by (simp add: stem_def ends_md_def)
qed

lemma record_inj [simp]: "record_path records n = record_path records m \<longleftrightarrow> n = m"
  by (metis digits_value_dec stem_record)

lemma record_under [simp]: "starts_with (CHR ''/'' # records @ ''/'') (record_path records n)"
  by (simp add: record_path_def starts_with_def)

lemma record_not_counter [simp]: "record_path records n \<noteq> counter_path records'"
proof
  assume "record_path records n = counter_path records'"
  then have "last (record_path records n) = last (counter_path records')" by simp
  then show False by (simp add: record_path_def counter_path_def)
qed

lemmas counter_not_record [simp] = record_not_counter [symmetric]

lemma counter_inj [simp]: "counter_path r = counter_path r' \<longleftrightarrow> r = r'"
  by (simp add: counter_path_def)

lemma foldl_max_bounds:
  "(m :: nat) \<le> foldl (\<lambda>h p. if P p then max h (f p) else h) m ps
    \<and> (\<forall>p \<in> set ps. P p \<longrightarrow> f p \<le> foldl (\<lambda>h p. if P p then max h (f p) else h) m ps)"
proof (induction ps arbitrary: m)
  case (Cons p ps)
  show ?case using Cons.IH [of "if P p then max m (f p) else m"] by auto
qed simp

lemma parse_returns:
  assumes "listed schema"
  shows "\<exists>e. parse_entity load digest raw number type schema = Inr e \<and> en_number e = number \<and> en_type e = type
     \<and> en_version e = content_version digest raw"
proof -
  obtain ds where "lint flds schema = Inr (ds flds)" for flds using lint_returns [OF assms] by metis
  then show ?thesis
    by (auto simp: parse_entity_def body_only_def split: prod.split option.split sum.split json.split)
qed

context file_store
begin

lemma high_water_read:
  assumes "ok s"
  shows "\<exists>s'. read_high_water R ws records s = (s', Inr (mark_in (view s ws) records)) \<and> ok s' \<and> view s' = view s"
proof -
  obtain s1 out where r: "fr_read R ws (counter_path records) s = (s1, out)" by fastforce
  from reads [OF assms r] r show ?thesis
    by (auto simp: read_high_water_def mark_in_def split: option.split)
qed

lemma existing_bounds:
  assumes "ok s" "view s ws (record_path records n) \<noteq> None"
  shows "n \<le> max_existing R ws records s"
proof -
  have "record_path records n \<in> set (fr_ls R ws (''/'' @ records @ ''/'') s)"
    using ls_law [OF assms(1), of ws "''/'' @ records @ ''/''"] assms(2) by simp
  with foldl_max_bounds [of 0 "\<lambda>p. is_digits (stem p)" "\<lambda>p. digits_value (stem p)" "fr_ls R ws (''/'' @ records @ ''/'') s"]
  have "is_digits (stem (record_path records n)) \<longrightarrow>
      digits_value (stem (record_path records n)) \<le> max_existing R ws records s"
    unfolding max_existing_def by blast
  then show ?thesis by (simp add: digits_value_dec)
qed

lemma next_free:
  assumes "ok s"
  shows "\<exists>s' n. next_number R ws records s = (s', Inr n) \<and> ok s' \<and> view s' = view s
     \<and> mark_in (view s ws) records < n \<and> (\<forall>m. view s ws (record_path records m) \<noteq> None \<longrightarrow> m < n)"
proof -
  obtain s' where "read_high_water R ws records s = (s', Inr (mark_in (view s ws) records))" "ok s'" "view s' = view s"
    using high_water_read [OF assms] by blast
  with existing_bounds [of s' ws records] show ?thesis
    by (fastforce simp: next_number_def less_Suc_eq_le le_max_iff_disj)
qed

text \<open>With no other writer the first number tried is free.\<close>

lemma claims_first:
  assumes "ok s" "view s ws (record_path records n) = None"
  shows "\<exists>s'. claim_number R ws records text n s = (s', Inr n) \<and> ok s'
     \<and> view s' = (view s)(ws := (view s ws)(record_path records n \<mapsto> text n))"
  using create_law [OF assms, of "text n"] by (auto simp: claim_number_def)

lemma claim_walks:
  "ok s \<Longrightarrow> card {m. n \<le> m \<and> view s ws (record_path records m) \<noteq> None} < fuel \<Longrightarrow>
     \<exists>s' m. claim R ws records text fuel n s = Some (s', Inr m) \<and> ok s' \<and> n \<le> m
       \<and> view s ws (record_path records m) = None \<and> (\<forall>k. n \<le> k \<and> k < m \<longrightarrow> view s ws (record_path records k) \<noteq> None)
       \<and> view s' = (view s)(ws := (view s ws)(record_path records m \<mapsto> text m))"
proof (induction fuel arbitrary: n)
  case (Suc fuel)
  let ?A = "\<lambda>n. {m. n \<le> m \<and> view s ws (record_path records m) \<noteq> None}"
  show ?case
  proof (cases "view s ws (record_path records n)")
    case None
    with create_law [OF Suc.prems(1) None, of "text n"] show ?thesis by fastforce
  next
    case (Some b)
    have inj: "inj_on (record_path records) (?A n)"
      by (simp add: inj_on_def)
    have "finite (record_path records ` ?A n)"
      by (rule finite_subset [OF _ finite_view [OF Suc.prems(1), of ws]]) auto
    then have fin: "finite (?A n)" using inj by (rule finite_imageD)
    have "?A n = insert n (?A (n + 1))" using Some by (auto simp: le_Suc_eq Suc_le_eq order_le_less)
    with fin have "card (?A n) = Suc (card (?A (n + 1)))" by simp
    with Suc.prems(2) have "card (?A (n + 1)) < fuel" by simp
    from Suc.IH [OF Suc.prems(1) this] obtain s' m where
      m: "claim R ws records text fuel (n + 1) s = Some (s', Inr m)" "ok s'" "n + 1 \<le> m"
        "view s ws (record_path records m) = None" "\<forall>k. n + 1 \<le> k \<and> k < m \<longrightarrow> view s ws (record_path records k) \<noteq> None"
        "view s' = (view s)(ws := (view s ws)(record_path records m \<mapsto> text m))" by blast
    have "\<forall>k. n \<le> k \<and> k < m \<longrightarrow> view s ws (record_path records k) \<noteq> None"
      using m(5) Some by (metis Suc_eq_plus1 Suc_leI le_neq_implies_less option.distinct(1))
    with m taken_law [OF Suc.prems(1), of ws "record_path records n" "text n"] Some show ?thesis
      by (auto simp: fun_upd_def)
  qed
qed simp

text \<open>The fuel \<open>create\<close> gives is enough whatever the number the walk starts at.\<close>

lemma claim_ends:
  assumes "ok s"
  shows "\<exists>s' m. claim_number R ws records text n s = (s', Inr m) \<and> ok s' \<and> n \<le> m
       \<and> view s ws (record_path records m) = None \<and> (\<forall>k. n \<le> k \<and> k < m \<longrightarrow> view s ws (record_path records k) \<noteq> None)
       \<and> view s' = (view s)(ws := (view s ws)(record_path records m \<mapsto> text m))"
proof -
  let ?A = "{m. n \<le> m \<and> view s ws (record_path records m) \<noteq> None}"
  have "inj_on (record_path records) ?A" by (simp add: inj_on_def)
  moreover have "record_path records ` ?A \<subseteq> set (fr_ls R ws [] s)" using ls_all [OF assms, of ws] by auto
  ultimately have "card ?A \<le> card (set (fr_ls R ws [] s))" by (meson List.finite_set card_inj_on_le)
  also have "\<dots> \<le> length (fr_ls R ws [] s)" by (rule card_length)
  finally have "card ?A < Suc (length (fr_ls R ws [] s))" by simp
  from claim_walks [OF assms this, of "text"] show ?thesis by (auto simp: claim_number_def)
qed

end

section \<open>Creating\<close>

lemma mark_set [simp]: "mark_in (v(counter_path r \<mapsto> dec n)) r = n"
  by (simp add: mark_in_def digits_value_dec)

lemma mark_other: "v (counter_path r) = v' (counter_path r) \<Longrightarrow> mark_in v r = mark_in v' r"
  by (simp add: mark_in_def)

lemma emitted:
  assumes "quiet_sink E view ok" "ok s"
  shows "ok (emit_event E t e action actor origin s)" "view (emit_event E t e action actor origin s) = view s"
  using assms by (auto simp: quiet_sink_def emit_event_def split: option.split)

context file_store
begin

lemma creates:
  assumes "ok s" "es_files E = R" "quiet_sink E view ok"
    and "dict_get (es_catalog E) name = Some t" "listed (et_schema t)"
  shows "\<exists>s' e. create E name args actor now origin s = (s', Inr e) \<and> ok s'
     \<and> mark_in (view s (es_ws E)) (et_records_path t) < en_number e
     \<and> (\<forall>m. view s (es_ws E) (record_path (et_records_path t) m) \<noteq> None \<longrightarrow> m < en_number e)
     \<and> view s' = (view s)(es_ws E := (view s (es_ws E))
          (record_path (et_records_path t) (en_number e)
             \<mapsto> render_skeleton args (en_number e) now actor (et_skeleton t),
           counter_path (et_records_path t) \<mapsto> dec (en_number e)))"
proof -
  let ?ws = "es_ws E" and ?rp = "et_records_path t"
  let ?text = "\<lambda>n. render_skeleton args n now actor (et_skeleton t)"
  obtain s1 n where s1: "next_number R ?ws ?rp s = (s1, Inr n)" "ok s1" "view s1 = view s"
      "mark_in (view s ?ws) ?rp < n" "\<forall>m. view s ?ws (record_path ?rp m) \<noteq> None \<longrightarrow> m < n"
    using next_free [OF assms(1), of ?ws ?rp] by blast
  have none: "view s1 ?ws (record_path ?rp n) = None" using s1 by fastforce
  obtain s2 where s2: "claim_number R ?ws ?rp ?text n s1 = (s2, Inr n)" "ok s2"
      "view s2 = (view s1)(?ws := (view s1 ?ws)(record_path ?rp n \<mapsto> ?text n))"
    using claims_first [OF s1(2) none, of ?text] by blast
  obtain s3 where s3: "fr_write R ?ws (counter_path ?rp) (dec n) s2 = (s3, Inr ())" "ok s3"
      "view s3 = (view s2)(?ws := (view s2 ?ws)(counter_path ?rp \<mapsto> dec n))"
    using write_law [OF s2(2)] by blast
  obtain e where e: "parse_with E name t n (?text n) = Inr e" "en_number e = n"
    using parse_returns [OF assms(5)] unfolding parse_with_def by metis
  have "create E name args actor now origin s = (emit_event E t e ''created'' actor origin s3, Inr e)"
    using s1(1) s2(1) s3(1) e(1) assms(2,4)
    by (simp add: create_def bindS_def type_of_def on_files_def liftS_def record_high_water_def Let_def)
  moreover have "view s3 = (view s)(?ws := (view s ?ws)(record_path ?rp n \<mapsto> ?text n, counter_path ?rp \<mapsto> dec n))"
    using s3(3) s2(3) s1(3) by simp
  ultimately show ?thesis using emitted [OF assms(3) s3(2)] s1(4,5) e(2) by auto
qed

end

text \<open>What happens to the files between two reads: creations through the store, and any other edit.\<close>

datatype space_op =
  Create string "(string, json) dict" string string | Delete string | Edit string string

fun touched :: "space_op \<Rightarrow> string set" where
  "touched (Create name args actor now) = {}"
| "touched (Delete p) = {p}"
| "touched (Edit p b) = {p}"

text \<open>The numbers given out, with their types.\<close>

fun issued :: "'s entities \<Rightarrow> space_op list \<Rightarrow> 's \<Rightarrow> (string \<times> nat) list" where
  "issued E [] s = []"
| "issued E (Create name args actor now # ops) s =
     (case create E name args actor now None s of
        (s', Inr e) \<Rightarrow> (name, en_number e) # issued E ops s'
      | (s', Inl e) \<Rightarrow> issued E ops s')"
| "issued E (Delete p # ops) s = issued E ops (fst (fr_delete (es_files E) (es_ws E) p s))"
| "issued E (Edit p b # ops) s = issued E ops (fst (fr_write (es_files E) (es_ws E) p b s))"

context file_store
begin

lemma issues_ascend:
  assumes "es_files E = R" "quiet_sink E view ok" "\<forall>n t. dict_get (es_catalog E) n = Some t \<longrightarrow> listed (et_schema t)"
    and "dict_get (es_catalog E) name = Some t"
  shows "ok s \<Longrightarrow> counter_path (et_records_path t) \<notin> \<Union> (touched ` set ops) \<Longrightarrow>
     sorted_wrt (<) (map snd (filter (\<lambda>p. fst p = name) (issued E ops s)))
     \<and> (\<forall>p \<in> set (issued E ops s). fst p = name \<longrightarrow> mark_in (view s (es_ws E)) (et_records_path t) < snd p)"
proof (induction ops arbitrary: s)
  case (Cons oper ops)
  let ?mark = "\<lambda>s. mark_in (view s (es_ws E)) (et_records_path t)"
  have rest: "counter_path (et_records_path t) \<notin> \<Union> (touched ` set ops)" using Cons.prems(2) by simp
  show ?case
  proof (cases oper)
    case (Create n args actor now)
    show ?thesis
    proof (cases "dict_get (es_catalog E) n")
      case None
      then have "create E n args actor now None s = (s, Inl (UnknownType n))"
        by (simp add: create_def bindS_def type_of_def)
      with Cons.IH [OF Cons.prems(1) rest] Create show ?thesis by simp
    next
      case (Some u)
      then have "listed (et_schema u)" using assms(3) by blast
      from creates [OF Cons.prems(1) assms(1,2) Some this, of args actor now None] obtain s' e where
        c: "create E n args actor now None s = (s', Inr e)" "ok s'"
          "mark_in (view s (es_ws E)) (et_records_path u) < en_number e"
          "view s' = (view s)(es_ws E := (view s (es_ws E))
            (record_path (et_records_path u) (en_number e)
               \<mapsto> render_skeleton args (en_number e) now actor (et_skeleton u),
             counter_path (et_records_path u) \<mapsto> dec (en_number e)))" by blast
      have mark: "?mark s' = (if et_records_path u = et_records_path t then en_number e else ?mark s)"
      proof (cases "et_records_path u = et_records_path t")
        case False
        then have "view s' (es_ws E) (counter_path (et_records_path t)) = view s (es_ws E) (counter_path (et_records_path t))"
          using c(4) by auto
        with False show ?thesis by (simp add: mark_in_def)
      qed (use c(4) in simp)
      show ?thesis
        using Cons.IH [OF c(2) rest] c(1,3) mark Some assms(4) Create
        by (auto split: if_splits)
    qed
  next
    case (Delete p)
    then have p: "p \<noteq> counter_path (et_records_path t)" using Cons.prems(2) by auto
    obtain s' where s': "fst (fr_delete R (es_ws E) p s) = s'" "ok s'"
        "view s' (es_ws E) (counter_path (et_records_path t)) = view s (es_ws E) (counter_path (et_records_path t))"
      using delete_law [OF Cons.prems(1), of "es_ws E" p] absent_law [OF Cons.prems(1), of "es_ws E" p] p
      by (cases "view s (es_ws E) p") auto
    then have "?mark s' = ?mark s" by (intro mark_other)
    with Cons.IH [OF s'(2) rest] s'(1) Delete assms(1) show ?thesis by simp
  next
    case (Edit p b)
    then have p: "p \<noteq> counter_path (et_records_path t)" using Cons.prems(2) by auto
    obtain s' where s': "fst (fr_write R (es_ws E) p b s) = s'" "ok s'"
        "view s' (es_ws E) (counter_path (et_records_path t)) = view s (es_ws E) (counter_path (et_records_path t))"
      using write_law [OF Cons.prems(1), of "es_ws E" p b] p by auto
    then have "?mark s' = ?mark s" by (intro mark_other)
    with Cons.IH [OF s'(2) rest] s'(1) Edit assms(1) show ?thesis by simp
  qed
qed simp

end

section \<open>Updating\<close>

context file_store
begin

lemma reads_back:
  assumes "ok s" "es_files E = R" "dict_get (es_catalog E) name = Some t"
    and "view s (es_ws E) (record_path (et_records_path t) n) = Some raw"
  shows "\<exists>s'. get_entity E name n s = (s', case parse_with E name t n raw of Inl e \<Rightarrow> Inl (Py e) | Inr a \<Rightarrow> Inr a)
     \<and> ok s' \<and> view s' = view s"
  using read_law [OF assms(1), of "es_ws E" "record_path (et_records_path t) n"] assms(2-4)
  by (auto simp: get_entity_def bindS_def type_of_def on_files_def liftS_def)

text \<open>An update whose version check passes, and one whose check fails.\<close>

lemma updates:
  assumes "ok s" "es_files E = R" "quiet_sink E view ok"
    and "dict_get (es_catalog E) name = Some t" "listed (et_schema t)"
    and raw: "view s (es_ws E) (record_path (et_records_path t) n) = Some raw"
    and cur: "parse_with E name t n raw = Inr cur" and "expected = None \<or> expected = Some (en_version cur)"
  shows "\<exists>s' e. update E name n patch expected body actor origin s = (s', Inr e) \<and> ok s'
     \<and> parse_with E name t n (serialize_entity (es_dump E) (merged (en_fields cur) patch)
          (case body of None \<Rightarrow> en_body cur | Some b \<Rightarrow> b)) = Inr e
     \<and> view s' = (view s)(es_ws E := (view s (es_ws E))(record_path (et_records_path t) n
          \<mapsto> serialize_entity (es_dump E) (merged (en_fields cur) patch) (case body of None \<Rightarrow> en_body cur | Some b \<Rightarrow> b)))"
proof -
  let ?p = "record_path (et_records_path t) n"
  let ?text = "serialize_entity (es_dump E) (merged (en_fields cur) patch) (case body of None \<Rightarrow> en_body cur | Some b \<Rightarrow> b)"
  obtain s1 where s1: "fr_read R (es_ws E) ?p s = (s1, Inr raw)" "ok s1" "view s1 = view s"
    using read_law [OF assms(1), of "es_ws E" ?p] raw by auto
  obtain s2 where s2: "fr_write R (es_ws E) ?p ?text s1 = (s2, Inr ())" "ok s2"
      "view s2 = (view s1)(es_ws E := (view s1 (es_ws E))(?p \<mapsto> ?text))"
    using write_law [OF s1(2)] by blast
  obtain e where e: "parse_with E name t n ?text = Inr e"
    using parse_returns [OF assms(5)] unfolding parse_with_def by blast
  have "update E name n patch expected body actor origin s = (emit_event E t e ''updated'' actor origin s2, Inr e)"
    using s1(1) s2(1) e cur assms(2,4,8)
    by (auto simp: update_def bindS_def type_of_def on_files_def liftS_def Let_def)
  then show ?thesis using emitted [OF assms(3) s2(2)] s2(3) s1(3) e by auto
qed

lemma refuses:
  assumes "ok s" "es_files E = R" "dict_get (es_catalog E) name = Some t"
    and raw: "view s (es_ws E) (record_path (et_records_path t) n) = Some raw"
    and cur: "parse_with E name t n raw = Inr cur" and "v \<noteq> en_version cur"
  shows "\<exists>s' m. update E name n patch (Some v) body actor origin s = (s', Inl (Conflict m)) \<and> ok s' \<and> view s' = view s"
  using read_law [OF assms(1), of "es_ws E" "record_path (et_records_path t) n"] raw cur assms(2,3,6)
  by (auto simp: update_def bindS_def type_of_def on_files_def liftS_def Let_def)

end

section \<open>Properties\<close>

text \<open>
  C20: a number is given out once: whatever is created, edited and deleted in between, short of
  the counter file itself, the numbers a type hands out strictly increase, so that a deleted
  record's number is never used again, and all of them are above the mark there was before.
\<close>

theorem numbers_never_reused:
  assumes "file_store (es_files E) view ok" "ok s" "quiet_sink E view ok" "all_listed E"
    and "dict_get (es_catalog E) name = Some t" "counter_path (et_records_path t) \<notin> \<Union> (touched ` set ops)"
  shows "sorted_wrt (<) (map snd (filter (\<lambda>p. fst p = name) (issued E ops s)))
     \<and> (\<forall>n. (name, n) \<in> set (issued E ops s) \<longrightarrow> mark_in (view s (es_ws E)) (et_records_path t) < n)"
proof -
  have "\<forall>n t. dict_get (es_catalog E) n = Some t \<longrightarrow> listed (et_schema t)" using assms(4) by (simp add: all_listed_def)
  from file_store.issues_ascend [OF assms(1) refl assms(3) this assms(5,2,6)] show ?thesis by fastforce
qed

definition task_type :: entity_type where
  "task_type = \<lparr>et_name = ''task'', et_schema = [], et_skeleton = ''New'', et_records_path = ''tasks''\<rparr>"

definition desk :: "mem_store entities" where
  "desk = \<lparr>es_files = memory, es_ws = ''ws'', es_catalog = [(''task'', task_type)], es_load = title_load,
     es_dump = title_dump, es_digest = (\<lambda>t. rev t), es_sink = None\<rparr>"

definition no_files :: mem_store where
  "no_files = \<lparr>mm_files = [], mm_dirs = []\<rparr>"

lemma desk_simps [simp]: "es_files desk = memory" "es_catalog desk = [(''task'', task_type)]" "es_ws desk = ''ws''"
    "et_schema task_type = []" "et_records_path task_type = ''tasks''" "es_sink desk = None"
  by (simp_all add: desk_def task_type_def)

lemma desk_fine [simp]: "mem_ok no_files" "quiet_sink desk mem_view mem_ok" "all_listed desk"
  by (simp_all add: mem_ok_def no_files_def files_of_def quiet_sink_def all_listed_def listed_def)

lemma mem_at: "file_store (es_files desk) mem_view mem_ok"
  by (simp add: mem.file_store_axioms)

definition desk_day :: "space_op list" where
  "desk_day = [Create ''task'' [] ''ann'' ''now'', Create ''task'' [] ''bob'' ''now'',
     Delete ''/tasks/2.md'', Create ''task'' [] ''ann'' ''now'']"

theorem numbers_never_reused_witness:
  "issued desk desk_day no_files = [(''task'', 1), (''task'', 2), (''task'', 3)]
     \<and> sorted_wrt (<) (map snd (filter (\<lambda>p. fst p = ''task'') (issued desk desk_day no_files)))"
proof -
  have "dict_get (es_catalog desk) ''task'' = Some task_type" by simp
  moreover have "counter_path (et_records_path task_type) \<notin> \<Union> (touched ` set desk_day)"
    by (simp add: desk_day_def counter_path_def)
  moreover have "issued desk desk_day no_files = [(''task'', 1), (''task'', 2), (''task'', 3)]" by code_simp
  ultimately show ?thesis
    using numbers_never_reused [OF mem_at desk_fine(1-3)] by blast
qed

text \<open>
  with no other writer a creation returns the new record, whose number is above the mark and
  above every record there, and changes exactly two files: its own, which did not exist, and the
  counter.
\<close>

theorem create_adds_one:
  assumes "file_store (es_files E) view ok" "ok s" "quiet_sink E view ok" "dict_get (es_catalog E) name = Some t"
    and "listed (et_schema t)"
  shows "\<exists>s' e. create E name args actor now origin s = (s', Inr e)
     \<and> mark_in (view s (es_ws E)) (et_records_path t) < en_number e
     \<and> (\<forall>m. view s (es_ws E) (record_path (et_records_path t) m) \<noteq> None \<longrightarrow> m < en_number e)
     \<and> view s' = (view s)(es_ws E := (view s (es_ws E))
          (record_path (et_records_path t) (en_number e)
             \<mapsto> render_skeleton args (en_number e) now actor (et_skeleton t),
           counter_path (et_records_path t) \<mapsto> dec (en_number e)))"
  using file_store.creates [OF assms(1,2) refl assms(3-5)] by blast

theorem create_adds_one_witness:
  "\<exists>s' e. create desk ''task'' [] ''ann'' ''now'' None no_files = (s', Inr e) \<and> mem_view s' ''ws'' ''/tasks/1.md'' = Some ''New''"
proof -
  have t: "dict_get (es_catalog desk) ''task'' = Some task_type" and l: "listed (et_schema task_type)"
    by (simp_all add: listed_def)
  have n: "map_sum (\<lambda>e. e) en_number (snd (create desk ''task'' [] ''ann'' ''now'' None no_files)) = Inr 1" by code_simp
  have p: "record_path ''tasks'' 1 = ''/tasks/1.md''" "counter_path ''tasks'' = ''/.readonly/entity/tasks.seq''" by code_simp+
  have r: "render_skeleton [] 1 ''now'' ''ann'' ''New'' = ''New''" by code_simp
  from create_adds_one [OF mem_at desk_fine(1,2) t l, of "[]" "''ann''" "''now''" None] n p r show ?thesis
    by (force simp: task_type_def)
qed

text \<open>
  two updates that were prepared from one reading of a record do not both succeed: once the
  first is written, the second, carrying the same version, is refused as a conflict and changes
  nothing, as long as the digest tells the two contents apart.
\<close>

theorem stale_update_refused:
  assumes "file_store (es_files E) view ok" "ok s" "quiet_sink E view ok" "dict_get (es_catalog E) name = Some t"
    and "listed (et_schema t)" "view s (es_ws E) (record_path (et_records_path t) n) = Some raw"
    and "parse_with E name t n raw = Inr cur"
    and "content_version (es_digest E) (serialize_entity (es_dump E) (merged (en_fields cur) p1) (en_body cur)) \<noteq> en_version cur"
  shows "\<exists>s1 e1 s2 m. update E name n p1 (Some (en_version cur)) None a1 o1 s = (s1, Inr e1)
     \<and> update E name n p2 (Some (en_version cur)) b2 a2 o2 s1 = (s2, Inl (Conflict m))
     \<and> view s2 = view s1
     \<and> view s2 (es_ws E) (record_path (et_records_path t) n)
         = Some (serialize_entity (es_dump E) (merged (en_fields cur) p1) (en_body cur))"
proof -
  let ?text = "serialize_entity (es_dump E) (merged (en_fields cur) p1) (en_body cur)"
  obtain s1 e1 where s1: "update E name n p1 (Some (en_version cur)) None a1 o1 s = (s1, Inr e1)" "ok s1"
      "parse_with E name t n ?text = Inr e1"
      "view s1 = (view s)(es_ws E := (view s (es_ws E))(record_path (et_records_path t) n \<mapsto> ?text))"
    using file_store.updates [OF assms(1,2) refl assms(3-7), of "Some (en_version cur)" p1 None a1 o1] by auto
  have "en_version e1 = content_version (es_digest E) ?text"
    using s1(3) parse_returns [OF assms(5)] unfolding parse_with_def by (metis Inr_inject)
  then have "en_version cur \<noteq> en_version e1" using assms(8) by simp
  from file_store.refuses [OF assms(1) s1(2) refl assms(4) _ s1(3) this, of p2 b2 a2 o2] s1 show ?thesis by fastforce
qed

definition pump_file :: string where
  "pump_file = ''---'' @ [newline] @ ''title: pump'' @ [newline] @ ''---'' @ [newline] @ ''It leaks.''"

definition pump :: entity where
  "pump = \<lparr>en_number = 1, en_type = ''task'', en_fields = [(''title'', JStr ''pump'')], en_body = ''It leaks.'',
     en_diagnostics = [], en_version = content_version (es_digest desk) pump_file\<rparr>"

definition one_file :: mem_store where
  "one_file = \<lparr>mm_files = [(''ws'', [(''/tasks/1.md'', pump_file)])], mm_dirs = []\<rparr>"

lemma one_file_ok [simp]: "mem_ok one_file"
  by (simp add: mem_ok_def one_file_def files_of_def)

lemma pump_there: "mem_view one_file (es_ws desk) (record_path (et_records_path task_type) 1) = Some pump_file"
  by code_simp

lemma pump_parsed: "parse_with desk ''task'' task_type 1 pump_file = Inr pump"
  by code_simp

theorem stale_update_refused_witness:
  "\<exists>s1 e1 s2 m. update desk ''task'' 1 [] (Some (en_version pump)) None ''ann'' None one_file = (s1, Inr e1)
     \<and> update desk ''task'' 1 [] (Some (en_version pump)) (Some ''again'') ''bob'' None s1 = (s2, Inl (Conflict m))"
proof -
  have t: "dict_get (es_catalog desk) ''task'' = Some task_type" and l: "listed (et_schema task_type)"
    by (simp_all add: listed_def)
  have "content_version (es_digest desk) (serialize_entity (es_dump desk) (merged (en_fields pump) []) (en_body pump))
      \<noteq> en_version pump" by code_simp
  from stale_update_refused [OF mem_at one_file_ok desk_fine(2) t l pump_there pump_parsed this] show ?thesis by blast
qed

end
