(* ===== verification/EntityQuery.thy ===== *)
theory EntityQuery
  imports EntityStore
begin

text \<open>
  Reading a type of entities as a whole: the scan, the health findings and the query of
  \<open>entity/store.py\<close>, with the relations computed on reading of \<open>entity/projection.py\<close>.
\<close>

section \<open>Listing\<close>

definition record_number :: "string \<Rightarrow> nat option" where
  "record_number path = (if is_digits (stem path) \<and> ends_md path then Some (digits_value (stem path)) else None)"

definition numbered :: "string list \<Rightarrow> (nat \<times> string) list" where
  "numbered paths =
     sort_key fst (sort_key snd (concat (map (\<lambda>p. case record_number p of None \<Rightarrow> [] | Some n \<Rightarrow> [(n, p)]) paths)))"

definition parse_type :: "'s entities \<Rightarrow> string \<Rightarrow> ('s, entity list) es_op" where
  "parse_type E name =
     bindS (type_of E name) (\<lambda>t s.
       let ns = numbered (fr_ls (es_files E) (es_ws E) (''/'' @ et_records_path t @ ''/'') s) in
       bindS (on_files (read_all (es_files E) (es_ws E) (map snd ns))) (\<lambda>blobs.
         liftS (mapE (\<lambda>(n, raw). parse_with E name t n raw) (zip (map fst ns) blobs))) s)"

text \<open>Every finding of every type, by type then number.\<close>

fun health_of :: "'s entities \<Rightarrow> string list \<Rightarrow> ('s, (string \<times> nat \<times> diagnostic) list) es_op" where
  "health_of E [] = retS []"
| "health_of E (name # names) =
     bindS (parse_type E name) (\<lambda>es.
     bindS (health_of E names) (\<lambda>rest.
       retS (concat (map (\<lambda>e. map (\<lambda>d. (name, en_number e, d)) (en_diagnostics e)) es) @ rest)))"

definition health :: "'s entities \<Rightarrow> ('s, (string \<times> nat \<times> diagnostic) list) es_op" where
  "health E = health_of E (dict_keys (es_catalog E))"

section \<open>Relations computed on reading\<close>

type_synonym corpus = "(string, (nat, entity) dict) dict"

text \<open>
  \<open>float(value)\<close> is the argument \<open>number\<close>, none when it raises; a derived value is a list of
  numbers, a count, the empty sum, nothing, or a number.
\<close>

datatype 'n derived = Backrefs "nat list" | Count nat | NoSum | Nothing | Number 'n

definition split_ref :: "string \<Rightarrow> string \<times> string" where
  "split_ref r = (takeWhile (\<lambda>c. c \<noteq> CHR ''.'') r, tl (dropWhile (\<lambda>c. c \<noteq> CHR ''.'') r))"

definition records_of :: "corpus \<Rightarrow> string \<Rightarrow> (nat, entity) dict" where
  "records_of corpus t = (case dict_get corpus t of None \<Rightarrow> [] | Some rs \<Rightarrow> rs)"

definition field_value :: "entity \<Rightarrow> json \<Rightarrow> json" where
  "field_value e f =
     (case f of JStr k \<Rightarrow> (case dict_get (en_fields e) k of None \<Rightarrow> JNull | Some v \<Rightarrow> v) | _ \<Rightarrow> JNull)"

definition pointing :: "corpus \<Rightarrow> string \<Rightarrow> nat \<Rightarrow> (nat, entity) dict" where
  "pointing corpus source target =
     filter (\<lambda>(n, e). py_int (field_value e (JStr (snd (split_ref source)))) = Some (int target))
       (records_of corpus (fst (split_ref source)))"

definition backref_numbers :: "string \<Rightarrow> nat \<Rightarrow> corpus \<Rightarrow> nat list" where
  "backref_numbers source target corpus =
     (if CHR ''.'' \<notin> set source then [] else sort (map fst (pointing corpus source target)))"

definition rollup ::
  "(json \<Rightarrow> 'n::linordered_field option) \<Rightarrow> field_spec \<Rightarrow> field_spec list \<Rightarrow> nat \<Rightarrow> corpus \<Rightarrow> step_exn + 'n derived" where
  "rollup number spec schema target corpus =
     (case (if truthy (fs_over spec) then schema_field schema (fs_over spec) else None) of
        None \<Rightarrow> Inr Nothing
      | Some over \<Rightarrow>
          if fs_role over \<noteq> BACKREF \<or> \<not> truthy (fs_from over) then Inr Nothing
          else (case fs_from over of
             JStr source \<Rightarrow>
               if CHR ''.'' \<notin> set source then Inl (Raised ''ValueError'')
               else
                 let found = map snd (pointing corpus source target);
                     matched = (case fs_where spec of
                                  None \<Rightarrow> found
                                | Some conds \<Rightarrow>
                                    filter (\<lambda>e. list_all (\<lambda>(k, v). py_str (field_value e (JStr k)) = v) conds) found);
                     values = List.map_filter (\<lambda>e. number (field_value e (fs_field spec))) matched
                 in Inr (if fs_agg spec = JStr ''count'' then Count (length matched)
                         else if values = [] then (if fs_agg spec = JStr ''sum'' then NoSum else Nothing)
                         else if fs_agg spec = JStr ''sum'' then Number (sum_list values)
                         else if fs_agg spec = JStr ''avg'' then Number (sum_list values / of_nat (length values))
                         else if fs_agg spec = JStr ''min'' then Number (Min (set values))
                         else if fs_agg spec = JStr ''max'' then Number (Max (set values))
                         else Nothing)
           | _ \<Rightarrow> Inl (Raised ''AttributeError'')))"

fun compute_derived ::
  "(json \<Rightarrow> 'n::linordered_field option) \<Rightarrow> entity \<Rightarrow> field_spec list \<Rightarrow> field_spec list \<Rightarrow> corpus
   \<Rightarrow> step_exn + (string, 'n derived) dict" where
  "compute_derived number e schema [] corpus = Inr []"
| "compute_derived number e schema (f # fs) corpus =
     bindE (if fs_role f = BACKREF \<and> truthy (fs_from f)
            then (case fs_from f of
                    JStr source \<Rightarrow> Inr [(fs_name f, Backrefs (backref_numbers source (en_number e) corpus))]
                  | _ \<Rightarrow> Inl (Raised ''TypeError''))
            else if fs_role f = ROLLUP
            then bindE (rollup number f schema (en_number e) corpus) (\<lambda>v. Inr [(fs_name f, v)])
            else Inr [])
       (\<lambda>d. bindE (compute_derived number e schema fs corpus) (\<lambda>rest. Inr (d @ rest)))"

definition by_number :: "entity list \<Rightarrow> (nat, entity) dict" where
  "by_number es = foldl (\<lambda>d e. dict_set (en_number e) e d) [] es"

text \<open>The other types are parsed for their clean records; the type asked for is passed on.\<close>

fun corpus_of :: "'s entities \<Rightarrow> string \<Rightarrow> entity list \<Rightarrow> string list \<Rightarrow> ('s, corpus) es_op" where
  "corpus_of E mine ok [] = retS []"
| "corpus_of E mine ok (name # names) =
     bindS (if name = mine then retS ok
            else bindS (parse_type E name) (\<lambda>es. retS (filter entity_ok es)))
       (\<lambda>es. bindS (corpus_of E mine ok names) (\<lambda>rest.
          retS ((name, by_number es) # rest)))"

definition has_relations :: "field_spec list \<Rightarrow> bool" where
  "has_relations schema \<longleftrightarrow> list_ex (\<lambda>f. fs_role f = BACKREF \<or> fs_role f = ROLLUP) schema"

text \<open>The clean records, each with the derived fields that replace its stored ones, and the invalid.\<close>

definition query ::
  "(json \<Rightarrow> 'n::linordered_field option) \<Rightarrow> 's entities \<Rightarrow> string
   \<Rightarrow> ('s, (entity \<times> (string, 'n derived) dict) list \<times> entity list) es_op" where
  "query number E name =
     bindS (type_of E name) (\<lambda>t.
     bindS (parse_type E name) (\<lambda>parsed.
       let ok = filter entity_ok parsed; invalid = filter (\<lambda>e. \<not> entity_ok e) parsed in
       if has_relations (et_schema t)
       then bindS (corpus_of E name ok (dict_keys (es_catalog E))) (\<lambda>corpus.
            bindS (liftS (mapE (\<lambda>e. bindE (compute_derived number e (et_schema t) (et_schema t) corpus)
                                       (\<lambda>d. Inr (e, d))) ok)) (\<lambda>es. retS (es, invalid)))
       else retS (map (\<lambda>e. (e, [])) ok, invalid)))"

section \<open>Scanning a type\<close>

definition record_file :: "string \<Rightarrow> string \<Rightarrow> nat \<Rightarrow> bool" where
  "record_file records p n \<longleftrightarrow> starts_with (''/'' @ records @ ''/'') p \<and> record_number p = Some n"

lemma numbered_set: "set (numbered ps) = {(n, p). p \<in> set ps \<and> record_number p = Some n}"
  by (auto simp: numbered_def split: option.splits)

lemma numbered_sorted: "sorted (map fst (numbered ps))"
  by (simp add: numbered_def)

lemma mapE_parse:
  "listed (et_schema t) \<Longrightarrow>
     \<exists>es. mapE (\<lambda>(n, raw). parse_with E name t n raw) xs = Inr es \<and> length es = length xs
       \<and> (\<forall>i < length xs. parse_with E name t (fst (xs ! i)) (snd (xs ! i)) = Inr (es ! i))"
proof (induction xs)
  case (Cons x xs)
  obtain e where "parse_with E name t (fst x) (snd x) = Inr e"
    using parse_returns [OF Cons.prems] unfolding parse_with_def by blast
  moreover obtain es where "mapE (\<lambda>(n, raw). parse_with E name t n raw) xs = Inr es" "length es = length xs"
      "\<forall>i < length xs. parse_with E name t (fst (xs ! i)) (snd (xs ! i)) = Inr (es ! i)"
    using Cons by blast
  ultimately show ?case by (auto simp: split_def bindE_def less_Suc_eq_0_disj)
qed simp

context file_store
begin

lemma scans:
  assumes "ok s" "es_files E = R" "dict_get (es_catalog E) name = Some t" "listed (et_schema t)"
  shows "\<exists>s' es. parse_type E name s = (s', Inr es) \<and> ok s' \<and> view s' = view s
     \<and> sorted (map en_number es)
     \<and> (\<forall>e. e \<in> set es \<longleftrightarrow> (\<exists>p raw. record_file (et_records_path t) p (en_number e)
            \<and> view s (es_ws E) p = Some raw \<and> parse_with E name t (en_number e) raw = Inr e))"
proof -
  let ?ws = "es_ws E" and ?pre = "''/'' @ et_records_path t @ ''/''"
  let ?ns = "numbered (fr_ls R ?ws ?pre s)"
  have ls: "set (fr_ls R ?ws ?pre s) = {p. view s ?ws p \<noteq> None \<and> starts_with ?pre p}"
    using ls_law [OF assms(1)] by blast
  have there: "\<forall>p \<in> set (map snd ?ns). view s ?ws p \<noteq> None" using ls by (auto simp: numbered_set)
  obtain s1 where s1: "read_all R ?ws (map snd ?ns) s = (s1, Inr (map (\<lambda>p. the (view s ?ws p)) (map snd ?ns)))"
      "ok s1" "view s1 = view s"
    using all_reads [OF assms(1) there] by blast
  let ?xs = "zip (map fst ?ns) (map (\<lambda>p. the (view s ?ws p)) (map snd ?ns))"
  obtain es where es: "mapE (\<lambda>(n, raw). parse_with E name t n raw) ?xs = Inr es" "length es = length ?ns"
      "\<forall>i < length ?ns. parse_with E name t (fst (?ns ! i)) (the (view s ?ws (snd (?ns ! i)))) = Inr (es ! i)"
    using mapE_parse [OF assms(4), of E name ?xs] by auto
  have num: "en_number (es ! i) = fst (?ns ! i)" if "i < length ?ns" for i
    using es(3) that parse_returns [OF assms(4)] unfolding parse_with_def by (metis Inr_inject)
  then have "map en_number es = map fst ?ns" using es(2) by (simp add: list_eq_iff_nth_eq)
  then have sorted: "sorted (map en_number es)" using numbered_sorted [of "fr_ls R ?ws ?pre s"] by simp
  have "e \<in> set es \<longleftrightarrow> (\<exists>p raw. record_file (et_records_path t) p (en_number e)
            \<and> view s ?ws p = Some raw \<and> parse_with E name t (en_number e) raw = Inr e)" for e
  proof
    assume "e \<in> set es"
    then obtain i where i: "i < length ?ns" "e = es ! i" using es(2) by (metis in_set_conv_nth)
    obtain n p where np: "?ns ! i = (n, p)" by fastforce
    have "(n, p) \<in> set ?ns" using i(1) np nth_mem by metis
    then have "record_file (et_records_path t) p n" "view s ?ws p \<noteq> None"
      using ls by (auto simp: numbered_set record_file_def)
    moreover have "en_number e = n" "parse_with E name t n (the (view s ?ws p)) = Inr e"
      using num [OF i(1)] es(3) i np by auto
    ultimately show "\<exists>p raw. record_file (et_records_path t) p (en_number e)
            \<and> view s ?ws p = Some raw \<and> parse_with E name t (en_number e) raw = Inr e" by auto
  next
    assume "\<exists>p raw. record_file (et_records_path t) p (en_number e)
            \<and> view s ?ws p = Some raw \<and> parse_with E name t (en_number e) raw = Inr e"
    then obtain p raw where p: "record_file (et_records_path t) p (en_number e)" "view s ?ws p = Some raw"
        "parse_with E name t (en_number e) raw = Inr e" by blast
    then have "(en_number e, p) \<in> set ?ns" using ls by (auto simp: numbered_set record_file_def)
    then obtain i where i: "i < length ?ns" "?ns ! i = (en_number e, p)" by (metis in_set_conv_nth)
    with es(3) p have "es ! i = e" by fastforce
    with i es(2) show "e \<in> set es" by (metis nth_mem)
  qed
  moreover have "parse_type E name s = (s1, Inr es)"
    using s1(1) es(1) assms(2,3) by (simp add: parse_type_def bindS_def type_of_def on_files_def liftS_def Let_def)
  ultimately show ?thesis using s1(2,3) sorted by blast
qed

end

section \<open>Querying\<close>

text \<open>What the files hold of a type: \<open>held\<close> says that \<open>e\<close> is what one of its record files parses to.\<close>

definition held :: "'s entities \<Rightarrow> (string \<Rightarrow> string option) \<Rightarrow> string \<Rightarrow> entity \<Rightarrow> bool" where
  "held E v name e \<longleftrightarrow>
     (\<exists>t p raw. dict_get (es_catalog E) name = Some t \<and> record_file (et_records_path t) p (en_number e)
        \<and> v p = Some raw \<and> parse_with E name t (en_number e) raw = Inr e)"

text \<open>No two record files of a type with one number, such as \<open>3.md\<close> and \<open>old/3.md\<close>.\<close>

definition one_file_each :: "'s entities \<Rightarrow> (string \<Rightarrow> string option) \<Rightarrow> bool" where
  "one_file_each E v \<longleftrightarrow>
     (\<forall>name t p p' n. dict_get (es_catalog E) name = Some t \<longrightarrow> record_file (et_records_path t) p n \<longrightarrow>
        record_file (et_records_path t) p' n \<longrightarrow> v p \<noteq> None \<longrightarrow> v p' \<noteq> None \<longrightarrow> p = p')"

text \<open>Every backref names a type and a field.\<close>

definition well_related :: "field_spec list \<Rightarrow> bool" where
  "well_related schema \<longleftrightarrow>
     (\<forall>f \<in> set schema. fs_role f = BACKREF \<and> truthy (fs_from f) \<longrightarrow>
        (\<exists>source. fs_from f = JStr source \<and> CHR ''.'' \<in> set source))"

lemma held_once:
  assumes "one_file_each E v" "held E v name e" "held E v name e'" "en_number e = en_number e'"
  shows "e = e'"
  using assms unfolding held_def one_file_each_def by (metis Inr_inject option.inject option.distinct(1))

lemma by_number_get:
  "inj_on en_number (set es) \<Longrightarrow>
     dict_ok (by_number es) \<and> (\<forall>n e. dict_get (by_number es) n = Some e \<longleftrightarrow> e \<in> set es \<and> en_number e = n)"
proof (induction es rule: rev_induct)
  case (snoc x es)
  have "inj_on en_number (set es)" using snoc.prems by (auto simp: inj_on_def)
  then show ?case using snoc.IH snoc.prems by (auto simp: by_number_def inj_on_def)
qed (simp add: by_number_def dict_ok_def)

lemma schema_field_member: "schema_field schema k = Some f \<Longrightarrow> f \<in> set schema"
  by (auto simp: schema_field_def find_Some_iff split: json.splits)

lemma rollup_returns:
  assumes "well_related schema"
  shows "\<exists>d. rollup number spec schema target corpus = Inr d"
proof (cases "if truthy (fs_over spec) then schema_field schema (fs_over spec) else None")
  case (Some over)
  then have "over \<in> set schema" by (auto split: if_splits dest: schema_field_member)
  then have "fs_role over = BACKREF \<and> truthy (fs_from over) \<longrightarrow> (\<exists>source. fs_from over = JStr source \<and> CHR ''.'' \<in> set source)"
    using assms by (auto simp: well_related_def)
  with Some show ?thesis by (auto simp: rollup_def Let_def)
qed (simp add: rollup_def)

lemma derives:
  "well_related schema \<Longrightarrow> set fs \<subseteq> set schema \<Longrightarrow> distinct (map fs_name fs) \<Longrightarrow>
     \<exists>d. compute_derived number e schema fs corpus = Inr d \<and> fst ` set d \<subseteq> fs_name ` set fs
       \<and> (\<forall>f source. f \<in> set fs \<longrightarrow> fs_role f = BACKREF \<longrightarrow> fs_from f = JStr source \<longrightarrow> source \<noteq> [] \<longrightarrow>
            dict_get d (fs_name f) = Some (Backrefs (backref_numbers source (en_number e) corpus)))"
proof (induction fs)
  case (Cons f fs)
  obtain d where d: "compute_derived number e schema fs corpus = Inr d" "fst ` set d \<subseteq> fs_name ` set fs"
      "\<forall>f source. f \<in> set fs \<longrightarrow> fs_role f = BACKREF \<longrightarrow> fs_from f = JStr source \<longrightarrow> source \<noteq> [] \<longrightarrow>
            dict_get d (fs_name f) = Some (Backrefs (backref_numbers source (en_number e) corpus))"
    using Cons by auto
  obtain v where v: "rollup number f schema (en_number e) corpus = Inr v"
    using rollup_returns [OF Cons.prems(1)] by blast
  have new: "fs_name f \<notin> fst ` set d" using d(2) Cons.prems(3) by auto
  have other: "\<forall>g \<in> set fs. fs_name g \<noteq> fs_name f" using Cons.prems(3) by (metis distinct.simps(2) imageI list.map(2) set_map)
  have src: "fs_role f = BACKREF \<Longrightarrow> truthy (fs_from f) \<Longrightarrow> \<exists>source. fs_from f = JStr source"
    using Cons.prems(1,2) by (auto simp: well_related_def)
  consider (refs) source where "fs_role f = BACKREF" "truthy (fs_from f)" "fs_from f = JStr source"
    | (roll) "fs_role f = ROLLUP" | (none) "fs_role f \<noteq> ROLLUP" "\<not> (fs_role f = BACKREF \<and> truthy (fs_from f))"
    using src by blast
  then show ?case
  proof cases
    case refs
    with d new other show ?thesis by (auto simp: bindE_def)
  next
    case roll
    with d new v other show ?thesis by (auto simp: bindE_def)
  next
    case none
    with d show ?thesis by (auto simp: bindE_def truthy_def)
  qed
qed simp

context file_store
begin

lemma scans_held:
  assumes "ok s" "es_files E = R" "all_listed E" "dict_get (es_catalog E) name = Some t"
  shows "\<exists>s' es. parse_type E name s = (s', Inr es) \<and> ok s' \<and> view s' = view s
     \<and> sorted (map en_number es) \<and> set es = {e. held E (view s (es_ws E)) name e}"
proof -
  have "listed (et_schema t)" using assms(3,4) by (auto simp: all_listed_def)
  from scans [OF assms(1,2,4) this] assms(4) show ?thesis by (fastforce simp: held_def)
qed

text \<open>The corpus holds the clean records of every type by their numbers.\<close>

lemma corpus_holds:
  assumes "es_files E = R" "all_listed E"
    and "set mine_ok = {e. held E v mine e \<and> entity_ok e}"
  shows "ok s \<Longrightarrow> view s (es_ws E) = v \<Longrightarrow> set names \<subseteq> dom (dict_get (es_catalog E)) \<Longrightarrow>
     \<exists>s' c. corpus_of E mine mine_ok names s = (s', Inr c) \<and> ok s' \<and> view s' = view s
       \<and> (\<forall>name. name \<in> set names \<longrightarrow> (\<exists>es. set es = {e. held E v name e \<and> entity_ok e} \<and> dict_get c name = Some (by_number es)))
       \<and> (\<forall>name. name \<notin> set names \<longrightarrow> dict_get c name = None)"
proof (induction names arbitrary: s)
  case (Cons name names)
  obtain t where t: "dict_get (es_catalog E) name = Some t" using Cons.prems(3) by auto
  have "\<exists>s1 es. (if name = mine then retS mine_ok
            else bindS (parse_type E name) (\<lambda>es. retS (filter entity_ok es))) s = (s1, Inr es)
        \<and> ok s1 \<and> view s1 = view s \<and> set es = {e. held E v name e \<and> entity_ok e}"
  proof (cases "name = mine")
    case True
    with assms(3) Cons.prems(1) show ?thesis by (simp add: retS_def)
  next
    case False
    from scans_held [OF Cons.prems(1) assms(1,2) t] Cons.prems(2) False show ?thesis
      by (fastforce simp: bindS_def retS_def)
  qed
  then obtain s1 es where s1: "(if name = mine then retS mine_ok
            else bindS (parse_type E name) (\<lambda>es. retS (filter entity_ok es))) s = (s1, Inr es)"
        "ok s1" "view s1 = view s" "set es = {e. held E v name e \<and> entity_ok e}" by blast
  have "set names \<subseteq> dom (dict_get (es_catalog E))" "view s1 (es_ws E) = v" using Cons.prems(2,3) s1(3) by auto
  from Cons.IH [OF s1(2) this(2,1)] obtain s2 c where
    s2: "corpus_of E mine mine_ok names s1 = (s2, Inr c)" "ok s2" "view s2 = view s1"
      "\<forall>name. name \<in> set names \<longrightarrow> (\<exists>es. set es = {e. held E v name e \<and> entity_ok e} \<and> dict_get c name = Some (by_number es))"
      "\<forall>name. name \<notin> set names \<longrightarrow> dict_get c name = None" by blast
  then have "corpus_of E mine mine_ok (name # names) s = (s2, Inr ((name, by_number es) # c))"
    using s1(1) by (simp add: bindS_def retS_def)
  with s2 s1(3,4) show ?case by auto
qed (simp add: retS_def)

lemma derives_all:
  assumes "well_related schema" "distinct (map fs_name schema)"
  shows "\<exists>rs. mapE (\<lambda>e. bindE (compute_derived number e schema schema corpus) (\<lambda>d. Inr (e, d))) es = Inr rs
     \<and> map fst rs = es
     \<and> (\<forall>e d f source. (e, d) \<in> set rs \<longrightarrow> f \<in> set schema \<longrightarrow> fs_role f = BACKREF \<longrightarrow> fs_from f = JStr source \<longrightarrow> source \<noteq> [] \<longrightarrow>
            dict_get d (fs_name f) = Some (Backrefs (backref_numbers source (en_number e) corpus)))"
proof (induction es)
  case (Cons e es)
  with derives [OF assms(1) subset_refl assms(2), of number e corpus] show ?case
    by (fastforce simp: bindE_def)
qed simp

end

text \<open>A backref lists the clean records whose field holds the number, and only those.\<close>

definition points :: "'s entities \<Rightarrow> (string \<Rightarrow> string option) \<Rightarrow> string \<Rightarrow> nat \<Rightarrow> nat \<Rightarrow> bool" where
  "points E v source target n \<longleftrightarrow>
     (\<exists>e. held E v (fst (split_ref source)) e \<and> entity_ok e \<and> en_number e = n
        \<and> py_int (field_value e (JStr (snd (split_ref source)))) = Some (int target))"

lemma backrefs_of_corpus:
  assumes "one_file_each E v" "CHR ''.'' \<in> set source"
    and "\<forall>name. name \<in> dom (dict_get (es_catalog E)) \<longrightarrow>
           (\<exists>es. set es = {e. held E v name e \<and> entity_ok e} \<and> dict_get c name = Some (by_number es))"
    and "\<forall>name. name \<notin> dom (dict_get (es_catalog E)) \<longrightarrow> dict_get c name = None"
  shows "sorted (backref_numbers source target c) \<and> distinct (backref_numbers source target c)
     \<and> set (backref_numbers source target c) = {n. points E v source target n}"
proof -
  let ?st = "fst (split_ref source)"
  have both: "dict_ok (records_of c ?st)
      \<and> ((n, e) \<in> set (records_of c ?st) \<longleftrightarrow> held E v ?st e \<and> entity_ok e \<and> en_number e = n)" for n e
  proof (cases "?st \<in> dom (dict_get (es_catalog E))")
    case True
    with assms(3) obtain es where es: "set es = {e. held E v ?st e \<and> entity_ok e}" "dict_get c ?st = Some (by_number es)"
      by blast
    have "inj_on en_number (set es)"
      unfolding es(1) by (rule inj_onI) (use held_once [OF assms(1)] in blast)
    from by_number_get [OF this] have ok: "dict_ok (by_number es)"
        "dict_get (by_number es) n = Some e \<longleftrightarrow> e \<in> set es \<and> en_number e = n" by blast+
    then have "(n, e) \<in> set (by_number es) \<longleftrightarrow> e \<in> set es \<and> en_number e = n"
      using dict_get_in dict_ok_get by metis
    with es ok(1) show ?thesis by (auto simp: records_of_def)
  next
    case False
    then have "\<not> held E v ?st e" by (auto simp: held_def)
    with assms(4) False show ?thesis by (simp add: records_of_def)
  qed
  then have member: "(n, e) \<in> set (records_of c ?st) \<longleftrightarrow> held E v ?st e \<and> entity_ok e \<and> en_number e = n" for n e
    by blast
  have "distinct (map fst (pointing c source target))"
    using both distinct_map_filter unfolding pointing_def dict_ok_def by blast
  have "n \<in> set (map fst (pointing c source target)) \<longleftrightarrow> points E v source target n" for n
  proof -
    have "n \<in> set (map fst (pointing c source target)) \<longleftrightarrow>
        (\<exists>e. (n, e) \<in> set (records_of c ?st) \<and> py_int (field_value e (JStr (snd (split_ref source)))) = Some (int target))"
      by (force simp: pointing_def)
    then show ?thesis unfolding member points_def by blast
  qed
  then have "set (map fst (pointing c source target)) = {n. points E v source target n}" by blast
  with \<open>distinct (map fst (pointing c source target))\<close> show ?thesis
    using assms(2) by (simp add: backref_numbers_def)
qed

context file_store
begin

lemma queries:
  assumes "ok s" "es_files E = R" "all_listed E" "dict_get (es_catalog E) name = Some t"
    and "well_related (et_schema t)" "distinct (map fs_name (et_schema t))"
  shows "\<exists>s' es invalid. query number E name s = (s', Inr (es, invalid)) \<and> ok s' \<and> view s' = view s
     \<and> sorted (map en_number (map fst es)) \<and> sorted (map en_number invalid)
     \<and> fst ` set es = {e. held E (view s (es_ws E)) name e \<and> entity_ok e}
     \<and> set invalid = {e. held E (view s (es_ws E)) name e \<and> \<not> entity_ok e}
     \<and> (one_file_each E (view s (es_ws E)) \<longrightarrow>
         (\<forall>e d f source. (e, d) \<in> set es \<longrightarrow> f \<in> set (et_schema t) \<longrightarrow> fs_role f = BACKREF \<longrightarrow> fs_from f = JStr source \<longrightarrow>
            source \<noteq> [] \<longrightarrow> (\<exists>ns. dict_get d (fs_name f) = Some (Backrefs ns) \<and> sorted ns \<and> distinct ns
              \<and> set ns = {n. points E (view s (es_ws E)) source (en_number e) n})))"
proof -
  let ?v = "view s (es_ws E)"
  obtain s1 parsed where s1: "parse_type E name s = (s1, Inr parsed)" "ok s1" "view s1 = view s"
      "sorted (map en_number parsed)" "set parsed = {e. held E ?v name e}"
    using scans_held [OF assms(1-4)] by blast
  let ?ok = "filter entity_ok parsed" and ?bad = "filter (\<lambda>e. \<not> entity_ok e) parsed"
  have sorted: "sorted (map en_number ?ok)" "sorted (map en_number ?bad)"
    using s1(4) sorted_filter by blast+
  have sets: "set ?ok = {e. held E ?v name e \<and> entity_ok e}" "set ?bad = {e. held E ?v name e \<and> \<not> entity_ok e}"
    using s1(5) by auto
  show ?thesis
  proof (cases "has_relations (et_schema t)")
    case False
    then have plain: "f \<in> set (et_schema t) \<Longrightarrow> fs_role f \<noteq> BACKREF" for f by (auto simp: has_relations_def list_ex_iff)
    let ?rs = "map (\<lambda>e. (e, [])) ?ok"
    have q: "query number E name s = (s1, Inr (?rs, ?bad))"
      using False s1(1) assms(4) by (simp add: query_def bindS_def type_of_def retS_def Let_def)
    have fst: "map fst ?rs = ?ok" by (simp add: comp_def)
    then have set: "fst ` set ?rs = {e. held E ?v name e \<and> entity_ok e}" using sets(1) by (metis set_map)
    have sort: "sorted (map en_number (map fst ?rs))" unfolding fst by (rule sorted(1))
    have "one_file_each E ?v \<longrightarrow>
         (\<forall>e d f source. (e, d) \<in> set ?rs \<longrightarrow> f \<in> set (et_schema t) \<longrightarrow> fs_role f = BACKREF \<longrightarrow> fs_from f = JStr source \<longrightarrow>
            source \<noteq> [] \<longrightarrow> (\<exists>ns. dict_get d (fs_name f) = Some (Backrefs ns) \<and> sorted ns \<and> distinct ns
              \<and> set ns = {n. points E ?v source (en_number e) n}))"
      using plain by blast
    note rel = this
    show ?thesis
      by (intro exI [of _ s1] exI [of _ ?rs] exI [of _ ?bad] conjI) (fact q s1(2,3) sort sorted(2) set sets(2) rel)+
  next
    case True
    have "set (dict_keys (es_catalog E)) = dom (dict_get (es_catalog E))"
      by (rule set_eqI) (simp only: dom_def mem_Collect_eq dict_get_eq_None not_not)
    note keys = this
    then have sub: "set (dict_keys (es_catalog E)) \<subseteq> dom (dict_get (es_catalog E))" by (rule equalityD1)
    have at1: "view s1 (es_ws E) = ?v" by (simp only: s1(3))
    obtain s2 c where s2: "corpus_of E name ?ok (dict_keys (es_catalog E)) s1 = (s2, Inr c)" "ok s2" "view s2 = view s1"
      "\<forall>name. name \<in> set (dict_keys (es_catalog E)) \<longrightarrow>
           (\<exists>es. set es = {e. held E ?v name e \<and> entity_ok e} \<and> dict_get c name = Some (by_number es))"
      "\<forall>name. name \<notin> set (dict_keys (es_catalog E)) \<longrightarrow> dict_get c name = None"
      using corpus_holds [OF assms(2,3) sets(1) s1(2) at1 sub] by (elim exE conjE)
    note held = s2(4,5) [unfolded keys] and view2 = s2(3) [unfolded s1(3)]
    obtain rs where rs: "mapE (\<lambda>e. bindE (compute_derived number e (et_schema t) (et_schema t) c) (\<lambda>d. Inr (e, d))) ?ok = Inr rs"
      "map fst rs = ?ok"
      "\<forall>e d f source. (e, d) \<in> set rs \<longrightarrow> f \<in> set (et_schema t) \<longrightarrow> fs_role f = BACKREF \<longrightarrow> fs_from f = JStr source \<longrightarrow> source \<noteq> [] \<longrightarrow>
            dict_get d (fs_name f) = Some (Backrefs (backref_numbers source (en_number e) c))"
      using derives_all [OF assms(5,6)] by blast
    have q: "query number E name s = (s2, Inr (rs, ?bad))"
      using True s1(1) s2(1) rs(1) assms(4) by (simp add: query_def bindS_def type_of_def liftS_def retS_def Let_def)
    have fst: "fst ` set rs = set ?ok" using rs(2) by (metis set_map)
    have dot: "CHR ''.'' \<in> set source" if "f \<in> set (et_schema t)" "fs_role f = BACKREF" "fs_from f = JStr source" "source \<noteq> []"
      for f source using assms(5) that by (auto simp: well_related_def truthy_def)
    have rel: "one_file_each E ?v \<longrightarrow>
         (\<forall>e d f source. (e, d) \<in> set rs \<longrightarrow> f \<in> set (et_schema t) \<longrightarrow> fs_role f = BACKREF \<longrightarrow> fs_from f = JStr source \<longrightarrow>
            source \<noteq> [] \<longrightarrow> (\<exists>ns. dict_get d (fs_name f) = Some (Backrefs ns) \<and> sorted ns \<and> distinct ns
              \<and> set ns = {n. points E ?v source (en_number e) n}))"
      using rs(3) dot backrefs_of_corpus [OF _ _ held] by blast
    have set: "fst ` set rs = {e. held E ?v name e \<and> entity_ok e}" using fst sets(1) by simp
    have sort: "sorted (map en_number (map fst rs))" unfolding rs(2) by (rule sorted(1))
    show ?thesis
      by (intro exI [of _ s2] exI [of _ rs] exI [of _ ?bad] conjI) (fact q s2(2) view2 sort sorted(2) set sets(2) rel)+
  qed
qed

end

section \<open>Properties\<close>

text \<open>
  a query accounts for every record file of the type: what it lists is exactly what the clean
  ones parse to, what it sets aside is exactly what the others parse to, both by number, and
  nothing is written.
\<close>

theorem query_accounts_for_files:
  assumes "file_store (es_files E) view ok" "ok s" "all_listed E" "dict_get (es_catalog E) name = Some t"
    and "well_related (et_schema t)" "distinct (map fs_name (et_schema t))"
  shows "\<exists>s' es invalid. query number E name s = (s', Inr (es, invalid)) \<and> view s' = view s
     \<and> sorted (map en_number (map fst es)) \<and> sorted (map en_number invalid)
     \<and> fst ` set es = {e. held E (view s (es_ws E)) name e \<and> entity_ok e}
     \<and> set invalid = {e. held E (view s (es_ws E)) name e \<and> \<not> entity_ok e}"
  using file_store.queries [OF assms(1,2) refl assms(3-6), of number] by (elim exE conjE, intro exI conjI)

theorem query_accounts_for_files_witness:
  "\<exists>s' es invalid. query (\<lambda>v. None :: rat option) desk ''task'' one_file = (s', Inr (es, invalid)) \<and> pump \<in> fst ` set es"
proof -
  have t: "dict_get (es_catalog desk) ''task'' = Some task_type" by simp
  have r: "well_related (et_schema task_type)" "distinct (map fs_name (et_schema task_type))"
    by (simp_all add: well_related_def)
  have "record_file ''tasks'' (record_path ''tasks'' 1) (en_number pump)" by code_simp
  then have "held desk (mem_view one_file (es_ws desk)) ''task'' pump"
    using pump_there pump_parsed by (auto simp: held_def pump_def)
  moreover have "entity_ok pump" by code_simp
  ultimately show ?thesis
    using query_accounts_for_files [OF mem_at one_file_ok desk_fine(3) t r, of "\<lambda>v. None"] by blast
qed

text \<open>
  a backref is exact: the derived field of a record lists, in order and once for each, the
  numbers of the clean records of the other type whose field holds this record's number.
\<close>

theorem backrefs_exact:
  assumes "file_store (es_files E) view ok" "ok s" "all_listed E" "dict_get (es_catalog E) name = Some t"
    and "well_related (et_schema t)" "distinct (map fs_name (et_schema t))" "one_file_each E (view s (es_ws E))"
    and "f \<in> set (et_schema t)" "fs_role f = BACKREF" "fs_from f = JStr source" "source \<noteq> []"
    and "query number E name s = (s', Inr (es, invalid))" "(e, d) \<in> set es"
  shows "\<exists>ns. dict_get d (fs_name f) = Some (Backrefs ns) \<and> sorted ns \<and> distinct ns
     \<and> set ns = {n. points E (view s (es_ws E)) source (en_number e) n}"
proof -
  from file_store.queries [OF assms(1,2) refl assms(3-6), of number] assms(12) have
    "\<forall>e d f source. (e, d) \<in> set es \<longrightarrow> f \<in> set (et_schema t) \<longrightarrow> fs_role f = BACKREF \<longrightarrow> fs_from f = JStr source \<longrightarrow>
       source \<noteq> [] \<longrightarrow> (\<exists>ns. dict_get d (fs_name f) = Some (Backrefs ns) \<and> sorted ns \<and> distinct ns
         \<and> set ns = {n. points E (view s (es_ws E)) source (en_number e) n})"
    using assms(7) by auto
  with assms(8-11,13) show ?thesis by blast
qed

text \<open>A project whose tasks name it.\<close>

definition tasks_field :: field_spec where
  "tasks_field = \<lparr>fs_name = ''tasks'', fs_role = BACKREF, fs_required = False, fs_values = JNull, fs_colors = None,
     fs_to = JNull, fs_from = JStr ''task.project'', fs_over = JNull, fs_agg = JNull, fs_field = JNull, fs_where = None\<rparr>"

definition project_type :: entity_type where
  "project_type = \<lparr>et_name = ''project'', et_schema = [tasks_field], et_skeleton = ''New'', et_records_path = ''projects''\<rparr>"

definition shop :: "mem_store entities" where
  "shop = desk\<lparr>es_catalog := [(''project'', project_type), (''task'', task_type)],
     es_load := (\<lambda>t. Inr (if t = ''project: 1'' then JObj [(''project'', JInt 1)] else JObj []))\<rparr>"

definition project_text :: string where
  "project_text = ''---'' @ [newline] @ ''x'' @ [newline] @ ''---''"

definition seven_text :: string where
  "seven_text = ''---'' @ [newline] @ ''project: 1'' @ [newline] @ ''---''"

definition shop_files :: mem_store where
  "shop_files = \<lparr>mm_files = [(''ws'', [(''/projects/1.md'', project_text), (''/tasks/7.md'', seven_text)])], mm_dirs = []\<rparr>"

lemma shop_simps [simp]: "es_files shop = memory" "es_ws shop = ''ws''"
    "es_catalog shop = [(''project'', project_type), (''task'', task_type)]"
  by (simp_all add: shop_def)

lemma shop_fine: "mem_ok shop_files" "all_listed shop" "one_file_each shop (mem_view shop_files (es_ws shop))"
proof -
  show "mem_ok shop_files" by (simp add: mem_ok_def shop_files_def files_of_def)
  show "all_listed shop"
    by (simp add: all_listed_def listed_def project_type_def tasks_field_def)
  have "p = ''/projects/1.md''" if "starts_with ''/projects/'' p" "mem_view shop_files ''ws'' p \<noteq> None" for p
    using that by (auto simp: mem_view_def shop_files_def files_of_def starts_with_def split: if_splits)
  moreover have "p = ''/tasks/7.md''" if "starts_with ''/tasks/'' p" "mem_view shop_files ''ws'' p \<noteq> None" for p
    using that by (auto simp: mem_view_def shop_files_def files_of_def starts_with_def split: if_splits)
  ultimately have at_most: "starts_with (''/'' @ et_records_path t @ ''/'') p \<Longrightarrow> mem_view shop_files ''ws'' p \<noteq> None \<Longrightarrow>
      t = project_type \<and> p = ''/projects/1.md'' \<or> t = task_type \<and> p = ''/tasks/7.md''"
    if "t = project_type \<or> t = task_type" for p t
    using that unfolding project_type_def task_type_def by fastforce
  have distinct: "project_type \<noteq> task_type" by (simp add: project_type_def task_type_def)
  show "one_file_each shop (mem_view shop_files (es_ws shop))"
    unfolding one_file_each_def record_file_def
  proof (intro allI impI, elim conjE)
    fix name t p p' assume "dict_get (es_catalog shop) name = Some t"
    then have "t = project_type \<or> t = task_type" by (auto split: if_splits)
    then show "p = p'" if "starts_with (''/'' @ et_records_path t @ ''/'') p" "starts_with (''/'' @ et_records_path t @ ''/'') p'"
      "mem_view shop_files (es_ws shop) p \<noteq> None" "mem_view shop_files (es_ws shop) p' \<noteq> None"
      using at_most [OF _ that(1)] at_most [OF _ that(2)] that(3,4) distinct by auto
  qed
qed

lemma heldI:
  "dict_get (es_catalog E) name = Some t \<Longrightarrow> record_file (et_records_path t) p n \<Longrightarrow> v p = Some raw \<Longrightarrow>
     parse_with E name t n raw = Inr e \<Longrightarrow> en_number e = n \<Longrightarrow> held E v name e"
  by (auto simp: held_def)

lemma map_sum_Inr: "map_sum id f x = Inr y \<Longrightarrow> \<exists>e. x = Inr e \<and> f e = y"
  by (cases x) auto

lemma project_held:
  "\<exists>e. held shop (mem_view shop_files (es_ws shop)) ''project'' e \<and> entity_ok e \<and> en_number e = 1"
proof -
  have r: "dict_get (es_catalog shop) ''project'' = Some project_type" "record_file (et_records_path project_type) ''/projects/1.md'' 1"
    "mem_view shop_files (es_ws shop) ''/projects/1.md'' = Some project_text"
    by code_simp+
  have "map_sum id (\<lambda>e. (entity_ok e, en_number e)) (parse_with shop ''project'' project_type 1 project_text) = Inr (True, 1)"
    by code_simp
  from map_sum_Inr [OF this] obtain e where
    e: "parse_with shop ''project'' project_type 1 project_text = Inr e" "entity_ok e" "en_number e = 1" by blast
  from heldI [where v = "mem_view shop_files (es_ws shop)", OF r e(1,3)] e(2,3) show ?thesis by blast
qed

lemma seven_points: "points shop (mem_view shop_files (es_ws shop)) ''task.project'' 1 7"
proof -
  have r: "dict_get (es_catalog shop) ''task'' = Some task_type" "record_file (et_records_path task_type) ''/tasks/7.md'' 7"
    "mem_view shop_files (es_ws shop) ''/tasks/7.md'' = Some seven_text"
    by code_simp+
  have "map_sum id (\<lambda>e. (entity_ok e, en_number e, py_int (field_value e (JStr ''project'')))) (parse_with shop ''task'' task_type 7 seven_text)
       = Inr (True, 7, Some 1)" by code_simp
  from map_sum_Inr [OF this] obtain e where
    e: "parse_with shop ''task'' task_type 7 seven_text = Inr e" "entity_ok e" "en_number e = 7"
      "py_int (field_value e (JStr ''project'')) = Some 1" by blast
  have "split_ref ''task.project'' = (''task'', ''project'')" by code_simp
  with heldI [where v = "mem_view shop_files (es_ws shop)", OF r e(1,3)] e(2-4) show ?thesis unfolding points_def by auto
qed

theorem backrefs_exact_witness:
  "\<exists>s' es invalid e d ns. query (\<lambda>v. None :: rat option) shop ''project'' shop_files = (s', Inr (es, invalid))
     \<and> (e, d) \<in> set es \<and> dict_get d ''tasks'' = Some (Backrefs ns) \<and> 7 \<in> set ns"
proof -
  have t: "dict_get (es_catalog shop) ''project'' = Some project_type" by simp
  have r: "well_related (et_schema project_type)" "distinct (map fs_name (et_schema project_type))"
    by (simp_all add: well_related_def project_type_def tasks_field_def)
  have m: "file_store (es_files shop) mem_view mem_ok" by (simp add: mem.file_store_axioms)
  have f: "tasks_field \<in> set (et_schema project_type)" "fs_role tasks_field = BACKREF"
    "fs_from tasks_field = JStr ''task.project''" "''task.project'' \<noteq> []" "fs_name tasks_field = ''tasks''"
    by (simp_all add: project_type_def tasks_field_def)
  obtain s' es invalid where q: "query (\<lambda>v. None :: rat option) shop ''project'' shop_files = (s', Inr (es, invalid))"
      "fst ` set es = {e. held shop (mem_view shop_files (es_ws shop)) ''project'' e \<and> entity_ok e}"
    using file_store.queries [OF m shop_fine(1) refl shop_fine(2) t r, of "\<lambda>v. None"] by (elim exE conjE) (rule that)
  obtain e where "e \<in> fst ` set es" and e1: "en_number e = 1" using project_held unfolding q(2) by blast
  then obtain d where e: "(e, d) \<in> set es" by auto
  from backrefs_exact [OF m shop_fine(1,2) t r shop_fine(3) f(1-4) q(1) e] obtain ns where
    ns: "dict_get d ''tasks'' = Some (Backrefs ns)"
      "set ns = {n. points shop (mem_view shop_files (es_ws shop)) ''task.project'' 1 n}"
    unfolding f(5) e1 by blast
  have "7 \<in> set ns" unfolding ns(2) using seven_points by simp
  with ns(1) q(1) e show ?thesis by blast
qed

end
