(* ===== verification/EntityRaces.thy ===== *)
theory EntityRaces
  imports EntityStore
begin

text \<open>
  Several writers of one workspace's entities without a common lock.  \<open>EntityStore\<close> serialises
  the calls that were given the same registry of locks; the agent tools, the HTTP routes and the
  workflow handle each have their own, and other pods have theirs.  So the calls of
  \<open>entity/store.py\<close> interleave at every file operation: a creation is cut into the steps between
  them, an update into its check and its write.
\<close>

section \<open>Creations\<close>

datatype creator = Idle | Listing nat | Claiming nat | Recording nat | Finished nat

record 's race =
  ra_files :: 's
  ra_procs :: "nat \<Rightarrow> creator"

definition stage :: "'s race \<Rightarrow> nat \<Rightarrow> creator \<Rightarrow> 's \<Rightarrow> 's race" where
  "stage c p st s = \<lparr>ra_files = s, ra_procs = (ra_procs c)(p := st)\<rparr>"

lemma stage_simps [simp]:
  "ra_files (stage c p st s) = s" "ra_procs (stage c p st s) q = (if q = p then st else ra_procs c q)"
  "stage (stage c p st s) p st' s' = stage c p st' s'"
  by (simp_all add: stage_def)

text \<open>\<open>text p n\<close> is what creator \<open>p\<close> renders for number \<open>n\<close>.\<close>

inductive race_step ::
  "'s fstore \<Rightarrow> string \<Rightarrow> string \<Rightarrow> (nat \<Rightarrow> nat \<Rightarrow> string) \<Rightarrow> 's race \<Rightarrow> 's race \<Rightarrow> bool"
  for R ws records "text" where
  reads_mark: "ra_procs c p = Idle \<Longrightarrow> read_high_water R ws records (ra_files c) = (s, Inr h) \<Longrightarrow>
     race_step R ws records text c (stage c p (Listing h) s)"
| lists: "ra_procs c p = Listing h \<Longrightarrow>
     race_step R ws records text c
       (stage c p (Claiming (max h (max_existing R ws records (ra_files c)) + 1)) (ra_files c))"
| claims: "ra_procs c p = Claiming n \<Longrightarrow>
     fr_create R ws (record_path records n) (text p n) (ra_files c) = (s, Inr u) \<Longrightarrow>
     race_step R ws records text c (stage c p (Recording n) s)"
| walks: "ra_procs c p = Claiming n \<Longrightarrow>
     fr_create R ws (record_path records n) (text p n) (ra_files c) = (s, Inl (FileExists e)) \<Longrightarrow>
     race_step R ws records text c (stage c p (Claiming (n + 1)) s)"
| records: "ra_procs c p = Recording n \<Longrightarrow> record_high_water R ws records n (ra_files c) = (s, Inr u) \<Longrightarrow>
     race_step R ws records text c (stage c p (Finished n) s)"

text \<open>The same with people deleting records meanwhile.\<close>

inductive open_step ::
  "'s fstore \<Rightarrow> string \<Rightarrow> string \<Rightarrow> (nat \<Rightarrow> nat \<Rightarrow> string) \<Rightarrow> 's race \<Rightarrow> 's race \<Rightarrow> bool"
  for R ws records "text" where
  races: "race_step R ws records text c c' \<Longrightarrow> open_step R ws records text c c'"
| deletes: "fr_delete R ws (record_path records n) (ra_files c) = (s, Inr u) \<Longrightarrow>
     open_step R ws records text c (c\<lparr>ra_files := s\<rparr>)"

definition holds_number :: "creator \<Rightarrow> nat \<Rightarrow> bool" where
  "holds_number st n \<longleftrightarrow> st = Recording n \<or> st = Finished n"

lemma holds_number_simps [simp]:
  "holds_number Idle n \<longleftrightarrow> False" "holds_number (Listing h) n \<longleftrightarrow> False" "holds_number (Claiming m) n \<longleftrightarrow> False"
  "holds_number (Recording m) n \<longleftrightarrow> m = n" "holds_number (Finished m) n \<longleftrightarrow> m = n"
  by (auto simp: holds_number_def)

text \<open>One creator alone takes the steps \<open>create\<close> takes.\<close>

lemma walk_steps:
  "claim R ws records (text p) fuel n (ra_files c) = Some (s', Inr m) \<Longrightarrow> ra_procs c p = Claiming n \<Longrightarrow>
     (race_step R ws records text)\<^sup>*\<^sup>* c (stage c p (Recording m) s')"
proof (induction fuel arbitrary: c n)
  case (Suc fuel)
  obtain s1 out where o: "fr_create R ws (record_path records n) (text p n) (ra_files c) = (s1, out)" by fastforce
  show ?case
  proof (cases out)
    case (Inr u)
    with o Suc.prems(1) have "s1 = s'" "n = m" by simp_all
    with claims [OF Suc.prems(2)] o Inr show ?thesis by blast
  next
    case (Inl e)
    show ?thesis
    proof (cases e)
      case (FileExists m')
      let ?c = "stage c p (Claiming (n + 1)) s1"
      have "race_step R ws records text c ?c" by (rule walks [OF Suc.prems(2)]) (use o Inl FileExists in blast)
      moreover have "(race_step R ws records text)\<^sup>*\<^sup>* ?c (stage ?c p (Recording m) s')"
        using Suc.IH [of "n + 1" ?c] Suc.prems(1) o Inl FileExists by simp
      ultimately show ?thesis by (simp add: converse_rtranclp_into_rtranclp)
    next
      case (FileNotFound m')
      with o Inl Suc.prems show ?thesis by simp
    qed
  qed
qed simp


lemma creates_alone:
  assumes "ra_procs c p = Idle" "next_number R ws records (ra_files c) = (s1, Inr n)"
    and "claim R ws records (text p) fuel n s1 = Some (s2, Inr m)"
    and "record_high_water R ws records m s2 = (s3, Inr u)"
  shows "(race_step R ws records text)\<^sup>*\<^sup>* c (stage c p (Finished m) s3)"
proof -
  obtain h where h: "read_high_water R ws records (ra_files c) = (s1, Inr h)" "n = max h (max_existing R ws records s1) + 1"
    using assms(2) by (auto simp: next_number_def split: prod.splits sum.splits)
  let ?c1 = "stage c p (Listing h) s1"
  let ?c2 = "stage c p (Claiming n) s1"
  let ?c3 = "stage c p (Recording m) s2"
  have 1: "race_step R ws records text c ?c1" by (rule reads_mark [OF assms(1) h(1)])
  have 2: "race_step R ws records text ?c1 ?c2"
    using lists [of ?c1 p h R ws records "text"] h(2) by simp
  have 3: "(race_step R ws records text)\<^sup>*\<^sup>* ?c2 ?c3"
    using walk_steps [of R ws records "text" p fuel n ?c2 s2 m] assms(3) by simp
  have 4: "race_step R ws records text ?c3 (stage c p (Finished m) s3)"
    using records [of ?c3 p m R ws records s3 u "text"] assms(4) by simp
  from 1 2 3 4 show ?thesis by (meson converse_rtranclp_into_rtranclp rtranclp.rtrancl_into_rtrancl)
qed

section \<open>Exclusive creation keeps live records apart\<close>

context file_store
begin

text \<open>Every number a creator holds is a file of its own text; no two hold one number.\<close>

definition apart :: "string \<Rightarrow> string \<Rightarrow> (nat \<Rightarrow> nat \<Rightarrow> string) \<Rightarrow> 's race \<Rightarrow> bool" where
  "apart ws records text c \<longleftrightarrow> ok (ra_files c)
     \<and> (\<forall>p n. holds_number (ra_procs c p) n \<longrightarrow> view (ra_files c) ws (record_path records n) = Some (text p n))
     \<and> (\<forall>p q n. holds_number (ra_procs c p) n \<longrightarrow> holds_number (ra_procs c q) n \<longrightarrow> p = q)"

lemma apart_kept: "race_step R ws records text c c' \<Longrightarrow> apart ws records text c \<Longrightarrow> apart ws records text c'"
proof (induction rule: race_step.induct)
  case (reads_mark c p s h)
  then have "ok s \<and> view s = view (ra_files c)"
    using high_water_read [of "ra_files c" ws records] by (auto simp: apart_def)
  with reads_mark show ?case by (auto simp: apart_def)
next
  case (claims c p n s u)
  then have ok: "ok (ra_files c)" by (simp add: apart_def)
  then have new: "view (ra_files c) ws (record_path records n) = None"
    using taken_law [OF ok, of ws "record_path records n"] claims(2) by fastforce
  from create_law [OF ok new, of "text p n"] claims(2) have
    s: "ok s" "view s = (view (ra_files c))(ws := (view (ra_files c) ws)(record_path records n \<mapsto> text p n))" by auto
  have "\<not> holds_number (ra_procs c q) n" for q using claims(3) new by (auto simp: apart_def)
  with claims(3) s show ?case unfolding apart_def by auto
next
  case (walks c p n s e)
  then have ok: "ok (ra_files c)" by (simp add: apart_def)
  have "view (ra_files c) ws (record_path records n) \<noteq> None"
    using create_law [OF ok, of ws "record_path records n" "text p n"] walks(2) by fastforce
  with taken_law [OF ok] walks(2) have "s = ra_files c" by fastforce
  with walks show ?case by (auto simp: apart_def)
next
  case (records c p n s u)
  then have ok: "ok (ra_files c)" by (simp add: apart_def)
  from write_law [OF ok, of ws "counter_path records" "dec n"] records(2) have
    s: "ok s" "view s = (view (ra_files c))(ws := (view (ra_files c) ws)(counter_path records \<mapsto> dec n))"
    by (auto simp: record_high_water_def)
  have "holds_number (ra_procs c p) n" using records(1) by simp
  with records(1,3) s show ?case unfolding apart_def by auto
qed (auto simp: apart_def)

lemma apart_run: "(race_step R ws records text)\<^sup>*\<^sup>* c c' \<Longrightarrow> apart ws records text c \<Longrightarrow> apart ws records text c'"
  by (induction rule: rtranclp_induct) (auto intro: apart_kept)

end

section \<open>Schedules\<close>

text \<open>One step of creator \<open>p\<close>, none when it has finished or the store failed.\<close>

definition move ::
  "'s fstore \<Rightarrow> string \<Rightarrow> string \<Rightarrow> (nat \<Rightarrow> nat \<Rightarrow> string) \<Rightarrow> nat \<Rightarrow> 's race \<Rightarrow> 's race option" where
  "move R ws records text p c =
     (case ra_procs c p of
        Idle \<Rightarrow> (case read_high_water R ws records (ra_files c) of
                   (s, Inr h) \<Rightarrow> Some (stage c p (Listing h) s) | _ \<Rightarrow> None)
      | Listing h \<Rightarrow> Some (stage c p (Claiming (max h (max_existing R ws records (ra_files c)) + 1)) (ra_files c))
      | Claiming n \<Rightarrow> (case fr_create R ws (record_path records n) (text p n) (ra_files c) of
                   (s, Inr u) \<Rightarrow> Some (stage c p (Recording n) s)
                 | (s, Inl (FileExists e)) \<Rightarrow> Some (stage c p (Claiming (n + 1)) s)
                 | _ \<Rightarrow> None)
      | Recording n \<Rightarrow> (case record_high_water R ws records n (ra_files c) of
                   (s, Inr u) \<Rightarrow> Some (stage c p (Finished n) s) | _ \<Rightarrow> None)
      | Finished n \<Rightarrow> None)"

datatype turn = Go nat | Remove nat

fun play ::
  "'s fstore \<Rightarrow> string \<Rightarrow> string \<Rightarrow> (nat \<Rightarrow> nat \<Rightarrow> string) \<Rightarrow> turn list \<Rightarrow> 's race \<Rightarrow> 's race option" where
  "play R ws records text [] c = Some c"
| "play R ws records text (Go p # ts) c =
     (case move R ws records text p c of None \<Rightarrow> None | Some c' \<Rightarrow> play R ws records text ts c')"
| "play R ws records text (Remove n # ts) c =
     (case fr_delete R ws (record_path records n) (ra_files c) of
        (s, Inr u) \<Rightarrow> play R ws records text ts (c\<lparr>ra_files := s\<rparr>) | _ \<Rightarrow> None)"

lemma move_step: "move R ws records text p c = Some c' \<Longrightarrow> race_step R ws records text c c'"
  by (auto simp: move_def split: creator.splits prod.splits sum.splits fs_exn.splits
      intro: reads_mark lists [where h = h for h, simplified] claims walks [simplified] records)

lemma play_reaches: "play R ws records text ts c = Some c' \<Longrightarrow> (open_step R ws records text)\<^sup>*\<^sup>* c c'"
proof (induction R ws records "text" ts c rule: play.induct)
  case (2 R ws records "text" p ts c)
  then obtain c1 where "move R ws records text p c = Some c1" "play R ws records text ts c1 = Some c'"
    by (auto split: option.splits)
  with 2 show ?case by (meson converse_rtranclp_into_rtranclp move_step races)
next
  case (3 R ws records "text" n ts c)
  then obtain s u where s: "fr_delete R ws (record_path records n) (ra_files c) = (s, Inr u)"
      "play R ws records text ts (c\<lparr>ra_files := s\<rparr>) = Some c'"
    by (auto split: prod.splits sum.splits)
  have "(open_step R ws records text)\<^sup>*\<^sup>* (c\<lparr>ra_files := s\<rparr>) c'"
    by (rule 3(1) [OF s(1) [symmetric] refl s(2)])
  with deletes [OF s(1)] show ?case by (meson converse_rtranclp_into_rtranclp)
qed simp

lemma play_races: "play R ws records text (map Go ps) c = Some c' \<Longrightarrow> (race_step R ws records text)\<^sup>*\<^sup>* c c'"
proof (induction ps arbitrary: c)
  case (Cons p ps)
  then obtain c1 where "move R ws records text p c = Some c1" "play R ws records text (map Go ps) c1 = Some c'"
    by (auto split: option.splits)
  with Cons.IH show ?case by (meson converse_rtranclp_into_rtranclp move_step)
qed simp

section \<open>Updates\<close>

text \<open>An update up to its write, and the write.\<close>

definition update_check ::
  "'s entities \<Rightarrow> string \<Rightarrow> nat \<Rightarrow> (string, json) dict \<Rightarrow> string option \<Rightarrow> string option \<Rightarrow> ('s, string) es_op" where
  "update_check E name number patch expected body =
     bindS (type_of E name) (\<lambda>t.
     bindS (on_files (fr_read (es_files E) (es_ws E) (record_path (et_records_path t) number))) (\<lambda>raw.
     bindS (liftS (parse_with E name t number raw)) (\<lambda>current.
       if expected \<noteq> None \<and> expected \<noteq> Some (en_version current)
       then (\<lambda>s. (s, Inl (Conflict (name @ '' #'' @ dec number @ '' changed since you read it (expected ''
               @ the expected @ '', now '' @ en_version current @ '')''))))
       else retS (serialize_entity (es_dump E) (merged (en_fields current) patch)
                    (case body of None \<Rightarrow> en_body current | Some b \<Rightarrow> b)))))"

definition update_write ::
  "'s entities \<Rightarrow> string \<Rightarrow> nat \<Rightarrow> string \<Rightarrow> string \<Rightarrow> write_origin option \<Rightarrow> ('s, entity) es_op" where
  "update_write E name number text actor origin =
     bindS (type_of E name) (\<lambda>t.
     bindS (on_files (fr_write (es_files E) (es_ws E) (record_path (et_records_path t) number) text)) (\<lambda>u.
     bindS (liftS (parse_with E name t number text)) (\<lambda>updated s.
       (emit_event E t updated ''updated'' actor origin s, Inr updated))))"

lemma update_halves:
  "update E name number patch expected body actor origin
     = bindS (update_check E name number patch expected body) (\<lambda>text. update_write E name number text actor origin)"
  by (rule ext)
     (auto simp: update_def update_check_def update_write_def bindS_def type_of_def retS_def liftS_def on_files_def Let_def
       split: prod.splits sum.splits option.splits)

context file_store
begin

lemma checks:
  assumes "ok s" "es_files E = R" "dict_get (es_catalog E) name = Some t"
    and raw: "view s (es_ws E) (record_path (et_records_path t) n) = Some raw"
    and "parse_with E name t n raw = Inr cur"
  shows "\<exists>s'. update_check E name n patch (Some (en_version cur)) None s
       = (s', Inr (serialize_entity (es_dump E) (merged (en_fields cur) patch) (en_body cur))) \<and> ok s' \<and> view s' = view s"
  using read_law [OF assms(1), of "es_ws E" "record_path (et_records_path t) n"] raw assms(2,3,5)
  by (auto simp: update_check_def bindS_def type_of_def on_files_def liftS_def retS_def)

lemma writes_update:
  assumes "ok s" "es_files E = R" "quiet_sink E view ok" "dict_get (es_catalog E) name = Some t" "listed (et_schema t)"
  shows "\<exists>s' e. update_write E name n text actor origin s = (s', Inr e) \<and> ok s'
     \<and> view s' = (view s)(es_ws E := (view s (es_ws E))(record_path (et_records_path t) n \<mapsto> text))"
proof -
  obtain s1 where s1: "fr_write R (es_ws E) (record_path (et_records_path t) n) text s = (s1, Inr ())" "ok s1"
      "view s1 = (view s)(es_ws E := (view s (es_ws E))(record_path (et_records_path t) n \<mapsto> text))"
    using write_law [OF assms(1)] by blast
  obtain e where "parse_with E name t n text = Inr e"
    using parse_returns [OF assms(5)] unfolding parse_with_def by blast
  then have "update_write E name n text actor origin s = (emit_event E t e ''updated'' actor origin s1, Inr e)"
    using s1(1) assms(2,4) by (simp add: update_write_def bindS_def type_of_def on_files_def liftS_def)
  with emitted [OF assms(3) s1(2)] s1(3) show ?thesis by auto
qed

end

section \<open>Properties\<close>

text \<open>
  creators that share no lock never take one record from each other: in every interleaving of
  any number of creations, the numbers held are different and each record still holds the text
  of the creator that holds its number.
\<close>

theorem racing_creators_apart:
  assumes "file_store R view ok" "ok (ra_files c)" "\<forall>p. ra_procs c p = Idle"
    and "(race_step R ws records text)\<^sup>*\<^sup>* c c'"
  shows "(\<forall>p n. holds_number (ra_procs c' p) n \<longrightarrow> view (ra_files c') ws (record_path records n) = Some (text p n))
     \<and> (\<forall>p q n. holds_number (ra_procs c' p) n \<longrightarrow> holds_number (ra_procs c' q) n \<longrightarrow> p = q)"
proof -
  have "file_store.apart view ok ws records text c"
    using assms(2,3) by (simp add: file_store.apart_def [OF assms(1)])
  from file_store.apart_run [OF assms(1,4) this] show ?thesis
    by (simp add: file_store.apart_def [OF assms(1)])
qed

definition race_start :: "mem_store race" where
  "race_start = \<lparr>ra_files = no_files, ra_procs = (\<lambda>p. Idle)\<rparr>"

definition signed :: "nat \<Rightarrow> nat \<Rightarrow> string" where
  "signed p n = dec p"

theorem racing_creators_apart_witness:
  "\<exists>c. play memory ''ws'' ''tasks'' signed (map Go [0, 1, 0, 1, 0, 1, 1]) race_start = Some c
     \<and> mem_view (ra_files c) ''ws'' (record_path ''tasks'' 1) = Some (signed 0 1)
     \<and> mem_view (ra_files c) ''ws'' (record_path ''tasks'' 2) = Some (signed 1 2)"
proof -
  let ?run = "play memory ''ws'' ''tasks'' signed (map Go [0, 1, 0, 1, 0, 1, 1]) race_start"
  have "map_option (\<lambda>c. (ra_procs c 0, ra_procs c 1)) ?run = Some (Recording 1, Recording 2)" by code_simp
  then obtain c where c: "?run = Some c" "ra_procs c 0 = Recording 1" "ra_procs c 1 = Recording 2" by auto
  have start: "mem_ok (ra_files race_start)" "\<forall>p. ra_procs race_start p = Idle" by (simp_all add: race_start_def)
  from racing_creators_apart [OF mem.file_store_axioms start play_races [OF c(1)]] c(2,3)
  have "mem_view (ra_files c) ''ws'' (record_path ''tasks'' 1) = Some (signed 0 1)"
    "mem_view (ra_files c) ''ws'' (record_path ''tasks'' 2) = Some (signed 1 2)" by simp_all
  with c(1) show ?thesis by blast
qed

text \<open>
  without a common lock a number can be given out twice: the counter goes back when a slow
  creator records its smaller number last, and once the larger record was deleted the next
  creation takes its number again.
\<close>

theorem number_reissued:
  "\<exists>c. (open_step memory ''ws'' ''tasks'' signed)\<^sup>*\<^sup>* race_start c
     \<and> ra_procs c 1 = Finished 2 \<and> ra_procs c 2 = Finished 2"
proof -
  let ?run = "play memory ''ws'' ''tasks'' signed
    [Go 0, Go 1, Go 0, Go 1, Go 0, Go 1, Go 1, Go 1, Remove 2, Go 0, Go 2, Go 2, Go 2, Go 2] race_start"
  have "map_option (\<lambda>c. (ra_procs c 1, ra_procs c 2)) ?run = Some (Finished 2, Finished 2)" by code_simp
  then obtain c where "?run = Some c" "ra_procs c 1 = Finished 2" "ra_procs c 2 = Finished 2" by auto
  with play_reaches show ?thesis by blast
qed


text \<open>
  without a common lock the version check does not prevent a lost update: when two updates
  prepared from one version both check before either writes, both succeed and the record keeps
  nothing of the first one's patch.
\<close>

theorem unlocked_update_lost:
  assumes "file_store (es_files E) view ok" "ok s" "quiet_sink E view ok" "dict_get (es_catalog E) name = Some t"
    and "listed (et_schema t)" "view s (es_ws E) (record_path (et_records_path t) n) = Some raw"
    and "parse_with E name t n raw = Inr cur"
  shows "\<exists>text1 text2 s1 s2 s3 s4 e1 e2.
       update_check E name n p1 (Some (en_version cur)) None s = (s1, Inr text1)
     \<and> update_check E name n p2 (Some (en_version cur)) None s1 = (s2, Inr text2)
     \<and> update_write E name n text1 a1 o1 s2 = (s3, Inr e1)
     \<and> update_write E name n text2 a2 o2 s3 = (s4, Inr e2)
     \<and> view s4 (es_ws E) (record_path (et_records_path t) n)
         = Some (serialize_entity (es_dump E) (merged (en_fields cur) p2) (en_body cur))"
proof -
  let ?text = "\<lambda>p. serialize_entity (es_dump E) (merged (en_fields cur) p) (en_body cur)"
  obtain s1 where s1: "update_check E name n p1 (Some (en_version cur)) None s = (s1, Inr (?text p1))" "ok s1" "view s1 = view s"
    using file_store.checks [OF assms(1,2) refl assms(4,6,7)] by blast
  have "view s1 (es_ws E) (record_path (et_records_path t) n) = Some raw" using assms(6) s1(3) by simp
  from file_store.checks [OF assms(1) s1(2) refl assms(4) this assms(7)] obtain s2 where
    s2: "update_check E name n p2 (Some (en_version cur)) None s1 = (s2, Inr (?text p2))" "ok s2" by blast
  from file_store.writes_update [OF assms(1) s2(2) refl assms(3-5)] obtain s3 e1 where
    s3: "update_write E name n (?text p1) a1 o1 s2 = (s3, Inr e1)" "ok s3" by blast
  from file_store.writes_update [OF assms(1) s3(2) refl assms(3-5), of n "?text p2" a2 o2] obtain s4 e2 where
    s4: "update_write E name n (?text p2) a2 o2 s3 = (s4, Inr e2)"
      "view s4 (es_ws E) (record_path (et_records_path t) n) = Some (?text p2)" by auto
  from s1(1) s2(1) s3(1) s4 show ?thesis by blast
qed

theorem unlocked_update_lost_witness:
  "\<exists>s1 s2 s3 s4 text1 text2 e1 e2.
       update_check desk ''task'' 1 [(''title'', JStr ''seal'')] (Some (en_version pump)) None one_file = (s1, Inr text1)
     \<and> update_check desk ''task'' 1 [] (Some (en_version pump)) None s1 = (s2, Inr text2)
     \<and> update_write desk ''task'' 1 text1 ''ann'' None s2 = (s3, Inr e1)
     \<and> update_write desk ''task'' 1 text2 ''bob'' None s3 = (s4, Inr e2)"
proof -
  have t: "dict_get (es_catalog desk) ''task'' = Some task_type" and l: "listed (et_schema task_type)"
    by (simp_all add: listed_def)
  from unlocked_update_lost [OF mem_at one_file_ok desk_fine(2) t l pump_there pump_parsed,
      of "[(''title'', JStr ''seal'')]" "[]" "''ann''" None "''bob''" None]
  show ?thesis by (elim exE conjE) (intro exI conjI)
qed

end
