(* ===== verification/EntityCaps.thy ===== *)
theory EntityCaps
  imports EntityQuery Capabilities
begin

text \<open>
  A workflow's two entity capabilities, \<open>create_entity\<close> and \<open>update_entity\<close> of
  \<open>workflow/handle.py\<close>: the entity store behind the journaled ruling and action of
  \<open>Nonidempotent\<close>, with the file \<open>created.json\<close> in which a site of a definition remembers the
  record it made.  The journal and the records are files of one workspace, so both act on one
  world \<open>'w\<close>.
\<close>

section \<open>What a site is given\<close>

text \<open>
  \<open>si_put\<close> is \<open>write_json\<close> of the handle, which the disk quota may refuse; \<open>si_ask\<close> the
  classification model, absent where none is wired; \<open>si_entities\<close> the store before the item's
  types were read; \<open>si_float\<close> and \<open>si_shown\<close> the numbers of the relations and their JSON.
\<close>

record ('w, 'n) site =
  si_handle :: "'w handle"
  si_put :: "'w \<Rightarrow> string \<Rightarrow> json \<Rightarrow> 'w \<times> (step_exn + unit)"
  si_ask :: "(string \<Rightarrow> 'w \<Rightarrow> 'w \<times> (step_exn + string)) option"
  si_entities :: "'w entities"
  si_user :: string
  si_today :: string
  si_origin :: "write_origin option"
  si_run_id :: string
  si_mark :: string
  si_float :: "json \<Rightarrow> 'n option"
  si_shown :: "'n \<Rightarrow> json"

definition entity_failure :: "ent_exn \<Rightarrow> step_exn" where
  "entity_failure e =
     (case e of
        Py x \<Rightarrow> x
      | Conflict m \<Rightarrow> StepFailed (Reason m)
      | Fs (FileNotFound p) \<Rightarrow> Raised ''FileNotFound''
      | Fs (FileExists p) \<Rightarrow> Raised ''FileExists''
      | UnknownType t \<Rightarrow> Raised ''KeyError''
      | Endless \<Rightarrow> Raised ''Endless'')"

definition of_store :: "('w, 'a) es_op \<Rightarrow> 'w \<Rightarrow> 'w \<times> (step_exn + 'a)" where
  "of_store f w = (case f w of (w', out) \<Rightarrow> (w', map_sum entity_failure id out))"

text \<open>The store over the types the item has now.\<close>

definition with_types :: "'w entities \<Rightarrow> 'w \<Rightarrow> 'w \<times> (step_exn + 'w entities)" where
  "with_types E w =
     (case discover_catalog (es_load E) (es_files E) (es_ws E) w of
        (w', out) \<Rightarrow> (w', bindE out (\<lambda>(types, ds). Inr (E\<lparr>es_catalog := types\<rparr>))))"

section \<open>Creating\<close>

definition run_token :: "('w, 'n) site \<Rightarrow> string \<Rightarrow> string" where
  "run_token si on_duplicate = (if on_duplicate = ''create_new'' then si_run_id si else [])"

definition created_path :: "'w handle \<Rightarrow> string \<Rightarrow> string \<Rightarrow> string \<Rightarrow> string" where
  "created_path wh name key token =
     wf_journal_dir wh @ ''/step_'' @ name @ ''/'' @ (if key = [] then ''main'' else key)
       @ (if token = [] then [] else ''.'' @ token) @ ''.created.json''"

text \<open>\<open>int(v[k])\<close>\<close>

definition int_at :: "json \<Rightarrow> string \<Rightarrow> step_exn + int" where
  "int_at v k =
     bindE (item_of v k) (\<lambda>x. case py_int x of None \<Rightarrow> Inl (Raised ''ValueError'') | Some i \<Rightarrow> Inr i)"

text \<open>A record's file is named by digits, so a negative number names none.\<close>

definition remembered_alive :: "('w, 'n) site \<Rightarrow> 'w entities \<Rightarrow> string \<Rightarrow> string \<Rightarrow> 'w \<Rightarrow> step_exn + nat option" where
  "remembered_alive si E records path w =
     (if \<not> wf_exists (si_handle si) w path then Inr None
      else bindE (wf_read_json (si_handle si) w path) (\<lambda>j. bindE (int_at j ''number'') (\<lambda>i.
             Inr (if 0 \<le> i \<and> fr_exists (es_files E) (es_ws E) (record_path records (nat i)) w
                  then Some (nat i) else None))))"

definition derived_json :: "('n \<Rightarrow> json) \<Rightarrow> 'n derived \<Rightarrow> json" where
  "derived_json shown d =
     (case d of
        Backrefs ns \<Rightarrow> JArr (map (\<lambda>n. JInt (int n)) ns)
      | Count n \<Rightarrow> JInt (int n)
      | NoSum \<Rightarrow> JInt 0
      | Nothing \<Rightarrow> JNull
      | Number x \<Rightarrow> shown x)"

definition title_of :: "('n \<Rightarrow> json) \<Rightarrow> entity \<times> (string, 'n derived) dict \<Rightarrow> json" where
  "title_of shown p =
     (case dict_get (snd p) ''title'' of
        Some d \<Rightarrow> derived_json shown d
      | None \<Rightarrow> (case dict_get (en_fields (fst p)) ''title'' of None \<Rightarrow> JStr [] | Some v \<Rightarrow> v))"

text \<open>Does another origin's record describe the same thing?  A model that fails says no.\<close>

definition cross_match ::
  "('w, 'n::linordered_field) site \<Rightarrow> 'w entities \<Rightarrow> string \<Rightarrow> (string, json) dict \<Rightarrow> 'w \<Rightarrow> 'w \<times> (step_exn + nat option)" where
  "cross_match si E type args =
     (case si_ask si of
        None \<Rightarrow> retS None
      | Some llm \<Rightarrow>
          bindS (of_store (query (si_float si) E type)) (\<lambda>(found, invalid).
            let candidates = map (\<lambda>p. (en_number (fst p), title_of (si_shown si) p)) found in
            if candidates = [] then retS None
            else (\<lambda>w. case llm (match_prompt args candidates) w of
                         (w', Inl e) \<Rightarrow> (w', Inr None)
                       | (w', Inr answer) \<Rightarrow> (w', Inr (parse_match answer (map fst candidates))))))"

definition duplicate_of :: "nat \<Rightarrow> string \<Rightarrow> verdict" where
  "duplicate_of n origin =
     \<lparr>vd_kind = ''duplicate'', vd_payload = JObj [(''of'', JInt (int n)), (''origin'', JStr origin)]\<rparr>"

definition create_decide ::
  "('w, 'n::linordered_field) site \<Rightarrow> 'w entities \<Rightarrow> string \<Rightarrow> string \<Rightarrow> (string, json) dict \<Rightarrow> string \<Rightarrow> string
   \<Rightarrow> string option \<Rightarrow> 'w \<Rightarrow> 'w \<times> (step_exn + verdict)" where
  "create_decide si E type records args on_duplicate path feedback w =
     (case remembered_alive si E records path w of
        Inl e \<Rightarrow> (w, Inl e)
      | Inr (Some n) \<Rightarrow> (w, Inr (duplicate_of n ''self''))
      | Inr None \<Rightarrow>
          if on_duplicate = ''create_new''
          then (w, Inr \<lparr>vd_kind = ''token'', vd_payload = JObj [(''token'', JStr (si_run_id si))]\<rparr>)
          else bindS (cross_match si E type args)
                 (\<lambda>m. retS (case m of Some n \<Rightarrow> duplicate_of n ''cross''
                                    | None \<Rightarrow> \<lparr>vd_kind = ''new'', vd_payload = JObj []\<rparr>)) w)"

text \<open>Enriching another origin's record: empty fields are filled, the workflow's own block is replaced.\<close>

definition cross_patch :: "(string, json) dict \<Rightarrow> (string, json) dict \<Rightarrow> (string, json) dict" where
  "cross_patch flds args =
     filter (\<lambda>(k, v). \<not> truthy (case dict_get flds k of None \<Rightarrow> JNull | Some u \<Rightarrow> u)) args"

definition cross_merge ::
  "('w, 'n) site \<Rightarrow> 'w entities \<Rightarrow> string \<Rightarrow> string \<Rightarrow> (string, json) dict \<Rightarrow> nat \<Rightarrow> 'w \<Rightarrow> 'w \<times> (step_exn + unit)" where
  "cross_merge si E type name args number =
     bindS (of_store (get_entity E type number)) (\<lambda>current.
     bindS (of_store (update E type number (cross_patch (en_fields current) args) (Some (en_version current))
              (Some (replace_fenced_block (en_body current) name (render_contribution (si_mark si) name args)))
              (si_user si) (si_origin si))) (\<lambda>updated.
       retS ()))"

definition self_merge ::
  "('w, 'n) site \<Rightarrow> 'w entities \<Rightarrow> string \<Rightarrow> (string, json) dict \<Rightarrow> nat \<Rightarrow> 'w \<Rightarrow> 'w \<times> (step_exn + unit)" where
  "self_merge si E type args number =
     bindS (of_store (get_entity E type number)) (\<lambda>current.
     bindS (of_store (update E type number args (Some (en_version current)) None (si_user si) (si_origin si))) (\<lambda>updated.
       retS ()))"

definition entity_result :: "int \<Rightarrow> bool \<Rightarrow> string \<Rightarrow> ni_result" where
  "entity_result n created action =
     \<lparr>nr_fields = JObj [(''number'', JInt n), (''created'', JBool created), (''action'', JStr action)],
      nr_artifact = None\<rparr>"

definition create_act ::
  "('w, 'n) site \<Rightarrow> 'w entities \<Rightarrow> string \<Rightarrow> string \<Rightarrow> string \<Rightarrow> (string, json) dict \<Rightarrow> string \<Rightarrow> string
   \<Rightarrow> verdict \<Rightarrow> 'w \<Rightarrow> 'w \<times> (step_exn + ni_result)" where
  "create_act si E type records name args on_duplicate path v w =
     (if vd_kind v = ''duplicate''
      then (case int_at (vd_payload v) ''of'' of
              Inl e \<Rightarrow> (w, Inl e)
            | Inr i \<Rightarrow>
                if on_duplicate = ''skip'' then (w, Inr (entity_result i False ''skip''))
                else if i < 0 then (w, Inl (Raised ''FileNotFound''))
                else if jget (vd_payload v) ''origin'' = Some (JStr ''cross'')
                then bindS (cross_merge si E type name args (nat i)) (\<lambda>u. retS (entity_result i False ''cross-merge'')) w
                else bindS (self_merge si E type args (nat i)) (\<lambda>u. retS (entity_result i False ''merge'')) w)
      else (case remembered_alive si E records path w of
              Inl e \<Rightarrow> (w, Inl e)
            | Inr (Some n) \<Rightarrow> (w, Inr (entity_result (int n) False ''resume''))
            | Inr None \<Rightarrow>
                bindS (of_store (create E type args (si_user si) (si_today si) (si_origin si))) (\<lambda>created.
                bindS (\<lambda>w. si_put si w path (JObj [(''number'', JInt (int (en_number created)))])) (\<lambda>u.
                  retS (entity_result (int (en_number created)) True ''create''))) w))"

definition create_inputs :: "string \<Rightarrow> (string, json) dict \<Rightarrow> string \<Rightarrow> string \<Rightarrow> json" where
  "create_inputs type args on_duplicate token =
     JObj ([(''type'', JStr type), (''args'', JObj args), (''on_duplicate'', JStr on_duplicate)]
           @ (if token = [] then [] else [(''token'', JStr token)]))"

definition create_entity ::
  "(string \<Rightarrow> string) \<Rightarrow> ('w, 'n::linordered_field) site \<Rightarrow> string \<Rightarrow> (string, json) dict \<Rightarrow> string \<Rightarrow> string \<Rightarrow> string
   \<Rightarrow> string \<Rightarrow> bool \<Rightarrow> 'w step_state \<Rightarrow> 'w step_state \<times> (step_exn + int)" where
  "create_entity digest si type args name on_duplicate key phase cache st =
     (case with_types (si_entities si) (st_world st) of
        (w, Inl e) \<Rightarrow> (at_world st w, Inl e)
      | (w, Inr E) \<Rightarrow>
          (case dict_get (es_catalog E) type of
             None \<Rightarrow> (at_world st w, Inl (StepFailed (Reason (''unknown entity type: '' @ type))))
           | Some t \<Rightarrow>
               let records = et_records_path t; token = run_token si on_duplicate;
                   path = created_path (si_handle si) name key token
               in case run_nonidempotent digest (si_handle si) name key phase
                         (create_inputs type args on_duplicate token)
                         (create_decide si E type records args on_duplicate path)
                         (create_act si E type records name args on_duplicate path) cache (at_world st w) of
                    (st', out) \<Rightarrow> (st', bindE out (\<lambda>r. int_at (nr_fields r) ''number''))))"

section \<open>Updating\<close>

text \<open>One attempt after another; \<open>others\<close> is what other writers do between the reading and the update.\<close>

fun update_tries ::
  "('w, 'n) site \<Rightarrow> 'w entities \<Rightarrow> (nat \<Rightarrow> 'w \<Rightarrow> 'w) \<Rightarrow> string \<Rightarrow> nat \<Rightarrow> (string, json) dict \<Rightarrow> nat
   \<Rightarrow> 'w \<Rightarrow> 'w \<times> (step_exn + json)" where
  "update_tries si E others type number patch 0 w =
     (w, Inl (StepFailed (Reason (''update_entity '' @ type @ '' #'' @ dec number @ '': too many version conflicts''))))"
| "update_tries si E others type number patch (Suc k) w =
     (case get_entity E type number w of
        (w1, Inl e) \<Rightarrow> (w1, Inl (entity_failure e))
      | (w1, Inr current) \<Rightarrow>
          (case update E type number patch (Some (en_version current)) None (si_user si) (si_origin si) (others k w1) of
             (w2, Inl (Conflict m)) \<Rightarrow> update_tries si E others type number patch k w2
           | (w2, Inl e) \<Rightarrow> (w2, Inl (entity_failure e))
           | (w2, Inr updated) \<Rightarrow> (w2, Inr (JObj [(''version'', JStr (en_version updated))]))))"

definition update_entity ::
  "(string \<Rightarrow> string) \<Rightarrow> ('w, 'n) site \<Rightarrow> (nat \<Rightarrow> 'w \<Rightarrow> 'w) \<Rightarrow> string \<Rightarrow> nat \<Rightarrow> (string, json) dict \<Rightarrow> string
   \<Rightarrow> bool \<Rightarrow> int \<Rightarrow> 'w step_state \<Rightarrow> 'w step_state \<times> (step_exn + json)" where
  "update_entity digest si others type number patch phase cache retries st =
     (case with_types (si_entities si) (st_world st) of
        (w, Inl e) \<Rightarrow> (at_world st w, Inl e)
      | (w, Inr E) \<Rightarrow>
          if dict_get (es_catalog E) type = None
          then (at_world st w, Inl (StepFailed (Reason (''unknown entity type: '' @ type))))
          else
            let sp = plain_step ''update_entity'' (type @ ''_'' @ dec number @ ''_'' @ input_hash digest (JObj patch)) phase
                       (JObj [(''type'', JStr type), (''number'', JInt (int number)), (''patch'', JObj patch)])
                       (update_tries si E others type number patch (nat (retries + 1))) cache
            in case run_step digest (si_handle si) sp (at_world st w) of
                 (st', out) \<Rightarrow> (st', bindE out (\<lambda>r. item_of r ''version'')))"

section \<open>What the calls leave alone\<close>

lemma record_is_md [simp]: "ends_md (record_path records n)"
  by (simp add: record_path_def ends_md_def)

lemma json_not_md: "\<not> ends_md (p @ ''.json'')"
  by (simp add: ends_md_def)

context file_store
begin

text \<open>The same files, and only records changed.\<close>

definition keeps :: "'s \<Rightarrow> 's \<Rightarrow> bool" where
  "keeps s s' \<longleftrightarrow> ok s' \<and> (\<forall>ws p. (view s' ws p = None) = (view s ws p = None)
     \<and> (\<not> ends_md p \<longrightarrow> view s' ws p = view s ws p))"

lemma keeps_view: "ok s' \<Longrightarrow> view s' = view s \<Longrightarrow> keeps s s'"
  by (simp add: keeps_def)

lemma keeps_trans: "keeps s s1 \<Longrightarrow> keeps s1 s2 \<Longrightarrow> keeps s s2"
  by (simp add: keeps_def)

lemma read_keeps: "ok s \<Longrightarrow> fr_read R ws p s = (s', out) \<Longrightarrow> ok s' \<and> view s' = view s"
  using reads by metis

lemma read_all_keeps: "ok s \<Longrightarrow> read_all R ws ps s = (s', out) \<Longrightarrow> ok s' \<and> view s' = view s"
proof (induction ps arbitrary: s s' out)
  case (Cons p ps)
  obtain s1 r where r: "fr_read R ws p s = (s1, r)" by fastforce
  obtain s2 r2 where r2: "read_all R ws ps s1 = (s2, r2)" by fastforce
  from read_keeps [OF Cons.prems(1) r] Cons.IH [OF _ r2] r r2 Cons.prems(2) show ?case
    by (auto split: sum.splits)
qed simp

lemma scan_keeps:
  assumes "ok s" "es_files E = R" "parse_type E name s = (s', out)"
  shows "ok s' \<and> view s' = view s"
  using assms read_all_keeps [OF assms(1)]
  by (auto simp: parse_type_def bindS_def type_of_def on_files_def liftS_def Let_def split: prod.splits sum.splits option.splits)

lemma corpus_keeps:
  "ok s \<Longrightarrow> es_files E = R \<Longrightarrow> corpus_of E own found names s = (s', out) \<Longrightarrow> ok s' \<and> view s' = view s"
proof (induction names arbitrary: s s' out)
  case (Cons name names)
  let ?first = "if name = own then retS found else bindS (parse_type E name) (\<lambda>es. retS (filter entity_ok es))"
  obtain s1 r1 where r1: "?first s = (s1, r1)" by fastforce
  have s1: "ok s1 \<and> view s1 = view s"
    using r1 Cons.prems(1) scan_keeps [OF Cons.prems(1,2)]
    by (auto simp: retS_def bindS_def split: if_splits prod.splits sum.splits)
  obtain s2 r2 where r2: "corpus_of E own found names s1 = (s2, r2)" by fastforce
  from Cons.IH [OF _ Cons.prems(2) r2] s1 r1 r2 Cons.prems(3) show ?case
    by (auto simp: bindS_def [of ?first] bindS_def [of "corpus_of E own found names"] retS_def split: sum.splits)
qed (simp add: retS_def)

lemma query_keeps:
  assumes "ok s" "es_files E = R" "query number E name s = (s', out)"
  shows "ok s' \<and> view s' = view s"
proof (cases "dict_get (es_catalog E) name")
  case (Some t)
  obtain s1 r1 where r1: "parse_type E name s = (s1, r1)" by fastforce
  note s1 = scan_keeps [OF assms(1,2) r1]
  from corpus_keeps [OF conjunct1 [OF s1] assms(2)] s1 assms(3) Some r1 show ?thesis
    by (auto simp: query_def bindS_def type_of_def liftS_def retS_def Let_def split: sum.splits if_splits prod.splits)
qed (use assms in \<open>simp add: query_def bindS_def type_of_def\<close>)

lemma get_keeps:
  assumes "ok s" "es_files E = R" "get_entity E name n s = (s', out)"
  shows "ok s' \<and> view s' = view s"
  using assms read_keeps [OF assms(1)]
  by (auto simp: get_entity_def bindS_def type_of_def on_files_def liftS_def split: prod.splits sum.splits option.splits)

lemma update_keeps:
  assumes "ok s" "es_files E = R" "quiet_sink E view ok" "update E name n patch expected body actor origin s = (s', out)"
  shows "keeps s s'"
proof (cases "dict_get (es_catalog E) name")
  case (Some t)
  let ?p = "record_path (et_records_path t) n"
  obtain s1 r1 where r1: "fr_read R (es_ws E) ?p s = (s1, r1)" by fastforce
  from reads [OF assms(1) r1] have s1: "ok s1" "view s1 = view s"
    and r: "r1 = (case view s (es_ws E) ?p of None \<Rightarrow> Inl (FileNotFound (es_ws E @ '':'' @ ?p)) | Some b \<Rightarrow> Inr b)" by auto
  show ?thesis
  proof (cases "view s (es_ws E) ?p")
    case None
    with r r1 assms(2,4) Some s1 show ?thesis
      by (auto simp: update_def bindS_def type_of_def on_files_def Let_def intro: keeps_view)
  next
    case (Some raw)
    show ?thesis
    proof (cases "parse_with E name t n raw")
      case (Inl e)
      with r r1 assms(2,4) Some \<open>dict_get _ _ = _\<close> s1 show ?thesis
        by (auto simp: update_def bindS_def type_of_def on_files_def liftS_def Let_def intro: keeps_view)
    next
      case (Inr cur)
      let ?text = "serialize_entity (es_dump E) (merged (en_fields cur) patch) (case body of None \<Rightarrow> en_body cur | Some b \<Rightarrow> b)"
      obtain s2 where s2: "fr_write R (es_ws E) ?p ?text s1 = (s2, Inr ())" "ok s2"
          "view s2 = (view s1)(es_ws E := (view s1 (es_ws E))(?p \<mapsto> ?text))"
        using write_law [OF s1(1)] by blast
      have k2: "keeps s s2" using s2 s1 Some by (auto simp: keeps_def)
      have "s' = s1 \<or> s' = s2 \<or> (\<exists>e. s' = emit_event E t e ''updated'' actor origin s2)"
        using r r1 s2(1) assms(2,4) Some Inr \<open>dict_get _ _ = _\<close>
        by (auto simp: update_def bindS_def type_of_def on_files_def liftS_def Let_def split: if_splits sum.splits)
      with k2 s1 emitted [OF assms(3) s2(2)] show ?thesis
        by (auto intro: keeps_view) (auto simp: keeps_def)
    qed
  qed
qed (use assms in \<open>simp add: update_def bindS_def type_of_def keeps_def\<close>)

end

section \<open>A site's world\<close>

lemma run_keeps:
  assumes "sp_check sp = None" "sp_retries sp = 0" "P (st_world st)"
    and "\<And>w w' out. P w \<Longrightarrow> sp_execute sp None w = (w', out) \<Longrightarrow> P w'"
    and "\<And>w w' h r. P w \<Longrightarrow> wf_write_record wh w (step_path wh sp) (step_record h r) = Inr w' \<Longrightarrow> P w'"
  shows "P (st_world (fst (run_step digest wh sp st)))"
proof -
  obtain w out where e: "sp_execute sp None (st_world st) = (w, out)" by fastforce
  have "P w" by (rule assms(4) [OF assms(3) e])
  with assms(1-3,5) e show ?thesis
    by (auto simp: run_step_def workflow_simps attempt_body_def verdict_on_def
        split: option.splits sum.splits prod.splits step_exn.splits)
qed

lemma shell_keeps:
  assumes "P (st_world st)"
    and "\<And>w w' out. P w \<Longrightarrow> decide None w = (w', out) \<Longrightarrow> P w'"
    and "\<And>v w w' out. P w \<Longrightarrow> act v w = (w', out) \<Longrightarrow> P w'"
    and "\<And>w w' j. P w \<Longrightarrow> wf_write_record wh w (artifact_path wh name key) j = Inr w' \<Longrightarrow> P w'"
    and "\<And>w w' j. P w \<Longrightarrow> wf_write_record wh w (artifact_path wh name (decide_key key)) j = Inr w' \<Longrightarrow> P w'"
  shows "P (st_world (fst (run_nonidempotent digest wh name key phase inputs decide act cache st)))"
proof -
  let ?d = "decide_step name key phase inputs decide cache"
  obtain st1 r1 where r1: "run_step digest wh ?d st = (st1, r1)" by fastforce
  have "P (st_world (fst (run_step digest wh ?d st)))"
  proof (rule run_keeps)
    fix w w' out assume "P w" "sp_execute ?d None w = (w', out)"
    with assms(2) show "P w'" by (auto simp: decide_step_def split: prod.splits)
  next
    fix w w' h r assume "P w" "wf_write_record wh w (step_path wh ?d) (step_record h r) = Inr w'"
    then show "P w'" unfolding step_paths by (rule assms(5))
  qed (simp_all add: decide_step_def assms(1))
  then have P1: "P (st_world st1)" using r1 by simp
  show ?thesis
  proof (cases r1)
    case (Inr raw)
    show ?thesis
    proof (cases "to_verdict raw")
      case v: (Inr v)
      let ?a = "act_step name key phase inputs raw (act v) cache"
      have "P (st_world (fst (run_step digest wh ?a st1)))"
      proof (rule run_keeps)
        fix w w' out assume "P w" "sp_execute ?a None w = (w', out)"
        with assms(3) show "P w'" by (auto simp: act_step_def split: prod.splits)
      next
        fix w w' h r assume "P w" "wf_write_record wh w (step_path wh ?a) (step_record h r) = Inr w'"
        then show "P w'" unfolding step_paths by (rule assms(4))
      qed (simp_all add: act_step_def P1)
      with r1 Inr v show ?thesis by (auto simp: run_nonidempotent_def act_on_def split: prod.splits)
    qed (use r1 Inr P1 in \<open>simp add: run_nonidempotent_def act_on_def\<close>)
  qed (use r1 P1 in \<open>simp add: run_nonidempotent_def\<close>)
qed

text \<open>
  The journal and \<open>write_json\<close> on the files of the workspace: a JSON file is the text of its
  value, and a put that is refused changes nothing.
\<close>

locale entity_site = file_store R view ok
  for R :: "'w fstore" and view :: "'w \<Rightarrow> string \<Rightarrow> string \<Rightarrow> string option" and ok :: "'w \<Rightarrow> bool" +
  fixes ws :: string and wh :: "'w handle" and put :: "'w \<Rightarrow> string \<Rightarrow> json \<Rightarrow> 'w \<times> (step_exn + unit)"
    and jtext :: "json \<Rightarrow> string" and jread :: "string option \<Rightarrow> step_exn + json"
  assumes journal_exists: "ok w \<Longrightarrow> wf_exists wh w p \<longleftrightarrow> view w ws p \<noteq> None"
    and journal_read: "ok w \<Longrightarrow> wf_read_json wh w p = jread (view w ws p)"
    and journal_write: "ok w \<Longrightarrow> wf_write_record wh w p j = Inr w' \<Longrightarrow>
          ok w' \<and> view w' = (view w)(ws := (view w ws)(p \<mapsto> jtext j))"
    and put_law: "ok w \<Longrightarrow> put w p j = (w', out) \<Longrightarrow>
          ok w' \<and> view w' = (case out of Inl e \<Rightarrow> view w | Inr u \<Rightarrow> (view w)(ws := (view w ws)(p \<mapsto> jtext j)))"
    and reads_number: "jread (Some (jtext (JObj [(''number'', JInt (int n))]))) = Inr (JObj [(''number'', JInt (int n))])"

text \<open>
  A site whose records and journal are files of workspace \<open>ws\<close>, with a sink and a model that
  leave the files alone.
\<close>

definition site_on ::
  "'w fstore \<Rightarrow> ('w \<Rightarrow> string \<Rightarrow> string \<Rightarrow> string option) \<Rightarrow> ('w \<Rightarrow> bool) \<Rightarrow> string \<Rightarrow> 'w handle
   \<Rightarrow> ('w \<Rightarrow> string \<Rightarrow> json \<Rightarrow> 'w \<times> (step_exn + unit)) \<Rightarrow> ('w, 'n) site \<Rightarrow> 'w entities \<Rightarrow> bool" where
  "site_on R view ok ws wh put si E \<longleftrightarrow>
     si_handle si = wh \<and> si_put si = put \<and> es_files E = R \<and> es_ws E = ws \<and> quiet_sink E view ok
     \<and> (\<forall>f q w. si_ask si = Some f \<longrightarrow> ok w \<longrightarrow> ok (fst (f q w)) \<and> view (fst (f q w)) = view w)"

text \<open>The numbers that have a record.\<close>

definition record_numbers :: "('w \<Rightarrow> string \<Rightarrow> string \<Rightarrow> string option) \<Rightarrow> string \<Rightarrow> string \<Rightarrow> 'w \<Rightarrow> nat set" where
  "record_numbers view ws records w = {n. view w ws (record_path records n) \<noteq> None}"

text \<open>Calls of one site one after the other; none when one of them fails.\<close>

fun site_calls ::
  "(string \<Rightarrow> string) \<Rightarrow> ('w, 'n::linordered_field) site \<Rightarrow> string \<Rightarrow> string \<Rightarrow> string \<Rightarrow> string
   \<Rightarrow> ((string, json) dict \<times> string \<times> bool) list \<Rightarrow> 'w step_state \<Rightarrow> 'w step_state option" where
  "site_calls digest si type name dup key [] st = Some st"
| "site_calls digest si type name dup key ((args, phase, cache) # cs) st =
     (case create_entity digest si type args name dup key phase cache st of
        (st', Inr i) \<Rightarrow> site_calls digest si type name dup key cs st'
      | (st', Inl e) \<Rightarrow> None)"

lemma site_paths_apart:
  "created_path wh name key token \<noteq> artifact_path wh name key"
  "created_path wh name key token \<noteq> artifact_path wh name (decide_key key)"
proof -
  let ?k = "if key = [] then ''main'' else key" and ?t = "if token = [] then [] else ''.'' @ token"
  show "created_path wh name key token \<noteq> artifact_path wh name key"
    by (simp add: created_path_def artifact_path_def journal_stem_def)
  have "last (?t @ ''.created'') \<noteq> last ''.decide''" by simp
  then show "created_path wh name key token \<noteq> artifact_path wh name (decide_key key)"
    by (auto simp: created_path_def artifact_path_def journal_stem_def decide_key_def)
qed

lemma created_not_md [simp]: "\<not> ends_md (created_path wh name key token)"
  using json_not_md [of "wf_journal_dir wh @ ''/step_'' @ name @ ''/'' @ (if key = [] then ''main'' else key)
       @ (if token = [] then [] else ''.'' @ token) @ ''.created''"] by (simp add: created_path_def)

lemma artifact_not_md [simp]: "\<not> ends_md (artifact_path wh name key)"
  using json_not_md [of "journal_stem (wf_journal_dir wh) name key"] by (simp add: artifact_path_def)

context entity_site
begin

abbreviation sited :: "('w, 'n) site \<Rightarrow> 'w entities \<Rightarrow> bool" where
  "sited \<equiv> site_on R view ok ws wh put"

abbreviation numbers :: "string \<Rightarrow> 'w \<Rightarrow> nat set" where
  "numbers \<equiv> record_numbers view ws"

lemma remembered_view:
  assumes "sited si E" "ok w"
  shows "remembered_alive si E records path w =
     (if view w ws path = None then Inr None
      else bindE (jread (view w ws path)) (\<lambda>j. bindE (int_at j ''number'') (\<lambda>i.
             Inr (if 0 \<le> i \<and> nat i \<in> numbers records w then Some (nat i) else None))))"
  using assms journal_exists [OF assms(2)] journal_read [OF assms(2)] exists_law [OF assms(2)]
  by (simp add: remembered_alive_def site_on_def record_numbers_def)

lemma remembered_kept:
  assumes "sited si E" "ok w" "ok w'" "numbers records w' = numbers records w" "view w' ws path = view w ws path"
  shows "remembered_alive si E records path w' = remembered_alive si E records path w"
  by (simp add: remembered_view [OF assms(1,2)] remembered_view [OF assms(1,3)] assms(4,5))

lemma numbers_kept: "keeps w w' \<Longrightarrow> numbers records w' = numbers records w"
  by (auto simp: keeps_def record_numbers_def)

lemma journal_keeps:
  assumes "ok w" "wf_write_record wh w p j = Inr w'" "\<not> ends_md p"
  shows "ok w'" "numbers records w' = numbers records w" "q \<noteq> p \<Longrightarrow> view w' ws q = view w ws q"
  using journal_write [OF assms(1,2)] assms(3) by (auto simp: record_numbers_def)

lemma discover_keeps:
  assumes "ok w"
  shows "ok (fst (discover_catalog load R ws w)) \<and> view (fst (discover_catalog load R ws w)) = view w"
proof -
  obtain ps where "fst (discover_catalog load R ws w) = fst (read_all_existing R ws ps [] w)"
    by (simp add: discover_catalog_def Let_def case_prod_unfold sum.case_eq_if split: sum.split)
  moreover obtain w' got where "read_all_existing R ws ps [] w = (w', Inr got)" "ok w'" "view w' = view w"
    using existing_reads [OF assms] by blast
  ultimately show ?thesis by simp
qed

lemma types_keep:
  assumes "ok w" "es_files E = R" "es_ws E = ws" "with_types E w = (w', Inr E')"
  shows "ok w' \<and> view w' = view w \<and> (\<exists>types. E' = E\<lparr>es_catalog := types\<rparr>)"
proof -
  obtain w1 out where d: "discover_catalog (es_load E) R ws w = (w1, out)" by fastforce
  from discover_keeps [OF assms(1), of "es_load E"] d assms(2-4) show ?thesis
    by (auto simp: with_types_def bindE_eq_Inr)
qed

lemma match_keeps:
  assumes "sited si E" "ok w" "cross_match si E type args w = (w', out)"
  shows "ok w' \<and> view w' = view w"
proof (cases "si_ask si")
  case (Some llm)
  obtain w1 r1 where r1: "query (si_float si) E type w = (w1, r1)" by fastforce
  have w1: "ok w1 \<and> view w1 = view w" using query_keeps [OF assms(2) _ r1] assms(1) by (simp add: site_on_def)
  have llm: "ok w2 \<and> view w2 = view w" if "llm q w1 = (w2, r)" for q w2 r
    using assms(1) Some w1 that unfolding site_on_def by (metis fst_conv)
  show ?thesis
  proof (cases r1)
    case (Inl e)
    with assms(3) Some r1 w1 show ?thesis by (simp add: cross_match_def bindS_def of_store_def)
  next
    case (Inr res)
    obtain found invalid where "res = (found, invalid)" by fastforce
    let ?cand = "map (\<lambda>p. (en_number (fst p), title_of (si_shown si) p)) found"
    obtain w2 r2 where r2: "llm (match_prompt args ?cand) w1 = (w2, r2)" by fastforce
    from assms(3) Some r1 Inr \<open>res = _\<close> r2 have "w' = w1 \<or> w' = w2"
      by (auto simp: cross_match_def bindS_def of_store_def retS_def Let_def split: if_splits sum.splits)
    with w1 llm [OF r2] show ?thesis by blast
  qed
qed (use assms in \<open>simp add: cross_match_def retS_def\<close>)

lemma decide_keeps:
  assumes "sited si E" "ok w" "create_decide si E type records args dup path fb w = (w', out)"
  shows "ok w' \<and> view w' = view w"
proof -
  obtain w1 r1 where "cross_match si E type args w = (w1, r1)" by fastforce
  with match_keeps [OF assms(1,2) this] assms(2,3) show ?thesis
    by (auto simp: create_decide_def bindS_def retS_def split: sum.splits option.splits if_splits)
qed

lemma merges_keep:
  assumes "sited si E" "ok w"
  shows "self_merge si E type args n w = (w', out) \<Longrightarrow> keeps w w'"
    and "cross_merge si E type name args n w = (w', out) \<Longrightarrow> keeps w w'"
proof -
  obtain w1 r1 where r1: "get_entity E type n w = (w1, r1)" by fastforce
  have w1: "ok w1" "view w1 = view w" using get_keeps [OF assms(2) _ r1] assms(1) by (simp_all add: site_on_def)
  have up: "keeps w w2" if "update E type n p ex b u g w1 = (w2, r2)" for p ex b u g w2 r2
    using update_keeps [OF w1(1) _ _ that] assms(1) w1(2) keeps_trans [OF keeps_view [OF w1]] by (simp add: site_on_def)
  show "self_merge si E type args n w = (w', out) \<Longrightarrow> keeps w w'"
    using r1 up keeps_view [OF w1]
    by (auto simp: self_merge_def bindS_def of_store_def retS_def split: prod.splits sum.splits)
  show "cross_merge si E type name args n w = (w', out) \<Longrightarrow> keeps w w'"
    using r1 up keeps_view [OF w1]
    by (auto simp: cross_merge_def bindS_def of_store_def retS_def split: prod.splits sum.splits)
qed

end

lemma run_once:
  assumes "sp_check sp = None" "sp_retries sp = 0" "run_step digest wh sp st = (st', Inr r)"
  shows "st_world st' = st_world st
     \<or> (\<exists>w1 h. sp_execute sp None (st_world st) = (w1, Inr r)
          \<and> wf_write_record wh w1 (step_path wh sp) (step_record h r) = Inr (st_world st'))"
  using assms
  by (auto simp: run_step_def workflow_simps attempt_body_def verdict_on_def
      split: option.splits sum.splits prod.splits step_exn.splits)

lemma entity_result_number:
  "to_result (result_builtins (entity_result i c a)) = Inr (entity_result i c a)"
  "int_at (nr_fields (entity_result i c a)) ''number'' = Inr i"
  by (simp_all add: result_builtins_def entity_result_def int_at_def item_of_def py_int_def)

context entity_site
begin

lemma act_once:
  assumes "sited si E" "ok w" "remembered_alive si E records path w = Inr (Some n)" "\<not> ends_md path"
    and "create_act si E type records name args dup path v w = (w', out)"
  shows "keeps w w'"
proof -
  have refl: "keeps w w" by (rule keeps_view [OF assms(2) refl])
  have "\<And>m w1 r. self_merge si E type args m w = (w1, r) \<Longrightarrow> keeps w w1"
    "\<And>m w1 r. cross_merge si E type name args m w = (w1, r) \<Longrightarrow> keeps w w1"
    using merges_keep [OF assms(1,2)] by blast+
  with assms(3,5) refl show ?thesis
    by (auto simp: create_act_def bindS_def retS_def split: sum.splits if_splits prod.splits)
qed

lemma keeps_remembers:
  assumes "sited si E" "ok w" "keeps w w'" "\<not> ends_md path"
  shows "remembered_alive si E records path w' = remembered_alive si E records path w"
proof (rule remembered_kept [OF assms(1,2)])
  show "ok w'" using assms(3) by (simp add: keeps_def)
qed (use assms(3,4) numbers_kept [OF assms(3)] in \<open>simp_all add: keeps_def\<close>)

text \<open>A call of a site that remembers a live record makes none.\<close>

lemma mints_no_second:
  assumes si: "sited si (si_entities si)" and ok: "ok (st_world st)"
    and E: "with_types (si_entities si) (st_world st) = (w, Inr E)" "dict_get (es_catalog E) type = Some t"
    and alive: "remembered_alive si E (et_records_path t) (created_path wh name key (run_token si dup)) w = Inr (Some n)"
  shows "ok (st_world (fst (create_entity digest si type args name dup key phase cache st)))
     \<and> numbers (et_records_path t) (st_world (fst (create_entity digest si type args name dup key phase cache st)))
       = numbers (et_records_path t) (st_world st)
     \<and> remembered_alive si E (et_records_path t) (created_path wh name key (run_token si dup))
         (st_world (fst (create_entity digest si type args name dup key phase cache st))) = Inr (Some n)"
proof -
  let ?rp = "et_records_path t" and ?path = "created_path wh name key (run_token si dup)"
  have types: "ok w" "view w = view (st_world st)" "sited si E"
    using types_keep [OF ok _ _ E(1)] si by (auto simp: site_on_def quiet_sink_def)
  let ?P = "\<lambda>u. ok u \<and> numbers ?rp u = numbers ?rp (st_world st) \<and> remembered_alive si E ?rp ?path u = Inr (Some n)"
  have start: "?P w" using types alive by (simp add: record_numbers_def)
  have keep: "?P u'" if "?P u" "keeps u u'" for u u'
    using that keeps_remembers [OF types(3) _ that(2), of ?path ?rp] numbers_kept [OF that(2)] by (simp add: keeps_def)
  have journal: "?P u'" if "?P u" "wf_write_record wh u p j = Inr u'" "\<not> ends_md p" "?path \<noteq> p" for u u' p j
    using that journal_keeps [OF _ that(2,3)] remembered_kept [OF types(3), of u u' ?rp ?path] by simp
  let ?run = "run_nonidempotent digest wh name key phase (create_inputs type args dup (run_token si dup))
      (create_decide si E type ?rp args dup ?path) (create_act si E type ?rp name args dup ?path) cache (at_world st w)"
  have "?P (st_world (fst ?run))"
  proof (rule shell_keeps [where P = ?P])
    show "?P u'" if "?P u" "create_decide si E type ?rp args dup ?path None u = (u', out)" for u u' out
      using keep [OF that(1)] decide_keeps [OF types(3) _ that(2)] that(1) keeps_view by blast
    show "?P u'" if "?P u" "create_act si E type ?rp name args dup ?path v u = (u', out)" for v u u' out
      using keep [OF that(1)] act_once [OF types(3) _ _ created_not_md that(2)] that(1) by blast
    show "?P u'" if "?P u" "wf_write_record wh u (artifact_path wh name key) j = Inr u'" for u u' j
      by (rule journal [OF that artifact_not_md site_paths_apart(1)])
    show "?P u'" if "?P u" "wf_write_record wh u (artifact_path wh name (decide_key key)) j = Inr u'" for u u' j
      by (rule journal [OF that artifact_not_md site_paths_apart(2)])
  qed (use start in simp)
  moreover have "st_world (fst (create_entity digest si type args name dup key phase cache st)) = st_world (fst ?run)"
    using E si by (simp add: create_entity_def Let_def site_on_def split: prod.split)
  ultimately show ?thesis by simp
qed

end

context entity_site
begin

text \<open>A successful action makes no record, or one that the site remembers and returns.\<close>

lemma act_remembers:
  assumes si: "sited si E" and ok: "ok w" and t: "dict_get (es_catalog E) type = Some t" "listed (et_schema t)"
    and "\<not> ends_md path"
    and run: "create_act si E type (et_records_path t) name args dup path v w = (w', Inr res)"
  shows "ok w' \<and> (numbers (et_records_path t) w' = numbers (et_records_path t) w
     \<or> (\<exists>n. n \<notin> numbers (et_records_path t) w \<and> numbers (et_records_path t) w' = insert n (numbers (et_records_path t) w)
          \<and> remembered_alive si E (et_records_path t) path w' = Inr (Some n) \<and> (\<exists>c a. res = entity_result (int n) c a)))"
proof -
  let ?rp = "et_records_path t"
  consider (kept) "keeps w w'"
    | (made) w1 e where "create E type args (si_user si) (si_today si) (si_origin si) w = (w1, Inr e)"
        "si_put si w1 path (JObj [(''number'', JInt (int (en_number e)))]) = (w', Inr ())"
        "res = entity_result (int (en_number e)) True ''create''"
  proof (cases "vd_kind v = ''duplicate''")
    case True
    have "keeps w w'"
      using run True merges_keep [OF si ok] keeps_view [OF ok refl]
      by (auto simp: create_act_def bindS_def retS_def split: sum.splits if_splits prod.splits)
    then show ?thesis by (rule that(1))
  next
    case False
    show ?thesis
    proof (cases "remembered_alive si E ?rp path w")
      case (Inr m)
      show ?thesis
      proof (cases m)
        case None
        obtain w1 r1 where c: "create E type args (si_user si) (si_today si) (si_origin si) w = (w1, r1)" by fastforce
        with run False Inr None obtain e where e: "r1 = Inr e"
          by (cases r1) (simp_all add: create_act_def bindS_def of_store_def)
        obtain w2 r2 where p: "si_put si w1 path (JObj [(''number'', JInt (int (en_number e)))]) = (w2, r2)" by fastforce
        from run False Inr None c e p that(2) show ?thesis
          by (auto simp: create_act_def bindS_def of_store_def retS_def split: sum.splits)
      next
        case (Some n)
        with run False Inr that(1) keeps_view [OF ok refl] show ?thesis by (simp add: create_act_def)
      qed
    qed (use run False in \<open>simp add: create_act_def\<close>)
  qed
  then show ?thesis
  proof cases
    case kept
    with numbers_kept [OF kept] show ?thesis by (simp add: keeps_def)
  next
    case made
    let ?n = "en_number e"
    have E: "es_files E = R" "quiet_sink E view ok" and at: "es_ws E = ws" using si by (simp_all add: site_on_def)
    from creates [OF ok E t, of args "si_user si" "si_today si" "si_origin si"] made(1) have w1: "ok w1"
        "\<forall>m. view w ws (record_path ?rp m) \<noteq> None \<longrightarrow> m < ?n"
        "view w1 = (view w)(ws := (view w ws)(record_path ?rp ?n \<mapsto> render_skeleton args ?n (si_today si) (si_user si) (et_skeleton t),
           counter_path ?rp \<mapsto> dec ?n))"
      by (simp_all add: at)
    have fresh: "?n \<notin> numbers ?rp w" using w1(2) by (auto simp: record_numbers_def)
    have nums: "numbers ?rp w1 = insert ?n (numbers ?rp w)" using w1(3) by (auto simp: record_numbers_def)
    have "put w1 path (JObj [(''number'', JInt (int ?n))]) = (w', Inr ())" using made(2) si by (simp add: site_on_def)
    from put_law [OF w1(1) this] have w': "ok w'"
        "view w' = (view w1)(ws := (view w1 ws)(path \<mapsto> jtext (JObj [(''number'', JInt (int ?n))])))"
      by simp_all
    have "numbers ?rp w' = numbers ?rp w1" using w'(2) assms(5) by (auto simp: record_numbers_def)
    with nums have "numbers ?rp w' = insert ?n (numbers ?rp w)" by simp
    moreover from this have "remembered_alive si E ?rp path w' = Inr (Some ?n)"
      using remembered_view [OF si w'(1), of ?rp path] w'(2) by (simp add: reads_number int_at_def item_of_def py_int_def)
    ultimately show ?thesis using fresh w'(1) made(3) by blast
  qed
qed

lemma mint_remembered:
  assumes si: "sited si (si_entities si)" and ok: "ok (st_world st)"
    and E: "with_types (si_entities si) (st_world st) = (w, Inr E)" "dict_get (es_catalog E) type = Some t" "listed (et_schema t)"
    and run: "create_entity digest si type args name dup key phase cache st = (st', Inr i)"
  shows "ok (st_world st') \<and> (numbers (et_records_path t) (st_world st') = numbers (et_records_path t) (st_world st)
     \<or> (\<exists>n. i = int n \<and> n \<notin> numbers (et_records_path t) (st_world st)
          \<and> numbers (et_records_path t) (st_world st') = insert n (numbers (et_records_path t) (st_world st))
          \<and> remembered_alive si E (et_records_path t) (created_path wh name key (run_token si dup)) (st_world st') = Inr (Some n)))"
proof -
  let ?rp = "et_records_path t" and ?path = "created_path wh name key (run_token si dup)"
  let ?in = "create_inputs type args dup (run_token si dup)"
  let ?dec = "create_decide si E type ?rp args dup ?path" and ?act = "create_act si E type ?rp name args dup ?path"
  have types: "ok w" "view w = view (st_world st)" "sited si E"
    using types_keep [OF ok _ _ E(1)] si by (auto simp: site_on_def quiet_sink_def)
  let ?Q = "\<lambda>u. ok u \<and> numbers ?rp u = numbers ?rp (st_world st)"
  obtain st1 raw where d: "run_step digest wh (decide_step name key phase ?in ?dec cache) (at_world st w) = (st1, Inr raw)"
    using run E(1,2) si
    by (auto simp: create_entity_def Let_def site_on_def run_nonidempotent_def split: prod.splits sum.splits)
  have "?Q (st_world (fst (run_step digest wh (decide_step name key phase ?in ?dec cache) (at_world st w))))"
  proof (rule run_keeps [where P = ?Q])
    show "?Q u'" if "?Q u" "sp_execute (decide_step name key phase ?in ?dec cache) None u = (u', out)" for u u' out
      using that decide_keeps [OF types(3), of u type ?rp args dup ?path None]
      by (auto simp: decide_step_def record_numbers_def split: prod.splits)
    show "?Q u'" if "?Q u" "wf_write_record wh u (step_path wh (decide_step name key phase ?in ?dec cache)) (step_record h r) = Inr u'" for u u' h r
      using that journal_keeps [OF _ that(2)] by (simp add: step_paths)
  qed (use types in \<open>simp_all add: decide_step_def record_numbers_def\<close>)
  then have Q1: "?Q (st_world st1)" using d by simp
  obtain v where v: "to_verdict raw = Inr v"
    using run E(1,2) si d
    by (auto simp: create_entity_def Let_def site_on_def run_nonidempotent_def act_on_def split: prod.splits sum.splits)
  obtain r where a: "run_step digest wh (act_step name key phase ?in raw (?act v) cache) st1 = (st', Inr r)"
      and i: "bindE (to_result r) (\<lambda>r. int_at (nr_fields r) ''number'') = Inr i"
    using run E(1,2) si d v
    by (auto simp: create_entity_def Let_def site_on_def run_nonidempotent_def act_on_def bindE_eq_Inr split: prod.splits sum.splits)
  from run_once [OF _ _ a] consider (skip) "st_world st' = st_world st1"
    | (ran) w1 h res where "?act v (st_world st1) = (w1, Inr res)" "r = result_builtins res"
        "wf_write_record wh w1 (artifact_path wh name key) (step_record h r) = Inr (st_world st')"
    by (auto simp: act_step_def step_path_def bindE_eq_Inr split: prod.splits)
  then show ?thesis
  proof cases
    case skip
    with Q1 show ?thesis by simp
  next
    case ran
    from act_remembers [OF types(3) _ E(2,3) created_not_md ran(1)] Q1 have
      w1: "ok w1" "numbers ?rp w1 = numbers ?rp (st_world st)
       \<or> (\<exists>n. n \<notin> numbers ?rp (st_world st) \<and> numbers ?rp w1 = insert n (numbers ?rp (st_world st))
          \<and> remembered_alive si E ?rp ?path w1 = Inr (Some n) \<and> (\<exists>c a. res = entity_result (int n) c a))" by simp_all
    note j = journal_keeps [OF w1(1) ran(3) artifact_not_md]
    have "remembered_alive si E ?rp ?path (st_world st') = remembered_alive si E ?rp ?path w1"
      by (rule remembered_kept [OF types(3) w1(1) j(1,2) j(3) [OF site_paths_apart(1)]])
    with w1(2) j(1,2) i ran(2) show ?thesis by (auto simp: entity_result_number)
  qed
qed

end


lemma schema_apart:
  "\<not> ends_md (schema_path type)" "schema_path type \<noteq> counter_path rp" "schema_path type \<noteq> created_path wh name key token"
  "schema_path type \<noteq> artifact_path wh name key" "schema_path type \<noteq> artifact_path wh name (decide_key key)"
proof -
  have l: "last (schema_path type) = CHR ''l''" by (simp add: schema_path_def)
  have "last (counter_path rp) = CHR ''q''" and ends: "last (created_path wh name key token) = CHR ''n''"
      "last (artifact_path wh name k) = CHR ''n''" for k
    by (simp_all add: counter_path_def created_path_def artifact_path_def)
  note lasts = l this ends
  show "schema_path type \<noteq> counter_path rp" "schema_path type \<noteq> created_path wh name key token"
      "schema_path type \<noteq> artifact_path wh name key" "schema_path type \<noteq> artifact_path wh name (decide_key key)"
    by (rule notI, drule arg_cong [where f = last], simp add: lasts)+
  show "\<not> ends_md (schema_path type)" by (simp add: ends_md_def schema_path_def)
qed

lemma skeleton_apart:
  assumes "load_type load name raw sk0 = Inr (Some t0, ds0)" "load_type load name raw sk = Inr (Some t, ds)"
  shows "et_schema t = et_schema t0 \<and> et_records_path t = et_records_path t0"
  using assms by (auto simp: load_type_def Let_def bindE_eq_Inr split: sum.splits json.splits)

lemma blob_there:
  "dict_get (foldl (\<lambda>d p. case f p of None \<Rightarrow> d | Some b \<Rightarrow> dict_set p b d) got ps) q = Some x \<Longrightarrow>
     dict_get got q = Some x \<or> f q = Some x"
proof (induction ps arbitrary: got)
  case (Cons p ps)
  from Cons.IH [OF Cons.prems [unfolded foldl.simps]] show ?case by (auto split: option.splits if_splits)
qed simp

lemma loaded_from:
  "load_types load blob present names acc = Inr (types, ds) \<Longrightarrow> dict_get types k = Some t \<Longrightarrow>
     dict_get (fst acc) k = Some t
     \<or> (\<exists>raw sk ds'. dict_get blob (schema_path k) = Some raw \<and> load_type load k raw sk = Inr (Some t, ds'))"
proof (induction names arbitrary: acc)
  case (Cons name names)
  show ?case
  proof (cases "dict_get blob (schema_path name)")
    case None
    with Cons show ?thesis by simp
  next
    case (Some raw)
    then obtain sk et ds1 where l: "load_type load name raw sk = Inr (et, ds1)"
        "load_types load blob present names (case et of None \<Rightarrow> fst acc | Some t \<Rightarrow> dict_set name t (fst acc), snd acc @ ds1) = Inr (types, ds)"
      using Cons.prems(1) by (auto simp: bindE_eq_Inr Let_def)
    from Cons.IH [OF l(2) Cons.prems(2)] show ?thesis
    proof
      assume "dict_get (fst (case et of None \<Rightarrow> fst acc | Some t \<Rightarrow> dict_set name t (fst acc), snd acc @ ds1)) k = Some t"
      with l(1) Some show ?thesis by (cases et) (auto split: if_splits)
    qed blast
  qed
qed auto

context entity_site
begin

lemma remembered_any:
  "sited si E \<Longrightarrow> sited si E' \<Longrightarrow> ok w \<Longrightarrow> remembered_alive si E records path w = remembered_alive si E' records path w"
  by (simp add: remembered_view)

lemma called:
  assumes "create_entity digest si type args name dup key phase cache st = (st', Inr i)"
  obtains w E t where "with_types (si_entities si) (st_world st) = (w, Inr E)" "dict_get (es_catalog E) type = Some t"
  using assms by (auto simp: create_entity_def split: prod.splits sum.splits option.splits)

text \<open>A call leaves every file alone that is no record, and neither its counter, its journal nor its memory.\<close>

lemma act_leaves:
  assumes si: "sited si E" and ok: "ok w" and t: "dict_get (es_catalog E) type = Some t" "listed (et_schema t)"
    and q: "\<not> ends_md q" "q \<noteq> path" "q \<noteq> counter_path (et_records_path t)"
    and run: "create_act si E type (et_records_path t) name args dup path v w = (w', out)"
  shows "ok w' \<and> view w' ws q = view w ws q"
proof -
  let ?rp = "et_records_path t"
  have E: "es_files E = R" "quiet_sink E view ok" "es_ws E = ws" using si by (simp_all add: site_on_def)
  obtain w1 e where c: "create E type args (si_user si) (si_today si) (si_origin si) w = (w1, Inr e)" "ok w1"
      "view w1 = (view w)(ws := (view w ws)(record_path ?rp (en_number e) \<mapsto> render_skeleton args (en_number e) (si_today si)
          (si_user si) (et_skeleton t), counter_path ?rp \<mapsto> dec (en_number e)))"
    using creates [OF ok E(1,2) t, of args "si_user si" "si_today si" "si_origin si"] E(3) by auto
  have w1: "view w1 ws q = view w ws q" using c(3) q record_is_md [of ?rp "en_number e"] by auto
  have put: "ok w2 \<and> view w2 ws q = view w ws q" if "si_put si w1 path j = (w2, r2)" for w2 r2 j
    using put_law [OF c(2), of path j w2 r2] that si w1 q by (auto simp: site_on_def split: sum.splits)
  have "keeps w w' \<or> w' = w \<or> (\<exists>r2 j. si_put si w1 path j = (w', r2))"
    using run c(1) merges_keep [OF si ok]
    by (auto simp: create_act_def bindS_def retS_def of_store_def split: sum.splits if_splits prod.splits option.splits)
  with put ok q(1) show ?thesis by (auto simp: keeps_def)
qed

lemma call_leaves:
  assumes si: "sited si (si_entities si)" and ok: "ok (st_world st)"
    and E: "with_types (si_entities si) (st_world st) = (w, Inr E)" "dict_get (es_catalog E) type = Some t" "listed (et_schema t)"
    and q: "\<not> ends_md q" "q \<noteq> counter_path (et_records_path t)" "q \<noteq> created_path wh name key (run_token si dup)"
      "q \<noteq> artifact_path wh name key" "q \<noteq> artifact_path wh name (decide_key key)"
  shows "view (st_world (fst (create_entity digest si type args name dup key phase cache st))) ws q = view (st_world st) ws q"
proof -
  let ?rp = "et_records_path t" and ?path = "created_path wh name key (run_token si dup)"
  have types: "ok w" "view w = view (st_world st)" "sited si E"
    using types_keep [OF ok _ _ E(1)] si by (auto simp: site_on_def quiet_sink_def)
  let ?P = "\<lambda>u. ok u \<and> view u ws q = view (st_world st) ws q"
  have journal: "?P u'" if "?P u" "wf_write_record wh u p j = Inr u'" "q \<noteq> p" for u u' p j
    using that journal_write [OF _ that(2)] by simp
  let ?run = "run_nonidempotent digest wh name key phase (create_inputs type args dup (run_token si dup))
      (create_decide si E type ?rp args dup ?path) (create_act si E type ?rp name args dup ?path) cache (at_world st w)"
  have "?P (st_world (fst ?run))"
  proof (rule shell_keeps [where P = ?P])
    show "?P u'" if "?P u" "create_decide si E type ?rp args dup ?path None u = (u', out)" for u u' out
      using decide_keeps [OF types(3) _ that(2)] that(1) by simp
    show "?P u'" if "?P u" "create_act si E type ?rp name args dup ?path v u = (u', out)" for v u u' out
      using act_leaves [OF types(3) _ E(2,3) q(1,3,2) that(2)] that(1) by simp
    show "?P (st_world (at_world st w))" using types by simp
    show "?P u'" if "?P u" "wf_write_record wh u (artifact_path wh name key) j = Inr u'" for u u' j
      by (rule journal [OF that q(4)])
    show "?P u'" if "?P u" "wf_write_record wh u (artifact_path wh name (decide_key key)) j = Inr u'" for u u' j
      by (rule journal [OF that q(5)])
  qed
  moreover have "st_world (fst (create_entity digest si type args name dup key phase cache st)) = st_world (fst ?run)"
    using E si by (simp add: create_entity_def Let_def site_on_def split: prod.split)
  ultimately show ?thesis by simp
qed

text \<open>The catalog's type is the one its schema describes, whatever else the item has.\<close>

lemma schema_types:
  assumes "ok u" "es_files E0 = R" "es_ws E0 = ws" "with_types E0 u = (w, Inr E)" "dict_get (es_catalog E) type = Some t"
  shows "\<exists>raw sk ds. view u ws (schema_path type) = Some raw \<and> load_type (es_load E0) type raw sk = Inr (Some t, ds)"
proof -
  from assms(2-4) obtain names present paths w1 blob ds where
    b: "read_all_existing R ws paths [] u = (w1, Inr blob)"
      "load_types (es_load E0) blob present names ([], []) = Inr (es_catalog E, ds)"
    by (auto simp: with_types_def discover_catalog_def Let_def bindE_eq_Inr split: prod.splits sum.splits)
  have "blob = foldl (\<lambda>d p. case view u ws p of None \<Rightarrow> d | Some b \<Rightarrow> dict_set p b d) [] paths"
    using existing_reads [OF assms(1), of ws paths "[]"] b(1) by auto
  then have blob: "dict_get blob p = Some x \<Longrightarrow> view u ws p = Some x" for p x
    using blob_there [of "view u ws" "[]" paths p x] by simp
  obtain raw sk ds' where "dict_get blob (schema_path type) = Some raw" "load_type (es_load E0) type raw sk = Inr (Some t, ds')"
    using loaded_from [OF b(2) assms(5)] by auto
  with blob show ?thesis by blast
qed

lemma calls_mint_one:
  assumes si: "sited si (si_entities si)"
    and schema: "load_type (es_load (si_entities si)) type raw sk0 = Inr (Some t0, ds0)" "listed (et_schema t0)"
    and mem: "mem = remembered_alive si (si_entities si) (et_records_path t0) (created_path wh name key (run_token si dup))"
  shows "ok (st_world st) \<Longrightarrow> view (st_world st) ws (schema_path type) = Some raw \<Longrightarrow>
      numbers (et_records_path t0) (st_world st) = S
        \<or> (\<exists>n. numbers (et_records_path t0) (st_world st) = insert n S \<and> mem (st_world st) = Inr (Some n)) \<Longrightarrow>
      site_calls digest si type name dup key calls st = Some st' \<Longrightarrow>
      numbers (et_records_path t0) (st_world st') = S \<or> (\<exists>n. numbers (et_records_path t0) (st_world st') = insert n S)"
proof (induction calls arbitrary: st)
  case (Cons c calls)
  let ?rp = "et_records_path t0"
  obtain args phase cache where c: "c = (args, phase, cache)" by (cases c) auto
  obtain st1 i where run: "create_entity digest si type args name dup key phase cache st = (st1, Inr i)"
      and rest: "site_calls digest si type name dup key calls st1 = Some st'"
    using Cons.prems(4) c by (auto split: prod.splits sum.splits)
  obtain w E t where E: "with_types (si_entities si) (st_world st) = (w, Inr E)" "dict_get (es_catalog E) type = Some t"
    using called [OF run] .
  have at: "es_files (si_entities si) = R" "es_ws (si_entities si) = ws" using si by (simp_all add: site_on_def)
  obtain sk ds where "load_type (es_load (si_entities si)) type raw sk = Inr (Some t, ds)"
    using schema_types [OF Cons.prems(1) at E] Cons.prems(2) by auto
  from skeleton_apart [OF schema(1) this] schema(2) have t: "listed (et_schema t)" "et_records_path t = ?rp" by simp_all
  have w: "ok w" "view w = view (st_world st)" "sited si E"
    using types_keep [OF Cons.prems(1) _ _ E(1)] si by (auto simp: site_on_def quiet_sink_def)
  have same: "remembered_alive si E rp path u = remembered_alive si (si_entities si) rp path u" if "ok u" for rp path u
    by (rule remembered_any [OF w(3) si that])
  have at_w: "mem w = mem (st_world st)"
    unfolding mem by (rule remembered_kept [OF si Cons.prems(1) w(1)]) (simp_all add: record_numbers_def w(2))
  have next_schema: "view (st_world st1) ws (schema_path type) = Some raw"
    using call_leaves [OF si Cons.prems(1) E t(1) schema_apart, where digest = digest and args = args and phase = phase
        and cache = cache and name = name and key = key and dup = dup] run Cons.prems(2) by simp
  from Cons.prems(3) have "ok (st_world st1) \<and> (numbers ?rp (st_world st1) = S
      \<or> (\<exists>n. numbers ?rp (st_world st1) = insert n S \<and> mem (st_world st1) = Inr (Some n)))"
  proof (elim disjE exE conjE)
    assume "numbers ?rp (st_world st) = S"
    then show ?thesis
      using mint_remembered [OF si Cons.prems(1) E t(1) run] t(2) same mem by auto
  next
    fix n assume n: "numbers ?rp (st_world st) = insert n S" "mem (st_world st) = Inr (Some n)"
    then have "remembered_alive si E ?rp (created_path wh name key (run_token si dup)) w = Inr (Some n)"
      using at_w same [OF w(1)] mem by simp
    from mints_no_second [OF si Cons.prems(1) E, unfolded t(2), OF this, of digest args phase cache] run n same mem
    show ?thesis by auto
  qed
  with Cons.IH [OF _ next_schema _ rest] show ?case by blast
qed auto

end

end
