(* ===== verification/EntitySites.thy ===== *)
theory EntitySites
  imports EntityCaps
begin

text \<open>
  What the entity capabilities of a workflow promise: the contract \<open>entity_site\<close> on the memory
  store, and the properties of \<open>create_entity\<close> and \<open>update_entity\<close>.
\<close>

section \<open>On the memory store\<close>

text \<open>A handle over the memory store, with a reader for the one text a site reads back.\<close>

definition number_text :: "string \<Rightarrow> step_exn + json" where
  "number_text t =
     (let d = takeWhile digit_char (drop 11 t)
      in if d = [] then Inl (Raised ''JSONDecodeError'') else Inr (JObj [(''number'', JInt (int (digits_value d)))]))"

definition number_file :: "string option \<Rightarrow> step_exn + json" where
  "number_file f = (case f of None \<Rightarrow> Inl (Raised ''FileNotFound'') | Some t \<Rightarrow> number_text t)"

definition memory_handle :: "string \<Rightarrow> string \<Rightarrow> mem_store handle" where
  "memory_handle ws dir = \<lparr>wf_journal_dir = dir,
     wf_exists = (\<lambda>w p. mem_exists ws p w),
     wf_read_json = (\<lambda>w p. number_file (mem_view w ws p)),
     wf_write_record = (\<lambda>w p j. Inr (fst (mem_write ws p (dumps j) w)))\<rparr>"

definition memory_put :: "string \<Rightarrow> mem_store \<Rightarrow> string \<Rightarrow> json \<Rightarrow> mem_store \<times> (step_exn + unit)" where
  "memory_put ws w p j = (fst (mem_write ws p (dumps j) w), Inr ())"

lemma number_read_back: "number_text (dumps (JObj [(''number'', JInt (int n))])) = Inr (JObj [(''number'', JInt (int n))])"
proof -
  have "json_string ''number'' = CHR 0x22 # ''number'' @ [CHR 0x22]" by code_simp
  then have "drop 11 (dumps (JObj [(''number'', JInt (int n))])) = dec n @ ''}''"
    by (simp add: dumps_def json_int_def)
  moreover have "takeWhile digit_char (dec n @ ''}'') = dec n"
    using dec_digits [of n] by (subst takeWhile_append2) (auto simp: digit_char_def)
  ultimately show ?thesis using dec_digits [of n] by (simp add: number_text_def digits_value_dec)
qed

interpretation desk_site: entity_site memory mem_view mem_ok ws "memory_handle ws dir" "memory_put ws" dumps number_file
proof
  fix w w' :: mem_store and p j out n assume ok: "mem_ok w"
  note law = mem.write_law [OF ok, of ws p "dumps j"]
  have w1: "mem_ok (fst (mem_write ws p (dumps j) w))
      \<and> mem_view (fst (mem_write ws p (dumps j) w)) = (mem_view w)(ws := (mem_view w ws)(p \<mapsto> dumps j))"
    using law by (auto simp: memory_def)
  show "wf_exists (memory_handle ws dir) w p \<longleftrightarrow> mem_view w ws p \<noteq> None"
    using mem.exists_law [OF ok, of ws p] by (simp add: memory_handle_def memory_def)
  show "wf_read_json (memory_handle ws dir) w p = number_file (mem_view w ws p)"
    by (simp add: memory_handle_def)
  show "mem_ok w' \<and> mem_view w' = (mem_view w)(ws := (mem_view w ws)(p \<mapsto> dumps j))"
    if "wf_write_record (memory_handle ws dir) w p j = Inr w'"
    using that w1 by (auto simp: memory_handle_def)
  show "mem_ok w' \<and> mem_view w' = (case out of Inl e \<Rightarrow> mem_view w | Inr u \<Rightarrow> (mem_view w)(ws := (mem_view w ws)(p \<mapsto> dumps j)))"
    if "memory_put ws w p j = (w', out)"
    using that w1 by (auto simp: memory_put_def)
next
  fix n show "number_file (Some (dumps (JObj [(''number'', JInt (int n))]))) = Inr (JObj [(''number'', JInt (int n))])"
    by (simp add: number_file_def number_read_back)
qed

section \<open>Properties\<close>


definition task_site :: "(mem_store, rat) site" where
  "task_site = \<lparr>si_handle = memory_handle ''ws'' ''/.workflow/w'', si_put = memory_put ''ws'', si_ask = None,
     si_entities = desk\<lparr>es_catalog := [], es_load := get_pair\<rparr>, si_user = ''ann'', si_today = ''now'',
     si_origin = None, si_run_id = ''r1'', si_mark = [], si_float = (\<lambda>v. None), si_shown = (\<lambda>x. JNull)\<rparr>"







lemma merged_get:
  "dict_ok patch \<Longrightarrow> dict_get (merged flds patch) k = (case dict_get patch k of Some v \<Rightarrow> Some v | None \<Rightarrow> dict_get flds k)"
proof (induction patch arbitrary: flds)
  case (Cons kv patch)
  obtain l v where kv: "kv = (l, v)" by fastforce
  with Cons.prems have d: "dict_ok patch" "dict_get patch l = None" by (auto simp: dict_get_eq_None)
  have "merged flds (kv # patch) = merged (dict_set l v flds) patch" by (simp add: merged_def kv)
  with Cons.IH [OF d(1), of "dict_set l v flds"] d(2) show ?case by (auto simp: kv split: option.split)
qed (simp add: merged_def)

lemma cross_patch_get:
  "dict_get (cross_patch flds args) k =
     (if truthy (case dict_get flds k of None \<Rightarrow> JNull | Some u \<Rightarrow> u) then None else dict_get args k)"
  by (simp add: cross_patch_def dict_get_filter_key)

text \<open>
  enriching another origin's record never overwrites it: every field that holds something
  keeps its value, the empty ones take the value given for them, and the body changes in the
  workflow's own block alone.
\<close>

theorem cross_merge_fills_only:
  assumes "file_store (es_files E) view ok" "quiet_sink E view ok" "ok w" "dict_get (es_catalog E) type = Some t"
    and "listed (et_schema t)" "view w (es_ws E) (record_path (et_records_path t) n) = Some raw"
    and "parse_with E type t n raw = Inr cur" "dict_ok args"
  shows "\<exists>w' flds. cross_merge si E type name args n w = (w', Inr ())
     \<and> view w' (es_ws E) (record_path (et_records_path t) n)
         = Some (serialize_entity (es_dump E) flds
             (replace_fenced_block (en_body cur) name (render_contribution (si_mark si) name args)))
     \<and> (\<forall>k u. dict_get (en_fields cur) k = Some u \<longrightarrow> truthy u \<longrightarrow> dict_get flds k = Some u)
     \<and> (\<forall>k v. dict_get args k = Some v \<longrightarrow> \<not> truthy (case dict_get (en_fields cur) k of None \<Rightarrow> JNull | Some u \<Rightarrow> u) \<longrightarrow>
           dict_get flds k = Some v)"
proof -
  let ?body = "replace_fenced_block (en_body cur) name (render_contribution (si_mark si) name args)"
  let ?patch = "cross_patch (en_fields cur) args"
  obtain w1 where w1: "get_entity E type n w = (w1, Inr cur)" "ok w1" "view w1 = view w"
    using file_store.reads_back [OF assms(1,3) refl assms(4,6)] assms(7) by auto
  have "view w1 (es_ws E) (record_path (et_records_path t) n) = Some raw" using w1(3) assms(6) by simp
  from file_store.updates [OF assms(1) w1(2) refl assms(2,4,5) this assms(7), of "Some (en_version cur)" ?patch "Some ?body"
      "si_user si" "si_origin si"] obtain w2 e where
    w2: "update E type n ?patch (Some (en_version cur)) (Some ?body) (si_user si) (si_origin si) w1 = (w2, Inr e)"
      "view w2 (es_ws E) (record_path (et_records_path t) n) = Some (serialize_entity (es_dump E) (merged (en_fields cur) ?patch) ?body)"
    by auto
  have "dict_ok ?patch" using assms(8) by (simp add: cross_patch_def)
  from merged_get [OF this] have flds: "dict_get (merged (en_fields cur) ?patch) k =
      (case dict_get ?patch k of Some v \<Rightarrow> Some v | None \<Rightarrow> dict_get (en_fields cur) k)" for k .
  have "cross_merge si E type name args n w = (w2, Inr ())"
    using w1(1) w2(1) by (simp add: cross_merge_def bindS_def of_store_def retS_def)
  moreover have "\<forall>k u. dict_get (en_fields cur) k = Some u \<longrightarrow> truthy u \<longrightarrow> dict_get (merged (en_fields cur) ?patch) k = Some u"
    by (simp add: flds cross_patch_get)
  moreover have "\<forall>k v. dict_get args k = Some v \<longrightarrow> \<not> truthy (case dict_get (en_fields cur) k of None \<Rightarrow> JNull | Some u \<Rightarrow> u) \<longrightarrow>
           dict_get (merged (en_fields cur) ?patch) k = Some v"
    by (simp add: flds cross_patch_get)
  ultimately show ?thesis using w2(2) by blast
qed

theorem cross_merge_fills_only_witness:
  "\<exists>w' flds. cross_merge task_site desk ''task'' ''triage'' [(''title'', JStr ''leak''), (''owner'', JStr ''bob'')] 1 one_file = (w', Inr ())
     \<and> dict_get flds ''title'' = Some (JStr ''pump'') \<and> dict_get flds ''owner'' = Some (JStr ''bob'')
     \<and> mem_view w' ''ws'' ''/tasks/1.md'' = Some (serialize_entity title_dump flds
          (replace_fenced_block ''It leaks.'' ''triage''
             (render_contribution [] ''triage'' [(''title'', JStr ''leak''), (''owner'', JStr ''bob'')])))"
proof -
  have t: "dict_get (es_catalog desk) ''task'' = Some task_type" and l: "listed (et_schema task_type)"
    by (simp_all add: listed_def)
  have a: "dict_ok [(''title'', JStr ''leak''), (''owner'', JStr ''bob'')]" by (simp add: dict_ok_def)
  have p: "record_path (et_records_path task_type) 1 = ''/tasks/1.md''" by code_simp
  have f: "en_fields pump = [(''title'', JStr ''pump'')]" "en_body pump = ''It leaks.''" "es_dump desk = title_dump"
      "si_mark task_site = []" by (simp_all add: pump_def desk_def task_site_def)
  from cross_merge_fills_only [OF mem_at desk_fine(2) one_file_ok t l pump_there pump_parsed a, of task_site "''triage''"]
  obtain w' flds where w': "cross_merge task_site desk ''task'' ''triage'' [(''title'', JStr ''leak''), (''owner'', JStr ''bob'')] 1 one_file = (w', Inr ())"
      "mem_view w' ''ws'' ''/tasks/1.md'' = Some (serialize_entity title_dump flds
          (replace_fenced_block ''It leaks.'' ''triage''
             (render_contribution [] ''triage'' [(''title'', JStr ''leak''), (''owner'', JStr ''bob'')])))"
      "\<forall>k u. dict_get [(''title'', JStr ''pump'')] k = Some u \<longrightarrow> truthy u \<longrightarrow> dict_get flds k = Some u"
      "\<forall>k v. dict_get [(''title'', JStr ''leak''), (''owner'', JStr ''bob'')] k = Some v \<longrightarrow>
         \<not> truthy (case dict_get [(''title'', JStr ''pump'')] k of None \<Rightarrow> JNull | Some u \<Rightarrow> u) \<longrightarrow> dict_get flds k = Some v"
    unfolding p f desk_simps(3) by blast
  have "dict_get flds ''title'' = Some (JStr ''pump'')" using w'(3) by (simp add: truthy_def)
  moreover have "dict_get flds ''owner'' = Some (JStr ''bob'')" using w'(4) by (simp add: truthy_def)
  ultimately show ?thesis using w'(1,2) by blast
qed

text \<open>
  an update that returns was applied to the newest content: whatever other writers did
  between its readings and its writes, the record ends as the patch merged into what the last of
  them left, and no other file changes.
\<close>

theorem update_applies_to_latest:
  assumes "file_store (es_files E) view ok" "quiet_sink E view ok" "dict_get (es_catalog E) type = Some t"
    and "listed (et_schema t)" "\<forall>k u. ok u \<longrightarrow> ok (others k u)"
  shows "ok w \<Longrightarrow> update_tries si E others type n patch k w = (w', Inr r) \<Longrightarrow>
     \<exists>j w1 raw cur. view (others j w1) (es_ws E) (record_path (et_records_path t) n) = Some raw
       \<and> parse_with E type t n raw = Inr cur
       \<and> view w' = (view (others j w1))(es_ws E := (view (others j w1) (es_ws E))(record_path (et_records_path t) n
           \<mapsto> serialize_entity (es_dump E) (merged (en_fields cur) patch) (en_body cur)))"
proof (induction k arbitrary: w)
  case (Suc k)
  obtain w1 current where g: "get_entity E type n w = (w1, Inr current)"
    using Suc.prems(2) by (auto split: prod.splits sum.splits)
  have w1: "ok w1" using file_store.get_keeps [OF assms(1) Suc.prems(1) refl g] by blast
  let ?u = "others k w1" and ?p = "record_path (et_records_path t) n"
  have u: "ok ?u" using assms(5) w1 by blast
  obtain w2 out where up: "update E type n patch (Some (en_version current)) None (si_user si) (si_origin si) ?u = (w2, out)"
    by fastforce
  have w2: "ok w2" using file_store.update_keeps [OF assms(1) u refl assms(2) up] file_store.keeps_def [OF assms(1)] by blast
  show ?case
  proof (cases out)
    case (Inl e)
    then obtain m where "e = Conflict m" "update_tries si E others type n patch k w2 = (w', Inr r)"
      using Suc.prems(2) g up by (auto split: ent_exn.splits)
    from Suc.IH [OF w2 this(2)] show ?thesis .
  next
    case (Inr e)
    then have w': "w' = w2" using Suc.prems(2) g up by simp
    obtain raw where raw: "view ?u (es_ws E) ?p = Some raw"
    proof (cases "view ?u (es_ws E) ?p")
      case None
      obtain s r1 where r1: "fr_read (es_files E) (es_ws E) ?p ?u = (s, r1)" by fastforce
      with file_store.reads [OF assms(1) u r1] None up Inr assms(3) show ?thesis
        by (auto simp: update_def bindS_def type_of_def on_files_def Let_def)
    qed
    obtain cur where cur: "parse_with E type t n raw = Inr cur"
      using parse_returns [OF assms(4)] unfolding parse_with_def by blast
    have "Some (en_version current) = None \<or> Some (en_version current) = Some (en_version cur)"
    proof (rule ccontr)
      assume "\<not> ?thesis"
      then have "en_version current \<noteq> en_version cur" by blast
      from file_store.refuses [OF assms(1) u refl assms(3) raw cur this, of patch None "si_user si" "si_origin si"] up Inr
      show False by simp
    qed
    from file_store.updates [OF assms(1) u refl assms(2-4) raw cur this, of patch None "si_user si" "si_origin si"] up w'
    have "view w' = (view ?u)(es_ws E := (view ?u (es_ws E))(?p
           \<mapsto> serialize_entity (es_dump E) (merged (en_fields cur) patch) (en_body cur)))" by auto
    with raw cur show ?thesis by blast
  qed
qed simp

definition meanwhile :: "nat \<Rightarrow> mem_store \<Rightarrow> mem_store" where
  "meanwhile k w = (if k = Suc 0 then fst (mem_write ''ws'' ''/tasks/1.md'' ''It drips.'' w) else w)"

theorem update_applies_to_latest_witness:
  "\<exists>w' r j w1 raw cur. update_tries task_site desk meanwhile ''task'' 1 [(''title'', JStr ''seal'')] (Suc (Suc 0)) one_file = (w', Inr r)
     \<and> parse_with desk ''task'' task_type 1 raw = Inr cur
     \<and> mem_view (meanwhile j w1) (es_ws desk) (record_path (et_records_path task_type) 1) = Some raw
     \<and> mem_view w' (es_ws desk) (record_path (et_records_path task_type) 1)
         = Some (serialize_entity (es_dump desk) (merged (en_fields cur) [(''title'', JStr ''seal'')]) (en_body cur))"
proof -
  let ?call = "update_tries task_site desk meanwhile ''task'' 1 [(''title'', JStr ''seal'')] (Suc (Suc 0)) one_file"
  have "case snd ?call of Inl e \<Rightarrow> False | Inr r \<Rightarrow> True" by code_simp
  then obtain w' r where c: "?call = (w', Inr r)" by (cases ?call) (auto split: sum.splits)
  have t: "dict_get (es_catalog desk) ''task'' = Some task_type" and l: "listed (et_schema task_type)"
    by (simp_all add: listed_def)
  have "mem_ok (meanwhile k u)" if "mem_ok u" for k u
    using that mem.write_law [OF that, of "''ws''" "''/tasks/1.md''" "''It drips.''"] by (auto simp: meanwhile_def memory_def)
  then have others: "\<forall>k u. mem_ok u \<longrightarrow> mem_ok (meanwhile k u)" by blast
  from update_applies_to_latest [OF mem_at desk_fine(2) t l others one_file_ok c] obtain j w1 raw cur where
    u: "mem_view (meanwhile j w1) (es_ws desk) (record_path (et_records_path task_type) 1) = Some raw"
      "parse_with desk ''task'' task_type 1 raw = Inr cur"
      "mem_view w' = (mem_view (meanwhile j w1))(es_ws desk := (mem_view (meanwhile j w1) (es_ws desk))
         (record_path (et_records_path task_type) 1
           \<mapsto> serialize_entity (es_dump desk) (merged (en_fields cur) [(''title'', JStr ''seal'')]) (en_body cur)))"
    by (elim exE conjE) (rule that)
  from u(3) have "mem_view w' (es_ws desk) (record_path (et_records_path task_type) 1)
      = Some (serialize_entity (es_dump desk) (merged (en_fields cur) [(''title'', JStr ''seal'')]) (en_body cur))"
    by (simp only: fun_upd_same)
  with c u(1,2) show ?thesis by (intro exI conjI)
qed

text \<open>
  the memory of a site is a bare number: a site that made record \<open>n\<close> of one type, called with
  another type, takes the record with that number there for its own and writes its fields over
  it, whoever made it.
\<close>

theorem remembered_number_is_typeless:
  assumes "entity_site R view ok ws wh put jtext jread" "site_on R view ok ws wh put si E" "ok w"
    and "dict_get (es_catalog E) type = Some t" "listed (et_schema t)" "on_duplicate \<noteq> ''skip''"
    and "view w ws path = Some (jtext (JObj [(''number'', JInt (int n))]))"
    and "view w ws (record_path (et_records_path t) n) = Some raw" "parse_with E type t n raw = Inr cur"
  shows "create_decide si E type (et_records_path t) args on_duplicate path fb w = (w, Inr (duplicate_of n ''self''))
     \<and> (\<exists>w'. create_act si E type (et_records_path t) name args on_duplicate path (duplicate_of n ''self'') w
          = (w', Inr (entity_result (int n) False ''merge''))
        \<and> view w' ws (record_path (et_records_path t) n)
            = Some (serialize_entity (es_dump E) (merged (en_fields cur) args) (en_body cur)))"
proof -
  have E: "es_files E = R" "es_ws E = ws" "quiet_sink E view ok" using assms(2) by (simp_all add: site_on_def)
  have fs: "file_store R view ok" using assms(1) by (simp add: entity_site_def)
  have "n \<in> record_numbers view ws (et_records_path t) w" using assms(8) by (simp add: record_numbers_def)
  then have "remembered_alive si E (et_records_path t) path w = Inr (Some n)"
    using entity_site.remembered_view [OF assms(1,2,3), of "et_records_path t" path] assms(7)
    by (simp add: entity_site.reads_number [OF assms(1)] int_at_def item_of_def py_int_def)
  then have "create_decide si E type (et_records_path t) args on_duplicate path fb w = (w, Inr (duplicate_of n ''self''))"
    by (simp add: create_decide_def)
  moreover obtain w1 where w1: "get_entity E type n w = (w1, Inr cur)" "ok w1" "view w1 = view w"
    using file_store.reads_back [OF fs assms(3) E(1) assms(4), of n raw] assms(8,9) E(2) by auto
  moreover obtain w2 e where
    w2: "update E type n args (Some (en_version cur)) None (si_user si) (si_origin si) w1 = (w2, Inr e)"
      "view w2 ws (record_path (et_records_path t) n) = Some (serialize_entity (es_dump E) (merged (en_fields cur) args) (en_body cur))"
    using file_store.updates [OF fs w1(2) E(1,3) assms(4,5) _ assms(9), of "Some (en_version cur)" args None "si_user si" "si_origin si"]
      w1(3) assms(8) E(2) by auto
  ultimately show ?thesis
    using assms(6)
    by (simp add: create_act_def duplicate_of_def int_at_def item_of_def py_int_def self_merge_def bindS_def of_store_def retS_def)
qed

definition two_files :: mem_store where
  "two_files = \<lparr>mm_files = [(''ws'', [(''/tasks/1.md'', pump_file),
     (''/.workflow/w/step_file/main.created.json'', dumps (JObj [(''number'', JInt (int 1))]))])], mm_dirs = []\<rparr>"

theorem remembered_number_is_typeless_witness:
  "\<exists>w'. create_act task_site desk ''task'' (et_records_path task_type) ''file'' [(''title'', JStr ''seal'')] ''update''
        ''/.workflow/w/step_file/main.created.json'' (duplicate_of 1 ''self'') two_files
      = (w', Inr (entity_result 1 False ''merge''))
     \<and> mem_view w' ''ws'' (record_path (et_records_path task_type) 1)
         = Some (serialize_entity (es_dump desk) (merged (en_fields pump) [(''title'', JStr ''seal'')]) (en_body pump))"
proof -
  have t: "dict_get (es_catalog desk) ''task'' = Some task_type" and l: "listed (et_schema task_type)"
    by (simp_all add: listed_def)
  have on: "site_on memory mem_view mem_ok ''ws'' (memory_handle ''ws'' ''/.workflow/w'') (memory_put ''ws'') task_site desk"
    by (simp add: site_on_def task_site_def quiet_sink_def)
  have ok: "mem_ok two_files" by (simp add: mem_ok_def two_files_def files_of_def)
  have "''update'' \<noteq> ''skip''" by simp
  moreover have "mem_view two_files ''ws'' ''/.workflow/w/step_file/main.created.json'' = Some (dumps (JObj [(''number'', JInt (int 1))]))"
    by (simp add: mem_view_def two_files_def files_of_def)
  moreover have "record_path (et_records_path task_type) 1 = ''/tasks/1.md''" by code_simp
  then have "mem_view two_files ''ws'' (record_path (et_records_path task_type) 1) = Some pump_file"
    by (simp add: mem_view_def two_files_def files_of_def)
  ultimately show ?thesis
    using remembered_number_is_typeless [OF desk_site.entity_site_axioms on ok t l _ _ _ pump_parsed] by fastforce
qed

text \<open>\<open>write_json\<close> when the item has no space left.\<close>

definition refused_put :: "mem_store \<Rightarrow> string \<Rightarrow> json \<Rightarrow> mem_store \<times> (step_exn + unit)" where
  "refused_put w p j = (w, Inl (Raised ''QuotaExceeded''))"

lemma full_site: "entity_site memory mem_view mem_ok ws (memory_handle ws dir) refused_put dumps number_file"
  using desk_site.journal_exists desk_site.journal_read desk_site.journal_write desk_site.reads_number
  by unfold_locales (auto simp: refused_put_def)

text \<open>
  a site that could not write down what it made has an orphan: when the disk quota refuses
  \<open>created.json\<close>, the call fails although the record is there, and the site remembers nothing,
  so that the next call makes another.
\<close>

theorem refused_memory_orphans_record:
  assumes "entity_site R view ok ws wh put jtext jread" "site_on R view ok ws wh put si E" "ok w"
    and "dict_get (es_catalog E) type = Some t" "listed (et_schema t)" "vd_kind v \<noteq> ''duplicate''"
    and "view w ws path = None" "path \<noteq> counter_path (et_records_path t)" "\<not> ends_md path"
    and "\<forall>u j. put u path j = (u, Inl e)"
  shows "\<exists>w' n. create_act si E type (et_records_path t) name args on_duplicate path v w = (w', Inl e)
     \<and> n \<notin> record_numbers view ws (et_records_path t) w
     \<and> record_numbers view ws (et_records_path t) w' = insert n (record_numbers view ws (et_records_path t) w)
     \<and> remembered_alive si E (et_records_path t) path w' = Inr None"
proof -
  have E: "es_files E = R" "es_ws E = ws" "quiet_sink E view ok" "si_put si = put" using assms(2) by (simp_all add: site_on_def)
  have fs: "file_store R view ok" using assms(1) by (simp add: entity_site_def)
  have none: "remembered_alive si E (et_records_path t) path w = Inr None"
    using entity_site.remembered_view [OF assms(1-3), of "et_records_path t" path] assms(7) by simp
  from file_store.creates [OF fs assms(3) E(1,3) assms(4,5), of args "si_user si" "si_today si" "si_origin si"] obtain w' en where
    c: "create E type args (si_user si) (si_today si) (si_origin si) w = (w', Inr en)" "ok w'"
      "\<forall>m. view w ws (record_path (et_records_path t) m) \<noteq> None \<longrightarrow> m < en_number en"
      "view w' = (view w)(ws := (view w ws)(record_path (et_records_path t) (en_number en)
           \<mapsto> render_skeleton args (en_number en) (si_today si) (si_user si) (et_skeleton t),
         counter_path (et_records_path t) \<mapsto> dec (en_number en)))"
    unfolding E(2) by blast
  have "record_path (et_records_path t) (en_number en) \<noteq> path" using assms(9) record_is_md by metis
  then have "view w' ws path = None" using c(4) assms(7,8) by simp
  then have "remembered_alive si E (et_records_path t) path w' = Inr None"
    using entity_site.remembered_view [OF assms(1,2) c(2), of "et_records_path t" path] by simp
  moreover have "create_act si E type (et_records_path t) name args on_duplicate path v w = (w', Inl e)"
    using assms(6,10) none c(1) E(4) by (simp add: create_act_def bindS_def of_store_def)
  moreover have "en_number en \<notin> record_numbers view ws (et_records_path t) w" using c(3) by (auto simp: record_numbers_def)
  moreover have "record_numbers view ws (et_records_path t) w' = insert (en_number en) (record_numbers view ws (et_records_path t) w)"
    using c(4) by (auto simp: record_numbers_def)
  ultimately show ?thesis by blast
qed

theorem refused_memory_orphans_record_witness:
  "\<exists>w' n. create_act (task_site\<lparr>si_put := refused_put\<rparr>) desk ''task'' (et_records_path task_type) ''file'' [] ''update''
        ''/main.created.json'' \<lparr>vd_kind = ''new'', vd_payload = JObj []\<rparr> no_files = (w', Inl (Raised ''QuotaExceeded''))
     \<and> n \<in> record_numbers mem_view ''ws'' ''tasks'' w'"
proof -
  have t: "dict_get (es_catalog desk) ''task'' = Some task_type" and l: "listed (et_schema task_type)"
    by (simp_all add: listed_def)
  have on: "site_on memory mem_view mem_ok ''ws'' (memory_handle ''ws'' ''/.workflow/w'') refused_put
      (task_site\<lparr>si_put := refused_put\<rparr>) desk"
    by (simp add: site_on_def task_site_def quiet_sink_def)
  have p: "mem_view no_files ''ws'' ''/main.created.json'' = None" "''/main.created.json'' \<noteq> counter_path (et_records_path task_type)"
      "\<not> ends_md ''/main.created.json''" "\<forall>u j. refused_put u ''/main.created.json'' j = (u, Inl (Raised ''QuotaExceeded''))"
    by (simp_all add: mem_view_def no_files_def files_of_def counter_path_def ends_md_def refused_put_def)
  have k: "vd_kind \<lparr>vd_kind = ''new'', vd_payload = JObj []\<rparr> \<noteq> ''duplicate''" by simp
  from refused_memory_orphans_record [OF full_site on desk_fine(1) t l k p, of "''file''" "[]" "''update''"]
  show ?thesis by auto
qed

end
