(* ===== verification/Repetition.thy ===== *)
theory Repetition
  imports StepJournal "HOL-Library.Sublist"
begin

text \<open>
  The guard against a model that repeats itself for ever: the detector of
  \<open>agent/repetition.py\<close> and the stream middleware of \<open>api/repetition_guard.py\<close>.
  The lemmas show that a scan finds exactly the loops at the end of the text it holds, that the
  buffer stays within its window, and that the guard forwards what it is given and adds at most
  one marker.
\<close>

section \<open>The detector\<close>

record detector_config =
  dc_repeats :: nat
  dc_max_period :: nat
  dc_window :: nat
  dc_min_loop :: nat

definition default_detector :: detector_config where
  "default_detector = \<lparr>dc_repeats = 10, dc_max_period = 800, dc_window = 10000, dc_min_loop = 1200\<rparr>"

record detector =
  dt_buf :: string
  dt_fence :: bool
  dt_ticks :: nat

definition reset :: detector where
  "reset = \<lparr>dt_buf = [], dt_fence = False, dt_ticks = 0\<rparr>"

text \<open>One character through the fence tracker, with whether it toggled a fence.\<close>

definition track_fence :: "detector \<Rightarrow> char \<Rightarrow> detector \<times> bool" where
  "track_fence d ch =
     (if ch = CHR 0x60
      then if dt_ticks d + 1 = 3 then (d\<lparr>dt_ticks := 3, dt_fence := \<not> dt_fence d\<rparr>, True)
           else (d\<lparr>dt_ticks := dt_ticks d + 1\<rparr>, False)
      else (d\<lparr>dt_ticks := 0\<rparr>, False))"

definition feed_char :: "detector \<Rightarrow> char \<Rightarrow> detector" where
  "feed_char d ch =
     (case track_fence d ch of
        (d', True) \<Rightarrow> d'\<lparr>dt_buf := []\<rparr>
      | (d', False) \<Rightarrow> if dt_fence d' then d' else d'\<lparr>dt_buf := dt_buf d' @ [ch]\<rparr>)"

text \<open>How often the last \<open>p\<close> characters stand at the end, from \<open>r\<close> times on.\<close>

function count_back :: "string \<Rightarrow> nat \<Rightarrow> nat \<Rightarrow> nat" where
  "count_back buf p r =
     (if 0 < p \<and> p * (r + 1) \<le> length buf
         \<and> take p (drop (length buf - p * (r + 1)) buf) = drop (length buf - p) buf
      then count_back buf p (r + 1) else r)"
  by pat_completeness auto
termination by (relation "measure (\<lambda>(buf, p, r). Suc (length buf) - p * r)") auto

declare count_back.simps [simp del]

definition is_loop :: "detector_config \<Rightarrow> string \<Rightarrow> nat \<Rightarrow> bool" where
  "is_loop cf buf p \<longleftrightarrow>
     (let r = count_back buf p 1 in dc_repeats cf \<le> r \<and> dc_min_loop cf \<le> r * p)"

definition scan :: "detector_config \<Rightarrow> string \<Rightarrow> step_exn + nat option" where
  "scan cf buf =
     (if dc_repeats cf = 0 then Inl (Raised ''ZeroDivisionError'')
      else Inr (map_option (\<lambda>p. count_back buf p 1 * p)
             (find (is_loop cf buf) [1..<Suc (min (dc_max_period cf) (length buf div dc_repeats cf))])))"

text \<open>\<open>buf[-window:]\<close>, which is all of \<open>buf\<close> for a window of zero.\<close>

definition last_chars :: "nat \<Rightarrow> string \<Rightarrow> string" where
  "last_chars n s = (if n = 0 then s else drop (length s - n) s)"

definition feed :: "detector_config \<Rightarrow> detector \<Rightarrow> string \<Rightarrow> detector \<times> (step_exn + nat option)" where
  "feed cf d delta =
     (let d1 = foldl feed_char d delta;
          d2 = (if dc_window cf < length (dt_buf d1) then d1\<lparr>dt_buf := last_chars (dc_window cf) (dt_buf d1)\<rparr> else d1)
      in (d2, if dt_fence d2 then Inr None else scan cf (dt_buf d2)))"

section \<open>The events of a turn\<close>

datatype metrics_phase = Up | Down | Final

record agent_metrics =
  am_phase :: metrics_phase
  am_prompt_tokens :: int
  am_completion_tokens :: int
  am_elapsed_ms :: int
  am_measured_prompt :: "int option"
  am_measured_completion :: "int option"
  am_generation_ms :: "int option"
  am_model :: "string option"

text \<open>\<open>OtherEvent\<close> stands for the events that neither the guard nor the reducer looks at.\<close>

datatype turn_event =
  MessageDelta string bool
| OutputRetracted nat nat
| ToolStart string string json
| ToolEnd string string string "json option"
| AgentMetrics agent_metrics
| Interjected string int
| RepetitionStopped nat bool
| RunDone
| RunError string "string option" "json option"
| RunCancelled string
| MaxTurnsExceeded nat
| OtherEvent string

section \<open>The guard\<close>

text \<open>The two detectors, for the answer and for the reasoning.\<close>

type_synonym detectors = "detector \<times> detector"

fun guard_event :: "detector_config \<Rightarrow> detectors \<Rightarrow> turn_event \<Rightarrow> detectors \<times> (step_exn + (nat \<times> bool) option)" where
  "guard_event cf ds (ToolStart c n a) = ((reset, reset), Inr None)"
| "guard_event cf ds (OutputRetracted n m) = ((reset, reset), Inr None)"
| "guard_event cf (dc, dr) (MessageDelta txt reasoning) =
     (if reasoning
      then (case feed cf dr txt of (d, out) \<Rightarrow> ((dc, d), map_sum id (map_option (\<lambda>n. (n, True))) out))
      else (case feed cf dc txt of (d, out) \<Rightarrow> ((d, dr), map_sum id (map_option (\<lambda>n. (n, False))) out)))"
| "guard_event cf ds ev = (ds, Inr None)"

text \<open>What comes out, and the error the iteration ended with, if any.\<close>

fun guard_events :: "detector_config \<Rightarrow> detectors \<Rightarrow> turn_event list \<Rightarrow> turn_event list \<times> step_exn option" where
  "guard_events cf ds [] = ([], None)"
| "guard_events cf ds (ev # evs) =
     (case guard_event cf ds ev of
        (ds', Inl e) \<Rightarrow> ([ev], Some e)
      | (ds', Inr (Some (n, channel))) \<Rightarrow> ([ev, RepetitionStopped n channel, RunDone], None)
      | (ds', Inr None) \<Rightarrow> (case guard_events cf ds' evs of (out, e) \<Rightarrow> (ev # out, e)))"

definition guard_repetition :: "detector_config \<Rightarrow> turn_event list \<Rightarrow> turn_event list \<times> step_exn option" where
  "guard_repetition cf evs = guard_events cf (reset, reset) evs"

section \<open>What a scan finds\<close>

text \<open>The text ends with \<open>r\<close> copies of its last \<open>p\<close> characters.\<close>

definition tail_copies :: "string \<Rightarrow> nat \<Rightarrow> nat \<Rightarrow> bool" where
  "tail_copies buf p r \<longleftrightarrow> 0 < p \<and> r * p \<le> length buf
     \<and> drop (length buf - r * p) buf = concat (replicate r (drop (length buf - p) buf))"

definition loops :: "detector_config \<Rightarrow> string \<Rightarrow> nat \<Rightarrow> nat \<Rightarrow> bool" where
  "loops cf buf p r \<longleftrightarrow> p \<le> dc_max_period cf \<and> dc_repeats cf \<le> r \<and> dc_min_loop cf \<le> r * p \<and> tail_copies buf p r"

lemma tail_copies_one: "tail_copies buf p 1 \<longleftrightarrow> 0 < p \<and> p \<le> length buf"
  by (simp add: tail_copies_def)

lemma tail_split:
  assumes "p * Suc r \<le> length buf"
  shows "drop (length buf - Suc r * p) buf = take p (drop (length buf - p * Suc r) buf) @ drop (length buf - r * p) buf"
proof -
  have "length buf - r * p = p + (length buf - Suc r * p)" using assms by (simp add: algebra_simps)
  then have "drop (length buf - r * p) buf = drop p (drop (length buf - Suc r * p) buf)" by (simp add: drop_drop)
  then show ?thesis by (metis append_take_drop_id mult.commute)
qed

lemma tail_copies_Suc:
  "0 < p \<Longrightarrow> tail_copies buf p (Suc r) \<longleftrightarrow>
     p * Suc r \<le> length buf \<and> take p (drop (length buf - p * Suc r) buf) = drop (length buf - p) buf \<and> tail_copies buf p r"
proof -
  assume p: "0 < p"
  let ?k = "take p (drop (length buf - p * Suc r) buf)"
  show ?thesis
  proof (cases "p * Suc r \<le> length buf")
    case True
    have "length ?k = length (drop (length buf - p) buf)" using True by (simp add: algebra_simps)
    moreover have "drop (length buf - Suc r * p) buf = ?k @ drop (length buf - r * p) buf" by (rule tail_split [OF True])
    moreover have "Suc r * p \<le> length buf" "r * p \<le> length buf" using True by (simp_all add: mult.commute)
    ultimately show ?thesis using p True by (simp add: tail_copies_def append_eq_append_conv del: mult_Suc mult_Suc_right)
  next
    case False
    then show ?thesis by (simp add: tail_copies_def mult.commute)
  qed
qed

lemma tail_copies_mono: "tail_copies buf p s \<Longrightarrow> r \<le> s \<Longrightarrow> tail_copies buf p r"
proof (induction s)
  case (Suc s)
  then have "0 < p" by (simp add: tail_copies_def)
  then show ?case using Suc by (cases "r = Suc s") (auto simp: tail_copies_Suc)
qed simp

lemma count_back_greatest:
  assumes "tail_copies buf p r"
  shows "tail_copies buf p (count_back buf p r) \<and> \<not> tail_copies buf p (Suc (count_back buf p r)) \<and> r \<le> count_back buf p r"
  using assms
proof (induction buf p r rule: count_back.induct)
  case (1 buf p r)
  have p: "0 < p" using 1 by (simp add: tail_copies_def)
  show ?case
  proof (cases "tail_copies buf p (Suc r)")
    case True
    then have c: "0 < p \<and> p * (r + 1) \<le> length buf \<and> take p (drop (length buf - p * (r + 1)) buf) = drop (length buf - p) buf"
      using tail_copies_Suc [OF p] p by simp
    have "count_back buf p r = count_back buf p (Suc r)" using c by (subst count_back.simps) simp
    then show ?thesis using 1(1) [OF c] True by simp
  next
    case False
    then have "\<not> (0 < p \<and> p * (r + 1) \<le> length buf \<and> take p (drop (length buf - p * (r + 1)) buf) = drop (length buf - p) buf)"
      using 1(2) p by (auto simp: tail_copies_Suc)
    then have "count_back buf p r = r" by (subst count_back.simps) auto
    then show ?thesis using False 1(2) by simp
  qed
qed

lemma count_back_is_greatest:
  assumes "0 < p" "p \<le> length buf"
  shows "tail_copies buf p r \<longleftrightarrow> r \<le> count_back buf p 1"
  using count_back_greatest [of buf p 1] tail_copies_one [of buf p] tail_copies_mono [of buf p] assms
  by (metis not_less_eq_eq)

lemma loops_within: "0 < dc_repeats cf \<Longrightarrow> loops cf buf p r \<Longrightarrow> 0 < p \<and> p \<le> length buf div dc_repeats cf \<and> p \<le> length buf"
proof -
  assume r0: "0 < dc_repeats cf" and l: "loops cf buf p r"
  have "p * dc_repeats cf \<le> r * p" "r * p \<le> length buf" "0 < p" using l by (auto simp: loops_def tail_copies_def)
  then have "p * dc_repeats cf \<le> length buf" by linarith
  moreover have "p * 1 \<le> p * dc_repeats cf" using r0 by (intro mult_le_mono2) simp
  ultimately have "p \<le> length buf" by linarith
  then show ?thesis using r0 \<open>0 < p\<close> \<open>p * dc_repeats cf \<le> length buf\<close> by (simp add: less_eq_div_iff_mult_less_eq)
qed

lemma is_loop_iff:
  assumes "0 < p" "p \<le> length buf" "p \<le> dc_max_period cf"
  shows "is_loop cf buf p \<longleftrightarrow> (\<exists>r. loops cf buf p r)"
proof
  assume "is_loop cf buf p"
  then have "loops cf buf p (count_back buf p 1)"
    using assms by (simp add: is_loop_def Let_def loops_def count_back_is_greatest)
  then show "\<exists>r. loops cf buf p r" by blast
next
  assume "\<exists>r. loops cf buf p r"
  then obtain r where r: "loops cf buf p r" by blast
  then have k: "r \<le> count_back buf p 1" using assms by (simp add: loops_def count_back_is_greatest)
  have "dc_min_loop cf \<le> r * p" using r by (simp add: loops_def)
  also have "r * p \<le> count_back buf p 1 * p" using k by (rule mult_le_mono1)
  finally show "is_loop cf buf p" using r k by (simp add: is_loop_def Let_def loops_def)
qed

lemma find_first:
  "find P [1..<Suc n] = Some p \<Longrightarrow> P p \<and> 0 < p \<and> p \<le> n \<and> (\<forall>q. 0 < q \<and> q < p \<longrightarrow> \<not> P q)"
  by (auto simp: find_Some_iff nth_upt simp del: upt_Suc) (metis Suc_diff_Suc diff_zero less_Suc_eq_0_disj less_Suc_eq nat_less_le Suc_less_eq Suc_le_eq less_trans_Suc nth_upt plus_1_eq_Suc)

lemma scan_bound: "0 < dc_repeats cf \<Longrightarrow>
   p \<le> min (dc_max_period cf) (length buf div dc_repeats cf) \<Longrightarrow> p \<le> length buf \<and> p \<le> dc_max_period cf"
  using order_trans [OF _ div_le_dividend [of "length buf" "dc_repeats cf"], of p] by simp

text \<open>The whole run of the shortest block that loops.\<close>

definition first_loop :: "detector_config \<Rightarrow> string \<Rightarrow> nat \<Rightarrow> nat \<Rightarrow> bool" where
  "first_loop cf buf p r \<longleftrightarrow> loops cf buf p r \<and> \<not> tail_copies buf p (Suc r) \<and> (\<forall>q s. q < p \<longrightarrow> \<not> loops cf buf q s)"

lemma first_loop_unique:
  assumes "first_loop cf buf p r" "first_loop cf buf q s"
  shows "p = q \<and> r = s"
proof -
  have pq: "p = q" using assms by (meson first_loop_def linorder_neqE_nat)
  have "\<not> r < s" using assms tail_copies_mono [of buf q s "Suc r"] unfolding first_loop_def loops_def pq by auto
  moreover have "\<not> s < r" using assms tail_copies_mono [of buf q r "Suc s"] unfolding first_loop_def loops_def pq by auto
  ultimately show ?thesis using pq by simp
qed

definition scan_spec :: "detector_config \<Rightarrow> string \<Rightarrow> nat option \<Rightarrow> bool" where
  "scan_spec cf buf found \<longleftrightarrow>
     (case found of None \<Rightarrow> \<forall>p r. \<not> loops cf buf p r
      | Some n \<Rightarrow> \<exists>p r. n = r * p \<and> first_loop cf buf p r)"

lemma scan_meets_spec:
  assumes "0 < dc_repeats cf"
  shows "\<exists>found. scan cf buf = Inr found \<and> scan_spec cf buf found"
proof (cases "find (is_loop cf buf) [1..<Suc (min (dc_max_period cf) (length buf div dc_repeats cf))]")
  case None
  have "\<not> loops cf buf p r" for p r
  proof
    assume l: "loops cf buf p r"
    note w = loops_within [OF assms l]
    have m: "p \<le> dc_max_period cf" using l by (simp add: loops_def)
    then have "is_loop cf buf p" using l w is_loop_iff by blast
    moreover have "p \<in> set [1..<Suc (min (dc_max_period cf) (length buf div dc_repeats cf))]" using w m by auto
    ultimately show False using None unfolding find_None_iff by blast
  qed
  then show ?thesis using assms None by (simp add: scan_def scan_spec_def del: upt_Suc)
next
  case (Some p)
  note f = find_first [OF Some]
  note b = scan_bound [OF assms, of p buf]
  have k: "loops cf buf p (count_back buf p 1) \<and> \<not> tail_copies buf p (Suc (count_back buf p 1))"
    using f b count_back_greatest [of buf p 1] tail_copies_one [of buf p]
    by (simp add: is_loop_def Let_def loops_def)
  have "\<not> loops cf buf q s" if q: "q < p" for q s
  proof
    assume l: "loops cf buf q s"
    note w = loops_within [OF assms l]
    have "is_loop cf buf q" using l w is_loop_iff [of q buf cf] by (auto simp: loops_def)
    then show False using f w q by blast
  qed
  then have "scan_spec cf buf (Some (count_back buf p 1 * p))"
    unfolding scan_spec_def first_loop_def option.case using k by blast
  then show ?thesis using assms Some by (simp add: scan_def del: upt_Suc)
qed

lemma scan_finds: "0 < dc_repeats cf \<Longrightarrow> scan cf buf = Inr (Some n) \<Longrightarrow> \<exists>p r. n = r * p \<and> first_loop cf buf p r"
  using scan_meets_spec [of cf buf] by (auto simp: scan_spec_def)

lemma scan_total: "0 < dc_repeats cf \<Longrightarrow> \<exists>found. scan cf buf = Inr found"
  by (simp add: scan_def)

text \<open>C25: a scan reports a loop exactly when one stands at the end of the text: a block of at most
  \<open>max_period\<close> characters, repeated at least \<open>repeats\<close> times and spanning at least
  \<open>min_loop_chars\<close>; the length reported is the whole run of the shortest such block.\<close>

theorem scan_exact:
  assumes "0 < dc_repeats cf"
  shows "(scan cf buf = Inr None \<longleftrightarrow> (\<forall>p r. \<not> loops cf buf p r))
    \<and> (scan cf buf = Inr (Some n) \<longleftrightarrow> (\<exists>p r. n = r * p \<and> first_loop cf buf p r))"
proof -
  obtain found where f: "scan cf buf = Inr found" "scan_spec cf buf found" using scan_meets_spec [OF assms] by blast
  show ?thesis
  proof (cases found)
    case None
    then show ?thesis using f by (auto simp: scan_spec_def first_loop_def)
  next
    case (Some n')
    then obtain p r where w: "n' = r * p" "first_loop cf buf p r" using f by (auto simp: scan_spec_def)
    have same: "n = n'" if "n = s * q \<and> first_loop cf buf q s" for q s
      using that w first_loop_unique by blast
    have "loops cf buf p r" using w by (simp add: first_loop_def)
    then have "\<not> (\<forall>p r. \<not> loops cf buf p r)" by blast
    moreover have "n' = n \<longleftrightarrow> (\<exists>p r. n = r * p \<and> first_loop cf buf p r)" using same w by metis
    ultimately show ?thesis by (simp add: f(1) Some)
  qed
qed

text \<open>A configuration small enough to compute with.\<close>

definition tiny_detector :: detector_config where
  "tiny_detector = \<lparr>dc_repeats = 2, dc_max_period = 3, dc_window = 6, dc_min_loop = 4\<rparr>"

lemma scan_exact_witness:
  "scan tiny_detector ''xabab'' = Inr (Some 4) \<and> (\<exists>p r. (4::nat) = r * p \<and> first_loop tiny_detector ''xabab'' p r)"
proof -
  have v: "scan tiny_detector ''xabab'' = Inr (Some 4)" by code_simp
  have "0 < dc_repeats tiny_detector" by (simp add: tiny_detector_def)
  from scan_exact [OF this, of "''xabab''" 4] show ?thesis using v by blast
qed

section \<open>What a detector holds\<close>

lemma length_last_chars: "length (last_chars n s) \<le> length s \<and> (0 < n \<longrightarrow> length (last_chars n s) \<le> n)"
  by (auto simp: last_chars_def)

lemma suffix_last_chars: "suffix (last_chars n s) s"
  by (simp add: last_chars_def suffix_drop)

lemma loop_fits: "0 < dc_repeats cf \<Longrightarrow> scan cf buf = Inr (Some n) \<Longrightarrow>
   \<exists>block r. dc_repeats cf \<le> r \<and> block \<noteq> [] \<and> n = r * length block \<and> suffix (concat (replicate r block)) buf"
proof -
  assume r0: "0 < dc_repeats cf" and s: "scan cf buf = Inr (Some n)"
  obtain p r where pr: "n = r * p" "loops cf buf p r" using scan_finds [OF r0 s] by (auto simp: first_loop_def)
  let ?b = "drop (length buf - p) buf"
  have w: "0 < p \<and> p \<le> length buf" using loops_within [OF r0 pr(2)] by simp
  have "suffix (concat (replicate r ?b)) buf" using pr(2) suffix_drop [of "length buf - r * p" buf] by (simp add: loops_def tail_copies_def)
  moreover have "?b \<noteq> []" "length ?b = p" using w by auto
  ultimately show ?thesis using pr by (intro exI [of _ ?b] exI [of _ r]) (auto simp: loops_def)
qed

lemma loop_length_positive: "0 < dc_repeats cf \<Longrightarrow> scan cf buf = Inr (Some n) \<Longrightarrow> 0 < n"
  using loop_fits [of cf buf n] by (cases n) (auto dest: less_le_trans)

text \<open>Nothing is kept inside a fence, and what is kept is the end of what was fed.\<close>

definition holds_end :: "detector \<Rightarrow> string \<Rightarrow> bool" where
  "holds_end d txt \<longleftrightarrow> suffix (dt_buf d) txt \<and> (dt_fence d \<longrightarrow> dt_buf d = [])"

lemma holds_end_reset [simp]: "holds_end reset fed"
  by (simp add: holds_end_def reset_def)

lemma feed_char_holds: "holds_end d fed \<Longrightarrow> holds_end (feed_char d c) (fed @ [c])"
  by (auto simp: holds_end_def feed_char_def track_fence_def suffix_def split: if_splits)

lemma feed_chars_hold: "holds_end d fed \<Longrightarrow> holds_end (foldl feed_char d s) (fed @ s)"
proof (induction s arbitrary: d fed)
  case (Cons c s)
  show ?case using Cons.IH [OF feed_char_holds [OF Cons.prems], of c] by simp
qed simp

lemma feed_holds: "holds_end d fed \<Longrightarrow> holds_end (fst (feed cf d s)) (fed @ s)"
  using feed_chars_hold [of d fed s] suffix_order.trans [OF suffix_last_chars, of _ "fed @ s"]
  by (auto simp: feed_def Let_def holds_end_def last_chars_def)

text \<open>after every delta the detector holds at most \<open>window\<close> characters, the end of what it was
  fed since its last reset; a loop it reports lies wholly within them, is at least
  \<open>min_loop_chars\<close> long and at least as long as the number of repeats asked for.\<close>

theorem feed_bounds:
  assumes "0 < dc_window cf" "0 < dc_repeats cf" "holds_end d fed"
  shows "length (dt_buf (fst (feed cf d s))) \<le> dc_window cf
    \<and> suffix (dt_buf (fst (feed cf d s))) (fed @ s)
    \<and> (\<forall>n. snd (feed cf d s) = Inr (Some n) \<longrightarrow>
         dc_min_loop cf \<le> n \<and> dc_repeats cf \<le> n \<and> n \<le> length (dt_buf (fst (feed cf d s))))"
proof -
  have 1: "length (dt_buf (fst (feed cf d s))) \<le> dc_window cf"
    using length_last_chars [of "dc_window cf"] assms(1) by (auto simp: feed_def Let_def)
  have 2: "suffix (dt_buf (fst (feed cf d s))) (fed @ s)" using feed_holds [OF assms(3)] by (simp add: holds_end_def)
  have "dc_min_loop cf \<le> n \<and> dc_repeats cf \<le> n \<and> n \<le> length (dt_buf (fst (feed cf d s)))"
    if "snd (feed cf d s) = Inr (Some n)" for n
  proof -
    let ?b = "dt_buf (fst (feed cf d s))"
    have "scan cf ?b = Inr (Some n)" using that by (auto simp: feed_def Let_def split: if_splits)
    then obtain p r where "n = r * p" "first_loop cf ?b p r" using scan_finds [OF assms(2)] by blast
    then have l: "n = r * p" "loops cf ?b p r" by (simp_all add: first_loop_def)
    have "r * 1 \<le> r * p" using l by (intro mult_le_mono2) (simp add: loops_def tail_copies_def)
    then have "dc_repeats cf \<le> n" using l by (simp only: loops_def) linarith
    moreover have "dc_min_loop cf \<le> n" "n \<le> length ?b" using l by (simp_all add: loops_def tail_copies_def)
    ultimately show ?thesis by blast
  qed
  then show ?thesis using 1 2 by blast
qed

lemma feed_bounds_witness:
  "length (dt_buf (fst (feed tiny_detector reset ''xyzabab''))) \<le> 6
     \<and> snd (feed tiny_detector reset ''xyzabab'') = Inr (Some 4) \<and> (4::nat) \<le> length (dt_buf (fst (feed tiny_detector reset ''xyzabab'')))"
proof -
  have v: "snd (feed tiny_detector reset ''xyzabab'') = Inr (Some 4)" by code_simp
  have p: "0 < dc_window tiny_detector" "0 < dc_repeats tiny_detector" "dc_window tiny_detector = 6" by (simp_all add: tiny_detector_def)
  from feed_bounds [OF p(1,2) holds_end_reset [of "[]"], of "''xyzabab''"] show ?thesis using v p(3) by simp
qed

lemma zero_repeats_raise: "dc_repeats cf = 0 \<Longrightarrow> scan cf buf = Inl (Raised ''ZeroDivisionError'')"
  by (simp add: scan_def)

section \<open>What the guard lets through\<close>

lemma map_sum_is_Inr: "map_sum f g x = Inr y \<longleftrightarrow> (\<exists>z. x = Inr z \<and> g z = y)"
  by (cases x) auto

lemma guard_event_hit:
  "guard_event cf ds ev = (ds', Inr (Some (n, c))) \<Longrightarrow> \<exists>t. ev = MessageDelta t c"
  by (cases "(cf, ds, ev)" rule: guard_event.cases) (auto simp: map_sum_is_Inr split: if_splits prod.splits)

lemma guard_events_shape:
  assumes "guard_events cf ds evs = (out, e)"
  shows "(\<exists>rest. evs = out @ rest \<and> (e = None \<longrightarrow> rest = []))
    \<or> (e = None \<and> (\<exists>pre t n c rest. evs = pre @ MessageDelta t c # rest
                     \<and> out = pre @ [MessageDelta t c, RepetitionStopped n c, RunDone]))"
  using assms
proof (induction evs arbitrary: ds out)
  case (Cons ev evs)
  obtain ds' r where g: "guard_event cf ds ev = (ds', r)" by (cases "guard_event cf ds ev") auto
  consider (err) x where "r = Inl x" | (hit) n c where "r = Inr (Some (n, c))" | (pass) "r = Inr None"
    by (metis option.exhaust sum.exhaust surj_pair)
  then show ?case
  proof cases
    case err
    then show ?thesis using Cons.prems g by auto
  next
    case hit
    then obtain t where "ev = MessageDelta t c" using guard_event_hit g by blast
    then have "ev # evs = [] @ MessageDelta t c # evs \<and> out = [] @ [MessageDelta t c, RepetitionStopped n c, RunDone]" "e = None"
      using Cons.prems g hit by auto
    then show ?thesis by blast
  next
    case pass
    obtain o' where o: "guard_events cf ds' evs = (o', e)" "out = ev # o'"
      using Cons.prems g pass by (auto split: prod.splits)
    from Cons.IH [OF o(1)] show ?thesis
    proof
      assume "\<exists>rest. evs = o' @ rest \<and> (e = None \<longrightarrow> rest = [])"
      then show ?thesis using o(2) by auto
    next
      assume "e = None \<and> (\<exists>pre t n c rest. evs = pre @ MessageDelta t c # rest \<and> o' = pre @ [MessageDelta t c, RepetitionStopped n c, RunDone])"
      then obtain pre t n c rest where "e = None" "ev # evs = (ev # pre) @ MessageDelta t c # rest"
        "out = (ev # pre) @ [MessageDelta t c, RepetitionStopped n c, RunDone]" using o(2) by auto
      then show ?thesis by blast
    qed
  qed
qed simp

text \<open>whatever the stream holds, the guard forwards its events unchanged and in order; it either
  forwards all of them and adds nothing, or stops behind one delta, adding the marker for that
  delta's channel and the end of the run. With a positive number of repeats it never fails.\<close>

theorem guard_forwards:
  assumes "0 < dc_repeats cf"
  shows "\<exists>out. guard_repetition cf evs = (out, None)
    \<and> (out = evs \<or> (\<exists>pre t n c rest. evs = pre @ MessageDelta t c # rest
                     \<and> out = pre @ [MessageDelta t c, RepetitionStopped n c, RunDone]))"
proof -
  have no_error: "\<exists>ds' o'. guard_event cf ds ev = (ds', Inr o')" for ds ev
    using assms by (cases "(cf, ds, ev)" rule: guard_event.cases) (auto simp: feed_def Let_def scan_def)
  have "\<exists>out. guard_events cf ds evs = (out, None)" for ds
  proof (induction evs arbitrary: ds)
    case (Cons ev evs)
    obtain ds' o' where g: "guard_event cf ds ev = (ds', Inr o')" using no_error by blast
    obtain out where "guard_events cf ds' evs = (out, None)" using Cons.IH by blast
    then show ?case using g by (cases o') (auto split: prod.splits)
  qed simp
  then obtain out where "guard_events cf (reset, reset) evs = (out, None)" by blast
  then show ?thesis using guard_events_shape [of cf "(reset, reset)" evs out None] unfolding guard_repetition_def by auto
qed

lemma guard_forwards_witness:
  "guard_repetition tiny_detector [MessageDelta ''xab'' False, MessageDelta ''ab'' False, MessageDelta ''ab'' False]
     = ([MessageDelta ''xab'' False, MessageDelta ''ab'' False, RepetitionStopped 4 False, RunDone], None)
   \<and> (\<exists>out. guard_repetition tiny_detector [RunDone] = (out, None) \<and> out = [RunDone])"
proof -
  have v: "guard_repetition tiny_detector [MessageDelta ''xab'' False, MessageDelta ''ab'' False, MessageDelta ''ab'' False]
     = ([MessageDelta ''xab'' False, MessageDelta ''ab'' False, RepetitionStopped 4 False, RunDone], None)" by code_simp
  have "0 < dc_repeats tiny_detector" by (simp add: tiny_detector_def)
  from guard_forwards [OF this, of "[RunDone]"]
  have "\<exists>out. guard_repetition tiny_detector [RunDone] = (out, None) \<and> out = [RunDone]" by (auto simp: Cons_eq_append_conv)
  then show ?thesis using v by (rule conjI [rotated])
qed

end
