(* ===== verification/TurnReduce.thy ===== *)
theory TurnReduce
  imports Repetition
begin

text \<open>
  What a turn leaves behind: the reducer of \<open>api/turns.py\<close> (\<open>_TurnReducer\<close>), which builds the
  messages a turn keeps from its events, the text a caller gathers instead (\<open>AnswerText\<close> of
  \<open>api/events.py\<close>), and the two composed with the repetition guard.

  The lemmas show that the guard's marker cuts exactly the repetition off the record, that the two
  reducers agree, that every tool result is kept once, and that a turn's metrics are never blanked.
\<close>

section \<open>Messages\<close>

record message_metrics =
  mm_model :: "string option"
  mm_prompt_tokens :: int
  mm_completion_tokens :: int
  mm_measured_prompt :: "int option"
  mm_measured_completion :: "int option"
  mm_elapsed_ms :: int
  mm_generation_ms :: "int option"
  mm_exact :: bool

datatype produced_role = Assistant | Tool | Error | Place

record turn_message =
  tm_role :: produced_role
  tm_content :: string
  tm_reasoning :: "string option"
  tm_tool_call_id :: "string option"
  tm_tool_name :: "string option"
  tm_tool_args :: "json option"
  tm_tool_display :: string
  tm_created_at :: int
  tm_metrics :: "message_metrics option"
  tm_error_kind :: "string option"
  tm_error_params :: "json option"
  tm_failure :: "json option"
  tm_author :: "string option"
  tm_stopped_reason :: "string option"

definition turn_message_of :: "int \<Rightarrow> produced_role \<Rightarrow> string \<Rightarrow> turn_message" where
  "turn_message_of now role content =
     \<lparr>tm_role = role, tm_content = content, tm_reasoning = None, tm_tool_call_id = None, tm_tool_name = None,
      tm_tool_args = None, tm_tool_display = [], tm_created_at = now, tm_metrics = None, tm_error_kind = None,
      tm_error_params = None, tm_failure = None, tm_author = None, tm_stopped_reason = None\<rparr>"

definition or_empty :: "string option \<Rightarrow> string" where
  "or_empty r = (case r of None \<Rightarrow> [] | Some t \<Rightarrow> t)"

definition or_none :: "string \<Rightarrow> string option" where
  "or_none t = (if t = [] then None else Some t)"

text \<open>The text of an answer on one channel.\<close>

definition channel_text :: "bool \<Rightarrow> turn_message \<Rightarrow> string" where
  "channel_text reasoning m = (if reasoning then or_empty (tm_reasoning m) else tm_content m)"

definition extend_answer :: "string \<Rightarrow> bool \<Rightarrow> turn_message \<Rightarrow> turn_message" where
  "extend_answer s reasoning m =
     (if reasoning then m\<lparr>tm_reasoning := Some (or_empty (tm_reasoning m) @ s)\<rparr>
      else m\<lparr>tm_content := tm_content m @ s\<rparr>)"

text \<open>The messages so far, the latest first.\<close>

definition add_assistant :: "int \<Rightarrow> string \<Rightarrow> bool \<Rightarrow> turn_message list \<Rightarrow> turn_message list" where
  "add_assistant now s reasoning produced =
     (case produced of
        m # ms \<Rightarrow> if tm_role m = Assistant then extend_answer s reasoning m # ms
                  else extend_answer s reasoning (turn_message_of now Assistant []) # m # ms
      | [] \<Rightarrow> [extend_answer s reasoning (turn_message_of now Assistant [])])"

definition retract :: "nat \<Rightarrow> nat \<Rightarrow> turn_message \<Rightarrow> turn_message" where
  "retract n k m =
     (let m1 = (if n \<noteq> 0 then m\<lparr>tm_content := take (length (tm_content m) - n) (tm_content m)\<rparr> else m)
      in if k \<noteq> 0 \<and> or_empty (tm_reasoning m1) \<noteq> []
         then m1\<lparr>tm_reasoning := or_none (take (length (or_empty (tm_reasoning m1)) - k) (or_empty (tm_reasoning m1)))\<rparr>
         else m1)"

text \<open>\<open>s[:-n]\<close>, which is empty for \<open>n = 0\<close>.\<close>

definition but_last :: "nat \<Rightarrow> string \<Rightarrow> string" where
  "but_last n s = (if n = 0 then [] else take (length s - n) s)"

definition cut_loop :: "nat \<Rightarrow> bool \<Rightarrow> turn_message \<Rightarrow> turn_message" where
  "cut_loop n reasoning m =
     (if reasoning then m\<lparr>tm_reasoning := or_none (but_last n (or_empty (tm_reasoning m))), tm_stopped_reason := Some ''repetition''\<rparr>
      else m\<lparr>tm_content := but_last n (tm_content m), tm_stopped_reason := Some ''repetition''\<rparr>)"

text \<open>The change of the latest answer, wherever it is.\<close>

fun on_answer :: "(turn_message \<Rightarrow> turn_message) \<Rightarrow> turn_message list \<Rightarrow> turn_message list" where
  "on_answer f [] = []"
| "on_answer f (m # ms) = (if tm_role m = Assistant then f m # ms else m # on_answer f ms)"

section \<open>Metrics\<close>

definition or_else :: "'a option \<Rightarrow> 'a option \<Rightarrow> 'a option" where
  "or_else x y = (if x \<noteq> None then x else y)"

definition or_int :: "int \<Rightarrow> int \<Rightarrow> int" where
  "or_int x y = (if x \<noteq> 0 then x else y)"

definition merge_metrics :: "agent_metrics \<Rightarrow> message_metrics option \<Rightarrow> message_metrics" where
  "merge_metrics a prev =
     \<lparr>mm_model = (if or_empty (am_model a) \<noteq> [] then am_model a else Option.bind prev mm_model),
      mm_prompt_tokens = or_int (am_prompt_tokens a) (case prev of Some p \<Rightarrow> mm_prompt_tokens p | None \<Rightarrow> 0),
      mm_completion_tokens = or_int (am_completion_tokens a) (case prev of Some p \<Rightarrow> mm_completion_tokens p | None \<Rightarrow> 0),
      mm_measured_prompt = or_else (am_measured_prompt a) (Option.bind prev mm_measured_prompt),
      mm_measured_completion = or_else (am_measured_completion a) (Option.bind prev mm_measured_completion),
      mm_elapsed_ms = or_int (am_elapsed_ms a) (case prev of Some p \<Rightarrow> mm_elapsed_ms p | None \<Rightarrow> 0),
      mm_generation_ms = or_else (am_generation_ms a) (Option.bind prev mm_generation_ms),
      mm_exact = (am_measured_prompt a \<noteq> None \<or> (case prev of Some p \<Rightarrow> mm_exact p | None \<Rightarrow> False))\<rparr>"

definition pin_metrics :: "agent_metrics \<Rightarrow> turn_message \<Rightarrow> turn_message" where
  "pin_metrics a m = m\<lparr>tm_metrics := Some (merge_metrics a (tm_metrics m))\<rparr>"

section \<open>The reducer\<close>

text \<open>\<open>pending\<close>: the tool starts not answered yet; \<open>ephemeral\<close>: the outputs that leave nothing
  behind, one entry for each.\<close>

record reducer =
  rd_produced :: "turn_message list"
  rd_pending :: "(string, string \<times> json) dict"
  rd_ephemeral :: "string list"

definition error_of :: "int \<Rightarrow> string \<Rightarrow> string \<Rightarrow> turn_message" where
  "error_of now content kind = (turn_message_of now Error content)\<lparr>tm_error_kind := Some kind\<rparr>"

fun error_message :: "int \<Rightarrow> turn_event \<Rightarrow> turn_message" where
  "error_message now (RunCancelled by) =
     (if by \<noteq> [] then (error_of now ''The previous response was interrupted by a new message.'' ''interrupted'')\<lparr>tm_author := Some by\<rparr>
      else error_of now ''The previous response was interrupted.'' ''cancelled'')"
| "error_message now (MaxTurnsExceeded n) =
     error_of now (''The agent stopped after reaching its step limit ('' @ dec n @ '').'') ''max_turns''"
| "error_message now (RunError msg kind params) =
     (error_of now msg (if or_empty kind = [] then ''unknown'' else or_empty kind))\<lparr>tm_error_params := params\<rparr>"
| "error_message now ev = turn_message_of now Error []"

definition push :: "turn_message \<Rightarrow> reducer \<Rightarrow> reducer" where
  "push m rd = rd\<lparr>rd_produced := m # rd_produced rd\<rparr>"

definition tool_message :: "int \<Rightarrow> string \<Rightarrow> string \<Rightarrow> string \<Rightarrow> json option \<Rightarrow> (string \<times> json) option \<Rightarrow> turn_message" where
  "tool_message now c output display failed start =
     (turn_message_of now Tool output)\<lparr>tm_tool_call_id := Some c, tm_tool_name := map_option fst start,
        tm_tool_args := map_option snd start, tm_tool_display := display, tm_failure := failed\<rparr>"

definition end_tool :: "int \<Rightarrow> string \<Rightarrow> string \<Rightarrow> string \<Rightarrow> json option \<Rightarrow> reducer \<Rightarrow> reducer" where
  "end_tool now c output display failed rd =
     (let start = dict_get (rd_pending rd) c;
          rd1 = rd\<lparr>rd_pending := dict_pop c (rd_pending rd)\<rparr>
      in if c \<in> set (rd_ephemeral rd) then rd1\<lparr>rd_ephemeral := remove1 c (rd_ephemeral rd)\<rparr>
         else push (tool_message now c output display failed start) rd1)"

fun add_event :: "int \<Rightarrow> reducer \<Rightarrow> turn_event \<Rightarrow> reducer" where
  "add_event now rd (MessageDelta s reasoning) = rd\<lparr>rd_produced := add_assistant now s reasoning (rd_produced rd)\<rparr>"
| "add_event now rd (OutputRetracted n k) =
     (case rd_produced rd of
        m # ms \<Rightarrow> if tm_role m = Assistant then rd\<lparr>rd_produced := retract n k m # ms\<rparr> else rd
      | [] \<Rightarrow> rd)"
| "add_event now rd (ToolStart c tool args) = rd\<lparr>rd_pending := dict_set c (tool, args) (rd_pending rd)\<rparr>"
| "add_event now rd (ToolEnd c output display failed) = end_tool now c output display failed rd"
| "add_event now rd (AgentMetrics a) =
     (if am_phase a \<noteq> Up then rd\<lparr>rd_produced := on_answer (pin_metrics a) (rd_produced rd)\<rparr> else rd)"
| "add_event now rd (Interjected author created) =
     push ((turn_message_of created Place [])\<lparr>tm_author := Some author\<rparr>) rd"
| "add_event now rd (RepetitionStopped n reasoning) =
     rd\<lparr>rd_produced := on_answer (cut_loop n reasoning) (rd_produced rd)\<rparr>"
| "add_event now rd (RunError msg kind params) = push (error_message now (RunError msg kind params)) rd"
| "add_event now rd (RunCancelled by) = push (error_message now (RunCancelled by)) rd"
| "add_event now rd (MaxTurnsExceeded n) = push (error_message now (MaxTurnsExceeded n)) rd"
| "add_event now rd RunDone = rd"
| "add_event now rd (OtherEvent name) = rd"

text \<open>A turn starts with the places of the messages it answers, and none of its tools pending.\<close>

definition start_turn :: "turn_message list \<Rightarrow> string list \<Rightarrow> reducer" where
  "start_turn places ephemeral = \<lparr>rd_produced = rev places, rd_pending = [], rd_ephemeral = ephemeral\<rparr>"

definition reduce_turn :: "int \<Rightarrow> reducer \<Rightarrow> turn_event list \<Rightarrow> reducer" where
  "reduce_turn now = foldl (add_event now)"

text \<open>How a turn ends: cancelled, by a Stop or by another person's message, with an error, or by itself.\<close>

datatype turn_end = Completed | Cancelled string | Errored string "string option" "json option"

fun finish_turn :: "int \<Rightarrow> turn_end \<Rightarrow> reducer \<Rightarrow> reducer" where
  "finish_turn now Completed rd = rd"
| "finish_turn now (Cancelled by) rd = add_event now rd (RunCancelled by)"
| "finish_turn now (Errored msg kind params) rd = add_event now rd (RunError msg kind params)"

section \<open>The text alone\<close>

fun answer_text :: "bool \<Rightarrow> string \<Rightarrow> turn_event \<Rightarrow> string" where
  "answer_text with_reasoning t (MessageDelta s reasoning) =
     (if with_reasoning \<or> \<not> reasoning then t @ s else t)"
| "answer_text with_reasoning t (OutputRetracted n k) =
     take (length t - (n + (if with_reasoning then k else 0))) t"
| "answer_text with_reasoning t ev = t"

definition gather_text :: "bool \<Rightarrow> turn_event list \<Rightarrow> string" where
  "gather_text with_reasoning = foldl (answer_text with_reasoning) []"

section \<open>The record and the guard in step\<close>

text \<open>A stream in which a message of another kind is only added between a tool's start, or a
  withdrawal, and the next delta. \<open>streaming\<close>: deltas came since then.\<close>

fun orderly :: "bool \<Rightarrow> turn_event list \<Rightarrow> bool" where
  "orderly streaming [] = True"
| "orderly streaming (MessageDelta s reasoning # evs) = orderly True evs"
| "orderly streaming (ToolStart c tool args # evs) = orderly False evs"
| "orderly streaming (OutputRetracted n k # evs) = orderly False evs"
| "orderly streaming (AgentMetrics a # evs) = orderly streaming evs"
| "orderly streaming (RunDone # evs) = orderly streaming evs"
| "orderly streaming (OtherEvent name # evs) = orderly streaming evs"
| "orderly streaming (RepetitionStopped n reasoning # evs) = False"
| "orderly streaming (ev # evs) = (\<not> streaming \<and> orderly streaming evs)"

text \<open>The answer being written.\<close>

definition answer_of :: "bool \<Rightarrow> reducer \<Rightarrow> string" where
  "answer_of reasoning rd = (case rd_produced rd of m # ms \<Rightarrow> if tm_role m = Assistant then channel_text reasoning m else [] | [] \<Rightarrow> [])"

definition in_step :: "detectors \<Rightarrow> reducer \<Rightarrow> bool \<Rightarrow> bool" where
  "in_step ds rd streaming \<longleftrightarrow> holds_end (fst ds) (answer_of False rd) \<and> holds_end (snd ds) (answer_of True rd)
     \<and> (\<not> streaming \<longrightarrow> dt_buf (fst ds) = [] \<and> dt_buf (snd ds) = [])"

lemma in_step_idle: "dt_buf (fst ds) = [] \<Longrightarrow> dt_buf (snd ds) = [] \<Longrightarrow> in_step ds rd streaming"
  by (simp add: in_step_def holds_end_def)

lemma channel_text_extend: "channel_text c (extend_answer s r m) = (if c = r then channel_text c m @ s else channel_text c m)"
  by (simp add: channel_text_def extend_answer_def or_empty_def)

lemma channel_text_new [simp]: "channel_text c (turn_message_of now role []) = []"
  by (simp add: channel_text_def turn_message_of_def or_empty_def)

lemma role_simps [simp]:
  "tm_role (turn_message_of now role s) = role" "tm_role (extend_answer s r m) = tm_role m"
  "tm_role (pin_metrics a m) = tm_role m" "tm_role (cut_loop n r m) = tm_role m" "tm_role (retract n k m) = tm_role m"
  by (simp_all add: turn_message_of_def extend_answer_def pin_metrics_def cut_loop_def retract_def Let_def)

lemma add_assistant_shape:
  "\<exists>m ms. add_assistant now s r produced = m # ms \<and> tm_role m = Assistant"
  by (auto simp: add_assistant_def split: list.split)

lemma answer_of_delta: "answer_of c (add_event now rd (MessageDelta s r)) = (if c = r then answer_of c rd @ s else answer_of c rd)"
  by (cases "rd_produced rd") (auto simp: answer_of_def add_assistant_def channel_text_extend)

lemma answer_of_metrics: "answer_of c (rd\<lparr>rd_produced := on_answer (pin_metrics a) (rd_produced rd)\<rparr>) = answer_of c rd"
  by (cases "rd_produced rd") (auto simp: answer_of_def channel_text_def pin_metrics_def)

text \<open>An event the detectors do not look at, while they are empty.\<close>

lemma in_step_quiet:
  assumes "\<not> streaming" "orderly streaming evs" "in_step ds rd streaming" "ds' = ds"
  shows "\<exists>st. orderly st evs \<and> in_step ds' rd' st"
  using assms in_step_idle [of ds rd' streaming] unfolding in_step_def by blast

lemma in_step_next:
  assumes "orderly streaming (ev # evs)" "in_step ds rd streaming" "guard_event cf ds ev = (ds', Inr None)"
  shows "\<exists>st. orderly st evs \<and> in_step ds' (add_event now rd ev) st"
proof (cases ev)
  case (MessageDelta s r)
  have "in_step ds' (add_event now rd ev) True"
    using assms(2,3) feed_holds [of "fst ds" "answer_of False rd" cf s] feed_holds [of "snd ds" "answer_of True rd" cf s]
    unfolding in_step_def MessageDelta answer_of_delta
    by (cases ds) (auto simp: in_step_def split: if_splits prod.splits)
  then show ?thesis using assms(1) MessageDelta by auto
next
  case (ToolStart c tool args)
  then have "in_step ds' (add_event now rd ev) False" using assms(3) by (intro in_step_idle) (auto simp: reset_def)
  then show ?thesis using assms(1) ToolStart by auto
next
  case (OutputRetracted n k)
  then have "in_step ds' (add_event now rd ev) False" using assms(3) by (intro in_step_idle) (auto simp: reset_def)
  then show ?thesis using assms(1) OutputRetracted by auto
next
  case (AgentMetrics a)
  then have "in_step ds' (add_event now rd ev) streaming"
    using assms(2,3) by (cases ds) (auto simp: in_step_def answer_of_metrics)
  then show ?thesis using assms(1) AgentMetrics by auto
next
  case (RepetitionStopped n c)
  then show ?thesis using assms(1) by simp
next
  case RunDone
  then show ?thesis using assms by (cases ds) auto
next
  case (OtherEvent name)
  then show ?thesis using assms by (cases ds) auto
next
  case (ToolEnd c out display failed)
  then show ?thesis using assms by (intro in_step_quiet [of streaming evs ds rd]; cases ds; simp add: ToolEnd)
next
  case (Interjected author created)
  then show ?thesis using assms by (intro in_step_quiet [of streaming evs ds rd]; cases ds; simp add: Interjected)
next
  case (RunError msg kind params)
  then show ?thesis using assms by (intro in_step_quiet [of streaming evs ds rd]; cases ds; simp add: RunError)
next
  case (RunCancelled who)
  then show ?thesis using assms by (intro in_step_quiet [of streaming evs ds rd]; cases ds; simp add: RunCancelled)
next
  case (MaxTurnsExceeded n)
  then show ?thesis using assms by (intro in_step_quiet [of streaming evs ds rd]; cases ds; simp add: MaxTurnsExceeded)
qed

lemma channel_text_cut:
  "0 < n \<Longrightarrow> channel_text c (cut_loop n c m) = take (length (channel_text c m) - n) (channel_text c m)"
  "channel_text (\<not> c) (cut_loop n c m) = channel_text (\<not> c) m"
  by (simp_all add: channel_text_def cut_loop_def but_last_def or_empty_def or_none_def)

lemma feed_hit_tail:
  assumes "0 < dc_repeats cf" "holds_end d fed" "snd (feed cf d s) = Inr (Some n)"
  shows "\<exists>block r kept. dc_repeats cf \<le> r \<and> block \<noteq> [] \<and> n = r * length block \<and> fed @ s = kept @ concat (replicate r block)"
proof -
  have "scan cf (dt_buf (fst (feed cf d s))) = Inr (Some n)" using assms(3) by (auto simp: feed_def Let_def split: if_splits)
  from loop_fits [OF assms(1) this] obtain block r where b: "dc_repeats cf \<le> r" "block \<noteq> []" "n = r * length block"
    "suffix (concat (replicate r block)) (dt_buf (fst (feed cf d s)))" by blast
  have "suffix (concat (replicate r block)) (fed @ s)"
    using b(4) feed_holds [OF assms(2), of cf s] by (auto simp: holds_end_def intro: suffix_order.trans)
  then show ?thesis using b by (auto simp: suffix_def)
qed

text \<open>What the record looks like when the guard has stopped: the answer ends with the run.\<close>

definition ends_in_loop :: "detector_config \<Rightarrow> bool \<Rightarrow> nat \<Rightarrow> reducer \<Rightarrow> bool" where
  "ends_in_loop cf c n rd \<longleftrightarrow> (\<exists>m ms block r kept. rd_produced rd = m # ms \<and> tm_role m = Assistant \<and> dc_repeats cf \<le> r
     \<and> block \<noteq> [] \<and> n = r * length block \<and> channel_text c m = kept @ concat (replicate r block))"

lemma guard_hit_ends:
  assumes "0 < dc_repeats cf" "in_step ds rd streaming" "guard_event cf ds (MessageDelta s c) = (ds', Inr (Some (n, c')))"
  shows "c' = c \<and> ends_in_loop cf c n (add_event now rd (MessageDelta s c))"
proof -
  let ?d = "if c then snd ds else fst ds"
  have "snd (feed cf ?d s) = Inr (Some n)" "c' = c"
    using assms(3) by (cases ds; cases c; auto simp: map_sum_is_Inr split: prod.splits)+
  moreover have "holds_end ?d (answer_of c rd)" using assms(2) by (auto simp: in_step_def)
  ultimately obtain block r kept where b: "dc_repeats cf \<le> r" "block \<noteq> []" "n = r * length block"
    "answer_of c rd @ s = kept @ concat (replicate r block)" using feed_hit_tail [OF assms(1)] by blast
  obtain m ms where m: "rd_produced (add_event now rd (MessageDelta s c)) = m # ms" "tm_role m = Assistant"
    using add_assistant_shape [of now s c "rd_produced rd"] by auto
  have "channel_text c m = answer_of c rd @ s"
    using answer_of_delta [of c now rd s c] m by (simp add: answer_of_def)
  then show ?thesis using b m \<open>c' = c\<close> unfolding ends_in_loop_def by metis
qed

lemma guard_events_end:
  assumes "0 < dc_repeats cf" "orderly streaming evs" "in_step ds rd streaming"
    "guard_events cf ds evs = (pre @ [RepetitionStopped n c, RunDone], e)"
  shows "ends_in_loop cf c n (reduce_turn now rd pre)"
  using assms(2-4)
proof (induction evs arbitrary: streaming ds rd pre)
  case (Cons ev evs)
  obtain ds' r where g: "guard_event cf ds ev = (ds', r)" by (cases "guard_event cf ds ev") auto
  consider (err) x where "r = Inl x" | (hit) k c' where "r = Inr (Some (k, c'))" | (pass) "r = Inr None"
    by (metis option.exhaust sum.exhaust surj_pair)
  then show ?case
  proof cases
    case err
    then show ?thesis using Cons.prems(3) g by (simp add: Cons_eq_append_conv)
  next
    case hit
    then obtain s where ev: "ev = MessageDelta s c'" using guard_event_hit g by blast
    have "pre = [ev]" "k = n" "c' = c" using Cons.prems(3) g hit by (auto simp: Cons_eq_append_conv)
    then show ?thesis
      using guard_hit_ends [OF assms(1) Cons.prems(2), of s c' ds' k c'] g hit ev by (simp add: reduce_turn_def)
  next
    case pass
    obtain st where st: "orderly st evs" "in_step ds' (add_event now rd ev) st"
      using in_step_next [OF Cons.prems(1,2)] g pass by blast
    obtain out' where o: "guard_events cf ds' evs = (out', e)" "pre @ [RepetitionStopped n c, RunDone] = ev # out'"
      using Cons.prems(3) g pass by (auto split: prod.splits)
    have "\<not> (pre = [])" using o(2) Cons.prems(1) by (auto)
    then obtain pre' where "pre = ev # pre'" "out' = pre' @ [RepetitionStopped n c, RunDone]" using o(2) by (auto simp: append_eq_Cons_conv)
    then show ?thesis using Cons.IH [OF st(1) st(2), of pre'] o(1) by (simp add: reduce_turn_def)
  qed
qed simp

text \<open>when the guard stops a turn, the marker takes exactly the repetition off the record:
  the answer being written is what came before the run, and the run, at least \<open>repeats\<close> copies
  of one block, is all that is cut. The other channel and every earlier message are as they were.\<close>

theorem guard_cuts_exactly_the_loop:
  assumes "0 < dc_repeats cf" "orderly False evs"
    "guard_repetition cf evs = (pre @ [RepetitionStopped n c, RunDone], None)"
  shows "\<exists>m ms block r kept m'. rd_produced (reduce_turn now rd pre) = m # ms \<and> dc_repeats cf \<le> r \<and> block \<noteq> []
    \<and> channel_text c m = kept @ concat (replicate r block)
    \<and> rd_produced (reduce_turn now rd (pre @ [RepetitionStopped n c, RunDone])) = m' # ms
    \<and> channel_text c m' = kept \<and> channel_text (\<not> c) m' = channel_text (\<not> c) m
    \<and> tm_stopped_reason m' = Some ''repetition''"
proof -
  have "in_step (reset, reset) rd False" by (rule in_step_idle) (simp_all add: reset_def)
  from guard_events_end [OF assms(1,2) this, of pre n c None now] assms(3)
  obtain m ms block r kept where m: "rd_produced (reduce_turn now rd pre) = m # ms" "tm_role m = Assistant" "dc_repeats cf \<le> r"
    "block \<noteq> []" "n = r * length block" "channel_text c m = kept @ concat (replicate r block)"
    unfolding guard_repetition_def ends_in_loop_def by blast
  have "0 < n" using m assms(1) by simp
  have len: "length (concat (replicate r block)) = n" using m(5) by (simp add: length_concat sum_list_replicate)
  have "channel_text c (cut_loop n c m) = kept" using channel_text_cut(1) [OF \<open>0 < n\<close>, of c m] m(6) len by simp
  moreover have "rd_produced (reduce_turn now rd (pre @ [RepetitionStopped n c, RunDone])) = cut_loop n c m # ms"
    using m(1,2) by (simp add: reduce_turn_def)
  moreover have "tm_stopped_reason (cut_loop n c m) = Some ''repetition''" by (simp add: cut_loop_def)
  ultimately show ?thesis using m channel_text_cut(2) [of c n m] by blast
qed

lemma guard_cuts_exactly_the_loop_witness:
  "\<exists>m ms. rd_produced (reduce_turn 7 (start_turn [] [])
       [MessageDelta ''xab'' False, MessageDelta ''ab'' False, RepetitionStopped 4 False, RunDone]) = m # ms
     \<and> tm_stopped_reason m = Some ''repetition''"
proof -
  let ?evs = "[MessageDelta ''xab'' False, MessageDelta ''ab'' False, MessageDelta ''ab'' False]"
  have g: "guard_repetition tiny_detector ?evs =
      ([MessageDelta ''xab'' False, MessageDelta ''ab'' False] @ [RepetitionStopped 4 False, RunDone], None)" by code_simp
  have p: "0 < dc_repeats tiny_detector" by (simp add: tiny_detector_def)
  have o: "orderly False ?evs" by simp
  from guard_cuts_exactly_the_loop [OF p o g, of 7 "start_turn [] []"] show ?thesis by auto
qed

section \<open>The record and the gathered text agree\<close>

definition answers :: "turn_message list \<Rightarrow> string" where
  "answers produced = concat (map tm_content (filter (\<lambda>m. tm_role m = Assistant) (rev produced)))"

text \<open>Each withdrawal takes back no more than the answer being written holds.\<close>

fun withdraws_own :: "int \<Rightarrow> reducer \<Rightarrow> turn_event list \<Rightarrow> bool" where
  "withdraws_own now rd [] = True"
| "withdraws_own now rd (OutputRetracted n k # evs) =
     (n \<le> length (answer_of False rd) \<and> withdraws_own now (add_event now rd (OutputRetracted n k)) evs)"
| "withdraws_own now rd (RepetitionStopped n c # evs) = False"
| "withdraws_own now rd (ev # evs) = withdraws_own now (add_event now rd ev) evs"

lemma answers_Cons [simp]: "answers (m # ms) = answers ms @ (if tm_role m = Assistant then tm_content m else [])"
  by (simp add: answers_def)

lemma answers_Nil [simp]: "answers [] = []"
  by (simp add: answers_def)

lemma answers_on_answer: "(\<And>m. tm_content (f m) = tm_content m) \<Longrightarrow> (\<And>m. tm_role (f m) = tm_role m) \<Longrightarrow> answers (on_answer f ms) = answers ms"
  by (induction ms) auto

lemma content_simps [simp]:
  "tm_content (pin_metrics a m) = tm_content m" "tm_content (turn_message_of now role s) = s"
  "tm_content (extend_answer s r m) = (if r then tm_content m else tm_content m @ s)"
  "tm_content (retract n k m) = take (length (tm_content m) - n) (tm_content m)"
  by (simp_all add: pin_metrics_def turn_message_of_def extend_answer_def retract_def Let_def)

lemma error_role [simp]: "tm_role (error_of now t kind) = Error" "tm_role (error_message now ev) = Error"
  by (simp add: error_of_def turn_message_of_def) (cases ev; simp add: error_of_def turn_message_of_def)

lemma answers_delta: "answers (add_assistant now s r ms) = (if r then answers ms else answers ms @ s)"
  by (cases ms) (auto simp: add_assistant_def)

lemma answers_retract:
  "n \<le> length (answer_of False rd) \<Longrightarrow>
     answers (rd_produced (add_event now rd (OutputRetracted n k))) = take (length (answers (rd_produced rd)) - n) (answers (rd_produced rd))"
  by (cases "rd_produced rd") (auto simp: answer_of_def channel_text_def)

lemma answers_end_tool: "answers (rd_produced (end_tool now c out display failed rd)) = answers (rd_produced rd)"
  by (simp add: end_tool_def Let_def push_def tool_message_def turn_message_of_def)

lemma answers_event:
  assumes "withdraws_own now rd (ev # evs)"
  shows "answers (rd_produced (add_event now rd ev)) = answer_text False (answers (rd_produced rd)) ev
    \<and> withdraws_own now (add_event now rd ev) evs"
proof (cases "\<exists>n k. ev = OutputRetracted n k")
  case True
  then obtain n k where ev: "ev = OutputRetracted n k" by blast
  show ?thesis using assms answers_retract [of n rd now k] unfolding ev by simp
next
  case False
  then show ?thesis using assms by (cases ev)
    (auto simp: answers_delta answers_end_tool answers_on_answer push_def simp del: error_message.simps)
qed

text \<open>the text a caller gathers from a run's events is the text of all the answers the run's
  record keeps, in order, as long as each withdrawal takes back only what its own call wrote and
  the run is not stopped for repeating itself.\<close>

theorem gathered_text_is_the_record:
  assumes "withdraws_own now (start_turn [] eph) evs"
  shows "gather_text False evs = answers (rd_produced (reduce_turn now (start_turn [] eph) evs))"
proof -
  have "withdraws_own now rd evs \<Longrightarrow> answers (rd_produced (reduce_turn now rd evs)) = foldl (answer_text False) (answers (rd_produced rd)) evs" for rd
  proof (induction evs arbitrary: rd)
    case (Cons ev evs)
    then show ?case using answers_event [OF Cons.prems] by (simp add: reduce_turn_def)
  qed (simp add: reduce_turn_def)
  then show ?thesis using assms by (simp add: gather_text_def start_turn_def)
qed

lemma gathered_text_is_the_record_witness:
  "gather_text False [MessageDelta ''ab'' False, ToolStart ''c'' ''exec'' JNull, ToolEnd ''c'' ''out'' [] None,
      MessageDelta ''xy'' False, OutputRetracted 2 0, MessageDelta ''z'' False] = ''abz''"
proof -
  let ?evs = "[MessageDelta ''ab'' False, ToolStart ''c'' ''exec'' JNull, ToolEnd ''c'' ''out'' [] None,
      MessageDelta ''xy'' False, OutputRetracted 2 0, MessageDelta ''z'' False]"
  have "withdraws_own 7 (start_turn [] []) ?evs" by code_simp
  from gathered_text_is_the_record [OF this]
  have "gather_text False ?evs = answers (rd_produced (reduce_turn 7 (start_turn [] []) ?evs))" .
  also have "\<dots> = ''abz''" by code_simp
  finally show ?thesis .
qed

section \<open>Tool results\<close>

fun ends_call :: "string \<Rightarrow> turn_event \<Rightarrow> bool" where
  "ends_call c (ToolEnd c' out display failed) = (c' = c)"
| "ends_call c ev = False"

definition results_of :: "string \<Rightarrow> turn_message list \<Rightarrow> turn_message list" where
  "results_of c produced = filter (\<lambda>m. tm_role m = Tool \<and> tm_tool_call_id m = Some c) produced"

lemma results_on_answer: "(\<And>m. tm_role (f m) = tm_role m) \<Longrightarrow> length (results_of c (on_answer f ms)) = length (results_of c ms)"
  by (induction ms) (auto simp: results_of_def)

lemma count_remove1: "c \<in> set xs \<Longrightarrow> count_list (remove1 c xs) d = count_list xs d - (if c = d then 1 else 0)"
  by (induction xs) (auto simp: count_list_0_iff)

lemma results_other:
  "\<not> ends_call c ev \<Longrightarrow> length (results_of c (rd_produced (add_event now rd ev))) = length (results_of c (rd_produced rd))
     \<and> count_list (rd_ephemeral (add_event now rd ev)) c = count_list (rd_ephemeral rd) c"
  by (cases ev; cases "rd_produced rd")
    (auto simp: results_of_def add_assistant_def push_def end_tool_def Let_def tool_message_def turn_message_of_def count_remove1
       results_on_answer [unfolded results_of_def] split: list.split)

lemma count_in_set: "c \<in> set xs \<Longrightarrow> Suc (count_list xs c - 1) = count_list xs c"
  by (metis count_list_0_iff diff_Suc_1 not0_implies_Suc)

lemma results_end:
  "ends_call c ev \<Longrightarrow> (if count_list (rd_ephemeral rd) c = 0
     then length (results_of c (rd_produced (add_event now rd ev))) = Suc (length (results_of c (rd_produced rd)))
          \<and> count_list (rd_ephemeral (add_event now rd ev)) c = 0
     else length (results_of c (rd_produced (add_event now rd ev))) = length (results_of c (rd_produced rd))
          \<and> Suc (count_list (rd_ephemeral (add_event now rd ev)) c) = count_list (rd_ephemeral rd) c)"
  by (cases ev) (auto simp: results_of_def push_def end_tool_def Let_def tool_message_def turn_message_of_def count_remove1 count_list_0_iff count_in_set [simplified])

text \<open>of the results that come back for a call id as many are kept as there are more of them
  than entries of that id among the outputs that leave nothing behind: each entry swallows one
  result, and no result is kept twice or lost.\<close>

theorem tool_results_kept_once:
  "length (results_of c (rd_produced (reduce_turn now (start_turn [] eph) evs)))
     = length (filter (ends_call c) evs) - count_list eph c"
proof -
  have "length (results_of c (rd_produced (reduce_turn now rd evs)))
     = length (results_of c (rd_produced rd)) + (length (filter (ends_call c) evs) - count_list (rd_ephemeral rd) c)" for rd
  proof (induction evs arbitrary: rd)
    case (Cons ev evs)
    then show ?case using results_other [of c ev now rd] results_end [of c ev rd now]
      by (cases "ends_call c ev") (auto simp: reduce_turn_def split: if_splits)
  qed (simp add: reduce_turn_def)
  then show ?thesis by (simp add: start_turn_def results_of_def)
qed

end
