(* ===== verification/ContextFit.thy ===== *)
theory ContextFit
  imports TurnReduce
begin

text \<open>
  Fitting a thread into a model's window: the token estimate of \<open>kb/tokens.py\<close> and
  \<open>context_budget.py\<close>, the ladder of ceilings with the history budget and what is learned from
  rejections and truncations, the layered reducer of \<open>context_reducers.py\<close>, and the retry after
  a rejection of \<open>api/litellm_runner.py\<close>.

  A text is the list of its code points here, since the estimate looks at the script they belong
  to. A thread is either stored messages or the items sent to the model, as in the code; both are
  \<open>entry\<close>. How Python prints a tool's arguments is the argument \<open>shown\<close>, the estimate is an argument
  of the reducer, and the reductions of floats are exact fractions.
\<close>

section \<open>Texts and messages\<close>

type_synonym ustring = "nat list"

definition us :: "string \<Rightarrow> ustring" where
  "us s = map of_char s"

record chat_message =
  cm_role :: string
  cm_content :: ustring
  cm_tool_call_id :: "string option"
  cm_tool_name :: "string option"
  cm_tool_args :: "json option"
  cm_created_at :: "int option"
  cm_author :: "string option"
  cm_error_kind :: "string option"
  cm_metrics :: "message_metrics option"

definition chat_message_of :: "string \<Rightarrow> ustring \<Rightarrow> chat_message" where
  "chat_message_of role content =
     \<lparr>cm_role = role, cm_content = content, cm_tool_call_id = None, cm_tool_name = None, cm_tool_args = None,
      cm_created_at = None, cm_author = None, cm_error_kind = None, cm_metrics = None\<rparr>"

text \<open>A stored message, or an item of the model's input: something said, a call, what it returned.\<close>

datatype entry =
  Stored chat_message
| Said string ustring
| Called string string ustring
| Returned string ustring

fun entry_role :: "entry \<Rightarrow> string" where
  "entry_role (Stored m) = cm_role m"
| "entry_role (Said role content) = role"
| "entry_role (Called c tool args) = []"
| "entry_role (Returned c out) = []"

fun entry_content :: "entry \<Rightarrow> ustring" where
  "entry_content (Stored m) = cm_content m"
| "entry_content (Said role content) = content"
| "entry_content (Called c tool args) = []"
| "entry_content (Returned c out) = []"

section \<open>The estimate\<close>

definition CJK_RANGES :: "(nat \<times> nat) list" where
  "CJK_RANGES = [(0x4e00, 0x9fff), (0x3400, 0x4dbf), (0x20000, 0x2a6df), (0xf900, 0xfaff), (0x3040, 0x30ff), (0xac00, 0xd7af)]"

definition is_cjk :: "nat \<Rightarrow> bool" where
  "is_cjk c \<longleftrightarrow> list_ex (\<lambda>(lo, hi). lo \<le> c \<and> c \<le> hi) CJK_RANGES"

text \<open>\<open>round(n / 4)\<close>, halves to the even neighbour.\<close>

definition round_quarter :: "nat \<Rightarrow> nat" where
  "round_quarter n =
     (if n mod 4 < 2 then n div 4
      else if n mod 4 = 2 then (if even (n div 4) then n div 4 else Suc (n div 4))
      else Suc (n div 4))"

definition count_tokens :: "ustring \<Rightarrow> nat" where
  "count_tokens s = (let cjk = length (filter is_cjk s) in cjk + round_quarter (length s - cjk))"

fun entry_args :: "(json \<Rightarrow> ustring) \<Rightarrow> entry \<Rightarrow> ustring option" where
  "entry_args shown (Stored m) =
     (case cm_tool_args m of
        Some (JObj []) \<Rightarrow> None
      | Some a \<Rightarrow> Some (shown a)
      | None \<Rightarrow> None)"
| "entry_args shown (Called c tool args) = (if args = [] then None else Some args)"
| "entry_args shown e = None"

definition estimate_entry :: "(json \<Rightarrow> ustring) \<Rightarrow> entry \<Rightarrow> nat" where
  "estimate_entry shown e =
     count_tokens (entry_content e) + (case entry_args shown e of None \<Rightarrow> 0 | Some a \<Rightarrow> count_tokens a)"

definition estimate_messages :: "(json \<Rightarrow> ustring) \<Rightarrow> entry list \<Rightarrow> int" where
  "estimate_messages shown es = int (sum_list (map (estimate_entry shown) es))"

section \<open>The ceiling\<close>

datatype limit_source = FromConfig | FromLearned | FromDeclared | FromCatalog | FromEstimated | FromNowhere

type_synonym context_limit = "int option \<times> limit_source"

definition positive :: "int option \<Rightarrow> int option" where
  "positive v = (case v of Some n \<Rightarrow> if 0 < n then Some n else None | None \<Rightarrow> None)"

text \<open>\<open>int(x)\<close>, towards zero.\<close>

definition py_int :: "rat \<Rightarrow> int" where
  "py_int x = (if 0 \<le> x then \<lfloor>x\<rfloor> else \<lceil>x\<rceil>)"

definition window_from_max_tokens :: "int option \<Rightarrow> rat \<Rightarrow> int option" where
  "window_from_max_tokens max_tokens ratio =
     positive (Some (py_int (of_int (case max_tokens of Some n \<Rightarrow> n | None \<Rightarrow> 0) * max 0 ratio)))"

fun first_positive :: "(int option \<times> limit_source) list \<Rightarrow> context_limit" where
  "first_positive [] = (None, FromNowhere)"
| "first_positive ((v, src) # rest) =
     (case positive v of Some n \<Rightarrow> (Some n, src) | None \<Rightarrow> first_positive rest)"

definition resolve_context_limit :: "int option \<Rightarrow> int option \<Rightarrow> int option \<Rightarrow> int option \<Rightarrow> int option \<Rightarrow> context_limit" where
  "resolve_context_limit configured learned declared catalog estimated =
     first_positive [(configured, FromConfig), (learned, FromLearned), (declared, FromDeclared),
       (catalog, FromCatalog), (estimated, FromEstimated)]"

definition DEFAULT_MARGIN_RATIO :: rat where
  "DEFAULT_MARGIN_RATIO = 1 / 10"

definition DEFAULT_REPLY_RESERVE :: int where
  "DEFAULT_REPLY_RESERVE = 2000"

definition usable_window :: "context_limit \<Rightarrow> int \<Rightarrow> int \<Rightarrow> rat \<Rightarrow> context_limit" where
  "usable_window limit overhead reserve margin =
     (case fst limit of
        None \<Rightarrow> limit
      | Some n \<Rightarrow>
          if snd limit \<noteq> FromEstimated then limit
          else if 0 < py_int (of_int n * (1 - margin)) - max 0 overhead - max 0 reserve then limit
          else (None, FromNowhere))"

definition history_budget :: "context_limit \<Rightarrow> int \<Rightarrow> int \<Rightarrow> rat \<Rightarrow> int option" where
  "history_budget limit overhead reserve margin =
     (case fst (usable_window limit overhead reserve margin) of
        None \<Rightarrow> None
      | Some n \<Rightarrow> Some (max 0 (py_int (of_int n * (1 - margin)) - max 0 overhead - max 0 reserve)))"

text \<open>\<open>_budget_for\<close>: no room is a budget of one, since a budget of zero means none.\<close>

definition budget_for :: "context_limit \<Rightarrow> int \<Rightarrow> int option" where
  "budget_for limit overhead =
     map_option (max 1) (history_budget limit overhead DEFAULT_REPLY_RESERVE DEFAULT_MARGIN_RATIO)"

section \<open>Learning the ceiling\<close>

definition detect_truncation :: "int \<Rightarrow> int option \<Rightarrow> int option" where
  "detect_truncation sent reported =
     (case positive reported of
        None \<Rightarrow> None
      | Some r \<Rightarrow> if sent < 1000 then None else if 3 * sent \<le> 5 * r then None else Some r)"

text \<open>Per endpoint: what governs, and what was seen and does not govern yet.\<close>

record learner =
  ln_confirmations :: nat
  ln_learned :: "string \<times> string \<Rightarrow> int option"
  ln_pending :: "string \<times> string \<Rightarrow> int list option"

definition new_learner :: "int \<Rightarrow> learner" where
  "new_learner confirmations =
     \<lparr>ln_confirmations = nat (max 1 confirmations), ln_learned = (\<lambda>k. None), ln_pending = (\<lambda>k. None)\<rparr>"

definition learn_exact :: "string \<times> string \<Rightarrow> int \<Rightarrow> learner \<Rightarrow> learner" where
  "learn_exact k limit lr =
     (if 0 < limit then lr\<lparr>ln_learned := (ln_learned lr)(k \<mapsto> limit), ln_pending := (ln_pending lr)(k := None)\<rparr> else lr)"

definition observe :: "string \<times> string \<Rightarrow> int \<Rightarrow> learner \<Rightarrow> learner" where
  "observe k limit lr =
     (if limit \<le> 0 then lr
      else let seen = (case ln_pending lr k of None \<Rightarrow> [] | Some s \<Rightarrow> s) @ [limit]
           in if ln_confirmations lr \<le> length seen
              then lr\<lparr>ln_learned := (ln_learned lr)(k \<mapsto> Min (set seen)), ln_pending := (ln_pending lr)(k := None)\<rparr>
              else lr\<lparr>ln_pending := (ln_pending lr)(k \<mapsto> seen)\<rparr>)"

section \<open>The reducer\<close>

text \<open>The number with its thousands grouped by commas.\<close>

function grouped :: "nat \<Rightarrow> string" where
  "grouped n =
     (if n < 1000 then dec n
      else grouped (n div 1000) @ '','' @ dec (n mod 1000 div 100) @ dec (n mod 100 div 10) @ dec (n mod 10))"
  by pat_completeness auto
termination by (relation "measure id") auto

declare grouped.simps [simp del]

definition FOLDED_NAME :: ustring where
  "FOLDED_NAME = [32, 30340, 36664, 20986, 40]"

definition FOLDED_SIZE :: ustring where
  "FOLDED_SIZE = [32, 23383, 20803, 41, 24050, 25722, 30090, 44, 22914, 38656, 37325, 30475, 35531, 37325, 26032, 22519, 34892, 93]"

definition folded_content :: "string option \<Rightarrow> ustring \<Rightarrow> ustring" where
  "folded_content tool content =
     us ''['' @ us (if or_empty tool = [] then ''tool'' else or_empty tool) @ FOLDED_NAME @ us (grouped (length content)) @ FOLDED_SIZE"

fun fold_entry :: "entry \<Rightarrow> entry" where
  "fold_entry (Stored m) =
     Stored ((chat_message_of (if cm_role m = [] then ''tool'' else cm_role m) (folded_content (cm_tool_name m) (cm_content m)))
       \<lparr>cm_tool_name := cm_tool_name m, cm_tool_call_id := cm_tool_call_id m, cm_tool_args := cm_tool_args m\<rparr>)"
| "fold_entry (Said role content) = Said role (folded_content None content)"
| "fold_entry e = e"

definition BULKY_TOOL_CHARS :: nat where
  "BULKY_TOOL_CHARS = 2000"

definition fold_if_bulky :: "entry \<Rightarrow> entry" where
  "fold_if_bulky e = (if entry_role e = ''tool'' \<and> BULKY_TOOL_CHARS < length (entry_content e) then fold_entry e else e)"

definition fold_bulky :: "entry list \<Rightarrow> entry list" where
  "fold_bulky es = (if es = [] then [] else map fold_if_bulky (butlast es) @ [last es])"

text \<open>What is kept so far, and the older entries from the latest on.\<close>

fun keep_from :: "(entry list \<Rightarrow> int) \<Rightarrow> int \<Rightarrow> entry list \<Rightarrow> entry list \<Rightarrow> entry list" where
  "keep_from est budget kept [] = kept"
| "keep_from est budget kept (m # older) =
     (if kept \<noteq> [] \<and> \<not> est (m # kept) \<le> budget then kept else keep_from est budget (m # kept) older)"

definition keep_newest_that_fit :: "(entry list \<Rightarrow> int) \<Rightarrow> int \<Rightarrow> entry list \<Rightarrow> entry list" where
  "keep_newest_that_fit est budget es = keep_from est budget [] (rev es)"

record reduction =
  rs_messages :: "entry list"
  rs_summary :: ustring
  rs_changed :: bool
  rs_lossless :: bool

fun first_user :: "entry list \<Rightarrow> nat option" where
  "first_user [] = None"
| "first_user (e # es) = (if entry_role e = ''user'' then Some 0 else map_option Suc (first_user es))"

definition count_folded :: "entry list \<Rightarrow> entry list \<Rightarrow> nat" where
  "count_folded folded es = length (filter (\<lambda>(a, b). entry_content a \<noteq> entry_content b) (zip folded es))"

definition FOLDED_ONLY :: ustring where
  "FOLDED_ONLY = [32, 31558, 36611, 26089, 30340, 24037, 20855, 36664, 20986, 24050, 25722, 30090, 40, 21482, 30041, 19979, 25688, 35201, 41, 44, 23565, 35441, 20839, 23481, 23436, 25972, 20445, 30041, 12290]"

definition FOLDED_TOO :: ustring where
  "FOLDED_TOO = [32, 31558, 36611, 26089, 30340, 24037, 20855, 36664, 20986, 24050, 25722, 30090, 59]"

definition DROPPED_PRE :: ustring where
  "DROPPED_PRE = [21478, 26377, 20013, 38291, 32]"

definition DROPPED_POST :: ustring where
  "DROPPED_POST = [32, 21063, 35338, 24687, 19981, 26371, 34987, 35712, 21040, 40, 20320, 26368, 21021, 30340, 38656, 27714, 33287, 26368, 36817, 30340, 23565, 35441, 37117, 20445, 30041, 41, 12290]"

definition DROPPED_ALL :: ustring where
  "DROPPED_ALL = [36889, 19968, 36650, 30340, 20839, 23481, 23601, 24050, 32147, 25509, 36817, 27169, 22411, 33021, 35712, 30340, 19978, 38480, 44, 20808, 21069, 30340, 23565, 35441, 40, 21253, 21547, 20320, 26368, 21021, 30340, 38656, 27714, 41, 37117, 19981, 26371, 34987, 35712, 21040, 12290]"

text \<open>The second stage: the first thing a user said and the newest entries that fit beside it.\<close>

definition task_and_tail :: "(entry list \<Rightarrow> int) \<Rightarrow> int \<Rightarrow> entry list \<Rightarrow> entry list option" where
  "task_and_tail est budget folded =
     (case first_user folded of
        Some i \<Rightarrow>
          if Suc i = length folded then None
          else let task = folded ! i;
                   kept = task # keep_newest_that_fit est (max 0 (budget - est [task])) (drop 1 folded)
               in if est kept \<le> budget then Some kept else None
      | None \<Rightarrow> None)"

definition untouched :: "entry list \<Rightarrow> reduction" where
  "untouched es = \<lparr>rs_messages = es, rs_summary = [], rs_changed = False, rs_lossless = False\<rparr>"

definition reduce :: "(entry list \<Rightarrow> int) \<Rightarrow> int \<Rightarrow> entry list \<Rightarrow> reduction" where
  "reduce est budget es =
     (if es = [] \<or> est es \<le> budget then untouched es
      else let folded = fold_bulky es; n = count_folded folded es
           in if est folded \<le> budget
              then \<lparr>rs_messages = folded, rs_summary = us (dec n) @ FOLDED_ONLY, rs_changed = True, rs_lossless = True\<rparr>
              else case task_and_tail est budget folded of
                     Some kept \<Rightarrow>
                       \<lparr>rs_messages = kept,
                        rs_summary = (if n \<noteq> 0 then us (dec n) @ FOLDED_TOO else [])
                          @ DROPPED_PRE @ us (json_int (int (length folded) - int (length kept))) @ DROPPED_POST,
                        rs_changed = True, rs_lossless = False\<rparr>
                   | None \<Rightarrow> \<lparr>rs_messages = [last es], rs_summary = DROPPED_ALL, rs_changed = True, rs_lossless = False\<rparr>)"

section \<open>After a rejection\<close>

definition halve_history :: "'a list \<Rightarrow> 'a list" where
  "halve_history es = (if length es \<le> 1 then es else drop (length es div 2) es)"

definition shrink_history :: "(entry list \<Rightarrow> int) \<Rightarrow> entry list \<Rightarrow> int option \<Rightarrow> int \<Rightarrow> entry list" where
  "shrink_history est history stated overhead =
     (case stated of
        None \<Rightarrow> halve_history history
      | Some n \<Rightarrow>
          let budget = (case history_budget (Some n, FromLearned) overhead DEFAULT_REPLY_RESERVE DEFAULT_MARGIN_RATIO of
                          Some b \<Rightarrow> b | None \<Rightarrow> 0);
              kept = rs_messages (reduce est budget history)
          in if est kept < est history then kept else halve_history history)"

text \<open>\<open>_HistoryTrim\<close>: how many leading items of the input are history, and what a cut has kept.\<close>

record history_trim =
  ht_original :: nat
  ht_kept :: "entry list option"

definition trim_apply :: "history_trim \<Rightarrow> entry list \<Rightarrow> entry list" where
  "trim_apply ht input = (case ht_kept ht of None \<Rightarrow> input | Some kept \<Rightarrow> kept @ drop (ht_original ht) input)"

definition trim_shrink :: "(entry list \<Rightarrow> int) \<Rightarrow> int option \<Rightarrow> int \<Rightarrow> history_trim \<Rightarrow> entry list \<Rightarrow> history_trim \<times> entry list option" where
  "trim_shrink est stated overhead ht input =
     (let held = (case ht_kept ht of Some kept \<Rightarrow> length kept | None \<Rightarrow> ht_original ht);
          history = take held input; rest = drop held input
      in if length history \<le> 1 then (ht, None)
         else let shrunk = shrink_history est history stated overhead
              in if est history \<le> est shrunk then (ht, None)
                 else (ht\<lparr>ht_kept := Some shrunk\<rparr>, Some (shrunk @ rest)))"

section \<open>What the reducer keeps\<close>

lemma fold_bulky_length [simp]: "length (fold_bulky es) = length es"
  by (simp add: fold_bulky_def)

lemma fold_bulky_empty [simp]: "fold_bulky es = [] \<longleftrightarrow> es = []"
  by (simp add: fold_bulky_def)

lemma fold_bulky_last: "es \<noteq> [] \<Longrightarrow> last (fold_bulky es) = last es"
  by (simp add: fold_bulky_def)

lemma fold_if_bulky_role [simp]: "entry_role (fold_if_bulky e) = entry_role e"
  by (cases e) (auto simp: fold_if_bulky_def chat_message_of_def)

lemma fold_bulky_roles: "map entry_role (fold_bulky es) = map entry_role es"
proof (cases es rule: rev_cases)
  case (snoc ys y)
  then show ?thesis by (simp add: fold_bulky_def)
qed (simp add: fold_bulky_def)

lemma keep_from_suffix: "\<exists>more. keep_from est budget kept older = more @ kept \<and> (\<exists>rest. rev older = rest @ more)"
proof (induction older arbitrary: kept)
  case (Cons m older)
  show ?case
  proof (cases "kept \<noteq> [] \<and> \<not> est (m # kept) \<le> budget")
    case True
    then show ?thesis by simp
  next
    case False
    obtain more rest where "keep_from est budget (m # kept) older = more @ m # kept" "rev older = rest @ more"
      using Cons.IH by blast
    then show ?thesis using False by (intro exI [of _ "more @ [m]"]) auto
  qed
qed simp

lemma keep_newest_suffix: "suffix (keep_newest_that_fit est budget es) es"
  using keep_from_suffix [of est budget "[]" "rev es"] by (auto simp: keep_newest_that_fit_def suffix_def)

lemma keep_from_not_empty: "kept \<noteq> [] \<or> older \<noteq> [] \<Longrightarrow> keep_from est budget kept older \<noteq> []"
  by (induction older arbitrary: kept) auto

lemma keep_newest_not_empty: "es \<noteq> [] \<Longrightarrow> keep_newest_that_fit est budget es \<noteq> []"
  by (simp add: keep_newest_that_fit_def keep_from_not_empty)

lemma suffix_last: "suffix xs ys \<Longrightarrow> xs \<noteq> [] \<Longrightarrow> last xs = last ys"
  by (auto simp: suffix_def)

lemma first_user_bound: "first_user es = Some i \<Longrightarrow> i < length es \<and> entry_role (es ! i) = ''user''"
  by (induction es arbitrary: i) (auto split: if_splits)

lemma task_and_tail_shape:
  assumes "task_and_tail est budget folded = Some kept"
  shows "\<exists>i tail. first_user folded = Some i \<and> Suc i < length folded \<and> kept = (folded ! i) # tail \<and> tail \<noteq> []
    \<and> suffix tail (drop 1 folded) \<and> est kept \<le> budget"
proof -
  obtain i where i: "first_user folded = Some i" "Suc i \<noteq> length folded"
    using assms by (auto simp: task_and_tail_def split: option.splits if_splits)
  then have "Suc i < length folded" using first_user_bound [of folded i] by simp
  then have "drop 1 folded \<noteq> []" by simp
  then show ?thesis
    using assms i \<open>Suc i < length folded\<close> keep_newest_suffix keep_newest_not_empty
    by (auto simp: task_and_tail_def Let_def split: if_splits)
qed

lemma rs_messages_reduce:
  "rs_messages (reduce est budget es) =
     (if es = [] \<or> est es \<le> budget then es
      else if est (fold_bulky es) \<le> budget then fold_bulky es
      else case task_and_tail est budget (fold_bulky es) of Some kept \<Rightarrow> kept | None \<Rightarrow> [last es])"
  by (simp add: reduce_def Let_def untouched_def split: option.split)

lemma reduce_cases:
  obtains (untouched) "reduce est budget es = untouched es" "es = [] \<or> est es \<le> budget"
  | (folded) "rs_messages (reduce est budget es) = fold_bulky es" "est (fold_bulky es) \<le> budget" "\<not> est es \<le> budget" "es \<noteq> []"
  | (tail) i tail where "first_user (fold_bulky es) = Some i" "Suc i < length es" "tail \<noteq> []"
      "suffix tail (drop 1 (fold_bulky es))" "rs_messages (reduce est budget es) = (fold_bulky es ! i) # tail"
      "est ((fold_bulky es ! i) # tail) \<le> budget" "\<not> est es \<le> budget" "es \<noteq> []"
  | (newest) "rs_messages (reduce est budget es) = [last es]" "\<not> est es \<le> budget" "es \<noteq> []"
proof -
  consider "es = [] \<or> est es \<le> budget" | "es \<noteq> []" "\<not> est es \<le> budget" "est (fold_bulky es) \<le> budget"
    | kept where "es \<noteq> []" "\<not> est es \<le> budget" "\<not> est (fold_bulky es) \<le> budget" "task_and_tail est budget (fold_bulky es) = Some kept"
    | "es \<noteq> []" "\<not> est es \<le> budget" "\<not> est (fold_bulky es) \<le> budget" "task_and_tail est budget (fold_bulky es) = None"
    by fastforce
  then show ?thesis
  proof cases
    case 1
    then show ?thesis by (intro untouched) (auto simp: reduce_def)
  next
    case 2
    then show ?thesis by (intro folded) (auto simp: reduce_def Let_def)
  next
    case (3 kept)
    obtain i tl where t: "first_user (fold_bulky es) = Some i" "Suc i < length (fold_bulky es)" "kept = (fold_bulky es ! i) # tl" "tl \<noteq> []"
      "suffix tl (drop 1 (fold_bulky es))" "est kept \<le> budget" using task_and_tail_shape [OF 3(4)] by blast
    have "rs_messages (reduce est budget es) = kept" using 3 by (simp add: reduce_def Let_def)
    then show ?thesis using t 3(1,2) by (intro tail [of i tl]) auto
  next
    case 4
    then show ?thesis by (intro newest) (auto simp: reduce_def Let_def)
  qed
qed

text \<open>C24: whatever the estimate counts, a thread that fits comes back untouched; otherwise what
  comes back ends with the newest entry, and fits the budget unless it is that entry alone.\<close>

theorem reduce_keeps_newest_and_fits:
  assumes "es \<noteq> []"
  shows "(est es \<le> budget \<longrightarrow> reduce est budget es = untouched es)
    \<and> rs_messages (reduce est budget es) \<noteq> [] \<and> last (rs_messages (reduce est budget es)) = last es
    \<and> (est (rs_messages (reduce est budget es)) \<le> budget \<or> rs_messages (reduce est budget es) = [last es])"
proof (cases rule: reduce_cases [of est budget es])
  case untouched
  then show ?thesis using assms by (simp add: untouched_def)
next
  case folded
  then show ?thesis using assms fold_bulky_last [of es] by (auto simp flip: length_greater_0_conv)
next
  case (tail i tl)
  have "last tl = last (drop 1 (fold_bulky es))" using suffix_last tail(3,4) by blast
  also have "\<dots> = last es" using fold_bulky_last [OF assms] tail(2) by (simp add: last_drop)
  finally show ?thesis using tail by simp
next
  case newest
  then show ?thesis by simp
qed

text \<open>A text of one-token characters, and a thread small enough to compute with.\<close>

definition said :: "string \<Rightarrow> nat \<Rightarrow> entry" where
  "said role n = Stored (chat_message_of role (replicate n 0x4e00))"

definition no_args :: "json \<Rightarrow> ustring" where
  "no_args v = []"

lemma count_tokens_cjk [simp]: "count_tokens (replicate n 0x4e00) = n"
  by (simp add: count_tokens_def is_cjk_def CJK_RANGES_def filter_replicate round_quarter_def)

lemma estimate_said [simp]: "estimate_entry no_args (said role n) = n"
  by (simp add: estimate_entry_def said_def chat_message_of_def)

lemma said_simps [simp]: "entry_role (said role n) = role" "entry_content (said role n) = replicate n 0x4e00"
  by (simp_all add: said_def chat_message_of_def)

lemmas reduce_eval = rs_messages_reduce task_and_tail_def keep_newest_that_fit_def fold_bulky_def fold_if_bulky_def estimate_messages_def Let_def

lemma reduce_keeps_newest_and_fits_witness:
  "last (rs_messages (reduce (estimate_messages no_args) 3 [said ''user'' 2, said ''assistant'' 2, said ''user'' 1])) = said ''user'' 1
   \<and> rs_messages (reduce (estimate_messages no_args) 3 [said ''user'' 2, said ''assistant'' 2, said ''user'' 1]) = [said ''user'' 2, said ''user'' 1]"
proof -
  let ?es = "[said ''user'' 2, said ''assistant'' 2, said ''user'' 1]"
  have "?es \<noteq> []" by simp
  from reduce_keeps_newest_and_fits [OF this, of "estimate_messages no_args" 3]
  have "last (rs_messages (reduce (estimate_messages no_args) 3 ?es)) = last ?es" by (elim conjE)
  moreover have "last ?es = said ''user'' 1" by simp
  ultimately have 1: "last (rs_messages (reduce (estimate_messages no_args) 3 ?es)) = said ''user'' 1" by (rule trans)
  have "rs_messages (reduce (estimate_messages no_args) 3 ?es) = [said ''user'' 2, said ''user'' 1]" by (simp add: reduce_eval)
  with 1 show ?thesis by (rule conjI)
qed

lemma first_user_head: "entry_role (hd es) = ''user'' \<Longrightarrow> es \<noteq> [] \<Longrightarrow> first_user es = Some 0"
  by (cases es) auto

lemma fold_bulky_head: "es \<noteq> [] \<Longrightarrow> entry_role (hd (fold_bulky es)) = entry_role (hd es)"
  using fold_bulky_roles [of es] by (cases es; cases "fold_bulky es") auto

text \<open>a thread that opens with what a user said is cut without repeating, reordering or
  inventing anything: what is kept is a subsequence of the thread, or of the thread with its bulky
  tool output folded, and opens with the same request unless it is the newest entry alone.\<close>

theorem reduce_cuts_only:
  assumes "es \<noteq> []" "entry_role (hd es) = ''user''"
  shows "(subseq (rs_messages (reduce est budget es)) es \<or> subseq (rs_messages (reduce est budget es)) (fold_bulky es))
    \<and> (rs_messages (reduce est budget es) = [last es] \<or> entry_role (hd (rs_messages (reduce est budget es))) = ''user'')"
proof -
  have ne: "fold_bulky es \<noteq> []" using assms(1) by simp
  have head: "first_user (fold_bulky es) = Some 0" using first_user_head fold_bulky_head assms ne by simp
  have user: "entry_role (hd (fold_bulky es)) = ''user''" using fold_bulky_head assms by simp
  show ?thesis
  proof (cases rule: reduce_cases [of est budget es])
    case untouched
    then show ?thesis using assms by (simp add: untouched_def)
  next
    case folded
    then show ?thesis using user by simp
  next
    case (tail i tl)
    have "i = 0" using tail(1) head by simp
    have "fold_bulky es = hd (fold_bulky es) # drop 1 (fold_bulky es)" using ne by (cases "fold_bulky es") auto
    moreover have "subseq tl (drop 1 (fold_bulky es))" using tail(4) by (rule suffix_imp_subseq)
    ultimately have "subseq (hd (fold_bulky es) # tl) (fold_bulky es)" by (metis subseq_Cons2)
    then show ?thesis using tail(5) \<open>i = 0\<close> user ne by (simp add: hd_conv_nth)
  next
    case newest
    have "subseq [last es] es" using assms(1) by (metis append_butlast_last_id suffixI suffix_imp_subseq)
    then show ?thesis using newest by simp
  qed
qed

lemma reduce_cuts_only_witness:
  "rs_messages (reduce (estimate_messages no_args) 3 [said ''user'' 2, said ''assistant'' 2, said ''assistant'' 1]) = [said ''user'' 2, said ''assistant'' 1]
   \<and> entry_role (hd (rs_messages (reduce (estimate_messages no_args) 3 [said ''user'' 2, said ''assistant'' 2, said ''assistant'' 1]))) = ''user''"
proof -
  let ?es = "[said ''user'' 2, said ''assistant'' 2, said ''assistant'' 1]"
  have v: "rs_messages (reduce (estimate_messages no_args) 3 ?es) = [said ''user'' 2, said ''assistant'' 1]" by (simp add: reduce_eval)
  have p: "?es \<noteq> []" "entry_role (hd ?es) = ''user''" by simp_all
  from reduce_cuts_only [OF p, of "estimate_messages no_args" 3]
  have "entry_role (hd (rs_messages (reduce (estimate_messages no_args) 3 ?es))) = ''user''" unfolding v by (simp add: said_def)
  with v show ?thesis by (rule conjI)
qed

text \<open>a thread that opens with a compaction summary does not: when the rest fits beside the
  user's first message, that message is sent twice and the summary, which stands for everything
  said before, is what is given up, with no message reported as dropped.\<close>

theorem summarised_thread_repeats_request:
  assumes "0 < t" "t \<le> s"
  shows "rs_messages (reduce (estimate_messages no_args) (int (t + t + a + b)) [said ''summary'' (s + 1), said ''user'' t, said ''assistant'' a, said ''user'' b])
    = [said ''user'' t, said ''user'' t, said ''assistant'' a, said ''user'' b]"
  using assms by (simp add: reduce_eval)

lemma summarised_thread_repeats_request_witness:
  "rs_messages (reduce (estimate_messages no_args) 40 [said ''summary'' 31, said ''user'' 5, said ''assistant'' 20, said ''user'' 10])
    = [said ''user'' 5, said ''user'' 5, said ''assistant'' 20, said ''user'' 10]"
  using summarised_thread_repeats_request [of 5 30 20 10] by simp

section \<open>The budget\<close>

lemma py_int_le: "0 \<le> x \<Longrightarrow> 0 \<le> py_int x \<and> of_int (py_int x) \<le> x"
  by (simp add: py_int_def)

lemma py_int_shrinks: "0 \<le> n \<Longrightarrow> 0 \<le> margin \<Longrightarrow> margin \<le> 1 \<Longrightarrow> py_int (of_int n * (1 - margin)) \<le> n"
proof -
  assume n: "0 \<le> n" and m: "0 \<le> margin" "margin \<le> 1"
  have "of_int n * (1 - margin) \<le> (of_int n :: rat)" using n m by (simp add: algebra_simps)
  moreover have "of_int (py_int (of_int n * (1 - margin))) \<le> of_int n * (1 - margin)" using n m by (intro py_int_le [THEN conjunct2]) simp
  ultimately have "of_int (py_int (of_int n * (1 - margin))) \<le> (of_int n :: rat)" by linarith
  then show ?thesis by simp
qed

text \<open>whatever the ladder answers, a history budget together with the prompt, the reply's
  reserve and the margin stays within the ceiling it came from; a stated ceiling always gives a
  budget, and a derived one only when it leaves room.\<close>

theorem history_budget_within_ceiling:
  assumes "0 \<le> margin" "margin \<le> 1" "fst limit = Some n" "0 < n"
  shows "(case history_budget limit overhead reserve margin of
      Some b \<Rightarrow> 0 \<le> b \<and> (0 < b \<longrightarrow> b + max 0 overhead + max 0 reserve \<le> n) \<and> (snd limit = FromEstimated \<longrightarrow> 0 < b)
    | None \<Rightarrow> snd limit = FromEstimated \<and> py_int (of_int n * (1 - margin)) \<le> max 0 overhead + max 0 reserve)"
proof -
  have "py_int (of_int n * (1 - margin)) \<le> n" using assms by (intro py_int_shrinks) auto
  then show ?thesis using assms(3) by (auto simp: history_budget_def usable_window_def split: option.splits if_splits)
qed

lemma history_budget_within_ceiling_witness:
  "history_budget (Some 8192, FromLearned) 3000 2000 (1 / 10) = Some 2372 \<and> (2372 :: int) + 3000 + 2000 \<le> 8192"
proof -
  have v: "history_budget (Some 8192, FromLearned) 3000 2000 (1 / 10) = Some 2372"
    by (simp add: history_budget_def usable_window_def py_int_def floor_eq_iff)
  have p: "0 \<le> (1 / 10 :: rat)" "(1 / 10 :: rat) \<le> 1" "fst (Some 8192, FromLearned) = Some (8192 :: int)" "(0 :: int) < 8192" by simp_all
  from history_budget_within_ceiling [OF p, of 3000 2000] v show ?thesis by simp
qed

section \<open>The retry\<close>

lemma halve_shorter: "1 < length es \<Longrightarrow> length (halve_history es) < length es"
  by (simp add: halve_history_def)

definition trim_ok :: "history_trim \<Rightarrow> entry list \<Rightarrow> bool" where
  "trim_ok ht orig \<longleftrightarrow> ht_original ht \<le> length orig"

text \<open>What stands before this turn's own items.\<close>

definition trim_history :: "history_trim \<Rightarrow> entry list \<Rightarrow> entry list" where
  "trim_history ht orig = (case ht_kept ht of Some kept \<Rightarrow> kept | None \<Rightarrow> take (ht_original ht) orig)"

lemma trim_apply_split: "trim_ok ht orig \<Longrightarrow> trim_apply ht orig = trim_history ht orig @ drop (ht_original ht) orig"
  by (simp add: trim_apply_def trim_history_def split: option.split)

lemma trim_held: "trim_ok ht orig \<Longrightarrow> (case ht_kept ht of Some kept \<Rightarrow> length kept | None \<Rightarrow> ht_original ht) = length (trim_history ht orig)"
  by (simp add: trim_ok_def trim_history_def split: option.split)

lemma trim_shrink_step:
  assumes "trim_ok ht orig" "trim_shrink est stated overhead ht (trim_apply ht orig) = (ht', Some out)"
  shows "trim_ok ht' orig \<and> out = trim_apply ht' orig \<and> drop (ht_original ht) orig = drop (ht_original ht') orig
    \<and> est (trim_history ht' orig) < est (trim_history ht orig)"
proof -
  let ?h = "trim_history ht orig"
  have t: "take (length ?h) (trim_apply ht orig) = ?h" "drop (length ?h) (trim_apply ht orig) = drop (ht_original ht) orig"
    by (simp_all add: trim_apply_split [OF assms(1)])
  have "ht' = ht\<lparr>ht_kept := Some (shrink_history est ?h stated overhead)\<rparr> \<and> out = shrink_history est ?h stated overhead @ drop (ht_original ht) orig
      \<and> est (shrink_history est ?h stated overhead) < est ?h"
    using assms(2) unfolding trim_shrink_def trim_held [OF assms(1)] Let_def t by (auto split: if_splits)
  then show ?thesis using assms(1) by (simp add: trim_ok_def trim_apply_def trim_history_def)
qed

text \<open>The cuts of one turn, one for each rejection in the order they come.\<close>

fun trims :: "(entry list \<Rightarrow> int) \<Rightarrow> int \<Rightarrow> entry list \<Rightarrow> history_trim \<Rightarrow> int option list \<Rightarrow> history_trim option" where
  "trims est overhead orig ht [] = Some ht"
| "trims est overhead orig ht (stated # rest) =
     (case trim_shrink est stated overhead ht (trim_apply ht orig) of
        (ht', Some out) \<Rightarrow> trims est overhead orig ht' rest
      | (ht', None) \<Rightarrow> None)"

text \<open>however often the endpoint rejects the calls of a turn, and whatever ceilings it states,
  each accepted cut makes the history smaller, so there are no more of them than its estimate
  counts tokens, and what this turn did itself goes out complete behind the cut every time.\<close>

theorem trims_progress:
  assumes "\<And>es. 0 \<le> est es" "ht_original ht \<le> length orig" "trims est overhead orig ht stated = Some ht'"
  shows "int (length stated) \<le> est (trim_history ht orig) - est (trim_history ht' orig)
    \<and> trim_apply ht' orig = trim_history ht' orig @ drop (ht_original ht) orig"
  using assms(2,3)
proof (induction stated arbitrary: ht)
  case Nil
  then show ?case by (simp add: trim_apply_split trim_ok_def)
next
  case (Cons s rest)
  obtain h out where h: "trim_shrink est s overhead ht (trim_apply ht orig) = (h, Some out)" "trims est overhead orig h rest = Some ht'"
    using Cons.prems(2) by (auto split: prod.splits option.splits)
  have ok: "trim_ok ht orig" using Cons.prems(1) by (simp add: trim_ok_def)
  note st = trim_shrink_step [OF ok h(1)]
  have "int (length rest) \<le> est (trim_history h orig) - est (trim_history ht' orig)
    \<and> trim_apply ht' orig = trim_history ht' orig @ drop (ht_original h) orig"
    using Cons.IH [OF _ h(2)] st by (simp add: trim_ok_def)
  then show ?case using st by auto
qed

lemma trims_progress_witness:
  "trims (estimate_messages no_args) 0 [said ''user'' 3, said ''assistant'' 4, said ''user'' 1, said ''user'' 9] \<lparr>ht_original = 3, ht_kept = None\<rparr> [None]
     = Some \<lparr>ht_original = 3, ht_kept = Some [said ''assistant'' 4, said ''user'' 1]\<rparr>
   \<and> (1 :: int) \<le> 8 - 5"
proof -
  let ?h = "\<lparr>ht_original = 3, ht_kept = None\<rparr>"
  let ?h' = "\<lparr>ht_original = 3, ht_kept = Some [said ''assistant'' 4, said ''user'' 1]\<rparr>"
  let ?in = "[said ''user'' 3, said ''assistant'' 4, said ''user'' 1, said ''user'' 9]"
  have v: "trims (estimate_messages no_args) 0 ?in ?h [None] = Some ?h'"
    by (simp add: trim_shrink_def trim_apply_def shrink_history_def halve_history_def estimate_messages_def)
  have p: "0 \<le> estimate_messages no_args es" for es by (simp add: estimate_messages_def)
  have "int (length [None :: int option]) \<le> estimate_messages no_args (trim_history ?h ?in) - estimate_messages no_args (trim_history ?h' ?in)"
    using trims_progress [OF p _ v] by simp
  then show ?thesis using v by (simp add: trim_history_def estimate_messages_def)
qed

text \<open>Every result stands right behind its call.\<close>

fun calls_paired :: "entry list \<Rightarrow> bool" where
  "calls_paired [] = True"
| "calls_paired (Returned c out # es) = False"
| "calls_paired (Called c tool args # Returned c' out # es) = (c = c' \<and> calls_paired es)"
| "calls_paired (Called c tool args # es) = False"
| "calls_paired (e # es) = calls_paired es"

text \<open>a rejected call whose error states the ceiling is still cut blindly: what a tool returned
  weighs nothing in the estimate of the items sent, however long it is, so the history is judged
  to fit and halved instead, and the half can begin with a result whose call is gone.\<close>

theorem stated_ceiling_still_halves:
  "calls_paired [Said ''user'' q, Called c tool args, Returned c out, Said ''assistant'' a]
    \<and> estimate_entry shown (Returned c out) = 0
    \<and> (estimate_messages shown [Said ''user'' q, Called c tool args] > 0 \<longrightarrow>
       estimate_messages shown [Said ''user'' q, Called c tool args, Said ''assistant'' a] \<le> 5372 \<longrightarrow>
       snd (trim_shrink (estimate_messages shown) (Some 8192) 0 \<lparr>ht_original = 4, ht_kept = None\<rparr>
              [Said ''user'' q, Called c tool args, Returned c out, Said ''assistant'' a])
         = Some [Returned c out, Said ''assistant'' a])"
proof -
  have b: "history_budget (Some 8192, FromLearned) 0 DEFAULT_REPLY_RESERVE DEFAULT_MARGIN_RATIO = Some 5372"
    by (simp add: history_budget_def usable_window_def py_int_def floor_eq_iff DEFAULT_REPLY_RESERVE_def DEFAULT_MARGIN_RATIO_def)
  have z: "estimate_entry shown (Returned c out) = 0"
    by (simp add: estimate_entry_def count_tokens_def round_quarter_def)
  show ?thesis using z
    by (auto simp: trim_shrink_def shrink_history_def b halve_history_def rs_messages_reduce estimate_messages_def Let_def)
qed

lemma stated_ceiling_still_halves_witness:
  "snd (trim_shrink (estimate_messages no_args) (Some 8192) 0 \<lparr>ht_original = 4, ht_kept = None\<rparr>
      [Said ''user'' (replicate 7 0x4e00), Called ''c'' ''exec'' [], Returned ''c'' (replicate 90000 120), Said ''assistant'' []])
    = Some [Returned ''c'' (replicate 90000 120), Said ''assistant'' []]"
proof -
  have e: "estimate_entry no_args (Said ''user'' (replicate 7 0x4e00)) = 7" "estimate_entry no_args (Called ''c'' ''exec'' []) = 0"
    "estimate_entry no_args (Said ''assistant'' []) = 0"
    by (simp_all add: estimate_entry_def count_tokens_def [of "[]"] round_quarter_def)
  show ?thesis
    using stated_ceiling_still_halves [of "replicate 7 0x4e00" "''c''" "''exec''" "[]" "replicate 90000 120" "[]" no_args]
    unfolding estimate_messages_def by (simp add: e)
qed

section \<open>What is learned\<close>

datatype limit_report = Stated "string \<times> string" int | Seen "string \<times> string" int

fun learn :: "limit_report \<Rightarrow> learner \<Rightarrow> learner" where
  "learn (Stated k n) lr = learn_exact k n lr"
| "learn (Seen k n) lr = observe k n lr"

fun report_key :: "limit_report \<Rightarrow> string \<times> string" where
  "report_key (Stated k n) = k"
| "report_key (Seen k n) = k"

fun report_limit :: "limit_report \<Rightarrow> int" where
  "report_limit (Stated k n) = n"
| "report_limit (Seen k n) = n"

text \<open>What a learner may hold for an endpoint after these reports.\<close>

definition ceiling_ok :: "limit_report list \<Rightarrow> string \<times> string \<Rightarrow> int option \<Rightarrow> bool" where
  "ceiling_ok reports k learned \<longleftrightarrow>
     (case learned of None \<Rightarrow> True | Some n \<Rightarrow> 0 < n \<and> (\<exists>r\<in>set reports. report_key r = k \<and> report_limit r = n))"

definition sightings_ok :: "limit_report list \<Rightarrow> nat \<Rightarrow> string \<times> string \<Rightarrow> int list option \<Rightarrow> bool" where
  "sightings_ok reports wanted k pending \<longleftrightarrow>
     (case pending of None \<Rightarrow> True | Some s \<Rightarrow> s \<noteq> [] \<and> length s < wanted \<and> (\<forall>n\<in>set s. 0 < n \<and> Seen k n \<in> set reports))"

definition learner_ok :: "limit_report list \<Rightarrow> learner \<Rightarrow> bool" where
  "learner_ok reports lr \<longleftrightarrow> 0 < ln_confirmations lr
     \<and> (\<forall>k. ceiling_ok reports k (ln_learned lr k) \<and> sightings_ok reports (ln_confirmations lr) k (ln_pending lr k))"

lemma learner_ok_more: "learner_ok reports lr \<Longrightarrow> learner_ok (r # reports) lr"
  unfolding learner_ok_def ceiling_ok_def sightings_ok_def by (fastforce split: option.splits)

lemma learner_ok_learned:
  assumes "learner_ok reports lr" "ceiling_ok reports k (Some n)"
  shows "learner_ok reports (lr\<lparr>ln_learned := (ln_learned lr)(k \<mapsto> n), ln_pending := (ln_pending lr)(k := None)\<rparr>)"
  using assms by (simp add: learner_ok_def sightings_ok_def)

lemma learn_exact_ok:
  assumes "learner_ok reports lr"
  shows "learner_ok (Stated k n # reports) (learn_exact k n lr)"
proof (cases "0 < n")
  case True
  then have "ceiling_ok (Stated k n # reports) k (Some n)" by (simp add: ceiling_ok_def)
  then show ?thesis using True learner_ok_learned [OF learner_ok_more [OF assms]] by (simp add: learn_exact_def)
next
  case False
  then show ?thesis using learner_ok_more [OF assms] by (simp add: learn_exact_def)
qed

lemma observe_ok:
  assumes "learner_ok reports lr"
  shows "learner_ok (Seen k n # reports) (observe k n lr)"
proof (cases "0 < n")
  case True
  note base = learner_ok_more [OF assms, of "Seen k n"]
  obtain old where old: "old = (case ln_pending lr k of None \<Rightarrow> [] | Some s \<Rightarrow> s)" by simp
  have "sightings_ok reports (ln_confirmations lr) k (ln_pending lr k)" using assms unfolding learner_ok_def by blast
  then have seen: "0 < m \<and> Seen k m \<in> set (Seen k n # reports)" if "m \<in> set (old @ [n])" for m
    using that True by (auto simp: old sightings_ok_def split: option.splits)
  show ?thesis
  proof (cases "ln_confirmations lr \<le> length (old @ [n])")
    case True
    then have o: "observe k n lr = lr\<lparr>ln_learned := (ln_learned lr)(k \<mapsto> Min (set (old @ [n]))), ln_pending := (ln_pending lr)(k := None)\<rparr>"
      using \<open>0 < n\<close> by (simp add: observe_def Let_def flip: old)
    have "Min (set (old @ [n])) \<in> set (old @ [n])" by (rule Min_in) simp_all
    then have "ceiling_ok (Seen k n # reports) k (Some (Min (set (old @ [n]))))"
      using seen unfolding ceiling_ok_def option.case by (metis report_key.simps(2) report_limit.simps(2))
    then show ?thesis unfolding o by (rule learner_ok_learned [OF base])
  next
    case False
    then have o: "observe k n lr = lr\<lparr>ln_pending := (ln_pending lr)(k \<mapsto> old @ [n])\<rparr>"
      using \<open>0 < n\<close> by (simp add: observe_def Let_def flip: old)
    have "sightings_ok (Seen k n # reports) (ln_confirmations lr) k (Some (old @ [n]))"
      using seen False by (simp add: sightings_ok_def)
    then show ?thesis unfolding o using base by (simp add: learner_ok_def)
  qed
next
  case False
  then show ?thesis using learner_ok_more [OF assms] by (simp add: observe_def)
qed

text \<open>whatever endpoints report, a ceiling that governs is one that endpoint itself reported and
  is positive, and an inferred one that does not govern yet was seen fewer times than asked for.\<close>

theorem learned_ceilings_were_reported:
  "learner_ok (rev reports) (foldl (\<lambda>lr r. learn r lr) (new_learner confirmations) reports)"
proof (induction reports rule: rev_induct)
  case Nil
  show ?case by (simp add: learner_ok_def new_learner_def ceiling_ok_def sightings_ok_def)
next
  case (snoc r reports)
  then show ?case by (cases r) (simp_all add: learn_exact_ok observe_ok)
qed

text \<open>the smallest sighting does not stay: two larger ones later raise the ceiling again, over a
  smaller sighting and over a ceiling the endpoint stated itself.\<close>

theorem sightings_raise_a_stated_ceiling:
  assumes "0 < n" "n < m"
  shows "ln_learned (learn (Seen k m) (learn (Seen k m) (learn (Stated k n) (new_learner 2)))) k = Some m
    \<and> ln_learned (learn (Stated k n) (new_learner 2)) k = Some n"
  using assms by (simp add: learn_exact_def observe_def new_learner_def Let_def numeral_2_eq_2)

lemma sightings_raise_a_stated_ceiling_witness:
  "ln_learned (learn (Seen (''m'', '''') 9000) (learn (Seen (''m'', '''') 9000) (learn (Stated (''m'', '''') 4096) (new_learner 2)))) (''m'', '''') = Some 9000"
  using sightings_raise_a_stated_ceiling [of 4096 9000 "(''m'', '''')"] by simp

end
