(* ===== verification/Thread.thy ===== *)
theory Thread
  imports ContextFit
begin

text \<open>
  The stored thread of a chat: what a turn adds to it and where (\<open>api/turns.py\<close>,
  \<open>api/chat_send.py\<close>, \<open>api/rca_messages.py\<close>), what of it the model is sent (\<open>history_items\<close>), what it
  costs (\<open>context_usage\<close>), and its compaction (\<open>api/compaction.py\<close>).

  The directory of users is a function to the speaker's label, if there is one.  Citations, the
  sources a reply may not show and the fields only the page reads are left out of a message.
\<close>

section \<open>Messages and their keys\<close>

text \<open>The newest summary before an index; none is the start of the thread.\<close>

fun summary_before :: "chat_message list \<Rightarrow> nat \<Rightarrow> nat" where
  "summary_before ms 0 = 0"
| "summary_before ms (Suc i) = (if cm_role (ms ! i) = ''summary'' then i else summary_before ms i)"

definition after_summary :: "chat_message list \<Rightarrow> nat" where
  "after_summary ms = summary_before ms (length ms)"

text \<open>\<open>_after_last_summary\<close>: where the newest summary is, and the thread from it on.\<close>

definition after_last_summary :: "chat_message list \<Rightarrow> nat \<times> chat_message list" where
  "after_last_summary ms = (after_summary ms, drop (after_summary ms) ms)"

definition FOLDED_ERROR_KINDS :: "string list" where
  "FOLDED_ERROR_KINDS = [''cancelled'', ''max_turns'', ''interrupted'']"

definition replays :: "chat_message \<Rightarrow> bool" where
  "replays m =
     (if cm_role m = ''error'' then (case cm_error_kind m of Some k \<Rightarrow> k \<in> set FOLDED_ERROR_KINDS | None \<Rightarrow> False)
      else if cm_role m \<in> set [''user'', ''assistant'', ''summary''] then cm_content m \<noteq> []
      else if cm_role m = ''tool'' then or_empty (cm_tool_call_id m) \<noteq> [] \<and> or_empty (cm_tool_name m) \<noteq> []
      else False)"

definition already_noticed :: "chat_message list \<Rightarrow> bool" where
  "already_noticed ms = list_ex (\<lambda>m. cm_role m = ''notice'') ms"

type_synonym message_key = "int \<times> string"

definition key_of :: "chat_message \<Rightarrow> message_key option" where
  "key_of m = (if cm_role m = ''user'' then Some (case cm_created_at m of Some t \<Rightarrow> t | None \<Rightarrow> 0, or_empty (cm_author m)) else None)"

fun thread_without :: "chat_message list \<Rightarrow> message_key list \<Rightarrow> chat_message list" where
  "thread_without [] keys = []"
| "thread_without (m # ms) keys =
     (case key_of m of
        Some k \<Rightarrow> if k \<in> set keys then thread_without ms (remove1 k keys) else m # thread_without ms keys
      | None \<Rightarrow> m # thread_without ms keys)"

definition is_person_message :: "int \<Rightarrow> string option \<Rightarrow> chat_message \<Rightarrow> bool" where
  "is_person_message t author m \<longleftrightarrow>
     cm_role m = ''user'' \<and> cm_created_at m = Some t \<and> (author = None \<or> cm_author m = author)"

definition is_sign_in :: "int \<Rightarrow> chat_message \<Rightarrow> bool" where
  "is_sign_in t m \<longleftrightarrow> cm_role m = ''sign_in'' \<and> cm_created_at m = Some t"

text \<open>What is taken, and the thread without it.\<close>

fun take_person_message :: "chat_message list \<Rightarrow> int \<Rightarrow> string option \<Rightarrow> chat_message list \<times> chat_message list" where
  "take_person_message [] t author = ([], [])"
| "take_person_message (m # ms) t author =
     (if is_person_message t author m then (m # takeWhile (is_sign_in t) ms, dropWhile (is_sign_in t) ms)
      else (case take_person_message ms t author of (taken, rest) \<Rightarrow> (taken, m # rest)))"

definition ABOUT_THE_TURN :: "string list" where
  "ABOUT_THE_TURN = [''notice'', ''summary'', ''sign_in'']"

text \<open>Whether something after the first of them was not there when they were sent.\<close>

fun unseen_after :: "message_key list \<Rightarrow> bool \<Rightarrow> chat_message list \<Rightarrow> message_key list \<Rightarrow> bool" where
  "unseen_after waiting after [] answering = False"
| "unseen_after waiting after (m # ms) answering =
     (if \<not> after then unseen_after waiting (case key_of m of Some k \<Rightarrow> k \<in> set answering | None \<Rightarrow> False) ms answering
      else if cm_role m \<in> set ABOUT_THE_TURN \<or> (case key_of m of Some k \<Rightarrow> k \<in> set waiting | None \<Rightarrow> False)
           then unseen_after waiting after ms answering
      else True)"

definition must_move :: "chat_message list \<Rightarrow> message_key list \<Rightarrow> message_key list \<Rightarrow> bool" where
  "must_move ms answering unanswered = unseen_after (answering @ unanswered) False ms answering"

section \<open>What a turn adds\<close>

definition AGENT_AUTHOR :: string where
  "AGENT_AUTHOR = ''RCA Agent''"

definition to_rca_message :: "turn_message \<Rightarrow> chat_message" where
  "to_rca_message m =
     (if tm_role m = Assistant
      then (chat_message_of ''assistant'' (us (tm_content m)))
             \<lparr>cm_author := Some AGENT_AUTHOR, cm_created_at := Some (tm_created_at m), cm_metrics := tm_metrics m\<rparr>
      else if tm_role m = Error
      then (chat_message_of ''error'' (us (tm_content m)))
             \<lparr>cm_error_kind := tm_error_kind m, cm_created_at := Some (tm_created_at m), cm_author := tm_author m\<rparr>
      else (chat_message_of ''tool'' (us (tm_content m)))
             \<lparr>cm_tool_call_id := tm_tool_call_id m, cm_tool_name := tm_tool_name m, cm_tool_args := tm_tool_args m,
              cm_created_at := Some (tm_created_at m)\<rparr>)"

definition persist_one :: "chat_message list \<Rightarrow> turn_message \<Rightarrow> chat_message list" where
  "persist_one ms tm =
     (if tm_role tm = Place
      then (case take_person_message ms (tm_created_at tm) (tm_author tm) of (taken, rest) \<Rightarrow> rest @ taken)
      else ms @ [to_rca_message tm])"

text \<open>A copy a peer took over persists nothing, and says so.\<close>

definition persist :: "bool \<Rightarrow> turn_message list \<Rightarrow> chat_message list \<Rightarrow> chat_message list \<times> bool" where
  "persist still_mine produced ms = (if still_mine then (foldl persist_one ms produced, True) else (ms, False))"

text \<open>A negative index counts from the end, and \<open>-0\<close> is the first.\<close>

definition undo_cut_index :: "chat_message list \<Rightarrow> int \<Rightarrow> step_exn + nat" where
  "undo_cut_index ms turns =
     (let user_idxs = filter (\<lambda>i. cm_role (ms ! i) = ''user'') [0..<length ms]
      in if int (length user_idxs) \<le> turns then Inr 0
         else if 0 < turns then Inr (user_idxs ! nat (int (length user_idxs) - turns))
         else if nat (- turns) < length user_idxs then Inr (user_idxs ! nat (- turns))
         else Inl (Raised ''IndexError''))"

section \<open>What the model is sent\<close>

definition INTERRUPTED_MARKER :: ustring where
  "INTERRUPTED_MARKER = us ''[Response interrupted by user]''"

definition STEP_LIMIT_MARKER :: ustring where
  "STEP_LIMIT_MARKER = us ''[Response stopped at the step limit before it finished]''"

definition TAKEOVER_MARKER :: ustring where
  "TAKEOVER_MARKER = us ''[Response interrupted by a new message from ''"

text \<open>The items so far, the latest first.\<close>

definition fold_cancellation_marker :: "ustring \<Rightarrow> entry list \<Rightarrow> entry list" where
  "fold_cancellation_marker marker items =
     (case items of
        Said role content # rest \<Rightarrow>
          if role = ''assistant''
          then (if suffix marker content then items else Said role (content @ [10, 10] @ marker) # rest)
          else Said ''assistant'' marker # items
      | _ \<Rightarrow> Said ''assistant'' marker # items)"

type_synonym directory = "(string \<Rightarrow> ustring) option"

definition attribute :: "directory \<Rightarrow> string option \<Rightarrow> ustring \<Rightarrow> ustring" where
  "attribute users author content =
     (case users of
        Some label \<Rightarrow> if or_empty author = [] then content else us ''['' @ label (or_empty author) @ us '']: '' @ content
      | None \<Rightarrow> content)"

definition ending_marker :: "directory \<Rightarrow> chat_message \<Rightarrow> ustring option" where
  "ending_marker users m =
     (if cm_error_kind m = Some ''cancelled'' then Some INTERRUPTED_MARKER
      else if cm_error_kind m = Some ''max_turns'' then Some STEP_LIMIT_MARKER
      else if cm_error_kind m = Some ''interrupted''
      then Some (TAKEOVER_MARKER
             @ (case users of
                  Some label \<Rightarrow> if or_empty (cm_author m) = [] then us ''someone'' else label (or_empty (cm_author m))
                | None \<Rightarrow> us ''someone'') @ us '']'')
      else None)"

text \<open>\<open>json.dumps\<close> of a tool's arguments, which escapes what is not ASCII.\<close>

definition ascii_char :: "char \<Rightarrow> string" where
  "ascii_char c = (if of_char c < (128 :: nat) then [c]
     else [CHR 0x5C, CHR ''u'', CHR ''0'', CHR ''0'', hex_digit (of_char c div 16), hex_digit (of_char c mod 16)])"

definition args_text :: "json option \<Rightarrow> ustring" where
  "args_text args = us (concat (map ascii_char (json_text (case args of Some a \<Rightarrow> if a = JNull then JObj [] else a | None \<Rightarrow> JObj []))))"

definition add_items :: "directory \<Rightarrow> entry list \<Rightarrow> entry \<Rightarrow> entry list" where
  "add_items users items e =
     (case e of
        Stored m \<Rightarrow>
          if cm_role m = ''error''
          then (case ending_marker users m of Some marker \<Rightarrow> fold_cancellation_marker marker items | None \<Rightarrow> items)
          else if cm_role m = ''summary'' then (if cm_content m = [] then items else Said ''user'' (cm_content m) # items)
          else if cm_role m = ''user'' \<and> cm_content m \<noteq> [] then Said ''user'' (attribute users (cm_author m) (cm_content m)) # items
          else if cm_role m = ''assistant'' \<and> cm_content m \<noteq> [] then Said ''assistant'' (cm_content m) # items
          else if cm_role m = ''tool'' \<and> or_empty (cm_tool_call_id m) \<noteq> [] \<and> or_empty (cm_tool_name m) \<noteq> []
          then Returned (or_empty (cm_tool_call_id m)) (cm_content m)
                 # Called (or_empty (cm_tool_call_id m)) (or_empty (cm_tool_name m)) (args_text (cm_tool_args m)) # items
          else items
      | _ \<Rightarrow> items)"

definition last_messages :: "int \<Rightarrow> 'a list \<Rightarrow> 'a list" where
  "last_messages n xs = (if n < 0 then drop (nat (- n)) xs else drop (length xs - nat n) xs)"

record history =
  hs_items :: "entry list"
  hs_dropped :: nat
  hs_note :: "ustring option"

definition CONTEXT_NOTICE :: ustring where
  "CONTEXT_NOTICE = [38656, 35201, 23427, 35352, 24471, 37027, 20123, 20839, 23481, 30340, 35441, 44, 35531, 38283, 19968, 20491, 26032, 23565, 35441, 12290]"

definition history_items :: "(entry list \<Rightarrow> int) \<Rightarrow> directory \<Rightarrow> int \<Rightarrow> int \<Rightarrow> chat_message list \<Rightarrow> history" where
  "history_items est users max_messages max_tokens messages =
     (let ms = filter replays (snd (after_last_summary messages));
          windowed = (if max_messages \<noteq> 0 then last_messages max_messages ms else ms);
          reduced = (if max_tokens \<noteq> 0 then reduce est max_tokens (map Stored windowed) else untouched (map Stored windowed))
      in \<lparr>hs_items = rev (foldl (add_items users) [] (rs_messages reduced)),
          hs_dropped = length ms - length (rs_messages reduced),
          hs_note = (if rs_changed reduced \<and> \<not> rs_lossless reduced then Some (rs_summary reduced @ CONTEXT_NOTICE) else None)\<rparr>)"

section \<open>What the thread costs\<close>

record thread_cost =
  cu_used :: int
  cu_limit :: "int option"
  cu_measured :: bool
  cu_source :: limit_source

definition prompt_of :: "chat_message \<Rightarrow> int" where
  "prompt_of m = (case cm_metrics m of Some x \<Rightarrow> mm_prompt_tokens x | None \<Rightarrow> 0)"

definition completion_of :: "chat_message \<Rightarrow> int" where
  "completion_of m = (case cm_metrics m of Some x \<Rightarrow> mm_completion_tokens x | None \<Rightarrow> 0)"

definition exact_of :: "chat_message \<Rightarrow> bool" where
  "exact_of m = (case cm_metrics m of Some x \<Rightarrow> mm_exact x | None \<Rightarrow> False)"

text \<open>When the newest summary was written, if there is one that says.\<close>

definition summarised_at :: "chat_message list \<Rightarrow> int option" where
  "summarised_at live = (case live of m # ms \<Rightarrow> if cm_role m = ''summary'' then cm_created_at m else None | [] \<Rightarrow> None)"

definition anchors :: "int option \<Rightarrow> chat_message \<Rightarrow> bool" where
  "anchors summarised m \<longleftrightarrow> cm_role m = ''assistant'' \<and> 0 < prompt_of m
     \<and> \<not> (case summarised of Some t \<Rightarrow> (case cm_created_at m of Some c \<Rightarrow> c | None \<Rightarrow> 0) < t | None \<Rightarrow> False)"

definition context_usage :: "(entry list \<Rightarrow> int) \<Rightarrow> context_limit \<Rightarrow> chat_message list \<Rightarrow> thread_cost" where
  "context_usage est limit messages =
     (let live = snd (after_last_summary messages)
      in case find (\<lambda>i. anchors (summarised_at live) (live ! i)) (rev [0..<length live]) of
           Some i \<Rightarrow>
             \<lparr>cu_used = prompt_of (live ! i) + completion_of (live ! i) + est (map Stored (filter replays (drop (Suc i) live))),
              cu_limit = fst limit, cu_measured = exact_of (live ! i), cu_source = snd limit\<rparr>
         | None \<Rightarrow>
             \<lparr>cu_used = est (map Stored (filter replays live)), cu_limit = fst limit, cu_measured = False, cu_source = snd limit\<rparr>)"

section \<open>Compaction\<close>

text \<open>The tail kept so far, and the older messages from the latest on.\<close>

fun keep_tail :: "(entry list \<Rightarrow> int) \<Rightarrow> int \<Rightarrow> entry list \<Rightarrow> int \<Rightarrow> entry list \<Rightarrow> entry list" where
  "keep_tail est keep kept spent [] = kept"
| "keep_tail est keep kept spent (m # older) =
     (if kept \<noteq> [] \<and> max 0 keep < spent + est [m] then kept
      else keep_tail est keep (m # kept) (spent + est [m]) older)"

text \<open>\<open>split_for_compaction\<close> of a thread that starts at its newest summary.\<close>

definition split_live :: "(entry list \<Rightarrow> int) \<Rightarrow> int \<Rightarrow> entry list \<Rightarrow> entry list \<times> entry list" where
  "split_live est keep live =
     (let kept = keep_tail est keep [] 0 (rev live) in (take (length live - length kept) live, kept))"

datatype refusal = Fits | Empty | NoRoom

record compaction_plan =
  cp_at :: nat
  cp_span :: "entry list"
  cp_refusal :: "refusal option"

definition refused :: "refusal \<Rightarrow> compaction_plan" where
  "refused r = \<lparr>cp_at = 0, cp_span = [], cp_refusal = Some r\<rparr>"

text \<open>The plan for a thread that has to give something up. Folding keeps every role, so the folded
  thread still starts at its newest summary and splitting it there again changes nothing.\<close>

definition planned :: "(entry list \<Rightarrow> int) \<Rightarrow> nat \<Rightarrow> int \<Rightarrow> entry list \<Rightarrow> compaction_plan" where
  "planned est start keep folded =
     (case split_live est keep folded of
        (front, kept) \<Rightarrow>
          \<lparr>cp_at = start + length front, cp_span = front, cp_refusal = (if front = [] then Some Empty else None)\<rparr>)"

definition plan_for_budget :: "(entry list \<Rightarrow> int) \<Rightarrow> chat_message list \<Rightarrow> int \<Rightarrow> int option \<Rightarrow> bool \<Rightarrow> compaction_plan" where
  "plan_for_budget est messages used budget force =
     (if \<not> force \<and> (case budget of None \<Rightarrow> True | Some b \<Rightarrow> used \<le> b) then refused Fits
      else let live = map Stored (snd (after_last_summary messages));
               folded = fold_bulky live;
               own = est folded;
               freed = max 0 (est live - own);
               overhead = max 0 (used - freed - own);
               room = (case budget of None \<Rightarrow> own | Some b \<Rightarrow> b - overhead)
           in if \<not> force \<and> (case budget of None \<Rightarrow> False | Some b \<Rightarrow> used - freed \<le> b) then refused Fits
              else if room \<le> 0 then refused NoRoom
              else planned est (fst (after_last_summary messages)) (max 0 (min room own) div 2) folded)"

datatype compaction_outcome = Compacted | Refused refusal | Failed | Unavailable | StoppedByPerson

datatype summary_result = Summary ustring | SummaryCancelled | SummaryRaised

definition is_space :: "nat \<Rightarrow> bool" where
  "is_space c \<longleftrightarrow> c \<in> set ([9..<14] @ [28..<33] @ [133, 160, 5760] @ [8192..<8203] @ [8232, 8233, 8239, 8287, 12288])"

definition insert_at :: "nat \<Rightarrow> 'a \<Rightarrow> 'a list \<Rightarrow> 'a list" where
  "insert_at i x xs = take i xs @ [x] @ drop i xs"

definition summary_message :: "int \<Rightarrow> ustring \<Rightarrow> chat_message" where
  "summary_message now t = (chat_message_of ''summary'' t)\<lparr>cm_created_at := Some now\<rparr>"

text \<open>\<open>compact\<close>: \<open>conv\<close> is the thread as it was read when the message was accepted, \<open>store\<close> what
  the store holds when the summary is there.\<close>

definition compact :: "bool \<Rightarrow> compaction_plan \<Rightarrow> summary_result \<Rightarrow> int \<Rightarrow> chat_message list \<Rightarrow> chat_message list
    \<Rightarrow> compaction_outcome \<times> chat_message list \<times> chat_message list" where
  "compact available plan result now conv store =
     (if \<not> available then (Unavailable, conv, store)
      else if cp_span plan = [] then (Refused (case cp_refusal plan of Some r \<Rightarrow> r | None \<Rightarrow> Empty), conv, store)
      else case result of
             SummaryCancelled \<Rightarrow> (StoppedByPerson, conv, store)
           | SummaryRaised \<Rightarrow> (Failed, conv, store)
           | Summary t \<Rightarrow>
               if list_all is_space t then (Failed, conv, store)
               else (let conv' = insert_at (cp_at plan) (summary_message now t) conv in (Compacted, conv', conv')))"

section \<open>The newest summary\<close>

lemma summary_before_none: "\<forall>i<n. cm_role (ms ! i) \<noteq> ''summary'' \<Longrightarrow> summary_before ms n = 0"
  by (induction n) auto

lemma summary_before_found: "i < n \<Longrightarrow> cm_role (ms ! i) = ''summary'' \<Longrightarrow> \<forall>j<n. i < j \<longrightarrow> cm_role (ms ! j) \<noteq> ''summary'' \<Longrightarrow> summary_before ms n = i"
  by (induction n) (auto simp: less_Suc_eq)

lemma after_summary_none: "\<forall>m\<in>set ms. cm_role m \<noteq> ''summary'' \<Longrightarrow> after_summary ms = 0"
  by (simp add: after_summary_def summary_before_none)

lemma after_summary_append:
  assumes "\<forall>m\<in>set ms2. cm_role m \<noteq> ''summary''" "cm_role m = ''summary''"
  shows "after_summary (ms1 @ m # ms2) = length ms1"
proof -
  have "cm_role ((ms1 @ m # ms2) ! j) \<noteq> ''summary''" if "j < length (ms1 @ m # ms2)" "length ms1 < j" for j
  proof -
    have "(ms1 @ m # ms2) ! j = ms2 ! (j - Suc (length ms1))" using that by (simp add: nth_append nth_Cons')
    moreover have "j - Suc (length ms1) < length ms2" using that by simp
    ultimately show ?thesis using assms(1) by simp
  qed
  then show ?thesis unfolding after_summary_def using assms(2) by (intro summary_before_found) auto
qed

lemma after_summary_split:
  "\<exists>old tail. ms = old @ tail \<and> after_summary ms = length old
     \<and> (\<forall>m\<in>set (drop 1 tail). cm_role m \<noteq> ''summary'')
     \<and> ((\<forall>m\<in>set ms. cm_role m \<noteq> ''summary'') \<and> old = [] \<or> tail \<noteq> [] \<and> cm_role (hd tail) = ''summary'')"
proof (cases "\<exists>m\<in>set ms. cm_role m = ''summary''")
  case True
  then obtain m old tail where "ms = old @ m # tail" "cm_role m = ''summary''" "\<forall>x\<in>set tail. cm_role x \<noteq> ''summary''"
    using split_list_last_prop [OF True] by blast
  then show ?thesis using after_summary_append by (intro exI [of _ old] exI [of _ "m # tail"]) simp
next
  case False
  then have "after_summary ms = 0" by (intro after_summary_none) blast
  then show ?thesis using False by (intro exI [of _ "[]"] exI [of _ ms]) (auto dest: in_set_dropD)
qed

section \<open>Compaction\<close>

lemma keep_tail_suffix: "\<exists>more. keep_tail est keep kept spent older = more @ kept \<and> (\<exists>rest. rev older = rest @ more)"
proof (induction older arbitrary: kept spent)
  case (Cons m older)
  show ?case
  proof (cases "kept \<noteq> [] \<and> max 0 keep < spent + est [m]")
    case True
    then show ?thesis by simp
  next
    case False
    obtain more rest where "keep_tail est keep (m # kept) (spent + est [m]) older = more @ m # kept" "rev older = rest @ more"
      using Cons.IH by blast
    then show ?thesis using False by (intro exI [of _ "more @ [m]"]) auto
  qed
qed simp

lemma keep_tail_not_empty: "kept \<noteq> [] \<or> older \<noteq> [] \<Longrightarrow> keep_tail est keep kept spent older \<noteq> []"
  by (induction older arbitrary: kept spent) auto

lemma keep_tail_bound:
  assumes "spent = sum_list (map (\<lambda>e. est [e]) kept)" "spent \<le> max 0 keep \<or> length kept \<le> 1"
  shows "sum_list (map (\<lambda>e. est [e]) (keep_tail est keep kept spent older)) \<le> max 0 keep \<or> length (keep_tail est keep kept spent older) \<le> 1"
  using assms
proof (induction older arbitrary: kept spent)
  case (Cons m older)
  show ?case
  proof (cases "kept \<noteq> [] \<and> max 0 keep < spent + est [m]")
    case True
    then show ?thesis using Cons.prems by simp
  next
    case False
    have "spent + est [m] = sum_list (map (\<lambda>e. est [e]) (m # kept))" using Cons.prems(1) by simp
    moreover have "spent + est [m] \<le> max 0 keep \<or> length (m # kept) \<le> 1" using False by auto
    ultimately have "sum_list (map (\<lambda>e. est [e]) (keep_tail est keep (m # kept) (spent + est [m]) older)) \<le> max 0 keep
        \<or> length (keep_tail est keep (m # kept) (spent + est [m]) older) \<le> 1" by (rule Cons.IH)
    then show ?thesis using False by (simp only: keep_tail.simps if_False)
  qed
qed simp

lemma split_live_append: "split_live est keep live = (front, kept) \<Longrightarrow> live = front @ kept"
proof -
  assume a: "split_live est keep live = (front, kept)"
  obtain more rest where "keep_tail est keep [] 0 (rev live) = more @ []" "rev (rev live) = rest @ more"
    using keep_tail_suffix by blast
  then show ?thesis using a by (auto simp: split_live_def Let_def)
qed

lemma split_live_kept:
  "split_live est keep live = (front, kept) \<Longrightarrow> live \<noteq> [] \<Longrightarrow> kept \<noteq> []
     \<and> (sum_list (map (\<lambda>e. est [e]) kept) \<le> max 0 keep \<or> length kept = 1)"
  using keep_tail_not_empty [of "[]" "rev live" est keep 0] keep_tail_bound [of 0 est "[]" keep "rev live"]
  by (auto simp: split_live_def Let_def le_Suc_eq)

lemma planned_span: "split_live est keep folded = (cp_span (planned est start keep folded), drop (length (cp_span (planned est start keep folded))) folded)
    \<and> cp_at (planned est start keep folded) = start + length (cp_span (planned est start keep folded))"
  by (cases "split_live est keep folded") (auto simp: planned_def dest: split_live_append)

lemma chosen_branch: "(if a then x else if b then x else if c then y else f k) \<in> {x, y} \<union> range f"
  by auto

lemma plan_planned:
  assumes "cp_span (plan_for_budget est ms used budget force) \<noteq> []"
  shows "\<exists>keep. plan_for_budget est ms used budget force = planned est (after_summary ms) keep (fold_bulky (map Stored (drop (after_summary ms) ms)))"
proof -
  let ?f = "\<lambda>keep. planned est (after_summary ms) keep (fold_bulky (map Stored (drop (after_summary ms) ms)))"
  have "plan_for_budget est ms used budget force \<in> {refused Fits, refused NoRoom} \<union> range ?f"
    unfolding plan_for_budget_def Let_def after_last_summary_def fst_conv snd_conv by (rule chosen_branch [where f = ?f])
  moreover have "cp_span (refused x) = []" for x by (simp add: refused_def)
  ultimately show ?thesis using assms by (metis (no_types, lifting) UnE emptyE imageE insertE)
qed

lemma plan_span:
  assumes "plan_for_budget est ms used budget force = plan" "cp_span plan \<noteq> []"
  shows "\<exists>kept keep. split_live est keep (fold_bulky (map Stored (drop (after_summary ms) ms))) = (cp_span plan, kept)
    \<and> cp_at plan = after_summary ms + length (cp_span plan)"
proof -
  obtain keep where "plan = planned est (after_summary ms) keep (fold_bulky (map Stored (drop (after_summary ms) ms)))"
    using plan_planned assms by blast
  then show ?thesis using planned_span by metis
qed

text \<open>a compaction that goes through leaves every stored message in place and adds one: the
  summary stands for messages behind the newest earlier summary only, at least one message follows
  it, and from then on the model's history starts at it.\<close>

theorem compaction_in_place:
  assumes "plan_for_budget est ms used budget force = plan" "cp_span plan \<noteq> []"
    "compact True plan (Summary t) now ms ms = (Compacted, conv, store)"
  shows "store = take (cp_at plan) ms @ summary_message now t # drop (cp_at plan) ms
    \<and> after_last_summary store = (cp_at plan, summary_message now t # drop (cp_at plan) ms)
    \<and> after_summary ms < cp_at plan \<and> cp_at plan < length ms
    \<and> map entry_role (cp_span plan) = map cm_role (take (length (cp_span plan)) (drop (after_summary ms) ms))"
proof -
  let ?live = "map Stored (drop (after_summary ms) ms)"
  obtain kept keep where sp: "split_live est keep (fold_bulky ?live) = (cp_span plan, kept)"
    and at: "cp_at plan = after_summary ms + length (cp_span plan)" using plan_span [OF assms(1,2)] by blast
  have app: "fold_bulky ?live = cp_span plan @ kept" by (rule split_live_append [OF sp])
  then have "fold_bulky ?live \<noteq> []" using assms(2) by auto
  then have ne: "kept \<noteq> []" using split_live_kept [OF sp] by blast
  have len: "length (cp_span plan) + length kept = length ms - after_summary ms"
    using arg_cong [OF app, of length] by simp
  then have bound: "after_summary ms < cp_at plan" "cp_at plan < length ms"
    using assms(2) ne at by (cases "cp_span plan"; cases kept; simp)+
  obtain old tail where ot: "ms = old @ tail" "after_summary ms = length old" "\<forall>m\<in>set (drop 1 tail). cm_role m \<noteq> ''summary''"
    using after_summary_split by blast
  have "drop (cp_at plan) ms = drop (length (cp_span plan)) tail" using ot at by simp
  moreover have "set (drop (length (cp_span plan)) tail) \<subseteq> set (drop 1 tail)"
    using assms(2) by (intro set_drop_subset_set_drop) (simp add: Suc_le_eq)
  ultimately have clean: "\<forall>m\<in>set (drop (cp_at plan) ms). cm_role m \<noteq> ''summary''" using ot(3) by auto
  have st: "store = take (cp_at plan) ms @ summary_message now t # drop (cp_at plan) ms"
    using assms(2,3) by (auto simp: compact_def Let_def insert_at_def split: if_splits)
  have role: "cm_role (summary_message now t) = ''summary''" by (simp add: summary_message_def chat_message_of_def)
  have "after_summary store = cp_at plan" unfolding st using after_summary_append [OF clean role] bound by simp
  moreover have "map entry_role (cp_span plan) = take (length (cp_span plan)) (map entry_role (fold_bulky ?live))" by (simp add: app)
  then have "map entry_role (cp_span plan) = map cm_role (take (length (cp_span plan)) (drop (after_summary ms) ms))"
    by (simp add: fold_bulky_roles take_map)
  ultimately show ?thesis using st bound by (simp add: after_last_summary_def)
qed

definition msg :: "string \<Rightarrow> nat \<Rightarrow> int \<Rightarrow> chat_message" where
  "msg role n t = (chat_message_of role (replicate n 0x4e00))\<lparr>cm_created_at := Some t\<rparr>"

lemma msg_simps [simp]:
  "cm_role (msg role n t) = role" "cm_content (msg role n t) = replicate n 0x4e00" "cm_created_at (msg role n t) = Some t"
  "cm_author (msg role n t) = None" "cm_metrics (msg role n t) = None" "estimate_entry no_args (Stored (msg role n t)) = n"
  by (simp_all add: msg_def chat_message_of_def estimate_entry_def)

lemmas plan_eval = plan_for_budget_def planned_def split_live_def after_last_summary_def after_summary_def fold_bulky_def fold_if_bulky_def
  estimate_messages_def refused_def Let_def

definition small_thread :: "chat_message list" where
  "small_thread = [msg ''summary'' 4 1, msg ''user'' 5 2, msg ''assistant'' 6 3, msg ''user'' 2 4]"

lemma small_plan: "plan_for_budget (estimate_messages no_args) small_thread 17 (Some 12) False
    = \<lparr>cp_at = 3, cp_span = map Stored [msg ''summary'' 4 1, msg ''user'' 5 2, msg ''assistant'' 6 3], cp_refusal = None\<rparr>"
  by (simp add: plan_eval small_thread_def)

lemma compaction_in_place_witness:
  "after_last_summary (take 3 small_thread @ summary_message 9 [65] # drop 3 small_thread) = (3, [summary_message 9 [65], msg ''user'' 2 4])"
proof -
  let ?p = "plan_for_budget (estimate_messages no_args) small_thread 17 (Some 12) False"
  have c: "compact True ?p (Summary [65]) 9 small_thread small_thread
      = (Compacted, insert_at 3 (summary_message 9 [65]) small_thread, insert_at 3 (summary_message 9 [65]) small_thread)"
    by (simp add: small_plan compact_def is_space_def Let_def)
  have "cp_span ?p \<noteq> []" by (simp add: small_plan)
  from compaction_in_place [OF refl this c, THEN conjunct2, THEN conjunct1]
  have "after_last_summary (insert_at 3 (summary_message 9 [65]) small_thread) = (3, summary_message 9 [65] # drop 3 small_thread)"
    unfolding small_plan by simp
  then show ?thesis by (simp add: insert_at_def small_thread_def)
qed

text \<open>what a compaction keeps is bounded in tokens and never empty: behind the summary stand
  messages estimated at no more than half the room the thread may have, or a single one.\<close>

theorem kept_tail_bounded:
  assumes "split_live est keep live = (front, kept)" "live \<noteq> []"
  shows "live = front @ kept \<and> kept \<noteq> [] \<and> (sum_list (map (\<lambda>e. est [e]) kept) \<le> max 0 keep \<or> length kept = 1)"
  using split_live_append [OF assms(1)] split_live_kept [OF assms] by blast

lemma kept_tail_bounded_witness:
  "split_live (estimate_messages no_args) 6 (map Stored small_thread) = (map Stored (take 3 small_thread), map Stored (drop 3 small_thread))
   \<and> sum_list (map (\<lambda>e. estimate_messages no_args [e]) (map Stored (drop 3 small_thread))) \<le> 6"
proof -
  have v: "split_live (estimate_messages no_args) 6 (map Stored small_thread) = (map Stored (take 3 small_thread), map Stored (drop 3 small_thread))"
    by (simp add: split_live_def small_thread_def estimate_messages_def Let_def)
  have "map Stored small_thread \<noteq> []" by (simp add: small_thread_def)
  from kept_tail_bounded [OF v this] have "sum_list (map (\<lambda>e. estimate_messages no_args [e]) (map Stored (drop 3 small_thread))) \<le> 6"
    by (simp add: small_thread_def estimate_messages_def)
  with v show ?thesis by (rule conjI)
qed

text \<open>C22: the summary is written over whatever the store holds by then: the thread it is inserted
  into was read before the model was called, so a message stored in between, such as the answer of
  the turn that was still running, is gone when the compaction goes through.\<close>

theorem compaction_drops_newer_messages:
  assumes "compact True plan (Summary t) now ms (ms @ newer) = (Compacted, conv, store)" "m \<in> set newer" "m \<notin> set ms" "cm_role m \<noteq> ''summary''"
  shows "m \<in> set (ms @ newer) \<and> m \<notin> set store"
proof -
  have "store = take (cp_at plan) ms @ summary_message now t # drop (cp_at plan) ms"
    using assms(1) by (auto simp: compact_def Let_def insert_at_def split: if_splits)
  moreover have "m \<noteq> summary_message now t" using assms(4) by (auto simp: summary_message_def chat_message_of_def)
  ultimately show ?thesis using assms(2,3) by (auto dest: in_set_takeD in_set_dropD)
qed

lemma compaction_drops_newer_messages_witness:
  "msg ''assistant'' 3 5 \<notin> set (take 3 small_thread @ summary_message 9 [65] # drop 3 small_thread)"
proof -
  let ?p = "plan_for_budget (estimate_messages no_args) small_thread 17 (Some 12) False"
  have c: "compact True ?p (Summary [65]) 9 small_thread (small_thread @ [msg ''assistant'' 3 5])
      = (Compacted, insert_at 3 (summary_message 9 [65]) small_thread, insert_at 3 (summary_message 9 [65]) small_thread)"
    by (simp add: small_plan compact_def is_space_def Let_def)
  have n: "msg ''assistant'' 3 5 \<notin> set small_thread" by (auto simp: small_thread_def msg_def chat_message_of_def)
  from compaction_drops_newer_messages [OF c _ n] show ?thesis by (simp add: insert_at_def)
qed

section \<open>The history\<close>

lemma calls_paired_append: "calls_paired xs \<Longrightarrow> calls_paired ys \<Longrightarrow> calls_paired (xs @ ys)"
  by (induction xs rule: calls_paired.induct) auto

lemma calls_paired_drop_said: "calls_paired (xs @ [Said r c]) \<Longrightarrow> calls_paired xs"
  by (induction xs rule: calls_paired.induct) auto

lemma marker_keeps_pairs: "calls_paired (rev items) \<Longrightarrow> calls_paired (rev (fold_cancellation_marker marker items))"
proof (cases items)
  case (Cons e rest)
  assume p: "calls_paired (rev items)"
  have new: "calls_paired (rev items @ [Said ''assistant'' marker])" using p by (rule calls_paired_append) simp
  show ?thesis
  proof (cases e)
    case (Said role content)
    have "calls_paired (rev rest)" using p Cons Said calls_paired_drop_said [of "rev rest"] by simp
    then have "calls_paired (rev rest @ [Said r c])" for r c by (rule calls_paired_append) simp
    then show ?thesis using new p Cons Said by (simp add: fold_cancellation_marker_def)
  qed (use new Cons in \<open>simp_all add: fold_cancellation_marker_def\<close>)
qed (simp add: fold_cancellation_marker_def)

lemma add_items_keeps_pairs: "calls_paired (rev items) \<Longrightarrow> calls_paired (rev (add_items users items e))"
  by (cases e) (auto simp: add_items_def marker_keeps_pairs intro!: calls_paired_append split: option.split)

text \<open>C21: whatever the thread holds and whatever budget of messages and tokens \<open>history_items\<close> cuts it to,
  in the items it gives every call is followed by its own result, and every result stands behind its
  call.  (The cut that a later rejection makes in the sent input is another, and does not keep this:
  \<open>stated_ceiling_still_halves\<close> in \<open>ContextFit\<close>.)\<close>

theorem history_pairs_calls:
  "calls_paired (hs_items (history_items est users max_messages max_tokens messages))"
proof -
  have "calls_paired (rev items) \<Longrightarrow> calls_paired (rev (foldl (add_items users) items es))" for items es
    by (induction es arbitrary: items) (simp_all add: add_items_keeps_pairs)
  then show ?thesis by (simp add: history_items_def Let_def)
qed

section \<open>Taking messages out and putting them back\<close>

lemma thread_without_subseq: "subseq (thread_without ms keys) ms"
  by (induction ms keys rule: thread_without.induct) (auto split: option.split)

text \<open>the thread a turn is shown keeps its order and loses, for each key, as many of the
  person's messages as the key is named, whichever of them there are, and nothing else.\<close>

theorem thread_without_exact:
  "subseq (thread_without ms keys) ms
    \<and> length (filter (\<lambda>m. key_of m = Some k) (thread_without ms keys)) = length (filter (\<lambda>m. key_of m = Some k) ms) - count_list keys k
    \<and> filter (\<lambda>m. key_of m = None) (thread_without ms keys) = filter (\<lambda>m. key_of m = None) ms"
proof (intro conjI thread_without_subseq)
  show "length (filter (\<lambda>m. key_of m = Some k) (thread_without ms keys)) = length (filter (\<lambda>m. key_of m = Some k) ms) - count_list keys k"
  proof (induction ms keys rule: thread_without.induct)
    case (2 m ms keys)
    show ?case
    proof (cases "\<exists>j. key_of m = Some j \<and> j \<in> set keys")
      case True
      then obtain j where j: "key_of m = Some j" "j \<in> set keys" by blast
      have "n - (count_list keys j - 1) = Suc n - count_list keys j" for n using count_in_set [OF j(2)] by linarith
      then show ?thesis using 2(2) [OF j] j by (cases "j = k") (auto simp: count_remove1)
    next
      case False
      then show ?thesis using 2(1,3) by (cases "key_of m") auto
    qed
  qed simp
  show "filter (\<lambda>m. key_of m = None) (thread_without ms keys) = filter (\<lambda>m. key_of m = None) ms"
    by (induction ms keys rule: thread_without.induct) (auto split: option.split)
qed

lemma take_person_mset:
  "mset (fst (take_person_message ms t author)) + mset (snd (take_person_message ms t author)) = mset ms"
proof (induction ms)
  case (Cons m ms)
  have "mset (takeWhile (is_sign_in t) ms) + mset (dropWhile (is_sign_in t) ms) = mset ms"
    by (metis mset_append takeWhile_dropWhile_id)
  then show ?case using Cons by (auto split: prod.split)
qed simp

text \<open>C23: persisting what a turn produced loses no message of the thread and doubles none, wherever
  the person's messages are moved to: the thread holds what it held and the produced messages that
  are no places; a copy that is no longer this pod's leaves it alone.\<close>

theorem persist_keeps_messages:
  "mset (fst (persist True produced ms)) = mset ms + mset (map to_rca_message (filter (\<lambda>tm. tm_role tm \<noteq> Place) produced))
    \<and> fst (persist False produced ms) = ms"
proof -
  have one: "mset (persist_one ms tm) = mset ms + (if tm_role tm = Place then {#} else {#to_rca_message tm#})" for ms tm
    using take_person_mset [of ms "tm_created_at tm" "tm_author tm"]
    by (auto simp: persist_one_def union_commute split: prod.split)
  have "mset (foldl persist_one ms produced) = mset ms + mset (map to_rca_message (filter (\<lambda>tm. tm_role tm \<noteq> Place) produced))"
    by (induction produced arbitrary: ms) (auto simp: one)
  then show ?thesis by (simp add: persist_def)
qed

definition keyed_in :: "message_key list \<Rightarrow> chat_message \<Rightarrow> bool" where
  "keyed_in keys m = (case key_of m of Some k \<Rightarrow> k \<in> set keys | None \<Rightarrow> False)"

lemma unseen_after_True:
  "unseen_after waiting True ms answering \<longleftrightarrow> (\<exists>m\<in>set ms. cm_role m \<notin> set ABOUT_THE_TURN \<and> \<not> keyed_in waiting m)"
  by (induction ms) (auto simp: keyed_in_def)

text \<open>a turn's messages have to move exactly when, behind the first of them, there stands a
  message that is neither written about the turn nor a question nobody has answered yet.\<close>

theorem must_move_exact:
  "must_move ms answering unanswered \<longleftrightarrow>
     (\<exists>m\<in>set (drop 1 (dropWhile (\<lambda>m. \<not> keyed_in answering m) ms)).
        cm_role m \<notin> set ABOUT_THE_TURN \<and> \<not> keyed_in (answering @ unanswered) m)"
proof -
  have "unseen_after waiting False ms answering \<longleftrightarrow>
     (\<exists>m\<in>set (drop 1 (dropWhile (\<lambda>m. \<not> keyed_in answering m) ms)). cm_role m \<notin> set ABOUT_THE_TURN \<and> \<not> keyed_in waiting m)" for waiting
    by (induction ms) (simp_all add: unseen_after_True flip: keyed_in_def)
  then show ?thesis by (simp only: must_move_def)
qed

section \<open>Cost\<close>

lemma find_rev_upt:
  "find P (rev [0..<n]) = Some i \<Longrightarrow> i < n \<and> P i \<and> (\<forall>j<n. i < j \<longrightarrow> \<not> P j)"
  by (induction n) (auto split: if_splits simp: less_Suc_eq)

text \<open>The reply a cost rests on, with nothing newer to rest on.\<close>

definition newest_anchor :: "chat_message list \<Rightarrow> nat \<Rightarrow> bool" where
  "newest_anchor live i \<longleftrightarrow> i < length live \<and> anchors (summarised_at live) (live ! i)
     \<and> (\<forall>j<length live. i < j \<longrightarrow> \<not> anchors (summarised_at live) (live ! j))"

lemma no_anchor: "find (\<lambda>i. P (xs ! i)) (rev [0..<length xs]) = None \<longleftrightarrow> (\<forall>x\<in>set xs. \<not> P x)"
  by (auto simp: find_None_iff all_set_conv_all_nth)

abbreviation live_thread :: "chat_message list \<Rightarrow> chat_message list" where
  "live_thread messages \<equiv> snd (after_last_summary messages)"

lemma usage_cases:
  obtains (anchored) i where "newest_anchor (live_thread messages) i"
      "context_usage est limit messages =
         \<lparr>cu_used = prompt_of ((live_thread messages) ! i) + completion_of ((live_thread messages) ! i) + est (map Stored (filter replays (drop (Suc i) (live_thread messages)))),
          cu_limit = fst limit, cu_measured = exact_of ((live_thread messages) ! i), cu_source = snd limit\<rparr>"
  | (estimated) "\<forall>m\<in>set (live_thread messages). \<not> anchors (summarised_at (live_thread messages)) m"
      "context_usage est limit messages =
         \<lparr>cu_used = est (map Stored (filter replays (live_thread messages))), cu_limit = fst limit, cu_measured = False, cu_source = snd limit\<rparr>"
proof (cases "find (\<lambda>i. anchors (summarised_at (live_thread messages)) ((live_thread messages) ! i)) (rev [0..<length (live_thread messages)])")
  case None
  then show thesis by (intro estimated) (simp_all add: no_anchor [symmetric] context_usage_def Let_def)
next
  case (Some i)
  then show thesis using find_rev_upt [OF Some]
    by (intro anchored [of i]) (simp_all add: newest_anchor_def context_usage_def Let_def)
qed

text \<open>a cost shown as measured rests on a reply the provider counted itself, the newest that can
  be rested on in the thread that is still sent and not older than its summary, with only what
  came after it estimated; without any reply to rest on the thread that is sent is estimated, and
  said not to be measured.\<close>

theorem usage_anchored:
  "(cu_measured (context_usage est limit messages) \<longrightarrow>
      (\<exists>i. newest_anchor (live_thread messages) i \<and> exact_of (live_thread messages ! i)
         \<and> cu_used (context_usage est limit messages)
             = prompt_of (live_thread messages ! i) + completion_of (live_thread messages ! i)
               + est (map Stored (filter replays (drop (Suc i) (live_thread messages))))))
   \<and> ((\<forall>m\<in>set (live_thread messages). \<not> anchors (summarised_at (live_thread messages)) m) \<longrightarrow>
      cu_used (context_usage est limit messages) = est (map Stored (filter replays (live_thread messages)))
      \<and> \<not> cu_measured (context_usage est limit messages))"
proof (cases rule: usage_cases [of messages est limit])
  case (anchored i)
  then have "anchors (summarised_at (live_thread messages)) (live_thread messages ! i)"
    "live_thread messages ! i \<in> set (live_thread messages)" by (simp_all add: newest_anchor_def)
  then have "\<not> (\<forall>m\<in>set (live_thread messages). \<not> anchors (summarised_at (live_thread messages)) m)" by blast
  moreover have "newest_anchor (live_thread messages) i" by (rule anchored)
  ultimately show ?thesis unfolding anchored(2) by (simp only: thread_cost.select_convs) blast
next
  case estimated
  then show ?thesis by simp
qed

definition counted_reply :: "int \<Rightarrow> int \<Rightarrow> chat_message" where
  "counted_reply prompt t = (msg ''assistant'' 2 t)\<lparr>cm_metrics := Some \<lparr>mm_model = None, mm_prompt_tokens = prompt, mm_completion_tokens = 5,
     mm_measured_prompt = Some prompt, mm_measured_completion = Some 5, mm_elapsed_ms = 1, mm_generation_ms = None, mm_exact = True\<rparr>\<rparr>"

lemma usage_anchored_witness:
  "cu_measured (context_usage (estimate_messages no_args) (None, FromNowhere) [msg ''user'' 3 1, counted_reply 400 2, msg ''user'' 7 3])
   \<and> cu_used (context_usage (estimate_messages no_args) (None, FromNowhere) [msg ''user'' 3 1, counted_reply 400 2, msg ''user'' 7 3]) = 412
   \<and> (\<exists>i. newest_anchor [msg ''user'' 3 1, counted_reply 400 2, msg ''user'' 7 3] i)"
proof -
  let ?ms = "[msg ''user'' 3 1, counted_reply 400 2, msg ''user'' 7 3]"
  let ?u = "context_usage (estimate_messages no_args) (None, FromNowhere) ?ms"
  have live: "snd (after_last_summary ?ms) = ?ms" by (simp add: after_last_summary_def after_summary_def counted_reply_def numeral_2_eq_2)
  have r: "rev [0..<length ?ms] = [2, 1, 0]" by (simp add: upt_rec)
  have f: "find (\<lambda>i. anchors (summarised_at ?ms) (?ms ! i)) [2, 1, 0] = Some 1"
    by (simp add: anchors_def counted_reply_def prompt_of_def summarised_at_def)
  have u: "cu_measured ?u" "cu_used ?u = 412"
    unfolding context_usage_def Let_def live r f
    by (simp_all add: counted_reply_def prompt_of_def completion_of_def exact_of_def replays_def estimate_messages_def)
  from usage_anchored [of "estimate_messages no_args" "(None, FromNowhere)" ?ms, unfolded live] u show ?thesis by blast
qed

end
