(* ===== verification/ScheduleRules.thy ===== *)
theory ScheduleRules
  imports Schedules
begin

text \<open>
  The two rules on schedules agree.  The locale \<open>periods\<close> says what a way of cutting time into
  periods promises; the five calendar periods of a sound schedule and the occurrences of a cron
  expression interpret it, and from it: what \<open>next_run\<close> announces is the first moment at which
  \<open>is_due\<close> holds.

  Moments are those from year 1 on, as Python has them; the upper end of Python's dates, where
  stepping on raises, is not modelled.
\<close>

section \<open>Periods as a contract\<close>

text \<open>The first moment after \<open>now\<close> whose goal is reached and whose key is not the one seen.\<close>

definition fires_first ::
  "(moment \<Rightarrow> bool) \<Rightarrow> (moment \<Rightarrow> moment) \<Rightarrow> (moment \<Rightarrow> string) \<Rightarrow> moment \<Rightarrow> string \<Rightarrow> moment \<Rightarrow> bool" where
  "fires_first live goal key now seen t \<longleftrightarrow>
     live t \<and> stamp now < stamp t \<and> stamp (goal t) = stamp t \<and> seen \<noteq> key t
     \<and> (\<forall>u. live u \<and> stamp now \<le> stamp u \<and> stamp u < stamp t \<longrightarrow> stamp u < stamp (goal u) \<or> seen = key u)"

text \<open>
  What the two rules need of the periods of a schedule \<open>p\<close>: the target does not move within a period,
  the key names the period, and the next period's target is the next target there is.
\<close>

locale periods =
  fixes keeps :: "'p \<Rightarrow> bool"
    and live :: "'p \<Rightarrow> moment \<Rightarrow> bool"
    and goal :: "'p \<Rightarrow> moment \<Rightarrow> moment"
    and key :: "'p \<Rightarrow> moment \<Rightarrow> string"
    and onward :: "'p \<Rightarrow> moment \<Rightarrow> moment"
  assumes goal_mono: "keeps p \<Longrightarrow> live p s \<Longrightarrow> live p t \<Longrightarrow> stamp s \<le> stamp t \<Longrightarrow> stamp (goal p s) \<le> stamp (goal p t)"
    and key_iff: "keeps p \<Longrightarrow> live p s \<Longrightarrow> live p t \<Longrightarrow> key p s = key p t \<longleftrightarrow> stamp (goal p s) = stamp (goal p t)"
    and goal_goal: "keeps p \<Longrightarrow> live p t \<Longrightarrow> live p (goal p t) \<and> stamp (goal p (goal p t)) = stamp (goal p t)"
    and onward_dated: "keeps p \<Longrightarrow> live p t \<Longrightarrow> live p (onward p t) \<and> stamp (goal p t) < stamp (goal p (onward p t))"
    and onward_next: "keeps p \<Longrightarrow> live p t \<Longrightarrow> live p u \<Longrightarrow> stamp (goal p t) < stamp (goal p u) \<Longrightarrow>
      stamp (goal p (onward p t)) \<le> stamp (goal p u)"
begin

text \<open>The moment announced: not before it is the schedule due, and at it, it is.\<close>

lemma first_due:
  assumes p: "keeps p" and now: "live p now"
    and late: "stamp now < stamp (goal p now) \<Longrightarrow> seen \<noteq> key p now"
    and fired: "stamp (goal p now) \<le> stamp now \<Longrightarrow> seen = key p now"
  defines "t \<equiv> if stamp now < stamp (goal p now) then goal p now else goal p (onward p now)"
  shows "fires_first (live p) (goal p) (key p) now seen t"
proof (cases "stamp now < stamp (goal p now)")
  case True
  then have t: "t = goal p now" by (simp add: t_def)
  note g = goal_goal [OF p now]
  have "stamp u < stamp (goal p u)" if u: "live p u" "stamp now \<le> stamp u" "stamp u < stamp t" for u
    using goal_mono [OF p now u(1,2)] u(3) by (simp add: t)
  moreover have "seen \<noteq> key p t" using late [OF True] g key_iff [OF p conjunct1 [OF g] now] by (simp add: t)
  ultimately show ?thesis using True g by (simp add: t fires_first_def)
next
  case False
  then have t: "t = goal p (onward p now)" by (simp add: t_def)
  note o = onward_dated [OF p now]
  note g = goal_goal [OF p conjunct1 [OF o], folded t]
  have seen: "seen = key p now" using False fired by simp
  have later: "stamp now < stamp t"
    using goal_mono [OF p conjunct1 [OF g] now] conjunct2 [OF g] conjunct2 [OF o] t by fastforce
  have "stamp u < stamp (goal p u) \<or> seen = key p u" if u: "live p u" "stamp now \<le> stamp u" "stamp u < stamp t" for u
    using goal_mono [OF p now u(1,2)] onward_next [OF p now u(1)] key_iff [OF p now u(1)] u(3) seen t
    by (cases "stamp (goal p now) = stamp (goal p u)") auto
  moreover have "seen \<noteq> key p t" using key_iff [OF p now conjunct1 [OF g]] o g seen t by simp
  ultimately show ?thesis using later g by (simp add: fires_first_def)
qed

text \<open>A window that was fired stays behind: the key of a later period is never one already used.\<close>

lemma key_once:
  assumes "keeps p" "live p s" "live p t" "live p u" "stamp s \<le> stamp t" "stamp t \<le> stamp u"
    and "key p s = key p u"
  shows "key p t = key p s"
  using assms goal_mono [of p s t] goal_mono [of p t u] key_iff [of p s u] key_iff [of p t s] by simp

end

text \<open>A way of numbering the periods gives all of that.\<close>

locale numbered =
  fixes keeps :: "'p \<Rightarrow> bool"
    and number :: "'p \<Rightarrow> moment \<Rightarrow> int"
    and goal :: "'p \<Rightarrow> moment \<Rightarrow> moment"
    and key :: "'p \<Rightarrow> moment \<Rightarrow> string"
    and onward :: "'p \<Rightarrow> moment \<Rightarrow> moment"
  assumes number_mono: "keeps p \<Longrightarrow> dated s \<Longrightarrow> dated t \<Longrightarrow> stamp s \<le> stamp t \<Longrightarrow> number p s \<le> number p t"
    and number_key: "keeps p \<Longrightarrow> dated s \<Longrightarrow> dated t \<Longrightarrow> key p s = key p t \<longleftrightarrow> number p s = number p t"
    and number_goal: "keeps p \<Longrightarrow> dated t \<Longrightarrow> dated (goal p t) \<and> number p (goal p t) = number p t"
    and same_goal: "keeps p \<Longrightarrow> dated s \<Longrightarrow> dated t \<Longrightarrow> number p s = number p t \<Longrightarrow> goal p s = goal p t"
    and number_onward: "keeps p \<Longrightarrow> dated t \<Longrightarrow> dated (onward p t) \<and> number p (onward p t) = number p t + 1"
begin

lemma goal_strict:
  assumes "keeps p" "dated s" "dated t"
  shows "number p s < number p t \<longleftrightarrow> stamp (goal p s) < stamp (goal p t)"
proof
  assume "number p s < number p t"
  then show "stamp (goal p s) < stamp (goal p t)"
    using number_mono [of p "goal p t" "goal p s"] number_goal [of p s] number_goal [of p t] assms by fastforce
next
  assume "stamp (goal p s) < stamp (goal p t)"
  moreover have "stamp (goal p t) \<le> stamp (goal p s)" if "number p t \<le> number p s"
    using that number_mono [of p "goal p s" "goal p t"] number_goal [of p s] number_goal [of p t]
      same_goal [of p s t] assms by (cases "number p s = number p t") fastforce+
  ultimately show "number p s < number p t" by force
qed

lemma goal_order:
  assumes "keeps p" "dated s" "dated t"
  shows "number p s \<le> number p t \<longleftrightarrow> stamp (goal p s) \<le> stamp (goal p t)"
  using goal_strict [OF assms(1,3,2)] by force

end

sublocale numbered \<subseteq> periods keeps "\<lambda>p. dated" goal key onward
proof
  fix p s t u
  assume p: "keeps p"
  show "stamp (goal p s) \<le> stamp (goal p t)" if "dated s" "dated t" "stamp s \<le> stamp t"
    using number_mono [OF p that] goal_order [OF p that(1,2)] by simp
  show "key p s = key p t \<longleftrightarrow> stamp (goal p s) = stamp (goal p t)" if "dated s" "dated t"
    using number_key [OF p that] goal_order [OF p that] goal_order [OF p that(2,1)] by force
  show "dated (goal p t) \<and> stamp (goal p (goal p t)) = stamp (goal p t)" if "dated t"
    using number_goal [OF p that] same_goal [OF p _ that] by auto
  show "dated (onward p t) \<and> stamp (goal p t) < stamp (goal p (onward p t))" if "dated t"
    using number_onward [OF p that] goal_strict [OF p that, of "onward p t"] by simp
  show "stamp (goal p (onward p t)) \<le> stamp (goal p u)"
    if "dated t" "dated u" "stamp (goal p t) < stamp (goal p u)"
    using number_onward [OF p that(1)] goal_strict [OF p that(1,2)] goal_order [OF p _ that(2), of "onward p t"] that by simp
qed

interpretation calendar: numbered "\<lambda>(c, s). sound_schedule s" "\<lambda>(c, s). period_number s" "\<lambda>(c, s). goal_of c s"
  "\<lambda>(c, s). fire_window c s" "\<lambda>(c, s). next_period c s"
proof (unfold_locales, goal_cases)
  case (1 p s t)
  then show ?case by (cases p) (simp add: period_number_mono)
next
  case (2 p s t)
  then show ?case by (cases p) (simp add: period_key)
next
  case (3 p t)
  then show ?case using goal_number [OF _ _ target_total] by (cases p) simp
next
  case (4 p s t)
  then show ?case using goal_same [of "snd p" s t "fst p"] by (cases p) (simp add: goal_of_def)
next
  case (5 p t)
  then show ?case by (cases p) (simp add: onward_number)
qed

section \<open>Cron rows\<close>

text \<open>
  What the code relies on of croniter: the occurrences \<open>occ\<close> are whole minutes, \<open>get_prev\<close> gives the
  last one strictly before a moment and \<open>get_next\<close> the first strictly after it, from some first
  occurrence on.
\<close>

definition cron_laws :: "cron \<Rightarrow> string \<Rightarrow> (moment \<Rightarrow> bool) \<Rightarrow> moment \<Rightarrow> bool" where
  "cron_laws cron expr occ first \<longleftrightarrow>
     occ first \<and> (\<forall>o'. occ o' \<longrightarrow> dated o' \<and> start_of_minute o' = o')
     \<and> (\<forall>t. dated t \<and> stamp first < stamp t \<longrightarrow>
          occ (cr_prev cron expr t) \<and> stamp (cr_prev cron expr t) < stamp t
          \<and> (\<forall>o'. occ o' \<and> stamp o' < stamp t \<longrightarrow> stamp o' \<le> stamp (cr_prev cron expr t)))
     \<and> (\<forall>t. dated t \<and> stamp first \<le> stamp t \<longrightarrow>
          occ (cr_next cron expr t) \<and> stamp t < stamp (cr_next cron expr t)
          \<and> (\<forall>o'. occ o' \<and> stamp t < stamp o' \<longrightarrow> stamp (cr_next cron expr t) \<le> stamp o'))"

lemma cron_lawsD:
  assumes "cron_laws cron expr occ first" "dated t"
  shows "occ first"
    and "occ o' \<Longrightarrow> dated o' \<and> start_of_minute o' = o'"
    and "stamp first < stamp t \<Longrightarrow> occ (cr_prev cron expr t) \<and> stamp (cr_prev cron expr t) < stamp t"
    and "stamp first < stamp t \<Longrightarrow> occ o' \<Longrightarrow> stamp o' < stamp t \<Longrightarrow> stamp o' \<le> stamp (cr_prev cron expr t)"
    and "stamp first \<le> stamp t \<Longrightarrow> occ (cr_next cron expr t) \<and> stamp t < stamp (cr_next cron expr t)"
    and "stamp first \<le> stamp t \<Longrightarrow> occ o' \<Longrightarrow> stamp t < stamp o' \<Longrightarrow> stamp (cr_next cron expr t) \<le> stamp o'"
  using assms unfolding cron_laws_def by blast+

lemma start_of_minute_stamp:
  assumes "dated t"
  shows "dated (start_of_minute t) \<and> stamp (start_of_minute t) = stamp t div MINUTE_US * MINUTE_US"
proof -
  note v = dated_valid [OF assms]
  have us: "0 \<le> mo_us t div MINUTE_US * MINUTE_US" "mo_us t div MINUTE_US * MINUTE_US \<le> mo_us t"
    using v div_mult_below [of MINUTE_US "mo_us t"] by (simp_all add: MINUTE_US_def pos_imp_zdiv_nonneg_iff)
  have "stamp t = mo_us t + ordinal (mo_date t) * 1440 * MINUTE_US" by (simp add: stamp_def DAY_US_def MINUTE_US_def)
  then have "stamp t div MINUTE_US = ordinal (mo_date t) * 1440 + mo_us t div MINUTE_US" by (simp add: MINUTE_US_def)
  then show ?thesis using us v assms
    by (simp add: start_of_minute_def stamp_def dated_def valid_moment_def) (simp add: DAY_US_def MINUTE_US_def)
qed

lemma div_floor_le: "0 < w \<Longrightarrow> (a :: int) div w * w = a \<Longrightarrow> a < b div w * w + w \<longleftrightarrow> a \<le> b"
proof -
  assume w: "0 < w" and a: "a div w * w = a"
  have "b < b div w * w + w" using w pos_mod_bound [of w b] div_mult_mod_eq [of b w] by linarith
  moreover have "a \<le> b div w * w" if "a < b div w * w + w"
  proof -
    have "a div w * w < (b div w + 1) * w" using that a by (simp add: distrib_right)
    then have "a div w < b div w + 1" using w by (simp add: mult_less_cancel_right)
    then show ?thesis using a w by (metis mult_right_mono less_imp_le zle_add1_eq_le)
  qed
  ultimately show ?thesis using div_mult_below [OF w, of b] by linarith
qed

text \<open>The latest occurrence at or before the moment.\<close>

lemma cron_last_greatest:
  assumes laws: "cron_laws cron expr occ first" and t: "dated t" "stamp first \<le> stamp t"
  shows "occ (cron_last cron expr t) \<and> stamp (cron_last cron expr t) \<le> stamp t
    \<and> (\<forall>o'. occ o' \<and> stamp o' \<le> stamp t \<longrightarrow> stamp o' \<le> stamp (cron_last cron expr t))"
proof -
  define n where "n = shift MINUTE_US (start_of_minute t)"
  note som = start_of_minute_stamp [OF t(1)]
  have n: "dated n" "stamp n = stamp t div MINUTE_US * MINUTE_US + MINUTE_US"
    using dated_shift [of "start_of_minute t" MINUTE_US] som by (simp_all add: n_def MINUTE_US_def)
  have below: "stamp o' < stamp n \<longleftrightarrow> stamp o' \<le> stamp t" if "occ o'" for o'
    using cron_lawsD(2) [OF laws t(1) that] start_of_minute_stamp [of o'] unfolding n(2)
    by (intro div_floor_le) (simp_all add: MINUTE_US_def)
  have "stamp first < stamp n" using below [OF cron_lawsD(1) [OF laws t(1)]] t(2) by simp
  note p = cron_lawsD(3,4) [OF laws n(1) this]
  have "cron_last cron expr t = cr_prev cron expr n" by (simp add: cron_last_def n_def)
  then show ?thesis using p below by auto
qed

lemma minute_text_inj:
  assumes "dated s" "start_of_minute s = s" "dated t" "start_of_minute t = t"
  shows "minute_text s = minute_text t \<longleftrightarrow> s = t"
proof
  assume eq: "minute_text s = minute_text t"
  have parts: "mo_us r = mo_hour r * HOUR_US + mo_minute r * MINUTE_US" "0 \<le> mo_hour r" "0 \<le> mo_minute r"
    if "dated r" "start_of_minute r = r" for r
  proof -
    have "mo_us r div MINUTE_US * MINUTE_US = mo_us r" using arg_cong [OF that(2), of mo_us] by (simp add: start_of_minute_def)
    moreover have "mo_us r div MINUTE_US = mo_hour r * 60 + mo_minute r"
      using div_within(1) [of MINUTE_US 60 "mo_us r"] by (simp add: mo_hour_def mo_minute_def HOUR_US_def MINUTE_US_def)
    ultimately show "mo_us r = mo_hour r * HOUR_US + mo_minute r * MINUTE_US"
      by (simp add: HOUR_US_def MINUTE_US_def)
    show "0 \<le> mo_hour r" "0 \<le> mo_minute r" using clock_parts dated_valid [OF that(1)] by simp_all
  qed
  have "mo_date s = mo_date t \<and> mo_hour s = mo_hour t \<and> mo_minute s = mo_minute t"
    using eq parts [OF assms(1,2)] parts [OF assms(3,4)]
    by (simp add: minute_text_def day_text_sep [OF assms(1,3)] padded_sep)
  then show "s = t" using parts(1) [OF assms(1,2)] parts(1) [OF assms(3,4)] by (cases s; cases t) simp
qed simp

lemma cron_last_mono:
  assumes "cron_laws c e occ first" "dated s" "stamp first \<le> stamp s" "dated t" "stamp s \<le> stamp t"
  shows "stamp (cron_last c e s) \<le> stamp (cron_last c e t)"
proof -
  have "stamp first \<le> stamp t" using assms(3,5) by linarith
  note g = cron_last_greatest [OF assms(1-3)] cron_last_greatest [OF assms(1,4) this]
  then have "stamp (cron_last c e s) \<le> stamp t" using assms(5) by linarith
  then show ?thesis using g by blast
qed

interpretation crons: periods "\<lambda>(c, e, occ, first). cron_laws c e occ first"
  "\<lambda>(c, e, occ, first) t. dated t \<and> stamp first \<le> stamp t" "\<lambda>(c, e, occ, first). cron_last c e"
  "\<lambda>(c, e, occ, first) t. CRON_PREFIX @ minute_text (cron_last c e t)" "\<lambda>(c, e, occ, first). cr_next c e"
proof (unfold_locales, goal_cases)
  case (1 p s t)
  obtain c e occ first where p: "p = (c, e, occ, first)" by (cases p)
  then show ?case using 1 cron_last_mono [of c e occ first s t] by simp
next
  case (2 p s t)
  obtain c e occ first where p: "p = (c, e, occ, first)" by (cases p)
  have laws: "cron_laws c e occ first" and t: "dated s" "stamp first \<le> stamp s" "dated t" "stamp first \<le> stamp t"
    using 2 by (simp_all add: p)
  have l: "dated (cron_last c e r)" "start_of_minute (cron_last c e r) = cron_last c e r"
    if "dated r" "stamp first \<le> stamp r" for r
    using cron_last_greatest [OF laws that] cron_lawsD(2) [OF laws that(1)] by blast+
  have "cron_last c e s = cron_last c e t \<longleftrightarrow> stamp (cron_last c e s) = stamp (cron_last c e t)"
    using stamp_inj l [OF t(1,2)] l [OF t(3,4)] unfolding dated_def by metis
  then show ?case using minute_text_inj [OF l [OF t(1,2)] l [OF t(3,4)]] by (simp add: p)
next
  case (3 p t)
  obtain c e occ first where p: "p = (c, e, occ, first)" by (cases p)
  have laws: "cron_laws c e occ first" and t: "dated t" "stamp first \<le> stamp t" using 3 by (simp_all add: p)
  note g = cron_last_greatest [OF laws t]
  have l: "dated (cron_last c e t)" "stamp first \<le> stamp (cron_last c e t)"
    using g t cron_lawsD(1,2) [OF laws t(1)] by blast+
  have "stamp (cron_last c e (cron_last c e t)) = stamp (cron_last c e t)"
    using g cron_last_greatest [OF laws l] by (meson antisym order_refl)
  then show ?case using l by (simp add: p)
next
  case (4 p t)
  obtain c e occ first where p: "p = (c, e, occ, first)" by (cases p)
  have laws: "cron_laws c e occ first" and t: "dated t" "stamp first \<le> stamp t" using 4 by (simp_all add: p)
  note n = cron_lawsD(5) [OF laws t]
  have l: "dated (cr_next c e t)" "stamp first \<le> stamp (cr_next c e t)" using n t cron_lawsD(2) [OF laws t(1)] by fastforce+
  have "stamp (cron_last c e t) \<le> stamp t" "stamp (cr_next c e t) \<le> stamp (cron_last c e (cr_next c e t))"
    using cron_last_greatest [OF laws t] cron_last_greatest [OF laws l] n by blast+
  then show ?case using l n by (simp add: p)
next
  case (5 p t u)
  obtain c e occ first where p: "p = (c, e, occ, first)" by (cases p)
  have laws: "cron_laws c e occ first" and t: "dated t" "stamp first \<le> stamp t" and u: "dated u" "stamp first \<le> stamp u"
    and less: "stamp (cron_last c e t) < stamp (cron_last c e u)" using 5 by (simp_all add: p)
  note n = cron_lawsD(5) [OF laws t]
  have l: "dated (cr_next c e t)" "stamp first \<le> stamp (cr_next c e t)" using n t cron_lawsD(2) [OF laws t(1)] by fastforce+
  have "stamp t < stamp (cron_last c e u)" using cron_last_greatest [OF laws t] cron_last_greatest [OF laws u] less by force
  then have "stamp (cr_next c e t) \<le> stamp (cron_last c e u)"
    using cron_lawsD(6) [OF laws t] cron_last_greatest [OF laws u] by blast
  then show ?case using cron_last_greatest [OF laws l] by (simp add: p)
qed

section \<open>What \<open>next_run\<close> announces\<close>

definition announced :: "cron \<Rightarrow> schedule \<Rightarrow> (moment \<Rightarrow> bool) \<Rightarrow> moment \<Rightarrow> string \<Rightarrow> bool" where
  "announced cron s live now seen \<longleftrightarrow>
     (case next_run cron s now seen of
        Inl e \<Rightarrow> False
      | Inr None \<Rightarrow> is_due cron s now seen = Inr True
      | Inr (Some t) \<Rightarrow>
          live t \<and> stamp now < stamp t \<and> is_due cron s t seen = Inr True
          \<and> (\<forall>u. live u \<and> stamp now \<le> stamp u \<and> stamp u < stamp t \<longrightarrow> is_due cron s u seen = Inr False))"

lemma announcedI:
  assumes total: "\<And>t. live t \<Longrightarrow> period_target cron s t = Inr (goal_of cron s t)"
    and now: "live now" "live (next_period cron s now)"
    and first: "stamp now < stamp (goal_of cron s now) \<or> seen = fire_window cron s now \<Longrightarrow>
      fires_first live (goal_of cron s) (fire_window cron s) now seen
        (if stamp now < stamp (goal_of cron s now) then goal_of cron s now else goal_of cron s (next_period cron s now))"
  shows "announced cron s live now seen"
proof (cases "stamp now < stamp (goal_of cron s now) \<or> seen = fire_window cron s now")
  case True
  define t where "t = (if stamp now < stamp (goal_of cron s now) then goal_of cron s now else goal_of cron s (next_period cron s now))"
  have f: "live t" "stamp now < stamp t" "stamp (goal_of cron s t) = stamp t" "seen \<noteq> fire_window cron s t"
    "live u \<Longrightarrow> stamp now \<le> stamp u \<Longrightarrow> stamp u < stamp t \<Longrightarrow> stamp u < stamp (goal_of cron s u) \<or> seen = fire_window cron s u" for u
    using first [OF True, folded t_def] unfolding fires_first_def by blast+
  have due: "is_due cron s u seen = Inr (stamp (goal_of cron s u) \<le> stamp u \<and> seen \<noteq> fire_window cron s u)" if "live u" for u
    using total [OF that] by (simp add: is_due_def bindE_def)
  have "next_run cron s now seen = Inr (Some t)"
    using True total [OF now(1)] total [OF now(2)] by (auto simp: next_run_def bindE_def t_def)
  moreover have "is_due cron s t seen = Inr True" using due f by simp
  moreover have "is_due cron s u seen = Inr False" if "live u" "stamp now \<le> stamp u" "stamp u < stamp t" for u
    using due [OF that(1)] f(5) [OF that] by force
  ultimately show ?thesis using f by (simp add: announced_def)
next
  case False
  then show ?thesis using total [OF now(1)] by (simp add: announced_def next_run_def is_due_def bindE_def)
qed

text \<open>
  C26: for a sound schedule, what \<open>next_run\<close> tells is what the sweep does: it never raises; it gives
  no moment exactly when the schedule is due now, and otherwise the first moment at which it will be
  due, as long as the period now running has not been fired ahead of its target.
\<close>

theorem next_run_is_first_due:
  assumes "sound_schedule s" "dated now"
    and "stamp now < stamp (goal_of cron s now) \<Longrightarrow> seen \<noteq> fire_window cron s now"
  shows "announced cron s dated now seen"
  using calendar.first_due [of "(cron, s)" now seen] assms target_total onward_number
  by (intro announcedI) auto

definition tuesday :: moment where
  "tuesday = \<lparr>mo_date = (2026, 3, 3), mo_us = 10 * HOUR_US\<rparr>"

definition wednesdays_at_nine :: schedule where
  "wednesdays_at_nine = \<lparr>sc_every = ''weekly'', sc_at = ''09:00'', sc_dow = ''wed'', sc_dom = 0, sc_tz = []\<rparr>"

text \<open>The cron of every minute.\<close>

definition every_minute :: cron where
  "every_minute = \<lparr>
     cr_prev = (\<lambda>e t. if start_of_minute t = t then shift (- MINUTE_US) t else start_of_minute t),
     cr_next = (\<lambda>e t. shift MINUTE_US (start_of_minute t))\<rparr>"

lemma tuesday_eval:
  "dated tuesday" "sound_schedule wednesdays_at_nine"
  "period_target every_minute wednesdays_at_nine tuesday = Inr \<lparr>mo_date = (2026, 3, 4), mo_us = 9 * HOUR_US\<rparr>"
  by code_simp+

lemma fire_window_some: "fire_window cron s t \<noteq> []"
  by (auto simp: fire_window_def window_key_def CRON_PREFIX_def day_text_def split: option.splits prod.splits)

theorem next_run_is_first_due_witness:
  "announced every_minute wednesdays_at_nine dated tuesday []
   \<and> next_run every_minute wednesdays_at_nine tuesday [] = Inr (Some \<lparr>mo_date = (2026, 3, 4), mo_us = 9 * HOUR_US\<rparr>)"
proof (rule conjI)
  show "announced every_minute wednesdays_at_nine dated tuesday []"
    by (rule next_run_is_first_due [OF tuesday_eval(2,1)]) (use fire_window_some in metis)
  show "next_run every_minute wednesdays_at_nine tuesday [] = Inr (Some \<lparr>mo_date = (2026, 3, 4), mo_us = 9 * HOUR_US\<rparr>)"
    by code_simp
qed

text \<open>
  the same for a cron row, over the occurrences croniter steps through: \<open>next_run\<close> gives no
  moment exactly when the latest occurrence has not been fired, and otherwise the next one.
\<close>

theorem cron_next_run_is_first_due:
  assumes "cron_expr (sc_every s) = Some e" "cron_laws cron e occ first" "dated now" "stamp first \<le> stamp now"
  shows "announced cron s (\<lambda>t. dated t \<and> stamp first \<le> stamp t) now seen"
proof (rule announcedI)
  have target: "period_target cron s t = Inr (cron_last cron e t)" for t
    using assms(1) by (simp add: period_target_def)
  have goal: "goal_of cron s = cron_last cron e" using target by (simp add: goal_of_def fun_eq_iff)
  show "period_target cron s t = Inr (goal_of cron s t)" for t using target goal by simp
  have next_step: "next_period cron s now = cr_next cron e now" using assms(1) by (simp add: next_period_def)
  show "dated (next_period cron s now) \<and> stamp first \<le> stamp (next_period cron s now)"
    using crons.onward_dated [of "(cron, e, occ, first)" now] assms by (simp add: next_step)
  have key: "fire_window cron s = (\<lambda>t. CRON_PREFIX @ minute_text (cron_last cron e t))"
    using assms(1) by (simp add: fire_window_def fun_eq_iff)
  have "\<not> stamp now < stamp (cron_last cron e now)"
    using cron_last_greatest [OF assms(2-4)] by simp
  then show "fires_first (\<lambda>t. dated t \<and> stamp first \<le> stamp t) (goal_of cron s) (fire_window cron s) now seen
      (if stamp now < stamp (goal_of cron s now) then goal_of cron s now else goal_of cron s (next_period cron s now))"
    if "stamp now < stamp (goal_of cron s now) \<or> seen = fire_window cron s now"
    using crons.first_due [of "(cron, e, occ, first)" now seen] assms that by (simp add: goal key next_step)
qed (use assms in simp)

definition whole_minute :: "moment \<Rightarrow> bool" where
  "whole_minute t \<longleftrightarrow> dated t \<and> start_of_minute t = t"

lemma whole_minute_iff: "whole_minute t \<longleftrightarrow> dated t \<and> MINUTE_US dvd stamp t"
proof (cases "dated t")
  case True
  have "start_of_minute t = t \<longleftrightarrow> stamp t div MINUTE_US * MINUTE_US = stamp t"
    using start_of_minute_stamp [OF True] stamp_inj [of "start_of_minute t" t] True unfolding dated_def by metis
  then show ?thesis using True by (simp add: whole_minute_def dvd_eq_mod_eq_0 minus_mod_eq_div_mult [symmetric])
qed (simp add: whole_minute_def)

lemma dated_stamp: "valid_moment t \<Longrightarrow> dated t \<longleftrightarrow> DAY_US \<le> stamp t"
proof -
  assume t: "valid_moment t"
  have "1 \<le> ordinal (mo_date t) \<longleftrightarrow> DAY_US \<le> stamp t"
    using t stamp_date [OF t] by (auto simp: stamp_def valid_moment_def DAY_US_def)
  then show ?thesis using t fst_ordinal by (simp add: dated_def valid_moment_def)
qed

lemma multiples_apart: "(k :: int) dvd a \<Longrightarrow> k dvd b \<Longrightarrow> 0 < k \<Longrightarrow> a < b \<Longrightarrow> a + k \<le> b"
  using zdvd_imp_le [of k "b - a"] by auto

lemma every_minute_laws:
  "cron_laws every_minute e whole_minute \<lparr>mo_date = (1, 1, 1), mo_us = 0\<rparr>"
proof -
  have k: "0 < MINUTE_US" by (simp add: MINUTE_US_def)
  have first: "whole_minute \<lparr>mo_date = (1, 1, 1), mo_us = 0\<rparr>" "stamp \<lparr>mo_date = (1, 1, 1), mo_us = 0\<rparr> = DAY_US" by code_simp+
  have day: "MINUTE_US dvd DAY_US" by code_simp
  have before: "whole_minute (cr_prev every_minute e t) \<and> stamp (cr_prev every_minute e t) < stamp t
      \<and> (\<forall>o'. whole_minute o' \<and> stamp o' < stamp t \<longrightarrow> stamp o' \<le> stamp (cr_prev every_minute e t))"
    if t: "dated t" "DAY_US < stamp t" for t
  proof (cases "start_of_minute t = t")
    case True
    then have m: "MINUTE_US dvd stamp t" using t whole_minute_iff whole_minute_def by metis
    note s = shift_stamp [of t "- MINUTE_US"]
    have "DAY_US + MINUTE_US \<le> stamp t" using multiples_apart [OF day m k] t by simp
    then have "whole_minute (shift (- MINUTE_US) t)"
      using s t m dated_stamp [of "shift (- MINUTE_US) t"] by (simp add: whole_minute_iff dated_def)
    moreover have "stamp o' \<le> stamp t - MINUTE_US" if "whole_minute o'" "stamp o' < stamp t" for o'
      using multiples_apart [of MINUTE_US "stamp o'" "stamp t"] m k that by (simp add: whole_minute_iff)
    ultimately show ?thesis using True s t k by (simp add: every_minute_def dated_def)
  next
    case False
    note s = start_of_minute_stamp [OF t(1)]
    have "start_of_minute (start_of_minute t) = start_of_minute t" by (simp add: start_of_minute_def MINUTE_US_def)
    moreover have "stamp (start_of_minute t) \<noteq> stamp t"
      using False s t stamp_inj [of "start_of_minute t" t] unfolding dated_def by blast
    moreover have "stamp (start_of_minute t) \<le> stamp t" using s div_mult_below [OF k] by simp
    moreover have "stamp o' \<le> stamp (start_of_minute t)" if "whole_minute o'" "stamp o' < stamp t" for o'
      using multiples_apart [of MINUTE_US "stamp (start_of_minute t)" "stamp o'"] k that s
        pos_mod_bound [OF k, of "stamp t"] div_mult_mod_eq [of "stamp t" MINUTE_US]
      by (cases "stamp (start_of_minute t) < stamp o'") (simp_all add: whole_minute_iff)
    ultimately show ?thesis using False s by (simp add: every_minute_def whole_minute_def)
  qed
  have after: "whole_minute (cr_next every_minute e t) \<and> stamp t < stamp (cr_next every_minute e t)
      \<and> (\<forall>o'. whole_minute o' \<and> stamp t < stamp o' \<longrightarrow> stamp (cr_next every_minute e t) \<le> stamp o')"
    if t: "dated t" for t
  proof -
    note s = start_of_minute_stamp [OF t]
    note n = dated_shift [of "start_of_minute t" MINUTE_US]
    have "stamp t < stamp (start_of_minute t) + MINUTE_US"
      using s pos_mod_bound [OF k, of "stamp t"] div_mult_mod_eq [of "stamp t" MINUTE_US] by linarith
    moreover have "stamp (start_of_minute t) + MINUTE_US \<le> stamp o'" if "whole_minute o'" "stamp t < stamp o'" for o'
      using multiples_apart [of MINUTE_US "stamp (start_of_minute t)" "stamp o'"] k that s div_mult_below [OF k, of "stamp t"]
      by (simp add: whole_minute_iff)
    ultimately show ?thesis using s n k by (simp add: every_minute_def whole_minute_iff)
  qed
  show ?thesis unfolding cron_laws_def first(2) using first(1) before after by (simp add: whole_minute_def)
qed

theorem cron_next_run_is_first_due_witness:
  "announced every_minute (wednesdays_at_nine\<lparr>sc_every := ''cron:* * * * *''\<rparr>)
     (\<lambda>t. dated t \<and> DAY_US \<le> stamp t) tuesday ''cron:2026-03-03T10:00''"
proof -
  have first: "stamp \<lparr>mo_date = (1, 1, 1), mo_us = 0\<rparr> = DAY_US" by code_simp
  have "announced every_minute (wednesdays_at_nine\<lparr>sc_every := ''cron:* * * * *''\<rparr>)
      (\<lambda>t. dated t \<and> stamp \<lparr>mo_date = (1, 1, 1), mo_us = 0\<rparr> \<le> stamp t) tuesday ''cron:2026-03-03T10:00''"
  proof (rule cron_next_run_is_first_due [OF _ every_minute_laws tuesday_eval(1)])
    show "cron_expr (sc_every (wednesdays_at_nine\<lparr>sc_every := ''cron:* * * * *''\<rparr>)) = Some ''* * * * *''"
      by (simp add: cron_expr_def CRON_PREFIX_def starts_with_def)
    show "stamp \<lparr>mo_date = (1, 1, 1), mo_us = 0\<rparr> \<le> stamp tuesday" by code_simp
  qed
  then show ?thesis by (simp only: first)
qed

text \<open>
  the windows of a sound schedule pass in order: once the window has changed, an earlier window
  never comes back, so a window is fired once by a store that remembers only the last.
\<close>

theorem windows_pass_in_order:
  assumes "sound_schedule s" "dated t" "dated u" "dated v" "stamp t \<le> stamp u" "stamp u \<le> stamp v"
    and "fire_window cron s u \<noteq> fire_window cron s t"
  shows "fire_window cron s v \<noteq> fire_window cron s t"
  using calendar.key_once [of "(cron, s)" t u v] assms by auto

text \<open>a schedule the profile loader keeps is never an error to the sweep, at any moment.\<close>

theorem kept_schedules_never_raise:
  assumes "schedule_ok zone_ok s" "dated now"
  shows "(\<exists>b. is_due cron s now seen = Inr b) \<and> (\<exists>r. next_run cron s now seen = Inr r)"
proof -
  have "sound_schedule s"
    using assms(1) kind_names
    by (auto simp: schedule_ok_def validate_schedule_def sound_schedule_def is_hint_def EVERY_def split: if_splits)
  then show ?thesis
    using target_total [of s now cron] target_total [of s "next_period cron s now" cron] onward_number [of s now cron] assms(2)
    by (simp add: is_due_def next_run_def bindE_def)
qed

end
