(* ===== verification/UserSchedules.thy ===== *)
theory UserSchedules
  imports ScheduleRules DslChecks
begin

text \<open>
  The schedules a page or an item declares, \<open>workflow/user_schedules.py\<close>: the lint and the decoding of
  a row of \<open>schedules.json\<close>, the row as a schedule, its identity, the birth rule and when it fires
  next.

  A file is read as a JSON value without floats.  The zone table (\<open>zones\<close>, by lower-case name), the
  zone database (\<open>zone_ok\<close>), the conversion of an instant to a zone's wall clock (\<open>wall\<close>), what
  croniter accepts (\<open>cron_ok\<close>, \<open>comes_round\<close>) and the digest of a JSON text are arguments.
  Texts are ASCII.
\<close>

section \<open>Rows\<close>

definition USER_EVERY :: "string list" where
  "USER_EVERY = [''minutes'', ''hourly'', ''daily'', ''weekly'', ''monthly'']"

record user_row =
  ur_run :: string
  ur_every :: string
  ur_n :: int
  ur_at :: string
  ur_dow :: string
  ur_dom :: int
  ur_tz :: string
  ur_payload :: "(string \<times> json) list"
  ur_cron :: string

definition as_schedule :: "user_row \<Rightarrow> schedule" where
  "as_schedule r =
     (if ur_cron r \<noteq> []
      then \<lparr>sc_every = CRON_PREFIX @ ur_cron r, sc_at = ''00:00'', sc_dow = [], sc_dom = 0, sc_tz = ur_tz r\<rparr>
      else \<lparr>sc_every = (if ur_every r \<noteq> ''minutes'' then ur_every r else MINUTES_PREFIX @ json_int (ur_n r)),
            sc_at = ur_at r, sc_dow = ur_dow r, sc_dom = ur_dom r, sc_tz = ur_tz r\<rparr>)"

record zone_env =
  ze_zones :: "string \<Rightarrow> string option"
  ze_zone_ok :: "string \<Rightarrow> bool"
  ze_cron_ok :: "string \<Rightarrow> bool"
  ze_comes_round :: "string \<Rightarrow> bool"

definition normalise_tz :: "zone_env \<Rightarrow> string \<Rightarrow> string" where
  "normalise_tz env tz = (if tz = [] then tz else case ze_zones env tz of Some name \<Rightarrow> name | None \<Rightarrow> tz)"

definition ascii_space :: "char \<Rightarrow> bool" where
  "ascii_space c \<longleftrightarrow> (let n = (of_char c :: nat) in (9 \<le> n \<and> n \<le> 13) \<or> (28 \<le> n \<and> n \<le> 32))"

text \<open>\<open>s.split()\<close>.\<close>

fun split_words :: "string \<Rightarrow> string list" where
  "split_words [] = []"
| "split_words (c # cs) =
     (if ascii_space c then split_words cs
      else if cs = [] \<or> ascii_space (hd cs) then [c] # split_words cs
      else (case split_words cs of [] \<Rightarrow> [[c]] | w # ws \<Rightarrow> (c # w) # ws))"

definition normalise_cron :: "string \<Rightarrow> string" where
  "normalise_cron c = join '' '' (split_words c)"

text \<open>\<open>row.get(key)\<close>, and \<open>row.get(key) or d\<close>.\<close>

definition field :: "json \<Rightarrow> string \<Rightarrow> json" where
  "field row k = (case jget row k of Some v \<Rightarrow> v | None \<Rightarrow> JNull)"

definition field_or :: "json \<Rightarrow> string \<Rightarrow> json \<Rightarrow> json" where
  "field_or row k d = (if truthy (field row k) then field row k else d)"

text \<open>\<open>isinstance(v, int)\<close>, a bool being one; \<open>int(v)\<close>.\<close>

fun int_value :: "json \<Rightarrow> int option" where
  "int_value (JInt i) = Some i"
| "int_value (JBool b) = Some (if b then 1 else 0)"
| "int_value v = None"

definition to_int :: "json \<Rightarrow> step_exn + int" where
  "to_int v =
     (case int_value v of
        Some i \<Rightarrow> Inr i
      | None \<Rightarrow> (case v of JStr s \<Rightarrow> read_int s | _ \<Rightarrow> Inl (Raised ''TypeError'')))"

definition to_dict :: "json \<Rightarrow> step_exn + (string \<times> json) list" where
  "to_dict v = (case v of JObj kvs \<Rightarrow> Inr kvs | JArr [] \<Rightarrow> Inr [] | _ \<Rightarrow> Inl (Raised ''TypeError''))"

definition decode_row :: "zone_env \<Rightarrow> json \<Rightarrow> step_exn + user_row" where
  "decode_row env row =
     bindE (to_int (field_or row ''n'' (JInt 0))) (\<lambda>n.
     bindE (to_int (field_or row ''dom'' (JInt 0))) (\<lambda>dom.
     bindE (to_dict (field_or row ''with'' (JObj []))) (\<lambda>payload.
       Inr \<lparr>ur_run = py_str (field_or row ''run'' (JStr [])),
            ur_every = py_str (field_or row ''every'' (JStr ''daily'')),
            ur_n = n,
            ur_at = py_str (field_or row ''at'' (JStr ''00:00'')),
            ur_dow = py_str (field_or row ''dow'' (JStr [])),
            ur_dom = dom,
            ur_tz = normalise_tz env (py_str (field_or row ''tz'' (JStr []))),
            ur_payload = payload,
            ur_cron = normalise_cron (py_str (field_or row ''cron'' (JStr [])))\<rparr>)))"

section \<open>The lint\<close>

datatype row_problem =
  NotAnObject | NeedsRun | DomNotNumber json | WithNotObject string | CronAndEvery | BesideCron string
| CronNotText string | CronNotFiveFields string | CronNotFollowed string | CronNeverComesRound string
| BadTz string | BadPeriod json | NeedsN | NNotDivisor int | NBesideMinutes | NeedsDow | DomOutOfRange json
| AtNotTime json | AtBesideDaily | CouldNotRead

definition PERIOD_FIELDS :: "string list" where
  "PERIOD_FIELDS = [''n'', ''at'', ''dow'', ''dom'']"

text \<open>\<open>s.partition(":")\<close>.\<close>

definition looks_like_time :: "json \<Rightarrow> bool" where
  "looks_like_time v =
     (case v of
        JStr s \<Rightarrow>
          CHR '':'' \<in> set s
          \<and> (let hh = takeWhile (\<lambda>c. c \<noteq> CHR '':'') s; mm = tl (dropWhile (\<lambda>c. c \<noteq> CHR '':'') s)
             in all_digits hh \<and> all_digits mm \<and> digits_value hh \<le> 23 \<and> digits_value mm \<le> 59)
      | _ \<Rightarrow> False)"

definition tz_problems :: "zone_env \<Rightarrow> json \<Rightarrow> row_problem list" where
  "tz_problems env row =
     (let tz = normalise_tz env (py_str (field_or row ''tz'' (JStr [])))
      in if tz \<noteq> [] \<and> \<not> ze_zone_ok env tz then [BadTz tz] else [])"

definition cron_problems :: "zone_env \<Rightarrow> json \<Rightarrow> row_problem list" where
  "cron_problems env row =
     (if truthy (field row ''every'') then [CronAndEvery] else [])
     @ map BesideCron (filter (\<lambda>k. truthy (field row k)) PERIOD_FIELDS)
     @ (case field row ''cron'' of
          JStr c \<Rightarrow>
            if length (split_words c) \<noteq> 5 then [CronNotFiveFields c]
            else if \<not> ze_cron_ok env c then [CronNotFollowed c]
            else if \<not> ze_comes_round env c then [CronNeverComesRound c]
            else []
        | v \<Rightarrow> [CronNotText (type_name v)])
     @ tz_problems env row"

text \<open>The part of the lint on the period a row names.\<close>

definition period_problems :: "zone_env \<Rightarrow> json \<Rightarrow> string \<Rightarrow> row_problem list" where
  "period_problems env row every =
     (if every = ''minutes''
      then (case int_value (field row ''n'') of
              None \<Rightarrow> [NeedsN]
            | Some n \<Rightarrow> if n < 1 then [NeedsN] else if 60 mod n \<noteq> 0 then [NNotDivisor n] else [])
      else if truthy (field row ''n'') then [NBesideMinutes] else [])
     @ tz_problems env row
     @ (if every = ''weekly'' \<and> field row ''dow'' \<notin> JStr ` set DOW then [NeedsDow] else [])
     @ (if every = ''monthly''
        then (let dom = field_or row ''dom'' (JInt 0) in
              case int_value dom of Some d \<Rightarrow> if 1 \<le> d \<and> d \<le> 31 then [] else [DomOutOfRange dom] | None \<Rightarrow> [])
        else [])
     @ (if every \<in> set EVERY
        then (let at_v = field_or row ''at'' (JStr ''00:00'') in if looks_like_time at_v then [] else [AtNotTime at_v])
        else if truthy (field row ''at'') then [AtBesideDaily] else [])"

definition lint_row :: "zone_env \<Rightarrow> json \<Rightarrow> row_problem list" where
  "lint_row env row =
     (case row of
        JObj _ \<Rightarrow>
          (if truthy (field row ''run'') then [] else [NeedsRun])
          @ (if field row ''dom'' \<noteq> JNull \<and> int_value (field row ''dom'') = None then [DomNotNumber (field row ''dom'')] else [])
          @ (case field row ''with'' of JNull \<Rightarrow> [] | JObj _ \<Rightarrow> [] | v \<Rightarrow> [WithNotObject (type_name v)])
          @ (if truthy (field row ''cron'') then cron_problems env row
             else (case field_or row ''every'' (JStr ''daily'') of
                     JStr every \<Rightarrow> if every \<in> set USER_EVERY then period_problems env row every else [BadPeriod (JStr every)]
                   | v \<Rightarrow> [BadPeriod v]))
      | _ \<Rightarrow> [NotAnObject])"

section \<open>Files\<close>

definition file_rows :: "json option \<Rightarrow> json list option" where
  "file_rows doc = (case doc of Some d \<Rightarrow> (case jget d ''schedules'' of Some (JArr rows) \<Rightarrow> Some rows | _ \<Rightarrow> None) | None \<Rightarrow> None)"

definition over_cap :: "json option \<Rightarrow> nat \<Rightarrow> bool" where
  "over_cap doc max_rows = (case file_rows doc of None \<Rightarrow> False | Some rows \<Rightarrow> max_rows < length rows)"

text \<open>One row, linted and decoded, or its problems.\<close>

definition parse_row :: "zone_env \<Rightarrow> json \<Rightarrow> row_problem list + user_row" where
  "parse_row env raw =
     (if lint_row env raw \<noteq> [] then Inl (lint_row env raw)
      else (case decode_row env raw of Inr r \<Rightarrow> Inr r | Inl _ \<Rightarrow> Inl [CouldNotRead]))"

definition usable_rows :: "zone_env \<Rightarrow> json option \<Rightarrow> user_row list" where
  "usable_rows env doc =
     (case file_rows doc of
        None \<Rightarrow> []
      | Some rows \<Rightarrow> concat (map (\<lambda>raw. case parse_row env raw of Inr r \<Rightarrow> [r] | Inl _ \<Rightarrow> []) rows))"

section \<open>Identity, birth and the next run\<close>

definition fingerprint :: "string \<Rightarrow> user_row \<Rightarrow> json" where
  "fingerprint folder r =
     sorted_keys (JObj [
       (''folder'', JStr folder), (''run'', JStr (ur_run r)), (''with'', JObj (ur_payload r)),
       (''when'', JArr ([JStr (ur_every r), JInt (ur_n r), JStr (ur_at r), JStr (ur_dow r), JInt (ur_dom r), JStr (ur_tz r)]
                        @ (if ur_cron r \<noteq> [] then [JStr (ur_cron r)] else [])))])"

definition trigger_id_for :: "(json \<Rightarrow> string) \<Rightarrow> string \<Rightarrow> string \<Rightarrow> user_row \<Rightarrow> string" where
  "trigger_id_for digest item folder r = ''wui:'' @ item @ '':'' @ digest (fingerprint folder r)"

text \<open>An instant on the wall clock of a zone; without a zone, or with one that cannot be read, UTC.\<close>

definition in_zone :: "(string \<Rightarrow> moment \<Rightarrow> moment option) \<Rightarrow> moment \<Rightarrow> string \<Rightarrow> moment" where
  "in_zone wall now_utc tz = (if tz = [] then now_utc else case wall tz now_utc of Some t \<Rightarrow> t | None \<Rightarrow> now_utc)"

definition born_after_target ::
  "(string \<Rightarrow> moment \<Rightarrow> moment option) \<Rightarrow> cron \<Rightarrow> user_row \<Rightarrow> moment \<Rightarrow> moment option \<Rightarrow> step_exn + string" where
  "born_after_target wall cron r now_utc landed_utc =
     (case landed_utc of
        None \<Rightarrow> Inr []
      | Some landed_utc \<Rightarrow>
          (let s = as_schedule r; now = in_zone wall now_utc (ur_tz r); landed = in_zone wall landed_utc (ur_tz r)
           in bindE (period_target cron s now) (\<lambda>target.
                Inr (if stamp target \<le> stamp landed then fire_window cron s now else []))))"

text \<open>The wall-clock moment a row fires next; none when it is due now.\<close>

definition next_run_at ::
  "(string \<Rightarrow> moment \<Rightarrow> moment option) \<Rightarrow> cron \<Rightarrow> user_row \<Rightarrow> moment \<Rightarrow> string \<Rightarrow> step_exn + moment option" where
  "next_run_at wall cron r now_utc seen = next_run cron (as_schedule r) (in_zone wall now_utc (ur_tz r)) seen"

definition last_or_born ::
  "(string \<Rightarrow> moment \<Rightarrow> moment option) \<Rightarrow> cron \<Rightarrow> user_row \<Rightarrow> moment \<Rightarrow> string \<Rightarrow> moment option \<Rightarrow> step_exn + string" where
  "last_or_born wall cron r now_utc seen landed_utc =
     (if seen \<noteq> [] then Inr seen else born_after_target wall cron r now_utc landed_utc)"

section \<open>What the lint lets through can be run\<close>

lemma split_on_absent: "d \<notin> set xs \<Longrightarrow> split_on d xs = [xs]"
  by (induction xs) auto

lemma split_on_first: "d \<notin> set xs \<Longrightarrow> split_on d (xs @ d # ys) = xs # split_on d ys"
  by (induction xs) auto

lemma looks_like_time_valid:
  assumes "looks_like_time (JStr s)"
  shows "valid_hhmm s"
proof -
  let ?hh = "takeWhile (\<lambda>c. c \<noteq> CHR '':'') s" and ?mm = "tl (dropWhile (\<lambda>c. c \<noteq> CHR '':'') s)"
  have t: "CHR '':'' \<in> set s" "all_digits ?hh" "all_digits ?mm" "digits_value ?hh \<le> 23" "digits_value ?mm \<le> 59"
    using assms by (simp_all add: looks_like_time_def Let_def)
  have "dropWhile (\<lambda>c. c \<noteq> CHR '':'') s \<noteq> []" using t(1) by (simp add: dropWhile_eq_Nil_conv)
  then have "dropWhile (\<lambda>c. c \<noteq> CHR '':'') s = CHR '':'' # ?mm"
    using hd_dropWhile [of "\<lambda>c. c \<noteq> CHR '':''" s] by (metis list.collapse)
  then have "s = ?hh @ CHR '':'' # ?mm" by (metis takeWhile_dropWhile_id)
  moreover have "CHR '':'' \<notin> set ?mm" using t(3) separators(2) by (auto simp: all_digits_def list_all_iff)
  moreover have "CHR '':'' \<notin> set ?hh" using set_takeWhileD by fastforce
  ultimately have "split_on (CHR '':'') s = [?hh, ?mm]" using split_on_first split_on_absent by metis
  then show ?thesis using t by (simp add: valid_hhmm_def)
qed

lemma minutes_text:
  assumes "1 \<le> n"
  shows "starts_with MINUTES_PREFIX (MINUTES_PREFIX @ json_int n) \<and> minutes_width (MINUTES_PREFIX @ json_int n) = n"
  using assms dec_digits [of "nat n"]
  by (simp add: minutes_width_def json_int_def all_digits_def list_all_iff digits_value_dec)

lemma field_or_int:
  "field row k = JNull \<or> int_value (field row k) \<noteq> None \<Longrightarrow>
     to_int (field_or row k (JInt 0)) = Inr (case int_value (field row k) of Some i \<Rightarrow> i | None \<Rightarrow> 0)"
  by (cases "field row k") (auto simp: field_or_def truthy_def to_int_def)

lemma field_or_falsy: "\<not> truthy (field row k) \<Longrightarrow> field_or row k d = d"
  by (simp add: field_or_def)

lemma field_or_dict:
  "(case field row ''with'' of JNull \<Rightarrow> [] | JObj kvs \<Rightarrow> [] | v \<Rightarrow> [WithNotObject (type_name v)]) = [] \<Longrightarrow>
     \<exists>kvs. to_dict (field_or row ''with'' (JObj [])) = Inr kvs"
  by (cases "field row ''with''") (auto simp: field_or_def truthy_def to_dict_def)

lemma lint_row_parts:
  assumes "lint_row env row = []"
  shows "field row ''dom'' = JNull \<or> int_value (field row ''dom'') \<noteq> None"
    and "(case field row ''with'' of JNull \<Rightarrow> [] | JObj kvs \<Rightarrow> [] | v \<Rightarrow> [WithNotObject (type_name v)]) = []"
    and "truthy (field row ''cron'') \<Longrightarrow> cron_problems env row = []"
    and "\<not> truthy (field row ''cron'') \<Longrightarrow> \<exists>every. field_or row ''every'' (JStr ''daily'') = JStr every
      \<and> every \<in> set USER_EVERY \<and> period_problems env row every = []"
  using assms by (auto simp: lint_row_def split: json.splits if_splits)

lemma period_problems_parts:
  assumes "period_problems env row every = []"
  shows "every = ''minutes'' \<Longrightarrow> \<exists>n. int_value (field row ''n'') = Some n \<and> 1 \<le> n \<and> n dvd 60"
    and "every \<noteq> ''minutes'' \<Longrightarrow> \<not> truthy (field row ''n'')"
    and "every = ''weekly'' \<Longrightarrow> field row ''dow'' \<in> JStr ` set DOW"
    and "every = ''monthly'' \<Longrightarrow> int_value (field_or row ''dom'' (JInt 0)) = Some d \<Longrightarrow> 1 \<le> d \<and> d \<le> 31"
    and "every \<in> set EVERY \<Longrightarrow> looks_like_time (field_or row ''at'' (JStr ''00:00''))"
    and "every \<notin> set EVERY \<Longrightarrow> \<not> truthy (field row ''at'')"
  using assms unfolding period_problems_def append_is_Nil_conv
  by (auto simp: Let_def mod_eq_0_iff_dvd split: option.splits if_splits)

lemma cron_problems_parts:
  assumes "cron_problems env row = []"
  obtains c where "field row ''cron'' = JStr c" "length (split_words c) = 5" "ze_cron_ok env c" "ze_comes_round env c"
    "\<not> truthy (field row ''n'')"
  using assms that unfolding cron_problems_def append_is_Nil_conv
  by (auto simp: PERIOD_FIELDS_def split: json.splits if_splits)

text \<open>The number of minutes decodes: it is a number on a minutes row and left out elsewhere.\<close>

lemma lint_row_n:
  assumes "lint_row env row = []"
  shows "\<exists>n. to_int (field_or row ''n'' (JInt 0)) = Inr n"
proof (cases "truthy (field row ''n'')")
  case True
  then have "\<not> truthy (field row ''cron'')"
    using lint_row_parts(3) [OF assms] cron_problems_parts by metis
  then obtain every where "period_problems env row every = []" using lint_row_parts(4) [OF assms] by blast
  then have "int_value (field row ''n'') \<noteq> None" using period_problems_parts(1,2) True by fastforce
  then show ?thesis using field_or_int by blast
qed (simp add: field_or_falsy to_int_def)

lemma lint_row_decodes:
  assumes "lint_row env row = []"
  obtains r where "decode_row env row = Inr r"
proof -
  obtain n where n: "to_int (field_or row ''n'' (JInt 0)) = Inr n" using lint_row_n [OF assms] by blast
  obtain kvs where k: "to_dict (field_or row ''with'' (JObj [])) = Inr kvs" using field_or_dict [OF lint_row_parts(2) [OF assms]] by blast
  show ?thesis using that field_or_int [OF lint_row_parts(1) [OF assms]] n k by (simp add: decode_row_def bindE_def)
qed

lemma decode_row_fields:
  assumes "decode_row env row = Inr r"
  shows "ur_every r = py_str (field_or row ''every'' (JStr ''daily''))"
    and "ur_at r = py_str (field_or row ''at'' (JStr ''00:00''))"
    and "ur_dow r = py_str (field_or row ''dow'' (JStr []))"
    and "ur_cron r = normalise_cron (py_str (field_or row ''cron'' (JStr [])))"
    and "to_int (field_or row ''n'' (JInt 0)) = Inr (ur_n r)"
    and "to_int (field_or row ''dom'' (JInt 0)) = Inr (ur_dom r)"
  using assms by (auto simp: decode_row_def bindE_eq_Inr)

lemma looks_like_time_text: "looks_like_time v \<Longrightarrow> \<exists>s. v = JStr s"
  by (cases v) (simp_all add: looks_like_time_def)

lemma join_nonempty: "ws \<noteq> [] \<Longrightarrow> hd ws \<noteq> [] \<Longrightarrow> join sep ws \<noteq> []"
  by (cases "(sep, ws)" rule: join.cases) auto

lemma split_words_nonempty: "w \<in> set (split_words s) \<Longrightarrow> w \<noteq> []"
  by (induction s rule: split_words.induct) (auto split: if_splits list.splits)

lemma normalise_cron_nonempty: "split_words c \<noteq> [] \<Longrightarrow> normalise_cron c \<noteq> []"
  unfolding normalise_cron_def using split_words_nonempty [of "hd (split_words c)" c] by (intro join_nonempty) auto

lemma USER_EVERY_iff:
  "every \<in> set USER_EVERY \<longleftrightarrow>
     every = ''minutes'' \<or> every = ''hourly'' \<or> every = ''daily'' \<or> every = ''weekly'' \<or> every = ''monthly''"
  unfolding USER_EVERY_def list.set insert_iff empty_iff HOL.simp_thms ..

lemma period_row_sound:
  assumes lint: "lint_row env row = []" and dec: "decode_row env row = Inr r" and no_cron: "\<not> truthy (field row ''cron'')"
  shows "ur_cron r = [] \<and> sound_schedule (as_schedule r)"
proof -
  note f = decode_row_fields [OF dec]
  have cron: "ur_cron r = []" using f(4) no_cron by (simp add: field_or_falsy py_str_def normalise_cron_def)
  obtain every where every: "field_or row ''every'' (JStr ''daily'') = JStr every" "every \<in> set USER_EVERY"
    and p: "period_problems env row every = []" using lint_row_parts(4) [OF lint no_cron] by blast
  note p = period_problems_parts [OF p]
  have e: "ur_every r = every" using f(1) every(1) by (simp add: py_str_def)
  have dom: "ur_dom r = (case int_value (field row ''dom'') of Some i \<Rightarrow> i | None \<Rightarrow> 0)"
    using f(6) field_or_int [OF lint_row_parts(1) [OF lint]] by simp
  have hhmm: "valid_hhmm (ur_at r)"
  proof (cases "every \<in> set EVERY")
    case True
    then have l: "looks_like_time (field_or row ''at'' (JStr ''00:00''))" by (rule p(5))
    then obtain s where "field_or row ''at'' (JStr ''00:00'') = JStr s" using looks_like_time_text by blast
    then show ?thesis using looks_like_time_valid l f(2) by (simp add: py_str_def)
  next
    case False
    then have "ur_at r = ''00:00''" using p(6) f(2) by (simp add: field_or_falsy py_str_def)
    moreover have "valid_hhmm ''00:00''" by code_simp
    ultimately show ?thesis by simp
  qed
  have s: "as_schedule r = \<lparr>sc_every = (if every \<noteq> ''minutes'' then every else MINUTES_PREFIX @ json_int (ur_n r)),
      sc_at = ur_at r, sc_dow = ur_dow r, sc_dom = ur_dom r, sc_tz = ur_tz r\<rparr>"
    by (simp add: as_schedule_def cron e)
  have "every = ''minutes'' \<or> every = ''hourly'' \<or> every = ''daily'' \<or> every = ''weekly'' \<or> every = ''monthly''"
    using every(2) unfolding USER_EVERY_iff .
  then have "sound_schedule (as_schedule r)"
  proof (elim disjE)
    assume 1: "every = ''minutes''"
    then obtain n where n: "int_value (field row ''n'') = Some n" "1 \<le> n" "n dvd 60" using p(1) by blast
    have "to_int (field_or row ''n'' (JInt 0)) = Inr n" using field_or_int [of row "''n''"] n(1) by simp
    then have "ur_n r = n" using f(5) by simp
    then show ?thesis using hhmm minutes_text [OF n(2)] n(3) 1 by (simp add: s sound_schedule_def divides_hour_def)
  next
    assume 4: "every = ''weekly''"
    then obtain d where "field row ''dow'' = JStr d" "d \<in> set DOW" using p(3) by blast
    moreover from this have "d \<noteq> []" by (auto simp: DOW_def)
    ultimately have "ur_dow r \<in> set DOW" using f(3) by (simp add: field_or_def truthy_def py_str_def)
    then show ?thesis using hhmm 4 by (simp add: s sound_schedule_def)
  next
    assume 5: "every = ''monthly''"
    have "0 \<le> ur_dom r \<and> ur_dom r \<le> 31"
    proof (cases "int_value (field row ''dom'')")
      case (Some d)
      show ?thesis
      proof (cases "truthy (field row ''dom'')")
        case True
        then have "1 \<le> d \<and> d \<le> 31" using p(4) [OF 5, of d] Some by (simp add: field_or_def)
        then show ?thesis using dom Some by simp
      next
        case False
        then have "ur_dom r = 0" using f(6) by (simp add: field_or_falsy to_int_def)
        then show ?thesis by simp
      qed
    qed (use dom in simp)
    then show ?thesis using hhmm 5 by (simp add: s sound_schedule_def)
  qed (use hhmm in \<open>simp_all add: s sound_schedule_def divides_hour_def\<close>)
  with cron show ?thesis by simp
qed

lemma cron_row_sound:
  assumes lint: "lint_row env row = []" and dec: "decode_row env row = Inr r" and cron: "truthy (field row ''cron'')"
  obtains c where "field row ''cron'' = JStr c" "ur_cron r = normalise_cron c" "ur_cron r \<noteq> []" "ze_cron_ok env c"
    "ze_comes_round env c" "cron_expr (sc_every (as_schedule r)) = Some (ur_cron r)"
proof -
  obtain c where c: "field row ''cron'' = JStr c" "length (split_words c) = 5" "ze_cron_ok env c" "ze_comes_round env c"
    using cron_problems_parts [OF lint_row_parts(3) [OF lint cron]] by metis
  have "ur_cron r = normalise_cron c" using decode_row_fields(4) [OF dec] c(1) cron by (simp add: field_or_def py_str_def)
  moreover have "normalise_cron c \<noteq> []" using c(2) by (intro normalise_cron_nonempty) auto
  ultimately show ?thesis using that c by (simp add: as_schedule_def cron_expr_def)
qed

text \<open>
  a row the lint finds no fault with decodes, and the sweep can follow it: its periods are the
  ones the two rules are proved for, or its cron is one croniter follows and that comes round.
\<close>

theorem clean_rows_can_be_followed:
  assumes "lint_row env row = []"
  shows "\<exists>r. parse_row env row = Inr r
    \<and> (if truthy (field row ''cron'')
       then (\<exists>c. field row ''cron'' = JStr c \<and> ur_cron r = normalise_cron c \<and> ze_cron_ok env c \<and> ze_comes_round env c
               \<and> cron_expr (sc_every (as_schedule r)) = Some (ur_cron r))
       else sound_schedule (as_schedule r))"
proof -
  obtain r where r: "decode_row env row = Inr r" by (rule lint_row_decodes [OF assms])
  have "parse_row env row = Inr r" using assms r by (simp add: parse_row_def)
  moreover have "if truthy (field row ''cron'')
       then (\<exists>c. field row ''cron'' = JStr c \<and> ur_cron r = normalise_cron c \<and> ze_cron_ok env c \<and> ze_comes_round env c
               \<and> cron_expr (sc_every (as_schedule r)) = Some (ur_cron r))
       else sound_schedule (as_schedule r)"
    by (cases "truthy (field row ''cron'')") (use cron_row_sound [OF assms r] period_row_sound [OF assms r] in \<open>simp, metis\<close>, use period_row_sound [OF assms r] in simp)
  ultimately show ?thesis by blast
qed

definition plain_env :: zone_env where
  "plain_env = \<lparr>ze_zones = (\<lambda>_. None), ze_zone_ok = (\<lambda>z. z = ''UTC''), ze_cron_ok = (\<lambda>_. True), ze_comes_round = (\<lambda>_. True)\<rparr>"

definition quarter_hourly :: json where
  "quarter_hourly = JObj [(''run'', JStr ''poll''), (''every'', JStr ''minutes''), (''n'', JInt 15), (''tz'', JStr ''UTC'')]"

theorem clean_rows_can_be_followed_witness:
  "\<exists>r. parse_row plain_env quarter_hourly = Inr r \<and> sound_schedule (as_schedule r)
     \<and> sc_every (as_schedule r) = ''minutes:15''"
proof -
  have "lint_row plain_env quarter_hourly = []" by code_simp
  moreover have "\<not> truthy (field quarter_hourly ''cron'')" by code_simp
  moreover have "\<exists>r. parse_row plain_env quarter_hourly = Inr r \<and> sc_every (as_schedule r) = ''minutes:15''"
    by (rule exI, rule conjI, code_simp, code_simp)
  ultimately show ?thesis using clean_rows_can_be_followed [of plain_env quarter_hourly] by auto
qed

end
