(* ===== verification/TriggerClaims.thy ===== *)
theory TriggerClaims
  imports RowStore
begin

text \<open>
  The window ledger of the scheduled triggers, \<open>SpecstarTriggerStore\<close> of \<open>workflow/triggers.py\<close>: one
  row for each trigger, with the last window it fired for and the run of that window.  Claiming a
  window and advancing a scan lease compare and swap on the row's etag; the run slot is written by
  reading the row and writing it back.

  The ledger is shared by many pods, each between its calls to the store.  The lemmas show what the
  sequence of the windows claimed looks like in every interleaving of claims, and what becomes of it
  when a run slot is written back late.
\<close>

section \<open>The ledger\<close>

record window_row =
  wr_trigger :: string
  wr_last :: string
  wr_run :: string
  wr_attempts :: int

definition fresh_row :: "string \<Rightarrow> string \<Rightarrow> window_row" where
  "fresh_row k w = \<lparr>wr_trigger = k, wr_last = w, wr_run = [], wr_attempts = 0\<rparr>"

datatype ledger_error = StoreError rm_error | CasExhausted | NotANumber

definition MAX_CAS_RETRIES :: nat where
  "MAX_CAS_RETRIES = 100"

definition lift_store :: "rm_error + 'a \<Rightarrow> ledger_error + 'a" where
  "lift_store r = (case r of Inl e \<Rightarrow> Inl (StoreError e) | Inr x \<Rightarrow> Inr x)"

definition ledger_row :: "('s, window_row) row_api \<Rightarrow> 's \<Rightarrow> string \<Rightarrow> ledger_error + window_row option" where
  "ledger_row api s k =
     (case rm_get api s False k of
        Inl NotFound \<Rightarrow> Inr None
      | Inl IsDeleted \<Rightarrow> Inr None
      | Inl e \<Rightarrow> Inl (StoreError e)
      | Inr (r, _) \<Rightarrow> Inr (Some r))"

definition last_window :: "('s, window_row) row_api \<Rightarrow> 's \<Rightarrow> string \<Rightarrow> ledger_error + string" where
  "last_window api s k = bindE (ledger_row api s k) (\<lambda>row. Inr (case row of Some r \<Rightarrow> wr_last r | None \<Rightarrow> []))"

definition get_run :: "('s, window_row) row_api \<Rightarrow> 's \<Rightarrow> string \<Rightarrow> ledger_error + string \<times> int" where
  "get_run api s k =
     bindE (ledger_row api s k) (\<lambda>row. Inr (case row of Some r \<Rightarrow> (wr_run r, wr_attempts r) | None \<Rightarrow> ([], 0)))"

text \<open>\<open>_write_fields\<close>: read the row, write it back changed, whatever happened in between.\<close>

definition write_back :: "('s, window_row) row_api \<Rightarrow> 's \<Rightarrow> string \<Rightarrow> window_row \<Rightarrow> ledger_error + 's" where
  "write_back api s k r = bindE (lift_store (rm_modify api s k r None)) (\<lambda>(s', _). Inr s')"

definition write_fields ::
  "('s, window_row) row_api \<Rightarrow> 's \<Rightarrow> string \<Rightarrow> (window_row \<Rightarrow> window_row) \<Rightarrow> ledger_error + 's" where
  "write_fields api s k change =
     bindE (ledger_row api s k) (\<lambda>row. case row of None \<Rightarrow> Inr s | Some r \<Rightarrow> write_back api s k (change r))"

definition release_window ::
  "('s, window_row) row_api \<Rightarrow> 's \<Rightarrow> string \<Rightarrow> string \<Rightarrow> string \<Rightarrow> ledger_error + 's" where
  "release_window api s k claimed back_to =
     bindE (ledger_row api s k) (\<lambda>row.
       case row of
         None \<Rightarrow> Inr s
       | Some r \<Rightarrow>
           if wr_last r \<noteq> claimed then Inr s
           else write_fields api s k (\<lambda>r. r\<lparr>wr_last := back_to, wr_run := [], wr_attempts := 0\<rparr>))"

definition record_run :: "('s, window_row) row_api \<Rightarrow> 's \<Rightarrow> string \<Rightarrow> string \<Rightarrow> ledger_error + 's" where
  "record_run api s k run = write_fields api s k (\<lambda>r. r\<lparr>wr_run := run, wr_attempts := 1\<rparr>)"

definition note_resume :: "('s, window_row) row_api \<Rightarrow> 's \<Rightarrow> string \<Rightarrow> ledger_error + 's" where
  "note_resume api s k =
     bindE (ledger_row api s k) (\<lambda>row.
       case row of
         None \<Rightarrow> Inr s
       | Some seen \<Rightarrow> write_fields api s k (\<lambda>r. r\<lparr>wr_attempts := wr_attempts seen + 1\<rparr>))"

definition clear_run :: "('s, window_row) row_api \<Rightarrow> 's \<Rightarrow> string \<Rightarrow> ledger_error + 's" where
  "clear_run api s k = write_fields api s k (\<lambda>r. r\<lparr>wr_run := []\<rparr>)"

section \<open>Claims\<close>

text \<open>
  The two claims differ in when the row's last window admits a new one: for \<open>try_claim\<close> when it is a
  different one, for \<open>try_advance\<close> when it is a smaller number.
\<close>

type_synonym admits = "string \<Rightarrow> string \<Rightarrow> ledger_error + bool"

definition other_window :: admits where
  "other_window old new = Inr (old \<noteq> new)"

definition read_number :: "string \<Rightarrow> ledger_error + nat" where
  "read_number s = (if s \<noteq> [] \<and> list_all digit_char s then Inr (digits_value s) else Inl NotANumber)"

definition later_window :: admits where
  "later_window old new = bindE (read_number old) (\<lambda>o'. bindE (read_number new) (\<lambda>n. Inr (o' < n)))"

datatype look = Gone | Taken | Free nat

definition claim_create :: "('s, window_row) row_api \<Rightarrow> 's \<Rightarrow> string \<Rightarrow> string \<Rightarrow> rm_error + 's" where
  "claim_create api s k w = rm_create api s k (fresh_row k w)"

definition claim_look ::
  "('s, window_row) row_api \<Rightarrow> admits \<Rightarrow> 's \<Rightarrow> string \<Rightarrow> string \<Rightarrow> ledger_error + look" where
  "claim_look api admits s k w =
     (case rm_get api s False k of
        Inl IsDeleted \<Rightarrow> Inr Gone
      | Inl e \<Rightarrow> Inl (StoreError e)
      | Inr (r, etag) \<Rightarrow> bindE (admits (wr_last r) w) (\<lambda>ok. Inr (if ok then Free etag else Taken)))"

definition claim_swap ::
  "('s, window_row) row_api \<Rightarrow> 's \<Rightarrow> string \<Rightarrow> string \<Rightarrow> nat \<Rightarrow> ledger_error + 's option" where
  "claim_swap api s k w etag =
     (case rm_modify api s k (fresh_row k w) (Some etag) of
        Inr (s', _) \<Rightarrow> Inr (Some s')
      | Inl PreconditionFailed \<Rightarrow> Inr None
      | Inl e \<Rightarrow> Inl (StoreError e))"

text \<open>A deleted row is revived by \<open>try_claim\<close> only.\<close>

definition revive :: "('s, window_row) row_api \<Rightarrow> 's \<Rightarrow> string \<Rightarrow> string \<Rightarrow> ledger_error + 's" where
  "revive api s k w =
     bindE (lift_store (rm_restore api s k)) (\<lambda>s1. write_back api s1 k (fresh_row k w))"

fun cas_loop ::
  "('s, window_row) row_api \<Rightarrow> admits \<Rightarrow> bool \<Rightarrow> nat \<Rightarrow> 's \<Rightarrow> string \<Rightarrow> string \<Rightarrow> ledger_error + 's \<times> bool" where
  "cas_loop api admits revives 0 s k w = Inl CasExhausted"
| "cas_loop api admits revives (Suc n) s k w =
     bindE (claim_look api admits s k w) (\<lambda>seen.
       case seen of
         Gone \<Rightarrow> if revives then bindE (revive api s k w) (\<lambda>s'. Inr (s', True)) else Inl (StoreError IsDeleted)
       | Taken \<Rightarrow> Inr (s, False)
       | Free etag \<Rightarrow>
           bindE (claim_swap api s k w etag) (\<lambda>got.
             case got of Some s' \<Rightarrow> Inr (s', True) | None \<Rightarrow> cas_loop api admits revives n s k w))"

definition claim_window ::
  "('s, window_row) row_api \<Rightarrow> admits \<Rightarrow> bool \<Rightarrow> 's \<Rightarrow> string \<Rightarrow> string \<Rightarrow> ledger_error + 's \<times> bool" where
  "claim_window api admits revives s k w =
     (case claim_create api s k w of
        Inr s' \<Rightarrow> Inr (s', True)
      | Inl Duplicate \<Rightarrow> cas_loop api admits revives MAX_CAS_RETRIES s k w
      | Inl e \<Rightarrow> Inl (StoreError e))"

definition try_claim :: "('s, window_row) row_api \<Rightarrow> 's \<Rightarrow> string \<Rightarrow> string \<Rightarrow> ledger_error + 's \<times> bool" where
  "try_claim api s k w = claim_window api other_window True s k w"

definition try_advance :: "('s, window_row) row_api \<Rightarrow> 's \<Rightarrow> string \<Rightarrow> nat \<Rightarrow> ledger_error + 's \<times> bool" where
  "try_advance api s k n = claim_window api later_window False s k (dec n)"

text \<open>\<open>ScanLease\<close>: the window is the start of the interval, in milliseconds.\<close>

definition SCAN_PREFIX :: string where
  "SCAN_PREFIX = ''__scan__:''"

definition scan_start :: "nat \<Rightarrow> nat \<Rightarrow> nat" where
  "scan_start interval now = now div max 1 interval * max 1 interval"

definition scan_claim :: "('s, window_row) row_api \<Rightarrow> 's \<Rightarrow> string \<Rightarrow> nat \<Rightarrow> nat \<Rightarrow> ledger_error + 's \<times> bool" where
  "scan_claim api s key interval now = try_advance api s (SCAN_PREFIX @ key) (scan_start interval now)"

section \<open>Many pods\<close>

text \<open>
  \<open>lw_looks\<close> holds what a claimer read: the row's key, the window it wants and the etag;
  \<open>lw_edits\<close> the row a writer of the run slot is about to write back; \<open>lw_granted\<close> the claims
  won, the newest first.
\<close>

record 's ledger_world =
  lw_store :: 's
  lw_looks :: "nat \<Rightarrow> (string \<times> string \<times> nat) option"
  lw_edits :: "nat \<Rightarrow> (string \<times> window_row) option"
  lw_granted :: "(string \<times> string) list"

inductive claim_step ::
  "('s, window_row) row_api \<Rightarrow> admits \<Rightarrow> 's ledger_world \<Rightarrow> 's ledger_world \<Rightarrow> bool" for api admits where
  creates: "claim_create api (lw_store w) k win = Inr s' \<Longrightarrow>
     claim_step api admits w (w\<lparr>lw_store := s', lw_granted := (k, win) # lw_granted w\<rparr>)"
| looks: "claim_look api admits (lw_store w) k win = Inr (Free etag) \<Longrightarrow>
     claim_step api admits w (w\<lparr>lw_looks := (lw_looks w)(p \<mapsto> (k, win, etag))\<rparr>)"
| swaps: "lw_looks w p = Some (k, win, etag) \<Longrightarrow> claim_swap api (lw_store w) k win etag = Inr (Some s') \<Longrightarrow>
     claim_step api admits w
       (w\<lparr>lw_store := s', lw_looks := (lw_looks w)(p := None), lw_granted := (k, win) # lw_granted w\<rparr>)"

inductive claims_reached ::
  "('s, window_row) row_api \<Rightarrow> admits \<Rightarrow> 's \<Rightarrow> 's ledger_world \<Rightarrow> bool" for api admits s0 where
  start: "claims_reached api admits s0 \<lparr>lw_store = s0, lw_looks = (\<lambda>_. None), lw_edits = (\<lambda>_. None), lw_granted = []\<rparr>"
| step: "claims_reached api admits s0 w \<Longrightarrow> claim_step api admits w w' \<Longrightarrow> claims_reached api admits s0 w'"

text \<open>With the run slot written too, by \<open>record_run\<close>, \<open>note_resume\<close> or \<open>clear_run\<close>.\<close>

inductive ledger_step :: "('s, window_row) row_api \<Rightarrow> 's ledger_world \<Rightarrow> 's ledger_world \<Rightarrow> bool" for api where
  claims: "claim_step api other_window w w' \<Longrightarrow> ledger_step api w w'"
| reads: "ledger_row api (lw_store w) k = Inr (Some r) \<Longrightarrow>
     ledger_step api w (w\<lparr>lw_edits := (lw_edits w)(p \<mapsto> (k, r\<lparr>wr_run := run, wr_attempts := n\<rparr>))\<rparr>)"
| writes: "lw_edits w p = Some (k, r) \<Longrightarrow> write_back api (lw_store w) k r = Inr s' \<Longrightarrow>
     ledger_step api w (w\<lparr>lw_store := s', lw_edits := (lw_edits w)(p := None)\<rparr>)"

definition granted_to :: "string \<Rightarrow> 's ledger_world \<Rightarrow> string list" where
  "granted_to k w = map snd (filter (\<lambda>g. fst g = k) (lw_granted w))"

section \<open>What claims do to the ledger\<close>

locale window_ledger = row_store api rows
  for api :: "('s, window_row) row_api" and rows
begin

lemma ledger_row_eq:
  "ledger_row api s k = Inr (case rows s k of Some (r, e, d) \<Rightarrow> if d then None else Some r | None \<Rightarrow> None)"
  by (auto simp: ledger_row_def get_law split: option.splits)

lemma claim_create_some:
  assumes "claim_create api s k w = Inr s'"
  shows "rows s k = None \<and> (\<exists>e. rows s' = (rows s)(k \<mapsto> (fresh_row k w, e, False)))"
proof -
  have "rows s k = None"
    using assms create_present [of s k "fresh_row k w"] by (cases "rows s k") (auto simp: claim_create_def)
  then show ?thesis using assms create_absent [of s k "fresh_row k w"] by (auto simp: claim_create_def)
qed

lemma claim_look_free:
  assumes "claim_look api admits s k w = Inr (Free etag)"
  obtains r where "rows s k = Some (r, etag, False)" "admits (wr_last r) w = Inr True"
  using assms by (auto simp: claim_look_def get_law bindE_eq_Inr split: option.splits if_splits prod.splits)

lemma claim_swap_some:
  assumes "claim_swap api s k w etag = Inr (Some s')"
  obtains r e' where "rows s k = Some (r, etag, False)" "etag < e'" "rows s' = (rows s)(k \<mapsto> (fresh_row k w, e', False))"
proof -
  obtain e' where m: "rm_modify api s k (fresh_row k w) (Some etag) = Inr (s', e')"
    using assms by (auto simp: claim_swap_def split: sum.splits rm_error.splits)
  show ?thesis using modify_Inr(1) [OF m] modify_Inr(2) [OF m] that by auto
qed

lemma write_back_live:
  assumes "rows s k = Some (r0, e, False)"
  shows "\<exists>s' e'. write_back api s k r = Inr s' \<and> rows s' = (rows s)(k \<mapsto> (r, e', False))"
  using modify_live [OF assms, of None r] by (auto simp: write_back_def lift_store_def bindE_def)

lemma write_fields_live:
  assumes "rows s k = Some (r, e, False)"
  shows "\<exists>s' e'. write_fields api s k f = Inr s' \<and> rows s' = (rows s)(k \<mapsto> (f r, e', False))"
  using write_back_live [OF assms, of "f r"] assms by (simp add: write_fields_def ledger_row_eq bindE_def)

lemma cas_loop_first:
  "claim_look api admits s k w = Inr (if b then Free e else Taken) \<Longrightarrow> claim_swap api s k w e = Inr (Some s') \<Longrightarrow>
     cas_loop api admits revives (Suc n) s k w = Inr (if b then s' else s, b)"
  by (simp add: bindE_def)

text \<open>A claim made alone: it wins unless the ledger's window refuses it, and then the row is fresh.\<close>

lemma claim_window_exact:
  assumes "case rows s k of Some (r, e, d) \<Rightarrow> \<not> d \<and> admits (wr_last r) w = Inr b | None \<Rightarrow> b"
  shows "\<exists>s'. claim_window api admits revives s k w = Inr (s', b)
    \<and> (if b then \<exists>e. rows s' = (rows s)(k \<mapsto> (fresh_row k w, e, False)) else s' = s)"
proof (cases "rows s k")
  case None
  then show ?thesis using assms create_absent [OF None, of "fresh_row k w"]
    by (auto simp: claim_window_def claim_create_def)
next
  case (Some row)
  obtain r e where row: "rows s k = Some (r, e, False)" and ok: "admits (wr_last r) w = Inr b"
    using assms Some by (cases row) auto
  have "claim_create api s k w = Inl Duplicate"
    using create_present [of s k "fresh_row k w"] row by (simp add: claim_create_def)
  moreover have look: "claim_look api admits s k w = Inr (if b then Free e else Taken)"
    using row ok by (simp add: claim_look_def get_law bindE_def)
  moreover obtain s' e' where swap: "claim_swap api s k w e = Inr (Some s')" "rows s' = (rows s)(k \<mapsto> (fresh_row k w, e', False))"
    using modify_live [OF row, of "Some e" "fresh_row k w"] by (auto simp: claim_swap_def)
  moreover have "cas_loop api admits revives MAX_CAS_RETRIES s k w = Inr (if b then s' else s, b)"
    using cas_loop_first [OF look swap(1), of revives 99] by (simp add: MAX_CAS_RETRIES_def)
  ultimately show ?thesis by (auto simp: claim_window_def)
qed

definition live_row :: "'s \<Rightarrow> string \<Rightarrow> bool" where
  "live_row s k \<longleftrightarrow> (\<forall>r e d. rows s k = Some (r, e, d) \<longrightarrow> \<not> d)"

lemma last_window_eq:
  "live_row s k \<Longrightarrow> last_window api s k = Inr (case rows s k of Some (r, e, d) \<Rightarrow> wr_last r | None \<Rightarrow> [])"
  by (auto simp: last_window_def ledger_row_eq bindE_def live_row_def split: option.splits)

lemma get_run_eq:
  "live_row s k \<Longrightarrow> get_run api s k = Inr (case rows s k of Some (r, e, d) \<Rightarrow> (wr_run r, wr_attempts r) | None \<Rightarrow> ([], 0))"
  by (auto simp: get_run_def ledger_row_eq bindE_def live_row_def split: option.splits)

lemma try_claim_wins:
  assumes "live_row s k" "last_window api s k = Inr seen" "seen \<noteq> win"
  shows "\<exists>s' e. try_claim api s k win = Inr (s', True) \<and> rows s' = (rows s)(k \<mapsto> (fresh_row k win, e, False))"
proof -
  have "case rows s k of Some (r, e, d) \<Rightarrow> \<not> d \<and> other_window (wr_last r) win = Inr True | None \<Rightarrow> True"
    using assms last_window_eq [OF assms(1)] by (auto simp: other_window_def live_row_def split: option.splits)
  from claim_window_exact [where s = s and k = k and admits = other_window and w = win and b = True and revives = True, OF this]
  show ?thesis by (auto simp: try_claim_def)
qed

lemma try_claim_refused:
  assumes "live_row s k" "last_window api s k = Inr win" "win \<noteq> []"
  shows "try_claim api s k win = Inr (s, False)"
proof -
  have "case rows s k of Some (r, e, d) \<Rightarrow> \<not> d \<and> other_window (wr_last r) win = Inr False | None \<Rightarrow> False"
    using assms last_window_eq [OF assms(1)] by (auto simp: other_window_def live_row_def split: option.splits)
  from claim_window_exact [where s = s and k = k and admits = other_window and w = win and b = False and revives = True, OF this]
  show ?thesis by (auto simp: try_claim_def)
qed

lemma claimed_row:
  assumes "rows s' = (rows s)(k \<mapsto> (r, e, False))"
  shows "live_row s' k \<and> last_window api s' k = Inr (wr_last r) \<and> get_run api s' k = Inr (wr_run r, wr_attempts r)"
proof -
  have l: "live_row s' k" using assms by (simp add: live_row_def)
  then show ?thesis using last_window_eq [OF l] get_run_eq [OF l] assms by simp
qed

lemma released_row:
  assumes "rows s k = Some (r, e, False)" "wr_last r = win"
  shows "\<exists>s' e'. release_window api s k win back = Inr s'
    \<and> rows s' = (rows s)(k \<mapsto> (r\<lparr>wr_last := back, wr_run := [], wr_attempts := 0\<rparr>, e', False))"
  using write_fields_live [OF assms(1), of "\<lambda>r. r\<lparr>wr_last := back, wr_run := [], wr_attempts := 0\<rparr>"] assms
  by (simp add: release_window_def ledger_row_eq bindE_def)

definition ledger_ok :: "admits \<Rightarrow> 's ledger_world \<Rightarrow> bool" where
  "ledger_ok admits w \<longleftrightarrow>
     (\<forall>k. case rows (lw_store w) k of
            None \<Rightarrow> granted_to k w = []
          | Some (r, e, d) \<Rightarrow> \<not> d \<and> (\<exists>ws. granted_to k w = wr_last r # ws))
     \<and> (\<forall>k. successively (\<lambda>new old. admits old new = Inr True) (granted_to k w))
     \<and> (\<forall>p k win etag. lw_looks w p = Some (k, win, etag) \<longrightarrow>
          (\<exists>r e. rows (lw_store w) k = Some (r, e, False) \<and> etag \<le> e \<and> (etag = e \<longrightarrow> admits (wr_last r) win = Inr True)))"

lemma ledger_okD:
  assumes "ledger_ok admits w"
  shows "rows (lw_store w) k = None \<Longrightarrow> granted_to k w = []"
    and "rows (lw_store w) k = Some (r, e, d) \<Longrightarrow> \<not> d \<and> (\<exists>ws. granted_to k w = wr_last r # ws)"
    and "successively (\<lambda>new old. admits old new = Inr True) (granted_to k w)"
    and "lw_looks w p = Some (k, win, etag) \<Longrightarrow>
      \<exists>r e. rows (lw_store w) k = Some (r, e, False) \<and> etag \<le> e \<and> (etag = e \<longrightarrow> admits (wr_last r) win = Inr True)"
proof -
  note ok = assms [unfolded ledger_ok_def]
  show "rows (lw_store w) k = None \<Longrightarrow> granted_to k w = []"
    using spec [OF conjunct1 [OF ok], of k] by simp
  show "rows (lw_store w) k = Some (r, e, d) \<Longrightarrow> \<not> d \<and> (\<exists>ws. granted_to k w = wr_last r # ws)"
    using spec [OF conjunct1 [OF ok], of k] by simp
qed (use assms in \<open>unfold ledger_ok_def, blast\<close>)+

text \<open>A claim won for \<open>k\<close>: the row is fresh and newer, the log longer, other looks as they were.\<close>

lemma ledger_ok_grant:
  assumes ok: "ledger_ok admits w"
    and s': "rows s' = (rows (lw_store w))(k \<mapsto> (fresh_row k win, e', False))"
    and newer: "\<And>r e d. rows (lw_store w) k = Some (r, e, d) \<Longrightarrow> e < e' \<and> admits (wr_last r) win = Inr True"
    and fresh: "rows (lw_store w) k = None \<Longrightarrow> \<forall>p x y. ls p \<noteq> Some (k, x, y)"
    and sub: "\<And>p. ls p = lw_looks w p \<or> ls p = None"
  shows "ledger_ok admits (w\<lparr>lw_store := s', lw_looks := ls, lw_granted := (k, win) # lw_granted w\<rparr>)"
proof -
  let ?w = "w\<lparr>lw_store := s', lw_looks := ls, lw_granted := (k, win) # lw_granted w\<rparr>"
  have log: "granted_to j ?w = (if j = k then win # granted_to j w else granted_to j w)" for j
    by (simp add: granted_to_def)
  have head: "successively (\<lambda>new old. admits old new = Inr True) (win # granted_to k w)"
  proof (cases "rows (lw_store w) k")
    case None
    then show ?thesis using ledger_okD(1) [OF ok None] by simp
  next
    case (Some row)
    obtain r e d where row: "rows (lw_store w) k = Some (r, e, d)" using Some by (cases row) auto
    then show ?thesis using ledger_okD(2) [OF ok row] newer [OF row] ledger_okD(3) [OF ok, of k] by auto
  qed
  have looks: "\<exists>r e. rows s' j = Some (r, e, False) \<and> etag \<le> e \<and> (etag = e \<longrightarrow> admits (wr_last r) x = Inr True)"
    if l: "ls p = Some (j, x, etag)" for p j x etag
  proof -
    have "lw_looks w p = Some (j, x, etag)" using l sub [of p] by auto
    then obtain r e where r: "rows (lw_store w) j = Some (r, e, False)" "etag \<le> e" "etag = e \<longrightarrow> admits (wr_last r) x = Inr True"
      using ledger_okD(4) [OF ok] by blast
    show ?thesis
    proof (cases "j = k")
      case True
      then show ?thesis using newer r s' by fastforce
    qed (use r s' in auto)
  qed
  show ?thesis unfolding ledger_ok_def
  proof (intro conjI allI impI)
    fix j
    show "case rows (lw_store ?w) j of None \<Rightarrow> granted_to j ?w = []
      | Some (r, e, d) \<Rightarrow> \<not> d \<and> (\<exists>ws. granted_to j ?w = wr_last r # ws)"
      using ledger_okD(1,2) [OF ok, of j] unfolding log by (auto simp: s' fresh_row_def split: option.split)
    show "successively (\<lambda>new old. admits old new = Inr True) (granted_to j ?w)"
      using head ledger_okD(3) [OF ok, of j] by (simp add: log)
  next
    fix p j x etag assume "lw_looks ?w p = Some (j, x, etag)"
    then show "\<exists>r e. rows (lw_store ?w) j = Some (r, e, False) \<and> etag \<le> e \<and> (etag = e \<longrightarrow> admits (wr_last r) x = Inr True)"
      using looks by simp
  qed
qed

lemma ledger_ok_step:
  assumes "claim_step api admits w w'" and ok: "ledger_ok admits w"
  shows "ledger_ok admits w'"
  using assms(1)
proof (cases rule: claim_step.cases)
  case (creates k win s')
  obtain e where s': "rows (lw_store w) k = None" "rows s' = (rows (lw_store w))(k \<mapsto> (fresh_row k win, e, False))"
    using claim_create_some [OF creates(2)] by blast
  have "ledger_ok admits (w\<lparr>lw_store := s', lw_looks := lw_looks w, lw_granted := (k, win) # lw_granted w\<rparr>)"
  proof (rule ledger_ok_grant [OF ok s'(2)])
    show "\<forall>p x y. lw_looks w p \<noteq> Some (k, x, y)" using ledger_okD(4) [OF ok] s'(1) by (metis option.distinct(1))
  qed (use s'(1) in simp_all)
  then show ?thesis by (simp add: creates(1))
next
  case (looks k win etag p)
  obtain r where r: "rows (lw_store w) k = Some (r, etag, False)" "admits (wr_last r) win = Inr True"
    using claim_look_free [OF looks(2)] .
  have same: "granted_to j w' = granted_to j w" "lw_store w' = lw_store w" for j
    by (simp_all add: looks(1) granted_to_def)
  have "\<exists>r e. rows (lw_store w) j = Some (r, e, False) \<and> t \<le> e \<and> (t = e \<longrightarrow> admits (wr_last r) x = Inr True)"
    if "lw_looks w' q = Some (j, x, t)" for q j x t
    using that r ledger_okD(4) [OF ok, of q j x t] by (cases "q = p") (auto simp: looks(1))
  then show ?thesis using ok unfolding ledger_ok_def same by blast
next
  case (swaps p k win etag s')
  obtain r e' where s': "rows (lw_store w) k = Some (r, etag, False)" "etag < e'"
    "rows s' = (rows (lw_store w))(k \<mapsto> (fresh_row k win, e', False))"
    using claim_swap_some [OF swaps(3)] .
  have "admits (wr_last r) win = Inr True" using ledger_okD(4) [OF ok swaps(2)] s'(1) by auto
  then have "ledger_ok admits (w\<lparr>lw_store := s', lw_looks := (lw_looks w)(p := None), lw_granted := (k, win) # lw_granted w\<rparr>)"
    by (intro ledger_ok_grant [OF ok s'(3)]) (use s'(1,2) in auto)
  then show ?thesis by (simp add: swaps(1))
qed

lemma reached_ledger_ok:
  assumes "claims_reached api admits s0 w" "\<forall>k. rows s0 k = None"
  shows "ledger_ok admits w"
  using assms(1)
proof induction
  case start
  then show ?case using assms(2) by (simp add: ledger_ok_def granted_to_def)
qed (rule ledger_ok_step)

end

interpretation mem_ledger: window_ledger mem_store dict_get
  by unfold_locales

section \<open>The windows claimed\<close>

text \<open>
  in every interleaving of claims from an empty ledger, two claims of a trigger won one after the
  other are of different windows, and the row holds the last of them.
\<close>

theorem claims_alternate:
  fixes api :: "('s, window_row) row_api"
  assumes "row_store api rows" "\<forall>k. rows s0 k = None" "claims_reached api other_window s0 w"
  shows "distinct_adj (granted_to k w)
    \<and> last_window api (lw_store w) k = Inr (case granted_to k w of [] \<Rightarrow> [] | win # _ \<Rightarrow> win)"
proof -
  note l = window_ledger.intro [OF assms(1)]
  note ok = window_ledger.reached_ledger_ok [OF l assms(3,2)]
  note d = window_ledger.ledger_okD [OF l ok]
  have "successively (\<lambda>new old. other_window old new = Inr True) (granted_to k w)" by (rule d(3))
  then have "distinct_adj (granted_to k w)"
    unfolding distinct_adj_def by (rule successively_mono) (auto simp: other_window_def)
  moreover have "last_window api (lw_store w) k = Inr (case granted_to k w of [] \<Rightarrow> [] | win # _ \<Rightarrow> win)"
  proof (cases "rows (lw_store w) k")
    case None
    then show ?thesis using d(1) [OF None] by (simp add: last_window_def window_ledger.ledger_row_eq [OF l] bindE_def)
  next
    case (Some row)
    obtain r e dl where row: "rows (lw_store w) k = Some (r, e, dl)" using Some by (cases row) auto
    then show ?thesis using d(2) [OF row] by (auto simp: last_window_def window_ledger.ledger_row_eq [OF l] bindE_def)
  qed
  ultimately show ?thesis by simp
qed

lemma later_window_iff: "later_window (dec m) (dec n) = Inr (m < n)"
  using dec_digits [of m] dec_digits [of n] by (simp add: later_window_def read_number_def digits_value_dec bindE_def list_all_iff)

lemma later_window_true: "later_window old new = Inr True \<longleftrightarrow>
  old \<noteq> [] \<and> new \<noteq> [] \<and> list_all digit_char old \<and> list_all digit_char new \<and> digits_value old < digits_value new"
  by (auto simp: later_window_def read_number_def bindE_def)

text \<open>
  C29: in every interleaving of scan leases from an empty ledger the starts granted for a key grow
  strictly, so no two pods scan one window, and none scans an earlier one.
\<close>

theorem scan_leases_move_forward:
  fixes api :: "('s, window_row) row_api"
  assumes "row_store api rows" "\<forall>k. rows s0 k = None" "claims_reached api later_window s0 w"
  shows "sorted_wrt (\<lambda>new old. digits_value old < digits_value new) (granted_to k w)
    \<and> distinct (granted_to k w)"
proof -
  note l = window_ledger.intro [OF assms(1)]
  note ok = window_ledger.reached_ledger_ok [OF l assms(3,2)]
  have "successively (\<lambda>new old. later_window old new = Inr True) (granted_to k w)"
    by (rule window_ledger.ledger_okD(3) [OF l ok])
  then have "successively (\<lambda>new old. digits_value old < digits_value new) (granted_to k w)"
    by (rule successively_mono) (auto simp: later_window_true)
  then have s: "sorted_wrt (\<lambda>new old. digits_value old < digits_value new) (granted_to k w)"
    by (subst (asm) successively_conv_sorted_wrt) (auto simp: transp_def)
  have "distinct ws" if "sorted_wrt (\<lambda>new old. digits_value old < digits_value new) ws" for ws
    using that by (induction ws) auto
  with s show ?thesis by simp
qed

text \<open>
  a claim made while nobody else writes is won exactly when the window is not the one the ledger
  holds; the ledger then holds it, with no run, and otherwise stays as it was.
\<close>

theorem try_claim_exact:
  fixes api :: "('s, window_row) row_api"
  assumes "row_store api rows" "\<And>r e d. rows s k = Some (r, e, d) \<Longrightarrow> \<not> d" "win \<noteq> []"
  shows "\<exists>s'. try_claim api s k win = Inr (s', last_window api s k \<noteq> Inr win)
    \<and> (last_window api s k = Inr win \<longrightarrow> s' = s)
    \<and> last_window api s' k = Inr win \<and> (last_window api s k \<noteq> Inr win \<longrightarrow> get_run api s' k = Inr ([], 0))"
proof -
  note l = window_ledger.intro [OF assms(1)]
  have live: "window_ledger.live_row rows s k" using assms(2) by (auto simp: window_ledger.live_row_def [OF l])
  obtain seen where seen: "last_window api s k = Inr seen" using window_ledger.last_window_eq [OF l live] by blast
  show ?thesis
  proof (cases "seen = win")
    case True
    then show ?thesis using window_ledger.try_claim_refused [OF l live _ assms(3)] seen by simp
  next
    case False
    then obtain s' e where s': "try_claim api s k win = Inr (s', True)" "rows s' = (rows s)(k \<mapsto> (fresh_row k win, e, False))"
      using window_ledger.try_claim_wins [OF l live seen] by blast
    then show ?thesis using window_ledger.claimed_row [OF l s'(2)] False seen by (auto simp: fresh_row_def)
  qed
qed

section \<open>A late write of the run slot\<close>

definition pod_world :: "window_row mem \<Rightarrow> (nat \<Rightarrow> (string \<times> string \<times> nat) option) \<Rightarrow>
  (nat \<Rightarrow> (string \<times> window_row) option) \<Rightarrow> (string \<times> string) list \<Rightarrow> window_row mem ledger_world" where
  "pod_world s ls es g = \<lparr>lw_store = s, lw_looks = ls, lw_edits = es, lw_granted = g\<rparr>"

text \<open>
  \<open>record_run\<close> reads the row and writes all of it back, its window included.  When the period
  turns in between, the window another pod has just claimed and fired is gone from the ledger, and
  is claimed, and fired, once more.
\<close>

theorem late_run_record_reopens_window:
  "\<exists>w :: window_row mem ledger_world. (ledger_step mem_store)\<^sup>*\<^sup>* (pod_world [] (\<lambda>_. None) (\<lambda>_. None) []) w
     \<and> granted_to ''t'' w = [''W2'', ''W2'', ''W1'']"
proof -
  let ?n = "\<lambda>_ :: nat. None"
  let ?r1 = "(fresh_row ''t'' ''W1'')\<lparr>wr_run := ''run1'', wr_attempts := 1\<rparr>"
  let ?w0 = "pod_world [] ?n ?n []"
  let ?w1 = "pod_world [(''t'', fresh_row ''t'' ''W1'', 0, False)] ?n ?n [(''t'', ''W1'')]"
  let ?w2 = "pod_world [(''t'', fresh_row ''t'' ''W1'', 0, False)] ?n [0 \<mapsto> (''t'', ?r1)] [(''t'', ''W1'')]"
  let ?w3 = "pod_world [(''t'', fresh_row ''t'' ''W1'', 0, False)] [1 \<mapsto> (''t'', ''W2'', 0)] [0 \<mapsto> (''t'', ?r1)] [(''t'', ''W1'')]"
  let ?w4 = "pod_world [(''t'', fresh_row ''t'' ''W2'', 1, False)] (?n(1 := None)) [0 \<mapsto> (''t'', ?r1)] [(''t'', ''W2''), (''t'', ''W1'')]"
  let ?w5 = "pod_world [(''t'', ?r1, Suc (Suc 0), False)] (?n(1 := None)) ([0 \<mapsto> (''t'', ?r1)](0 := None)) [(''t'', ''W2''), (''t'', ''W1'')]"
  let ?w6 = "pod_world [(''t'', ?r1, Suc (Suc 0), False)] (?n(1 := None, 1 \<mapsto> (''t'', ''W2'', Suc (Suc 0)))) ([0 \<mapsto> (''t'', ?r1)](0 := None)) [(''t'', ''W2''), (''t'', ''W1'')]"
  let ?w7 = "pod_world [(''t'', fresh_row ''t'' ''W2'', Suc (Suc (Suc 0)), False)] ((?n(1 := None, 1 \<mapsto> (''t'', ''W2'', Suc (Suc 0))))(1 := None)) ([0 \<mapsto> (''t'', ?r1)](0 := None)) [(''t'', ''W2''), (''t'', ''W2''), (''t'', ''W1'')]"
  note eval = pod_world_def mem_store_defs claim_create_def claim_look_def claim_swap_def
    ledger_row_def write_back_def lift_store_def other_window_def bindE_def fresh_row_def
  have "ledger_step mem_store ?w0 ?w1"
    using claim_step.creates [of mem_store ?w0 "''t''" "''W1''"] by (auto simp: eval intro: ledger_step.claims)
  moreover have "ledger_step mem_store ?w1 ?w2"
    using ledger_step.reads
      [where api = mem_store and w = ?w1 and k = "''t''" and r = "fresh_row ''t'' ''W1''" and p = 0 and run = "''run1''" and n = 1] by (simp add: eval)
  moreover have "ledger_step mem_store ?w2 ?w3"
    using claim_step.looks [of mem_store other_window ?w2 "''t''" "''W2''" 0 1] by (auto simp: eval intro: ledger_step.claims)
  moreover have "ledger_step mem_store ?w3 ?w4"
    using claim_step.swaps [of ?w3 1 "''t''" "''W2''" 0 mem_store] by (auto simp: eval intro: ledger_step.claims)
  moreover have "ledger_step mem_store ?w4 ?w5"
    using ledger_step.writes [of ?w4 0 "''t''" ?r1 mem_store] by (simp add: eval)
  moreover have "ledger_step mem_store ?w5 ?w6"
    using claim_step.looks [of mem_store other_window ?w5 "''t''" "''W2''" "Suc (Suc 0)" 1] by (auto simp: eval intro: ledger_step.claims)
  moreover have "ledger_step mem_store ?w6 ?w7"
    using claim_step.swaps [of ?w6 1 "''t''" "''W2''" "Suc (Suc 0)" mem_store] by (auto simp: eval intro: ledger_step.claims)
  ultimately have "(ledger_step mem_store)\<^sup>*\<^sup>* ?w0 ?w7"
    by (meson converse_rtranclp_into_rtranclp rtranclp.rtrancl_refl)
  moreover have "granted_to ''t'' ?w7 = [''W2'', ''W2'', ''W1'']" by (simp add: granted_to_def pod_world_def)
  ultimately show ?thesis by blast
qed

section \<open>Two claims in a row\<close>

lemma two_claims:
  assumes "admits ''1'' ''2'' = Inr True"
  obtains w :: "window_row mem ledger_world"
  where "claims_reached mem_store admits [] w" "granted_to ''t'' w = [''2'', ''1'']"
proof -
  let ?n = "\<lambda>_ :: nat. None"
  let ?w0 = "pod_world [] ?n ?n []"
  let ?w1 = "pod_world [(''t'', fresh_row ''t'' ''1'', 0, False)] ?n ?n [(''t'', ''1'')]"
  let ?w2 = "pod_world [(''t'', fresh_row ''t'' ''1'', 0, False)] [1 \<mapsto> (''t'', ''2'', 0)] ?n [(''t'', ''1'')]"
  let ?w3 = "pod_world [(''t'', fresh_row ''t'' ''2'', 1, False)] ([1 \<mapsto> (''t'', ''2'', 0)](1 := None)) ?n [(''t'', ''2''), (''t'', ''1'')]"
  note eval = pod_world_def mem_store_defs claim_create_def claim_look_def claim_swap_def bindE_def fresh_row_def
  have r: "claims_reached mem_store admits [] ?w0"
    using claims_reached.start [of mem_store admits "[]"] by (simp add: pod_world_def)
  have "claim_step mem_store admits ?w0 ?w1"
    using claim_step.creates [of mem_store ?w0 "''t''" "''1''"] by (simp add: eval)
  from claims_reached.step [OF r this] have r: "claims_reached mem_store admits [] ?w1" .
  have "claim_step mem_store admits ?w1 ?w2"
    using claim_step.looks [of mem_store admits ?w1 "''t''" "''2''" 0 1] assms by (simp add: eval)
  from claims_reached.step [OF r this] have r: "claims_reached mem_store admits [] ?w2" .
  have "claim_step mem_store admits ?w2 ?w3"
    using claim_step.swaps [of ?w2 1 "''t''" "''2''" 0 mem_store] by (simp add: eval)
  from claims_reached.step [OF r this] have "claims_reached mem_store admits [] ?w3" .
  then show ?thesis by (rule that) (simp add: granted_to_def pod_world_def)
qed

theorem claims_alternate_witness:
  "\<exists>w :: window_row mem ledger_world. granted_to ''t'' w = [''2'', ''1''] \<and> last_window mem_store (lw_store w) ''t'' = Inr ''2''"
proof -
  obtain w :: "window_row mem ledger_world"
    where w: "claims_reached mem_store other_window [] w" "granted_to ''t'' w = [''2'', ''1'']"
    by (rule two_claims [of other_window]) (simp add: other_window_def)
  show ?thesis using claims_alternate [OF mem.row_store_axioms _ w(1), of "''t''"] w(2) by auto
qed

theorem scan_leases_move_forward_witness:
  "\<exists>w :: window_row mem ledger_world. granted_to ''t'' w = [''2'', ''1''] \<and> distinct (granted_to ''t'' w)"
proof -
  obtain w :: "window_row mem ledger_world"
    where w: "claims_reached mem_store later_window [] w" "granted_to ''t'' w = [''2'', ''1'']"
    by (rule two_claims [of later_window]) code_simp
  show ?thesis using scan_leases_move_forward [OF mem.row_store_axioms _ w(1), of "''t''"] w(2) by auto
qed

theorem try_claim_exact_witness:
  "\<exists>s'. try_claim mem_store [(''t'', fresh_row ''t'' ''W1'', 0, False)] ''t'' ''W2'' = Inr (s', True)
     \<and> last_window mem_store s' ''t'' = Inr ''W2''"
proof -
  have "last_window mem_store [(''t'', fresh_row ''t'' ''W1'', 0, False)] ''t'' = Inr ''W1''" by code_simp
  then show ?thesis
    using try_claim_exact [OF mem.row_store_axioms, of "[(''t'', fresh_row ''t'' ''W1'', 0, False)]" "''t''" "''W2''"] by auto
qed

end
