(* ===== verification/RunRecord.thy ===== *)
theory RunRecord
  imports StepJournal
begin

text \<open>
  The persisted record of a run (\<open>workflow/run.py\<close>) and how the events of its steps become progress on
  it (\<open>WorkflowOrchestrator._on_event\<close>, \<open>_apply_progress\<close> and \<open>_apply_step_record\<close> of
  \<open>workflow/orchestrator.py\<close>).

  A step's events are those of the step engine; live output, which is streamed and stored nowhere,
  is left out.
\<close>

section \<open>The record\<close>

datatype run_state = RunPending | RunRunning | RunAwaitingHuman | RunDone | RunError | RunCancelled

definition ACTIVE_RUN :: "run_state list" where
  "ACTIVE_RUN = [RunPending, RunRunning, RunAwaitingHuman]"

definition active :: "run_state \<Rightarrow> bool" where
  "active st \<longleftrightarrow> st \<in> set ACTIVE_RUN"

datatype phase_status = PhasePending | PhaseRunning | PhasePassed | PhaseFailed | PhaseSkipped | PhaseStopped

record phase_state =
  ph_phase :: string
  ph_status :: phase_status
  ph_done :: int
  ph_failed :: int

definition new_phase :: "string \<Rightarrow> phase_state" where
  "new_phase p = \<lparr>ph_phase = p, ph_status = PhasePending, ph_done = 0, ph_failed = 0\<rparr>"

datatype row_status = RowRunning | RowRetrying | RowRepairing | RowPassed | RowSkipped | RowFailed

record step_row =
  br_at :: step_at
  br_status :: row_status
  br_attempts :: int
  br_repairs :: int
  br_reason :: failure
  br_started :: "int option"
  br_ended :: "int option"

definition new_row :: "step_at \<Rightarrow> int option \<Rightarrow> step_row" where
  "new_row a started =
     \<lparr>br_at = a, br_status = RowRunning, br_attempts = 1, br_repairs = 0, br_reason = Reason [], br_started = started, br_ended = None\<rparr>"

record pending_decision =
  pd_phase :: string
  pd_title :: string
  pd_summary :: string
  pd_allow :: "string list"

record steer_plan =
  sl_instruction :: string
  sl_rationale :: string
  sl_edits :: "(string \<times> string) list"
  sl_invalidate :: "string list"

record page_job =
  pj_kind :: string
  pj_name :: string
  pj_input :: string
  pj_deadline :: int

record wf_run =
  rn_item :: string
  rn_user :: string
  rn_chat :: string
  rn_workflow :: string
  rn_status :: run_state
  rn_phase :: string
  rn_phases :: "phase_state list"
  rn_steps :: "step_row list"
  rn_started :: "int option"
  rn_ended :: "int option"
  rn_progress :: "int option"
  rn_payload :: "(string \<times> json) list"
  rn_origin :: string
  rn_depth :: int
  rn_by_hand :: bool
  rn_from_schedule :: bool
  rn_page :: "page_job option"
  rn_result :: "(string \<times> json) list option"
  rn_decision :: "pending_decision option"
  rn_steer :: "steer_plan option"

text \<open>A record as it is created.\<close>

definition new_run :: "string \<Rightarrow> string \<Rightarrow> wf_run" where
  "new_run item user =
     \<lparr>rn_item = item, rn_user = user, rn_chat = [], rn_workflow = [], rn_status = RunPending, rn_phase = [], rn_phases = [],
      rn_steps = [], rn_started = None, rn_ended = None, rn_progress = None, rn_payload = [], rn_origin = [], rn_depth = 0,
      rn_by_hand = False, rn_from_schedule = False, rn_page = None, rn_result = None, rn_decision = None, rn_steer = None\<rparr>"

section \<open>Settling the phases\<close>

definition settle_phase :: "wf_run \<Rightarrow> phase_state \<Rightarrow> phase_state" where
  "settle_phase run p =
     (let st = rn_status run;
          anchor = (if active st then Some (rn_phase run) else None);
          ended_as = (case st of RunError \<Rightarrow> Some PhaseFailed | RunCancelled \<Rightarrow> Some PhaseStopped | _ \<Rightarrow> None)
      in if Some (ph_phase p) = anchor then p
         else if ended_as \<noteq> None \<and> ph_phase p = rn_phase run \<and> ph_status p \<in> {PhaseRunning, PhaseStopped}
              then p\<lparr>ph_status := the ended_as\<rparr>
         else if ph_status p = PhaseRunning then p\<lparr>ph_status := PhasePassed\<rparr>
         else p)"

definition settle_phases :: "wf_run \<Rightarrow> phase_state list" where
  "settle_phases run = map (settle_phase run) (rn_phases run)"

text \<open>Every write of a run: the changes, and the phases settled.\<close>

definition with_settled_phases :: "(wf_run \<Rightarrow> wf_run) \<Rightarrow> wf_run \<Rightarrow> wf_run" where
  "with_settled_phases changes run = (let updated = changes run in updated\<lparr>rn_phases := settle_phases updated\<rparr>)"

definition is_execution :: "wf_run \<Rightarrow> bool" where
  "is_execution run \<longleftrightarrow> rn_page run = None"

definition is_execution_of :: "wf_run \<Rightarrow> string \<Rightarrow> bool" where
  "is_execution_of run w \<longleftrightarrow> is_execution run \<and> rn_workflow run = w"

section \<open>The step board\<close>

fun event_at :: "step_event \<Rightarrow> step_at" where
  "event_at (StepSkipped a) = a"
| "event_at (StepStarted a) = a"
| "event_at (StepRetrying a _) = a"
| "event_at (StepRepairing a _ _) = a"
| "event_at (StepPassed a) = a"
| "event_at (StepFailedEv a _) = a"

definition apply_step_record :: "int \<Rightarrow> step_row list \<Rightarrow> step_event \<Rightarrow> step_row list" where
  "apply_step_record now rows ev =
     (let a = event_at ev;
          steps = filter (\<lambda>s. br_at s \<noteq> a) rows;
          prior = find (\<lambda>s. br_at s = a) rows;
          or_new = (\<lambda>started. case prior of Some s \<Rightarrow> s | None \<Rightarrow> new_row a started);
          keyed = (snd (snd a) \<noteq> [])
      in case ev of
           StepStarted _ \<Rightarrow> steps @ [new_row a (Some now)]
         | StepRetrying _ reason \<Rightarrow>
             (let base = or_new (Some now)
              in steps @ [base\<lparr>br_status := RowRetrying, br_attempts := br_attempts base + 1, br_reason := Reason reason\<rparr>])
         | StepRepairing _ reason k \<Rightarrow>
             (let base = or_new (Some now)
              in steps @ [base\<lparr>br_status := RowRepairing, br_attempts := br_attempts base + 1, br_repairs := int k, br_reason := Reason reason\<rparr>])
         | StepFailedEv _ f \<Rightarrow>
             (if keyed then steps
              else steps @ [(or_new None)\<lparr>br_status := RowFailed, br_ended := Some now, br_reason := f\<rparr>])
         | StepPassed _ \<Rightarrow>
             (if keyed then steps
              else steps @ [(or_new None)\<lparr>br_status := RowPassed, br_ended := Some now, br_reason := Reason []\<rparr>])
         | StepSkipped _ \<Rightarrow>
             (if keyed then steps
              else steps @ [(or_new None)\<lparr>br_status := RowSkipped, br_ended := Some now, br_reason := Reason []\<rparr>]))"

section \<open>Progress\<close>

definition passes_step :: "step_event \<Rightarrow> bool" where
  "passes_step ev \<longleftrightarrow> (case ev of StepPassed _ \<Rightarrow> True | StepSkipped _ \<Rightarrow> True | _ \<Rightarrow> False)"

definition fails_step :: "step_event \<Rightarrow> bool" where
  "fails_step ev \<longleftrightarrow> (case ev of StepFailedEv _ _ \<Rightarrow> True | _ \<Rightarrow> False)"

definition skips_step :: "step_event \<Rightarrow> bool" where
  "skips_step ev \<longleftrightarrow> (case ev of StepSkipped _ \<Rightarrow> True | _ \<Rightarrow> False)"

text \<open>A skip does not enter its phase: it ran in an earlier pass.\<close>

definition entering :: "wf_run \<Rightarrow> step_event \<Rightarrow> bool" where
  "entering run ev \<longleftrightarrow> fst (event_at ev) \<noteq> [] \<and> \<not> skips_step ev \<and> rn_phase run \<noteq> fst (event_at ev)"

definition advance_phase :: "bool \<Rightarrow> step_event \<Rightarrow> phase_state \<Rightarrow> phase_state" where
  "advance_phase enters ev p =
     (let p1 = (if enters then p\<lparr>ph_status := PhaseRunning\<rparr> else p);
          p2 = (if passes_step ev then p1\<lparr>ph_done := ph_done p1 + 1\<rparr> else p1)
      in if skips_step ev \<and> ph_status p2 = PhasePending then p2\<lparr>ph_status := PhaseSkipped\<rparr>
         else if fails_step ev then p2\<lparr>ph_failed := ph_failed p2 + 1, ph_status := PhaseFailed\<rparr>
         else p2)"

fun update_first :: "('a \<Rightarrow> bool) \<Rightarrow> ('a \<Rightarrow> 'a) \<Rightarrow> 'a list \<Rightarrow> 'a list" where
  "update_first P f [] = []"
| "update_first P f (x # xs) = (if P x then f x # xs else x # update_first P f xs)"

text \<open>A phase the manifest does not declare is tracked from its first event on.\<close>

definition advance_phases :: "bool \<Rightarrow> step_event \<Rightarrow> phase_state list \<Rightarrow> phase_state list" where
  "advance_phases enters ev phases =
     (let phase = fst (event_at ev);
          known = list_ex (\<lambda>p. ph_phase p = phase) phases
      in if \<not> known \<and> phase = [] then phases
         else update_first (\<lambda>p. ph_phase p = phase) (advance_phase enters ev) (if known then phases else phases @ [new_phase phase]))"

definition apply_progress :: "int \<Rightarrow> wf_run \<Rightarrow> step_event \<Rightarrow> bool \<Rightarrow> wf_run" where
  "apply_progress now run ev enters =
     with_settled_phases
       (\<lambda>r. r\<lparr>rn_phases := advance_phases enters ev (rn_phases run), rn_steps := apply_step_record now (rn_steps run) ev,
              rn_phase := (if enters then fst (event_at ev) else rn_phase r), rn_progress := Some now\<rparr>) run"

text \<open>
  An event of a run: the steps it has started so far, the record, and whether the phase it enters is
  announced.  Over the budget the event raises, before anything is written.
\<close>

definition on_event :: "int \<Rightarrow> nat \<Rightarrow> nat \<times> wf_run \<Rightarrow> step_event \<Rightarrow> (nat \<times> wf_run \<times> bool) option" where
  "on_event now max_steps cr ev =
     (case cr of (started, run) \<Rightarrow>
        (let started' = (case ev of StepStarted _ \<Rightarrow> Suc started | _ \<Rightarrow> started)
         in if (case ev of StepStarted _ \<Rightarrow> max_steps < started' | _ \<Rightarrow> False) then None
            else Some (started', apply_progress now run ev (entering run ev), entering run ev)))"

text \<open>Events one after the other, each at its time.\<close>

fun on_events :: "nat \<Rightarrow> nat \<times> wf_run \<Rightarrow> (int \<times> step_event) list \<Rightarrow> (nat \<times> wf_run) option" where
  "on_events max_steps cr [] = Some cr"
| "on_events max_steps cr ((now, ev) # evs) =
     (case on_event now max_steps cr ev of
        None \<Rightarrow> None
      | Some (started, run, _) \<Rightarrow> on_events max_steps (started, run) evs)"

section \<open>One running phase\<close>

definition one_running :: "wf_run \<Rightarrow> bool" where
  "one_running run \<longleftrightarrow>
     distinct (map ph_phase (rn_phases run))
     \<and> (\<forall>p \<in> set (rn_phases run). ph_status p = PhaseRunning \<longrightarrow> active (rn_status run) \<and> ph_phase p = rn_phase run)"

lemma settle_phase_name [simp]: "ph_phase (settle_phase run p) = ph_phase p"
  by (simp add: settle_phase_def Let_def)

lemma settle_phases_names [simp]: "map ph_phase (settle_phases run) = map ph_phase (rn_phases run)"
  by (simp add: settle_phases_def comp_def)

lemma settled_running:
  "ph_status (settle_phase run p) = PhaseRunning \<Longrightarrow> active (rn_status run) \<and> ph_phase p = rn_phase run"
  by (auto simp: settle_phase_def Let_def split: if_splits run_state.splits)

lemma with_settled_fields [simp]:
  "rn_status (with_settled_phases f run) = rn_status (f run)" "rn_phase (with_settled_phases f run) = rn_phase (f run)"
  "rn_steps (with_settled_phases f run) = rn_steps (f run)" "rn_item (with_settled_phases f run) = rn_item (f run)"
  "rn_chat (with_settled_phases f run) = rn_chat (f run)" "rn_workflow (with_settled_phases f run) = rn_workflow (f run)"
  "rn_page (with_settled_phases f run) = rn_page (f run)" "rn_decision (with_settled_phases f run) = rn_decision (f run)"
  "rn_steer (with_settled_phases f run) = rn_steer (f run)" "rn_progress (with_settled_phases f run) = rn_progress (f run)"
  "rn_started (with_settled_phases f run) = rn_started (f run)" "rn_ended (with_settled_phases f run) = rn_ended (f run)"
  "rn_result (with_settled_phases f run) = rn_result (f run)"
  by (simp_all add: with_settled_phases_def Let_def)

lemma settled_one_running: "distinct (map ph_phase (rn_phases (f run))) \<Longrightarrow> one_running (with_settled_phases f run)"
  by (auto simp: one_running_def with_settled_phases_def Let_def settle_phases_def comp_def dest: settled_running)

lemma update_first_names: "(\<And>x. g (f x) = g x) \<Longrightarrow> map g (update_first P f xs) = map g xs"
  by (induction xs) auto

lemma advance_phase_name [simp]: "ph_phase (advance_phase e ev p) = ph_phase p"
  by (simp add: advance_phase_def Let_def)

lemma advance_names:
  "distinct (map ph_phase ps) \<Longrightarrow> distinct (map ph_phase (advance_phases e ev ps))"
  by (auto simp: advance_phases_def Let_def update_first_names list_ex_iff new_phase_def)

lemma on_event_some:
  assumes "on_event now max_steps (n, run) ev = Some (n', run', enters)"
  shows "run' = apply_progress now run ev (entering run ev)" "enters = entering run ev"
  using assms by (auto simp: on_event_def Let_def split: if_splits)

lemma progress_fields [simp]:
  "rn_status (apply_progress now run ev e) = rn_status run" "rn_steps (apply_progress now run ev e) = apply_step_record now (rn_steps run) ev"
  "rn_phase (apply_progress now run ev e) = (if e then fst (event_at ev) else rn_phase run)"
  by (simp_all add: apply_progress_def)

lemma progress_names:
  "distinct (map ph_phase (rn_phases run)) \<Longrightarrow> distinct (map ph_phase (rn_phases (apply_progress now run ev e)))"
  using advance_names [of "rn_phases run" e ev] by (simp add: apply_progress_def with_settled_phases_def Let_def)

lemma progress_one_running: "distinct (map ph_phase (rn_phases run)) \<Longrightarrow> one_running (apply_progress now run ev e)"
  unfolding apply_progress_def by (rule settled_one_running) (simp add: advance_names)

text \<open>What holds of every record a sequence of events leaves behind.\<close>

lemma on_events_invariant:
  assumes "on_events max_steps (n, run) evs = Some (n', run')" "I run"
    and "\<And>run now ev. I run \<Longrightarrow> I (apply_progress now run ev (entering run ev))"
  shows "I run'"
  using assms(1,2)
proof (induction evs arbitrary: n run)
  case (Cons x evs)
  obtain now ev where x: "x = (now, ev)" by (cases x) auto
  then obtain n1 run1 e where "on_event now max_steps (n, run) ev = Some (n1, run1, e)" "on_events max_steps (n1, run1) evs = Some (n', run')"
    using Cons.prems(1) by (auto split: option.splits)
  then show ?case using Cons.IH Cons.prems(2) on_event_some(1) assms(3) by metis
qed simp

lemma running_at_most_one: "one_running run \<Longrightarrow> length (filter (\<lambda>p. ph_status p = PhaseRunning) (rn_phases run)) \<le> 1"
proof -
  assume a: "one_running run"
  have "length (filter (\<lambda>p. ph_status p = PhaseRunning) ps) \<le> 1"
    if "distinct (map ph_phase ps)" "\<forall>p \<in> set ps. ph_status p = PhaseRunning \<longrightarrow> ph_phase p = c" for ps :: "phase_state list" and c
    using that
  proof (induction ps)
    case (Cons p ps)
    show ?case
    proof (cases "ph_status p = PhaseRunning")
      case True
      then have "\<forall>q \<in> set ps. ph_status q \<noteq> PhaseRunning" using Cons.prems by (auto simp: image_iff)
      then have "filter (\<lambda>p. ph_status p = PhaseRunning) ps = []" by (simp add: filter_empty_conv)
      then show ?thesis by simp
    qed (use Cons in simp)
  qed simp
  then show ?thesis using a unfolding one_running_def by blast
qed

text \<open>
  C35: whatever events a run receives after a write, at most one phase of its record reads running:
  the phase the run is in, and only while the run is live.
\<close>

theorem one_running_phase:
  assumes "on_events max_steps (n, run) evs = Some (n', run')" "one_running run"
  shows "one_running run' \<and> length (filter (\<lambda>p. ph_status p = PhaseRunning) (rn_phases run')) \<le> 1"
proof -
  have "one_running run'"
    by (rule on_events_invariant [where I = one_running, OF assms]) (rule progress_one_running, simp add: one_running_def)
  then show ?thesis using running_at_most_one by blast
qed

section \<open>The board shows the last event of a step\<close>

definition row_at :: "step_at \<Rightarrow> step_row list \<Rightarrow> step_row option" where
  "row_at a rows = find (\<lambda>s. br_at s = a) rows"

text \<open>The status a step's row shows after an event; elements of a loop leave the board when they end.\<close>

fun shown :: "step_event \<Rightarrow> row_status option" where
  "shown (StepStarted a) = Some RowRunning"
| "shown (StepRetrying a _) = Some RowRetrying"
| "shown (StepRepairing a _ _) = Some RowRepairing"
| "shown (StepPassed a) = (if snd (snd a) \<noteq> [] then None else Some RowPassed)"
| "shown (StepSkipped a) = (if snd (snd a) \<noteq> [] then None else Some RowSkipped)"
| "shown (StepFailedEv a _) = (if snd (snd a) \<noteq> [] then None else Some RowFailed)"

fun last_about :: "step_at \<Rightarrow> step_event list \<Rightarrow> step_event option" where
  "last_about a [] = None"
| "last_about a (ev # evs) = (case last_about a evs of Some x \<Rightarrow> Some x | None \<Rightarrow> if event_at ev = a then Some ev else None)"

lemma row_at_append: "row_at a (xs @ ys) = (case row_at a xs of Some s \<Rightarrow> Some s | None \<Rightarrow> row_at a ys)"
  by (induction xs) (auto simp: row_at_def)

lemma row_at_dropped: "row_at a (filter (\<lambda>s. br_at s \<noteq> b) rows) = (if a = b then None else row_at a rows)"
  by (induction rows) (auto simp: row_at_def)

lemma row_at_simps [simp]: "row_at a [] = None" "row_at a [s] = (if br_at s = a then Some s else None)"
  by (simp_all add: row_at_def)

lemma row_at_at: "row_at a rows = Some s \<Longrightarrow> br_at s = a"
  by (auto simp: row_at_def find_Some_iff)

text \<open>The row an event writes over the step's row so far.\<close>

fun written_row :: "int \<Rightarrow> step_row option \<Rightarrow> step_event \<Rightarrow> step_row option" where
  "written_row now prior (StepStarted a) = Some (new_row a (Some now))"
| "written_row now prior (StepRetrying a reason) =
     (let s = (case prior of Some s \<Rightarrow> s | None \<Rightarrow> new_row a (Some now))
      in Some (s\<lparr>br_status := RowRetrying, br_attempts := br_attempts s + 1, br_reason := Reason reason\<rparr>))"
| "written_row now prior (StepRepairing a reason k) =
     (let s = (case prior of Some s \<Rightarrow> s | None \<Rightarrow> new_row a (Some now))
      in Some (s\<lparr>br_status := RowRepairing, br_attempts := br_attempts s + 1, br_repairs := int k, br_reason := Reason reason\<rparr>))"
| "written_row now prior (StepPassed a) =
     (if snd (snd a) \<noteq> [] then None
      else Some ((case prior of Some s \<Rightarrow> s | None \<Rightarrow> new_row a None)\<lparr>br_status := RowPassed, br_ended := Some now, br_reason := Reason []\<rparr>))"
| "written_row now prior (StepSkipped a) =
     (if snd (snd a) \<noteq> [] then None
      else Some ((case prior of Some s \<Rightarrow> s | None \<Rightarrow> new_row a None)\<lparr>br_status := RowSkipped, br_ended := Some now, br_reason := Reason []\<rparr>))"
| "written_row now prior (StepFailedEv a f) =
     (if snd (snd a) \<noteq> [] then None
      else Some ((case prior of Some s \<Rightarrow> s | None \<Rightarrow> new_row a None)\<lparr>br_status := RowFailed, br_ended := Some now, br_reason := f\<rparr>))"

lemma step_record_written:
  "apply_step_record now rows ev
     = filter (\<lambda>s. br_at s \<noteq> event_at ev) rows
       @ (case written_row now (row_at (event_at ev) rows) ev of None \<Rightarrow> [] | Some s \<Rightarrow> [s])"
  by (cases ev) (simp_all add: apply_step_record_def Let_def row_at_def)

lemma written_at: "written_row now (row_at (event_at ev) rows) ev = Some s \<Longrightarrow> br_at s = event_at ev"
  by (cases ev) (auto simp: Let_def new_row_def dest!: row_at_at split: option.splits if_splits)

lemma written_shown: "map_option br_status (written_row now prior ev) = shown ev"
  by (cases ev) (auto simp: Let_def new_row_def)

lemma step_record_row_at:
  "row_at a (apply_step_record now rows ev)
     = (if event_at ev = a then written_row now (row_at a rows) ev else row_at a rows)"
proof (cases "written_row now (row_at (event_at ev) rows) ev")
  case (Some s)
  then have "br_at s = event_at ev" by (rule written_at)
  then show ?thesis using Some by (auto simp: step_record_written row_at_append row_at_dropped split: option.splits)
qed (auto simp: step_record_written row_at_dropped)

lemma step_record_row:
  "map_option br_status (row_at a (apply_step_record now rows ev))
     = (if event_at ev = a then shown ev else map_option br_status (row_at a rows))"
  unfolding step_record_row_at using written_shown by simp

lemma step_record_distinct:
  "distinct (map br_at rows) \<Longrightarrow> distinct (map br_at (apply_step_record now rows ev))"
  unfolding step_record_written
  by (cases "written_row now (row_at (event_at ev) rows) ev") (auto simp: distinct_map_filter dest: written_at)

lemma on_events_rows:
  assumes "on_events max_steps (n, run) evs = Some (n', run')"
  shows "map_option br_status (row_at a (rn_steps run'))
     = (case last_about a (map snd evs) of None \<Rightarrow> map_option br_status (row_at a (rn_steps run)) | Some ev \<Rightarrow> shown ev)"
  using assms
proof (induction evs arbitrary: n run)
  case (Cons x evs)
  obtain now ev where x: "x = (now, ev)" by (cases x) auto
  then obtain n1 run1 e where r: "on_event now max_steps (n, run) ev = Some (n1, run1, e)" "on_events max_steps (n1, run1) evs = Some (n', run')"
    using Cons.prems by (auto split: option.splits)
  show ?case
    using Cons.IH [OF r(2)] on_event_some(1) [OF r(1)] x by (auto simp: step_record_row split: option.splits)
qed simp

text \<open>
  the board is the last word on every step: a step has at most one row, its row shows what its
  last event said, a step nothing was said of is as it was, and an element of a loop that ended has
  no row.
\<close>

theorem board_shows_last_event:
  assumes "on_events max_steps (n, run) evs = Some (n', run')" "distinct (map br_at (rn_steps run))"
  shows "distinct (map br_at (rn_steps run'))
     \<and> map_option br_status (row_at a (rn_steps run'))
         = (case last_about a (map snd evs) of None \<Rightarrow> map_option br_status (row_at a (rn_steps run)) | Some ev \<Rightarrow> shown ev)"
proof
  show "distinct (map br_at (rn_steps run'))"
    by (rule on_events_invariant [where I = "\<lambda>r. distinct (map br_at (rn_steps r))", OF assms]) (simp add: step_record_distinct)
qed (rule on_events_rows [OF assms(1)])


section \<open>The counters count\<close>

definition phase_of :: "string \<Rightarrow> phase_state list \<Rightarrow> phase_state option" where
  "phase_of p phases = find (\<lambda>x. ph_phase x = p) phases"

definition done_of :: "wf_run \<Rightarrow> string \<Rightarrow> int" where
  "done_of run p = (case phase_of p (rn_phases run) of Some x \<Rightarrow> ph_done x | None \<Rightarrow> 0)"

definition failed_of :: "wf_run \<Rightarrow> string \<Rightarrow> int" where
  "failed_of run p = (case phase_of p (rn_phases run) of Some x \<Rightarrow> ph_failed x | None \<Rightarrow> 0)"

lemma settle_phase_counts [simp]: "ph_done (settle_phase run p) = ph_done p" "ph_failed (settle_phase run p) = ph_failed p"
  by (simp_all add: settle_phase_def Let_def)

lemma phase_of_map: "(\<And>x. ph_phase (f x) = ph_phase x) \<Longrightarrow> phase_of p (map f phases) = map_option f (phase_of p phases)"
  by (induction phases) (auto simp: phase_of_def)

lemma phase_of_update:
  "(\<And>x. ph_phase (f x) = ph_phase x) \<Longrightarrow>
     phase_of p (update_first (\<lambda>x. ph_phase x = q) f phases) = (if p = q then map_option f (phase_of p phases) else phase_of p phases)"
  by (induction phases) (auto simp: phase_of_def)

lemma phase_of_append: "phase_of p (xs @ ys) = (case phase_of p xs of Some x \<Rightarrow> Some x | None \<Rightarrow> phase_of p ys)"
  by (induction xs) (auto simp: phase_of_def)

lemma phase_known: "list_ex (\<lambda>x. ph_phase x = p) phases \<longleftrightarrow> phase_of p phases \<noteq> None"
  by (induction phases) (auto simp: phase_of_def)

lemma advance_counts [simp]:
  "ph_done (advance_phase e ev x) = ph_done x + (if passes_step ev then 1 else 0)"
  "ph_failed (advance_phase e ev x) = ph_failed x + (if fails_step ev then 1 else 0)"
  by (cases ev; simp add: advance_phase_def Let_def passes_step_def fails_step_def skips_step_def)+

lemma phase_of_advanced:
  assumes "p \<noteq> []"
  shows "phase_of p (advance_phases e ev phases)
     = (if fst (event_at ev) = p
        then Some (advance_phase e ev (case phase_of p phases of Some x \<Rightarrow> x | None \<Rightarrow> new_phase p)) else phase_of p phases)"
  using assms
  by (auto simp: advance_phases_def Let_def phase_known phase_of_update phase_of_append split: option.splits)
     (simp_all add: phase_of_def new_phase_def)

lemma progress_counts:
  assumes "p \<noteq> []"
  shows "done_of (apply_progress now run ev e) p = done_of run p + (if passes_step ev \<and> fst (event_at ev) = p then 1 else 0)"
    and "failed_of (apply_progress now run ev e) p = failed_of run p + (if fails_step ev \<and> fst (event_at ev) = p then 1 else 0)"
  using assms
  by (auto simp: done_of_def failed_of_def apply_progress_def with_settled_phases_def Let_def settle_phases_def phase_of_map
      phase_of_advanced new_phase_def split: option.splits)

text \<open>
  a phase's counters are exact: over the events of a run, its \<open>done\<close> grows by the steps of
  the phase that passed or were skipped, and its \<open>failed\<close> by those that failed.
\<close>

theorem counters_count:
  assumes "on_events max_steps (n, run) evs = Some (n', run')" "p \<noteq> []"
  shows "done_of run' p = done_of run p + int (length (filter (\<lambda>(t, ev). passes_step ev \<and> fst (event_at ev) = p) evs))
     \<and> failed_of run' p = failed_of run p + int (length (filter (\<lambda>(t, ev). fails_step ev \<and> fst (event_at ev) = p) evs))"
  using assms(1)
proof (induction evs arbitrary: n run)
  case (Cons x evs)
  obtain now ev where x: "x = (now, ev)" by (cases x) auto
  then obtain n1 run1 e where r: "on_event now max_steps (n, run) ev = Some (n1, run1, e)" "on_events max_steps (n1, run1) evs = Some (n', run')"
    using Cons.prems by (auto split: option.splits)
  have "run1 = apply_progress now run ev (entering run ev)" using on_event_some(1) [OF r(1)] .
  then show ?case using Cons.IH [OF r(2)] x progress_counts [OF assms(2)] by simp
qed simp

section \<open>The board of a step the engine ran\<close>

text \<open>The events of another attempt, and of an attempt that repairs.\<close>

fun mends :: "step_event \<Rightarrow> bool" where
  "mends (StepRepairing _ _ _) = True"
| "mends _ = False"

fun again :: "step_event \<Rightarrow> bool" where
  "again (StepRetrying _ _) = True"
| "again ev = mends ev"

lemma between_about:
  "between a m mids \<Longrightarrow> (\<forall>ev \<in> set mids. event_at ev = a) \<and> filter again mids = mids"
  by (induction a m mids rule: between.induct) auto

lemma closes_about:
  "closes a out fin \<Longrightarrow> (\<forall>ev \<in> set fin. event_at ev = a) \<and> filter again fin = [] \<and> filter mends fin = []"
  by (auto simp: closes_def split: sum.splits)

lemma last_about_last: "evs \<noteq> [] \<Longrightarrow> \<forall>ev \<in> set evs. event_at ev = a \<Longrightarrow> last_about a evs = Some (last evs)"
proof (induction evs)
  case (Cons ev evs)
  then show ?case by (cases evs) auto
qed simp

lemma between_rows:
  assumes "on_events max_steps (n, run) (map (Pair now) mids) = Some (n', run')" "between a m mids"
    and "row_at a (rn_steps run) = Some s" "br_repairs s = int m"
  shows "\<exists>s'. row_at a (rn_steps run') = Some s' \<and> br_attempts s' = br_attempts s + int (length mids)
     \<and> br_repairs s' = int m + int (length (filter mends mids))"
  using assms
proof (induction mids arbitrary: n run m s)
  case (Cons ev mids)
  obtain n1 run1 e where r: "on_event now max_steps (n, run) ev = Some (n1, run1, e)" "on_events max_steps (n1, run1) (map (Pair now) mids) = Some (n', run')"
    using Cons.prems(1) by (auto split: option.splits)
  have row: "row_at a (rn_steps run1) = written_row now (Some s) ev" if "event_at ev = a"
    using on_event_some(1) [OF r(1)] that Cons.prems(3) by (simp add: step_record_row_at)
  show ?case
  proof (cases ev)
    case (StepRetrying b reason)
    then have b: "b = a" "between a m mids" using Cons.prems(2) by auto
    obtain s1 where s1: "row_at a (rn_steps run1) = Some s1" "br_attempts s1 = br_attempts s + 1" "br_repairs s1 = int m"
      using row StepRetrying b Cons.prems(4) by (auto simp: Let_def)
    from Cons.IH [OF r(2) b(2) s1(1,3)] show ?thesis using s1 StepRetrying by auto
  next
    case (StepRepairing b reason k)
    then have b: "b = a" "k = Suc m" "between a (Suc m) mids" using Cons.prems(2) by auto
    obtain s1 where s1: "row_at a (rn_steps run1) = Some s1" "br_attempts s1 = br_attempts s + 1" "br_repairs s1 = int (Suc m)"
      using row StepRepairing b by (auto simp: Let_def)
    from Cons.IH [OF r(2) b(3) s1(1,3)] show ?thesis using s1 StepRepairing by auto
  qed (use Cons.prems in auto)
qed auto

lemma on_events_append:
  "on_events max_steps cr (xs @ ys) = (case on_events max_steps cr xs of None \<Rightarrow> None | Some cr' \<Rightarrow> on_events max_steps cr' ys)"
  by (induction max_steps cr xs rule: on_events.induct) (auto split: option.splits)

lemma on_eventsE:
  assumes "on_events max_steps (n, run) (xs @ ys) = Some out"
  obtains n1 run1 where "on_events max_steps (n, run) xs = Some (n1, run1)" "on_events max_steps (n1, run1) ys = Some out"
  using assms by (auto simp: on_events_append split: option.splits)

lemma started_row:
  assumes "on_events max_steps (n, run) (map (Pair now) (StepStarted a # mids @ fin)) = Some (n', run')"
    and "between a 0 mids" "closes a out fin" "row_at a (rn_steps run') = Some s"
  shows "br_attempts s = 1 + int (length mids) \<and> br_repairs s = int (length (filter mends mids))"
proof -
  have split: "map (Pair now) (StepStarted a # mids @ fin) = [(now, StepStarted a)] @ map (Pair now) mids @ map (Pair now) fin"
    by simp
  obtain n1 run1 n2 run2 where go: "on_events max_steps (n, run) [(now, StepStarted a)] = Some (n1, run1)"
    "on_events max_steps (n1, run1) (map (Pair now) mids) = Some (n2, run2)"
    "on_events max_steps (n2, run2) (map (Pair now) fin) = Some (n', run')"
    using assms(1) unfolding split by (elim on_eventsE)
  have "row_at a (rn_steps run1) = Some (new_row a (Some now))"
    using go(1) by (auto simp: step_record_row_at dest!: on_event_some(1) split: option.splits)
  from between_rows [OF go(2) assms(2) this] obtain s2 where s2: "row_at a (rn_steps run2) = Some s2"
    "br_attempts s2 = 1 + int (length mids)" "br_repairs s2 = int (length (filter mends mids))" by (auto simp: new_row_def)
  have "fin = [] \<or> (\<exists>ev. fin = [ev] \<and> (ev = StepPassed a \<or> (\<exists>f. ev = StepFailedEv a f)))"
    using assms(3) by (auto simp: closes_def split: sum.splits)
  then show ?thesis
    using go(3) s2 assms(4)
    by (auto simp: step_record_row_at dest!: on_event_some(1) split: option.splits if_splits)
qed

text \<open>
  C34: the board tells what the engine did of a step.  When the step said nothing (a journal that could
  not be read), its row is as it was; otherwise the row's status is that of the last thing said: skipped
  or passed exactly when the step returned, and gone when the step is an element of a loop that ended.
  The row of a step that ran counts exactly the attempts announced, the first and each retry or repair,
  at most \<open>retries\<close> of these, and exactly the repairs among them.
\<close>

theorem board_tells_the_engine:
  assumes "run_step digest wh sp st = (st', out)" "st_events st' = st_events st @ evs"
    and "on_events max_steps (n, run) (map (Pair now) evs) = Some (n', run')"
  shows "(evs = [] \<longrightarrow> row_at (step_at sp) (rn_steps run') = row_at (step_at sp) (rn_steps run) \<and> (\<exists>e. out = Inl e))
     \<and> (evs \<noteq> [] \<longrightarrow> map_option br_status (row_at (step_at sp) (rn_steps run')) = shown (last evs)
          \<and> (last evs \<in> {StepSkipped (step_at sp), StepPassed (step_at sp)} \<longleftrightarrow> (\<exists>r. out = Inr r)))
     \<and> length (filter again evs) \<le> nat (sp_retries sp)
     \<and> (\<forall>s. row_at (step_at sp) (rn_steps run') = Some s \<longrightarrow> StepStarted (step_at sp) \<in> set evs \<longrightarrow>
          br_attempts s = 1 + int (length (filter again evs)) \<and> br_repairs s = int (length (filter mends evs)))"
proof -
  have protocol: "evs = [] \<and> (\<exists>e. out = Inl e) \<or> evs = [StepSkipped (step_at sp)] \<and> (\<exists>r. out = Inr r)
      \<or> (\<exists>mids fin. evs = StepStarted (step_at sp) # mids @ fin \<and> length mids \<le> nat (sp_retries sp)
            \<and> between (step_at sp) 0 mids \<and> closes (step_at sp) out fin)"
    using step_event_protocol [where digest = digest and wh = wh and sp = sp and st = st] assms(1,2) by auto
  note status = on_events_rows [OF assms(3), of "step_at sp"]
  from protocol show ?thesis
  proof (elim disjE exE conjE)
    fix r assume "evs = [StepSkipped (step_at sp)]" "out = Inr r"
    then show ?thesis using status by simp
  next
    fix mids fin assume evs: "evs = StepStarted (step_at sp) # mids @ fin" and few: "length mids \<le> nat (sp_retries sp)"
      and mids: "between (step_at sp) 0 mids" and fin: "closes (step_at sp) out fin"
    note about = between_about [OF mids] closes_about [OF fin]
    have last: "last_about (step_at sp) evs = Some (last evs)" by (rule last_about_last) (use evs about in auto)
    have ends: "last evs \<in> {StepSkipped (step_at sp), StepPassed (step_at sp)} \<longleftrightarrow> (\<exists>r. out = Inr r)"
    proof (cases "fin = []")
      case True
      then have "again (last evs) \<or> last evs = StepStarted (step_at sp)"
        using evs about by (metis (no_types, lifting) append_Nil2 filter_id_conv last.simps last_in_set)
      then show ?thesis using fin True by (auto simp: closes_def split: sum.splits)
    next
      case False
      then show ?thesis using fin evs by (auto simp: closes_def split: sum.splits)
    qed
    have "br_attempts s = 1 + int (length mids) \<and> br_repairs s = int (length (filter mends mids))"
      if "row_at (step_at sp) (rn_steps run') = Some s" for s
      by (rule started_row [OF assms(3) [unfolded evs] mids fin that])
    then show ?thesis using status last ends few about evs by (simp add: comp_def)
  qed (use assms(3) in simp)
qed


section \<open>Witnesses: a run of one phase\<close>

lemmas run_evaluation =
  on_event_def apply_progress_def with_settled_phases_def settle_phases_def settle_phase_def advance_phases_def advance_phase_def
  apply_step_record_def entering_def passes_step_def fails_step_def skips_step_def active_def ACTIVE_RUN_def new_row_def Let_def row_at_def

definition one_phase_run :: wf_run where
  "one_phase_run = (new_run ''i'' ''ann'')\<lparr>rn_status := RunRunning, rn_phases := [new_phase ''think'', new_phase ''write'']\<rparr>"

definition some_events :: "(int \<times> step_event) list" where
  "some_events = [(1, StepStarted (''think'', ''a'', [])), (2, StepPassed (''think'', ''a'', [])), (3, StepStarted (''write'', ''b'', [])),
     (4, StepRetrying (''write'', ''b'', []) ''short'')]"

lemma some_events_go: "\<exists>run'. on_events 10 (0, one_phase_run) some_events = Some (2, run')
    \<and> done_of run' ''think'' = 1 \<and> row_at (''write'', ''b'', []) (rn_steps run') \<noteq> None"
proof -
  have "map_option (\<lambda>(n, r). (n, done_of r ''think'', row_at (''write'', ''b'', []) (rn_steps r) = None)) (on_events 10 (0, one_phase_run) some_events)
      = Some (2, 1, False)"
    by (simp add: run_evaluation some_events_def one_phase_run_def new_run_def new_phase_def done_of_def phase_of_def)
  then show ?thesis by auto
qed

theorem one_running_phase_witness:
  "\<exists>n' run'. on_events 10 (0, one_phase_run) some_events = Some (n', run') \<and> one_running run'"
proof -
  obtain run' where r: "on_events 10 (0, one_phase_run) some_events = Some (2, run')" using some_events_go by blast
  have "one_running one_phase_run" by (simp add: one_running_def one_phase_run_def new_run_def new_phase_def)
  then show ?thesis using one_running_phase [OF r] r by blast
qed

theorem board_shows_last_event_witness:
  "\<exists>n' run'. on_events 10 (0, one_phase_run) some_events = Some (n', run')
     \<and> map_option br_status (row_at (''write'', ''b'', []) (rn_steps run')) = Some RowRetrying"
proof -
  obtain run' where r: "on_events 10 (0, one_phase_run) some_events = Some (2, run')" using some_events_go by blast
  have "distinct (map br_at (rn_steps one_phase_run))" by (simp add: one_phase_run_def new_run_def)
  from board_shows_last_event [OF r this, of "(''write'', ''b'', [])"] r show ?thesis by (simp add: some_events_def)
qed

theorem counters_count_witness:
  "\<exists>n' run'. on_events 10 (0, one_phase_run) some_events = Some (n', run') \<and> done_of run' ''think'' = 1 \<and> failed_of run' ''think'' = 0"
proof -
  obtain run' where r: "on_events 10 (0, one_phase_run) some_events = Some (2, run')" using some_events_go by blast
  from counters_count [OF r, of "''think''"] r show ?thesis
    by (simp add: some_events_def passes_step_def fails_step_def one_phase_run_def new_run_def new_phase_def done_of_def failed_of_def phase_of_def)
qed

theorem board_tells_the_engine_witness:
  "\<exists>n' run' s. on_events 10 (0, one_phase_run) (map (Pair 1) (st_events report_run)) = Some (n', run')
     \<and> row_at (''draft'', ''report'', []) (rn_steps run') = Some s \<and> br_status s = RowPassed \<and> br_attempts s = 1 \<and> br_repairs s = 0"
proof -
  let ?sp = "write_report (JObj [(''a'', JInt 1), (''b'', JInt 2)])"
  have evs: "st_events report_run = [StepStarted (''draft'', ''report'', []), StepPassed (''draft'', ''report'', [])]"
    by (simp add: report_run_def run_step_def cached_result_def disk_handle_def write_report_def workflow_simps
      attempt_body_def verdict_on_def step_path_def step_at_def)
  have "map_option fst (on_events 10 (0, one_phase_run) (map (Pair 1) (st_events report_run))) = Some 1"
    unfolding evs by (simp add: run_evaluation one_phase_run_def new_run_def new_phase_def)
  then obtain run' where r: "on_events 10 (0, one_phase_run) (map (Pair 1) (st_events report_run)) = Some (1, run')" by auto
  have "step_at ?sp = (''draft'', ''report'', [])" by (simp add: write_report_def step_at_def)
  then show ?thesis
    using board_tells_the_engine [OF report_run_returns _ r] r evs by auto
qed

end
