(* ===== verification/TriggerSweep.thy ===== *)
theory TriggerSweep
  imports UserSchedules TriggerClaims RunRecord
begin

text \<open>
  The two sweeps that fire schedules: \<open>TriggerSweeper\<close> of \<open>workflow/triggers.py\<close> for a profile's triggers
  (with the pickup of runs whose pod died), and the rows of a file in \<open>UserScheduleSweeper\<close> of
  \<open>workflow/user_schedule_sweep.py\<close>.

  A sweep works on the window ledger and on the engine that runs workflows.  The engine is an
  argument: its state and what it answers when asked to start, resume or abandon a run.  The calls
  made to it are logged, the newest first.
\<close>

section \<open>The engine\<close>

datatype disposition = OrphanGone | OrphanSettled | OrphanStuck | OrphanActive

definition orphan_disposition :: "run_state option \<Rightarrow> bool \<Rightarrow> disposition" where
  "orphan_disposition status stuck =
     (case status of
        None \<Rightarrow> OrphanGone
      | Some st \<Rightarrow>
          if st \<in> {RunDone, RunError, RunCancelled} then OrphanSettled
          else if st = RunRunning \<and> stuck then OrphanStuck
          else OrphanActive)"

record trigger =
  tg_id :: string
  tg_workflow :: string
  tg_user :: string
  tg_item :: string
  tg_schedule :: schedule
  tg_enabled :: bool
  tg_slug :: string
  tg_profile :: string

definition trigger_key :: "trigger \<Rightarrow> string" where
  "trigger_key t = (if tg_slug t \<noteq> [] then tg_slug t @ '':'' @ tg_profile t @ '':'' @ tg_id t else tg_id t)"

datatype start_error = ActiveRunExists | StartRaised string

datatype sweep_error = LedgerFailed ledger_error | EngineRaised string | BadSchedule step_exn

record 'e engine =
  en_status :: "'e \<Rightarrow> string \<Rightarrow> run_state option"
  en_stuck :: "'e \<Rightarrow> string \<Rightarrow> bool"
  en_resume :: "'e \<Rightarrow> string \<Rightarrow> 'e \<times> (string + bool)"
  en_abandon :: "'e \<Rightarrow> string \<Rightarrow> 'e \<times> (string + unit)"
  en_start :: "'e \<Rightarrow> trigger \<Rightarrow> 'e \<times> (start_error + string)"

datatype call = Resumed string | Abandoned string | Asked string string

record ('s, 'e) sweep =
  sw_store :: 's
  sw_engine :: 'e
  sw_calls :: "call list"

type_synonym ('s, 'e, 'a) act = "('s, 'e) sweep \<times> (sweep_error + 'a)"

definition then_do :: "('s, 'e, 'a) act \<Rightarrow> (('s, 'e) sweep \<Rightarrow> 'a \<Rightarrow> ('s, 'e, 'b) act) \<Rightarrow> ('s, 'e, 'b) act" where
  "then_do m f = (case m of (w, Inl x) \<Rightarrow> (w, Inl x) | (w, Inr a) \<Rightarrow> f w a)"

definition ask_store :: "('s, 'e) sweep \<Rightarrow> ledger_error + 'a \<Rightarrow> ('s, 'e, 'a) act" where
  "ask_store w r = (w, case r of Inl x \<Rightarrow> Inl (LedgerFailed x) | Inr a \<Rightarrow> Inr a)"

definition write_store :: "('s, 'e) sweep \<Rightarrow> ledger_error + 's \<Rightarrow> ('s, 'e, unit) act" where
  "write_store w r = (case r of Inl x \<Rightarrow> (w, Inl (LedgerFailed x)) | Inr s \<Rightarrow> (w\<lparr>sw_store := s\<rparr>, Inr ()))"

definition claim_store :: "('s, 'e) sweep \<Rightarrow> ledger_error + 's \<times> bool \<Rightarrow> ('s, 'e, bool) act" where
  "claim_store w r = (case r of Inl x \<Rightarrow> (w, Inl (LedgerFailed x)) | Inr (s, b) \<Rightarrow> (w\<lparr>sw_store := s\<rparr>, Inr b))"

definition call_engine :: "('s, 'e) sweep \<Rightarrow> call \<Rightarrow> 'e \<times> (string + 'a) \<Rightarrow> ('s, 'e, 'a) act" where
  "call_engine w c r =
     (case r of (e, x) \<Rightarrow>
        (w\<lparr>sw_engine := e, sw_calls := c # sw_calls w\<rparr>, case x of Inl m \<Rightarrow> Inl (EngineRaised m) | Inr a \<Rightarrow> Inr a))"

section \<open>A profile's triggers\<close>

text \<open>\<open>build_trigger_start\<close>: an item already running one is passed over.\<close>

definition trigger_start :: "'e engine \<Rightarrow> 'e \<Rightarrow> trigger \<Rightarrow> 'e \<times> (string + string option)" where
  "trigger_start eng e t =
     (case en_start eng e t of
        (e', Inr run) \<Rightarrow> (e', Inr (Some run))
      | (e', Inl ActiveRunExists) \<Rightarrow> (e', Inr None)
      | (e', Inl (StartRaised m)) \<Rightarrow> (e', Inl m))"

definition MAX_RESUME_ATTEMPTS :: int where
  "MAX_RESUME_ATTEMPTS = 2"

text \<open>\<open>watch\<close>: orphan pickup is wired.\<close>

record sweeper =
  sp_watch :: bool
  sp_max_resume :: int

text \<open>\<open>_settle_orphan\<close>: whether to go on to a new window.\<close>

definition settle_orphan ::
  "('s, window_row) row_api \<Rightarrow> 'e engine \<Rightarrow> sweeper \<Rightarrow> ('s, 'e) sweep \<Rightarrow> string \<Rightarrow> ('s, 'e, bool) act" where
  "settle_orphan api eng sp w key =
     (if \<not> sp_watch sp then (w, Inr True)
      else then_do (ask_store w (get_run api (sw_store w) key)) (\<lambda>w (run, attempts).
        let free = (\<lambda>w. then_do (write_store w (clear_run api (sw_store w) key)) (\<lambda>w _. (w, Inr True)))
        in if run = [] then (w, Inr True)
           else (case orphan_disposition (en_status eng (sw_engine w) run) (en_stuck eng (sw_engine w) run) of
                   OrphanActive \<Rightarrow> (w, Inr False)
                 | OrphanStuck \<Rightarrow>
                     if attempts < sp_max_resume sp
                     then then_do (call_engine w (Resumed run) (en_resume eng (sw_engine w) run)) (\<lambda>w took.
                            if took then then_do (write_store w (note_resume api (sw_store w) key)) (\<lambda>w _. (w, Inr False))
                            else (w, Inr False))
                     else then_do (call_engine w (Abandoned run) (en_abandon eng (sw_engine w) run)) (\<lambda>w _. free w)
                 | OrphanGone \<Rightarrow> free w
                 | OrphanSettled \<Rightarrow> free w)))"

definition tick_one ::
  "('s, window_row) row_api \<Rightarrow> 'e engine \<Rightarrow> cron \<Rightarrow> sweeper \<Rightarrow> (string \<Rightarrow> moment) \<Rightarrow> ('s, 'e) sweep \<Rightarrow> trigger \<Rightarrow> ('s, 'e, unit) act"
where
  "tick_one api eng cron sp local_now w t =
     (let key = trigger_key t; sched = tg_schedule t; now = local_now (sc_tz sched) in
      then_do (settle_orphan api eng sp w key) (\<lambda>w go.
      if \<not> go then (w, Inr ())
      else then_do (ask_store w (last_window api (sw_store w) key)) (\<lambda>w seen.
      case is_due cron sched now seen of
        Inl x \<Rightarrow> (w, Inl (BadSchedule x))
      | Inr False \<Rightarrow> (w, Inr ())
      | Inr True \<Rightarrow>
          (let window = fire_window cron sched now in
           then_do (claim_store w (try_claim api (sw_store w) key window)) (\<lambda>w won.
           if \<not> won then (w, Inr ())
           else then_do (call_engine w (Asked key window) (trigger_start eng (sw_engine w) t)) (\<lambda>w run.
           case run of
             Some r \<Rightarrow> if r \<noteq> [] \<and> sp_watch sp then write_store w (record_run api (sw_store w) key r) else (w, Inr ())
           | None \<Rightarrow> (w, Inr ())))))))"

fun tick_all ::
  "('s, window_row) row_api \<Rightarrow> 'e engine \<Rightarrow> cron \<Rightarrow> sweeper \<Rightarrow> (string \<Rightarrow> moment) \<Rightarrow> ('s, 'e) sweep \<Rightarrow> trigger list \<Rightarrow> ('s, 'e, unit) act"
where
  "tick_all api eng cron sp local_now w [] = (w, Inr ())"
| "tick_all api eng cron sp local_now w (t # ts) =
     (if tg_enabled t
      then then_do (tick_one api eng cron sp local_now w t) (\<lambda>w _. tick_all api eng cron sp local_now w ts)
      else tick_all api eng cron sp local_now w ts)"

text \<open>\<open>tick\<close>: the lease holds its key, the interval and the clock in milliseconds.\<close>

definition tick ::
  "('s, window_row) row_api \<Rightarrow> 'e engine \<Rightarrow> cron \<Rightarrow> sweeper \<Rightarrow> (string \<times> nat \<times> nat) option \<Rightarrow> (string \<Rightarrow> moment)
     \<Rightarrow> ('s, 'e) sweep \<Rightarrow> trigger list \<Rightarrow> ('s, 'e, unit) act" where
  "tick api eng cron sp lease local_now w triggers =
     (case lease of
        None \<Rightarrow> tick_all api eng cron sp local_now w triggers
      | Some (key, interval, now_ms) \<Rightarrow>
          then_do (claim_store w (scan_claim api (sw_store w) key interval now_ms)) (\<lambda>w won.
            if won then tick_all api eng cron sp local_now w triggers else (w, Inr ())))"

section \<open>The rows of a schedules file\<close>

definition MAX_START_ATTEMPTS :: nat where
  "MAX_START_ATTEMPTS = 3"

text \<open>How often the start of a window has failed, by trigger and window, on this pod.\<close>

type_synonym failures = "(string \<times> string, nat) dict"

record user_file =
  uf_offered :: "string list option"
  uf_unparsable :: "string \<Rightarrow> sweep_error + bool"
  uf_landed :: "moment option"
  uf_key :: "user_row \<Rightarrow> string"

definition drop_older :: "string \<Rightarrow> string \<Rightarrow> failures \<Rightarrow> failures" where
  "drop_older key window fails = filter (\<lambda>((k, v), n). k \<noteq> key \<or> v = window) fails"

text \<open>A start that failed: the older windows' counts are dropped, and below the limit the window is
  given back.\<close>

definition start_failed ::
  "('s, window_row) row_api \<Rightarrow> ('s, 'e) sweep \<Rightarrow> failures \<Rightarrow> string \<Rightarrow> string \<Rightarrow> string \<Rightarrow> ('s, 'e) sweep \<times> failures \<times> (sweep_error + nat)"
where
  "start_failed api w fails key window back_to =
     (let kept = drop_older key window fails;
          tries = (case dict_get kept (key, window) of Some n \<Rightarrow> n | None \<Rightarrow> 0) + 1;
          fails' = dict_set (key, window) tries kept
      in if tries < MAX_START_ATTEMPTS
         then (case write_store w (release_window api (sw_store w) key window back_to) of
                 (w', Inl x) \<Rightarrow> (w', fails', Inl x) | (w', Inr _) \<Rightarrow> (w', fails', Inr 0))
         else (w, fails', Inr 0))"

text \<open>One row: how many runs it launched.  \<open>start\<close> is the engine's answer for the row.\<close>

definition sweep_row ::
  "('s, window_row) row_api \<Rightarrow> ('e \<Rightarrow> user_row \<Rightarrow> 'e \<times> (start_error + unit)) \<Rightarrow> (string \<Rightarrow> moment \<Rightarrow> moment option) \<Rightarrow> cron
     \<Rightarrow> user_file \<Rightarrow> moment \<Rightarrow> ('s, 'e) sweep \<Rightarrow> failures \<Rightarrow> user_row \<Rightarrow> ('s, 'e) sweep \<times> failures \<times> (sweep_error + nat)" where
  "sweep_row api start wall cron uf now_utc w fails r =
     (let key = uf_key uf r; sched = as_schedule r; now = in_zone wall now_utc (ur_tz r) in
      if (case uf_offered uf of None \<Rightarrow> False | Some ids \<Rightarrow> ur_run r \<notin> set ids) then (w, fails, Inr 0)
      else (case last_window api (sw_store w) key of
        Inl x \<Rightarrow> (w, fails, Inl (LedgerFailed x))
      | Inr seen \<Rightarrow>
          (case is_due cron sched now seen of
             Inl x \<Rightarrow> (w, fails, Inl (BadSchedule x))
           | Inr False \<Rightarrow> (w, fails, Inr 0)
           | Inr True \<Rightarrow>
               (case (if seen = [] then born_after_target wall cron r now_utc (uf_landed uf) else Inr []) of
                  Inl x \<Rightarrow> (w, fails, Inl (BadSchedule x))
                | Inr born \<Rightarrow>
                    if born \<noteq> [] then
                      (case claim_store w (try_claim api (sw_store w) key born) of
                         (w', Inl x) \<Rightarrow> (w', fails, Inl x) | (w', Inr _) \<Rightarrow> (w', fails, Inr 0))
                    else if uf_unparsable uf (ur_run r) \<noteq> Inr False then (w, fails, Inr 0)
                    else
                      (let window = fire_window cron sched now in
                       case claim_store w (try_claim api (sw_store w) key window) of
                         (w', Inl x) \<Rightarrow> (w', fails, Inl x)
                       | (w', Inr False) \<Rightarrow> (w', fails, Inr 0)
                       | (w', Inr True) \<Rightarrow>
                           (case start (sw_engine w') r of (e, x) \<Rightarrow>
                              let w2 = w'\<lparr>sw_engine := e, sw_calls := Asked key window # sw_calls w'\<rparr> in
                              case x of
                                Inr _ \<Rightarrow> (w2, filter (\<lambda>(k, n). k \<noteq> (key, window)) fails, Inr 1)
                              | Inl ActiveRunExists \<Rightarrow> (w2, fails, Inr 0)
                              | Inl (StartRaised m) \<Rightarrow> start_failed api w2 fails key window seen))))))"

fun sweep_rows ::
  "('s, window_row) row_api \<Rightarrow> ('e \<Rightarrow> user_row \<Rightarrow> 'e \<times> (start_error + unit)) \<Rightarrow> (string \<Rightarrow> moment \<Rightarrow> moment option) \<Rightarrow> cron
     \<Rightarrow> user_file \<Rightarrow> moment \<Rightarrow> ('s, 'e) sweep \<Rightarrow> failures \<Rightarrow> user_row list \<Rightarrow> nat \<Rightarrow> ('s, 'e) sweep \<times> failures \<times> (sweep_error + nat)" where
  "sweep_rows api start wall cron uf now_utc w fails [] n = (w, fails, Inr n)"
| "sweep_rows api start wall cron uf now_utc w fails (r # rs) n =
     (case sweep_row api start wall cron uf now_utc w fails r of
        (w', fails', Inl x) \<Rightarrow> (w', fails', Inl x)
      | (w', fails', Inr k) \<Rightarrow> sweep_rows api start wall cron uf now_utc w' fails' rs (n + k))"

section \<open>What the panel shows of a row\<close>

record row_view =
  rv_known :: bool
  rv_runnable :: bool
  rv_next :: "moment option"
  rv_due_now :: bool

text \<open>A row that parses, in \<open>schedule_views\<close>: \<open>broken\<close> says whether its workflow's file will not run.\<close>

definition view_row ::
  "(string \<Rightarrow> moment \<Rightarrow> moment option) \<Rightarrow> cron \<Rightarrow> string list \<Rightarrow> (string \<Rightarrow> bool) \<Rightarrow> bool \<Rightarrow> bool \<Rightarrow> bool \<Rightarrow> moment \<Rightarrow> string
     \<Rightarrow> moment option \<Rightarrow> user_row \<Rightarrow> step_exn + row_view" where
  "view_row wall cron offered broken capped enabled indexed now_utc fired landed r =
     (let known = ur_run r \<in> set offered; runnable = known \<and> \<not> broken (ur_run r) \<and> \<not> capped \<and> enabled \<and> indexed in
      if \<not> runnable then Inr \<lparr>rv_known = known, rv_runnable = False, rv_next = None, rv_due_now = False\<rparr>
      else bindE (last_or_born wall cron r now_utc fired landed) (\<lambda>seen.
           bindE (next_run_at wall cron r now_utc seen) (\<lambda>next.
             Inr \<lparr>rv_known = known, rv_runnable = True, rv_next = next, rv_due_now = (next = None)\<rparr>)))"

section \<open>The panel and the sweep agree\<close>

lemma next_run_none: "next_run cron s now seen = Inr v \<Longrightarrow> v = None \<longleftrightarrow> is_due cron s now seen = Inr True"
  by (auto simp: next_run_def is_due_def bindE_eq_Inr split: if_splits)

lemma is_due_nil: "is_due cron s now seen = Inr True \<Longrightarrow> is_due cron s now [] = Inr True"
  using fire_window_some [of cron s now] by (auto simp: is_due_def bindE_eq_Inr)

lemma sweep_row_not_offered: "uf_offered uf = Some ids \<Longrightarrow> ur_run r \<notin> set ids \<Longrightarrow>
  sweep_row api start wall cron uf now_utc w fails r = (w, fails, Inr 0)"
  by (simp add: sweep_row_def Let_def)

lemma sweep_row_broken: "uf_unparsable uf (ur_run r) \<noteq> Inr False \<Longrightarrow>
  sw_calls (fst (sweep_row api start wall cron uf now_utc w fails r)) = sw_calls w"
  by (simp add: sweep_row_def Let_def claim_store_def split: sum.split bool.split prod.split)

lemma start_failed_calls: "sw_calls (fst (start_failed api w fails key window back_to)) = sw_calls w"
  by (simp add: start_failed_def Let_def write_store_def split: sum.split prod.split)

lemma panel_agrees_offered:
  fixes api :: "('s, window_row) row_api"
  assumes "row_store api rows" "\<And>x e d. rows (sw_store w) (uf_key uf r) = Some (x, e, d) \<Longrightarrow> \<not> d"
    and seen: "last_window api (sw_store w) (uf_key uf r) = Inr fired"
    and uf: "uf_offered uf = Some offered" "uf_unparsable uf (ur_run r) = Inr (broken (ur_run r))"
    and True: "ur_run r \<in> set offered \<and> \<not> broken (ur_run r)"
    and view: "view_row wall cron offered broken False True True now_utc fired (uf_landed uf) r = Inr v"
  shows "sw_calls (fst (sweep_row api start wall cron uf now_utc w fails r)) =
     (if rv_due_now v then [Asked (uf_key uf r) (fire_window cron (as_schedule r) (in_zone wall now_utc (ur_tz r)))] else []) @ sw_calls w"
proof -
  let ?s = "as_schedule r" and ?now = "in_zone wall now_utc (ur_tz r)" and ?k = "uf_key uf r" and ?run = "ur_run r"
  let ?win = "fire_window cron ?s ?now"
  note l = window_ledger.intro [OF assms(1)]
  have live: "window_ledger.live_row rows (sw_store w) ?k" using assms(2) by (auto simp: window_ledger.live_row_def [OF l])
  obtain seen' nxt where s': "last_or_born wall cron r now_utc fired (uf_landed uf) = Inr seen'"
    "next_run cron ?s ?now seen' = Inr nxt" "rv_due_now v = (nxt = None)"
    using view True by (auto simp: view_row_def bindE_eq_Inr next_run_at_def)
  have due: "rv_due_now v \<longleftrightarrow> is_due cron ?s ?now seen' = Inr True" using next_run_none [OF s'(2)] s'(3) by simp
  have total: "\<exists>b. is_due cron ?s ?now x = Inr b" for x
    using s'(2) by (auto simp: next_run_def is_due_def bindE_eq_Inr)
  obtain b where b: "is_due cron ?s ?now fired = Inr b" using total by blast
  have win: "?win \<noteq> []" by (rule fire_window_some)
  show ?thesis
  proof (cases b)
    case False
    have "\<not> rv_due_now v"
      using False b due s'(1) is_due_nil [of cron ?s ?now seen'] by (auto simp: last_or_born_def split: if_splits)
    then show ?thesis using False b seen True uf by (simp add: sweep_row_def Let_def)
  next
    case dueb: True
    have other: "fired \<noteq> ?win" using b dueb by (auto simp: is_due_def bindE_eq_Inr)
    obtain s' e where claim: "try_claim api (sw_store w) ?k ?win = Inr (s', True)"
      using window_ledger.try_claim_wins [OF l live seen other] by blast
    show ?thesis
    proof (cases "fired = [] \<and> seen' \<noteq> []")
      case born: True
      have sb: "born_after_target wall cron r now_utc (uf_landed uf) = Inr seen'" using s'(1) born by (simp add: last_or_born_def)
      then have "seen' = ?win" using born
        by (auto simp: born_after_target_def Let_def bindE_eq_Inr split: option.splits if_splits)
      then have "\<not> rv_due_now v" using due by (auto simp: is_due_def bindE_eq_Inr)
      then show ?thesis using b dueb seen True uf sb born
        by (simp add: sweep_row_def Let_def claim_store_def split: sum.split prod.split)
    next
      case False
      have sf: "seen' = fired" using False s'(1) by (auto simp: last_or_born_def split: if_splits)
      have none: "fired = [] \<Longrightarrow> born_after_target wall cron r now_utc (uf_landed uf) = Inr []"
        using s'(1) sf by (simp add: last_or_born_def)
      have "rv_due_now v" using due sf b dueb by simp
      then show ?thesis using b dueb seen True uf none claim
        by (simp add: sweep_row_def Let_def claim_store_def start_failed_calls split: prod.split sum.split start_error.split)
    qed
  qed
qed

text \<open>
  C27: for a row of a file within the cap, with the sweep on and the file indexed, the panel says
  \<open>due now\<close> exactly when the next pass of the sweep asks for the run, over the same ledger.
\<close>

theorem panel_agrees_with_sweep:
  fixes api :: "('s, window_row) row_api"
  assumes "row_store api rows" "\<And>x e d. rows (sw_store w) (uf_key uf r) = Some (x, e, d) \<Longrightarrow> \<not> d"
    and seen: "last_window api (sw_store w) (uf_key uf r) = Inr fired"
    and uf: "uf_offered uf = Some offered" "uf_unparsable uf (ur_run r) = Inr (broken (ur_run r))"
    and view: "view_row wall cron offered broken False True True now_utc fired (uf_landed uf) r = Inr v"
  shows "sw_calls (fst (sweep_row api start wall cron uf now_utc w fails r)) =
     (if rv_due_now v then [Asked (uf_key uf r) (fire_window cron (as_schedule r) (in_zone wall now_utc (ur_tz r)))] else []) @ sw_calls w"
proof (cases "ur_run r \<in> set offered \<and> \<not> broken (ur_run r)")
  case False
  have "rv_due_now v = False" using view False by (auto simp: view_row_def)
  then show ?thesis
    using False uf by (cases "ur_run r \<in> set offered") (simp_all add: sweep_row_not_offered sweep_row_broken)
next
  case True
  show ?thesis by (rule panel_agrees_offered [OF assms(1) _ seen uf True view]) (rule assms(2))
qed

definition daily_report :: user_row where
  "daily_report = \<lparr>ur_run = ''report'', ur_every = ''daily'', ur_n = 0, ur_at = ''09:00'', ur_dow = [], ur_dom = 0,
     ur_tz = [], ur_payload = [], ur_cron = []\<rparr>"

definition report_file :: user_file where
  "report_file = \<lparr>uf_offered = Some [''report''], uf_unparsable = (\<lambda>_. Inr False), uf_landed = None, uf_key = (\<lambda>_. ''k'')\<rparr>"

lemma daily_report_target:
  "period_target every_minute (as_schedule daily_report) tuesday = Inr \<lparr>mo_date = (2026, 3, 3), mo_us = 9 * HOUR_US\<rparr>"
  by code_simp

lemma daily_report_due: "is_due every_minute (as_schedule daily_report) tuesday [] = Inr True"
proof -
  have "stamp \<lparr>mo_date = (2026, 3, 3), mo_us = 9 * HOUR_US\<rparr> \<le> stamp tuesday" by code_simp
  then show ?thesis
    using fire_window_some [of every_minute "as_schedule daily_report" tuesday] by (simp add: is_due_def daily_report_target bindE_def)
qed

lemma report_row: "ur_run daily_report = ''report''" "uf_landed report_file = None"
  by (simp_all add: daily_report_def report_file_def)

theorem panel_agrees_with_sweep_witness:
  "sw_calls (fst (sweep_row mem_store (\<lambda>e r. (e, Inr ())) (\<lambda>_ t. Some t) every_minute report_file tuesday
      \<lparr>sw_store = [], sw_engine = (), sw_calls = []\<rparr> [] daily_report))
   = [Asked ''k'' (fire_window every_minute (as_schedule daily_report) tuesday)]"
proof -
  let ?w = "\<lparr>sw_store = [], sw_engine = (), sw_calls = []\<rparr> :: (window_row mem, unit) sweep"
  have zone: "in_zone (\<lambda>_ t. Some t) tuesday (ur_tz daily_report) = tuesday" by (simp add: in_zone_def)
  have "next_run every_minute (as_schedule daily_report) tuesday [] = Inr None"
    using daily_report_due by (auto simp: is_due_def next_run_def daily_report_target bindE_def)
  then have v: "view_row (\<lambda>_ t. Some t) every_minute [''report''] (\<lambda>_. False) False True True tuesday [] (uf_landed report_file) daily_report
      = Inr \<lparr>rv_known = True, rv_runnable = True, rv_next = None, rv_due_now = True\<rparr>"
    using zone by (simp add: view_row_def last_or_born_def born_after_target_def report_row next_run_at_def bindE_def)
  have "last_window mem_store (sw_store ?w) (uf_key report_file daily_report) = Inr []" by code_simp
  from panel_agrees_with_sweep [OF mem.row_store_axioms _ this _ _ v, where start = "\<lambda>e r. (e, Inr ())" and fails = "[]"]
  show ?thesis by (simp add: report_file_def zone)
qed

section \<open>Old runs first\<close>

lemma store_calls [simp]:
  "sw_calls (fst (ask_store w r)) = sw_calls w" "sw_calls (fst (write_store w s)) = sw_calls w"
  "sw_calls (fst (claim_store w c)) = sw_calls w"
  by (auto simp: ask_store_def write_store_def claim_store_def split: sum.splits prod.splits)

lemma store_engine [simp]:
  "sw_engine (fst (ask_store w r)) = sw_engine w" "sw_engine (fst (write_store w s)) = sw_engine w"
  "sw_engine (fst (claim_store w c)) = sw_engine w"
  by (auto simp: ask_store_def write_store_def claim_store_def split: sum.splits prod.splits)

text \<open>Whether the run recorded for a trigger lets a new window be fired.\<close>

definition debt_paid :: "sweeper \<Rightarrow> string \<times> int \<Rightarrow> disposition \<Rightarrow> call list \<Rightarrow> bool" where
  "debt_paid sp slot d calls \<longleftrightarrow>
     (case slot of (run, attempts) \<Rightarrow>
        run = [] \<or> d = OrphanGone \<or> d = OrphanSettled
        \<or> (d = OrphanStuck \<and> sp_max_resume sp \<le> attempts \<and> Abandoned run \<in> set calls))"

lemma settle_orphan_goes:
  assumes "settle_orphan api eng sp w key = (w', res)" "sp_watch sp" "get_run api (sw_store w) key = Inr (run, attempts)"
  shows "\<exists>new. sw_calls w' = new @ sw_calls w \<and> (\<forall>k v. Asked k v \<notin> set new)
    \<and> (res = Inr True \<longrightarrow> debt_paid sp (run, attempts) (orphan_disposition (en_status eng (sw_engine w) run) (en_stuck eng (sw_engine w) run)) new)"
  using assms
  by (auto simp: settle_orphan_def ask_store_def then_do_def debt_paid_def Let_def write_store_def call_engine_def
      split: if_splits disposition.splits sum.splits prod.splits bool.splits)

text \<open>
  C28: a tick of a trigger asks the engine for at most one run, for the window of the moment, and only
  when the trigger's last run is out of the way: there is none, it is gone or over, or it is stuck,
  its resumes are spent and this tick has abandoned it.
\<close>

theorem tick_pays_debt_first:
  assumes "sp_watch sp" "get_run api (sw_store w) (trigger_key t) = Inr (run, attempts)"
    and tick: "tick_one api eng cron sp local_now w t = (w', res)"
  shows "\<exists>new. sw_calls w' = new @ sw_calls w
    \<and> (\<forall>k v. Asked k v \<in> set new \<longrightarrow>
          k = trigger_key t \<and> v = fire_window cron (tg_schedule t) (local_now (sc_tz (tg_schedule t)))
          \<and> debt_paid sp (run, attempts) (orphan_disposition (en_status eng (sw_engine w) run) (en_stuck eng (sw_engine w) run)) new)
    \<and> length (filter (\<lambda>c. \<exists>k v. c = Asked k v) new) \<le> 1"
proof -
  let ?k = "trigger_key t" and ?win = "fire_window cron (tg_schedule t) (local_now (sc_tz (tg_schedule t)))"
  obtain w1 r1 where settled: "settle_orphan api eng sp w ?k = (w1, r1)" by fastforce
  obtain new where new: "sw_calls w1 = new @ sw_calls w" "\<forall>k v. Asked k v \<notin> set new"
    "r1 = Inr True \<Longrightarrow> debt_paid sp (run, attempts) (orphan_disposition (en_status eng (sw_engine w) run) (en_stuck eng (sw_engine w) run)) new"
    using settle_orphan_goes [OF settled assms(1,2)] by blast
  have none: "filter (\<lambda>c. \<exists>k v. c = Asked k v) new = []" using new(2) by (auto simp: filter_empty_conv)
  have "sw_calls w' = sw_calls w1 \<or> (r1 = Inr True \<and> sw_calls w' = Asked ?k ?win # sw_calls w1)"
    using tick
    by (auto simp: tick_one_def Let_def settled then_do_def ask_store_def claim_store_def write_store_def call_engine_def
        split: sum.splits bool.splits if_splits prod.splits option.splits)
  then show ?thesis
  proof
    assume "sw_calls w' = sw_calls w1"
    then show ?thesis using new none by auto
  next
    assume asked: "r1 = Inr True \<and> sw_calls w' = Asked ?k ?win # sw_calls w1"
    then have "debt_paid sp (run, attempts) (orphan_disposition (en_status eng (sw_engine w) run) (en_stuck eng (sw_engine w) run))
        (Asked ?k ?win # new)" using new(3) by (auto simp: debt_paid_def)
    then show ?thesis using asked new none by (intro exI [of _ "Asked ?k ?win # new"]) auto
  qed
qed

section \<open>A start that fails\<close>

text \<open>
  when the engine fails to start a trigger's run, the window has been claimed and is not given
  back: at no moment of that window is the trigger due again.
\<close>

theorem failed_start_spends_window:
  fixes api :: "('s, window_row) row_api"
  assumes "row_store api rows" "\<And>x e d. rows (sw_store w) (trigger_key t) = Some (x, e, d) \<Longrightarrow> \<not> d"
    and "\<not> sp_watch sp" "tick_one api eng cron sp local_now w t = (w', Inl (EngineRaised m))"
  shows "\<exists>win. last_window api (sw_store w') (trigger_key t) = Inr win
    \<and> win = fire_window cron (tg_schedule t) (local_now (sc_tz (tg_schedule t)))
    \<and> (\<forall>u. fire_window cron (tg_schedule t) u = win \<longrightarrow> is_due cron (tg_schedule t) u win \<noteq> Inr True)"
proof -
  let ?k = "trigger_key t" and ?s = "tg_schedule t"
  let ?win = "fire_window cron ?s (local_now (sc_tz ?s))"
  note l = window_ledger.intro [OF assms(1)]
  have live: "window_ledger.live_row rows (sw_store w) ?k" using assms(2) by (auto simp: window_ledger.live_row_def [OF l])
  obtain seen where seen: "last_window api (sw_store w) ?k = Inr seen" using window_ledger.last_window_eq [OF l live] by blast
  have settled: "settle_orphan api eng sp w ?k = (w, Inr True)" using assms(3) by (simp add: settle_orphan_def)
  have due: "is_due cron ?s (local_now (sc_tz ?s)) seen = Inr True"
    using assms(4) by (auto simp: tick_one_def Let_def settled then_do_def ask_store_def seen split: sum.splits bool.splits)
  then have "seen \<noteq> ?win" by (auto simp: is_due_def bindE_eq_Inr)
  from window_ledger.try_claim_wins [OF l live seen this]
  obtain s' e where s': "try_claim api (sw_store w) ?k ?win = Inr (s', True)" "rows s' = (rows (sw_store w))(?k \<mapsto> (fresh_row ?k ?win, e, False))"
    by blast
  have "sw_store w' = s'"
    using assms(4) due s'(1) by (auto simp: tick_one_def Let_def settled then_do_def ask_store_def claim_store_def write_store_def
        call_engine_def seen assms(3) split: sum.splits prod.splits option.splits)
  then have "last_window api (sw_store w') ?k = Inr ?win"
    using window_ledger.claimed_row [OF l s'(2)] by (simp add: fresh_row_def)
  then show ?thesis by (auto simp: is_due_def bindE_eq_Inr)
qed

section \<open>The budgets\<close>

text \<open>A run nobody drives any more, whose resumes are taken and change nothing.\<close>

definition hopeless :: "'e engine \<Rightarrow> string \<Rightarrow> bool" where
  "hopeless eng run \<longleftrightarrow>
     (\<forall>e. en_status eng e run = Some RunRunning \<and> en_stuck eng e run
        \<and> snd (en_resume eng e run) = Inr True \<and> snd (en_abandon eng e run) = Inr ())"

fun settle_again ::
  "('s, window_row) row_api \<Rightarrow> 'e engine \<Rightarrow> sweeper \<Rightarrow> string \<Rightarrow> nat \<Rightarrow> ('s, 'e) sweep \<Rightarrow> ('s, 'e) sweep" where
  "settle_again api eng sp key 0 w = w"
| "settle_again api eng sp key (Suc n) w = fst (settle_orphan api eng sp (settle_again api eng sp key n w) key)"

context window_ledger
begin

lemma settle_hopeless:
  assumes "sp_watch sp" "hopeless eng run" "run \<noteq> []" "rows (sw_store w) key = Some (r, e, False)" "wr_run r = run"
  shows "if wr_attempts r < sp_max_resume sp
    then (\<exists>e'. rows (sw_store (fst (settle_orphan api eng sp w key))) = (rows (sw_store w))(key \<mapsto> (r\<lparr>wr_attempts := wr_attempts r + 1\<rparr>, e', False)))
      \<and> sw_calls (fst (settle_orphan api eng sp w key)) = Resumed run # sw_calls w
    else (\<exists>e'. rows (sw_store (fst (settle_orphan api eng sp w key))) = (rows (sw_store w))(key \<mapsto> (r\<lparr>wr_run := []\<rparr>, e', False)))
      \<and> sw_calls (fst (settle_orphan api eng sp w key)) = Abandoned run # sw_calls w"
proof -
  have run: "get_run api (sw_store w) key = Inr (run, wr_attempts r)"
    using assms(4,5) by (simp add: get_run_def ledger_row_eq bindE_def)
  have d: "orphan_disposition (en_status eng e run) (en_stuck eng e run) = OrphanStuck" for e
    using assms(2) by (simp add: orphan_disposition_def hopeless_def)
  obtain e1 where resume: "en_resume eng (sw_engine w) run = (e1, Inr True)" using assms(2) by (metis hopeless_def prod.collapse)
  obtain e2 where abandon: "en_abandon eng (sw_engine w) run = (e2, Inr ())" using assms(2) by (metis hopeless_def prod.collapse)
  note wf = write_fields_live [OF assms(4)]
  obtain s1 x1 where s1: "note_resume api (sw_store w) key = Inr s1"
    "rows s1 = (rows (sw_store w))(key \<mapsto> (r\<lparr>wr_attempts := wr_attempts r + 1\<rparr>, x1, False))"
    using wf [of "\<lambda>x. x\<lparr>wr_attempts := wr_attempts r + 1\<rparr>"] assms(4) by (auto simp: note_resume_def ledger_row_eq bindE_def)
  obtain s2 x2 where s2: "clear_run api (sw_store w) key = Inr s2" "rows s2 = (rows (sw_store w))(key \<mapsto> (r\<lparr>wr_run := []\<rparr>, x2, False))"
    using wf [of "\<lambda>x. x\<lparr>wr_run := []\<rparr>"] by (auto simp: clear_run_def)
  show ?thesis
    using assms(1,3) run d resume abandon s1 s2
    by (simp add: settle_orphan_def ask_store_def then_do_def call_engine_def write_store_def Let_def) blast
qed

lemma settle_again_resumes:
  assumes "sp_watch sp" "hopeless eng run" "run \<noteq> []" "rows (sw_store w) key = Some (r, e, False)" "wr_run r = run"
    "wr_attempts r = 1"
  shows "int n < sp_max_resume sp \<Longrightarrow>
    (\<exists>e'. rows (sw_store (settle_again api eng sp key n w)) key = Some (r\<lparr>wr_attempts := 1 + int n\<rparr>, e', False))
    \<and> sw_calls (settle_again api eng sp key n w) = replicate n (Resumed run) @ sw_calls w"
proof (induction n)
  case 0
  have "r\<lparr>wr_attempts := 1\<rparr> = r" using assms(6) by (cases r) simp
  then show ?case using assms(4) by simp
next
  case (Suc n)
  then obtain e' where row: "rows (sw_store (settle_again api eng sp key n w)) key = Some (r\<lparr>wr_attempts := 1 + int n\<rparr>, e', False)"
    and calls: "sw_calls (settle_again api eng sp key n w) = replicate n (Resumed run) @ sw_calls w" by auto
  from settle_hopeless [OF assms(1-3) row] assms(5) Suc.prems show ?case by (auto simp: calls algebra_simps)
qed

end

text \<open>
  a run that stays stuck is resumed one time less than the limit says, since recording it counts
  as the first attempt; the tick after that abandons it and frees the slot.
\<close>

theorem orphan_budget:
  fixes api :: "('s, window_row) row_api"
  assumes "row_store api rows" "sp_watch sp" "hopeless eng run" "run \<noteq> []" "1 \<le> sp_max_resume sp"
    and "rows (sw_store w) key = Some (r0, e0, False)" "record_run api (sw_store w) key run = Inr s"
  shows "sw_calls (settle_again api eng sp key (nat (sp_max_resume sp)) (w\<lparr>sw_store := s\<rparr>)) =
      Abandoned run # replicate (nat (sp_max_resume sp) - 1) (Resumed run) @ sw_calls w
    \<and> get_run api (sw_store (settle_again api eng sp key (nat (sp_max_resume sp)) (w\<lparr>sw_store := s\<rparr>))) key
        = Inr ([], sp_max_resume sp)"
proof -
  note l = window_ledger.intro [OF assms(1)]
  let ?r = "r0\<lparr>wr_run := run, wr_attempts := 1\<rparr>" and ?w = "w\<lparr>sw_store := s\<rparr>"
  obtain e where row: "rows (sw_store ?w) key = Some (?r, e, False)"
    using window_ledger.write_fields_live [OF l assms(6), of "\<lambda>r. r\<lparr>wr_run := run, wr_attempts := 1\<rparr>"] assms(7)
    by (auto simp: record_run_def)
  obtain n where n': "sp_max_resume sp = 1 + int n" using assms(5) by (metis zle_iff_zadd)
  then have n: "nat (sp_max_resume sp) = Suc n" "sp_max_resume sp = 1 + int n" by simp_all
  obtain e' where again: "rows (sw_store (settle_again api eng sp key n ?w)) key = Some (?r\<lparr>wr_attempts := 1 + int n\<rparr>, e', False)"
    "sw_calls (settle_again api eng sp key n ?w) = replicate n (Resumed run) @ sw_calls w"
    using window_ledger.settle_again_resumes [OF l assms(2-4) row, of n] n(2) by auto
  obtain e2 where last: "rows (sw_store (settle_again api eng sp key (Suc n) ?w)) key = Some (?r\<lparr>wr_attempts := 1 + int n, wr_run := []\<rparr>, e2, False)"
    "sw_calls (settle_again api eng sp key (Suc n) ?w) = Abandoned run # replicate n (Resumed run) @ sw_calls w"
    using window_ledger.settle_hopeless [OF l assms(2-4) again(1)] n(2) again(2) by auto
  have "get_run api (sw_store (settle_again api eng sp key (Suc n) ?w)) key = Inr ([], 1 + int n)"
    using last(1) by (simp add: get_run_def window_ledger.ledger_row_eq [OF l] bindE_def)
  then show ?thesis using last(2) n by simp
qed

fun sweep_again ::
  "('s, window_row) row_api \<Rightarrow> ('e \<Rightarrow> user_row \<Rightarrow> 'e \<times> (start_error + unit)) \<Rightarrow> (string \<Rightarrow> moment \<Rightarrow> moment option) \<Rightarrow> cron
     \<Rightarrow> user_file \<Rightarrow> moment \<Rightarrow> user_row \<Rightarrow> nat \<Rightarrow> ('s, 'e) sweep \<times> failures \<Rightarrow> ('s, 'e) sweep \<times> failures" where
  "sweep_again api start wall cron uf now_utc r 0 p = p"
| "sweep_again api start wall cron uf now_utc r (Suc n) p =
     (case sweep_again api start wall cron uf now_utc r n p of (w, fails) \<Rightarrow>
        (case sweep_row api start wall cron uf now_utc w fails r of (w', fails', _) \<Rightarrow> (w', fails')))"

text \<open>A row that is due, offered, readable and old enough, and whose start raises.\<close>

definition doomed ::
  "('e \<Rightarrow> user_row \<Rightarrow> 'e \<times> (start_error + unit)) \<Rightarrow> (string \<Rightarrow> moment \<Rightarrow> moment option) \<Rightarrow> cron \<Rightarrow> user_file \<Rightarrow> moment \<Rightarrow> user_row
     \<Rightarrow> string \<Rightarrow> bool" where
  "doomed start wall cron uf now_utc r seen \<longleftrightarrow>
     (\<forall>e. \<exists>m. snd (start e r) = Inl (StartRaised m))
     \<and> (case uf_offered uf of None \<Rightarrow> True | Some ids \<Rightarrow> ur_run r \<in> set ids) \<and> uf_unparsable uf (ur_run r) = Inr False
     \<and> is_due cron (as_schedule r) (in_zone wall now_utc (ur_tz r)) seen = Inr True
     \<and> (seen = [] \<longrightarrow> born_after_target wall cron r now_utc (uf_landed uf) = Inr [])"

lemma kept_failures: "dict_get (drop_older key win fails) (key, win) = dict_get fails (key, win)"
  unfolding drop_older_def by (induction fails) (auto split: if_splits)

lemma start_failed_eq:
  assumes "tries = (case dict_get fails (key, win) of Some n \<Rightarrow> n | None \<Rightarrow> 0) + 1"
  shows "tries < 3 \<Longrightarrow> release_window api (sw_store w) key win back = Inr s \<Longrightarrow>
      start_failed api w fails key win back = (w\<lparr>sw_store := s\<rparr>, dict_set (key, win) tries (drop_older key win fails), Inr 0)"
    and "\<not> tries < 3 \<Longrightarrow>
      start_failed api w fails key win back = (w, dict_set (key, win) tries (drop_older key win fails), Inr 0)"
  by (simp_all only: start_failed_def Let_def kept_failures assms [symmetric] MAX_START_ATTEMPTS_def write_store_def
      if_True if_False sum.case prod.case)

lemma not_due_again: "is_due cron s now seen = Inr True \<Longrightarrow> is_due cron s now (fire_window cron s now) = Inr False"
  by (cases "period_target cron s now") (auto simp: is_due_def bindE_def)

context window_ledger
begin

lemma doomed_sweep:
  fixes start :: "'e \<Rightarrow> user_row \<Rightarrow> 'e \<times> (start_error + unit)"
  assumes "doomed start wall cron uf now_utc r seen" "live_row (sw_store w) (uf_key uf r)"
    and "last_window api (sw_store w) (uf_key uf r) = Inr seen" "dict_get fails (uf_key uf r, win) = c"
    and win: "win = fire_window cron (as_schedule r) (in_zone wall now_utc (ur_tz r))"
    and step: "sweep_row api start wall cron uf now_utc w fails r = (w', fails', res)"
  defines "tries \<equiv> (case c of Some n \<Rightarrow> n | None \<Rightarrow> 0) + 1"
  shows "sw_calls w' = Asked (uf_key uf r) win # sw_calls w \<and> live_row (sw_store w') (uf_key uf r)
    \<and> last_window api (sw_store w') (uf_key uf r) = Inr (if tries < 3 then seen else win)
    \<and> dict_get fails' (uf_key uf r, win) = Some tries"
proof -
  let ?k = "uf_key uf r" and ?s = "as_schedule r" and ?now = "in_zone wall now_utc (ur_tz r)"
  note d = assms(1) [unfolded doomed_def]
  have due: "is_due cron ?s ?now seen = Inr True" using d by blast
  then have "seen \<noteq> win" by (auto simp: win is_due_def bindE_eq_Inr)
  then obtain s' e where s': "try_claim api (sw_store w) ?k win = Inr (s', True)"
    "rows s' = (rows (sw_store w))(?k \<mapsto> (fresh_row ?k win, e, False))"
    using try_claim_wins [OF assms(2,3)] by blast
  obtain e1 m where start: "start (sw_engine w) r = (e1, Inl (StartRaised m))" using d by (metis prod.collapse)
  let ?w2 = "w\<lparr>sw_store := s', sw_engine := e1, sw_calls := Asked ?k win # sw_calls w\<rparr>"
  have "sweep_row api start wall cron uf now_utc w fails r = start_failed api ?w2 fails ?k win seen"
    using d due s'(1) start assms(3) fire_window_some [of cron ?s ?now]
    by (cases "seen = []") (simp_all add: sweep_row_def Let_def claim_store_def win [symmetric] split: option.splits)
  then have eq: "start_failed api ?w2 fails ?k win seen = (w', fails', res)" using step by simp
  obtain s2 e2 where s2: "release_window api s' ?k win seen = Inr s2"
    "rows s2 = (rows s')(?k \<mapsto> ((fresh_row ?k win)\<lparr>wr_last := seen, wr_run := [], wr_attempts := 0\<rparr>, e2, False))"
    using released_row [of s' ?k "fresh_row ?k win" e win seen] s'(2) by (auto simp: fresh_row_def)
  note c1 = claimed_row [OF s'(2)] and c2 = claimed_row [OF s2(2)]
  show ?thesis
  proof (cases "tries < 3")
    case True
    then have "start_failed api ?w2 fails ?k win seen = (?w2\<lparr>sw_store := s2\<rparr>, dict_set (?k, win) tries (drop_older ?k win fails), Inr 0)"
      using s2(1) by (intro start_failed_eq(1)) (simp_all add: tries_def assms(4))
    then have "w' = ?w2\<lparr>sw_store := s2\<rparr>" "dict_get fails' (?k, win) = Some tries" using eq by auto
    then show ?thesis using True c2 by simp
  next
    case False
    then have "start_failed api ?w2 fails ?k win seen = (?w2, dict_set (?k, win) tries (drop_older ?k win fails), Inr 0)"
      by (intro start_failed_eq(2)) (simp_all add: tries_def assms(4))
    then have "w' = ?w2" "dict_get fails' (?k, win) = Some tries" using eq by auto
    then show ?thesis using False c1 by (simp add: fresh_row_def)
  qed
qed

end

text \<open>
  a due row whose run cannot be started is asked for three times on a pod, however often the
  sweep passes in its window; until then the window is given back, and after that it is spent.
\<close>

theorem three_tries_per_window:
  fixes api :: "('s, window_row) row_api"
  assumes "row_store api rows" "\<And>x e d. rows (sw_store w) (uf_key uf r) = Some (x, e, d) \<Longrightarrow> \<not> d"
    and "last_window api (sw_store w) (uf_key uf r) = Inr seen" "doomed start wall cron uf now_utc r seen"
    and "win = fire_window cron (as_schedule r) (in_zone wall now_utc (ur_tz r))" "dict_get fails (uf_key uf r, win) = None"
  shows "sw_calls (fst (sweep_again api start wall cron uf now_utc r n (w, fails))) = replicate (min n 3) (Asked (uf_key uf r) win) @ sw_calls w
    \<and> last_window api (sw_store (fst (sweep_again api start wall cron uf now_utc r n (w, fails)))) (uf_key uf r) = Inr (if n < 3 then seen else win)"
proof -
  note l = window_ledger.intro [OF assms(1)]
  have live: "window_ledger.live_row rows (sw_store w) (uf_key uf r)"
    using assms(2) by (auto simp: window_ledger.live_row_def [OF l])
  let ?p = "\<lambda>n. sweep_again api start wall cron uf now_utc r n (w, fails)"
  have "sw_calls (fst (?p n)) = replicate (min n 3) (Asked (uf_key uf r) win) @ sw_calls w
    \<and> window_ledger.live_row rows (sw_store (fst (?p n))) (uf_key uf r)
    \<and> last_window api (sw_store (fst (?p n))) (uf_key uf r) = Inr (if n < 3 then seen else win)
    \<and> (n < 3 \<longrightarrow> dict_get (snd (?p n)) (uf_key uf r, win) = (if n = 0 then None else Some n))"
  proof (induction n)
    case 0
    then show ?case using assms(3,6) live by simp
  next
    case (Suc n)
    obtain w1 f1 where p: "?p n = (w1, f1)" by fastforce
    obtain w2 f2 res where st: "sweep_row api start wall cron uf now_utc w1 f1 r = (w2, f2, res)" by (metis prod_cases3)
    show ?case
    proof (cases "n < 3")
      case True
      from window_ledger.doomed_sweep [OF l assms(4) _ _ refl assms(5) st] Suc True
      have "sw_calls w2 = Asked (uf_key uf r) win # sw_calls w1 \<and> window_ledger.live_row rows (sw_store w2) (uf_key uf r)
        \<and> last_window api (sw_store w2) (uf_key uf r) = Inr (if Suc n < 3 then seen else win)
        \<and> dict_get f2 (uf_key uf r, win) = Some (Suc n)"
        by (simp add: p)
      then show ?thesis using Suc True by (simp add: p st min_def)
    next
      case False
      have "is_due cron (as_schedule r) (in_zone wall now_utc (ur_tz r)) win = Inr False"
        using assms(4,5) not_due_again unfolding doomed_def by metis
      then have "w2 = w1" using st Suc False by (auto simp: sweep_row_def Let_def p split: option.splits if_splits)
      then show ?thesis using Suc False by (simp add: p st min_def)
    qed
  qed
  then show ?thesis by blast
qed

section \<open>Concrete sweeps\<close>

abbreviation empty_sweep :: "(window_row mem, unit) sweep" where
  "empty_sweep \<equiv> \<lparr>sw_store = [], sw_engine = (), sw_calls = []\<rparr>"

theorem three_tries_per_window_witness:
  "sw_calls (fst (sweep_again mem_store (\<lambda>e r. (e, Inl (StartRaised ''no owner''))) (\<lambda>_ t. Some t) every_minute report_file tuesday
      daily_report 5 (empty_sweep, [])))
   = replicate 3 (Asked ''k'' (fire_window every_minute (as_schedule daily_report) tuesday))"
proof -
  have zone: "in_zone (\<lambda>_ t. Some t) tuesday (ur_tz daily_report) = tuesday" by (simp add: in_zone_def)
  have key: "uf_key report_file daily_report = ''k''" by (simp add: report_file_def)
  have doomed: "doomed (\<lambda>e r. (e, Inl (StartRaised ''no owner''))) (\<lambda>_ t. Some t) every_minute report_file tuesday daily_report []"
    using daily_report_due zone report_row
    by (simp add: doomed_def born_after_target_def) (simp add: report_file_def)
  have seen: "last_window mem_store (sw_store empty_sweep) (uf_key report_file daily_report) = Inr []" by code_simp
  from three_tries_per_window [OF mem.row_store_axioms _ seen doomed refl, where fails = "[]" and n = 5]
  show ?thesis using zone by (simp add: key)
qed

text \<open>A trigger whose last run is stuck with its resumes spent, and an engine that starts what it is asked.\<close>

definition stuck_engine :: "unit engine" where
  "stuck_engine = \<lparr>en_status = (\<lambda>_ _. Some RunRunning), en_stuck = (\<lambda>_ _. True), en_resume = (\<lambda>e _. (e, Inr True)),
     en_abandon = (\<lambda>e _. (e, Inr ())), en_start = (\<lambda>e _. (e, Inr ''run2''))\<rparr>"

definition nightly :: trigger where
  "nightly = \<lparr>tg_id = ''nightly'', tg_workflow = ''wf'', tg_user = ''u'', tg_item = ''i'', tg_schedule = as_schedule daily_report,
     tg_enabled = True, tg_slug = [], tg_profile = []\<rparr>"

definition stuck_sweep :: "(window_row mem, unit) sweep" where
  "stuck_sweep = \<lparr>sw_store = [(''nightly'', \<lparr>wr_trigger = ''nightly'', wr_last = ''W'', wr_run = ''run1'', wr_attempts = 2\<rparr>, 0, False)],
     sw_engine = (), sw_calls = []\<rparr>"

theorem tick_pays_debt_first_witness:
  "\<exists>new. sw_calls (fst (tick_one mem_store stuck_engine every_minute \<lparr>sp_watch = True, sp_max_resume = MAX_RESUME_ATTEMPTS\<rparr>
       (\<lambda>_. tuesday) stuck_sweep nightly)) = new
     \<and> length (filter (\<lambda>c. \<exists>k v. c = Asked k v) new) \<le> 1"
proof -
  let ?sp = "\<lparr>sp_watch = True, sp_max_resume = MAX_RESUME_ATTEMPTS\<rparr>"
  obtain w' res where t: "tick_one mem_store stuck_engine every_minute ?sp (\<lambda>_. tuesday) stuck_sweep nightly = (w', res)" by fastforce
  have slot: "get_run mem_store (sw_store stuck_sweep) (trigger_key nightly) = Inr (''run1'', 2)" by code_simp
  moreover have "sw_calls stuck_sweep = []" by (simp add: stuck_sweep_def)
  ultimately show ?thesis
    using tick_pays_debt_first [OF _ slot t] by (auto simp: t)
qed

theorem orphan_budget_witness:
  "\<exists>s. record_run mem_store (sw_store stuck_sweep) ''nightly'' ''run1'' = Inr s
     \<and> sw_calls (settle_again mem_store stuck_engine \<lparr>sp_watch = True, sp_max_resume = MAX_RESUME_ATTEMPTS\<rparr> ''nightly'' 2
           (stuck_sweep\<lparr>sw_store := s\<rparr>))
       = [Abandoned ''run1'', Resumed ''run1'']"
proof -
  let ?sp = "\<lparr>sp_watch = True, sp_max_resume = MAX_RESUME_ATTEMPTS\<rparr>"
  obtain s where s: "record_run mem_store (sw_store stuck_sweep) ''nightly'' ''run1'' = Inr s"
    by (simp add: record_run_def write_fields_def write_back_def lift_store_def ledger_row_def stuck_sweep_def mem_store_defs bindE_def)
  have "hopeless stuck_engine ''run1''" by (simp add: hopeless_def stuck_engine_def)
  moreover have "dict_get (sw_store stuck_sweep) ''nightly''
      = Some (\<lparr>wr_trigger = ''nightly'', wr_last = ''W'', wr_run = ''run1'', wr_attempts = 2\<rparr>, 0, False)" by code_simp
  ultimately show ?thesis
    using orphan_budget [OF mem.row_store_axioms, of ?sp stuck_engine "''run1''" stuck_sweep "''nightly''"] s
    by (simp add: MAX_RESUME_ATTEMPTS_def stuck_sweep_def)
qed

end
