(* ===== verification/ScheduleIndex.thy ===== *)
theory ScheduleIndex
  imports RowStore DslTemplate
begin

text \<open>
  Which items have schedule files: the index of \<open>api/schedule_index.py\<close>, with the ignore list of
  \<open>sync/ignore.py\<close> it shares, and what \<open>UserScheduleSweeper\<close> makes of a file it cannot read
  (\<open>_still_there\<close>, the head of \<open>_one_file\<close>).  At the end of a turn \<open>api/schedule_reconcile.py\<close> records
  what the item holds.

  Every write of the index compares the row's etag.  Pods interleave between their read and their
  write; a write logs what it did.
\<close>

section \<open>Schedule files\<close>

definition SCHEDULES_FILE :: string where
  "SCHEDULES_FILE = ''schedules.json''"

definition DEFAULT_IGNORES :: "string list" where
  "DEFAULT_IGNORES = [''.venv/'', ''node_modules/'', ''__pycache__/'', ''.git/'', ''.pytest_cache/'', ''.ruff_cache/'', ''*.pyc'', ''*.pyo'']"

definition ends_with :: "string \<Rightarrow> string \<Rightarrow> bool" where
  "ends_with suffix s \<longleftrightarrow> length suffix \<le> length s \<and> drop (length s - length suffix) s = suffix"

definition ignored_by :: "string \<Rightarrow> string \<Rightarrow> bool" where
  "ignored_by path pat =
     (let segments = filter (\<lambda>s. s \<noteq> []) (split_on (CHR ''/'') path) in
      if ends_with ''/'' pat then butlast pat \<in> set segments
      else if starts_with ''*.'' pat then ends_with (tl pat) path
      else pat \<in> set segments)"

definition should_ignore :: "string \<Rightarrow> string list \<Rightarrow> bool" where
  "should_ignore path patterns = list_ex (ignored_by path) patterns"

definition stripped :: "string \<Rightarrow> string" where
  "stripped s = rev (dropWhile (\<lambda>c. c = CHR ''/'') (rev (dropWhile (\<lambda>c. c = CHR ''/'') s)))"

definition is_schedule_file :: "string \<Rightarrow> bool" where
  "is_schedule_file path =
     (let parts = split_on (CHR ''/'') (stripped path)
      in 1 < length parts \<and> last parts = SCHEDULES_FILE \<and> \<not> should_ignore path DEFAULT_IGNORES)"

section \<open>The index\<close>

record index_row =
  si_paths :: "string list"
  si_landed :: "(string, int) dict"

definition MAX_CAS_RETRIES :: nat where
  "MAX_CAS_RETRIES = 100"

datatype index_error = IndexStore rm_error | IndexExhausted

definition index_read :: "('s, index_row) row_api \<Rightarrow> 's \<Rightarrow> string \<Rightarrow> index_error + (index_row \<times> nat) option" where
  "index_read api s item =
     (case rm_get api s False item of
        Inl NotFound \<Rightarrow> Inr None
      | Inl IsDeleted \<Rightarrow> Inr None
      | Inl e \<Rightarrow> Inl (IndexStore e)
      | Inr re \<Rightarrow> Inr (Some re))"

definition restore_if_deleted :: "('s, index_row) row_api \<Rightarrow> 's \<Rightarrow> string \<Rightarrow> index_error + 's" where
  "restore_if_deleted api s item =
     (case rm_get api s False item of
        Inl IsDeleted \<Rightarrow> (case rm_restore api s item of Inr s' \<Rightarrow> Inr s' | Inl e \<Rightarrow> Inl (IndexStore e))
      | Inl NotFound \<Rightarrow> Inr s
      | Inl e \<Rightarrow> Inl (IndexStore e)
      | Inr _ \<Rightarrow> Inr s)"

definition first_row :: "string \<Rightarrow> index_row" where
  "first_row path = \<lparr>si_paths = [path], si_landed = []\<rparr>"

text \<open>The row each operation writes over the row it read.\<close>

definition with_path :: "string \<Rightarrow> index_row \<Rightarrow> index_row" where
  "with_path path row = row\<lparr>si_paths := sort (remdups (path # si_paths row))\<rparr>"

definition without_path :: "string \<Rightarrow> index_row \<Rightarrow> index_row" where
  "without_path path row =
     \<lparr>si_paths = filter (\<lambda>p. p \<noteq> path) (si_paths row), si_landed = filter (\<lambda>(p, t). p \<noteq> path) (si_landed row)\<rparr>"

definition with_stamp :: "string \<Rightarrow> int \<Rightarrow> index_row \<Rightarrow> index_row" where
  "with_stamp path at_ms row = row\<lparr>si_landed := dict_set path at_ms (si_landed row)\<rparr>"

text \<open>A compare-and-swap of the row read: done, or someone was faster.\<close>

definition index_swap :: "('s, index_row) row_api \<Rightarrow> 's \<Rightarrow> string \<Rightarrow> index_row \<Rightarrow> nat \<Rightarrow> index_error + 's option" where
  "index_swap api s item row etag =
     (case rm_modify api s item row (Some etag) of
        Inr (s', _) \<Rightarrow> Inr (Some s')
      | Inl PreconditionFailed \<Rightarrow> Inr None
      | Inl e \<Rightarrow> Inl (IndexStore e))"

fun record_loop :: "('s, index_row) row_api \<Rightarrow> nat \<Rightarrow> 's \<Rightarrow> string \<Rightarrow> string \<Rightarrow> index_error + 's \<times> bool" where
  "record_loop api 0 s item path = Inl IndexExhausted"
| "record_loop api (Suc n) s item path =
     bindE (index_read api s item) (\<lambda>res.
       case res of
         None \<Rightarrow>
           bindE (restore_if_deleted api s item) (\<lambda>s1.
             case rm_create api s1 item (first_row path) of
               Inr s2 \<Rightarrow> Inr (s2, True)
             | Inl Duplicate \<Rightarrow> record_loop api n s1 item path
             | Inl e \<Rightarrow> Inl (IndexStore e))
       | Some (row, etag) \<Rightarrow>
           if path \<in> set (si_paths row) then Inr (s, False)
           else bindE (index_swap api s item (with_path path row) etag) (\<lambda>got.
             case got of Some s' \<Rightarrow> Inr (s', True) | None \<Rightarrow> record_loop api n s item path))"

definition record_path :: "('s, index_row) row_api \<Rightarrow> 's \<Rightarrow> string \<Rightarrow> string \<Rightarrow> index_error + 's \<times> bool" where
  "record_path api s item path =
     (case rm_create api s item (first_row path) of
        Inr s' \<Rightarrow> Inr (s', True)
      | Inl Duplicate \<Rightarrow> record_loop api MAX_CAS_RETRIES s item path
      | Inl e \<Rightarrow> Inl (IndexStore e))"

text \<open>\<open>stamp\<close> and \<open>forget\<close>: read, leave it when there is nothing to do, compare and swap.\<close>

fun edit_loop ::
  "('s, index_row) row_api \<Rightarrow> nat \<Rightarrow> (index_row \<Rightarrow> bool) \<Rightarrow> (index_row \<Rightarrow> index_row) \<Rightarrow> 's \<Rightarrow> string \<Rightarrow> index_error + 's" where
  "edit_loop api 0 idle change s item = Inl IndexExhausted"
| "edit_loop api (Suc n) idle change s item =
     bindE (index_read api s item) (\<lambda>res.
       case res of
         None \<Rightarrow> Inr s
       | Some (row, etag) \<Rightarrow>
           if idle row then Inr s
           else bindE (index_swap api s item (change row) etag) (\<lambda>got.
             case got of Some s' \<Rightarrow> Inr s' | None \<Rightarrow> edit_loop api n idle change s item))"

definition stamp_path :: "('s, index_row) row_api \<Rightarrow> 's \<Rightarrow> string \<Rightarrow> string \<Rightarrow> int \<Rightarrow> index_error + 's" where
  "stamp_path api s item path at_ms =
     edit_loop api MAX_CAS_RETRIES (\<lambda>row. dict_get (si_landed row) path = Some at_ms) (with_stamp path at_ms) s item"

definition forget_path :: "('s, index_row) row_api \<Rightarrow> 's \<Rightarrow> string \<Rightarrow> string \<Rightarrow> index_error + 's" where
  "forget_path api s item path =
     edit_loop api MAX_CAS_RETRIES (\<lambda>row. path \<notin> set (si_paths row)) (without_path path) s item"

definition landed_at :: "('s, index_row) row_api \<Rightarrow> 's \<Rightarrow> string \<Rightarrow> string \<Rightarrow> index_error + int option" where
  "landed_at api s item path =
     bindE (index_read api s item) (\<lambda>res. Inr (case res of None \<Rightarrow> None | Some (row, _) \<Rightarrow> dict_get (si_landed row) path))"

definition indexed_paths :: "('s, index_row) row_api \<Rightarrow> 's \<Rightarrow> string \<Rightarrow> index_error + string list" where
  "indexed_paths api s item =
     bindE (index_read api s item) (\<lambda>res. Inr (case res of None \<Rightarrow> [] | Some (row, _) \<Rightarrow> si_paths row))"

definition items_with_paths :: "('s, index_row) row_api \<Rightarrow> 's \<Rightarrow> (string \<times> string list) list" where
  "items_with_paths api s =
     sort_key fst (map (\<lambda>(i, r, e, d). (i, si_paths r)) (filter (\<lambda>(i, r, e, d). \<not> d \<and> si_paths r \<noteq> []) (rm_list api s)))"

text \<open>The hook on every write of a file.\<close>

definition note_schedule_file :: "('s, index_row) row_api \<Rightarrow> 's \<Rightarrow> string \<Rightarrow> string \<Rightarrow> int \<Rightarrow> index_error + 's" where
  "note_schedule_file api s item path now_ms =
     (if is_schedule_file path
      then bindE (record_path api s item path) (\<lambda>(s', _). stamp_path api s' item path now_ms)
      else Inr s)"

text \<open>The backstop at the end of a turn, \<open>api/schedule_reconcile.py\<close>: what the item holds is recorded.\<close>

fun record_each :: "('s, index_row) row_api \<Rightarrow> 's \<Rightarrow> string \<Rightarrow> string list \<Rightarrow> 's" where
  "record_each api s item [] = s"
| "record_each api s item (p # ps) =
     record_each api (case record_path api s item p of Inr (s', _) \<Rightarrow> s' | Inl _ \<Rightarrow> s) item ps"

definition reconcile :: "('s, index_row) row_api \<Rightarrow> 's \<Rightarrow> string \<Rightarrow> string list option \<Rightarrow> 's" where
  "reconcile api s item listing =
     (case listing of
        None \<Rightarrow> s
      | Some paths \<Rightarrow>
          (let declared = filter is_schedule_file paths
           in if declared = [] then s
              else (case indexed_paths api s item of
                      Inl _ \<Rightarrow> s
                    | Inr known \<Rightarrow> record_each api s item (filter (\<lambda>p. p \<notin> set known) declared))))"

section \<open>A file the sweep cannot read\<close>

text \<open>What a read came to: the bytes, that there is no such file, or no answer.\<close>

datatype fetched = Fetched string | Missing | Failed

datatype still = Here string | ReallyGone | Unknown

definition still_there :: "fetched option \<Rightarrow> still" where
  "still_there live =
     (case live of
        None \<Rightarrow> ReallyGone
      | Some (Fetched b) \<Rightarrow> Here b
      | Some Missing \<Rightarrow> ReallyGone
      | Some Failed \<Rightarrow> Unknown)"

datatype fate = Forget | LeaveIndexed | SweepRows string

definition file_fate :: "fetched \<Rightarrow> fetched option \<Rightarrow> fate" where
  "file_fate snapshot live =
     (case snapshot of
        Fetched b \<Rightarrow> SweepRows b
      | Failed \<Rightarrow> LeaveIndexed
      | Missing \<Rightarrow>
          (case still_there live of Unknown \<Rightarrow> LeaveIndexed | ReallyGone \<Rightarrow> Forget | Here b \<Rightarrow> SweepRows b))"

section \<open>Many pods\<close>

datatype index_event = Added string string | Dropped string string | Stamped string string

record 's index_world =
  iw_store :: 's
  iw_reads :: "nat \<Rightarrow> (index_event \<times> string \<times> index_row \<times> nat) option"
  iw_log :: "index_event list"

text \<open>The row an event writes over the row read, for the item it is about.\<close>

fun event_item :: "index_event \<Rightarrow> string" where
  "event_item (Added item path) = item"
| "event_item (Dropped item path) = item"
| "event_item (Stamped item path) = item"

inductive index_step :: "('s, index_row) row_api \<Rightarrow> 's index_world \<Rightarrow> 's index_world \<Rightarrow> bool" for api where
  creates: "rm_create api (iw_store w) item (first_row path) = Inr s' \<Longrightarrow>
     index_step api w (w\<lparr>iw_store := s', iw_log := Added item path # iw_log w\<rparr>)"
| read_record: "index_read api (iw_store w) item = Inr (Some (row, etag)) \<Longrightarrow> path \<notin> set (si_paths row) \<Longrightarrow>
     index_step api w (w\<lparr>iw_reads := (iw_reads w)(p \<mapsto> (Added item path, item, with_path path row, etag))\<rparr>)"
| read_forget: "index_read api (iw_store w) item = Inr (Some (row, etag)) \<Longrightarrow> path \<in> set (si_paths row) \<Longrightarrow>
     index_step api w (w\<lparr>iw_reads := (iw_reads w)(p \<mapsto> (Dropped item path, item, without_path path row, etag))\<rparr>)"
| read_stamp: "index_read api (iw_store w) item = Inr (Some (row, etag)) \<Longrightarrow>
     index_step api w (w\<lparr>iw_reads := (iw_reads w)(p \<mapsto> (Stamped item path, item, with_stamp path t row, etag))\<rparr>)"
| swaps: "iw_reads w p = Some (ev, item, row, etag) \<Longrightarrow> index_swap api (iw_store w) item row etag = Inr (Some s') \<Longrightarrow>
     index_step api w (w\<lparr>iw_store := s', iw_reads := (iw_reads w)(p := None), iw_log := ev # iw_log w\<rparr>)"

inductive index_reached :: "('s, index_row) row_api \<Rightarrow> 's \<Rightarrow> 's index_world \<Rightarrow> bool" for api s0 where
  start: "index_reached api s0 \<lparr>iw_store = s0, iw_reads = (\<lambda>_. None), iw_log = []\<rparr>"
| step: "index_reached api s0 w \<Longrightarrow> index_step api w w' \<Longrightarrow> index_reached api s0 w'"

text \<open>What the log says of a path: the newest of its records and forgets.\<close>

fun logged :: "string \<Rightarrow> string \<Rightarrow> index_event list \<Rightarrow> bool" where
  "logged item path [] = False"
| "logged item path (Added i p # es) = (if i = item \<and> p = path then True else logged item path es)"
| "logged item path (Dropped i p # es) = (if i = item \<and> p = path then False else logged item path es)"
| "logged item path (Stamped i p # es) = logged item path es"

section \<open>The index is what its writes say\<close>

fun apply_event :: "index_event \<Rightarrow> string set \<Rightarrow> string set" where
  "apply_event (Added item path) ps = insert path ps"
| "apply_event (Dropped item path) ps = ps - {path}"
| "apply_event (Stamped item path) ps = ps"

lemma logged_event: "{p. logged item p (ev # es)} = (if event_item ev = item then apply_event ev {p. logged item p es} else {p. logged item p es})"
  by (cases ev) auto

lemma paths_change [simp]:
  "set (si_paths (with_path path row)) = insert path (set (si_paths row))"
  "set (si_paths (without_path path row)) = set (si_paths row) - {path}"
  "set (si_paths (with_stamp path t row)) = set (si_paths row)"
  by (auto simp: with_path_def without_path_def with_stamp_def set_insort_key)

lemma max_cas: "MAX_CAS_RETRIES = Suc 99"
  by (simp add: MAX_CAS_RETRIES_def)

locale schedule_index = row_store api rows
  for api :: "('s, index_row) row_api" and rows
begin

definition paths_of :: "'s \<Rightarrow> string \<Rightarrow> string set" where
  "paths_of s item = (case rows s item of Some (r, e, d) \<Rightarrow> set (si_paths r) | None \<Rightarrow> {})"

lemma index_read_some: "index_read api s item = Inr (Some (row, etag)) \<longleftrightarrow> rows s item = Some (row, etag, False)"
  by (auto simp: index_read_def get_law split: option.splits prod.splits if_splits)

lemma index_swap_some:
  assumes "index_swap api s item row etag = Inr (Some s')"
  obtains r e' where "rows s item = Some (r, etag, False)" "etag < e'" "rows s' = (rows s)(item \<mapsto> (row, e', False))"
proof -
  obtain e' where m: "rm_modify api s item row (Some etag) = Inr (s', e')"
    using assms by (auto simp: index_swap_def split: sum.splits rm_error.splits)
  show ?thesis using modify_Inr(1) [OF m] modify_Inr(2) [OF m] that by auto
qed

definition index_ok :: "'s index_world \<Rightarrow> bool" where
  "index_ok w \<longleftrightarrow>
     (\<forall>item. paths_of (iw_store w) item = {p. logged item p (iw_log w)})
     \<and> (\<forall>p ev item row etag. iw_reads w p = Some (ev, item, row, etag) \<longrightarrow>
          event_item ev = item \<and> (\<exists>r e d. rows (iw_store w) item = Some (r, e, d) \<and> etag \<le> e
            \<and> (etag = e \<longrightarrow> set (si_paths row) = apply_event ev (set (si_paths r)))))"

lemma index_okD:
  assumes "index_ok w"
  shows "paths_of (iw_store w) item = {p. logged item p (iw_log w)}"
    and "iw_reads w p = Some (ev, item, row, etag) \<Longrightarrow> event_item ev = item
      \<and> (\<exists>r e d. rows (iw_store w) item = Some (r, e, d) \<and> etag \<le> e \<and> (etag = e \<longrightarrow> set (si_paths row) = apply_event ev (set (si_paths r))))"
  using assms unfolding index_ok_def by blast+

text \<open>A write of \<open>item\<close>, at a newer etag, that applies its event.\<close>

lemma index_ok_write:
  assumes ok: "index_ok w" and ev: "event_item ev = item"
    and s': "rows s' = (rows (iw_store w))(item \<mapsto> (row, e', False))"
    and set: "set (si_paths row) = apply_event ev (paths_of (iw_store w) item)"
    and newer: "\<And>r e d. rows (iw_store w) item = Some (r, e, d) \<Longrightarrow> e < e'"
    and sub: "\<And>p. rs p = iw_reads w p \<or> rs p = None"
  shows "index_ok (w\<lparr>iw_store := s', iw_reads := rs, iw_log := ev # iw_log w\<rparr>)"
proof -
  have paths: "paths_of s' j = {p. logged j p (ev # iw_log w)}" for j
    using index_okD(1) [OF ok, of j] set ev unfolding logged_event by (simp add: paths_of_def s')
  have reads: "event_item x = j \<and> (\<exists>r e d. rows s' j = Some (r, e, d) \<and> etag \<le> e \<and> (etag = e \<longrightarrow> set (si_paths y) = apply_event x (set (si_paths r))))"
    if "rs p = Some (x, j, y, etag)" for p x j y etag
  proof -
    have "iw_reads w p = Some (x, j, y, etag)" using that sub [of p] by auto
    from index_okD(2) [OF ok this] show ?thesis using newer by (cases "j = item") (fastforce simp: s')+
  qed
  show ?thesis unfolding index_ok_def using paths reads by simp
qed

text \<open>A read of a row: the change it is about to write.\<close>

lemma index_ok_read:
  assumes ok: "index_ok w" and row: "rows (iw_store w) item = Some (r, etag, False)" and ev: "event_item ev = item"
    and set: "set (si_paths row) = apply_event ev (set (si_paths r))"
  shows "index_ok (w\<lparr>iw_reads := (iw_reads w)(p \<mapsto> (ev, item, row, etag))\<rparr>)"
  unfolding index_ok_def
proof (intro conjI allI impI)
  fix j show "paths_of (iw_store (w\<lparr>iw_reads := (iw_reads w)(p \<mapsto> (ev, item, row, etag))\<rparr>)) j
    = {q. logged j q (iw_log (w\<lparr>iw_reads := (iw_reads w)(p \<mapsto> (ev, item, row, etag))\<rparr>))}"
    using index_okD(1) [OF ok] by simp
next
  fix q x j y t
  assume q: "iw_reads (w\<lparr>iw_reads := (iw_reads w)(p \<mapsto> (ev, item, row, etag))\<rparr>) q = Some (x, j, y, t)"
  have "event_item x = j \<and> (\<exists>r e d. rows (iw_store w) j = Some (r, e, d) \<and> t \<le> e \<and> (t = e \<longrightarrow> set (si_paths y) = apply_event x (set (si_paths r))))"
  proof (cases "q = p")
    case True
    then show ?thesis using q row ev set by auto
  next
    case False
    then show ?thesis using q index_okD(2) [OF ok, of q x j y t] by simp
  qed
  then show "event_item x = j"
    "\<exists>r e d. rows (iw_store (w\<lparr>iw_reads := (iw_reads w)(p \<mapsto> (ev, item, row, etag))\<rparr>)) j = Some (r, e, d) \<and> t \<le> e
      \<and> (t = e \<longrightarrow> set (si_paths y) = apply_event x (set (si_paths r)))" by simp_all
qed

lemma index_ok_step:
  assumes "index_step api w w'" and ok: "index_ok w"
  shows "index_ok w'"
  using assms(1)
proof (cases rule: index_step.cases)
  case (creates item path s')
  have none: "rows (iw_store w) item = None"
    using creates(2) create_present [of "iw_store w" item "first_row path"] by (cases "rows (iw_store w) item") auto
  then obtain e where s': "rows s' = (rows (iw_store w))(item \<mapsto> (first_row path, e, False))"
    using create_absent [OF none, of "first_row path"] creates(2) by auto
  have "index_ok (w\<lparr>iw_store := s', iw_reads := iw_reads w, iw_log := Added item path # iw_log w\<rparr>)"
    by (rule index_ok_write [OF ok _ s']) (simp_all add: none paths_of_def first_row_def)
  then show ?thesis by (simp add: creates(1))
next
  case (read_record item row etag path p)
  then show ?thesis by (auto simp: index_read_some intro!: index_ok_read [OF ok])
next
  case (read_forget item row etag path p)
  then show ?thesis by (auto simp: index_read_some intro!: index_ok_read [OF ok])
next
  case (read_stamp item row etag p path t)
  then show ?thesis by (auto simp: index_read_some intro!: index_ok_read [OF ok])
next
  case (swaps p ev item row etag s')
  obtain r e' where r: "rows (iw_store w) item = Some (r, etag, False)" "etag < e'" "rows s' = (rows (iw_store w))(item \<mapsto> (row, e', False))"
    using index_swap_some [OF swaps(3)] .
  have ev: "event_item ev = item" "set (si_paths row) = apply_event ev (paths_of (iw_store w) item)"
    using index_okD(2) [OF ok swaps(2)] r(1) by (auto simp: paths_of_def)
  have "index_ok (w\<lparr>iw_store := s', iw_reads := (iw_reads w)(p := None), iw_log := ev # iw_log w\<rparr>)"
    by (rule index_ok_write [OF ok ev(1) r(3) ev(2)]) (use r in auto)
  then show ?thesis by (simp add: swaps(1))
qed

lemma reached_index_ok:
  assumes "index_reached api s0 w" "\<forall>item. rows s0 item = None"
  shows "index_ok w"
  using assms(1)
proof induction
  case start
  then show ?case using assms(2) by (simp add: index_ok_def paths_of_def)
qed (rule index_ok_step)

text \<open>One pod alone: what a record, a stamp and a forget come to.\<close>

lemma index_read_row:
  "index_read api s item = Inr (case rows s item of Some (r, e, False) \<Rightarrow> Some (r, e) | _ \<Rightarrow> None)"
  by (auto simp: index_read_def get_law split: option.splits prod.splits bool.splits)

lemma index_swap_live:
  assumes "rows s item = Some (r, e, False)"
  obtains s' e' where "index_swap api s item row e = Inr (Some s')" "rows s' = (rows s)(item \<mapsto> (row, e', False))"
  using modify_live [OF assms, of "Some e" row] that by (auto simp: index_swap_def)

lemma record_loop_live:
  assumes "rows s item = Some (r, e, False)"
  obtains s' b r' e' where "record_loop api (Suc n) s item path = Inr (s', b)" "b \<longleftrightarrow> path \<notin> set (si_paths r)"
    "rows s' = (rows s)(item \<mapsto> (r', e', False))" "set (si_paths r') = insert path (set (si_paths r))" "\<not> b \<Longrightarrow> s' = s"
proof (cases "path \<in> set (si_paths r)")
  case True
  then have "record_loop api (Suc n) s item path = Inr (s, False)" "rows s = (rows s)(item \<mapsto> (r, e, False))"
    using assms by (auto simp: index_read_row bindE_def)
  then show ?thesis using that True by (metis insert_absorb)
next
  case False
  obtain s' e' where "index_swap api s item (with_path path r) e = Inr (Some s')" "rows s' = (rows s)(item \<mapsto> (with_path path r, e', False))"
    using index_swap_live [OF assms] .
  then show ?thesis using False assms that [of s' True] by (auto simp: index_read_row bindE_def)
qed

lemma record_loop_deleted:
  assumes "rows s item = Some (r, e, True)"
  obtains s1 e1 where "record_loop api (Suc n) s item path = record_loop api n s1 item path" "rows s1 = (rows s)(item \<mapsto> (r, e1, False))"
proof -
  obtain s1 e1 where s1: "rm_restore api s item = Inr s1" "rows s1 = (rows s)(item \<mapsto> (r, e1, False))"
    using restore_present [OF assms] by blast
  then have "record_loop api (Suc n) s item path = record_loop api n s1 item path"
    using assms create_present [of s1 item] by (simp add: index_read_row bindE_def restore_if_deleted_def get_law)
  then show ?thesis using that s1(2) by blast
qed

lemma edit_loop_live:
  assumes "rows s item = Some (r, e, False)"
  obtains s' e' where "edit_loop api (Suc n) idle change s item = Inr s'"
    "rows s' = (rows s)(item \<mapsto> (if idle r then r else change r, e', False))"
proof (cases "idle r")
  case True
  then have "edit_loop api (Suc n) idle change s item = Inr s" "rows s = (rows s)(item \<mapsto> (r, e, False))"
    using assms by (auto simp: index_read_row bindE_def)
  then show ?thesis using that True by auto
next
  case False
  obtain s' e' where "index_swap api s item (change r) e = Inr (Some s')" "rows s' = (rows s)(item \<mapsto> (change r, e', False))"
    using index_swap_live [OF assms] .
  then show ?thesis using False assms that [of s' e'] by (auto simp: index_read_row bindE_def)
qed

lemma record_path_lands:
  obtains s' b r' e' where "record_path api s item path = Inr (s', b)"
    "b \<longleftrightarrow> \<not> (\<exists>r e d. rows s item = Some (r, e, d) \<and> path \<in> set (si_paths r))"
    "rows s' = (rows s)(item \<mapsto> (r', e', False))"
    "set (si_paths r') = insert path (case rows s item of None \<Rightarrow> {} | Some (r, e, d) \<Rightarrow> set (si_paths r))"
proof (cases "rows s item")
  case None
  obtain s' e' where "rm_create api s item (first_row path) = Inr s'" "rows s' = (rows s)(item \<mapsto> (first_row path, e', False))"
    using create_absent [OF None] by blast
  then show ?thesis using None that [of s' True "first_row path" e'] by (auto simp: record_path_def first_row_def)
next
  case (Some x)
  obtain r e d where row: "rows s item = Some (r, e, d)" using Some by (cases x) auto
  have dup: "record_path api s item path = record_loop api (Suc 99) s item path"
    using create_present [of s item] row by (simp add: record_path_def max_cas del: record_loop.simps)
  show ?thesis
  proof (cases d)
    case False
    then have live: "rows s item = Some (r, e, False)" using row by simp
    obtain s' b r' e' where "record_loop api (Suc 99) s item path = Inr (s', b)" "b \<longleftrightarrow> path \<notin> set (si_paths r)"
      "rows s' = (rows s)(item \<mapsto> (r', e', False))" "set (si_paths r') = insert path (set (si_paths r))"
      by (rule record_loop_live [OF live, of 99 path])
    then show ?thesis using that [of s' b r' e'] row dup by auto
  next
    case True
    obtain s1 e1 where s1: "record_loop api (Suc 99) s item path = record_loop api 99 s1 item path" "rows s1 = (rows s)(item \<mapsto> (r, e1, False))"
      by (rule record_loop_deleted [of s item r e 99 path]) (use row True in simp)
    have live: "rows s1 item = Some (r, e1, False)" by (simp add: s1)
    have go: "record_path api s item path = record_loop api (Suc 98) s1 item path"
      unfolding dup s1(1) by (rule arg_cong [where f = "\<lambda>n. record_loop api n s1 item path"]) simp
    obtain s' b r' e' where "record_loop api (Suc 98) s1 item path = Inr (s', b)" "b \<longleftrightarrow> path \<notin> set (si_paths r)"
      "rows s' = (rows s1)(item \<mapsto> (r', e', False))" "set (si_paths r') = insert path (set (si_paths r))"
      by (rule record_loop_live [OF live, of 98 path])
    then show ?thesis using that [of s' b r' e'] go row s1 by auto
  qed
qed

lemma indexed_paths_row: "rows s item = Some (r, e, False) \<Longrightarrow> indexed_paths api s item = Inr (si_paths r)"
  by (simp add: indexed_paths_def index_read_row bindE_def)

text \<open>The paths an item's live row holds.\<close>

lemma record_each_paths:
  obtains "record_each api s item ps = s" "ps = []"
  | r e where "rows (record_each api s item ps) item = Some (r, e, False)"
      "set (si_paths r) = set ps \<union> paths_of s item"
proof (induction ps arbitrary: s thesis)
  case Nil
  then show ?case by simp
next
  case (Cons p ps)
  obtain s' b r' e' where rec: "record_path api s item p = Inr (s', b)" "rows s' = (rows s)(item \<mapsto> (r', e', False))"
    "set (si_paths r') = insert p (case rows s item of None \<Rightarrow> {} | Some (r, e, d) \<Rightarrow> set (si_paths r))"
    by (rule record_path_lands)
  have s': "paths_of s' item = insert p (paths_of s item)" "record_each api s item (p # ps) = record_each api s' item ps"
    using rec by (auto simp: paths_of_def split: option.splits)
  show ?case
  proof (rule Cons.IH [of s'])
    assume "record_each api s' item ps = s'" "ps = []"
    then show ?case using rec s' by (intro Cons.prems(2)) (auto simp: paths_of_def)
  next
    fix r e assume "rows (record_each api s' item ps) item = Some (r, e, False)" "set (si_paths r) = set ps \<union> paths_of s' item"
    then show ?case using s' by (intro Cons.prems(2)) auto
  qed
qed

lemma rewrite_then_forget:
  assumes row: "rows s item = Some (row, e, False)" and path: "is_schedule_file path"
  obtains s1 s2 ps where "note_schedule_file api s item path now_ms = Inr s1" "forget_path api s1 item path = Inr s2"
    "indexed_paths api s2 item = Inr ps" "path \<notin> set ps"
proof -
  obtain s' b r' e' where rec: "record_path api s item path = Inr (s', b)" "rows s' = (rows s)(item \<mapsto> (r', e', False))"
    using record_path_lands [of s item path] by metis
  have r': "rows s' item = Some (r', e', False)" by (simp add: rec)
  obtain s1 r1 e1 where s1: "stamp_path api s' item path now_ms = Inr s1" "rows s1 item = Some (r1, e1, False)"
    unfolding stamp_path_def max_cas
    using edit_loop_live [OF r', of 99 "\<lambda>row. dict_get (si_landed row) path = Some now_ms" "with_stamp path now_ms"] by (metis fun_upd_same)
  obtain s2 e2 where s2: "forget_path api s1 item path = Inr s2"
    "rows s2 = (rows s1)(item \<mapsto> (if path \<notin> set (si_paths r1) then r1 else without_path path r1, e2, False))"
    unfolding forget_path_def max_cas by (rule edit_loop_live [OF s1(2)])
  let ?r = "if path \<notin> set (si_paths r1) then r1 else without_path path r1"
  have "note_schedule_file api s item path now_ms = Inr s1" using path rec(1) s1(1) by (simp add: note_schedule_file_def bindE_def)
  moreover have "indexed_paths api s2 item = Inr (si_paths ?r)" by (rule indexed_paths_row) (simp add: s2(2))
  moreover have "path \<notin> set (si_paths ?r)" by (auto simp: without_path_def)
  ultimately show ?thesis using that s2(1) by blast
qed

end

interpretation mem_index: schedule_index mem_store dict_get
  by unfold_locales

text \<open>
  in every interleaving of records, stamps and forgets from an empty table, a path is in an
  item's row exactly when the newest of its records and forgets that were written is a record: no
  write takes another path's away.
\<close>

theorem index_is_its_writes:
  fixes api :: "('s, index_row) row_api"
  assumes "row_store api rows" "\<forall>item. rows s0 item = None" "index_reached api s0 w"
    and "indexed_paths api (iw_store w) item = Inr ps"
  shows "path \<in> set ps \<longleftrightarrow> (\<exists>r e. rows (iw_store w) item = Some (r, e, False)) \<and> logged item path (iw_log w)"
proof -
  note l = schedule_index.intro [OF assms(1)]
  have ok: "schedule_index.index_ok rows w" by (rule schedule_index.reached_index_ok [OF l assms(3,2)])
  show ?thesis
    using assms(4) schedule_index.index_okD(1) [OF l ok, of item] row_store.get_law [OF assms(1), of "iw_store w" False item]
    by (auto simp: indexed_paths_def index_read_def bindE_def schedule_index.paths_of_def [OF l] split: option.splits if_splits)
qed

text \<open>
  a record always ends well on a working table, restores a deleted row on the way, adds its path
  and keeps every other path and every other item; it says it wrote exactly when the row did not
  hold the path.
\<close>

theorem record_exact:
  fixes api :: "('s, index_row) row_api"
  assumes "row_store api rows"
  shows "\<exists>s' b r' e'. record_path api s item path = Inr (s', b) \<and> rows s' = (rows s)(item \<mapsto> (r', e', False))
     \<and> set (si_paths r') = insert path (case rows s item of None \<Rightarrow> {} | Some (r, e, d) \<Rightarrow> set (si_paths r))
     \<and> (b \<longleftrightarrow> \<not> (\<exists>r e d. rows s item = Some (r, e, d) \<and> path \<in> set (si_paths r)))"
  using schedule_index.record_path_lands [OF schedule_index.intro [OF assms], of s item path] by metis

text \<open>
  the sweep forgets a file only when neither the snapshot nor the live workspace has it.
\<close>

theorem forgets_only_the_gone:
  "file_fate snapshot live = Forget \<longleftrightarrow> snapshot = Missing \<and> (live = None \<or> live = Some Missing)"
  by (auto simp: file_fate_def still_there_def split: fetched.splits still.splits option.splits)

text \<open>
  a file written again between the sweep's confirming it gone and its forget: the write finds
  the path already there and only stamps it, and the forget, whose compare is with the row and not
  with the file, then drops the path. The index misses a file that exists, until its next write or turn.
\<close>

theorem rewritten_file_forgotten:
  fixes api :: "('s, index_row) row_api"
  assumes "row_store api rows" "rows s item = Some (row, e, False)" "path \<in> set (si_paths row)" "is_schedule_file path"
  shows "\<exists>s1 s2 ps. file_fate Missing (Some Missing) = Forget \<and> note_schedule_file api s item path now_ms = Inr s1
     \<and> forget_path api s1 item path = Inr s2 \<and> indexed_paths api s2 item = Inr ps \<and> path \<notin> set ps"
proof -
  note l = schedule_index.intro [OF assms(1)]
  show ?thesis
    by (rule schedule_index.rewrite_then_forget [OF l assms(2,4), of now_ms]) (auto simp: file_fate_def still_there_def)
qed

text \<open>
  the end of a turn heals the index: when the item could be listed, every schedule file it holds
  is indexed, and no path indexed before is lost.
\<close>

theorem reconcile_heals:
  fixes api :: "('s, index_row) row_api"
  assumes "row_store api rows" "p \<in> set paths \<and> is_schedule_file p \<or> (\<exists>ps. indexed_paths api s item = Inr ps \<and> p \<in> set ps)"
  shows "\<exists>ps. indexed_paths api (reconcile api s item (Some paths)) item = Inr ps \<and> p \<in> set ps"
proof -
  note l = schedule_index.intro [OF assms(1)]
  obtain known where known: "indexed_paths api s item = Inr known"
    using schedule_index.index_read_row [OF l] by (auto simp: indexed_paths_def bindE_def)
  let ?new = "filter (\<lambda>p. p \<notin> set known) (filter is_schedule_file paths)"
  have rec: "reconcile api s item (Some paths) = record_each api s item ?new" 
    using known by (cases "filter is_schedule_file paths = []") (simp_all only: reconcile_def Let_def option.case sum.case if_True if_False filter.simps record_each.simps simp_thms)
  have old: "set known \<subseteq> schedule_index.paths_of rows s item"
    using known schedule_index.index_read_row [OF l, of s item]
    by (auto simp: indexed_paths_def bindE_def schedule_index.paths_of_def [OF l] split: option.splits prod.splits bool.splits)
  show ?thesis
  proof (cases rule: schedule_index.record_each_paths [OF l, of s item ?new])
    case 1
    then have "p \<in> set known" using assms(2) known by (auto simp: filter_empty_conv)
    then show ?thesis using known rec 1 by simp
  next
    case (2 r e)
    have "indexed_paths api (reconcile api s item (Some paths)) item = Inr (si_paths r)"
      using schedule_index.indexed_paths_row [OF l 2(1)] rec by simp
    moreover have "p \<in> set (si_paths r)" using assms(2) known old 2(2) by auto
    ultimately show ?thesis by blast
  qed
qed

text \<open>Witnesses: an item with one schedule file.\<close>

definition one_item :: "index_row mem" where
  "one_item = [(''i'', \<lparr>si_paths = [''/p/schedules.json''], si_landed = []\<rparr>, 0, True)]"

theorem record_exact_witness:
  "\<exists>s' r' e'. record_path mem_store one_item ''i'' ''/q/schedules.json'' = Inr (s', True)
     \<and> dict_get s' ''i'' = Some (r', e', False) \<and> set (si_paths r') = {''/q/schedules.json'', ''/p/schedules.json''}"
  using record_exact [OF mem.row_store_axioms, of one_item "''i''" "''/q/schedules.json''"]
  by (force simp: one_item_def)

theorem rewritten_file_forgotten_witness:
  "\<exists>s1 s2 ps. note_schedule_file mem_store [(''i'', \<lparr>si_paths = [''/p/schedules.json''], si_landed = []\<rparr>, 0, False)] ''i'' ''/p/schedules.json'' 5 = Inr s1
     \<and> forget_path mem_store s1 ''i'' ''/p/schedules.json'' = Inr s2 \<and> indexed_paths mem_store s2 ''i'' = Inr ps \<and> ''/p/schedules.json'' \<notin> set ps"
proof -
  have "is_schedule_file ''/p/schedules.json''" by code_simp
  then show ?thesis
    using rewritten_file_forgotten [OF mem.row_store_axioms, of "[(''i'', \<lparr>si_paths = [''/p/schedules.json''], si_landed = []\<rparr>, 0, False)]" "''i''" _ 0 "''/p/schedules.json''" 5]
    by auto
qed

theorem reconcile_heals_witness:
  "\<exists>ps. indexed_paths mem_store (reconcile mem_store one_item ''i'' (Some [''/q/notes'', ''/q/schedules.json''])) ''i'' = Inr ps
     \<and> ''/q/schedules.json'' \<in> set ps"
proof -
  have "is_schedule_file ''/q/schedules.json''" by code_simp
  then show ?thesis
    using reconcile_heals [OF mem.row_store_axioms, of "''/q/schedules.json''" "[''/q/notes'', ''/q/schedules.json'']" one_item "''i''"]
    by (simp del: HOL.ex_simps)
qed

theorem index_is_its_writes_witness:
  "\<exists>w :: index_row mem index_world. indexed_paths mem_store (iw_store w) ''i'' = Inr [''/p/schedules.json''] \<and> logged ''i'' ''/p/schedules.json'' (iw_log w)"
proof -
  obtain s' where s': "rm_create mem_store [] ''i'' (first_row ''/p/schedules.json'') = Inr s'"
    "indexed_paths mem_store s' ''i'' = Inr [''/p/schedules.json'']"
    using mem.create_absent [of "[]" "''i''" "first_row ''/p/schedules.json''"] mem_index.indexed_paths_row
    by (auto simp: first_row_def)
  let ?w = "\<lparr>iw_store = s', iw_reads = (\<lambda>_. None), iw_log = [Added ''i'' ''/p/schedules.json'']\<rparr>"
  have go: "index_step mem_store \<lparr>iw_store = [], iw_reads = (\<lambda>_. None), iw_log = []\<rparr> ?w"
    using index_step.creates [of mem_store "\<lparr>iw_store = [], iw_reads = (\<lambda>_. None), iw_log = []\<rparr>" "''i''" "''/p/schedules.json''" s'] s'(1) by simp
  have "index_reached mem_store [] ?w"
    by (rule index_reached.step [OF index_reached.start go])
  from index_is_its_writes [OF mem.row_store_axioms _ this, of "''i''"] s'(2) show ?thesis
    by (intro exI [of _ ?w]) auto
qed

end
