(* ===== verification/RunAs.thy ===== *)
theory RunAs
  imports ScheduleIndex UserSchedules
begin

text \<open>
  Who a schedule runs as: the table of \<open>workflow/schedule_bindings.py\<close>, the crediting of the person
  who wrote a row (\<open>ScheduleAuthorship.credit\<close>) or the workflow it runs (\<open>workflow_written\<close>), the
  check the sweep makes before a fire and the expiry of consents (\<open>UserScheduleSweeper\<close>:
  \<open>_binder_for\<close>, \<open>_workflow_changed\<close>, \<open>_expire_bindings\<close>, \<open>_drop_bindings\<close>), and the two routes of
  \<open>api/schedule_binding_routes.py\<close>.

  Reading a file is an argument: the text, that there is none, or a failure (a timeout included).
  \<open>json.loads\<close> gives the value as the text writes it, repeated keys and all; \<open>parse_def\<close> is whether a
  text is a workflow, \<open>sha\<close> and \<open>digest\<close> the two digests.  Where an operation awaits a read between
  looking at the table and writing it, \<open>peers\<close> is what others do to the table meanwhile.
\<close>

section \<open>What surrounds the table\<close>

type_synonym reader = "string \<Rightarrow> string \<Rightarrow> fetched"

record consent_env =
  ce_loads :: "string \<Rightarrow> json option"
  ce_zones :: zone_env
  ce_digest :: "json \<Rightarrow> string"
  ce_parses :: "string \<Rightarrow> bool"
  ce_sha :: "string \<Rightarrow> string"

datatype consent_error = TableRaised rm_error | ReadRaised | AskRaised

text \<open>The value of a text, the last of a repeated key winning.\<close>

fun loaded :: "json \<Rightarrow> json" and loaded_items :: "json list \<Rightarrow> json list"
  and loaded_fields :: "(string \<times> json) list \<Rightarrow> (string, json) dict \<Rightarrow> (string, json) dict" where
  "loaded (JArr vs) = JArr (loaded_items vs)"
| "loaded (JObj kvs) = JObj (loaded_fields kvs [])"
| "loaded v = v"
| "loaded_items [] = []"
| "loaded_items (v # vs) = loaded v # loaded_items vs"
| "loaded_fields [] d = d"
| "loaded_fields ((k, v) # kvs) d = loaded_fields kvs (dict_set k (loaded v) d)"

definition file_doc :: "consent_env \<Rightarrow> string \<Rightarrow> json option" where
  "file_doc env raw = map_option loaded (ce_loads env raw)"

text \<open>\<open>path.rsplit("/", 1)[0]\<close>.\<close>

definition folder_of :: "string \<Rightarrow> string" where
  "folder_of path =
     (if CHR ''/'' \<in> set path then rev (tl (dropWhile (\<lambda>c. c \<noteq> CHR ''/'') (rev path))) else path)"

definition file_keys :: "consent_env \<Rightarrow> string \<Rightarrow> string \<Rightarrow> string \<Rightarrow> (string \<times> user_row) list" where
  "file_keys env item path raw =
     map (\<lambda>r. (trigger_id_for (ce_digest env) item (folder_of path) r, r)) (usable_rows (ce_zones env) (file_doc env raw))"

definition keys_in :: "consent_env \<Rightarrow> string \<Rightarrow> string \<Rightarrow> string \<Rightarrow> string list option" where
  "keys_in env item path raw =
     (case file_rows (file_doc env raw) of None \<Rightarrow> None | Some _ \<Rightarrow> Some (map fst (file_keys env item path raw)))"

section \<open>Workflow files\<close>

definition WORKFLOW_PREFIX :: string where
  "WORKFLOW_PREFIX = ''/.workflows/''"

definition is_workspace_workflow_path :: "string \<Rightarrow> bool" where
  "is_workspace_workflow_path path \<longleftrightarrow>
     starts_with WORKFLOW_PREFIX path
     \<and> (let rest = drop (length WORKFLOW_PREFIX) path
        in CHR ''/'' \<notin> set rest \<and> ends_with ''.json'' rest \<and> rest \<noteq> SCHEDULES_FILE)"

definition workspace_workflow_path :: "string \<Rightarrow> string" where
  "workspace_workflow_path slug = WORKFLOW_PREFIX @ slug @ ''.json''"

definition RESERVED_WORKFLOW_ID :: string where
  "RESERVED_WORKFLOW_ID = take (length SCHEDULES_FILE - 5) SCHEDULES_FILE"

definition is_workspace_workflow_id :: "string \<Rightarrow> bool" where
  "is_workspace_workflow_id w \<longleftrightarrow>
     w \<noteq> [] \<and> w \<noteq> RESERVED_WORKFLOW_ID \<and> is_workspace_workflow_path (workspace_workflow_path w)"

text \<open>The digest of the workflow a run would be built from: empty for the profile's.\<close>

definition workflow_digest :: "consent_env \<Rightarrow> reader \<Rightarrow> string \<Rightarrow> string \<Rightarrow> string option" where
  "workflow_digest env read item w =
     (if \<not> is_workspace_workflow_id w then Some []
      else (case read item (workspace_workflow_path w) of
              Fetched raw \<Rightarrow> Some (if ce_parses env raw then ce_sha env raw else [])
            | Missing \<Rightarrow> Some []
            | Failed \<Rightarrow> None))"

definition unparsable_workflow :: "consent_env \<Rightarrow> reader \<Rightarrow> string \<Rightarrow> string \<Rightarrow> bool option" where
  "unparsable_workflow env read item w =
     (if \<not> is_workspace_workflow_id w then Some False
      else (case read item (workspace_workflow_path w) of
              Fetched raw \<Rightarrow> Some (\<not> ce_parses env raw)
            | Missing \<Rightarrow> Some False
            | Failed \<Rightarrow> None))"

definition UNPARSABLE_DIGEST :: string where
  "UNPARSABLE_DIGEST = ''!unparsable''"

section \<open>The table\<close>

record binding =
  sb_trigger :: string
  sb_item :: string
  sb_path :: string
  sb_user :: string
  sb_bound_at :: int
  sb_digest :: string
  sb_reason :: string
  sb_assigned_by :: string

definition get_binding :: "('s, binding) row_api \<Rightarrow> 's \<Rightarrow> string \<Rightarrow> consent_error + binding option" where
  "get_binding api s key =
     (case rm_get api s False key of
        Inr (b, _) \<Rightarrow> Inr (Some b)
      | Inl NotFound \<Rightarrow> Inr None
      | Inl e \<Rightarrow> Inl (TableRaised e))"

definition binder_of :: "('s, binding) row_api \<Rightarrow> 's \<Rightarrow> string \<Rightarrow> consent_error + string" where
  "binder_of api s key =
     bindE (get_binding api s key) (\<lambda>found. Inr (case found of Some b \<Rightarrow> sb_user b | None \<Rightarrow> []))"

text \<open>\<open>bind\<close> answers whom it replaced.\<close>

definition bind_row :: "('s, binding) row_api \<Rightarrow> 's \<Rightarrow> binding \<Rightarrow> consent_error + 's \<times> string" where
  "bind_row api s b =
     bindE (get_binding api s (sb_trigger b)) (\<lambda>found.
       case found of
         None \<Rightarrow> (case rm_create api s (sb_trigger b) b of Inr s' \<Rightarrow> Inr (s', []) | Inl e \<Rightarrow> Inl (TableRaised e))
       | Some old \<Rightarrow>
           (case rm_modify api s (sb_trigger b) b None of
              Inr (s', _) \<Rightarrow> Inr (s', if sb_user old \<noteq> sb_user b then sb_user old else [])
            | Inl e \<Rightarrow> Inl (TableRaised e)))"

definition unbind :: "('s, binding) row_api \<Rightarrow> 's \<Rightarrow> string \<Rightarrow> consent_error + 's" where
  "unbind api s key =
     (case rm_purge api s key of Inr s' \<Rightarrow> Inr s' | Inl NotFound \<Rightarrow> Inr s | Inl e \<Rightarrow> Inl (TableRaised e))"

definition for_item :: "('s, binding) row_api \<Rightarrow> 's \<Rightarrow> string \<Rightarrow> binding list" where
  "for_item api s item = map (\<lambda>(i, b, e, d). b) (filter (\<lambda>(i, b, e, d). sb_item b = item) (rm_list api s))"

definition holders :: "('s, binding) row_api \<Rightarrow> 's \<Rightarrow> string \<Rightarrow> string \<Rightarrow> string set" where
  "holders api s item path = set (map sb_user (filter (\<lambda>b. sb_path b = path) (for_item api s item)))"

text \<open>Unbinding one after the other; what was done stays done when one raises.\<close>

fun unbind_all :: "('s, binding) row_api \<Rightarrow> 's \<Rightarrow> binding list \<Rightarrow> 's \<times> (consent_error + unit)" where
  "unbind_all api s [] = (s, Inr ())"
| "unbind_all api s (b # bs) =
     (case unbind api s (sb_trigger b) of Inl e \<Rightarrow> (s, Inl e) | Inr s' \<Rightarrow> unbind_all api s' bs)"

definition purge_item :: "('s, binding) row_api \<Rightarrow> 's \<Rightarrow> string \<Rightarrow> 's \<times> (consent_error + unit)" where
  "purge_item api s item = unbind_all api s (for_item api s item)"

definition absent_bindings :: "('s, binding) row_api \<Rightarrow> 's \<Rightarrow> string \<Rightarrow> string \<Rightarrow> string list \<Rightarrow> binding list" where
  "absent_bindings api s item path keep =
     filter (\<lambda>b. sb_path b = path \<and> sb_trigger b \<notin> set keep) (for_item api s item)"

definition expire_absent ::
  "('s, binding) row_api \<Rightarrow> 's \<Rightarrow> string \<Rightarrow> string \<Rightarrow> string list \<Rightarrow> 's \<times> (consent_error + binding list)" where
  "expire_absent api s item path keep =
     (let gone = absent_bindings api s item path keep
      in case unbind_all api s gone of (s', Inl e) \<Rightarrow> (s', Inl e) | (s', Inr _) \<Rightarrow> (s', Inr gone))"

section \<open>The sweep's check before a fire\<close>

text \<open>A notice to a binder, and why.\<close>

type_synonym notice = "binding \<times> string"

definition workflow_changed :: "consent_env \<Rightarrow> reader \<Rightarrow> string \<Rightarrow> string \<Rightarrow> string \<Rightarrow> bool" where
  "workflow_changed env live item w bound =
     (case workflow_digest env live item w of Some d \<Rightarrow> d \<noteq> bound | None \<Rightarrow> False)"

text \<open>\<open>may\<close> is \<open>binder_may\<close>: none when it is not wired, no answer when it raises.\<close>

definition checked_binder ::
  "('s, binding) row_api \<Rightarrow> consent_env \<Rightarrow> (string \<Rightarrow> string \<Rightarrow> bool option) option \<Rightarrow> reader \<Rightarrow> 's
   \<Rightarrow> string \<Rightarrow> string \<Rightarrow> string \<Rightarrow> 's \<times> notice list \<times> (consent_error + string \<times> string option)" where
  "checked_binder api env may live s item key w =
     (case get_binding api s key of
        Inl e \<Rightarrow> (s, [], Inl e)
      | Inr None \<Rightarrow> (s, [], Inr ([], None))
      | Inr (Some b) \<Rightarrow>
          (let drop_it = (\<lambda>why. case unbind api s key of
                                  Inl e \<Rightarrow> (s, [], Inl e)
                                | Inr s' \<Rightarrow> (s', [(b, why)], Inr ([], None)))
           in case (case may of None \<Rightarrow> Some True | Some ask_it \<Rightarrow> ask_it (sb_user b) item) of
                None \<Rightarrow> (s, [], Inl AskRaised)
              | Some False \<Rightarrow> drop_it ''no_access''
              | Some True \<Rightarrow>
                  (if workflow_changed env live item w (sb_digest b) then drop_it ''workflow_changed''
                   else (s, [], Inr (sb_user b, Some (sb_digest b))))))"

definition binder_for ::
  "('s, binding) row_api \<Rightarrow> consent_env \<Rightarrow> (string \<Rightarrow> string \<Rightarrow> bool option) option \<Rightarrow> reader \<Rightarrow> 's
   \<Rightarrow> string \<Rightarrow> string \<Rightarrow> string \<Rightarrow> 's \<times> notice list \<times> string \<times> string option" where
  "binder_for api env may live s item key w =
     (case checked_binder api env may live s item key w of
        (s', told, Inr who) \<Rightarrow> (s', told, who)
      | (s', told, Inl _) \<Rightarrow> (s', told, [], None))"

section \<open>The expiry of consents\<close>

definition drop_bindings ::
  "('s, binding) row_api \<Rightarrow> 's \<Rightarrow> string \<Rightarrow> string \<Rightarrow> string list \<Rightarrow> 's \<times> notice list" where
  "drop_bindings api s item path keep =
     (case expire_absent api s item path keep of
        (s', Inl _) \<Rightarrow> (s', [])
      | (s', Inr gone) \<Rightarrow>
          (s', map (\<lambda>b. (b, ''changed''))
                 (filter (\<lambda>b. sb_reason b \<notin> {''author'', ''workflow''} \<and> sb_user b \<notin> holders api s' item path) gone)))"

definition expire_bindings ::
  "('s, binding) row_api \<Rightarrow> consent_env \<Rightarrow> fetched option \<Rightarrow> 's \<Rightarrow> string \<Rightarrow> string \<Rightarrow> string \<Rightarrow> 's \<times> notice list" where
  "expire_bindings api env live s item path raw =
     (case keys_in env item path raw of
        None \<Rightarrow> (s, [])
      | Some snapshot \<Rightarrow>
          if absent_bindings api s item path snapshot = [] then (s, [])
          else (case still_there live of
                  Unknown \<Rightarrow> (s, [])
                | ReallyGone \<Rightarrow> drop_bindings api s item path snapshot
                | Here now \<Rightarrow>
                    (case keys_in env item path now of
                       None \<Rightarrow> (s, [])
                     | Some there \<Rightarrow> drop_bindings api s item path (snapshot @ there))))"

text \<open>What a pass of the sweep does to the consents of one file.\<close>

definition sweep_consents ::
  "('s, binding) row_api \<Rightarrow> consent_env \<Rightarrow> nat \<Rightarrow> fetched \<Rightarrow> fetched option \<Rightarrow> 's \<Rightarrow> string \<Rightarrow> string \<Rightarrow> 's \<times> notice list" where
  "sweep_consents api env max_rows snapshot live s item path =
     (case file_fate snapshot live of
        Forget \<Rightarrow> drop_bindings api s item path []
      | LeaveIndexed \<Rightarrow> (s, [])
      | SweepRows raw \<Rightarrow>
          if over_cap (file_doc env raw) max_rows then (s, []) else expire_bindings api env live s item path raw)"

section \<open>Crediting the author of a row\<close>

fun repeats :: "json \<Rightarrow> bool" and repeats_items :: "json list \<Rightarrow> bool" and repeats_fields :: "(string \<times> json) list \<Rightarrow> bool" where
  "repeats (JArr vs) = repeats_items vs"
| "repeats (JObj kvs) = (\<not> distinct (map fst kvs) \<or> repeats_fields kvs)"
| "repeats v = False"
| "repeats_items [] = False"
| "repeats_items (v # vs) = (repeats v \<or> repeats_items vs)"
| "repeats_fields [] = False"
| "repeats_fields ((k, v) # kvs) = (repeats v \<or> repeats_fields kvs)"

fun nothing_in :: "json \<Rightarrow> bool" and nothing_items :: "json list \<Rightarrow> bool" and nothing_fields :: "(string \<times> json) list \<Rightarrow> bool" where
  "nothing_in JNull = True"
| "nothing_in (JArr vs) = nothing_items vs"
| "nothing_in (JObj kvs) = nothing_fields kvs"
| "nothing_in v = False"
| "nothing_items [] = True"
| "nothing_items (v # vs) = (nothing_in v \<and> nothing_items vs)"
| "nothing_fields [] = True"
| "nothing_fields ((k, v) # kvs) = (nothing_in v \<and> nothing_fields kvs)"

fun is_obj :: "json \<Rightarrow> bool" where
  "is_obj (JObj _) = True"
| "is_obj _ = False"

fun fields_of :: "json \<Rightarrow> (string \<times> json) list" where
  "fields_of (JObj kvs) = kvs"
| "fields_of _ = []"

text \<open>Whether a file may hide rows nobody can name.\<close>

definition unreadable :: "consent_env \<Rightarrow> string \<Rightarrow> bool" where
  "unreadable env raw =
     (if strip raw = [] then False
      else (case ce_loads env raw of
              None \<Rightarrow> True
            | Some doc \<Rightarrow>
                if repeats doc then True
                else if nothing_in doc then False
                else (case file_rows (file_doc env raw) of
                        Some rows \<Rightarrow>
                          if is_obj doc
                          then list_ex (\<lambda>r. \<not> is_obj r) rows
                               \<or> list_ex (\<lambda>(k, v). k \<noteq> ''schedules'' \<and> \<not> nothing_in v) (fields_of doc)
                          else True
                      | None \<Rightarrow> True)))"

fun credit_rows ::
  "('s, binding) row_api \<Rightarrow> consent_env \<Rightarrow> reader \<Rightarrow> (string \<Rightarrow> 's \<Rightarrow> 's) \<Rightarrow> int \<Rightarrow> string \<Rightarrow> string \<Rightarrow> string \<Rightarrow> 's
   \<Rightarrow> (string \<times> string) list \<Rightarrow> 's \<times> (consent_error + string list)" where
  "credit_rows api env read peers now item path author s [] = (s, Inr [])"
| "credit_rows api env read peers now item path author s ((key, run) # rest) =
     (case get_binding api s key of
        Inl e \<Rightarrow> (s, Inl e)
      | Inr (Some _) \<Rightarrow> credit_rows api env read peers now item path author s rest
      | Inr None \<Rightarrow>
          (case (case unparsable_workflow env read item run of
                   None \<Rightarrow> None
                 | Some True \<Rightarrow> Some UNPARSABLE_DIGEST
                 | Some False \<Rightarrow> workflow_digest env read item run) of
             None \<Rightarrow> (peers key s, Inl ReadRaised)
           | Some d \<Rightarrow>
               (case bind_row api (peers key s)
                       \<lparr>sb_trigger = key, sb_item = item, sb_path = path, sb_user = author, sb_bound_at = now,
                        sb_digest = d, sb_reason = ''author'', sb_assigned_by = []\<rparr> of
                  Inl e \<Rightarrow> (peers key s, Inl e)
                | Inr (s', _) \<Rightarrow>
                    (case credit_rows api env read peers now item path author s' rest of
                       (s'', Inl e) \<Rightarrow> (s'', Inl e)
                     | (s'', Inr ks) \<Rightarrow> (s'', Inr (key # ks))))))"

definition added_rows :: "consent_env \<Rightarrow> string \<Rightarrow> string \<Rightarrow> string option \<Rightarrow> string \<Rightarrow> (string \<times> string) list" where
  "added_rows env item path before after =
     (let old = (case before of Some b \<Rightarrow> if b = [] then [] else map fst (file_keys env item path b) | None \<Rightarrow> [])
      in map (\<lambda>(k, r). (k, ur_run r)) (filter (\<lambda>(k, r). k \<notin> set old) (file_keys env item path after)))"

record authorship =
  au_read :: reader
  au_may_run :: "string \<Rightarrow> string \<Rightarrow> bool option"
  au_max_rows :: "nat option"

definition credit_checked ::
  "('s, binding) row_api \<Rightarrow> consent_env \<Rightarrow> authorship \<Rightarrow> (string \<Rightarrow> 's \<Rightarrow> 's) \<Rightarrow> int \<Rightarrow> 's \<Rightarrow> string \<Rightarrow> string
   \<Rightarrow> string option \<Rightarrow> string \<Rightarrow> string \<Rightarrow> 's \<times> (consent_error + string list)" where
  "credit_checked api env au peers now s item path before after author =
     (if author = [] then (s, Inr [])
      else if (case before of Some b \<Rightarrow> unreadable env b | None \<Rightarrow> False) then (s, Inr [])
      else if (case au_max_rows au of Some n \<Rightarrow> over_cap (file_doc env after) n | None \<Rightarrow> False) then (s, Inr [])
      else (let added = added_rows env item path before after
            in if added = [] then (s, Inr [])
               else (case au_may_run au author item of
                       None \<Rightarrow> (s, Inl AskRaised)
                     | Some False \<Rightarrow> (s, Inr [])
                     | Some True \<Rightarrow> credit_rows api env (au_read au) peers now item path author s added)))"

definition credit ::
  "('s, binding) row_api \<Rightarrow> consent_env \<Rightarrow> authorship \<Rightarrow> (string \<Rightarrow> 's \<Rightarrow> 's) \<Rightarrow> int \<Rightarrow> 's \<Rightarrow> string \<Rightarrow> string
   \<Rightarrow> string option \<Rightarrow> string \<Rightarrow> string \<Rightarrow> 's \<times> string list" where
  "credit api env au peers now s item path before after author =
     (case credit_checked api env au peers now s item path before after author of
        (s', Inr ks) \<Rightarrow> (s', ks)
      | (s', Inl _) \<Rightarrow> (s', []))"

section \<open>Crediting the author of a workflow\<close>

definition runs_in :: "consent_env \<Rightarrow> reader \<Rightarrow> string \<Rightarrow> string \<Rightarrow> string \<Rightarrow> string option" where
  "runs_in env read item path key =
     map_of (rev (map (\<lambda>(k, r). (k, ur_run r)) (file_keys env item path (case read item path of Fetched raw \<Rightarrow> raw | _ \<Rightarrow> [])))) key"

definition handed_over :: "int \<Rightarrow> string \<Rightarrow> string \<Rightarrow> string \<Rightarrow> binding \<Rightarrow> binding" where
  "handed_over now item author d b =
     \<lparr>sb_trigger = sb_trigger b, sb_item = item, sb_path = sb_path b, sb_user = author, sb_bound_at = now, sb_digest = d,
      sb_reason = (if sb_user b = author then sb_reason b else ''workflow''),
      sb_assigned_by = (if sb_user b = author then sb_assigned_by b else [])\<rparr>"

text \<open>The keys moved, and the notices: the binding as it was and who holds it now.\<close>

fun move_rows ::
  "('s, binding) row_api \<Rightarrow> consent_env \<Rightarrow> reader \<Rightarrow> (string \<Rightarrow> 's \<Rightarrow> 's) \<Rightarrow> int \<Rightarrow> string \<Rightarrow> string \<Rightarrow> string \<Rightarrow> string \<Rightarrow> 's
   \<Rightarrow> binding list \<Rightarrow> 's \<times> notice list \<times> (consent_error + string list)" where
  "move_rows api env read peers now item w author d s [] = (s, [], Inr [])"
| "move_rows api env read peers now item w author d s (b # bs) =
     (if runs_in env read item (sb_path b) (sb_trigger b) \<noteq> Some w then move_rows api env read peers now item w author d s bs
      else (let s1 = peers (sb_trigger b) s
            in case get_binding api s1 (sb_trigger b) of
                 Inl e \<Rightarrow> (s1, [], Inl e)
               | Inr found \<Rightarrow>
                   if found \<noteq> Some b then move_rows api env read peers now item w author d s1 bs
                   else (case bind_row api s1 (handed_over now item author d b) of
                           Inl e \<Rightarrow> (s1, [], Inl e)
                         | Inr (s2, _) \<Rightarrow>
                             (case move_rows api env read peers now item w author d s2 bs of
                                (s3, told, res) \<Rightarrow>
                                  (s3, (if sb_user b = author then [] else [(b, author)]) @ told, map_sum id (Cons (sb_trigger b)) res)))))"

definition written_checked ::
  "('s, binding) row_api \<Rightarrow> consent_env \<Rightarrow> authorship \<Rightarrow> (string \<Rightarrow> 's \<Rightarrow> 's) \<Rightarrow> int \<Rightarrow> 's \<Rightarrow> string \<Rightarrow> string
   \<Rightarrow> string \<Rightarrow> string \<Rightarrow> 's \<times> notice list \<times> (consent_error + string list)" where
  "written_checked api env au peers now s item w author written =
     (if author = [] then (s, [], Inr [])
      else (let bound = for_item api s item;
                as_written = (\<lambda>i at_path. if at_path = workspace_workflow_path w then Fetched written else au_read au i at_path)
            in if bound = [] then (s, [], Inr [])
               else (case unparsable_workflow env as_written item w of
                       None \<Rightarrow> (s, [], Inl ReadRaised)
                     | Some True \<Rightarrow> (s, [], Inr [])
                     | Some False \<Rightarrow>
                         (case (workflow_digest env as_written item w, workflow_digest env (au_read au) item w) of
                            (Some d, Some live) \<Rightarrow>
                              if live \<noteq> d then (s, [], Inr [])
                              else (let stale = filter (\<lambda>b. sb_digest b \<noteq> d) bound
                                    in if stale = [] then (s, [], Inr [])
                                       else (case au_may_run au author item of
                                               None \<Rightarrow> (s, [], Inl AskRaised)
                                             | Some False \<Rightarrow> (s, [], Inr [])
                                             | Some True \<Rightarrow> move_rows api env (au_read au) peers now item w author d s stale))
                          | _ \<Rightarrow> (s, [], Inl ReadRaised)))))"

definition workflow_written ::
  "('s, binding) row_api \<Rightarrow> consent_env \<Rightarrow> authorship \<Rightarrow> (string \<Rightarrow> 's \<Rightarrow> 's) \<Rightarrow> int \<Rightarrow> 's \<Rightarrow> string \<Rightarrow> string
   \<Rightarrow> string \<Rightarrow> string \<Rightarrow> 's \<times> notice list \<times> string list" where
  "workflow_written api env au peers now s item w author written =
     (case written_checked api env au peers now s item w author written of
        (s', told, Inr ks) \<Rightarrow> (s', told, ks)
      | (s', told, Inl _) \<Rightarrow> (s', told, []))"

section \<open>The routes\<close>

datatype route_error =
  NoItemAccess | NotSchedulesFile | OnlyAdministrators | NamedMayNotRun | ScheduleChanged | WorkflowWontParse
| OtherItem | OthersBinding | RouteRaised consent_error

record consent_site =
  cs_access :: "string \<Rightarrow> string \<Rightarrow> string \<Rightarrow> bool"
  cs_may_run :: "string \<Rightarrow> string \<Rightarrow> bool"
  cs_superusers :: "string set"
  cs_files :: reader

definition base_of :: "string \<Rightarrow> string" where
  "base_of path = last (split_on (CHR ''/'') path)"

text \<open>The rows of a file by key; a file that is not there has none.\<close>

definition route_keys :: "consent_env \<Rightarrow> reader \<Rightarrow> string \<Rightarrow> string \<Rightarrow> consent_error + (string \<times> user_row) list" where
  "route_keys env files item path =
     (case files item path of
        Fetched raw \<Rightarrow> Inr (file_keys env item path raw)
      | Missing \<Rightarrow> Inr []
      | Failed \<Rightarrow> Inl ReadRaised)"

text \<open>Binding \<open>who\<close> to a row of the file, with its workflow as it is now.\<close>

definition press_row ::
  "('s, binding) row_api \<Rightarrow> consent_env \<Rightarrow> reader \<Rightarrow> int \<Rightarrow> 's \<Rightarrow> string \<Rightarrow> string \<Rightarrow> string \<Rightarrow> string \<Rightarrow> string \<Rightarrow> string
   \<Rightarrow> route_error + 's \<times> string \<times> string" where
  "press_row api env files now s me item key path who run =
     (case unparsable_workflow env files item run of
        None \<Rightarrow> Inl (RouteRaised ReadRaised)
      | Some True \<Rightarrow> Inl WorkflowWontParse
      | Some False \<Rightarrow>
          (case workflow_digest env files item run of
             None \<Rightarrow> Inl (RouteRaised ReadRaised)
           | Some d \<Rightarrow>
               (case bind_row api s \<lparr>sb_trigger = key, sb_item = item, sb_path = path, sb_user = who, sb_bound_at = now, sb_digest = d,
                       sb_reason = (if who \<noteq> me then ''admin'' else ''self''), sb_assigned_by = (if who \<noteq> me then me else [])\<rparr> of
                  Inl e \<Rightarrow> Inl (RouteRaised e)
                | Inr (s', old) \<Rightarrow> Inr (s', who, old))))"

text \<open>"Run as me", and a superuser's naming of someone: whose binding now stands, and whom it replaced.\<close>

definition press ::
  "('s, binding) row_api \<Rightarrow> consent_env \<Rightarrow> consent_site \<Rightarrow> int \<Rightarrow> 's \<Rightarrow> string \<Rightarrow> string \<Rightarrow> string \<Rightarrow> string \<Rightarrow> string
   \<Rightarrow> route_error + 's \<times> string \<times> string" where
  "press api env site now s me item key path user =
     (let who = (if user \<noteq> [] then user else me)
      in if \<not> cs_access site ''execute'' me item then Inl NoItemAccess
         else if who \<noteq> me \<and> me \<notin> cs_superusers site then Inl OnlyAdministrators
         else if who \<noteq> me \<and> \<not> cs_may_run site who item then Inl NamedMayNotRun
         else if base_of path \<noteq> SCHEDULES_FILE then Inl NotSchedulesFile
         else (case route_keys env (cs_files site) item path of
                 Inl e \<Rightarrow> Inl (RouteRaised e)
               | Inr rows \<Rightarrow>
                   (case map_of (rev rows) key of
                      None \<Rightarrow> Inl ScheduleChanged
                    | Some row \<Rightarrow>
                        (case (if who \<noteq> me then get_binding api s key else Inr None) of
                           Inl e \<Rightarrow> Inl (RouteRaised e)
                         | Inr current \<Rightarrow>
                             if map_option sb_user current = Some who then Inr (s, who, [])
                             else press_row api env (cs_files site) now s me item key path who (ur_run row)))))"

text \<open>Taking one's own name off.\<close>

definition stop_running ::
  "('s, binding) row_api \<Rightarrow> consent_site \<Rightarrow> 's \<Rightarrow> string \<Rightarrow> string \<Rightarrow> string \<Rightarrow> string \<Rightarrow> route_error + 's" where
  "stop_running api site s me item key path =
     (if \<not> cs_access site ''read_content'' me item then Inl NoItemAccess
      else if base_of path \<noteq> SCHEDULES_FILE then Inl NotSchedulesFile
      else (case get_binding api s key of
              Inl e \<Rightarrow> Inl (RouteRaised e)
            | Inr None \<Rightarrow> Inr s
            | Inr (Some b) \<Rightarrow>
                if sb_item b \<noteq> item then Inl OtherItem
                else if sb_user b \<noteq> me then Inl OthersBinding
                else (case unbind api s key of Inl e \<Rightarrow> Inl (RouteRaised e) | Inr s' \<Rightarrow> Inr s')))"

end
