(* ===== verification/Consents.thy ===== *)
theory Consents
  imports RunAs
begin

text \<open>
  What the table of consents keeps: a fire carries the values of a person who lent them for what it
  runs, a consent is dropped for a cause, a write credits what it added, and every name in the table
  was put there by the person, by a superuser, or by that person's own writing.
\<close>

section \<open>The table's operations\<close>

lemma case_bool_if: "(case b of True \<Rightarrow> x | False \<Rightarrow> y) = (if b then x else y)"
  by (cases b) auto

locale consent_table = row_store api rows
  for api :: "('s, binding) row_api" and rows
begin

lemma get_binding_some: "get_binding api s k = Inr (Some b) \<longleftrightarrow> (\<exists>e. rows s k = Some (b, e, False))"
  by (auto simp: get_binding_def get_law split: option.splits prod.splits if_splits)

lemma get_binding_none: "get_binding api s k = Inr None \<longleftrightarrow> rows s k = None"
  by (auto simp: get_binding_def get_law split: option.splits prod.splits if_splits)

lemma bind_row_rows:
  assumes "bind_row api s b = Inr (s', old)"
  obtains e where "rows s' = (rows s)(sb_trigger b \<mapsto> (b, e, False))"
proof (cases "get_binding api s (sb_trigger b)")
  case (Inl e)
  then show ?thesis using assms by (simp add: bind_row_def bindE_def)
next
  case (Inr found)
  show ?thesis
  proof (cases found)
    case None
    then have "rows s (sb_trigger b) = None" using Inr by (simp add: get_binding_none)
    then obtain s2 e where "rm_create api s (sb_trigger b) b = Inr s2" "rows s2 = (rows s)(sb_trigger b \<mapsto> (b, e, False))"
      using create_absent by blast
    then show ?thesis using assms Inr None that by (auto simp: bind_row_def bindE_def)
  next
    case (Some x)
    then obtain e where "rm_modify api s (sb_trigger b) b None = Inr (s', e)"
      using assms Inr by (auto simp: bind_row_def bindE_def split: sum.splits)
    then show ?thesis using modify_Inr(2) that by blast
  qed
qed

lemma bind_row_total:
  assumes "rows s (sb_trigger b) = None \<or> (\<exists>x e. rows s (sb_trigger b) = Some (x, e, False))"
  obtains s' old where "bind_row api s b = Inr (s', old)"
proof (cases "rows s (sb_trigger b)")
  case None
  then have "get_binding api s (sb_trigger b) = Inr None" by (simp add: get_binding_none)
  then show ?thesis using create_absent [OF None, of b] that by (auto simp: bind_row_def bindE_def)
next
  case (Some row)
  then obtain x e where x: "rows s (sb_trigger b) = Some (x, e, False)" using assms by auto
  then have "get_binding api s (sb_trigger b) = Inr (Some x)" using get_binding_some by blast
  then show ?thesis using modify_live [OF x, of None b] that by (auto simp: bind_row_def bindE_def)
qed

lemma unbind_rows:
  obtains s' where "unbind api s k = Inr s'" "rows s' = (rows s)(k := None)"
proof (cases "rows s k")
  case None
  then have "rm_purge api s k = Inl NotFound" "(rows s)(k := None) = rows s" using purge_absent by auto
  then show ?thesis using that by (simp add: unbind_def)
next
  case (Some x)
  then show ?thesis using purge_present [of s k] that by (auto simp: unbind_def)
qed

lemma unbind_all_rows:
  obtains s' where "unbind_all api s bs = (s', Inr ())" "rows s' = (\<lambda>k. if k \<in> sb_trigger ` set bs then None else rows s k)"
proof (induction bs arbitrary: s thesis)
  case Nil
  then show ?case by simp
next
  case (Cons b bs)
  obtain s1 where s1: "unbind api s (sb_trigger b) = Inr s1" "rows s1 = (rows s)(sb_trigger b := None)" by (rule unbind_rows)
  obtain s' where "unbind_all api s1 bs = (s', Inr ())" "rows s' = (\<lambda>k. if k \<in> sb_trigger ` set bs then None else rows s1 k)"
    by (rule Cons.IH)
  then show ?case using s1 by (intro Cons.prems) auto
qed

lemma for_item_iff: "b \<in> set (for_item api s item) \<longleftrightarrow> sb_item b = item \<and> (\<exists>k e d. rows s k = Some (b, e, d))"
  unfolding for_item_def by (auto simp: list_rows [symmetric]) (force simp: image_iff)+

text \<open>Dropping leaves the rows it is to keep, and the rows of other files.\<close>

lemma drop_bindings_rows:
  assumes "drop_bindings api s item path keep = (s', told)"
  shows "rows s' = (\<lambda>k. if k \<in> sb_trigger ` set (absent_bindings api s item path keep) then None else rows s k)"
  using assms unfolding drop_bindings_def expire_absent_def Let_def
  by (rule_tac unbind_all_rows [of s "absent_bindings api s item path keep"]) auto

lemma dropped_row:
  assumes "keyed sb_trigger s" "drop_bindings api s item path keep = (s', told)" "rows s' k \<noteq> rows s k"
  shows "rows s' k = None" "k \<notin> set keep" "\<exists>b e d. rows s k = Some (b, e, d) \<and> sb_item b = item \<and> sb_path b = path"
proof -
  obtain b where b: "b \<in> set (absent_bindings api s item path keep)" "k = sb_trigger b" "rows s' k = None"
    using assms(3) drop_bindings_rows [OF assms(2)] by (auto split: if_splits)
  then obtain i e d where row: "rows s i = Some (b, e, d)" "sb_item b = item" "sb_path b = path" "sb_trigger b \<notin> set keep"
    by (auto simp: absent_bindings_def for_item_iff)
  have "i = k" using assms(1) row(1) b(2) by (auto simp: keyed_def)
  then show "rows s' k = None" "k \<notin> set keep" "\<exists>b e d. rows s k = Some (b, e, d) \<and> sb_item b = item \<and> sb_path b = path"
    using b row by auto
qed

text \<open>The check before a fire.\<close>

lemma checked_cases:
  obtains
    (raised) x where "checked_binder api env may live s item key w = (s, [], Inl x)"
  | (nobody) "rows s key = None" "checked_binder api env may live s item key w = (s, [], Inr ([], None))"
  | (dropped) b e s' why where "rows s key = Some (b, e, False)" "rows s' = (rows s)(key := None)"
      "checked_binder api env may live s item key w = (s', [(b, why)], Inr ([], None))"
      "(\<exists>f. may = Some f \<and> f (sb_user b) item = Some False) \<and> why = ''no_access''
       \<or> workflow_changed env live item w (sb_digest b) \<and> why = ''workflow_changed''"
  | (runs) b e where "rows s key = Some (b, e, False)"
      "checked_binder api env may live s item key w = (s, [], Inr (sb_user b, Some (sb_digest b)))"
      "may = None \<or> (\<exists>f. may = Some f \<and> f (sb_user b) item = Some True)"
      "\<not> workflow_changed env live item w (sb_digest b)"
proof (cases "get_binding api s key")
  case (Inl x)
  then show ?thesis using raised by (simp add: checked_binder_def)
next
  case (Inr found)
  show ?thesis
  proof (cases found)
    case None
    then have g: "get_binding api s key = Inr None" using Inr by simp
    then show ?thesis using nobody g [unfolded get_binding_none] by (simp add: checked_binder_def)
  next
    case (Some b)
    then obtain e where row: "rows s key = Some (b, e, False)" using Inr get_binding_some by blast
    obtain s' where s': "unbind api s key = Inr s'" "rows s' = (rows s)(key := None)" by (rule unbind_rows)
    let ?ask = "case may of None \<Rightarrow> Some True | Some f \<Rightarrow> f (sb_user b) item"
    note eqs = checked_binder_def Inr Some s' Let_def
    show ?thesis
    proof (cases ?ask)
      case None
      then show ?thesis using raised by (simp add: eqs)
    next
      case (Some ok)
      show ?thesis
      proof (cases ok)
        case False
        then have "checked_binder api env may live s item key w = (s', [(b, ''no_access'')], Inr ([], None))"
          using Some by (simp add: eqs \<open>found = _\<close>)
        then show ?thesis using Some False by (intro dropped [OF row s'(2)]) (auto split: option.splits)
      next
        case True
        then show ?thesis
          using Some runs [OF row] dropped [OF row s'(2)]
          by (cases "workflow_changed env live item w (sb_digest b)") (simp_all add: eqs \<open>found = _\<close> split: option.splits)
      qed
    qed
  qed
qed

end

interpretation mem_consents: consent_table mem_store dict_get
  by unfold_locales

section \<open>Before a fire\<close>

text \<open>
  C31: exactly when a fire carries someone's private values: the schedule has a holder, they may run
  work in the item, and the live file of its workflow has the digest they consented to, or gives no
  answer.  It then carries its holder's, with the digest consented to (to which the start holds the
  bytes it builds), and the table and its people are left alone; in every other case it runs as nobody,
  with no digest.
\<close>

theorem fires_as_consented:
  fixes api :: "('s, binding) row_api"
  assumes "row_store api rows" "binder_for api env may live s item key w = (s', told, who, digest)"
  shows "(digest \<noteq> None \<longleftrightarrow> (\<exists>b e. rows s key = Some (b, e, False) \<and> (may = None \<or> (\<exists>f. may = Some f \<and> f (sb_user b) item = Some True))
          \<and> workflow_digest env live item w \<in> {Some (sb_digest b), None}))
     \<and> (digest = None \<longrightarrow> who = [])
     \<and> (\<forall>d. digest = Some d \<longrightarrow> s' = s \<and> told = [] \<and> (\<exists>b e. rows s key = Some (b, e, False) \<and> sb_user b = who \<and> sb_digest b = d))"
proof -
  note l = consent_table.intro [OF assms(1)]
  note changed = workflow_changed_def
  show ?thesis
  proof (rule consent_table.checked_cases [OF l, of env may live s item key w], goal_cases)
    case (1 x)
    have "\<not> (\<exists>b e. rows s key = Some (b, e, False) \<and> (may = None \<or> (\<exists>f. may = Some f \<and> f (sb_user b) item = Some True)))"
    proof
      assume "\<exists>b e. rows s key = Some (b, e, False) \<and> (may = None \<or> (\<exists>f. may = Some f \<and> f (sb_user b) item = Some True))"
      then obtain b e where b: "rows s key = Some (b, e, False)" "may = None \<or> (\<exists>f. may = Some f \<and> f (sb_user b) item = Some True)"
        by blast
      have "get_binding api s key = Inr (Some b)" using b(1) consent_table.get_binding_some [OF l] by blast
      moreover obtain u where "unbind api s key = Inr u" by (rule consent_table.unbind_rows [OF l, of s key])
      ultimately show False using 1 b(2) by (auto simp: checked_binder_def Let_def split: if_splits)
    qed
    with 1 assms(2) show ?case by (auto simp: binder_for_def)
  next
    case 2
    with assms(2) show ?case by (auto simp: binder_for_def)
  next
    case (3 b e s'' why)
    with assms(2) show ?case by (auto simp: binder_for_def changed split: option.splits)
  next
    case (4 b e)
    with assms(2) show ?case by (auto simp: binder_for_def changed split: option.splits)
  qed
qed

text \<open>
  the check before a fire takes away at most the schedule's own binding, and only when its
  holder may not run work in the item or its workflow is not the one consented to; the holder is
  told which.
\<close>

theorem binding_dropped_for_cause:
  fixes api :: "('s, binding) row_api"
  assumes "row_store api rows" "binder_for api env may live s item key w = (s', told, who, digest)" "rows s' \<noteq> rows s"
  shows "who = [] \<and> rows s' = (rows s)(key := None) \<and> (\<exists>b e why. rows s key = Some (b, e, False) \<and> told = [(b, why)]
     \<and> (why = ''no_access'' \<and> (\<exists>f. may = Some f \<and> f (sb_user b) item = Some False)
        \<or> why = ''workflow_changed'' \<and> (\<exists>d. workflow_digest env live item w = Some d \<and> d \<noteq> sb_digest b)))"
  by (rule consent_table.checked_cases [OF consent_table.intro [OF assms(1)], of env may live s item key w])
     (use assms(2,3) in \<open>auto simp: binder_for_def workflow_changed_def split: option.splits\<close>)

section \<open>Expiry\<close>

text \<open>
  the sweep drops a consent only when its row's key is in neither the snapshot nor the live
  file: each of them is gone, or reads as a schedules file without that key. A file over the cap, a
  file that does not parse and a read that fails drop nothing.
\<close>

theorem consents_expire_only_when_gone:
  fixes api :: "('s, binding) row_api"
  assumes "row_store api rows" "row_store.keyed rows sb_trigger s"
    and "sweep_consents api env n snapshot live s item path = (s', told)" "rows s' key \<noteq> rows s key"
  shows "rows s' key = None \<and> (\<exists>b e d. rows s key = Some (b, e, d) \<and> sb_item b = item \<and> sb_path b = path)
     \<and> (snapshot = Missing \<or> (\<exists>raw ks. snapshot = Fetched raw \<and> keys_in env item path raw = Some ks \<and> key \<notin> set ks))
     \<and> (live = None \<or> live = Some Missing \<or> (\<exists>raw ks. live = Some (Fetched raw) \<and> keys_in env item path raw = Some ks \<and> key \<notin> set ks))"
proof -
  note l = consent_table.intro [OF assms(1)]
  note drop = consent_table.dropped_row [OF l assms(2) _ assms(4)]
  obtain keep where keep: "drop_bindings api s item path keep = (s', told)"
    "snapshot = Missing \<or> (\<exists>raw ks. snapshot = Fetched raw \<and> keys_in env item path raw = Some ks \<and> set ks \<subseteq> set keep)"
    "live = None \<or> live = Some Missing \<or> (\<exists>raw ks. live = Some (Fetched raw) \<and> keys_in env item path raw = Some ks \<and> set ks \<subseteq> set keep)"
    using assms(3,4) unfolding sweep_consents_def expire_bindings_def file_fate_def still_there_def
    by (fastforce split: fetched.splits still.splits option.splits if_splits)
  from drop [OF keep(1)] keep(2,3) show ?thesis by blast
qed

section \<open>Readable files\<close>

text \<open>The strings, numbers and truth values of a value.\<close>

fun scalars :: "json \<Rightarrow> json list" and scalars_items :: "json list \<Rightarrow> json list" and scalars_fields :: "(string \<times> json) list \<Rightarrow> json list" where
  "scalars JNull = []"
| "scalars (JArr vs) = scalars_items vs"
| "scalars (JObj kvs) = scalars_fields kvs"
| "scalars v = [v]"
| "scalars_items [] = []"
| "scalars_items (v # vs) = scalars v @ scalars_items vs"
| "scalars_fields [] = []"
| "scalars_fields ((k, v) # kvs) = scalars v @ scalars_fields kvs"

lemma nothing_scalars:
  "nothing_in v \<longleftrightarrow> scalars v = []" "nothing_items vs \<longleftrightarrow> scalars_items vs = []" "nothing_fields kvs \<longleftrightarrow> scalars_fields kvs = []"
  by (induction v and vs and kvs rule: nothing_in_nothing_items_nothing_fields.induct) auto

lemma scalars_items_set: "set (scalars_items vs) = (\<Union>v \<in> set vs. set (scalars v))"
  by (induction vs) auto

lemma scalars_fields_set: "set (scalars_fields kvs) = (\<Union>(k, v) \<in> set kvs. set (scalars v))"
  by (induction kvs) auto

lemma dict_set_new: "k \<notin> fst ` set d \<Longrightarrow> dict_set k v d = d @ [(k, v)]"
  by (induction d) auto

lemma loaded_same:
  "\<not> repeats v \<Longrightarrow> loaded v = v" "\<not> repeats_items vs \<Longrightarrow> loaded_items vs = vs"
  "\<not> repeats_fields kvs \<Longrightarrow> distinct (map fst (d @ kvs)) \<Longrightarrow> loaded_fields kvs d = d @ kvs"
proof (induction v and vs and kvs d rule: loaded_loaded_items_loaded_fields.induct)
  case (7 k v kvs d)
  then have "dict_set k (loaded v) d = d @ [(k, v)]" by (simp add: dict_set_new)
  then show ?case using 7 by simp
qed auto

text \<open>
  a file that counts as readable hides nothing: no object in it repeats a key, and every string,
  number and truth value in it stands inside a row that is an object of its list.
\<close>

theorem readable_hides_nothing:
  assumes "\<not> unreadable env raw" "strip raw \<noteq> []"
  shows "\<exists>doc. ce_loads env raw = Some doc \<and> \<not> repeats doc
     \<and> (\<forall>x \<in> set (scalars doc). \<exists>rows r. file_rows (file_doc env raw) = Some rows \<and> r \<in> set rows \<and> is_obj r \<and> x \<in> set (scalars r))"
proof -
  obtain doc where doc: "ce_loads env raw = Some doc" "\<not> repeats doc"
    using assms by (auto simp: unreadable_def split: option.splits if_splits)
  have "\<exists>rows r. file_rows (file_doc env raw) = Some rows \<and> r \<in> set rows \<and> is_obj r \<and> x \<in> set (scalars r)"
    if x: "x \<in> set (scalars doc)" for x
  proof -
    have "\<not> nothing_in doc" using x nothing_scalars(1) by force
    then obtain rows where rows: "file_rows (file_doc env raw) = Some rows" "\<forall>r \<in> set rows. is_obj r" "is_obj doc"
      "\<forall>(k, v) \<in> set (fields_of doc). k = ''schedules'' \<or> nothing_in v"
      using assms doc by (fastforce simp: unreadable_def list_ex_iff split: option.splits if_splits)
    then obtain kvs where kvs: "doc = JObj kvs" "distinct (map fst kvs)" using doc(2) by (cases doc) auto
    obtain k v where kv: "(k, v) \<in> set kvs" "x \<in> set (scalars v)" using x kvs by (auto simp: scalars_fields_set)
    then have k: "k = ''schedules''" using rows(4) kvs nothing_scalars(1) [of v] by fastforce
    have "file_doc env raw = Some doc" using doc loaded_same(1) by (simp add: file_doc_def)
    then have "dict_get kvs k = Some (JArr rows)"
      using rows(1) kvs k by (auto simp: file_rows_def split: option.splits json.splits)
    moreover have "dict_get kvs k = Some v" using kv(1) kvs(2) by (simp add: dict_get_def)
    ultimately have "v = JArr rows" by simp
    then show ?thesis using kv(2) rows(1,2) by (auto simp: scalars_items_set)
  qed
  with doc show ?thesis by blast
qed

section \<open>Crediting\<close>

text \<open>The digest recorded for a row that names the workflow \<open>w\<close>.\<close>

definition consent_for :: "consent_env \<Rightarrow> reader \<Rightarrow> string \<Rightarrow> string \<Rightarrow> string \<Rightarrow> bool" where
  "consent_for env read item w d \<longleftrightarrow>
     unparsable_workflow env read item w = Some True \<and> d = UNPARSABLE_DIGEST
     \<or> unparsable_workflow env read item w = Some False \<and> workflow_digest env read item w = Some d"

definition credited_row :: "consent_env \<Rightarrow> reader \<Rightarrow> string \<Rightarrow> string \<Rightarrow> string \<Rightarrow> string \<Rightarrow> binding \<Rightarrow> bool" where
  "credited_row env read item author key w b \<longleftrightarrow>
     sb_trigger b = key \<and> sb_item b = item \<and> sb_user b = author \<and> sb_reason b = ''author'' \<and> consent_for env read item w (sb_digest b)"

context consent_table
begin

lemma credit_rows_rows:
  assumes "credit_rows api env read (\<lambda>_ s. s) now item path author s added = (s', res)"
  shows "(\<forall>k. rows s' k \<noteq> rows s k \<longrightarrow> rows s k = None \<and> (\<exists>w b e. (k, w) \<in> set added \<and> rows s' k = Some (b, e, False)
         \<and> credited_row env read item author k w b))
     \<and> (\<forall>ks. res = Inr ks \<longrightarrow> (\<forall>k \<in> set ks. rows s' k \<noteq> rows s k))"
  using assms
proof (induction added arbitrary: s s' res)
  case Nil
  then show ?case by auto
next
  case (Cons kw rest)
  obtain key w where kw: "kw = (key, w)" by (cases kw)
  let ?d = "case unparsable_workflow env read item w of None \<Rightarrow> None
    | Some True \<Rightarrow> Some UNPARSABLE_DIGEST | Some False \<Rightarrow> workflow_digest env read item w"
  let ?go = "credit_rows api env read (\<lambda>_ s. s) now item path author"
  consider (raised) "rows s' = rows s" "\<exists>e. res = Inl e" | (held) "?go s rest = (s', res)"
    | (new) d s1 old res1 where "rows s key = None" "?d = Some d" "?go s1 rest = (s', res1)" "res = map_sum id (Cons key) res1"
        "bind_row api s \<lparr>sb_trigger = key, sb_item = item, sb_path = path, sb_user = author, sb_bound_at = now,
            sb_digest = d, sb_reason = ''author'', sb_assigned_by = []\<rparr> = Inr (s1, old)"
  proof (cases "get_binding api s key")
    case (Inl e)
    then show ?thesis using Cons.prems kw raised by auto
  next
    case (Inr found)
    show ?thesis
    proof (cases found)
      case (Some b)
      then show ?thesis using Cons.prems kw Inr held by auto
    next
      case None
      then have none: "rows s key = None" and g: "get_binding api s key = Inr None" using Inr get_binding_none by auto
      show ?thesis
      proof (cases ?d)
        case None
        then show ?thesis using Cons.prems kw g raised by auto
      next
        case (Some d)
        let ?b = "\<lparr>sb_trigger = key, sb_item = item, sb_path = path, sb_user = author, sb_bound_at = now,
            sb_digest = d, sb_reason = ''author'', sb_assigned_by = []\<rparr>"
        obtain s1 old where b: "bind_row api s ?b = Inr (s1, old)"
          using bind_row_total [of s ?b] none by auto
        obtain s2 res1 where r: "?go s1 rest = (s2, res1)" by (cases "?go s1 rest")
        have "s2 = s'" "res = map_sum id (Cons key) res1"
          using Cons.prems kw g Some b r by (auto split: sum.splits)
        then show ?thesis using new none Some b r by blast
      qed
    qed
  qed
  then show ?case
  proof cases
    case raised
    then show ?thesis by auto
  next
    case held
    from Cons.IH [OF this] show ?thesis unfolding kw by (auto; blast)
  next
    case new
    obtain e where s1: "rows s1 = (rows s)(key \<mapsto> (\<lparr>sb_trigger = key, sb_item = item, sb_path = path, sb_user = author,
        sb_bound_at = now, sb_digest = d, sb_reason = ''author'', sb_assigned_by = []\<rparr>, e, False))"
      using bind_row_rows [OF new(5)] by auto
    have c: "consent_for env read item w d"
      using new(2) by (auto simp: consent_for_def split: option.splits bool.splits)
    have key: "rows s' key = rows s1 key" using Cons.IH [OF new(3)] s1 by (metis fun_upd_same option.distinct(1))
    have other: "k \<noteq> key \<Longrightarrow> rows s1 k = rows s k" for k by (simp add: s1)
    have here: "rows s' key \<noteq> rows s key" "\<exists>b e. rows s' key = Some (b, e, False) \<and> credited_row env read item author key w b"
      using key s1 c new(1) by (auto simp: credited_row_def)
    show ?thesis
    proof (intro conjI allI impI ballI)
      fix k assume k: "rows s' k \<noteq> rows s k"
      show "rows s k = None" using k new(1) Cons.IH [OF new(3)] other [of k] by metis
      show "\<exists>w b e. (k, w) \<in> set (kw # rest) \<and> rows s' k = Some (b, e, False) \<and> credited_row env read item author k w b"
      proof (cases "k = key")
        case True
        then show ?thesis using here(2) kw by auto
      next
        case False
        then have "rows s' k \<noteq> rows s1 k" using k other by simp
        then show ?thesis using Cons.IH [OF new(3)] by (meson list.set_intros(2))
      qed
    next
      fix ks k assume "res = Inr ks" "k \<in> set ks"
      then obtain ks1 where "res1 = Inr ks1" "k = key \<or> k \<in> set ks1" using new(4) by (cases res1) auto
      then show "rows s' k \<noteq> rows s k"
        using here(1) Cons.IH [OF new(3)] other [of k] key by (cases "k = key") auto
    qed
  qed
qed

text \<open>A row is moved only by its own turn in the loop.\<close>

lemma move_rows_rows:
  assumes "move_rows api env read (\<lambda>_ s. s) now item w author d s bs = (s', told, res)" "\<forall>b \<in> set bs. sb_digest b \<noteq> d"
    and "rows s' k \<noteq> rows s k"
  shows "\<exists>b e e'. b \<in> set bs \<and> k = sb_trigger b \<and> rows s k = Some (b, e, False) \<and> runs_in env read item (sb_path b) k = Some w
     \<and> rows s' k = Some (handed_over now item author d b, e', False)"
  using assms
proof (induction bs arbitrary: s s' told res k)
  case Nil
  then show ?case by simp
next
  case (Cons b bs)
  let ?go = "move_rows api env read (\<lambda>_ s. s) now item w author d"
  consider (skip) told1 res1 where "?go s bs = (s', told1, res1)" | (raised) "s' = s"
    | (moved) e s1 old told1 res1 where "rows s (sb_trigger b) = Some (b, e, False)" "runs_in env read item (sb_path b) (sb_trigger b) = Some w"
        "bind_row api s (handed_over now item author d b) = Inr (s1, old)" "?go s1 bs = (s', told1, res1)"
  proof (cases "runs_in env read item (sb_path b) (sb_trigger b) = Some w")
    case False
    then show ?thesis using Cons.prems(1) skip by simp
  next
    case True
    show ?thesis
    proof (cases "get_binding api s (sb_trigger b)")
      case (Inl x)
      then show ?thesis using Cons.prems(1) True raised by (simp add: Let_def)
    next
      case (Inr found)
      show ?thesis
      proof (cases "found = Some b")
        case False
        then show ?thesis using Cons.prems(1) True Inr skip by (simp add: Let_def)
      next
        case hit: True
        then obtain e where "rows s (sb_trigger b) = Some (b, e, False)" using Inr get_binding_some by blast
        then show ?thesis
          using Cons.prems(1) True Inr hit raised moved by (auto simp: Let_def split: sum.splits prod.splits)
      qed
    qed
  qed
  then show ?case
  proof cases
    case skip
    from Cons.IH [OF this _ Cons.prems(3)] Cons.prems(2) show ?thesis by (meson list.set_intros(2))
  next
    case raised
    then show ?thesis using Cons.prems(3) by simp
  next
    case moved
    obtain e' where s1: "rows s1 = (rows s)(sb_trigger b \<mapsto> (handed_over now item author d b, e', False))"
      using bind_row_rows [OF moved(3)] by (auto simp: handed_over_def)
    have same: "rows s' (sb_trigger b) = rows s1 (sb_trigger b)"
    proof (rule ccontr)
      assume "rows s' (sb_trigger b) \<noteq> rows s1 (sb_trigger b)"
      from Cons.IH [OF moved(4) _ this] Cons.prems(2) obtain x where "x \<in> set bs" "handed_over now item author d b = x"
        using s1 by auto
      then show False using Cons.prems(2) by (auto simp: handed_over_def)
    qed
    show ?thesis
    proof (cases "k = sb_trigger b")
      case True
      then show ?thesis using same s1 moved(1,2) by auto
    next
      case False
      then have "rows s' k \<noteq> rows s1 k" using Cons.prems(3) s1 by simp
      from Cons.IH [OF moved(4) _ this] Cons.prems(2) obtain x e e' where
        "x \<in> set bs" "k = sb_trigger x" "rows s1 k = Some (x, e, False)" "runs_in env read item (sb_path x) k = Some w"
        "rows s' k = Some (handed_over now item author d x, e', False)" by auto
      then show ?thesis using False s1 by auto
    qed
  qed
qed

end

lemma credit_effect:
  fixes api :: "('s, binding) row_api"
  assumes "row_store api rows" "credit api env au (\<lambda>_ s. s) now s item path before after author = (s', ks)"
  shows "(\<forall>k. rows s' k \<noteq> rows s k \<longrightarrow> rows s k = None \<and> author \<noteq> [] \<and> au_may_run au author item = Some True
      \<and> (\<forall>b. before = Some b \<longrightarrow> \<not> unreadable env b \<and> (b \<noteq> [] \<longrightarrow> k \<notin> fst ` set (file_keys env item path b)))
      \<and> (\<exists>r b e. (k, r) \<in> set (file_keys env item path after) \<and> rows s' k = Some (b, e, False)
           \<and> credited_row env (au_read au) item author k (ur_run r) b))
    \<and> (\<forall>k \<in> set ks. rows s' k \<noteq> rows s k)"
proof -
  note l = consent_table.intro [OF assms(1)]
  obtain res where c: "credit_checked api env au (\<lambda>_ s. s) now s item path before after author = (s', res)"
    "\<And>k. k \<in> set ks \<Longrightarrow> \<exists>ks. res = Inr ks \<and> k \<in> set ks"
    using assms(2) by (auto simp: credit_def split: prod.splits sum.splits)
  consider (nothing) "s' = s" "\<forall>ks. res = Inr ks \<longrightarrow> ks = []"
    | (rows) "author \<noteq> []" "\<forall>b. before = Some b \<longrightarrow> \<not> unreadable env b" "au_may_run au author item = Some True"
        "credit_rows api env (au_read au) (\<lambda>_ s. s) now item path author s (added_rows env item path before after) = (s', res)"
    using c(1) by (auto simp: credit_checked_def Let_def split: if_splits option.splits bool.splits)
  then show ?thesis
  proof cases
    case nothing
    then show ?thesis using c(2) by fastforce
  next
    case rows
    have added: "\<exists>r. (k, r) \<in> set (file_keys env item path after) \<and> w = ur_run r
        \<and> (\<forall>b. before = Some b \<longrightarrow> b \<noteq> [] \<longrightarrow> k \<notin> fst ` set (file_keys env item path b))"
      if "(k, w) \<in> set (added_rows env item path before after)" for k w
      using that by (auto simp: added_rows_def Let_def split: option.splits if_splits)
    show ?thesis
      using consent_table.credit_rows_rows [OF l rows(4)] added rows(1,2,3) c(2) by (intro conjI allI impI ballI; metis)
  qed
qed

text \<open>
  a write of a schedules file credits its author with rows it added and nothing else: every
  binding it changes was nobody's, is for a row of the file after the write that a readable file
  before it did not hold, and now names the author, who may run work in the item, with the workflow
  as it is. Everything it reports it bound.
\<close>

theorem credit_touches_only_new_rows:
  fixes api :: "('s, binding) row_api"
  assumes "row_store api rows" "credit api env au (\<lambda>_ s. s) now s item path before after author = (s', ks)"
  shows "(\<forall>k. rows s' k \<noteq> rows s k \<longrightarrow> rows s k = None \<and> author \<noteq> [] \<and> au_may_run au author item = Some True
      \<and> (\<forall>b. before = Some b \<longrightarrow> \<not> unreadable env b \<and> (b \<noteq> [] \<longrightarrow> k \<notin> fst ` set (file_keys env item path b)))
      \<and> (\<exists>r b e. (k, r) \<in> set (file_keys env item path after) \<and> rows s' k = Some (b, e, False)
           \<and> credited_row env (au_read au) item author k (ur_run r) b))
    \<and> (\<forall>k \<in> set ks. rows s' k \<noteq> rows s k)"
  by (rule credit_effect [OF assms])

lemma written_effect:
  fixes api :: "('s, binding) row_api"
  assumes "row_store api rows" "workflow_written api env au (\<lambda>_ s. s) now s item w author written = (s', told, ks)"
    and "rows s' k \<noteq> rows s k"
  shows "\<exists>b e e' d. rows s k = Some (b, e, False) \<and> sb_trigger b = k \<and> sb_item b = item \<and> runs_in env (au_read au) item (sb_path b) k = Some w
     \<and> sb_digest b \<noteq> d \<and> workflow_digest env (au_read au) item w = Some d
     \<and> au_may_run au author item = Some True \<and> rows s' k = Some (handed_over now item author d b, e', False)"
proof -
  note l = consent_table.intro [OF assms(1)]
  have s: "s' \<noteq> s" using assms(3) by auto
  obtain d res where d: "workflow_digest env (au_read au) item w = Some d" "au_may_run au author item = Some True"
    "move_rows api env (au_read au) (\<lambda>_ s. s) now item w author d s (filter (\<lambda>b. sb_digest b \<noteq> d) (for_item api s item)) = (s', told, res)"
    using assms(2) s by (auto simp: workflow_written_def written_checked_def Let_def split: prod.splits sum.splits if_splits option.splits bool.splits)
  obtain b e e' where b: "b \<in> set (for_item api s item)" "sb_digest b \<noteq> d" "k = sb_trigger b" "rows s k = Some (b, e, False)"
    "runs_in env (au_read au) item (sb_path b) k = Some w" "rows s' k = Some (handed_over now item author d b, e', False)"
    using consent_table.move_rows_rows [OF l d(3) _ assms(3)] by auto
  have "sb_item b = item" using b(1) consent_table.for_item_iff [OF l] by auto
  then show ?thesis using b d by blast
qed

text \<open>What someone wrote is a workflow, it still stands in the file, and they may run work in the item.\<close>

definition stands :: "consent_env \<Rightarrow> authorship \<Rightarrow> string \<Rightarrow> string \<Rightarrow> string \<Rightarrow> string \<Rightarrow> string \<Rightarrow> bool" where
  "stands env au item w author written d \<longleftrightarrow>
     author \<noteq> [] \<and> au_may_run au author item = Some True \<and> workflow_digest env (au_read au) item w = Some d
     \<and> (let read = (\<lambda>i at_path. if at_path = workspace_workflow_path w then Fetched written else au_read au i at_path)
        in unparsable_workflow env read item w = Some False \<and> workflow_digest env read item w = Some d)"

context consent_table
begin

lemma for_item_distinct: "keyed sb_trigger s \<Longrightarrow> distinct (map sb_trigger (for_item api s item))"
proof -
  assume k: "keyed sb_trigger s"
  have "map sb_trigger (for_item api s item) = map fst (filter (\<lambda>(i, b, e, d). sb_item b = item) (rm_list api s))"
    using k by (auto simp: for_item_def keyed_def list_rows)
  then show ?thesis using list_distinct [of s] by (simp add: distinct_map_filter)
qed

text \<open>With nobody else at the table, the loop moves exactly the rows that run the workflow.\<close>

lemma move_rows_exact:
  assumes "\<forall>b \<in> set bs. \<exists>e. rows s (sb_trigger b) = Some (b, e, False)" "distinct (map sb_trigger bs)"
  obtains s' where "move_rows api env read (\<lambda>_ s. s) now item w author d s bs
      = (s', map (\<lambda>b. (b, author)) (filter (\<lambda>b. sb_user b \<noteq> author) (filter (\<lambda>b. runs_in env read item (sb_path b) (sb_trigger b) = Some w) bs)),
         Inr (map sb_trigger (filter (\<lambda>b. runs_in env read item (sb_path b) (sb_trigger b) = Some w) bs)))"
    "\<And>b. b \<in> set bs \<Longrightarrow> runs_in env read item (sb_path b) (sb_trigger b) = Some w \<Longrightarrow>
        \<exists>e. rows s' (sb_trigger b) = Some (handed_over now item author d b, e, False)"
    "\<And>k. \<not> (\<exists>b \<in> set bs. sb_trigger b = k \<and> runs_in env read item (sb_path b) k = Some w) \<Longrightarrow> rows s' k = rows s k"
  using assms
proof (induction bs arbitrary: s thesis)
  case Nil
  show ?case by (rule Nil(1)) simp_all
next
  case (Cons b bs)
  show ?case
  proof (cases "runs_in env read item (sb_path b) (sb_trigger b) = Some w")
    case False
    show ?thesis by (rule Cons.IH [of s]) (use Cons.prems False in auto)
  next
    case True
    obtain e where b: "rows s (sb_trigger b) = Some (b, e, False)" using Cons.prems(2) by auto
    have trigger: "sb_trigger (handed_over now item author d b) = sb_trigger b" by (simp add: handed_over_def)
    obtain s1 old where bind: "bind_row api s (handed_over now item author d b) = Inr (s1, old)"
      using bind_row_total [of s "handed_over now item author d b"] b trigger by auto
    obtain e1 where s1: "rows s1 = (rows s)(sb_trigger b \<mapsto> (handed_over now item author d b, e1, False))"
      by (rule bind_row_rows [OF bind]) (simp add: trigger)
    have "get_binding api s (sb_trigger b) = Inr (Some b)" using b get_binding_some by blast
    note step = this True bind
    show ?thesis
    proof (rule Cons.IH [of s1])
      show "\<forall>c \<in> set bs. \<exists>e. rows s1 (sb_trigger c) = Some (c, e, False)"
      proof
        fix c assume c: "c \<in> set bs"
        have "sb_trigger b \<notin> sb_trigger ` set bs" using Cons.prems(3) by simp
        with c have "sb_trigger c \<noteq> sb_trigger b" by (metis imageI)
        moreover have "\<exists>e. rows s (sb_trigger c) = Some (c, e, False)" using Cons.prems(2) c by simp
        ultimately show "\<exists>e. rows s1 (sb_trigger c) = Some (c, e, False)" unfolding s1 by simp
      qed
      show "distinct (map sb_trigger bs)" using Cons.prems(3) by simp
    next
      fix s'
      assume m: "move_rows api env read (\<lambda>_ s. s) now item w author d s1 bs
          = (s', map (\<lambda>b. (b, author)) (filter (\<lambda>b. sb_user b \<noteq> author) (filter (\<lambda>b. runs_in env read item (sb_path b) (sb_trigger b) = Some w) bs)),
             Inr (map sb_trigger (filter (\<lambda>b. runs_in env read item (sb_path b) (sb_trigger b) = Some w) bs)))"
        and hit: "\<And>c. c \<in> set bs \<Longrightarrow> runs_in env read item (sb_path c) (sb_trigger c) = Some w \<Longrightarrow>
          \<exists>e. rows s' (sb_trigger c) = Some (handed_over now item author d c, e, False)"
        and rest: "\<And>k. \<not> (\<exists>c \<in> set bs. sb_trigger c = k \<and> runs_in env read item (sb_path c) k = Some w) \<Longrightarrow> rows s' k = rows s1 k"
      have "sb_trigger b \<notin> sb_trigger ` set bs" using Cons.prems(3) by simp
      then have here: "rows s' (sb_trigger b) = rows s1 (sb_trigger b)" by (intro rest) (metis imageI)
      show ?thesis
      proof (rule Cons.prems(1))
        show "rows s' k = rows s k" if "\<not> (\<exists>c \<in> set (b # bs). sb_trigger c = k \<and> runs_in env read item (sb_path c) k = Some w)" for k
          using rest [of k] that s1 True by auto
        show "\<exists>e. rows s' (sb_trigger c) = Some (handed_over now item author d c, e, False)"
          if "c \<in> set (b # bs)" "runs_in env read item (sb_path c) (sb_trigger c) = Some w" for c
          using that hit here s1 by auto
      qed (use m step in auto)
    qed
  qed
qed

lemma written_when:
  assumes "workflow_written api env au (\<lambda>_ s. s) now s item w author written = (s', told, ks)"
  shows "s' = s \<and> told = [] \<and> ks = [] \<and> \<not> (\<exists>d. stands env au item w author written d \<and> filter (\<lambda>b. sb_digest b \<noteq> d) (for_item api s item) \<noteq> [])
    \<or> (\<exists>d res. stands env au item w author written d
        \<and> move_rows api env (au_read au) (\<lambda>_ s. s) now item w author d s (filter (\<lambda>b. sb_digest b \<noteq> d) (for_item api s item)) = (s', told, res)
        \<and> ks = (case res of Inr ks \<Rightarrow> ks | Inl e \<Rightarrow> []))"
  using assms
  by (auto simp: workflow_written_def written_checked_def stands_def Let_def
      split: prod.splits sum.splits if_splits option.splits bool.splits)

end

context consent_table
begin

lemma for_item_clean:
  assumes "keyed sb_trigger s" "\<forall>k b e d. rows s k = Some (b, e, d) \<longrightarrow> \<not> d"
  shows "b \<in> set (for_item api s item) \<longleftrightarrow> sb_item b = item \<and> (\<exists>e. rows s (sb_trigger b) = Some (b, e, False))"
proof -
  have "rows s k = Some (c, e, d) \<Longrightarrow> sb_trigger c = k" for k c e d using assms(1) unfolding keyed_def by blast
  then have "(\<exists>k e d. rows s k = Some (b, e, d)) \<longleftrightarrow> (\<exists>e. rows s (sb_trigger b) = Some (b, e, False))"
    using assms(2) by (metis (full_types))
  then show ?thesis unfolding for_item_iff by simp
qed

abbreviation runs_it :: "consent_env \<Rightarrow> authorship \<Rightarrow> string \<Rightarrow> string \<Rightarrow> binding \<Rightarrow> bool" where
  "runs_it env au item w b \<equiv> runs_in env (au_read au) item (sb_path b) (sb_trigger b) = Some w"

text \<open>The stale bindings of the item that run the workflow move, and no others.\<close>

lemma stale_move:
  assumes "keyed sb_trigger s" "\<forall>k b e d. rows s k = Some (b, e, d) \<longrightarrow> \<not> d"
    and "hit = filter (runs_it env au item w) (filter (\<lambda>b. sb_digest b \<noteq> d) (for_item api s item))"
    and "move_rows api env (au_read au) (\<lambda>_ s. s) now item w author d s (filter (\<lambda>b. sb_digest b \<noteq> d) (for_item api s item)) = (s', told, res)"
  shows "told = map (\<lambda>b. (b, author)) (filter (\<lambda>b. sb_user b \<noteq> author) hit)" "res = Inr (map sb_trigger hit)"
    and "b \<in> set hit \<Longrightarrow> \<exists>e. rows s' (sb_trigger b) = Some (handed_over now item author d b, e, False)"
    and "rows s' k \<noteq> rows s k \<longleftrightarrow> k \<in> sb_trigger ` set hit"
proof -
  let ?stale = "filter (\<lambda>b. sb_digest b \<noteq> d) (for_item api s item)"
  note bound = for_item_clean [OF assms(1,2)]
  obtain s1 where s1: "move_rows api env (au_read au) (\<lambda>_ s. s) now item w author d s ?stale
      = (s1, map (\<lambda>b. (b, author)) (filter (\<lambda>b. sb_user b \<noteq> author) (filter (runs_it env au item w) ?stale)),
         Inr (map sb_trigger (filter (runs_it env au item w) ?stale)))"
    and moved: "\<And>b. b \<in> set ?stale \<Longrightarrow> runs_it env au item w b \<Longrightarrow>
        \<exists>e. rows s1 (sb_trigger b) = Some (handed_over now item author d b, e, False)"
    and rest: "\<And>k. \<not> (\<exists>b \<in> set ?stale. sb_trigger b = k \<and> runs_in env (au_read au) item (sb_path b) k = Some w) \<Longrightarrow> rows s1 k = rows s k"
    by (rule move_rows_exact [where bs = ?stale and s = s and env = env and read = "au_read au" and item = item
            and w = w and author = author and now = now and d = d])
       (use bound for_item_distinct [OF assms(1)] in \<open>auto simp: distinct_map_filter\<close>)
  have eqs: "s1 = s'" "told = map (\<lambda>b. (b, author)) (filter (\<lambda>b. sb_user b \<noteq> author) hit)" "res = Inr (map sb_trigger hit)"
    using s1 assms(3,4) by auto
  then show "told = map (\<lambda>b. (b, author)) (filter (\<lambda>b. sb_user b \<noteq> author) hit)" "res = Inr (map sb_trigger hit)" by simp_all
  show now_his: "\<exists>e. rows s' (sb_trigger b) = Some (handed_over now item author d b, e, False)" if "b \<in> set hit" for b
    using that moved [of b] assms(3) eqs(1) by simp
  have changed: "sb_digest b \<noteq> d \<Longrightarrow> handed_over now item author d b \<noteq> b" for b
    by (cases b) (simp add: handed_over_def)
  show "rows s' k \<noteq> rows s k \<longleftrightarrow> k \<in> sb_trigger ` set hit"
  proof
    assume "rows s' k \<noteq> rows s k"
    then show "k \<in> sb_trigger ` set hit" using rest [of k] assms(3) eqs(1) by auto
  next
    assume "k \<in> sb_trigger ` set hit"
    then obtain b where b: "b \<in> set hit" "k = sb_trigger b" by blast
    moreover obtain e where "rows s k = Some (b, e, False)" using b bound assms(3) by auto
    moreover have "sb_digest b \<noteq> d" using b assms(3) by simp
    ultimately show "rows s' k \<noteq> rows s k"
      using now_his [of b] changed [of b] by auto
  qed
qed

end

text \<open>
  C32: the workflow of an item is written.  The bindings that change are exactly those of the item, for
  a row that runs this workflow, made for another text of it, and only when what was written is a
  workflow that still stands in the file and its writer may run work there.  Each now names the writer
  and the text they wrote, and the next fire of its row runs as them; the keys answered are these, and
  those told are these bindings' holders other than the writer.
\<close>

theorem rewritten_workflow_runs_as_writer:
  fixes api :: "('s, binding) row_api"
  assumes "row_store api rows" "row_store.keyed rows sb_trigger s" "\<forall>k b e d. rows s k = Some (b, e, d) \<longrightarrow> \<not> d"
    and "workflow_written api env au (\<lambda>_ s. s) now s item w author written = (s', told, ks)"
  shows "(\<forall>k. rows s' k \<noteq> rows s k \<longleftrightarrow> (\<exists>b e d. stands env au item w author written d \<and> rows s k = Some (b, e, False)
          \<and> sb_item b = item \<and> sb_digest b \<noteq> d \<and> runs_in env (au_read au) item (sb_path b) k = Some w))
     \<and> set ks = {k. rows s' k \<noteq> rows s k}
     \<and> set told = {(b, author) | b. \<exists>k e. rows s k = Some (b, e, False) \<and> rows s' k \<noteq> rows s k \<and> sb_user b \<noteq> author}
     \<and> (\<forall>k b e. rows s k = Some (b, e, False) \<longrightarrow> rows s' k \<noteq> rows s k \<longrightarrow> (\<exists>d e'. stands env au item w author written d
          \<and> rows s' k = Some (handed_over now item author d b, e', False)
          \<and> binder_for api env (Some (au_may_run au)) (au_read au) s' item k w = (s', [], author, Some d)))"
proof -
  note l = consent_table.intro [OF assms(1)]
  note bound = consent_table.for_item_clean [OF l assms(2,3)]
  have trigger: "rows s k = Some (b, e, d) \<Longrightarrow> sb_trigger b = k" for k b e d
    using assms(2) unfolding row_store.keyed_def [OF assms(1)] by blast
  from consent_table.written_when [OF l assms(4)] show ?thesis
  proof (elim disjE exE conjE)
    assume "s' = s" "told = []" "ks = []"
      and "\<not> (\<exists>d. stands env au item w author written d \<and> filter (\<lambda>b. sb_digest b \<noteq> d) (for_item api s item) \<noteq> [])"
    then show ?thesis using bound trigger by (auto simp: filter_empty_conv)
  next
    fix d res
    let ?hit = "filter (\<lambda>b. runs_in env (au_read au) item (sb_path b) (sb_trigger b) = Some w)
        (filter (\<lambda>b. sb_digest b \<noteq> d) (for_item api s item))"
    assume st: "stands env au item w author written d" and ks: "ks = (case res of Inr ks \<Rightarrow> ks | Inl e \<Rightarrow> [])"
      and m: "move_rows api env (au_read au) (\<lambda>_ s. s) now item w author d s (filter (\<lambda>b. sb_digest b \<noteq> d) (for_item api s item)) = (s', told, res)"
    have only: "d' = d" if "stands env au item w author written d'" for d' using st that by (simp add: stands_def)
    note moves = consent_table.stale_move [OF l assms(2,3) refl m]
    have hit: "b \<in> set ?hit \<and> sb_trigger b = k \<longleftrightarrow> (\<exists>e. rows s k = Some (b, e, False)) \<and> sb_item b = item
        \<and> sb_digest b \<noteq> d \<and> runs_in env (au_read au) item (sb_path b) k = Some w" for b k
      using bound trigger by auto
    have row: "b \<in> set ?hit \<longleftrightarrow> (\<exists>k e. rows s k = Some (b, e, False) \<and> rows s' k \<noteq> rows s k)" for b
    proof
      assume b: "b \<in> set ?hit"
      then have "rows s' (sb_trigger b) \<noteq> rows s (sb_trigger b)" unfolding moves(4) by (rule imageI)
      with b bound show "\<exists>k e. rows s k = Some (b, e, False) \<and> rows s' k \<noteq> rows s k" by auto
    next
      assume "\<exists>k e. rows s k = Some (b, e, False) \<and> rows s' k \<noteq> rows s k"
      then obtain k e c where c: "rows s k = Some (b, e, False)" "c \<in> set ?hit" "sb_trigger c = k"
        unfolding moves(4) image_iff by blast
      then show "b \<in> set ?hit" using hit [of c k] by auto
    qed
    have fires: "binder_for api env (Some (au_may_run au)) (au_read au) s' item k w = (s', [], author, Some d)"
      if "rows s' k = Some (handed_over now item author d b, e', False)" for k b e'
    proof -
      have "get_binding api s' k = Inr (Some (handed_over now item author d b))"
        using consent_table.get_binding_some [OF l] that by blast
      then show ?thesis using st by (simp add: binder_for_def checked_binder_def workflow_changed_def handed_over_def stands_def)
    qed
    show ?thesis
    proof (intro conjI allI impI)
      show "rows s' k \<noteq> rows s k \<longleftrightarrow> (\<exists>b e d. stands env au item w author written d \<and> rows s k = Some (b, e, False)
          \<and> sb_item b = item \<and> sb_digest b \<noteq> d \<and> runs_in env (au_read au) item (sb_path b) k = Some w)" for k
      proof -
        have "k \<in> sb_trigger ` set ?hit \<longleftrightarrow> (\<exists>b. b \<in> set ?hit \<and> sb_trigger b = k)" by blast
        then show ?thesis unfolding moves(4) hit using st only by blast
      qed
      show "set ks = {k. rows s' k \<noteq> rows s k}" unfolding moves(4) ks moves(2) by auto
      show "set told = {(b, author) | b. \<exists>k e. rows s k = Some (b, e, False) \<and> rows s' k \<noteq> rows s k \<and> sb_user b \<noteq> author}"
        unfolding moves(1) set_map using row by (auto simp del: filter_filter)
    next
      fix k b e assume b: "rows s k = Some (b, e, False)" "rows s' k \<noteq> rows s k"
      then have "\<exists>e'. rows s' k = Some (handed_over now item author d b, e', False)"
        using moves(3) [of b] row trigger by blast
      then show "\<exists>d e'. stands env au item w author written d \<and> rows s' k = Some (handed_over now item author d b, e', False)
          \<and> binder_for api env (Some (au_may_run au)) (au_read au) s' item k w = (s', [], author, Some d)"
        using st fires by blast
    qed
  qed
qed

text \<open>
  a binding whose workflow would not parse when it was made never lends anyone's values: once the
  live file answers, the check drops it, whatever the answer.
\<close>

theorem broken_row_lends_nothing:
  fixes api :: "('s, binding) row_api"
  assumes "row_store api rows" "rows s key = Some (b, e, False)" "sb_digest b = UNPARSABLE_DIGEST"
    and "\<forall>raw. ce_sha env raw \<noteq> UNPARSABLE_DIGEST" "workflow_digest env live item w = Some d"
    and "binder_for api env may live s item key w = (s', told, who, digest)"
  shows "who = []"
proof -
  note l = consent_table.intro [OF assms(1)]
  have "d \<noteq> sb_digest b"
    using assms(3,4,5) by (auto simp: workflow_digest_def UNPARSABLE_DIGEST_def split: if_splits fetched.splits)
  then show ?thesis
    using assms(2,5,6) by (cases rule: consent_table.checked_cases [OF l, of env may live s item key w])
      (auto simp: binder_for_def workflow_changed_def)
qed

lemma press_row_binds:
  assumes "press_row api env files now s me item key path who run = Inr (s', who', old)"
  obtains d where "who' = who" "workflow_digest env files item run = Some d"
    "bind_row api s \<lparr>sb_trigger = key, sb_item = item, sb_path = path, sb_user = who, sb_bound_at = now, sb_digest = d,
       sb_reason = (if who \<noteq> me then ''admin'' else ''self''), sb_assigned_by = (if who \<noteq> me then me else [])\<rparr> = Inr (s', old)"
  using assms by (auto simp: press_row_def split: option.splits bool.splits sum.splits)

text \<open>The rows someone can put a name to there: of a schedules file of an item they may run work in.\<close>

definition pressable :: "consent_env \<Rightarrow> consent_site \<Rightarrow> string \<Rightarrow> string \<Rightarrow> string \<Rightarrow> string set" where
  "pressable env site me item path =
     {k. cs_access site ''execute'' me item \<and> base_of path = SCHEDULES_FILE
        \<and> (\<exists>raw. cs_files site item path = Fetched raw \<and> k \<in> fst ` set (file_keys env item path raw))}"

lemma press_binds:
  assumes "press api env site now s me item key path user = Inr (s', who, old)"
  obtains (already) "s' = s" "who \<noteq> me"
  | (bound) d where "who \<noteq> me \<Longrightarrow> me \<in> cs_superusers site \<and> cs_may_run site who item" "key \<in> pressable env site me item path"
    "bind_row api s \<lparr>sb_trigger = key, sb_item = item, sb_path = path, sb_user = who, sb_bound_at = now, sb_digest = d,
       sb_reason = (if who \<noteq> me then ''admin'' else ''self''), sb_assigned_by = (if who \<noteq> me then me else [])\<rparr> = Inr (s', old)"
proof -
  obtain w where w: "w = (if user \<noteq> [] then user else me)" by simp
  have keyed: "k \<in> fst ` set xs" if "map_of (rev xs) k = Some r" for k r and xs :: "(string \<times> user_row) list"
    using map_of_SomeD [OF that] by force
  have go: "w \<noteq> me \<longrightarrow> me \<in> cs_superusers site \<and> cs_may_run site w item"
    "s' = s \<and> who = w \<and> w \<noteq> me
     \<or> key \<in> pressable env site me item path \<and> (\<exists>run. press_row api env (cs_files site) now s me item key path w run = Inr (s', who, old))"
    using assms unfolding press_def Let_def w [symmetric]
    by (auto simp: pressable_def route_keys_def dest: keyed split: if_split_asm sum.split_asm option.split_asm fetched.split_asm)
  from go(2) show ?thesis
  proof (elim disjE exE conjE)
    fix run assume key: "key \<in> pressable env site me item path"
      and row: "press_row api env (cs_files site) now s me item key path w run = Inr (s', who, old)"
    show ?thesis by (rule press_row_binds [OF row]) (use key go(1) bound in auto)
  qed (use already in simp)
qed

text \<open>
  C33: credit looks for a holder before it reads the row's workflow and not again before it binds.
  Someone who presses "Run as me" while the workflow is read is replaced by the author, although a
  row is credited only when nobody holds it.
\<close>

theorem credit_overwrites_press:
  fixes api :: "('s, binding) row_api"
  assumes "row_store api rows" "rows s key = None" "press api env site now s me item key path [] = Inr (s1, me, [])"
    and "unparsable_workflow env read item w = Some False" "workflow_digest env read item w = Some d" "me \<noteq> author"
  shows "\<exists>s' b e. binder_of api s1 key = Inr me \<and> credit_rows api env read (\<lambda>_ _. s1) now item path author s [(key, w)] = (s', Inr [key])
     \<and> rows s' key = Some (b, e, False) \<and> sb_user b = author"
proof -
  note l = consent_table.intro [OF assms(1)]
  obtain old bm where press: "bind_row api s bm = Inr (s1, old)" "sb_trigger bm = key" "sb_user bm = me"
    by (rule press_binds [OF assms(3)]) (use that in auto)
  obtain e1 where s1: "rows s1 key = Some (bm, e1, False)"
    by (rule consent_table.bind_row_rows [OF l press(1)]) (simp add: press(2))
  let ?b = "\<lparr>sb_trigger = key, sb_item = item, sb_path = path, sb_user = author, sb_bound_at = now,
       sb_digest = d, sb_reason = ''author'', sb_assigned_by = []\<rparr>"
  obtain s' old' where bind: "bind_row api s1 ?b = Inr (s', old')"
    using consent_table.bind_row_total [OF l, of s1 ?b] s1 by auto
  obtain e where s': "rows s' key = Some (?b, e, False)"
    by (rule consent_table.bind_row_rows [OF l bind]) simp
  have "get_binding api s key = Inr None" "get_binding api s1 key = Inr (Some bm)"
    using consent_table.get_binding_none [OF l] consent_table.get_binding_some [OF l] assms(2) s1 by auto
  then show ?thesis using assms(4,5) bind s' press(3) by (auto simp: binder_of_def bindE_def)
qed

section \<open>Who put a name in the table\<close>

text \<open>
  What people did, with the rows that this entitles them to: pressed "Run as me", named someone, wrote
  rows, wrote a workflow.
\<close>

datatype deed =
  Pressed string "string set" | Named string string "string set" | WroteRows string "string set" | WroteWorkflow string "string set"

text \<open>The rows a write adds, when what it replaced hid none and its author may run work in the item.\<close>

definition wrote :: "consent_env \<Rightarrow> authorship \<Rightarrow> string \<Rightarrow> string \<Rightarrow> string option \<Rightarrow> string \<Rightarrow> string \<Rightarrow> string set" where
  "wrote env au item path before after author =
     {k. k \<in> fst ` set (file_keys env item path after) \<and> au_may_run au author item = Some True
        \<and> (\<forall>b. before = Some b \<longrightarrow> \<not> unreadable env b \<and> (b = [] \<or> k \<notin> fst ` set (file_keys env item path b)))}"

text \<open>The bound rows of the item that run what someone wrote and that still stands.\<close>

definition rewrote ::
  "('s, binding) row_api \<Rightarrow> consent_env \<Rightarrow> authorship \<Rightarrow> 's \<Rightarrow> string \<Rightarrow> string \<Rightarrow> string \<Rightarrow> string \<Rightarrow> string set" where
  "rewrote api env au s item w author written =
     {k. \<exists>b d. get_binding api s k = Inr (Some b) \<and> sb_item b = item \<and> runs_in env (au_read au) item (sb_path b) k = Some w
        \<and> stands env au item w author written d}"

definition named :: "consent_env \<Rightarrow> consent_site \<Rightarrow> string \<Rightarrow> string \<Rightarrow> string \<Rightarrow> string \<Rightarrow> string set" where
  "named env site me who item path =
     (if me \<in> cs_superusers site \<and> cs_may_run site who item then pressable env site me item path else {})"

record 's consents =
  co_table :: 's
  co_deeds :: "deed list"

text \<open>One operation of the routes, the doors that write files and the sweep, at any time and with any files.\<close>

inductive consent_step :: "('s, binding) row_api \<Rightarrow> 's consents \<Rightarrow> 's consents \<Rightarrow> bool" for api where
  presses: "press api env site now (co_table c) me item key path user = Inr (s', who, old) \<Longrightarrow>
     consent_step api c \<lparr>co_table = s',
       co_deeds = (if who = me then Pressed me (pressable env site me item path) else Named me who (named env site me who item path)) # co_deeds c\<rparr>"
| stops: "stop_running api site (co_table c) me item key path = Inr s' \<Longrightarrow> consent_step api c (c\<lparr>co_table := s'\<rparr>)"
| writes_rows: "credit api env au (\<lambda>_ s. s) now (co_table c) item path before after author = (s', ks) \<Longrightarrow>
     consent_step api c \<lparr>co_table = s', co_deeds = WroteRows author (wrote env au item path before after author) # co_deeds c\<rparr>"
| writes_workflow: "workflow_written api env au (\<lambda>_ s. s) now (co_table c) item w author written = (s', told, ks) \<Longrightarrow>
     consent_step api c \<lparr>co_table = s', co_deeds = WroteWorkflow author (rewrote api env au (co_table c) item w author written) # co_deeds c\<rparr>"
| fires: "binder_for api env may live (co_table c) item key w = (s', told, who, digest) \<Longrightarrow>
     consent_step api c (c\<lparr>co_table := s'\<rparr>)"
| sweeps: "sweep_consents api env n snapshot answer (co_table c) item path = (s', told) \<Longrightarrow>
     consent_step api c (c\<lparr>co_table := s'\<rparr>)"
| item_goes: "purge_item api (co_table c) item = (s', res) \<Longrightarrow> consent_step api c (c\<lparr>co_table := s'\<rparr>)"

inductive consents_reached :: "('s, binding) row_api \<Rightarrow> 's \<Rightarrow> 's consents \<Rightarrow> bool" for api s0 where
  start: "consents_reached api s0 \<lparr>co_table = s0, co_deeds = []\<rparr>"
| step: "consents_reached api s0 c \<Longrightarrow> consent_step api c c' \<Longrightarrow> consents_reached api s0 c'"

text \<open>Why a name is in the table.\<close>

definition vouched :: "deed list \<Rightarrow> binding \<Rightarrow> bool" where
  "vouched deeds b \<longleftrightarrow> (\<exists>ks. sb_trigger b \<in> ks \<and>
     (sb_reason b = ''self'' \<and> Pressed (sb_user b) ks \<in> set deeds
      \<or> sb_reason b = ''author'' \<and> WroteRows (sb_user b) ks \<in> set deeds
      \<or> sb_reason b = ''workflow'' \<and> WroteWorkflow (sb_user b) ks \<in> set deeds
      \<or> sb_reason b = ''admin'' \<and> Named (sb_assigned_by b) (sb_user b) ks \<in> set deeds))"

lemma vouched_mono: "vouched deeds b \<Longrightarrow> vouched (x # deeds) b"
  by (auto simp: vouched_def)

context consent_table
begin

lemma written_entitled:
  assumes "workflow_written api env au (\<lambda>_ s. s) now s item w author written = (s', told, ks)" "rows s' k \<noteq> rows s k"
  shows "\<exists>b e e' d. rows s k = Some (b, e, False) \<and> sb_trigger b = k \<and> rows s' k = Some (handed_over now item author d b, e', False)
     \<and> k \<in> rewrote api env au s item w author written"
proof -
  obtain b e e' d where b: "rows s k = Some (b, e, False)" "sb_trigger b = k" "sb_item b = item"
    "runs_in env (au_read au) item (sb_path b) k = Some w" "rows s' k = Some (handed_over now item author d b, e', False)"
    using written_effect [OF row_store_axioms assms] by blast
  moreover have "get_binding api s k = Inr (Some b)" using b(1) get_binding_some by blast
  moreover obtain d' where "stands env au item w author written d'"
    using written_when [OF assms(1)] assms(2) by blast
  ultimately show ?thesis unfolding rewrote_def by blast
qed

lemma credited_wrote:
  assumes "credit api env au (\<lambda>_ s. s) now s item path before after author = (s', ks)" "rows s' k \<noteq> rows s k"
  shows "\<exists>b e. rows s' k = Some (b, e, False) \<and> sb_trigger b = k \<and> sb_user b = author \<and> sb_reason b = ''author''
     \<and> k \<in> wrote env au item path before after author"
  using credit_effect [OF row_store_axioms assms(1), THEN conjunct1, rule_format, OF assms(2)]
  unfolding wrote_def credited_row_def by (elim conjE exE) (auto intro!: image_eqI)

definition names_ok :: "'s consents \<Rightarrow> bool" where
  "names_ok c \<longleftrightarrow> (\<forall>k b e d. rows (co_table c) k = Some (b, e, d) \<longrightarrow> sb_trigger b = k \<and> vouched (co_deeds c) b)"

lemma names_okD: "names_ok c \<Longrightarrow> rows (co_table c) k = Some (b, e, d) \<Longrightarrow> sb_trigger b = k \<and> vouched (co_deeds c) b"
  unfolding names_ok_def by blast

text \<open>Every operation only removes rows, or writes rows the new deed vouches for.\<close>

lemma names_ok_change:
  assumes ok: "names_ok c" and deeds: "deeds = co_deeds c \<or> (\<exists>x. deeds = x # co_deeds c)"
    and new: "\<And>k b e d. rows s' k = Some (b, e, d) \<Longrightarrow> rows s' k \<noteq> rows (co_table c) k \<Longrightarrow> sb_trigger b = k \<and> vouched deeds b"
  shows "names_ok \<lparr>co_table = s', co_deeds = deeds\<rparr>"
  unfolding names_ok_def
proof (intro allI impI)
  fix k b e d assume "rows (co_table \<lparr>co_table = s', co_deeds = deeds\<rparr>) k = Some (b, e, d)"
  then have row: "rows s' k = Some (b, e, d)" by simp
  show "sb_trigger b = k \<and> vouched (co_deeds \<lparr>co_table = s', co_deeds = deeds\<rparr>) b"
  proof (cases "rows s' k = rows (co_table c) k")
    case True
    with row have "sb_trigger b = k \<and> vouched (co_deeds c) b" using names_okD [OF ok] by metis
    then show ?thesis using deeds vouched_mono by auto
  next
    case False
    then show ?thesis using new row by simp
  qed
qed

lemma names_ok_removed:
  assumes "names_ok c" "\<And>k. rows s' k = None \<or> rows s' k = rows (co_table c) k"
  shows "names_ok (c\<lparr>co_table := s'\<rparr>)"
proof -
  have "names_ok \<lparr>co_table = s', co_deeds = co_deeds c\<rparr>"
    by (rule names_ok_change [OF assms(1)]) (simp, metis assms(2) option.distinct(1))
  then show ?thesis by (cases c) simp
qed

lemma names_ok_step:
  assumes "consent_step api c c'" and ok: "names_ok c"
  shows "names_ok c'"
  using assms(1)
proof (cases rule: consent_step.cases)
  case (presses env site now me item key path user s' who old)
  show ?thesis
    using presses(2)
  proof (cases rule: press_binds)
    case already
    then show ?thesis unfolding presses(1) by (intro names_ok_change [OF ok]) auto
  next
    case (bound d)
    show ?thesis unfolding presses(1)
      by (rule bind_row_rows [OF bound(3)], rule names_ok_change [OF ok])
         (use bound(1,2) in \<open>auto simp: vouched_def named_def split: if_splits\<close>)
  qed
next
  case (stops site me item key path s')
  have "s' = co_table c \<or> (\<exists>k. unbind api (co_table c) k = Inr s')"
    using stops(2) by (auto simp: stop_running_def split: if_splits sum.splits option.splits)
  then have "rows s' k = None \<or> rows s' k = rows (co_table c) k" for k
    using unbind_rows [of "co_table c"] by (metis Inr_inject fun_upd_apply)
  then show ?thesis unfolding stops(1) by (rule names_ok_removed [OF ok])
next
  case (writes_rows env au now item path before after author s' ks)
  show ?thesis unfolding writes_rows(1)
  proof (rule names_ok_change [OF ok])
    fix k b e d assume row: "rows s' k = Some (b, e, d)" "rows s' k \<noteq> rows (co_table c) k"
    from credited_wrote [OF writes_rows(2) row(2)] row(1)
    have "sb_trigger b = k" "sb_user b = author" "sb_reason b = ''author''" "k \<in> wrote env au item path before after author" by auto
    then show "sb_trigger b = k \<and> vouched (WroteRows author (wrote env au item path before after author) # co_deeds c) b"
      by (auto simp: vouched_def)
  qed simp
next
  case (writes_workflow env au now item w author written s' told ks)
  let ?deed = "WroteWorkflow author (rewrote api env au (co_table c) item w author written)"
  show ?thesis unfolding writes_workflow(1)
  proof (rule names_ok_change [OF ok])
    fix k b' e x assume row: "rows s' k = Some (b', e, x)" "rows s' k \<noteq> rows (co_table c) k"
    obtain b e0 e1 d where b: "rows (co_table c) k = Some (b, e0, False)" "sb_trigger b = k"
      "rows s' k = Some (handed_over now item author d b, e1, False)" "k \<in> rewrote api env au (co_table c) item w author written"
      using written_entitled [OF writes_workflow(2) row(2)] by blast
    then have b': "b' = handed_over now item author d b" using row(1) by simp
    have "vouched (co_deeds c) b" using names_okD [OF ok b(1)] by simp
    then have "vouched (?deed # co_deeds c) b'"
      unfolding b' using b(2,4) by (cases "sb_user b = author") (auto simp: handed_over_def vouched_def)
    then show "sb_trigger b' = k \<and> vouched (?deed # co_deeds c) b'"
      unfolding b' using b(2) by (simp add: handed_over_def)
  qed auto
next
  case (fires env may live item key w s' told who digest)
  have "s' = co_table c \<or> rows s' = (rows (co_table c))(key := None)"
    using fires(2) by (cases rule: checked_cases [of env may live "co_table c" item key w]) (auto simp: binder_for_def)
  then have "rows s' k = None \<or> rows s' k = rows (co_table c) k" for k by auto
  then show ?thesis unfolding fires(1) by (rule names_ok_removed [OF ok])
next
  case (sweeps env n snapshot answer item path s' told)
  have "s' = co_table c \<or> (\<exists>keep. drop_bindings api (co_table c) item path keep = (s', told))"
    using sweeps(2) by (auto simp: sweep_consents_def expire_bindings_def split: fate.splits if_splits option.splits still.splits)
  then have "rows s' k = None \<or> rows s' k = rows (co_table c) k" for k
    using drop_bindings_rows by fastforce
  then show ?thesis unfolding sweeps(1) by (rule names_ok_removed [OF ok])
next
  case (item_goes item s' res)
  have "rows s' k = None \<or> rows s' k = rows (co_table c) k" for k
    by (rule unbind_all_rows [of "co_table c" "for_item api (co_table c) item"]) (use item_goes(2) in \<open>auto simp: purge_item_def\<close>)
  then show ?thesis unfolding item_goes(1) by (rule names_ok_removed [OF ok])
qed

lemma reached_names_ok:
  assumes "consents_reached api s0 c" "\<forall>k. rows s0 k = None"
  shows "names_ok c"
  using assms(1)
proof induction
  case start
  then show ?case using assms(2) by (simp add: names_ok_def)
qed (rule names_ok_step)

end

text \<open>
  C30: starting from an empty table, whatever people, pages, agents and the sweep do, a person's name
  stands on a row only because of something done to that very row, which the reason shown names: they
  pressed "Run as me" on it, in a schedules file of an item they may run work in; or they wrote it, into a
  file that hid nothing and did not have it, being allowed to run work there; or they wrote, as the
  workflow it runs, a text that still stood, being allowed to run work there; or a superuser named them,
  who may run work there.
\<close>

theorem names_are_vouched_for:
  fixes api :: "('s, binding) row_api"
  assumes "row_store api rows" "\<forall>k. rows s0 k = None" "consents_reached api s0 c"
    and "get_binding api (co_table c) key = Inr (Some b)"
  shows "sb_trigger b = key \<and> vouched (co_deeds c) b"
proof -
  note l = consent_table.intro [OF assms(1)]
  obtain e where "rows (co_table c) key = Some (b, e, False)" using assms(4) consent_table.get_binding_some [OF l] by blast
  then show ?thesis by (rule consent_table.names_okD [OF l consent_table.reached_names_ok [OF l assms(3,2)]])
qed

section \<open>Witnesses: a page that polls every quarter of an hour\<close>

definition poll_env :: consent_env where
  "poll_env = \<lparr>ce_loads = (\<lambda>raw. if raw = ''x'' then Some (JObj [(''schedules'', JArr [quarter_hourly])]) else None),
     ce_zones = plain_env, ce_digest = (\<lambda>_. ''d''), ce_parses = (\<lambda>_. True), ce_sha = (\<lambda>raw. ''sha-'' @ raw)\<rparr>"

definition poll_files :: reader where
  "poll_files item path = (if path = ''/.workflows/poll.json'' then Fetched ''w'' else if path = ''/p/schedules.json'' then Fetched ''x'' else Missing)"

definition poll_author :: authorship where
  "poll_author = \<lparr>au_read = poll_files, au_may_run = (\<lambda>_ _. Some True), au_max_rows = None\<rparr>"

definition poll_site :: consent_site where
  "poll_site = \<lparr>cs_access = (\<lambda>_ _ _. True), cs_may_run = (\<lambda>_ _. True), cs_superusers = {}, cs_files = poll_files\<rparr>"

definition anns :: "string \<Rightarrow> binding" where
  "anns d = \<lparr>sb_trigger = ''wui:i:d'', sb_item = ''i'', sb_path = ''/p/schedules.json'', sb_user = ''ann'', sb_bound_at = 1,
     sb_digest = d, sb_reason = ''self'', sb_assigned_by = []\<rparr>"

theorem fires_as_consented_witness:
  "binder_for mem_store poll_env None poll_files [(''wui:i:d'', anns ''sha-w'', 0, False)] ''i'' ''wui:i:d'' ''poll''
     = ([(''wui:i:d'', anns ''sha-w'', 0, False)], [], ''ann'', Some ''sha-w'')
   \<and> workflow_digest poll_env poll_files ''i'' ''poll'' = Some ''sha-w''"
proof -
  let ?s = "[(''wui:i:d'', anns ''sha-w'', 0, False)]"
  have fire: "binder_for mem_store poll_env None poll_files ?s ''i'' ''wui:i:d'' ''poll'' = (?s, [], ''ann'', Some ''sha-w'')"
    by code_simp
  have "workflow_digest poll_env poll_files ''i'' ''poll'' \<noteq> None" by code_simp
  then show ?thesis
    using fires_as_consented [OF mem.row_store_axioms fire] fire by (auto simp: anns_def)
qed

theorem binding_dropped_for_cause_witness:
  "\<exists>b. snd (binder_for mem_store poll_env None poll_files [(''wui:i:d'', anns ''sha-v'', 0, False)] ''i'' ''wui:i:d'' ''poll'')
     = ([(b, ''workflow_changed'')], [], None) \<and> sb_user b = ''ann''"
proof -
  let ?s = "[(''wui:i:d'', anns ''sha-v'', 0, False)]"
  obtain s' told who digest where f: "binder_for mem_store poll_env None poll_files ?s ''i'' ''wui:i:d'' ''poll'' = (s', told, who, digest)"
    using prod_cases4 by blast
  have "binder_for mem_store poll_env None poll_files ?s ''i'' ''wui:i:d'' ''poll'' = ([], [(anns ''sha-v'', ''workflow_changed'')], [], None)"
    by code_simp
  then show ?thesis using binding_dropped_for_cause [OF mem.row_store_axioms f] f by (auto simp: anns_def)
qed

theorem consents_expire_only_when_gone_witness:
  "\<exists>ks. keys_in poll_env ''i'' ''/p/schedules.json'' ''x'' = Some ks \<and> ''old'' \<notin> set ks"
proof -
  let ?s = "[(''old'', anns ''sha-w''\<lparr>sb_trigger := ''old''\<rparr>, 0, False)]"
  have sweep: "sweep_consents mem_store poll_env 9 (Fetched ''x'') None ?s ''i'' ''/p/schedules.json''
      = ([], [(anns ''sha-w''\<lparr>sb_trigger := ''old''\<rparr>, ''changed'')])" by code_simp
  have "row_store.keyed dict_get sb_trigger ?s" by (simp add: mem.keyed_def)
  from consents_expire_only_when_gone [OF mem.row_store_axioms this sweep, of "''old''"] show ?thesis by simp
qed

theorem readable_hides_nothing_witness:
  "\<exists>rows r. file_rows (file_doc poll_env ''x'') = Some rows \<and> r \<in> set rows \<and> JInt 15 \<in> set (scalars r)"
proof -
  have "\<not> unreadable poll_env ''x''" "strip ''x'' \<noteq> []" by code_simp+
  from readable_hides_nothing [OF this] obtain doc where d: "ce_loads poll_env ''x'' = Some doc"
    "\<forall>y \<in> set (scalars doc). \<exists>rows r. file_rows (file_doc poll_env ''x'') = Some rows \<and> r \<in> set rows \<and> is_obj r \<and> y \<in> set (scalars r)"
    by blast
  have "JInt 15 \<in> set (scalars doc)" using d(1) by (auto simp: poll_env_def quarter_hourly_def)
  then show ?thesis using d(2) by blast
qed

theorem credit_touches_only_new_rows_witness:
  "\<exists>s' b e. credit mem_store poll_env poll_author (\<lambda>_ s. s) 7 [] ''i'' ''/p/schedules.json'' None ''x'' ''bob'' = (s', [''wui:i:d''])
     \<and> dict_get s' ''wui:i:d'' = Some (b, e, False) \<and> sb_user b = ''bob'' \<and> sb_reason b = ''author''"
proof -
  let ?c = "credit mem_store poll_env poll_author (\<lambda>_ s. s) 7 [] ''i'' ''/p/schedules.json'' None ''x'' ''bob''"
  have ks: "snd ?c = [''wui:i:d'']" by code_simp
  obtain s' where c: "?c = (s', [''wui:i:d''])" using ks by (cases ?c) auto
  show ?thesis
    using credit_touches_only_new_rows [OF mem.row_store_axioms c] c by (fastforce simp: credited_row_def)
qed

theorem rewritten_workflow_runs_as_writer_witness:
  "\<exists>s'. workflow_written mem_store poll_env poll_author (\<lambda>_ s. s) 7 [(''wui:i:d'', anns ''sha-v'', 0, False)] ''i'' ''poll'' ''bob'' ''w''
        = (s', [(anns ''sha-v'', ''bob'')], [''wui:i:d''])
     \<and> binder_for mem_store poll_env (Some (\<lambda>_ _. Some True)) poll_files s' ''i'' ''wui:i:d'' ''poll'' = (s', [], ''bob'', Some ''sha-w'')"
proof -
  let ?s = "[(''wui:i:d'', anns ''sha-v'', 0, False)]"
  let ?w = "workflow_written mem_store poll_env poll_author (\<lambda>_ s. s) 7 ?s ''i'' ''poll'' ''bob'' ''w''"
  have "snd ?w = ([(anns ''sha-v'', ''bob'')], [''wui:i:d''])" by code_simp
  then obtain s' where w: "?w = (s', [(anns ''sha-v'', ''bob'')], [''wui:i:d''])" by (cases ?w) auto
  have d: "workflow_digest poll_env (au_read poll_author) ''i'' ''poll'' = Some ''sha-w''" by code_simp
  have ok: "row_store.keyed dict_get sb_trigger ?s" "\<forall>k b e d. dict_get ?s k = Some (b, e, d) \<longrightarrow> \<not> d"
    by (simp_all add: mem.keyed_def anns_def)
  note r = rewritten_workflow_runs_as_writer [OF mem.row_store_axioms ok w]
  have changed: "dict_get s' ''wui:i:d'' \<noteq> dict_get ?s ''wui:i:d''"
    using r [THEN conjunct2, THEN conjunct1] by (simp only: set_simps) (drule equalityD1, simp only: insert_subset mem_Collect_eq, simp)
  have row: "dict_get ?s ''wui:i:d'' = Some (anns ''sha-v'', 0, False)" by simp
  obtain d' where "stands poll_env poll_author ''i'' ''poll'' ''bob'' ''w'' d'"
      "binder_for mem_store poll_env (Some (au_may_run poll_author)) (au_read poll_author) s' ''i'' ''wui:i:d'' ''poll'' = (s', [], ''bob'', Some d')"
    using r [THEN conjunct2, THEN conjunct2, THEN conjunct2, rule_format, OF row changed] by (elim exE conjE) (rule that)
  with d have "binder_for mem_store poll_env (Some (\<lambda>_ _. Some True)) poll_files s' ''i'' ''wui:i:d'' ''poll'' = (s', [], ''bob'', Some ''sha-w'')"
    by (simp add: stands_def poll_author_def)
  with w show ?thesis by blast
qed

theorem broken_row_lends_nothing_witness:
  "fst (snd (snd (binder_for mem_store poll_env None poll_files [(''wui:i:d'', anns UNPARSABLE_DIGEST, 0, False)] ''i'' ''wui:i:d'' ''poll''))) = []"
proof -
  let ?b = "binder_for mem_store poll_env None poll_files [(''wui:i:d'', anns UNPARSABLE_DIGEST, 0, False)] ''i'' ''wui:i:d'' ''poll''"
  obtain s' told who digest where b: "?b = (s', told, who, digest)" by (cases ?b) auto
  have "workflow_digest poll_env poll_files ''i'' ''poll'' = Some ''sha-w''" by code_simp
  from broken_row_lends_nothing [OF mem.row_store_axioms _ _ _ this b, of "anns UNPARSABLE_DIGEST" 0] have "who = []"
    by (simp add: anns_def poll_env_def UNPARSABLE_DIGEST_def)
  then show ?thesis unfolding b by simp
qed

theorem credit_overwrites_press_witness:
  "\<exists>s1 s' b e. binder_of mem_store s1 ''wui:i:d'' = Inr ''ann''
     \<and> credit_rows mem_store poll_env poll_files (\<lambda>_ _. s1) 5 ''i'' ''/p/schedules.json'' ''bob'' [] [(''wui:i:d'', ''poll'')] = (s', Inr [''wui:i:d''])
     \<and> dict_get s' ''wui:i:d'' = Some (b, e, False) \<and> sb_user b = ''bob''"
proof -
  let ?p = "press mem_store poll_env poll_site 5 [] ''ann'' ''i'' ''wui:i:d'' ''/p/schedules.json'' []"
  have "map_sum (\<lambda>_. ()) snd ?p = Inr (''ann'', [])" by code_simp
  then obtain s1 where p: "?p = Inr (s1, ''ann'', [])" by (cases ?p) auto
  have w: "unparsable_workflow poll_env poll_files ''i'' ''poll'' = Some False"
    "workflow_digest poll_env poll_files ''i'' ''poll'' = Some ''sha-w''" by code_simp+
  show ?thesis
    using credit_overwrites_press [OF mem.row_store_axioms _ p w, of "''bob''"] by auto
qed

theorem names_are_vouched_for_witness:
  "\<exists>c :: binding mem consents. get_binding mem_store (co_table c) ''wui:i:d'' = Inr (Some (anns ''sha-w''\<lparr>sb_bound_at := 5\<rparr>))
     \<and> (\<exists>ks. Pressed ''ann'' ks \<in> set (co_deeds c) \<and> ''wui:i:d'' \<in> ks)"
proof -
  let ?p = "press mem_store poll_env poll_site 5 [] ''ann'' ''i'' ''wui:i:d'' ''/p/schedules.json'' []"
  have "map_sum (\<lambda>_. ()) (\<lambda>(s, who, old). (get_binding mem_store s ''wui:i:d'', who, old)) ?p
      = Inr (Inr (Some (anns ''sha-w''\<lparr>sb_bound_at := 5\<rparr>)), ''ann'', [])" by code_simp
  then obtain s1 where p: "?p = Inr (s1, ''ann'', [])" "get_binding mem_store s1 ''wui:i:d'' = Inr (Some (anns ''sha-w''\<lparr>sb_bound_at := 5\<rparr>))"
    by (cases ?p) auto
  let ?c = "\<lparr>co_table = s1, co_deeds = [Pressed ''ann'' (pressable poll_env poll_site ''ann'' ''i'' ''/p/schedules.json'')]\<rparr>"
  have go: "consent_step mem_store \<lparr>co_table = [], co_deeds = []\<rparr> ?c"
    using consent_step.presses [of mem_store poll_env poll_site 5 "\<lparr>co_table = [], co_deeds = []\<rparr>"] p(1) by fastforce
  have "consents_reached mem_store [] ?c" by (rule consents_reached.step [OF consents_reached.start go])
  from names_are_vouched_for [OF mem.row_store_axioms _ this, of "''wui:i:d''"] p(2) show ?thesis
    by (intro exI [of _ ?c]) (auto simp: vouched_def anns_def)
qed

end
