(* ===== verification/Runs.thy ===== *)
theory Runs
  imports RunRecord RowStore
begin

text \<open>
  The lifecycle of runs, \<open>WorkflowOrchestrator\<close> (\<open>workflow/orchestrator.py\<close>) with the driver
  (\<open>workflow/driver.py\<close>) and the table of whose values a run carries (\<open>workflow/run_identity.py\<close>).

  A world is the shared tables, the runs this pod drives or is about to, and a log of what was told to
  the rest of the program, the newest first.  What a run does between its start and its end (the
  profile's \<open>run()\<close>), the manifests, the bytes a workflow is built from, the creation times of the
  rows and the clock are arguments.  An operation that awaits between its checks and its writes is
  given in the two parts, and as their composition.
\<close>

section \<open>The world\<close>

text \<open>
  A task of this pod: a workflow or a page job waiting for a slot, one driving (with the digest it was
  built from; a page job is built from nothing), or one proposing a change.
\<close>

record build =
  bd_item :: string
  bd_profile :: string
  bd_workflow :: string

datatype task = Queued build | PageQueued string | Driving build string | Proposing

text \<open>Whose private values a run carries, and what they consented to.\<close>

record identity =
  ri_user :: string
  ri_verb :: string
  ri_workflow :: string
  ri_digest :: string
  ri_item :: string
  ri_profile :: string

datatype effect =
  Settled string | StopSignal string | Released string bool string | JobEnded string string | Spawned string
| DecisionRecorded string string string | SteerApplied string "string list" | FailureNotified string

record 's world =
  ow_table :: 's
  ow_identities :: "(string, identity) dict"
  ow_tasks :: "(string, task) dict"
  ow_claiming :: "string list"
  ow_log :: "effect list"

datatype orch_error =
  NoSuchRun | ActiveRunExists string | TooManyPageJobs | NotAwaitingDecision | WorkflowUnavailable | PageJobNotSteerable
| NotAwaitingSteer | NotRetryable | SupersededRun | UnknownStep string | NoIdentity | NoManifest | TableFailed rm_error

type_synonym ('s, 'a) orch = "'s world \<times> (orch_error + 'a)"

record 's orchestrator =
  oc_api :: "('s, wf_run) row_api"
  oc_now :: int
  oc_born :: "string \<Rightarrow> nat"
  oc_manifest :: "string \<Rightarrow> string \<Rightarrow> string list option"
  oc_keep_last :: nat
  oc_pinned :: "string \<Rightarrow> string set"
  oc_job_limit :: nat
  oc_job_timeout_ms :: int

definition log_effect :: "effect \<Rightarrow> 's world \<Rightarrow> 's world" where
  "log_effect e w = w\<lparr>ow_log := e # ow_log w\<rparr>"

definition no_task :: "string \<Rightarrow> 's world \<Rightarrow> 's world" where
  "no_task run w = w\<lparr>ow_tasks := dict_pop run (ow_tasks w)\<rparr>"

section \<open>Reading and writing a run\<close>

definition get_run :: "'s orchestrator \<Rightarrow> 's world \<Rightarrow> string \<Rightarrow> orch_error + wf_run" where
  "get_run oc w run =
     (case rm_get (oc_api oc) (ow_table w) False run of
        Inr (r, _) \<Rightarrow> Inr r
      | Inl NotFound \<Rightarrow> Inl NoSuchRun
      | Inl IsDeleted \<Rightarrow> Inl NoSuchRun
      | Inl e \<Rightarrow> Inl (TableFailed e))"

definition run_in :: "'s orchestrator \<Rightarrow> 's world \<Rightarrow> string \<Rightarrow> string \<Rightarrow> orch_error + wf_run" where
  "run_in oc w run item =
     bindE (get_run oc w run) (\<lambda>r. if rn_item r \<noteq> item then Inl NoSuchRun else Inr r)"

text \<open>The driver's write: the row with the changes, its phases settled.\<close>

definition write_run :: "'s orchestrator \<Rightarrow> 's world \<Rightarrow> string \<Rightarrow> (wf_run \<Rightarrow> wf_run) \<Rightarrow> orch_error + 's world" where
  "write_run oc w run changes =
     bindE (get_run oc w run) (\<lambda>r.
       case rm_modify (oc_api oc) (ow_table w) run (with_settled_phases changes r) None of
         Inr (s', _) \<Rightarrow> Inr (w\<lparr>ow_table := s'\<rparr>)
       | Inl e \<Rightarrow> Inl (TableFailed e))"

text \<open>\<open>_patch\<close>: the write stamps the heartbeat, and a first move to an end is told.\<close>

definition patch_run :: "'s orchestrator \<Rightarrow> 's world \<Rightarrow> string \<Rightarrow> (wf_run \<Rightarrow> wf_run) \<Rightarrow> orch_error + 's world" where
  "patch_run oc w run changes =
     bindE (get_run oc w run) (\<lambda>before.
     bindE (write_run oc w run (\<lambda>r. changes (r\<lparr>rn_progress := Some (oc_now oc)\<rparr>))) (\<lambda>w'.
       Inr (if active (rn_status before) \<and> \<not> active (rn_status (changes before)) then log_effect (Settled run) w' else w')))"

text \<open>The item's rows.\<close>

definition item_runs :: "'s orchestrator \<Rightarrow> 's world \<Rightarrow> string \<Rightarrow> (string \<times> wf_run) list" where
  "item_runs oc w item =
     map (\<lambda>(i, r, e, d). (i, r)) (filter (\<lambda>(i, r, e, d). rn_item r = item) (rm_list (oc_api oc) (ow_table w)))"

definition first_run :: "(wf_run \<Rightarrow> bool) \<Rightarrow> (string \<times> wf_run) list \<Rightarrow> string option" where
  "first_run P rs = map_option fst (find (\<lambda>(i, r). P r) rs)"

definition active_run :: "'s orchestrator \<Rightarrow> 's world \<Rightarrow> string \<Rightarrow> string option" where
  "active_run oc w item = first_run (\<lambda>r. active (rn_status r)) (item_runs oc w item)"

definition active_run_for_chat :: "'s orchestrator \<Rightarrow> 's world \<Rightarrow> string \<Rightarrow> string \<Rightarrow> string option" where
  "active_run_for_chat oc w item chat =
     first_run (\<lambda>r. rn_chat r = chat \<and> active (rn_status r)) (item_runs oc w item)"

definition active_run_of_workflow :: "'s orchestrator \<Rightarrow> 's world \<Rightarrow> string \<Rightarrow> string \<Rightarrow> string option" where
  "active_run_of_workflow oc w item wid =
     first_run (\<lambda>r. rn_status r \<in> {RunPending, RunRunning} \<and> is_execution_of r wid) (item_runs oc w item)"

text \<open>The first of the latest created.\<close>

fun latest :: "(string \<Rightarrow> nat) \<Rightarrow> string list \<Rightarrow> string option" where
  "latest born [] = None"
| "latest born (x # xs) =
     (case latest born xs of None \<Rightarrow> Some x | Some y \<Rightarrow> if born y \<le> born x then Some x else Some y)"

definition newest_run_of_workflow :: "'s orchestrator \<Rightarrow> 's world \<Rightarrow> string \<Rightarrow> string \<Rightarrow> string option" where
  "newest_run_of_workflow oc w item wid =
     latest (oc_born oc) (map fst (filter (\<lambda>(i, r). is_execution_of r wid) (item_runs oc w item)))"

definition run_status :: "'s orchestrator \<Rightarrow> 's world \<Rightarrow> string \<Rightarrow> run_state option" where
  "run_status oc w run = (case get_run oc w run of Inr r \<Rightarrow> Some (rn_status r) | Inl _ \<Rightarrow> None)"

text \<open>The last sign of life: the heartbeat, else the start; zero counts as none.\<close>

definition last_sign :: "wf_run \<Rightarrow> int" where
  "last_sign r =
     (case rn_progress r of Some p \<Rightarrow> if p \<noteq> 0 then p else (case rn_started r of Some t \<Rightarrow> t | None \<Rightarrow> 0)
      | None \<Rightarrow> (case rn_started r of Some t \<Rightarrow> t | None \<Rightarrow> 0))"

definition is_stuck :: "'s orchestrator \<Rightarrow> 's world \<Rightarrow> string \<Rightarrow> int \<Rightarrow> orch_error + bool" where
  "is_stuck oc w run grace_ms =
     bindE (get_run oc w run) (\<lambda>r. Inr (rn_status r = RunRunning \<and> grace_ms < oc_now oc - last_sign r))"

definition run_key :: "wf_run \<Rightarrow> string" where
  "run_key r = (if rn_chat r \<noteq> [] then rn_chat r else rn_item r)"

definition aside_lane :: "string \<Rightarrow> string" where
  "aside_lane key = key @ ''#aside''"

definition release :: "string \<Rightarrow> bool \<Rightarrow> string \<Rightarrow> bool \<Rightarrow> 's world \<Rightarrow> 's world" where
  "release item terminal key page w =
     (if page then (if terminal then log_effect (JobEnded item key) w else w)
      else log_effect (Released item terminal key) w)"

definition spawn :: "string \<Rightarrow> task \<Rightarrow> 's world \<Rightarrow> 's world" where
  "spawn run t w = log_effect (Spawned run) (w\<lparr>ow_tasks := dict_set run t (ow_tasks w)\<rparr>)"

section \<open>Start and retention\<close>

fun prune_from :: "'s orchestrator \<Rightarrow> string \<Rightarrow> string set \<Rightarrow> nat \<Rightarrow> nat \<Rightarrow> 's world \<Rightarrow> (string \<times> wf_run) list \<Rightarrow> orch_error + 's world" where
  "prune_from oc keep pinned to_drop prunable w [] = Inr w"
| "prune_from oc keep pinned to_drop prunable w ((run, r) # rs) =
     (if to_drop = 0 \<or> prunable = 0 then Inr w
      else if run = keep \<or> active (rn_status r) \<or> run \<in> pinned then prune_from oc keep pinned to_drop prunable w rs
      else (case rm_purge (oc_api oc) (ow_table w) run of
              Inl e \<Rightarrow> Inl (TableFailed e)
            | Inr s' \<Rightarrow>
                prune_from oc keep pinned (to_drop - 1) (prunable - 1)
                  (w\<lparr>ow_table := s', ow_identities := dict_pop run (ow_identities w)\<rparr>) rs))"

definition prune_runs :: "'s orchestrator \<Rightarrow> 's world \<Rightarrow> string \<Rightarrow> string \<Rightarrow> orch_error + 's world" where
  "prune_runs oc w item keep =
     (let rows = item_runs oc w item; pinned = oc_pinned oc item
      in if oc_keep_last oc = 0 \<or> length rows \<le> oc_keep_last oc then Inr w
         else prune_from oc keep pinned (length rows - oc_keep_last oc)
                (length (filter (\<lambda>(i, r). \<not> active (rn_status r) \<and> i \<notin> pinned) rows)) w
                (sort_key (\<lambda>(i, r). case rn_started r of Some t \<Rightarrow> t | None \<Rightarrow> 0) rows))"

record launch =
  la_item :: string
  la_profile :: string
  la_user :: string
  la_workflow :: string
  la_chat :: string
  la_env_user :: string
  la_env_verb :: string
  la_env_digest :: "string option"
  la_payload :: "(string \<times> json) list"
  la_origin :: string
  la_depth :: int
  la_by_hand :: bool
  la_from_schedule :: bool

text \<open>
  \<open>start\<close> in its two parts, around the reading of the manifest and of the file's digest: \<open>run\<close> is the id
  the table gives, \<open>file_digest\<close> the digest of the workflow as it is now.
\<close>

definition start_check :: "'s orchestrator \<Rightarrow> 's world \<Rightarrow> launch \<Rightarrow> orch_error + string list" where
  "start_check oc w la =
     (if la_user la = [] then Inl NoIdentity
      else (case (if la_chat la \<noteq> [] then active_run_for_chat oc w (la_item la) (la_chat la) else active_run oc w (la_item la)) of
              Some other \<Rightarrow> Inl (ActiveRunExists other)
            | None \<Rightarrow>
                (case oc_manifest oc (la_item la) (la_workflow la) of None \<Rightarrow> Inl NoManifest | Some phases \<Rightarrow> Inr phases)))"

definition start_row :: "launch \<Rightarrow> string list \<Rightarrow> wf_run" where
  "start_row la phases =
     (new_run (la_item la) (la_user la))
       \<lparr>rn_phases := map new_phase phases, rn_chat := la_chat la, rn_workflow := la_workflow la,
        rn_origin := la_origin la, rn_depth := la_depth la, rn_by_hand := la_by_hand la,
        rn_from_schedule := la_from_schedule la, rn_payload := la_payload la\<rparr>"

definition start_act :: "'s orchestrator \<Rightarrow> 's world \<Rightarrow> launch \<Rightarrow> string list \<Rightarrow> string \<Rightarrow> string \<Rightarrow> ('s, string) orch" where
  "start_act oc w la phases run file_digest =
     (let digest = (case la_env_digest la of Some d \<Rightarrow> d | None \<Rightarrow> file_digest)
      in case rm_create (oc_api oc) (ow_table w) run (start_row la phases) of
           Inl e \<Rightarrow> (w, Inl (TableFailed e))
         | Inr s' \<Rightarrow>
             (let ident = \<lparr>ri_user = la_env_user la, ri_verb = la_env_verb la, ri_workflow = la_workflow la,
                           ri_digest = digest, ri_item = la_item la, ri_profile = la_profile la\<rparr>;
                  w1 = w\<lparr>ow_table := s',
                         ow_identities := (if la_env_user la \<noteq> [] then dict_set run ident (ow_identities w)
                                           else ow_identities w)\<rparr>
              in case prune_runs oc w1 (la_item la) run of
                   Inl e \<Rightarrow> (w1, Inl e)
                 | Inr w2 \<Rightarrow>
                     (spawn run (Queued \<lparr>bd_item = la_item la, bd_profile = la_profile la, bd_workflow = la_workflow la\<rparr>) w2,
                      Inr run)))"

definition start_run :: "'s orchestrator \<Rightarrow> 's world \<Rightarrow> launch \<Rightarrow> string \<Rightarrow> string \<Rightarrow> ('s, string) orch" where
  "start_run oc w la run file_digest =
     (case start_check oc w la of Inl e \<Rightarrow> (w, Inl e) | Inr phases \<Rightarrow> start_act oc w la phases run file_digest)"

section \<open>Driving\<close>

text \<open>The check where the interpreter is built: item, profile, workflow and bytes as consented to.\<close>

definition hold_identity :: "string \<Rightarrow> build \<Rightarrow> string \<Rightarrow> 's world \<Rightarrow> 's world" where
  "hold_identity run b built w =
     (case dict_get (ow_identities w) run of
        None \<Rightarrow> w
      | Some i \<Rightarrow>
          if (ri_item i, ri_profile i, ri_workflow i, ri_digest i) \<noteq> (bd_item b, bd_profile b, bd_workflow b, built)
          then w\<lparr>ow_identities := dict_pop run (ow_identities w)\<rparr>
          else w)"

text \<open>A slot is free: the run is built and its driver starts.\<close>

definition driver_start :: "'s orchestrator \<Rightarrow> 's world \<Rightarrow> string \<Rightarrow> build \<Rightarrow> string \<Rightarrow> ('s, unit) orch" where
  "driver_start oc w run b built =
     (case write_run oc w run (\<lambda>r. r\<lparr>rn_status := RunRunning, rn_started := Some (oc_now oc)\<rparr>) of
        Inl e \<Rightarrow> (no_task run w, Inl e)
      | Inr w1 \<Rightarrow> (w1\<lparr>ow_tasks := dict_set run (Driving b built) (ow_tasks w1)\<rparr>, Inr ()))"

definition drive_start :: "'s orchestrator \<Rightarrow> 's world \<Rightarrow> string \<Rightarrow> string \<Rightarrow> ('s, unit) orch" where
  "drive_start oc w run built =
     (case dict_get (ow_tasks w) run of
        Some (Queued b) \<Rightarrow>
          (case get_run oc w run of
             Inl e \<Rightarrow> (no_task run w, Inl e)
           | Inr _ \<Rightarrow> driver_start oc (hold_identity run b built w) run b built)
      | Some (PageQueued item) \<Rightarrow>
          (case get_run oc w run of
             Inl e \<Rightarrow> (no_task run w, Inl e)
           | Inr _ \<Rightarrow> driver_start oc w run \<lparr>bd_item = item, bd_profile = [], bd_workflow = []\<rparr> [])
      | _ \<Rightarrow> (w, Inl NoSuchRun))"

datatype outcome =
  Finished "(string \<times> json) list" | Broke "(string \<times> json) list" | AtGate pending_decision | TimedOut string

text \<open>\<open>_post_run\<close>, once the row says how the run ended.\<close>

definition post_run :: "'s orchestrator \<Rightarrow> 's world \<Rightarrow> string \<Rightarrow> string \<Rightarrow> ('s, unit) orch" where
  "post_run oc w run item =
     (case get_run oc w run of
        Inl e \<Rightarrow> (w, Inl e)
      | Inr r \<Rightarrow>
          (let st = rn_status r; terminal = (st \<in> {RunDone, RunError, RunCancelled});
               w1 = (if terminal \<or> st = RunAwaitingHuman
                     then release item terminal (run_key (r\<lparr>rn_item := item\<rparr>)) (rn_page r \<noteq> None) w else w)
           in (if st = RunError then log_effect (FailureNotified run) w1 else w1, Inr ())))"

text \<open>The driver ends, and the task with it.\<close>

definition driver_end :: "'s orchestrator \<Rightarrow> 's world \<Rightarrow> string \<Rightarrow> outcome \<Rightarrow> orch_error + 's world" where
  "driver_end oc w run out =
     (case out of
        AtGate g \<Rightarrow> write_run oc w run (\<lambda>r. r\<lparr>rn_status := RunAwaitingHuman, rn_decision := Some g\<rparr>)
      | Finished res \<Rightarrow>
          map_sum id (log_effect (Settled run))
            (write_run oc w run (\<lambda>r. r\<lparr>rn_status := RunDone, rn_ended := Some (oc_now oc), rn_result := Some res\<rparr>))
      | Broke res \<Rightarrow>
          map_sum id (log_effect (Settled run))
            (write_run oc w run (\<lambda>r. r\<lparr>rn_status := RunError, rn_ended := Some (oc_now oc), rn_result := Some res\<rparr>))
      | TimedOut why \<Rightarrow>
          bindE (map_sum id (log_effect (Settled run))
                   (write_run oc w run (\<lambda>r. r\<lparr>rn_status := RunCancelled, rn_ended := Some (oc_now oc)\<rparr>))) (\<lambda>w1.
          patch_run oc w1 run
            (\<lambda>r. r\<lparr>rn_status := RunError, rn_ended := Some (oc_now oc), rn_result := Some [(''error'', JStr why)]\<rparr>)))"

definition drive_end :: "'s orchestrator \<Rightarrow> 's world \<Rightarrow> string \<Rightarrow> outcome \<Rightarrow> ('s, unit) orch" where
  "drive_end oc w run out =
     (case dict_get (ow_tasks w) run of
        Some (Driving b built) \<Rightarrow>
          (case driver_end oc w run out of
             Inl e \<Rightarrow> (no_task run w, Inl e)
           | Inr w1 \<Rightarrow> (case post_run oc w1 run (bd_item b) of (w2, res) \<Rightarrow> (no_task run w2, res)))
      | _ \<Rightarrow> (w, Inl NoSuchRun))"

text \<open>A page job stopped on another pod while it waited: its slot finds the turn epoch past its own.\<close>

definition page_overtaken :: "'s orchestrator \<Rightarrow> 's world \<Rightarrow> string \<Rightarrow> ('s, unit) orch" where
  "page_overtaken oc w run =
     (case dict_get (ow_tasks w) run of
        Some (PageQueued item) \<Rightarrow>
          (case patch_run oc w run (\<lambda>r. r\<lparr>rn_status := RunCancelled, rn_ended := Some (oc_now oc)\<rparr>) of
             Inl e \<Rightarrow> (no_task run w, Inl e)
           | Inr w1 \<Rightarrow> (case post_run oc w1 run item of (w2, res) \<Rightarrow> (no_task run w2, res)))
      | _ \<Rightarrow> (w, Inl NoSuchRun))"

section \<open>Stop\<close>

text \<open>What cancelling this pod's task writes: a run that waits for its slot is not written.\<close>

definition cancel_task :: "'s orchestrator \<Rightarrow> 's world \<Rightarrow> string \<Rightarrow> task \<Rightarrow> 's world" where
  "cancel_task oc w run t =
     (let quietly = (\<lambda>res. case res of Inr w' \<Rightarrow> w' | Inl _ \<Rightarrow> w)
      in case t of
           Driving _ _ \<Rightarrow>
             quietly (map_sum id (log_effect (Settled run))
               (write_run oc w run (\<lambda>r. r\<lparr>rn_status := RunCancelled, rn_ended := Some (oc_now oc)\<rparr>)))
         | Proposing \<Rightarrow> quietly (patch_run oc w run (\<lambda>r. r\<lparr>rn_status := RunCancelled, rn_steer := None\<rparr>))
         | Queued _ \<Rightarrow> w
         | PageQueued _ \<Rightarrow>
             if run_status oc w run = Some RunPending
             then quietly (patch_run oc w run (\<lambda>r. r\<lparr>rn_status := RunCancelled, rn_ended := Some (oc_now oc)\<rparr>))
             else w)"

definition cancel_run :: "'s orchestrator \<Rightarrow> 's world \<Rightarrow> string \<Rightarrow> string \<Rightarrow> ('s, bool) orch" where
  "cancel_run oc w run item =
     (case run_in oc w run item of
        Inl NoSuchRun \<Rightarrow> (w, Inr False)
      | Inl e \<Rightarrow> (w, Inl e)
      | Inr data \<Rightarrow>
          if \<not> active (rn_status data) then (w, Inr False)
          else (let key = run_key data;
                    w1 = log_effect (StopSignal (aside_lane key)) (log_effect (StopSignal key) w)
                in if run \<in> set (ow_claiming w)
                   then (case patch_run oc w1 run (\<lambda>r. r\<lparr>rn_status := RunCancelled, rn_ended := Some (oc_now oc)\<rparr>) of
                           Inl e \<Rightarrow> (w1, Inl e)
                         | Inr w2 \<Rightarrow> (w2, Inr True))
                   else (case dict_get (ow_tasks w) run of
                           None \<Rightarrow> (w1, Inr True)
                         | Some t \<Rightarrow>
                             (let w2 = no_task run (cancel_task oc w1 run t)
                              in (release item True key (rn_page data \<noteq> None) w2, Inr True)))))"

section \<open>A gate's decision\<close>

text \<open>The checks; the workflow's phases when they pass.\<close>

definition decide_check :: "'s orchestrator \<Rightarrow> 's world \<Rightarrow> string \<Rightarrow> string \<Rightarrow> orch_error + wf_run" where
  "decide_check oc w run item =
     bindE (run_in oc w run item) (\<lambda>data.
       if rn_status data \<noteq> RunAwaitingHuman \<or> rn_decision data = None then Inl NotAwaitingDecision
       else if oc_manifest oc item (rn_workflow data) = None then Inl WorkflowUnavailable
       else if newest_run_of_workflow oc w item (rn_workflow data) \<noteq> Some run then Inl SupersededRun
       else Inr data)"

text \<open>The record of the decision, the row, and the driver.\<close>

definition decide_act :: "'s orchestrator \<Rightarrow> 's world \<Rightarrow> string \<Rightarrow> string \<Rightarrow> wf_run \<Rightarrow> string \<Rightarrow> string \<Rightarrow> ('s, unit) orch" where
  "decide_act oc w run profile data choice decided_by =
     (let w1 = log_effect (DecisionRecorded run choice decided_by) w
      in case patch_run oc w1 run (\<lambda>r. r\<lparr>rn_status := RunRunning, rn_decision := None\<rparr>) of
           Inl e \<Rightarrow> (w1, Inl e)
         | Inr w2 \<Rightarrow>
             (spawn run (Queued \<lparr>bd_item = rn_item data, bd_profile = profile, bd_workflow = rn_workflow data\<rparr>) w2, Inr ()))"

definition decide :: "'s orchestrator \<Rightarrow> 's world \<Rightarrow> string \<Rightarrow> string \<Rightarrow> string \<Rightarrow> string \<Rightarrow> string \<Rightarrow> ('s, unit) orch" where
  "decide oc w run item profile choice decided_by =
     (case decide_check oc w run item of
        Inl e \<Rightarrow> (w, Inl e)
      | Inr data \<Rightarrow> decide_act oc w run profile data choice decided_by)"

section \<open>Steering\<close>

definition steer :: "'s orchestrator \<Rightarrow> 's world \<Rightarrow> string \<Rightarrow> string \<Rightarrow> ('s, unit) orch" where
  "steer oc w run item =
     (case run_in oc w run item of
        Inl e \<Rightarrow> (w, Inl e)
      | Inr data \<Rightarrow>
          if rn_page data \<noteq> None then (w, Inl PageJobNotSteerable)
          else if newest_run_of_workflow oc w item (rn_workflow data) \<noteq> Some run then (w, Inl SupersededRun)
          else (let w1 = (if rn_status data \<in> {RunRunning, RunPending} then fst (cancel_run oc w run item) else no_task run w)
                in case patch_run oc w1 run (\<lambda>r. r\<lparr>rn_status := RunRunning\<rparr>) of
                     Inl e \<Rightarrow> (w1, Inl e)
                   | Inr w2 \<Rightarrow> (w2\<lparr>ow_tasks := dict_set run Proposing (ow_tasks w2)\<rparr>, Inr ())))"

text \<open>
  The steerer's task: without the workflow it raises before anything is written; else it answers with
  a plan, or with why it has none.
\<close>

definition propose_end :: "'s orchestrator \<Rightarrow> 's world \<Rightarrow> string \<Rightarrow> string \<Rightarrow> string + steer_plan \<Rightarrow> ('s, unit) orch" where
  "propose_end oc w run item answer =
     (case get_run oc w run of
        Inl e \<Rightarrow> (no_task run w, Inl e)
      | Inr data \<Rightarrow>
          if oc_manifest oc item (rn_workflow data) = None then (no_task run w, Inl WorkflowUnavailable)
          else (case patch_run oc w run
                       (case answer of
                          Inr plan \<Rightarrow> (\<lambda>r. r\<lparr>rn_status := RunAwaitingHuman, rn_steer := Some plan\<rparr>)
                        | Inl why \<Rightarrow> (\<lambda>r. r\<lparr>rn_status := RunCancelled, rn_steer := None, rn_result := Some [(''steer_error'', JStr why)]\<rparr>)) of
                  Inl e \<Rightarrow> (no_task run w, Inl e)
                | Inr w1 \<Rightarrow> (no_task run w1, Inr ())))"

definition confirm_steer :: "'s orchestrator \<Rightarrow> 's world \<Rightarrow> string \<Rightarrow> string \<Rightarrow> string \<Rightarrow> bool \<Rightarrow> ('s, unit) orch" where
  "confirm_steer oc w run item profile approve =
     (case run_in oc w run item of
        Inl e \<Rightarrow> (w, Inl e)
      | Inr data \<Rightarrow>
          (case rn_steer data of
             None \<Rightarrow> (w, Inl NotAwaitingSteer)
           | Some plan \<Rightarrow>
               if \<not> approve
               then (case patch_run oc w run
                            (\<lambda>r. r\<lparr>rn_status := (if rn_decision data \<noteq> None then RunAwaitingHuman else RunCancelled), rn_steer := None\<rparr>) of
                       Inl e \<Rightarrow> (w, Inl e)
                     | Inr w1 \<Rightarrow> (w1, Inr ()))
               else if oc_manifest oc item (rn_workflow data) = None then (w, Inl WorkflowUnavailable)
               else if newest_run_of_workflow oc w item (rn_workflow data) \<noteq> Some run then (w, Inl SupersededRun)
               else (let w1 = (log_effect (SteerApplied run (sl_invalidate plan)) w)
                                \<lparr>ow_identities := dict_pop run (ow_identities w)\<rparr>
                     in case patch_run oc w1 run
                               (\<lambda>r. r\<lparr>rn_status := RunRunning, rn_steer := None, rn_decision := None, rn_phase := []\<rparr>) of
                          Inl e \<Rightarrow> (w1, Inl e)
                        | Inr w2 \<Rightarrow>
                            (spawn run (Queued \<lparr>bd_item = item, bd_profile = profile, bd_workflow = rn_workflow data\<rparr>) w2, Inr ()))))"

section \<open>Continue, and one step again\<close>

text \<open>The checks and the claim of the row, by compare and swap.\<close>

definition retry_claim :: "'s orchestrator \<Rightarrow> 's world \<Rightarrow> string \<Rightarrow> string \<Rightarrow> string \<Rightarrow> ('s, wf_run) orch" where
  "retry_claim oc w run item rerun =
     (case run_in oc w run item of
        Inl e \<Rightarrow> (w, Inl e)
      | Inr data \<Rightarrow>
          if rn_status data \<notin> {RunError, RunCancelled} then (w, Inl NotRetryable)
          else if rerun \<noteq> [] \<and> \<not> list_ex (\<lambda>s. snd (snd (br_at s)) = [] \<and> fst (snd (br_at s)) = rerun) (rn_steps data)
          then (w, Inl (UnknownStep rerun))
          else (case active_run_of_workflow oc w item (rn_workflow data) of
                  Some other \<Rightarrow> (w, Inl (ActiveRunExists other))
                | None \<Rightarrow>
                    if newest_run_of_workflow oc w item (rn_workflow data) \<noteq> Some run then (w, Inl SupersededRun)
                    else (case rm_get (oc_api oc) (ow_table w) False run of
                            Inl e \<Rightarrow> (w, Inl NoSuchRun)
                          | Inr (r, etag) \<Rightarrow>
                              if rn_status r \<notin> {RunError, RunCancelled} then (w, Inl NotRetryable)
                              else (case rm_modify (oc_api oc) (ow_table w) run
                                           (with_settled_phases (\<lambda>r. r\<lparr>rn_status := RunPending\<rparr>) r) (Some etag) of
                                      Inl e \<Rightarrow> (w, Inl NotRetryable)
                                    | Inr (s', _) \<Rightarrow> (w\<lparr>ow_table := s', ow_claiming := run # ow_claiming w\<rparr>, Inr data)))))"

text \<open>What is left of a claimed run once its workflow could be loaded, or not.\<close>

definition retry_drive :: "'s orchestrator \<Rightarrow> 's world \<Rightarrow> string \<Rightarrow> string \<Rightarrow> string \<Rightarrow> wf_run \<Rightarrow> string \<Rightarrow> ('s, unit) orch" where
  "retry_drive oc w run item profile data rerun =
     (let w0 = w\<lparr>ow_claiming := removeAll run (ow_claiming w)\<rparr>
      in case oc_manifest oc item (rn_workflow data) of
           None \<Rightarrow>
             (if run_status oc w0 run = Some RunPending
              then (case patch_run oc w0 run (\<lambda>r. r\<lparr>rn_status := rn_status data\<rparr>) of
                      Inr w1 \<Rightarrow> (w1, Inl WorkflowUnavailable) | Inl e \<Rightarrow> (w0, Inl e))
              else (w0, Inl WorkflowUnavailable))
         | Some phases \<Rightarrow>
             (let w1 = no_task run (if rerun \<noteq> [] then log_effect (SteerApplied run [rerun]) w0 else w0)
              in if run_status oc w1 run \<noteq> Some RunPending then (w1, Inr ())
                 else (case patch_run oc w1 run
                              (\<lambda>r. r\<lparr>rn_status := RunRunning, rn_phases := map new_phase phases, rn_steps := [], rn_phase := [],
                                     rn_ended := None, rn_result := None\<rparr>) of
                         Inl e \<Rightarrow> (w1, Inl e)
                       | Inr w2 \<Rightarrow>
                           (spawn run (Queued \<lparr>bd_item = item, bd_profile = profile, bd_workflow = rn_workflow data\<rparr>) w2, Inr ()))))"

definition retry :: "'s orchestrator \<Rightarrow> 's world \<Rightarrow> string \<Rightarrow> string \<Rightarrow> string \<Rightarrow> string \<Rightarrow> ('s, unit) orch" where
  "retry oc w run item profile rerun =
     (case retry_claim oc w run item rerun of
        (w1, Inl e) \<Rightarrow> (w1, Inl e)
      | (w1, Inr data) \<Rightarrow> retry_drive oc w1 run item profile data rerun)"

section \<open>Runs whose pod is gone\<close>

definition resume :: "'s orchestrator \<Rightarrow> 's world \<Rightarrow> string \<Rightarrow> string \<Rightarrow> int \<Rightarrow> ('s, bool) orch" where
  "resume oc w run profile grace_ms =
     (case rm_get (oc_api oc) (ow_table w) False run of
        Inl e \<Rightarrow> (w, Inl (case e of NotFound \<Rightarrow> NoSuchRun | IsDeleted \<Rightarrow> NoSuchRun | _ \<Rightarrow> TableFailed e))
      | Inr (r, etag) \<Rightarrow>
          if rn_page r \<noteq> None \<or> rn_status r \<noteq> RunRunning \<or> oc_now oc - last_sign r \<le> grace_ms then (w, Inr False)
          else (case rm_modify (oc_api oc) (ow_table w) run
                       (with_settled_phases (\<lambda>r. r\<lparr>rn_progress := Some (oc_now oc)\<rparr>) r) (Some etag) of
                  Inl PreconditionFailed \<Rightarrow> (w, Inr False)
                | Inl e \<Rightarrow> (w, Inl (TableFailed e))
                | Inr (s', _) \<Rightarrow>
                    (let w1 = w\<lparr>ow_table := s'\<rparr>
                     in if oc_manifest oc (rn_item r) (rn_workflow r) = None then (w1, Inl NoManifest)
                        else (spawn run (Queued \<lparr>bd_item = rn_item r, bd_profile = profile, bd_workflow = rn_workflow r\<rparr>) w1, Inr True))))"

definition abandon :: "'s orchestrator \<Rightarrow> 's world \<Rightarrow> string \<Rightarrow> string \<Rightarrow> ('s, unit) orch" where
  "abandon oc w run why =
     (case get_run oc w run of
        Inl e \<Rightarrow> (w, Inl e)
      | Inr data \<Rightarrow>
          if rn_status data \<in> {RunDone, RunError, RunCancelled} then (w, Inr ())
          else (let w1 = (case dict_get (ow_tasks w) run of Some t \<Rightarrow> no_task run (cancel_task oc w run t) | None \<Rightarrow> w)
                in case patch_run oc w1 run
                          (\<lambda>r. r\<lparr>rn_status := RunError, rn_ended := Some (oc_now oc),
                                 rn_result := Some [(''abandoned'', JBool True), (''reason'', JStr why)]\<rparr>) of
                     Inl e \<Rightarrow> (w1, Inl e)
                   | Inr w2 \<Rightarrow> (log_effect (FailureNotified run) (release (rn_item data) True (run_key data) (rn_page data \<noteq> None) w2), Inr ())))"

section \<open>Page jobs\<close>

definition PAGE_JOB_GRACE_MS :: int where
  "PAGE_JOB_GRACE_MS = 60000"

definition page_job_lost :: "'s orchestrator \<Rightarrow> wf_run \<Rightarrow> bool" where
  "page_job_lost oc r =
     (case rn_page r of None \<Rightarrow> False | Some job \<Rightarrow> pj_deadline job + PAGE_JOB_GRACE_MS < oc_now oc)"

fun abandon_each :: "'s orchestrator \<Rightarrow> 's world \<Rightarrow> string list \<Rightarrow> ('s, unit) orch" where
  "abandon_each oc w [] = (w, Inr ())"
| "abandon_each oc w (run # runs) =
     (case abandon oc w run ''lost'' of
        (w', Inl e) \<Rightarrow> (w', Inl e)
      | (w', Inr _) \<Rightarrow> abandon_each oc w' runs)"

definition settle_lost_page_jobs :: "'s orchestrator \<Rightarrow> 's world \<Rightarrow> string \<Rightarrow> ('s, unit) orch" where
  "settle_lost_page_jobs oc w item =
     abandon_each oc w (map fst (filter (\<lambda>(i, r). active (rn_status r) \<and> page_job_lost oc r) (item_runs oc w item)))"

definition live_page_jobs :: "'s orchestrator \<Rightarrow> 's world \<Rightarrow> string \<Rightarrow> nat" where
  "live_page_jobs oc w item =
     length (filter (\<lambda>(i, r). rn_page r \<noteq> None \<and> active (rn_status r) \<and> \<not> page_job_lost oc r) (item_runs oc w item))"

text \<open>
  The place is asked for, then the turn epoch is awaited, then the row is written: the two parts of
  \<open>start_page_job\<close>.
\<close>

definition page_job_check :: "'s orchestrator \<Rightarrow> 's world \<Rightarrow> string \<Rightarrow> string \<Rightarrow> ('s, unit) orch" where
  "page_job_check oc w item user =
     (if user = [] then (w, Inl NoIdentity)
      else (case settle_lost_page_jobs oc w item of
              (w1, Inl e) \<Rightarrow> (w1, Inl e)
            | (w1, Inr _) \<Rightarrow>
                if oc_job_limit oc \<le> live_page_jobs oc w1 item then (w1, Inl TooManyPageJobs) else (w1, Inr ())))"

definition page_job_act ::
  "'s orchestrator \<Rightarrow> 's world \<Rightarrow> string \<Rightarrow> string \<Rightarrow> string \<Rightarrow> string \<Rightarrow> page_job \<Rightarrow> int \<Rightarrow> string \<Rightarrow> ('s, string) orch" where
  "page_job_act oc w item user env_user chat job deadline run =
     (case rm_create (oc_api oc) (ow_table w) run
             ((new_run item user)\<lparr>rn_chat := chat, rn_page := Some (job\<lparr>pj_deadline := deadline\<rparr>)\<rparr>) of
        Inl e \<Rightarrow> (w, Inl (TableFailed e))
      | Inr s' \<Rightarrow>
          (let ident = \<lparr>ri_user = env_user, ri_verb = ''execute'', ri_workflow = [], ri_digest = [], ri_item = item, ri_profile = []\<rparr>;
               w1 = w\<lparr>ow_table := s',
                      ow_identities := (if env_user \<noteq> [] then dict_set run ident (ow_identities w) else ow_identities w)\<rparr>
           in case prune_runs oc w1 item run of
                Inl e \<Rightarrow> (w1, Inl e)
              | Inr w2 \<Rightarrow> (spawn run (PageQueued item) w2, Inr run)))"

definition start_page_job ::
  "'s orchestrator \<Rightarrow> 's world \<Rightarrow> string \<Rightarrow> string \<Rightarrow> string \<Rightarrow> string \<Rightarrow> page_job \<Rightarrow> string \<Rightarrow> ('s, string) orch" where
  "start_page_job oc w item user env_user chat job run =
     (case page_job_check oc w item user of
        (w1, Inl e) \<Rightarrow> (w1, Inl e)
      | (w1, Inr _) \<Rightarrow> page_job_act oc w1 item user env_user chat job (oc_now oc + oc_job_timeout_ms oc) run)"

datatype job_state = JobRunning | JobDone "(string \<times> json) list" | JobStopped | JobFailed string

definition page_job_state_of :: "wf_run \<Rightarrow> job_state" where
  "page_job_state_of r =
     (if active (rn_status r) then JobRunning
      else if rn_status r = RunDone then JobDone (case rn_result r of Some d \<Rightarrow> d | None \<Rightarrow> [])
      else if rn_status r = RunCancelled then JobStopped
      else (let said = (\<lambda>k. case rn_result r of Some d \<Rightarrow> (case dict_get d k of Some (JStr t) \<Rightarrow> t | _ \<Rightarrow> []) | None \<Rightarrow> [])
            in JobFailed (if said ''error'' \<noteq> [] then said ''error'' else if said ''reason'' \<noteq> [] then said ''reason'' else ''This job failed.'')))"

definition page_job_state :: "'s orchestrator \<Rightarrow> 's world \<Rightarrow> string \<Rightarrow> string \<Rightarrow> ('s, job_state) orch" where
  "page_job_state oc w run item =
     (case run_in oc w run item of
        Inl e \<Rightarrow> (w, Inl e)
      | Inr data \<Rightarrow>
          if rn_page data = None then (w, Inl NoSuchRun)
          else if active (rn_status data) \<and> page_job_lost oc data
          then (case abandon oc w run ''lost'' of
                  (w1, Inl e) \<Rightarrow> (w1, Inl e)
                | (w1, Inr _) \<Rightarrow> (w1, map_sum id page_job_state_of (get_run oc w1 run)))
          else (w, Inr (page_job_state_of data)))"

end
