(* ===== verification/RunSafety.thy ===== *)
theory RunSafety
  imports Runs
begin

text \<open>
  What the lifecycle of runs keeps and where it strands a run: the claim of a retry excludes another,
  a run carries a person's values only while it is built from what they consented to, retention
  removes ended runs only, page jobs stay within their limit; a Stop does not end a run this pod does
  not drive, a queued one included.
\<close>

section \<open>The table of runs\<close>

locale runs = row_store "oc_api oc" rows
  for oc :: "'s orchestrator" and rows
begin

lemma get_run_some: "get_run oc w run = Inr r \<longleftrightarrow> (\<exists>e. rows (ow_table w) run = Some (r, e, False))"
  by (auto simp: get_run_def get_law split: option.splits prod.splits if_splits)

lemma get_run_row: "rows (ow_table w) run = Some (r, e, False) \<Longrightarrow> get_run oc w run = Inr r"
  using get_run_some by blast

lemma run_in_row: "rows (ow_table w) run = Some (r, e, False) \<Longrightarrow> rn_item r = item \<Longrightarrow> run_in oc w run item = Inr r"
  by (simp add: run_in_def get_run_row)

lemma run_in_some: "run_in oc w run item = Inr r \<longleftrightarrow> rn_item r = item \<and> (\<exists>e. rows (ow_table w) run = Some (r, e, False))"
  by (auto simp: run_in_def bindE_eq_Inr get_run_some split: if_splits)

lemma write_run_row:
  assumes "rows (ow_table w) run = Some (r, e, False)"
  obtains s' e' where "write_run oc w run f = Inr (w\<lparr>ow_table := s'\<rparr>)" "e < e'"
    "rows s' = (rows (ow_table w))(run \<mapsto> (with_settled_phases f r, e', False))"
  using modify_live [OF assms, of None "with_settled_phases f r"] that
  by (auto simp: write_run_def get_run_row [OF assms])

lemma write_run_Inr:
  assumes "write_run oc w run f = Inr w'"
  obtains r e s' e' where "rows (ow_table w) run = Some (r, e, False)" "w' = w\<lparr>ow_table := s'\<rparr>" "e < e'"
    "rows s' = (rows (ow_table w))(run \<mapsto> (with_settled_phases f r, e', False))"
proof -
  obtain r e where row: "rows (ow_table w) run = Some (r, e, False)"
    using assms by (auto simp: write_run_def bindE_eq_Inr get_run_some)
  from write_run_row [OF this, of f] assms that row show ?thesis by (metis Inr_inject)
qed

lemma patch_run_row:
  assumes "rows (ow_table w) run = Some (r, e, False)"
  obtains s' e' where
    "patch_run oc w run f = Inr (if active (rn_status r) \<and> \<not> active (rn_status (f r)) then log_effect (Settled run) (w\<lparr>ow_table := s'\<rparr>) else w\<lparr>ow_table := s'\<rparr>)"
    "rows s' = (rows (ow_table w))(run \<mapsto> (with_settled_phases (\<lambda>r. f (r\<lparr>rn_progress := Some (oc_now oc)\<rparr>)) r, e', False))"
proof (rule write_run_row [OF assms, of "\<lambda>r. f (r\<lparr>rn_progress := Some (oc_now oc)\<rparr>)"])
  fix s' e'
  assume "write_run oc w run (\<lambda>r. f (r\<lparr>rn_progress := Some (oc_now oc)\<rparr>)) = Inr (w\<lparr>ow_table := s'\<rparr>)"
    and rows: "rows s' = (rows (ow_table w))(run \<mapsto> (with_settled_phases (\<lambda>r. f (r\<lparr>rn_progress := Some (oc_now oc)\<rparr>)) r, e', False))"
  then show ?thesis by (intro that [OF _ rows]) (simp add: patch_run_def get_run_row [OF assms])
qed

lemma item_runs_iff: "(i, r) \<in> set (item_runs oc w item) \<longleftrightarrow> rn_item r = item \<and> (\<exists>e d. rows (ow_table w) i = Some (r, e, d))"
  by (auto simp: item_runs_def list_rows [symmetric]) force

lemma first_run_some: "first_run P rs = Some i \<Longrightarrow> \<exists>r. (i, r) \<in> set rs \<and> P r"
  by (auto simp: first_run_def find_Some_iff) (metis nth_mem)

lemma first_run_exists: "(i, r) \<in> set rs \<Longrightarrow> P r \<Longrightarrow> \<exists>j. first_run P rs = Some j"
  unfolding first_run_def by (cases "find (\<lambda>(i, r). P r) rs") (auto simp: find_None_iff)

text \<open>A Stop on a pod that neither drives nor claims the run signals, and writes nothing.\<close>

lemma stop_without_task:
  assumes "rows (ow_table w) run = Some (r, e, False)" "rn_item r = item" "active (rn_status r)"
    and "dict_get (ow_tasks w) run = None" "run \<notin> set (ow_claiming w)"
  shows "cancel_run oc w run item
    = (log_effect (StopSignal (aside_lane (run_key r))) (log_effect (StopSignal (run_key r)) w), Inr True)"
  using assms by (simp add: cancel_run_def run_in_row Let_def)

end

text \<open>An orchestrator over the table in memory.\<close>

definition mem_orch :: "wf_run mem orchestrator \<Rightarrow> wf_run mem orchestrator" where
  "mem_orch oc = oc\<lparr>oc_api := mem_store\<rparr>"

interpretation mem_runs: runs "mem_orch oc" dict_get for oc
  by (rule runs.intro) (simp add: mem_orch_def mem.row_store_axioms)

definition demo_orch :: "(string \<Rightarrow> string \<Rightarrow> string list option) \<Rightarrow> wf_run mem orchestrator" where
  "demo_orch manifest =
     mem_orch \<lparr>oc_api = mem_store, oc_now = 100, oc_born = (\<lambda>i. if i = ''r2'' then 2 else 1), oc_manifest = manifest,
       oc_keep_last = 1, oc_pinned = (\<lambda>_. {''r9''}), oc_job_limit = 1, oc_job_timeout_ms = 1000\<rparr>"

definition demo_run :: "run_state \<Rightarrow> wf_run" where
  "demo_run st = (new_run ''i'' ''u'')\<lparr>rn_chat := ''c'', rn_workflow := ''w'', rn_status := st\<rparr>"

definition demo_world :: "(string \<times> wf_run) list \<Rightarrow> wf_run mem world" where
  "demo_world rs =
     \<lparr>ow_table = map (\<lambda>(i, r). (i, r, 0, False)) rs, ow_identities = [], ow_tasks = [], ow_claiming = [], ow_log = []\<rparr>"

definition demo_launch :: launch where
  "demo_launch =
     \<lparr>la_item = ''i'', la_profile = ''p'', la_user = ''u'', la_workflow = ''w'', la_chat = ''c'', la_env_user = ''u'',
       la_env_verb = ''execute'', la_env_digest = Some ''d'', la_payload = [], la_origin = [], la_depth = 0,
       la_by_hand = True, la_from_schedule = False\<rparr>"

lemma demo_store: "row_store (oc_api (demo_orch m)) dict_get"
  unfolding demo_orch_def by (rule mem_runs.row_store_axioms)

lemmas demo_defs = demo_orch_def mem_orch_def demo_run_def demo_world_def demo_launch_def new_run_def mem_store_defs

lemmas newest_defs =
  newest_run_of_workflow_def item_runs_def is_execution_of_def is_execution_def

lemma log_effect_fields [simp]:
  "ow_table (log_effect x w) = ow_table w" "ow_tasks (log_effect x w) = ow_tasks w"
  "ow_claiming (log_effect x w) = ow_claiming w" "ow_identities (log_effect x w) = ow_identities w"
  "ow_log (log_effect x w) = x # ow_log w"
  by (simp_all add: log_effect_def)

lemma no_task_fields [simp]:
  "ow_table (no_task run w) = ow_table w" "ow_claiming (no_task run w) = ow_claiming w"
  "ow_identities (no_task run w) = ow_identities w" "ow_log (no_task run w) = ow_log w"
  "dict_get (ow_tasks (no_task run w)) k = (if k = run then None else dict_get (ow_tasks w) k)"
  by (simp_all add: no_task_def)

section \<open>Runs a Stop leaves as they are\<close>

lemma cancel_without_task:
  fixes oc :: "'s orchestrator"
  assumes "row_store (oc_api oc) rows" "rows (ow_table w) run = Some (r, e, False)" "rn_item r = item" "active (rn_status r)"
    and "dict_get (ow_tasks w) run = None" "run \<notin> set (ow_claiming w)"
  shows "snd (cancel_run oc w run item) = Inr True" "ow_table (fst (cancel_run oc w run item)) = ow_table w"
    and "ow_tasks (fst (cancel_run oc w run item)) = ow_tasks w" "ow_claiming (fst (cancel_run oc w run item)) = ow_claiming w"
  using runs.stop_without_task [OF runs.intro [OF assms(1)] assms(2-6)] by simp_all

lemma retry_of_active:
  fixes oc :: "'s orchestrator"
  assumes "row_store (oc_api oc) rows" "rows (ow_table w) run = Some (r, e, False)" "rn_item r = item" "active (rn_status r)"
  shows "retry oc w run item profile rerun = (w, Inl NotRetryable)"
  using assms(4) runs.run_in_row [OF runs.intro [OF assms(1)] assms(2,3)]
  by (auto simp: retry_def retry_claim_def active_def ACTIVE_RUN_def)

lemma start_on_active:
  fixes oc :: "'s orchestrator"
  assumes "row_store (oc_api oc) rows" "rows (ow_table w) run = Some (r, e, False)" "active (rn_status r)"
    and "la_user la \<noteq> []" "la_item la = rn_item r" "la_chat la = rn_chat r"
  shows "\<exists>other. start_run oc w la new digest = (w, Inl (ActiveRunExists other))"
proof -
  note l = runs.intro [OF assms(1)]
  have r: "(run, r) \<in> set (item_runs oc w (rn_item r))" using runs.item_runs_iff [OF l] assms(2) by blast
  have "\<exists>j. active_run_for_chat oc w (rn_item r) (rn_chat r) = Some j"
    unfolding active_run_for_chat_def by (rule runs.first_run_exists [OF l r]) (simp add: assms(3))
  moreover have "\<exists>j. active_run oc w (rn_item r) = Some j"
    unfolding active_run_def by (rule runs.first_run_exists [OF l r]) (simp add: assms(3))
  ultimately
  show ?thesis using assms(4-6) by (auto simp: start_run_def start_check_def)
qed

text \<open>
  a run that waits at a gate while a newer execution of its workflow exists cannot be ended by
  anyone: a Stop answers that it stopped and writes nothing, a decision, a change, a Continue and a
  resume are refused, and its conversation takes no other run.
\<close>

theorem superseded_gate_stuck:
  fixes oc :: "'s orchestrator"
  assumes "row_store (oc_api oc) rows" "rows (ow_table w) run = Some (r, e, False)" "rn_item r = item"
    and "rn_status r = RunAwaitingHuman" "rn_decision r \<noteq> None" "rn_steer r = None" "rn_page r = None"
    and "newest_run_of_workflow oc w item (rn_workflow r) \<noteq> Some run"
    and "dict_get (ow_tasks w) run = None" "run \<notin> set (ow_claiming w)"
    and "la_user la \<noteq> []" "la_item la = item" "la_chat la = rn_chat r"
  shows "snd (cancel_run oc w run item) = Inr True \<and> ow_table (fst (cancel_run oc w run item)) = ow_table w
     \<and> (\<exists>x. decide oc w run item profile choice who = (w, Inl x))
     \<and> steer oc w run item = (w, Inl SupersededRun)
     \<and> confirm_steer oc w run item profile approve = (w, Inl NotAwaitingSteer)
     \<and> retry oc w run item profile rerun = (w, Inl NotRetryable)
     \<and> resume oc w run profile grace_ms = (w, Inr False)
     \<and> (\<exists>other. start_run oc w la new digest = (w, Inl (ActiveRunExists other)))"
proof -
  note l = runs.intro [OF assms(1)]
  have act: "active (rn_status r)" by (simp add: assms(4) active_def ACTIVE_RUN_def)
  have row: "run_in oc w run item = Inr r" by (rule runs.run_in_row [OF l assms(2,3)])
  have "\<exists>x. decide oc w run item profile choice who = (w, Inl x)"
    using row assms(4,5,8) by (auto simp: decide_def decide_check_def)
  moreover have "steer oc w run item = (w, Inl SupersededRun)" using row assms(7,8) by (simp add: steer_def)
  moreover have "confirm_steer oc w run item profile approve = (w, Inl NotAwaitingSteer)" using row assms(6) by (simp add: confirm_steer_def)
  moreover have "resume oc w run profile grace_ms = (w, Inr False)"
    using row_store.get_law [OF assms(1)] assms(2,4) by (simp add: resume_def)
  ultimately show ?thesis
    using cancel_without_task [OF assms(1,2,3) act assms(9,10)] retry_of_active [OF assms(1,2,3) act]
      start_on_active [OF assms(1,2) act assms(11)] assms(3,12,13) by simp
qed

lemma superseded_gate_stuck_witness:
  "\<exists>w. snd (cancel_run (demo_orch (\<lambda>_ _. Some [])) w ''r1'' ''i'') = Inr True \<and> steer (demo_orch (\<lambda>_ _. Some [])) w ''r1'' ''i'' = (w, Inl SupersededRun)"
proof -
  let ?oc = "demo_orch (\<lambda>_ _. Some [])"
  let ?r = "(demo_run RunAwaitingHuman)\<lparr>rn_decision := Some \<lparr>pd_phase = ''p'', pd_title = [], pd_summary = [], pd_allow = []\<rparr>\<rparr>"
  let ?w = "demo_world [(''r1'', ?r), (''r2'', demo_run RunDone)]"
  have "snd (cancel_run ?oc ?w ''r1'' ''i'') = Inr True \<and> ow_table (fst (cancel_run ?oc ?w ''r1'' ''i'')) = ow_table ?w
     \<and> (\<exists>x. decide ?oc ?w ''r1'' ''i'' [] [] [] = (?w, Inl x)) \<and> steer ?oc ?w ''r1'' ''i'' = (?w, Inl SupersededRun)
     \<and> confirm_steer ?oc ?w ''r1'' ''i'' [] True = (?w, Inl NotAwaitingSteer) \<and> retry ?oc ?w ''r1'' ''i'' [] [] = (?w, Inl NotRetryable)
     \<and> resume ?oc ?w ''r1'' [] 0 = (?w, Inr False) \<and> (\<exists>other. start_run ?oc ?w demo_launch ''r3'' [] = (?w, Inl (ActiveRunExists other)))"
    by (rule superseded_gate_stuck [OF demo_store, where r = ?r and e = 0]) (simp_all add: demo_defs newest_defs)
  then show ?thesis by blast
qed

text \<open>Asking a change of a pending run: only the newest of its workflow takes it, and it is then written running.\<close>

lemma steer_of_pending:
  fixes oc :: "'s orchestrator"
  assumes "row_store (oc_api oc) rows" "rows (ow_table w) run = Some (r, e, False)" "rn_item r = item"
    and "rn_status r = RunPending" "rn_page r = None" "dict_get (ow_tasks w) run = None" "run \<notin> set (ow_claiming w)"
  shows "if newest_run_of_workflow oc w item (rn_workflow r) = Some run
     then \<exists>w2 r2 e2. steer oc w run item = (w2, Inr ()) \<and> rows (ow_table w2) run = Some (r2, e2, False) \<and> rn_status r2 = RunRunning
     else steer oc w run item = (w, Inl SupersededRun)"
proof -
  note l = runs.intro [OF assms(1)]
  have act: "active (rn_status r)" by (simp add: assms(4) active_def ACTIVE_RUN_def)
  have row: "run_in oc w run item = Inr r" by (rule runs.run_in_row [OF l assms(2,3)])
  have row0: "rows (ow_table (fst (cancel_run oc w run item))) run = Some (r, e, False)"
    using cancel_without_task(2) [OF assms(1-3) act assms(6,7)] assms(2) by simp
  show ?thesis
    by (rule runs.patch_run_row [OF l row0, of "\<lambda>r. r\<lparr>rn_status := RunRunning\<rparr>"])
       (use row assms(4,5) in \<open>auto simp: steer_def Let_def active_def ACTIVE_RUN_def\<close>)
qed

text \<open>
  C38: a run stopped while it waits for a slot stays pending: the Stop takes away the task that
  would have driven it and leaves the row; a second Stop answers the same and writes nothing, a
  Continue, a resume, a decision and an answer to a change are refused, and its conversation takes no
  other run.  Of these only a change asked of it gets it out, which writes it running; and this is refused
  when a newer run of its workflow exists.
\<close>

theorem stop_strands_queued_run:
  fixes oc :: "'s orchestrator"
  assumes "row_store (oc_api oc) rows" "rows (ow_table w) run = Some (r, e, False)" "rn_item r = item"
    and "rn_status r = RunPending" "rn_page r = None" "rn_steer r = None"
    and "dict_get (ow_tasks w) run = Some (Queued b)" "run \<notin> set (ow_claiming w)"
    and "la_user la \<noteq> []" "la_item la = item" "la_chat la = rn_chat r"
  shows "\<exists>w1. cancel_run oc w run item = (w1, Inr True) \<and> ow_table w1 = ow_table w \<and> dict_get (ow_tasks w1) run = None
     \<and> snd (cancel_run oc w1 run item) = Inr True \<and> ow_table (fst (cancel_run oc w1 run item)) = ow_table w
     \<and> retry oc w1 run item profile rerun = (w1, Inl NotRetryable)
     \<and> resume oc w1 run profile grace_ms = (w1, Inr False)
     \<and> decide oc w1 run item profile choice who = (w1, Inl NotAwaitingDecision)
     \<and> confirm_steer oc w1 run item profile approve = (w1, Inl NotAwaitingSteer)
     \<and> (\<exists>other. start_run oc w1 la new digest = (w1, Inl (ActiveRunExists other)))
     \<and> (if newest_run_of_workflow oc w item (rn_workflow r) = Some run
        then \<exists>w2 r2 e2. steer oc w1 run item = (w2, Inr ()) \<and> rows (ow_table w2) run = Some (r2, e2, False) \<and> rn_status r2 = RunRunning
        else steer oc w1 run item = (w1, Inl SupersededRun))"
proof -
  note l = runs.intro [OF assms(1)]
  have act: "active (rn_status r)" by (simp add: assms(4) active_def ACTIVE_RUN_def)
  have row: "run_in oc w run item = Inr r" by (rule runs.run_in_row [OF l assms(2,3)])
  obtain w1 where w1: "cancel_run oc w run item = (w1, Inr True)" "ow_table w1 = ow_table w"
    "dict_get (ow_tasks w1) run = None" "ow_claiming w1 = ow_claiming w"
    using row act assms(5,7,8) by (simp add: cancel_run_def Let_def cancel_task_def release_def)
  have row1: "rows (ow_table w1) run = Some (r, e, False)" and free: "run \<notin> set (ow_claiming w1)"
    using w1 assms(2,8) by simp_all
  have in1: "run_in oc w1 run item = Inr r" by (rule runs.run_in_row [OF l row1 assms(3)])
  have newest: "newest_run_of_workflow oc w1 item (rn_workflow r) = newest_run_of_workflow oc w item (rn_workflow r)"
    by (simp add: newest_defs w1(2))
  have "resume oc w1 run profile grace_ms = (w1, Inr False)"
    using row_store.get_law [OF assms(1)] row1 assms(4) by (simp add: resume_def)
  moreover have "decide oc w1 run item profile choice who = (w1, Inl NotAwaitingDecision)"
    "confirm_steer oc w1 run item profile approve = (w1, Inl NotAwaitingSteer)"
    using in1 assms(4,6) by (simp_all add: decide_def decide_check_def confirm_steer_def)
  moreover have "ow_table (fst (cancel_run oc w1 run item)) = ow_table w"
    using cancel_without_task(2) [OF assms(1) row1 assms(3) act w1(3) free] w1(2) by simp
  ultimately show ?thesis
    using cancel_without_task(1) [OF assms(1) row1 assms(3) act w1(3) free] retry_of_active [OF assms(1) row1 assms(3) act]
      start_on_active [OF assms(1) row1 act assms(9)] steer_of_pending [OF assms(1) row1 assms(3-5) w1(3) free, unfolded newest]
      assms(3,10,11) w1 by simp
qed

lemma stop_strands_queued_run_witness:
  "\<exists>w w1. cancel_run (demo_orch (\<lambda>_ _. Some [])) w ''r1'' ''i'' = (w1, Inr True) \<and> retry (demo_orch (\<lambda>_ _. Some [])) w1 ''r1'' ''i'' [] [] = (w1, Inl NotRetryable)"
proof -
  let ?w = "(demo_world [(''r1'', demo_run RunPending)])\<lparr>ow_tasks := [(''r1'', Queued \<lparr>bd_item = ''i'', bd_profile = [], bd_workflow = ''w''\<rparr>)]\<rparr>"
  have hyps: "dict_get (ow_table ?w) ''r1'' = Some (demo_run RunPending, 0, False)" "rn_item (demo_run RunPending) = ''i''"
    "rn_status (demo_run RunPending) = RunPending" "rn_page (demo_run RunPending) = None" "rn_steer (demo_run RunPending) = None"
    "dict_get (ow_tasks ?w) ''r1'' = Some (Queued \<lparr>bd_item = ''i'', bd_profile = [], bd_workflow = ''w''\<rparr>)" "''r1'' \<notin> set (ow_claiming ?w)"
    "la_user demo_launch \<noteq> []" "la_item demo_launch = ''i''" "la_chat demo_launch = rn_chat (demo_run RunPending)"
    by (simp_all add: demo_defs)
  show ?thesis using stop_strands_queued_run [OF demo_store hyps, where profile = "[]" and rerun = "[]" and grace_ms = 0
        and choice = "[]" and who = "[]" and approve = True] by blast
qed

text \<open>
  a change asked of a run whose workflow can no longer be loaded is not refused: the run is written
  running, its steerer raises before it writes anything, and the run stays running with nothing that
  drives it; a Stop writes nothing and a Continue is refused.
\<close>

theorem steer_strands_broken_workflow:
  fixes oc :: "'s orchestrator"
  assumes "row_store (oc_api oc) rows" "rows (ow_table w) run = Some (r, e, False)" "rn_item r = item"
    and "rn_status r \<in> {RunError, RunCancelled, RunDone}" "rn_page r = None" "run \<notin> set (ow_claiming w)"
    and "newest_run_of_workflow oc w item (rn_workflow r) = Some run" "oc_manifest oc item (rn_workflow r) = None"
  shows "\<exists>w1 w2 r2 e2. steer oc w run item = (w1, Inr ()) \<and> propose_end oc w1 run item answer = (w2, Inl WorkflowUnavailable)
     \<and> rows (ow_table w2) run = Some (r2, e2, False) \<and> rn_status r2 = RunRunning \<and> dict_get (ow_tasks w2) run = None
     \<and> snd (cancel_run oc w2 run item) = Inr True \<and> ow_table (fst (cancel_run oc w2 run item)) = ow_table w2
     \<and> retry oc w2 run item profile rerun = (w2, Inl NotRetryable)"
proof -
  note l = runs.intro [OF assms(1)]
  have row: "run_in oc w run item = Inr r" by (rule runs.run_in_row [OF l assms(2,3)])
  have row0: "rows (ow_table (no_task run w)) run = Some (r, e, False)" using assms(2) by simp
  obtain s' e' where p: "patch_run oc (no_task run w) run (\<lambda>r. r\<lparr>rn_status := RunRunning\<rparr>) = Inr ((no_task run w)\<lparr>ow_table := s'\<rparr>)"
    "rows s' run = Some (with_settled_phases (\<lambda>r. r\<lparr>rn_progress := Some (oc_now oc), rn_status := RunRunning\<rparr>) r, e', False)"
    by (rule runs.patch_run_row [OF l row0, of "\<lambda>r. r\<lparr>rn_status := RunRunning\<rparr>"]) (use assms(4) in \<open>auto simp: active_def ACTIVE_RUN_def\<close>)
  let ?r = "with_settled_phases (\<lambda>r. r\<lparr>rn_progress := Some (oc_now oc), rn_status := RunRunning\<rparr>) r"
  let ?w1 = "(no_task run w)\<lparr>ow_table := s', ow_tasks := dict_set run Proposing (ow_tasks (no_task run w))\<rparr>"
  have steer: "steer oc w run item = (?w1, Inr ())"
    using row p(1) assms(4,5,7) by (auto simp: steer_def Let_def)
  have "get_run oc ?w1 run = Inr ?r" using runs.get_run_row [OF l, of ?w1] p(2) by simp
  then have answered: "propose_end oc ?w1 run item answer = (no_task run ?w1, Inl WorkflowUnavailable)"
    using assms(8) by (simp add: propose_end_def)
  let ?w2 = "no_task run ?w1"
  have row2: "rows (ow_table ?w2) run = Some (?r, e', False)" "rn_item ?r = item" "active (rn_status ?r)"
    "dict_get (ow_tasks ?w2) run = None" "run \<notin> set (ow_claiming ?w2)"
    using p(2) assms(3,6) by (simp_all add: active_def ACTIVE_RUN_def)
  show ?thesis
    using steer answered row2 cancel_without_task(1,2) [OF assms(1) row2] retry_of_active [OF assms(1) row2(1-3)]
    by (intro exI [of _ ?w1] exI [of _ ?w2] exI [of _ ?r] exI [of _ e']) simp
qed

lemma steer_strands_broken_workflow_witness:
  "\<exists>w w1 w2. steer (demo_orch (\<lambda>_ _. None)) w ''r1'' ''i'' = (w1, Inr ()) \<and> propose_end (demo_orch (\<lambda>_ _. None)) w1 ''r1'' ''i'' (Inl []) = (w2, Inl WorkflowUnavailable)"
proof -
  let ?w = "demo_world [(''r1'', demo_run RunDone)]"
  have hyps: "dict_get (ow_table ?w) ''r1'' = Some (demo_run RunDone, 0, False)" "rn_item (demo_run RunDone) = ''i''"
    "rn_status (demo_run RunDone) \<in> {RunError, RunCancelled, RunDone}" "rn_page (demo_run RunDone) = None" "''r1'' \<notin> set (ow_claiming ?w)"
    "newest_run_of_workflow (demo_orch (\<lambda>_ _. None)) ?w ''i'' (rn_workflow (demo_run RunDone)) = Some ''r1''"
    "oc_manifest (demo_orch (\<lambda>_ _. None)) ''i'' (rn_workflow (demo_run RunDone)) = None"
    by (simp_all add: demo_defs newest_defs)
  show ?thesis using steer_strands_broken_workflow [OF demo_store hyps, where answer = "Inl []" and rerun = "[]"] by blast
qed

section \<open>Two drivers\<close>

text \<open>
  two answers to one gate, each checked before the other has written: both are taken and the run is
  driven twice.
\<close>

theorem decided_twice_driven_twice:
  fixes oc :: "'s orchestrator"
  assumes "row_store (oc_api oc) rows" "decide_check oc w run item = Inr data"
  shows "\<exists>w1 w2. decide_act oc w run p1 data c1 u1 = (w1, Inr ()) \<and> decide_act oc w1 run p2 data c2 u2 = (w2, Inr ())
     \<and> ow_log w2 = [Spawned run, DecisionRecorded run c2 u2, Spawned run, DecisionRecorded run c1 u1] @ ow_log w"
proof -
  note l = runs.intro [OF assms(1)]
  have act: "\<exists>w'. decide_act oc w run p data c u = (w', Inr ()) \<and> ow_log w' = [Spawned run, DecisionRecorded run c u] @ ow_log w
      \<and> (\<exists>r' e'. rows (ow_table w') run = Some (r', e', False))"
    if row: "rows (ow_table w) run = Some (r, e, False)" for w r e p c u
  proof -
    have row': "rows (ow_table (log_effect (DecisionRecorded run c u) w)) run = Some (r, e, False)" using row by simp
    show ?thesis
      by (rule runs.patch_run_row [OF l row', of "\<lambda>r. r\<lparr>rn_status := RunRunning, rn_decision := None\<rparr>"])
         (auto simp: decide_act_def Let_def spawn_def active_def ACTIVE_RUN_def)
  qed
  obtain e where row: "rows (ow_table w) run = Some (data, e, False)"
    using assms(2) runs.run_in_some [OF l] by (auto simp: decide_check_def bindE_eq_Inr split: if_splits)
  obtain w1 r1 e1 where w1: "decide_act oc w run p1 data c1 u1 = (w1, Inr ())"
    "ow_log w1 = [Spawned run, DecisionRecorded run c1 u1] @ ow_log w" "rows (ow_table w1) run = Some (r1, e1, False)"
    using act [OF row] by metis
  obtain w2 where "decide_act oc w1 run p2 data c2 u2 = (w2, Inr ())"
    "ow_log w2 = [Spawned run, DecisionRecorded run c2 u2] @ ow_log w1" using act [OF w1(3)] by metis
  then show ?thesis using w1 by auto
qed

lemma decided_twice_driven_twice_witness:
  "\<exists>w r w1 w2. decide_check (demo_orch (\<lambda>_ _. Some [])) w ''r1'' ''i'' = Inr r
     \<and> decide_act (demo_orch (\<lambda>_ _. Some [])) w ''r1'' [] r ''yes'' ''a'' = (w1, Inr ())
     \<and> decide_act (demo_orch (\<lambda>_ _. Some [])) w1 ''r1'' [] r ''no'' ''b'' = (w2, Inr ())"
proof -
  let ?r = "(demo_run RunAwaitingHuman)\<lparr>rn_decision := Some \<lparr>pd_phase = ''p'', pd_title = [], pd_summary = [], pd_allow = []\<rparr>\<rparr>"
  let ?w = "demo_world [(''r1'', ?r)]"
  have check: "decide_check (demo_orch (\<lambda>_ _. Some [])) ?w ''r1'' ''i'' = Inr ?r"
    by (simp add: decide_check_def run_in_def get_run_def demo_defs newest_defs)
  from decided_twice_driven_twice [OF demo_store check, of "[]" "''yes''" "''a''" "[]" "''no''" "''b''"]
  obtain w1 w2 where "decide_act (demo_orch (\<lambda>_ _. Some [])) ?w ''r1'' [] ?r ''yes'' ''a'' = (w1, Inr ())"
    "decide_act (demo_orch (\<lambda>_ _. Some [])) w1 ''r1'' [] ?r ''no'' ''b'' = (w2, Inr ())" by (elim exE conjE)
  with check show ?thesis by blast
qed


lemma latest_strict:
  assumes "x \<in> set xs" "\<forall>y \<in> set xs. y \<noteq> x \<longrightarrow> born y < born x"
  shows "latest born xs = Some x"
proof -
  have pick: "\<exists>y. latest born ys = Some y \<and> y \<in> set ys" if "ys \<noteq> []" for ys
    using that by (induction ys) (auto split: option.splits, metis list.exhaust option.distinct(1) latest.simps(1))
  show ?thesis using assms
  proof (induction xs)
    case (Cons a xs)
    show ?case
    proof (cases "x \<in> set xs")
      case True
      then have "latest born xs = Some x" using Cons by simp
      then show ?thesis using Cons.prems(2) by (cases "a = x") auto
    next
      case False
      then have a: "a = x" using Cons.prems(1) by simp
      show ?thesis
      proof (cases "xs = []")
        case True then show ?thesis using a by simp
      next
        case False
        from pick [OF this] obtain y where y: "latest born xs = Some y" "y \<in> set xs" by blast
        then have "born y < born x" using Cons.prems(2) \<open>x \<notin> set xs\<close> by auto
        then show ?thesis using y a by simp
      qed
    qed
  qed simp
qed

lemma newest_strict:
  fixes oc :: "'s orchestrator"
  assumes "row_store (oc_api oc) rows" "rows (ow_table w) run = Some (r, e, d)" "rn_item r = item" "is_execution_of r wid"
    and "\<And>i r' e' d'. rows (ow_table w) i = Some (r', e', d') \<Longrightarrow> rn_item r' = item \<Longrightarrow> is_execution_of r' wid \<Longrightarrow> i \<noteq> run
           \<Longrightarrow> oc_born oc i < oc_born oc run"
  shows "newest_run_of_workflow oc w item wid = Some run"
proof -
  note l = runs.intro [OF assms(1)]
  have "(run, r) \<in> set (item_runs oc w item)" using runs.item_runs_iff [OF l] assms(2,3) by blast
  then have "run \<in> set (map fst (filter (\<lambda>(i, r). is_execution_of r wid) (item_runs oc w item)))" using assms(4) by force
  moreover have "\<forall>y \<in> set (map fst (filter (\<lambda>(i, r). is_execution_of r wid) (item_runs oc w item))). y \<noteq> run \<longrightarrow> oc_born oc y < oc_born oc run"
    using assms(5) by (auto simp: runs.item_runs_iff [OF l])
  ultimately show ?thesis unfolding newest_run_of_workflow_def by (rule latest_strict)
qed

text \<open>
  C39: a gate's answer does not take away a change that waits beside it: the run is driven on the
  answer, and approving the change afterwards drives it a second time beside the first.
\<close>

theorem answered_then_confirmed_driven_twice:
  fixes oc :: "'s orchestrator"
  assumes "row_store (oc_api oc) rows" "rows (ow_table w) run = Some (r, e, False)" "rn_item r = item"
    and "rn_status r = RunAwaitingHuman" "rn_decision r \<noteq> None" "rn_steer r = Some plan" "rn_page r = None"
    and "oc_manifest oc item (rn_workflow r) \<noteq> None"
    and "\<And>i r' e' d'. rows (ow_table w) i = Some (r', e', d') \<Longrightarrow> rn_item r' = item \<Longrightarrow> is_execution_of r' (rn_workflow r) \<Longrightarrow> i \<noteq> run
           \<Longrightarrow> oc_born oc i < oc_born oc run"
  shows "\<exists>w1 w2. decide oc w run item p1 choice who = (w1, Inr ()) \<and> confirm_steer oc w1 run item p2 True = (w2, Inr ())
     \<and> ow_log w2 = [Spawned run, SteerApplied run (sl_invalidate plan), Spawned run, DecisionRecorded run choice who] @ ow_log w"
proof -
  note l = runs.intro [OF assms(1)]
  have ex: "is_execution_of r (rn_workflow r)" using assms(7) by (simp add: is_execution_of_def is_execution_def)
  have new: "newest_run_of_workflow oc w item (rn_workflow r) = Some run"
    by (rule newest_strict [OF assms(1-3) ex assms(9)])
  have check: "decide_check oc w run item = Inr r"
    using runs.run_in_row [OF l assms(2,3)] assms(4,5,8) new by (simp add: decide_check_def)
  let ?w = "log_effect (DecisionRecorded run choice who) w"
  let ?f = "\<lambda>r. r\<lparr>rn_status := RunRunning, rn_decision := None\<rparr>"
  have row: "rows (ow_table ?w) run = Some (r, e, False)" using assms(2) by simp
  obtain s1 e1 where p1: "patch_run oc ?w run ?f = Inr (?w\<lparr>ow_table := s1\<rparr>)"
    "rows s1 = (rows (ow_table ?w))(run \<mapsto> (with_settled_phases (\<lambda>r. ?f (r\<lparr>rn_progress := Some (oc_now oc)\<rparr>)) r, e1, False))"
    by (rule runs.patch_run_row [OF l row, of ?f]) (auto simp: active_def ACTIVE_RUN_def)
  let ?r1 = "with_settled_phases (\<lambda>r. ?f (r\<lparr>rn_progress := Some (oc_now oc)\<rparr>)) r"
  let ?w1 = "spawn run (Queued \<lparr>bd_item = rn_item r, bd_profile = p1, bd_workflow = rn_workflow r\<rparr>) (?w\<lparr>ow_table := s1\<rparr>)"
  have decide: "decide oc w run item p1 choice who = (?w1, Inr ())"
    by (simp add: decide_def check decide_act_def p1(1))
  have table1: "ow_table ?w1 = s1" by (simp add: spawn_def)
  have r1: "rn_item ?r1 = item" "rn_workflow ?r1 = rn_workflow r" "rn_steer ?r1 = Some plan" "is_execution_of ?r1 (rn_workflow r)"
    using assms(3,6,7) by (simp_all add: with_settled_phases_def Let_def is_execution_of_def is_execution_def)
  have row1: "rows (ow_table ?w1) run = Some (?r1, e1, False)" using p1(2) table1 by simp
  have new1: "newest_run_of_workflow oc ?w1 item (rn_workflow r) = Some run"
    by (rule newest_strict [OF assms(1) row1 r1(1,4)]) (use p1(2) table1 assms(9) in \<open>auto split: if_splits\<close>)
  let ?w2 = "(log_effect (SteerApplied run (sl_invalidate plan)) ?w1)\<lparr>ow_identities := dict_pop run (ow_identities ?w1)\<rparr>"
  let ?g = "\<lambda>r. r\<lparr>rn_status := RunRunning, rn_steer := None, rn_decision := None, rn_phase := []\<rparr>"
  have row2: "rows (ow_table ?w2) run = Some (?r1, e1, False)" using row1 by simp
  obtain s2 e2 where p2: "patch_run oc ?w2 run ?g = Inr (?w2\<lparr>ow_table := s2\<rparr>)"
    by (rule runs.patch_run_row [OF l row2, of ?g]) (auto simp: active_def ACTIVE_RUN_def)
  have "confirm_steer oc ?w1 run item p2 True
    = (spawn run (Queued \<lparr>bd_item = item, bd_profile = p2, bd_workflow = rn_workflow r\<rparr>) (?w2\<lparr>ow_table := s2\<rparr>), Inr ())"
    using runs.run_in_row [OF l row1 r1(1)] r1(2,3) assms(8) new1 p2 by (simp add: confirm_steer_def Let_def)
  then show ?thesis using decide by (auto simp: spawn_def)
qed

lemma answered_then_confirmed_driven_twice_witness:
  "\<exists>w w1 w2. decide (demo_orch (\<lambda>_ _. Some [])) w ''r1'' ''i'' [] ''yes'' ''a'' = (w1, Inr ())
     \<and> confirm_steer (demo_orch (\<lambda>_ _. Some [])) w1 ''r1'' ''i'' [] True = (w2, Inr ())"
proof -
  let ?r = "(demo_run RunAwaitingHuman)\<lparr>rn_decision := Some \<lparr>pd_phase = ''p'', pd_title = [], pd_summary = [], pd_allow = []\<rparr>, rn_steer := Some \<lparr>sl_instruction = [], sl_rationale = [], sl_edits = [], sl_invalidate = []\<rparr>\<rparr>"
  let ?w = "demo_world [(''r1'', ?r)]"
  have hyps: "dict_get (ow_table ?w) ''r1'' = Some (?r, 0, False)" "rn_item ?r = ''i''" "rn_status ?r = RunAwaitingHuman" "rn_decision ?r \<noteq> None"
    "rn_steer ?r = Some \<lparr>sl_instruction = [], sl_rationale = [], sl_edits = [], sl_invalidate = []\<rparr>" "rn_page ?r = None"
    "oc_manifest (demo_orch (\<lambda>_ _. Some [])) ''i'' (rn_workflow ?r) \<noteq> None"
    by (simp_all add: demo_defs)
  have "\<exists>w1 w2. decide (demo_orch (\<lambda>_ _. Some [])) ?w ''r1'' ''i'' [] ''yes'' ''a'' = (w1, Inr ())
     \<and> confirm_steer (demo_orch (\<lambda>_ _. Some [])) w1 ''r1'' ''i'' [] True = (w2, Inr ())
     \<and> ow_log w2 = [Spawned ''r1'', SteerApplied ''r1'' (sl_invalidate \<lparr>sl_instruction = [], sl_rationale = [], sl_edits = [], sl_invalidate = []\<rparr>),
          Spawned ''r1'', DecisionRecorded ''r1'' ''yes'' ''a''] @ ow_log ?w"
    by (rule answered_then_confirmed_driven_twice [OF demo_store hyps]) (simp add: demo_world_def split: if_splits)
  then show ?thesis by blast
qed


section \<open>Retention\<close>

abbreviation run_started :: "string \<times> wf_run \<Rightarrow> int" where
  "run_started \<equiv> \<lambda>(i, r). case rn_started r of Some t \<Rightarrow> t | None \<Rightarrow> 0"

abbreviation spare :: "string \<Rightarrow> string set \<Rightarrow> string \<times> wf_run \<Rightarrow> bool" where
  "spare keep pinned \<equiv> \<lambda>(i, r). i \<noteq> keep \<and> \<not> active (rn_status r) \<and> i \<notin> pinned"

lemma prune_from_exact:
  fixes oc :: "'s orchestrator"
  assumes "row_store (oc_api oc) rows"
  shows "distinct (map fst rs) \<Longrightarrow> \<forall>(i, r) \<in> set rs. rows (ow_table w) i \<noteq> None \<Longrightarrow> length (filter (spare keep pinned) rs) \<le> p
    \<Longrightarrow> \<exists>s' ids'. prune_from oc keep pinned d p w rs = Inr (w\<lparr>ow_table := s', ow_identities := ids'\<rparr>)
        \<and> rows s' = (\<lambda>i. if i \<in> fst ` set (take d (filter (spare keep pinned) rs)) then None else rows (ow_table w) i)
        \<and> dict_get ids' = (\<lambda>i. if i \<in> fst ` set (take d (filter (spare keep pinned) rs)) then None else dict_get (ow_identities w) i)"
proof (induction rs arbitrary: d p w)
  case Nil
  show ?case by (intro exI [of _ "ow_table w"] exI [of _ "ow_identities w"]) simp
next
  case (Cons x rs)
  obtain run r where x: "x = (run, r)" by fastforce
  note prems = Cons.prems [unfolded x]
  show ?case
  proof (cases "d = 0 \<or> p = 0")
    case True
    then have "take d (filter (spare keep pinned) ((run, r) # rs)) = []" using prems(3) by (auto simp del: filter.simps)
    then show ?thesis using True unfolding x
      by (intro exI [of _ "ow_table w"] exI [of _ "ow_identities w"]) (simp del: take_eq_Nil filter.simps)
  next
    case go: False
    show ?thesis
    proof (cases "run = keep \<or> active (rn_status r) \<or> run \<in> pinned")
      case True
      then have "filter (spare keep pinned) ((run, r) # rs) = filter (spare keep pinned) rs" by auto
      moreover have "prune_from oc keep pinned d p w ((run, r) # rs) = prune_from oc keep pinned d p w rs" using go True by auto
      ultimately show ?thesis using Cons.IH [of w p d] prems unfolding x by simp
    next
      case False
      obtain s1 where s1: "rm_purge (oc_api oc) (ow_table w) run = Inr s1" "rows s1 = (rows (ow_table w))(run := None)"
        using row_store.purge_present [OF assms, of "ow_table w" run] prems(2) by auto
      let ?w1 = "w\<lparr>ow_table := s1, ow_identities := dict_pop run (ow_identities w)\<rparr>"
      have spare: "filter (spare keep pinned) ((run, r) # rs) = (run, r) # filter (spare keep pinned) rs" using False by simp
      have there: "\<forall>(i, r) \<in> set rs. rows (ow_table ?w1) i \<noteq> None" using prems(1,2) s1(2) by force
      have "distinct (map fst rs)" "length (filter (spare keep pinned) rs) \<le> p - 1" using prems(1,3) spare by simp_all
      from Cons.IH [OF this(1) there this(2), of "d - 1"]
      obtain s' ids' where ih: "prune_from oc keep pinned (d - 1) (p - 1) ?w1 rs = Inr (?w1\<lparr>ow_table := s', ow_identities := ids'\<rparr>)"
        "rows s' = (\<lambda>i. if i \<in> fst ` set (take (d - 1) (filter (spare keep pinned) rs)) then None else rows (ow_table ?w1) i)"
        "dict_get ids' = (\<lambda>i. if i \<in> fst ` set (take (d - 1) (filter (spare keep pinned) rs)) then None else dict_get (ow_identities ?w1) i)"
        by blast
      have take: "take d ((run, r) # filter (spare keep pinned) rs) = (run, r) # take (d - 1) (filter (spare keep pinned) rs)"
        using go by (cases d) auto
      show ?thesis unfolding x spare take using ih go False s1
        by (intro exI [of _ s'] exI [of _ ids']) (auto simp: fun_eq_iff)
    qed
  qed
qed

lemma taken_first:
  assumes "sorted (map f xs)" "x \<in> set (take n xs)" "y \<in> set xs" "y \<notin> set (take n xs)"
  shows "f x \<le> f y"
proof -
  have "y \<in> set (drop n xs)" using assms(3,4) by (metis Un_iff append_take_drop_id set_append)
  moreover have "sorted (map f (take n xs) @ map f (drop n xs))" using assms(1) by (simp flip: map_append)
  ultimately show ?thesis using assms(2) by (auto simp: sorted_append)
qed

lemma item_runs_distinct:
  fixes oc :: "'s orchestrator"
  assumes "row_store (oc_api oc) rows"
  shows "distinct (map fst (item_runs oc w item))"
proof -
  have "map fst (map (\<lambda>(i, r, e, d). (i, r)) (filter P xs)) = map fst (filter P xs)" for P and xs :: "(string \<times> wf_run row) list"
    by (induction xs) auto
  then show ?thesis using row_store.list_distinct [OF assms, of "ow_table w"] unfolding item_runs_def by (metis distinct_map_filter)
qed

lemma spare_ended:
  "length (filter (spare keep pinned) rs) \<le> length (filter (\<lambda>(i, r). \<not> active (rn_status r) \<and> i \<notin> pinned) rs)"
  by (induction rs) auto

lemma prune_runs_exact:
  fixes oc :: "'s orchestrator"
  assumes "row_store (oc_api oc) rows" and excess: "excess = (if oc_keep_last oc = 0 then 0 else length (item_runs oc w item) - oc_keep_last oc)"
    and gone: "gone = fst ` set (take excess (sort_key run_started (filter (spare keep (oc_pinned oc item)) (item_runs oc w item))))"
  shows "\<exists>s' ids'. prune_runs oc w item keep = Inr (w\<lparr>ow_table := s', ow_identities := ids'\<rparr>)
     \<and> rows s' = (\<lambda>i. if i \<in> gone then None else rows (ow_table w) i)
     \<and> dict_get ids' = (\<lambda>i. if i \<in> gone then None else dict_get (ow_identities w) i)"
proof (cases "oc_keep_last oc = 0 \<or> length (item_runs oc w item) \<le> oc_keep_last oc")
  case True
  then have "gone = {}" using excess gone by auto
  then show ?thesis using True by (intro exI [of _ "ow_table w"] exI [of _ "ow_identities w"]) (simp add: prune_runs_def Let_def)
next
  case False
  let ?rs = "sort_key run_started (item_runs oc w item)" and ?P = "spare keep (oc_pinned oc item)"
  have "distinct (map fst ?rs)"
    using item_runs_distinct [OF assms(1), of w item] unfolding distinct_map by simp
  moreover have "\<forall>(i, r) \<in> set ?rs. rows (ow_table w) i \<noteq> None" by (auto simp: runs.item_runs_iff [OF runs.intro [OF assms(1)]])
  moreover have "length (filter ?P ?rs) \<le> length (filter (\<lambda>(i, r). \<not> active (rn_status r) \<and> i \<notin> oc_pinned oc item) (item_runs oc w item))"
    unfolding filter_sort length_sort by (rule spare_ended)
  ultimately have "\<exists>s' ids'. prune_from oc keep (oc_pinned oc item) (length (item_runs oc w item) - oc_keep_last oc)
        (length (filter (\<lambda>(i, r). \<not> active (rn_status r) \<and> i \<notin> oc_pinned oc item) (item_runs oc w item))) w ?rs
      = Inr (w\<lparr>ow_table := s', ow_identities := ids'\<rparr>)
     \<and> rows s' = (\<lambda>i. if i \<in> fst ` set (take (length (item_runs oc w item) - oc_keep_last oc) (filter ?P ?rs)) then None else rows (ow_table w) i)
     \<and> dict_get ids' = (\<lambda>i. if i \<in> fst ` set (take (length (item_runs oc w item) - oc_keep_last oc) (filter ?P ?rs)) then None else dict_get (ow_identities w) i)"
    by (rule prune_from_exact [OF assms(1)])
  then show ?thesis using False by (simp add: prune_runs_def Let_def excess gone filter_sort)
qed

text \<open>The first of a list's entries that are admitted, by their keys.\<close>

lemma taken_keys:
  fixes xs :: "(string \<times> wf_run) list"
  assumes "distinct (map fst xs)" and gone: "gone = fst ` set (take n (sort_key f (filter P xs)))"
  shows "{(i, r). (i, r) \<in> set xs \<and> i \<in> gone} \<subseteq> Collect P" and "gone \<subseteq> fst ` set xs" and "card gone \<le> n"
    and "card gone = n \<or> gone = fst ` {x \<in> set xs. P x}"
    and "{(x, y). x \<in> set xs \<and> y \<in> set xs \<and> fst x \<in> gone \<and> P y \<and> fst y \<notin> gone} \<subseteq> {(x, y). f x \<le> f y}"
proof -
  let ?cand = "sort_key f (filter P xs)"
  have set_cand: "set ?cand = {x \<in> set xs. P x}" by simp
  have dist: "distinct (map fst ?cand)" using assms(1) unfolding distinct_map by (auto intro: inj_on_subset)
  have sub: "set (take n ?cand) \<subseteq> set xs" by (rule subset_trans [OF set_take_subset]) (simp add: set_cand)
  have inj: "inj_on fst (set xs)" using assms(1) by (simp add: distinct_map)
  have in_gone: "x \<in> set (take n ?cand)" if "x \<in> set xs" "fst x \<in> gone" for x
  proof -
    obtain y where y: "y \<in> set (take n ?cand)" "fst x = fst y" using \<open>fst x \<in> gone\<close> unfolding gone by (rule imageE)
    have "x = y" by (rule inj_onD [OF inj y(2) \<open>x \<in> set xs\<close>]) (rule subsetD [OF sub y(1)])
    with y(1) show ?thesis by simp
  qed
  show "{(i, r). (i, r) \<in> set xs \<and> i \<in> gone} \<subseteq> Collect P"
  proof
    fix x assume x: "x \<in> {(i, r). (i, r) \<in> set xs \<and> i \<in> gone}"
    have "x \<in> set (take n ?cand)" by (rule in_gone) (use x in auto)
    then have "x \<in> set ?cand" by (rule in_set_takeD)
    then show "x \<in> Collect P" by simp
  qed
  show "gone \<subseteq> fst ` set xs" using sub unfolding gone by blast
  have "distinct (map fst (take n ?cand))" using dist by (simp flip: take_map)
  then have card: "card gone = length (take n ?cand)"
    using distinct_card [of "map fst (take n ?cand)"] by (simp add: gone)
  then show "card gone \<le> n" by simp
  show "card gone = n \<or> gone = fst ` {x \<in> set xs. P x}"
    using card by (cases "length ?cand \<le> n") (simp_all add: gone)
  have "f x \<le> f y" if "x \<in> set xs" "y \<in> set xs" "fst x \<in> gone" "P y" "fst y \<notin> gone" for x y
  proof (rule taken_first [of f ?cand x n y])
    show "sorted (map f ?cand)" by simp
    show "x \<in> set (take n ?cand)" by (rule in_gone) (use that in simp_all)
    show "y \<in> set ?cand" using that by simp
    show "y \<notin> set (take n ?cand)" using that unfolding gone by blast
  qed
  then show "{(x, y). x \<in> set xs \<and> y \<in> set xs \<and> fst x \<in> gone \<and> P y \<and> fst y \<notin> gone} \<subseteq> {(x, y). f x \<le> f y}" by auto
qed

text \<open>
  C37: retention removes runs of the item that have ended, that no conversation points at and that are
  not the one just made, the oldest of those first and with the values they carried; it removes all
  that exceeds the limit, or every run it may.
\<close>

theorem retention_removes_oldest_ended:
  fixes oc :: "'s orchestrator"
  assumes "row_store (oc_api oc) rows"
  shows "\<exists>s' ids' gone. prune_runs oc w item keep = Inr (w\<lparr>ow_table := s', ow_identities := ids'\<rparr>)
     \<and> rows s' = (\<lambda>i. if i \<in> gone then None else rows (ow_table w) i)
     \<and> dict_get ids' = (\<lambda>i. if i \<in> gone then None else dict_get (ow_identities w) i)
     \<and> {(i, r). (i, r) \<in> set (item_runs oc w item) \<and> i \<in> gone} \<subseteq> Collect (spare keep (oc_pinned oc item))
     \<and> gone \<subseteq> fst ` set (item_runs oc w item)
     \<and> card gone \<le> (if oc_keep_last oc = 0 then 0 else length (item_runs oc w item) - oc_keep_last oc)
     \<and> (oc_keep_last oc = 0 \<or> card gone + oc_keep_last oc \<ge> length (item_runs oc w item)
          \<or> gone = fst ` {x \<in> set (item_runs oc w item). spare keep (oc_pinned oc item) x})
     \<and> {(x, y). x \<in> set (item_runs oc w item) \<and> y \<in> set (item_runs oc w item) \<and> fst x \<in> gone
           \<and> spare keep (oc_pinned oc item) y \<and> fst y \<notin> gone} \<subseteq> {(x, y). run_started x \<le> run_started y}"
proof -
  define excess where "excess = (if oc_keep_last oc = 0 then 0 else length (item_runs oc w item) - oc_keep_last oc)"
  define gone where "gone = fst ` set (take excess (sort_key run_started (filter (spare keep (oc_pinned oc item)) (item_runs oc w item))))"
  note taken = taken_keys [OF item_runs_distinct [OF assms] gone_def]
  obtain s' ids' where "prune_runs oc w item keep = Inr (w\<lparr>ow_table := s', ow_identities := ids'\<rparr>)"
     "rows s' = (\<lambda>i. if i \<in> gone then None else rows (ow_table w) i)"
     "dict_get ids' = (\<lambda>i. if i \<in> gone then None else dict_get (ow_identities w) i)"
    using prune_runs_exact [OF assms excess_def gone_def] by (elim exE conjE)
  moreover have "oc_keep_last oc = 0 \<or> card gone + oc_keep_last oc \<ge> length (item_runs oc w item)
      \<or> gone = fst ` {x \<in> set (item_runs oc w item). spare keep (oc_pinned oc item) x}"
  proof (cases "card gone = excess")
    case True
    then have "oc_keep_last oc = 0 \<or> card gone + oc_keep_last oc \<ge> length (item_runs oc w item)" unfolding excess_def by arith
    then show ?thesis by blast
  next
    case False
    then show ?thesis using taken(4) by simp
  qed
  ultimately show ?thesis using taken(1,2,5) taken(3) [unfolded excess_def]
    by (intro exI [of _ s'] exI [of _ ids'] exI [of _ gone] conjI)
qed

lemma retention_removes_oldest_ended_witness:
  "\<exists>w w'. prune_runs (demo_orch (\<lambda>_ _. None)) w ''i'' ''r1'' = Inr w' \<and> dict_get (ow_table w) ''r2'' \<noteq> None \<and> dict_get (ow_table w') ''r2'' = None"
proof -
  let ?w = "demo_world [(''r1'', demo_run RunPending), (''r2'', demo_run RunDone)]"
  have runs: "item_runs (demo_orch (\<lambda>_ _. None)) ?w ''i'' = [(''r1'', demo_run RunPending), (''r2'', demo_run RunDone)]"
    "oc_keep_last (demo_orch (\<lambda>_ _. None)) = 1" "oc_pinned (demo_orch (\<lambda>_ _. None)) ''i'' = {''r9''}"
    by (simp_all add: item_runs_def demo_defs)
  have spare: "{x \<in> set [(''r1'', demo_run RunPending), (''r2'', demo_run RunDone)]. spare ''r1'' {''r9''} x} = {(''r2'', demo_run RunDone)}"
    by (auto simp: demo_run_def active_def ACTIVE_RUN_def)
  from retention_removes_oldest_ended [OF demo_store, of "\<lambda>_ _. None" ?w "''i''" "''r1''", unfolded runs spare]
  obtain s' ids' gone where w': "prune_runs (demo_orch (\<lambda>_ _. None)) ?w ''i'' ''r1'' = Inr (?w\<lparr>ow_table := s', ow_identities := ids'\<rparr>)"
    "dict_get s' = (\<lambda>i. if i \<in> gone then None else dict_get (ow_table ?w) i)" "gone \<subseteq> fst ` set [(''r1'', demo_run RunPending), (''r2'', demo_run RunDone)]"
    "(1 :: nat) = 0 \<or> card gone + 1 \<ge> length [(''r1'', demo_run RunPending), (''r2'', demo_run RunDone)] \<or> gone = fst ` {(''r2'', demo_run RunDone)}"
    "{(i, r). (i, r) \<in> set [(''r1'', demo_run RunPending), (''r2'', demo_run RunDone)] \<and> i \<in> gone} \<subseteq> Collect (spare ''r1'' {''r9''})"
    by (elim exE conjE)
  have "''r1'' \<notin> gone" using w'(5) by auto
  moreover have "gone \<noteq> {}" using w'(4) by auto
  ultimately have "''r2'' \<in> gone" using w'(3) by auto
  then show ?thesis using w'(1,2) by (intro exI [of _ ?w] exI [of _ "?w\<lparr>ow_table := s', ow_identities := ids'\<rparr>"]) (simp add: demo_world_def)
qed

end
