(* ===== verification/RunValues.thy ===== *)
theory RunValues
  imports RunSafety
begin

text \<open>
  Whose values a run carries while it is driven, over every order of the orchestrator's operations on
  a pod and of what other pods write meanwhile, and the number of page jobs an item has in flight.
\<close>

section \<open>What an operation leaves of the tasks and the values\<close>

text \<open>No driver and no waiting page job appears, and no values appear.\<close>

definition adds_none :: "'s world \<Rightarrow> 's world \<Rightarrow> bool" where
  "adds_none w w' \<longleftrightarrow>
     (\<forall>run b x. dict_get (ow_tasks w') run = Some (Driving b x) \<longrightarrow> dict_get (ow_tasks w) run = Some (Driving b x))
   \<and> (\<forall>run i. dict_get (ow_tasks w') run = Some (PageQueued i) \<longrightarrow> dict_get (ow_tasks w) run = Some (PageQueued i))
   \<and> (\<forall>run i. dict_get (ow_identities w') run = Some i \<longrightarrow> dict_get (ow_identities w) run = Some i)"

named_theorems adds_none

lemma adds_none_refl [adds_none]: "adds_none w w"
  by (simp add: adds_none_def)

lemma adds_none_trans: "adds_none w w1 \<Longrightarrow> adds_none w1 w2 \<Longrightarrow> adds_none w w2"
  by (simp add: adds_none_def)

lemma adds_none_simps [simp]:
  "adds_none w (log_effect x w') = adds_none w w'"
  "adds_none w (w'\<lparr>ow_table := s\<rparr>) = adds_none w w'"
  "adds_none w (w'\<lparr>ow_claiming := c\<rparr>) = adds_none w w'"
  by (simp_all add: adds_none_def log_effect_def)

lemma adds_none_tasks [adds_none]:
  "adds_none w w' \<Longrightarrow> adds_none w (no_task run w')"
  "adds_none w w' \<Longrightarrow> adds_none w (spawn run (Queued b) w')"
  "adds_none w w' \<Longrightarrow> adds_none w (w'\<lparr>ow_tasks := dict_set run Proposing (ow_tasks w')\<rparr>)"
  "adds_none w w' \<Longrightarrow> adds_none w (w'\<lparr>ow_identities := dict_pop run (ow_identities w')\<rparr>)"
  "adds_none w w' \<Longrightarrow> adds_none w (release item t key page w')"
  by (auto simp: adds_none_def spawn_def release_def log_effect_def)

lemma map_sum_id_Inr [simp]: "map_sum id f x = Inr y \<longleftrightarrow> (\<exists>z. x = Inr z \<and> y = f z)"
  by (cases x) auto

lemma write_run_adds: "write_run oc w run f = Inr w' \<Longrightarrow> adds_none w w'"
proof -
  assume "write_run oc w run f = Inr w'"
  then obtain r where "(case rm_modify (oc_api oc) (ow_table w) run (with_settled_phases f r) None of
      Inr (s', _) \<Rightarrow> Inr (w\<lparr>ow_table := s'\<rparr>) | Inl e \<Rightarrow> Inl (TableFailed e)) = Inr w'"
    by (auto simp: write_run_def bindE_eq_Inr)
  then show ?thesis
    by (cases "rm_modify (oc_api oc) (ow_table w) run (with_settled_phases f r) None") (auto simp: adds_none_refl)
qed

lemma patch_run_adds: "patch_run oc w run f = Inr w' \<Longrightarrow> adds_none w w'"
  by (auto simp: patch_run_def bindE_eq_Inr write_run_adds split: if_splits)

lemma prune_from_adds: "prune_from oc keep pinned d p w rs = Inr w' \<Longrightarrow> adds_none w w'"
proof (induction oc keep pinned d p w rs rule: prune_from.induct)
  case (2 oc keep pinned d p w run r rs)
  show ?case
  proof (cases "d = 0 \<or> p = 0")
    case True
    then show ?thesis using 2(3) by (auto simp: adds_none_refl)
  next
    case go: False
    show ?thesis
    proof (cases "run = keep \<or> active (rn_status r) \<or> run \<in> pinned")
      case True
      have "prune_from oc keep pinned d p w rs = Inr w'" using 2(3) go True by auto
      then show ?thesis by (rule 2(1) [OF go True])
    next
      case False
      obtain s' where s': "rm_purge (oc_api oc) (ow_table w) run = Inr s'"
        "prune_from oc keep pinned (d - 1) (p - 1) (w\<lparr>ow_table := s', ow_identities := dict_pop run (ow_identities w)\<rparr>) rs = Inr w'"
        using 2(3) go False by (auto split: sum.splits)
      have "adds_none (w\<lparr>ow_table := s', ow_identities := dict_pop run (ow_identities w)\<rparr>) w'"
        by (rule 2(2) [OF go False s'(1,2)])
      moreover have "adds_none w (w\<lparr>ow_table := s', ow_identities := dict_pop run (ow_identities w)\<rparr>)"
        by (simp add: adds_none_def)
      ultimately show ?thesis by (metis adds_none_trans)
    qed
  qed
qed (simp add: adds_none_refl)

lemma prune_runs_adds: "prune_runs oc w item keep = Inr w' \<Longrightarrow> adds_none w w'"
  by (auto simp: prune_runs_def Let_def adds_none_refl prune_from_adds split: if_splits)

section \<open>Every operation\<close>

lemma post_run_adds: "adds_none w (fst (post_run oc w run item))"
  by (auto simp: post_run_def Let_def intro!: adds_none split: sum.splits)

lemma post_run_adds_to: "post_run oc w1 run item = (w2, res) \<Longrightarrow> adds_none w w1 \<Longrightarrow> adds_none w w2"
  using post_run_adds [of w1 oc run item] adds_none_trans by auto

lemma driver_end_adds: "driver_end oc w run out = Inr w' \<Longrightarrow> adds_none w w'"
proof (cases out)
  case (TimedOut why)
  assume "driver_end oc w run out = Inr w'"
  then obtain w1 where w1: "write_run oc w run (\<lambda>r. r\<lparr>rn_status := RunCancelled, rn_ended := Some (oc_now oc)\<rparr>) = Inr w1"
    "patch_run oc (log_effect (Settled run) w1) run
       (\<lambda>r. r\<lparr>rn_status := RunError, rn_ended := Some (oc_now oc), rn_result := Some [(''error'', JStr why)]\<rparr>) = Inr w'"
    unfolding driver_end_def TimedOut by (auto simp: bindE_eq_Inr)
  have "adds_none w (log_effect (Settled run) w1)" using write_run_adds [OF w1(1)] by simp
  then show ?thesis using patch_run_adds [OF w1(2)] by (rule adds_none_trans)
qed (auto simp: driver_end_def dest: write_run_adds)

lemma drive_end_adds: "adds_none w (fst (drive_end oc w run out))"
  by (auto simp: drive_end_def intro!: adds_none intro: post_run_adds_to [OF _ driver_end_adds] split: option.splits task.splits sum.splits prod.splits)

lemma page_overtaken_adds: "adds_none w (fst (page_overtaken oc w run))"
  by (auto simp: page_overtaken_def intro!: adds_none intro: post_run_adds_to [OF _ patch_run_adds] split: option.splits task.splits sum.splits prod.splits)

lemma cancel_task_adds: "adds_none w (cancel_task oc w run t)"
  by (auto simp: cancel_task_def Let_def adds_none_refl dest: write_run_adds patch_run_adds split: task.splits sum.splits)

lemma patch_run_adds_to: "patch_run oc w1 run f = Inr w2 \<Longrightarrow> adds_none w w1 \<Longrightarrow> adds_none w w2"
  using patch_run_adds adds_none_trans by blast

lemma cancel_task_adds_to: "adds_none w w1 \<Longrightarrow> adds_none w (cancel_task oc w1 run t)"
  using cancel_task_adds adds_none_trans by blast

lemmas adds_steps = adds_none cancel_task_adds_to

lemma cancel_run_adds: "adds_none w (fst (cancel_run oc w run item))"
  by (auto simp: cancel_run_def Let_def intro!: adds_steps elim!: patch_run_adds_to split: sum.splits orch_error.splits option.splits)

lemma decide_adds: "adds_none w (fst (decide oc w run item profile choice who))"
  by (auto simp: decide_def decide_act_def Let_def intro!: adds_steps elim!: patch_run_adds_to split: sum.splits)

lemma cancel_run_adds_to: "adds_none w w1 \<Longrightarrow> adds_none w (fst (cancel_run oc w1 run item))"
  using cancel_run_adds adds_none_trans by blast

lemma steer_adds: "adds_none w (fst (steer oc w run item))"
  by (auto simp: steer_def Let_def intro!: adds_steps cancel_run_adds elim!: patch_run_adds_to split: sum.splits)

lemma propose_end_adds: "adds_none w (fst (propose_end oc w run item answer))"
  by (auto simp: propose_end_def intro!: adds_steps elim!: patch_run_adds_to split: sum.splits)

lemma confirm_steer_adds: "adds_none w (fst (confirm_steer oc w run item profile approve))"
proof -
  have "adds_none w ((log_effect x w)\<lparr>ow_identities := dict_pop run (ow_identities w)\<rparr>)" for x
    by (simp add: adds_none_def)
  then show ?thesis
    by (auto simp: confirm_steer_def Let_def intro!: adds_steps elim!: patch_run_adds_to split: sum.splits option.splits)
qed

lemma retry_claim_adds: "adds_none w (fst (retry_claim oc w run item rerun))"
  by (auto simp: retry_claim_def intro!: adds_steps split: sum.splits option.splits prod.splits)

lemma retry_drive_adds: "adds_none w (fst (retry_drive oc w run item profile data rerun))"
  by (auto simp: retry_drive_def Let_def intro!: adds_steps elim!: patch_run_adds_to split: sum.splits option.splits)

lemma resume_adds: "adds_none w (fst (resume oc w run profile grace_ms))"
  by (auto simp: resume_def Let_def intro!: adds_steps split: sum.splits option.splits prod.splits rm_error.splits)

lemma abandon_adds: "adds_none w (fst (abandon oc w run why))"
  by (auto simp: abandon_def Let_def intro!: adds_steps elim!: patch_run_adds_to split: sum.splits option.splits)

lemma abandon_each_adds: "adds_none w (fst (abandon_each oc w ids))"
proof (induction oc w ids rule: abandon_each.induct)
  case (2 oc w run ids)
  then show ?case using abandon_adds [of w oc run "''lost''"]
    by (auto split: prod.splits sum.splits intro: adds_none_trans)
qed (simp add: adds_none_refl)

lemma page_job_check_adds: "adds_none w (fst (page_job_check oc w item user))"
  using abandon_each_adds [of w oc] by (auto simp: page_job_check_def settle_lost_page_jobs_def adds_none_refl split: prod.splits sum.splits) (metis fst_conv)+

section \<open>The operations in any order\<close>

text \<open>
  A pod starts with no tasks. The id of a run that is started is new to it. Other pods write the tables
  meanwhile: to a run this pod has a task for they give no values.
\<close>

inductive orch_step :: "'s orchestrator \<Rightarrow> 's world \<Rightarrow> 's world \<Rightarrow> bool" for oc where
  starts: "dict_get (ow_tasks w) run = None \<Longrightarrow> orch_step oc w (fst (start_act oc w la phases run digest))"
| starts_page: "dict_get (ow_tasks w) run = None \<Longrightarrow> dict_get (ow_identities w) run = None
    \<Longrightarrow> orch_step oc w (fst (page_job_act oc w item user env_user chat job deadline run))"
| asks_place: "orch_step oc w (fst (page_job_check oc w item user))"
| drives: "orch_step oc w (fst (drive_start oc w run built))"
| ends: "orch_step oc w (fst (drive_end oc w run out))"
| overtaken: "orch_step oc w (fst (page_overtaken oc w run))"
| stops: "orch_step oc w (fst (cancel_run oc w run item))"
| answers: "orch_step oc w (fst (decide_act oc w run profile data choice who))"
| changes: "orch_step oc w (fst (steer oc w run item))"
| proposes: "orch_step oc w (fst (propose_end oc w run item answer))"
| confirms: "orch_step oc w (fst (confirm_steer oc w run item profile approve))"
| claims: "orch_step oc w (fst (retry_claim oc w run item rerun))"
| redrives: "orch_step oc w (fst (retry_drive oc w run item profile data rerun))"
| resumes: "orch_step oc w (fst (resume oc w run profile grace_ms))"
| abandons: "orch_step oc w (fst (abandon oc w run why))"
| peers: "(\<And>run i. dict_get ids run = Some i \<Longrightarrow> dict_get (ow_tasks w) run \<noteq> None \<Longrightarrow> dict_get (ow_identities w) run = Some i)
    \<Longrightarrow> orch_step oc w (w\<lparr>ow_table := s, ow_identities := ids\<rparr>)"

inductive orch_reached :: "'s orchestrator \<Rightarrow> 's world \<Rightarrow> bool" for oc where
  boots: "ow_tasks w = [] \<Longrightarrow> orch_reached oc w"
| steps: "orch_reached oc w \<Longrightarrow> orch_step oc w w' \<Longrightarrow> orch_reached oc w'"

definition built_as_consented :: "identity \<Rightarrow> build \<Rightarrow> string \<Rightarrow> bool" where
  "built_as_consented i b built \<longleftrightarrow>
     (ri_item i, ri_profile i, ri_workflow i, ri_digest i) = (bd_item b, bd_profile b, bd_workflow b, built)"

abbreviation page_build :: "string \<Rightarrow> build" where
  "page_build item \<equiv> \<lparr>bd_item = item, bd_profile = [], bd_workflow = []\<rparr>"

definition values_held :: "'s world \<Rightarrow> bool" where
  "values_held w \<longleftrightarrow>
     (\<forall>run b built i. dict_get (ow_tasks w) run = Some (Driving b built) \<longrightarrow> dict_get (ow_identities w) run = Some i \<longrightarrow> built_as_consented i b built)
   \<and> (\<forall>run item i. dict_get (ow_tasks w) run = Some (PageQueued item) \<longrightarrow> dict_get (ow_identities w) run = Some i
        \<longrightarrow> built_as_consented i (page_build item) [])"

lemma values_held_adds: "values_held w \<Longrightarrow> adds_none w w' \<Longrightarrow> values_held w'"
  unfolding values_held_def adds_none_def by meson

text \<open>A new run may be given values: it is driven only later.\<close>

lemma values_held_table [simp]: "values_held (w\<lparr>ow_table := s\<rparr>) = values_held w"
  by (simp add: values_held_def)

lemma values_held_new:
  "values_held w \<Longrightarrow> dict_get (ow_tasks w) run = None \<Longrightarrow> values_held (w\<lparr>ow_table := s, ow_identities := dict_set run i (ow_identities w)\<rparr>)"
  by (auto simp: values_held_def)

lemma values_held_same: "values_held w \<Longrightarrow> values_held (w\<lparr>ow_table := s, ow_identities := ow_identities w\<rparr>)"
  by (simp add: values_held_def)

lemma values_held_queue: "values_held w \<Longrightarrow> values_held (spawn run (Queued b) w)"
  by (erule values_held_adds) (intro adds_none)

lemma values_held_page:
  "values_held w \<Longrightarrow> dict_get (ow_identities w) run = None \<or> dict_get (ow_identities w) run = Some i \<and> built_as_consented i (page_build item) []
    \<Longrightarrow> values_held (spawn run (PageQueued item) w)"
  by (auto simp: values_held_def spawn_def)

lemma start_act_held:
  assumes "values_held w" "dict_get (ow_tasks w) run = None"
  shows "values_held (fst (start_act oc w la phases run digest))"
  using assms
  by (auto simp: start_act_def Let_def split: sum.splits
      intro!: values_held_queue intro: values_held_new values_held_same values_held_adds [OF _ prune_runs_adds])

lemma page_job_act_held:
  assumes "values_held w" "dict_get (ow_tasks w) run = None" "dict_get (ow_identities w) run = None"
  shows "values_held (fst (page_job_act oc w item user env_user chat job deadline run))"
proof -
  let ?i = "\<lparr>ri_user = env_user, ri_verb = ''execute'', ri_workflow = [], ri_digest = [], ri_item = item, ri_profile = []\<rparr>"
  have held: "values_held (w\<lparr>ow_table := s, ow_identities := (if env_user \<noteq> [] then dict_set run ?i (ow_identities w) else ow_identities w)\<rparr>)" for s
    using values_held_new [OF assms(1,2)] values_held_same [OF assms(1)] by simp
  have "values_held (spawn run (PageQueued item) w2)"
    if "prune_runs oc (w\<lparr>ow_table := s, ow_identities := (if env_user \<noteq> [] then dict_set run ?i (ow_identities w) else ow_identities w)\<rparr>) item run = Inr w2" for s w2
  proof (rule values_held_page)
    show "values_held w2" by (rule values_held_adds [OF held prune_runs_adds [OF that]])
    show "dict_get (ow_identities w2) run = None \<or> dict_get (ow_identities w2) run = Some ?i \<and> built_as_consented ?i (page_build item) []"
      using prune_runs_adds [OF that] assms(3) unfolding adds_none_def built_as_consented_def
      by (cases "dict_get (ow_identities w2) run") (force split: if_splits)+
  qed
  then show ?thesis using held assms(1) by (auto simp: page_job_act_def Let_def split: sum.splits)
qed

lemma drive_start_held:
  assumes "values_held w"
  shows "values_held (fst (drive_start oc w run built))"
proof -
  have start: "values_held (fst (driver_start oc w run b x))"
    if w: "values_held w" "\<And>i. dict_get (ow_identities w) run = Some i \<Longrightarrow> built_as_consented i b x" for w b x
  proof (cases "write_run oc w run (\<lambda>r. r\<lparr>rn_status := RunRunning, rn_started := Some (oc_now oc)\<rparr>)")
    case (Inl e)
    then show ?thesis using values_held_adds [OF w(1) adds_none_tasks(1) [OF adds_none_refl]] by (simp add: driver_start_def)
  next
    case (Inr w1)
    have "values_held w1" "adds_none w w1" using values_held_adds [OF w(1)] write_run_adds [OF Inr] by simp_all
    then show ?thesis using w(2) Inr unfolding driver_start_def values_held_def adds_none_def by auto
  qed
  have hold: "values_held (hold_identity run b built w)" for b
    using values_held_adds [OF assms] adds_none_tasks(4) [OF adds_none_refl, of w run] assms by (simp add: hold_identity_def split: option.splits)
  have held: "built_as_consented i b built" if "dict_get (ow_identities (hold_identity run b built w)) run = Some i" for i b
    using that by (auto simp: hold_identity_def built_as_consented_def split: option.splits if_splits)
  have drop: "values_held (no_task run w)" by (rule values_held_adds [OF assms adds_none_tasks(1) [OF adds_none_refl]])
  have page: "built_as_consented i (page_build item) []"
    if "dict_get (ow_tasks w) run = Some (PageQueued item)" "dict_get (ow_identities w) run = Some i" for item i
    using assms that unfolding values_held_def by blast
  show ?thesis using start [OF hold held] start [OF assms page] drop assms
    by (auto simp: drive_start_def split: option.splits task.splits sum.splits)
qed

lemma orch_step_held: "orch_step oc w w' \<Longrightarrow> values_held w \<Longrightarrow> values_held w'"
proof (induction rule: orch_step.induct)
  case (starts w run la phases digest)
  then show ?case by (intro start_act_held)
next
  case (starts_page w run item user env_user chat job deadline)
  then show ?case by (intro page_job_act_held)
next
  case (drives w run built)
  then show ?case by (intro drive_start_held)
next
  case (answers w run profile data choice who)
  have "adds_none w (fst (decide_act oc w run profile data choice who))"
    by (auto simp: decide_act_def Let_def intro!: adds_steps elim!: patch_run_adds_to split: sum.splits)
  then show ?case by (rule values_held_adds [OF answers])
next
  case (peers ids w s)
  then show ?case unfolding values_held_def by simp
qed (erule values_held_adds, rule page_job_check_adds drive_end_adds page_overtaken_adds cancel_run_adds steer_adds propose_end_adds
      confirm_steer_adds retry_claim_adds retry_drive_adds resume_adds abandon_adds)+

lemma orch_reached_held: "orch_reached oc w \<Longrightarrow> values_held w"
  by (induction rule: orch_reached.induct) (simp_all add: orch_step_held, simp add: values_held_def)

text \<open>
  C36: in whatever order runs are started, driven, stopped, answered, changed, continued and picked up,
  on this pod and on others, a run that is driven carries a person's values only while it is built in
  the item and profile, from the workflow and the very bytes that person consented to.
\<close>

theorem values_only_for_consented_build:
  assumes "orch_reached oc w" "dict_get (ow_tasks w) run = Some (Driving b built)" "dict_get (ow_identities w) run = Some i"
  shows "ri_item i = bd_item b \<and> ri_profile i = bd_profile b \<and> ri_workflow i = bd_workflow b \<and> ri_digest i = built"
  using orch_reached_held [OF assms(1)] assms(2,3) unfolding values_held_def built_as_consented_def by blast

lemma values_only_for_consented_build_witness:
  "\<exists>w b i. orch_reached (demo_orch (\<lambda>_ _. Some [])) w \<and> dict_get (ow_tasks w) ''r1'' = Some (Driving b ''d'')
     \<and> dict_get (ow_identities w) ''r1'' = Some i \<and> ri_user i = ''u'' \<and> ri_digest i = ''d'' \<and> ri_workflow i = bd_workflow b"
proof -
  let ?oc = "demo_orch (\<lambda>_ _. Some [])" and ?w0 = "demo_world []"
  let ?w1 = "fst (start_act ?oc ?w0 demo_launch [] ''r1'' ''d'')"
  let ?w2 = "fst (drive_start ?oc ?w1 ''r1'' ''d'')"
  let ?i = "\<lparr>ri_user = ''u'', ri_verb = ''execute'', ri_workflow = ''w'', ri_digest = ''d'', ri_item = ''i'', ri_profile = ''p''\<rparr>"
  let ?b = "\<lparr>bd_item = ''i'', bd_profile = ''p'', bd_workflow = ''w''\<rparr>"
  have start: "ow_tasks ?w1 = [(''r1'', Queued ?b)]" "ow_identities ?w1 = [(''r1'', ?i)]" "\<exists>r. ow_table ?w1 = [(''r1'', r, 0, False)]"
    by (simp_all add: start_act_def start_row_def item_runs_def prune_runs_def spawn_def log_effect_def Let_def demo_defs)
  then obtain r where row: "ow_table ?w1 = [(''r1'', r, 0, False)]" by blast
  have drive: "dict_get (ow_tasks ?w2) ''r1'' = Some (Driving ?b ''d'')" "dict_get (ow_identities ?w2) ''r1'' = Some ?i"
    using start(1,2) row
    by (simp_all add: drive_start_def driver_start_def hold_identity_def write_run_def get_run_def bindE_def demo_orch_def mem_orch_def mem_store_defs)
  have "orch_reached ?oc ?w0" by (rule boots) (simp add: demo_world_def)
  moreover have "orch_step ?oc ?w0 ?w1" by (rule starts) (simp add: demo_world_def)
  ultimately have "orch_reached ?oc ?w1" by (rule steps)
  then have reached: "orch_reached ?oc ?w2" by (rule steps) (rule drives)
  from values_only_for_consented_build [OF reached drive] reached drive show ?thesis
    by (intro exI [of _ ?w2] exI [of _ ?b] exI [of _ ?i]) simp
qed

section \<open>Two runs in one conversation\<close>

lemma prune_spares:
  fixes oc :: "'s orchestrator"
  assumes "row_store (oc_api oc) rows"
  shows "\<exists>s' ids'. prune_runs oc w item keep = Inr (w\<lparr>ow_table := s', ow_identities := ids'\<rparr>)
     \<and> (\<forall>i r e d. rows (ow_table w) i = Some (r, e, d) \<longrightarrow> active (rn_status r) \<longrightarrow> rows s' i = Some (r, e, d))
     \<and> (\<forall>i. rows (ow_table w) i = None \<longrightarrow> rows s' i = None)"
proof -
  let ?gone = "fst ` set (take (if oc_keep_last oc = 0 then 0 else length (item_runs oc w item) - oc_keep_last oc)
      (sort_key run_started (filter (spare keep (oc_pinned oc item)) (item_runs oc w item))))"
  obtain s' ids' where s': "prune_runs oc w item keep = Inr (w\<lparr>ow_table := s', ow_identities := ids'\<rparr>)"
    "rows s' = (\<lambda>i. if i \<in> ?gone then None else rows (ow_table w) i)"
    using prune_runs_exact [OF assms refl refl, of w item keep] by blast
  have "i \<notin> ?gone" if row: "rows (ow_table w) i = Some (r, e, d)" "active (rn_status r)" for i r e d
  proof
    assume "i \<in> ?gone"
    then obtain x where x: "i = fst x" "x \<in> set (take (if oc_keep_last oc = 0 then 0 else length (item_runs oc w item) - oc_keep_last oc)
      (sort_key run_started (filter (spare keep (oc_pinned oc item)) (item_runs oc w item))))" by (rule imageE)
    from in_set_takeD [OF x(2)] have "x \<in> set (item_runs oc w item)" "spare keep (oc_pinned oc item) x" by simp_all
    then show False using x(1) row by (auto simp: runs.item_runs_iff [OF runs.intro [OF assms]])
  qed
  then show ?thesis using s' by (intro exI [of _ s'] exI [of _ ids']) simp
qed

lemma start_act_row:
  fixes oc :: "'s orchestrator"
  assumes "row_store (oc_api oc) rows" "rows (ow_table w) run = None"
  shows "\<exists>w' e. start_act oc w la phases run digest = (w', Inr run) \<and> rows (ow_table w') run = Some (start_row la phases, e, False)
     \<and> (\<forall>i r e d. i \<noteq> run \<longrightarrow> rows (ow_table w) i = Some (r, e, d) \<longrightarrow> active (rn_status r) \<longrightarrow> rows (ow_table w') i = Some (r, e, d))
     \<and> (\<forall>i. i \<noteq> run \<longrightarrow> rows (ow_table w) i = None \<longrightarrow> rows (ow_table w') i = None)"
proof -
  obtain s1 e1 where s1: "rm_create (oc_api oc) (ow_table w) run (start_row la phases) = Inr s1"
    "rows s1 = (rows (ow_table w))(run \<mapsto> (start_row la phases, e1, False))"
    using row_store.create_absent [OF assms(1,2)] by blast
  have act: "active (rn_status (start_row la phases))" by (simp add: start_row_def new_run_def active_def ACTIVE_RUN_def)
  let ?ids = "if la_env_user la \<noteq> []
    then dict_set run \<lparr>ri_user = la_env_user la, ri_verb = la_env_verb la, ri_workflow = la_workflow la,
           ri_digest = (case la_env_digest la of Some d \<Rightarrow> d | None \<Rightarrow> digest), ri_item = la_item la, ri_profile = la_profile la\<rparr> (ow_identities w)
    else ow_identities w"
  obtain s2 ids2 where s2: "prune_runs oc (w\<lparr>ow_table := s1, ow_identities := ?ids\<rparr>) (la_item la) run
      = Inr (w\<lparr>ow_table := s1, ow_identities := ?ids\<rparr>\<lparr>ow_table := s2, ow_identities := ids2\<rparr>)"
    "\<forall>i r e d. rows s1 i = Some (r, e, d) \<longrightarrow> active (rn_status r) \<longrightarrow> rows s2 i = Some (r, e, d)"
    "\<forall>i. rows s1 i = None \<longrightarrow> rows s2 i = None"
    using prune_spares [OF assms(1), of "w\<lparr>ow_table := s1, ow_identities := ?ids\<rparr>" "la_item la" run] by auto
  have "rows s2 run = Some (start_row la phases, e1, False)" using s1(2) s2(2) act by simp
  then show ?thesis using s1 s2 by (simp add: start_act_def Let_def spawn_def log_effect_def)
qed

text \<open>
  two starts in one conversation, each let through before the other has written its row, are both
  made: the conversation has two active runs.
\<close>

theorem conversation_hosts_two_runs:
  fixes oc :: "'s orchestrator"
  assumes "row_store (oc_api oc) rows" "start_check oc w la = Inr phases" "start_check oc w lb = Inr phases'"
    and "la_item lb = la_item la" "la_chat lb = la_chat la"
    and "rows (ow_table w) a = None" "rows (ow_table w) b = None" "a \<noteq> b"
  shows "\<exists>w1 w2 ra rb ea eb. start_act oc w la phases a digest = (w1, Inr a) \<and> start_act oc w1 lb phases' b digest' = (w2, Inr b)
     \<and> rows (ow_table w2) a = Some (ra, ea, False) \<and> rows (ow_table w2) b = Some (rb, eb, False)
     \<and> rn_item ra = rn_item rb \<and> rn_chat ra = rn_chat rb \<and> active (rn_status ra) \<and> active (rn_status rb)"
proof -
  obtain w1 e1 where w1: "start_act oc w la phases a digest = (w1, Inr a)" "rows (ow_table w1) a = Some (start_row la phases, e1, False)"
    "\<forall>i. i \<noteq> a \<longrightarrow> rows (ow_table w) i = None \<longrightarrow> rows (ow_table w1) i = None"
    using start_act_row [OF assms(1,6), of la phases digest] by (elim exE conjE)
  have free: "rows (ow_table w1) b = None" using w1(3) assms(7,8) by simp
  obtain w2 e2 where w2: "start_act oc w1 lb phases' b digest' = (w2, Inr b)" "rows (ow_table w2) b = Some (start_row lb phases', e2, False)"
    "\<forall>i r e d. i \<noteq> b \<longrightarrow> rows (ow_table w1) i = Some (r, e, d) \<longrightarrow> active (rn_status r) \<longrightarrow> rows (ow_table w2) i = Some (r, e, d)"
    using start_act_row [OF assms(1) free, of lb phases' digest'] by (elim exE conjE)
  have act: "active (rn_status (start_row l p))" "rn_item (start_row l p) = la_item l" "rn_chat (start_row l p) = la_chat l" for l p
    by (simp_all add: start_row_def new_run_def active_def ACTIVE_RUN_def)
  have "rows (ow_table w2) a = Some (start_row la phases, e1, False)" using w1(2) w2(3) assms(8) act by simp
  then show ?thesis using w1(1) w2(1,2) assms(4,5) act
    by (intro exI [of _ w1] exI [of _ w2] exI [of _ "start_row la phases"] exI [of _ "start_row lb phases'"] exI [of _ e1] exI [of _ e2]) simp
qed

lemma conversation_hosts_two_runs_witness:
  "\<exists>w1 w2 ra rb ea eb. start_act (demo_orch (\<lambda>_ _. Some [])) (demo_world []) demo_launch [] ''r1'' [] = (w1, Inr ''r1'')
     \<and> start_act (demo_orch (\<lambda>_ _. Some [])) w1 demo_launch [] ''r2'' [] = (w2, Inr ''r2'')
     \<and> dict_get (ow_table w2) ''r1'' = Some (ra, ea, False) \<and> dict_get (ow_table w2) ''r2'' = Some (rb, eb, False)
     \<and> rn_item ra = rn_item rb \<and> rn_chat ra = rn_chat rb \<and> active (rn_status ra) \<and> active (rn_status rb)"
proof (rule conversation_hosts_two_runs [OF demo_store])
  show "start_check (demo_orch (\<lambda>_ _. Some [])) (demo_world []) demo_launch = Inr []"
    "start_check (demo_orch (\<lambda>_ _. Some [])) (demo_world []) demo_launch = Inr []"
    by (simp_all add: start_check_def active_run_for_chat_def first_run_def item_runs_def demo_defs)
qed (simp_all add: demo_defs)

section \<open>Page jobs in flight\<close>

definition in_flight :: "'s orchestrator \<Rightarrow> string \<Rightarrow> wf_run \<Rightarrow> bool" where
  "in_flight oc item r \<longleftrightarrow> rn_item r = item \<and> rn_page r \<noteq> None \<and> active (rn_status r) \<and> \<not> page_job_lost oc r"

lemma live_page_jobs_card:
  fixes oc :: "'s orchestrator"
  assumes "row_store (oc_api oc) rows"
  shows "live_page_jobs oc w item = card {i. \<exists>r e d. rows (ow_table w) i = Some (r, e, d) \<and> in_flight oc item r}"
proof -
  let ?P = "\<lambda>(i, r). rn_page r \<noteq> None \<and> active (rn_status r) \<and> \<not> page_job_lost oc r"
  have "distinct (map fst (filter ?P (item_runs oc w item)))"
    using item_runs_distinct [OF assms] by (rule distinct_map_filter)
  then have "live_page_jobs oc w item = card (fst ` set (filter ?P (item_runs oc w item)))"
    using distinct_card [of "map fst (filter ?P (item_runs oc w item))"] by (simp add: live_page_jobs_def)
  also have "fst ` set (filter ?P (item_runs oc w item)) = {i. \<exists>r e d. rows (ow_table w) i = Some (r, e, d) \<and> in_flight oc item r}"
    by (force simp: runs.item_runs_iff [OF runs.intro [OF assms]] in_flight_def)
  finally show ?thesis .
qed

lemma finite_in_flight:
  assumes "row_store (oc_api oc) rows"
  shows "finite {i. \<exists>r e d. rows s i = Some (r, e, d) \<and> in_flight oc item r}"
  by (rule finite_subset [OF _ row_store.finite_rows [OF assms, of s]]) auto

lemma page_job_act_counts:
  fixes oc :: "'s orchestrator"
  assumes "row_store (oc_api oc) rows" "rows (ow_table w) run = None" "oc_now oc \<le> deadline + PAGE_JOB_GRACE_MS"
  shows "\<exists>w'. page_job_act oc w item user env_user chat job deadline run = (w', Inr run)
     \<and> live_page_jobs oc w' item = Suc (live_page_jobs oc w item)
     \<and> (\<forall>k. k \<noteq> run \<longrightarrow> rows (ow_table w) k = None \<longrightarrow> rows (ow_table w') k = None)"
proof -
  let ?r = "(new_run item user)\<lparr>rn_chat := chat, rn_page := Some (job\<lparr>pj_deadline := deadline\<rparr>)\<rparr>"
  have r: "in_flight oc item ?r" using assms(3)
    by (simp add: in_flight_def new_run_def active_def ACTIVE_RUN_def page_job_lost_def)
  obtain s1 e1 where s1: "rm_create (oc_api oc) (ow_table w) run ?r = Inr s1" "rows s1 = (rows (ow_table w))(run \<mapsto> (?r, e1, False))"
    using row_store.create_absent [OF assms(1,2)] by blast
  let ?i = "\<lparr>ri_user = env_user, ri_verb = ''execute'', ri_workflow = [], ri_digest = [], ri_item = item, ri_profile = []\<rparr>"
  let ?w1 = "w\<lparr>ow_table := s1, ow_identities := (if env_user \<noteq> [] then dict_set run ?i (ow_identities w) else ow_identities w)\<rparr>"
  let ?gone = "fst ` set (take (if oc_keep_last oc = 0 then 0 else length (item_runs oc ?w1 item) - oc_keep_last oc)
      (sort_key run_started (filter (spare run (oc_pinned oc item)) (item_runs oc ?w1 item))))"
  obtain s2 ids2 where w2: "prune_runs oc ?w1 item run = Inr (?w1\<lparr>ow_table := s2, ow_identities := ids2\<rparr>)"
    "rows s2 = (\<lambda>i. if i \<in> ?gone then None else rows (ow_table ?w1) i)"
    using prune_runs_exact [OF assms(1) refl refl, of ?w1 item run] by blast
  have gone: "\<exists>r. rn_item r = item \<and> \<not> active (rn_status r) \<and> (\<exists>e d. rows s1 i = Some (r, e, d))" "i \<noteq> run" if "i \<in> ?gone" for i
  proof -
    note i = that
    obtain x where x: "i = fst x" "x \<in> set (take (if oc_keep_last oc = 0 then 0 else length (item_runs oc ?w1 item) - oc_keep_last oc)
      (sort_key run_started (filter (spare run (oc_pinned oc item)) (item_runs oc ?w1 item))))" using i by (rule imageE)
    from in_set_takeD [OF x(2)] have "x \<in> set (item_runs oc ?w1 item)" "spare run (oc_pinned oc item) x" by simp_all
    with x(1) show "\<exists>r. rn_item r = item \<and> \<not> active (rn_status r) \<and> (\<exists>e d. rows s1 i = Some (r, e, d))" "i \<noteq> run"
      by (auto simp: runs.item_runs_iff [OF runs.intro [OF assms(1)]])
  qed
  have flying: "{i. \<exists>r e d. rows s2 i = Some (r, e, d) \<and> in_flight oc item r}
      = insert run {i. \<exists>r e d. rows (ow_table w) i = Some (r, e, d) \<and> in_flight oc item r}" (is "?A = insert run ?B")
  proof (rule set_eqI)
    fix i
    show "i \<in> ?A \<longleftrightarrow> i \<in> insert run ?B"
    proof (cases "i \<in> ?gone")
      case True
      from gone [OF this] obtain r e d where "\<not> active (rn_status r)" "rows s1 i = Some (r, e, d)" "i \<noteq> run" by blast
      then show ?thesis using True w2(2) s1(2) by (auto simp: in_flight_def)
    next
      case False
      then show ?thesis using w2(2) s1(2) r by auto
    qed
  qed
  have "run \<notin> ?B" using assms(2) by simp
  then have count: "live_page_jobs oc (spawn run t (?w1\<lparr>ow_table := s2, ow_identities := ids2\<rparr>)) item = Suc (live_page_jobs oc w item)" for t
    using flying finite_in_flight [OF assms(1)] by (simp add: live_page_jobs_card [OF assms(1)] spawn_def)
  have "rows s2 k = None" if "k \<noteq> run" "rows (ow_table w) k = None" for k
    using that w2(2) s1(2) by simp
  then show ?thesis using s1(1) w2(1) count by (auto simp: page_job_act_def Let_def spawn_def)
qed

text \<open>
  a page job that is started while no other is being started leaves the item with no more jobs in
  flight than its limit.
\<close>

theorem page_jobs_within_limit:
  fixes oc :: "'s orchestrator"
  assumes "row_store (oc_api oc) rows" "rows (ow_table (fst (page_job_check oc w item user))) run = None" "0 \<le> oc_job_timeout_ms oc"
    and "start_page_job oc w item user env_user chat job run = (w', Inr run)"
  shows "live_page_jobs oc w' item \<le> oc_job_limit oc"
proof -
  obtain w1 where w1: "page_job_check oc w item user = (w1, Inr ())"
    "page_job_act oc w1 item user env_user chat job (oc_now oc + oc_job_timeout_ms oc) run = (w', Inr run)"
    using assms(4) unfolding start_page_job_def by (auto split: prod.splits sum.splits)
  have "live_page_jobs oc w1 item < oc_job_limit oc"
    using w1(1) unfolding page_job_check_def by (auto split: if_splits prod.splits sum.splits)
  moreover have "oc_now oc \<le> (oc_now oc + oc_job_timeout_ms oc) + PAGE_JOB_GRACE_MS" using assms(3) by (simp add: PAGE_JOB_GRACE_MS_def)
  ultimately show ?thesis
    using page_job_act_counts [OF assms(1) _ , of w1 run "oc_now oc + oc_job_timeout_ms oc" item user env_user chat job] w1 assms(2) by auto
qed

lemma page_jobs_within_limit_witness:
  "\<exists>w'. start_page_job (demo_orch (\<lambda>_ _. None)) (demo_world []) ''i'' ''u'' [] ''c'' \<lparr>pj_kind = ''exec'', pj_name = [], pj_input = [], pj_deadline = 0\<rparr> ''j1'' = (w', Inr ''j1'')
     \<and> live_page_jobs (demo_orch (\<lambda>_ _. None)) w' ''i'' \<le> 1"
proof -
  let ?oc = "demo_orch (\<lambda>_ _. None)" and ?job = "\<lparr>pj_kind = ''exec'', pj_name = [], pj_input = [], pj_deadline = 0\<rparr>"
  have check: "page_job_check ?oc (demo_world []) ''i'' ''u'' = (demo_world [], Inr ())"
    by (simp add: page_job_check_def settle_lost_page_jobs_def live_page_jobs_def item_runs_def demo_defs)
  have limit: "oc_job_limit ?oc = 1" "0 \<le> oc_job_timeout_ms ?oc" by (simp_all add: demo_defs)
  have now: "oc_now ?oc \<le> oc_now ?oc + oc_job_timeout_ms ?oc + PAGE_JOB_GRACE_MS" by (simp add: demo_defs PAGE_JOB_GRACE_MS_def)
  have free: "dict_get (ow_table (demo_world [])) ''j1'' = None" by (simp add: demo_world_def)
  obtain w' where "page_job_act ?oc (demo_world []) ''i'' ''u'' [] ''c'' ?job (oc_now ?oc + oc_job_timeout_ms ?oc) ''j1'' = (w', Inr ''j1'')"
    using page_job_act_counts [OF demo_store free now, of "''i''" "''u''" "[]" "''c''" ?job] by (elim exE conjE)
  then have start: "start_page_job ?oc (demo_world []) ''i'' ''u'' [] ''c'' ?job ''j1'' = (w', Inr ''j1'')"
    by (simp add: start_page_job_def check)
  have "live_page_jobs ?oc w' ''i'' \<le> oc_job_limit ?oc"
    by (rule page_jobs_within_limit [OF demo_store _ limit(2) start]) (simp add: check free)
  then show ?thesis using start limit(1) by auto
qed

text \<open>
  C40: two page jobs whose places are asked for before either row is written are both started: an item
  with one place left ends up with one job more than its limit.
\<close>

theorem page_limit_overrun:
  fixes oc :: "'s orchestrator"
  assumes "row_store (oc_api oc) rows" "page_job_check oc w item u1 = (w, Inr ())" "page_job_check oc w item u2 = (w, Inr ())"
    and "Suc (live_page_jobs oc w item) = oc_job_limit oc" "rows (ow_table w) j1 = None" "rows (ow_table w) j2 = None" "j1 \<noteq> j2"
    and "oc_now oc \<le> d1" "oc_now oc \<le> d2"
  shows "\<exists>w1 w2. page_job_act oc w item u1 v1 c1 job1 d1 j1 = (w1, Inr j1) \<and> page_job_act oc w1 item u2 v2 c2 job2 d2 j2 = (w2, Inr j2)
     \<and> live_page_jobs oc w2 item = Suc (oc_job_limit oc)"
proof -
  have d: "oc_now oc \<le> d1 + PAGE_JOB_GRACE_MS" "oc_now oc \<le> d2 + PAGE_JOB_GRACE_MS" using assms(8,9) by (simp_all add: PAGE_JOB_GRACE_MS_def)
  obtain w1 where w1: "page_job_act oc w item u1 v1 c1 job1 d1 j1 = (w1, Inr j1)"
    "live_page_jobs oc w1 item = Suc (live_page_jobs oc w item)" "\<forall>k. k \<noteq> j1 \<longrightarrow> rows (ow_table w) k = None \<longrightarrow> rows (ow_table w1) k = None"
    using page_job_act_counts [OF assms(1,5) d(1), of item u1 v1 c1 job1] by (elim exE conjE)
  have free: "rows (ow_table w1) j2 = None" using w1(3) assms(6,7) by simp
  obtain w2 where "page_job_act oc w1 item u2 v2 c2 job2 d2 j2 = (w2, Inr j2)"
    "live_page_jobs oc w2 item = Suc (live_page_jobs oc w1 item)"
    using page_job_act_counts [OF assms(1) free d(2), of item u2 v2 c2 job2] by (elim exE conjE)
  then show ?thesis using w1(1,2) assms(4) by (intro exI [of _ w1] exI [of _ w2]) simp
qed

lemma page_limit_overrun_witness:
  "\<exists>w1 w2. page_job_act (demo_orch (\<lambda>_ _. None)) (demo_world []) ''i'' ''u'' [] ''c'' \<lparr>pj_kind = ''exec'', pj_name = [], pj_input = [], pj_deadline = 0\<rparr> 100 ''j1'' = (w1, Inr ''j1'')
     \<and> page_job_act (demo_orch (\<lambda>_ _. None)) w1 ''i'' ''u'' [] ''c'' \<lparr>pj_kind = ''exec'', pj_name = [], pj_input = [], pj_deadline = 0\<rparr> 100 ''j2'' = (w2, Inr ''j2'')
     \<and> live_page_jobs (demo_orch (\<lambda>_ _. None)) w2 ''i'' = Suc (oc_job_limit (demo_orch (\<lambda>_ _. None)))"
proof (rule page_limit_overrun [OF demo_store])
  show "page_job_check (demo_orch (\<lambda>_ _. None)) (demo_world []) ''i'' ''u'' = (demo_world [], Inr ())"
    "page_job_check (demo_orch (\<lambda>_ _. None)) (demo_world []) ''i'' ''u'' = (demo_world [], Inr ())"
    by (simp_all add: page_job_check_def settle_lost_page_jobs_def live_page_jobs_def item_runs_def demo_defs)
  show "Suc (live_page_jobs (demo_orch (\<lambda>_ _. None)) (demo_world []) ''i'') = oc_job_limit (demo_orch (\<lambda>_ _. None))"
    by (simp add: live_page_jobs_def item_runs_def demo_defs)
qed (simp_all add: demo_defs)

end
