(* ===== verification/Spec2Isabelle.thy ===== *)
theory Spec2Isabelle
  imports ItemAuthz TurnGate Failover TurnControl Claims DslRevise Capabilities EntityQuery EntityRaces EntitySites Thread TriggerSweep Consents RunValues
begin

text \<open>
  A verification development for the server of the AI workspace (Python, \<open>src/workspace_app\<close>):
  a multi-user service in which people and AI agents work on items with files, sandboxes and
  knowledge collections, and run declarative workflows over them.  The server is many pods over
  one shared store, so its core is decisions (who may do what, who may start what, which
  endpoint answers) and protocols that survive restarts and concurrent pods (claims, epochs, the
  step journal, the ledgers of schedules and runs).  Those are what is modelled.  File names below are relative to
  \<open>src/workspace_app\<close>.

  \<^bold>\<open>Access control.\<close>
  \<open>PermModel\<close> (\<open>perm/model.py\<close>, \<open>perm/authorize.py\<close>, \<open>perm/disclosure.py\<close>) holds the permission
  value and the one decision \<open>authorize\<close>; \<open>PermScope\<close> (\<open>perm/scope.py\<close>) the predicates every read
  is filtered by, as the query terms the code builds; \<open>PermChecker\<close> (\<open>perm/checker.py\<close>,
  \<open>kb/chat_permission.py\<close>) the write-side checkers; \<open>ItemAuthz\<close> (\<open>api/item_authz.py\<close>,
  \<open>agent/tool_authz.py\<close>) the HTTP gate of an item and the funnel of agent tools.  The lemmas show
  the exact decision on every branch, that the storage predicates admit exactly the rows the
  decision grants, that evidence rows leak through neither half, and that a write without the
  right to change permissions cannot rewire them; four theorems pin down where the code departs
  from its documentation.

  \<^bold>\<open>Quotas.\<close>
  \<open>QuotaLimits\<close> (\<open>quota/limits.py\<close>) reads and resolves limits; \<open>QuotaLedgers\<close>
  (\<open>api/sandbox_activity.py\<close>, \<open>quota/disk_ledger.py\<close>, \<open>quota/user_limits.py\<close>) keeps the tables they
  are compared with; \<open>QuotaAdmission\<close> (\<open>quota/admission.py\<close>) decides about one more sandbox,
  \<open>DiskGate\<close> (\<open>files/facade.py\<close>, \<open>api/app.py\<close>, \<open>api/publish_copy.py\<close>) about a write, and \<open>TurnGate\<close>
  (\<open>api/turn_gate.py\<close>) about a turn.  Each has its exact decision and the invariant it is there for:
  the sandboxes that were admitted stay within their owner's limit, whatever heartbeats report; a
  sandbox the pods rebuild or re-arm without asking the gate is a step of the model and can stand
  above it.

  \<^bold>\<open>Shared tables.\<close>
  \<open>RowStore\<close> is the interface of the store all pods share (a library outside the repository): the
  record \<open>row_api\<close> of its calls and the locale \<open>row_store\<close> of what they promise, with a manager in
  memory as its model.  \<open>TurnControl\<close> (\<open>turn_control/\<close>) counts turn epochs and \<open>Claims\<close>
  (\<open>api/turn_claims.py\<close>, \<open>api/refresh_claims.py\<close>) grants turns and token refreshes by compare-and-swap.
  A read and the write that follows it are separate steps, and the theorems hold over every
  interleaving of the steps of any number of pods: epochs are handed out without loss or
  duplicate, a turn is taken once, a refresh has one holder, and a release by
  anyone else changes nothing.  Re-tries after a lost swap are
  bounded in the code by \<open>MAX_CAS_RETRIES\<close> = 100; the model has the same bound and its error.

  \<^bold>\<open>Model failover.\<close>
  \<open>FailoverErrors\<close> (\<open>failover/rate_limit.py\<close>, \<open>failover/classify.py\<close>, \<open>failover/retry.py\<close>,
  \<open>context_budget.py\<close>) reads a failed call; its walk over the chain of causes runs on a heap of
  exceptions that may be cyclic, with fuel the size of the heap, which is enough because no
  exception is visited twice.  \<open>Failover\<close> (\<open>failover/core.py\<close>, \<open>failover/cooldown.py\<close>) is the sweep over
  providers, for calls and for streams: a stream is a generator, asked for one item at a time, and
  every answer it gives after its first item comes from the stream of one provider.

  \<^bold>\<open>Workflows.\<close>
  \<open>Json\<close> is JSON as the journal hashes it; the text of a value determines it up to the order of
  keys.  \<open>StepJournal\<close> (\<open>workflow/engine.py\<close>) is the step engine: its loop is recursion on the
  attempts that are left, its state the world a step acts on and the events it emits; the locale
  \<open>step_journal\<close> is what it expects of the files.  \<open>Nonidempotent\<close> (\<open>workflow/nonidempotent.py\<close>) is
  the decide-and-act shell over it.  \<open>DslTemplate\<close>, \<open>DslNodes\<close>, \<open>DslChecks\<close> and \<open>DslRun\<close>
  (\<open>workflow/dsl.py\<close>, \<open>workflow/steps.py\<close>, \<open>workflow/checks.py\<close>, \<open>workflow/gate.py\<close>,
  \<open>workflow/handle.py\<close>) are the interpreter of user-written definitions: references, the step
  types, gates, maps, switches and the drive of a whole definition, a \<open>partial_function\<close> because a
  gate may send a run back to the top for as long as there are decisions to revise.  \<open>DslCheck\<close>
  (\<open>validate_def\<close>, and \<open>narrow_entries\<close> of \<open>tooling/catalog.py\<close>) is the static check of a definition.
  \<open>DslOutputs\<close>, \<open>DslSafety\<close> and \<open>DslRevise\<close> tie them together: a definition that passes the check
  knows its names at run time and has no gate inside a map, declared outputs resolve with their
  types, nothing runs past an unapproved gate, and revised runs end.  Their proofs rest on
  contracts of actions (locales \<open>drive_contract\<close>, \<open>error_contract\<close>, \<open>revise_store\<close>, \<open>revise_world\<close>),
  interpreted on the interpreter's own definitions and on the files of \<open>DslDisk\<close>.

  \<open>Capabilities\<close> (\<open>workflow/handle.py\<close>) is what a workflow may do under its user's authority, the
  notification ledger with it.

  \<^bold>\<open>Runs.\<close>
  \<open>RunRecord\<close> (\<open>workflow/run.py\<close>, the progress part of \<open>workflow/orchestrator.py\<close>) is the stored run, its
  phases and its step board; \<open>Runs\<close> (\<open>workflow/orchestrator.py\<close>, \<open>workflow/driver.py\<close>,
  \<open>workflow/run_identity.py\<close>) its lifecycle: a world of the shared tables, this pod's tasks and a log of
  what was told to the rest, and one definition per method; a method that awaits between its check and
  its write is two definitions and their composition.  The runs a conversation still points at
  (\<open>_chat_referenced_runs\<close>), which retention spares, are an argument.  A run has one task in the
  model: a second spawn overwrites it as \<open>_track\<close> does, and the overtaken driver, which in the code
  keeps going, is not followed further.  The board says of a step what the engine did, with
  exact counts of its tries; at
  most one phase reads running.  \<open>RunValues\<close> proves over every order of the operations of this pod and
  writes of others (\<open>orch_step\<close>) that a driven run carries a person's values only for what they consented
  to; \<open>RunSafety\<close> that retention removes ended runs only.  Both also hold the theorems on runs the
  operations leave stuck or drive twice.

  \<^bold>\<open>Files and entities.\<close>
  \<open>FileStores\<close> (\<open>filestore/protocol.py\<close> and its migrating wrapper) is the contract of a file store, kept
  by a store in memory and by two stores behind one wrapper.  \<open>EntityText\<close> (\<open>entity/schema.py\<close> and the
  record format) is what an entity is as text, \<open>EntityStore\<close> and \<open>EntityQuery\<close> (\<open>entity/store.py\<close>,
  \<open>entity/projection.py\<close>) its one read and write path with the numbering, \<open>EntityRaces\<close> several creators
  without a common lock, \<open>EntityCaps\<close> and \<open>EntitySites\<close> (\<open>workflow/handle.py\<close>) the entity capabilities of
  a workflow.  Records read back as written when their text has no white space at
  its ends (the reader strips it, and a theorem shows what that loses), numbers are not used twice, a site of a workflow mints one
  record at most.

  \<^bold>\<open>Turns.\<close>
  \<open>Repetition\<close> (\<open>agent/repetition.py\<close>, \<open>api/repetition_guard.py\<close>) finds a model that repeats itself,
  exactly when the text ends in a loop; \<open>TurnReduce\<close> and \<open>Thread\<close> (\<open>api/turns.py\<close>) are what a turn leaves
  in the stored thread, and what compaction and the reading of the thread make of it; \<open>ContextFit\<close>
  (\<open>kb/tokens.py\<close> and the context budget) fits it into a model's window.  Calls stay with their results
  in the history a turn is sent, no message is lost when a turn is stored, and what is sent fits.

  \<^bold>\<open>Schedules.\<close>
  \<open>Calendar\<close> is the part of \<open>datetime\<close> the schedules use.  \<open>Schedules\<close> and \<open>UserSchedules\<close>
  (\<open>workflow/triggers.py\<close>, \<open>workflow/user_schedules.py\<close>) say when a row fires, with its lint and decoding;
  \<open>ScheduleRules\<close> that the announced next run is the first moment the row is due.  \<open>TriggerClaims\<close> is the
  window ledger under concurrent pods, \<open>TriggerSweep\<close> (\<open>workflow/user_schedule_sweep.py\<close>) the sweeps over
  it and the panel that agrees with them.  \<open>ScheduleIndex\<close> (\<open>api/schedule_index.py\<close>,
  \<open>api/schedule_reconcile.py\<close>) remembers which items have schedule files.  \<open>RunAs\<close>
  (\<open>workflow/schedule_bindings.py\<close>, \<open>api/schedule_binding_routes.py\<close>) is whose name a schedule runs under,
  and \<open>Consents\<close> what that table promises: a name is there because its person put it there, wrote what
  runs or was named by a superuser, and a fire carries it exactly while the row stands, its person may
  run on the item and the workflow reads as consented to (or the workflow's text could not be read, when there is nothing to compare).

  \<^bold>\<open>How the code is represented.\<close>
  A class or struct is a record, an enum or union a datatype, a dict an association list in
  insertion order (\<open>WsPrelude\<close>), \<open>str\<close> a \<open>string\<close> (code points where the code folds or strips
  them), Python's integers \<open>int\<close>, float seconds and cores exact rationals except where rounding
  decides (sizes and core sums are IEEE doubles).  A raise is a value on the left of a sum type.
  What the code only calls is an argument: the shared store, SHA-256, JSON, YAML and CSV parsers,
  model turns, sandbox commands, clocks.  Loops of the code are structural or well-founded
  recursion; no result is proved only under the assumption that a loop returns.

  \<^bold>\<open>Not modelled.\<close>
  Messages and prompts keep their values, not their wording.  A check and the start of a sandbox
  or a write that follows it are one step, as a single pod runs them; the elements of a workflow's
  map run in order, where the code runs several at a time (a concurrency cap of zero, which would
  wait for ever, is left out with it).  JSON floats, hooks that raise, and logging are left out.
  The HTTP routes, the stores behind files and rows, the agent runner, ingestion and retrieval of
  knowledge, the configuration loader and the separate helper programs are I/O or glue around
  libraries.  Of the runs, the building of a handle, its credentials, a workflow whose loading raises and
  the release of a sandbox are left out; of the schedules, the conversion between time zones is an
  argument.  The windows of the day a run may take (\<open>api/run_windows.py\<close>), the turn reclaimer and the
  collection of blobs have logic of their own and are not modelled yet.
\<close>

end
